(* ===== verification/Prelude.thy ===== *)
theory Prelude
  imports Main
begin

section \<open>Prelude\<close>

text \<open>
  Types, outcomes and list lemmas shared by the component theories.

  \<^item> A C++ \<^verbatim>\<open>std::string\<close> that the composer handles is valid UTF-8 text; it is modelled by the
    list of its code points (type \<open>ustr\<close>). The theory \<open>Utf8\<close> models the byte level and proves
    that the two views agree. Where the code takes a size or an offset in bytes of a string, the
    model uses the functions \<open>byte_size\<close>, \<open>byte_take\<close> and \<open>byte_drop\<close> below.
  \<^item> A call that can throw, or a loop that can run forever, returns an \<open>outcome\<close>: \<open>Ret\<close> for a
    value, \<open>Throw\<close> for a C++ exception (the binaries are built without exceptions, so it ends the
    process) or for undefined behaviour, \<open>Timeout\<close> when the fuel of the model is used up.
\<close>

type_synonym byte = nat
type_synonym char32 = nat
type_synonym ustr = "char32 list"

subsection \<open>Outcomes\<close>

datatype cpp_exception = Out_of_range | Undefined_behaviour

datatype 'a outcome = Ret 'a | Throw cpp_exception | Timeout

fun obind :: "'a outcome \<Rightarrow> ('a \<Rightarrow> 'b outcome) \<Rightarrow> 'b outcome" where
  "obind (Ret x) f = f x"
| "obind (Throw e) f = Throw e"
| "obind Timeout f = Timeout"

lemma obind_Ret_iff [simp]: "obind m f = Ret y \<longleftrightarrow> (\<exists>x. m = Ret x \<and> f x = Ret y)"
  by (cases m) auto

lemma obind_Timeout_iff:
  "obind m f = Timeout \<longleftrightarrow> m = Timeout \<or> (\<exists>x. m = Ret x \<and> f x = Timeout)"
  by (cases m) auto

lemma obind_cong [fundef_cong]:
  "m = m' \<Longrightarrow> (\<And>x. m' = Ret x \<Longrightarrow> f x = f' x) \<Longrightarrow> obind m f = obind m' f'"
  by (cases m') auto

subsection \<open>Prefixes\<close>

fun starts_with :: "'a list \<Rightarrow> 'a list \<Rightarrow> bool" where
  "starts_with s [] = True"
| "starts_with [] (p # ps) = False"
| "starts_with (c # s) (p # ps) = (c = p \<and> starts_with s ps)"

lemma starts_with_iff: "starts_with s p \<longleftrightarrow> (\<exists>r. s = p @ r)"
  by (induction s p rule: starts_with.induct) auto

lemma starts_with_take: "starts_with s p \<longleftrightarrow> take (length p) s = p"
  by (induction s p rule: starts_with.induct) auto

lemma starts_with_append [simp]: "starts_with (p @ r) p"
  by (auto simp: starts_with_iff)

lemma starts_with_drop: "starts_with s p \<Longrightarrow> p @ drop (length p) s = s"
  by (auto simp: starts_with_iff)

definition ends_with :: "'a list \<Rightarrow> 'a list \<Rightarrow> bool" where
  "ends_with s t \<longleftrightarrow> length t \<le> length s \<and> drop (length s - length t) s = t"

lemma ends_with_iff: "ends_with s t \<longleftrightarrow> (\<exists>r. s = r @ t)"
proof
  assume "ends_with s t"
  then have "s = take (length s - length t) s @ t"
    by (metis append_take_drop_id ends_with_def)
  then show "\<exists>r. s = r @ t" ..
qed (auto simp: ends_with_def)

subsection \<open>The position of an element\<close>

text \<open>\<open>find_from\<close> is \<^verbatim>\<open>string::find\<close> of one character; \<open>None\<close> is \<^verbatim>\<open>npos\<close>.\<close>

fun find_char :: "'a list \<Rightarrow> 'a \<Rightarrow> nat option" where
  "find_char [] c = None"
| "find_char (x # xs) c = (if x = c then Some 0 else map_option Suc (find_char xs c))"

lemma find_char_Some_iff:
  "find_char s c = Some i \<longleftrightarrow> i < length s \<and> s ! i = c \<and> c \<notin> set (take i s)"
  by (induction s arbitrary: i) (auto simp: nth_Cons take_Cons split: nat.splits)

lemma find_char_None_iff [simp]: "find_char s c = None \<longleftrightarrow> c \<notin> set s"
  by (induction s) auto

definition find_char_from :: "'a list \<Rightarrow> 'a \<Rightarrow> nat \<Rightarrow> nat option" where
  "find_char_from s c pos = map_option (\<lambda>i. i + pos) (find_char (drop pos s) c)"

subsection \<open>Literals and splitting\<close>

text \<open>An ASCII literal of the source, and \<^verbatim>\<open>absl::StrSplit\<close> with empty parts kept.\<close>

definition ascii :: "string \<Rightarrow> ustr" where
  "ascii s = map of_char s"

fun StrSplit :: "char32 \<Rightarrow> ustr \<Rightarrow> ustr list" where
  "StrSplit d [] = [[]]"
| "StrSplit d (c # s) =
     (if c = d then [] # StrSplit d s
      else (case StrSplit d s of [] \<Rightarrow> [[c]] | w # ws \<Rightarrow> (c # w) # ws))"

lemma StrSplit_not_Nil [simp]: "StrSplit d s \<noteq> []"
  by (cases s) (auto split: list.splits)

subsection \<open>Code points and byte offsets\<close>

definition scalar :: "char32 \<Rightarrow> bool" where
  "scalar c \<longleftrightarrow> c < 0xD800 \<or> (0xE000 \<le> c \<and> c \<le> 0x10FFFF)"

definition valid_ustr :: "ustr \<Rightarrow> bool" where
  "valid_ustr s \<longleftrightarrow> (\<forall>c \<in> set s. scalar c)"

lemma valid_ustr_simps [simp]:
  "valid_ustr []"
  "valid_ustr (c # s) \<longleftrightarrow> scalar c \<and> valid_ustr s"
  "valid_ustr (s @ t) \<longleftrightarrow> valid_ustr s \<and> valid_ustr t"
  by (auto simp: valid_ustr_def)

lemma valid_ustr_take_drop: "valid_ustr s \<Longrightarrow> valid_ustr (take n s) \<and> valid_ustr (drop n s)"
  by (auto simp: valid_ustr_def dest: in_set_takeD in_set_dropD)

text \<open>The number of bytes of the UTF-8 encoding of a character and of a string.\<close>

definition char_size :: "char32 \<Rightarrow> nat" where
  "char_size c = (if c \<le> 0x7f then 1 else if c \<le> 0x7ff then 2 else if c \<le> 0xffff then 3 else 4)"

fun byte_size :: "ustr \<Rightarrow> nat" where
  "byte_size [] = 0"
| "byte_size (c # s) = char_size c + byte_size s"

lemma char_size_bounds: "1 \<le> char_size c \<and> char_size c \<le> 4"
  by (simp add: char_size_def)

lemma char_size_pos [simp]: "0 < char_size c"
  by (simp add: char_size_def)

lemma byte_size_append [simp]: "byte_size (s @ t) = byte_size s + byte_size t"
  by (induction s) auto

lemma byte_size_0_iff [simp]: "byte_size s = 0 \<longleftrightarrow> s = []"
  by (cases s) (auto simp: char_size_def)

lemma length_le_byte_size: "length s \<le> byte_size s"
proof (induction s)
  case (Cons c s)
  then show ?case by (simp add: char_size_def)
qed simp

text \<open>
  The suffix of a string from a byte offset on, and its prefix of a number of bytes. An offset
  inside a character leaves bytes that are no UTF-8 text, which every reader of the code base
  decodes to U+FFFD: one for each trailing byte that is left over, and one for a truncated
  character.
\<close>

fun byte_drop :: "nat \<Rightarrow> ustr \<Rightarrow> ustr" where
  "byte_drop n [] = []"
| "byte_drop n (c # s) =
     (if n = 0 then c # s
      else if char_size c \<le> n then byte_drop (n - char_size c) s
      else replicate (char_size c - n) 0xFFFD @ s)"

fun byte_take :: "nat \<Rightarrow> ustr \<Rightarrow> ustr" where
  "byte_take n [] = []"
| "byte_take n (c # s) =
     (if n = 0 then []
      else if char_size c \<le> n then c # byte_take (n - char_size c) s
      else [0xFFFD])"

lemma byte_drop_0 [simp]: "byte_drop 0 s = s"
  by (cases s) auto

lemma byte_take_0 [simp]: "byte_take 0 s = []"
  by (cases s) auto

lemma byte_drop_prefix [simp]: "byte_drop (byte_size p) (p @ r) = r"
  by (induction p) auto

lemma byte_take_prefix [simp]: "byte_take (byte_size p) (p @ r) = p"
  by (induction p) auto

lemma byte_drop_all [simp]: "byte_drop (byte_size p) p = []"
  using byte_drop_prefix [of p "[]"] by simp

end
