(* ===== verification/Utf8.thy ===== *)
theory Utf8
  imports Prelude "HOL-Library.Word"
begin

unbundle bit_operations_syntax

section \<open>UTF-8 encoding and decoding\<close>

text \<open>
  The two UTF-8 codecs of the code base: the one of \<^verbatim>\<open>base/strings/internal/utf8_internal\<close> with
  its users in \<^verbatim>\<open>base/strings/unicode\<close>, and the older one of \<^verbatim>\<open>base/util\<close>. A pair of pointers
  \<^verbatim>\<open>[ptr, last)\<close> is the list of the bytes between them; a byte is a number below 256 (\<open>bytes\<close>).
\<close>

definition bytes :: "byte list \<Rightarrow> bool" where
  "bytes bs \<longleftrightarrow> (\<forall>b \<in> set bs. b < 256)"

lemma bytes_simps [simp]:
  "bytes []" "bytes (b # bs) \<longleftrightarrow> b < 256 \<and> bytes bs"
  "bytes (bs @ cs) \<longleftrightarrow> bytes bs \<and> bytes cs"
  by (auto simp: bytes_def)

subsection \<open>utf8_internal\<close>

definition kReplacementCharacter :: char32 where
  "kReplacementCharacter = 0xfffd"

definition kUtf8LenTbl :: "nat list" where
  "kUtf8LenTbl = replicate 0xC2 1 @ replicate 30 2 @ replicate 16 3 @ replicate 5 4 @ replicate 11 1"

definition OneCharLen :: "byte \<Rightarrow> nat" where
  "OneCharLen c = kUtf8LenTbl ! c"

record byte_boundary =
  bmin :: byte
  bmax :: byte

definition GenerateSecondByteBoundary :: "nat \<Rightarrow> byte_boundary" where
  "GenerateSecondByteBoundary n =
     (if n < 0xc2 \<or> 0xf4 < n then \<lparr>bmin = 0xff, bmax = 0x00\<rparr>
      else if n = 0xe0 then \<lparr>bmin = 0xa0, bmax = 0xbf\<rparr>
      else if n = 0xed then \<lparr>bmin = 0x80, bmax = 0x9f\<rparr>
      else if n = 0xf0 then \<lparr>bmin = 0x90, bmax = 0xbf\<rparr>
      else if n = 0xf4 then \<lparr>bmin = 0x80, bmax = 0x8f\<rparr>
      else \<lparr>bmin = 0x80, bmax = 0xbf\<rparr>)"

definition IsTrailingByte :: "byte \<Rightarrow> bool" where
  "IsTrailingByte c \<longleftrightarrow> c AND 0xc0 = 0x80"

text \<open>The template parameter \<^verbatim>\<open>Needed\<close> is an argument; the specialization is the case 2.\<close>

definition IsValidSecondByte :: "int \<Rightarrow> byte \<Rightarrow> byte \<Rightarrow> bool" where
  "IsValidSecondByte needed leading_byte second_byte =
     (if needed = 2 then IsTrailingByte second_byte
      else (let boundary = GenerateSecondByteBoundary leading_byte
            in bmin boundary \<le> second_byte \<and> second_byte \<le> bmax boundary))"

record decode_result =
  code_point :: char32
  dr_ok :: bool
  bytes_seen :: nat

definition Continue :: "char32 \<Rightarrow> nat \<Rightarrow> decode_result" where
  "Continue cp seen = \<lparr>code_point = cp, dr_ok = True, bytes_seen = seen\<rparr>"

definition DecodeError :: "nat \<Rightarrow> decode_result" where
  "DecodeError seen = \<lparr>code_point = kReplacementCharacter, dr_ok = False, bytes_seen = seen\<rparr>"

definition Sentinel :: decode_result where
  "Sentinel = \<lparr>code_point = 0, dr_ok = False, bytes_seen = 0\<rparr>"

fun skip_trailing :: "byte list \<Rightarrow> nat \<Rightarrow> nat" where
  "skip_trailing [] seen = seen"
| "skip_trailing (b # bs) seen = (if \<not> IsTrailingByte b then seen else skip_trailing bs (seen + 1))"

fun HandleBufferTooShort :: "byte list \<Rightarrow> decode_result" where
  "HandleBufferTooShort [] = DecodeError 1"
| "HandleBufferTooShort [leading_byte] = DecodeError 1"
| "HandleBufferTooShort (leading_byte # b # bs) =
     (if \<not> IsValidSecondByte (-1) leading_byte b then DecodeError 1
      else DecodeError (skip_trailing bs 2))"

definition AppendTrailingByte :: "char32 \<Rightarrow> byte \<Rightarrow> char32" where
  "AppendTrailingByte base b = push_bit 6 base + (b AND 0x3f)"

text \<open>The loop over the third and fourth bytes; \<open>i\<close> is the loop variable.\<close>

fun decode_rest :: "nat \<Rightarrow> nat \<Rightarrow> char32 \<Rightarrow> byte list \<Rightarrow> decode_result" where
  "decode_rest needed i base [] = Continue base needed"
| "decode_rest needed i base (b # ptr) =
     (if \<not> i < needed then Continue base needed
      else if \<not> IsTrailingByte b then DecodeError i
      else decode_rest needed (i + 1) (AppendTrailingByte base b) ptr)"

fun DecodeSequence :: "nat \<Rightarrow> byte list \<Rightarrow> byte \<Rightarrow> decode_result" where
  "DecodeSequence needed (leading_byte # b # ptr) msk =
     (if \<not> IsValidSecondByte (int needed) leading_byte b then DecodeError 1
      else decode_rest needed 2 (AppendTrailingByte (leading_byte AND msk) b) ptr)"
| "DecodeSequence needed bs msk = DecodeError 1"

definition Decode :: "byte list \<Rightarrow> decode_result" where
  "Decode bs =
     (case bs of [] \<Rightarrow> Sentinel
      | b # _ \<Rightarrow>
         if b < 0x80 then Continue b 1
         else (let needed = OneCharLen b in
           if length bs < needed then HandleBufferTooShort bs
           else if needed = 3 then DecodeSequence 3 bs 0x0f
           else if needed = 2 then DecodeSequence 2 bs 0x1f
           else if needed = 4 then DecodeSequence 4 bs 0x07
           else DecodeError 1))"

text \<open>The cast to \<^verbatim>\<open>char\<close> keeps the low eight bits.\<close>

definition to_char :: "nat \<Rightarrow> byte" where
  "to_char n = take_bit 8 n"

fun encode_trailing :: "char32 \<Rightarrow> nat \<Rightarrow> byte list" where
  "encode_trailing cp 0 = []"
| "encode_trailing cp (Suc count) =
     (let temp = to_char (drop_bit (6 * count) cp)
      in (0x80 OR (temp AND 0x3f)) # encode_trailing cp count)"

definition EncodeSequence :: "char32 \<Rightarrow> nat \<Rightarrow> byte \<Rightarrow> byte list" where
  "EncodeSequence cp count offset =
     to_char (drop_bit (6 * count) cp + offset) # encode_trailing cp count"

definition Encode :: "char32 \<Rightarrow> byte list" where
  "Encode cp0 =
     (let cp = (if cp0 \<le> 0x10ffff then cp0 else kReplacementCharacter) in
      if cp \<le> 0x7f then [to_char cp]
      else if cp \<le> 0x7ff then EncodeSequence cp 1 0xc0
      else if cp \<le> 0xffff then EncodeSequence cp 2 0xe0
      else EncodeSequence cp 3 0xf0)"

subsection \<open>unicode.cc\<close>

lemma skip_trailing_ge: "seen \<le> skip_trailing bs seen"
  by (induction bs seen rule: skip_trailing.induct) auto

lemma decode_rest_seen: "0 < needed \<Longrightarrow> 0 < i \<Longrightarrow> 0 < bytes_seen (decode_rest needed i base bs)"
  by (induction needed i base bs rule: decode_rest.induct)
    (auto simp: Continue_def DecodeError_def)

lemma HandleBufferTooShort_seen: "0 < bytes_seen (HandleBufferTooShort bs)"
  using skip_trailing_ge [of 2] by (cases bs rule: HandleBufferTooShort.cases)
    (auto simp: DecodeError_def intro: less_le_trans [OF _ skip_trailing_ge])

lemma DecodeSequence_seen: "0 < needed \<Longrightarrow> 0 < bytes_seen (DecodeSequence needed bs msk)"
  by (cases "(needed, bs, msk)" rule: DecodeSequence.cases)
    (auto simp: DecodeError_def decode_rest_seen)

lemma Decode_progress: "bs \<noteq> [] \<Longrightarrow> 0 < bytes_seen (Decode bs)"
  by (auto simp: Decode_def Let_def Continue_def DecodeError_def HandleBufferTooShort_seen
      DecodeSequence_seen split: list.splits)

function IsValidUtf8 :: "byte list \<Rightarrow> bool" where
  "IsValidUtf8 sv =
     (if sv = [] then True
      else let dr = Decode sv in
        if \<not> dr_ok dr then False else IsValidUtf8 (drop (bytes_seen dr) sv))"
  by pat_completeness auto
termination
  by (relation "measure length") (auto simp: Decode_progress)

function Utf8ToUtf32 :: "byte list \<Rightarrow> char32 list" where
  "Utf8ToUtf32 sv =
     (if sv = [] then []
      else let dr = Decode sv in code_point dr # Utf8ToUtf32 (drop (bytes_seen dr) sv))"
  by pat_completeness auto
termination
  by (relation "measure length") (auto simp: Decode_progress)

declare IsValidUtf8.simps [simp del] Utf8ToUtf32.simps [simp del]

definition StrAppendChar32 :: "byte list \<Rightarrow> char32 \<Rightarrow> byte list" where
  "StrAppendChar32 dest cp = (if cp = 0 then dest else dest @ Encode cp)"

definition Utf32ToUtf8 :: "char32 list \<Rightarrow> byte list" where
  "Utf32ToUtf8 sv = fold (\<lambda>c result. StrAppendChar32 result c) sv []"

lemma kUtf8LenTbl_pos: "0 < OneCharLen c" if "c < 256"
proof -
  have "\<forall>x \<in> set kUtf8LenTbl. 0 < x" by (auto simp: kUtf8LenTbl_def)
  moreover have "length kUtf8LenTbl = 256" by (simp add: kUtf8LenTbl_def)
  ultimately show ?thesis using that by (auto simp: OneCharLen_def)
qed


subsection \<open>Bit operations as arithmetic\<close>

lemma and_low_bits:
  "(x::nat) AND 0x3f = x mod 64" "x AND 0x1f = x mod 32" "x AND 0x0f = x mod 16" "x AND 0x07 = x mod 8"
proof -
  have *: "x AND mask n = x mod 2 ^ n" for n
    by (simp add: take_bit_eq_mod flip: take_bit_eq_mask)
  from *[of 6] *[of 5] *[of 4] *[of 3]
  show "x AND 0x3f = x mod 64" "x AND 0x1f = x mod 32" "x AND 0x0f = x mod 16" "x AND 0x07 = x mod 8"
    by (simp_all add: mask_eq_exp_minus_1)
qed

lemma or_0x80: "(0x80::nat) OR y = 0x80 + y" if "y < 64"
proof -
  have "(0x80::nat) AND y = 0"
  proof (rule bit_eqI)
    fix n
    have "y = take_bit 6 y" using that by (simp add: take_bit_eq_mod)
    then have "bit y n \<Longrightarrow> n < 6" by (metis bit_take_bit_iff)
    moreover have "bit (0x80::nat) n \<longleftrightarrow> n = 7" 
      using bit_exp_iff [of 7 n, where 'a=nat] by auto
    ultimately show "bit (0x80 AND y) n = bit (0::nat) n" by (auto simp: bit_and_iff)
  qed
  then show ?thesis using disjunctive_add_eq_or [of "0x80::nat" y] by simp
qed


lemma and_0xc0: "c AND 0xc0 = 64 * (c div 64)" if "c < 256" for c :: nat
proof (rule bit_eqI)
  fix n
  have "(0xc0::nat) = push_bit 6 (mask 2)" by (simp add: push_bit_eq_mult mask_eq_exp_minus_1)
  then have "bit (0xc0::nat) n \<longleftrightarrow> 6 \<le> n \<and> n < 8"
    by (simp only: bit_push_bit_iff bit_mask_iff) auto
  moreover have "64 * (c div 64) = push_bit 6 (drop_bit 6 c)"
    by (simp add: push_bit_eq_mult drop_bit_eq_div)
  moreover have "c = take_bit 8 c" using that by (simp add: take_bit_eq_mod)
  then have "bit c n \<Longrightarrow> n < 8" by (metis bit_take_bit_iff)
  ultimately show "bit (c AND 0xc0) n = bit (64 * (c div 64)) n"
    by (auto simp: bit_simps)
qed

lemma IsTrailingByte_iff: "c < 256 \<Longrightarrow> IsTrailingByte c \<longleftrightarrow> 0x80 \<le> c \<and> c < 0xC0"
  by (simp add: IsTrailingByte_def and_0xc0) linarith

lemma nth_replicate_append:
  "(replicate n x @ xs) ! i = (if i < n then x else xs ! (i - n))"
  by (simp add: nth_append)

lemma OneCharLen_eq:
  assumes "c < 256"
  shows "OneCharLen c = (if c < 0xC2 then 1 else if c < 0xE0 then 2 else if c < 0xF0 then 3
     else if c < 0xF5 then 4 else 1)"
proof -
  consider "c < 0xC2" | "0xC2 \<le> c \<and> c < 0xE0" | "0xE0 \<le> c \<and> c < 0xF0" | "0xF0 \<le> c \<and> c < 0xF5" | "0xF5 \<le> c"
    by linarith
  then show ?thesis
    by cases (use assms in \<open>auto simp: OneCharLen_def kUtf8LenTbl_def nth_replicate_append\<close>)
qed

lemma to_char_mod: "to_char n = n mod 256"
  by (simp add: to_char_def take_bit_eq_mod)

lemma encode_trailing_byte: "0x80 OR (to_char n AND 0x3f) = 0x80 + n mod 64"
  by (simp add: and_low_bits to_char_mod or_0x80 mod_mod_cancel)

lemma drop_bit_6: "drop_bit (6 * k) (n::nat) = n div 64 ^ k"
  by (simp add: drop_bit_eq_div power_mult)

lemma encode_trailing_Suc:
  "encode_trailing cp (Suc k) = (0x80 + cp div 64 ^ k mod 64) # encode_trailing cp k"
  by (simp only: encode_trailing.simps Let_def encode_trailing_byte drop_bit_6)

lemma encode_trailing_simps:
  "encode_trailing cp 1 = [0x80 + cp mod 64]"
  "encode_trailing cp 2 = [0x80 + cp div 64 mod 64, 0x80 + cp mod 64]"
  "encode_trailing cp 3 = [0x80 + cp div 4096 mod 64, 0x80 + cp div 64 mod 64, 0x80 + cp mod 64]"
  by (simp_all only: encode_trailing_Suc encode_trailing.simps(1) One_nat_def numeral_2_eq_2 numeral_3_eq_3)
    simp_all

lemma EncodeSequence_eq:
  "EncodeSequence cp k offset = (cp div 64 ^ k + offset) mod 256 # encode_trailing cp k"
  by (simp only: EncodeSequence_def drop_bit_6 to_char_mod)

lemma Encode_1: "c \<le> 0x7f \<Longrightarrow> Encode c = [c]"
  by (simp add: Encode_def to_char_mod)

lemma Encode_2: "0x7f < c \<Longrightarrow> c \<le> 0x7ff \<Longrightarrow> Encode c = [0xC0 + c div 64, 0x80 + c mod 64]"
  by (simp add: Encode_def EncodeSequence_eq encode_trailing_simps [simplified])

lemma Encode_3: "0x7ff < c \<Longrightarrow> c \<le> 0xffff \<Longrightarrow>
   Encode c = [0xE0 + c div 4096, 0x80 + c div 64 mod 64, 0x80 + c mod 64]"
  by (simp add: Encode_def EncodeSequence_eq encode_trailing_simps)

lemma Encode_4: "0xffff < c \<Longrightarrow> c \<le> 0x10ffff \<Longrightarrow>
   Encode c = [0xF0 + c div 262144, 0x80 + c div 4096 mod 64, 0x80 + c div 64 mod 64, 0x80 + c mod 64]"
  by (simp add: Encode_def EncodeSequence_eq encode_trailing_simps)

lemma mod_add_dvd: "k dvd a \<Longrightarrow> (a + x) mod k = (x::nat) mod k"
  by (auto elim!: dvdE)

lemma trail_mod: "(0x80 + x) mod 64 = (x::nat) mod 64"
  by (rule mod_add_dvd) simp

text \<open>The base-64 digits of a code point.\<close>

lemma base64_digits:
  fixes c :: nat
  shows "(c div 64) * 64 + c mod 64 = c"
    "((c div 4096) * 64 + c div 64 mod 64) * 64 + c mod 64 = c"
    "(((c div 262144) * 64 + c div 4096 mod 64) * 64 + c div 64 mod 64) * 64 + c mod 64 = c"
proof -
  have d: "c div 4096 = c div 64 div 64" "c div 262144 = c div 4096 div 64"
    by (simp_all flip: div_mult2_eq)
  show 1: "(c div 64) * 64 + c mod 64 = c" by simp
  have 2: "(c div 4096) * 64 + c div 64 mod 64 = c div 64" unfolding d by simp
  have 3: "(c div 262144) * 64 + c div 4096 mod 64 = c div 4096" unfolding d(2) by simp
  show "((c div 4096) * 64 + c div 64 mod 64) * 64 + c mod 64 = c"
    unfolding 2 by (rule 1)
  show "(((c div 262144) * 64 + c div 4096 mod 64) * 64 + c div 64 mod 64) * 64 + c mod 64 = c"
    unfolding 3 2 by (rule 1)
qed

lemma AppendTrailingByte_eq: "AppendTrailingByte base b = base * 64 + b mod 64"
  by (simp add: AppendTrailingByte_def and_low_bits push_bit_eq_mult)

lemma second_byte_simps:
  "IsValidSecondByte needed lead b \<longleftrightarrow>
    (if needed = 2 then IsTrailingByte b
     else if lead < 0xc2 \<or> 0xf4 < lead then False
     else if lead = 0xe0 then 0xa0 \<le> b \<and> b \<le> 0xbf
     else if lead = 0xed then 0x80 \<le> b \<and> b \<le> 0x9f
     else if lead = 0xf0 then 0x90 \<le> b \<and> b \<le> 0xbf
     else if lead = 0xf4 then 0x80 \<le> b \<and> b \<le> 0x8f
     else 0x80 \<le> b \<and> b \<le> 0xbf)"
  by (auto simp: IsValidSecondByte_def GenerateSecondByteBoundary_def Let_def)

lemma Decode_2:
  assumes "0xC2 \<le> l" "l < 0xE0" "0x80 \<le> b" "b < 0xC0"
  shows "Decode (l # b # bs) = Continue ((l mod 32) * 64 + b mod 64) 2"
  using assms by (cases bs) (auto simp: Decode_def OneCharLen_eq Let_def second_byte_simps IsTrailingByte_iff
      AppendTrailingByte_eq and_low_bits)

lemma Decode_3:
  assumes "0xE0 \<le> l" "l < 0xF0" "IsValidSecondByte 3 l b" "0x80 \<le> c" "c < 0xC0"
  shows "Decode (l # b # c # bs) = Continue (((l mod 16) * 64 + b mod 64) * 64 + c mod 64) 3"
  using assms by (cases bs) (auto simp: Decode_def OneCharLen_eq Let_def IsTrailingByte_iff
      AppendTrailingByte_eq and_low_bits)

lemma Decode_4:
  assumes "0xF0 \<le> l" "l < 0xF5" "IsValidSecondByte 4 l b" "0x80 \<le> c" "c < 0xC0" "0x80 \<le> d" "d < 0xC0"
  shows "Decode (l # b # c # d # bs) =
    Continue ((((l mod 8) * 64 + b mod 64) * 64 + c mod 64) * 64 + d mod 64) 4"
  using assms by (cases bs) (auto simp: Decode_def OneCharLen_eq Let_def IsTrailingByte_iff
      AppendTrailingByte_eq and_low_bits)


lemma Decode_Encode_3:
  assumes "0x7ff < c" "c \<le> 0xffff" "scalar c"
  shows "Decode (Encode c @ bs) = Continue c 3"
proof -
  let ?l = "0xE0 + c div 4096" and ?b = "0x80 + c div 64 mod 64" and ?d = "0x80 + c mod 64"
  have l: "0xE0 \<le> ?l" "?l < 0xF0" using assms by auto
  have d: "0x80 \<le> ?d" "?d < 0xC0" by auto
  have b: "?b < 0xC0" by auto
  have "c div 4096 = 0 \<Longrightarrow> 32 \<le> c div 64 mod 64" using assms(1) by (simp add: div_eq_0_iff)
  moreover have "c div 4096 = 13 \<Longrightarrow> c div 64 mod 64 < 32" 
  proof -
    assume "c div 4096 = 13"
    then have "c < 0xE000" by linarith
    then have "c < 0xD800" using assms(3) by (simp add: scalar_def)
    then have "c div 64 < 864" by simp
    moreover have "c div 64 = 13 * 64 + c div 64 mod 64"
      using \<open>c div 4096 = 13\<close> base64_digits(2) [of c] by simp
    ultimately show ?thesis by linarith
  qed
  ultimately have "IsValidSecondByte 3 ?l ?b" using b l by (auto simp: second_byte_simps)
  then have "Decode (?l # ?b # ?d # bs) = Continue (((?l mod 16) * 64 + ?b mod 64) * 64 + ?d mod 64) 3"
    by (intro Decode_3 l d)
  moreover have "((?l mod 16) * 64 + ?b mod 64) * 64 + ?d mod 64 = c"
    using l base64_digits(2) [of c] by (simp add: trail_mod mod_add_dvd)
  ultimately show ?thesis using assms by (simp add: Encode_3)
qed

lemma Decode_Encode_4:
  assumes "0xffff < c" "c \<le> 0x10ffff"
  shows "Decode (Encode c @ bs) = Continue c 4"
proof -
  let ?l = "0xF0 + c div 262144" and ?b = "0x80 + c div 4096 mod 64"
    and ?d = "0x80 + c div 64 mod 64" and ?e = "0x80 + c mod 64"
  have l: "0xF0 \<le> ?l" "?l < 0xF5" using assms by auto
  have d: "0x80 \<le> ?d" "?d < 0xC0" "0x80 \<le> ?e" "?e < 0xC0" by auto
  have b: "?b < 0xC0" by auto
  have top: "c div 4096 = (c div 262144) * 64 + c div 4096 mod 64"
    using div_mult2_eq [of c 4096 64] by simp
  have "16 \<le> c div 4096" "c div 4096 < 272" using assms by auto
  then have "c div 262144 = 0 \<Longrightarrow> 16 \<le> c div 4096 mod 64"
    and "c div 262144 = 4 \<Longrightarrow> c div 4096 mod 64 < 16" using top by linarith+
  moreover note b
  ultimately have "IsValidSecondByte 4 ?l ?b" using l by (auto simp: second_byte_simps)
  then have "Decode (?l # ?b # ?d # ?e # bs) =
      Continue ((((?l mod 8) * 64 + ?b mod 64) * 64 + ?d mod 64) * 64 + ?e mod 64) 4"
    by (intro Decode_4 l d)
  moreover have "(((?l mod 8) * 64 + ?b mod 64) * 64 + ?d mod 64) * 64 + ?e mod 64 = c"
    using l base64_digits(3) [of c] by (simp add: trail_mod mod_add_dvd)
  ultimately show ?thesis using assms by (simp add: Encode_4)
qed

lemma Decode_Encode_2:
  assumes "0x7f < c" "c \<le> 0x7ff"
  shows "Decode (Encode c @ bs) = Continue c 2"
proof -
  let ?l = "0xC0 + c div 64" and ?b = "0x80 + c mod 64"
  have l: "0xC2 \<le> ?l" "?l < 0xE0" using assms by auto
  have b: "0x80 \<le> ?b" "?b < 0xC0" by auto
  have "Decode (?l # ?b # bs) = Continue ((?l mod 32) * 64 + ?b mod 64) 2"
    by (intro Decode_2 l b)
  moreover have "(?l mod 32) * 64 + ?b mod 64 = c"
    using l by (simp add: trail_mod mod_add_dvd)
  ultimately show ?thesis using assms by (simp add: Encode_2)
qed

lemma Decode_Encode: 
  assumes "scalar c"
  shows "Decode (Encode c @ bs) = Continue c (char_size c)"
proof -
  consider "c \<le> 0x7f" | "0x7f < c" "c \<le> 0x7ff" | "0x7ff < c" "c \<le> 0xffff" | "0xffff < c" "c \<le> 0x10ffff"
    using assms unfolding scalar_def by linarith
  then show ?thesis
  proof cases
    case 1
    then show ?thesis by (simp add: Encode_1 Decode_def char_size_def)
  qed (use assms in \<open>simp_all add: Decode_Encode_2 Decode_Encode_3 Decode_Encode_4 char_size_def\<close>)
qed

lemma length_Encode: "c \<le> 0x10ffff \<Longrightarrow> length (Encode c) = char_size c"
  by (cases "c \<le> 0x7f"; cases "c \<le> 0x7ff"; cases "c \<le> 0xffff")
    (simp_all add: Encode_1 Encode_2 Encode_3 Encode_4 char_size_def)

subsection \<open>Texts\<close>

definition encode_ustr :: "ustr \<Rightarrow> byte list" where
  "encode_ustr s = concat (map Encode s)"

lemma encode_ustr_simps [simp]:
  "encode_ustr [] = []" "encode_ustr (c # s) = Encode c @ encode_ustr s"
  "encode_ustr (s @ t) = encode_ustr s @ encode_ustr t"
  by (simp_all add: encode_ustr_def)

lemma scalar_le: "scalar c \<Longrightarrow> c \<le> 0x10ffff"
  by (auto simp: scalar_def)

lemma Encode_not_Nil [simp]: "Encode c \<noteq> []"
  by (simp add: Encode_def EncodeSequence_def Let_def)

lemma Utf8ToUtf32_encode_append:
  "valid_ustr s \<Longrightarrow> Utf8ToUtf32 (encode_ustr s @ bs) = s @ Utf8ToUtf32 bs"
proof (induction s)
  case (Cons c s)
  then show ?case
    by (subst Utf8ToUtf32.simps)
      (simp add: Decode_Encode Continue_def Let_def length_Encode [symmetric] scalar_le)
qed simp

lemma IsValidUtf8_encode: "valid_ustr s \<Longrightarrow> IsValidUtf8 (encode_ustr s)"
proof (induction s)
  case (Cons c s)
  then show ?case
    by (subst IsValidUtf8.simps)
      (simp add: Decode_Encode Continue_def Let_def length_Encode [symmetric] scalar_le)
qed (simp add: IsValidUtf8.simps)

lemma decode_rest_ok:
  "dr_ok (decode_rest needed i base bs) \<Longrightarrow> bytes_seen (decode_rest needed i base bs) = needed"
  by (induction needed i base bs rule: decode_rest.induct)
    (auto simp: Continue_def DecodeError_def split: if_splits)

lemma mod_div_digit: "x < 64 \<Longrightarrow> (a * 64 + x) div 64 = a \<and> (a * 64 + x) mod 64 = (x::nat)"
  by simp

lemma base64_compose:
  fixes w x y z :: nat
  assumes "x < 64" "y < 64" "z < 64"
  defines "c \<equiv> ((w * 64 + x) * 64 + y) * 64 + z"
  shows "c mod 64 = z" "c div 64 mod 64 = y" "c div 4096 mod 64 = x"
    "c div 64 = (w * 64 + x) * 64 + y" "c div 4096 = w * 64 + x" "c div 262144 = w"
proof -
  have d: "c div 4096 = c div 64 div 64" "c div 262144 = c div 4096 div 64"
    by (simp_all flip: div_mult2_eq)
  show 1: "c mod 64 = z" "c div 64 = (w * 64 + x) * 64 + y"
    using assms(3) by (simp_all only: c_def mod_div_digit)
  show 2: "c div 64 mod 64 = y" "c div 4096 = w * 64 + x"
    using assms(2) by (simp_all only: d 1 mod_div_digit)
  show "c div 4096 mod 64 = x" "c div 262144 = w"
    using assms(1) by (simp_all only: d(2) 2 mod_div_digit)
qed

text \<open>What a successful decoding step has read is the encoding of the code point it returns.\<close>

lemma Encode_of_2:
  assumes "0xC2 \<le> l" "l < 0xE0" "0x80 \<le> b" "b < 0xC0"
  shows "Encode ((l mod 32) * 64 + b mod 64) = [l, b] \<and> scalar ((l mod 32) * 64 + b mod 64)"
proof -
  have m: "l mod 32 = l - 0xC0" "b mod 64 = b - 0x80" using assms by (simp_all add: mod_if)
  define c where "c = (l - 0xC0) * 64 + (b - 0x80)"
  have "0x7f < c" "c \<le> 0x7ff" using assms by (auto simp: c_def)
  moreover have "c div 64 = l - 0xC0" "c mod 64 = b - 0x80"
    using mod_div_digit [of "b - 0x80"] assms by (auto simp: c_def)
  ultimately have "Encode c = [l, b]" "scalar c" using assms by (auto simp: Encode_2 scalar_def)
  then show ?thesis by (simp add: m c_def)
qed

lemma Encode_of_3:
  assumes "0xE0 \<le> l" "l < 0xF0" "IsValidSecondByte 3 l b" "b < 256" "0x80 \<le> d" "d < 0xC0"
  defines "c \<equiv> ((l mod 16) * 64 + b mod 64) * 64 + d mod 64"
  shows "Encode c = [l, b, d] \<and> scalar c"
proof -
  have b: "0x80 \<le> b" "b < 0xC0" "l = 0xE0 \<Longrightarrow> 0xA0 \<le> b" "l = 0xED \<Longrightarrow> b < 0xA0"
    using assms(1-3) by (auto simp: second_byte_simps split: if_splits)
  have m: "l mod 16 = l - 0xE0" "b mod 64 = b - 0x80" "d mod 64 = d - 0x80"
    using assms b by (simp_all add: mod_if)
  have c: "c = ((l - 0xE0) * 64 + (b - 0x80)) * 64 + (d - 0x80)" by (simp add: c_def m)
  have r: "0x7ff < c" "c \<le> 0xffff"
    using assms(1,2,5,6) b unfolding c by (cases "l = 0xE0"; auto)+
  have "scalar c"
  proof -
    consider "l < 0xED" | "l = 0xED" | "0xED < l" by linarith
    then show ?thesis
    proof cases
      case 1
      then have "l - 0xE0 \<le> 12" "b - 0x80 \<le> 63" "d - 0x80 \<le> 63" using b assms(6) by auto
      moreover have "x \<le> 12 \<Longrightarrow> y \<le> 63 \<Longrightarrow> z \<le> 63 \<Longrightarrow> (x * 64 + y) * 64 + z < 0xD800" for x y z :: nat
        by (simp add: add_mult_distrib mult.assoc)
      ultimately have "c < 0xD800" unfolding c by blast
      then show ?thesis by (simp add: scalar_def)
    next
      case 2
      then have "c < 0xD800" using b assms(5,6) unfolding c by simp
      then show ?thesis by (simp add: scalar_def)
    next
      case 3
      then have "14 \<le> l - 0xE0" by linarith
      then have "0xE000 \<le> c" unfolding c by (simp add: add_mult_distrib mult.assoc)
      then show ?thesis using r by (simp add: scalar_def)
    qed
  qed
  moreover have lt: "l - 0xE0 < 64" "b - 0x80 < 64" "d - 0x80 < 64" using assms(2,6) b by auto
  note digits = base64_compose [OF lt, of 0, unfolded mult_zero_left add_0, folded c]
  have "Encode c = [0xE0 + c div 4096, 0x80 + c div 64 mod 64, 0x80 + c mod 64]"
    using r by (rule Encode_3)
  then have "Encode c = [l, b, d]"
    unfolding digits(1,2,5) using assms(1,5) b(1) by simp
  ultimately show ?thesis by simp
qed

lemma Encode_of_4:
  assumes "0xF0 \<le> l" "l < 0xF5" "IsValidSecondByte 4 l b" "b < 256"
    "0x80 \<le> d" "d < 0xC0" "0x80 \<le> e" "e < 0xC0"
  defines "c \<equiv> (((l mod 8) * 64 + b mod 64) * 64 + d mod 64) * 64 + e mod 64"
  shows "Encode c = [l, b, d, e] \<and> scalar c"
proof -
  have b: "0x80 \<le> b" "b < 0xC0" "l = 0xF0 \<Longrightarrow> 0x90 \<le> b" "l = 0xF4 \<Longrightarrow> b < 0x90"
    using assms(1-3) by (auto simp: second_byte_simps split: if_splits)
  have m: "l mod 8 = l - 0xF0" "b mod 64 = b - 0x80" "d mod 64 = d - 0x80" "e mod 64 = e - 0x80"
    using assms b by (simp_all add: mod_if)
  have c: "c = (((l - 0xF0) * 64 + (b - 0x80)) * 64 + (d - 0x80)) * 64 + (e - 0x80)"
    by (simp add: c_def m)
  have r: "0xffff < c" using assms(1,5-8) b unfolding c by (cases "l = 0xF0") auto
  have le: "c \<le> 0x10ffff" using assms(1,2,5-8) b unfolding c by (cases "l = 0xF4") auto
  have lt: "b - 0x80 < 64" "d - 0x80 < 64" "e - 0x80 < 64" using assms b by auto
  note digits = base64_compose [OF lt, of "l - 0xF0", folded c]
  have "Encode c = [0xF0 + c div 262144, 0x80 + c div 4096 mod 64, 0x80 + c div 64 mod 64, 0x80 + c mod 64]"
    using r le by (rule Encode_4)
  also have "\<dots> = [l, b, d, e]"
    unfolding digits(1,2,3,6) using assms(1,5,7) b(1) by simp
  finally show ?thesis using r le by (simp add: scalar_def)
qed

lemma Decode_ok_1: "b < 0x80 \<Longrightarrow> Decode (b # bs) = Continue b 1"
  by (simp add: Decode_def)

lemma HandleBufferTooShort_not_ok: "\<not> dr_ok (HandleBufferTooShort bs)"
  by (cases bs rule: HandleBufferTooShort.cases) (auto simp: DecodeError_def)

lemma Decode_ok_prefix:
  assumes "bytes bs" "dr_ok (Decode bs)"
  shows "\<exists>c rest. scalar c \<and> bs = Encode c @ rest"
proof (cases bs)
  case Nil
  then show ?thesis using assms by (simp add: Decode_def Sentinel_def)
next
  case (Cons l ls)
  have l: "l < 256" using assms Cons by simp
  show ?thesis
  proof (cases "l < 0x80")
    case True
    then show ?thesis using Cons by (auto simp: Encode_1 scalar_def intro!: exI [of _ l])
  next
    case False
    have long: "OneCharLen l \<le> length bs"
      using assms(2) False Cons by (auto simp: Decode_def Let_def HandleBufferTooShort_not_ok split: if_splits)
    have "\<not> (l < 0xC2 \<or> 0xF5 \<le> l)"
    proof
      assume "l < 0xC2 \<or> 0xF5 \<le> l"
      then have "Decode bs = DecodeError 1" using False Cons l long
        by (auto simp: Decode_def OneCharLen_eq Let_def)
      then show False using assms(2) by (simp add: DecodeError_def)
    qed
    then consider "0xC2 \<le> l" "l < 0xE0" | "0xE0 \<le> l" "l < 0xF0" | "0xF0 \<le> l" "l < 0xF5" by linarith
    then show ?thesis
    proof cases
      case 1
      then have "2 \<le> length bs" using long by (simp add: OneCharLen_eq)
      then obtain b r where bs: "bs = l # b # r" using Cons by (cases ls) auto
      have "0x80 \<le> b" "b < 0xC0" using assms 1 bs
        by (auto simp: Decode_def OneCharLen_eq Let_def second_byte_simps IsTrailingByte_iff DecodeError_def split: if_splits)
      then show ?thesis using Encode_of_2 [of l b] 1 bs by (metis append_Cons append_Nil)
    next
      case 2
      then have "3 \<le> length bs" using long by (simp add: OneCharLen_eq)
      then obtain b d r where bs: "bs = l # b # d # r" using Cons
        by (cases ls; cases "tl ls") auto
      have "IsValidSecondByte 3 l b" "0x80 \<le> d" "d < 0xC0" "b < 256" using assms 2 bs
        by (auto simp: Decode_def OneCharLen_eq Let_def IsTrailingByte_iff DecodeError_def split: if_splits)
      then show ?thesis using Encode_of_3 [of l b d] 2 bs by (metis append_Cons append_Nil)
    next
      case 3
      then have "4 \<le> length bs" using long by (simp add: OneCharLen_eq)
      then obtain b d e r where bs: "bs = l # b # d # e # r" using Cons
        by (cases ls; cases "tl ls"; cases "tl (tl ls)") auto
      have "IsValidSecondByte 4 l b" "0x80 \<le> d" "d < 0xC0" "0x80 \<le> e" "e < 0xC0" "b < 256" using assms 3 bs
        by (auto simp: Decode_def OneCharLen_eq Let_def IsTrailingByte_iff DecodeError_def split: if_splits)
      then show ?thesis using Encode_of_4 [of l b d e] 3 bs by (metis append_Cons append_Nil)
    qed
  qed
qed

lemma bytes_Encode: "bytes (Encode c)"
proof -
  have "bytes (encode_trailing cp k)" for cp k
    by (induction k)
      (auto simp: encode_trailing_Suc simp del: encode_trailing.simps(2)
        intro: order_less_trans [of _ "0x80 + 64"])
  then show ?thesis
    by (auto simp: Encode_def Let_def EncodeSequence_def to_char_mod simp del: encode_trailing.simps)
qed

lemma bytes_drop: "bytes bs \<Longrightarrow> bytes (drop n bs)"
  by (auto simp: bytes_def dest: in_set_dropD)

lemma valid_utf8_encoded: "bytes bs \<Longrightarrow> IsValidUtf8 bs \<Longrightarrow> \<exists>s. valid_ustr s \<and> bs = encode_ustr s"
proof (induction bs rule: IsValidUtf8.induct)
  case (1 bs)
  show ?case
  proof (cases "bs = []")
    case True
    then show ?thesis by (auto intro: exI [of _ "[]"])
  next
    case False
    let ?n = "bytes_seen (Decode bs)"
    have ok: "dr_ok (Decode bs)" and rest: "IsValidUtf8 (drop ?n bs)"
      using "1.prems"(2) False by (auto simp: IsValidUtf8.simps [of bs] Let_def split: if_splits)
    obtain c r where c: "scalar c" "bs = Encode c @ r"
      using Decode_ok_prefix [OF "1.prems"(1) ok] by blast
    then have "?n = length (Encode c)"
      by (simp add: Decode_Encode Continue_def length_Encode scalar_le)
    then have r: "drop ?n bs = r" using c by simp
    obtain s where "valid_ustr s" "r = encode_ustr s"
      using "1.IH" [OF False refl] ok rest "1.prems"(1) c unfolding r by auto
    then show ?thesis using c by (intro exI [of _ "c # s"]) simp
  qed
qed

text \<open>The number of bytes, and the first byte of an encoded character.\<close>

lemma length_encode_ustr: "valid_ustr s \<Longrightarrow> length (encode_ustr s) = byte_size s"
  by (induction s) (auto simp: length_Encode scalar_le)

lemma OneCharLen_Encode: "scalar c \<Longrightarrow> OneCharLen (hd (Encode c)) = char_size c"
proof -
  assume c: "scalar c"
  consider "c \<le> 0x7f" | "0x7f < c" "c \<le> 0x7ff" | "0x7ff < c" "c \<le> 0xffff" | "0xffff < c" "c \<le> 0x10ffff"
    using c unfolding scalar_def by linarith
  then show ?thesis
  proof cases
    case 1
    then show ?thesis by (simp add: Encode_1 OneCharLen_eq char_size_def)
  next
    case 2
    then have "2 \<le> c div 64" "c div 64 < 32" by auto
    then show ?thesis using 2 by (simp add: Encode_2 OneCharLen_eq char_size_def)
  next
    case 3
    then have "c div 4096 < 16" by auto
    then show ?thesis using 3 by (simp add: Encode_3 OneCharLen_eq char_size_def)
  next
    case 4
    then have "c div 262144 < 5" by auto
    then show ?thesis using 4 by (simp add: Encode_4 OneCharLen_eq char_size_def)
  qed
qed

subsection \<open>base/util.cc\<close>

function Util_CharsLen :: "byte list \<Rightarrow> nat" where
  "Util_CharsLen str = (if str = [] \<or> OneCharLen (hd str) = 0 then 0
     else 1 + Util_CharsLen (drop (OneCharLen (hd str)) str))"
  by pat_completeness auto
termination
  by (relation "measure length") auto

text \<open>
  \<open>Util_Utf8SubString_from\<close> is the two-argument overload, \<open>Util_Utf8SubString\<close> the one with a
  length. \<^verbatim>\<open>begin\<close> is the list of bytes it points to.
\<close>

fun Util_Utf8SubString_from :: "byte list \<Rightarrow> nat \<Rightarrow> byte list" where
  "Util_Utf8SubString_from begin 0 = begin"
| "Util_Utf8SubString_from begin (Suc start) =
     (if begin = [] then begin
      else Util_Utf8SubString_from (drop (OneCharLen (hd begin)) begin) start)"

fun substr_end :: "byte list \<Rightarrow> nat \<Rightarrow> nat" where
  "substr_end src 0 = 0"
| "substr_end src (Suc l) =
     (if src = [] then 0
      else OneCharLen (hd src) + substr_end (drop (OneCharLen (hd src)) src) l)"

definition Util_Utf8SubString :: "byte list \<Rightarrow> nat \<Rightarrow> nat \<Rightarrow> byte list" where
  "Util_Utf8SubString src start len =
     (let s = Util_Utf8SubString_from src start in take (substr_end s len) s)"

text \<open>The decoder of one character: \<open>None\<close> is the result \<^verbatim>\<open>false\<close>.\<close>

fun split_trailing :: "nat \<Rightarrow> byte list \<Rightarrow> char32 \<Rightarrow> char32 option" where
  "split_trailing 0 bs res = Some res"
| "split_trailing (Suc n) [] res = None"
| "split_trailing (Suc n) (c # bs) res =
     (if \<not> IsTrailingByte c then None else split_trailing n bs (push_bit 6 res + (c AND 0x3f)))"

definition leading_byte_class :: "byte \<Rightarrow> (nat \<times> char32 \<times> char32 \<times> char32) option" where
  "leading_byte_class b =
     (if IsTrailingByte b then None
      else if b AND 0xe0 = 0xc0 then Some (2, 0x0080, 0x07ff, b AND 0x1f)
      else if b AND 0xf0 = 0xe0 then Some (3, 0x0800, 0xffff, b AND 0x0f)
      else if b AND 0xf8 = 0xf0 then Some (4, 0x010000, 0x1fffff, b AND 0x07)
      else if b AND 0xfc = 0xf8 then Some (5, 0x0200000, 0x3ffffff, b AND 0x03)
      else if b AND 0xfe = 0xfc then Some (6, 0x4000000, 0x7fffffff, b AND 0x01)
      else None)"

definition SplitFirstChar32 :: "byte list \<Rightarrow> (char32 \<times> byte list) option" where
  "SplitFirstChar32 s =
     (case s of [] \<Rightarrow> None
      | b # bs \<Rightarrow>
         if b < 0x80 then Some (b, bs)
         else (case leading_byte_class b of None \<Rightarrow> None
           | Some (len, min_value, max_value, res) \<Rightarrow>
               if length s < len then None
               else (case split_trailing (len - 1) bs res of None \<Rightarrow> None
                 | Some r \<Rightarrow> if r < min_value \<or> max_value < r then None
                             else Some (r, drop len s))))"

definition Util_CodepointToUtf8 :: "char32 \<Rightarrow> byte list" where
  "Util_CodepointToUtf8 c =
     (if c = 0 then []
      else if c < 0x00080 then [to_char (c AND 0xFF)]
      else if c < 0x00800 then
        [to_char (0xC0 + (drop_bit 6 c AND 0x1F)), to_char (0x80 + (c AND 0x3F))]
      else if c < 0x10000 then
        [to_char (0xE0 + (drop_bit 12 c AND 0x0F)), to_char (0x80 + (drop_bit 6 c AND 0x3F)),
         to_char (0x80 + (c AND 0x3F))]
      else if c < 0x200000 then
        [to_char (0xF0 + (drop_bit 18 c AND 0x07)), to_char (0x80 + (drop_bit 12 c AND 0x3F)),
         to_char (0x80 + (drop_bit 6 c AND 0x3F)), to_char (0x80 + (c AND 0x3F))]
      else if c < 0x8000000 then
        [to_char (0xF8 + (drop_bit 24 c AND 0x03)), to_char (0x80 + (drop_bit 18 c AND 0x3F)),
         to_char (0x80 + (drop_bit 12 c AND 0x3F)), to_char (0x80 + (drop_bit 6 c AND 0x3F)),
         to_char (0x80 + (c AND 0x3F))]
      else
        [to_char (0xFC + (drop_bit 30 c AND 0x01)), to_char (0x80 + (drop_bit 24 c AND 0x3F)),
         to_char (0x80 + (drop_bit 18 c AND 0x3F)), to_char (0x80 + (drop_bit 12 c AND 0x3F)),
         to_char (0x80 + (drop_bit 6 c AND 0x3F)), to_char (0x80 + (c AND 0x3F))])"


lemma Util_CharsLen_encode_append:
  "valid_ustr s \<Longrightarrow> Util_CharsLen (encode_ustr s @ bs) = length s + Util_CharsLen bs"
proof (induction s)
  case (Cons c s)
  then have "hd (Encode c @ encode_ustr s @ bs) = hd (Encode c)" by simp
  then show ?case using Cons
    by (subst Util_CharsLen.simps)
      (simp add: OneCharLen_Encode length_Encode [symmetric] scalar_le del: Util_CharsLen.simps)
qed simp

lemma Util_Utf8SubString_from_encode:
  "valid_ustr s \<Longrightarrow> Util_Utf8SubString_from (encode_ustr s) n = encode_ustr (drop n s)"
proof (induction n arbitrary: s)
  case (Suc n)
  then show ?case
    by (cases s) (simp_all add: OneCharLen_Encode length_Encode [symmetric] scalar_le)
qed simp

lemma substr_end_encode:
  "valid_ustr s \<Longrightarrow> substr_end (encode_ustr s) l = length (encode_ustr (take l s))"
proof (induction l arbitrary: s)
  case (Suc l)
  then show ?case
    by (cases s) (simp_all add: OneCharLen_Encode length_Encode [symmetric] scalar_le)
qed simp

lemma take_encode: "take (length (encode_ustr (take l s))) (encode_ustr s) = encode_ustr (take l s)"
proof -
  have "encode_ustr s = encode_ustr (take l s) @ encode_ustr (drop l s)"
    by (simp flip: encode_ustr_simps(3))
  then show ?thesis by (metis append_eq_conv_conj)
qed

lemma Util_Utf8SubString_encode:
  assumes "valid_ustr s"
  shows "Util_Utf8SubString (encode_ustr s) n l = encode_ustr (take l (drop n s))"
  using valid_ustr_take_drop [OF assms, of n]
  by (simp add: Util_Utf8SubString_def Let_def Util_Utf8SubString_from_encode [OF assms]
      substr_end_encode take_encode)

subsection \<open>The two decoders agree on what utf8_internal accepts\<close>

lemma and_high_bits: "(x::nat) AND 0xe0 = 32 * (x div 32)" "x AND 0xf0 = 16 * (x div 16)"
  "x AND 0xf8 = 8 * (x div 8)" if "x < 256"
proof -
  have *: "x AND push_bit n (mask (8 - n)) = push_bit n (drop_bit n x)" if "n \<le> 8" for n
  proof (rule bit_eqI)
    fix m
    have "x = take_bit 8 x" using \<open>x < 256\<close> by (simp add: take_bit_eq_mod)
    then have "bit x m \<Longrightarrow> m < 8" by (metis bit_take_bit_iff)
    then show "bit (x AND push_bit n (mask (8 - n))) m = bit (push_bit n (drop_bit n x)) m"
      using that by (auto simp: bit_simps)
  qed
  have m: "(0xe0::nat) = push_bit 5 (mask (8 - 5))" "(0xf0::nat) = push_bit 4 (mask (8 - 4))"
    "(0xf8::nat) = push_bit 3 (mask (8 - 3))"
    by (simp_all add: push_bit_eq_mult mask_eq_exp_minus_1)
  show "x AND 0xe0 = 32 * (x div 32)" "x AND 0xf0 = 16 * (x div 16)" "x AND 0xf8 = 8 * (x div 8)"
    unfolding m using * [of 5] * [of 4] * [of 3] by (simp_all add: push_bit_eq_mult drop_bit_eq_div)
qed

lemma leading_byte_class_eq:
  assumes "b < 256"
  shows "0xC0 \<le> b \<Longrightarrow> b < 0xE0 \<Longrightarrow> leading_byte_class b = Some (2, 0x80, 0x7ff, b mod 32)"
    "0xE0 \<le> b \<Longrightarrow> b < 0xF0 \<Longrightarrow> leading_byte_class b = Some (3, 0x800, 0xffff, b mod 16)"
    "0xF0 \<le> b \<Longrightarrow> b < 0xF8 \<Longrightarrow> leading_byte_class b = Some (4, 0x10000, 0x1fffff, b mod 8)"
proof -
  have 1: "b div 32 = 6" if "0xC0 \<le> b" "b < 0xE0" using that by auto
  have 2: "b div 16 = 14" "b div 32 = 7" if "0xE0 \<le> b" "b < 0xF0" using that by auto
  have 3: "b div 8 = 30" "b div 16 = 15" "b div 32 = 7" if "0xF0 \<le> b" "b < 0xF8" using that by auto
  show "0xC0 \<le> b \<Longrightarrow> b < 0xE0 \<Longrightarrow> leading_byte_class b = Some (2, 0x80, 0x7ff, b mod 32)"
    "0xE0 \<le> b \<Longrightarrow> b < 0xF0 \<Longrightarrow> leading_byte_class b = Some (3, 0x800, 0xffff, b mod 16)"
    "0xF0 \<le> b \<Longrightarrow> b < 0xF8 \<Longrightarrow> leading_byte_class b = Some (4, 0x10000, 0x1fffff, b mod 8)"
    using assms 1 2 3
    by (simp_all add: leading_byte_class_def IsTrailingByte_iff and_high_bits and_low_bits)
qed

lemma split_trailing_step:
  "w < 64 \<Longrightarrow> split_trailing (Suc n) ((0x80 + w) # bs) r = split_trailing n bs (r * 64 + w)"
  by (simp add: IsTrailingByte_iff and_low_bits push_bit_eq_mult trail_mod)

lemma split_trailing_digits:
  assumes "z < 64"
  shows "split_trailing (Suc 0) ((0x80 + z) # bs) r = Some (r * 64 + z)"
    "y < 64 \<Longrightarrow> split_trailing 2 ((0x80 + y) # (0x80 + z) # bs) r = Some ((r * 64 + y) * 64 + z)"
    "x < 64 \<Longrightarrow> y < 64 \<Longrightarrow> split_trailing 3 ((0x80 + x) # (0x80 + y) # (0x80 + z) # bs) r =
       Some (((r * 64 + x) * 64 + y) * 64 + z)"
  unfolding numeral_2_eq_2 numeral_3_eq_3
  using assms by (simp_all add: split_trailing_step del: split_trailing.simps(3))

lemma SplitFirstChar32_Encode:
  assumes "scalar c"
  shows "SplitFirstChar32 (Encode c @ bs) = Some (c, bs)"
proof -
  consider "c \<le> 0x7f" | "0x7f < c" "c \<le> 0x7ff" | "0x7ff < c" "c \<le> 0xffff" | "0xffff < c" "c \<le> 0x10ffff"
    using assms unfolding scalar_def by linarith
  then show ?thesis
  proof cases
    case 1
    then show ?thesis by (simp add: Encode_1 SplitFirstChar32_def)
  next
    case 2
    then have "c div 64 < 32" by auto
    then show ?thesis using 2 base64_digits(1) [of c]
      by (simp add: Encode_2 SplitFirstChar32_def leading_byte_class_eq split_trailing_digits mod_add_dvd del: split_trailing.simps)
  next
    case 3
    then have "c div 4096 < 16" by auto
    then show ?thesis using 3 base64_digits(2) [of c]
      by (simp add: Encode_3 SplitFirstChar32_def leading_byte_class_eq split_trailing_digits mod_add_dvd)
  next
    case 4
    then have "c div 262144 < 5" by auto
    then show ?thesis using 4 base64_digits(3) [of c]
      by (simp add: Encode_4 SplitFirstChar32_def leading_byte_class_eq split_trailing_digits mod_add_dvd)
  qed
qed

lemma Util_CodepointToUtf8_eq:
  assumes "scalar c" "c \<noteq> 0"
  shows "Util_CodepointToUtf8 c = Encode c"
proof -
  have m: "(x::nat) AND 0xff = x mod 256" for x
    using take_bit_eq_mask [of 8 x] by (simp add: take_bit_eq_mod mask_eq_exp_minus_1)
  have d: "c div 2 ^ 6 = c div 64" "c div 2 ^ 12 = c div 4096" "c div 2 ^ 18 = c div 262144"
    by simp_all
  consider "c \<le> 0x7f" | "0x7f < c" "c \<le> 0x7ff" | "0x7ff < c" "c \<le> 0xffff" | "0xffff < c" "c \<le> 0x10ffff"
    using assms unfolding scalar_def by linarith
  then show ?thesis
  proof cases
    case 1
    then show ?thesis using assms by (simp add: Encode_1 Util_CodepointToUtf8_def to_char_mod m)
  next
    case 2
    then have "c div 64 < 32" by auto
    then show ?thesis using 2 assms
      by (simp add: Encode_2 Util_CodepointToUtf8_def to_char_mod m and_low_bits drop_bit_eq_div)
  next
    case 3
    then have "c div 4096 < 16" by auto
    then show ?thesis using 3 assms
      by (simp add: Encode_3 Util_CodepointToUtf8_def to_char_mod and_low_bits drop_bit_eq_div)
  next
    case 4
    then have "c div 262144 < 8" by auto
    then show ?thesis using 4 assms
      by (simp add: Encode_4 Util_CodepointToUtf8_def to_char_mod and_low_bits drop_bit_eq_div)
  qed
qed

subsection \<open>Byte offsets into a text\<close>

lemma Decode_trailing: "0x80 \<le> b \<Longrightarrow> b < 0xC0 \<Longrightarrow> Decode (b # bs) = DecodeError 1"
  by (simp add: Decode_def OneCharLen_eq Let_def)

lemma Utf8ToUtf32_trailing:
  "(\<forall>b \<in> set ts. 0x80 \<le> b \<and> b < 0xC0) \<Longrightarrow>
   Utf8ToUtf32 (ts @ bs) = replicate (length ts) 0xFFFD @ Utf8ToUtf32 bs"
proof (induction ts)
  case (Cons b ts)
  then show ?case
    by (subst Utf8ToUtf32.simps)
      (simp add: Decode_trailing DecodeError_def kReplacementCharacter_def Let_def)
qed simp

lemma Encode_tl_trailing:
  assumes "c \<le> 0x10ffff"
  shows "\<forall>b \<in> set (tl (Encode c)). 0x80 \<le> b \<and> b < 0xC0"
  using assms by (cases "c \<le> 0x7f"; cases "c \<le> 0x7ff"; cases "c \<le> 0xffff")
    (auto simp: Encode_1 Encode_2 Encode_3 Encode_4 intro: order_less_trans [of _ "0x80 + 64"])

lemma drop_Encode_trailing:
  "c \<le> 0x10ffff \<Longrightarrow> 0 < n \<Longrightarrow> \<forall>b \<in> set (drop n (Encode c)). 0x80 \<le> b \<and> b < 0xC0"
  using Encode_tl_trailing [of c]
  by (cases n; cases "Encode c") (auto dest: in_set_dropD)

lemma byte_drop_bytes:
  "valid_ustr s \<Longrightarrow> Utf8ToUtf32 (drop n (encode_ustr s)) = byte_drop n s"
proof (induction s arbitrary: n)
  case Nil
  then show ?case by (simp add: Utf8ToUtf32.simps)
next
  case (Cons c s)
  note len = length_Encode [OF scalar_le, of c]
  consider "n = 0" | "0 < n" "char_size c \<le> n" | "0 < n" "n < char_size c" by linarith
  then show ?case
  proof cases
    case 1
    then show ?thesis using Cons.prems Utf8ToUtf32_encode_append [of "c # s" "[]"]
      by (simp add: Utf8ToUtf32.simps [of "[]"])
  next
    case 2
    then show ?thesis using Cons len by simp
  next
    case 3
    then have "Utf8ToUtf32 (drop n (Encode c) @ encode_ustr s) =
       replicate (char_size c - n) 0xFFFD @ Utf8ToUtf32 (encode_ustr s)"
      using Utf8ToUtf32_trailing [OF drop_Encode_trailing] Cons.prems len by (simp add: scalar_le)
    then show ?thesis using 3 Cons.prems Cons.IH [of 0] len by simp
  qed
qed

lemma Decode_truncated:
  assumes "scalar c" "0 < n" "n < char_size c"
  shows "Decode (take n (Encode c)) = DecodeError n"
proof -
  have ok: "dr_ok (Decode (Encode c))"
    using Decode_Encode [OF assms(1), of "[]"] by (simp add: Continue_def)
  have "0x7f < c" using assms by (auto simp: char_size_def split: if_splits)
  then consider "c \<le> 0x7ff" | "0x7ff < c" "c \<le> 0xffff" | "0xffff < c" "c \<le> 0x10ffff"
    using assms(1) unfolding scalar_def by linarith
  then show ?thesis
  proof cases
    case 1
    then have "n = 1" "2 \<le> c div 64" "c div 64 < 32"
      using assms \<open>0x7f < c\<close> by (auto simp: char_size_def split: if_splits)
    then show ?thesis using 1 \<open>0x7f < c\<close> by (simp add: Encode_2 Decode_def OneCharLen_eq)
  next
    case 2
    let ?l = "0xE0 + c div 4096" and ?b = "0x80 + c div 64 mod 64"
    have l: "?l < 0xF0" using 2 by auto
    have "IsValidSecondByte 3 ?l ?b"
      using ok 2 l by (simp add: Encode_3 Decode_def OneCharLen_eq DecodeError_def split: if_splits)
    then have "IsValidSecondByte (-1) ?l ?b" by (simp add: IsValidSecondByte_def)
    moreover have "n = 1 \<or> n = 2" using assms 2 by (auto simp: char_size_def)
    ultimately show ?thesis using 2 l by (auto simp: Encode_3 Decode_def OneCharLen_eq)
  next
    case 3
    let ?l = "0xF0 + c div 262144" and ?b = "0x80 + c div 4096 mod 64" and ?d = "0x80 + c div 64 mod 64"
    have l: "?l < 0xF5" using 3 by auto
    have "IsValidSecondByte 4 ?l ?b"
      using ok 3 l by (simp add: Encode_4 Decode_def OneCharLen_eq DecodeError_def split: if_splits)
    then have "IsValidSecondByte (-1) ?l ?b" by (simp add: IsValidSecondByte_def)
    moreover have "n = 1 \<or> n = 2 \<or> n = 3" using assms 3 by (auto simp: char_size_def)
    moreover have "IsTrailingByte ?d" by (subst IsTrailingByte_iff) auto
    ultimately show ?thesis using 3 l by (auto simp: Encode_4 Decode_def OneCharLen_eq)
  qed
qed

lemma byte_take_bytes:
  "valid_ustr s \<Longrightarrow> Utf8ToUtf32 (take n (encode_ustr s)) = byte_take n s"
proof (induction s arbitrary: n)
  case Nil
  then show ?case by (simp add: Utf8ToUtf32.simps)
next
  case (Cons c s)
  note len = length_Encode [OF scalar_le, of c]
  consider "n = 0" | "0 < n" "char_size c \<le> n" | "0 < n" "n < char_size c" by linarith
  then show ?case
  proof cases
    case 1
    then show ?thesis by (simp add: Utf8ToUtf32.simps [of "[]"])
  next
    case 2
    then show ?thesis using Cons len Utf8ToUtf32_encode_append [of "[c]"] by simp
  next
    case 3
    then have "take n (Encode c) \<noteq> []" "length (take n (Encode c)) = n"
      using len Cons.prems by auto
    then have "Utf8ToUtf32 (take n (Encode c)) = [0xFFFD]"
      using 3 Cons.prems
      by (subst Utf8ToUtf32.simps)
        (simp add: Decode_truncated DecodeError_def kReplacementCharacter_def Let_def Utf8ToUtf32.simps [of "[]"])
    then show ?thesis using 3 len Cons.prems by simp
  qed
qed

text \<open>What the string encoder writes: the encodings of the code points other than U+0000.\<close>

lemma Utf32ToUtf8_eq: "Utf32ToUtf8 s = encode_ustr (filter (\<lambda>c. c \<noteq> 0) s)"
proof -
  have "fold (\<lambda>c result. StrAppendChar32 result c) s bs = bs @ encode_ustr (filter (\<lambda>c. c \<noteq> 0) s)" for bs
    by (induction s arbitrary: bs) (simp_all add: StrAppendChar32_def)
  then show ?thesis by (simp add: Utf32ToUtf8_def)
qed

lemma valid_ustr_filter: "valid_ustr s \<Longrightarrow> valid_ustr (filter P s)"
  by (simp add: valid_ustr_def)

text \<open>
  \<open>C16\<close>: What \<^verbatim>\<open>Utf32ToUtf8\<close> writes for a list of Unicode scalar values is well-formed UTF-8, and decoding
  it with \<^verbatim>\<open>Utf8ToUtf32\<close> gives the list back without its U+0000, which the encoder drops, whatever follows
  in the buffer. Each single scalar value, U+0000 too, comes back from \<^verbatim>\<open>Encode\<close> and \<^verbatim>\<open>Decode\<close> with
  the number of bytes that were written.
\<close>

theorem utf8_roundtrip:
  assumes "valid_ustr s"
  shows "IsValidUtf8 (Utf32ToUtf8 s) \<and>
    Utf8ToUtf32 (Utf32ToUtf8 s @ bs) = filter (\<lambda>c. c \<noteq> 0) s @ Utf8ToUtf32 bs \<and>
    (\<forall>c \<in> set s. Decode (Encode c @ bs) = Continue c (length (Encode c)))"
  using assms Decode_Encode
  by (auto simp: Utf32ToUtf8_eq IsValidUtf8_encode Utf8ToUtf32_encode_append valid_ustr_filter valid_ustr_def
      length_Encode scalar_le)

theorem utf8_roundtrip_witness:
  "IsValidUtf8 (Utf32ToUtf8 [0x61, 0, 0x3042, 0x20B9F]) \<and>
   Utf8ToUtf32 (Utf32ToUtf8 [0x61, 0, 0x3042, 0x20B9F] @ [0xE3]) = [0x61, 0x3042, 0x20B9F] @ Utf8ToUtf32 [0xE3]"
  using utf8_roundtrip [of "[0x61, 0, 0x3042, 0x20B9F]" "[0xE3]"] by (simp add: scalar_def)

text \<open>
  \<open>C17\<close>: The validator accepts exactly the encodings: a byte string passes \<^verbatim>\<open>IsValidUtf8\<close> iff it is the
  encoding of a list of scalar values. Overlong forms, surrogates, values above U+10FFFF and
  truncated sequences are all refused.
\<close>

theorem utf8_valid_iff:
  assumes "bytes bs"
  shows "IsValidUtf8 bs \<longleftrightarrow> (\<exists>s. valid_ustr s \<and> bs = encode_ustr s)"
  using assms valid_utf8_encoded IsValidUtf8_encode by blast

theorem utf8_valid_iff_witness:
  "IsValidUtf8 [0xED, 0xA0, 0x80] \<longleftrightarrow> (\<exists>s. valid_ustr s \<and> [0xED, 0xA0, 0x80] = encode_ustr s)"
  by (rule utf8_valid_iff) simp

text \<open>
  The two decoders of the code base agree on well-formed input: whenever \<^verbatim>\<open>utf8_internal::Decode\<close>
  accepts the first character, \<^verbatim>\<open>Util::SplitFirstChar32\<close> returns the same code point and the same rest.
\<close>

theorem decoders_agree:
  assumes "bytes bs" "dr_ok (Decode bs)"
  shows "SplitFirstChar32 bs = Some (code_point (Decode bs), drop (bytes_seen (Decode bs)) bs)"
proof -
  obtain c r where "scalar c" "bs = Encode c @ r"
    using Decode_ok_prefix [OF assms] by blast
  then show ?thesis
    by (simp add: SplitFirstChar32_Encode Decode_Encode Continue_def length_Encode scalar_le)
qed

theorem decoders_agree_witness:
  "SplitFirstChar32 [0xE3, 0x81, 0x82, 0x61] =
     Some (code_point (Decode [0xE3, 0x81, 0x82, 0x61]),
       drop (bytes_seen (Decode [0xE3, 0x81, 0x82, 0x61])) [0xE3, 0x81, 0x82, 0x61])"
proof (rule decoders_agree)
  have "Decode (Encode 0x3042 @ [0x61]) = Continue 0x3042 3"
    by (subst Decode_Encode) (simp_all add: scalar_def char_size_def)
  then show "dr_ok (Decode [0xE3, 0x81, 0x82, 0x61])" by (simp add: Encode_3 Continue_def)
qed simp

text \<open>
  Outside well-formed input the two decoders differ: the older one accepts the three bytes of
  an encoded surrogate, which the newer one (and the Unicode standard) rejects.
\<close>

theorem decoders_differ_on_surrogates:
  "SplitFirstChar32 [0xED, 0xA0, 0x80] = Some (0xD800, []) \<and> \<not> dr_ok (Decode [0xED, 0xA0, 0x80])"
proof
  have "split_trailing 2 ((0x80 + 32) # (0x80 + 0) # []) 13 = Some ((13 * 64 + 32) * 64 + 0)"
    by (rule split_trailing_digits) simp_all
  then show "SplitFirstChar32 [0xED, 0xA0, 0x80] = Some (0xD800, [])"
    by (simp add: SplitFirstChar32_def leading_byte_class_eq)
  show "\<not> dr_ok (Decode [0xED, 0xA0, 0x80])"
    by (simp add: Decode_def OneCharLen_eq second_byte_simps DecodeError_def)
qed

text \<open>
  The code-point model of strings is exact: on the encoding of a text the byte-level operations
  are the list operations. Its size is the sum of the character sizes, \<^verbatim>\<open>CharsLen\<close> its length,
  \<^verbatim>\<open>Utf8SubString\<close> a slice, and cutting the bytes at any offset leaves bytes that decode to
  \<open>byte_drop\<close> and \<open>byte_take\<close>, also inside a character.
\<close>

theorem ustr_model_exact:
  assumes "valid_ustr s"
  shows "length (encode_ustr s) = byte_size s \<and> Util_CharsLen (encode_ustr s) = length s \<and>
    Util_Utf8SubString (encode_ustr s) n l = encode_ustr (take l (drop n s)) \<and>
    Utf8ToUtf32 (drop n (encode_ustr s)) = byte_drop n s \<and>
    Utf8ToUtf32 (take n (encode_ustr s)) = byte_take n s"
  using assms Util_CharsLen_encode_append [OF assms, of "[]"]
  by (simp_all add: length_encode_ustr Util_Utf8SubString_encode byte_drop_bytes byte_take_bytes)

theorem ustr_model_exact_witness:
  "Util_CharsLen (encode_ustr [0x3042, 0x6E]) = length [0x3042::nat, 0x6E] \<and>
   Utf8ToUtf32 (drop 2 (encode_ustr [0x3042, 0x6E])) = byte_drop 2 [0x3042, 0x6E]"
  using ustr_model_exact [of "[0x3042, 0x6E]" 2 0] by (simp add: scalar_def del: encode_ustr_simps)

end
