(* ===== verification/Util.thy ===== *)
theory Util
  imports Utf8
begin

section \<open>Character and string utilities\<close>

text \<open>
  The functions of \<^verbatim>\<open>base/util.cc\<close> that the composer calls, on the code-point model of strings.
\<close>

subsection \<open>Case conversion\<close>

definition kOffsetFromUpperToLower :: nat where
  "kOffsetFromUpperToLower = 0x0020"

definition is_upper_char :: "char32 \<Rightarrow> bool" where
  "is_upper_char c \<longleftrightarrow> (0x0041 \<le> c \<and> c \<le> 0x005A) \<or> (0xFF21 \<le> c \<and> c \<le> 0xFF3A)"

definition is_lower_char :: "char32 \<Rightarrow> bool" where
  "is_lower_char c \<longleftrightarrow> (0x0061 \<le> c \<and> c \<le> 0x007A) \<or> (0xFF41 \<le> c \<and> c \<le> 0xFF5A)"

text \<open>
  The loop stops at a character whose replacement has another size and leaves the rest of the
  string as it is.
\<close>

fun LowerString :: "ustr \<Rightarrow> ustr" where
  "LowerString [] = []"
| "LowerString (c # s) =
     (if is_upper_char c
      then (let c' = c + kOffsetFromUpperToLower in
            if char_size c' \<noteq> char_size c then c # s else c' # LowerString s)
      else c # LowerString s)"

fun UpperString :: "ustr \<Rightarrow> ustr" where
  "UpperString [] = []"
| "UpperString (c # s) =
     (if is_lower_char c
      then (let c' = c - kOffsetFromUpperToLower in
            if char_size c' \<noteq> char_size c then c # s else c' # UpperString s)
      else c # UpperString s)"

definition CapitalizeString :: "ustr \<Rightarrow> ustr" where
  "CapitalizeString s = UpperString (take 1 s) @ LowerString (drop 1 s)"

definition lower_char :: "char32 \<Rightarrow> char32" where
  "lower_char c = (if is_upper_char c then c + 0x20 else c)"

definition upper_char :: "char32 \<Rightarrow> char32" where
  "upper_char c = (if is_lower_char c then c - 0x20 else c)"

lemma char_size_lower_char: "char_size (lower_char c) = char_size c"
  by (auto simp: lower_char_def is_upper_char_def char_size_def)

lemma char_size_upper_char: "char_size (upper_char c) = char_size c"
  by (auto simp: upper_char_def is_lower_char_def char_size_def)

text \<open>The early return is never taken: both functions map each character.\<close>

lemma LowerString_map: "LowerString s = map lower_char s"
proof (induction s)
  case (Cons c s)
  then show ?case using char_size_lower_char [of c]
    by (cases "is_upper_char c") (simp_all add: lower_char_def kOffsetFromUpperToLower_def Let_def)
qed simp

lemma UpperString_map: "UpperString s = map upper_char s"
proof (induction s)
  case (Cons c s)
  then show ?case using char_size_upper_char [of c]
    by (cases "is_lower_char c") (simp_all add: upper_char_def kOffsetFromUpperToLower_def Let_def)
qed simp

lemma lower_char_idem [simp]: "lower_char (lower_char c) = lower_char c"
  by (auto simp: lower_char_def is_upper_char_def)

lemma lower_upper_char [simp]: "lower_char (upper_char c) = lower_char c"
  by (auto simp: lower_char_def upper_char_def is_lower_char_def is_upper_char_def)

lemma LowerString_simps [simp]:
  "length (LowerString s) = length s"
  "LowerString (LowerString s) = LowerString s"
  "LowerString (s @ t) = LowerString s @ LowerString t"
  "LowerString s = [] \<longleftrightarrow> s = []"
  "take n (LowerString s) = LowerString (take n s)"
  "drop n (LowerString s) = LowerString (drop n s)"
  by (simp_all add: LowerString_map take_map drop_map)

lemma byte_size_LowerString: "byte_size (LowerString s) = byte_size s"
  unfolding LowerString_map by (induction s) (simp_all add: char_size_lower_char)

declare LowerString.simps(2) [simp del]

definition IsLowerAscii :: "ustr \<Rightarrow> bool" where
  "IsLowerAscii s \<longleftrightarrow> list_all (\<lambda>c. 0x61 \<le> c \<and> c \<le> 0x7A) s"

subsection \<open>Encoding\<close>

text \<open>
  \<^verbatim>\<open>Util::CodepointToUtf8\<close> gives the empty string for the code point 0 (see
  \<open>Utf8.Util_CodepointToUtf8\<close> for its bytes).
\<close>

definition CodepointToUtf8 :: "char32 \<Rightarrow> ustr" where
  "CodepointToUtf8 c = (if c = 0 then [] else [c])"

fun Util_Utf32ToUtf8 :: "char32 list \<Rightarrow> ustr" where
  "Util_Utf32ToUtf8 [] = []"
| "Util_Utf32ToUtf8 (codepoint # str) = CodepointToUtf8 codepoint @ Util_Utf32ToUtf8 str"

lemma Util_Utf32ToUtf8_filter: "Util_Utf32ToUtf8 s = filter (\<lambda>c. c \<noteq> 0) s"
  by (induction s) (simp_all add: CodepointToUtf8_def)

subsection \<open>Line ends\<close>

text \<open>
  \<^verbatim>\<open>find_last_not_of\<close> returns \<^verbatim>\<open>npos\<close> when every character is a line end; adding one wraps to 0,
  so the whole line is erased.
\<close>

definition ChopReturns :: "ustr \<Rightarrow> ustr" where
  "ChopReturns line = rev (dropWhile (\<lambda>c. c = 0x0D \<or> c = 0x0A) (rev line))"

subsection \<open>Script types\<close>

datatype ScriptType = UNKNOWN_SCRIPT | KATAKANA | HIRAGANA | KANJI | NUMBER | ALPHABET | EMOJI

definition INRANGE :: "nat \<Rightarrow> nat \<Rightarrow> nat \<Rightarrow> bool" where
  "INRANGE w a b \<longleftrightarrow> a \<le> w \<and> w \<le> b"

definition GetScriptType :: "char32 \<Rightarrow> ScriptType" where
  "GetScriptType c =
     (if INRANGE c 0x0030 0x0039 \<or> INRANGE c 0xFF10 0xFF19 then NUMBER
      else if INRANGE c 0x0041 0x005A \<or> INRANGE c 0x0061 0x007A \<or>
              INRANGE c 0xFF21 0xFF3A \<or> INRANGE c 0xFF41 0xFF5A then ALPHABET
      else if c = 0x3005 \<or> INRANGE c 0x3400 0x4DBF \<or> INRANGE c 0x4E00 0x9FFF \<or>
              INRANGE c 0xF900 0xFAFF \<or> INRANGE c 0x20000 0x2A6DF \<or> INRANGE c 0x2A700 0x2B73F \<or>
              INRANGE c 0x2B740 0x2B81F \<or> INRANGE c 0x2F800 0x2FA1F then KANJI
      else if INRANGE c 0x3041 0x309F \<or> c = 0x1B001 then HIRAGANA
      else if INRANGE c 0x30A1 0x30FF \<or> INRANGE c 0x31F0 0x31FF \<or> INRANGE c 0xFF65 0xFF9F \<or>
              c = 0x1B000 then KATAKANA
      else if INRANGE c 0x02300 0x023F3 \<or> INRANGE c 0x02700 0x027BF \<or> INRANGE c 0x1F000 0x1F02F \<or>
              INRANGE c 0x1F030 0x1F09F \<or> INRANGE c 0x1F0A0 0x1F0FF \<or> INRANGE c 0x1F100 0x1F2FF \<or>
              INRANGE c 0x1F200 0x1F2FF \<or> INRANGE c 0x1F300 0x1F5FF \<or> INRANGE c 0x1F600 0x1F64F \<or>
              INRANGE c 0x1F680 0x1F6FF \<or> INRANGE c 0x1F700 0x1F77F \<or> c = 0x26CE then EMOJI
      else UNKNOWN_SCRIPT)"

text \<open>
  The bit set of script types is the list of its members in the order of the enumeration;
  \<open>bs_and\<close> is the operator \<^verbatim>\<open>&=\<close>.
\<close>

type_synonym ScriptTypeBitSet = "ScriptType list"

definition all_scripts :: ScriptTypeBitSet where
  "all_scripts = [UNKNOWN_SCRIPT, KATAKANA, HIRAGANA, KANJI, NUMBER, ALPHABET, EMOJI]"

definition bs_and :: "ScriptTypeBitSet \<Rightarrow> ScriptType list \<Rightarrow> ScriptTypeBitSet" where
  "bs_and bs ts = filter (\<lambda>t. t \<in> set ts) bs"

fun script_type_loop :: "bool \<Rightarrow> ustr \<Rightarrow> ScriptTypeBitSet \<Rightarrow> ScriptType" where
  "script_type_loop ignore_symbols [] bs = (case bs of [t] \<Rightarrow> t | _ \<Rightarrow> UNKNOWN_SCRIPT)"
| "script_type_loop ignore_symbols (c # s) bs =
     (if bs = [] then UNKNOWN_SCRIPT
      else if c = 0x30FC \<or> c = 0x30FB \<or> (0x3099 \<le> c \<and> c \<le> 0x309C)
        then script_type_loop ignore_symbols s (bs_and bs [HIRAGANA, KATAKANA])
      else if (c = 0xFF0E \<or> c = 0x2E) \<and> bs = [NUMBER] then script_type_loop ignore_symbols s bs
      else (let type = GetScriptType c in
            if ignore_symbols \<and> type = UNKNOWN_SCRIPT then script_type_loop ignore_symbols s bs
            else script_type_loop ignore_symbols s (bs_and bs [type])))"

definition GetScriptTypeInternal :: "ustr \<Rightarrow> bool \<Rightarrow> ScriptType" where
  "GetScriptTypeInternal str ignore_symbols = script_type_loop ignore_symbols str all_scripts"

definition GetScriptTypeStr :: "ustr \<Rightarrow> ScriptType" where
  "GetScriptTypeStr str = GetScriptTypeInternal str False"

definition GetScriptTypeWithoutSymbols :: "ustr \<Rightarrow> ScriptType" where
  "GetScriptTypeWithoutSymbols str = GetScriptTypeInternal str True"

end
