(* ===== verification/SpecialKey.thy ===== *)
theory SpecialKey
  imports Util
begin

section \<open>Special keys\<close>

text \<open>
  \<^verbatim>\<open>composer/special_key.cc\<close>: rules name special keys such as \<^verbatim>\<open>{!}\<close>; each one is replaced by a
  private-use character. Positions are in characters; the delimiters have one byte.
\<close>

record Block =
  open_pos :: nat
  close_pos :: nat

definition kSpecialKeyBegin :: char32 where "kSpecialKeyBegin = 0xF000"
definition kSpecialKeyEnd :: char32 where "kSpecialKeyEnd = 0xF8FF"
definition kSpecialKeyOpen :: char32 where "kSpecialKeyOpen = 0x0F"
definition kSpecialKeyClose :: char32 where "kSpecialKeyClose = 0x0E"

definition IsSpecialKey :: "char32 \<Rightarrow> bool" where
  "IsSpecialKey c \<longleftrightarrow> kSpecialKeyBegin \<le> c \<and> c \<le> kSpecialKeyEnd"

definition FindBlock :: "ustr \<Rightarrow> char32 \<Rightarrow> char32 \<Rightarrow> Block option" where
  "FindBlock input opn cls =
     (case find_char input opn of
        None \<Rightarrow> None
      | Some i \<Rightarrow>
          (case find_char_from input cls i of
             None \<Rightarrow> None
           | Some j \<Rightarrow> Some \<lparr>open_pos = i, close_pos = j\<rparr>))"

lemma find_char_split:
  "find_char s c = Some i \<longleftrightarrow> (\<exists>p q. s = p @ c # q \<and> c \<notin> set p \<and> length p = i)"
proof
  assume "find_char s c = Some i"
  then have "i < length s" "s ! i = c" "c \<notin> set (take i s)"
    by (simp_all add: find_char_Some_iff)
  then have "s = take i s @ c # drop (Suc i) s \<and> c \<notin> set (take i s) \<and> length (take i s) = i"
    using id_take_nth_drop [of i s] by simp
  then show "\<exists>p q. s = p @ c # q \<and> c \<notin> set p \<and> length p = i" by blast
next
  assume "\<exists>p q. s = p @ c # q \<and> c \<notin> set p \<and> length p = i"
  then show "find_char s c = Some i" by (auto simp: find_char_Some_iff)
qed

lemma FindBlock_Some:
  assumes "opn \<noteq> cls" "FindBlock input opn cls = Some b"
  obtains p k q where "input = p @ opn # k @ cls # q" "opn \<notin> set p" "cls \<notin> set k"
    "open_pos b = length p" "close_pos b = length p + length k + 1"
proof -
  obtain i j where b: "b = \<lparr>open_pos = i, close_pos = j\<rparr>" "find_char input opn = Some i"
    "find_char_from input cls i = Some j"
    using assms(2) by (auto simp: FindBlock_def split: option.splits)
  obtain p r where p: "input = p @ opn # r" "opn \<notin> set p" "length p = i"
    using b(2) by (auto simp: find_char_split)
  have "drop i input = opn # r" using p by auto
  then obtain j' where j': "find_char r cls = Some j'" "j = i + Suc j'"
    using b(3) assms(1) by (auto simp: find_char_from_def)
  then obtain k q where "r = k @ cls # q" "cls \<notin> set k" "length k = j'"
    by (auto simp: find_char_split)
  then show thesis using that p b(1) j'(2) by auto
qed

lemma FindBlock_None:
  assumes "opn \<noteq> cls"
  shows "FindBlock input opn cls = None \<longleftrightarrow>
    (\<forall>p q. input = p @ opn # q \<longrightarrow> opn \<notin> set p \<longrightarrow> cls \<notin> set q)"
proof
  assume none: "FindBlock input opn cls = None"
  have "cls \<notin> set q" if "input = p @ opn # q" "opn \<notin> set p" for p q
  proof -
    have "find_char input opn = Some (length p)" using that by (auto simp: find_char_split)
    with none have "find_char (drop (length p) input) cls = None"
      by (auto simp: FindBlock_def find_char_from_def split: option.splits)
    then show ?thesis using that(1) assms by simp
  qed
  then show "\<forall>p q. input = p @ opn # q \<longrightarrow> opn \<notin> set p \<longrightarrow> cls \<notin> set q" by blast
next
  assume all: "\<forall>p q. input = p @ opn # q \<longrightarrow> opn \<notin> set p \<longrightarrow> cls \<notin> set q"
  show "FindBlock input opn cls = None"
  proof (rule ccontr)
    assume "FindBlock input opn cls \<noteq> None"
    then obtain b where "FindBlock input opn cls = Some b" by blast
    then obtain p k q where "input = p @ opn # k @ cls # q" "opn \<notin> set p"
      using FindBlock_Some [OF assms] by metis
    then show False using all by force
  qed
qed

text \<open>
  \<^verbatim>\<open>ParseBlock\<close> copies the text outside the blocks and replaces each block by the result of the
  callback, which may change the state it captures.
\<close>

function ParseBlock :: "('s \<Rightarrow> ustr \<Rightarrow> ustr \<times> 's) \<Rightarrow> 's \<Rightarrow> ustr \<Rightarrow> ustr \<times> 's" where
  "ParseBlock callback st input =
     (if input = [] then ([], st)
      else
        (case FindBlock input 0x7B 0x7D of
           None \<Rightarrow> (input, st)
         | Some block \<Rightarrow>
             (let key = take (close_pos block - open_pos block - 1) (drop (open_pos block + 1) input);
                  (replaced, st') = (if key = [0x7B] then ([0x7B], st) else callback st key);
                  (output, st'') = ParseBlock callback st' (drop (close_pos block + 1) input)
              in (take (open_pos block) input @ replaced @ output, st''))))"
  by pat_completeness auto
termination
proof (relation "measure (\<lambda>(callback, st, input). length input)")
qed auto

declare ParseBlock.simps [simp del]

type_synonym SpecialKeyMap = "(ustr \<times> ustr) list"

text \<open>The key code is a \<^verbatim>\<open>char32_t\<close>.\<close>

definition register_callback :: "SpecialKeyMap \<Rightarrow> ustr \<Rightarrow> ustr \<times> SpecialKeyMap" where
  "register_callback m key =
     (case map_of m key of
        Some v \<Rightarrow> (v, m)
      | None \<Rightarrow>
          (let keycode = (kSpecialKeyBegin + length m) mod 2 ^ 32;
               keycode' = (if keycode > kSpecialKeyEnd then kSpecialKeyEnd else keycode);
               special_key = CodepointToUtf8 keycode'
           in (special_key, m @ [(key, special_key)])))"

definition Register :: "SpecialKeyMap \<Rightarrow> ustr \<Rightarrow> ustr \<times> SpecialKeyMap" where
  "Register m input = ParseBlock register_callback m input"

definition parse_callback :: "SpecialKeyMap \<Rightarrow> ustr \<Rightarrow> ustr \<times> SpecialKeyMap" where
  "parse_callback m key =
     (case map_of m key of
        Some v \<Rightarrow> (v, m)
      | None \<Rightarrow> ([kSpecialKeyOpen] @ key @ [kSpecialKeyClose], m))"

definition Parse :: "SpecialKeyMap \<Rightarrow> ustr \<Rightarrow> ustr" where
  "Parse m input = fst (ParseBlock parse_callback m input)"

text \<open>\<^verbatim>\<open>SplitFirstChar32\<close> sets the first character of an empty text to 0.\<close>

definition TrimLeadingSpecialKey :: "ustr \<Rightarrow> ustr" where
  "TrimLeadingSpecialKey input =
     (let first_char = (case input of [] \<Rightarrow> 0 | c # _ \<Rightarrow> c);
          rest = drop 1 input
      in if IsSpecialKey first_char then drop (length input - length rest) input
         else if \<not> starts_with input [kSpecialKeyOpen] then input
         else (case find_char_from input kSpecialKeyClose 1 of
                 None \<Rightarrow> input
               | Some close_p \<Rightarrow> drop (close_p + 1) input))"

function delete_blocks :: "ustr \<Rightarrow> ustr" where
  "delete_blocks input =
     (if input = [] then []
      else
        (case FindBlock input kSpecialKeyOpen kSpecialKeyClose of
           None \<Rightarrow> input
         | Some block \<Rightarrow> take (open_pos block) input @ delete_blocks (drop (close_pos block + 1) input)))"
  by pat_completeness auto
termination
proof (relation "measure length")
qed auto

declare delete_blocks.simps [simp del]

definition DeleteSpecialKeys :: "ustr \<Rightarrow> ustr" where
  "DeleteSpecialKeys input =
     (let output = delete_blocks input;
          codepoints = filter (\<lambda>c. \<not> IsSpecialKey c) output
      in if length codepoints = length output then output else Util_Utf32ToUtf8 codepoints)"

lemma block_cases:
  assumes "opn \<noteq> cls"
  obtains "FindBlock s opn cls = None" "\<And>p q. s = p @ opn # q \<Longrightarrow> opn \<notin> set p \<Longrightarrow> cls \<notin> set q"
  | p k q where "s = p @ opn # k @ cls # q" "opn \<notin> set p" "cls \<notin> set k"
      "FindBlock s opn cls = Some \<lparr>open_pos = length p, close_pos = length p + length k + 1\<rparr>"
proof (cases "FindBlock s opn cls")
  case None
  then show ?thesis using that(1) FindBlock_None [OF assms, of s] by blast
next
  case (Some b)
  then obtain p k q where "s = p @ opn # k @ cls # q" "opn \<notin> set p" "cls \<notin> set k"
    "open_pos b = length p" "close_pos b = length p + length k + 1"
    using FindBlock_Some [OF assms] by metis
  then show ?thesis using that(2) [of p k q] Some by (cases b) auto
qed

lemma ParseBlock_None: "FindBlock s 0x7B 0x7D = None \<Longrightarrow> ParseBlock cb st s = (s, st)"
  by (subst ParseBlock.simps) simp

lemma ParseBlock_Some:
  assumes "FindBlock s 0x7B 0x7D = Some \<lparr>open_pos = length p, close_pos = length p + length k + 1\<rparr>"
    and "s = p @ 0x7B # k @ 0x7D # q"
  shows "ParseBlock cb st s =
    (let (replaced, st') = (if k = [0x7B] then ([0x7B], st) else cb st k);
         (output, st'') = ParseBlock cb st' q
     in (p @ replaced @ output, st''))"
  using assms(1) by (subst ParseBlock.simps) (simp add: assms(2))

lemma ParseBlock_length_induct [case_names None Some]:
  assumes "\<And>s. FindBlock s 0x7B 0x7D = None \<Longrightarrow> P s"
    and "\<And>s p k q. s = p @ 0x7B # k @ 0x7D # q \<Longrightarrow>
      FindBlock s 0x7B 0x7D = Some \<lparr>open_pos = length p, close_pos = length p + length k + 1\<rparr> \<Longrightarrow>
      P q \<Longrightarrow> P s"
  shows "P s"
proof (induction s rule: length_induct)
  case (1 s)
  show ?case
  proof (rule block_cases [of "0x7B" "0x7D" s])
    fix p k q
    assume s: "s = p @ 0x7B # k @ 0x7D # q"
      "FindBlock s 0x7B 0x7D = Some \<lparr>open_pos = length p, close_pos = length p + length k + 1\<rparr>"
    then have "P q" using 1 by auto
    then show "P s" using assms(2) s by blast
  qed (use assms(1) in auto)
qed

definition extends_map :: "SpecialKeyMap \<Rightarrow> SpecialKeyMap \<Rightarrow> bool" where
  "extends_map m m' \<longleftrightarrow> map_of m \<subseteq>\<^sub>m map_of m'"

lemma register_callback_extends: "extends_map m (snd (register_callback m k))"
  by (auto simp: extends_map_def register_callback_def map_le_def map_add_def Let_def split: option.splits)

lemma register_callback_found: "map_of (snd (register_callback m k)) k = Some (fst (register_callback m k))"
  by (auto simp: register_callback_def map_add_def Let_def split: option.splits)

lemma extends_map_trans: "extends_map a b \<Longrightarrow> extends_map b c \<Longrightarrow> extends_map a c"
  by (auto simp: extends_map_def intro: map_le_trans)

lemma Register_extends: "extends_map m (snd (ParseBlock register_callback m s))"
proof (induction s arbitrary: m rule: ParseBlock_length_induct)
  case (None s)
  then show ?case by (simp add: ParseBlock_None extends_map_def)
next
  case (Some s p k q)
  let ?m = "snd (register_callback m k)"
  have "extends_map m (snd (ParseBlock register_callback ?m q))"
    using extends_map_trans [OF register_callback_extends Some(3)] .
  then show ?case using Some(3) [of m]
    by (auto simp: ParseBlock_Some [OF Some(2,1)] Let_def split: prod.split)
qed

lemma Parse_Register_extends:
  "extends_map (snd (ParseBlock register_callback m s)) m' \<Longrightarrow>
   ParseBlock parse_callback m' s = (fst (ParseBlock register_callback m s), m')"
proof (induction s arbitrary: m rule: ParseBlock_length_induct)
  case (None s)
  then show ?case by (simp add: ParseBlock_None)
next
  case (Some s p k q)
  show ?case
  proof (cases "k = [0x7B]")
    case True
    then show ?thesis using Some(3) [of m] Some(4)
      by (simp add: ParseBlock_Some [OF Some(2,1)] Let_def split: prod.splits)
  next
    case False
    let ?m = "snd (register_callback m k)"
    have ext: "extends_map (snd (ParseBlock register_callback ?m q)) m'"
      using Some(4) False by (simp add: ParseBlock_Some [OF Some(2,1)] Let_def split: prod.splits)
    have "extends_map ?m m'" using extends_map_trans [OF Register_extends ext] .
    then have "map_of m' k = Some (fst (register_callback m k))"
      using register_callback_found [of m k] by (auto simp: extends_map_def map_le_def dom_def)
    then have "parse_callback m' k = (fst (register_callback m k), m')"
      by (simp add: parse_callback_def)
    then show ?thesis using Some(3) [OF ext] False
      by (simp add: ParseBlock_Some [OF Some(2,1)] Let_def split: prod.split)
  qed
qed

text \<open>
  Registering the special keys of a text and parsing the text with a later state of the map
  give the same string, so that input parsed at run time matches the rules that were registered.
\<close>

theorem Parse_after_Register:
  assumes "extends_map (snd (Register m s)) m'"
  shows "Parse m' s = fst (Register m s)"
  using Parse_Register_extends [of m s m'] assms by (simp add: Parse_def Register_def)

text \<open>
  The invariant of the map: a key is registered once, and the first 2304 keys have consecutive
  codes.
\<close>

definition special_keys_ok :: "SpecialKeyMap \<Rightarrow> bool" where
  "special_keys_ok m \<longleftrightarrow> distinct (map fst m) \<and>
     list_all (\<lambda>i. i < 0x900 \<longrightarrow> snd (m ! i) = [kSpecialKeyBegin + i]) [0..<length m]"

lemma special_keys_ok_callback:
  assumes "special_keys_ok m"
  shows "special_keys_ok (snd (register_callback m k))"
proof (cases "map_of m k")
  case None
  then have "k \<notin> fst ` set m" by (simp add: map_of_eq_None_iff)
  then show ?thesis using assms None
    by (auto simp: special_keys_ok_def register_callback_def Let_def list_all_iff nth_append
        CodepointToUtf8_def kSpecialKeyBegin_def kSpecialKeyEnd_def less_Suc_eq)
next
  case (Some v)
  then show ?thesis using assms by (simp add: register_callback_def)
qed

lemma special_keys_ok_Register: "special_keys_ok m \<Longrightarrow> special_keys_ok (snd (ParseBlock register_callback m s))"
proof (induction s arbitrary: m rule: ParseBlock_length_induct)
  case (None s)
  then show ?case by (simp add: ParseBlock_None)
next
  case (Some s p k q)
  show ?case using Some(3) [OF Some(4)] Some(3) [OF special_keys_ok_callback [OF Some(4)], of k]
    by (auto simp: ParseBlock_Some [OF Some(2,1)] Let_def split: prod.split)
qed

lemma special_keys_distinct:
  assumes ok: "special_keys_ok m" and len: "length m \<le> 0x900"
    and k: "map_of m k = Some v" "map_of m k' = Some v"
  shows "k = k' \<and> (\<exists>c. v = [c] \<and> IsSpecialKey c)"
proof -
  obtain i where i: "i < length m" "m ! i = (k, v)"
    using map_of_SomeD [OF k(1)] by (auto simp: in_set_conv_nth)
  obtain j where j: "j < length m" "m ! j = (k', v)"
    using map_of_SomeD [OF k(2)] by (auto simp: in_set_conv_nth)
  have code: "snd (m ! n) = [kSpecialKeyBegin + n]" if "n < length m" for n
    using ok that len by (auto simp: special_keys_ok_def list_all_iff)
  have "i = j" using code [OF i(1)] code [OF j(1)] i(2) j(2) by simp
  moreover have "IsSpecialKey (kSpecialKeyBegin + i)"
    using i(1) len by (simp add: IsSpecialKey_def kSpecialKeyBegin_def kSpecialKeyEnd_def)
  ultimately show ?thesis using i(2) j(2) code [OF i(1)] by auto
qed

text \<open>
  Registration keeps the invariant, never changes the code of a registered key, and while at
  most 2304 keys are registered, different keys have different private-use characters.
\<close>

theorem Register_codes_distinct:
  assumes "special_keys_ok m" and "length (snd (Register m s)) \<le> 0x900"
    and "map_of (snd (Register m s)) k = Some v" and "map_of (snd (Register m s)) k' = Some v"
  shows "special_keys_ok (snd (Register m s)) \<and> k = k' \<and> (\<exists>c. v = [c] \<and> IsSpecialKey c) \<and>
    (\<forall>k v. map_of m k = Some v \<longrightarrow> map_of (snd (Register m s)) k = Some v)"
proof -
  have ok: "special_keys_ok (snd (Register m s))"
    unfolding Register_def by (rule special_keys_ok_Register [OF assms(1)])
  have "extends_map m (snd (Register m s))"
    unfolding Register_def by (rule Register_extends)
  then show ?thesis using ok special_keys_distinct [OF ok assms(2,3,4)]
    by (auto simp: extends_map_def map_le_def dom_def)
qed


theorem Parse_after_Register_witness:
  "Parse (snd (Register [] [0x61, 0x7B, 0x21, 0x7D])) [0x61, 0x7B, 0x21, 0x7D] =
   fst (Register [] [0x61, 0x7B, 0x21, 0x7D])"
  by (rule Parse_after_Register) (simp add: extends_map_def)

theorem Register_codes_distinct_witness:
  "special_keys_ok (snd (Register [] [0x7B, 0x21, 0x7D]))"
proof -
  have "Register [] [0x7B, 0x21, 0x7D] = ([0xF000], [([0x21], [0xF000])])"
    by (simp add: Register_def ParseBlock.simps FindBlock_def find_char_from_def register_callback_def
        kSpecialKeyBegin_def kSpecialKeyEnd_def CodepointToUtf8_def Let_def)
  then show ?thesis
    using Register_codes_distinct [of "[]" "[0x7B, 0x21, 0x7D]" "[0x21]" "[0xF000]" "[0x21]"]
    by (simp add: special_keys_ok_def)
qed

subsection \<open>Removing special keys\<close>

lemma delete_blocks_None: "FindBlock s kSpecialKeyOpen kSpecialKeyClose = None \<Longrightarrow> delete_blocks s = s"
  by (subst delete_blocks.simps) simp

lemma delete_blocks_Some:
  assumes "FindBlock s kSpecialKeyOpen kSpecialKeyClose =
      Some \<lparr>open_pos = length p, close_pos = length p + length k + 1\<rparr>"
    and "s = p @ kSpecialKeyOpen # k @ kSpecialKeyClose # q"
  shows "delete_blocks s = p @ delete_blocks q"
  using assms(1) by (subst delete_blocks.simps) (simp add: assms(2))

lemma open_close_neq [simp]: "kSpecialKeyOpen \<noteq> kSpecialKeyClose"
  by (simp add: kSpecialKeyOpen_def kSpecialKeyClose_def)

text \<open>No block is left: after the first open mark there is no close mark.\<close>

definition no_block :: "ustr \<Rightarrow> bool" where
  "no_block s \<longleftrightarrow> kSpecialKeyClose \<notin> set (dropWhile (\<lambda>c. c \<noteq> kSpecialKeyOpen) s)"

lemma dropWhile_not_in: "x \<notin> set p \<Longrightarrow> dropWhile (\<lambda>c. c \<noteq> x) (p @ s) = dropWhile (\<lambda>c. c \<noteq> x) s"
  by (induction p) auto

lemma no_block_append: "kSpecialKeyOpen \<notin> set p \<Longrightarrow> no_block (p @ s) \<longleftrightarrow> no_block s"
  by (simp add: no_block_def dropWhile_not_in)

lemma no_block_None: "no_block s \<longleftrightarrow> FindBlock s kSpecialKeyOpen kSpecialKeyClose = None"
proof
  assume nb: "no_block s"
  show "FindBlock s kSpecialKeyOpen kSpecialKeyClose = None"
    unfolding FindBlock_None [OF open_close_neq]
    using nb by (auto simp: no_block_append) (simp add: no_block_def)
next
  assume none: "FindBlock s kSpecialKeyOpen kSpecialKeyClose = None"
  show "no_block s"
  proof (cases "kSpecialKeyOpen \<in> set s")
    case True
    then obtain p q where s: "s = p @ kSpecialKeyOpen # q" "kSpecialKeyOpen \<notin> set p"
      by (auto dest: split_list_first)
    then have "kSpecialKeyClose \<notin> set q" using none FindBlock_None [OF open_close_neq] by blast
    then have "no_block (kSpecialKeyOpen # q)"
      using open_close_neq [symmetric] by (simp add: no_block_def)
    then show ?thesis using s(2) unfolding s(1) by (simp add: no_block_append)
  next
    case False
    then have "dropWhile (\<lambda>c. c \<noteq> kSpecialKeyOpen) s = []" by (auto simp: dropWhile_eq_Nil_conv)
    then show ?thesis unfolding no_block_def by (simp only: list.set empty_iff not_False_eq_True)
  qed
qed

lemma no_block_delete: "no_block (delete_blocks s)"
proof (induction s rule: length_induct)
  case (1 s)
  show ?case
  proof (rule block_cases [of kSpecialKeyOpen kSpecialKeyClose s])
    fix p k q
    assume s: "s = p @ kSpecialKeyOpen # k @ kSpecialKeyClose # q" "kSpecialKeyOpen \<notin> set p"
      "FindBlock s kSpecialKeyOpen kSpecialKeyClose =
        Some \<lparr>open_pos = length p, close_pos = length p + length k + 1\<rparr>"
    then have "no_block (delete_blocks q)" using 1 by auto
    then show "no_block (delete_blocks s)"
      using delete_blocks_Some [OF s(3,1)] s(2) by (simp add: no_block_append)
  qed (use delete_blocks_None no_block_None in auto)
qed

lemma no_block_filter:
  "no_block s \<Longrightarrow> P kSpecialKeyOpen \<Longrightarrow> no_block (filter P s)"
proof (induction s)
  case (Cons c s)
  show ?case
  proof (cases "c = kSpecialKeyOpen")
    case True
    then show ?thesis using Cons(2,3) by (simp add: no_block_def)
  next
    case False
    then have "no_block s" using Cons(2) no_block_append [of "[c]" s] by simp
    then have "no_block (filter P s)" using Cons by simp
    then show ?thesis using False no_block_append [of "[c]" "filter P s"] by simp
  qed
qed simp

lemma DeleteSpecialKeys_fixed:
  assumes "no_block s" "list_all (\<lambda>c. \<not> IsSpecialKey c) s"
  shows "DeleteSpecialKeys s = s"
proof -
  have "delete_blocks s = s" using assms(1) by (simp add: no_block_None delete_blocks_None)
  then show ?thesis using assms(2) by (simp add: DeleteSpecialKeys_def list_all_iff)
qed

lemma DeleteSpecialKeys_shape:
  "no_block (DeleteSpecialKeys s) \<and> list_all (\<lambda>c. \<not> IsSpecialKey c) (DeleteSpecialKeys s)"
proof -
  let ?o = "delete_blocks s"
  let ?f = "filter (\<lambda>c. \<not> IsSpecialKey c) ?o"
  have not_special: "\<not> IsSpecialKey kSpecialKeyOpen"
    by (simp add: IsSpecialKey_def kSpecialKeyBegin_def kSpecialKeyOpen_def)
  show ?thesis
  proof (cases "length ?f = length ?o")
    case True
    then have "?f = ?o" by (simp add: filter_id_conv length_filter_conv_card) (metis True filter_id_conv length_filter_less less_irrefl)
    then show ?thesis using no_block_delete [of s] True
      by (simp add: DeleteSpecialKeys_def list_all_iff filter_id_conv)
  next
    case False
    have "no_block (filter (\<lambda>c. c \<noteq> 0) ?f)"
      by (intro no_block_filter no_block_delete) (use not_special in \<open>simp_all add: kSpecialKeyOpen_def\<close>)
    then show ?thesis using False
      by (simp add: DeleteSpecialKeys_def Util_Utf32ToUtf8_filter list_all_iff)
  qed
qed

text \<open>
  The visible string has no special-key character and no marked block left, deletion is
  idempotent, and it keeps a text that has neither.
\<close>

theorem DeleteSpecialKeys_correct:
  "no_block (DeleteSpecialKeys s) \<and> list_all (\<lambda>c. \<not> IsSpecialKey c) (DeleteSpecialKeys s) \<and>
   DeleteSpecialKeys (DeleteSpecialKeys s) = DeleteSpecialKeys s \<and>
   (no_block s \<longrightarrow> list_all (\<lambda>c. \<not> IsSpecialKey c) s \<longrightarrow> DeleteSpecialKeys s = s)"
  using DeleteSpecialKeys_shape DeleteSpecialKeys_fixed by blast

theorem DeleteSpecialKeys_correct_witness:
  "DeleteSpecialKeys [0x61, 0x62] = [0x61, 0x62]"
  using DeleteSpecialKeys_correct [of "[0x61, 0x62]"]
  by (simp add: no_block_def IsSpecialKey_def kSpecialKeyBegin_def kSpecialKeyOpen_def kSpecialKeyClose_def)

end
