(* ===== verification/Trie.thy ===== *)
theory Trie
  imports Prelude "HOL-Library.AList"
begin

section \<open>The trie of rules\<close>

text \<open>
  The class template \<^verbatim>\<open>Trie\<close> of \<^verbatim>\<open>base/container/trie.h\<close>. A node has an optional value and a hash
  map from the next character to the child. The hash map is an association list whose keys are
  distinct (\<open>wf_trie\<close>); its order stands for the unspecified iteration order of
  \<^verbatim>\<open>flat_hash_map\<close>, and no theorem depends on it. \<^verbatim>\<open>Util::SplitFirstChar32\<close> cuts the first
  character off the key (on valid text it is the head and the tail of the list of characters, see
  \<open>Utf8.ustr_model_exact\<close>). A key length is a position in the key that was looked up, in
  characters.
\<close>

datatype 'a Trie = Trie (trie_map: "(char32 \<times> 'a Trie) list") (trie_data: "'a option")

definition EmptyTrie :: "'a Trie" where
  "EmptyTrie = Trie [] None"

definition FindSubTrie :: "(char32 \<times> 'a Trie) list \<Rightarrow> char32 \<Rightarrow> 'a Trie option" where
  "FindSubTrie m first_char = map_of m first_char"

fun AddEntry :: "'a Trie \<Rightarrow> ustr \<Rightarrow> 'a \<Rightarrow> 'a Trie" where
  "AddEntry (Trie m d) [] x = Trie m (Some x)"
| "AddEntry (Trie m d) (c # rest) x =
     (let t = (case FindSubTrie m c of None \<Rightarrow> EmptyTrie | Some t \<Rightarrow> t)
      in Trie (AList.update c (AddEntry t rest x) m) d)"

text \<open>The Boolean tells the parent to erase the child.\<close>

fun DeleteEntry :: "'a Trie \<Rightarrow> ustr \<Rightarrow> 'a Trie \<times> bool" where
  "DeleteEntry (Trie m d) [] = (if m = [] then (Trie m d, True) else (Trie m None, False))"
| "DeleteEntry (Trie m d) (c # rest) =
     (case FindSubTrie m c of
        None \<Rightarrow> (Trie m d, False)
      | Some t \<Rightarrow>
          (let (t', erase) = DeleteEntry t rest in
           if erase then (let m' = AList.delete c m in (Trie m' d, m' = []))
           else (Trie (AList.update c t' m) d, False)))"

fun LookUp :: "'a Trie \<Rightarrow> ustr \<Rightarrow> 'a option" where
  "LookUp (Trie m d) [] = d"
| "LookUp (Trie m d) (c # rest) =
     (case FindSubTrie m c of None \<Rightarrow> None | Some t \<Rightarrow> LookUp t rest)"

text \<open>The three results are the value, the key length and the flag \<^verbatim>\<open>fixed\<close>.\<close>

definition prefix_here :: "'a Trie \<Rightarrow> 'a option \<times> nat \<times> bool" where
  "prefix_here t =
     (case trie_data t of Some x \<Rightarrow> (Some x, 0, trie_map t = []) | None \<Rightarrow> (None, 0, True))"

fun LookUpPrefix :: "'a Trie \<Rightarrow> ustr \<Rightarrow> 'a option \<times> nat \<times> bool" where
  "LookUpPrefix t [] = prefix_here t"
| "LookUpPrefix t (c # rest) =
     (case FindSubTrie (trie_map t) c of
        None \<Rightarrow> prefix_here t
      | Some u \<Rightarrow> (let (x, key_length, fixed) = LookUpPrefix u rest in (x, key_length + 1, fixed)))"

fun LongestMatch :: "'a Trie \<Rightarrow> ustr \<Rightarrow> 'a option \<times> nat" where
  "LongestMatch t [] = (trie_data t, 0)"
| "LongestMatch t (c # rest) =
     (case FindSubTrie (trie_map t) c of
        None \<Rightarrow> (trie_data t, 0)
      | Some u \<Rightarrow>
          (case LongestMatch u rest of
             (Some x, key_length) \<Rightarrow> (Some x, key_length + 1)
           | (None, key_length) \<Rightarrow> (trie_data t, key_length)))"

lemma size_FindSubTrie: "FindSubTrie m c = Some t \<Longrightarrow> size t < Suc (size_list (size_prod (\<lambda>_. 0) size) m)"
  unfolding FindSubTrie_def by (induction m) (auto split: if_splits)

lemma size_child: "p \<in> set m \<Longrightarrow> size (snd p) < Suc (size_list (size_prod (\<lambda>_. 0) size) m)"
  by (induction m) (auto simp: less_Suc_eq)

function LookUpPredictiveAll :: "'a Trie \<Rightarrow> ustr \<Rightarrow> 'a list" where
  "LookUpPredictiveAll (Trie m d) (c # rest) =
     (case FindSubTrie m c of None \<Rightarrow> [] | Some t \<Rightarrow> LookUpPredictiveAll t rest)"
| "LookUpPredictiveAll (Trie m d) [] =
     (case d of Some x \<Rightarrow> [x] | None \<Rightarrow> []) @
     concat (map (\<lambda>p. LookUpPredictiveAll (snd p) []) m)"
  by pat_completeness auto
termination
  by (relation "measure (\<lambda>(t, key). size t)") (auto dest: size_FindSubTrie size_child)

fun HasSubTrie :: "'a Trie \<Rightarrow> ustr \<Rightarrow> bool" where
  "HasSubTrie t [] = False"
| "HasSubTrie t (c # rest) =
     (case FindSubTrie (trie_map t) c of
        None \<Rightarrow> False
      | Some u \<Rightarrow> rest = [] \<or> HasSubTrie u rest)"

subsection \<open>Well-formed tries\<close>

text \<open>
  The keys of a hash map are distinct, and \<open>AddEntry\<close> never leaves a child without a value below it.
\<close>

function wf_trie :: "'a Trie \<Rightarrow> bool" where
  "wf_trie (Trie m d) \<longleftrightarrow>
     distinct (map fst m) \<and>
     list_all (\<lambda>p. wf_trie (snd p) \<and> LookUpPredictiveAll (snd p) [] \<noteq> []) m"
  by pat_completeness auto
termination by (relation "measure size") (auto dest: size_child)

fun node_at :: "'a Trie \<Rightarrow> ustr \<Rightarrow> 'a Trie option" where
  "node_at t [] = Some t"
| "node_at t (c # rest) =
     (case FindSubTrie (trie_map t) c of None \<Rightarrow> None | Some u \<Rightarrow> node_at u rest)"

lemma wf_EmptyTrie [simp]: "wf_trie EmptyTrie"
  by (simp add: EmptyTrie_def)

lemma LookUp_EmptyTrie [simp]: "LookUp EmptyTrie k = None"
  by (cases k) (simp_all add: EmptyTrie_def FindSubTrie_def)

lemma FindSubTrie_update [simp]:
  "FindSubTrie (AList.update c t m) c' = (if c' = c then Some t else FindSubTrie m c')"
  by (simp add: FindSubTrie_def update_conv)

lemma FindSubTrie_delete [simp]:
  "FindSubTrie (AList.delete c m) c' = (if c' = c then None else FindSubTrie m c')"
  by (simp add: FindSubTrie_def delete_conv)

lemma FindSubTrie_Nil [simp]: "FindSubTrie [] c = None"
  by (simp add: FindSubTrie_def)

lemma FindSubTrie_Some_mem: "FindSubTrie m c = Some t \<Longrightarrow> (c, t) \<in> set m"
  by (simp add: FindSubTrie_def map_of_SomeD)

lemma wf_child: "wf_trie t \<Longrightarrow> FindSubTrie (trie_map t) c = Some u \<Longrightarrow>
    wf_trie u \<and> LookUpPredictiveAll u [] \<noteq> []"
  by (cases t) (auto simp: list_all_iff dest!: FindSubTrie_Some_mem)

lemma LookUp_node_at:
  "LookUp t k = (case node_at t k of None \<Rightarrow> None | Some u \<Rightarrow> trie_data u)"
  by (induction t k rule: LookUp.induct) (auto split: option.splits)

lemma node_at_append:
  "node_at t (p @ q) = (case node_at t p of None \<Rightarrow> None | Some u \<Rightarrow> node_at u q)"
  by (induction t p rule: node_at.induct) (auto split: option.splits)

lemma LookUp_append:
  "LookUp t (p @ q) = (case node_at t p of None \<Rightarrow> None | Some u \<Rightarrow> LookUp u q)"
  by (auto simp: LookUp_node_at node_at_append split: option.splits)

lemma HasSubTrie_iff: "HasSubTrie t k \<longleftrightarrow> k \<noteq> [] \<and> node_at t k \<noteq> None"
  by (induction t k rule: HasSubTrie.induct) (auto split: option.splits)

lemma wf_node_at: "wf_trie t \<Longrightarrow> node_at t p = Some u \<Longrightarrow>
    wf_trie u \<and> (p \<noteq> [] \<longrightarrow> LookUpPredictiveAll u [] \<noteq> [])"
proof (induction t p rule: node_at.induct)
  case (2 t c rest)
  then obtain v where v: "FindSubTrie (trie_map t) c = Some v" "node_at v rest = Some u"
    by (auto split: option.splits)
  note v_wf = wf_child [OF 2(2) v(1)]
  have "wf_trie u \<and> (rest \<noteq> [] \<longrightarrow> LookUpPredictiveAll u [] \<noteq> [])"
    using 2(1) [OF v(1)] v_wf v(2) by blast
  moreover have "rest = [] \<Longrightarrow> u = v" using v(2) by simp
  ultimately show ?case using v_wf by blast
qed simp

lemma LookUpPredictiveAll_node_at:
  "LookUpPredictiveAll t k = (case node_at t k of None \<Rightarrow> [] | Some u \<Rightarrow> LookUpPredictiveAll u [])"
proof (induction t k rule: node_at.induct)
  case (2 t c rest)
  then show ?case by (cases t) (simp split: option.split)
qed simp

lemma Bex_prod: "(\<exists>p\<in>set m. P (snd p)) \<longleftrightarrow> (\<exists>c u. (c, u) \<in> set m \<and> P u)"
  by force

lemma mem_update: "p \<in> set (AList.update k v m) \<Longrightarrow> p = (k, v) \<or> p \<in> set m"
  by (induction m) (auto split: if_splits)

lemma all_data_iff:
  "wf_trie t \<Longrightarrow> x \<in> set (LookUpPredictiveAll t []) \<longleftrightarrow> (\<exists>k. LookUp t k = Some x)"
proof (induction t rule: wf_trie.induct)
  case (1 m d)
  have mem: "(c, u) \<in> set m \<longleftrightarrow> FindSubTrie m c = Some u" for c u
    using 1(2) by (auto simp: FindSubTrie_def)
  have IH: "FindSubTrie m c = Some u \<Longrightarrow>
      x \<in> set (LookUpPredictiveAll u []) \<longleftrightarrow> (\<exists>k. LookUp u k = Some x)" for c u
    using 1(1) [of "(c, u)"] wf_child [OF 1(2), of c u] by (simp add: mem)
  have "x \<in> set (LookUpPredictiveAll (Trie m d) []) \<longleftrightarrow>
      d = Some x \<or> (\<exists>c u. FindSubTrie m c = Some u \<and> x \<in> set (LookUpPredictiveAll u []))"
    using Bex_prod [of m "\<lambda>u. x \<in> set (LookUpPredictiveAll u [])"]
    by (cases d) (simp_all add: mem eq_commute [of x])
  also have "\<dots> \<longleftrightarrow> d = Some x \<or> (\<exists>c u k. FindSubTrie m c = Some u \<and> LookUp u k = Some x)"
    using IH by blast
  also have "\<dots> \<longleftrightarrow> (\<exists>k. LookUp (Trie m d) k = Some x)"
  proof
    assume "d = Some x \<or> (\<exists>c u k. FindSubTrie m c = Some u \<and> LookUp u k = Some x)"
    then show "\<exists>k. LookUp (Trie m d) k = Some x"
    proof (elim disjE exE conjE)
      assume "d = Some x"
      then have "LookUp (Trie m d) [] = Some x" by simp
      then show ?thesis ..
    next
      fix c u k assume "FindSubTrie m c = Some u" "LookUp u k = Some x"
      then have "LookUp (Trie m d) (c # k) = Some x" by simp
      then show ?thesis ..
    qed
  next
    assume "\<exists>k. LookUp (Trie m d) k = Some x"
    then obtain k where "LookUp (Trie m d) k = Some x" ..
    then show "d = Some x \<or> (\<exists>c u k. FindSubTrie m c = Some u \<and> LookUp u k = Some x)"
      by (cases k) (auto split: option.splits)
  qed
  finally show ?case .
qed

lemma nonempty_iff: "wf_trie t \<Longrightarrow> LookUpPredictiveAll t [] \<noteq> [] \<longleftrightarrow> (\<exists>k. LookUp t k \<noteq> None)"
  using all_data_iff [of t] by (cases "LookUpPredictiveAll t []") fastforce+

lemma node_at_iff:
  "wf_trie t \<Longrightarrow> p \<noteq> [] \<Longrightarrow> node_at t p \<noteq> None \<longleftrightarrow> (\<exists>q. LookUp t (p @ q) \<noteq> None)"
  using wf_node_at [of t p] nonempty_iff by (cases "node_at t p") (auto simp: LookUp_append)

lemma LookUp_AddEntry: "LookUp (AddEntry t k x) k' = (if k' = k then Some x else LookUp t k')"
proof (induction t k x arbitrary: k' rule: AddEntry.induct)
  case (1 m d x)
  then show ?case by (cases k') auto
next
  case (2 m d c rest x)
  then show ?case by (cases k') (auto simp: Let_def split: option.splits)
qed

lemma wf_AddEntry: "wf_trie t \<Longrightarrow> wf_trie (AddEntry t k x)"
proof (induction t k x rule: AddEntry.induct)
  case (2 m d c rest x)
  let ?t = "case FindSubTrie m c of None \<Rightarrow> EmptyTrie | Some t \<Rightarrow> t"
  have wf: "wf_trie ?t"
    using wf_child [OF 2(2)] by (auto split: option.splits)
  have ne: "LookUpPredictiveAll (AddEntry ?t rest x) [] \<noteq> []"
    using nonempty_iff [OF 2(1) [OF refl wf]] by (auto simp: LookUp_AddEntry)
  show ?case
    using 2(1) [OF refl wf] ne 2(2)
    by (auto simp: Let_def distinct_update list_all_iff dest!: mem_update)
qed simp

subsection \<open>The trie as a dictionary\<close>

text \<open>
  \<open>C14\<close>: The trie implements a map from keys to values: after \<open>AddEntry\<close>, the added key has the
  new value and every other key its old one, and the trie stays well-formed.
\<close>

theorem trie_refines_map:
  "LookUp (AddEntry t k x) = (LookUp t)(k \<mapsto> x) \<and>
   (LookUp EmptyTrie :: ustr \<Rightarrow> 'a option) = Map.empty \<and>
   (wf_trie t \<longrightarrow> wf_trie (AddEntry t k (x :: 'a)))"
  using wf_AddEntry by (auto simp: LookUp_AddEntry fun_eq_iff)

theorem trie_refines_map_witness:
  "wf_trie (AddEntry (AddEntry EmptyTrie [97, 98] (1 :: nat)) [97] 2)"
  using trie_refines_map [of "AddEntry EmptyTrie [97, 98] (1 :: nat)" "[97]" 2]
    wf_AddEntry [of EmptyTrie "[97, 98]" "1 :: nat"] by simp

text \<open>What the prefix search finds in terms of the nodes of the trie.\<close>

lemma LookUpPrefix_node_at:
  "LookUpPrefix t k = (x, n, fixed) \<Longrightarrow>
   \<exists>u. n \<le> length k \<and> node_at t (take n k) = Some u \<and> prefix_here u = (x, 0, fixed) \<and>
       (n < length k \<longrightarrow> node_at t (take (Suc n) k) = None)"
proof (induction t k arbitrary: n rule: LookUpPrefix.induct)
  case (1 t)
  then show ?case by (auto simp: prefix_here_def split: option.splits)
next
  case (2 t c rest)
  show ?case
  proof (cases "FindSubTrie (trie_map t) c")
    case None
    with 2(2) show ?thesis by (auto simp: prefix_here_def split: option.splits)
  next
    case (Some u)
    obtain m where m: "LookUpPrefix u rest = (x, m, fixed)" "n = Suc m"
      using 2(2) Some by (auto split: prod.splits)
    from 2(1) [OF Some m(1)] show ?thesis using Some m(2) by auto
  qed
qed

lemma prefix_here_spec:
  assumes wf: "wf_trie u" and p: "prefix_here u = (x, 0, fixed)"
  shows "x = LookUp u [] \<and> (fixed \<longleftrightarrow> x = None \<or> (\<forall>q. q \<noteq> [] \<longrightarrow> LookUp u q = None))"
proof -
  obtain m d where u: "u = Trie m d" by (cases u)
  have x: "x = d" and f: "fixed \<longleftrightarrow> d = None \<or> m = []"
    using p u by (auto simp: prefix_here_def split: option.splits)
  have "m = [] \<longleftrightarrow> (\<forall>q. q \<noteq> [] \<longrightarrow> LookUp u q = None)"
  proof
    assume "m = []"
    show "\<forall>q. q \<noteq> [] \<longrightarrow> LookUp u q = None"
    proof (intro allI impI)
      fix q :: ustr assume "q \<noteq> []"
      then show "LookUp u q = None" using u \<open>m = []\<close> by (cases q) simp_all
    qed
  next
    assume all: "\<forall>q. q \<noteq> [] \<longrightarrow> LookUp u q = None"
    show "m = []"
    proof (rule ccontr)
      assume "m \<noteq> []"
      then obtain c t m' where m: "m = (c, t) # m'" by (cases m) auto
      then have "FindSubTrie m c = Some t" by (simp add: FindSubTrie_def)
      moreover obtain k where "LookUp t k \<noteq> None"
        using nonempty_iff [of t] wf u m by auto
      ultimately have "LookUp u (c # k) \<noteq> None" using u by simp
      moreover have "LookUp u (c # k) = None" using all by simp
      ultimately show False by simp
    qed
  qed
  then show ?thesis using u x f by simp
qed

lemma LookUpPrefix_spec:
  assumes "wf_trie t" and "LookUpPrefix t k = (x, n, fixed)"
  shows "n \<le> length k \<and> x = LookUp t (take n k) \<and>
    (0 < n \<longrightarrow> (\<exists>q. LookUp t (take n k @ q) \<noteq> None)) \<and>
    (n < length k \<longrightarrow> (\<forall>q. LookUp t (take (Suc n) k @ q) = None)) \<and>
    (fixed \<longleftrightarrow> x = None \<or> (\<forall>q. q \<noteq> [] \<longrightarrow> LookUp t (take n k @ q) = None))"
proof -
  obtain u where n: "n \<le> length k" and u: "node_at t (take n k) = Some u"
    and p: "prefix_here u = (x, 0, fixed)"
    and stop: "n < length k \<longrightarrow> node_at t (take (Suc n) k) = None"
    using LookUpPrefix_node_at [OF assms(2)] by blast
  have wf_u: "wf_trie u" using wf_node_at [OF assms(1) u] by simp
  have at: "LookUp t (take n k @ q) = LookUp u q" for q
    using u by (simp add: LookUp_append)
  have "LookUp t (take n k) = LookUp u []" using at [of "[]"] by simp
  moreover have "0 < n \<longrightarrow> (\<exists>q. LookUp t (take n k @ q) \<noteq> None)"
  proof
    assume "0 < n"
    with n have "take n k \<noteq> []" by auto
    then show "\<exists>q. LookUp t (take n k @ q) \<noteq> None"
      using node_at_iff [OF assms(1)] u by blast
  qed
  moreover have "n < length k \<longrightarrow> (\<forall>q. LookUp t (take (Suc n) k @ q) = None)"
    using stop by (auto simp: LookUp_append)
  ultimately show ?thesis using n prefix_here_spec [OF wf_u p] unfolding at by simp
qed

text \<open>
  \<open>C15\<close>: The prefix search walks as far into the key as some entry's key agrees with it; it reports
  the entry that ends exactly there (or none), and \<open>fixed\<close> iff no entry there could still be
  extended by more input.
\<close>

theorem LookUpPrefix_correct:
  assumes "wf_trie t" and "LookUpPrefix t k = (x, n, fixed)"
  shows "n \<le> length k \<and> x = LookUp t (take n k) \<and>
    (0 < n \<longrightarrow> (\<exists>q. LookUp t (take n k @ q) \<noteq> None)) \<and>
    (n < length k \<longrightarrow> (\<forall>q. LookUp t (take (Suc n) k @ q) = None)) \<and>
    (fixed \<longleftrightarrow> x = None \<or> (\<forall>q. q \<noteq> [] \<longrightarrow> LookUp t (take n k @ q) = None))"
  using LookUpPrefix_spec [OF assms] .

theorem LookUpPrefix_correct_witness:
  "1 \<le> length [97, 99 :: nat] \<and>
   None = LookUp (AddEntry EmptyTrie [97, 98] (1 :: nat)) (take 1 [97, 99])"
proof -
  let ?t = "AddEntry EmptyTrie [97, 98] (1 :: nat)"
  have p: "LookUpPrefix ?t [97, 99] = (None, 1, True)"
    by (simp add: EmptyTrie_def FindSubTrie_def prefix_here_def)
  note c = LookUpPrefix_correct [OF wf_AddEntry [OF wf_EmptyTrie] p]
  show ?thesis by (rule conjI [OF conjunct1 [OF c] conjunct1 [OF conjunct2 [OF c]]])
qed

lemma LookUpPredictiveAll_set:
  assumes "wf_trie t"
  shows "set (LookUpPredictiveAll t k) = {x. \<exists>s. LookUp t (k @ s) = Some x}"
proof (cases "node_at t k")
  case None
  then show ?thesis by (simp add: LookUpPredictiveAll_node_at [of t k] LookUp_append)
next
  case (Some u)
  then show ?thesis
    using all_data_iff [of u] wf_node_at [OF assms Some]
    by (auto simp: LookUpPredictiveAll_node_at [of t k] LookUp_append)
qed

text \<open>
  The predictive search returns exactly the values of the entries whose key starts with the
  given one, in some order.
\<close>

theorem LookUpPredictiveAll_correct:
  assumes "wf_trie t"
  shows "set (LookUpPredictiveAll t k) = {x. \<exists>s. LookUp t (k @ s) = Some x}"
  using LookUpPredictiveAll_set [OF assms] .

theorem LookUpPredictiveAll_correct_witness:
  "2 \<in> set (LookUpPredictiveAll (AddEntry (AddEntry EmptyTrie [97] (1 :: nat)) [97, 98] 2) [97])"
proof -
  let ?t = "AddEntry (AddEntry EmptyTrie [97] (1 :: nat)) [97, 98] 2"
  have "LookUp ?t ([97] @ [98]) = Some 2" by (simp add: LookUp_AddEntry)
  then have "\<exists>s. LookUp ?t ([97] @ s) = Some 2" by (rule exI)
  then show ?thesis
    unfolding LookUpPredictiveAll_correct [OF wf_AddEntry [OF wf_AddEntry [OF wf_EmptyTrie]]]
    by (rule CollectI)
qed

lemma LongestMatch_None: "LongestMatch t k = (None, n) \<Longrightarrow> n = 0 \<and> (\<forall>i. LookUp t (take i k) = None)"
proof (induction t k arbitrary: n rule: LongestMatch.induct)
  case (1 t)
  then show ?case by (cases t) auto
next
  case (2 t c rest)
  have d: "trie_data t = None"
    using 2(2) by (auto split: option.splits prod.splits)
  have n: "LookUp t (take i (c # rest)) = None" if "i = 0" for i
    using d that by (cases t) simp
  show ?case
  proof (cases "FindSubTrie (trie_map t) c")
    case None
    have "LookUp t (take i (c # rest)) = None" for i
      using None n by (cases i; cases t) auto
    then show ?thesis using 2(2) None by auto
  next
    case (Some u)
    then have u: "LongestMatch u rest = (None, n)"
      using 2(2) by (auto split: option.splits prod.splits)
    have "LookUp t (take i (c # rest)) = None" for i
      using Some n 2(1) [OF Some u] by (cases i; cases t) auto
    then show ?thesis using 2(1) [OF Some u] by simp
  qed
qed

lemma LongestMatch_Some:
  "LongestMatch t k = (Some x, n) \<Longrightarrow> n \<le> length k \<and> LookUp t (take n k) = Some x \<and>
     (\<forall>i. n < i \<longrightarrow> i \<le> length k \<longrightarrow> LookUp t (take i k) = None)"
proof (induction t k arbitrary: n rule: LongestMatch.induct)
  case (1 t)
  then show ?case by (cases t) auto
next
  case (2 t c rest)
  have take0: "LookUp t [] = trie_data t" by (cases t) simp
  show ?case
  proof (cases "FindSubTrie (trie_map t) c")
    case None
    have "LookUp t (take i (c # rest)) = None" if "0 < i" for i
      using None that by (cases i; cases t) auto
    moreover have "n = 0" "trie_data t = Some x" using 2(2) None by simp_all
    ultimately show ?thesis using take0 by simp
  next
    case (Some u)
    have sub: "LookUp t (take (Suc i) (c # rest)) = LookUp u (take i rest)" for i
      using Some by (cases t) simp
    show ?thesis
    proof (cases "LongestMatch u rest")
      case (Pair y m)
      show ?thesis
      proof (cases y)
        case None
        then have m: "m = 0" "LookUp u (take i rest) = None" for i
          using LongestMatch_None [of u rest m] Pair by simp_all
        have "LookUp t (take i (c # rest)) = None" if "0 < i" for i
          using sub m(2) that by (cases i) simp_all
        moreover have "n = 0" "trie_data t = Some x" using 2(2) Some Pair None m by simp_all
        ultimately show ?thesis using take0 by simp
      next
        case y: (Some z)
        then have n: "n = Suc m" "LongestMatch u rest = (Some x, m)"
          using 2(2) Some Pair by auto
        note IH = 2(1) [OF Some n(2)]
        have "LookUp t (take i (c # rest)) = None" if "n < i" "i \<le> length (c # rest)" for i
          using sub IH that n(1) by (cases i) auto
        then show ?thesis using IH sub n(1) by simp
      qed
    qed
  qed
qed

text \<open>
  The longest match returns the entry of the longest prefix of the key that is an entry's
  key, with the length of that prefix, and nothing exactly if no prefix of the key is one.
\<close>

theorem LongestMatch_correct:
  "(case LongestMatch t k of
      (Some x, n) \<Rightarrow> n \<le> length k \<and> LookUp t (take n k) = Some x \<and>
        (\<forall>i. n < i \<longrightarrow> i \<le> length k \<longrightarrow> LookUp t (take i k) = None)
    | (None, n) \<Rightarrow> n = 0 \<and> (\<forall>i. LookUp t (take i k) = None))"
  using LongestMatch_Some [of t k] LongestMatch_None [of t k] by (auto split: prod.split option.split)

theorem LongestMatch_correct_witness:
  "LongestMatch (AddEntry (AddEntry EmptyTrie [97] (1 :: nat)) [97, 98, 99] 2) [97, 98, 100] = (Some 1, 0 + 1)"
  using LongestMatch_correct [of "AddEntry EmptyTrie [97] (1 :: nat)" "[97]"]
  by (simp add: EmptyTrie_def FindSubTrie_def Let_def)

subsection \<open>Deletion\<close>

lemma DeleteEntry_erase:
  "snd (DeleteEntry t k) \<Longrightarrow> \<not> starts_with k k' \<Longrightarrow> LookUp t k' = None"
proof (induction t k arbitrary: k' rule: DeleteEntry.induct)
  case (1 m d)
  then show ?case by (cases k') (auto split: if_splits)
next
  case (2 m d c rest)
  from 2(2) obtain t where t: "FindSubTrie m c = Some t" "snd (DeleteEntry t rest)" "AList.delete c m = []"
    by (auto split: option.splits prod.splits if_splits simp: Let_def)
  have other: "FindSubTrie m c' = None" if "c' \<noteq> c" for c'
    using FindSubTrie_delete [of c m c'] t(3) that by simp
  show ?case
  proof (cases k')
    case (Cons c' r)
    then show ?thesis using 2(1) [OF t(1,2), of r] 2(3) t(1) other [of c'] by (cases "c' = c") auto
  qed (use 2(3) in simp)
qed

lemma DeleteEntry_other:
  "\<not> starts_with k k' \<Longrightarrow> LookUp (fst (DeleteEntry t k)) k' = LookUp t k'"
proof (induction t k arbitrary: k' rule: DeleteEntry.induct)
  case (1 m d)
  then show ?case by (cases k') auto
next
  case (2 m d c rest)
  show ?case
  proof (cases "FindSubTrie m c")
    case (Some t)
    obtain c' r where k': "k' = c' # r" using 2(2) by (cases k') auto
    have "c' = c \<Longrightarrow> snd (DeleteEntry t rest) \<Longrightarrow> LookUp t r = None"
      using DeleteEntry_erase [of t rest r] 2(2) k' by simp
    moreover have "c' = c \<Longrightarrow> LookUp (fst (DeleteEntry t rest)) r = LookUp t r"
      using 2(1) [OF Some, of r] 2(2) k' by simp
    ultimately show ?thesis
      using Some k' by (cases "c' = c") (auto simp: Let_def split: prod.split)
  qed simp
qed

lemma DeleteEntry_key: "k \<noteq> [] \<Longrightarrow> LookUp (fst (DeleteEntry t k)) k = None"
proof (induction t k rule: DeleteEntry.induct)
  case (2 m d c rest)
  show ?case
  proof (cases "FindSubTrie m c")
    case (Some t)
    show ?thesis
    proof (cases "rest = []")
      case True
      then show ?thesis using Some by (cases t) (auto simp: Let_def)
    next
      case False
      then show ?thesis using 2(1) [OF Some] Some by (auto simp: Let_def split: prod.split)
    qed
  qed simp
qed simp

text \<open>
  Deleting a key removes its entry and keeps the entry of every key that is not a prefix of
  it.
\<close>

theorem DeleteEntry_correct:
  "(k \<noteq> [] \<longrightarrow> LookUp (fst (DeleteEntry t k)) k = None) \<and>
   (\<not> starts_with k k' \<longrightarrow> LookUp (fst (DeleteEntry t k)) k' = LookUp t k')"
  using DeleteEntry_key DeleteEntry_other by blast

definition delete_example :: "nat Trie" where
  "delete_example = AddEntry (AddEntry EmptyTrie [97] 1) [97, 98] 2"

theorem DeleteEntry_correct_witness:
  "LookUp (fst (DeleteEntry delete_example [97, 98])) [97, 98] = None \<and>
   LookUp (fst (DeleteEntry delete_example [98])) [97, 98] = Some 2"
  using DeleteEntry_correct [of "[97, 98]" delete_example "[97, 99]"]
    DeleteEntry_correct [of "[98]" delete_example "[97, 98]"]
  by (simp add: delete_example_def LookUp_AddEntry)

text \<open>
  An entry whose key is a proper prefix of the deleted one is lost when the deleted key was
  its only extension: the node reports \<open>trie_.empty()\<close> to its parent without a look at its own
  value, and the parent erases it.
\<close>

theorem DeleteEntry_loses_prefix:
  "LookUp delete_example [97] = Some 1 \<and>
   LookUp (fst (DeleteEntry delete_example [97, 98])) [97] = None"
  by (simp add: delete_example_def EmptyTrie_def FindSubTrie_def Let_def)

subsection \<open>The interface of the table\<close>

text \<open>
  The table relies on these laws of its dictionary only.
\<close>

locale rule_dictionary =
  fixes lookup :: "'d \<Rightarrow> ustr \<Rightarrow> 'v option"
    and add :: "'d \<Rightarrow> ustr \<Rightarrow> 'v \<Rightarrow> 'd"
    and prefix :: "'d \<Rightarrow> ustr \<Rightarrow> 'v option \<times> nat \<times> bool"
    and ok :: "'d \<Rightarrow> bool"
  assumes lookup_add: "lookup (add d k x) k' = (if k' = k then Some x else lookup d k')"
    and ok_add: "ok d \<Longrightarrow> ok (add d k x)"
    and prefix_le: "ok d \<Longrightarrow> prefix d k = (y, n, f) \<Longrightarrow> n \<le> length k"
    and prefix_value: "ok d \<Longrightarrow> prefix d k = (y, n, f) \<Longrightarrow> y = lookup d (take n k)"
    and prefix_stops: "ok d \<Longrightarrow> prefix d k = (y, n, f) \<Longrightarrow> n < length k \<Longrightarrow>
      lookup d (take (Suc n) k @ q) = None"
    and prefix_fixed: "ok d \<Longrightarrow> prefix d k = (Some z, n, f) \<Longrightarrow>
      f \<longleftrightarrow> (\<forall>q. q \<noteq> [] \<longrightarrow> lookup d (take n k @ q) = None)"
begin

lemma prefix_reaches:
  assumes "ok d" "lookup d (p @ q) \<noteq> None" "prefix d (p @ r) = (y, n, f)"
  shows "length p \<le> n"
proof (rule ccontr)
  assume "\<not> length p \<le> n"
  then have n: "n < length p" by simp
  then obtain p1 p2 where p: "p = p1 @ p2" "length p1 = Suc n"
    by (metis Suc_leI append_take_drop_id length_take min.absorb2)
  have "lookup d (take (Suc n) (p @ r) @ (p2 @ q)) = None"
    using prefix_stops [OF assms(1,3)] n by simp
  then show False using assms(2) p by simp
qed

lemma prefix_exact:
  assumes "ok d" "lookup d k = Some x"
  shows "\<exists>f. prefix d k = (Some x, length k, f)"
proof -
  obtain y n f where p: "prefix d k = (y, n, f)" by (cases "prefix d k") auto
  have "length k \<le> n" using prefix_reaches [of d k "[]" "[]" y n f] assms p by simp
  then have "n = length k" using prefix_le [OF assms(1) p] by simp
  then show ?thesis using prefix_value [OF assms(1) p] assms(2) p by simp
qed

lemma prefix_after_add:
  assumes "ok d"
  shows "\<exists>f. prefix (add d k x) k = (Some x, length k, f)"
  using prefix_exact [OF ok_add [OF assms]] by (simp add: lookup_add)

end

interpretation trie: rule_dictionary LookUp AddEntry LookUpPrefix wf_trie
proof unfold_locales
  fix d :: "'a Trie" and k k' q :: ustr and x z :: 'a and y f n
  show "LookUp (AddEntry d k x) k' = (if k' = k then Some x else LookUp d k')"
    by (rule LookUp_AddEntry)
  show "wf_trie d \<Longrightarrow> wf_trie (AddEntry d k x)" by (rule wf_AddEntry)
  show "n \<le> length k" if "wf_trie d" "LookUpPrefix d k = (y, n, f)"
    using LookUpPrefix_spec [OF that] by simp
  show "y = LookUp d (take n k)" if "wf_trie d" "LookUpPrefix d k = (y, n, f)"
    using LookUpPrefix_spec [OF that] by simp
  show "LookUp d (take (Suc n) k @ q) = None"
    if "wf_trie d" "LookUpPrefix d k = (y, n, f)" "n < length k"
    using LookUpPrefix_spec [OF that(1,2)] that(3) by simp
  show "f \<longleftrightarrow> (\<forall>q. q \<noteq> [] \<longrightarrow> LookUp d (take n k @ q) = None)"
    if "wf_trie d" "LookUpPrefix d k = (Some z, n, f)"
    using LookUpPrefix_spec [OF that] by simp
qed

end
