(* ===== verification/Protocol.thy ===== *)
theory Protocol
  imports Prelude
begin

section \<open>Requests and configuration\<close>

text \<open>
  The fields of \<^verbatim>\<open>protocol/commands.proto\<close> and \<^verbatim>\<open>protocol/config.proto\<close> that the composer reads.
  An optional field with a default is modelled by its value, one whose presence is tested by an
  option.
\<close>

datatype SpecialRomanjiTable =
    DEFAULT_TABLE
  | TWELVE_KEYS_TO_HIRAGANA
  | TWELVE_KEYS_TO_HIRAGANA_INTUITIVE
  | TWELVE_KEYS_TO_HALFWIDTHASCII
  | FLICK_TO_HIRAGANA
  | FLICK_TO_HIRAGANA_INTUITIVE
  | FLICK_TO_HALFWIDTHASCII
  | FLICK_TO_HALFWIDTHASCII_IOS
  | FLICK_TO_NUMBER
  | TOGGLE_FLICK_TO_HIRAGANA
  | TOGGLE_FLICK_TO_HIRAGANA_INTUITIVE
  | TOGGLE_FLICK_TO_NUMBER
  | TOGGLE_FLICK_TO_HALFWIDTHASCII_IOS
  | TOGGLE_FLICK_TO_HALFWIDTHASCII
  | QWERTY_MOBILE_TO_HIRAGANA
  | QWERTY_MOBILE_TO_HALFWIDTHASCII
  | GODAN_TO_HIRAGANA
  | GODAN_TO_HALFWIDTHASCII
  | NOTOUCH_TO_HIRAGANA
  | NOTOUCH_TO_HALFWIDTHASCII
  | FIFTY_KEYS_TO_HIRAGANA

datatype PreeditMethod = ROMAN | KANA

datatype PunctuationMethod = TOUTEN_KUTEN | COMMA_PERIOD | TOUTEN_PERIOD | COMMA_KUTEN

datatype SymbolMethod =
    CORNER_BRACKET_MIDDLE_DOT
  | SQUARE_BRACKET_SLASH
  | CORNER_BRACKET_SLASH
  | SQUARE_BRACKET_MIDDLE_DOT

datatype ShiftKeyModeSwitch = OFF | ASCII_INPUT_MODE | KATAKANA_INPUT_MODE

record Config =
  preedit_method :: PreeditMethod
  punctuation_method :: PunctuationMethod
  symbol_method :: SymbolMethod
  custom_roman_table :: "ustr option"
  shift_key_mode_switch :: ShiftKeyModeSwitch
  auto_switch_composition_mode :: bool
  composing_timeout_threshold_msec :: nat

record Request =
  special_romanji_table :: SpecialRomanjiTable
  update_input_mode_from_surrounding_text :: bool

end
