(* ===== verification/Table.thy ===== *)
theory Table
  imports SpecialKey Trie Protocol "HOL-Library.Word"
begin

section \<open>The conversion table\<close>

text \<open>
  \<^verbatim>\<open>composer/table.h\<close> and \<^verbatim>\<open>composer/table.cc\<close>. Entries are immutable and owned by the table, so a
  pointer to an entry is modelled by the entry, and \<^verbatim>\<open>nullptr\<close> by \<open>None\<close>; the set \<^verbatim>\<open>entry_set_\<close>
  holds the ownership only. Positions in a key are in characters.
\<close>

unbundle bit_operations_syntax

subsection \<open>Data\<close>

type_synonym TableAttributes = "32 word"

definition NO_TABLE_ATTRIBUTE :: TableAttributes where "NO_TABLE_ATTRIBUTE = 0"
definition NEW_CHUNK :: TableAttributes where "NEW_CHUNK = 1"
definition NO_TRANSLITERATION :: TableAttributes where "NO_TRANSLITERATION = 2"
definition DIRECT_INPUT :: TableAttributes where "DIRECT_INPUT = 4"
definition END_CHUNK :: TableAttributes where "END_CHUNK = 8"
definition DISPLAY_AMBIGUOUS_RESULT :: TableAttributes where "DISPLAY_AMBIGUOUS_RESULT = 16"

definition has_attribute :: "TableAttributes \<Rightarrow> TableAttributes \<Rightarrow> bool" where
  "has_attribute attributes a \<longleftrightarrow> attributes AND a \<noteq> 0"

record Entry =
  ent_input :: ustr
  ent_result :: ustr
  ent_pending :: ustr
  ent_attributes :: TableAttributes

record Table =
  entries :: "Entry Trie"
  special_key_map :: SpecialKeyMap
  case_sensitive :: bool

text \<open>The constructor registers the predefined special keys.\<close>

definition register_only :: "ustr \<Rightarrow> SpecialKeyMap \<Rightarrow> SpecialKeyMap" where
  "register_only s m = snd (Register m s)"

definition NewTable :: Table where
  "NewTable =
     \<lparr>entries = EmptyTrie,
      special_key_map =
        register_only (ascii ''{!}'') (register_only (ascii ''{<}'')
          (register_only (ascii ''{*}'') (register_only (ascii ''{?}'') []))),
      case_sensitive = False\<rparr>"

subsection \<open>Look-up\<close>

definition normalize :: "Table \<Rightarrow> ustr \<Rightarrow> ustr" where
  "normalize t key = (if case_sensitive t then key else LowerString key)"

definition Table_LookUp :: "Table \<Rightarrow> ustr \<Rightarrow> Entry option" where
  "Table_LookUp t key =
     (if case_sensitive t then LookUp (entries t) key else LookUp (entries t) (LowerString key))"

text \<open>The entry, the key length and the flag \<^verbatim>\<open>fixed\<close>.\<close>

definition Table_LookUpPrefix :: "Table \<Rightarrow> ustr \<Rightarrow> Entry option \<times> nat \<times> bool" where
  "Table_LookUpPrefix t key =
     (if case_sensitive t then LookUpPrefix (entries t) key
      else LookUpPrefix (entries t) (LowerString key))"

definition Table_LookUpPredictiveAll :: "Table \<Rightarrow> ustr \<Rightarrow> Entry list" where
  "Table_LookUpPredictiveAll t key =
     (if case_sensitive t then LookUpPredictiveAll (entries t) key
      else LookUpPredictiveAll (entries t) (LowerString key))"

definition kNewChunkPrefix :: ustr where "kNewChunkPrefix = [9]"

definition HasNewChunkEntry :: "Table \<Rightarrow> ustr \<Rightarrow> bool" where
  "HasNewChunkEntry t key =
     (if key = [] then False
      else (let (_, key_length, _) = Table_LookUpPrefix t (kNewChunkPrefix @ key) in key_length > 1))"

definition HasSubRules :: "Table \<Rightarrow> ustr \<Rightarrow> bool" where
  "HasSubRules t key =
     (if case_sensitive t then HasSubTrie (entries t) key
      else HasSubTrie (entries t) (LowerString key))"

definition ParseSpecialKey :: "Table \<Rightarrow> ustr \<Rightarrow> ustr" where
  "ParseSpecialKey t key = Parse (special_key_map t) key"

subsection \<open>Adding rules\<close>

text \<open>
  The loop of \<^verbatim>\<open>IsLoopingEntry\<close> need not end (see \<open>IsLoopingEntry_diverges\<close>), so it runs on fuel:
  one unit per iteration.
\<close>

fun looping_from :: "nat \<Rightarrow> Table \<Rightarrow> ustr \<Rightarrow> ustr \<Rightarrow> bool outcome" where
  "looping_from 0 t inp key = Timeout"
| "looping_from (Suc fuel) t inp key =
     (if starts_with key inp then Ret True
      else
        (case Table_LookUpPrefix t key of
           (None, key_length, fixed) \<Rightarrow> Ret False
         | (Some entry, key_length, fixed) \<Rightarrow>
             (let key' = ent_pending entry @ drop key_length key
              in if key' = [] then Ret False else looping_from fuel t inp key')))"

definition IsLoopingEntry :: "nat \<Rightarrow> Table \<Rightarrow> ustr \<Rightarrow> ustr \<Rightarrow> bool outcome" where
  "IsLoopingEntry fuel t inp pend =
     (if inp = [] \<or> pend = [] then Ret False else looping_from fuel t inp pend)"

definition kMaxSize :: nat where "kMaxSize = 300"

text \<open>
  The body of \<^verbatim>\<open>AddRuleWithAttributes\<close> after its recursive call: a rule that is too long or loops is
  not added (\<open>None\<close>, the null pointer), but its special keys stay registered.
\<close>

definition has_capital :: "ustr \<Rightarrow> bool" where
  "has_capital s \<longleftrightarrow> list_ex (\<lambda>codepoint. 0x41 \<le> codepoint \<and> codepoint \<le> 0x5A) s"

definition add_rule_body ::
  "nat \<Rightarrow> Table \<Rightarrow> ustr \<Rightarrow> ustr \<Rightarrow> ustr \<Rightarrow> TableAttributes \<Rightarrow> (Entry option \<times> Table) outcome" where
  "add_rule_body fuel t escaped_input output escaped_pending attributes =
     (if byte_size escaped_input \<ge> kMaxSize \<or> byte_size output \<ge> kMaxSize \<or>
         byte_size escaped_pending \<ge> kMaxSize
      then Ret (None, t)
      else
        (let (inp, m1) = Register (special_key_map t) escaped_input;
             (pend, m2) = Register m1 escaped_pending;
             t1 = t\<lparr>special_key_map := m2\<rparr>
         in obind (IsLoopingEntry fuel t1 inp pend) (\<lambda>looping.
              if looping then Ret (None, t1)
              else
                (let entry = \<lparr>ent_input = inp, ent_result = output, ent_pending = pend,
                              ent_attributes = attributes\<rparr>;
                     t2 = t1\<lparr>entries := AddEntry (entries t1) inp entry\<rparr>;
                     cs = (if case_sensitive t2 then True else has_capital (DeleteSpecialKeys inp))
                 in Ret (Some entry, t2\<lparr>case_sensitive := cs\<rparr>)))))"

definition AddRuleWithAttributes ::
  "nat \<Rightarrow> Table \<Rightarrow> ustr \<Rightarrow> ustr \<Rightarrow> ustr \<Rightarrow> TableAttributes \<Rightarrow> (Entry option \<times> Table) outcome" where
  "AddRuleWithAttributes fuel t escaped_input output escaped_pending attributes =
     (if has_attribute attributes NEW_CHUNK
      then obind (add_rule_body fuel t (kNewChunkPrefix @ escaped_input) output escaped_pending
                    NO_TABLE_ATTRIBUTE)
             (\<lambda>(_, t'). add_rule_body fuel t' escaped_input output escaped_pending attributes)
      else add_rule_body fuel t escaped_input output escaped_pending attributes)"

definition AddRule :: "nat \<Rightarrow> Table \<Rightarrow> ustr \<Rightarrow> ustr \<Rightarrow> ustr \<Rightarrow> (Entry option \<times> Table) outcome" where
  "AddRule fuel t inp output pend = AddRuleWithAttributes fuel t inp output pend NO_TABLE_ATTRIBUTE"

definition DeleteRule :: "Table \<Rightarrow> ustr \<Rightarrow> Table" where
  "DeleteRule t inp = t\<lparr>entries := fst (DeleteEntry (entries t) inp)\<rparr>"

subsection \<open>Loading\<close>

fun attributes_loop :: "ustr list \<Rightarrow> TableAttributes \<Rightarrow> TableAttributes" where
  "attributes_loop [] attributes = attributes"
| "attributes_loop (s # rest) attributes =
     attributes_loop rest
       (if s = ascii ''NewChunk'' then attributes OR NEW_CHUNK
        else if s = ascii ''NoTransliteration'' then attributes OR NO_TRANSLITERATION
        else if s = ascii ''DirectInput'' then attributes OR DIRECT_INPUT
        else if s = ascii ''EndChunk'' then attributes OR END_CHUNK
        else if s = ascii ''DisplayAmbiguousResult'' then attributes OR DISPLAY_AMBIGUOUS_RESULT
        else attributes)"

definition ParseAttributes :: "ustr \<Rightarrow> TableAttributes" where
  "ParseAttributes s = attributes_loop (StrSplit 0x20 s) NO_TABLE_ATTRIBUTE"

text \<open>\<^verbatim>\<open>std::getline\<close> until the end of the stream gives the parts between the line feeds.\<close>

fun load_lines :: "nat \<Rightarrow> Table \<Rightarrow> ustr list \<Rightarrow> Table outcome" where
  "load_lines fuel t [] = Ret t"
| "load_lines fuel t (raw_line # lines) =
     (let line = ChopReturns raw_line in
      if line = [] then load_lines fuel t lines
      else
        (case StrSplit 9 line of
           [r0, r1, r2, r3] \<Rightarrow>
             obind (AddRuleWithAttributes fuel t r0 r1 r2 (ParseAttributes r3))
               (\<lambda>(_, t'). load_lines fuel t' lines)
         | [r0, r1, r2] \<Rightarrow>
             obind (AddRule fuel t r0 r1 r2) (\<lambda>(_, t'). load_lines fuel t' lines)
         | [r0, r1] \<Rightarrow>
             obind (AddRule fuel t r0 r1 []) (\<lambda>(_, t'). load_lines fuel t' lines)
         | _ \<Rightarrow> load_lines fuel t lines))"

definition LoadFromStream :: "nat \<Rightarrow> Table \<Rightarrow> ustr \<Rightarrow> (bool \<times> Table) outcome" where
  "LoadFromStream fuel t stream = obind (load_lines fuel t (StrSplit 0x0A stream)) (\<lambda>t'. Ret (True, t'))"

definition LoadFromString :: "nat \<Rightarrow> Table \<Rightarrow> ustr \<Rightarrow> (bool \<times> Table) outcome" where
  "LoadFromString fuel t str = LoadFromStream fuel t str"

text \<open>\<open>files\<close> is \<^verbatim>\<open>ConfigFileStream::LegacyOpen\<close>: the text behind a path, if it can be opened.\<close>

definition LoadFromFile :: "(string \<Rightarrow> ustr option) \<Rightarrow> nat \<Rightarrow> Table \<Rightarrow> string \<Rightarrow> (bool \<times> Table) outcome" where
  "LoadFromFile files fuel t filepath =
     (case files filepath of
        None \<Rightarrow> Ret (False, t)
      | Some text \<Rightarrow> LoadFromStream fuel t text)"

subsection \<open>Initialisation from the request and the configuration\<close>

definition kDefaultPreeditTableFile :: string where
  "kDefaultPreeditTableFile = ''system://romanji-hiragana.tsv''"
definition kRomajiPreeditTableFile :: string where
  "kRomajiPreeditTableFile = ''system://romanji-hiragana.tsv''"
definition kKanaCombinationTableFile :: string where
  "kKanaCombinationTableFile = ''system://kana.tsv''"

definition k12keysHiraganaTableFile :: string where
  "k12keysHiraganaTableFile = ''system://12keys-hiragana.tsv''"
definition k12keysHiraganaIntuitiveTableFile :: string where
  "k12keysHiraganaIntuitiveTableFile = ''system://12keys-hiragana_intuitive.tsv''"
definition k12keysHalfwidthasciiTableFile :: string where
  "k12keysHalfwidthasciiTableFile = ''system://12keys-halfwidthascii.tsv''"
definition kFlickHiraganaTableFile :: string where
  "kFlickHiraganaTableFile = ''system://flick-hiragana.tsv''"
definition kFlickHalfwidthasciiIosTableFile :: string where
  "kFlickHalfwidthasciiIosTableFile = ''system://flick-halfwidthascii_ios.tsv''"
definition kFlickNumberTableFile :: string where
  "kFlickNumberTableFile = ''system://flick-number.tsv''"
definition kFlickHiraganaIntuitiveTableFile :: string where
  "kFlickHiraganaIntuitiveTableFile = ''system://flick-hiragana_intuitive.tsv''"
definition kFlickHalfwidthasciiTableFile :: string where
  "kFlickHalfwidthasciiTableFile = ''system://flick-halfwidthascii.tsv''"
definition kToggleFlickHiraganaTableFile :: string where
  "kToggleFlickHiraganaTableFile = ''system://toggle_flick-hiragana.tsv''"
definition kToggleFlickHiraganaIntuitiveTableFile :: string where
  "kToggleFlickHiraganaIntuitiveTableFile = ''system://toggle_flick-hiragana_intuitive.tsv''"
definition kToggleFlickHalfwidthasciiIosTableFile :: string where
  "kToggleFlickHalfwidthasciiIosTableFile = ''system://toggle_flick-halfwidthascii_ios.tsv''"
definition kToggleFlickNumberTableFile :: string where
  "kToggleFlickNumberTableFile = ''system://toggle_flick-number.tsv''"
definition kToggleFlickHalfwidthasciiTableFile :: string where
  "kToggleFlickHalfwidthasciiTableFile = ''system://toggle_flick-halfwidthascii.tsv''"
definition kQwertyMobileHiraganaTableFile :: string where
  "kQwertyMobileHiraganaTableFile = ''system://qwerty_mobile-hiragana.tsv''"
definition kQwertyMobileHalfwidthasciiTableFile :: string where
  "kQwertyMobileHalfwidthasciiTableFile = ''system://qwerty_mobile-halfwidthascii.tsv''"
definition kGodanHiraganaTableFile :: string where
  "kGodanHiraganaTableFile = ''system://godan-hiragana.tsv''"
definition kNotouchHiraganaTableFile :: string where
  "kNotouchHiraganaTableFile = ''system://notouch-hiragana.tsv''"
definition kNotouchHalfwidthasciiTableFile :: string where
  "kNotouchHalfwidthasciiTableFile = ''system://qwerty_mobile-halfwidthascii.tsv''"
definition k50KeysHiraganaTableFile :: string where
  "k50KeysHiraganaTableFile = ''system://50keys-hiragana.tsv''"

fun special_table_file :: "SpecialRomanjiTable \<Rightarrow> string option" where
  "special_table_file TWELVE_KEYS_TO_HIRAGANA = Some k12keysHiraganaTableFile"
| "special_table_file TWELVE_KEYS_TO_HIRAGANA_INTUITIVE = Some k12keysHiraganaIntuitiveTableFile"
| "special_table_file TWELVE_KEYS_TO_HALFWIDTHASCII = Some k12keysHalfwidthasciiTableFile"
| "special_table_file FLICK_TO_HIRAGANA = Some kFlickHiraganaTableFile"
| "special_table_file FLICK_TO_HIRAGANA_INTUITIVE = Some kFlickHiraganaIntuitiveTableFile"
| "special_table_file FLICK_TO_HALFWIDTHASCII_IOS = Some kFlickHalfwidthasciiIosTableFile"
| "special_table_file FLICK_TO_HALFWIDTHASCII = Some kFlickHalfwidthasciiTableFile"
| "special_table_file FLICK_TO_NUMBER = Some kFlickNumberTableFile"
| "special_table_file TOGGLE_FLICK_TO_HIRAGANA = Some kToggleFlickHiraganaTableFile"
| "special_table_file TOGGLE_FLICK_TO_HIRAGANA_INTUITIVE = Some kToggleFlickHiraganaIntuitiveTableFile"
| "special_table_file TOGGLE_FLICK_TO_HALFWIDTHASCII_IOS = Some kToggleFlickHalfwidthasciiIosTableFile"
| "special_table_file TOGGLE_FLICK_TO_NUMBER = Some kToggleFlickNumberTableFile"
| "special_table_file TOGGLE_FLICK_TO_HALFWIDTHASCII = Some kToggleFlickHalfwidthasciiTableFile"
| "special_table_file QWERTY_MOBILE_TO_HIRAGANA = Some kQwertyMobileHiraganaTableFile"
| "special_table_file QWERTY_MOBILE_TO_HALFWIDTHASCII = Some kQwertyMobileHalfwidthasciiTableFile"
| "special_table_file GODAN_TO_HIRAGANA = Some kGodanHiraganaTableFile"
| "special_table_file NOTOUCH_TO_HIRAGANA = Some kNotouchHiraganaTableFile"
| "special_table_file NOTOUCH_TO_HALFWIDTHASCII = Some kNotouchHalfwidthasciiTableFile"
| "special_table_file FIFTY_KEYS_TO_HIRAGANA = Some k50KeysHiraganaTableFile"
| "special_table_file _ = None"

definition kKuten :: ustr where "kKuten = [0x3001]"
definition kTouten :: ustr where "kTouten = [0x3002]"
definition kComma :: ustr where "kComma = [0xFF0C]"
definition kPeriod :: ustr where "kPeriod = [0xFF0E]"
definition kCornerOpen :: ustr where "kCornerOpen = [0x300C]"
definition kCornerClose :: ustr where "kCornerClose = [0x300D]"
definition kSlash :: ustr where "kSlash = [0xFF0F]"
definition kSquareOpen :: ustr where "kSquareOpen = [0x5B]"
definition kSquareClose :: ustr where "kSquareClose = [0x5D]"
definition kMiddleDot :: ustr where "kMiddleDot = [0x30FB]"

text \<open>
  One of the five blocks that set a punctuation or symbol: the rule is set only if the table has no
  entry for the key or the entry is the one of the default setting.
\<close>

definition init_symbol :: "nat \<Rightarrow> ustr \<Rightarrow> ustr \<Rightarrow> ustr \<Rightarrow> Table \<Rightarrow> Table outcome" where
  "init_symbol fuel key known chosen t =
     (let entry = Table_LookUp t key in
      if (case entry of None \<Rightarrow> True | Some e \<Rightarrow> ent_result e = known \<and> ent_pending e = [])
      then obind (AddRule fuel t key chosen []) (\<lambda>(_, t'). Ret t')
      else Ret t)"

definition init_punctuations :: "nat \<Rightarrow> PunctuationMethod \<Rightarrow> Table \<Rightarrow> Table outcome" where
  "init_punctuations fuel pm t =
     obind (init_symbol fuel [0x2C] kKuten
              (if pm = COMMA_PERIOD \<or> pm = COMMA_KUTEN
               then kComma else kKuten) t) (\<lambda>t.
     init_symbol fuel [0x2E] kTouten
              (if pm = COMMA_PERIOD \<or> pm = TOUTEN_PERIOD
               then kPeriod else kTouten) t)"

definition init_symbols :: "nat \<Rightarrow> SymbolMethod \<Rightarrow> Table \<Rightarrow> Table outcome" where
  "init_symbols fuel sm t =
     (let corner = (sm = CORNER_BRACKET_MIDDLE_DOT \<or> sm = CORNER_BRACKET_SLASH)
      in obind (init_symbol fuel [0x2F] kMiddleDot
                  (if sm = SQUARE_BRACKET_SLASH \<or> sm = CORNER_BRACKET_SLASH
                   then kSlash else kMiddleDot) t) (\<lambda>t.
         obind (init_symbol fuel [0x5B] kCornerOpen
                  (if corner then kCornerOpen else kSquareOpen) t) (\<lambda>t.
         init_symbol fuel [0x5D] kCornerClose
                  (if corner then kCornerClose else kSquareClose) t)))"

text \<open>
  The switch over the preedit method has no other cases: the field is a closed enumeration.
\<close>

definition load_preedit ::
  "(string \<Rightarrow> ustr option) \<Rightarrow> nat \<Rightarrow> Config \<Rightarrow> Table \<Rightarrow> (bool \<times> Table) outcome" where
  "load_preedit files fuel config t =
     (case preedit_method config of
        ROMAN \<Rightarrow>
          (case custom_roman_table config of
             Some custom \<Rightarrow>
               if custom \<noteq> [] then LoadFromString fuel t custom
               else LoadFromFile files fuel t kRomajiPreeditTableFile
           | None \<Rightarrow> LoadFromFile files fuel t kRomajiPreeditTableFile)
      | KANA \<Rightarrow> LoadFromFile files fuel t kRomajiPreeditTableFile)"

definition init_from_config ::
  "(string \<Rightarrow> ustr option) \<Rightarrow> nat \<Rightarrow> Config \<Rightarrow> Table \<Rightarrow> (bool \<times> Table) outcome" where
  "init_from_config files fuel config t =
     obind (load_preedit files fuel config t) (\<lambda>(result, t).
     obind (if \<not> result then LoadFromFile files fuel t kDefaultPreeditTableFile
            else Ret (result, t)) (\<lambda>(result, t).
     if \<not> result then Ret (False, t)
     else
       obind (init_punctuations fuel (punctuation_method config) t) (\<lambda>t.
       obind (init_symbols fuel (symbol_method config) t) (\<lambda>t.
       LoadFromFile files fuel t kKanaCombinationTableFile))))"

definition InitializeWithRequestAndConfig ::
  "(string \<Rightarrow> ustr option) \<Rightarrow> nat \<Rightarrow> Table \<Rightarrow> Request \<Rightarrow> Config \<Rightarrow> (bool \<times> Table) outcome" where
  "InitializeWithRequestAndConfig files fuel t request config =
     (let t = t\<lparr>case_sensitive := False\<rparr> in
      if special_romanji_table request \<noteq> DEFAULT_TABLE
      then
        (case special_table_file (special_romanji_table request) of
           None \<Rightarrow> init_from_config files fuel config t
         | Some table_file_name \<Rightarrow>
             obind (LoadFromFile files fuel t table_file_name) (\<lambda>(loaded, t).
             if loaded then Ret (True, t) else init_from_config files fuel config t))
      else init_from_config files fuel config t)"

subsection \<open>The table manager\<close>

text \<open>
  A \<^verbatim>\<open>shared_ptr\<close> to a table is its address with the table behind it; \<^verbatim>\<open>CharChunk::IsAppendable\<close>
  compares the addresses. The hash (\<^verbatim>\<open>absl::HashOf\<close>) and the fingerprint of a text
  (\<^verbatim>\<open>CityFingerprint\<close>) are parameters. Creating a table takes the next unused address.
\<close>

datatype table_ptr = TablePtr (ptr_addr: nat) (ptr_table: Table)

type_synonym table_hash =
  "SpecialRomanjiTable \<Rightarrow> PreeditMethod \<Rightarrow> PunctuationMethod \<Rightarrow> SymbolMethod \<Rightarrow> nat \<Rightarrow> nat"

record TableManager =
  table_map :: "(nat \<times> table_ptr) list"
  next_addr :: nat

definition NewTableManager :: TableManager where
  "NewTableManager = \<lparr>table_map = [], next_addr = 1\<rparr>"

definition GetCustomRomanTableFingerprint :: "(ustr \<Rightarrow> nat) \<Rightarrow> Request \<Rightarrow> Config \<Rightarrow> nat" where
  "GetCustomRomanTableFingerprint fingerprint request config =
     (if special_romanji_table request \<noteq> DEFAULT_TABLE \<or> preedit_method config \<noteq> ROMAN then 0
      else (case custom_roman_table config of
              None \<Rightarrow> 0
            | Some custom \<Rightarrow> if custom = [] then 0 else fingerprint custom))"

definition table_key :: "table_hash \<Rightarrow> (ustr \<Rightarrow> nat) \<Rightarrow> Request \<Rightarrow> Config \<Rightarrow> nat" where
  "table_key hash_of fingerprint request config =
     hash_of (special_romanji_table request) (preedit_method config) (punctuation_method config)
       (symbol_method config) (GetCustomRomanTableFingerprint fingerprint request config)"

definition GetTable ::
  "table_hash \<Rightarrow> (ustr \<Rightarrow> nat) \<Rightarrow> (string \<Rightarrow> ustr option) \<Rightarrow> nat \<Rightarrow> TableManager \<Rightarrow> Request \<Rightarrow> Config \<Rightarrow>
   (table_ptr option \<times> TableManager) outcome" where
  "GetTable hash_of fingerprint files fuel mgr request config =
     (let hash = table_key hash_of fingerprint request config in
      case map_of (table_map mgr) hash of
        Some p \<Rightarrow> Ret (Some p, mgr)
      | None \<Rightarrow>
          obind (InitializeWithRequestAndConfig files fuel NewTable request config) (\<lambda>(ok, t).
          if \<not> ok then Ret (None, mgr\<lparr>next_addr := next_addr mgr + 1\<rparr>)
          else
            (let p = TablePtr (next_addr mgr) t in
             Ret (Some p, \<lparr>table_map = (hash, p) # table_map mgr,
                           next_addr = next_addr mgr + 1\<rparr>))))"

definition ClearCaches :: "TableManager \<Rightarrow> TableManager" where
  "ClearCaches mgr = mgr\<lparr>table_map := []\<rparr>"

subsection \<open>The invariant of the table\<close>

definition table_ok :: "Table \<Rightarrow> bool" where
  "table_ok t \<longleftrightarrow> wf_trie (entries t) \<and> special_keys_ok (special_key_map t) \<and>
     (\<forall>k e. LookUp (entries t) k = Some e \<longrightarrow> ent_input e = k)"

lemma table_ok_NewTable: "table_ok NewTable"
proof -
  have "special_keys_ok m \<Longrightarrow> special_keys_ok (register_only s m)" for s m
    by (simp add: register_only_def Register_def special_keys_ok_Register)
  moreover have "special_keys_ok []" by (simp add: special_keys_ok_def)
  ultimately show ?thesis by (simp add: table_ok_def NewTable_def)
qed

lemma Table_LookUp_normalize: "Table_LookUp t k = LookUp (entries t) (normalize t k)"
  by (simp add: Table_LookUp_def normalize_def)

lemma Table_LookUpPrefix_normalize: "Table_LookUpPrefix t k = LookUpPrefix (entries t) (normalize t k)"
  by (simp add: Table_LookUpPrefix_def normalize_def)

lemma length_normalize [simp]: "length (normalize t k) = length k"
  by (simp add: normalize_def)

lemma normalize_idem [simp]: "normalize t (normalize t k) = normalize t k"
  by (simp add: normalize_def)

lemma normalize_take [simp]: "take n (normalize t k) = normalize t (take n k)"
  by (simp add: normalize_def)

lemma Table_LookUpPrefix_spec:
  assumes "table_ok t" "Table_LookUpPrefix t k = (x, n, fixed)"
  shows "n \<le> length k \<and> x = Table_LookUp t (take n k)"
  using trie.prefix_le [of "entries t" "normalize t k" x n fixed]
    trie.prefix_value [of "entries t" "normalize t k" x n fixed] assms
  by (simp add: Table_LookUpPrefix_normalize Table_LookUp_normalize table_ok_def)

text \<open>The outcomes of the body of \<^verbatim>\<open>AddRuleWithAttributes\<close>.\<close>

lemma add_rule_body_None:
  assumes "add_rule_body fuel t i out p a = Ret (None, t')"
  shows "entries t' = entries t \<and> case_sensitive t' = case_sensitive t \<and>
    (table_ok t \<longrightarrow> table_ok t')"
proof -
  obtain inp m1 where 1: "Register (special_key_map t) i = (inp, m1)" by fastforce
  obtain pend m2 where 2: "Register m1 p = (pend, m2)" by fastforce
  have "special_keys_ok (special_key_map t) \<Longrightarrow> special_keys_ok m2"
    using special_keys_ok_Register [of "special_key_map t" i] special_keys_ok_Register [of m1 p] 1 2
    by (simp add: Register_def)
  moreover have "t' = t \<or> t' = t\<lparr>special_key_map := m2\<rparr>"
    using assms 1 2 by (auto simp: add_rule_body_def Let_def split: if_splits)
  ultimately show ?thesis by (auto simp: table_ok_def)
qed

lemma add_rule_body_Some:
  assumes "add_rule_body fuel t i out p a = Ret (Some e, t')"
  obtains inp pend m1 where "Register (special_key_map t) i = (inp, m1)"
    and "Register m1 p = (pend, special_key_map t')"
    and "IsLoopingEntry fuel (t\<lparr>special_key_map := special_key_map t'\<rparr>) inp pend = Ret False"
    and "e = \<lparr>ent_input = inp, ent_result = out, ent_pending = pend, ent_attributes = a\<rparr>"
    and "entries t' = AddEntry (entries t) inp e"
    and "case_sensitive t' \<longleftrightarrow> case_sensitive t \<or> has_capital (DeleteSpecialKeys inp)"
proof -
  obtain inp m1 where 1: "Register (special_key_map t) i = (inp, m1)" by fastforce
  obtain pend m2 where 2: "Register m1 p = (pend, m2)" by fastforce
  have "IsLoopingEntry fuel (t\<lparr>special_key_map := m2\<rparr>) inp pend = Ret False \<and>
    e = \<lparr>ent_input = inp, ent_result = out, ent_pending = pend, ent_attributes = a\<rparr> \<and>
    t' = t\<lparr>special_key_map := m2, entries := AddEntry (entries t) inp e,
            case_sensitive := (case_sensitive t \<or> has_capital (DeleteSpecialKeys inp))\<rparr>"
    using assms 1 2 by (auto simp: add_rule_body_def Let_def split: if_splits)
  then show thesis using 1 2 that [of inp m1 pend] by simp
qed

lemma table_ok_add_rule_body:
  assumes "add_rule_body fuel t i out p a = Ret (r, t')" "table_ok t"
  shows "table_ok t'"
proof (cases r)
  case None
  then show ?thesis using add_rule_body_None assms by blast
next
  case (Some e)
  obtain inp pend m1 where 1: "Register (special_key_map t) i = (inp, m1)"
    and 2: "Register m1 p = (pend, special_key_map t')"
    and "IsLoopingEntry fuel (t\<lparr>special_key_map := special_key_map t'\<rparr>) inp pend = Ret False"
    and e: "e = \<lparr>ent_input = inp, ent_result = out, ent_pending = pend, ent_attributes = a\<rparr>"
    and en: "entries t' = AddEntry (entries t) inp e"
    and "case_sensitive t' \<longleftrightarrow> case_sensitive t \<or> has_capital (DeleteSpecialKeys inp)"
    by (rule add_rule_body_Some [OF assms(1) [unfolded Some]])
  have "special_keys_ok (special_key_map t')"
    using special_keys_ok_Register [of "special_key_map t" i] special_keys_ok_Register [of m1 p] 1 2 assms(2)
    by (simp add: Register_def table_ok_def)
  then show ?thesis using assms(2) e
    by (auto simp: table_ok_def en wf_AddEntry LookUp_AddEntry split: if_splits)
qed

lemma table_ok_AddRuleWithAttributes:
  "AddRuleWithAttributes fuel t i out p a = Ret (r, t') \<Longrightarrow> table_ok t \<Longrightarrow> table_ok t'"
  by (auto simp: AddRuleWithAttributes_def split: if_splits prod.splits
      dest!: table_ok_add_rule_body)

lemma table_ok_AddRule: "AddRule fuel t i out p = Ret (r, t') \<Longrightarrow> table_ok t \<Longrightarrow> table_ok t'"
  unfolding AddRule_def by (rule table_ok_AddRuleWithAttributes)

lemma not_looping_prefix:
  assumes "IsLoopingEntry fuel t inp pend = Ret False" "inp \<noteq> []" "pend \<noteq> []"
  shows "\<not> starts_with pend inp"
  using assms by (cases fuel) (auto simp: IsLoopingEntry_def split: if_splits)

text \<open>
  A rule that is accepted is stored under its input, with the special keys of input and
  pending replaced as \<^verbatim>\<open>ParseSpecialKey\<close> does; every other rule is kept; its input is not a prefix of
  its pending; and the table's invariant is kept. A rejected rule changes no entry.
\<close>

theorem AddRule_correct:
  assumes "table_ok t" and "AddRule fuel t i out p = Ret (r, t')"
  shows "table_ok t' \<and>
    (case r of
       None \<Rightarrow> entries t' = entries t \<and> case_sensitive t' = case_sensitive t
     | Some e \<Rightarrow>
         ent_input e = ParseSpecialKey t' i \<and> ent_result e = out \<and>
         ent_pending e = ParseSpecialKey t' p \<and>
         LookUp (entries t') = (LookUp (entries t))(ent_input e \<mapsto> e) \<and>
         (ent_input e \<noteq> [] \<longrightarrow> ent_pending e \<noteq> [] \<longrightarrow> \<not> starts_with (ent_pending e) (ent_input e)))"
proof (cases r)
  case None
  then show ?thesis
    using assms add_rule_body_None [of fuel t i out p NO_TABLE_ATTRIBUTE t']
    by (simp add: AddRule_def AddRuleWithAttributes_def has_attribute_def NO_TABLE_ATTRIBUTE_def)
next
  case (Some e)
  have "add_rule_body fuel t i out p NO_TABLE_ATTRIBUTE = Ret (Some e, t')"
    using assms(2) Some
    by (simp add: AddRule_def AddRuleWithAttributes_def has_attribute_def NO_TABLE_ATTRIBUTE_def)
  from this obtain inp pend m1 where 1: "Register (special_key_map t) i = (inp, m1)"
    and 2: "Register m1 p = (pend, special_key_map t')"
    and nl: "IsLoopingEntry fuel (t\<lparr>special_key_map := special_key_map t'\<rparr>) inp pend = Ret False"
    and e: "e = \<lparr>ent_input = inp, ent_result = out, ent_pending = pend,
                  ent_attributes = NO_TABLE_ATTRIBUTE\<rparr>"
    and en: "entries t' = AddEntry (entries t) inp e"
    and "case_sensitive t' \<longleftrightarrow> case_sensitive t \<or> has_capital (DeleteSpecialKeys inp)"
    by (rule add_rule_body_Some)
  have "extends_map m1 (special_key_map t')"
    using Register_extends [of m1 p] 2 by (simp add: Register_def)
  then have "ParseSpecialKey t' i = inp"
    using Parse_Register_extends [of "special_key_map t" i "special_key_map t'"] 1
    by (simp add: ParseSpecialKey_def Parse_def Register_def)
  moreover have "ParseSpecialKey t' p = pend"
    using Parse_Register_extends [of m1 p "special_key_map t'"] 2
    by (simp add: ParseSpecialKey_def Parse_def Register_def extends_map_def)
  moreover have "LookUp (entries t') = (LookUp (entries t))(inp \<mapsto> e)"
    by (auto simp: en LookUp_AddEntry fun_eq_iff)
  ultimately show ?thesis
    using table_ok_AddRule [OF assms(2,1)] not_looping_prefix [OF nl] Some e by simp
qed

text \<open>An accepted rule without special keys or pending; the fuel is not used.\<close>

lemma Register_plain: "0x7B \<notin> set s \<Longrightarrow> Register m s = (s, m)"
  unfolding Register_def
  by (rule ParseBlock_None) (auto simp: FindBlock_None)

lemma AddRule_plain:
  assumes "0x7B \<notin> set i" "byte_size i < 300" "byte_size out < 300"
  shows "AddRule fuel t i out [] =
    (let e = \<lparr>ent_input = i, ent_result = out, ent_pending = [], ent_attributes = 0\<rparr> in
     Ret (Some e, t\<lparr>entries := AddEntry (entries t) i e,
                    case_sensitive := case_sensitive t \<or> has_capital (DeleteSpecialKeys i)\<rparr>))"
  using assms Register_plain [of "[]"]
  by (simp add: AddRule_def AddRuleWithAttributes_def has_attribute_def NO_TABLE_ATTRIBUTE_def
      add_rule_body_def Register_plain Let_def IsLoopingEntry_def kMaxSize_def)

theorem AddRule_correct_witness:
  "\<exists>e t'. AddRule 1 NewTable [0x6E] [0x3093] [] = Ret (Some e, t') \<and> table_ok t' \<and>
     LookUp (entries t') [0x6E] = Some e"
proof -
  obtain e t' where r: "AddRule 1 NewTable [0x6E] [0x3093] [] = Ret (Some e, t')" "ent_input e = [0x6E]"
    by (simp add: AddRule_plain char_size_def Let_def)
  show ?thesis using AddRule_correct [OF table_ok_NewTable r(1)] r by auto
qed

text \<open>
  A rule is found again under its input, by both look-ups, if lower-casing does not change the
  input or the table is case sensitive.
\<close>

lemma Table_LookUp_after_add:
  assumes "entries t' = AddEntry (entries t) inp e" "case_sensitive t' \<or> LowerString inp = inp"
  shows "Table_LookUp t' inp = Some e"
  using assms by (auto simp: Table_LookUp_def LookUp_AddEntry)

lemma Table_LookUpPrefix_exact:
  assumes "table_ok t" "Table_LookUp t k = Some e"
  shows "\<exists>fixed. Table_LookUpPrefix t k = (Some e, length k, fixed)"
  using trie.prefix_exact [of "entries t" "normalize t k" e] assms
  by (simp add: Table_LookUpPrefix_normalize Table_LookUp_normalize table_ok_def)

lemma LowerString_ascii:
  "list_all (\<lambda>c. c < 0x80) s \<Longrightarrow> \<not> has_capital s \<Longrightarrow> LowerString s = s"
  by (induction s) (auto simp: has_capital_def LowerString_map lower_char_def is_upper_char_def)

lemma ascii_no_special: "list_all (\<lambda>c. 0x20 \<le> c \<and> c < 0x80) s \<Longrightarrow> DeleteSpecialKeys s = s"
proof (rule DeleteSpecialKeys_fixed)
  assume a: "list_all (\<lambda>c. 0x20 \<le> c \<and> c < 0x80) s"
  have "kSpecialKeyClose \<notin> set s"
    using a by (auto simp: list_all_iff kSpecialKeyClose_def)
  then show "no_block s" unfolding no_block_def by (auto dest: set_dropWhileD)
  show "list_all (\<lambda>c. \<not> IsSpecialKey c) s"
    using a by (auto simp: list_all_iff IsSpecialKey_def kSpecialKeyBegin_def)
qed

text \<open>
  \<open>C33\<close>: An accepted rule whose input, after special keys are parsed, is printable ASCII (so has no special key either)
  is found by the exact look-up and by the prefix look-up in the well-formed table it was added to: if its input has
  a capital letter, the table has become case sensitive, and otherwise lower-casing the query does not change it. For
  other inputs this is false: \<open>AddRule_fullwidth_unreachable\<close>.
\<close>

theorem AddRule_reachable:
  assumes "table_ok t" and "AddRule fuel t i out p = Ret (Some e, t')"
    and "list_all (\<lambda>c. 0x20 \<le> c \<and> c < 0x80) (ent_input e)"
  shows "Table_LookUp t' (ent_input e) = Some e \<and>
    (\<exists>fixed. Table_LookUpPrefix t' (ent_input e) = (Some e, length (ent_input e), fixed))"
proof -
  have "add_rule_body fuel t i out p NO_TABLE_ATTRIBUTE = Ret (Some e, t')"
    using assms(2)
    by (simp add: AddRule_def AddRuleWithAttributes_def has_attribute_def NO_TABLE_ATTRIBUTE_def)
  from this obtain inp pend m1 where "Register (special_key_map t) i = (inp, m1)"
    and "Register m1 p = (pend, special_key_map t')"
    and "IsLoopingEntry fuel (t\<lparr>special_key_map := special_key_map t'\<rparr>) inp pend = Ret False"
    and e: "e = \<lparr>ent_input = inp, ent_result = out, ent_pending = pend,
                  ent_attributes = NO_TABLE_ATTRIBUTE\<rparr>"
    and en: "entries t' = AddEntry (entries t) inp e"
    and cs: "case_sensitive t' \<longleftrightarrow> case_sensitive t \<or> has_capital (DeleteSpecialKeys inp)"
    by (rule add_rule_body_Some)
  have inp: "ent_input e = inp" by (simp add: e)
  have "case_sensitive t' \<or> LowerString inp = inp"
    using LowerString_ascii [of inp] ascii_no_special [of inp] assms(3) cs inp
    by (auto simp: list_all_iff)
  then have found: "Table_LookUp t' inp = Some e" using Table_LookUp_after_add [OF en] by blast
  moreover have "table_ok t'" using table_ok_AddRule [OF assms(2,1)] .
  ultimately show ?thesis using Table_LookUpPrefix_exact inp by blast
qed

theorem AddRule_reachable_witness:
  "\<exists>e t'. AddRule 1 NewTable [0x4E, 0x6E] [0x3093] [] = Ret (Some e, t') \<and>
     Table_LookUp t' [0x4E, 0x6E] = Some e"
proof -
  obtain e t' where r: "AddRule 1 NewTable [0x4E, 0x6E] [0x3093] [] = Ret (Some e, t')"
    "ent_input e = [0x4E, 0x6E]"
    by (simp add: AddRule_plain char_size_def Let_def)
  show ?thesis using AddRule_reachable [OF table_ok_NewTable r(1)] r by simp
qed

text \<open>
  A rule whose input is a full-width capital letter is accepted but can never be found: the
  check for capitals only looks for \<^verbatim>\<open>'A'\<close> to \<^verbatim>\<open>'Z'\<close>, while \<^verbatim>\<open>Util::LowerString\<close>, which both look-ups
  apply to the query, also maps the full-width letters.
\<close>

theorem AddRule_fullwidth_unreachable:
  "\<exists>e t'. AddRule 1 NewTable [0xFF21] [0x3042] [] = Ret (Some e, t') \<and>
     LookUp (entries t') [0xFF21] = Some e \<and> Table_LookUp t' [0xFF21] = None \<and>
     Table_LookUpPrefix t' [0xFF21] = (None, 0, True)"
proof -
  have del: "DeleteSpecialKeys [0xFF21] = [0xFF21]"
    by (rule DeleteSpecialKeys_fixed)
      (simp_all add: no_block_def kSpecialKeyOpen_def IsSpecialKey_def kSpecialKeyBegin_def kSpecialKeyEnd_def)
  show ?thesis
    by (simp add: AddRule_plain char_size_def Let_def del has_capital_def NewTable_def
        Table_LookUp_def Table_LookUpPrefix_def LowerString_map lower_char_def is_upper_char_def
        EmptyTrie_def FindSubTrie_def prefix_here_def)
qed

subsection \<open>The loop check\<close>

text \<open>One rewriting step of a key, and the keys that the check visits.\<close>

definition rewrite_key :: "Table \<Rightarrow> ustr \<Rightarrow> ustr option" where
  "rewrite_key t key =
     (case Table_LookUpPrefix t key of
        (None, key_length, fixed) \<Rightarrow> None
      | (Some entry, key_length, fixed) \<Rightarrow> Some (ent_pending entry @ drop key_length key))"

inductive visits :: "Table \<Rightarrow> ustr \<Rightarrow> ustr \<Rightarrow> bool" for t where
  here: "visits t key key"
| step: "rewrite_key t key = Some key' \<Longrightarrow> key' \<noteq> [] \<Longrightarrow> visits t key' k \<Longrightarrow> visits t key k"

inductive_cases visitsE: "visits t key k"

lemma looping_from_rewrite:
  "looping_from (Suc fuel) t inp key =
     (if starts_with key inp then Ret True
      else (case rewrite_key t key of
              None \<Rightarrow> Ret False
            | Some key' \<Rightarrow> if key' = [] then Ret False else looping_from fuel t inp key'))"
  by (simp add: rewrite_key_def Let_def split: prod.split option.split)

declare looping_from.simps(2) [simp del]

lemma looping_from_correct:
  "looping_from fuel t inp key = Ret b \<Longrightarrow> b \<longleftrightarrow> (\<exists>k. visits t key k \<and> starts_with k inp)"
proof (induction fuel arbitrary: key)
  case (Suc fuel)
  show ?case
  proof (cases "starts_with key inp")
    case True
    then show ?thesis using Suc(2) by (auto simp: looping_from_rewrite intro: visits.here)
  next
    case False
    show ?thesis
    proof (cases "rewrite_key t key")
      case None
      then have "\<not> (\<exists>k. visits t key k \<and> starts_with k inp)" using False by (auto elim: visitsE)
      then show ?thesis using Suc(2) False None by (simp add: looping_from_rewrite)
    next
      case (Some key')
      show ?thesis
      proof (cases "key' = []")
        case True
        then have "\<not> (\<exists>k. visits t key k \<and> starts_with k inp)" using False Some by (auto elim: visitsE)
        then show ?thesis using Suc(2) False Some True by (simp add: looping_from_rewrite)
      next
        case ne: False
        have "looping_from fuel t inp key' = Ret b"
          using Suc(2) False Some ne by (simp add: looping_from_rewrite)
        then have "b \<longleftrightarrow> (\<exists>k. visits t key' k \<and> starts_with k inp)" by (rule Suc(1))
        moreover have "visits t key k \<longleftrightarrow> k = key \<or> visits t key' k" for k
          using Some ne by (auto elim: visitsE intro: visits.intros)
        ultimately show ?thesis using False by auto
      qed
    qed
  qed
qed simp

text \<open>A measure that every rule decreases bounds the number of iterations.\<close>

definition decreasing :: "(ustr \<Rightarrow> nat) \<Rightarrow> Table \<Rightarrow> bool" where
  "decreasing m t \<longleftrightarrow> (\<forall>key key'. rewrite_key t key = Some key' \<longrightarrow> m key' < m key)"

lemma looping_from_terminates:
  "decreasing m t \<Longrightarrow> m key < fuel \<Longrightarrow> looping_from fuel t inp key \<noteq> Timeout"
proof (induction fuel arbitrary: key)
  case (Suc fuel)
  have "m key' < fuel" if "rewrite_key t key = Some key'" for key'
    using Suc(2,3) that by (fastforce simp: decreasing_def)
  then show ?case using Suc by (auto simp: looping_from_rewrite split: option.splits)
qed simp

lemma looping_from_no_throw: "looping_from fuel t inp key \<noteq> Throw x"
  by (induction fuel arbitrary: key) (auto simp: looping_from_rewrite split: option.splits)

lemma decreasing_length:
  assumes "table_ok t" "\<forall>k e. LookUp (entries t) k = Some e \<longrightarrow> length (ent_pending e) < length k"
  shows "decreasing length t"
  unfolding decreasing_def
proof (intro allI impI)
  fix key key' assume "rewrite_key t key = Some key'"
  then obtain e n f where p: "Table_LookUpPrefix t key = (Some e, n, f)" "key' = ent_pending e @ drop n key"
    by (auto simp: rewrite_key_def split: prod.splits option.splits)
  have "n \<le> length key" "LookUp (entries t) (normalize t (take n key)) = Some e"
    using Table_LookUpPrefix_spec [OF assms(1) p(1)] by (simp_all add: Table_LookUp_normalize)
  then show "length key' < length key" using assms(2) p(2) by fastforce
qed

text \<open>
  The loop check answers as specified: for an input and a pending that are not empty it says
  that the rule loops iff rewriting the pending with the rules of the table reaches a key that
  starts with the input. If every rule decreases some measure of the key, it returns.
\<close>

theorem IsLoopingEntry_correct:
  assumes "decreasing m t" and "m pend < fuel" and "inp \<noteq> []" and "pend \<noteq> []"
  shows "IsLoopingEntry fuel t inp pend = Ret (\<exists>k. visits t pend k \<and> starts_with k inp)"
proof -
  obtain b where b: "looping_from fuel t inp pend = Ret b"
    using looping_from_terminates [OF assms(1,2), of inp] looping_from_no_throw [of fuel t inp pend]
    by (cases "looping_from fuel t inp pend") auto
  then show ?thesis using looping_from_correct [OF b] assms(3,4) by (simp add: IsLoopingEntry_def)
qed

definition nn_table :: Table where
  "nn_table =
     \<lparr>entries = AddEntry EmptyTrie [0x6B, 0x6B]
        \<lparr>ent_input = [0x6B, 0x6B], ent_result = [0x3063], ent_pending = [0x6B], ent_attributes = 0\<rparr>,
      special_key_map = [], case_sensitive = False\<rparr>"

lemma table_ok_nn: "table_ok nn_table"
  by (simp add: table_ok_def nn_table_def wf_AddEntry special_keys_ok_def LookUp_AddEntry)

theorem IsLoopingEntry_correct_witness:
  "IsLoopingEntry 4 nn_table [0x6B] [0x6B, 0x6B] = Ret (\<exists>k. visits nn_table [0x6B, 0x6B] k \<and> starts_with k [0x6B])"
proof (rule IsLoopingEntry_correct)
  show "decreasing length nn_table"
    by (rule decreasing_length [OF table_ok_nn]) (simp add: nn_table_def LookUp_AddEntry)
qed simp_all

lemma NewTable_sel [simp]: "entries NewTable = EmptyTrie" "case_sensitive NewTable = False"
  by (simp_all add: NewTable_def)

definition cycle_table :: Table where
  "cycle_table =
     (case AddRule 2 NewTable (ascii ''ab'') [] (ascii ''cab'') of
        Ret (_, t) \<Rightarrow> (case AddRule 2 t (ascii ''c'') [0x78] [] of Ret (_, t') \<Rightarrow> t' | _ \<Rightarrow> t)
      | _ \<Rightarrow> NewTable)"

lemma AddRule_ab:
  "AddRule 2 NewTable (ascii ''ab'') [] (ascii ''cab'') =
     Ret (Some \<lparr>ent_input = [0x61, 0x62], ent_result = [], ent_pending = [0x63, 0x61, 0x62], ent_attributes = 0\<rparr>,
          NewTable\<lparr>entries := AddEntry EmptyTrie [0x61, 0x62]
            \<lparr>ent_input = [0x61, 0x62], ent_result = [], ent_pending = [0x63, 0x61, 0x62], ent_attributes = 0\<rparr>\<rparr>)"
proof -
  have d: "DeleteSpecialKeys [0x61, 0x62] = [0x61, 0x62]" by (rule ascii_no_special) simp
  have "IsLoopingEntry 2 NewTable [0x61, 0x62] [0x63, 0x61, 0x62] = Ret False"
    by (simp add: IsLoopingEntry_def numeral_2_eq_2 looping_from_rewrite rewrite_key_def
        Table_LookUpPrefix_def NewTable_def EmptyTrie_def FindSubTrie_def prefix_here_def
        LowerString_map lower_char_def is_upper_char_def)
  then show ?thesis
    by (simp add: AddRule_def AddRuleWithAttributes_def has_attribute_def NO_TABLE_ATTRIBUTE_def
        add_rule_body_def ascii_def Register_plain Let_def kMaxSize_def char_size_def d has_capital_def
        NewTable_def)
qed

lemma cycle_table_eq:
  "cycle_table = NewTable\<lparr>entries :=
     AddEntry (AddEntry EmptyTrie [0x61, 0x62]
        \<lparr>ent_input = [0x61, 0x62], ent_result = [], ent_pending = [0x63, 0x61, 0x62], ent_attributes = 0\<rparr>)
       [0x63] \<lparr>ent_input = [0x63], ent_result = [0x78], ent_pending = [], ent_attributes = 0\<rparr>\<rparr>"
proof -
  have d: "DeleteSpecialKeys [0x63] = [0x63]" by (rule ascii_no_special) simp
  show ?thesis
    by (simp only: cycle_table_def AddRule_ab outcome.case prod.case)
      (simp add: AddRule_plain ascii_def char_size_def Let_def d has_capital_def)
qed

lemma cycle_steps:
  "rewrite_key cycle_table [0x61, 0x62] = Some [0x63, 0x61, 0x62]"
  "rewrite_key cycle_table [0x63, 0x61, 0x62] = Some [0x61, 0x62]"
  by (simp_all add: rewrite_key_def cycle_table_eq Table_LookUpPrefix_def EmptyTrie_def
      FindSubTrie_def prefix_here_def LowerString_map lower_char_def is_upper_char_def)

text \<open>
  The loop check can run forever: it is skipped for a rule without pending, so the two rules
  \<^verbatim>\<open>ab\<close> with pending \<^verbatim>\<open>cab\<close> and then \<^verbatim>\<open>c\<close> without pending are both accepted, and every later rule with
  pending \<^verbatim>\<open>ab\<close> makes the check rewrite \<^verbatim>\<open>ab\<close> and \<^verbatim>\<open>cab\<close> into each other without end.
\<close>

theorem IsLoopingEntry_diverges:
  "AddRule fuel cycle_table (ascii ''z'') [] (ascii ''ab'') = Timeout"
proof -
  have loop: "looping_from n cycle_table [0x7A] [0x61, 0x62] = Timeout \<and>
      looping_from n cycle_table [0x7A] [0x63, 0x61, 0x62] = Timeout" for n
    by (induction n) (simp_all add: looping_from_rewrite cycle_steps)
  have "IsLoopingEntry fuel (cycle_table\<lparr>special_key_map := special_key_map cycle_table\<rparr>) [0x7A] [0x61, 0x62] = Timeout"
    using loop by (simp add: IsLoopingEntry_def)
  then show ?thesis
    by (simp add: AddRule_def AddRuleWithAttributes_def has_attribute_def NO_TABLE_ATTRIBUTE_def
        add_rule_body_def ascii_def Register_plain Let_def kMaxSize_def char_size_def)
qed

subsection \<open>Attributes\<close>

lemma has_attribute_simps:
  "has_attribute (a OR b) c \<longleftrightarrow> has_attribute a c \<or> has_attribute b c"
  by (simp add: has_attribute_def word_bw_comms(1) [of _ c] bit.conj_disj_distrib or_eq_0_iff)

lemma has_attribute_0: "\<not> has_attribute 0 c"
  by (simp add: has_attribute_def)

text \<open>The bit that one word sets.\<close>

definition attribute_of :: "ustr \<Rightarrow> TableAttributes" where
  "attribute_of s =
     (if s = ascii ''NewChunk'' then NEW_CHUNK
      else if s = ascii ''NoTransliteration'' then NO_TRANSLITERATION
      else if s = ascii ''DirectInput'' then DIRECT_INPUT
      else if s = ascii ''EndChunk'' then END_CHUNK
      else if s = ascii ''DisplayAmbiguousResult'' then DISPLAY_AMBIGUOUS_RESULT
      else 0)"

lemma attributes_loop_Cons: "attributes_loop (s # ss) a = attributes_loop ss (a OR attribute_of s)"
  by (simp add: attribute_of_def)

declare attributes_loop.simps(2) [simp del]

lemma attributes_loop_has:
  "has_attribute (attributes_loop ss a) b \<longleftrightarrow> has_attribute a b \<or> (\<exists>s\<in>set ss. has_attribute (attribute_of s) b)"
  by (induction ss arbitrary: a) (simp_all add: attributes_loop_Cons has_attribute_simps disj_assoc)

lemma attribute_bits:
  "has_attribute (attribute_of s) NEW_CHUNK \<longleftrightarrow> s = ascii ''NewChunk''"
  "has_attribute (attribute_of s) NO_TRANSLITERATION \<longleftrightarrow> s = ascii ''NoTransliteration''"
  "has_attribute (attribute_of s) DIRECT_INPUT \<longleftrightarrow> s = ascii ''DirectInput''"
  "has_attribute (attribute_of s) END_CHUNK \<longleftrightarrow> s = ascii ''EndChunk''"
  "has_attribute (attribute_of s) DISPLAY_AMBIGUOUS_RESULT \<longleftrightarrow> s = ascii ''DisplayAmbiguousResult''"
  by (simp_all add: attribute_of_def has_attribute_def NEW_CHUNK_def NO_TRANSLITERATION_def
      DIRECT_INPUT_def END_CHUNK_def DISPLAY_AMBIGUOUS_RESULT_def ascii_def)

text \<open>
  The attribute column of a rule is parsed as the set of the names it lists: each of the five
  bits is set exactly if its name is one of the words.
\<close>

theorem ParseAttributes_correct:
  "(has_attribute (ParseAttributes s) NEW_CHUNK \<longleftrightarrow> ascii ''NewChunk'' \<in> set (StrSplit 0x20 s)) \<and>
   (has_attribute (ParseAttributes s) NO_TRANSLITERATION \<longleftrightarrow> ascii ''NoTransliteration'' \<in> set (StrSplit 0x20 s)) \<and>
   (has_attribute (ParseAttributes s) DIRECT_INPUT \<longleftrightarrow> ascii ''DirectInput'' \<in> set (StrSplit 0x20 s)) \<and>
   (has_attribute (ParseAttributes s) END_CHUNK \<longleftrightarrow> ascii ''EndChunk'' \<in> set (StrSplit 0x20 s)) \<and>
   (has_attribute (ParseAttributes s) DISPLAY_AMBIGUOUS_RESULT \<longleftrightarrow>
     ascii ''DisplayAmbiguousResult'' \<in> set (StrSplit 0x20 s))"
  by (simp add: ParseAttributes_def attributes_loop_has attribute_bits NO_TABLE_ATTRIBUTE_def has_attribute_0)

subsection \<open>Punctuation and symbols\<close>

definition plain_key :: "ustr \<Rightarrow> bool" where
  "plain_key k \<longleftrightarrow> list_all (\<lambda>c. 0x20 \<le> c \<and> c < 0x60 \<and> \<not> (0x41 \<le> c \<and> c \<le> 0x5A)) k \<and> length k < 300"

lemma byte_size_ascii: "list_all (\<lambda>c. c < 0x80) s \<Longrightarrow> byte_size s = length s"
  by (induction s) (auto simp: char_size_def)

lemma plain_key_facts:
  assumes "plain_key k"
  shows "0x7B \<notin> set k" "byte_size k < 300" "DeleteSpecialKeys k = k" "\<not> has_capital k"
    "LowerString k = k"
proof -
  have a: "list_all (\<lambda>c. 0x20 \<le> c \<and> c < 0x80) k" "list_all (\<lambda>c. c < 0x80) k"
    using assms by (auto simp: plain_key_def list_all_iff)
  show "0x7B \<notin> set k" using assms by (auto simp: plain_key_def list_all_iff)
  show "byte_size k < 300" using byte_size_ascii [OF a(2)] assms by (simp add: plain_key_def)
  show "DeleteSpecialKeys k = k" by (rule ascii_no_special [OF a(1)])
  show c: "\<not> has_capital k" using assms by (auto simp: plain_key_def list_all_iff has_capital_def list_ex_iff)
  show "LowerString k = k" by (rule LowerString_ascii [OF a(2) c])
qed

text \<open>What one block does: it never fails, and touches the look-up of its own key only.\<close>

definition symbol_choice :: "Table \<Rightarrow> ustr \<Rightarrow> ustr \<Rightarrow> ustr \<Rightarrow> Entry option" where
  "symbol_choice t key known chosen =
     (case Table_LookUp t key of
        Some e \<Rightarrow> if ent_result e = known \<and> ent_pending e = []
                  then Some \<lparr>ent_input = key, ent_result = chosen, ent_pending = [], ent_attributes = 0\<rparr>
                  else Some e
      | None \<Rightarrow> Some \<lparr>ent_input = key, ent_result = chosen, ent_pending = [], ent_attributes = 0\<rparr>)"

definition table_lookup :: "Table \<Rightarrow> ustr \<Rightarrow> Entry option" where
  "table_lookup t = LookUp (entries t)"

lemma init_symbol_result:
  assumes "plain_key key" "byte_size chosen < 300"
  shows "\<exists>t'. init_symbol fuel key known chosen t = Ret t' \<and> case_sensitive t' = case_sensitive t \<and>
    table_lookup t' = (table_lookup t)(key := symbol_choice t key known chosen)"
proof (cases "case Table_LookUp t key of None \<Rightarrow> True | Some e \<Rightarrow> ent_result e = known \<and> ent_pending e = []")
  case True
  let ?e = "\<lparr>ent_input = key, ent_result = chosen, ent_pending = [], ent_attributes = 0\<rparr>"
  let ?t = "t\<lparr>entries := AddEntry (entries t) key ?e, case_sensitive := case_sensitive t\<rparr>"
  have "init_symbol fuel key known chosen t = Ret ?t"
    using True AddRule_plain [of key chosen fuel t] plain_key_facts [OF assms(1)] assms(2)
    by (simp add: init_symbol_def Let_def)
  moreover have "symbol_choice t key known chosen = Some ?e"
    using True by (auto simp: symbol_choice_def split: option.splits)
  ultimately show ?thesis by (auto simp: table_lookup_def LookUp_AddEntry fun_eq_iff)
next
  case False
  then obtain e where e: "Table_LookUp t key = Some e" "\<not> (ent_result e = known \<and> ent_pending e = [])"
    by (auto split: option.splits)
  have "init_symbol fuel key known chosen t = Ret t" using e by (auto simp: init_symbol_def Let_def)
  moreover have "symbol_choice t key known chosen = table_lookup t key"
    using e plain_key_facts(5) [OF assms(1)]
    by (auto simp: symbol_choice_def table_lookup_def Table_LookUp_def split: if_splits)
  ultimately show ?thesis by simp
qed

lemma Table_LookUp_plain: "plain_key k \<Longrightarrow> Table_LookUp t k = table_lookup t k"
  by (simp add: Table_LookUp_def table_lookup_def plain_key_facts(5))

lemma symbol_keys:
  "plain_key [0x2C]" "plain_key [0x2E]" "plain_key [0x2F]" "plain_key [0x5B]" "plain_key [0x5D]"
  by (simp_all add: plain_key_def)

lemma symbol_sizes:
  "byte_size kKuten < 300" "byte_size kTouten < 300" "byte_size kComma < 300" "byte_size kPeriod < 300"
  "byte_size kCornerOpen < 300" "byte_size kCornerClose < 300" "byte_size kSlash < 300"
  "byte_size kSquareOpen < 300" "byte_size kSquareClose < 300" "byte_size kMiddleDot < 300"
  by (simp_all add: kKuten_def kTouten_def kComma_def kPeriod_def kCornerOpen_def kCornerClose_def
      kSlash_def kSquareOpen_def kSquareClose_def kMiddleDot_def char_size_def)

definition configured :: "PunctuationMethod \<Rightarrow> SymbolMethod \<Rightarrow> (ustr \<times> ustr \<times> ustr) list" where
  "configured pm sm =
     [([0x2C], kKuten, if pm \<in> {COMMA_PERIOD, COMMA_KUTEN} then kComma else kKuten),
      ([0x2E], kTouten, if pm \<in> {COMMA_PERIOD, TOUTEN_PERIOD} then kPeriod else kTouten),
      ([0x2F], kMiddleDot, if sm \<in> {SQUARE_BRACKET_SLASH, CORNER_BRACKET_SLASH} then kSlash else kMiddleDot),
      ([0x5B], kCornerOpen, if sm \<in> {CORNER_BRACKET_MIDDLE_DOT, CORNER_BRACKET_SLASH} then kCornerOpen else kSquareOpen),
      ([0x5D], kCornerClose, if sm \<in> {CORNER_BRACKET_MIDDLE_DOT, CORNER_BRACKET_SLASH} then kCornerClose else kSquareClose)]"

lemma init_punctuations_result:
  "\<exists>t'. init_punctuations fuel pm t = Ret t' \<and> case_sensitive t' = case_sensitive t \<and>
     table_lookup t' = (table_lookup t)
       ([0x2C] := symbol_choice t [0x2C] kKuten (if pm \<in> {COMMA_PERIOD, COMMA_KUTEN} then kComma else kKuten),
        [0x2E] := symbol_choice t [0x2E] kTouten (if pm \<in> {COMMA_PERIOD, TOUTEN_PERIOD} then kPeriod else kTouten))"
proof -
  let ?c = "if pm = COMMA_PERIOD \<or> pm = COMMA_KUTEN then kComma else kKuten"
  let ?p = "if pm = COMMA_PERIOD \<or> pm = TOUTEN_PERIOD then kPeriod else kTouten"
  have sizes: "byte_size ?c < 300" "byte_size ?p < 300" by (simp_all add: symbol_sizes)
  obtain t1 where 1: "init_symbol fuel [0x2C] kKuten ?c t = Ret t1" "case_sensitive t1 = case_sensitive t"
    "table_lookup t1 = (table_lookup t)([0x2C] := symbol_choice t [0x2C] kKuten ?c)"
    using init_symbol_result [OF symbol_keys(1) sizes(1), of fuel kKuten t] by blast
  obtain t2 where 2: "init_symbol fuel [0x2E] kTouten ?p t1 = Ret t2" "case_sensitive t2 = case_sensitive t1"
    "table_lookup t2 = (table_lookup t1)([0x2E] := symbol_choice t1 [0x2E] kTouten ?p)"
    using init_symbol_result [OF symbol_keys(2) sizes(2), of fuel kTouten t1] by blast
  have "Table_LookUp t1 [0x2E] = Table_LookUp t [0x2E]"
    by (simp add: Table_LookUp_plain symbol_keys 1(3))
  then have "symbol_choice t1 [0x2E] kTouten ?p = symbol_choice t [0x2E] kTouten ?p"
    by (simp add: symbol_choice_def)
  then show ?thesis using 1 2 by (simp add: init_punctuations_def)
qed

lemma init_symbols_result:
  "\<exists>t'. init_symbols fuel sm t = Ret t' \<and> case_sensitive t' = case_sensitive t \<and>
     table_lookup t' = (table_lookup t)
       ([0x2F] := symbol_choice t [0x2F] kMiddleDot
          (if sm \<in> {SQUARE_BRACKET_SLASH, CORNER_BRACKET_SLASH} then kSlash else kMiddleDot),
        [0x5B] := symbol_choice t [0x5B] kCornerOpen
          (if sm \<in> {CORNER_BRACKET_MIDDLE_DOT, CORNER_BRACKET_SLASH} then kCornerOpen else kSquareOpen),
        [0x5D] := symbol_choice t [0x5D] kCornerClose
          (if sm \<in> {CORNER_BRACKET_MIDDLE_DOT, CORNER_BRACKET_SLASH} then kCornerClose else kSquareClose))"
proof -
  let ?corner = "sm = CORNER_BRACKET_MIDDLE_DOT \<or> sm = CORNER_BRACKET_SLASH"
  let ?s = "if sm = SQUARE_BRACKET_SLASH \<or> sm = CORNER_BRACKET_SLASH then kSlash else kMiddleDot"
  let ?o = "if ?corner then kCornerOpen else kSquareOpen"
  let ?c = "if ?corner then kCornerClose else kSquareClose"
  have sizes: "byte_size ?s < 300" "byte_size ?o < 300" "byte_size ?c < 300"
    by (simp_all add: symbol_sizes)
  obtain t1 where 1: "init_symbol fuel [0x2F] kMiddleDot ?s t = Ret t1" "case_sensitive t1 = case_sensitive t"
    "table_lookup t1 = (table_lookup t)([0x2F] := symbol_choice t [0x2F] kMiddleDot ?s)"
    using init_symbol_result [OF symbol_keys(3) sizes(1), of fuel kMiddleDot t] by blast
  obtain t2 where 2: "init_symbol fuel [0x5B] kCornerOpen ?o t1 = Ret t2" "case_sensitive t2 = case_sensitive t1"
    "table_lookup t2 = (table_lookup t1)([0x5B] := symbol_choice t1 [0x5B] kCornerOpen ?o)"
    using init_symbol_result [OF symbol_keys(4) sizes(2), of fuel kCornerOpen t1] by blast
  obtain t3 where 3: "init_symbol fuel [0x5D] kCornerClose ?c t2 = Ret t3" "case_sensitive t3 = case_sensitive t2"
    "table_lookup t3 = (table_lookup t2)([0x5D] := symbol_choice t2 [0x5D] kCornerClose ?c)"
    using init_symbol_result [OF symbol_keys(5) sizes(3), of fuel kCornerClose t2] by blast
  have "Table_LookUp t1 [0x5B] = Table_LookUp t [0x5B]" "Table_LookUp t2 [0x5D] = Table_LookUp t [0x5D]"
    by (simp_all add: Table_LookUp_plain symbol_keys 1(3) 2(3))
  then have "symbol_choice t1 [0x5B] kCornerOpen ?o = symbol_choice t [0x5B] kCornerOpen ?o"
    "symbol_choice t2 [0x5D] kCornerClose ?c = symbol_choice t [0x5D] kCornerClose ?c"
    by (simp_all add: symbol_choice_def)
  then show ?thesis using 1 2 3 by (simp add: init_symbols_def Let_def)
qed

text \<open>
  After the punctuation and symbol setup, which always returns, each of the five keys
  \<^verbatim>\<open>, . / [ ]\<close> has the entry the configuration asks for, unless the loaded table has an entry of its
  own for it, which is kept; no other key changes.
\<close>

theorem init_symbols_correct:
  "\<exists>t'. obind (init_punctuations fuel pm t) (init_symbols fuel sm) = Ret t' \<and>
     list_all (\<lambda>(key, known, chosen). Table_LookUp t' key = symbol_choice t key known chosen) (configured pm sm) \<and>
     (\<forall>k. k \<notin> fst ` set (configured pm sm) \<longrightarrow> LookUp (entries t') k = LookUp (entries t) k)"
proof -
  obtain t1 where 1: "init_punctuations fuel pm t = Ret t1"
    "table_lookup t1 = (table_lookup t)
       ([0x2C] := symbol_choice t [0x2C] kKuten (if pm \<in> {COMMA_PERIOD, COMMA_KUTEN} then kComma else kKuten),
        [0x2E] := symbol_choice t [0x2E] kTouten (if pm \<in> {COMMA_PERIOD, TOUTEN_PERIOD} then kPeriod else kTouten))"
    using init_punctuations_result [of fuel pm t] by blast
  obtain t2 where 2: "init_symbols fuel sm t1 = Ret t2"
    "table_lookup t2 = (table_lookup t1)
       ([0x2F] := symbol_choice t1 [0x2F] kMiddleDot
          (if sm \<in> {SQUARE_BRACKET_SLASH, CORNER_BRACKET_SLASH} then kSlash else kMiddleDot),
        [0x5B] := symbol_choice t1 [0x5B] kCornerOpen
          (if sm \<in> {CORNER_BRACKET_MIDDLE_DOT, CORNER_BRACKET_SLASH} then kCornerOpen else kSquareOpen),
        [0x5D] := symbol_choice t1 [0x5D] kCornerClose
          (if sm \<in> {CORNER_BRACKET_MIDDLE_DOT, CORNER_BRACKET_SLASH} then kCornerClose else kSquareClose))"
    using init_symbols_result [of fuel sm t1] by blast
  have "Table_LookUp t1 k = Table_LookUp t k" if "k \<in> {[0x2F], [0x5B], [0x5D]}" for k
    using that by (auto simp: Table_LookUp_plain symbol_keys 1(2))
  then have same: "symbol_choice t1 k a b = symbol_choice t k a b" if "k \<in> {[0x2F], [0x5B], [0x5D]}" for k a b
    using that by (simp add: symbol_choice_def)
  have "list_all (\<lambda>(key, known, chosen). Table_LookUp t2 key = symbol_choice t key known chosen) (configured pm sm)"
    by (simp add: configured_def Table_LookUp_plain symbol_keys 1(2) 2(2) same)
  moreover have "LookUp (entries t2) k = LookUp (entries t) k" if "k \<notin> fst ` set (configured pm sm)" for k
    using that 1(2) 2(2) by (simp add: configured_def table_lookup_def)
  ultimately show ?thesis using 1(1) 2(1) by auto
qed

theorem init_symbols_correct_witness:
  "\<exists>t'. obind (init_punctuations 0 COMMA_PERIOD NewTable) (init_symbols 0 SQUARE_BRACKET_SLASH) = Ret t' \<and>
     Table_LookUp t' [0x2C] = symbol_choice NewTable [0x2C] kKuten kComma \<and> LookUp (entries t') [0x61] = None"
proof -
  have "LookUp (entries NewTable) [0x61] = None" by simp
  moreover have "[0x61] \<notin> fst ` set (configured COMMA_PERIOD SQUARE_BRACKET_SLASH)"
    by (simp add: configured_def)
  moreover have "list_all (\<lambda>(key, known, chosen). Table_LookUp t key = symbol_choice NewTable key known chosen)
      (configured COMMA_PERIOD SQUARE_BRACKET_SLASH) \<Longrightarrow>
      Table_LookUp t [0x2C] = symbol_choice NewTable [0x2C] kKuten kComma" for t
    by (simp add: configured_def)
  ultimately show ?thesis
    using init_symbols_correct [of 0 COMMA_PERIOD NewTable SQUARE_BRACKET_SLASH] by fastforce
qed

subsection \<open>The cache of tables\<close>

definition manager_ok :: "TableManager \<Rightarrow> bool" where
  "manager_ok mgr \<longleftrightarrow> distinct (map fst (table_map mgr)) \<and>
     distinct (map (ptr_addr \<circ> snd) (table_map mgr)) \<and>
     list_all (\<lambda>p. ptr_addr (snd p) < next_addr mgr) (table_map mgr)"

lemma manager_ok_New: "manager_ok NewTableManager"
  by (simp add: manager_ok_def NewTableManager_def)

lemma GetTable_cases:
  assumes "GetTable h f files fuel mgr request config = Ret (r, mgr')"
  shows "(\<exists>p. map_of (table_map mgr) (table_key h f request config) = Some p \<and> r = Some p \<and> mgr' = mgr) \<or>
    (map_of (table_map mgr) (table_key h f request config) = None \<and>
      (\<exists>ok t. InitializeWithRequestAndConfig files fuel NewTable request config = Ret (ok, t) \<and>
        (if ok then r = Some (TablePtr (next_addr mgr) t) \<and>
           mgr' = \<lparr>table_map = (table_key h f request config, TablePtr (next_addr mgr) t) # table_map mgr,
                   next_addr = next_addr mgr + 1\<rparr>
         else r = None \<and> mgr' = mgr\<lparr>next_addr := next_addr mgr + 1\<rparr>)))"
proof (cases "map_of (table_map mgr) (table_key h f request config)")
  case None
  obtain ok t where i: "InitializeWithRequestAndConfig files fuel NewTable request config = Ret (ok, t)"
    using assms None
    by (cases "InitializeWithRequestAndConfig files fuel NewTable request config")
      (auto simp only: GetTable_def Let_def option.case obind.simps outcome.distinct)
  show ?thesis
    using assms None i by (cases ok) (auto simp: GetTable_def Let_def)
next
  case (Some p)
  then have "r = Some p \<and> mgr' = mgr" using assms by (simp add: GetTable_def Let_def)
  then show ?thesis using Some by blast
qed

text \<open>
  The table manager keeps its invariant and is a cache: the pointer it returned is returned
  again for every request and configuration with the same hash, without loading, and tables for
  different hashes are different objects.
\<close>

theorem GetTable_correct:
  assumes "manager_ok mgr" and "GetTable h f files fuel mgr request config = Ret (Some p, mgr')"
  shows "manager_ok mgr' \<and>
    (\<forall>files' fuel' request' config'. table_key h f request' config' = table_key h f request config \<longrightarrow>
       GetTable h f files' fuel' mgr' request' config' = Ret (Some p, mgr')) \<and>
    (\<forall>hash q. map_of (table_map mgr') hash = Some q \<longrightarrow> hash \<noteq> table_key h f request config \<longrightarrow>
       ptr_addr q \<noteq> ptr_addr p)"
proof -
  let ?k = "table_key h f request config"
  have ok: "manager_ok mgr' \<and> map_of (table_map mgr') ?k = Some p"
    using GetTable_cases [OF assms(2)] assms(1)
    by (auto simp: manager_ok_def list_all_iff map_of_eq_None_iff split: if_splits)
  moreover have "ptr_addr q \<noteq> ptr_addr p"
    if "map_of (table_map mgr') hash = Some q" "hash \<noteq> ?k" for hash q
  proof
    assume "ptr_addr q = ptr_addr p"
    moreover have "(hash, q) \<in> set (table_map mgr')" "(?k, p) \<in> set (table_map mgr')"
      using that(1) ok by (auto dest: map_of_SomeD)
    moreover have "inj_on (ptr_addr \<circ> snd) (set (table_map mgr'))"
      using ok by (simp add: manager_ok_def distinct_map)
    ultimately have "(hash, q) = (?k, p)" by (auto simp only: inj_on_def comp_def snd_conv)
    then show False using that(2) by simp
  qed
  ultimately show ?thesis by (simp add: GetTable_def)
qed

definition demo_request :: Request where
  "demo_request = \<lparr>special_romanji_table = FLICK_TO_NUMBER, update_input_mode_from_surrounding_text = False\<rparr>"

definition demo_config :: Config where
  "demo_config = \<lparr>preedit_method = ROMAN, punctuation_method = TOUTEN_KUTEN,
     symbol_method = CORNER_BRACKET_MIDDLE_DOT, custom_roman_table = None,
     shift_key_mode_switch = ASCII_INPUT_MODE, auto_switch_composition_mode = True,
     composing_timeout_threshold_msec = 0\<rparr>"

theorem GetTable_correct_witness:
  "\<exists>p mgr'. GetTable (\<lambda>a b c d e. 7) (\<lambda>s. 0) (\<lambda>path. Some []) 0 NewTableManager demo_request demo_config =
       Ret (Some p, mgr') \<and> manager_ok mgr'"
proof -
  obtain p mgr' where r: "GetTable (\<lambda>a b c d e. 7) (\<lambda>s. 0) (\<lambda>path. Some []) 0 NewTableManager demo_request demo_config =
      Ret (Some p, mgr')"
    by (simp add: GetTable_def NewTableManager_def InitializeWithRequestAndConfig_def demo_request_def
        LoadFromFile_def LoadFromStream_def ChopReturns_def Let_def)
  show ?thesis using GetTable_correct [OF manager_ok_New r] r by blast
qed

end
