(* ===== verification/Transliterators.thy ===== *)
theory Transliterators
  imports Util
begin

section \<open>Transliterators\<close>

text \<open>
  \<^verbatim>\<open>composer/transliterators.h\<close> and \<^verbatim>\<open>composer/transliterators.cc\<close>. The character conversions of
  \<^verbatim>\<open>base/strings/japanese.cc\<close>, which are driven by generated tables, and the user's character forms
  (\<^verbatim>\<open>config/character_form_manager.cc\<close>) are the fields of the record \<open>env\<close>, an argument of every
  definition that uses them; no theorem depends on what they do unless it says so.
\<close>

record env =
  HiraganaToKatakana :: "ustr \<Rightarrow> ustr"
  KatakanaToHiragana :: "ustr \<Rightarrow> ustr"
  HalfWidthAsciiToFullWidthAscii :: "ustr \<Rightarrow> ustr"
  FullWidthAsciiToHalfWidthAscii :: "ustr \<Rightarrow> ustr"
  HalfWidthKatakanaToFullWidthKatakana :: "ustr \<Rightarrow> ustr"
  FullWidthKatakanaToHalfWidthKatakana :: "ustr \<Rightarrow> ustr"
  ConvertPreeditString :: "ustr \<Rightarrow> ustr"

definition FullWidthToHalfWidth :: "env \<Rightarrow> ustr \<Rightarrow> ustr" where
  "FullWidthToHalfWidth E input =
     FullWidthKatakanaToHalfWidthKatakana E (FullWidthAsciiToHalfWidthAscii E input)"

definition HalfWidthToFullWidth :: "env \<Rightarrow> ustr \<Rightarrow> ustr" where
  "HalfWidthToFullWidth E input =
     HalfWidthKatakanaToFullWidthKatakana E (HalfWidthAsciiToFullWidthAscii E input)"

datatype Transliterator =
    T_CONVERSION_STRING | T_RAW_STRING | T_HIRAGANA | T_FULL_KATAKANA | T_HALF_KATAKANA
  | T_FULL_ASCII | T_HALF_ASCII | T_LOCAL

text \<open>
  The four output parameters of a split, with its result. The suffix test compares the position of
  the last occurrence with the position where the suffix would start.
\<close>

record split_result =
  split_ok :: bool
  raw_lhs :: ustr
  raw_rhs :: ustr
  converted_lhs :: ustr
  converted_rhs :: ustr

definition SplitPrimaryString :: "nat \<Rightarrow> ustr \<Rightarrow> ustr \<Rightarrow> bool \<times> ustr \<times> ustr \<times> ustr \<times> ustr" where
  "SplitPrimaryString position primary secondary =
     (let primary_lhs = take position primary;
          primary_rhs = drop position primary
      in if byte_size secondary < byte_size primary_rhs
         then (False, primary_lhs, primary_rhs, primary_lhs, primary_rhs)
         else if \<not> ends_with secondary primary_rhs
         then (False, primary_lhs, primary_rhs, primary_lhs, primary_rhs)
         else (True, primary_lhs, primary_rhs,
               take (length secondary - length primary_rhs) secondary, primary_rhs))"

definition SplitRaw :: "nat \<Rightarrow> ustr \<Rightarrow> ustr \<Rightarrow> split_result" where
  "SplitRaw position raw converted =
     (let (ok, rl, rr, cl, cr) = SplitPrimaryString position raw converted in
      \<lparr>split_ok = ok, raw_lhs = rl, raw_rhs = rr, converted_lhs = cl, converted_rhs = cr\<rparr>)"

definition SplitConverted :: "nat \<Rightarrow> ustr \<Rightarrow> ustr \<Rightarrow> split_result" where
  "SplitConverted position raw converted =
     (let (ok, cl, cr, rl, rr) = SplitPrimaryString position converted raw in
      \<lparr>split_ok = ok, raw_lhs = rl, raw_rhs = rr, converted_lhs = cl, converted_rhs = cr\<rparr>)"

definition Hiragana_Transliterate :: "env \<Rightarrow> ustr \<Rightarrow> ustr \<Rightarrow> ustr" where
  "Hiragana_Transliterate E raw converted = ConvertPreeditString E (HalfWidthToFullWidth E converted)"

definition FullKatakana_Transliterate :: "env \<Rightarrow> ustr \<Rightarrow> ustr \<Rightarrow> ustr" where
  "FullKatakana_Transliterate E raw converted =
     ConvertPreeditString E (HalfWidthToFullWidth E (HiraganaToKatakana E converted))"

definition HalfKatakanaToHiragana :: "env \<Rightarrow> ustr \<Rightarrow> ustr" where
  "HalfKatakanaToHiragana E half_katakana =
     KatakanaToHiragana E (HalfWidthKatakanaToFullWidthKatakana E half_katakana)"

definition HalfKatakana_Transliterate :: "env \<Rightarrow> ustr \<Rightarrow> ustr \<Rightarrow> ustr" where
  "HalfKatakana_Transliterate E raw converted =
     FullWidthToHalfWidth E (HiraganaToKatakana E converted)"

definition HalfKatakana_Split :: "env \<Rightarrow> nat \<Rightarrow> ustr \<Rightarrow> ustr \<Rightarrow> split_result" where
  "HalfKatakana_Split E position raw converted =
     (let half_katakana = HalfKatakana_Transliterate E raw converted;
          hk = SplitConverted position raw half_katakana
      in \<lparr>split_ok = split_ok hk,
          raw_lhs = (if split_ok hk then raw_lhs hk else HalfKatakanaToHiragana E (raw_lhs hk)),
          raw_rhs = (if split_ok hk then raw_rhs hk else HalfKatakanaToHiragana E (raw_rhs hk)),
          converted_lhs = HalfKatakanaToHiragana E (converted_lhs hk),
          converted_rhs = HalfKatakanaToHiragana E (converted_rhs hk)\<rparr>)"

definition HalfAscii_Transliterate :: "env \<Rightarrow> ustr \<Rightarrow> ustr \<Rightarrow> ustr" where
  "HalfAscii_Transliterate E raw converted =
     FullWidthAsciiToHalfWidthAscii E (if raw = [] then converted else raw)"

definition FullAscii_Transliterate :: "env \<Rightarrow> ustr \<Rightarrow> ustr \<Rightarrow> ustr" where
  "FullAscii_Transliterate E raw converted =
     HalfWidthAsciiToFullWidthAscii E (if raw = [] then converted else raw)"

record TransliteratorInterface =
  transliterate_fn :: "env \<Rightarrow> ustr \<Rightarrow> ustr \<Rightarrow> ustr"
  split_fn :: "env \<Rightarrow> nat \<Rightarrow> ustr \<Rightarrow> ustr \<Rightarrow> split_result"

definition kConversionString :: TransliteratorInterface where
  "kConversionString = \<lparr>transliterate_fn = (\<lambda>E raw converted. converted), split_fn = (\<lambda>E. SplitConverted)\<rparr>"
definition kRawString :: TransliteratorInterface where
  "kRawString = \<lparr>transliterate_fn = (\<lambda>E raw converted. raw), split_fn = (\<lambda>E. SplitRaw)\<rparr>"
definition kHiragana :: TransliteratorInterface where
  "kHiragana = \<lparr>transliterate_fn = Hiragana_Transliterate, split_fn = (\<lambda>E. SplitConverted)\<rparr>"
definition kFullKatakana :: TransliteratorInterface where
  "kFullKatakana = \<lparr>transliterate_fn = FullKatakana_Transliterate, split_fn = (\<lambda>E. SplitConverted)\<rparr>"
definition kHalfKatakana :: TransliteratorInterface where
  "kHalfKatakana = \<lparr>transliterate_fn = HalfKatakana_Transliterate, split_fn = HalfKatakana_Split\<rparr>"
definition kFullAscii :: TransliteratorInterface where
  "kFullAscii = \<lparr>transliterate_fn = FullAscii_Transliterate, split_fn = (\<lambda>E. SplitRaw)\<rparr>"
definition kHalfAscii :: TransliteratorInterface where
  "kHalfAscii = \<lparr>transliterate_fn = HalfAscii_Transliterate, split_fn = (\<lambda>E. SplitRaw)\<rparr>"

fun GetTransliterator :: "Transliterator \<Rightarrow> TransliteratorInterface" where
  "GetTransliterator T_CONVERSION_STRING = kConversionString"
| "GetTransliterator T_RAW_STRING = kRawString"
| "GetTransliterator T_HIRAGANA = kHiragana"
| "GetTransliterator T_FULL_KATAKANA = kFullKatakana"
| "GetTransliterator T_HALF_KATAKANA = kHalfKatakana"
| "GetTransliterator T_FULL_ASCII = kFullAscii"
| "GetTransliterator T_HALF_ASCII = kHalfAscii"
| "GetTransliterator T_LOCAL = kConversionString"

subsection \<open>Splitting\<close>

lemma SplitPrimaryString_spec:
  assumes "SplitPrimaryString position primary secondary = (ok, pl, pr, sl, sr)"
  shows "pl = take position primary \<and> pr = drop position primary \<and> sr = pr \<and>
    (if ok then sl @ sr = secondary else sl = pl) \<and> (ok \<longleftrightarrow> ends_with secondary pr)"
proof -
  have "\<not> ends_with secondary pr" if "byte_size secondary < byte_size pr"
    using that by (auto simp: ends_with_iff)
  moreover have "take (length secondary - length pr) secondary @ pr = secondary"
    if "ends_with secondary pr"
    using that by (auto simp: ends_with_iff)
  ultimately show ?thesis
    using assms by (auto simp: SplitPrimaryString_def Let_def split: if_splits)
qed

lemma SplitRaw_spec:
  "let r = SplitRaw position raw converted in
     raw_lhs r = take position raw \<and> raw_rhs r = drop position raw \<and> converted_rhs r = raw_rhs r \<and>
     (split_ok r \<longleftrightarrow> ends_with converted (raw_rhs r)) \<and>
     (if split_ok r then converted_lhs r @ converted_rhs r = converted else converted_lhs r = raw_lhs r)"
proof -
  obtain ok a b c d where 1: "SplitPrimaryString position raw converted = (ok, a, b, c, d)"
    by (metis prod_cases5)
  show ?thesis using SplitPrimaryString_spec [OF 1] by (cases ok) (auto simp: SplitRaw_def 1)
qed

lemma SplitConverted_spec:
  "let r = SplitConverted position raw converted in
     converted_lhs r = take position converted \<and> converted_rhs r = drop position converted \<and>
     raw_rhs r = converted_rhs r \<and> (split_ok r \<longleftrightarrow> ends_with raw (converted_rhs r)) \<and>
     (if split_ok r then raw_lhs r @ raw_rhs r = raw else raw_lhs r = converted_lhs r)"
proof -
  obtain ok a b c d where 1: "SplitPrimaryString position converted raw = (ok, a, b, c, d)"
    by (metis prod_cases5)
  show ?thesis using SplitPrimaryString_spec [OF 1] by (cases ok) (auto simp: SplitConverted_def 1)
qed

text \<open>
  A split cuts the primary string (the raw one for ASCII modes, the converted one otherwise)
  exactly at the position. The other string is cut before the same suffix if it ends with it, so
  that \<^verbatim>\<open>ttk\<close> and its conversion are cut together; otherwise both halves of the primary are used for
  it.
\<close>

theorem Split_correct:
  "(let r = SplitRaw position raw converted in
      raw_lhs r = take position raw \<and> raw_rhs r = drop position raw \<and> converted_rhs r = raw_rhs r \<and>
      (split_ok r \<longleftrightarrow> ends_with converted (raw_rhs r)) \<and>
      (if split_ok r then converted_lhs r @ converted_rhs r = converted else converted_lhs r = raw_lhs r)) \<and>
   (let r = SplitConverted position raw converted in
      converted_lhs r = take position converted \<and> converted_rhs r = drop position converted \<and>
      raw_rhs r = converted_rhs r \<and> (split_ok r \<longleftrightarrow> ends_with raw (converted_rhs r)) \<and>
      (if split_ok r then raw_lhs r @ raw_rhs r = raw else raw_lhs r = converted_lhs r))"
  by (rule conjI [OF SplitRaw_spec SplitConverted_spec])

text \<open>The lengths of the two halves of the primary string.\<close>

lemma SplitRaw_simps [simp]:
  "raw_lhs (SplitRaw n raw conv) = take n raw" "raw_rhs (SplitRaw n raw conv) = drop n raw"
  "converted_rhs (SplitRaw n raw conv) = drop n raw"
  by (simp_all add: SplitRaw_def SplitPrimaryString_def Let_def)

lemma SplitConverted_simps [simp]:
  "converted_lhs (SplitConverted n raw conv) = take n conv"
  "converted_rhs (SplitConverted n raw conv) = drop n conv"
  "raw_rhs (SplitConverted n raw conv) = drop n conv"
  by (simp_all add: SplitConverted_def SplitPrimaryString_def Let_def)

end
