(* ===== verification/KeyEvent.thy ===== *)
theory KeyEvent
  imports Util "HOL-Library.Word"
begin

section \<open>Key events\<close>

text \<open>
  The message \<^verbatim>\<open>KeyEvent\<close> of \<^verbatim>\<open>protocol/commands.proto\<close>, the key utilities of
  \<^verbatim>\<open>composer/key_event_util.cc\<close> and the parser of \<^verbatim>\<open>composer/key_parser.cc\<close>. The enumeration
  \<^verbatim>\<open>SpecialKey\<close> is used as an integer (ranges, differences and shifts), so a special key is its
  number; \<open>SpecialKey_names\<close> lists the numbers with their names. Modifier keys are bits of a 32-bit
  word.
\<close>

unbundle bit_operations_syntax

subsection \<open>Data\<close>

type_synonym SpecialKey = nat

definition SpecialKey_names :: "(SpecialKey \<times> string) list" where
  "SpecialKey_names =
     [(0, ''NO_SPECIALKEY''), (1, ''DIGIT''), (2, ''ON''), (3, ''OFF''),
      (4, ''SPACE''), (5, ''ENTER''), (6, ''LEFT''), (7, ''RIGHT''),
      (8, ''UP''), (9, ''DOWN''), (10, ''ESCAPE''), (11, ''DEL''),
      (12, ''BACKSPACE''), (13, ''HENKAN''), (14, ''MUHENKAN''), (15, ''KANA''),
      (16, ''HOME''), (17, ''END''), (18, ''TAB''), (19, ''F1''),
      (20, ''F2''), (21, ''F3''), (22, ''F4''), (23, ''F5''),
      (24, ''F6''), (25, ''F7''), (26, ''F8''), (27, ''F9''),
      (28, ''F10''), (29, ''F11''), (30, ''F12''), (31, ''PAGE_UP''),
      (32, ''PAGE_DOWN''), (33, ''INSERT''), (34, ''F13''), (35, ''F14''),
      (36, ''F15''), (37, ''F16''), (38, ''F17''), (39, ''F18''),
      (40, ''F19''), (41, ''F20''), (42, ''F21''), (43, ''F22''),
      (44, ''F23''), (45, ''F24''), (46, ''EISU''), (47, ''NUMPAD0''),
      (48, ''NUMPAD1''), (49, ''NUMPAD2''), (50, ''NUMPAD3''), (51, ''NUMPAD4''),
      (52, ''NUMPAD5''), (53, ''NUMPAD6''), (54, ''NUMPAD7''), (55, ''NUMPAD8''),
      (56, ''NUMPAD9''), (57, ''MULTIPLY''), (58, ''ADD''), (59, ''SEPARATOR''),
      (60, ''SUBTRACT''), (61, ''DECIMAL''), (62, ''DIVIDE''), (63, ''EQUALS''),
      (64, ''TEXT_INPUT''), (65, ''HANKAKU''), (66, ''KANJI''), (67, ''KATAKANA''),
      (68, ''CAPS_LOCK''), (69, ''UNDEFINED_KEY''), (70, ''COMMA''), (71, ''CLEAR''),
      (72, ''VIRTUAL_LEFT''), (73, ''VIRTUAL_RIGHT''), (74, ''VIRTUAL_ENTER''), (75, ''VIRTUAL_UP''),
      (76, ''VIRTUAL_DOWN''), (77, ''IME_ACTION'')]"

definition ENTER :: SpecialKey where "ENTER = 5"
definition DEL :: SpecialKey where "DEL = 11"
definition KANA_KEY :: SpecialKey where "KANA_KEY = 15"
definition NUMPAD0 :: SpecialKey where "NUMPAD0 = 47"
definition NUMPAD9 :: SpecialKey where "NUMPAD9 = 56"
definition MULTIPLY :: SpecialKey where "MULTIPLY = 57"
definition ADD :: SpecialKey where "ADD = 58"
definition SEPARATOR :: SpecialKey where "SEPARATOR = 59"
definition SUBTRACT :: SpecialKey where "SUBTRACT = 60"
definition DECIMAL :: SpecialKey where "DECIMAL = 61"
definition DIVIDE :: SpecialKey where "DIVIDE = 62"
definition EQUALS :: SpecialKey where "EQUALS = 63"
definition TEXT_INPUT :: SpecialKey where "TEXT_INPUT = 64"
definition HANKAKU :: SpecialKey where "HANKAKU = 65"
definition COMMA_KEY :: SpecialKey where "COMMA_KEY = 70"

type_synonym ModifierKey = "32 word"

definition CTRL :: ModifierKey where "CTRL = 1"
definition ALT :: ModifierKey where "ALT = 2"
definition SHIFT :: ModifierKey where "SHIFT = 4"
definition KEY_DOWN :: ModifierKey where "KEY_DOWN = 8"
definition KEY_UP :: ModifierKey where "KEY_UP = 16"
definition LEFT_CTRL :: ModifierKey where "LEFT_CTRL = 32"
definition LEFT_ALT :: ModifierKey where "LEFT_ALT = 64"
definition LEFT_SHIFT :: ModifierKey where "LEFT_SHIFT = 128"
definition RIGHT_CTRL :: ModifierKey where "RIGHT_CTRL = 256"
definition RIGHT_ALT :: ModifierKey where "RIGHT_ALT = 512"
definition RIGHT_SHIFT :: ModifierKey where "RIGHT_SHIFT = 1024"
definition CAPS :: ModifierKey where "CAPS = 2048"

lemmas modifier_defs =
  CTRL_def ALT_def SHIFT_def KEY_DOWN_def KEY_UP_def LEFT_CTRL_def LEFT_ALT_def LEFT_SHIFT_def
  RIGHT_CTRL_def RIGHT_ALT_def RIGHT_SHIFT_def CAPS_def

datatype InputStyle = FOLLOW_MODE | AS_IS | DIRECT_INPUT_STYLE

datatype CompositionMode =
    DIRECT | HIRAGANA_MODE | FULL_KATAKANA_MODE | HALF_ASCII_MODE | FULL_ASCII_MODE | HALF_KATAKANA_MODE

record ProbableKeyEvent =
  probable_key_code :: "32 word option"
  probable_special_key :: "SpecialKey option"

record KeyEvent =
  key_code :: "32 word option"
  modifiers :: "32 word option"
  special_key :: "SpecialKey option"
  modifier_keys :: "ModifierKey list"
  key_string :: "ustr option"
  input_style :: InputStyle
  mode :: "CompositionMode option"
  probable_key_event :: "ProbableKeyEvent list"
  timestamp_msec :: "int option"

definition EmptyKeyEvent :: KeyEvent where
  "EmptyKeyEvent =
     \<lparr>key_code = None, modifiers = None, special_key = None, modifier_keys = [], key_string = None,
      input_style = FOLLOW_MODE, mode = None, probable_key_event = [], timestamp_msec = None\<rparr>"

subsection \<open>Modifiers\<close>

definition kAltMask :: "32 word" where "kAltMask = ALT OR LEFT_ALT OR RIGHT_ALT"
definition kCtrlMask :: "32 word" where "kCtrlMask = CTRL OR LEFT_CTRL OR RIGHT_CTRL"
definition kShiftMask :: "32 word" where "kShiftMask = SHIFT OR LEFT_SHIFT OR RIGHT_SHIFT"
definition kCapsMask :: "32 word" where "kCapsMask = CAPS"

definition Ignore :: "32 word \<Rightarrow> 32 word \<Rightarrow> 32 word" where
  "Ignore mods modifiers_to_be_ignored = mods AND NOT modifiers_to_be_ignored"

definition Any :: "32 word \<Rightarrow> 32 word \<Rightarrow> bool" where
  "Any modifiers_to_be_tested modifiers_to_be_queried \<longleftrightarrow>
     modifiers_to_be_tested AND modifiers_to_be_queried \<noteq> 0"

definition NoneOf :: "32 word \<Rightarrow> 32 word \<Rightarrow> bool" where
  "NoneOf modifiers_to_be_tested modifiers_to_be_queried \<longleftrightarrow>
     \<not> Any modifiers_to_be_tested modifiers_to_be_queried"

fun or_all :: "32 word list \<Rightarrow> 32 word \<Rightarrow> 32 word" where
  "or_all [] acc = acc"
| "or_all (key # keys) acc = or_all keys (acc OR key)"

definition GetModifiers :: "KeyEvent \<Rightarrow> 32 word" where
  "GetModifiers e =
     (case modifiers e of Some m \<Rightarrow> m | None \<Rightarrow> or_all (modifier_keys e) 0)"

definition HasAlt :: "32 word \<Rightarrow> bool" where "HasAlt m \<longleftrightarrow> Any m kAltMask"
definition HasCtrl :: "32 word \<Rightarrow> bool" where "HasCtrl m \<longleftrightarrow> Any m kCtrlMask"
definition HasShift :: "32 word \<Rightarrow> bool" where "HasShift m \<longleftrightarrow> Any m kShiftMask"
definition HasCaps :: "32 word \<Rightarrow> bool" where "HasCaps m \<longleftrightarrow> Any m kCapsMask"

definition IsAlt :: "32 word \<Rightarrow> bool" where
  "IsAlt m = (if \<not> HasAlt m then False else NoneOf (Ignore m kCapsMask) (NOT kAltMask))"
definition IsCtrl :: "32 word \<Rightarrow> bool" where
  "IsCtrl m = (if \<not> HasCtrl m then False else NoneOf (Ignore m kCapsMask) (NOT kCtrlMask))"
definition IsShift :: "32 word \<Rightarrow> bool" where
  "IsShift m = (if \<not> HasShift m then False else NoneOf (Ignore m kCapsMask) (NOT kShiftMask))"
definition IsAltCtrl :: "32 word \<Rightarrow> bool" where
  "IsAltCtrl m = (if \<not> HasAlt m \<or> \<not> HasCtrl m then False
                  else NoneOf (Ignore m kCapsMask) (NOT (kAltMask OR kCtrlMask)))"
definition IsAltShift :: "32 word \<Rightarrow> bool" where
  "IsAltShift m = (if \<not> HasAlt m \<or> \<not> HasShift m then False
                   else NoneOf (Ignore m kCapsMask) (NOT (kAltMask OR kShiftMask)))"
definition IsCtrlShift :: "32 word \<Rightarrow> bool" where
  "IsCtrlShift m = (if \<not> HasCtrl m \<or> \<not> HasShift m then False
                    else NoneOf (Ignore m kCapsMask) (NOT (kCtrlMask OR kShiftMask)))"
definition IsAltCtrlShift :: "32 word \<Rightarrow> bool" where
  "IsAltCtrlShift m = (if \<not> HasAlt m \<or> \<not> HasCtrl m \<or> \<not> HasShift m then False
                       else NoneOf (Ignore m kCapsMask) (NOT (kAltMask OR kCtrlMask OR kShiftMask)))"

subsection \<open>Key information\<close>

text \<open>\<^verbatim>\<open>KeyInformation\<close> packs modifiers (16 bits), special key (16 bits) and key code (32 bits).\<close>

definition pack_information :: "16 word \<Rightarrow> 16 word \<Rightarrow> 32 word \<Rightarrow> 64 word" where
  "pack_information mods special code =
     push_bit 48 (ucast mods) OR push_bit 32 (ucast special) OR ucast code"

definition GetKeyInformation :: "KeyEvent \<Rightarrow> 64 word option" where
  "GetKeyInformation e =
     (let modifier_bits = (ucast (GetModifiers e) :: 16 word);
          special = (case special_key e of Some k \<Rightarrow> (of_nat k :: 16 word) | None \<Rightarrow> 0);
          code = (case key_code e of Some c \<Rightarrow> c | None \<Rightarrow> 0)
      in if 0 < code \<and> code \<le> 32 then None
         else Some (pack_information modifier_bits special code))"

subsection \<open>Normalisation\<close>

definition RemoveModifiers :: "KeyEvent \<Rightarrow> 32 word \<Rightarrow> KeyEvent" where
  "RemoveModifiers e remove_modifiers =
     (let r1 = (if HasAlt remove_modifiers then remove_modifiers OR (LEFT_ALT OR RIGHT_ALT) else remove_modifiers);
          r2 = (if HasCtrl r1 then r1 OR (LEFT_CTRL OR RIGHT_CTRL) else r1);
          r3 = (if HasShift r2 then r2 OR (LEFT_SHIFT OR RIGHT_SHIFT) else r2)
      in e\<lparr>modifier_keys := filter (\<lambda>mod_key. \<not> (r3 AND mod_key \<noteq> 0)) (modifier_keys e)\<rparr>)"

definition kIgnorableModifierMask :: "32 word" where
  "kIgnorableModifierMask =
     CAPS OR LEFT_ALT OR RIGHT_ALT OR LEFT_CTRL OR RIGHT_CTRL OR LEFT_SHIFT OR RIGHT_SHIFT"

definition NormalizeModifiers :: "KeyEvent \<Rightarrow> KeyEvent" where
  "NormalizeModifiers e =
     (let new = RemoveModifiers e kIgnorableModifierMask in
      if GetModifiers e AND CAPS \<noteq> 0
      then (case key_code e of
              None \<Rightarrow> new
            | Some c \<Rightarrow>
                if 0x41 \<le> c \<and> c \<le> 0x5A then new\<lparr>key_code := Some (c + (0x61 - 0x41))\<rparr>
                else if 0x61 \<le> c \<and> c \<le> 0x7A then new\<lparr>key_code := Some (c + (0x41 - 0x61))\<rparr>
                else new)
      else new)"

definition IsNumpadKey :: "KeyEvent \<Rightarrow> bool" where
  "IsNumpadKey e =
     (case special_key e of
        None \<Rightarrow> False
      | Some k \<Rightarrow> if NUMPAD0 \<le> k \<and> k \<le> EQUALS then True else if k = COMMA_KEY then True else False)"

definition NormalizeNumpadKey :: "KeyEvent \<Rightarrow> KeyEvent" where
  "NormalizeNumpadKey e =
     (if \<not> IsNumpadKey e then e
      else
        (case special_key e of
           None \<Rightarrow> e
         | Some numpad_key \<Rightarrow>
             if numpad_key = SEPARATOR then e\<lparr>special_key := Some ENTER\<rparr>
             else
               (let e1 = e\<lparr>special_key := None\<rparr> in
                if NUMPAD0 \<le> numpad_key \<and> numpad_key \<le> NUMPAD9
                then e1\<lparr>key_code := Some (of_nat (0x30 + (numpad_key - NUMPAD0)))\<rparr>
                else if numpad_key = MULTIPLY then e1\<lparr>key_code := Some 0x2A\<rparr>
                else if numpad_key = ADD then e1\<lparr>key_code := Some 0x2B\<rparr>
                else if numpad_key = SUBTRACT then e1\<lparr>key_code := Some 0x2D\<rparr>
                else if numpad_key = DECIMAL then e1\<lparr>key_code := Some 0x2E\<rparr>
                else if numpad_key = DIVIDE then e1\<lparr>key_code := Some 0x2F\<rparr>
                else if numpad_key = EQUALS then e1\<lparr>key_code := Some 0x3D\<rparr>
                else if numpad_key = COMMA_KEY then e1\<lparr>key_code := Some 0x2C\<rparr>
                else e1)))"

text \<open>The event must have a key: a modifier, a special key, no key code and no key string give false.\<close>

definition MaybeGetKeyStub :: "KeyEvent \<Rightarrow> 64 word option" where
  "MaybeGetKeyStub e =
     (if GetModifiers e \<noteq> 0 then None
      else if special_key e \<noteq> None then None
      else if (case key_code e of None \<Rightarrow> True | Some c \<Rightarrow> c \<le> 32) \<and>
              (case key_string e of None \<Rightarrow> True | Some s \<Rightarrow> s = [])
      then None
      else GetKeyInformation (EmptyKeyEvent\<lparr>special_key := Some TEXT_INPUT\<rparr>))"

subsection \<open>The key parser\<close>

definition kModifierKeyMap :: "(string \<times> ModifierKey) list" where
  "kModifierKeyMap =
     [(''ctrl'', CTRL), (''control'', CTRL), (''alt'', ALT), (''option'', ALT),
      (''meta'', ALT), (''super'', ALT), (''hyper'', ALT), (''shift'', SHIFT),
      (''caps'', CAPS), (''keydown'', KEY_DOWN), (''keyup'', KEY_UP), (''leftctrl'', CTRL),
      (''leftctrl'', LEFT_CTRL), (''rightctrl'', CTRL), (''rightctrl'', RIGHT_CTRL), (''leftalt'', ALT),
      (''leftalt'', LEFT_ALT), (''rightalt'', ALT), (''rightalt'', RIGHT_ALT), (''leftshift'', SHIFT),
      (''leftshift'', LEFT_SHIFT), (''rightshift'', SHIFT), (''rightshift'', RIGHT_SHIFT)]"

definition kSpecialKeyMap :: "(string \<times> SpecialKey) list" where
  "kSpecialKeyMap =
     [(''on'', 2), (''off'', 3), (''left'', 6), (''down'', 9),
      (''up'', 8), (''right'', 7), (''enter'', 5), (''return'', 5),
      (''esc'', 10), (''escape'', 10), (''delete'', 11), (''del'', 11),
      (''bs'', 12), (''backspace'', 12), (''henkan'', 13), (''muhenkan'', 14),
      (''kana'', 15), (''hiragana'', 15), (''katakana'', 67), (''eisu'', 46),
      (''home'', 16), (''end'', 17), (''space'', 4), (''ascii'', 64),
      (''textinput'', 64), (''tab'', 18), (''pageup'', 31), (''pagedown'', 32),
      (''insert'', 33), (''hankaku'', 65), (''zenkaku'', 65), (''hankaku/zenkaku'', 65),
      (''kanji'', 66), (''f1'', 19), (''f2'', 20), (''f3'', 21),
      (''f4'', 22), (''f5'', 23), (''f6'', 24), (''f7'', 25),
      (''f8'', 26), (''f9'', 27), (''f10'', 28), (''f11'', 29),
      (''f12'', 30), (''f13'', 34), (''f14'', 35), (''f15'', 36),
      (''f16'', 37), (''f17'', 38), (''f18'', 39), (''f19'', 40),
      (''f20'', 41), (''f21'', 42), (''f22'', 43), (''f23'', 44),
      (''f24'', 45), (''numpad0'', 47), (''numpad1'', 48), (''numpad2'', 49),
      (''numpad3'', 50), (''numpad4'', 51), (''numpad5'', 52), (''numpad6'', 53),
      (''numpad7'', 54), (''numpad8'', 55), (''numpad9'', 56), (''multiply'', 57),
      (''add'', 58), (''separator'', 59), (''subtract'', 60), (''decimal'', 61),
      (''divide'', 62), (''equals'', 63), (''comma'', 70), (''clear'', 71),
      (''virtualleft'', 72), (''virtualright'', 73), (''virtualenter'', 74), (''virtualup'', 75),
      (''virtualdown'', 76), (''imeaction'', 77), (''undefinedkey'', 69)]"

definition find_modifiers :: "ustr \<Rightarrow> ModifierKey list" where
  "find_modifiers lower_key = map snd (filter (\<lambda>p. ascii (fst p) = lower_key) kModifierKeyMap)"

definition find_special :: "ustr \<Rightarrow> SpecialKey option" where
  "find_special lower_key = map_of (map (\<lambda>p. (ascii (fst p), snd p)) kSpecialKeyMap) lower_key"

text \<open>
  The set of modifiers is ordered (\<^verbatim>\<open>btree_set\<close>) and added to the event at the end; \<open>None\<close> is the
  result \<^verbatim>\<open>false\<close>.
\<close>

fun insert_modifiers :: "ModifierKey list \<Rightarrow> ModifierKey list \<Rightarrow> ModifierKey list" where
  "insert_modifiers [] s = s"
| "insert_modifiers (m # ms) s = insert_modifiers ms (if m \<in> set s then s else insort m s)"

fun parse_keys :: "ustr list \<Rightarrow> KeyEvent \<Rightarrow> ModifierKey list \<Rightarrow> KeyEvent option" where
  "parse_keys [] e ms = Some (e\<lparr>modifier_keys := modifier_keys e @ ms\<rparr>)"
| "parse_keys (key # keys) e ms =
     (if length key = 1
      then (if key_code e \<noteq> None then None
            else parse_keys keys (e\<lparr>key_code := Some (of_nat (hd key))\<rparr>) ms)
      else
        (let lower_key = LowerString key in
         if find_modifiers lower_key \<noteq> []
         then parse_keys keys e (insert_modifiers (find_modifiers lower_key) ms)
         else
           (case find_special lower_key of
              Some k \<Rightarrow>
                if special_key e \<noteq> None then None
                else parse_keys keys (e\<lparr>special_key := Some k\<rparr>) ms
            | None \<Rightarrow> None)))"

definition ParseKeyVector :: "ustr list \<Rightarrow> KeyEvent option" where
  "ParseKeyVector keys = parse_keys keys EmptyKeyEvent []"

definition ParseKey :: "ustr \<Rightarrow> KeyEvent option" where
  "ParseKey key_str =
     (let keys = filter (\<lambda>w. w \<noteq> []) (StrSplit 0x20 key_str) in
      if keys = [] then None else ParseKeyVector keys)"

definition SpecialKey_Name :: "SpecialKey \<Rightarrow> ustr" where
  "SpecialKey_Name k = (case map_of SpecialKey_names k of Some n \<Rightarrow> ascii n | None \<Rightarrow> [])"

definition GetSpecialKeyString :: "SpecialKey \<Rightarrow> ustr" where
  "GetSpecialKeyString key =
     (if key = DEL then ascii ''delete''
      else if key = KANA_KEY then ascii ''hiragana''
      else if key = HANKAKU then ascii ''hankaku/zenkaku''
      else LowerString (filter (\<lambda>c. c \<noteq> 0x5F) (SpecialKey_Name key)))"

subsection \<open>Properties of the key utilities\<close>

lemma pack_information_bit:
  "bit (pack_information a b c) n \<longleftrightarrow>
     n < 64 \<and> (if 48 \<le> n then bit a (n - 48) else if 32 \<le> n then bit b (n - 32) else bit c n)"
  by (auto simp: pack_information_def bit_simps dest: bit_imp_le_length)

lemma pack_information_fields:
  "(ucast (drop_bit 48 (pack_information a b c)) :: 16 word) = a"
  "(ucast (drop_bit 32 (pack_information a b c)) :: 16 word) = b"
  "(ucast (pack_information a b c) :: 32 word) = c"
  by (rule bit_word_eqI; simp add: bit_ucast_iff bit_drop_bit_eq pack_information_bit)+

text \<open>
  A key information is produced unless the key code is an obsolete control character, and its
  three fields give back the low 16 bits of the modifiers, the special key and the key code, so no
  two different keys share one.
\<close>

theorem GetKeyInformation_correct:
  "(case GetKeyInformation e of
      None \<Rightarrow> (\<exists>c. key_code e = Some c \<and> 0 < c \<and> c \<le> 32)
    | Some i \<Rightarrow>
        (ucast (drop_bit 48 i) :: 16 word) = ucast (GetModifiers e) \<and>
        (ucast (drop_bit 32 i) :: 16 word) = (case special_key e of Some k \<Rightarrow> of_nat k | None \<Rightarrow> 0) \<and>
        (ucast i :: 32 word) = (case key_code e of Some c \<Rightarrow> c | None \<Rightarrow> 0))"
  by (auto simp: GetKeyInformation_def Let_def pack_information_fields split: option.splits)

lemma or_all_zero: "or_all ks acc AND m = 0 \<longleftrightarrow> acc AND m = 0 \<and> (\<forall>k\<in>set ks. k AND m = 0)"
  by (induction ks acc rule: or_all.induct)
    (auto simp: word_bw_comms(1) [of _ m] bit.conj_disj_distrib or_eq_0_iff)

lemma RemoveModifiers_ignorable:
  "modifier_keys (RemoveModifiers e kIgnorableModifierMask) =
     filter (\<lambda>k. kIgnorableModifierMask AND k = 0) (modifier_keys e)"
  by (simp add: RemoveModifiers_def Let_def kIgnorableModifierMask_def modifier_defs)

lemma RemoveModifiers_same:
  "key_code (RemoveModifiers e m) = key_code e" "modifiers (RemoveModifiers e m) = modifiers e"
  by (simp_all add: RemoveModifiers_def Let_def)

lemma NormalizeModifiers_keys:
  "modifier_keys (NormalizeModifiers e) = filter (\<lambda>k. kIgnorableModifierMask AND k = 0) (modifier_keys e)"
  "modifiers (NormalizeModifiers e) = modifiers e"
  by (auto simp: NormalizeModifiers_def Let_def RemoveModifiers_ignorable RemoveModifiers_same split: option.split)

lemma CAPS_ignorable: "kIgnorableModifierMask AND k = 0 \<Longrightarrow> k AND CAPS = 0"
proof -
  assume a: "kIgnorableModifierMask AND k = 0"
  have "CAPS AND kIgnorableModifierMask = CAPS" by (simp add: kIgnorableModifierMask_def modifier_defs)
  then have "k AND CAPS = CAPS AND (kIgnorableModifierMask AND k)"
    by (metis word_bw_comms(1) word_bw_assocs(1))
  then show "k AND CAPS = 0" using a by simp
qed

lemma NormalizeModifiers_fixed:
  assumes "modifiers e = None" "\<forall>k\<in>set (modifier_keys e). kIgnorableModifierMask AND k = 0"
  shows "NormalizeModifiers e = e"
proof -
  have "GetModifiers e AND CAPS = 0"
    using assms by (auto simp: GetModifiers_def or_all_zero dest: CAPS_ignorable)
  moreover have "RemoveModifiers e kIgnorableModifierMask = e"
    using RemoveModifiers_ignorable [of e] assms(2) by (simp add: RemoveModifiers_def Let_def filter_id_conv)
  ultimately show ?thesis by (simp add: NormalizeModifiers_def)
qed

text \<open>
  Normalisation of modifiers drops exactly the modifiers that a key map must not see (Caps Lock
  and the left and right variants), keeps the others in order, and is idempotent for events that do
  not use the obsolete \<^verbatim>\<open>modifiers\<close> field, so the case flip of Caps Lock is undone once only.
\<close>

theorem NormalizeModifiers_correct:
  "modifier_keys (NormalizeModifiers e) = filter (\<lambda>k. kIgnorableModifierMask AND k = 0) (modifier_keys e) \<and>
   (modifiers e = None \<longrightarrow> NormalizeModifiers (NormalizeModifiers e) = NormalizeModifiers e)"
  using NormalizeModifiers_keys NormalizeModifiers_fixed [of "NormalizeModifiers e"] by simp

definition caps_event :: KeyEvent where
  "caps_event = EmptyKeyEvent\<lparr>key_code := Some 0x41, modifier_keys := [CAPS]\<rparr>"

theorem NormalizeModifiers_correct_witness:
  "NormalizeModifiers (NormalizeModifiers caps_event) = NormalizeModifiers caps_event \<and>
   key_code (NormalizeModifiers caps_event) = Some 0x61"
  using NormalizeModifiers_correct [of caps_event]
  by (simp add: caps_event_def EmptyKeyEvent_def NormalizeModifiers_def RemoveModifiers_def GetModifiers_def
      kIgnorableModifierMask_def modifier_defs Let_def HasAlt_def HasCtrl_def HasShift_def Any_def
      kAltMask_def kCtrlMask_def kShiftMask_def)

text \<open>
  After the numeric keypad is normalised no keypad key is left: digits and operators became
  their character and the separator the Enter key; other events are unchanged.
\<close>

theorem NormalizeNumpadKey_correct:
  "\<not> IsNumpadKey (NormalizeNumpadKey e) \<and>
   (\<not> IsNumpadKey e \<longrightarrow> NormalizeNumpadKey e = e) \<and>
   (\<forall>d. special_key e = Some (NUMPAD0 + d) \<longrightarrow> d < 10 \<longrightarrow>
      key_code (NormalizeNumpadKey e) = Some (0x30 + of_nat d))"
  by (auto simp: NormalizeNumpadKey_def IsNumpadKey_def Let_def NUMPAD0_def NUMPAD9_def EQUALS_def
      SEPARATOR_def ENTER_def COMMA_KEY_def split: option.splits)

theorem NormalizeNumpadKey_correct_witness:
  "key_code (NormalizeNumpadKey (EmptyKeyEvent\<lparr>special_key := Some 50\<rparr>)) = Some 0x33"
  using NormalizeNumpadKey_correct [of "EmptyKeyEvent\<lparr>special_key := Some 50\<rparr>"]
  by (simp add: NUMPAD0_def)

subsubsection \<open>Classes of modifiers\<close>

definition other_modifiers :: "32 word \<Rightarrow> 32 word" where
  "other_modifiers m = m AND NOT ((kAltMask OR kCtrlMask OR kShiftMask) OR kCapsMask)"

lemma masks_disjoint:
  "kAltMask AND kCtrlMask = 0" "kAltMask AND kShiftMask = 0" "kAltMask AND kCapsMask = 0"
  "kCtrlMask AND kShiftMask = 0" "kCtrlMask AND kCapsMask = 0" "kShiftMask AND kCapsMask = 0"
  by (simp_all add: kAltMask_def kCtrlMask_def kShiftMask_def kCapsMask_def modifier_defs)

lemma zero_bits: "(w :: 'a::len word) = 0 \<longleftrightarrow> (\<forall>n. \<not> bit w n)"
  by (auto intro: bit_eqI)

lemma only_mask_bits:
  fixes m :: "32 word"
  assumes "a AND x = 0" "c AND x = 0"
  shows "(m AND NOT c) AND NOT a = 0 \<longleftrightarrow> m AND x = 0 \<and> m AND NOT ((a OR x) OR c) = 0"
proof -
  have len: "\<forall>n. bit m n \<longrightarrow> n < 32" using bit_imp_le_length [of m] by auto
  have "\<forall>n. \<not> (bit a n \<and> bit x n)" "\<forall>n. \<not> (bit c n \<and> bit x n)"
    using assms by (simp_all add: zero_bits bit_and_iff)
  with len show ?thesis
    unfolding zero_bits by (simp add: bit_simps) blast
qed

lemma only_mask:
  assumes "a AND x = 0" "kCapsMask AND x = 0" "a OR x = kAltMask OR kCtrlMask OR kShiftMask"
  shows "NoneOf (Ignore m kCapsMask) (NOT a) \<longleftrightarrow> \<not> Any m x \<and> other_modifiers m = 0"
  using only_mask_bits [OF assms(1,2), of m]
  unfolding NoneOf_def Ignore_def Any_def other_modifiers_def assms(3) by (simp only: not_not)

lemma Any_or: "Any m (a OR b) \<longleftrightarrow> Any m a \<or> Any m b"
  by (simp add: Any_def bit.conj_disj_distrib or_eq_0_iff)

lemmas mask_values = kAltMask_def kCtrlMask_def kShiftMask_def kCapsMask_def modifier_defs

lemma NoneOf_masks:
  "NoneOf (Ignore m kCapsMask) (NOT kAltMask) \<longleftrightarrow> \<not> Any m (kCtrlMask OR kShiftMask) \<and> other_modifiers m = 0"
  "NoneOf (Ignore m kCapsMask) (NOT kCtrlMask) \<longleftrightarrow> \<not> Any m (kAltMask OR kShiftMask) \<and> other_modifiers m = 0"
  "NoneOf (Ignore m kCapsMask) (NOT kShiftMask) \<longleftrightarrow> \<not> Any m (kAltMask OR kCtrlMask) \<and> other_modifiers m = 0"
  "NoneOf (Ignore m kCapsMask) (NOT (kAltMask OR kCtrlMask)) \<longleftrightarrow> \<not> Any m kShiftMask \<and> other_modifiers m = 0"
  "NoneOf (Ignore m kCapsMask) (NOT (kAltMask OR kShiftMask)) \<longleftrightarrow> \<not> Any m kCtrlMask \<and> other_modifiers m = 0"
  "NoneOf (Ignore m kCapsMask) (NOT (kCtrlMask OR kShiftMask)) \<longleftrightarrow> \<not> Any m kAltMask \<and> other_modifiers m = 0"
  "NoneOf (Ignore m kCapsMask) (NOT (kAltMask OR kCtrlMask OR kShiftMask)) \<longleftrightarrow> \<not> Any m 0 \<and> other_modifiers m = 0"
  by (rule only_mask; simp add: mask_values)+

lemma Is_classes:
  "IsAlt m \<longleftrightarrow> HasAlt m \<and> \<not> HasCtrl m \<and> \<not> HasShift m \<and> other_modifiers m = 0"
  "IsCtrl m \<longleftrightarrow> \<not> HasAlt m \<and> HasCtrl m \<and> \<not> HasShift m \<and> other_modifiers m = 0"
  "IsShift m \<longleftrightarrow> \<not> HasAlt m \<and> \<not> HasCtrl m \<and> HasShift m \<and> other_modifiers m = 0"
  "IsAltCtrl m \<longleftrightarrow> HasAlt m \<and> HasCtrl m \<and> \<not> HasShift m \<and> other_modifiers m = 0"
  "IsAltShift m \<longleftrightarrow> HasAlt m \<and> \<not> HasCtrl m \<and> HasShift m \<and> other_modifiers m = 0"
  "IsCtrlShift m \<longleftrightarrow> \<not> HasAlt m \<and> HasCtrl m \<and> HasShift m \<and> other_modifiers m = 0"
  "IsAltCtrlShift m \<longleftrightarrow> HasAlt m \<and> HasCtrl m \<and> HasShift m \<and> other_modifiers m = 0"
  unfolding IsAlt_def IsCtrl_def IsShift_def IsAltCtrl_def IsAltShift_def IsCtrlShift_def
    IsAltCtrlShift_def NoneOf_masks Any_or HasAlt_def HasCtrl_def HasShift_def
  by (auto simp: Any_def [of m 0])

text \<open>
  The seven modifier classes are exclusive, Caps Lock never matters, and one of them applies
  exactly if some of Alt, Ctrl and Shift is pressed (either side) and nothing else is.
\<close>

theorem modifier_classes:
  "length (filter (\<lambda>c. c m) [IsAlt, IsCtrl, IsShift, IsAltCtrl, IsAltShift, IsCtrlShift, IsAltCtrlShift]) =
   (if (HasAlt m \<or> HasCtrl m \<or> HasShift m) \<and> other_modifiers m = 0 then 1 else 0)"
  by (simp add: Is_classes)

subsection \<open>Properties of the key parser\<close>

lemma insert_modifiers_set: "set (insert_modifiers ms s) = set ms \<union> set s"
  by (induction ms s rule: insert_modifiers.induct) (auto simp: set_insort_key)

lemma insert_modifiers_sorted:
  "sorted s \<Longrightarrow> distinct s \<Longrightarrow> sorted (insert_modifiers ms s) \<and> distinct (insert_modifiers ms s)"
  by (induction ms s rule: insert_modifiers.induct) (auto simp: sorted_insort distinct_insort)

text \<open>What the keys of a vector say: characters, modifiers and special keys.\<close>

definition char_keys :: "ustr list \<Rightarrow> 32 word list" where
  "char_keys keys = map (\<lambda>k. of_nat (hd k)) (filter (\<lambda>k. length k = 1) keys)"

definition named_keys :: "ustr list \<Rightarrow> ustr list" where
  "named_keys keys = map LowerString (filter (\<lambda>k. length k \<noteq> 1) keys)"

definition special_keys_of :: "ustr list \<Rightarrow> SpecialKey option list" where
  "special_keys_of keys = map find_special (filter (\<lambda>k. find_modifiers k = []) (named_keys keys))"

lemma special_keys_of_simps:
  "special_keys_of [] = []"
  "special_keys_of (k # ks) =
     (if length k \<noteq> 1 \<and> find_modifiers (LowerString k) = [] then find_special (LowerString k) # special_keys_of ks
      else special_keys_of ks)"
  by (simp_all add: special_keys_of_def named_keys_def)

lemma char_keys_simps:
  "char_keys [] = []"
  "char_keys (k # ks) = (if length k = 1 then of_nat (hd k) # char_keys ks else char_keys ks)"
  by (simp_all add: char_keys_def)

lemma named_keys_simps:
  "named_keys [] = []"
  "named_keys (k # ks) = (if length k \<noteq> 1 then LowerString k # named_keys ks else named_keys ks)"
  by (simp_all add: named_keys_def)

definition count_some :: "'a option \<Rightarrow> nat" where
  "count_some x = (case x of None \<Rightarrow> 0 | Some _ \<Rightarrow> 1)"

lemma count_some_simps [simp]: "count_some None = 0" "count_some (Some x) = 1"
  by (simp_all add: count_some_def)

lemma parse_keys_succeeds:
  "parse_keys keys e ms \<noteq> None \<longleftrightarrow>
     None \<notin> set (special_keys_of keys) \<and>
     count_some (key_code e) + length (char_keys keys) \<le> 1 \<and>
     count_some (special_key e) + length (special_keys_of keys) \<le> 1"
proof (induction keys e ms rule: parse_keys.induct)
  case (1 e ms)
  show ?case by (simp add: special_keys_of_simps char_keys_simps count_some_def split: option.split)
next
  case (2 key keys e ms)
  let ?l = "LowerString key"
  consider "length key = 1" "key_code e = None" | c where "length key = 1" "key_code e = Some c"
    | "length key \<noteq> 1" "find_modifiers ?l \<noteq> []"
    | k where "length key \<noteq> 1" "find_modifiers ?l = []" "find_special ?l = Some k" "special_key e = None"
    | k k' where "length key \<noteq> 1" "find_modifiers ?l = []" "find_special ?l = Some k" "special_key e = Some k'"
    | "length key \<noteq> 1" "find_modifiers ?l = []" "find_special ?l = None"
    by (cases "find_special ?l"; cases "special_key e"; cases "key_code e") auto
  then show ?case
  proof cases
    case 1
    then show ?thesis using 2(1) by (simp add: special_keys_of_simps char_keys_simps)
  next
    case 3
    then show ?thesis using 2(2) [OF 3(1) refl 3(2)] by (simp add: special_keys_of_simps char_keys_simps Let_def)
  next
    case (4 k)
    then show ?thesis using 2(3) [OF 4(1) refl _ 4(3)]
      by (simp add: special_keys_of_simps char_keys_simps Let_def)
  qed (simp_all add: special_keys_of_simps char_keys_simps Let_def)
qed

lemma parse_keys_result:
  "parse_keys keys e ms = Some e' \<Longrightarrow> sorted ms \<Longrightarrow> distinct ms \<Longrightarrow>
   key_code e' = (if char_keys keys = [] then key_code e else Some (hd (char_keys keys))) \<and>
   special_key e' = (if special_keys_of keys = [] then special_key e else hd (special_keys_of keys)) \<and>
   (\<exists>ms'. modifier_keys e' = modifier_keys e @ ms' \<and> sorted ms' \<and> distinct ms' \<and>
      set ms' = set ms \<union> (\<Union>k\<in>set (named_keys keys). set (find_modifiers k)))"
proof (induction keys e ms rule: parse_keys.induct)
  case (1 e ms)
  then show ?case by (auto simp: special_keys_of_simps char_keys_simps named_keys_simps)
next
  case (2 key keys e ms)
  note IH = 2
  let ?l = "LowerString key"
  have c: "char_keys keys = []" if "length key = 1"
    using parse_keys_succeeds [of "key # keys" e ms] IH(4) that by (simp add: char_keys_simps)
  have s: "special_keys_of keys = []" if "length key \<noteq> 1" "find_modifiers ?l = []"
    using parse_keys_succeeds [of "key # keys" e ms] IH(4) that by (simp add: special_keys_of_simps)
  consider (char) "length key = 1" "key_code e = None"
    | (mods) "length key \<noteq> 1" "find_modifiers ?l \<noteq> []"
    | (special) k where "length key \<noteq> 1" "find_modifiers ?l = []" "find_special ?l = Some k" "special_key e = None"
    using IH(4) by (auto simp: Let_def split: if_splits option.splits)
  then show ?case
  proof cases
    case char
    have "parse_keys keys (e\<lparr>key_code := Some (of_nat (hd key))\<rparr>) ms = Some e'"
      using IH(4) char by simp
    from IH(1) [OF char(1) _ this IH(5,6)] show ?thesis using char c
      by (simp add: special_keys_of_simps char_keys_simps named_keys_simps)
  next
    case mods
    have "parse_keys keys e (insert_modifiers (find_modifiers ?l) ms) = Some e'"
      using IH(4) mods by (simp add: Let_def)
    from IH(2) [OF mods(1) refl mods(2) this] insert_modifiers_sorted [OF IH(5,6)] show ?thesis using mods
      by (simp add: special_keys_of_simps char_keys_simps named_keys_simps insert_modifiers_set Un_ac)
  next
    case special
    have "parse_keys keys (e\<lparr>special_key := Some k\<rparr>) ms = Some e'"
      using IH(4) special by (simp add: Let_def)
    from IH(3) [OF special(1) refl _ special(3) _ this IH(5,6)] special show ?thesis using s
      by (simp add: special_keys_of_simps char_keys_simps named_keys_simps)
  qed
qed

text \<open>
  A key vector is accepted iff every word of more than one character names a modifier or a
  special key (in any letter case) and there is at most one character and at most one special key.
  The event then has that character and special key and the sorted set of all named modifiers.
\<close>

theorem ParseKeyVector_correct:
  "(ParseKeyVector keys \<noteq> None \<longleftrightarrow>
      None \<notin> set (special_keys_of keys) \<and> length (char_keys keys) \<le> 1 \<and> length (special_keys_of keys) \<le> 1) \<and>
   (\<forall>e. ParseKeyVector keys = Some e \<longrightarrow>
      key_code e = (if char_keys keys = [] then None else Some (hd (char_keys keys))) \<and>
      special_key e = (if special_keys_of keys = [] then None else hd (special_keys_of keys)) \<and>
      sorted (modifier_keys e) \<and> distinct (modifier_keys e) \<and>
      set (modifier_keys e) = (\<Union>k\<in>set (named_keys keys). set (find_modifiers k)))"
  using parse_keys_succeeds [of keys EmptyKeyEvent "[]"] parse_keys_result [of keys EmptyKeyEvent "[]"]
  by (auto simp: ParseKeyVector_def EmptyKeyEvent_def)

theorem ParseKeyVector_correct_witness:
  "\<exists>e. ParseKeyVector [ascii ''Shift'', [0x61]] = Some e \<and>
     key_code e = Some 0x61 \<and> special_key e = None \<and> set (modifier_keys e) = {SHIFT}"
proof -
  have mods: "find_modifiers (LowerString (ascii ''Shift'')) = [SHIFT]"
    by (simp add: find_modifiers_def kModifierKeyMap_def ascii_def LowerString_map lower_char_def is_upper_char_def)
  have len: "length (ascii ''Shift'') = 5" by (simp add: ascii_def)
  show ?thesis
    using ParseKeyVector_correct [of "[ascii ''Shift'', [0x61]]"]
    by (auto simp: special_keys_of_simps char_keys_simps named_keys_simps mods len)
qed

end
