(* ===== verification/CharChunk.thy ===== *)
theory CharChunk
  imports Table Transliterators KeyEvent "HOL-Library.Sublist"
begin

section \<open>Character chunks\<close>

text \<open>
  \<^verbatim>\<open>composer/char_chunk.h\<close>, \<^verbatim>\<open>composer/char_chunk.cc\<close> and the input record of
  \<^verbatim>\<open>composer/composition_input.h\<close>. The fields keep the names of the members behind \<open>c_\<close>
  (\<open>dar\<close> is \<^verbatim>\<open>display_ambiguous_result\<close>); the cached length \<open>None\<close> is \<^verbatim>\<open>npos\<close>.
\<close>

subsection \<open>The input of a composition\<close>

record CompositionInput =
  in_raw :: ustr
  in_conversion :: ustr
  in_probable_key_events :: "ProbableKeyEvent list"
  in_is_new_input :: bool
  in_is_asis :: bool

definition EmptyInput :: CompositionInput where
  "EmptyInput = \<lparr>in_raw = [], in_conversion = [], in_probable_key_events = [],
                 in_is_new_input = False, in_is_asis = False\<rparr>"

definition InitFromRaw :: "ustr \<Rightarrow> bool \<Rightarrow> CompositionInput \<Rightarrow> CompositionInput" where
  "InitFromRaw r is_new_input i = i\<lparr>in_raw := r, in_is_new_input := is_new_input\<rparr>"

definition InitFromRawAndConv :: "ustr \<Rightarrow> ustr \<Rightarrow> bool \<Rightarrow> CompositionInput \<Rightarrow> CompositionInput" where
  "InitFromRawAndConv r cv is_new_input i =
     i\<lparr>in_raw := r, in_conversion := cv, in_is_new_input := is_new_input\<rparr>"

definition Input_Clear :: "CompositionInput \<Rightarrow> CompositionInput" where
  "Input_Clear i = EmptyInput"

definition Input_Empty :: "CompositionInput \<Rightarrow> bool" where
  "Input_Empty i \<longleftrightarrow> in_raw i = [] \<and> in_conversion i = []"

text \<open>The result is \<^verbatim>\<open>false\<close> (\<open>None\<close>) for an event without key code, key string and special key.\<close>

definition Input_Init :: "Table \<Rightarrow> KeyEvent \<Rightarrow> bool \<Rightarrow> CompositionInput \<Rightarrow> CompositionInput option" where
  "Input_Init t e is_new_input i =
     (let r = (case key_code e of
                 Some c \<Rightarrow> Some (CodepointToUtf8 (unat c))
               | None \<Rightarrow>
                   (case key_string e of
                      Some s \<Rightarrow> Some s
                    | None \<Rightarrow>
                        (case special_key e of
                           Some k \<Rightarrow> Some (ParseSpecialKey t (ascii ''{'' @ GetSpecialKeyString k @ ascii ''}''))
                         | None \<Rightarrow> None)))
      in case r of
           None \<Rightarrow> None
         | Some r \<Rightarrow>
             (let i1 = i\<lparr>in_raw := r\<rparr>;
                  i2 = (case key_string e of Some s \<Rightarrow> i1\<lparr>in_conversion := s\<rparr> | None \<Rightarrow> i1);
                  i3 = (if probable_key_event e \<noteq> [] then i2\<lparr>in_probable_key_events := probable_key_event e\<rparr> else i2)
              in Some (i3\<lparr>in_is_new_input := is_new_input,
                          in_is_asis := (input_style e = AS_IS \<or> input_style e = DIRECT_INPUT_STYLE)\<rparr>)))"

subsection \<open>The chunk\<close>

record CharChunk =
  c_table :: table_ptr
  c_raw :: ustr
  c_conversion :: ustr
  c_pending :: ustr
  c_ambiguous :: ustr
  c_display_ambiguous_as_result :: bool
  c_dar_raw :: ustr
  c_dar_conversion :: ustr
  c_dar_ambiguous :: ustr
  c_dar_attributes :: TableAttributes
  c_transliterator :: Transliterator
  c_attributes :: TableAttributes
  c_local_length_cache :: "nat option"

definition tbl :: "CharChunk \<Rightarrow> Table" where
  "tbl c = ptr_table (c_table c)"

definition NewChunk :: "Transliterator \<Rightarrow> table_ptr \<Rightarrow> CharChunk" where
  "NewChunk t12r p =
     \<lparr>c_table = p, c_raw = [], c_conversion = [], c_pending = [], c_ambiguous = [],
      c_display_ambiguous_as_result = False, c_dar_raw = [], c_dar_conversion = [],
      c_dar_ambiguous = [], c_dar_attributes = NO_TABLE_ATTRIBUTE, c_transliterator = t12r,
      c_attributes = NO_TABLE_ATTRIBUTE, c_local_length_cache = None\<rparr>"

definition ClearDisplayAmbiguousResultFallback :: "CharChunk \<Rightarrow> CharChunk" where
  "ClearDisplayAmbiguousResultFallback c =
     c\<lparr>c_dar_raw := [], c_dar_conversion := [], c_dar_ambiguous := [],
       c_dar_attributes := NO_TABLE_ATTRIBUTE\<rparr>"

definition SaveDisplayAmbiguousResultFallback :: "CharChunk \<Rightarrow> CharChunk" where
  "SaveDisplayAmbiguousResultFallback c =
     c\<lparr>c_dar_raw := c_raw c, c_dar_conversion := c_conversion c, c_dar_ambiguous := c_ambiguous c,
       c_dar_attributes := c_attributes c\<rparr>"

definition HasDisplayAmbiguousResultFallback :: "CharChunk \<Rightarrow> bool" where
  "HasDisplayAmbiguousResultFallback c \<longleftrightarrow>
     c_dar_raw c \<noteq> [] \<and> byte_size (c_raw c) > byte_size (c_dar_raw c) \<and>
     starts_with (c_raw c) (c_dar_raw c)"

definition RestoreDisplayAmbiguousResultFallback :: "ustr \<Rightarrow> CharChunk \<Rightarrow> ustr \<times> CharChunk" where
  "RestoreDisplayAmbiguousResultFallback inp c =
     (let replay_input = drop (length (c_dar_raw c)) (c_raw c) @ inp;
          c1 = c\<lparr>c_raw := c_dar_raw c,
                 c_conversion := c_dar_conversion c @ c_dar_ambiguous c,
                 c_pending := [], c_ambiguous := [], c_display_ambiguous_as_result := False,
                 c_attributes := c_dar_attributes c\<rparr>;
          c2 = ClearDisplayAmbiguousResultFallback c1
      in (replay_input, c2\<lparr>c_local_length_cache := None\<rparr>))"

definition Chunk_Clear :: "CharChunk \<Rightarrow> CharChunk" where
  "Chunk_Clear c =
     (ClearDisplayAmbiguousResultFallback
        (c\<lparr>c_raw := [], c_conversion := [], c_pending := [], c_ambiguous := [],
           c_display_ambiguous_as_result := False\<rparr>))\<lparr>c_local_length_cache := None\<rparr>"

definition GetDisplayConverted :: "CharChunk \<Rightarrow> ustr" where
  "GetDisplayConverted c =
     (if c_display_ambiguous_as_result c \<and> c_ambiguous c \<noteq> [] then c_conversion c @ c_ambiguous c
      else c_conversion c @ c_pending c)"

definition Chunk_GetTransliterator :: "CharChunk \<Rightarrow> Transliterator \<Rightarrow> Transliterator" where
  "Chunk_GetTransliterator c t12r =
     (if has_attribute (c_attributes c) NO_TRANSLITERATION
      then (if t12r = T_LOCAL \<or> t12r = T_HALF_ASCII \<or> t12r = T_FULL_ASCII then T_CONVERSION_STRING
            else t12r)
      else if t12r = T_LOCAL then c_transliterator c
      else t12r)"

definition Transliterate :: "env \<Rightarrow> CharChunk \<Rightarrow> Transliterator \<Rightarrow> ustr \<Rightarrow> ustr \<Rightarrow> ustr" where
  "Transliterate E c t12r r cv =
     transliterate_fn (GetTransliterator (Chunk_GetTransliterator c t12r)) E r cv"

text \<open>The string of the chunk as it is displayed; the result parameter is appended to by the caller.\<close>

definition AppendResult :: "env \<Rightarrow> Transliterator \<Rightarrow> CharChunk \<Rightarrow> ustr" where
  "AppendResult E t12r c =
     Transliterate E c t12r (DeleteSpecialKeys (c_raw c)) (DeleteSpecialKeys (GetDisplayConverted c))"

definition GetLength :: "env \<Rightarrow> Transliterator \<Rightarrow> CharChunk \<Rightarrow> nat \<times> CharChunk" where
  "GetLength E t12r c =
     (case (if t12r = T_LOCAL then c_local_length_cache c else None) of
        Some n \<Rightarrow> (n, c)
      | None \<Rightarrow>
          (let t13n = Transliterate E c t12r (DeleteSpecialKeys (c_raw c))
                        (DeleteSpecialKeys (GetDisplayConverted c));
               len = length t13n
           in (len, if t12r = T_LOCAL then c\<lparr>c_local_length_cache := Some len\<rparr> else c)))"

definition AppendTrimedResult :: "env \<Rightarrow> Transliterator \<Rightarrow> CharChunk \<Rightarrow> ustr" where
  "AppendTrimedResult E t12r c =
     (let converted =
            (if c_pending c \<noteq> []
             then (case Table_LookUpPrefix (tbl c) (c_pending c) of
                     (Some entry, key_length, fixed) \<Rightarrow>
                       if ent_input entry = ent_result entry then c_conversion c @ ent_result entry
                       else c_conversion c
                   | (None, key_length, fixed) \<Rightarrow> c_conversion c)
             else c_conversion c)
      in Transliterate E c t12r (DeleteSpecialKeys (c_raw c)) (DeleteSpecialKeys converted))"

definition AppendFixedResult :: "env \<Rightarrow> Transliterator \<Rightarrow> CharChunk \<Rightarrow> ustr" where
  "AppendFixedResult E t12r c =
     (let converted = (if c_ambiguous c \<noteq> [] then c_conversion c @ c_ambiguous c
                       else c_conversion c @ c_pending c)
      in Transliterate E c t12r (DeleteSpecialKeys (c_raw c)) (DeleteSpecialKeys converted))"

subsection \<open>Expansion of the pending string\<close>

definition kMaxRecursion :: nat where "kMaxRecursion = 4"

function GetFromPending :: "Table \<Rightarrow> ustr \<Rightarrow> nat \<Rightarrow> ustr set \<Rightarrow> bool \<times> ustr set"
  and pending_entries :: "Table \<Rightarrow> Entry list \<Rightarrow> nat \<Rightarrow> ustr set \<Rightarrow> bool \<times> ustr set" where
  "GetFromPending t key 0 result = (False, result)"
| "GetFromPending t key (Suc n) result =
     (if key \<in> result then (True, result)
      else pending_entries t (Table_LookUpPredictiveAll t key) n (insert key result))"
| "pending_entries t [] n result = (True, result)"
| "pending_entries t (entry # rest) n result =
     (if ent_result entry \<noteq> [] then (False, result)
      else (case GetFromPending t (ent_pending entry) n result of
              (False, result') \<Rightarrow> (False, result')
            | (True, result') \<Rightarrow> pending_entries t rest n result'))"
  by pat_completeness auto
termination
  by (relation "inv_image (less_than <*lex*> less_than <*lex*> less_than)
        (\<lambda>x. case x of Inl (t, key, n, result) \<Rightarrow> (n, 0, 0)
             | Inr (t, es, n, result) \<Rightarrow> (n, 1, length es))") auto

fun expanded_loop :: "Table \<Rightarrow> Entry list \<Rightarrow> ustr set \<Rightarrow> ustr set" where
  "expanded_loop t [] results = results"
| "expanded_loop t (entry # rest) results =
     (let r1 = (if ent_result entry \<noteq> [] then insert (DeleteSpecialKeys (ent_result entry)) results
                else results)
      in if ent_pending entry = [] then expanded_loop t rest r1
         else (case GetFromPending t (ent_pending entry) kMaxRecursion {} of
                 (False, loop_result) \<Rightarrow> expanded_loop t rest r1
               | (True, loop_result) \<Rightarrow> expanded_loop t rest (r1 \<union> DeleteSpecialKeys ` loop_result)))"

definition GetExpandedResults :: "CharChunk \<Rightarrow> ustr set" where
  "GetExpandedResults c =
     (if c_pending c = [] then {}
      else expanded_loop (tbl c) (Table_LookUpPredictiveAll (tbl c) (c_pending c))
             (if c_conversion c = [] then {DeleteSpecialKeys (c_pending c)} else {}))"

subsection \<open>Tests\<close>

definition IsFixed :: "CharChunk \<Rightarrow> bool" where
  "IsFixed c \<longleftrightarrow> c_pending c = []"

definition IsAppendable :: "CharChunk \<Rightarrow> Transliterator \<Rightarrow> table_ptr \<Rightarrow> bool" where
  "IsAppendable c t12r p \<longleftrightarrow>
     c_pending c \<noteq> [] \<and> (t12r = T_LOCAL \<or> t12r = c_transliterator c) \<and>
     ptr_addr p = ptr_addr (c_table c)"

definition IsConvertible :: "CharChunk \<Rightarrow> Transliterator \<Rightarrow> table_ptr \<Rightarrow> ustr \<Rightarrow> bool" where
  "IsConvertible c t12r p inp =
     (if \<not> IsAppendable c t12r p then False
      else
        (let key = c_pending c @ inp;
             (entry, key_length, fixed) = Table_LookUpPrefix (ptr_table p) key
         in entry \<noteq> None \<and> length key = key_length \<and> fixed))"

definition ShouldCommit :: "CharChunk \<Rightarrow> bool" where
  "ShouldCommit c \<longleftrightarrow> has_attribute (c_attributes c) DIRECT_INPUT \<and> c_pending c = []"

definition ShouldInsertNewChunk :: "CharChunk \<Rightarrow> CompositionInput \<Rightarrow> bool" where
  "ShouldInsertNewChunk c i =
     (if c_raw c = [] \<and> c_conversion c = [] \<and> c_pending c = [] then False
      else
        (let is_new_input = (in_is_new_input i \<or>
                             (has_attribute (c_attributes c) END_CHUNK \<and> c_pending c = []))
         in if is_new_input \<and> (HasNewChunkEntry (tbl c) (in_raw i) \<or> \<not> HasSubRules (tbl c) (in_raw i))
            then True else False))"

subsection \<open>Combining two chunks\<close>

definition Combine :: "CharChunk \<Rightarrow> CharChunk \<Rightarrow> CharChunk" where
  "Combine left c =
     c\<lparr>c_conversion := c_conversion left @ c_conversion c,
       c_raw := c_raw left @ c_raw c,
       c_local_length_cache := None,
       c_ambiguous :=
         (if c_ambiguous left = [] then []
          else if c_ambiguous c = [] then c_ambiguous left @ c_pending c
          else c_ambiguous left @ c_ambiguous c),
       c_pending := c_pending left @ c_pending c\<rparr>"

subsection \<open>Adding input\<close>

text \<open>
  \<^verbatim>\<open>AddInputInternal\<close> when the look-up finds no entry; the result is the loop flag, the rest of the
  input and the chunk.
\<close>

definition add_input_no_entry :: "CharChunk \<Rightarrow> ustr \<Rightarrow> nat \<Rightarrow> bool \<times> ustr \<times> CharChunk" where
  "add_input_no_entry c inp used_key_length =
     (if used_key_length \<le> length (c_pending c) \<and> HasDisplayAmbiguousResultFallback c
      then (let (replay, c') = RestoreDisplayAmbiguousResultFallback inp c in (False, replay, c'))
      else if used_key_length = 0
      then
        (let trimmed = TrimLeadingSpecialKey inp in
         if length trimmed < length inp then (True, trimmed, c)
         else if c_pending c = []
         then (let front = take 1 inp; rest = drop 1 inp in
               (False, rest, c\<lparr>c_raw := c_raw c @ front, c_conversion := c_conversion c @ front\<rparr>))
         else (False, inp, c))
      else if used_key_length = length (c_pending c)
      then
        (let (next_entry, used_length, next_fixed) = Table_LookUpPrefix (tbl c) inp;
             no_entry = (next_entry = None \<and> used_length = 0);
             trimmed = TrimLeadingSpecialKey inp
         in if no_entry \<and> length trimmed < length inp then (True, trimmed, c) else (False, inp, c))
      else if used_key_length < length (c_pending c) then (False, inp, c)
      else
        (let used_input_length = used_key_length - length (c_pending c);
             used_input_chars = take used_input_length inp
         in (False, drop used_input_length inp,
             c\<lparr>c_raw := c_raw c @ used_input_chars, c_pending := c_pending c @ used_input_chars,
               c_ambiguous := [], c_display_ambiguous_as_result := False\<rparr>)))"

text \<open>
  \<^verbatim>\<open>AddInputInternal\<close> when the look-up finds an entry. If the key of the entry is shorter than the
  pending string, the unsigned difference wraps around and \<^verbatim>\<open>substr\<close> throws.
\<close>

definition is_first_entry :: "CharChunk \<Rightarrow> bool" where
  "is_first_entry c \<longleftrightarrow>
     c_conversion c = [] \<and> (c_raw c = [] \<or> c_pending c = [] \<or> c_raw c = c_pending c)"

definition resolve_entry :: "CharChunk \<Rightarrow> Entry \<Rightarrow> CharChunk" where
  "resolve_entry c entry =
     ClearDisplayAmbiguousResultFallback
       (c\<lparr>c_conversion := c_conversion c @ ent_result entry, c_pending := ent_pending entry,
          c_ambiguous := [], c_display_ambiguous_as_result := False\<rparr>)"

definition keep_ambiguous :: "CharChunk \<Rightarrow> Entry \<Rightarrow> ustr \<Rightarrow> CharChunk" where
  "keep_ambiguous c entry key =
     (let dar = has_attribute (ent_attributes entry) DISPLAY_AMBIGUOUS_RESULT;
          c' = c\<lparr>c_pending := key, c_ambiguous := ent_result entry,
                 c_display_ambiguous_as_result := dar\<rparr>
      in if dar then SaveDisplayAmbiguousResultFallback c' else ClearDisplayAmbiguousResultFallback c')"

definition add_input_entry ::
  "CharChunk \<Rightarrow> ustr \<Rightarrow> Entry \<Rightarrow> nat \<Rightarrow> bool \<Rightarrow> (bool \<times> ustr \<times> CharChunk) outcome" where
  "add_input_entry c inp entry used_key_length fixed =
     (if used_key_length < length (c_pending c) then Throw Out_of_range
      else
        (let key = c_pending c @ inp;
             c1 = (if is_first_entry c then c\<lparr>c_attributes := ent_attributes entry\<rparr> else c);
             used_input_length = used_key_length - length (c_pending c);
             c2 = c1\<lparr>c_raw := c_raw c1 @ take used_input_length inp\<rparr>;
             rest = drop used_input_length inp;
             c3 = (if fixed \<or> length key > used_key_length then resolve_entry c2 entry
                   else keep_ambiguous c2 entry key)
         in if fixed \<and> rest = [] \<and> c_conversion c3 = [] \<and> c_pending c3 = [] \<and>
               has_attribute (c_attributes c3) NO_TRANSLITERATION
            then Ret (False, rest, c3\<lparr>c_raw := []\<rparr>)
            else if rest = [] \<or> c_pending c3 = [] then Ret (False, rest, c3)
            else Ret (True, rest, c3)))"

definition AddInputInternal :: "CharChunk \<Rightarrow> ustr \<Rightarrow> (bool \<times> ustr \<times> CharChunk) outcome" where
  "AddInputInternal c inp =
     (let key = c_pending c @ inp;
          (found, used_key_length, fixed) = Table_LookUpPrefix (tbl c) key;
          c0 = c\<lparr>c_local_length_cache := None\<rparr>
      in case found of
           None \<Rightarrow> Ret (add_input_no_entry c0 inp used_key_length)
         | Some entry \<Rightarrow> add_input_entry c0 inp entry used_key_length fixed)"

text \<open>
  The loop of \<^verbatim>\<open>AddInput\<close> need not end (see \<open>AddInput_diverges\<close>); each iteration takes one unit of
  fuel.
\<close>

fun AddInput :: "nat \<Rightarrow> CharChunk \<Rightarrow> ustr \<Rightarrow> (ustr \<times> CharChunk) outcome" where
  "AddInput 0 c inp = Timeout"
| "AddInput (Suc fuel) c inp =
     obind (AddInputInternal c inp) (\<lambda>(loop, rest, c').
       if loop then AddInput fuel c' rest else Ret (rest, c'))"

definition AddInputAndConvertedChar :: "CharChunk \<Rightarrow> CompositionInput \<Rightarrow> CharChunk \<times> CompositionInput" where
  "AddInputAndConvertedChar c i =
     (let c0 = c\<lparr>c_local_length_cache := None\<rparr>;
          empty = (c_raw c0 = [] \<and> c_pending c0 = [] \<and> c_conversion c0 = [])
      in if in_is_asis i
         then (if empty then (c0\<lparr>c_raw := in_raw i, c_conversion := in_conversion i\<rparr>, Input_Clear i)
               else (c0, i))
         else if empty
         then
           (let c1 = c0\<lparr>c_raw := in_raw i, c_pending := in_conversion i, c_ambiguous := in_conversion i\<rparr>;
                i1 = i\<lparr>in_raw := [], in_conversion := []\<rparr>
            in case Table_LookUp (tbl c1) (c_pending c1) of
                 Some entry \<Rightarrow> (c1\<lparr>c_attributes := ent_attributes entry\<rparr>, i1)
               | None \<Rightarrow> (c1, i1))
         else
           (let key_input = c_pending c0 @ in_conversion i;
                (found, key_length, fixed) = Table_LookUpPrefix (tbl c0) key_input
            in case found of
                 None \<Rightarrow> (c0, i)
               | Some entry \<Rightarrow>
                   if key_length = length key_input
                   then
                     (let c1 = c0\<lparr>c_raw := c_raw c0 @ in_raw i\<rparr>;
                          c2 = (if fixed
                                then c1\<lparr>c_conversion := c_conversion c1 @ ent_result entry,
                                        c_pending := ent_pending entry, c_ambiguous := []\<rparr>
                                else c1\<lparr>c_pending := ent_result entry, c_ambiguous := ent_result entry\<rparr>)
                      in (c2, i\<lparr>in_raw := [], in_conversion := []\<rparr>))
                   else if key_length = length (c_pending c0) then (c0, i)
                   else
                     (c0\<lparr>c_raw := c_raw c0 @ in_raw i,
                         c_conversion := c_conversion c0 @ ent_result entry,
                         c_pending := ent_pending entry\<rparr>,
                      i\<lparr>in_raw := [], in_conversion := drop key_length key_input\<rparr>)))"

definition AddCompositionInput ::
  "nat \<Rightarrow> CharChunk \<Rightarrow> CompositionInput \<Rightarrow> (CharChunk \<times> CompositionInput) outcome" where
  "AddCompositionInput fuel c i =
     (let c0 = c\<lparr>c_local_length_cache := None\<rparr> in
      if in_conversion i \<noteq> [] then Ret (AddInputAndConvertedChar c0 i)
      else if ShouldInsertNewChunk c0 i then Ret (c0, i)
      else obind (AddInput fuel c0 (in_raw i)) (\<lambda>(rest, c'). Ret (c', i\<lparr>in_raw := rest\<rparr>)))"

definition SetTransliterator :: "Transliterator \<Rightarrow> CharChunk \<Rightarrow> CharChunk" where
  "SetTransliterator t12r c =
     (if t12r = T_LOCAL then c else c\<lparr>c_local_length_cache := None, c_transliterator := t12r\<rparr>)"

definition set_attributes :: "TableAttributes \<Rightarrow> CharChunk \<Rightarrow> CharChunk" where
  "set_attributes a c = c\<lparr>c_attributes := a, c_local_length_cache := None\<rparr>"

definition set_raw :: "ustr \<Rightarrow> CharChunk \<Rightarrow> CharChunk" where
  "set_raw s c = c\<lparr>c_raw := s, c_local_length_cache := None\<rparr>"

definition set_conversion :: "ustr \<Rightarrow> CharChunk \<Rightarrow> CharChunk" where
  "set_conversion s c = c\<lparr>c_conversion := s, c_local_length_cache := None\<rparr>"

definition set_pending :: "ustr \<Rightarrow> CharChunk \<Rightarrow> CharChunk" where
  "set_pending s c = c\<lparr>c_pending := s, c_local_length_cache := None\<rparr>"

definition set_ambiguous :: "ustr \<Rightarrow> CharChunk \<Rightarrow> CharChunk" where
  "set_ambiguous s c = c\<lparr>c_ambiguous := s, c_local_length_cache := None\<rparr>"

subsection \<open>Splitting\<close>

text \<open>
  \<^verbatim>\<open>InvalidArgumentError\<close> is \<open>None\<close> with the chunk as the length query left it; otherwise the result
  is the new left chunk and this chunk, the right part. The sizes are in bytes, and
  \<^verbatim>\<open>converted_rhs.size() - pending_.size()\<close> wraps to a huge number when it is negative, so that the
  whole of \<^verbatim>\<open>converted_rhs\<close> is assigned.
\<close>

definition SplitChunk ::
  "env \<Rightarrow> Transliterator \<Rightarrow> nat \<Rightarrow> CharChunk \<Rightarrow> (CharChunk \<times> CharChunk) option \<times> CharChunk" where
  "SplitChunk E t12r position c =
     (let (len, c0) = GetLength E t12r c in
      if position = 0 \<or> position \<ge> len then (None, c0)
      else
        (let s = split_fn (GetTransliterator (Chunk_GetTransliterator c0 t12r)) E position
                   (DeleteSpecialKeys (c_raw c0)) (DeleteSpecialKeys (c_conversion c0 @ c_pending c0));
             left = set_raw (raw_lhs s) (NewChunk (c_transliterator c0) (c_table c0));
             right = set_raw (raw_rhs s) (c0\<lparr>c_local_length_cache := None\<rparr>)
         in if byte_size (converted_lhs s) > byte_size (c_conversion right)
            then
              (let pending_lhs = byte_drop (byte_size (c_conversion right)) (converted_lhs s);
                   left' = set_pending pending_lhs (set_conversion (c_conversion right) left);
                   right' = right\<lparr>c_conversion := [], c_pending := converted_rhs s, c_ambiguous := []\<rparr>
               in (Some (left', right'), right'))
            else
              (let left' = set_conversion (converted_lhs s) left;
                   rhs_size = byte_size (converted_rhs s);
                   pending_size = byte_size (c_pending right);
                   conv = (if rhs_size < pending_size then converted_rhs s
                           else byte_take (rhs_size - pending_size) (converted_rhs s));
                   right' = right\<lparr>c_conversion := conv\<rparr>
               in (Some (left', right'), right'))))"

subsection \<open>What happens to the typed keys\<close>

lemma TrimLeadingSpecialKey_suffix: "suffix (TrimLeadingSpecialKey s) s"
  by (auto simp: TrimLeadingSpecialKey_def Let_def suffix_drop split: option.splits)

lemma Restore_raw:
  assumes "HasDisplayAmbiguousResultFallback c" "RestoreDisplayAmbiguousResultFallback inp c = (r, c')"
  shows "c_raw c' @ r = c_raw c @ inp"
  using assms starts_with_drop [of "c_raw c" "c_dar_raw c"]
  by (auto simp: HasDisplayAmbiguousResultFallback_def RestoreDisplayAmbiguousResultFallback_def Let_def
      ClearDisplayAmbiguousResultFallback_def)

text \<open>The raw string after one step, with the cases in which it is not simply extended.\<close>

definition trims :: "CharChunk \<Rightarrow> ustr \<Rightarrow> ustr \<Rightarrow> CharChunk \<Rightarrow> bool" where
  "trims c inp r c' \<longleftrightarrow>
     c_raw c' = c_raw c \<and> r = TrimLeadingSpecialKey inp \<and> length r < length inp"

definition absorbs :: "ustr \<Rightarrow> CharChunk \<Rightarrow> bool" where
  "absorbs r c' \<longleftrightarrow>
     r = [] \<and> c_raw c' = [] \<and> c_conversion c' = [] \<and> c_pending c' = [] \<and>
     has_attribute (c_attributes c') NO_TRANSLITERATION"

lemma add_input_no_entry_raw:
  assumes "add_input_no_entry c inp n = (l, r, c')"
  shows "c_raw c' @ r = c_raw c @ inp \<or> trims c inp r c'"
proof (cases "n \<le> length (c_pending c) \<and> HasDisplayAmbiguousResultFallback c")
  case True
  then show ?thesis using assms Restore_raw [of c inp r c']
    by (auto simp: add_input_no_entry_def split: prod.splits)
next
  case False
  then show ?thesis using assms
    by (auto simp: add_input_no_entry_def trims_def Let_def split: if_splits prod.splits)
qed

lemma resolve_entry_raw [simp]: "c_raw (resolve_entry c e) = c_raw c"
  by (simp add: resolve_entry_def ClearDisplayAmbiguousResultFallback_def)

lemma keep_ambiguous_raw [simp]: "c_raw (keep_ambiguous c e key) = c_raw c"
  by (simp add: keep_ambiguous_def Let_def ClearDisplayAmbiguousResultFallback_def
      SaveDisplayAmbiguousResultFallback_def)

lemma add_input_entry_raw:
  assumes "add_input_entry c inp e n f = Ret (l, r, c')"
  shows "c_raw c' @ r = c_raw c @ inp \<or> absorbs r c'"
  using assms by (auto simp: add_input_entry_def absorbs_def Let_def split: if_splits)

lemma AddInputInternal_raw:
  assumes "AddInputInternal c inp = Ret (l, r, c')"
  shows "c_raw c' @ r = c_raw c @ inp \<or> trims c inp r c' \<or> absorbs r c'"
proof -
  obtain x n f where p: "Table_LookUpPrefix (tbl c) (c_pending c @ inp) = (x, n, f)"
    by (metis prod_cases3)
  show ?thesis
    using assms add_input_no_entry_raw [of "c\<lparr>c_local_length_cache := None\<rparr>" inp n l r c']
      add_input_entry_raw [of "c\<lparr>c_local_length_cache := None\<rparr>" inp _ n f l r c']
    by (cases x) (auto simp: AddInputInternal_def p trims_def)
qed

lemma AddInputInternal_subseq:
  assumes "AddInputInternal c inp = Ret (l, r, c')"
  shows "subseq (c_raw c' @ r) (c_raw c @ inp)"
  using AddInputInternal_raw [OF assms]
proof (elim disjE)
  assume "trims c inp r c'"
  then show ?thesis using TrimLeadingSpecialKey_suffix [of inp]
    by (auto simp: trims_def intro: list_emb_append_mono suffix_imp_subseq)
qed (auto simp: absorbs_def)

lemma AddInput_subseq:
  "AddInput fuel c inp = Ret (r, c') \<Longrightarrow> subseq (c_raw c' @ r) (c_raw c @ inp)"
proof (induction fuel arbitrary: c inp)
  case (Suc fuel)
  then obtain l r1 c1 where s: "AddInputInternal c inp = Ret (l, r1, c1)"
    "(if l then AddInput fuel c1 r1 else Ret (r1, c1)) = Ret (r, c')"
    by auto
  have "subseq (c_raw c' @ r) (c_raw c1 @ r1)"
    using s(2) Suc.IH [of c1 r1] by (auto split: if_splits)
  then show ?case using AddInputInternal_subseq [OF s(1)] by (rule subseq_order.order_trans)
qed simp

text \<open>Input without special keys is never trimmed.\<close>

definition plain_input :: "ustr \<Rightarrow> bool" where
  "plain_input s \<longleftrightarrow> list_all (\<lambda>c. \<not> IsSpecialKey c \<and> c \<noteq> kSpecialKeyOpen) s"

lemma plain_input_trim: "plain_input s \<Longrightarrow> TrimLeadingSpecialKey s = s"
  by (cases s) (auto simp: plain_input_def TrimLeadingSpecialKey_def Let_def IsSpecialKey_def kSpecialKeyBegin_def)

lemma plain_input_subseq: "subseq r s \<Longrightarrow> plain_input s \<Longrightarrow> plain_input r"
  by (auto simp: plain_input_def list_all_iff dest: subset_trans list_emb_set)

definition no_absorb :: "Table \<Rightarrow> bool" where
  "no_absorb t \<longleftrightarrow> (\<forall>k e. LookUp (entries t) k = Some e \<longrightarrow> \<not> has_attribute (ent_attributes e) NO_TRANSLITERATION)"

lemma chunk_frame_simps [simp]:
  "c_table (ClearDisplayAmbiguousResultFallback c) = c_table c"
  "c_table (SaveDisplayAmbiguousResultFallback c) = c_table c"
  "c_transliterator (ClearDisplayAmbiguousResultFallback c) = c_transliterator c"
  "c_transliterator (SaveDisplayAmbiguousResultFallback c) = c_transliterator c"
  "c_raw (ClearDisplayAmbiguousResultFallback c) = c_raw c"
  "c_raw (SaveDisplayAmbiguousResultFallback c) = c_raw c"
  "c_conversion (ClearDisplayAmbiguousResultFallback c) = c_conversion c"
  "c_conversion (SaveDisplayAmbiguousResultFallback c) = c_conversion c"
  "c_pending (ClearDisplayAmbiguousResultFallback c) = c_pending c"
  "c_pending (SaveDisplayAmbiguousResultFallback c) = c_pending c"
  "c_ambiguous (ClearDisplayAmbiguousResultFallback c) = c_ambiguous c"
  "c_ambiguous (SaveDisplayAmbiguousResultFallback c) = c_ambiguous c"
  "c_attributes (ClearDisplayAmbiguousResultFallback c) = c_attributes c"
  "c_attributes (SaveDisplayAmbiguousResultFallback c) = c_attributes c"
  "c_local_length_cache (ClearDisplayAmbiguousResultFallback c) = c_local_length_cache c"
  "c_local_length_cache (SaveDisplayAmbiguousResultFallback c) = c_local_length_cache c"
  "c_dar_attributes (ClearDisplayAmbiguousResultFallback c) = NO_TABLE_ATTRIBUTE"
  "c_dar_attributes (SaveDisplayAmbiguousResultFallback c) = c_attributes c"
  by (simp_all add: ClearDisplayAmbiguousResultFallback_def SaveDisplayAmbiguousResultFallback_def)

lemma resolve_entry_simps [simp]:
  "c_table (resolve_entry c e) = c_table c" "c_transliterator (resolve_entry c e) = c_transliterator c"
  "c_pending (resolve_entry c e) = ent_pending e" "c_attributes (resolve_entry c e) = c_attributes c"
  "c_conversion (resolve_entry c e) = c_conversion c @ ent_result e"
  "c_local_length_cache (resolve_entry c e) = c_local_length_cache c"
  "c_dar_attributes (resolve_entry c e) = NO_TABLE_ATTRIBUTE"
  by (simp_all add: resolve_entry_def)

lemma keep_ambiguous_simps [simp]:
  "c_table (keep_ambiguous c e key) = c_table c"
  "c_transliterator (keep_ambiguous c e key) = c_transliterator c"
  "c_pending (keep_ambiguous c e key) = key" "c_attributes (keep_ambiguous c e key) = c_attributes c"
  "c_conversion (keep_ambiguous c e key) = c_conversion c"
  "c_local_length_cache (keep_ambiguous c e key) = c_local_length_cache c"
  by (simp_all add: keep_ambiguous_def Let_def)

text \<open>The three ways a step changes the chunk, in the terms the termination proofs need.\<close>

lemma add_input_no_entry_cases:
  assumes "add_input_no_entry c inp n = (l, r, c')"
  shows "c_table c' = c_table c \<and> c_transliterator c' = c_transliterator c \<and>
    c_local_length_cache c' = (if c' = c then c_local_length_cache c else c_local_length_cache c') \<and>
    (l \<longrightarrow> length r < length inp \<and> c' = c) \<and>
    (c_pending c' = c_pending c \<or> c_pending c' = [] \<or>
     (length (c_pending c) < n \<and> c_pending c' = take n (c_pending c @ inp)))"
  using assms
  by (auto simp: add_input_no_entry_def RestoreDisplayAmbiguousResultFallback_def Let_def
      split: if_splits prod.splits)

lemma add_input_entry_cases:
  assumes "add_input_entry c inp e n f = Ret (l, r, c')"
  shows "c_table c' = c_table c \<and> c_transliterator c' = c_transliterator c \<and>
    length (c_pending c) \<le> n \<and> r = drop (n - length (c_pending c)) inp \<and>
    (l \<longrightarrow> r \<noteq> [] \<and> c_pending c' = ent_pending e \<and> c_pending c' \<noteq> []) \<and>
    (c_pending c' = ent_pending e \<or> (n \<ge> length (c_pending c @ inp) \<and> c_pending c' = c_pending c @ inp))"
  using assms by (auto simp: add_input_entry_def Let_def split: if_splits)

definition ranked :: "(ustr \<Rightarrow> nat) \<Rightarrow> nat \<Rightarrow> Table \<Rightarrow> bool" where
  "ranked rank bound t \<longleftrightarrow>
     (\<forall>s. rank (normalize t s) = rank s) \<and>
     (\<forall>k e. LookUp (entries t) k = Some e \<longrightarrow> ent_pending e \<noteq> [] \<longrightarrow>
        rank (ent_pending e) < bound \<and> rank (ent_pending e) < rank k)"

text \<open>A pending string that no shorter rule can match.\<close>

definition safe_pending :: "Table \<Rightarrow> ustr \<Rightarrow> bool" where
  "safe_pending t p \<longleftrightarrow>
     (\<forall>n < length p. Table_LookUp t (take n p) = None) \<or> (\<exists>q. LookUp (entries t) (normalize t p @ q) \<noteq> None)"

definition safe_table :: "Table \<Rightarrow> bool" where
  "safe_table t \<longleftrightarrow> (\<forall>k e. LookUp (entries t) k = Some e \<longrightarrow> safe_pending t (ent_pending e))"

lemma normalize_append: "normalize t (p @ q) = normalize t p @ normalize t q"
  by (simp add: normalize_def)

lemma safe_pending_Nil [simp]: "safe_pending t []"
  by (simp add: safe_pending_def)

lemma safe_pending_reach:
  assumes "table_ok t" "safe_pending t p" "Table_LookUpPrefix t (p @ inp) = (Some e, n, f)"
  shows "length p \<le> n"
proof (rule ccontr)
  assume less: "\<not> length p \<le> n"
  have n: "n \<le> length (p @ inp)" "Some e = Table_LookUp t (take n (p @ inp))"
    using Table_LookUpPrefix_spec [OF assms(1,3)] by auto
  then have "Table_LookUp t (take n p) = Some e" using less by simp
  then obtain q where q: "LookUp (entries t) (normalize t p @ q) \<noteq> None"
    using assms(2) less by (auto simp: safe_pending_def)
  have wf: "wf_trie (entries t)" using assms(1) by (simp add: table_ok_def)
  have "LookUpPrefix (entries t) (normalize t p @ normalize t inp) = (Some e, n, f)"
    using assms(3) by (simp add: Table_LookUpPrefix_normalize normalize_append)
  from trie.prefix_reaches [OF wf q this] have "length p \<le> n" by simp
  with less show False by simp
qed

lemma safe_pending_prefix:
  assumes "table_ok t" "Table_LookUpPrefix t k = (x, n, f)" "0 < n"
  shows "safe_pending t (take n k)"
proof -
  have wf: "wf_trie (entries t)" using assms(1) by (simp add: table_ok_def)
  have "LookUpPrefix (entries t) (normalize t k) = (x, n, f)"
    using assms(2) by (simp add: Table_LookUpPrefix_normalize)
  from LookUpPrefix_spec [OF wf this] assms(3) obtain q where
    "LookUp (entries t) (take n (normalize t k) @ q) \<noteq> None" by auto
  then show ?thesis by (auto simp: safe_pending_def)
qed

definition step_ok :: "(ustr \<Rightarrow> nat) \<Rightarrow> nat \<Rightarrow> CharChunk \<Rightarrow> bool" where
  "step_ok rank bound c \<longleftrightarrow>
     table_ok (tbl c) \<and> ranked rank bound (tbl c) \<and> safe_table (tbl c) \<and> safe_pending (tbl c) (c_pending c)"

definition input_measure :: "(ustr \<Rightarrow> nat) \<Rightarrow> nat \<Rightarrow> CharChunk \<Rightarrow> ustr \<Rightarrow> nat" where
  "input_measure rank bound c inp = length inp * bound + rank (c_pending c)"

lemma tbl_cache [simp]: "tbl (c\<lparr>c_local_length_cache := x\<rparr>) = tbl c"
  by (simp add: tbl_def)

lemma NewChunk_simps [simp]:
  "tbl (NewChunk t12r p) = ptr_table p" "c_table (NewChunk t12r p) = p"
  "c_raw (NewChunk t12r p) = []" "c_conversion (NewChunk t12r p) = []"
  "c_pending (NewChunk t12r p) = []" "c_ambiguous (NewChunk t12r p) = []"
  "c_transliterator (NewChunk t12r p) = t12r" "c_attributes (NewChunk t12r p) = NO_TABLE_ATTRIBUTE"
  "c_dar_attributes (NewChunk t12r p) = NO_TABLE_ATTRIBUTE" "c_dar_raw (NewChunk t12r p) = []"
  "c_local_length_cache (NewChunk t12r p) = None" "\<not> c_display_ambiguous_as_result (NewChunk t12r p)"
  by (simp_all add: NewChunk_def tbl_def)

lemma tbl_eq: "c_table c' = c_table c \<Longrightarrow> tbl c' = tbl c"
  by (simp add: tbl_def)

text \<open>A step never throws, and it keeps the invariant; if it loops, the measure has decreased.\<close>

lemma AddInputInternal_step:
  assumes ok: "step_ok rank bound c"
  shows "\<exists>l r c'. AddInputInternal c inp = Ret (l, r, c') \<and> c_table c' = c_table c \<and>
    c_transliterator c' = c_transliterator c \<and> safe_pending (tbl c) (c_pending c') \<and>
    (l \<longrightarrow> 0 < bound \<longrightarrow> input_measure rank bound c' r < input_measure rank bound c inp)"
proof -
  note wf = ok [unfolded step_ok_def]
  let ?c = "c\<lparr>c_local_length_cache := None\<rparr>"
  obtain x n f where p: "Table_LookUpPrefix (tbl c) (c_pending c @ inp) = (x, n, f)"
    by (metis prod_cases3)
  show ?thesis
  proof (cases x)
    case None
    obtain l r c' where r: "add_input_no_entry ?c inp n = (l, r, c')" by (metis prod_cases3)
    note C = add_input_no_entry_cases [OF r]
    have "safe_pending (tbl c) (c_pending c')"
      using C wf safe_pending_prefix [of "tbl c" "c_pending c @ inp" x n f] p by auto
    moreover have "l \<Longrightarrow> length r * bound + rank (c_pending c') < length inp * bound + rank (c_pending c)"
      if "0 < bound" using C that by auto
    ultimately show ?thesis
      using C r p None by (auto simp: AddInputInternal_def input_measure_def)
  next
    case (Some e)
    have n: "length (c_pending c) \<le> n"
      using safe_pending_reach [of "tbl c" "c_pending c" inp e n f] wf p Some by simp
    have spec: "n \<le> length (c_pending c @ inp)" "Table_LookUp (tbl c) (take n (c_pending c @ inp)) = Some e"
      using Table_LookUpPrefix_spec [of "tbl c" "c_pending c @ inp" x n f] wf p Some by simp_all
    have "\<exists>y. add_input_entry ?c inp e n f = Ret y"
      using n by (auto simp: add_input_entry_def Let_def)
    then obtain l r c' where r: "add_input_entry ?c inp e n f = Ret (l, r, c')" by (metis prod_cases3)
    note C = add_input_entry_cases [OF r]
    have le: "LookUp (entries (tbl c)) (normalize (tbl c) (take n (c_pending c @ inp))) = Some e"
      using spec(2) by (simp add: Table_LookUp_normalize)
    have safe: "safe_pending (tbl c) (c_pending c')"
    proof (cases "c_pending c' = ent_pending e")
      case True
      then show ?thesis using wf le by (auto simp: safe_table_def)
    next
      case False
      then have "c_pending c' = take n (c_pending c @ inp)" "n = length (c_pending c @ inp)"
        using C spec(1) by auto
      then show ?thesis using le spec(1) by (auto simp: safe_pending_def intro!: exI [of _ "[]"])
    qed
    have dec: "length r * bound + rank (c_pending c') < length inp * bound + rank (c_pending c)" if l: l
    proof -
      have pe: "c_pending c' = ent_pending e" "ent_pending e \<noteq> []" "r \<noteq> []" using C l by auto
      have rk: "rank (ent_pending e) < bound"
        "rank (ent_pending e) < rank (take n (c_pending c @ inp))"
        using wf le pe(2) by (auto simp: ranked_def) metis
      show ?thesis
      proof (cases "n = length (c_pending c)")
        case True
        then show ?thesis using C rk(2) pe(1) by simp
      next
        case False
        then have "Suc (length r) \<le> length inp" using C n pe(3) by auto
        then have "Suc (length r) * bound \<le> length inp * bound" by (rule mult_le_mono1)
        then show ?thesis using rk(1) pe(1) by simp
      qed
    qed
    show ?thesis
      using C r p Some safe dec by (auto simp: AddInputInternal_def input_measure_def)
  qed
qed

lemma AddInput_returns:
  assumes "step_ok rank bound c" "0 < bound" "input_measure rank bound c inp < fuel"
  shows "\<exists>r c'. AddInput fuel c inp = Ret (r, c') \<and> c_table c' = c_table c \<and>
    c_transliterator c' = c_transliterator c \<and> step_ok rank bound c'"
  using assms
proof (induction fuel arbitrary: c inp)
  case (Suc fuel)
  obtain l r c' where s: "AddInputInternal c inp = Ret (l, r, c')" "c_table c' = c_table c"
    "c_transliterator c' = c_transliterator c" "safe_pending (tbl c) (c_pending c')"
    "l \<longrightarrow> input_measure rank bound c' r < input_measure rank bound c inp"
    using AddInputInternal_step [OF Suc.prems(1), of inp] Suc.prems(2) by blast
  have ok: "step_ok rank bound c'"
    using Suc.prems(1) s(2,4) tbl_eq [OF s(2)] by (simp add: step_ok_def)
  show ?case
  proof (cases l)
    case True
    have "\<exists>r2 c2. AddInput fuel c' r = Ret (r2, c2) \<and> c_table c2 = c_table c' \<and>
        c_transliterator c2 = c_transliterator c' \<and> step_ok rank bound c2"
      using Suc.IH [OF ok Suc.prems(2)] s(5) True Suc.prems(3) by auto
    then show ?thesis using s True by auto
  next
    case False
    then show ?thesis using s ok by auto
  qed
qed simp

text \<open>
  \<open>C30\<close>: Adding input to a chunk returns: it neither loops forever nor throws, if every rule with a
  pending string lowers a rank (bounded by \<open>bound\<close>) of its key and no pending string is cut short by
  a rule for one of its proper prefixes. The rest of the input and the typed keys that the chunk
  keeps are a subsequence of what was typed, in order: no key is invented, repeated or moved.
\<close>

theorem AddInput_total:
  assumes "table_ok (tbl c)" and "ranked rank bound (tbl c)" and "safe_table (tbl c)"
    and "safe_pending (tbl c) (c_pending c)" and "0 < bound"
    and "length inp * bound + rank (c_pending c) < fuel"
  shows "\<exists>r c'. AddInput fuel c inp = Ret (r, c') \<and> subseq (c_raw c' @ r) (c_raw c @ inp) \<and>
    c_table c' = c_table c \<and> c_transliterator c' = c_transliterator c"
  using AddInput_returns [of rank bound c inp fuel] AddInput_subseq [of fuel c inp] assms
  by (auto simp: step_ok_def input_measure_def)

lemma nn_ranked: "ranked length 2 nn_table"
  by (auto simp: ranked_def nn_table_def LookUp_AddEntry split: if_splits)

lemma nn_safe: "safe_table nn_table"
  by (auto simp: safe_table_def safe_pending_def nn_table_def LookUp_AddEntry Table_LookUp_def split: if_splits)

theorem AddInput_total_witness:
  "\<exists>r c'. AddInput 9 (NewChunk T_HIRAGANA (TablePtr 1 nn_table)) [0x6B, 0x6B, 0x61] = Ret (r, c') \<and>
     subseq (c_raw c' @ r) [0x6B, 0x6B, 0x61]"
  using AddInput_total [of "NewChunk T_HIRAGANA (TablePtr 1 nn_table)" length 2 "[0x6B, 0x6B, 0x61]" 9]
    table_ok_nn nn_ranked nn_safe
  by auto

text \<open>The chunk and the table never absorb keys, and the raw string has no special keys.\<close>

definition keeps_keys :: "CharChunk \<Rightarrow> bool" where
  "keeps_keys c \<longleftrightarrow> plain_input (c_raw c) \<and> \<not> has_attribute (c_attributes c) NO_TRANSLITERATION \<and>
     \<not> has_attribute (c_dar_attributes c) NO_TRANSLITERATION"

lemma plain_input_append [simp]: "plain_input (a @ b) \<longleftrightarrow> plain_input a \<and> plain_input b"
  by (auto simp: plain_input_def)

lemma plain_input_take: "plain_input s \<Longrightarrow> plain_input (take n s)"
  by (auto simp: plain_input_def list_all_iff dest: in_set_takeD)

lemma no_attr_0 [simp]: "\<not> has_attribute NO_TABLE_ATTRIBUTE x"
  by (simp add: has_attribute_def NO_TABLE_ATTRIBUTE_def)

lemma add_input_no_entry_attrs:
  assumes "add_input_no_entry c inp n = (l, r, c')" "keeps_keys c"
  shows "\<not> has_attribute (c_attributes c') NO_TRANSLITERATION \<and>
    \<not> has_attribute (c_dar_attributes c') NO_TRANSLITERATION"
  using assms
  by (auto simp: add_input_no_entry_def keeps_keys_def RestoreDisplayAmbiguousResultFallback_def Let_def
      split: if_splits prod.splits)

lemma keep_ambiguous_dar:
  "c_dar_attributes (keep_ambiguous c e key) \<in> {NO_TABLE_ATTRIBUTE, c_attributes c}"
  by (simp add: keep_ambiguous_def Let_def)

lemma add_input_entry_attrs:
  assumes "add_input_entry c inp e n f = Ret (l, r, c')" "keeps_keys c"
    "\<not> has_attribute (ent_attributes e) NO_TRANSLITERATION"
  shows "\<not> has_attribute (c_attributes c') NO_TRANSLITERATION \<and>
    \<not> has_attribute (c_dar_attributes c') NO_TRANSLITERATION \<and> c_raw c' @ r = c_raw c @ inp"
proof -
  let ?c1 = "if is_first_entry c then c\<lparr>c_attributes := ent_attributes e\<rparr> else c"
  let ?u = "n - length (c_pending c)"
  let ?c2 = "?c1\<lparr>c_raw := c_raw ?c1 @ take ?u inp\<rparr>"
  let ?key = "c_pending c @ inp"
  let ?c3 = "if f \<or> n < length ?key then resolve_entry ?c2 e else keep_ambiguous ?c2 e ?key"
  have 1: "\<not> has_attribute (c_attributes ?c1) NO_TRANSLITERATION"
    "\<not> has_attribute (c_dar_attributes ?c1) NO_TRANSLITERATION" "c_raw ?c1 = c_raw c"
    using assms(2,3) by (auto simp: keeps_keys_def)
  have 3: "\<not> has_attribute (c_attributes ?c3) NO_TRANSLITERATION"
    "\<not> has_attribute (c_dar_attributes ?c3) NO_TRANSLITERATION" "c_raw ?c3 = c_raw c @ take ?u inp"
    using 1 keep_ambiguous_dar [of ?c2 e ?key] by (auto simp: no_attr_0)
  have "c' = ?c3 \<and> r = drop ?u inp"
    using assms(1) 3(1) by (auto simp: add_input_entry_def Let_def split: if_splits)
  then show ?thesis using 3 by simp
qed

lemma AddInputInternal_keeps:
  assumes "table_ok (tbl c)" "no_absorb (tbl c)" "keeps_keys c" "plain_input inp"
    "AddInputInternal c inp = Ret (l, r, c')"
  shows "keeps_keys c' \<and> plain_input r \<and> c_raw c' @ r = c_raw c @ inp \<and> c_table c' = c_table c"
proof -
  let ?c = "c\<lparr>c_local_length_cache := None\<rparr>"
  obtain x n f where p: "Table_LookUpPrefix (tbl c) (c_pending c @ inp) = (x, n, f)"
    by (metis prod_cases3)
  have k: "keeps_keys ?c" using assms(3) by (simp add: keeps_keys_def)
  have "c_raw c' @ r = c_raw c @ inp \<and> \<not> has_attribute (c_attributes c') NO_TRANSLITERATION \<and>
    \<not> has_attribute (c_dar_attributes c') NO_TRANSLITERATION \<and> c_table c' = c_table c"
  proof (cases x)
    case None
    then have r: "add_input_no_entry ?c inp n = (l, r, c')"
      using assms(5) p by (simp add: AddInputInternal_def)
    show ?thesis
      using add_input_no_entry_attrs [OF r k] add_input_no_entry_raw [OF r] add_input_no_entry_cases [OF r]
        plain_input_trim [OF assms(4)] by (auto simp: trims_def)
  next
    case (Some e)
    then have r: "add_input_entry ?c inp e n f = Ret (l, r, c')"
      using assms(5) p by (simp add: AddInputInternal_def)
    have "\<not> has_attribute (ent_attributes e) NO_TRANSLITERATION"
      using Table_LookUpPrefix_spec [OF assms(1) p] Some assms(2)
      by (auto simp: no_absorb_def Table_LookUp_normalize)
    from add_input_entry_attrs [OF r k this] add_input_entry_cases [OF r] show ?thesis by simp
  qed
  moreover have "plain_input (c_raw c @ inp)" using assms(3,4) by (simp add: keeps_keys_def)
  ultimately show ?thesis
    unfolding keeps_keys_def by (metis plain_input_append)
qed

lemma AddInput_keeps:
  "AddInput fuel c inp = Ret (r, c') \<Longrightarrow> table_ok (tbl c) \<Longrightarrow> no_absorb (tbl c) \<Longrightarrow>
   keeps_keys c \<Longrightarrow> plain_input inp \<Longrightarrow>
   keeps_keys c' \<and> plain_input r \<and> c_raw c' @ r = c_raw c @ inp \<and> c_table c' = c_table c"
proof (induction fuel arbitrary: c inp)
  case (Suc fuel)
  obtain l r1 c1 where s: "AddInputInternal c inp = Ret (l, r1, c1)"
    "(if l then AddInput fuel c1 r1 else Ret (r1, c1)) = Ret (r, c')"
    using Suc.prems(1) by auto
  note k = AddInputInternal_keeps [OF Suc.prems(2-5) s(1)]
  have "tbl c1 = tbl c" using k by (simp add: tbl_def)
  then show ?case using Suc.IH [of c1 r1] Suc.prems k s(2) by (cases l) auto
qed simp

text \<open>
  \<open>C31\<close>: No typed key is lost or doubled: for a well-formed table without \<^verbatim>\<open>NO_TRANSLITERATION\<close> rules, an input
  without special keys and a chunk whose raw text has none and which has not this attribute (\<open>keeps_keys\<close>), if \<^verbatim>\<open>AddInput\<close>
  returns, what the chunk records as raw text followed by the rest of the input is exactly its former
  raw text followed by the input, also when the fallback for ambiguous results takes back keys that were
  already used.
\<close>

theorem AddInput_keeps_keys:
  assumes "AddInput fuel c inp = Ret (r, c')" and "table_ok (tbl c)" and "no_absorb (tbl c)"
    and "keeps_keys c" and "plain_input inp"
  shows "c_raw c' @ r = c_raw c @ inp"
  using AddInput_keeps [OF assms] by simp

lemma nn_no_absorb: "no_absorb nn_table"
  by (auto simp: no_absorb_def nn_table_def LookUp_AddEntry has_attribute_def split: if_splits)

theorem AddInput_keeps_keys_witness:
  "\<exists>r c'. AddInput 9 (NewChunk T_HIRAGANA (TablePtr 1 nn_table)) [0x6B, 0x6B, 0x61] = Ret (r, c') \<and>
     c_raw c' @ r = [0x6B, 0x6B, 0x61]"
proof -
  let ?c = "NewChunk T_HIRAGANA (TablePtr 1 nn_table)"
  have "step_ok length 2 ?c"
    by (simp add: step_ok_def nn_ranked nn_safe table_ok_nn)
  from AddInput_returns [OF this, of "[0x6B, 0x6B, 0x61]" 9] obtain r c' where
    r: "AddInput 9 ?c [0x6B, 0x6B, 0x61] = Ret (r, c')"
    by (auto simp: input_measure_def)
  have k: "keeps_keys ?c" by (simp add: keeps_keys_def plain_input_def)
  have "plain_input [0x6B, 0x6B, 0x61]"
    by (simp add: plain_input_def IsSpecialKey_def kSpecialKeyBegin_def kSpecialKeyOpen_def)
  from AddInput_keeps_keys [OF r _ _ k this] r show ?thesis
    by (simp add: table_ok_nn nn_no_absorb)
qed

subsection \<open>Rules that break the loop\<close>

text \<open>The accepted rule \<^verbatim>\<open>a\<close> with pending \<^verbatim>\<open>A\<close>.\<close>

definition capital_table :: Table where
  "capital_table =
     (case AddRule 2 NewTable (ascii ''a'') [] (ascii ''A'') of Ret (_, t) \<Rightarrow> t | _ \<Rightarrow> NewTable)"

lemma capital_rule:
  "AddRule 2 NewTable (ascii ''a'') [] (ascii ''A'') =
     Ret (Some \<lparr>ent_input = [0x61], ent_result = [], ent_pending = [0x41], ent_attributes = 0\<rparr>,
          NewTable\<lparr>entries := AddEntry EmptyTrie [0x61]
            \<lparr>ent_input = [0x61], ent_result = [], ent_pending = [0x41], ent_attributes = 0\<rparr>\<rparr>)"
proof -
  have d: "DeleteSpecialKeys [0x61] = [0x61]" by (rule ascii_no_special) simp
  have "IsLoopingEntry 2 NewTable [0x61] [0x41] = Ret False"
    by (simp add: IsLoopingEntry_def numeral_2_eq_2 looping_from_rewrite rewrite_key_def
        Table_LookUpPrefix_def EmptyTrie_def prefix_here_def LowerString_map)
  then show ?thesis
    by (simp add: AddRule_def AddRuleWithAttributes_def has_attribute_def NO_TABLE_ATTRIBUTE_def
        add_rule_body_def ascii_def Register_plain Let_def kMaxSize_def char_size_def d has_capital_def)
qed

lemma capital_table_eq:
  "capital_table = NewTable\<lparr>entries := AddEntry EmptyTrie [0x61]
     \<lparr>ent_input = [0x61], ent_result = [], ent_pending = [0x41], ent_attributes = 0\<rparr>\<rparr>"
  by (simp only: capital_table_def capital_rule outcome.case prod.case)

lemma capital_step:
  assumes "p \<in> {[], [0x41]}" "tbl c = capital_table" "c_pending c = p"
    "inp = (if p = [] then [0x61, 0x62] else [0x62])"
  shows "\<exists>c'. AddInputInternal c inp = Ret (True, [0x62], c') \<and> c_pending c' = [0x41] \<and> tbl c' = capital_table"
proof -
  have "Table_LookUpPrefix (tbl c) (c_pending c @ inp) =
      (Some \<lparr>ent_input = [0x61], ent_result = [], ent_pending = [0x41], ent_attributes = 0\<rparr>, 1, True)"
    using assms by (auto simp: Table_LookUpPrefix_def capital_table_eq EmptyTrie_def FindSubTrie_def
        prefix_here_def LowerString_map lower_char_def is_upper_char_def)
  then show ?thesis using assms
    by (auto simp: AddInputInternal_def add_input_entry_def Let_def tbl_def has_attribute_def
        split: if_splits)
qed

text \<open>
  Typing \<^verbatim>\<open>ab\<close> never returns with the accepted rule \<^verbatim>\<open>a\<close> to pending \<^verbatim>\<open>A\<close>: the loop check of the
  table compares case-sensitively, but the table is searched in lower case, so the pending \<^verbatim>\<open>A\<close> is
  rewritten to itself for ever.
\<close>

theorem AddInput_diverges:
  "AddInput fuel (NewChunk T_HIRAGANA (TablePtr 1 capital_table)) (ascii ''ab'') = Timeout"
proof -
  have loop: "AddInput n c [0x62] = Timeout" if "tbl c = capital_table" "c_pending c = [0x41]" for n c
    using that
  proof (induction n arbitrary: c)
    case (Suc n)
    then show ?case using capital_step [of "[0x41]" c "[0x62]"] by auto
  qed simp
  show ?thesis
    using capital_step [of "[]" "NewChunk T_HIRAGANA (TablePtr 1 capital_table)" "[0x61, 0x62]"] loop
    by (cases fuel) (auto simp: ascii_def)
qed

lemma cycle_LookUpPrefix:
  "Table_LookUpPrefix cycle_table [0x61, 0x62] =
     (Some \<lparr>ent_input = [0x61, 0x62], ent_result = [], ent_pending = [0x63, 0x61, 0x62], ent_attributes = 0\<rparr>, 2, True)"
  "Table_LookUpPrefix cycle_table [0x63, 0x61, 0x62, 0x64] =
     (Some \<lparr>ent_input = [0x63], ent_result = [0x78], ent_pending = [], ent_attributes = 0\<rparr>, 1, True)"
  by (simp_all add: cycle_table_eq Table_LookUpPrefix_def EmptyTrie_def FindSubTrie_def prefix_here_def
      LowerString_map lower_char_def is_upper_char_def)

text \<open>
  With the two accepted rules \<^verbatim>\<open>ab\<close> to pending \<^verbatim>\<open>cab\<close> and \<^verbatim>\<open>c\<close> to \<^verbatim>\<open>x\<close>, typing \<^verbatim>\<open>ab\<close> works, but the
  next key throws \<^verbatim>\<open>std::out_of_range\<close>: the rule \<^verbatim>\<open>c\<close> matches fewer characters than are pending, the
  unsigned difference \<^verbatim>\<open>used_key_length - pending_.size()\<close> wraps, and \<^verbatim>\<open>substr\<close> is out of range.
\<close>

theorem AddInput_throws:
  "\<exists>c. AddInput 1 (NewChunk T_HIRAGANA (TablePtr 1 cycle_table)) (ascii ''ab'') = Ret ([], c) \<and>
     c_pending c = ascii ''cab'' \<and>
     AddInput (Suc fuel) c (ascii ''d'') = Throw Out_of_range"
proof -
  let ?c = "NewChunk T_HIRAGANA (TablePtr 1 cycle_table)"
  have "\<exists>c. AddInputInternal ?c [0x61, 0x62] = Ret (False, [], c) \<and>
      c_pending c = [0x63, 0x61, 0x62] \<and> tbl c = cycle_table"
    using cycle_LookUpPrefix(1)
    by (simp add: AddInputInternal_def add_input_entry_def Let_def has_attribute_def
        is_first_entry_def) (simp add: tbl_def)
  then obtain c where c: "AddInputInternal ?c [0x61, 0x62] = Ret (False, [], c)"
    "c_pending c = [0x63, 0x61, 0x62]" "tbl c = cycle_table" by blast
  have "AddInput 1 ?c (ascii ''ab'') = Ret ([], c)" using c(1) by (simp add: ascii_def)
  moreover have "AddInputInternal c [0x64] = Throw Out_of_range"
    using c(2,3) cycle_LookUpPrefix(2) by (simp add: AddInputInternal_def add_input_entry_def)
  then have "AddInput (Suc fuel) c (ascii ''d'') = Throw Out_of_range" by (simp add: ascii_def)
  ultimately show ?thesis using c(2) by (intro exI [of _ c]) (simp add: ascii_def)
qed

subsection \<open>The cached length\<close>

definition cache_ok :: "env \<Rightarrow> CharChunk \<Rightarrow> bool" where
  "cache_ok E c \<longleftrightarrow>
     (case c_local_length_cache c of None \<Rightarrow> True | Some n \<Rightarrow> n = length (AppendResult E T_LOCAL c))"

lemma cache_ok_None: "c_local_length_cache c = None \<Longrightarrow> cache_ok E c"
  by (simp add: cache_ok_def)

lemma AppendResult_cache [simp]: "AppendResult E t12r (c\<lparr>c_local_length_cache := x\<rparr>) = AppendResult E t12r c"
  by (simp add: AppendResult_def Transliterate_def Chunk_GetTransliterator_def GetDisplayConverted_def)

lemma GetLength_correct:
  assumes "cache_ok E c"
  shows "fst (GetLength E t12r c) = length (AppendResult E t12r c) \<and>
    cache_ok E (snd (GetLength E t12r c)) \<and>
    (snd (GetLength E t12r c))\<lparr>c_local_length_cache := None\<rparr> = c\<lparr>c_local_length_cache := None\<rparr>"
  using assms
  by (auto simp: GetLength_def AppendResult_def [symmetric] cache_ok_def Let_def split: option.splits)

lemma add_input_no_entry_cache:
  "add_input_no_entry c inp n = (l, r, c') \<Longrightarrow> c_local_length_cache c = None \<Longrightarrow> c_local_length_cache c' = None"
  by (auto simp: add_input_no_entry_def RestoreDisplayAmbiguousResultFallback_def Let_def
      split: if_splits prod.splits)

lemma add_input_entry_cache:
  "add_input_entry c inp e n f = Ret (l, r, c') \<Longrightarrow> c_local_length_cache c = None \<Longrightarrow>
   c_local_length_cache c' = None"
  by (auto simp: add_input_entry_def Let_def split: if_splits)

lemma AddInputInternal_cache:
  "AddInputInternal c inp = Ret (l, r, c') \<Longrightarrow> c_local_length_cache c' = None"
  by (auto simp: AddInputInternal_def Let_def split: prod.splits option.splits
      dest: add_input_no_entry_cache add_input_entry_cache)

lemma AddInput_cache: "AddInput fuel c inp = Ret (r, c') \<Longrightarrow> c_local_length_cache c' = None"
proof (induction fuel arbitrary: c inp)
  case (Suc fuel)
  then show ?case by (auto split: if_splits dest: AddInputInternal_cache)
qed simp

lemma AddInputAndConvertedChar_cache:
  "AddInputAndConvertedChar c i = (c', i') \<Longrightarrow> c_local_length_cache c' = None"
  by (auto simp: AddInputAndConvertedChar_def Let_def split: if_splits option.splits prod.splits)

lemma AddCompositionInput_cache:
  "AddCompositionInput fuel c i = Ret (c', i') \<Longrightarrow> c_local_length_cache c' = None"
  by (auto simp: AddCompositionInput_def Let_def split: if_splits
      dest: AddInput_cache AddInputAndConvertedChar_cache)

lemma SplitChunk_cache:
  "SplitChunk E t12r pos c = (Some (l, r), c') \<Longrightarrow>
     c_local_length_cache l = None \<and> c_local_length_cache r = None \<and> c' = r"
  "SplitChunk E t12r pos c = (None, c') \<Longrightarrow> c' = snd (GetLength E t12r c)"
  by (auto simp: SplitChunk_def Let_def set_raw_def set_pending_def set_conversion_def
      split: if_splits prod.splits)

lemma cache_ok_AddCompositionInput: "AddCompositionInput fuel c i = Ret (c', i') \<Longrightarrow> cache_ok E c'"
  by (rule cache_ok_None [OF AddCompositionInput_cache])

lemma cache_ok_Combine: "cache_ok E (Combine l c)"
  by (rule cache_ok_None) (simp add: Combine_def)

lemma cache_ok_SetTransliterator: "cache_ok E c \<Longrightarrow> cache_ok E (SetTransliterator t12r c)"
  by (simp add: SetTransliterator_def cache_ok_def)

lemma cache_ok_SplitChunk:
  "cache_ok E c \<Longrightarrow> SplitChunk E t12r pos c = (Some (l, r), c') \<Longrightarrow> cache_ok E l \<and> cache_ok E r"
  using SplitChunk_cache(1) [of E t12r pos c l r c'] by (simp add: cache_ok_None)

definition id_env :: env where
  "id_env = \<lparr>HiraganaToKatakana = (\<lambda>s. s), KatakanaToHiragana = (\<lambda>s. s),
     HalfWidthAsciiToFullWidthAscii = (\<lambda>s. s), FullWidthAsciiToHalfWidthAscii = (\<lambda>s. s),
     HalfWidthKatakanaToFullWidthKatakana = (\<lambda>s. s), FullWidthKatakanaToHalfWidthKatakana = (\<lambda>s. s),
     ConvertPreeditString = (\<lambda>s. s)\<rparr>"

text \<open>
  The states of a chunk that its operations reach. A chunk that \<^verbatim>\<open>Combine\<close> absorbs and the two halves
  of a split are chunks again; an exception ends the sequence.
\<close>

inductive reachable_chunk :: "env \<Rightarrow> CharChunk \<Rightarrow> bool" for E :: env where
  Chunk_new: "reachable_chunk E (NewChunk t12r p)"
| Chunk_clear: "reachable_chunk E c \<Longrightarrow> reachable_chunk E (Chunk_Clear c)"
| Chunk_length: "reachable_chunk E c \<Longrightarrow> reachable_chunk E (snd (GetLength E t12r c))"
| Chunk_combine: "reachable_chunk E l \<Longrightarrow> reachable_chunk E c \<Longrightarrow> reachable_chunk E (Combine l c)"
| Chunk_left: "reachable_chunk E c \<Longrightarrow> SplitChunk E t12r position c = (Some (l, r), c') \<Longrightarrow> reachable_chunk E l"
| Chunk_split: "reachable_chunk E c \<Longrightarrow> SplitChunk E t12r position c = (x, c') \<Longrightarrow> reachable_chunk E c'"
| Chunk_internal: "reachable_chunk E c \<Longrightarrow> AddInputInternal c inp = Ret (loop, rest, c') \<Longrightarrow> reachable_chunk E c'"
| Chunk_input: "reachable_chunk E c \<Longrightarrow> AddInput fuel c inp = Ret (rest, c') \<Longrightarrow> reachable_chunk E c'"
| Chunk_composition: "reachable_chunk E c \<Longrightarrow> AddCompositionInput fuel c i = Ret (c', i') \<Longrightarrow> reachable_chunk E c'"
| Chunk_transliterator: "reachable_chunk E c \<Longrightarrow> reachable_chunk E (SetTransliterator t12r c)"
| Chunk_attributes: "reachable_chunk E c \<Longrightarrow> reachable_chunk E (set_attributes a c)"
| Chunk_raw: "reachable_chunk E c \<Longrightarrow> reachable_chunk E (set_raw s c)"
| Chunk_conversion: "reachable_chunk E c \<Longrightarrow> reachable_chunk E (set_conversion s c)"
| Chunk_pending: "reachable_chunk E c \<Longrightarrow> reachable_chunk E (set_pending s c)"
| Chunk_ambiguous: "reachable_chunk E c \<Longrightarrow> reachable_chunk E (set_ambiguous s c)"

lemma reachable_chunk_cache: "reachable_chunk E c \<Longrightarrow> cache_ok E c"
proof (induction rule: reachable_chunk.induct)
  case (Chunk_length c t12r)
  then show ?case by (simp add: GetLength_correct)
next
  case (Chunk_split c t12r position x c')
  show ?case
  proof (cases x)
    case None
    then show ?thesis using Chunk_split SplitChunk_cache(2) [of E t12r position c c'] GetLength_correct [of E c t12r]
      by blast
  next
    case (Some p)
    then show ?thesis using Chunk_split SplitChunk_cache(1) [of E t12r position c "fst p" "snd p" c']
      by (simp add: cache_ok_None)
  qed
next
  case (Chunk_left c t12r position l r c')
  show ?case using cache_ok_SplitChunk [OF Chunk_left(3,2)] by (rule conjunct1)
next
  case (Chunk_internal c inp loop rest c')
  show ?case by (rule cache_ok_None [OF AddInputInternal_cache [OF Chunk_internal(2)]])
next
  case (Chunk_input c fuel inp rest c')
  show ?case by (rule cache_ok_None [OF AddInput_cache [OF Chunk_input(2)]])
next
  case (Chunk_composition c fuel i c' i')
  show ?case by (rule cache_ok_AddCompositionInput [OF Chunk_composition(2)])
next
  case (Chunk_transliterator c t12r)
  show ?case by (rule cache_ok_SetTransliterator [OF Chunk_transliterator(2)])
qed (simp_all add: cache_ok_None cache_ok_Combine NewChunk_def Chunk_Clear_def set_attributes_def set_raw_def
    set_conversion_def set_pending_def set_ambiguous_def)

text \<open>
  \<open>C32\<close>: In every state that the operations of a chunk reach, the length \<^verbatim>\<open>GetLength\<close> returns, from the
  cache or not, is the length of the string that \<^verbatim>\<open>AppendResult\<close> appends. The operations are all of the
  class: construction, \<^verbatim>\<open>Clear\<close>, \<^verbatim>\<open>GetLength\<close> itself, \<^verbatim>\<open>Combine\<close>, both halves of \<^verbatim>\<open>SplitChunk\<close>,
  \<^verbatim>\<open>AddInputInternal\<close>, \<^verbatim>\<open>AddInput\<close> and \<^verbatim>\<open>AddCompositionInput\<close> where they return, \<^verbatim>\<open>SetTransliterator\<close>
  and the five setters.
\<close>

theorem length_cache_coherent:
  assumes "reachable_chunk E c"
  shows "fst (GetLength E t12r c) = length (AppendResult E t12r c)"
  using GetLength_correct [OF reachable_chunk_cache [OF assms]] by blast

definition filled_chunk :: CharChunk where
  "filled_chunk = snd (GetLength id_env T_LOCAL (set_conversion [0x61] (NewChunk T_HIRAGANA (TablePtr 1 NewTable))))"

theorem length_cache_coherent_witness:
  "c_local_length_cache filled_chunk = Some 1 \<and> fst (GetLength id_env T_LOCAL (set_pending [0x62] filled_chunk)) = 2"
proof -
  have d: "DeleteSpecialKeys [0x61] = [0x61]" "DeleteSpecialKeys [0x61, 0x62] = [0x61, 0x62]"
    by (rule DeleteSpecialKeys_fixed; simp add: no_block_def kSpecialKeyOpen_def IsSpecialKey_def
        kSpecialKeyBegin_def kSpecialKeyEnd_def)+
  let ?c = "set_pending [0x62] filled_chunk"
  have f: "filled_chunk = (set_conversion [0x61] (NewChunk T_HIRAGANA (TablePtr 1 NewTable)))
      \<lparr>c_local_length_cache := Some 1\<rparr>"
    by (simp add: filled_chunk_def GetLength_def Transliterate_def Chunk_GetTransliterator_def GetDisplayConverted_def
        set_conversion_def NewChunk_def kHiragana_def Hiragana_Transliterate_def HalfWidthToFullWidth_def id_env_def
        has_attribute_def NO_TABLE_ATTRIBUTE_def d)
  have "reachable_chunk id_env ?c"
    unfolding filled_chunk_def by (rule Chunk_pending, rule Chunk_length, rule Chunk_conversion, rule Chunk_new)
  note L = length_cache_coherent [OF this, of T_LOCAL]
  have "AppendResult id_env T_LOCAL ?c = [0x61, 0x62]"
    by (simp add: f AppendResult_def Transliterate_def Chunk_GetTransliterator_def GetDisplayConverted_def
        set_conversion_def set_pending_def NewChunk_def kHiragana_def Hiragana_Transliterate_def HalfWidthToFullWidth_def
        id_env_def has_attribute_def NO_TABLE_ATTRIBUTE_def d)
  then show ?thesis using L by (simp add: f)
qed
subsection \<open>Splitting a chunk\<close>

definition clean :: "ustr \<Rightarrow> bool" where
  "clean s \<longleftrightarrow> no_block s \<and> list_all (\<lambda>c. \<not> IsSpecialKey c) s"

lemma clean_DeleteSpecialKeys: "clean s \<Longrightarrow> DeleteSpecialKeys s = s"
  by (simp add: clean_def DeleteSpecialKeys_fixed)

lemma no_block_iff:
  "no_block s \<longleftrightarrow> (\<forall>p q. s = p @ kSpecialKeyOpen # q \<longrightarrow> kSpecialKeyClose \<notin> set q)"
proof
  assume nb: "no_block s"
  show "\<forall>p q. s = p @ kSpecialKeyOpen # q \<longrightarrow> kSpecialKeyClose \<notin> set q"
  proof (intro allI impI)
    fix p q assume s: "s = p @ kSpecialKeyOpen # q"
    then obtain p1 q1 where f: "s = p1 @ kSpecialKeyOpen # q1" "kSpecialKeyOpen \<notin> set p1"
      by (metis in_set_conv_decomp_first in_set_conv_decomp)
    then have c: "kSpecialKeyClose \<notin> set q1"
      using nb by (simp add: no_block_append) (simp add: no_block_def)
    have "length p1 \<le> length p"
    proof (rule ccontr)
      assume "\<not> length p1 \<le> length p"
      then have "p1 ! length p = kSpecialKeyOpen" "length p < length p1"
        using s f(1) by (metis not_le nth_append nth_append_length)+
      then show False using f(2) nth_mem by metis
    qed
    then have "suffix (kSpecialKeyOpen # q) (kSpecialKeyOpen # q1)"
      using s f(1) by (metis append_eq_append_conv_if suffix_def suffix_drop suffix_length_suffix
          add_le_cancel_left length_append suffixI not_less order_refl add.commute nat_add_left_cancel_le le_add_diff_inverse)
    then show "kSpecialKeyClose \<notin> set q" using c
      by (auto simp: suffix_Cons) (metis list.set_intros(2) set_mono_suffix subsetD)
  qed
next
  assume a: "\<forall>p q. s = p @ kSpecialKeyOpen # q \<longrightarrow> kSpecialKeyClose \<notin> set q"
  then show "no_block s" unfolding no_block_None FindBlock_None [OF open_close_neq] by blast
qed

lemma clean_append: "clean (p @ s) \<Longrightarrow> clean p \<and> clean s"
  unfolding clean_def no_block_iff
proof (intro conjI allI impI)
  assume a: "(\<forall>pa q. p @ s = pa @ kSpecialKeyOpen # q \<longrightarrow> kSpecialKeyClose \<notin> set q) \<and>
    list_all (\<lambda>c. \<not> IsSpecialKey c) (p @ s)"
  show "kSpecialKeyClose \<notin> set q" if "p = pa @ kSpecialKeyOpen # q" for pa q
    using a that by (metis Un_iff append.assoc append_Cons set_append)
  show "kSpecialKeyClose \<notin> set q" if "s = pa @ kSpecialKeyOpen # q" for pa q
    using a that by (metis append.assoc)
qed (auto simp: list_all_iff)

lemma clean_take: "clean s \<Longrightarrow> clean (take n s)" and clean_drop: "clean s \<Longrightarrow> clean (drop n s)"
  using clean_append [of "take n s" "drop n s"] by simp_all

definition splits_converted :: "CharChunk \<Rightarrow> Transliterator \<Rightarrow> bool" where
  "splits_converted c t12r \<longleftrightarrow>
     Chunk_GetTransliterator c t12r \<in> {T_CONVERSION_STRING, T_HIRAGANA, T_FULL_KATAKANA}"

lemma byte_size_take_le: "byte_size (take n s) \<le> byte_size s"
  using byte_size_append [of "take n s" "drop n s"] by simp

lemma byte_size_take_gt:
  "byte_size (take n (a @ b)) > byte_size a \<longleftrightarrow> length a < n \<and> b \<noteq> []"
proof (cases "length a < n")
  case True
  then have "take n (a @ b) = a @ take (n - length a) b" by simp
  moreover have "take (n - length a) b = [] \<longleftrightarrow> b = []" using True by simp
  ultimately show ?thesis using True byte_size_0_iff [of "take (n - length a) b"]
    by (simp del: byte_size_0_iff) (metis neq0_conv)
next
  case False
  then have "take n (a @ b) = take n a" by simp
  then show ?thesis using byte_size_take_le [of n a] False by simp
qed

lemma SplitChunk_converted:
  assumes "splits_converted c t12r" "clean (c_conversion c @ c_pending c)"
    "SplitChunk E t12r pos c = (Some (l, r), c')"
  shows "c_conversion l @ c_pending l = take pos (c_conversion c @ c_pending c) \<and>
    c_conversion r @ c_pending r = drop pos (c_conversion c @ c_pending c)"
proof -
  let ?s = "c_conversion c @ c_pending c"
  obtain len c0 where g: "GetLength E t12r c = (len, c0)" by fastforce
  have c0: "c_conversion c0 = c_conversion c" "c_pending c0 = c_pending c" "c_attributes c0 = c_attributes c"
    "c_transliterator c0 = c_transliterator c" "c_raw c0 = c_raw c" "c_table c0 = c_table c"
    using g by (auto simp: GetLength_def Let_def split: option.splits if_splits)
  have "Chunk_GetTransliterator c0 t12r = Chunk_GetTransliterator c t12r"
    by (simp add: Chunk_GetTransliterator_def c0)
  then have split: "split_fn (GetTransliterator (Chunk_GetTransliterator c0 t12r)) E = SplitConverted"
    using assms(1) by (auto simp: splits_converted_def kConversionString_def kHiragana_def kFullKatakana_def)
  have del: "DeleteSpecialKeys ?s = ?s" by (rule clean_DeleteSpecialKeys [OF assms(2)])
  show ?thesis
  proof (cases "byte_size (take pos ?s) > byte_size (c_conversion c)")
    case True
    then have "length (c_conversion c) < pos" unfolding byte_size_take_gt by simp
    then show ?thesis
      using assms(3) True g
      by (auto simp: SplitChunk_def Let_def split c0 del set_raw_def set_pending_def set_conversion_def split: if_splits)
  next
    case False
    then have le: "pos \<le> length (c_conversion c) \<or> c_pending c = []"
      unfolding byte_size_take_gt by auto
    have "c_conversion r = drop pos (c_conversion c) \<and> c_pending r = c_pending c \<and>
        c_conversion l = take pos ?s \<and> c_pending l = []"
    proof -
      have rhs: "drop pos ?s = drop pos (c_conversion c) @ c_pending c" using le by auto
      have bt: "byte_take (byte_size (drop pos (c_conversion c))) (drop pos (c_conversion c) @ c_pending c) =
          drop pos (c_conversion c)" by simp
      show ?thesis
        using assms(3) False g bt
        by (auto simp: SplitChunk_def Let_def split c0 del rhs set_raw_def set_pending_def set_conversion_def
            simp del: take_append drop_append split: if_splits)
    qed
    then show ?thesis using le by auto
  qed
qed

lemma SplitChunk_None_iff:
  assumes "cache_ok E c"
  shows "fst (SplitChunk E t12r pos c) = None \<longleftrightarrow> pos = 0 \<or> pos \<ge> length (AppendResult E t12r c)"
  using GetLength_correct [OF assms, of t12r] by (auto simp: SplitChunk_def Let_def split: prod.split)

text \<open>
  A chunk can be split exactly at the positions inside its displayed string. If it shows its
  converted text and the text has no special keys, the text is cut at the position: nothing is lost
  or duplicated, wherever the cut falls in the determined and the pending part.
\<close>

theorem SplitChunk_correct:
  assumes "cache_ok E c" and "splits_converted c t12r" and "clean (c_conversion c @ c_pending c)"
  shows "(fst (SplitChunk E t12r pos c) = None \<longleftrightarrow> pos = 0 \<or> pos \<ge> length (AppendResult E t12r c)) \<and>
    (\<forall>l r c'. SplitChunk E t12r pos c = (Some (l, r), c') \<longrightarrow>
       c_conversion l @ c_pending l = take pos (c_conversion c @ c_pending c) \<and>
       c_conversion r @ c_pending r = drop pos (c_conversion c @ c_pending c))"
  by (rule conjI [OF SplitChunk_None_iff [OF assms(1)]])
    (intro allI impI, erule SplitChunk_converted [OF assms(2,3)])

definition kka_chunk :: CharChunk where
  "kka_chunk = (NewChunk T_CONVERSION_STRING (TablePtr 1 nn_table))
     \<lparr>c_raw := [0x6B, 0x6B], c_conversion := [0x3063], c_pending := [0x6B]\<rparr>"

theorem SplitChunk_correct_witness:
  "\<exists>l r c'. SplitChunk id_env T_LOCAL 1 kka_chunk = (Some (l, r), c') \<and>
     c_conversion l @ c_pending l = [0x3063] \<and> c_conversion r @ c_pending r = [0x6B]"
proof -
  have ok: "cache_ok id_env kka_chunk" "splits_converted kka_chunk T_LOCAL"
    by (simp_all add: cache_ok_def kka_chunk_def splits_converted_def Chunk_GetTransliterator_def)
  have cl: "clean (c_conversion kka_chunk @ c_pending kka_chunk)"
    by (simp add: kka_chunk_def clean_def no_block_def kSpecialKeyOpen_def IsSpecialKey_def
        kSpecialKeyBegin_def kSpecialKeyEnd_def)
  have len: "length (AppendResult id_env T_LOCAL kka_chunk) = 2"
    using clean_DeleteSpecialKeys [OF cl]
    by (simp add: AppendResult_def Transliterate_def GetDisplayConverted_def Chunk_GetTransliterator_def
        kka_chunk_def kConversionString_def)
  note s = SplitChunk_correct [OF ok cl, of 1]
  then obtain l r c' where "SplitChunk id_env T_LOCAL 1 kka_chunk = (Some (l, r), c')"
    using len by (cases "SplitChunk id_env T_LOCAL 1 kka_chunk") auto
  then show ?thesis using s by (auto simp: kka_chunk_def)
qed

subsection \<open>Splitting an ambiguous result\<close>

definition ambiguous_table :: Table where
  "ambiguous_table = NewTable\<lparr>entries :=
     AddEntry (AddEntry EmptyTrie
       [0x71] \<lparr>ent_input = [0x71], ent_result = [0x3042, 0x3044], ent_pending = [],
               ent_attributes = DISPLAY_AMBIGUOUS_RESULT\<rparr>)
       [0x71, 0x61] \<lparr>ent_input = [0x71, 0x61], ent_result = [0x304F], ent_pending = [], ent_attributes = 0\<rparr>\<rparr>"

definition ambiguous_chunk :: CharChunk where
  "ambiguous_chunk =
     (case AddInput 1 (NewChunk T_CONVERSION_STRING (TablePtr 1 ambiguous_table)) [0x71] of
        Ret (_, c) \<Rightarrow> c | _ \<Rightarrow> NewChunk T_CONVERSION_STRING (TablePtr 1 ambiguous_table))"

lemma ambiguous_chunk_eq:
  "ambiguous_chunk = (NewChunk T_CONVERSION_STRING (TablePtr 1 ambiguous_table))
     \<lparr>c_raw := [0x71], c_pending := [0x71], c_ambiguous := [0x3042, 0x3044],
      c_display_ambiguous_as_result := True, c_dar_raw := [0x71], c_dar_ambiguous := [0x3042, 0x3044],
      c_dar_attributes := DISPLAY_AMBIGUOUS_RESULT, c_attributes := DISPLAY_AMBIGUOUS_RESULT\<rparr>"
proof -
  have p: "Table_LookUpPrefix ambiguous_table [0x71] =
      (Some \<lparr>ent_input = [0x71], ent_result = [0x3042, 0x3044], ent_pending = [],
             ent_attributes = DISPLAY_AMBIGUOUS_RESULT\<rparr>, 1, False)"
    by (simp add: ambiguous_table_def Table_LookUpPrefix_def EmptyTrie_def FindSubTrie_def
        prefix_here_def LowerString_map lower_char_def is_upper_char_def Let_def)
  show ?thesis
    by (simp add: ambiguous_chunk_def AddInputInternal_def p add_input_entry_def is_first_entry_def
        keep_ambiguous_def SaveDisplayAmbiguousResultFallback_def has_attribute_def
        DISPLAY_AMBIGUOUS_RESULT_def Let_def)
      (simp add: NewChunk_def)
qed

text \<open>
  Splitting a chunk that shows an ambiguous result cuts its pending keys instead of the text on
  display: after the rule \<^verbatim>\<open>q\<close> with a two-character ambiguous result is typed, the chunk shows two
  characters, but the two halves of the split show \<^verbatim>\<open>q\<close> and nothing.
\<close>

theorem SplitChunk_loses_ambiguous:
  "AppendResult E T_LOCAL ambiguous_chunk = [0x3042, 0x3044] \<and>
   (\<exists>l r. SplitChunk E T_LOCAL 1 ambiguous_chunk = (Some (l, r), r) \<and>
      AppendResult E T_LOCAL l = [0x71] \<and> AppendResult E T_LOCAL r = [])"
proof -
  have d: "DeleteSpecialKeys [0x71] = [0x71]" "DeleteSpecialKeys [] = []" "DeleteSpecialKeys [0x3042, 0x3044] = [0x3042, 0x3044]"
    by (rule clean_DeleteSpecialKeys,
        simp add: clean_def no_block_def kSpecialKeyOpen_def IsSpecialKey_def kSpecialKeyBegin_def kSpecialKeyEnd_def)+
  have a: "\<not> has_attribute DISPLAY_AMBIGUOUS_RESULT NO_TRANSLITERATION"
    by (simp add: has_attribute_def DISPLAY_AMBIGUOUS_RESULT_def NO_TRANSLITERATION_def)
  have t: "Chunk_GetTransliterator ambiguous_chunk T_LOCAL = T_CONVERSION_STRING"
    by (simp add: ambiguous_chunk_eq Chunk_GetTransliterator_def a)
  have s: "AppendResult E T_LOCAL ambiguous_chunk = [0x3042, 0x3044]"
    by (simp add: AppendResult_def Transliterate_def t kConversionString_def)
      (simp add: ambiguous_chunk_eq GetDisplayConverted_def d)
  have "cache_ok E ambiguous_chunk" by (simp add: cache_ok_def ambiguous_chunk_eq)
  then have len: "fst (GetLength E T_LOCAL ambiguous_chunk) = 2" using GetLength_correct s by simp
  have g: "GetLength E T_LOCAL ambiguous_chunk = (2, ambiguous_chunk\<lparr>c_local_length_cache := Some 2\<rparr>)"
    using len by (simp add: GetLength_def ambiguous_chunk_eq Let_def)
  let ?l = "set_pending [0x71] (set_conversion [] (set_raw (raw_lhs (SplitConverted 1 [0x71] [0x71]))
    (NewChunk T_CONVERSION_STRING (TablePtr 1 ambiguous_table))))"
  let ?r = "(set_raw [] (ambiguous_chunk\<lparr>c_local_length_cache := None\<rparr>))
    \<lparr>c_conversion := [], c_pending := [], c_ambiguous := []\<rparr>"
  have f: "c_raw ambiguous_chunk = [0x71]" "c_conversion ambiguous_chunk = []" "c_pending ambiguous_chunk = [0x71]"
    "c_table ambiguous_chunk = TablePtr 1 ambiguous_table"
    "c_transliterator ambiguous_chunk = T_CONVERSION_STRING"
    "c_attributes ambiguous_chunk = DISPLAY_AMBIGUOUS_RESULT"
    by (simp_all add: ambiguous_chunk_eq)
  have "SplitChunk E T_LOCAL 1 ambiguous_chunk = (Some (?l, ?r), ?r)"
    unfolding SplitChunk_def g prod.case
    by (simp add: Chunk_GetTransliterator_def f a kConversionString_def d set_raw_def char_size_def Let_def)
  then obtain l r where lr: "SplitChunk E T_LOCAL 1 ambiguous_chunk = (Some (l, r), r)"
    "c_conversion l = []" "c_pending l = [0x71]" "c_conversion r = []" "c_pending r = []"
    "c_ambiguous l = []" "c_ambiguous r = []"
    "c_attributes l = 0" "c_transliterator l = T_CONVERSION_STRING"
    "c_attributes r = DISPLAY_AMBIGUOUS_RESULT" "c_transliterator r = T_CONVERSION_STRING"
    using f by (simp add: set_raw_def set_pending_def set_conversion_def NO_TABLE_ATTRIBUTE_def)
  have "Chunk_GetTransliterator l T_LOCAL = T_CONVERSION_STRING" "Chunk_GetTransliterator r T_LOCAL = T_CONVERSION_STRING"
    by (simp_all add: Chunk_GetTransliterator_def lr a has_attribute_0)
  then have "AppendResult E T_LOCAL l = [0x71]" "AppendResult E T_LOCAL r = []"
    by (simp_all add: AppendResult_def Transliterate_def kConversionString_def GetDisplayConverted_def lr d)
  then show ?thesis using s lr(1) by blast
qed

subsection \<open>Look-ahead\<close>

text \<open>
  If a chunk is convertible with an input, adding the input uses all of it in one step, with the
  rule for the whole of the pending string and the input: its result is appended and its pending
  string becomes the pending one.
\<close>

theorem IsConvertible_correct:
  assumes "table_ok (tbl c)" and "c_table c = p" and "IsConvertible c t12r p inp"
  shows "\<exists>e c'. Table_LookUp (tbl c) (c_pending c @ inp) = Some e \<and>
    AddInputInternal c inp = Ret (False, [], c') \<and>
    c_conversion c' = c_conversion c @ ent_result e \<and> c_pending c' = ent_pending e \<and> c_ambiguous c' = []"
proof -
  obtain x n f where l: "Table_LookUpPrefix (tbl c) (c_pending c @ inp) = (x, n, f)" by (metis prod_cases3)
  have "x \<noteq> None \<and> n = length (c_pending c @ inp) \<and> f"
    using assms(2,3) l by (auto simp: IsConvertible_def Let_def tbl_def split: if_splits)
  then obtain e where e: "x = Some e" "n = length (c_pending c @ inp)" f by auto
  have amb: "c_ambiguous (resolve_entry y e) = []" for y
    by (simp add: resolve_entry_def)
  have "Table_LookUp (tbl c) (c_pending c @ inp) = Some e"
    using Table_LookUpPrefix_spec [OF assms(1) l] e by simp
  moreover have "\<exists>c'. AddInputInternal c inp = Ret (False, [], c') \<and>
      c_conversion c' = c_conversion c @ ent_result e \<and> c_pending c' = ent_pending e \<and> c_ambiguous c' = []"
    by (simp add: AddInputInternal_def l e add_input_entry_def Let_def amb)
  ultimately show ?thesis by blast
qed

definition k_chunk :: CharChunk where
  "k_chunk = (NewChunk T_HIRAGANA (TablePtr 1 nn_table))\<lparr>c_raw := [0x6B], c_pending := [0x6B]\<rparr>"

lemma k_chunk_convertible: "IsConvertible k_chunk T_LOCAL (TablePtr 1 nn_table) [0x6B]"
  by (simp add: IsConvertible_def IsAppendable_def k_chunk_def Table_LookUpPrefix_def nn_table_def
      EmptyTrie_def FindSubTrie_def prefix_here_def LowerString_map lower_char_def is_upper_char_def)

lemma k_chunk_table: "tbl k_chunk = nn_table" "c_table k_chunk = TablePtr 1 nn_table"
  "c_pending k_chunk = [0x6B]"
  by (simp_all add: k_chunk_def tbl_def)

theorem IsConvertible_correct_witness:
  "\<exists>e c'. Table_LookUp nn_table [0x6B, 0x6B] = Some e \<and> AddInputInternal k_chunk [0x6B] = Ret (False, [], c')"
proof -
  have "table_ok (tbl k_chunk)" by (simp add: k_chunk_table table_ok_nn)
  from IsConvertible_correct [OF this k_chunk_table(2) k_chunk_convertible] show ?thesis
    by (auto simp: k_chunk_table)
qed

text \<open>
  A convertible chunk need not be fixed afterwards, although the header says that its pending
  string is then empty: with the rule \<^verbatim>\<open>kk\<close> to pending \<^verbatim>\<open>k\<close>, a chunk with pending \<^verbatim>\<open>k\<close> is convertible
  with \<^verbatim>\<open>k\<close> and has pending \<^verbatim>\<open>k\<close> again after it.
\<close>

theorem IsConvertible_not_fixed:
  "IsConvertible k_chunk T_LOCAL (TablePtr 1 nn_table) [0x6B] \<and>
   (\<exists>c'. AddInputInternal k_chunk [0x6B] = Ret (False, [], c') \<and> \<not> IsFixed c')"
proof -
  have p: "Table_LookUpPrefix nn_table [0x6B, 0x6B] =
    (Some \<lparr>ent_input = [0x6B, 0x6B], ent_result = [0x3063], ent_pending = [0x6B], ent_attributes = 0\<rparr>, 2, True)"
    by (simp add: Table_LookUpPrefix_def nn_table_def
        EmptyTrie_def FindSubTrie_def prefix_here_def LowerString_map lower_char_def is_upper_char_def)
  show ?thesis
    using k_chunk_convertible
    by (simp add: AddInputInternal_def k_chunk_table p add_input_entry_def Let_def IsFixed_def)
qed

subsection \<open>Expansion\<close>

text \<open>A set of pending strings that is closed under the rules, from a set of strings on.\<close>

definition closed_from :: "Table \<Rightarrow> ustr set \<Rightarrow> ustr set \<Rightarrow> bool" where
  "closed_from t before after \<longleftrightarrow> before \<subseteq> after \<and>
     (\<forall>k \<in> after - before. \<forall>e \<in> set (Table_LookUpPredictiveAll t k).
        ent_result e = [] \<and> ent_pending e \<in> after)"

lemma closed_from_trans: "closed_from t a b \<Longrightarrow> closed_from t b c \<Longrightarrow> closed_from t a c"
  unfolding closed_from_def by blast

lemma GetFromPending_closed:
  "GetFromPending t key n result = (True, r) \<Longrightarrow> closed_from t result r \<and> key \<in> r"
  "pending_entries t es n result = (True, r) \<Longrightarrow>
     closed_from t result r \<and> (\<forall>e \<in> set es. ent_result e = [] \<and> ent_pending e \<in> r)"
proof (induction t key n result and t es n result arbitrary: r and r
    rule: GetFromPending_pending_entries.induct)
  case (2 t key n result)
  show ?case
  proof (cases "key \<in> result")
    case True
    then show ?thesis using 2(2) by (simp add: closed_from_def)
  next
    case False
    then have "closed_from t (insert key result) r \<and>
        (\<forall>e \<in> set (Table_LookUpPredictiveAll t key). ent_result e = [] \<and> ent_pending e \<in> r)"
      using 2 by simp
    then have i: "insert key result \<subseteq> r"
      and rest: "\<And>k e. k \<in> r - insert key result \<Longrightarrow> e \<in> set (Table_LookUpPredictiveAll t k) \<Longrightarrow>
        ent_result e = [] \<and> ent_pending e \<in> r"
      and here: "\<And>e. e \<in> set (Table_LookUpPredictiveAll t key) \<Longrightarrow> ent_result e = [] \<and> ent_pending e \<in> r"
      by (simp_all add: closed_from_def)
    have "ent_result e = [] \<and> ent_pending e \<in> r"
      if "k \<in> r - result" "e \<in> set (Table_LookUpPredictiveAll t k)" for k e
      using that rest [of k e] here [of e] by (cases "k = key") simp_all
    then show ?thesis using i by (simp add: closed_from_def)
  qed
next
  case (4 t entry rest n result)
  note IH = 4
  have e: "ent_result entry = []" using IH(3) by (cases "ent_result entry = []") simp_all
  obtain ok r1 where g: "GetFromPending t (ent_pending entry) n result = (ok, r1)" by fastforce
  have r1: "ok" "pending_entries t rest n r1 = (True, r)"
    using IH(3) e g by (cases ok; simp)+
  have 1: "closed_from t result r1" "ent_pending entry \<in> r1"
    using IH(1) [of r1] e g r1(1) by simp_all
  have 2: "closed_from t r1 r" "\<forall>e \<in> set rest. ent_result e = [] \<and> ent_pending e \<in> r"
    using IH(2) [of True r1 r] e g r1 by simp_all
  have "ent_pending entry \<in> r" using 1(2) 2(1) by (auto simp: closed_from_def)
  then show ?case using e closed_from_trans [OF 1(1) 2(1)] 2(2) by simp
qed (simp_all add: closed_from_def)

text \<open>
  When the expansion of a pending string succeeds, the collected strings contain it and are
  closed: every rule that could extend one of them has no result of its own and its pending string
  is collected too, so the set is a complete loop of pending strings.
\<close>

theorem GetFromPending_loop:
  assumes "GetFromPending t key kMaxRecursion {} = (True, r)"
  shows "key \<in> r \<and> (\<forall>k \<in> r. \<forall>e \<in> set (Table_LookUpPredictiveAll t k). ent_result e = [] \<and> ent_pending e \<in> r)"
  using GetFromPending_closed(1) [OF assms] by (simp add: closed_from_def)

theorem GetFromPending_loop_witness:
  "[0x61] \<in> {[0x61 :: nat]} \<and>
   (\<forall>k \<in> {[0x61]}. \<forall>e \<in> set (Table_LookUpPredictiveAll NewTable k). ent_result e = [] \<and> ent_pending e \<in> {[0x61]})"
proof (rule GetFromPending_loop)
  show "GetFromPending NewTable [0x61] kMaxRecursion {} = (True, {[0x61]})"
    by (simp add: kMaxRecursion_def numeral_eq_Suc Table_LookUpPredictiveAll_def EmptyTrie_def LowerString_map)
qed

end
