(* ===== verification/Composition.thy ===== *)
theory Composition
  imports CharChunk
begin

section \<open>Compositions\<close>

text \<open>
  \<^verbatim>\<open>composer/composition.h\<close> and \<^verbatim>\<open>composer/composition.cc\<close>. The \<^verbatim>\<open>std::list\<close> of chunks is a list, an
  iterator is an index into it (the length of the list is \<^verbatim>\<open>end()\<close>); insertion and erasure move the
  index where the C++ iterator keeps pointing to its element. The lengths are asked of chunks whose
  mutable length cache is left as it is: by \<open>length_cache_coherent\<close> that makes no difference.
\<close>

subsection \<open>Positions\<close>

definition chunk_length :: "env \<Rightarrow> Transliterator \<Rightarrow> CharChunk \<Rightarrow> nat" where
  "chunk_length E t12r c = fst (GetLength E t12r c)"

fun chunk_at :: "env \<Rightarrow> Transliterator \<Rightarrow> nat \<Rightarrow> CharChunk list \<Rightarrow> nat \<Rightarrow> nat \<Rightarrow> nat \<Rightarrow> nat \<times> nat" where
  "chunk_at E t12r position [] it chunk_offset len = (it - 1, len)"
| "chunk_at E t12r position (c # cs) it chunk_offset len =
     (let len' = chunk_length E t12r c in
      if chunk_offset + len' < position then chunk_at E t12r position cs (Suc it) (chunk_offset + len') len'
      else (it, position - chunk_offset))"

text \<open>The chunk at a position and the position inside it.\<close>

definition GetChunkAt :: "env \<Rightarrow> nat \<Rightarrow> Transliterator \<Rightarrow> CharChunk list \<Rightarrow> nat \<times> nat" where
  "GetChunkAt E position t12r cs = (if cs = [] then (0, 0) else chunk_at E t12r position cs 0 0 0)"

definition GetPosition :: "env \<Rightarrow> Transliterator \<Rightarrow> nat \<Rightarrow> CharChunk list \<Rightarrow> nat" where
  "GetPosition E t12r it cs = sum_list (map (chunk_length E t12r) (take it cs))"

text \<open>
  The position in another transliteration; \<open>None\<close> is a failure of the \<^verbatim>\<open>CHECK\<close> in the middle of it.
\<close>

definition ConvertPosition ::
  "env \<Rightarrow> nat \<Rightarrow> Transliterator \<Rightarrow> Transliterator \<Rightarrow> CharChunk list \<Rightarrow> nat option" where
  "ConvertPosition E position_from t_from t_to cs =
     (if t_from = t_to then Some position_from
      else
        (let (it, inner_position_from) = GetChunkAt E position_from t_from cs in
         if it = length cs then Some 0
         else
           (let chunk_length_from = chunk_length E t_from (cs ! it) in
            if \<not> inner_position_from \<le> chunk_length_from then None
            else
              (let position_to = GetPosition E t_to it cs in
               if inner_position_from = 0 then Some position_to
               else
                 (let chunk_length_to = chunk_length E t_to (cs ! it) in
                  if inner_position_from = chunk_length_from then Some (position_to + chunk_length_to)
                  else if inner_position_from > chunk_length_to then Some (position_to + chunk_length_to)
                  else Some (position_to + inner_position_from))))))"

subsection \<open>The composition\<close>

record Composition =
  comp_table :: table_ptr
  chunks :: "CharChunk list"
  input_t12r :: Transliterator

definition NewComposition :: "table_ptr \<Rightarrow> Composition" where
  "NewComposition p = \<lparr>comp_table = p, chunks = [], input_t12r = T_CONVERSION_STRING\<rparr>"

definition Erase :: "Composition \<Rightarrow> Composition" where
  "Erase C = C\<lparr>chunks := []\<rparr>"

definition Composition_GetLength :: "env \<Rightarrow> Composition \<Rightarrow> nat" where
  "Composition_GetLength E C = GetPosition E T_LOCAL (length (chunks C)) (chunks C)"

definition SetInputMode :: "Transliterator \<Rightarrow> Composition \<Rightarrow> Composition" where
  "SetInputMode t12r C = C\<lparr>input_t12r := t12r\<rparr>"

definition Composition_SetTable :: "table_ptr \<Rightarrow> Composition \<Rightarrow> Composition" where
  "Composition_SetTable p C = C\<lparr>comp_table := p\<rparr>"

text \<open>
  The loop over the chunks from \<^verbatim>\<open>chunk_it\<close> to \<^verbatim>\<open>end_it\<close>, that one included.
\<close>

fun set_transliterators :: "nat \<Rightarrow> nat \<Rightarrow> Transliterator \<Rightarrow> CharChunk list \<Rightarrow> CharChunk list" where
  "set_transliterators from to t12r [] = []"
| "set_transliterators from to t12r (c # cs) =
     (if from > 0 then c # set_transliterators (from - 1) (to - 1) t12r cs
      else if to > 0 then CharChunk.SetTransliterator t12r c # set_transliterators 0 (to - 1) t12r cs
      else CharChunk.SetTransliterator t12r c # cs)"

definition Composition_SetTransliterator ::
  "env \<Rightarrow> nat \<Rightarrow> nat \<Rightarrow> Transliterator \<Rightarrow> Composition \<Rightarrow> Composition" where
  "Composition_SetTransliterator E position_from position_to t12r C =
     (if position_from > position_to then C
      else if chunks C = [] then C
      else
        (let (chunk_it, inner_from) = GetChunkAt E position_from T_LOCAL (chunks C);
             (end_it, inner_to) = GetChunkAt E position_to T_LOCAL (chunks C)
         in C\<lparr>chunks := set_transliterators chunk_it end_it t12r (chunks C)\<rparr>))"

definition SetDisplayMode :: "env \<Rightarrow> Transliterator \<Rightarrow> Composition \<Rightarrow> nat \<times> Composition" where
  "SetDisplayMode E t12r C =
     (let C1 = Composition_SetTransliterator E 0 (Composition_GetLength E C) t12r C;
          C2 = SetInputMode t12r C1
      in (Composition_GetLength E C2, C2))"

text \<open>\<open>None\<close> is the dereference of \<^verbatim>\<open>end()\<close> in an empty composition.\<close>

definition Composition_GetTransliterator :: "env \<Rightarrow> nat \<Rightarrow> Composition \<Rightarrow> Transliterator option" where
  "Composition_GetTransliterator E position C =
     (let (it, inner) = GetChunkAt E position T_LOCAL (chunks C) in
      if it = length (chunks C) then None
      else Some (Chunk_GetTransliterator (chunks C ! it) T_LOCAL))"

subsection \<open>The strings of a composition\<close>

datatype TrimMode = TRIM | ASIS | FIX

definition append_results :: "env \<Rightarrow> Transliterator \<Rightarrow> CharChunk list \<Rightarrow> ustr" where
  "append_results E t12r cs = concat (map (AppendResult E t12r) cs)"

definition GetStringWithModes :: "env \<Rightarrow> Transliterator \<Rightarrow> TrimMode \<Rightarrow> Composition \<Rightarrow> ustr" where
  "GetStringWithModes E t12r trim_mode C =
     (if chunks C = [] then []
      else append_results E t12r (butlast (chunks C)) @
        (case trim_mode of
           TRIM \<Rightarrow> AppendTrimedResult E t12r (last (chunks C))
         | ASIS \<Rightarrow> AppendResult E t12r (last (chunks C))
         | FIX \<Rightarrow> AppendFixedResult E t12r (last (chunks C))))"

definition GetExpandedStrings :: "env \<Rightarrow> Composition \<Rightarrow> ustr \<times> ustr set" where
  "GetExpandedStrings E C =
     (if chunks C = [] then ([], {})
      else (append_results E T_LOCAL (butlast (chunks C)) @ AppendTrimedResult E T_LOCAL (last (chunks C)),
            GetExpandedResults (last (chunks C))))"

definition GetString :: "env \<Rightarrow> Composition \<Rightarrow> ustr" where
  "GetString E C = append_results E T_LOCAL (chunks C)"

definition GetStringWithTransliterator :: "env \<Rightarrow> Transliterator \<Rightarrow> Composition \<Rightarrow> ustr" where
  "GetStringWithTransliterator E t12r C = GetStringWithModes E t12r FIX C"

definition GetStringWithTrimMode :: "env \<Rightarrow> TrimMode \<Rightarrow> Composition \<Rightarrow> ustr" where
  "GetStringWithTrimMode E trim_mode C = GetStringWithModes E T_LOCAL trim_mode C"

text \<open>The string left of the position, the character at it, and the string right of that one.\<close>

definition GetPreedit :: "env \<Rightarrow> nat \<Rightarrow> Composition \<Rightarrow> ustr \<times> ustr \<times> ustr" where
  "GetPreedit E position C =
     (let composition = GetString E C in
      (take position composition, take 1 (drop position composition), drop (position + 1) composition))"

definition Composition_ShouldCommit :: "Composition \<Rightarrow> bool" where
  "Composition_ShouldCommit C \<longleftrightarrow> list_all CharChunk.ShouldCommit (chunks C)"

definition kQuestionKey :: ustr where "kQuestionKey = ascii ''{?}''"

definition Composition_IsToggleable :: "env \<Rightarrow> nat \<Rightarrow> Composition \<Rightarrow> bool" where
  "Composition_IsToggleable E position C =
     (let (it, inner) = GetChunkAt E position T_LOCAL (chunks C) in
      if it = length (chunks C) then False
      else starts_with (c_pending (chunks C ! it))
             (ParseSpecialKey (ptr_table (comp_table C)) kQuestionKey))"

subsection \<open>Splitting, combining and inserting chunks\<close>

text \<open>The iterator to the chunk right of the position, and the list with the chunk split there.\<close>

definition MaybeSplitChunkAt :: "env \<Rightarrow> nat \<Rightarrow> CharChunk list \<Rightarrow> nat \<times> CharChunk list" where
  "MaybeSplitChunkAt E position cs =
     (let (it, inner_position) = GetChunkAt E position T_LOCAL cs in
      if it = 0 \<and> inner_position = 0 then (it, cs)
      else if inner_position = chunk_length E T_LOCAL (cs ! it) then (Suc it, cs)
      else (case SplitChunk E T_LOCAL inner_position (cs ! it) of
              (Some (left, right), _) \<Rightarrow> (Suc it, take it cs @ [left, right] @ drop (Suc it) cs)
            | (None, chunk) \<Rightarrow> (it, cs[it := chunk])))"

fun combine_pending ::
  "Transliterator \<Rightarrow> table_ptr \<Rightarrow> ustr \<Rightarrow> nat \<Rightarrow> CharChunk list \<Rightarrow> nat \<times> CharChunk list" where
  "combine_pending t12r p next_input 0 cs = (0, cs)"
| "combine_pending t12r p next_input (Suc it) cs =
     (if \<not> IsConvertible (cs ! it) t12r p (c_pending (cs ! Suc it) @ next_input) then (Suc it, cs)
      else combine_pending t12r p next_input it
             (take it cs @ [Combine (cs ! it) (cs ! Suc it)] @ drop (Suc (Suc it)) cs))"

definition CombinePendingChunks ::
  "Composition \<Rightarrow> nat \<Rightarrow> CompositionInput \<Rightarrow> CharChunk list \<Rightarrow> nat \<times> CharChunk list" where
  "CombinePendingChunks C it i cs =
     (if in_is_asis i then (it, cs)
      else (let next_input = (if in_conversion i = [] then in_raw i else in_conversion i)
            in combine_pending (input_t12r C) (comp_table C) next_input it cs))"

definition InsertChunk :: "Composition \<Rightarrow> nat \<Rightarrow> CharChunk list \<Rightarrow> nat \<times> CharChunk list" where
  "InsertChunk C it cs = (it, take it cs @ [NewChunk (input_t12r C) (comp_table C)] @ drop it cs)"

text \<open>The chunk that takes the input, left of the iterator: the next chunk is the one right of it.\<close>

definition GetInsertionChunk :: "Composition \<Rightarrow> nat \<Rightarrow> CharChunk list \<Rightarrow> nat \<times> CharChunk list" where
  "GetInsertionChunk C it cs =
     (if it = 0 then InsertChunk C it cs
      else if IsAppendable (cs ! (it - 1)) (input_t12r C) (comp_table C) then (it - 1, cs)
      else InsertChunk C it cs)"

subsection \<open>Insertion\<close>

text \<open>The first loop: chunks of no length in the input mode are skipped.\<close>

fun skip_invisible :: "env \<Rightarrow> Transliterator \<Rightarrow> CharChunk list \<Rightarrow> nat" where
  "skip_invisible E t12r [] = 0"
| "skip_invisible E t12r (c # cs) = (if chunk_length E t12r c = 0 then Suc (skip_invisible E t12r cs) else 0)"

text \<open>
  The second loop: new chunks are inserted until the input is used up. It need not end (see
  \<open>InsertInput_diverges\<close>), and each iteration takes one unit of fuel; the rest of the fuel is what
  the loop in \<^verbatim>\<open>AddInput\<close> may use.
\<close>

fun insert_loop ::
  "nat \<Rightarrow> Composition \<Rightarrow> nat \<Rightarrow> CompositionInput \<Rightarrow> CharChunk list \<Rightarrow> (nat \<times> CharChunk list) outcome" where
  "insert_loop 0 C left i cs = Timeout"
| "insert_loop (Suc fuel) C left i cs =
     obind (AddCompositionInput (Suc fuel) (cs ! left) i) (\<lambda>(c', i').
       let cs' = cs[left := c'] in
       if Input_Empty i' then Ret (left, cs')
       else
         (let (left', cs'') = InsertChunk C (Suc left) cs'
          in insert_loop fuel C left' (i'\<lparr>in_is_new_input := False\<rparr>) cs''))"

definition InsertInput ::
  "env \<Rightarrow> nat \<Rightarrow> nat \<Rightarrow> CompositionInput \<Rightarrow> Composition \<Rightarrow> (nat \<times> Composition) outcome" where
  "InsertInput E fuel pos i C =
     (if Input_Empty i then Ret (pos, C)
      else
        (let (right0, cs0) = MaybeSplitChunkAt E pos (chunks C);
             right = right0 + skip_invisible E (input_t12r C) (drop right0 cs0);
             (left1, cs1) = GetInsertionChunk C right cs0;
             (left2, cs2) = CombinePendingChunks C left1 i cs1
         in obind (insert_loop fuel C left2 i cs2) (\<lambda>(left, cs).
              if c_raw (cs ! left) = [] \<and> c_conversion (cs ! left) = [] \<and> c_pending (cs ! left) = []
              then (let cs' = take left cs @ drop (Suc left) cs
                    in Ret (GetPosition E T_LOCAL left cs', C\<lparr>chunks := cs'\<rparr>))
              else Ret (GetPosition E T_LOCAL (Suc left) cs, C\<lparr>chunks := cs\<rparr>))))"

definition InsertAt :: "env \<Rightarrow> nat \<Rightarrow> nat \<Rightarrow> ustr \<Rightarrow> Composition \<Rightarrow> (nat \<times> Composition) outcome" where
  "InsertAt E fuel pos s C = InsertInput E fuel pos (EmptyInput\<lparr>in_raw := s\<rparr>) C"

definition InsertKeyAndPreeditAt ::
  "env \<Rightarrow> nat \<Rightarrow> nat \<Rightarrow> ustr \<Rightarrow> ustr \<Rightarrow> Composition \<Rightarrow> (nat \<times> Composition) outcome" where
  "InsertKeyAndPreeditAt E fuel pos key preedit C =
     InsertInput E fuel pos (EmptyInput\<lparr>in_raw := key, in_conversion := preedit\<rparr>) C"

subsection \<open>Deletion\<close>

fun delete_loop ::
  "env \<Rightarrow> nat \<Rightarrow> nat \<Rightarrow> nat \<Rightarrow> nat \<Rightarrow> CharChunk list \<Rightarrow> (nat \<times> CharChunk list) outcome" where
  "delete_loop E 0 position original_size new_position cs = Timeout"
| "delete_loop E (Suc fuel) position original_size new_position cs =
     (if cs = [] \<or> GetPosition E T_LOCAL (length cs) cs \<noteq> original_size then Ret (new_position, cs)
      else
        (let (it, cs1) = MaybeSplitChunkAt E position cs;
             new_position' = GetPosition E T_LOCAL it cs1
         in if it = length cs1 then Ret (new_position', cs1)
            else if chunk_length E T_LOCAL (cs1 ! it) \<le> 1
            then delete_loop E fuel position original_size new_position' (take it cs1 @ drop (Suc it) cs1)
            else
              (case SplitChunk E T_LOCAL 1 (cs1 ! it) of
                 (Some (left, right), _) \<Rightarrow>
                   delete_loop E fuel position original_size new_position' (cs1[it := right])
               | (None, chunk) \<Rightarrow>
                   delete_loop E fuel position original_size new_position' (cs1[it := chunk]))))"

definition DeleteAt :: "env \<Rightarrow> nat \<Rightarrow> nat \<Rightarrow> Composition \<Rightarrow> (nat \<times> Composition) outcome" where
  "DeleteAt E fuel position C =
     obind (delete_loop E fuel position (Composition_GetLength E C) position (chunks C))
       (\<lambda>(new_position, cs). Ret (new_position, C\<lparr>chunks := cs\<rparr>))"

subsection \<open>The chunk at a position\<close>

definition total_length :: "env \<Rightarrow> Transliterator \<Rightarrow> CharChunk list \<Rightarrow> nat" where
  "total_length E t12r cs = sum_list (map (chunk_length E t12r) cs)"

lemma total_length_simps [simp]:
  "total_length E t12r [] = 0"
  "total_length E t12r (c # cs) = chunk_length E t12r c + total_length E t12r cs"
  "total_length E t12r (cs @ ds) = total_length E t12r cs + total_length E t12r ds"
  by (simp_all add: total_length_def)

lemma GetPosition_total: "GetPosition E t12r it cs = total_length E t12r (take it cs)"
  by (simp add: GetPosition_def total_length_def)

lemma GetPosition_end [simp]: "GetPosition E t12r (length cs) cs = total_length E t12r cs"
  by (simp add: GetPosition_total)

lemma GetPosition_Suc:
  "it < length cs \<Longrightarrow> GetPosition E t12r (Suc it) cs = GetPosition E t12r it cs + chunk_length E t12r (cs ! it)"
  by (simp add: GetPosition_total take_Suc_conv_app_nth)

lemma GetPosition_mono:
  assumes "i \<le> j"
  shows "GetPosition E t12r i cs \<le> GetPosition E t12r j cs"
proof -
  have "take j cs = take i cs @ take (j - i) (drop i cs)"
    using assms by (metis le_add_diff_inverse take_add)
  then show ?thesis by (simp add: GetPosition_total)
qed

lemma GetPosition_le: "GetPosition E t12r it cs \<le> total_length E t12r cs"
  using GetPosition_mono [of it "max it (length cs)" E t12r cs] by (simp add: GetPosition_total)

lemma chunk_at_spec:
  assumes "chunk_at E t12r position cs it off len = (it', inner)" "off \<le> position" "cs \<noteq> []"
  shows "it \<le> it' \<and> it' < it + length cs \<and> inner \<le> chunk_length E t12r (cs ! (it' - it)) \<and>
    off + total_length E t12r (take (it' - it) cs) + inner = min position (off + total_length E t12r cs) \<and>
    (position \<le> off + total_length E t12r cs \<longrightarrow> it' = it \<or> 0 < inner)"
  using assms
proof (induction cs arbitrary: it off len)
  case (Cons c cs)
  let ?l = "chunk_length E t12r c"
  show ?case
  proof (cases "off + ?l < position")
    case False
    then have "it' = it" "inner = position - off" using Cons.prems(1) by (simp_all add: Let_def)
    then show ?thesis using False Cons.prems(2) by simp
  next
    case True
    then have r: "chunk_at E t12r position cs (Suc it) (off + ?l) ?l = (it', inner)"
      using Cons.prems(1) by (simp add: Let_def)
    show ?thesis
    proof (cases "cs = []")
      case True
      then show ?thesis using r \<open>off + ?l < position\<close> by simp
    next
      case False
      note I = Cons.IH [OF r _ False]
      then have le: "Suc it \<le> it'" using True by simp
      then have "it' - it = Suc (it' - Suc it)" by simp
      moreover have "0 < inner" if "position \<le> off + ?l + total_length E t12r cs"
      proof (cases "it' = Suc it")
        case eq: True
        then show ?thesis using I True that by (simp add: min_def split: if_splits)
      qed (use I True that in auto)
      ultimately show ?thesis using I True le by (auto simp: add.assoc)
    qed
  qed
qed simp

lemma GetChunkAt_spec:
  assumes "GetChunkAt E position t12r cs = (it, inner)" "cs \<noteq> []"
  shows "it < length cs \<and> inner \<le> chunk_length E t12r (cs ! it) \<and>
    GetPosition E t12r it cs + inner = min position (total_length E t12r cs) \<and>
    (position \<le> total_length E t12r cs \<longrightarrow> it = 0 \<or> 0 < inner)"
  using chunk_at_spec [of E t12r position cs 0 0 0 it inner] assms
  by (auto simp: GetChunkAt_def GetPosition_total)

lemma GetChunkAt_Nil [simp]: "GetChunkAt E position t12r [] = (0, 0)"
  by (simp add: GetChunkAt_def)

text \<open>A greater position is in the same chunk, not further left, or in a later one.\<close>

lemma chunk_at_mono:
  assumes "p \<le> q" "off \<le> p" "cs \<noteq> []"
    "chunk_at E t12r p cs it off len = (i, a)" "chunk_at E t12r q cs it off len = (j, b)"
  shows "i < j \<or> (i = j \<and> a \<le> b)"
  using assms
proof (induction cs arbitrary: it off len)
  case (Cons c cs)
  let ?l = "chunk_length E t12r c"
  consider "q \<le> off + ?l" | "p \<le> off + ?l" "off + ?l < q" | "off + ?l < p" by linarith
  then show ?case
  proof cases
    case 2
    then have i: "i = it" "a = p - off" using Cons.prems by (auto simp: Let_def)
    show ?thesis
    proof (cases "cs = []")
      case True
      then show ?thesis using Cons.prems 2 i by (auto simp: Let_def)
    next
      case False
      have "chunk_at E t12r q cs (Suc it) (off + ?l) ?l = (j, b)" using Cons.prems 2 by (simp add: Let_def)
      from chunk_at_spec [OF this _ False] 2 i show ?thesis by simp
    qed
  next
    case 3
    then show ?thesis
    proof (cases "cs = []")
      case False
      show ?thesis by (rule Cons.IH [of "off + ?l" "Suc it" ?l]) (use 3 Cons.prems False in \<open>auto simp: Let_def\<close>)
    qed (use Cons.prems in \<open>auto simp: Let_def\<close>)
  qed (use Cons.prems in \<open>auto simp: Let_def\<close>)
qed simp

lemma GetChunkAt_mono:
  "p \<le> q \<Longrightarrow> GetChunkAt E p t12r cs = (i, a) \<Longrightarrow> GetChunkAt E q t12r cs = (j, b) \<Longrightarrow>
   i < j \<or> (i = j \<and> a \<le> b)"
  using chunk_at_mono [of p q 0 cs E t12r 0 0 i a j b] by (auto simp: GetChunkAt_def split: if_splits)

text \<open>
  In a composition that is not empty every position is inside one of the chunks, and the
  chunk's own position and the position inside it add up to it (positions beyond the end give the end
  of the last chunk). A position between two chunks belongs to the left one.
\<close>

theorem GetChunkAt_correct:
  assumes "cs \<noteq> []"
  shows "(case GetChunkAt E position t12r cs of (it, inner) \<Rightarrow>
    it < length cs \<and> inner \<le> chunk_length E t12r (cs ! it) \<and>
    GetPosition E t12r it cs + inner = min position (GetPosition E t12r (length cs) cs) \<and>
    (position \<le> GetPosition E t12r (length cs) cs \<longrightarrow> it = 0 \<or> 0 < inner))"
  using GetChunkAt_spec [OF _ assms] by (simp split: prod.split)

theorem GetChunkAt_correct_witness:
  "case GetChunkAt id_env 1 T_RAW_STRING [set_raw [0x61] kka_chunk, kka_chunk] of (it, inner) \<Rightarrow>
     it < length [set_raw [0x61] kka_chunk, kka_chunk] \<and> inner \<le> chunk_length id_env T_RAW_STRING ([set_raw [0x61] kka_chunk, kka_chunk] ! it)"
  using GetChunkAt_correct [of "[set_raw [0x61] kka_chunk, kka_chunk]" id_env T_RAW_STRING 1]
  by auto

subsection \<open>Converting positions\<close>

lemma ConvertPosition_cases:
  assumes "t_from \<noteq> t_to" "GetChunkAt E p t_from cs = (it, inner)" "cs \<noteq> []"
  shows "\<exists>x. ConvertPosition E p t_from t_to cs = Some (GetPosition E t_to it cs + x) \<and>
    x = (if inner = 0 then 0
         else if inner = chunk_length E t_from (cs ! it) then chunk_length E t_to (cs ! it)
         else min inner (chunk_length E t_to (cs ! it)))"
  using GetChunkAt_spec [OF assms(2,3)] assms
  by (auto simp: ConvertPosition_def Let_def min_def)

lemma ConvertPosition_bound:
  assumes "t_from \<noteq> t_to"
  shows "\<exists>q. ConvertPosition E p t_from t_to cs = Some q \<and> q \<le> total_length E t_to cs"
proof (cases "cs = []")
  case True
  then show ?thesis using assms by (simp add: ConvertPosition_def)
next
  case False
  obtain it inner where g: "GetChunkAt E p t_from cs = (it, inner)" by fastforce
  note s = GetChunkAt_spec [OF g False]
  have "GetPosition E t_to (Suc it) cs \<le> total_length E t_to cs" by (rule GetPosition_le)
  then have "GetPosition E t_to it cs + chunk_length E t_to (cs ! it) \<le> total_length E t_to cs"
    using s by (simp add: GetPosition_Suc)
  then show ?thesis using ConvertPosition_cases [OF assms g False] by (auto simp: min_def)
qed

lemma ConvertPosition_mono:
  assumes "p \<le> q" "ConvertPosition E p t_from t_to cs = Some x" "ConvertPosition E q t_from t_to cs = Some y"
  shows "x \<le> y"
proof (cases "t_from = t_to \<or> cs = []")
  case True
  then show ?thesis using assms by (auto simp: ConvertPosition_def split: if_splits)
next
  case False
  then have n: "t_from \<noteq> t_to" "cs \<noteq> []" by simp_all
  obtain i a j b where g: "GetChunkAt E p t_from cs = (i, a)" "GetChunkAt E q t_from cs = (j, b)"
    by (metis surj_pair)
  note si = GetChunkAt_spec [OF g(1) n(2)] and sj = GetChunkAt_spec [OF g(2) n(2)]
  note ci = ConvertPosition_cases [OF n(1) g(1) n(2)] and cj = ConvertPosition_cases [OF n(1) g(2) n(2)]
  from GetChunkAt_mono [OF assms(1) g] show ?thesis
  proof (elim disjE conjE)
    assume "i < j"
    then have "GetPosition E t_to (Suc i) cs \<le> GetPosition E t_to j cs" by (intro GetPosition_mono) simp
    then have "GetPosition E t_to i cs + chunk_length E t_to (cs ! i) \<le> GetPosition E t_to j cs"
      using si by (simp add: GetPosition_Suc)
    then show ?thesis using ci cj assms(2,3) by (auto split: if_splits)
  next
    assume "i = j" "a \<le> b"
    then show ?thesis using ci cj si sj assms(2,3) by (auto split: if_splits)
  qed
qed

text \<open>
  The conversion of a cursor position to another transliteration never fails its \<^verbatim>\<open>CHECK\<close>,
  gives a position of that transliteration, and keeps the order of positions; the start stays the
  start, and the end of the composition becomes its end.
\<close>

theorem ConvertPosition_correct:
  assumes "t_from \<noteq> t_to"
  shows "(\<exists>x. ConvertPosition E p t_from t_to cs = Some x \<and> x \<le> GetPosition E t_to (length cs) cs \<and>
      (\<forall>q y. p \<le> q \<longrightarrow> ConvertPosition E q t_from t_to cs = Some y \<longrightarrow> x \<le> y)) \<and>
    ConvertPosition E 0 t_from t_to cs = Some 0"
proof -
  have "ConvertPosition E 0 t_from t_to cs = Some 0"
  proof (cases cs)
    case Nil
    then show ?thesis using assms by (simp add: ConvertPosition_def)
  next
    case (Cons c ds)
    have "GetChunkAt E 0 t_from cs = (0, 0)" by (simp add: GetChunkAt_def Cons)
    then show ?thesis using assms Cons by (simp add: ConvertPosition_def GetPosition_def)
  qed
  then show ?thesis
    using ConvertPosition_bound [OF assms, of E p cs] ConvertPosition_mono [of p _ E t_from t_to cs]
    by auto
qed

theorem ConvertPosition_correct_witness:
  "\<exists>x. ConvertPosition id_env 1 T_RAW_STRING T_LOCAL [kka_chunk] = Some x \<and>
     x \<le> GetPosition id_env T_LOCAL (length [kka_chunk]) [kka_chunk]"
  using ConvertPosition_correct [of T_RAW_STRING T_LOCAL id_env 1 "[kka_chunk]"] by auto

subsection \<open>What the composition asks of its chunks\<close>

text \<open>
  The interface between compositions and chunks, for a class of chunks that are closed under
  splitting: the cached length is right, a chunk can be split at every position inside its string,
  and the halves show the two halves of the string.
\<close>

lemma MaybeSplitChunkAt_length:
  assumes "MaybeSplitChunkAt E position cs = (it, cs')"
  shows "length cs' \<le> Suc (length cs)"
proof (cases "cs = []")
  case True
  then show ?thesis using assms by (simp add: MaybeSplitChunkAt_def)
next
  case False
  obtain i inner where g: "GetChunkAt E position T_LOCAL cs = (i, inner)" by fastforce
  show ?thesis using assms GetChunkAt_spec [OF g False] g
    by (auto simp: MaybeSplitChunkAt_def split: if_splits prod.splits option.splits)
qed

text \<open>More fuel never changes a result.\<close>

lemma delete_loop_fuel:
  "delete_loop E fuel p n np cs = Ret r \<Longrightarrow> fuel \<le> fuel' \<Longrightarrow> delete_loop E fuel' p n np cs = Ret r"
proof (induction fuel arbitrary: fuel' np cs)
  case (Suc fuel)
  obtain f where f: "fuel' = Suc f" "fuel \<le> f" using Suc.prems(2) by (cases fuel') auto
  obtain it cs1 where m: "MaybeSplitChunkAt E p cs = (it, cs1)" by fastforce
  show ?case
  proof (cases "cs = [] \<or> GetPosition E T_LOCAL (length cs) cs \<noteq> n \<or> it = length cs1")
    case True
    then show ?thesis using Suc.prems(1) unfolding f(1) by (auto simp: m Let_def)
  next
    case go: False
    show ?thesis
    proof (cases "chunk_length E T_LOCAL (cs1 ! it) \<le> 1")
      case True
      then show ?thesis using Suc.prems(1) go Suc.IH [OF _ f(2)] unfolding f(1) by (simp add: m Let_def)
    next
      case False
      define r where "r = (case SplitChunk E T_LOCAL 1 (cs1 ! it) of (Some (l, r), c) \<Rightarrow> r | (None, c) \<Rightarrow> c)"
      have "delete_loop E (Suc k) p n np cs = delete_loop E k p n (GetPosition E T_LOCAL it cs1) (cs1[it := r])" for k
      proof (cases "SplitChunk E T_LOCAL 1 (cs1 ! it)")
        case (Pair x c)
        then show ?thesis using go False by (cases x) (auto simp add: m r_def Let_def)
      qed
      then show ?thesis using Suc.prems(1) Suc.IH [OF _ f(2)] unfolding f(1) by metis
    qed
  qed
qed simp

lemma DeleteAt_fuel:
  assumes "DeleteAt E fuel p C = Ret r" "fuel \<le> fuel'"
  shows "DeleteAt E fuel' p C = Ret r"
proof (cases "delete_loop E fuel p (Composition_GetLength E C) p (chunks C)")
  case (Ret x)
  then show ?thesis using assms(1) delete_loop_fuel [OF Ret assms(2)] by (simp add: DeleteAt_def)
qed (use assms(1) in \<open>simp_all add: DeleteAt_def\<close>)

locale splittable =
  fixes E :: env and good :: "CharChunk \<Rightarrow> bool"
  assumes good_cache: "good c \<Longrightarrow> cache_ok E c"
    and good_split: "good c \<Longrightarrow> SplitChunk E T_LOCAL pos c = (Some (l, r), c') \<Longrightarrow>
      good l \<and> good r \<and> AppendResult E T_LOCAL l = take pos (AppendResult E T_LOCAL c) \<and>
      AppendResult E T_LOCAL r = drop pos (AppendResult E T_LOCAL c)"
begin

lemma chunk_length_good: "good c \<Longrightarrow> chunk_length E T_LOCAL c = length (AppendResult E T_LOCAL c)"
  using GetLength_correct [OF good_cache, of c T_LOCAL] by (simp add: chunk_length_def)

definition shown :: "CharChunk list \<Rightarrow> ustr" where
  "shown cs = append_results E T_LOCAL cs"

lemma shown_simps [simp]:
  "shown [] = []" "shown (c # cs) = AppendResult E T_LOCAL c @ shown cs" "shown (cs @ ds) = shown cs @ shown ds"
  by (simp_all add: shown_def append_results_def)

lemma total_length_good: "list_all good cs \<Longrightarrow> total_length E T_LOCAL cs = length (shown cs)"
  by (induction cs) (simp_all add: chunk_length_good)

lemma GetPosition_good: "list_all good cs \<Longrightarrow> GetPosition E T_LOCAL it cs = length (shown (take it cs))"
  unfolding GetPosition_total by (rule total_length_good) (auto simp: list_all_iff dest: in_set_takeD)

lemma split_some:
  assumes "good c" "0 < pos" "pos < length (AppendResult E T_LOCAL c)"
  obtains l r c' where "SplitChunk E T_LOCAL pos c = (Some (l, r), c')"
  using SplitChunk_None_iff [OF good_cache [OF assms(1)], of T_LOCAL pos] assms(2,3)
  by (cases "SplitChunk E T_LOCAL pos c") auto

lemma MaybeSplitChunkAt_good:
  assumes "list_all good cs" "MaybeSplitChunkAt E position cs = (it, cs')"
  shows "list_all good cs' \<and> it \<le> length cs' \<and> shown (take it cs') = take position (shown cs) \<and>
    shown (drop it cs') = drop position (shown cs) \<and> (cs' = cs \<or> it < length cs' \<and> AppendResult E T_LOCAL (cs' ! it) \<noteq> [])"
proof (cases "cs = []")
  case True
  then show ?thesis using assms by (simp add: MaybeSplitChunkAt_def)
next
  case ne: False
  obtain i inner where g: "GetChunkAt E position T_LOCAL cs = (i, inner)" by fastforce
  note s = GetChunkAt_spec [OF g ne]
  let ?c = "cs ! i"
  have i: "i < length cs" "good ?c" using s assms(1) by (simp_all add: list_all_length)
  have cs: "cs = take i cs @ ?c # drop (Suc i) cs" using i by (simp add: id_take_nth_drop)
  have tx: "shown cs = shown (take i cs) @ AppendResult E T_LOCAL ?c @ shown (drop (Suc i) cs)"
    using arg_cong [OF cs, of shown] by (simp only: shown_simps)
  have len: "inner \<le> length (AppendResult E T_LOCAL ?c)"
    "length (shown (take i cs)) + inner = min position (length (shown cs))"
    using s assms(1) i(2) by (simp_all add: chunk_length_good GetPosition_good total_length_good)
  have tp: "take position (shown cs) = shown (take i cs) @ take inner (AppendResult E T_LOCAL ?c)"
    "drop position (shown cs) = drop inner (AppendResult E T_LOCAL ?c) @ shown (drop (Suc i) cs)"
  proof -
    have "take position (shown cs) = take (length (shown (take i cs)) + inner) (shown cs)"
      "drop position (shown cs) = drop (length (shown (take i cs)) + inner) (shown cs)"
      unfolding len(2) by (auto simp: min_def)
    then show "take position (shown cs) = shown (take i cs) @ take inner (AppendResult E T_LOCAL ?c)"
      "drop position (shown cs) = drop inner (AppendResult E T_LOCAL ?c) @ shown (drop (Suc i) cs)"
      using len(1) unfolding tx by simp_all
  qed
  consider "i = 0" "inner = 0" | "inner \<noteq> 0 \<or> i \<noteq> 0" "inner = length (AppendResult E T_LOCAL ?c)"
    | "0 < inner" "inner < length (AppendResult E T_LOCAL ?c)"
    | "i \<noteq> 0" "inner = 0" "0 < length (AppendResult E T_LOCAL ?c)"
    using len(1) by linarith
  then show ?thesis
  proof cases
    case 1
    then have "it = 0" "cs' = cs" using assms(2) g by (simp_all add: MaybeSplitChunkAt_def)
    then show ?thesis using assms(1) tp 1 tx by simp
  next
    case 2
    then have "it = Suc i" "cs' = cs"
      using assms(2) g i(2) by (auto simp: MaybeSplitChunkAt_def chunk_length_good)
    then show ?thesis using assms(1) tp 2 i(1) by (simp add: take_Suc_conv_app_nth)
  next
    case 3
    from split_some [OF i(2) this] obtain l r c' where sp: "SplitChunk E T_LOCAL inner ?c = (Some (l, r), c')" .
    have "it = Suc i" "cs' = take i cs @ [l, r] @ drop (Suc i) cs"
      using assms(2) g i(2) 3 sp by (auto simp: MaybeSplitChunkAt_def chunk_length_good)
    moreover have "list_all good (take i cs)" "list_all good (drop (Suc i) cs)"
      using assms(1) by (metis append_take_drop_id list_all_append)+
    ultimately show ?thesis using good_split [OF i(2) sp] tp i(1) 3 by (auto simp add: nth_append)
  next
    case 4
    then have "\<not> position \<le> total_length E T_LOCAL cs" using s by auto
    then have "position > length (shown cs)" using total_length_good [OF assms(1)] by simp
    then have "length (shown (take i cs)) = length (shown cs)" using len(2) 4(2) by simp
    then show ?thesis using 4(3) tx by (metis add_is_0 length_append less_irrefl add_cancel_right_right)
  qed
qed

text \<open>Deletion removes chunks without a visible character and then the character at the position.\<close>

lemma delete_loop_changed:
  "list_all good cs \<Longrightarrow> length (shown cs) \<noteq> n \<Longrightarrow> 0 < fuel \<Longrightarrow>
   delete_loop E fuel position n np cs = Ret (np, cs)"
  by (cases fuel) (auto simp: total_length_good)

lemma delete_loop_good:
  assumes "list_all good cs" "length (shown cs) = n" "length cs + 2 \<le> fuel"
  shows "\<exists>x cs'. delete_loop E fuel position n np cs = Ret (x, cs') \<and> list_all good cs' \<and>
    length cs' \<le> Suc (length cs) \<and> shown cs' = take position (shown cs) @ drop (Suc position) (shown cs) \<and>
    (x = min position n \<or> cs = [] \<and> x = np)"
  using assms
proof (induction fuel arbitrary: np cs)
  case (Suc fuel)
  show ?case
  proof (cases "cs = []")
    case False
    have pos: "GetPosition E T_LOCAL (length cs) cs = n"
      using Suc.prems by (simp add: total_length_good)
    obtain it cs1 where m: "MaybeSplitChunkAt E position cs = (it, cs1)" by fastforce
    note M = MaybeSplitChunkAt_good [OF Suc.prems(1) m] and L = MaybeSplitChunkAt_length [OF m]
    let ?x = "GetPosition E T_LOCAL it cs1"
    have x: "?x = min position n" using M Suc.prems(2) by (simp add: GetPosition_good)
    have step: "delete_loop E (Suc fuel) position n np cs =
        (if it = length cs1 then Ret (?x, cs1)
         else if chunk_length E T_LOCAL (cs1 ! it) \<le> 1
         then delete_loop E fuel position n ?x (take it cs1 @ drop (Suc it) cs1)
         else (case SplitChunk E T_LOCAL 1 (cs1 ! it) of
             (Some (left, right), _) \<Rightarrow> delete_loop E fuel position n ?x (cs1[it := right])
           | (None, chunk) \<Rightarrow> delete_loop E fuel position n ?x (cs1[it := chunk])))"
      using False pos m by (simp add: Let_def)
    have sh: "shown cs1 = shown cs"
      using M by (metis append_take_drop_id shown_simps(3))
    show ?thesis
    proof (cases "it = length cs1")
      case True
      then have "drop position (shown cs) = []" using M by simp
      moreover have "drop (Suc position) (shown cs) = []" using calculation by simp
      moreover have "take position (shown cs) = shown cs" using calculation(1) by simp
      ultimately have "shown cs1 = take position (shown cs) @ drop (Suc position) (shown cs)" using sh by simp
      moreover have "delete_loop E (Suc fuel) position n np cs = Ret (?x, cs1)" using step True by simp
      ultimately show ?thesis using M L x by blast
    next
      case it: False
      let ?c = "cs1 ! it" and ?s = "AppendResult E T_LOCAL (cs1 ! it)"
      have i: "it < length cs1" "good ?c" using M it by (simp_all add: list_all_length)
      have len: "chunk_length E T_LOCAL ?c = length ?s" by (rule chunk_length_good [OF i(2)])
      have dr: "drop it cs1 = ?c # drop (Suc it) cs1" using i(1) by (simp add: Cons_nth_drop_Suc)
      then have rest: "drop position (shown cs) = ?s @ shown (drop (Suc it) cs1)" using M by simp
      have gs: "list_all good (take it cs1)" "list_all good (drop (Suc it) cs1)"
        using M by (metis append_take_drop_id list_all_append)+
      have ds: "drop (Suc position) (shown cs) = drop 1 (?s @ shown (drop (Suc it) cs1))"
        using rest by (metis drop_drop plus_1_eq_Suc)
      have fuel: "0 < fuel" using Suc.prems(3) by simp
      consider "?s = []" | "length ?s = 1" | "length ?s > 1" by (metis length_0_conv less_one linorder_neqE_nat)
      then show ?thesis
      proof cases
        case 1
        then have c: "cs1 = cs" using M by auto
        let ?cs = "take it cs @ drop (Suc it) cs"
        have s: "shown ?cs = shown cs" using rest 1 M c by (metis append_Nil append_take_drop_id shown_simps(3))
        have f: "length ?cs + 2 \<le> fuel" using Suc.prems(3) i(1) c by simp
        have g: "list_all good ?cs" using gs c by simp
        have st: "delete_loop E (Suc fuel) position n np cs = delete_loop E fuel position n ?x ?cs"
          using step it len 1 c by simp
        have n: "length (shown ?cs) = n" using s Suc.prems(2) by simp
        from Suc.IH [OF g n f, of ?x] obtain y cs' where
          r: "delete_loop E fuel position n ?x ?cs = Ret (y, cs')" "list_all good cs'"
          "length cs' \<le> Suc (length ?cs)"
          "shown cs' = take position (shown ?cs) @ drop (Suc position) (shown ?cs)"
          "y = min position n \<or> ?cs = [] \<and> y = ?x" by blast
        have "length cs' \<le> Suc (length cs)" using r(3) i(1) c by simp
        moreover have "y = min position n" using r(5) x by blast
        ultimately show ?thesis unfolding st using r(1,2,4) unfolding s by blast
      next
        case 2
        let ?cs = "take it cs1 @ drop (Suc it) cs1"
        have s: "shown ?cs = take position (shown cs) @ drop (Suc position) (shown cs)"
          using M 2 ds by simp
        have "length (shown cs) > position" using rest 2 by (metis drop_all length_0_conv append_is_Nil_conv list.size(3) not_less zero_neq_one)
        then have "length (shown ?cs) \<noteq> n" using s Suc.prems(2) by simp
        then have "delete_loop E fuel position n ?x ?cs = Ret (?x, ?cs)"
          using gs fuel by (intro delete_loop_changed) simp_all
        then show ?thesis using step it len 2 gs s x L i(1) by simp
      next
        case 3
        then obtain l r c' where sp: "SplitChunk E T_LOCAL 1 ?c = (Some (l, r), c')"
          using split_some [OF i(2), of 1] by auto
        let ?cs = "cs1[it := r]"
        have cs: "?cs = take it cs1 @ r # drop (Suc it) cs1" using i(1) by (simp add: upd_conv_take_nth_drop)
        note g = good_split [OF i(2) sp]
        have s: "shown ?cs = take position (shown cs) @ drop (Suc position) (shown cs)"
          unfolding cs ds using M g 3 by simp
        have "length (shown cs) > position" using rest 3
          by (metis drop_all length_0_conv append_is_Nil_conv not_less not_less_zero)
        then have "length (shown ?cs) \<noteq> n" using s Suc.prems(2) by simp
        then have "delete_loop E fuel position n ?x ?cs = Ret (?x, ?cs)"
          using gs g fuel cs by (intro delete_loop_changed) simp_all
        then show ?thesis using step it len 3 gs s x sp g cs L i(1) by simp
      qed
    qed
  qed (use Suc.prems in simp)
qed simp

lemma DeleteAt_good:
  assumes "list_all good (chunks C)" "length (chunks C) + 2 \<le> fuel"
  shows "\<exists>x C'. DeleteAt E fuel position C = Ret (x, C') \<and> list_all good (chunks C') \<and>
    length (chunks C') \<le> Suc (length (chunks C)) \<and> GetString E C' = take position (GetString E C) @ drop (Suc position) (GetString E C) \<and>
    (chunks C \<noteq> [] \<longrightarrow> x = min position (Composition_GetLength E C)) \<and>
    Composition_GetLength E C = length (GetString E C) \<and>
    comp_table C' = comp_table C \<and> input_t12r C' = input_t12r C"
proof -
  have n: "length (shown (chunks C)) = Composition_GetLength E C"
    using assms(1) by (simp add: Composition_GetLength_def total_length_good)
  obtain x cs' where "delete_loop E fuel position (Composition_GetLength E C) position (chunks C) = Ret (x, cs')"
    "list_all good cs'" "length cs' \<le> Suc (length (chunks C))"
    "shown cs' = take position (shown (chunks C)) @ drop (Suc position) (shown (chunks C))"
    "x = min position (Composition_GetLength E C) \<or> chunks C = [] \<and> x = position"
    using delete_loop_good [OF assms(1) n assms(2), of position position] by blast
  then show ?thesis using n by (auto simp: DeleteAt_def GetString_def shown_def)
qed

end

subsection \<open>Chunks whose display can be cut\<close>

text \<open>
  How a chunk with a local transliterator shows its text: the converted text in the Hiragana, Katakana
  and conversion modes, the typed keys in the ASCII and raw modes, changed by the character conversions
  of the environment. \<open>charwise f s\<close> says that such a conversion treats the characters of \<open>s\<close> one by
  one, as the tables of kana and ASCII letters do; half-width Katakana, where a voiced sound is two
  characters, is left out.
\<close>

fun display_map :: "env \<Rightarrow> Transliterator \<Rightarrow> ustr \<Rightarrow> ustr" where
  "display_map E T_HIRAGANA s = ConvertPreeditString E (HalfWidthToFullWidth E s)"
| "display_map E T_FULL_KATAKANA s = ConvertPreeditString E (HalfWidthToFullWidth E (HiraganaToKatakana E s))"
| "display_map E T_FULL_ASCII s = HalfWidthAsciiToFullWidthAscii E s"
| "display_map E T_HALF_ASCII s = FullWidthAsciiToHalfWidthAscii E s"
| "display_map E t s = s"

definition charwise :: "(ustr \<Rightarrow> ustr) \<Rightarrow> ustr \<Rightarrow> bool" where
  "charwise f s \<longleftrightarrow> (\<forall>i j. f (take i (drop j s)) = take i (drop j (f s)))"

lemma charwise_take: "charwise f s \<Longrightarrow> f (take n s) = take n (f s) \<and> charwise f (take n s)"
proof
  assume c: "charwise f s"
  show t: "f (take n s) = take n (f s)" using c [unfolded charwise_def, rule_format, of n 0] by simp
  show "charwise f (take n s)"
    unfolding charwise_def t
    using c by (auto simp: charwise_def drop_take)
qed

lemma charwise_drop: "charwise f s \<Longrightarrow> f (drop n s) = drop n (f s) \<and> charwise f (drop n s)"
proof
  assume c: "charwise f s"
  have "f [] = []" using c [unfolded charwise_def, rule_format, of 0 0] by simp
  define m where "m = max (length s) (length (f s))"
  show t: "f (drop n s) = drop n (f s)"
    using c [unfolded charwise_def, rule_format, of m n] by (simp add: m_def)
  show "charwise f (drop n s)"
    unfolding charwise_def t
    using c by (auto simp: charwise_def)
qed

lemma charwise_id [simp]: "charwise (\<lambda>s. s) s"
  by (simp add: charwise_def)

lemma charwise_map: "(\<And>i j. f (take i (drop j s)) = map g (take i (drop j s))) \<Longrightarrow> f s = map g s \<Longrightarrow> charwise f s"
  by (simp add: charwise_def take_map drop_map)

definition shows_converted :: "env \<Rightarrow> CharChunk \<Rightarrow> bool" where
  "shows_converted E c \<longleftrightarrow>
     c_transliterator c \<in> {T_CONVERSION_STRING, T_HIRAGANA, T_FULL_KATAKANA} \<and>
     clean (c_conversion c @ c_pending c) \<and> charwise (display_map E (c_transliterator c)) (c_conversion c @ c_pending c) \<and>
     (c_display_ambiguous_as_result c \<longrightarrow> c_ambiguous c = [])"

definition shows_raw :: "env \<Rightarrow> CharChunk \<Rightarrow> bool" where
  "shows_raw E c \<longleftrightarrow>
     c_transliterator c \<in> {T_RAW_STRING, T_HALF_ASCII, T_FULL_ASCII} \<and>
     (c_transliterator c = T_RAW_STRING \<or> c_raw c \<noteq> []) \<and>
     clean (c_raw c) \<and> charwise (display_map E (c_transliterator c)) (c_raw c)"

definition shows_plainly :: "env \<Rightarrow> CharChunk \<Rightarrow> bool" where
  "shows_plainly E c \<longleftrightarrow> \<not> has_attribute (c_attributes c) NO_TRANSLITERATION \<and> cache_ok E c \<and>
     (shows_converted E c \<or> shows_raw E c)"

lemma local_transliterator:
  "\<not> has_attribute (c_attributes c) NO_TRANSLITERATION \<Longrightarrow> Chunk_GetTransliterator c T_LOCAL = c_transliterator c"
  by (simp add: Chunk_GetTransliterator_def)

lemma AppendResult_converted:
  assumes "shows_converted E c" "\<not> has_attribute (c_attributes c) NO_TRANSLITERATION"
  shows "AppendResult E T_LOCAL c = display_map E (c_transliterator c) (c_conversion c @ c_pending c)"
proof -
  have d: "GetDisplayConverted c = c_conversion c @ c_pending c"
    using assms by (auto simp: shows_converted_def GetDisplayConverted_def)
  have k: "DeleteSpecialKeys (c_conversion c @ c_pending c) = c_conversion c @ c_pending c"
    using assms by (auto simp: shows_converted_def intro: clean_DeleteSpecialKeys)
  show ?thesis using assms
    by (auto simp: AppendResult_def Transliterate_def local_transliterator d k shows_converted_def
        kConversionString_def kHiragana_def kFullKatakana_def Hiragana_Transliterate_def FullKatakana_Transliterate_def)
qed

lemma AppendResult_raw:
  assumes "shows_raw E c" "\<not> has_attribute (c_attributes c) NO_TRANSLITERATION"
  shows "AppendResult E T_LOCAL c = display_map E (c_transliterator c) (c_raw c)"
proof -
  have k: "DeleteSpecialKeys (c_raw c) = c_raw c"
    using assms by (auto simp: shows_raw_def intro: clean_DeleteSpecialKeys)
  show ?thesis using assms
    by (auto simp: AppendResult_def Transliterate_def local_transliterator k shows_raw_def
        kRawString_def kHalfAscii_def kFullAscii_def HalfAscii_Transliterate_def FullAscii_Transliterate_def)
qed

lemma SplitChunk_frame:
  assumes "SplitChunk E t12r pos c = (Some (l, r), c')"
  shows "c_transliterator l = c_transliterator c \<and> c_transliterator r = c_transliterator c \<and>
    c_attributes l = NO_TABLE_ATTRIBUTE \<and> c_attributes r = c_attributes c \<and>
    \<not> c_display_ambiguous_as_result l \<and> c_ambiguous l = [] \<and>
    c_display_ambiguous_as_result r = c_display_ambiguous_as_result c \<and>
    (c_ambiguous r = c_ambiguous c \<or> c_ambiguous r = []) \<and> c_table l = c_table c \<and> c_table r = c_table c \<and>
    c_raw l = raw_lhs (split_fn (GetTransliterator (Chunk_GetTransliterator c t12r)) E pos
                 (DeleteSpecialKeys (c_raw c)) (DeleteSpecialKeys (c_conversion c @ c_pending c))) \<and>
    c_raw r = raw_rhs (split_fn (GetTransliterator (Chunk_GetTransliterator c t12r)) E pos
                 (DeleteSpecialKeys (c_raw c)) (DeleteSpecialKeys (c_conversion c @ c_pending c)))"
proof -
  obtain len c0 where g: "GetLength E t12r c = (len, c0)" by fastforce
  have c0: "c_conversion c0 = c_conversion c" "c_pending c0 = c_pending c" "c_attributes c0 = c_attributes c"
    "c_transliterator c0 = c_transliterator c" "c_raw c0 = c_raw c" "c_table c0 = c_table c"
    "c_ambiguous c0 = c_ambiguous c" "c_display_ambiguous_as_result c0 = c_display_ambiguous_as_result c"
    using g by (auto simp: GetLength_def Let_def split: option.splits if_splits)
  have t: "Chunk_GetTransliterator c0 t12r = Chunk_GetTransliterator c t12r"
    by (simp add: Chunk_GetTransliterator_def c0)
  show ?thesis
    using assms by (auto simp: SplitChunk_def Let_def g set_raw_def set_pending_def set_conversion_def c0 t
      split: if_splits)
qed

lemma split_converted:
  assumes "shows_converted E c" "\<not> has_attribute (c_attributes c) NO_TRANSLITERATION"
    "SplitChunk E T_LOCAL pos c = (Some (l, r), c')"
  shows "shows_converted E l \<and> shows_converted E r \<and>
    AppendResult E T_LOCAL l = take pos (AppendResult E T_LOCAL c) \<and>
    AppendResult E T_LOCAL r = drop pos (AppendResult E T_LOCAL c)"
proof -
  let ?s = "c_conversion c @ c_pending c" and ?f = "display_map E (c_transliterator c)"
  note s = assms(1) [unfolded shows_converted_def]
  have sc: "splits_converted c T_LOCAL" using s assms(2) by (auto simp: splits_converted_def local_transliterator)
  note t = SplitChunk_converted [OF sc _ assms(3)] and f = SplitChunk_frame [OF assms(3)]
  have t: "c_conversion l @ c_pending l = take pos ?s" "c_conversion r @ c_pending r = drop pos ?s"
    using t s by simp_all
  have w: "?f (take pos ?s) = take pos (?f ?s) \<and> charwise ?f (take pos ?s)"
    "?f (drop pos ?s) = drop pos (?f ?s) \<and> charwise ?f (drop pos ?s)"
    using s charwise_take charwise_drop by blast+
  have a: "\<not> has_attribute (c_attributes l) NO_TRANSLITERATION" "\<not> has_attribute (c_attributes r) NO_TRANSLITERATION"
    using f assms(2) by (simp_all add: has_attribute_def NO_TABLE_ATTRIBUTE_def)
  have g: "shows_converted E l" "shows_converted E r"
    unfolding shows_converted_def t using s f w clean_take [of ?s pos] clean_drop [of ?s pos] by auto
  show ?thesis
    using g AppendResult_converted [OF g(1) a(1)] AppendResult_converted [OF g(2) a(2)]
      AppendResult_converted [OF assms(1,2)] w f unfolding t by simp
qed

lemma split_raw:
  assumes "shows_raw E c" "\<not> has_attribute (c_attributes c) NO_TRANSLITERATION" "cache_ok E c"
    "SplitChunk E T_LOCAL pos c = (Some (l, r), c')"
  shows "shows_raw E l \<and> shows_raw E r \<and>
    AppendResult E T_LOCAL l = take pos (AppendResult E T_LOCAL c) \<and>
    AppendResult E T_LOCAL r = drop pos (AppendResult E T_LOCAL c)"
proof -
  let ?s = "c_raw c" and ?f = "display_map E (c_transliterator c)"
  note s = assms(1) [unfolded shows_raw_def] and f = SplitChunk_frame [OF assms(4)]
  have sp: "split_fn (GetTransliterator (c_transliterator c)) E = SplitRaw"
    using s by (auto simp: kRawString_def kHalfAscii_def kFullAscii_def)
  have t: "c_raw l = take pos ?s" "c_raw r = drop pos ?s"
    using f s by (simp_all add: local_transliterator [OF assms(2)] sp clean_DeleteSpecialKeys)
  have w: "?f (take pos ?s) = take pos (?f ?s) \<and> charwise ?f (take pos ?s)"
    "?f (drop pos ?s) = drop pos (?f ?s) \<and> charwise ?f (drop pos ?s)"
    using s charwise_take charwise_drop by blast+
  have a: "\<not> has_attribute (c_attributes l) NO_TRANSLITERATION" "\<not> has_attribute (c_attributes r) NO_TRANSLITERATION"
    using f assms(2) by (simp_all add: has_attribute_def NO_TABLE_ATTRIBUTE_def)
  have p: "0 < pos" "pos < length (?f ?s)"
    using SplitChunk_None_iff [OF assms(3), of T_LOCAL pos] assms(4) AppendResult_raw [OF assms(1,2)] by auto
  have "?f [] = []"
    using s by (simp add: charwise_def) (metis take_0)
  then have "drop pos ?s \<noteq> []" using w(2) p(2) by fastforce
  then have g: "shows_raw E l" "shows_raw E r"
    unfolding shows_raw_def t using s f w p clean_take [of ?s pos] clean_drop [of ?s pos] by auto
  show ?thesis
    using g AppendResult_raw [OF g(1) a(1)] AppendResult_raw [OF g(2) a(2)]
      AppendResult_raw [OF assms(1,2)] w f unfolding t by simp
qed

lemma split_plainly:
  assumes "shows_plainly E c" "SplitChunk E T_LOCAL pos c = (Some (l, r), c')"
  shows "shows_plainly E l \<and> shows_plainly E r \<and>
    AppendResult E T_LOCAL l = take pos (AppendResult E T_LOCAL c) \<and>
    AppendResult E T_LOCAL r = drop pos (AppendResult E T_LOCAL c)"
proof -
  have "\<not> has_attribute (c_attributes l) NO_TRANSLITERATION" "\<not> has_attribute (c_attributes r) NO_TRANSLITERATION"
    "cache_ok E l" "cache_ok E r"
    using SplitChunk_frame [OF assms(2)] SplitChunk_cache(1) [OF assms(2)] assms(1)
    by (simp_all add: shows_plainly_def cache_ok_None has_attribute_def NO_TABLE_ATTRIBUTE_def)
  then show ?thesis
    using assms split_converted [of E c pos l r c'] split_raw [of E c pos l r c'] unfolding shows_plainly_def by blast
qed

interpretation plain: splittable E "shows_plainly E" for E
  by unfold_locales (simp add: shows_plainly_def, rule split_plainly)


text \<open>
  \<open>C29\<close>: Splitting a composition at a position does not change the string it shows, for chunks in any
  mixture of the Hiragana, full-width Katakana, full- and half-width ASCII, conversion and raw modes:
  the chunks left of the returned iterator show the characters before the position and the others the
  rest, whether the position falls between two chunks, inside one, or beyond the end. It is required of
  each chunk (\<open>shows_plainly\<close>) that its rule has no \<^verbatim>\<open>NO_TRANSLITERATION\<close> attribute, that its text has
  no special keys, that it does not display an ambiguous result, and that the character conversions of
  its mode treat its characters one by one.
\<close>

theorem MaybeSplitChunkAt_correct:
  assumes "list_all (shows_plainly E) cs" and "MaybeSplitChunkAt E position cs = (it, cs')"
  shows "it \<le> length cs' \<and>
    append_results E T_LOCAL (take it cs') = take position (append_results E T_LOCAL cs) \<and>
    append_results E T_LOCAL (drop it cs') = drop position (append_results E T_LOCAL cs)"
  using plain.MaybeSplitChunkAt_good [OF assms] unfolding plain.shown_def by blast

text \<open>An environment with the conversions of kana and ASCII letters, and two chunks in it.\<close>

definition modes_env :: env where
  "modes_env = id_env\<lparr>
     HiraganaToKatakana := map (\<lambda>c. if 0x3041 \<le> c \<and> c \<le> 0x3096 then c + 0x60 else c),
     KatakanaToHiragana := map (\<lambda>c. if 0x30A1 \<le> c \<and> c \<le> 0x30F6 then c - 0x60 else c),
     HalfWidthAsciiToFullWidthAscii := map (\<lambda>c. if 0x21 \<le> c \<and> c \<le> 0x7E then c + 0xFEE0 else c),
     FullWidthAsciiToHalfWidthAscii := map (\<lambda>c. if 0xFF01 \<le> c \<and> c \<le> 0xFF5E then c - 0xFEE0 else c)\<rparr>"

definition tta_chunk :: CharChunk where
  "tta_chunk = (NewChunk T_HIRAGANA (TablePtr 1 nn_table))
     \<lparr>c_raw := [0x74, 0x74, 0x61, 0x6B], c_conversion := [0x3063, 0x305F], c_pending := [0x6B]\<rparr>"

definition tta_composition :: Composition where
  "tta_composition = (NewComposition (TablePtr 1 nn_table))\<lparr>chunks :=
     [tta_chunk, tta_chunk\<lparr>c_transliterator := T_FULL_KATAKANA\<rparr>, tta_chunk\<lparr>c_transliterator := T_FULL_ASCII\<rparr>]\<rparr>"

lemma tta_shows_plainly: "list_all (shows_plainly modes_env) (chunks tta_composition)"
proof -
  have "charwise (display_map modes_env T_HIRAGANA) s" "charwise (display_map modes_env T_FULL_KATAKANA) s"
    "charwise (display_map modes_env T_FULL_ASCII) s" for s
    by (simp_all add: charwise_def modes_env_def id_env_def HalfWidthToFullWidth_def take_map drop_map)
  then show ?thesis
    by (simp add: tta_composition_def tta_chunk_def shows_plainly_def shows_converted_def shows_raw_def clean_def
        no_block_def kSpecialKeyOpen_def IsSpecialKey_def kSpecialKeyBegin_def kSpecialKeyEnd_def cache_ok_def
        has_attribute_def NO_TABLE_ATTRIBUTE_def NewChunk_def)
qed

lemma tta_GetString: "GetString modes_env tta_composition =
    [0x3063, 0x305F, 0xFF4B, 0x30C3, 0x30BF, 0xFF4B, 0xFF54, 0xFF54, 0xFF41, 0xFF4B]"
proof -
  have p: "list_all (\<lambda>c. \<not> has_attribute (c_attributes c) NO_TRANSLITERATION) (chunks tta_composition)"
    "shows_converted modes_env tta_chunk" "shows_converted modes_env (tta_chunk\<lparr>c_transliterator := T_FULL_KATAKANA\<rparr>)"
    "shows_raw modes_env (tta_chunk\<lparr>c_transliterator := T_FULL_ASCII\<rparr>)"
    using tta_shows_plainly
    by (simp_all add: tta_composition_def shows_plainly_def shows_converted_def [of _ "_\<lparr>c_transliterator := T_FULL_ASCII\<rparr>"]
        shows_raw_def [of _ "_\<lparr>c_transliterator := T_FULL_KATAKANA\<rparr>"] shows_raw_def [of _ tta_chunk])
      (simp add: tta_chunk_def)
  show ?thesis
    using AppendResult_converted [OF p(2)] AppendResult_converted [OF p(3)] AppendResult_raw [OF p(4)] p(1)
    by (simp add: GetString_def append_results_def tta_composition_def)
      (simp add: tta_chunk_def modes_env_def id_env_def HalfWidthToFullWidth_def)
qed

theorem MaybeSplitChunkAt_correct_witness:
  "\<exists>it cs'. MaybeSplitChunkAt modes_env 2 (chunks tta_composition) = (it, cs') \<and>
     append_results modes_env T_LOCAL (take it cs') = [0x3063, 0x305F]"
proof -
  obtain it cs' where m: "MaybeSplitChunkAt modes_env 2 (chunks tta_composition) = (it, cs')" by fastforce
  from MaybeSplitChunkAt_correct [OF tta_shows_plainly m] m show ?thesis
    using tta_GetString by (simp add: GetString_def)
qed

text \<open>
  \<open>C2\<close>: \<^verbatim>\<open>DeleteAt\<close> ends (two more iterations than there are chunks are enough) and removes exactly
  the character at the position from the string on display, nothing if the position is at or beyond
  the end, however the string is cut into chunks and also with chunks that show nothing. The cursor
  position it returns is the given one, or the end. The chunks are in any mixture of the Hiragana,
  full-width Katakana, ASCII, conversion and raw modes; as for \<open>MaybeSplitChunkAt_correct\<close>, none has the
  \<^verbatim>\<open>NO_TRANSLITERATION\<close> attribute, special keys or an ambiguous result on display, and the conversions of
  its mode treat its characters one by one.
\<close>

theorem DeleteAt_correct:
  assumes "list_all (shows_plainly E) (chunks C)" and "length (chunks C) + 2 \<le> fuel"
  shows "\<exists>x C'. DeleteAt E fuel position C = Ret (x, C') \<and>
    GetString E C' = take position (GetString E C) @ drop (Suc position) (GetString E C) \<and>
    (chunks C \<noteq> [] \<longrightarrow> x = min position (length (GetString E C)))"
  using plain.DeleteAt_good [OF assms, of position] by fastforce

theorem DeleteAt_correct_witness:
  "\<exists>x C'. DeleteAt modes_env 5 1 tta_composition = Ret (x, C') \<and>
     GetString modes_env C' = [0x3063, 0xFF4B, 0x30C3, 0x30BF, 0xFF4B, 0xFF54, 0xFF54, 0xFF41, 0xFF4B]"
proof -
  have "length (chunks tta_composition) + 2 \<le> 5" by (simp add: tta_composition_def)
  from DeleteAt_correct [OF tta_shows_plainly this, of 1] show ?thesis by (simp add: tta_GetString) blast
qed

subsection \<open>Insertion keeps the typed keys\<close>

definition raws :: "CharChunk list \<Rightarrow> ustr" where
  "raws cs = concat (map c_raw cs)"

lemma raws_simps [simp]: "raws [] = []" "raws (c # cs) = c_raw c @ raws cs" "raws (cs @ ds) = raws cs @ raws ds"
  by (simp_all add: raws_def)

text \<open>A chunk that keeps its keys, with a table that absorbs none.\<close>

definition key_chunk :: "CharChunk \<Rightarrow> bool" where
  "key_chunk c \<longleftrightarrow> keeps_keys c \<and> table_ok (tbl c) \<and> no_absorb (tbl c)"

lemma key_chunk_Combine: "key_chunk l \<Longrightarrow> key_chunk c \<Longrightarrow> key_chunk (Combine l c)"
  by (simp add: key_chunk_def keeps_keys_def Combine_def tbl_def)

lemma key_chunk_New: "table_ok (ptr_table p) \<Longrightarrow> no_absorb (ptr_table p) \<Longrightarrow> key_chunk (NewChunk t12r p)"
  by (simp add: key_chunk_def keeps_keys_def plain_input_def)

lemma split_at: "it < length cs \<Longrightarrow> cs = take it cs @ cs ! it # drop (Suc it) cs"
  by (simp add: id_take_nth_drop)

lemma list_all_take_drop: "list_all P cs \<Longrightarrow> list_all P (take n cs) \<and> list_all P (drop n cs)"
  by (metis append_take_drop_id list_all_append)

lemma combine_pending_keys:
  assumes "combine_pending t12r p next it cs = (it', cs')" "it < length cs" "list_all key_chunk cs"
  shows "it' < length cs' \<and> list_all key_chunk cs' \<and> raws (take (Suc it') cs') = raws (take (Suc it) cs) \<and>
    drop (Suc it') cs' = drop (Suc it) cs"
  using assms
proof (induction it arbitrary: cs)
  case (Suc it)
  show ?case
  proof (cases "IsConvertible (cs ! it) t12r p (c_pending (cs ! Suc it) @ next)")
    case True
    let ?cs = "take it cs @ [Combine (cs ! it) (cs ! Suc it)] @ drop (Suc (Suc it)) cs"
    have g: "key_chunk (cs ! it)" "key_chunk (cs ! Suc it)" using Suc.prems(2,3) by (simp_all add: list_all_length)
    have "list_all key_chunk ?cs"
      using key_chunk_Combine [OF g] list_all_take_drop [OF Suc.prems(3)] by simp
    moreover have "it < length ?cs" using Suc.prems(2) by simp
    moreover have "combine_pending t12r p next it ?cs = (it', cs')" using Suc.prems(1) True by simp
    ultimately have I: "it' < length cs'" "list_all key_chunk cs'" "raws (take (Suc it') cs') = raws (take (Suc it) ?cs)"
      "drop (Suc it') cs' = drop (Suc it) ?cs"
      using Suc.IH [of ?cs] by simp_all
    have "raws (take (Suc it) ?cs) = raws (take (Suc (Suc it)) cs)"
      using Suc.prems(2) by (simp add: take_Suc_conv_app_nth Combine_def)
    then show ?thesis using I Suc.prems(2) by simp
  qed (use Suc.prems in auto)
qed auto

lemma AddCompositionInput_keys:
  assumes "AddCompositionInput fuel c i = Ret (c', i')" "key_chunk c" "plain_input (in_raw i)" "in_conversion i = []"
  shows "key_chunk c' \<and> c_raw c' @ in_raw i' = c_raw c @ in_raw i \<and> plain_input (in_raw i') \<and> in_conversion i' = []"
proof (cases "ShouldInsertNewChunk (c\<lparr>c_local_length_cache := None\<rparr>) i")
  case True
  then show ?thesis using assms by (auto simp: AddCompositionInput_def key_chunk_def keeps_keys_def tbl_def)
next
  case False
  obtain r d where a: "AddInput fuel (c\<lparr>c_local_length_cache := None\<rparr>) (in_raw i) = Ret (r, d)"
    "c' = d" "i' = i\<lparr>in_raw := r\<rparr>"
    using assms False by (auto simp: AddCompositionInput_def)
  have "keeps_keys (c\<lparr>c_local_length_cache := None\<rparr>)" using assms(2) by (simp add: key_chunk_def keeps_keys_def)
  from AddInput_keeps [OF a(1) _ _ this assms(3)] assms(2) show ?thesis
    using a assms(4) by (auto simp: key_chunk_def tbl_def)
qed

lemma insert_loop_keys:
  assumes "insert_loop fuel C left i cs = Ret (left', cs')" "left < length cs" "list_all key_chunk cs"
    "plain_input (in_raw i)" "in_conversion i = []" "table_ok (ptr_table (comp_table C))"
    "no_absorb (ptr_table (comp_table C))"
  shows "left' < length cs' \<and> list_all key_chunk cs' \<and>
    raws (take (Suc left') cs') = raws (take (Suc left) cs) @ in_raw i \<and>
    drop (Suc left') cs' = drop (Suc left) cs"
  using assms(1-5)
proof (induction fuel arbitrary: left i cs)
  case (Suc fuel)
  obtain c1 i1 where a: "AddCompositionInput (Suc fuel) (cs ! left) i = Ret (c1, i1)"
    and r: "(if Input_Empty i1 then Ret (left, cs[left := c1])
       else (let (l, ds) = InsertChunk C (Suc left) (cs[left := c1])
             in insert_loop fuel C l (i1\<lparr>in_is_new_input := False\<rparr>) ds)) = Ret (left', cs')"
    using Suc.prems(1) by (auto simp: Let_def)
  have "key_chunk (cs ! left)" using Suc.prems(2,3) by (simp add: list_all_length)
  note k = AddCompositionInput_keys [OF a this Suc.prems(4,5)]
  have upd: "cs[left := c1] = take left cs @ c1 # drop (Suc left) cs"
    using Suc.prems(2) by (simp add: upd_conv_take_nth_drop)
  have raw: "raws (take (Suc left) cs) = raws (take left cs) @ c_raw (cs ! left)"
    using Suc.prems(2) by (simp add: take_Suc_conv_app_nth)
  have good: "list_all key_chunk (cs[left := c1])"
    unfolding upd using k list_all_take_drop [OF Suc.prems(3)] by simp
  show ?case
  proof (cases "Input_Empty i1")
    case True
    then have "left' = left" "cs' = cs[left := c1]" "in_raw i1 = []" using r by (auto simp: Input_Empty_def)
    then show ?thesis using k good Suc.prems(2) raw upd by auto
  next
    case False
    let ?ds = "take (Suc left) (cs[left := c1]) @ [NewChunk (input_t12r C) (comp_table C)] @
      drop (Suc left) (cs[left := c1])"
    have "insert_loop fuel C (Suc left) (i1\<lparr>in_is_new_input := False\<rparr>) ?ds = Ret (left', cs')"
      using r False by (simp add: InsertChunk_def)
    moreover have "list_all key_chunk ?ds"
      using list_all_take_drop [OF good, of "Suc left"] key_chunk_New [OF assms(6,7)]
      by (simp only: list_all_append list.pred_inject)
    ultimately have I: "left' < length cs'" "list_all key_chunk cs'"
      "raws (take (Suc left') cs') = raws (take (Suc (Suc left)) ?ds) @ in_raw i1"
      "drop (Suc left') cs' = drop (Suc (Suc left)) ?ds"
      using Suc.IH [of "Suc left" "i1\<lparr>in_is_new_input := False\<rparr>" ?ds] Suc.prems(2) k by simp_all
    have "raws (take (Suc (Suc left)) ?ds) = raws (take left cs) @ c_raw c1"
      using Suc.prems(2) unfolding upd by simp
    moreover have "drop (Suc (Suc left)) ?ds = drop (Suc left) cs"
      using Suc.prems(2) unfolding upd by simp
    ultimately show ?thesis using I k raw by simp
  qed
qed simp

lemma skip_invisible_le: "skip_invisible E t12r cs \<le> length cs"
  by (induction cs) auto

lemma GetInsertionChunk_keys:
  assumes "GetInsertionChunk C it cs = (left, cs')" "it \<le> length cs" "list_all key_chunk cs"
    "table_ok (ptr_table (comp_table C))" "no_absorb (ptr_table (comp_table C))"
  shows "left < length cs' \<and> list_all key_chunk cs' \<and> raws (take (Suc left) cs') = raws (take it cs) \<and>
    drop (Suc left) cs' = drop it cs"
proof -
  have new: "InsertChunk C it cs = (left, cs') \<Longrightarrow> ?thesis"
    using assms(2) key_chunk_New [OF assms(4,5)] list_all_take_drop [OF assms(3)]
    by (auto simp: InsertChunk_def)
  show ?thesis
  proof (cases "it = 0 \<or> \<not> IsAppendable (cs ! (it - 1)) (input_t12r C) (comp_table C)")
    case True
    then show ?thesis using assms(1) new by (auto simp: GetInsertionChunk_def split: if_splits)
  next
    case False
    then show ?thesis using assms(1-3) by (auto simp: GetInsertionChunk_def)
  qed
qed

lemma InsertInput_keeps:
  assumes "InsertInput E fuel pos i C = Ret (x, C')" and split: "MaybeSplitChunkAt E pos (chunks C) = (it, cs)"
    and good: "it \<le> length cs" "list_all key_chunk cs"
    and tab: "table_ok (ptr_table (comp_table C))" "no_absorb (ptr_table (comp_table C))"
    and inp: "plain_input (in_raw i)" "in_conversion i = []" "in_raw i \<noteq> []"
  shows "raws (chunks C') = raws (take (it + skip_invisible E (input_t12r C) (drop it cs)) cs) @ in_raw i @
    raws (drop (it + skip_invisible E (input_t12r C) (drop it cs)) cs) \<and>
    list_all key_chunk (chunks C') \<and> comp_table C' = comp_table C \<and> input_t12r C' = input_t12r C"
proof -
  define right where "right = it + skip_invisible E (input_t12r C) (drop it cs)"
  have r: "right \<le> length cs" using skip_invisible_le [of E "input_t12r C" "drop it cs"] good(1) by (simp add: right_def)
  obtain l1 cs1 where g: "GetInsertionChunk C right cs = (l1, cs1)" by fastforce
  note G = GetInsertionChunk_keys [OF g r good(2) tab]
  obtain l2 cs2 where c: "CombinePendingChunks C l1 i cs1 = (l2, cs2)" by fastforce
  have K: "l2 < length cs2 \<and> list_all key_chunk cs2 \<and> raws (take (Suc l2) cs2) = raws (take (Suc l1) cs1) \<and>
      drop (Suc l2) cs2 = drop (Suc l1) cs1"
    using c G combine_pending_keys [of "input_t12r C" "comp_table C" _ l1 cs1 l2 cs2]
    by (auto simp: CombinePendingChunks_def Let_def split: if_splits)
  obtain l cs3 where s: "insert_loop fuel C l2 i cs2 = Ret (l, cs3)" and
    res: "(if c_raw (cs3 ! l) = [] \<and> c_conversion (cs3 ! l) = [] \<and> c_pending (cs3 ! l) = []
       then (x, C') = (GetPosition E T_LOCAL l (take l cs3 @ drop (Suc l) cs3),
                       C\<lparr>chunks := take l cs3 @ drop (Suc l) cs3\<rparr>)
       else (x, C') = (GetPosition E T_LOCAL (Suc l) cs3, C\<lparr>chunks := cs3\<rparr>))"
    using assms(1) inp(3) split g c
    by (auto simp: InsertInput_def Input_Empty_def Let_def right_def [symmetric] split: if_splits)
  have L: "l < length cs3" "list_all key_chunk cs3"
    "raws (take (Suc l) cs3) = raws (take right cs) @ in_raw i" "drop (Suc l) cs3 = drop right cs"
    using insert_loop_keys [OF s _ _ inp(1,2) tab] K G by auto
  have all: "raws cs3 = raws (take right cs) @ in_raw i @ raws (drop right cs)"
    using L(3,4) by (metis append.assoc append_take_drop_id raws_simps(3))
  show ?thesis
  proof (cases "c_raw (cs3 ! l) = [] \<and> c_conversion (cs3 ! l) = [] \<and> c_pending (cs3 ! l) = []")
    case True
    have "raws (take l cs3 @ drop (Suc l) cs3) = raws cs3"
      using arg_cong [OF split_at [OF L(1)], of raws] True by simp
    then show ?thesis
      using res True all list_all_take_drop [OF L(2)] unfolding right_def [symmetric] by auto
  next
    case False
    then have "C' = C\<lparr>chunks := cs3\<rparr>" using res by (metis prod.inject)
    then show ?thesis using all L(2) unfolding right_def [symmetric] by simp
  qed
qed

lemma MaybeSplitChunkAt_le:
  assumes "MaybeSplitChunkAt E position cs = (it, cs')"
  shows "it \<le> length cs'"
proof (cases "cs = []")
  case False
  obtain i inner where g: "GetChunkAt E position T_LOCAL cs = (i, inner)" by fastforce
  then show ?thesis using assms GetChunkAt_spec [OF g False]
    by (auto simp: MaybeSplitChunkAt_def split: if_splits option.splits prod.splits)
qed (use assms in \<open>simp add: MaybeSplitChunkAt_def\<close>)

text \<open>Only a position inside a chunk is split: at both ends of the composition the chunks stay.\<close>

lemma MaybeSplitChunkAt_ends:
  assumes "MaybeSplitChunkAt E position cs = (it, cs')" "position = 0 \<or> total_length E T_LOCAL cs \<le> position"
  shows "cs' = cs"
proof (cases "cs = []")
  case False
  obtain i inner where g: "GetChunkAt E position T_LOCAL cs = (i, inner)" by fastforce
  note s = GetChunkAt_spec [OF g False]
  have "total_length E T_LOCAL cs = GetPosition E T_LOCAL (Suc i) cs + total_length E T_LOCAL (drop (Suc i) cs)"
    using arg_cong [OF append_take_drop_id [of "Suc i" cs], of "total_length E T_LOCAL"]
    by (simp add: GetPosition_total del: append_take_drop_id)
  moreover have "GetPosition E T_LOCAL (Suc i) cs = GetPosition E T_LOCAL i cs + chunk_length E T_LOCAL (cs ! i)"
    using s by (simp add: GetPosition_total take_Suc_conv_app_nth)
  ultimately have "i = 0 \<and> inner = 0 \<or> inner = chunk_length E T_LOCAL (cs ! i)"
    using s assms(2) by auto
  then show ?thesis using assms(1) g by (auto simp: MaybeSplitChunkAt_def split: if_splits)
qed (use assms(1) in \<open>simp add: MaybeSplitChunkAt_def\<close>)

text \<open>
  \<open>C1\<close>: Inserting typed keys loses, doubles and reorders none of them: if \<^verbatim>\<open>InsertInput\<close> returns, whatever new
  chunks it has made and whichever pending chunks it has combined, the keys of the composition are the keys of
  the chunks left of the point of insertion, the typed keys and the keys of the chunks right of it, in this
  order. The point of insertion is behind the cut that \<^verbatim>\<open>MaybeSplitChunkAt\<close> makes at the position and the chunks
  behind it that show nothing; the keys left and right are those of the chunks after this cut. Inside a chunk
  the cut may already have replaced typed keys by halves of the converted text, which this theorem does not
  exclude; at both ends of the composition nothing is cut, and they are the keys of the chunks as they were.
  The input is not empty, has no special keys and comes without a conversion of its own; the tables of the
  composition and of its chunks after the cut are well-formed and have no \<^verbatim>\<open>NO_TRANSLITERATION\<close> rules, which erase keys,
  and these chunks hold no special keys and have not this attribute (\<open>key_chunk\<close>).
\<close>

theorem InsertInput_keeps_keys:
  assumes "InsertInput E fuel pos i C = Ret (x, C')" and "MaybeSplitChunkAt E pos (chunks C) = (it, cs)"
    and "list_all key_chunk cs" and "table_ok (ptr_table (comp_table C))"
    and "no_absorb (ptr_table (comp_table C))"
    and "plain_input (in_raw i)" and "in_conversion i = []" and "in_raw i \<noteq> []"
  shows "(let right = it + skip_invisible E (input_t12r C) (drop it cs) in
    raws (chunks C') = raws (take right cs) @ in_raw i @ raws (drop right cs)) \<and>
    (pos = 0 \<or> Composition_GetLength E C \<le> pos \<longrightarrow> cs = chunks C)"
  using InsertInput_keeps [OF assms(1,2) MaybeSplitChunkAt_le [OF assms(2)] assms(3-8)]
    MaybeSplitChunkAt_ends [OF assms(2)]
  by (simp add: Let_def Composition_GetLength_def)

subsection \<open>Insertion returns\<close>

lemma AddInputInternal_raw_nonempty:
  assumes "AddInputInternal c inp = Ret (l, r, c')" "c_raw c \<noteq> []"
  shows "c_raw c' \<noteq> [] \<or> r = []"
proof -
  obtain x n f where p: "Table_LookUpPrefix (tbl c) (c_pending c @ inp) = (x, n, f)"
    by (metis prod_cases3)
  let ?c = "c\<lparr>c_local_length_cache := None\<rparr>"
  have no: "c_raw c' \<noteq> []" if "add_input_no_entry ?c inp n = (l, r, c')"
  proof (cases "n \<le> length (c_pending c) \<and> HasDisplayAmbiguousResultFallback ?c")
    case True
    then show ?thesis using that
      by (auto simp: add_input_no_entry_def RestoreDisplayAmbiguousResultFallback_def
          HasDisplayAmbiguousResultFallback_def ClearDisplayAmbiguousResultFallback_def Let_def split: prod.splits)
  next
    case False
    then show ?thesis using that assms(2)
      by (auto simp: add_input_no_entry_def Let_def split: if_splits prod.splits)
  qed
  have e: "c_raw c' \<noteq> [] \<or> r = []" if "add_input_entry ?c inp e n f = Ret (l, r, c')" for e
    using that assms(2) by (auto simp: add_input_entry_def Let_def split: if_splits)
  show ?thesis using assms(1) no e by (cases x) (auto simp: AddInputInternal_def p)
qed

definition progress :: "nat \<Rightarrow> CharChunk \<Rightarrow> ustr \<Rightarrow> bool" where
  "progress L c r \<longleftrightarrow> length (c_raw c) + length r \<le> L \<and> (c_raw c \<noteq> [] \<or> length r < L)"

lemma AddInputInternal_progress:
  assumes "AddInputInternal c inp = Ret (l, r, c')" "progress L c inp" "0 < L"
  shows "progress L c' r"
proof -
  have "length (c_raw c' @ r) \<le> length (c_raw c @ inp)"
    using AddInputInternal_subseq [OF assms(1)] by (rule list_emb_length)
  moreover have "c_raw c' \<noteq> [] \<or> length r < L"
    using calculation assms(2,3) AddInputInternal_raw_nonempty [OF assms(1)]
    by (cases "c_raw c = []") (auto simp: progress_def)
  ultimately show ?thesis using assms(2) by (auto simp: progress_def)
qed

lemma AddInput_progress:
  "AddInput fuel c inp = Ret (r, c') \<Longrightarrow> progress L c inp \<Longrightarrow> 0 < L \<Longrightarrow> progress L c' r"
proof (induction fuel arbitrary: c inp)
  case (Suc fuel)
  obtain l r1 c1 where s: "AddInputInternal c inp = Ret (l, r1, c1)"
    "(if l then AddInput fuel c1 r1 else Ret (r1, c1)) = Ret (r, c')"
    using Suc.prems(1) by auto
  then show ?case using AddInputInternal_progress [OF s(1) Suc.prems(2,3)] Suc.IH [of c1 r1] Suc.prems(3)
    by (cases l) auto
qed simp

text \<open>A new chunk takes at least one character of the input.\<close>

definition fresh :: "CharChunk \<Rightarrow> bool" where
  "fresh c \<longleftrightarrow> c_raw c = [] \<and> c_conversion c = [] \<and> c_pending c = [] \<and> c_dar_raw c = []"

lemma fresh_New [simp]: "fresh (NewChunk t12r p)"
  by (simp add: fresh_def)

lemma AddInputInternal_fresh:
  assumes "AddInputInternal c inp = Ret (l, r, c')" "fresh c" "inp \<noteq> []" "table_ok (tbl c)"
    "Table_LookUp (tbl c) [] = None"
  shows "progress (length inp) c' r"
proof -
  obtain x n f where p: "Table_LookUpPrefix (tbl c) inp = (x, n, f)"
    by (metis prod_cases3)
  note spec = Table_LookUpPrefix_spec [OF assms(4) p]
  have len: "length (c_raw c' @ r) \<le> length inp"
    using list_emb_length [OF AddInputInternal_subseq [OF assms(1)]] assms(2) by (simp add: fresh_def)
  have "c_raw c' \<noteq> [] \<or> length r < length inp"
  proof (cases x)
    case None
    then show ?thesis using assms(1-3) p spec
      by (auto simp: AddInputInternal_def add_input_no_entry_def fresh_def HasDisplayAmbiguousResultFallback_def
          Let_def split: if_splits)
  next
    case (Some e)
    then have "n \<noteq> 0" using spec assms(5) by (metis option.distinct(1) take0)
    moreover have "add_input_entry (c\<lparr>c_local_length_cache := None\<rparr>) inp e n f = Ret (l, r, c')"
      using assms(1,2) p Some by (simp add: AddInputInternal_def fresh_def)
    ultimately show ?thesis using assms(2,3) spec
      by (auto simp: add_input_entry_def fresh_def Let_def split: if_splits)
  qed
  then show ?thesis using len by (auto simp: progress_def)
qed

lemma AddInput_fresh:
  assumes "AddInput fuel c inp = Ret (r, c')" "fresh c" "inp \<noteq> []" "table_ok (tbl c)"
    "Table_LookUp (tbl c) [] = None"
  shows "length r < length inp"
proof (cases fuel)
  case (Suc n)
  obtain l r1 c1 where s: "AddInputInternal c inp = Ret (l, r1, c1)"
    "(if l then AddInput n c1 r1 else Ret (r1, c1)) = Ret (r, c')"
    using assms(1) Suc by auto
  have "progress (length inp) c1 r1" by (rule AddInputInternal_fresh [OF s(1) assms(2-5)])
  then have "progress (length inp) c' r"
    using s(2) AddInput_progress [of n c1 r1 r c' "length inp"] assms(3) by (cases l) auto
  then show ?thesis by (auto simp: progress_def simp flip: length_greater_0_conv)
qed (use assms(1) in simp)

text \<open>What the termination of an insertion needs of a table.\<close>

definition well_ranked :: "(ustr \<Rightarrow> nat) \<Rightarrow> nat \<Rightarrow> Table \<Rightarrow> bool" where
  "well_ranked rank bound t \<longleftrightarrow>
     table_ok t \<and> ranked rank bound t \<and> safe_table t \<and> Table_LookUp t [] = None \<and> 0 < bound"

lemma fresh_step_ok: "well_ranked rank bound (ptr_table p) \<Longrightarrow> step_ok rank bound (NewChunk t12r p)"
  by (simp add: well_ranked_def step_ok_def)

lemma ShouldInsertNewChunk_fresh: "fresh c \<Longrightarrow> \<not> ShouldInsertNewChunk c i"
  by (simp add: fresh_def ShouldInsertNewChunk_def)

lemma AddCompositionInput_returns:
  assumes "step_ok rank bound c" "0 < bound" "in_conversion i = []"
    "length (in_raw i) * bound + rank (c_pending c) < fuel"
  shows "\<exists>c' i'. AddCompositionInput fuel c i = Ret (c', i') \<and> in_conversion i' = [] \<and>
    length (in_raw i') \<le> length (c_raw c) + length (in_raw i)"
proof (cases "ShouldInsertNewChunk (c\<lparr>c_local_length_cache := None\<rparr>) i")
  case True
  then show ?thesis using assms(3) by (simp add: AddCompositionInput_def)
next
  case False
  let ?c = "c\<lparr>c_local_length_cache := None\<rparr>"
  have "step_ok rank bound ?c" using assms(1) by (simp add: step_ok_def)
  then obtain r d where a: "AddInput fuel ?c (in_raw i) = Ret (r, d)"
    using AddInput_returns [of rank bound ?c "in_raw i" fuel] assms(2,4) by (auto simp: input_measure_def)
  have "length (c_raw d @ r) \<le> length (c_raw ?c @ in_raw i)"
    using AddInput_subseq [OF a] by (rule list_emb_length)
  then show ?thesis using a False assms(3) by (simp add: AddCompositionInput_def)
qed

lemma AddCompositionInput_fresh:
  assumes "AddCompositionInput fuel c i = Ret (c', i')" "fresh c" "in_conversion i = []" "in_raw i \<noteq> []"
    "table_ok (tbl c)" "Table_LookUp (tbl c) [] = None"
  shows "length (in_raw i') < length (in_raw i)"
proof -
  let ?c = "c\<lparr>c_local_length_cache := None\<rparr>"
  have f: "fresh ?c" using assms(2) by (simp add: fresh_def)
  obtain r d where a: "AddInput fuel ?c (in_raw i) = Ret (r, d)" "i' = i\<lparr>in_raw := r\<rparr>"
    using assms(1,3) ShouldInsertNewChunk_fresh [OF f] by (auto simp: AddCompositionInput_def)
  from AddInput_fresh [OF a(1) f assms(4)] show ?thesis using a(2) assms(5,6) by simp
qed

lemma insert_loop_fresh:
  assumes "well_ranked rank bound (ptr_table (comp_table C))" "left < length cs"
    "cs ! left = NewChunk (input_t12r C) (comp_table C)" "in_conversion i = []" "in_raw i \<noteq> []"
    "length (in_raw i) * Suc bound + rank [] < fuel"
  shows "\<exists>left' cs'. insert_loop fuel C left i cs = Ret (left', cs')"
  using assms(2-)
proof (induction fuel arbitrary: left cs i)
  case (Suc fuel)
  let ?c = "NewChunk (input_t12r C) (comp_table C)"
  note w = assms(1) [unfolded well_ranked_def]
  have ok: "step_ok rank bound ?c" using fresh_step_ok [OF assms(1)] .
  have "length (in_raw i) * bound + rank (c_pending ?c) < Suc fuel" using Suc.prems(5) by simp
  then obtain c1 i1 where a: "AddCompositionInput (Suc fuel) ?c i = Ret (c1, i1)" "in_conversion i1 = []"
    using AddCompositionInput_returns [OF ok _ Suc.prems(3)] w by blast
  have less: "length (in_raw i1) < length (in_raw i)"
    using AddCompositionInput_fresh [OF a(1) _ Suc.prems(3,4)] w by simp
  show ?case
  proof (cases "Input_Empty i1")
    case True
    then show ?thesis using Suc.prems(2) a by simp
  next
    case False
    let ?i = "i1\<lparr>in_is_new_input := False\<rparr>"
    let ?ds = "take (Suc left) (cs[left := c1]) @ [?c] @ drop (Suc left) (cs[left := c1])"
    have "Suc (length (in_raw i1)) * Suc bound \<le> length (in_raw i) * Suc bound"
      using less by (intro mult_le_mono1) simp
    then have "length (in_raw ?i) * Suc bound + rank [] < fuel" using Suc.prems(5) by simp
    moreover have "?ds ! Suc left = ?c" "Suc left < length ?ds" using Suc.prems(1) by (simp_all add: nth_append)
    moreover have "in_raw ?i \<noteq> []" "in_conversion ?i = []" using False a(2) by (auto simp: Input_Empty_def)
    ultimately have "\<exists>left' cs'. insert_loop fuel C (Suc left) ?i ?ds = Ret (left', cs')"
      by (intro Suc.IH)
    then show ?thesis using Suc.prems(2) a(1) False by (simp add: InsertChunk_def)
  qed
qed simp

text \<open>Two pending chunks that are combined form the beginning of the key of a rule.\<close>

lemma combine_pending_ok:
  assumes "combine_pending t12r p next it cs = (it', cs')" "it < length cs"
    "step_ok rank bound (cs ! it)" "c_table (cs ! it) = p" "\<forall>c\<in>set cs. ptr_addr (c_table c) = ptr_addr p \<longrightarrow> c_table c = p"
  shows "it' < length cs' \<and> step_ok rank bound (cs' ! it') \<and> c_table (cs' ! it') = p"
  using assms
proof (induction it arbitrary: cs)
  case (Suc it)
  show ?case
  proof (cases "IsConvertible (cs ! it) t12r p (c_pending (cs ! Suc it) @ next)")
    case True
    let ?l = "cs ! it" and ?r = "cs ! Suc it"
    let ?c = "Combine ?l ?r"
    let ?cs = "take it cs @ [?c] @ drop (Suc (Suc it)) cs"
    let ?key = "c_pending ?l @ c_pending ?r @ next"
    obtain e n f where p: "Table_LookUpPrefix (ptr_table p) ?key = (Some e, n, f)" "n = length ?key"
      using True by (auto simp: IsConvertible_def Let_def split: if_splits prod.splits)
    have ok: "table_ok (ptr_table p)" "tbl ?r = ptr_table p"
      using Suc.prems(3,4) by (auto simp: step_ok_def tbl_def)
    have "Table_LookUp (ptr_table p) ?key = Some e"
      using Table_LookUpPrefix_spec [OF ok(1) p(1)] p(2) by simp
    then have "LookUp (entries (ptr_table p)) (normalize (ptr_table p) (c_pending ?l @ c_pending ?r) @
        normalize (ptr_table p) next) = Some e"
      by (simp add: Table_LookUp_normalize normalize_append)
    then have "safe_pending (ptr_table p) (c_pending ?l @ c_pending ?r)"
      unfolding safe_pending_def by (intro disjI2 exI [of _ "normalize (ptr_table p) next"]) simp
    then have "step_ok rank bound ?c" "c_table ?c = p"
      using Suc.prems(3,4) ok(2) by (simp_all add: step_ok_def Combine_def tbl_def)
    moreover have "?cs ! it = ?c" "it < length ?cs" using Suc.prems(2) by (simp_all add: nth_append)
    moreover have "\<forall>c\<in>set ?cs. ptr_addr (c_table c) = ptr_addr p \<longrightarrow> c_table c = p"
      using Suc.prems(5) \<open>c_table ?c = p\<close> by (auto dest: in_set_takeD in_set_dropD)
    moreover have "combine_pending t12r p next it ?cs = (it', cs')" using Suc.prems(1) True by simp
    ultimately show ?thesis using Suc.IH [of ?cs] by simp
  qed (use Suc.prems in auto)
qed auto

lemma GetInsertionChunk_ok:
  assumes "GetInsertionChunk C it cs = (left, cs')" "it \<le> length cs"
    "well_ranked rank bound (ptr_table (comp_table C))" "\<forall>c\<in>set cs. step_ok rank bound c"
    "\<forall>c\<in>set cs. ptr_addr (c_table c) = ptr_addr (comp_table C) \<longrightarrow> c_table c = comp_table C"
  shows "left < length cs' \<and> step_ok rank bound (cs' ! left) \<and> c_table (cs' ! left) = comp_table C \<and>
    (\<forall>c\<in>set cs'. ptr_addr (c_table c) = ptr_addr (comp_table C) \<longrightarrow> c_table c = comp_table C)"
proof (cases "it = 0 \<or> \<not> IsAppendable (cs ! (it - 1)) (input_t12r C) (comp_table C)")
  case True
  then have "cs' = take it cs @ [NewChunk (input_t12r C) (comp_table C)] @ drop it cs" "left = it"
    using assms(1) by (auto simp: GetInsertionChunk_def InsertChunk_def split: if_splits)
  then show ?thesis using fresh_step_ok [OF assms(3)] assms(2,5)
    by (auto simp: nth_append dest: in_set_takeD in_set_dropD)
next
  case False
  then have l: "left = it - 1" "cs' = cs" "left < length cs"
    using assms(1,2) by (auto simp: GetInsertionChunk_def)
  then have "cs ! left \<in> set cs" by simp
  then show ?thesis using assms(4,5) l False by (auto simp: IsAppendable_def)
qed

lemma insert_loop_returns:
  assumes "well_ranked rank bound (ptr_table (comp_table C))" "left < length cs"
    "step_ok rank bound (cs ! left)" "in_conversion i = []"
    "(length (c_raw (cs ! left)) + length (in_raw i)) * Suc bound + rank (c_pending (cs ! left)) + rank [] + 1 < fuel"
  shows "\<exists>left' cs'. insert_loop fuel C left i cs = Ret (left', cs')"
proof -
  obtain n where n: "fuel = Suc n" using assms(5) by (cases fuel) auto
  have b: "0 < bound" using assms(1) by (simp add: well_ranked_def)
  let ?c = "cs ! left"
  have "length (in_raw i) * bound + rank (c_pending ?c) < Suc n"
    using assms(5) n by (simp add: add_mult_distrib)
  then obtain c1 i1 where a: "AddCompositionInput (Suc n) ?c i = Ret (c1, i1)" "in_conversion i1 = []"
    "length (in_raw i1) \<le> length (c_raw ?c) + length (in_raw i)"
    using AddCompositionInput_returns [OF assms(3) b assms(4)] by blast
  show ?thesis
  proof (cases "Input_Empty i1")
    case True
    then show ?thesis using a n by simp
  next
    case False
    let ?i = "i1\<lparr>in_is_new_input := False\<rparr>"
    let ?new = "NewChunk (input_t12r C) (comp_table C)"
    let ?ds = "take (Suc left) (cs[left := c1]) @ [?new] @ drop (Suc left) (cs[left := c1])"
    have "length (in_raw i1) * Suc bound \<le> (length (c_raw ?c) + length (in_raw i)) * Suc bound"
      using a(3) by (rule mult_le_mono1)
    then have "length (in_raw ?i) * Suc bound + rank [] < n" using assms(5) n by simp
    moreover have "?ds ! Suc left = ?new" "Suc left < length ?ds" using assms(2) by (simp_all add: nth_append)
    moreover have "in_raw ?i \<noteq> []" "in_conversion ?i = []" using False a(2) by (auto simp: Input_Empty_def)
    ultimately have "\<exists>left' cs'. insert_loop n C (Suc left) ?i ?ds = Ret (left', cs')"
      using insert_loop_fresh [OF assms(1)] by blast
    then show ?thesis using a(1) False n by (simp add: InsertChunk_def)
  qed
qed

text \<open>Input that brings its conversion needs at most two more chunks.\<close>

lemma AddInputAndConvertedChar_fresh:
  "fresh c \<Longrightarrow> Input_Empty (snd (AddInputAndConvertedChar c i))"
  by (auto simp: AddInputAndConvertedChar_def fresh_def Input_Empty_def Input_Clear_def EmptyInput_def Let_def
      split: option.splits)

lemma AddInputAndConvertedChar_rest:
  assumes "table_ok (tbl c)" "AddInputAndConvertedChar c i = (c', i')" "\<not> Input_Empty i'" "in_conversion i \<noteq> []"
  shows "in_conversion i' \<noteq> []"
proof -
  obtain x n f where p: "Table_LookUpPrefix (tbl c) (c_pending c @ in_conversion i) = (x, n, f)"
    by (metis prod_cases3)
  have "n \<le> length (c_pending c @ in_conversion i)" using Table_LookUpPrefix_spec [OF assms(1) p] by simp
  then show ?thesis using assms(2-4) p
    by (auto simp: AddInputAndConvertedChar_def Input_Empty_def Input_Clear_def EmptyInput_def Let_def
        split: if_splits option.splits)
qed

lemma insert_loop_conversion:
  assumes "in_conversion i \<noteq> []" "left < length cs" "table_ok (tbl (cs ! left))" "1 < fuel"
  shows "\<exists>left' cs'. insert_loop fuel C left i cs = Ret (left', cs')"
proof -
  obtain n where n: "fuel = Suc (Suc n)" using assms(4) less_imp_Suc_add [of 1 fuel] by auto
  let ?c0 = "(cs ! left)\<lparr>c_local_length_cache := None\<rparr>"
  obtain c1 i1 where a: "AddInputAndConvertedChar ?c0 i = (c1, i1)" by fastforce
  show ?thesis
  proof (cases "Input_Empty i1")
    case True
    then show ?thesis using n a assms(1) by (simp add: AddCompositionInput_def)
  next
    case False
    let ?new = "NewChunk (input_t12r C) (comp_table C)"
    let ?ds = "take (Suc left) (cs[left := c1]) @ [?new] @ drop (Suc left) (cs[left := c1])"
    have "in_conversion i1 \<noteq> []"
      using AddInputAndConvertedChar_rest [OF _ a False assms(1)] assms(3) by simp
    moreover have "?ds ! Suc left = ?new" using assms(2) by (simp add: nth_append)
    moreover have "Input_Empty (snd (AddInputAndConvertedChar (?new\<lparr>c_local_length_cache := None\<rparr>)
        (i1\<lparr>in_is_new_input := False\<rparr>)))"
      by (rule AddInputAndConvertedChar_fresh) (simp add: fresh_def)
    ultimately show ?thesis using n a False assms(1)
      by (auto simp: AddCompositionInput_def InsertChunk_def Let_def split: prod.split)
  qed
qed

text \<open>
  \<open>C3\<close>: \<^verbatim>\<open>InsertInput\<close> returns, for every position and every input: there is an amount of fuel from which on
  it gives a result. The table of the composition is well-formed, ranks its pending strings, so that no chain of rules
  rewrites them for ever, is safe, so that no rule that is shorter than a pending string matches it, and has no
  rule for the empty input (\<open>well_ranked\<close>). The chunks, as \<^verbatim>\<open>MaybeSplitChunkAt\<close> cut them at the position, have tables with
  these properties but the last, and pending strings that no shorter rule matches (\<open>step_ok\<close>); a chunk whose table is
  at the address of that of the composition has the same table. Each new chunk takes at least one character of the rest.
\<close>

theorem InsertInput_total:
  assumes "well_ranked rank bound (ptr_table (comp_table C))"
    and "MaybeSplitChunkAt E pos (chunks C) = (it, cs)"
    and "\<forall>c\<in>set cs. step_ok rank bound c \<and>
           (ptr_addr (c_table c) = ptr_addr (comp_table C) \<longrightarrow> c_table c = comp_table C)"
  shows "\<exists>n. \<forall>fuel\<ge>n. \<exists>x C'. InsertInput E fuel pos i C = Ret (x, C')"
proof (cases "Input_Empty i")
  case False
  define right where "right = it + skip_invisible E (input_t12r C) (drop it cs)"
  have r: "right \<le> length cs"
    using skip_invisible_le [of E "input_t12r C" "drop it cs"] MaybeSplitChunkAt_le [OF assms(2)]
    by (simp add: right_def)
  obtain l1 cs1 where g: "GetInsertionChunk C right cs = (l1, cs1)" by fastforce
  note G = GetInsertionChunk_ok [OF g r assms(1)]
  obtain l2 cs2 where c: "CombinePendingChunks C l1 i cs1 = (l2, cs2)" by fastforce
  have G': "l1 < length cs1 \<and> step_ok rank bound (cs1 ! l1) \<and> c_table (cs1 ! l1) = comp_table C \<and>
    (\<forall>c\<in>set cs1. ptr_addr (c_table c) = ptr_addr (comp_table C) \<longrightarrow> c_table c = comp_table C)"
    using G assms(3) by blast
  have K: "l2 < length cs2 \<and> step_ok rank bound (cs2 ! l2)"
    using c G' combine_pending_ok [of "input_t12r C" "comp_table C" _ l1 cs1 l2 cs2 rank bound]
    by (auto simp: CombinePendingChunks_def Let_def split: if_splits)
  have I: "InsertInput E fuel pos i C = obind (insert_loop fuel C l2 i cs2) (\<lambda>(left, cs).
              if c_raw (cs ! left) = [] \<and> c_conversion (cs ! left) = [] \<and> c_pending (cs ! left) = []
              then (let cs' = take left cs @ drop (Suc left) cs
                    in Ret (GetPosition E T_LOCAL left cs', C\<lparr>chunks := cs'\<rparr>))
              else Ret (GetPosition E T_LOCAL (Suc left) cs, C\<lparr>chunks := cs\<rparr>))" for fuel
    using False assms(2) g c by (simp add: InsertInput_def Let_def right_def [symmetric])
  let ?n = "(length (c_raw (cs2 ! l2)) + length (in_raw i)) * Suc bound + rank (c_pending (cs2 ! l2)) + rank [] + 2"
  have "\<exists>x C'. InsertInput E fuel pos i C = Ret (x, C')" if "?n \<le> fuel" for fuel
  proof -
    have "\<exists>left' cs'. insert_loop fuel C l2 i cs2 = Ret (left', cs')"
    proof (cases "in_conversion i = []")
      case True
      have "(length (c_raw (cs2 ! l2)) + length (in_raw i)) * Suc bound + rank (c_pending (cs2 ! l2)) + rank [] + 1 < fuel"
        using that by linarith
      with insert_loop_returns [OF assms(1) _ _ True] K show ?thesis by blast
    next
      case False
      have "table_ok (tbl (cs2 ! l2))" "1 < fuel" using K that by (simp_all add: step_ok_def)
      with insert_loop_conversion [OF False] K show ?thesis by blast
    qed
    then obtain l ds where "insert_loop fuel C l2 i cs2 = Ret (l, ds)" by blast
    then show ?thesis by (simp add: I Let_def)
  qed
  then show ?thesis by blast
qed (simp add: InsertInput_def)

lemma nn_well_ranked: "well_ranked length 2 nn_table"
  by (simp add: well_ranked_def table_ok_nn nn_ranked nn_safe)
    (simp add: nn_table_def Table_LookUp_def LookUp_AddEntry)

lemma MaybeSplitChunkAt_Nil [simp]: "MaybeSplitChunkAt E pos [] = (0, [])"
  by (simp add: MaybeSplitChunkAt_def)

lemma InsertInput_Nil:
  assumes "chunks C = []" "\<not> Input_Empty i"
  shows "InsertInput E fuel pos i C =
    obind (insert_loop fuel C 0 i [NewChunk (input_t12r C) (comp_table C)]) (\<lambda>(left, cs).
      if c_raw (cs ! left) = [] \<and> c_conversion (cs ! left) = [] \<and> c_pending (cs ! left) = []
      then Ret (GetPosition E T_LOCAL left (take left cs @ drop (Suc left) cs),
                C\<lparr>chunks := take left cs @ drop (Suc left) cs\<rparr>)
      else Ret (GetPosition E T_LOCAL (Suc left) cs, C\<lparr>chunks := cs\<rparr>))"
  using assms
  by (simp add: InsertInput_def GetInsertionChunk_def InsertChunk_def CombinePendingChunks_def Let_def
      cong: if_cong)

theorem InsertInput_total_witness:
  "\<exists>n. \<forall>fuel\<ge>n. \<exists>x C'. InsertInput id_env fuel 0 (EmptyInput\<lparr>in_raw := [0x6B, 0x6B]\<rparr>)
     (NewComposition (TablePtr 1 nn_table)) = Ret (x, C')"
  using InsertInput_total [of length 2 "NewComposition (TablePtr 1 nn_table)" id_env 0 0 "[]"] nn_well_ranked
  by (simp add: NewComposition_def)

theorem InsertInput_keeps_keys_witness:
  "\<exists>fuel x C'. InsertInput id_env fuel 0 (EmptyInput\<lparr>in_raw := [0x6B, 0x6B]\<rparr>)
     (NewComposition (TablePtr 1 nn_table)) = Ret (x, C') \<and> raws (chunks C') = [0x6B, 0x6B]"
proof -
  let ?C = "NewComposition (TablePtr 1 nn_table)" and ?i = "EmptyInput\<lparr>in_raw := [0x6B, 0x6B]\<rparr>"
  have well: "well_ranked length 2 (ptr_table (comp_table ?C))"
    by (simp add: NewComposition_def nn_well_ranked)
  have "insert_loop 9 ?C 0 ?i [NewChunk (input_t12r ?C) (comp_table ?C)] \<noteq> Timeout \<and>
      (\<exists>l cs. insert_loop 9 ?C 0 ?i [NewChunk (input_t12r ?C) (comp_table ?C)] = Ret (l, cs))"
    using insert_loop_fresh [OF well, of 0 "[NewChunk (input_t12r ?C) (comp_table ?C)]" ?i 9]
    by (auto simp: EmptyInput_def)
  then obtain l cs where "insert_loop 9 ?C 0 ?i [NewChunk (input_t12r ?C) (comp_table ?C)] = Ret (l, cs)" by blast
  then obtain x C' where r: "InsertInput id_env 9 0 ?i ?C = Ret (x, C')"
    using InsertInput_Nil [of ?C ?i id_env 9 0]
    by (cases "c_raw (cs ! l) = [] \<and> c_conversion (cs ! l) = [] \<and> c_pending (cs ! l) = []")
      (auto simp: NewComposition_def Input_Empty_def)
  have "plain_input (in_raw ?i)"
    by (simp add: plain_input_def IsSpecialKey_def kSpecialKeyBegin_def kSpecialKeyOpen_def)
  from InsertInput_keeps_keys [OF r _ _ _ _ this] show ?thesis
    using r by (auto simp: NewComposition_def EmptyInput_def table_ok_nn nn_no_absorb Let_def)
qed

text \<open>A rule for the empty input, which the table accepts.\<close>

definition empty_rule_table :: Table where
  "empty_rule_table =
     (case AddRule 1 NewTable [] [0x3042] [] of Ret (_, t) \<Rightarrow> t | _ \<Rightarrow> NewTable)"

lemma empty_rule_table_eq:
  "empty_rule_table = NewTable\<lparr>entries := AddEntry EmptyTrie []
     \<lparr>ent_input = [], ent_result = [0x3042], ent_pending = [], ent_attributes = 0\<rparr>\<rparr>"
proof -
  have d: "DeleteSpecialKeys [] = []" using ascii_no_special [of "[]"] by simp
  show ?thesis
    by (simp add: empty_rule_table_def AddRule_def AddRuleWithAttributes_def has_attribute_def
        NO_TABLE_ATTRIBUTE_def add_rule_body_def Register_plain Let_def kMaxSize_def char_size_def d
        has_capital_def IsLoopingEntry_def)
qed

lemma empty_rule_step:
  assumes "inp \<noteq> []" "in_raw i = inp" "in_conversion i = []"
  shows "\<exists>c'. AddCompositionInput (Suc n) (NewChunk t12r (TablePtr 1 empty_rule_table)) i = Ret (c', i)"
proof -
  let ?c = "NewChunk t12r (TablePtr 1 empty_rule_table)"
  have f: "fresh (?c\<lparr>c_local_length_cache := None\<rparr>)" by (simp add: fresh_def)
  have "Table_LookUpPrefix empty_rule_table inp =
      (Some \<lparr>ent_input = [], ent_result = [0x3042], ent_pending = [], ent_attributes = 0\<rparr>, 0, True)"
    using assms(1) by (cases inp)
      (simp_all add: Table_LookUpPrefix_def empty_rule_table_eq EmptyTrie_def FindSubTrie_def
        prefix_here_def LowerString_map)
  then obtain c' where "AddInputInternal (?c\<lparr>c_local_length_cache := None\<rparr>) inp = Ret (False, inp, c')"
    using assms(1) by (auto simp: AddInputInternal_def add_input_entry_def Let_def resolve_entry_def
        ClearDisplayAmbiguousResultFallback_def)
  then have "AddInput (Suc n) (?c\<lparr>c_local_length_cache := None\<rparr>) inp = Ret (inp, c')" by simp
  moreover have "i\<lparr>in_raw := inp\<rparr> = i" using assms(2) by simp
  ultimately show ?thesis using assms ShouldInsertNewChunk_fresh [OF f, of i]
    by (auto simp: AddCompositionInput_def simp del: AddInput.simps)
qed

text \<open>
  \<open>C36\<close>: Without the condition on empty inputs \<^verbatim>\<open>InsertInput\<close> need not return: after the accepted rule
  from the empty input to a result, any key makes it insert new chunks for ever, each of which takes
  the result of the rule and none of the key.
\<close>

theorem InsertInput_diverges:
  "InsertAt E fuel 0 [k] (NewComposition (TablePtr 1 empty_rule_table)) = Timeout"
proof -
  let ?C = "NewComposition (TablePtr 1 empty_rule_table)"
  have loop: "insert_loop n ?C left i cs = Timeout"
    if "left < length cs" "cs ! left = NewChunk (input_t12r ?C) (comp_table ?C)" "in_raw i = [k]" "in_conversion i = []"
    for n left i cs
    using that
  proof (induction n arbitrary: left i cs)
    case (Suc n)
    obtain c' where a: "AddCompositionInput (Suc n) (cs ! left) i = Ret (c', i)"
      using empty_rule_step [of "[k]" i n "input_t12r ?C"] Suc.prems by (auto simp: NewComposition_def)
    let ?ds = "take (Suc left) (cs[left := c']) @ [NewChunk (input_t12r ?C) (comp_table ?C)] @
      drop (Suc left) (cs[left := c'])"
    have "insert_loop n ?C (Suc left) (i\<lparr>in_is_new_input := False\<rparr>) ?ds = Timeout"
      using Suc.prems by (intro Suc.IH) (simp_all add: nth_append)
    then show ?case using a Suc.prems by (simp add: Input_Empty_def InsertChunk_def)
  qed simp
  have "insert_loop fuel ?C 0 (EmptyInput\<lparr>in_raw := [k]\<rparr>) [NewChunk (input_t12r ?C) (comp_table ?C)] = Timeout"
    by (rule loop) (simp_all add: EmptyInput_def)
  then show ?thesis
    using InsertInput_Nil [of ?C "EmptyInput\<lparr>in_raw := [k]\<rparr>" E fuel 0]
    by (simp add: InsertAt_def Input_Empty_def) (simp add: NewComposition_def)
qed

end
