(* ===== verification/Composer.thy ===== *)
theory Composer
  imports Composition
begin

section \<open>The composer\<close>

text \<open>
  \<^verbatim>\<open>composer/composer.h\<close>, \<^verbatim>\<open>composer/composer.cc\<close> and \<^verbatim>\<open>composer/mode_switching_handler.cc\<close>: the
  composition with its cursor, the input modes and the queries that are made of the composition. The
  fields keep the names of the members behind \<open>cm_\<close>, the transliteration types of
  \<^verbatim>\<open>transliteration/transliteration.h\<close> have the prefix \<open>TT_\<close>. Positions and sizes are natural numbers,
  and where the code subtracts two of them the wrap-around of 64 bits is written out. An operation
  that inserts takes the fuel of \<open>InsertInput\<close>.
\<close>

subsection \<open>Modes\<close>

datatype TransliterationType =
    TT_HIRAGANA | TT_FULL_KATAKANA | TT_HALF_ASCII | TT_HALF_ASCII_UPPER | TT_HALF_ASCII_LOWER
  | TT_HALF_ASCII_CAPITALIZED | TT_FULL_ASCII | TT_FULL_ASCII_UPPER | TT_FULL_ASCII_LOWER
  | TT_FULL_ASCII_CAPITALIZED | TT_HALF_KATAKANA

definition TransliterationTypeArray :: "TransliterationType list" where
  "TransliterationTypeArray =
     [TT_HIRAGANA, TT_FULL_KATAKANA, TT_HALF_ASCII, TT_HALF_ASCII_UPPER, TT_HALF_ASCII_LOWER,
      TT_HALF_ASCII_CAPITALIZED, TT_FULL_ASCII, TT_FULL_ASCII_UPPER, TT_FULL_ASCII_LOWER,
      TT_FULL_ASCII_CAPITALIZED, TT_HALF_KATAKANA]"

fun mode_transliterator :: "TransliterationType \<Rightarrow> Transliterator" where
  "mode_transliterator TT_HALF_ASCII = T_HALF_ASCII"
| "mode_transliterator TT_HALF_ASCII_UPPER = T_HALF_ASCII"
| "mode_transliterator TT_HALF_ASCII_LOWER = T_HALF_ASCII"
| "mode_transliterator TT_HALF_ASCII_CAPITALIZED = T_HALF_ASCII"
| "mode_transliterator TT_FULL_ASCII = T_FULL_ASCII"
| "mode_transliterator TT_FULL_ASCII_UPPER = T_FULL_ASCII"
| "mode_transliterator TT_FULL_ASCII_LOWER = T_FULL_ASCII"
| "mode_transliterator TT_FULL_ASCII_CAPITALIZED = T_FULL_ASCII"
| "mode_transliterator TT_HALF_KATAKANA = T_HALF_KATAKANA"
| "mode_transliterator TT_FULL_KATAKANA = T_FULL_KATAKANA"
| "mode_transliterator TT_HIRAGANA = T_HIRAGANA"

definition GetTransliterationType :: "Transliterator \<Rightarrow> TransliterationType \<Rightarrow> TransliterationType" where
  "GetTransliterationType t12r default_type =
     (if t12r = T_HIRAGANA then TT_HIRAGANA
      else if t12r = T_HALF_ASCII then TT_HALF_ASCII
      else if t12r = T_FULL_ASCII then TT_FULL_ASCII
      else if t12r = T_FULL_KATAKANA then TT_FULL_KATAKANA
      else if t12r = T_HALF_KATAKANA then TT_HALF_KATAKANA
      else default_type)"

fun TransliterateType :: "env \<Rightarrow> TransliterationType \<Rightarrow> ustr \<Rightarrow> ustr" where
  "TransliterateType E TT_HALF_KATAKANA inp = FullWidthToHalfWidth E (HiraganaToKatakana E inp)"
| "TransliterateType E TT_HALF_ASCII inp = FullWidthAsciiToHalfWidthAscii E inp"
| "TransliterateType E TT_HALF_ASCII_UPPER inp = UpperString (FullWidthAsciiToHalfWidthAscii E inp)"
| "TransliterateType E TT_HALF_ASCII_LOWER inp = LowerString (FullWidthAsciiToHalfWidthAscii E inp)"
| "TransliterateType E TT_HALF_ASCII_CAPITALIZED inp = CapitalizeString (FullWidthAsciiToHalfWidthAscii E inp)"
| "TransliterateType E TT_FULL_ASCII inp = HalfWidthAsciiToFullWidthAscii E inp"
| "TransliterateType E TT_FULL_ASCII_UPPER inp = UpperString (HalfWidthAsciiToFullWidthAscii E inp)"
| "TransliterateType E TT_FULL_ASCII_LOWER inp = LowerString (HalfWidthAsciiToFullWidthAscii E inp)"
| "TransliterateType E TT_FULL_ASCII_CAPITALIZED inp = CapitalizeString (HalfWidthAsciiToFullWidthAscii E inp)"
| "TransliterateType E TT_FULL_KATAKANA inp = HiraganaToKatakana E inp"
| "TransliterateType E TT_HIRAGANA inp = inp"

fun GetTransliterationTypeFromCompositionMode :: "CompositionMode \<Rightarrow> TransliterationType" where
  "GetTransliterationTypeFromCompositionMode HIRAGANA_MODE = TT_HIRAGANA"
| "GetTransliterationTypeFromCompositionMode FULL_KATAKANA_MODE = TT_FULL_KATAKANA"
| "GetTransliterationTypeFromCompositionMode HALF_ASCII_MODE = TT_HALF_ASCII"
| "GetTransliterationTypeFromCompositionMode FULL_ASCII_MODE = TT_FULL_ASCII"
| "GetTransliterationTypeFromCompositionMode HALF_KATAKANA_MODE = TT_HALF_KATAKANA"
| "GetTransliterationTypeFromCompositionMode DIRECT = TT_HIRAGANA"

datatype InputFieldType = FIELD_NORMAL | FIELD_PASSWORD | FIELD_TEL | FIELD_NUMBER

subsection \<open>Mode switching by the typed word\<close>

datatype ModeSwitching =
    NO_CHANGE | REVERT_TO_PREVIOUS_MODE | PREFERRED_ALPHANUMERIC | HALF_ALPHANUMERIC | FULL_ALPHANUMERIC

record Rule =
  display_mode :: ModeSwitching
  rule_input_mode :: ModeSwitching

definition IsDriveLetter :: "ustr \<Rightarrow> bool" where
  "IsDriveLetter key \<longleftrightarrow>
     byte_size key = 3 \<and>
     (case key of
        [a, b, c] \<Rightarrow> ((0x41 \<le> a \<and> a \<le> 0x5A) \<or> (0x61 \<le> a \<and> a \<le> 0x7A)) \<and> b = 0x3A \<and> c = 0x5C
      | _ \<Rightarrow> False)"

definition GetModeSwitchingRule :: "ustr \<Rightarrow> Rule" where
  "GetModeSwitchingRule key =
     (if key \<in> {ascii ''google'', ascii ''Google'', ascii ''Chrome'', ascii ''chrome'',
                ascii ''Android'', ascii ''android''}
      then \<lparr>display_mode = PREFERRED_ALPHANUMERIC, rule_input_mode = REVERT_TO_PREVIOUS_MODE\<rparr>
      else if key \<in> {ascii ''http'', ascii ''www.'', [0x5C, 0x5C]}
      then \<lparr>display_mode = HALF_ALPHANUMERIC, rule_input_mode = HALF_ALPHANUMERIC\<rparr>
      else if IsDriveLetter key
      then \<lparr>display_mode = HALF_ALPHANUMERIC, rule_input_mode = HALF_ALPHANUMERIC\<rparr>
      else \<lparr>display_mode = NO_CHANGE, rule_input_mode = NO_CHANGE\<rparr>)"

subsection \<open>Characters of numbers\<close>

datatype Script = S_ALPHABET | S_NUMBER | S_JA_HYPHEN | S_JA_COMMA | S_JA_PERIOD | S_OTHER

definition IsAlphabetOrNumber :: "Script \<Rightarrow> bool" where
  "IsAlphabetOrNumber s \<longleftrightarrow> s = S_ALPHABET \<or> s = S_NUMBER"

text \<open>The script of a character; the operators of the second list do not count as alphanumerics.\<close>

definition char_script :: "char32 \<Rightarrow> Script" where
  "char_script c =
     (if c = 0x30FC then S_JA_HYPHEN
      else if c = 0x3001 then S_JA_COMMA
      else if c = 0x3002 then S_JA_PERIOD
      else if c \<in> {0x2B, 0x2A, 0x2F, 0x3D, 0x28, 0x29, 0x3C, 0x3E,
                   0xFF0B, 0xFF0A, 0xFF0F, 0xFF1D, 0xFF08, 0xFF09, 0xFF1C, 0xFF1E} then S_ALPHABET
      else if GetScriptType c = NUMBER then S_NUMBER
      else if GetScriptType c = ALPHABET then S_ALPHABET
      else S_OTHER)"

definition is_symbol :: "char32 \<Rightarrow> bool" where
  "is_symbol c \<longleftrightarrow> c = 0x30FC \<or> c = 0x3001 \<or> c = 0x3002"

definition is_alphanumeric :: "char32 \<Rightarrow> bool" where
  "is_alphanumeric c \<longleftrightarrow>
     \<not> is_symbol c \<and>
     c \<notin> {0x2B, 0x2A, 0x2F, 0x3D, 0x28, 0x29, 0x3C, 0x3E,
           0xFF0B, 0xFF0A, 0xFF0F, 0xFF1D, 0xFF08, 0xFF09, 0xFF1C, 0xFF1E} \<and>
     (GetScriptType c = NUMBER \<or> GetScriptType c = ALPHABET)"

text \<open>The loop to the left over further hyphens, from \<open>j\<close>.\<close>

fun hyphen_check :: "Script list \<Rightarrow> nat \<Rightarrow> bool" where
  "hyphen_check scripts 0 = False"
| "hyphen_check scripts (Suc j) =
     (if scripts ! j = S_JA_HYPHEN then hyphen_check scripts j else IsAlphabetOrNumber (scripts ! j))"

definition append_char :: "env \<Rightarrow> Script list \<Rightarrow> nat \<Rightarrow> ustr" where
  "append_char E scripts i =
     (case scripts ! i of
        S_JA_HYPHEN \<Rightarrow>
          (let check = (if i = 0 \<and> length scripts > 1 then scripts ! 1 = S_NUMBER else hyphen_check scripts i)
           in if check then ConvertPreeditString E [0x2212] else [])
      | S_JA_COMMA \<Rightarrow>
          (if i > 0 \<and> IsAlphabetOrNumber (scripts ! (i - 1)) then ConvertPreeditString E [0xFF0C] else [])
      | S_JA_PERIOD \<Rightarrow>
          (if i > 0 \<and> IsAlphabetOrNumber (scripts ! (i - 1)) then ConvertPreeditString E [0xFF0E] else [])
      | _ \<Rightarrow> [])"

text \<open>\<^verbatim>\<open>CodepointToUtf8Append\<close> appends nothing for the code point 0.\<close>

fun transform_loop :: "env \<Rightarrow> Script list \<Rightarrow> nat \<Rightarrow> ustr \<Rightarrow> bool \<times> ustr" where
  "transform_loop E scripts i [] = (False, [])"
| "transform_loop E scripts i (c # rest) =
     (let (transformed, out) = transform_loop E scripts (Suc i) rest;
          a = append_char E scripts i
      in if a = [] then (transformed, CodepointToUtf8 c @ out) else (True, a @ out))"

definition TransformCharactersForNumbers :: "env \<Rightarrow> ustr \<Rightarrow> bool \<times> ustr" where
  "TransformCharactersForNumbers E query =
     (if \<not> list_ex is_alphanumeric query \<or> \<not> list_ex is_symbol query then (False, query)
      else
        (let (transformed, transformed_query) = transform_loop E (map char_script query) 0 query
         in if transformed then (True, transformed_query) else (False, query)))"

subsection \<open>Strings of a composition\<close>

definition common_GetStringForPreedit :: "env \<Rightarrow> Composition \<Rightarrow> InputFieldType \<Rightarrow> ustr" where
  "common_GetStringForPreedit E C field =
     (let output = snd (TransformCharactersForNumbers E (GetString E C)) in
      if field = FIELD_NUMBER \<or> field = FIELD_PASSWORD \<or> field = FIELD_TEL
      then FullWidthAsciiToHalfWidthAscii E output else output)"

definition common_GetQueryForConversion :: "env \<Rightarrow> Composition \<Rightarrow> ustr" where
  "common_GetQueryForConversion E C =
     FullWidthAsciiToHalfWidthAscii E
       (snd (TransformCharactersForNumbers E (GetStringWithTrimMode E FIX C)))"

text \<open>
  The query to predict from. The sizes are in bytes, and the tail of the first string from the size
  of the second one on does not exist if that is larger: \<^verbatim>\<open>std::string\<close> throws.
\<close>

definition GetBaseQueryForPrediction :: "ustr \<Rightarrow> ustr \<Rightarrow> ustr outcome" where
  "GetBaseQueryForPrediction asis_query trimed_query =
     (if byte_size asis_query = byte_size trimed_query then Ret asis_query
      else if byte_size trimed_query > byte_size asis_query then Throw Out_of_range
      else
        (let asis_tail = byte_drop (byte_size trimed_query) asis_query in
         if GetScriptTypeStr asis_tail \<noteq> ALPHABET then Ret asis_query
         else if trimed_query = []
         then (if GetScriptTypeStr asis_query = ALPHABET then Ret asis_query else Ret trimed_query)
         else
           (let trimed_tail = drop (length trimed_query - 1) trimed_query in
            if GetScriptTypeStr trimed_tail = ALPHABET then Ret asis_query else Ret trimed_query)))"

definition common_GetQueryForPrediction :: "env \<Rightarrow> Composition \<Rightarrow> TransliterationType \<Rightarrow> ustr outcome" where
  "common_GetQueryForPrediction E C input_mode =
     (let asis_query = GetStringWithTrimMode E ASIS C in
      if input_mode = TT_HALF_ASCII then Ret asis_query
      else if input_mode = TT_FULL_ASCII then Ret (FullWidthAsciiToHalfWidthAscii E asis_query)
      else
        obind (GetBaseQueryForPrediction asis_query (GetStringWithTrimMode E TRIM C)) (\<lambda>base_query.
          Ret (FullWidthAsciiToHalfWidthAscii E (snd (TransformCharactersForNumbers E base_query)))))"

text \<open>The modified Hiragana characters with the ones they can be made of.\<close>

definition kModifierRemovalMap :: "(char32 \<times> char32) list" where
  "kModifierRemovalMap =
     [(0x3041, 0x3042), (0x3043, 0x3044), (0x3045, 0x3046), (0x3045, 0x3094), (0x3094, 0x3046),
      (0x3094, 0x3045), (0x3047, 0x3048), (0x3049, 0x304A), (0x304C, 0x304B), (0x304E, 0x304D),
      (0x3050, 0x304F), (0x3052, 0x3051), (0x3054, 0x3053), (0x3056, 0x3055), (0x3058, 0x3057),
      (0x305A, 0x3059), (0x305C, 0x305B), (0x305E, 0x305D), (0x3060, 0x305F), (0x3062, 0x3061),
      (0x3065, 0x3064), (0x3065, 0x3063), (0x3063, 0x3064), (0x3063, 0x3065), (0x3067, 0x3066),
      (0x3069, 0x3068), (0x3070, 0x306F), (0x3070, 0x3071), (0x3071, 0x306F), (0x3071, 0x3070),
      (0x3073, 0x3072), (0x3073, 0x3074), (0x3074, 0x3072), (0x3074, 0x3073), (0x3076, 0x3075),
      (0x3076, 0x3077), (0x3077, 0x3075), (0x3077, 0x3076), (0x3079, 0x3078), (0x3079, 0x307A),
      (0x307A, 0x3078), (0x307A, 0x3079), (0x307C, 0x307B), (0x307C, 0x307D), (0x307D, 0x307B),
      (0x307D, 0x307C), (0x3083, 0x3084), (0x3085, 0x3086), (0x3087, 0x3088), (0x308E, 0x308F)]"

definition RemoveExpandedCharsForModifier :: "ustr \<Rightarrow> ustr \<Rightarrow> ustr set \<Rightarrow> ustr set" where
  "RemoveExpandedCharsForModifier asis base expanded =
     (if \<not> starts_with asis base then expanded
      else
        (let trailing = drop (length base) asis in
         expanded - set (map (\<lambda>(k, c). [c]) (filter (\<lambda>(k, c). [k] = trailing) kModifierRemovalMap))))"

definition common_GetQueriesForPrediction ::
  "env \<Rightarrow> Composition \<Rightarrow> TransliterationType \<Rightarrow> (ustr \<times> ustr set) outcome" where
  "common_GetQueriesForPrediction E C input_mode =
     (if input_mode = TT_HALF_ASCII \<or> input_mode = TT_FULL_ASCII
      then obind (common_GetQueryForPrediction E C input_mode) (\<lambda>q. Ret (q, {}))
      else
        (let (base_query, expanded) = GetExpandedStrings E C;
             asis = GetStringWithTrimMode E ASIS C
         in Ret (FullWidthAsciiToHalfWidthAscii E base_query,
                 RemoveExpandedCharsForModifier asis base_query expanded)))"

definition common_GetStringForTypeCorrection :: "env \<Rightarrow> Composition \<Rightarrow> ustr" where
  "common_GetStringForTypeCorrection E C = GetStringWithTrimMode E ASIS C"

text \<open>
  The part of a transliteration that belongs to a range of the string on display. \<open>None\<close> is the
  failed \<^verbatim>\<open>CHECK\<close> of \<open>ConvertPosition\<close>; the difference of the two positions wraps.
\<close>

definition size_t_diff :: "nat \<Rightarrow> nat \<Rightarrow> nat" where
  "size_t_diff a b = (if b \<le> a then a - b else 2 ^ 64 - (b - a))"

definition common_GetTransliteratedText ::
  "env \<Rightarrow> Composition \<Rightarrow> Transliterator \<Rightarrow> nat \<Rightarrow> nat \<Rightarrow> ustr option" where
  "common_GetTransliteratedText E C t12r pos len =
     (let full_base = GetStringWithTransliterator E t12r C in
      case (ConvertPosition E pos T_LOCAL t12r (chunks C),
            ConvertPosition E (pos + len) T_LOCAL t12r (chunks C)) of
        (Some t13n_start, Some t13n_end) \<Rightarrow>
          Some (take (size_t_diff t13n_end t13n_start) (drop t13n_start full_base))
      | _ \<Rightarrow> None)"

definition common_GetRawSubString :: "env \<Rightarrow> Composition \<Rightarrow> nat \<Rightarrow> nat \<Rightarrow> ustr option" where
  "common_GetRawSubString E C pos len = common_GetTransliteratedText E C T_RAW_STRING pos len"

definition common_GetRawString :: "env \<Rightarrow> Composition \<Rightarrow> ustr option" where
  "common_GetRawString E C = common_GetRawSubString E C 0 (Composition_GetLength E C)"

definition common_GetSubTransliteration ::
  "env \<Rightarrow> Composition \<Rightarrow> TransliterationType \<Rightarrow> nat \<Rightarrow> nat \<Rightarrow> ustr option" where
  "common_GetSubTransliteration E C t pos len =
     map_option (TransliterateType E t) (common_GetTransliteratedText E C (mode_transliterator t) pos len)"

definition common_GetSubTransliterations :: "env \<Rightarrow> Composition \<Rightarrow> nat \<Rightarrow> nat \<Rightarrow> ustr option list" where
  "common_GetSubTransliterations E C pos len =
     map (\<lambda>t. common_GetSubTransliteration E C t pos len) TransliterationTypeArray"

definition common_GetTransliterations :: "env \<Rightarrow> Composition \<Rightarrow> ustr option list" where
  "common_GetTransliterations E C = common_GetSubTransliterations E C 0 (Composition_GetLength E C)"

subsection \<open>The state\<close>

text \<open>
  A composition event of the handwriting engine is its string; the probability beside it is only
  copied. The clock is an argument of the operation that may read it.
\<close>

record Composer =
  cm_position :: nat
  cm_input_mode :: TransliterationType
  cm_output_mode :: TransliterationType
  cm_comeback_input_mode :: TransliterationType
  cm_input_field_type :: InputFieldType
  cm_shifted_sequence_count :: nat
  cm_is_in_shifted_ascii_revert_context :: bool
  cm_source_text :: ustr
  cm_max_length :: nat
  cm_request :: Request
  cm_config :: Config
  cm_table :: table_ptr
  cm_composition :: Composition
  cm_timestamp_msec :: int
  cm_timeout_threshold_msec :: int
  cm_is_new_input :: bool
  cm_compositions_for_handwriting :: "ustr list"

definition kMaxPreeditLength :: nat where "kMaxPreeditLength = 256"

definition Composer_GetLength :: "env \<Rightarrow> Composer \<Rightarrow> nat" where
  "Composer_GetLength E c = Composition_GetLength E (cm_composition c)"

definition GetCursor :: "Composer \<Rightarrow> nat" where
  "GetCursor c = cm_position c"

definition Composer_Empty :: "env \<Rightarrow> Composer \<Rightarrow> bool" where
  "Composer_Empty E c \<longleftrightarrow> Composer_GetLength E c = 0"

subsection \<open>Input modes\<close>

definition Composer_SetInputMode :: "TransliterationType \<Rightarrow> Composer \<Rightarrow> Composer" where
  "Composer_SetInputMode m c =
     c\<lparr>cm_comeback_input_mode := m, cm_input_mode := m, cm_shifted_sequence_count := 0,
       cm_is_in_shifted_ascii_revert_context := False, cm_is_new_input := True,
       cm_composition := SetInputMode (mode_transliterator m) (cm_composition c)\<rparr>"

definition SetTemporaryInputMode :: "TransliterationType \<Rightarrow> Composer \<Rightarrow> Composer" where
  "SetTemporaryInputMode m c =
     c\<lparr>cm_comeback_input_mode := cm_input_mode c, cm_input_mode := m, cm_shifted_sequence_count := 0,
       cm_is_in_shifted_ascii_revert_context := False, cm_is_new_input := True,
       cm_composition := SetInputMode (mode_transliterator m) (cm_composition c)\<rparr>"

definition ResetInputMode :: "Composer \<Rightarrow> Composer" where
  "ResetInputMode c = Composer_SetInputMode (cm_comeback_input_mode c) c"

text \<open>
  The input mode of the character left of the cursor. In an empty composition the look-up of the
  transliterator dereferences \<^verbatim>\<open>end()\<close> (\<open>None\<close>); the cursor is then at 0, where the code does not
  look.
\<close>

definition UpdateInputMode :: "env \<Rightarrow> Composer \<Rightarrow> Composer outcome" where
  "UpdateInputMode E c =
     (if cm_position c \<noteq> 0 \<and> update_input_mode_from_surrounding_text (cm_request c)
      then
        (case Composition_GetTransliterator E (cm_position c) (cm_composition c) of
           None \<Rightarrow> Throw Undefined_behaviour
         | Some current_t12r \<Rightarrow>
             if cm_position c = Composer_GetLength E c \<or>
                Some current_t12r = Composition_GetTransliterator E (cm_position c + 1) (cm_composition c)
             then
               (let m = GetTransliterationType current_t12r (cm_comeback_input_mode c) in
                Ret (c\<lparr>cm_input_mode := m, cm_shifted_sequence_count := 0,
                       cm_is_in_shifted_ascii_revert_context := False, cm_is_new_input := True,
                       cm_composition := SetInputMode (mode_transliterator m) (cm_composition c)\<rparr>))
             else Ret (Composer_SetInputMode (cm_comeback_input_mode c) c))
      else Ret (Composer_SetInputMode (cm_comeback_input_mode c) c))"

definition ToggleInputMode :: "Composer \<Rightarrow> Composer" where
  "ToggleInputMode c =
     (if cm_input_mode c = TT_HIRAGANA then Composer_SetInputMode TT_HALF_ASCII c
      else Composer_SetInputMode TT_HIRAGANA c)"

definition SetOutputMode :: "env \<Rightarrow> TransliterationType \<Rightarrow> Composer \<Rightarrow> Composer" where
  "SetOutputMode E m c =
     (let C = Composition_SetTransliterator E 0 (Composer_GetLength E c) (mode_transliterator m) (cm_composition c)
      in c\<lparr>cm_output_mode := m, cm_composition := C, cm_position := Composition_GetLength E C\<rparr>)"

text \<open>The mode for the next key, from its first character; an empty text has none.\<close>

definition shifted_mode :: "Composer \<Rightarrow> Composer" where
  "shifted_mode c =
     (case shift_key_mode_switch (cm_config c) of
        ASCII_INPUT_MODE \<Rightarrow>
          (if cm_input_mode c = TT_HALF_ASCII \<or> cm_input_mode c = TT_FULL_ASCII then c
           else SetTemporaryInputMode TT_HALF_ASCII c)
      | KATAKANA_INPUT_MODE \<Rightarrow>
          (if cm_input_mode c = TT_HIRAGANA then SetTemporaryInputMode TT_FULL_KATAKANA c else c)
      | OFF \<Rightarrow> c)"

definition unshifted_mode :: "Composer \<Rightarrow> Composer" where
  "unshifted_mode c =
     (let switch_mode = shift_key_mode_switch (cm_config c);
          c1 = (if cm_shifted_sequence_count c > 1 \<and> switch_mode = ASCII_INPUT_MODE
                then (Composer_SetInputMode (cm_comeback_input_mode c) c)
                       \<lparr>cm_is_in_shifted_ascii_revert_context := True\<rparr>
                else c)
      in if switch_mode = KATAKANA_INPUT_MODE then Composer_SetInputMode (cm_comeback_input_mode c1) c1
         else c1)"

definition ApplyTemporaryInputMode :: "ustr \<Rightarrow> bool \<Rightarrow> Composer \<Rightarrow> Composer outcome" where
  "ApplyTemporaryInputMode inp caps_locked c =
     (case inp of
        [] \<Rightarrow> Throw Undefined_behaviour
      | key # _ \<Rightarrow>
          if char_size key \<noteq> 1
          then
            (let c1 = c\<lparr>cm_is_in_shifted_ascii_revert_context := False\<rparr> in
             Ret (if cm_comeback_input_mode c1 \<noteq> cm_input_mode c1
                  then Composer_SetInputMode (cm_comeback_input_mode c1) c1 else c1))
          else
            (let upper = (0x41 \<le> key \<and> key \<le> 0x5A);
                 lower = (0x61 \<le> key \<and> key \<le> 0x7A);
                 alpha_with_shift = (\<not> caps_locked \<and> upper \<or> caps_locked \<and> lower);
                 alpha_without_shift = (caps_locked \<and> upper \<or> \<not> caps_locked \<and> lower)
             in
             if alpha_with_shift
             then
               (let c1 = shifted_mode (c\<lparr>cm_is_in_shifted_ascii_revert_context := False\<rparr>)
                in Ret (c1\<lparr>cm_shifted_sequence_count := cm_shifted_sequence_count c1 + 1\<rparr>))
             else if alpha_without_shift
             then Ret ((unshifted_mode c)\<lparr>cm_shifted_sequence_count := 0\<rparr>)
             else
               Ret (c\<lparr>cm_shifted_sequence_count := 0, cm_is_in_shifted_ascii_revert_context := False\<rparr>)))"

definition switch_display :: "env \<Rightarrow> ModeSwitching \<Rightarrow> Composer \<Rightarrow> Composer" where
  "switch_display E m c =
     (case m of
        NO_CHANGE \<Rightarrow> c
      | REVERT_TO_PREVIOUS_MODE \<Rightarrow> c
      | PREFERRED_ALPHANUMERIC \<Rightarrow>
          (if cm_input_mode c = TT_FULL_ASCII then SetOutputMode E TT_FULL_ASCII c
           else SetOutputMode E TT_HALF_ASCII c)
      | HALF_ALPHANUMERIC \<Rightarrow> SetOutputMode E TT_HALF_ASCII c
      | FULL_ALPHANUMERIC \<Rightarrow> SetOutputMode E TT_FULL_ASCII c)"

definition switch_input :: "ModeSwitching \<Rightarrow> Composer \<Rightarrow> Composer" where
  "switch_input m c =
     (case m of
        NO_CHANGE \<Rightarrow> c
      | REVERT_TO_PREVIOUS_MODE \<Rightarrow> Composer_SetInputMode (cm_comeback_input_mode c) c
      | PREFERRED_ALPHANUMERIC \<Rightarrow>
          (if cm_input_mode c \<noteq> TT_HALF_ASCII \<and> cm_input_mode c \<noteq> TT_FULL_ASCII
           then SetTemporaryInputMode TT_HALF_ASCII c else c)
      | HALF_ALPHANUMERIC \<Rightarrow>
          (if cm_input_mode c \<noteq> TT_HALF_ASCII then SetTemporaryInputMode TT_HALF_ASCII c else c)
      | FULL_ALPHANUMERIC \<Rightarrow>
          (if cm_input_mode c \<noteq> TT_FULL_ASCII then SetTemporaryInputMode TT_FULL_ASCII c else c))"

definition AutoSwitchMode :: "env \<Rightarrow> Composer \<Rightarrow> Composer" where
  "AutoSwitchMode E c =
     (if \<not> auto_switch_composition_mode (cm_config c) then c
      else if preedit_method (cm_config c) \<noteq> ROMAN then c
      else
        (let key = GetStringWithTransliterator E (mode_transliterator TT_HALF_ASCII) (cm_composition c);
             mode_switching = GetModeSwitchingRule key
         in switch_input (rule_input_mode mode_switching) (switch_display E (display_mode mode_switching) c)))"

subsection \<open>Resetting and settings\<close>

definition EditErase :: "Composer \<Rightarrow> Composer" where
  "EditErase c =
     (let c1 = c\<lparr>cm_composition := Erase (cm_composition c), cm_position := 0\<rparr>
      in Composer_SetInputMode (cm_comeback_input_mode c1) c1)"

definition Reset :: "env \<Rightarrow> Composer \<Rightarrow> Composer" where
  "Reset E c =
     (let c1 = SetOutputMode E TT_HIRAGANA (ResetInputMode (EditErase c))
      in c1\<lparr>cm_source_text := [],
            cm_timeout_threshold_msec := int (composing_timeout_threshold_msec (cm_config c1)),
            cm_compositions_for_handwriting := []\<rparr>)"

definition NewComposer :: "env \<Rightarrow> table_ptr \<Rightarrow> Request \<Rightarrow> Config \<Rightarrow> Composer" where
  "NewComposer E p req conf =
     (let c = \<lparr>cm_position = 0, cm_input_mode = TT_HIRAGANA, cm_output_mode = TT_HIRAGANA,
               cm_comeback_input_mode = TT_HIRAGANA, cm_input_field_type = FIELD_NORMAL,
               cm_shifted_sequence_count = 0, cm_is_in_shifted_ascii_revert_context = False,
               cm_source_text = [], cm_max_length = kMaxPreeditLength, cm_request = req, cm_config = conf,
               cm_table = p, cm_composition = NewComposition p, cm_timestamp_msec = 0,
               cm_timeout_threshold_msec = 0, cm_is_new_input = True,
               cm_compositions_for_handwriting = []\<rparr>
      in Reset E (Composer_SetInputMode TT_HIRAGANA c))"

definition Composer_SetTable :: "table_ptr \<Rightarrow> Composer \<Rightarrow> Composer" where
  "Composer_SetTable p c = c\<lparr>cm_table := p, cm_composition := Composition_SetTable p (cm_composition c)\<rparr>"

definition SetRequest :: "Request \<Rightarrow> Composer \<Rightarrow> Composer" where
  "SetRequest r c = c\<lparr>cm_request := r, cm_is_in_shifted_ascii_revert_context := False\<rparr>"

definition SetConfig :: "Config \<Rightarrow> Composer \<Rightarrow> Composer" where
  "SetConfig r c = c\<lparr>cm_config := r, cm_is_in_shifted_ascii_revert_context := False\<rparr>"

definition SetNewInput :: "Composer \<Rightarrow> Composer" where
  "SetNewInput c = c\<lparr>cm_is_in_shifted_ascii_revert_context := False, cm_is_new_input := True\<rparr>"

definition SetInputFieldType :: "InputFieldType \<Rightarrow> Composer \<Rightarrow> Composer" where
  "SetInputFieldType t c = c\<lparr>cm_input_field_type := t\<rparr>"

definition set_source_text :: "ustr \<Rightarrow> Composer \<Rightarrow> Composer" where
  "set_source_text s c = c\<lparr>cm_source_text := s\<rparr>"

definition EnableInsert :: "env \<Rightarrow> Composer \<Rightarrow> bool" where
  "EnableInsert E c = (if Composer_GetLength E c \<ge> cm_max_length c then False else True)"

definition Composer_IsToggleable :: "env \<Rightarrow> Composer \<Rightarrow> bool" where
  "Composer_IsToggleable E c \<longleftrightarrow>
     \<not> cm_is_new_input c \<and> Composition_IsToggleable E (cm_position c) (cm_composition c)"

definition Composer_ShouldCommit :: "Composer \<Rightarrow> bool" where
  "Composer_ShouldCommit c \<longleftrightarrow> Composition_ShouldCommit (cm_composition c)"

text \<open>The length to commit, if there is one.\<close>

definition ShouldCommitHead :: "env \<Rightarrow> Composer \<Rightarrow> nat option" where
  "ShouldCommitHead E c =
     (case (case cm_input_field_type c of
              FIELD_PASSWORD \<Rightarrow> Some 1 | FIELD_TEL \<Rightarrow> Some 0 | FIELD_NUMBER \<Rightarrow> Some 0 | FIELD_NORMAL \<Rightarrow> None) of
        None \<Rightarrow> None
      | Some max_remaining \<Rightarrow>
          if Composer_GetLength E c > max_remaining then Some (Composer_GetLength E c - max_remaining) else None)"

subsection \<open>Inserting\<close>

definition ProcessCompositionInput ::
  "env \<Rightarrow> nat \<Rightarrow> CompositionInput \<Rightarrow> Composer \<Rightarrow> (bool \<times> Composer) outcome" where
  "ProcessCompositionInput E fuel i c =
     (if \<not> EnableInsert E c then Ret (False, c)
      else obind (InsertInput E fuel (cm_position c) i (cm_composition c)) (\<lambda>(new_position, C).
             Ret (True, c\<lparr>cm_position := new_position, cm_composition := C, cm_is_new_input := False\<rparr>)))"

definition InsertCharacter :: "env \<Rightarrow> nat \<Rightarrow> ustr \<Rightarrow> Composer \<Rightarrow> Composer outcome" where
  "InsertCharacter E fuel key c =
     obind (ProcessCompositionInput E fuel (InitFromRaw key (cm_is_new_input c) EmptyInput) c)
       (\<lambda>(_, c'). Ret c')"

datatype InternalCommand = REWIND | STOP_KEY_TOGGLING

definition InsertCommandCharacter :: "env \<Rightarrow> nat \<Rightarrow> InternalCommand \<Rightarrow> Composer \<Rightarrow> Composer outcome" where
  "InsertCommandCharacter E fuel cmd c =
     (let key = (case cmd of REWIND \<Rightarrow> ascii ''{<}'' | STOP_KEY_TOGGLING \<Rightarrow> ascii ''{!}'');
          i = InitFromRaw (ParseSpecialKey (ptr_table (cm_table c)) key) (cm_is_new_input c) EmptyInput
      in obind (ProcessCompositionInput E fuel i c) (\<lambda>(_, c'). Ret c'))"

definition InsertCharacterKeyAndPreedit ::
  "env \<Rightarrow> nat \<Rightarrow> ustr \<Rightarrow> ustr \<Rightarrow> Composer \<Rightarrow> (bool \<times> Composer) outcome" where
  "InsertCharacterKeyAndPreedit E fuel key preedit c =
     ProcessCompositionInput E fuel (InitFromRawAndConv key preedit (cm_is_new_input c) EmptyInput) c"

fun InsertCharacterPreedit :: "env \<Rightarrow> nat \<Rightarrow> ustr \<Rightarrow> Composer \<Rightarrow> Composer outcome" where
  "InsertCharacterPreedit E fuel [] c = Ret c"
| "InsertCharacterPreedit E fuel (x # rest) c =
     obind (InsertCharacterKeyAndPreedit E fuel [x] [x] c) (\<lambda>(inserted, c').
       if \<not> inserted then Ret c' else InsertCharacterPreedit E fuel rest c')"

text \<open>The characters of a text are inserted one by one, without the test for the maximal length.\<close>

fun insert_chars :: "env \<Rightarrow> nat \<Rightarrow> ustr \<Rightarrow> Composer \<Rightarrow> Composer outcome" where
  "insert_chars E fuel [] c = Ret c"
| "insert_chars E fuel (x # rest) c =
     obind (InsertInput E fuel (cm_position c)
              (EmptyInput\<lparr>in_raw := [x], in_is_new_input := cm_is_new_input c\<rparr>) (cm_composition c))
       (\<lambda>(new_position, C).
         insert_chars E fuel rest (c\<lparr>cm_position := new_position, cm_composition := C, cm_is_new_input := False\<rparr>))"

definition SetPreeditTextForTestOnly :: "env \<Rightarrow> nat \<Rightarrow> ustr \<Rightarrow> Composer \<Rightarrow> Composer outcome" where
  "SetPreeditTextForTestOnly E fuel inp c =
     obind (insert_chars E fuel inp (c\<lparr>cm_composition := SetInputMode T_RAW_STRING (cm_composition c)\<rparr>)) (\<lambda>c'.
       Ret (if IsLowerAscii (LowerString inp) then SetTemporaryInputMode TT_HALF_ASCII c' else c'))"

definition SetCompositionsForHandwriting :: "env \<Rightarrow> nat \<Rightarrow> ustr list \<Rightarrow> Composer \<Rightarrow> Composer outcome" where
  "SetCompositionsForHandwriting E fuel compositions c =
     (let c1 = (Reset E c)\<lparr>cm_compositions_for_handwriting := compositions\<rparr> in
      case compositions of
        [] \<Rightarrow> Ret c1
      | s # _ \<Rightarrow> insert_chars E fuel s (c1\<lparr>cm_composition := SetInputMode T_RAW_STRING (cm_composition c1)\<rparr>))"

text \<open>
  The loop over the modifier keys of an event without a key code. Its condition is the number of
  modifier keys, not a comparison with the index: without \<^verbatim>\<open>SHIFT\<close> among them it reads past the end.
\<close>

datatype modifier_scan = Shift_found | No_modifier | Out_of_bounds_read

function scan_modifiers_from :: "ModifierKey list \<Rightarrow> nat \<Rightarrow> modifier_scan" where
  "scan_modifiers_from keys i =
     (if length keys = 0 then No_modifier
      else if i \<ge> length keys then Out_of_bounds_read
      else if keys ! i = SHIFT then Shift_found
      else scan_modifiers_from keys (Suc i))"
  by pat_completeness auto
termination
  by (relation "measure (\<lambda>(keys, i). length keys - i)") auto

declare scan_modifiers_from.simps [simp del]

definition scan_modifiers :: "KeyEvent \<Rightarrow> modifier_scan" where
  "scan_modifiers e = scan_modifiers_from (modifier_keys e) 0"

definition check_timeout :: "env \<Rightarrow> nat \<Rightarrow> int \<Rightarrow> KeyEvent \<Rightarrow> Composer \<Rightarrow> Composer outcome" where
  "check_timeout E fuel now e c =
     (if cm_timeout_threshold_msec c > 0
      then
        (let current_msec = (case timestamp_msec e of Some t \<Rightarrow> t | None \<Rightarrow> now) in
         obind (if cm_timestamp_msec c > 0 \<and> current_msec - cm_timestamp_msec c \<ge> cm_timeout_threshold_msec c
                then InsertCommandCharacter E fuel STOP_KEY_TOGGLING c else Ret c)
           (\<lambda>c'. Ret (c'\<lparr>cm_timestamp_msec := current_msec\<rparr>)))
      else Ret c)"

definition set_event_mode :: "KeyEvent \<Rightarrow> Composer \<Rightarrow> Composer" where
  "set_event_mode e c =
     (case mode e of
        None \<Rightarrow> c
      | Some m \<Rightarrow>
          (let new_input_mode = GetTransliterationTypeFromCompositionMode m in
           if new_input_mode \<noteq> cm_input_mode c then Composer_SetInputMode new_input_mode c else c))"

definition insert_event_input ::
  "env \<Rightarrow> nat \<Rightarrow> KeyEvent \<Rightarrow> CompositionInput \<Rightarrow> Composer \<Rightarrow> Composer outcome" where
  "insert_event_input E fuel e i c =
     (if in_conversion i \<noteq> []
      then
        (if in_is_asis i
         then obind (ProcessCompositionInput E fuel i
                       (c\<lparr>cm_composition := SetInputMode T_CONVERSION_STRING (cm_composition c)\<rparr>))
                (\<lambda>(_, c'). Ret (Composer_SetInputMode (cm_comeback_input_mode c') c'))
         else obind (ProcessCompositionInput E fuel i c) (\<lambda>(_, c'). Ret c'))
      else obind (ApplyTemporaryInputMode (in_raw i) (HasCaps (GetModifiers e)) c)
             (\<lambda>c1. obind (ProcessCompositionInput E fuel i c1) (\<lambda>(_, c'). Ret c')))"

definition InsertCharacterKeyEvent ::
  "env \<Rightarrow> nat \<Rightarrow> int \<Rightarrow> KeyEvent \<Rightarrow> Composer \<Rightarrow> (bool \<times> Composer) outcome" where
  "InsertCharacterKeyEvent E fuel now e c =
     (if \<not> EnableInsert E c then Ret (False, c)
      else
        obind (check_timeout E fuel now e c) (\<lambda>c1.
          let c2 = set_event_mode e c1;
              scan = (if key_code e = None then scan_modifiers e else No_modifier)
          in case scan of
               Out_of_bounds_read \<Rightarrow> Throw Undefined_behaviour
             | Shift_found \<Rightarrow> Ret (True, Composer_SetInputMode (cm_comeback_input_mode c2) c2)
             | No_modifier \<Rightarrow>
                 (case Input_Init (ptr_table (cm_table c2)) e (cm_is_new_input c2) EmptyInput of
                    None \<Rightarrow> Ret (False, c2)
                  | Some i \<Rightarrow>
                      obind (insert_event_input E fuel e i c2) (\<lambda>c3.
                        Ret (True, if cm_comeback_input_mode c3 = cm_input_mode c3
                                   then AutoSwitchMode E c3 else c3)))))"

subsection \<open>Deleting and moving\<close>

definition Composer_DeleteAt :: "env \<Rightarrow> nat \<Rightarrow> nat \<Rightarrow> Composer \<Rightarrow> Composer outcome" where
  "Composer_DeleteAt E fuel pos c =
     obind (DeleteAt E fuel pos (cm_composition c)) (\<lambda>(_, C).
       Ret (c\<lparr>cm_composition := C,
              cm_position := (if cm_position c > pos then cm_position c - 1 else cm_position c)\<rparr>))"

definition Delete :: "env \<Rightarrow> nat \<Rightarrow> Composer \<Rightarrow> Composer outcome" where
  "Delete E fuel c =
     obind (DeleteAt E fuel (cm_position c) (cm_composition c)) (\<lambda>(new_position, C).
       UpdateInputMode E (c\<lparr>cm_position := new_position, cm_composition := C\<rparr>))"

fun DeleteRange :: "env \<Rightarrow> nat \<Rightarrow> nat \<Rightarrow> nat \<Rightarrow> Composer \<Rightarrow> Composer outcome" where
  "DeleteRange E fuel pos 0 c = Ret c"
| "DeleteRange E fuel pos (Suc len) c =
     (if pos < Composer_GetLength E c
      then obind (Composer_DeleteAt E fuel pos c) (\<lambda>c'. DeleteRange E fuel pos len c')
      else Ret c)"

definition Backspace :: "env \<Rightarrow> nat \<Rightarrow> Composer \<Rightarrow> Composer outcome" where
  "Backspace E fuel c =
     (if cm_position c = 0 then Ret c
      else
        obind (UpdateInputMode E (c\<lparr>cm_position := cm_position c - 1\<rparr>)) (\<lambda>c1.
          obind (DeleteAt E fuel (cm_position c1) (cm_composition c1)) (\<lambda>(new_position, C).
            Ret (c1\<lparr>cm_position := new_position, cm_composition := C\<rparr>))))"

definition MoveCursorLeft :: "env \<Rightarrow> Composer \<Rightarrow> Composer outcome" where
  "MoveCursorLeft E c =
     UpdateInputMode E (if cm_position c > 0 then c\<lparr>cm_position := cm_position c - 1\<rparr> else c)"

definition MoveCursorRight :: "env \<Rightarrow> Composer \<Rightarrow> Composer outcome" where
  "MoveCursorRight E c =
     UpdateInputMode E
       (if cm_position c < Composer_GetLength E c then c\<lparr>cm_position := cm_position c + 1\<rparr> else c)"

definition MoveCursorToBeginning :: "Composer \<Rightarrow> Composer" where
  "MoveCursorToBeginning c =
     (let c1 = c\<lparr>cm_position := 0\<rparr> in Composer_SetInputMode (cm_comeback_input_mode c1) c1)"

definition MoveCursorToEnd :: "env \<Rightarrow> Composer \<Rightarrow> Composer" where
  "MoveCursorToEnd E c =
     (let c1 = c\<lparr>cm_position := Composer_GetLength E c\<rparr> in Composer_SetInputMode (cm_comeback_input_mode c1) c1)"

definition MoveCursorTo :: "env \<Rightarrow> nat \<Rightarrow> Composer \<Rightarrow> Composer outcome" where
  "MoveCursorTo E new_position c =
     (if new_position \<le> Composer_GetLength E c then UpdateInputMode E (c\<lparr>cm_position := new_position\<rparr>)
      else Ret c)"

subsection \<open>The strings of the composer\<close>

definition Composer_GetPreedit :: "env \<Rightarrow> Composer \<Rightarrow> ustr \<times> ustr \<times> ustr" where
  "Composer_GetPreedit E c =
     (let (left, focused, right) = GetPreedit E (cm_position c) (cm_composition c);
          (transformed, preedit) = TransformCharactersForNumbers E (left @ focused @ right)
      in if transformed
         then (let left_size = length left; focused_size = length focused
               in (take left_size preedit, take focused_size (drop left_size preedit),
                   drop (left_size + focused_size) preedit))
         else (left, focused, right))"

definition Composer_GetStringForPreedit :: "env \<Rightarrow> Composer \<Rightarrow> ustr" where
  "Composer_GetStringForPreedit E c = common_GetStringForPreedit E (cm_composition c) (cm_input_field_type c)"

definition GetStringForSubmission :: "env \<Rightarrow> Composer \<Rightarrow> ustr" where
  "GetStringForSubmission E c = Composer_GetStringForPreedit E c"

definition Composer_GetQueryForConversion :: "env \<Rightarrow> Composer \<Rightarrow> ustr" where
  "Composer_GetQueryForConversion E c = common_GetQueryForConversion E (cm_composition c)"

definition Composer_GetQueryForPrediction :: "env \<Rightarrow> Composer \<Rightarrow> ustr outcome" where
  "Composer_GetQueryForPrediction E c = common_GetQueryForPrediction E (cm_composition c) (cm_input_mode c)"

definition Composer_GetQueriesForPrediction :: "env \<Rightarrow> Composer \<Rightarrow> (ustr \<times> ustr set) outcome" where
  "Composer_GetQueriesForPrediction E c = common_GetQueriesForPrediction E (cm_composition c) (cm_input_mode c)"

definition Composer_GetStringForTypeCorrection :: "env \<Rightarrow> Composer \<Rightarrow> ustr" where
  "Composer_GetStringForTypeCorrection E c = common_GetStringForTypeCorrection E (cm_composition c)"

definition Composer_GetTransliteratedText :: "env \<Rightarrow> Transliterator \<Rightarrow> nat \<Rightarrow> nat \<Rightarrow> Composer \<Rightarrow> ustr option" where
  "Composer_GetTransliteratedText E t12r pos len c = common_GetTransliteratedText E (cm_composition c) t12r pos len"

definition Composer_GetRawString :: "env \<Rightarrow> Composer \<Rightarrow> ustr option" where
  "Composer_GetRawString E c = common_GetRawString E (cm_composition c)"

definition Composer_GetRawSubString :: "env \<Rightarrow> nat \<Rightarrow> nat \<Rightarrow> Composer \<Rightarrow> ustr option" where
  "Composer_GetRawSubString E pos len c = common_GetRawSubString E (cm_composition c) pos len"

definition Composer_GetTransliterations :: "env \<Rightarrow> Composer \<Rightarrow> ustr option list" where
  "Composer_GetTransliterations E c = common_GetTransliterations E (cm_composition c)"

definition Composer_GetSubTransliteration ::
  "env \<Rightarrow> TransliterationType \<Rightarrow> nat \<Rightarrow> nat \<Rightarrow> Composer \<Rightarrow> ustr option" where
  "Composer_GetSubTransliteration E t pos len c = common_GetSubTransliteration E (cm_composition c) t pos len"

definition Composer_GetSubTransliterations :: "env \<Rightarrow> nat \<Rightarrow> nat \<Rightarrow> Composer \<Rightarrow> ustr option list" where
  "Composer_GetSubTransliterations E pos len c = common_GetSubTransliterations E (cm_composition c) pos len"

text \<open>The snapshot of the composer that the converter reads.\<close>

record ComposerData =
  cd_composition :: Composition
  cd_position :: nat
  cd_input_mode :: TransliterationType
  cd_input_field_type :: InputFieldType
  cd_source_text :: ustr
  cd_compositions_for_handwriting :: "ustr list"

definition CreateComposerData :: "Composer \<Rightarrow> ComposerData" where
  "CreateComposerData c =
     \<lparr>cd_composition = cm_composition c, cd_position = cm_position c, cd_input_mode = cm_input_mode c,
      cd_input_field_type = cm_input_field_type c, cd_source_text = cm_source_text c,
      cd_compositions_for_handwriting = cm_compositions_for_handwriting c\<rparr>"

definition Data_GetStringForPreedit :: "env \<Rightarrow> ComposerData \<Rightarrow> ustr" where
  "Data_GetStringForPreedit E d = common_GetStringForPreedit E (cd_composition d) (cd_input_field_type d)"

definition Data_GetQueryForConversion :: "env \<Rightarrow> ComposerData \<Rightarrow> ustr" where
  "Data_GetQueryForConversion E d = common_GetQueryForConversion E (cd_composition d)"

definition Data_GetQueryForPrediction :: "env \<Rightarrow> ComposerData \<Rightarrow> ustr outcome" where
  "Data_GetQueryForPrediction E d = common_GetQueryForPrediction E (cd_composition d) (cd_input_mode d)"

definition Data_GetQueriesForPrediction :: "env \<Rightarrow> ComposerData \<Rightarrow> (ustr \<times> ustr set) outcome" where
  "Data_GetQueriesForPrediction E d = common_GetQueriesForPrediction E (cd_composition d) (cd_input_mode d)"

definition Data_GetStringForTypeCorrection :: "env \<Rightarrow> ComposerData \<Rightarrow> ustr" where
  "Data_GetStringForTypeCorrection E d = common_GetStringForTypeCorrection E (cd_composition d)"

definition Data_GetLength :: "env \<Rightarrow> ComposerData \<Rightarrow> nat" where
  "Data_GetLength E d = Composition_GetLength E (cd_composition d)"

definition Data_GetRawString :: "env \<Rightarrow> ComposerData \<Rightarrow> ustr option" where
  "Data_GetRawString E d = common_GetRawString E (cd_composition d)"

definition Data_GetRawSubString :: "env \<Rightarrow> nat \<Rightarrow> nat \<Rightarrow> ComposerData \<Rightarrow> ustr option" where
  "Data_GetRawSubString E pos len d = common_GetRawSubString E (cd_composition d) pos len"

definition Data_GetTransliterations :: "env \<Rightarrow> ComposerData \<Rightarrow> ustr option list" where
  "Data_GetTransliterations E d = common_GetTransliterations E (cd_composition d)"

definition Data_GetSubTransliterations :: "env \<Rightarrow> nat \<Rightarrow> nat \<Rightarrow> ComposerData \<Rightarrow> ustr option list" where
  "Data_GetSubTransliterations E pos len d = common_GetSubTransliterations E (cd_composition d) pos len"

subsection \<open>The cursor\<close>

definition cursor_ok :: "env \<Rightarrow> Composer \<Rightarrow> bool" where
  "cursor_ok E c \<longleftrightarrow> cm_position c \<le> Composer_GetLength E c \<and> comp_table (cm_composition c) = cm_table c"

lemma Composition_GetLength_total: "Composition_GetLength E C = total_length E T_LOCAL (chunks C)"
  by (simp add: Composition_GetLength_def)

lemma GetLength_frame [simp]:
  "Composition_GetLength E (SetInputMode t C) = Composition_GetLength E C"
  "Composition_GetLength E (Composition_SetTable p C) = Composition_GetLength E C"
  "Composition_GetLength E (Erase C) = 0"
  "Composition_GetLength E (NewComposition p) = 0"
  by (simp_all add: Composition_GetLength_total SetInputMode_def Composition_SetTable_def Erase_def NewComposition_def)

lemma comp_table_frame [simp]:
  "comp_table (SetInputMode t C) = comp_table C" "comp_table (Composition_SetTable p C) = p"
  "comp_table (Erase C) = comp_table C" "comp_table (NewComposition p) = p"
  "comp_table (Composition_SetTransliterator E a b t C) = comp_table C"
  by (simp_all add: SetInputMode_def Composition_SetTable_def Erase_def NewComposition_def
      Composition_SetTransliterator_def split: prod.split)

lemma chunks_SetInputMode [simp]: "chunks (SetInputMode t C) = chunks C"
  by (simp add: SetInputMode_def)

lemma Composer_GetLength_simp [simp]: "Composer_GetLength E (c\<lparr>cm_position := n\<rparr>) = Composer_GetLength E c"
  by (simp add: Composer_GetLength_def)

lemmas mode_defs = Composer_SetInputMode_def SetTemporaryInputMode_def ResetInputMode_def ToggleInputMode_def
  shifted_mode_def unshifted_mode_def set_event_mode_def switch_input_def

text \<open>What the changes of the input mode leave alone.\<close>

lemma mode_frame [simp]:
  "cm_position (Composer_SetInputMode m c) = cm_position c"
  "cm_table (Composer_SetInputMode m c) = cm_table c"
  "cm_composition (Composer_SetInputMode m c) = SetInputMode (mode_transliterator m) (cm_composition c)"
  "cm_position (SetTemporaryInputMode m c) = cm_position c"
  "cm_table (SetTemporaryInputMode m c) = cm_table c"
  "cm_composition (SetTemporaryInputMode m c) = SetInputMode (mode_transliterator m) (cm_composition c)"
  by (simp_all add: mode_defs)

definition same_text :: "Composer \<Rightarrow> Composer \<Rightarrow> bool" where
  "same_text c c' \<longleftrightarrow> cm_position c' = cm_position c \<and> cm_table c' = cm_table c \<and>
     chunks (cm_composition c') = chunks (cm_composition c) \<and>
     comp_table (cm_composition c') = comp_table (cm_composition c)"

lemma same_text_refl [simp]: "same_text c c"
  by (simp add: same_text_def)

lemma same_text_trans: "same_text a b \<Longrightarrow> same_text b c \<Longrightarrow> same_text a c"
  by (simp add: same_text_def)

lemma same_text_cursor: "same_text c c' \<Longrightarrow> cursor_ok E c' \<longleftrightarrow> cursor_ok E c"
  by (simp add: same_text_def cursor_ok_def Composer_GetLength_def Composition_GetLength_total)

lemma same_text_modes [simp]:
  "same_text c (Composer_SetInputMode m c)" "same_text c (SetTemporaryInputMode m c)"
  "same_text c (ResetInputMode c)" "same_text c (ToggleInputMode c)"
  "same_text c (shifted_mode c)" "same_text c (unshifted_mode c)" "same_text c (set_event_mode e c)"
  "same_text c (switch_input s c)"
  by (auto simp: same_text_def mode_defs Let_def split: ShiftKeyModeSwitch.splits option.splits ModeSwitching.splits)

lemma ApplyTemporaryInputMode_text:
  "ApplyTemporaryInputMode s caps c = Ret c' \<Longrightarrow> same_text c c'"
  by (auto simp: ApplyTemporaryInputMode_def Let_def same_text_def mode_defs split: list.splits if_splits
      ShiftKeyModeSwitch.splits)

lemma UpdateInputMode_text: "UpdateInputMode E c = Ret c' \<Longrightarrow> same_text c c'"
  by (auto simp: UpdateInputMode_def Let_def same_text_def mode_defs split: option.splits if_splits)

text \<open>With the cursor in range the input mode of the surrounding text can always be looked up.\<close>

lemma UpdateInputMode_returns:
  assumes "cm_position c \<le> Composer_GetLength E c"
  shows "\<exists>c'. UpdateInputMode E c = Ret c'"
proof (cases "chunks (cm_composition c) = []")
  case True
  then show ?thesis using assms
    by (simp add: UpdateInputMode_def Composer_GetLength_def Composition_GetLength_total)
next
  case False
  then have "Composition_GetTransliterator E (cm_position c) (cm_composition c) \<noteq> None"
    using GetChunkAt_spec [of E "cm_position c" T_LOCAL "chunks (cm_composition c)"]
    by (auto simp: Composition_GetTransliterator_def split: prod.splits)
  then show ?thesis by (auto simp: UpdateInputMode_def Let_def)
qed

lemma InsertInput_position:
  assumes "InsertInput E fuel pos i C = Ret (x, C')" "pos \<le> Composition_GetLength E C"
  shows "x \<le> Composition_GetLength E C' \<and> comp_table C' = comp_table C"
proof (cases "Input_Empty i")
  case True
  then show ?thesis using assms by (simp add: InsertInput_def)
next
  case False
  obtain l cs where "(x = GetPosition E T_LOCAL l cs \<or> x = GetPosition E T_LOCAL (Suc l) cs) \<and> C' = C\<lparr>chunks := cs\<rparr>"
    using assms(1) False by (auto simp: InsertInput_def Let_def split: prod.splits if_splits)
  then show ?thesis using GetPosition_le [of E T_LOCAL _ cs] by (auto simp: Composition_GetLength_total)
qed

lemma delete_loop_position:
  "delete_loop E fuel p n np cs = Ret (x, cs') \<Longrightarrow> np \<le> total_length E T_LOCAL cs \<Longrightarrow>
   x \<le> total_length E T_LOCAL cs'"
proof (induction fuel arbitrary: np cs)
  case (Suc fuel)
  show ?case
  proof (cases "cs = [] \<or> GetPosition E T_LOCAL (length cs) cs \<noteq> n")
    case True
    then show ?thesis using Suc.prems by auto
  next
    case False
    obtain it cs1 where m: "MaybeSplitChunkAt E p cs = (it, cs1)" by fastforce
    let ?x = "GetPosition E T_LOCAL it cs1"
    show ?thesis
    proof (cases "it = length cs1")
      case True
      then show ?thesis using Suc.prems False m by (auto simp: Let_def)
    next
      case it: False
      then have lt: "it < length cs1" using MaybeSplitChunkAt_le [OF m] by simp
      have le: "?x \<le> total_length E T_LOCAL (take it cs1 @ ds)" for ds by (simp add: GetPosition_total)
      show ?thesis
      proof (cases "chunk_length E T_LOCAL (cs1 ! it) \<le> 1")
        case True
        then have "delete_loop E fuel p n ?x (take it cs1 @ drop (Suc it) cs1) = Ret (x, cs')"
          using Suc.prems(1) False m it by (simp add: Let_def)
        then show ?thesis using le by (rule Suc.IH)
      next
        case c: False
        have upd: "cs1[it := r] = take it cs1 @ r # drop (Suc it) cs1" for r
          using lt by (simp add: upd_conv_take_nth_drop)
        obtain r where "delete_loop E fuel p n ?x (cs1[it := r]) = Ret (x, cs')"
          using Suc.prems(1) False m it c
          by (cases "SplitChunk E T_LOCAL 1 (cs1 ! it)") (auto simp: Let_def split: option.splits)
        then show ?thesis using le unfolding upd by (rule Suc.IH)
      qed
    qed
  qed
qed simp

lemma DeleteAt_position:
  assumes "DeleteAt E fuel pos C = Ret (x, C')" "pos \<le> Composition_GetLength E C"
  shows "x \<le> Composition_GetLength E C' \<and> comp_table C' = comp_table C"
  using assms delete_loop_position [of E fuel pos "Composition_GetLength E C" pos "chunks C" x]
  by (auto simp: DeleteAt_def Composition_GetLength_total)

lemma cursor_SetOutputMode: "cm_table c = comp_table (cm_composition c) \<Longrightarrow> cursor_ok E (SetOutputMode E m c)"
  by (simp add: SetOutputMode_def cursor_ok_def Let_def Composer_GetLength_def)

lemma cursor_Process:
  "ProcessCompositionInput E fuel i c = Ret (b, c') \<Longrightarrow> cursor_ok E c \<Longrightarrow> cursor_ok E c'"
  using InsertInput_position [of E fuel "cm_position c" i "cm_composition c"]
  by (auto simp: ProcessCompositionInput_def cursor_ok_def Composer_GetLength_def split: if_splits)

lemma cursor_InsertCharacter: "InsertCharacter E fuel k c = Ret c' \<Longrightarrow> cursor_ok E c \<Longrightarrow> cursor_ok E c'"
  by (auto simp: InsertCharacter_def dest: cursor_Process)

lemma cursor_InsertCommandCharacter:
  "InsertCommandCharacter E fuel cmd c = Ret c' \<Longrightarrow> cursor_ok E c \<Longrightarrow> cursor_ok E c'"
  by (auto simp: InsertCommandCharacter_def Let_def dest: cursor_Process)

lemma cursor_InsertCharacterPreedit:
  "InsertCharacterPreedit E fuel s c = Ret c' \<Longrightarrow> cursor_ok E c \<Longrightarrow> cursor_ok E c'"
proof (induction s arbitrary: c)
  case (Cons x s)
  obtain b c1 where p: "ProcessCompositionInput E fuel
      (InitFromRawAndConv [x] [x] (cm_is_new_input c) EmptyInput) c = Ret (b, c1)"
    "(if \<not> b then Ret c1 else InsertCharacterPreedit E fuel s c1) = Ret c'"
    using Cons.prems(1) by (auto simp: InsertCharacterKeyAndPreedit_def)
  show ?case using cursor_Process [OF p(1) Cons.prems(2)] p(2) Cons.IH [of c1] by (cases b) auto
qed simp

lemma cursor_insert_chars: "insert_chars E fuel s c = Ret c' \<Longrightarrow> cursor_ok E c \<Longrightarrow> cursor_ok E c'"
proof (induction s arbitrary: c)
  case (Cons x s)
  obtain n C where i: "InsertInput E fuel (cm_position c)
      (EmptyInput\<lparr>in_raw := [x], in_is_new_input := cm_is_new_input c\<rparr>) (cm_composition c) = Ret (n, C)"
    "insert_chars E fuel s (c\<lparr>cm_position := n, cm_composition := C, cm_is_new_input := False\<rparr>) = Ret c'"
    using Cons.prems(1) by auto
  show ?case
    using Cons.IH [OF i(2)] InsertInput_position [OF i(1)] Cons.prems(2)
    by (simp add: cursor_ok_def Composer_GetLength_def)
qed simp

lemma cursor_mode_only:
  "cursor_ok E (c\<lparr>cm_composition := SetInputMode t (cm_composition c)\<rparr>) \<longleftrightarrow> cursor_ok E c"
  by (simp add: cursor_ok_def Composer_GetLength_def)

lemma cursor_EditErase: "cursor_ok E c \<Longrightarrow> cursor_ok E (EditErase c)"
  by (simp add: EditErase_def Let_def cursor_ok_def Composer_GetLength_def)

lemma cursor_Reset: "comp_table (cm_composition c) = cm_table c \<Longrightarrow> cursor_ok E (Reset E c)"
  using cursor_SetOutputMode [of "ResetInputMode (EditErase c)" E TT_HIRAGANA]
  by (simp add: Reset_def Let_def cursor_ok_def Composer_GetLength_def EditErase_def ResetInputMode_def)

lemma cursor_switch_display: "cursor_ok E c \<Longrightarrow> cursor_ok E (switch_display E m c)"
  using cursor_SetOutputMode [of c E] unfolding cursor_ok_def
  by (auto simp: switch_display_def split: ModeSwitching.split)

lemma cursor_AutoSwitchMode: "cursor_ok E c \<Longrightarrow> cursor_ok E (AutoSwitchMode E c)"
  using same_text_cursor [OF same_text_modes(8)] by (simp add: AutoSwitchMode_def Let_def cursor_switch_display)

lemma cursor_check_timeout: "check_timeout E fuel now e c = Ret c' \<Longrightarrow> cursor_ok E c \<Longrightarrow> cursor_ok E c'"
  using cursor_InsertCommandCharacter [of E fuel STOP_KEY_TOGGLING c]
  by (auto simp: check_timeout_def Let_def cursor_ok_def Composer_GetLength_def split: if_splits)

lemma cursor_insert_event_input:
  assumes "insert_event_input E fuel e i c = Ret c'" "cursor_ok E c"
  shows "cursor_ok E c'"
proof (cases "in_conversion i \<noteq> []")
  case True
  then show ?thesis using assms same_text_cursor [OF same_text_modes(1)]
    by (auto simp: insert_event_input_def cursor_mode_only split: if_splits dest!: cursor_Process)
next
  case False
  then obtain c1 b where "ApplyTemporaryInputMode (in_raw i) (HasCaps (GetModifiers e)) c = Ret c1"
    "ProcessCompositionInput E fuel i c1 = Ret (b, c')"
    using assms(1) by (auto simp: insert_event_input_def)
  then show ?thesis
    using assms(2) same_text_cursor [OF ApplyTemporaryInputMode_text] cursor_Process by blast
qed

lemma cursor_InsertCharacterKeyEvent:
  assumes "InsertCharacterKeyEvent E fuel now e c = Ret (b, c')" "cursor_ok E c"
  shows "cursor_ok E c'"
proof (cases "EnableInsert E c")
  case True
  then obtain c1 where c1: "check_timeout E fuel now e c = Ret c1"
    using assms(1) by (auto simp: InsertCharacterKeyEvent_def)
  have ok: "cursor_ok E (set_event_mode e c1)"
    using cursor_check_timeout [OF c1 assms(2)] same_text_cursor [OF same_text_modes(7)] by blast
  let ?c2 = "set_event_mode e c1"
  consider "c' = Composer_SetInputMode (cm_comeback_input_mode ?c2) ?c2" | "c' = ?c2"
    | c3 i where "insert_event_input E fuel e i ?c2 = Ret c3" "c' = c3 \<or> c' = AutoSwitchMode E c3"
    using assms(1) True c1
    by (auto simp: InsertCharacterKeyEvent_def Let_def split: modifier_scan.splits option.splits if_splits)
  then show ?thesis
  proof cases
    case 3
    then show ?thesis using cursor_insert_event_input [OF _ ok] cursor_AutoSwitchMode by blast
  qed (use ok same_text_cursor [OF same_text_modes(1)] in \<open>auto\<close>)
qed (use assms in \<open>simp add: InsertCharacterKeyEvent_def\<close>)

lemma cursor_Update: "UpdateInputMode E c = Ret c' \<Longrightarrow> cursor_ok E c \<Longrightarrow> cursor_ok E c'"
  using same_text_cursor [OF UpdateInputMode_text] by blast

lemma cursor_Delete: "Delete E fuel c = Ret c' \<Longrightarrow> cursor_ok E c \<Longrightarrow> cursor_ok E c'"
  using DeleteAt_position [of E fuel "cm_position c" "cm_composition c"]
  by (auto simp: Delete_def cursor_ok_def Composer_GetLength_def elim!: cursor_Update [unfolded cursor_ok_def Composer_GetLength_def])

lemma cursor_Backspace: 
  assumes "Backspace E fuel c = Ret c'" "cursor_ok E c"
  shows "cursor_ok E c'"
proof (cases "cm_position c = 0")
  case False
  then obtain c1 n C where u: "UpdateInputMode E (c\<lparr>cm_position := cm_position c - 1\<rparr>) = Ret c1"
    and d: "DeleteAt E fuel (cm_position c1) (cm_composition c1) = Ret (n, C)"
    and c': "c' = c1\<lparr>cm_position := n, cm_composition := C\<rparr>"
    using assms(1) by (auto simp: Backspace_def)
  have "cursor_ok E (c\<lparr>cm_position := cm_position c - 1\<rparr>)" using assms(2) by (auto simp: cursor_ok_def)
  then have "cursor_ok E c1" by (rule cursor_Update [OF u])
  then show ?thesis using DeleteAt_position [OF d] c' by (simp add: cursor_ok_def Composer_GetLength_def)
qed (use assms in \<open>simp add: Backspace_def\<close>)

lemma cursor_move:
  "cursor_ok E c \<Longrightarrow> MoveCursorLeft E c = Ret c' \<Longrightarrow> cursor_ok E c'"
  "cursor_ok E c \<Longrightarrow> MoveCursorRight E c = Ret c' \<Longrightarrow> cursor_ok E c'"
  "cursor_ok E c \<Longrightarrow> MoveCursorTo E n c = Ret c' \<Longrightarrow> cursor_ok E c'"
  by (auto simp: MoveCursorLeft_def MoveCursorRight_def MoveCursorTo_def cursor_ok_def split: if_splits
      elim!: cursor_Update [unfolded cursor_ok_def])

subsection \<open>Deleting characters\<close>

text \<open>
  A composition whose chunks show their text plainly (\<open>shows_plainly\<close>, theory \<^verbatim>\<open>Composition\<close>); deletions
  keep it so.
\<close>

definition well_shown :: "env \<Rightarrow> Composition \<Rightarrow> bool" where
  "well_shown E C \<longleftrightarrow> list_all (shows_plainly E) (chunks C)"

lemma well_shown_DeleteAt:
  assumes "well_shown E C" "length (chunks C) + 2 \<le> fuel"
  shows "\<exists>x C'. DeleteAt E fuel p C = Ret (x, C') \<and> well_shown E C' \<and>
    length (chunks C') \<le> Suc (length (chunks C)) \<and> GetString E C' = take p (GetString E C) @ drop (Suc p) (GetString E C) \<and>
    (chunks C \<noteq> [] \<longrightarrow> x = min p (length (GetString E C))) \<and> comp_table C' = comp_table C"
  using plain.DeleteAt_good [OF assms [unfolded well_shown_def], of p] unfolding well_shown_def by metis

lemma well_shown_length: "well_shown E C \<Longrightarrow> Composition_GetLength E C = length (GetString E C)"
  using plain.DeleteAt_good [of E C "length (chunks C) + 2" 0] by (auto simp: well_shown_def)

lemma well_shown_same: "chunks C' = chunks C \<Longrightarrow> well_shown E C' \<longleftrightarrow> well_shown E C"
  by (simp add: well_shown_def)

lemma GetString_same: "chunks C' = chunks C \<Longrightarrow> GetString E C' = GetString E C"
  by (simp add: GetString_def)

lemma Composer_DeleteAt_good:
  assumes "well_shown E (cm_composition c)" "length (chunks (cm_composition c)) + 2 \<le> fuel"
  shows "\<exists>c'. Composer_DeleteAt E fuel pos c = Ret c' \<and> well_shown E (cm_composition c') \<and>
    length (chunks (cm_composition c')) \<le> Suc (length (chunks (cm_composition c))) \<and>
    GetString E (cm_composition c') =
      take pos (GetString E (cm_composition c)) @ drop (Suc pos) (GetString E (cm_composition c)) \<and>
    cm_position c' = (if cm_position c > pos then cm_position c - 1 else cm_position c) \<and>
    comp_table (cm_composition c') = comp_table (cm_composition c) \<and> cm_table c' = cm_table c"
  using well_shown_DeleteAt [OF assms, of pos] by (fastforce simp: Composer_DeleteAt_def)

lemma Composer_DeleteAt_fuel:
  assumes "Composer_DeleteAt E fuel pos c = Ret c'" "fuel \<le> fuel'"
  shows "Composer_DeleteAt E fuel' pos c = Ret c'"
proof (cases "DeleteAt E fuel pos (cm_composition c)")
  case (Ret x)
  then show ?thesis using assms(1) DeleteAt_fuel [OF Ret assms(2)] by (simp add: Composer_DeleteAt_def)
qed (use assms(1) in \<open>simp_all add: Composer_DeleteAt_def\<close>)

lemma DeleteRange_Suc:
  assumes "DeleteRange E fuel pos (Suc len) c = Ret c'" "pos < Composer_GetLength E c"
  obtains c1 where "Composer_DeleteAt E fuel pos c = Ret c1" "DeleteRange E fuel pos len c1 = Ret c'"
  using assms by (cases "Composer_DeleteAt E fuel pos c") simp_all

lemma DeleteRange_fuel:
  "DeleteRange E fuel pos len c = Ret c' \<Longrightarrow> fuel \<le> fuel' \<Longrightarrow> DeleteRange E fuel' pos len c = Ret c'"
proof (induction len arbitrary: c)
  case (Suc len)
  show ?case
  proof (cases "pos < Composer_GetLength E c")
    case True
    from DeleteRange_Suc [OF Suc.prems(1) this] obtain c1 where
      c: "Composer_DeleteAt E fuel pos c = Ret c1" "DeleteRange E fuel pos len c1 = Ret c'" .
    show ?thesis using True Composer_DeleteAt_fuel [OF c(1) Suc.prems(2)] Suc.IH [OF c(2) Suc.prems(2)] by simp
  qed (use Suc.prems(1) in simp)
qed simp

lemma cursor_Composer_DeleteAt:
  assumes "Composer_DeleteAt E fuel pos c = Ret c'" "well_shown E (cm_composition c)" "cursor_ok E c"
  shows "cursor_ok E c' \<and> well_shown E (cm_composition c')"
proof -
  let ?n = "length (chunks (cm_composition c)) + 2"
  obtain c1 where d: "Composer_DeleteAt E (max fuel ?n) pos c = Ret c1" "well_shown E (cm_composition c1)"
    "GetString E (cm_composition c1) =
      take pos (GetString E (cm_composition c)) @ drop (Suc pos) (GetString E (cm_composition c))"
    "cm_position c1 = (if cm_position c > pos then cm_position c - 1 else cm_position c)"
    "comp_table (cm_composition c1) = comp_table (cm_composition c)" "cm_table c1 = cm_table c"
    using Composer_DeleteAt_good [OF assms(2), of "max fuel ?n" pos] by auto
  have "c' = c1" using Composer_DeleteAt_fuel [OF assms(1), of "max fuel ?n"] d(1) by simp
  moreover have "cm_position c \<le> length (GetString E (cm_composition c))"
    using assms(3) well_shown_length [OF assms(2)] by (simp add: cursor_ok_def Composer_GetLength_def)
  ultimately show ?thesis
    using assms(3) d(2-6) well_shown_length [OF d(2)] by (auto simp: cursor_ok_def Composer_GetLength_def)
qed

lemma cursor_DeleteRange:
  "DeleteRange E fuel pos len c = Ret c' \<Longrightarrow> well_shown E (cm_composition c) \<Longrightarrow> cursor_ok E c \<Longrightarrow> cursor_ok E c'"
proof (induction len arbitrary: c)
  case (Suc len)
  show ?case
  proof (cases "pos < Composer_GetLength E c")
    case True
    from DeleteRange_Suc [OF Suc.prems(1) this] obtain c1 where
      c: "Composer_DeleteAt E fuel pos c = Ret c1" "DeleteRange E fuel pos len c1 = Ret c'" .
    show ?thesis using cursor_Composer_DeleteAt [OF c(1) Suc.prems(2,3)] Suc.IH [OF c(2)] by blast
  qed (use Suc.prems in simp)
qed simp

subsection \<open>The composer as a state machine\<close>

text \<open>
  One step is one call of an operation that changes the composer, with any arguments. \<open>DeleteAt\<close> and
  \<open>DeleteRange\<close> move the cursor by counting characters, so their steps ask for a composition that shows its
  text plainly; without it the cursor can leave the composition (\<open>DeleteAt_cursor_escapes\<close>).
\<close>

inductive composer_step :: "env \<Rightarrow> Composer \<Rightarrow> Composer \<Rightarrow> bool" for E where
  step_key: "InsertCharacterKeyEvent E fuel now e c = Ret (b, c') \<Longrightarrow> composer_step E c c'"
| step_character: "InsertCharacter E fuel k c = Ret c' \<Longrightarrow> composer_step E c c'"
| step_command: "InsertCommandCharacter E fuel cmd c = Ret c' \<Longrightarrow> composer_step E c c'"
| step_preedit: "InsertCharacterPreedit E fuel s c = Ret c' \<Longrightarrow> composer_step E c c'"
| step_key_preedit: "InsertCharacterKeyAndPreedit E fuel k s c = Ret (b, c') \<Longrightarrow> composer_step E c c'"
| step_test_text: "SetPreeditTextForTestOnly E fuel s c = Ret c' \<Longrightarrow> composer_step E c c'"
| step_handwriting: "SetCompositionsForHandwriting E fuel ss c = Ret c' \<Longrightarrow> composer_step E c c'"
| step_delete: "Delete E fuel c = Ret c' \<Longrightarrow> composer_step E c c'"
| step_backspace: "Backspace E fuel c = Ret c' \<Longrightarrow> composer_step E c c'"
| step_delete_at: "well_shown E (cm_composition c) \<Longrightarrow> Composer_DeleteAt E fuel pos c = Ret c' \<Longrightarrow> composer_step E c c'"
| step_delete_range: "well_shown E (cm_composition c) \<Longrightarrow> DeleteRange E fuel pos len c = Ret c' \<Longrightarrow> composer_step E c c'"
| step_left: "MoveCursorLeft E c = Ret c' \<Longrightarrow> composer_step E c c'"
| step_right: "MoveCursorRight E c = Ret c' \<Longrightarrow> composer_step E c c'"
| step_to: "MoveCursorTo E n c = Ret c' \<Longrightarrow> composer_step E c c'"
| step_update: "UpdateInputMode E c = Ret c' \<Longrightarrow> composer_step E c c'"
| step_beginning: "composer_step E c (MoveCursorToBeginning c)"
| step_end: "composer_step E c (MoveCursorToEnd E c)"
| step_erase: "composer_step E c (EditErase c)"
| step_reset: "composer_step E c (Reset E c)"
| step_mode: "composer_step E c (Composer_SetInputMode m c)"
| step_temporary: "composer_step E c (SetTemporaryInputMode m c)"
| step_toggle: "composer_step E c (ToggleInputMode c)"
| step_output: "composer_step E c (SetOutputMode E m c)"
| step_auto: "composer_step E c (AutoSwitchMode E c)"
| step_table: "composer_step E c (Composer_SetTable p c)"
| step_request: "composer_step E c (SetRequest r c)"
| step_config: "composer_step E c (SetConfig g c)"
| step_new_input: "composer_step E c (SetNewInput c)"
| step_field: "composer_step E c (SetInputFieldType t c)"
| step_source: "composer_step E c (set_source_text s c)"
| step_max: "composer_step E c (c\<lparr>cm_max_length := n\<rparr>)"
| step_timeout: "composer_step E c (c\<lparr>cm_timeout_threshold_msec := k\<rparr>)"

inductive reachable :: "env \<Rightarrow> Composer \<Rightarrow> bool" for E where
  reach_new: "reachable E (NewComposer E p req conf)"
| reach_step: "reachable E c \<Longrightarrow> composer_step E c c' \<Longrightarrow> reachable E c'"

inductive_cases composer_stepE: "composer_step E c c'"

lemma cursor_simple_steps:
  assumes "cursor_ok E c"
  shows "cursor_ok E (MoveCursorToBeginning c)" "cursor_ok E (MoveCursorToEnd E c)"
    "cursor_ok E (Composer_SetTable p c)" "cursor_ok E (SetRequest r c)" "cursor_ok E (SetConfig g c)"
    "cursor_ok E (SetNewInput c)" "cursor_ok E (SetInputFieldType t c)" "cursor_ok E (set_source_text s c)"
    "cursor_ok E (c\<lparr>cm_max_length := n\<rparr>)" "cursor_ok E (c\<lparr>cm_timeout_threshold_msec := k\<rparr>)"
    "cursor_ok E (ToggleInputMode c)"
  using assms
  by (auto simp: cursor_ok_def Composer_GetLength_def MoveCursorToBeginning_def MoveCursorToEnd_def
      Composer_SetTable_def SetRequest_def SetConfig_def SetNewInput_def SetInputFieldType_def set_source_text_def
      ToggleInputMode_def Let_def)

lemma cursor_SetPreeditTextForTestOnly:
  assumes "SetPreeditTextForTestOnly E fuel s c = Ret c'" "cursor_ok E c"
  shows "cursor_ok E c'"
proof -
  obtain c1 where "insert_chars E fuel s (c\<lparr>cm_composition := SetInputMode T_RAW_STRING (cm_composition c)\<rparr>) = Ret c1"
    "c' = c1 \<or> c' = SetTemporaryInputMode TT_HALF_ASCII c1"
    using assms(1) by (auto simp: SetPreeditTextForTestOnly_def split: if_splits)
  then show ?thesis
    using cursor_insert_chars assms(2) cursor_mode_only same_text_cursor [OF same_text_modes(2)] by blast
qed

lemma cursor_SetCompositionsForHandwriting:
  assumes "SetCompositionsForHandwriting E fuel ss c = Ret c'" "cursor_ok E c"
  shows "cursor_ok E c'"
proof -
  let ?c1 = "(Reset E c)\<lparr>cm_compositions_for_handwriting := ss\<rparr>"
  have ok: "cursor_ok E ?c1"
    using cursor_Reset [of c E] assms(2) by (simp add: cursor_ok_def Composer_GetLength_def)
  show ?thesis
  proof (cases ss)
    case Nil
    then show ?thesis using assms(1) ok by (simp add: SetCompositionsForHandwriting_def Let_def)
  next
    case (Cons s rest)
    then have "insert_chars E fuel s (?c1\<lparr>cm_composition := SetInputMode T_RAW_STRING (cm_composition ?c1)\<rparr>) = Ret c'"
      using assms(1) by (simp add: SetCompositionsForHandwriting_def Let_def)
    then show ?thesis using ok cursor_insert_chars cursor_mode_only by blast
  qed
qed

lemma cursor_step:
  assumes "composer_step E c c'" "cursor_ok E c"
  shows "cursor_ok E c'"
  using assms(1)
proof (cases rule: composer_step.cases)
  case step_key_preedit
  then show ?thesis using cursor_Process assms(2) unfolding InsertCharacterKeyAndPreedit_def by blast
next
  case step_reset
  then show ?thesis using cursor_Reset assms(2) by (simp add: cursor_ok_def)
next
  case step_output
  then show ?thesis using cursor_SetOutputMode assms(2) by (simp add: cursor_ok_def)
next
  case step_mode
  then show ?thesis using same_text_cursor [OF same_text_modes(1)] assms(2) by simp
next
  case step_temporary
  then show ?thesis using same_text_cursor [OF same_text_modes(2)] assms(2) by simp
next
  case step_erase
  then show ?thesis using cursor_EditErase [OF assms(2)] by simp
next
  case step_auto
  then show ?thesis using cursor_AutoSwitchMode [OF assms(2)] by simp
next
  case step_key
  then show ?thesis by (rule cursor_InsertCharacterKeyEvent [OF _ assms(2)])
next
  case step_character
  then show ?thesis by (rule cursor_InsertCharacter [OF _ assms(2)])
next
  case step_command
  then show ?thesis by (rule cursor_InsertCommandCharacter [OF _ assms(2)])
next
  case step_preedit
  then show ?thesis by (rule cursor_InsertCharacterPreedit [OF _ assms(2)])
next
  case step_test_text
  then show ?thesis by (rule cursor_SetPreeditTextForTestOnly [OF _ assms(2)])
next
  case step_handwriting
  then show ?thesis by (rule cursor_SetCompositionsForHandwriting [OF _ assms(2)])
next
  case step_delete
  then show ?thesis by (rule cursor_Delete [OF _ assms(2)])
next
  case step_backspace
  then show ?thesis by (rule cursor_Backspace [OF _ assms(2)])
next
  case step_delete_at
  then show ?thesis using cursor_Composer_DeleteAt assms(2) by blast
next
  case step_delete_range
  then show ?thesis using cursor_DeleteRange assms(2) by blast
next
  case step_update
  then show ?thesis by (rule cursor_Update [OF _ assms(2)])
next
  case step_left
  then show ?thesis by (rule cursor_move(1) [OF assms(2)])
next
  case step_right
  then show ?thesis by (rule cursor_move(2) [OF assms(2)])
next
  case step_to
  then show ?thesis by (rule cursor_move(3) [OF assms(2)])
next
  case step_beginning
  then show ?thesis using cursor_simple_steps(1) [OF assms(2)] by simp
next
  case step_end
  then show ?thesis using cursor_simple_steps(2) [OF assms(2)] by simp
next
  case step_table
  then show ?thesis using cursor_simple_steps(3) [OF assms(2)] by simp
next
  case step_request
  then show ?thesis using cursor_simple_steps(4) [OF assms(2)] by simp
next
  case step_config
  then show ?thesis using cursor_simple_steps(5) [OF assms(2)] by simp
next
  case step_new_input
  then show ?thesis using cursor_simple_steps(6) [OF assms(2)] by simp
next
  case step_field
  then show ?thesis using cursor_simple_steps(7) [OF assms(2)] by simp
next
  case step_source
  then show ?thesis using cursor_simple_steps(8) [OF assms(2)] by simp
next
  case step_max
  then show ?thesis using cursor_simple_steps(9) [OF assms(2)] by simp
next
  case step_timeout
  then show ?thesis using cursor_simple_steps(10) [OF assms(2)] by simp
next
  case step_toggle
  then show ?thesis using cursor_simple_steps(11) [OF assms(2)] by simp
qed

lemma reachable_cursor: "reachable E c \<Longrightarrow> cursor_ok E c"
proof (induction rule: reachable.induct)
  case (reach_new p req conf)
  then show ?case unfolding NewComposer_def Let_def by (rule cursor_Reset) simp
qed (rule cursor_step)

text \<open>
  \<open>C22\<close>: In every state that the operations of the composer reach, the cursor is within the
  composition, and the composer and its composition use the same table. So moving the cursor and
  updating the input mode never look at a character that is not there: they return. The operations are
  all that change the composer: insertion of every kind, deletion, cursor movement, modes, reset and
  settings, with any arguments, where they return; \<^verbatim>\<open>DeleteAt\<close> and \<^verbatim>\<open>DeleteRange\<close> are included for
  compositions whose chunks show their text plainly (\<open>well_shown\<close>: any mixture of the Hiragana, full-width
  Katakana, ASCII, conversion and raw modes, without special keys, \<^verbatim>\<open>NO_TRANSLITERATION\<close> rules or an ambiguous
  result on display).
\<close>

theorem cursor_in_range:
  assumes "reachable E c"
  shows "cm_position c \<le> Composer_GetLength E c \<and> comp_table (cm_composition c) = cm_table c \<and>
    (\<exists>c'. UpdateInputMode E c = Ret c') \<and> (\<exists>c'. MoveCursorLeft E c = Ret c') \<and>
    (\<exists>c'. MoveCursorRight E c = Ret c') \<and> (\<exists>c'. MoveCursorTo E n c = Ret c')"
proof -
  have ok: "cm_position c \<le> Composer_GetLength E c" "comp_table (cm_composition c) = cm_table c"
    using reachable_cursor [OF assms] by (simp_all add: cursor_ok_def)
  then show ?thesis
    by (auto simp: MoveCursorLeft_def MoveCursorRight_def MoveCursorTo_def intro!: UpdateInputMode_returns)
qed

definition demo_composer :: Composer where
  "demo_composer = NewComposer id_env (TablePtr 1 nn_table) demo_request demo_config"

theorem cursor_in_range_witness:
  "\<exists>c'. MoveCursorRight id_env (MoveCursorToEnd id_env demo_composer) = Ret c'"
proof -
  have "reachable id_env (MoveCursorToEnd id_env demo_composer)"
    unfolding demo_composer_def by (rule reach_step [OF reach_new step_end])
  then show ?thesis using cursor_in_range [of id_env "MoveCursorToEnd id_env demo_composer" 0] by blast
qed

subsection \<open>Backspace\<close>

text \<open>
  \<open>C23\<close>: Backspace removes exactly the character left of the cursor and moves the cursor left by one; at
  the start of the composition it does nothing. The cursor is within the composition, and the chunks are
  \<open>well_shown\<close>: in any mixture of the Hiragana, full-width Katakana, full- and half-width ASCII, conversion
  and raw modes, without \<^verbatim>\<open>NO_TRANSLITERATION\<close> rules, special keys or an ambiguous result on display, and
  with character conversions that treat their characters one by one.
\<close>

theorem Backspace_correct:
  assumes "well_shown E (cm_composition c)" and "cm_position c \<le> Composer_GetLength E c"
    and "length (chunks (cm_composition c)) + 2 \<le> fuel"
  shows "\<exists>c'. Backspace E fuel c = Ret c' \<and>
    (if cm_position c = 0 then c' = c
     else cm_position c' = cm_position c - 1 \<and>
       GetString E (cm_composition c') =
         take (cm_position c - 1) (GetString E (cm_composition c)) @
         drop (cm_position c) (GetString E (cm_composition c)))"
proof (cases "cm_position c = 0")
  case False
  let ?c = "c\<lparr>cm_position := cm_position c - 1\<rparr>"
  obtain c1 where u: "UpdateInputMode E ?c = Ret c1"
    using UpdateInputMode_returns [of ?c E] assms(2) by fastforce
  have t: "chunks (cm_composition c1) = chunks (cm_composition c)" "cm_position c1 = cm_position c - 1"
    using UpdateInputMode_text [OF u] by (simp_all add: same_text_def)
  have len: "Composer_GetLength E c = length (GetString E (cm_composition c))"
    using well_shown_length [OF assms(1)] by (simp add: Composer_GetLength_def)
  have ne: "chunks (cm_composition c) \<noteq> []"
    using assms(2) False by (auto simp: Composer_GetLength_def Composition_GetLength_total)
  obtain x C' where d: "DeleteAt E fuel (cm_position c1) (cm_composition c1) = Ret (x, C')"
    "GetString E C' = take (cm_position c1) (GetString E (cm_composition c1)) @
       drop (Suc (cm_position c1)) (GetString E (cm_composition c1))"
    "x = min (cm_position c1) (length (GetString E (cm_composition c1)))"
    using well_shown_DeleteAt [of E "cm_composition c1" fuel "cm_position c1"] assms(1,3) t(1) ne
      well_shown_same [OF t(1), of E] by auto
  have "Backspace E fuel c = Ret (c1\<lparr>cm_position := x, cm_composition := C'\<rparr>)"
    using False u d(1) by (simp add: Backspace_def)
  then show ?thesis
    using False d(2,3) t(2) GetString_same [OF t(1), of E] len assms(2) by simp
qed (simp add: Backspace_def)

theorem Backspace_correct_witness:
  "\<exists>c'. Backspace modes_env 5 (demo_composer\<lparr>cm_composition := tta_composition, cm_position := 2\<rparr>) = Ret c' \<and>
     cm_position c' = 1 \<and>
     GetString modes_env (cm_composition c') = [0x3063, 0xFF4B, 0x30C3, 0x30BF, 0xFF4B, 0xFF54, 0xFF54, 0xFF41, 0xFF4B]"
proof -
  let ?c = "demo_composer\<lparr>cm_composition := tta_composition, cm_position := 2\<rparr>"
  have w: "well_shown modes_env (cm_composition ?c)" "length (chunks (cm_composition ?c)) + 2 \<le> 5"
    by (simp add: well_shown_def tta_shows_plainly) (simp add: tta_composition_def)
  have l: "cm_position ?c \<le> Composer_GetLength modes_env ?c"
    using well_shown_length [OF w(1)] by (simp add: Composer_GetLength_def tta_GetString)
  from Backspace_correct [OF w(1) l w(2)] show ?thesis by (auto simp: tta_GetString)
qed

subsection \<open>Ranges of a transliteration\<close>

lemma size_t_diff_le [simp]: "b \<le> a \<Longrightarrow> size_t_diff a b = a - b"
  by (simp add: size_t_diff_def)

lemma take_drop_join:
  "m \<le> n \<Longrightarrow> n \<le> k \<Longrightarrow> take (n - m) (drop m s) @ take (k - n) (drop n s) = take (k - m) (drop m s)"
  using take_add [of "n - m" "k - n" "drop m s"] by simp

lemma ConvertPosition_some: "\<exists>q. ConvertPosition E p t_from t_to cs = Some q"
  using ConvertPosition_bound [of t_from t_to E p cs] by (cases "t_from = t_to") (auto simp: ConvertPosition_def)

text \<open>
  The part of a transliteration that belongs to a range of the composition always exists (the
  conversion of the positions does not fail, their difference does not wrap), and cutting a range at
  any character cuts its text: the texts of adjacent ranges put together are the text of the joint
  range. So the segments of a conversion, however they are sized, share out the whole transliteration.
\<close>

theorem GetTransliteratedText_adjacent:
  "\<exists>u v. common_GetTransliteratedText E C t12r pos len = Some u \<and>
     common_GetTransliteratedText E C t12r (pos + len) len' = Some v \<and>
     common_GetTransliteratedText E C t12r pos (len + len') = Some (u @ v) \<and>
     length u \<le> length (GetStringWithTransliterator E t12r C)"
proof -
  obtain m n k where c: "ConvertPosition E pos T_LOCAL t12r (chunks C) = Some m"
    "ConvertPosition E (pos + len) T_LOCAL t12r (chunks C) = Some n"
    "ConvertPosition E (pos + (len + len')) T_LOCAL t12r (chunks C) = Some k"
    using ConvertPosition_some by metis
  have "m \<le> n" "n \<le> k"
    using ConvertPosition_mono [OF _ c(1,2)] ConvertPosition_mono [OF _ c(2,3)] by simp_all
  then show ?thesis
    using c take_drop_join [of m n k "GetStringWithTransliterator E t12r C"]
    by (simp add: common_GetTransliteratedText_def Let_def add.assoc)
qed

subsection \<open>Numbers with Japanese punctuation\<close>

text \<open>
  The specification, without indices into the script list: a hyphen follows an alphanumeric or a
  number of hyphens after one, or begins the text before a digit; a comma or a period directly
  follows an alphanumeric.
\<close>

definition numeric :: "char32 \<Rightarrow> bool" where
  "numeric c \<longleftrightarrow> IsAlphabetOrNumber (char_script c)"

definition number_symbol :: "ustr \<Rightarrow> char32 \<Rightarrow> ustr \<Rightarrow> bool" where
  "number_symbol before c after \<longleftrightarrow>
     (if c = 0x30FC
      then (if before = [] then after \<noteq> [] \<and> char_script (hd after) = S_NUMBER
            else (case dropWhile (\<lambda>x. x = 0x30FC) (rev before) of [] \<Rightarrow> False | x # _ \<Rightarrow> numeric x))
      else (c = 0x3001 \<or> c = 0x3002) \<and> before \<noteq> [] \<and> numeric (last before))"

definition number_form :: "char32 \<Rightarrow> char32" where
  "number_form c = (if c = 0x30FC then 0x2212 else if c = 0x3001 then 0xFF0C else 0xFF0E)"

fun with_number_forms :: "env \<Rightarrow> ustr \<Rightarrow> ustr \<Rightarrow> ustr" where
  "with_number_forms E before [] = []"
| "with_number_forms E before (c # after) =
     (if number_symbol before c after then ConvertPreeditString E [number_form c] else [c]) @
     with_number_forms E (before @ [c]) after"

fun some_number_symbol :: "ustr \<Rightarrow> ustr \<Rightarrow> bool" where
  "some_number_symbol before [] = False"
| "some_number_symbol before (c # after) \<longleftrightarrow>
     number_symbol before c after \<or> some_number_symbol (before @ [c]) after"

lemma char_script_symbol [simp]:
  "char_script c = S_JA_HYPHEN \<longleftrightarrow> c = 0x30FC"
  "char_script c = S_JA_COMMA \<longleftrightarrow> c = 0x3001"
  "char_script c = S_JA_PERIOD \<longleftrightarrow> c = 0x3002"
  "char_script 0x30FC = S_JA_HYPHEN" "char_script 0x3001 = S_JA_COMMA" "char_script 0x3002 = S_JA_PERIOD"
  by (simp_all add: char_script_def)

lemma hyphen_check_spec:
  "hyphen_check (map char_script (before @ after)) (length before) \<longleftrightarrow>
     (case dropWhile (\<lambda>x. x = 0x30FC) (rev before) of [] \<Rightarrow> False | x # _ \<Rightarrow> numeric x)"
proof (induction before arbitrary: after rule: rev_induct)
  case (snoc x before)
  have "hyphen_check (map char_script (before @ x # after)) (length before) \<longleftrightarrow>
     (case dropWhile (\<lambda>x. x = 0x30FC) (rev before) of [] \<Rightarrow> False | x # _ \<Rightarrow> numeric x)"
    by (rule snoc.IH)
  then show ?case by (cases "x = 0x30FC") (simp_all add: nth_append numeric_def)
qed simp

lemma append_char_spec:
  assumes "\<And>x. ConvertPreeditString E [x] \<noteq> []"
  shows "append_char E (map char_script (before @ c # after)) (length before) =
    (if number_symbol before c after then ConvertPreeditString E [number_form c] else [])"
proof -
  let ?q = "before @ c # after"
  have at: "map char_script ?q ! length before = char_script c" by (simp add: nth_append)
  have prev: "before \<noteq> [] \<Longrightarrow> map char_script ?q ! (length before - Suc 0) = char_script (last before)"
    by (simp add: nth_append last_conv_nth)
  have next1: "before = [] \<Longrightarrow> after \<noteq> [] \<Longrightarrow> map char_script ?q ! Suc 0 = char_script (hd after)"
    by (cases after) simp_all
  have none: "append_char E (map char_script ?q) (length before) = []"
    if "c \<noteq> 0x30FC" "c \<noteq> 0x3001" "c \<noteq> 0x3002"
    using that char_script_symbol(1-3) [of c] unfolding append_char_def at by (cases "char_script c") simp_all
  show ?thesis
  proof (cases "c = 0x30FC")
    case True
    then have s: "char_script c = S_JA_HYPHEN" by simp
    have ins: "(if length before = 0 \<and> length (map char_script ?q) > 1
         then map char_script ?q ! 1 = S_NUMBER else hyphen_check (map char_script ?q) (length before)) =
        number_symbol before c after"
      using next1 hyphen_check_spec [of before "c # after"] True
      by (cases after) (auto simp: number_symbol_def)
    show ?thesis unfolding append_char_def at s Let_def Script.case
      using ins True by (simp add: number_form_def)
  next
    case False
    then consider "c = 0x3001" | "c = 0x3002" | "c \<noteq> 0x3001" "c \<noteq> 0x3002" by blast
    then show ?thesis
    proof cases
      case 1
      then have s: "char_script c = S_JA_COMMA" by simp
      show ?thesis unfolding append_char_def at s Script.case
        using prev 1 by (cases "before = []") (simp_all add: number_symbol_def numeric_def number_form_def)
    next
      case 2
      then have s: "char_script c = S_JA_PERIOD" by simp
      show ?thesis unfolding append_char_def at s Script.case
        using prev 2 by (cases "before = []") (simp_all add: number_symbol_def numeric_def number_form_def)
    next
      case 3
      then show ?thesis using none False by (simp add: number_symbol_def)
    qed
  qed
qed

lemma transform_loop_spec:
  assumes "\<And>x. ConvertPreeditString E [x] \<noteq> []" "0 \<notin> set rest"
  shows "transform_loop E (map char_script (before @ rest)) (length before) rest =
    (some_number_symbol before rest, with_number_forms E before rest)"
  using assms(2)
proof (induction rest arbitrary: before)
  case (Cons c rest)
  have "transform_loop E (map char_script (before @ c # rest)) (Suc (length before)) rest =
    (some_number_symbol (before @ [c]) rest, with_number_forms E (before @ [c]) rest)"
    using Cons.IH [of "before @ [c]"] Cons.prems by simp
  then show ?case using append_char_spec [OF assms(1), of before c rest] assms(1) Cons.prems
    by (simp add: Let_def CodepointToUtf8_def)
qed simp

lemma some_number_symbol_is: "some_number_symbol before rest \<Longrightarrow> list_ex is_symbol rest"
  by (induction before rest rule: some_number_symbol.induct) (auto simp: number_symbol_def is_symbol_def split: if_splits)

lemma no_number_symbol: "\<not> some_number_symbol before rest \<Longrightarrow> with_number_forms E before rest = rest"
  by (induction E before rest rule: with_number_forms.induct) auto

text \<open>
  \<open>C28\<close>: The punctuation of numbers in a query, as the code decides it: if the query has an alphanumeric
  character, each Japanese hyphen that begins the query before a digit or follows an alphanumeric character, other hyphens in between
  allowed, and each Japanese comma and period directly after an alphanumeric character is replaced by the configured form of the
  minus sign, the full-width comma or period, all other characters stay, and the result says whether one was
  replaced. For a comma or a period only the character before is looked at, although the comment in the code asks for
  alphanumeric characters on both sides. The character forms
  of the user are never empty, and the text has no U+0000, which the code would drop.
\<close>

theorem TransformCharactersForNumbers_correct:
  assumes "\<And>x. ConvertPreeditString E [x] \<noteq> []" and "0 \<notin> set query"
  shows "TransformCharactersForNumbers E query =
    (if list_ex is_alphanumeric query \<and> some_number_symbol [] query
     then (True, with_number_forms E [] query) else (False, query))"
  using transform_loop_spec [OF assms(1), of query "[]"] assms some_number_symbol_is [of "[]" query]
    no_number_symbol [of "[]" query E]
  by (auto simp: TransformCharactersForNumbers_def Let_def)

theorem TransformCharactersForNumbers_correct_witness:
  "TransformCharactersForNumbers id_env [0x30FC, 0x31, 0x3001, 0x30, 0x3001] =
     (True, [0x2212, 0x31, 0xFF0C, 0x30, 0xFF0C])"
proof -
  have "list_ex is_alphanumeric [0x30FC, 0x31, 0x3001, 0x30, 0x3001]"
    by (simp add: is_alphanumeric_def is_symbol_def GetScriptType_def INRANGE_def)
  then show ?thesis
    using TransformCharactersForNumbers_correct [of id_env "[0x30FC, 0x31, 0x3001, 0x30, 0x3001]"]
    by (simp add: id_env_def number_symbol_def number_form_def numeric_def IsAlphabetOrNumber_def char_script_def
        GetScriptType_def INRANGE_def)
qed

lemma with_number_forms_length:
  "(\<And>x. length (ConvertPreeditString E [x]) = 1) \<Longrightarrow> length (with_number_forms E before rest) = length rest"
  by (induction E before rest rule: with_number_forms.induct) auto

lemma Transform_length:
  assumes "\<And>x. length (ConvertPreeditString E [x]) = 1" "0 \<notin> set query"
  shows "length (snd (TransformCharactersForNumbers E query)) = length query"
proof -
  have "\<And>x. ConvertPreeditString E [x] \<noteq> []" using assms(1) by (metis length_0_conv zero_neq_one)
  then show ?thesis
    using transform_loop_spec [of E query "[]"] assms with_number_forms_length [of E "[]" query]
    by (auto simp: TransformCharactersForNumbers_def Let_def split: prod.splits)
qed

text \<open>
  The three parts of the preedit are the string on display with the punctuation of numbers
  replaced, cut at the cursor as without the replacement: what is left of the cursor has as many
  characters as the cursor position says, and one character is focused unless the cursor is at the
  end.
\<close>

theorem Composer_GetPreedit_correct:
  assumes "\<And>x. length (ConvertPreeditString E [x]) = 1" and "0 \<notin> set (GetString E (cm_composition c))"
    and "Composer_GetPreedit E c = (left, focused, right)"
  shows "left @ focused @ right = snd (TransformCharactersForNumbers E (GetString E (cm_composition c))) \<and>
    length left = min (cm_position c) (length (GetString E (cm_composition c))) \<and>
    length focused = (if cm_position c < length (GetString E (cm_composition c)) then 1 else 0)"
proof -
  let ?s = "GetString E (cm_composition c)" and ?p = "cm_position c"
  obtain b t where t: "TransformCharactersForNumbers E ?s = (b, t)" by fastforce
  have len: "length t = length ?s" using Transform_length [OF assms(1,2)] t by simp
  have same: "\<not> b \<Longrightarrow> t = ?s" using t by (auto simp: TransformCharactersForNumbers_def Let_def split: if_splits prod.splits)
  have join: "take ?p ?s @ take 1 (drop ?p ?s) @ drop (?p + 1) ?s = ?s"
    by (metis append.assoc append_take_drop_id take_add)
  have cut: "take n t @ take m (drop n t) @ drop (n + m) t = t" for n m
    by (metis append.assoc append_take_drop_id take_add)
  have parts: "(left, focused, right) =
      (if b then (take (min (length ?s) ?p) t, take (min (length ?s - ?p) 1) (drop (min (length ?s) ?p) t),
                  drop (min (length ?s) ?p + min (length ?s - ?p) 1) t)
       else (take ?p ?s, take 1 (drop ?p ?s), drop (?p + 1) ?s))"
    using assms(3) t join by (cases b) (auto simp: Composer_GetPreedit_def GetPreedit_def Let_def)
  show ?thesis
  proof (cases b)
    case True
    then show ?thesis using parts cut len t by (auto simp: min_def)
  next
    case False
    then show ?thesis using parts same t join by (auto simp: min_def)
  qed
qed

theorem Composer_GetPreedit_correct_witness:
  "\<exists>l f r. Composer_GetPreedit modes_env (demo_composer\<lparr>cm_composition := tta_composition, cm_position := 1\<rparr>) = (l, f, r) \<and>
     l @ f @ r = GetString modes_env tta_composition \<and> length l = 1 \<and> length f = 1"
proof -
  let ?c = "demo_composer\<lparr>cm_composition := tta_composition, cm_position := 1\<rparr>"
  obtain l f r where p: "Composer_GetPreedit modes_env ?c = (l, f, r)" by (metis prod_cases3)
  have "TransformCharactersForNumbers modes_env (GetString modes_env tta_composition) =
      (False, GetString modes_env tta_composition)"
    by (simp add: TransformCharactersForNumbers_def is_symbol_def tta_GetString)
  then show ?thesis using Composer_GetPreedit_correct [OF _ _ p] p
    by (simp add: tta_GetString) (simp add: modes_env_def id_env_def)
qed

subsection \<open>Deleting a range\<close>

text \<open>
  \<open>C24\<close>: Deleting a range removes exactly the characters of the range that exist, and the cursor
  stays before the character it was before: it moves left by the number of characters removed left
  of it. As for \<open>Backspace_correct\<close>, the cursor is within the composition and its chunks are \<open>well_shown\<close>
  (no half-width Katakana mode, \<^verbatim>\<open>NO_TRANSLITERATION\<close> rule, special key or ambiguous result on display, and
  character-wise conversions).
\<close>

theorem DeleteRange_correct:
  assumes "well_shown E (cm_composition c)" and "cm_position c \<le> Composer_GetLength E c"
    and "length (chunks (cm_composition c)) + len + 2 \<le> fuel"
  shows "\<exists>c'. DeleteRange E fuel pos len c = Ret c' \<and>
    GetString E (cm_composition c') =
      take pos (GetString E (cm_composition c)) @ drop (pos + len) (GetString E (cm_composition c)) \<and>
    cm_position c' = (if cm_position c \<le> pos then cm_position c else max pos (cm_position c - len)) \<and>
    cm_position c' \<le> Composer_GetLength E c'"
  using assms
proof (induction len arbitrary: c)
  case (Suc len)
  let ?s = "GetString E (cm_composition c)"
  have L: "Composer_GetLength E c = length ?s"
    using well_shown_length [OF Suc.prems(1)] by (simp add: Composer_GetLength_def)
  show ?case
  proof (cases "pos < length ?s")
    case True
    obtain c1 where d: "Composer_DeleteAt E fuel pos c = Ret c1" "well_shown E (cm_composition c1)"
      "length (chunks (cm_composition c1)) \<le> Suc (length (chunks (cm_composition c)))"
      "GetString E (cm_composition c1) = take pos ?s @ drop (Suc pos) ?s"
      "cm_position c1 = (if cm_position c > pos then cm_position c - 1 else cm_position c)"
      using Composer_DeleteAt_good [OF Suc.prems(1), of fuel pos] Suc.prems(3) by auto
    have L1: "Composer_GetLength E c1 = length ?s - 1"
      using well_shown_length [OF d(2)] d(4) True by (simp add: Composer_GetLength_def)
    have p: "cm_position c1 \<le> Composer_GetLength E c1" using d(5) L1 L Suc.prems(2) True by auto
    have f: "length (chunks (cm_composition c1)) + len + 2 \<le> fuel" using d(3) Suc.prems(3) by simp
    obtain c' where r: "DeleteRange E fuel pos len c1 = Ret c'"
      "GetString E (cm_composition c') = take pos (GetString E (cm_composition c1)) @
         drop (pos + len) (GetString E (cm_composition c1))"
      "cm_position c' = (if cm_position c1 \<le> pos then cm_position c1 else max pos (cm_position c1 - len))"
      "cm_position c' \<le> Composer_GetLength E c'"
      using Suc.IH [OF d(2) p f] by blast
    have "GetString E (cm_composition c') = take pos ?s @ drop (pos + Suc len) ?s"
      using r(2) d(4) True by (simp add: add.commute)
    moreover have "cm_position c' = (if cm_position c \<le> pos then cm_position c else max pos (cm_position c - Suc len))"
      using r(3) d(5) by auto
    ultimately show ?thesis using d(1) r(1,4) True L by auto
  next
    case False
    then have "DeleteRange E fuel pos (Suc len) c = Ret c" using L by simp
    then show ?thesis using False L Suc.prems(2) by auto
  qed
qed simp

theorem DeleteRange_correct_witness:
  "\<exists>c'. DeleteRange modes_env 9 1 2 (demo_composer\<lparr>cm_composition := tta_composition, cm_position := 4\<rparr>) = Ret c' \<and>
     cm_position c' = 2 \<and>
     GetString modes_env (cm_composition c') = [0x3063, 0x30C3, 0x30BF, 0xFF4B, 0xFF54, 0xFF54, 0xFF41, 0xFF4B]"
proof -
  let ?c = "demo_composer\<lparr>cm_composition := tta_composition, cm_position := 4\<rparr>"
  have w: "well_shown modes_env (cm_composition ?c)" "length (chunks (cm_composition ?c)) + 2 + 2 \<le> 9"
    by (simp add: well_shown_def tta_shows_plainly) (simp add: tta_composition_def)
  have l: "cm_position ?c \<le> Composer_GetLength modes_env ?c"
    using well_shown_length [OF w(1)] by (simp add: Composer_GetLength_def tta_GetString)
  from DeleteRange_correct [OF w(1) l w(2), of 1] show ?thesis by (auto simp: tta_GetString)
qed

lemma DeleteAt_ambiguous:
  assumes "chunks C = [ambiguous_chunk]"
  shows "\<exists>r. Composition_GetLength E C = 2 \<and> DeleteAt E 2 0 C = Ret (0, C\<lparr>chunks := [r]\<rparr>) \<and>
    Composition_GetLength E (C\<lparr>chunks := [r]\<rparr>) = 0"
proof -
  obtain l r where s: "AppendResult E T_LOCAL ambiguous_chunk = [0x3042, 0x3044]"
    "SplitChunk E T_LOCAL 1 ambiguous_chunk = (Some (l, r), r)" "AppendResult E T_LOCAL r = []"
    using SplitChunk_loses_ambiguous [of E] by blast
  have k: "cache_ok E ambiguous_chunk" by (simp add: cache_ok_def ambiguous_chunk_eq)
  note k' = cache_ok_SplitChunk [OF k s(2), THEN conjunct2]
  have n: "chunk_length E T_LOCAL ambiguous_chunk = 2" "chunk_length E T_LOCAL r = 0"
    using GetLength_correct [OF k, of T_LOCAL] GetLength_correct [OF k', of T_LOCAL] s by (simp_all add: chunk_length_def)
  have g: "MaybeSplitChunkAt E 0 [ambiguous_chunk] = (0, [ambiguous_chunk])"
    by (simp add: MaybeSplitChunkAt_def GetChunkAt_def)
  have "Composition_GetLength E C = 2" "Composition_GetLength E (C\<lparr>chunks := [r]\<rparr>) = 0"
    using n assms by (simp_all add: Composition_GetLength_def GetPosition_total)
  moreover have "DeleteAt E 2 0 C = Ret (0, C\<lparr>chunks := [r]\<rparr>)"
    using n g s(2) assms by (simp add: DeleteAt_def calculation numeral_2_eq_2 GetPosition_total)
  ultimately show ?thesis by blast
qed
definition ambiguous_composition :: Composition where
  "ambiguous_composition = (NewComposition (TablePtr 1 ambiguous_table))\<lparr>chunks := [ambiguous_chunk]\<rparr>"

text \<open>
  The cursor can leave the composition when a character left of it is deleted from a chunk that shows an
  ambiguous result: the chunk shows two characters and the cursor stands behind them; \<^verbatim>\<open>DeleteAt\<close> of the first removes
  both, since the split leaves nothing to show, but the cursor moves by one only.
\<close>

theorem DeleteAt_cursor_escapes:
  assumes "chunks (cm_composition c) = [ambiguous_chunk]" and "cm_position c = 2"
  shows "Composer_GetLength E c = 2 \<and>
    (\<exists>c'. Composer_DeleteAt E 2 0 c = Ret c' \<and> Composer_GetLength E c' = 0 \<and> cm_position c' = 1)"
  using DeleteAt_ambiguous [OF assms(1), of E] assms(2)
  by (auto simp: Composer_GetLength_def Composer_DeleteAt_def)

theorem DeleteAt_cursor_escapes_witness:
  "\<exists>c'. Composer_DeleteAt modes_env 2 0 (demo_composer\<lparr>cm_composition := ambiguous_composition, cm_position := 2\<rparr>) = Ret c' \<and>
     Composer_GetLength modes_env c' < cm_position c'"
  using DeleteAt_cursor_escapes [of "demo_composer\<lparr>cm_composition := ambiguous_composition, cm_position := 2\<rparr>" modes_env]
  by (auto simp: ambiguous_composition_def)
subsection \<open>The query to predict from\<close>

text \<open>
  When the trimmed query is the query without some trailing keys, the prediction starts from
  the trimmed one exactly if there are trailing keys, they are all alphabets, and the trimmed query
  is not empty and does not end with an alphabet itself. So \<^verbatim>\<open>ka\<close> and \<^verbatim>\<open>k\<close> predict from \<^verbatim>\<open>ka\<close>, a word of alphabets is kept whole, and \<^verbatim>\<open>substr\<close> never throws.
\<close>

theorem GetBaseQueryForPrediction_correct:
  "GetBaseQueryForPrediction (trimed @ tail) trimed =
     Ret (if tail \<noteq> [] \<and> GetScriptTypeStr tail = ALPHABET \<and> trimed \<noteq> [] \<and>
             GetScriptTypeStr [last trimed] \<noteq> ALPHABET
          then trimed else trimed @ tail)"
proof -
  have l: "drop (length trimed - Suc 0) trimed = [last trimed]" if "trimed \<noteq> []"
    using that by (cases trimed rule: rev_cases) simp_all
  show ?thesis
    by (cases "tail = []"; cases "trimed = []") (auto simp: GetBaseQueryForPrediction_def Let_def l)
qed

subsection \<open>Shifted letters\<close>

fun apply_keys :: "ustr \<Rightarrow> Composer \<Rightarrow> Composer outcome" where
  "apply_keys [] c = Ret c"
| "apply_keys (k # ks) c = obind (ApplyTemporaryInputMode [k] False c) (apply_keys ks)"

definition upper_letter :: "char32 \<Rightarrow> bool" where
  "upper_letter k \<longleftrightarrow> 0x41 \<le> k \<and> k \<le> 0x5A"

definition lower_letter :: "char32 \<Rightarrow> bool" where
  "lower_letter k \<longleftrightarrow> 0x61 \<le> k \<and> k \<le> 0x7A"

lemma mode_fields [simp]:
  "cm_config (Composer_SetInputMode m c) = cm_config c" "cm_config (SetTemporaryInputMode m c) = cm_config c"
  "cm_input_mode (Composer_SetInputMode m c) = m" "cm_input_mode (SetTemporaryInputMode m c) = m"
  "cm_comeback_input_mode (Composer_SetInputMode m c) = m"
  "cm_comeback_input_mode (SetTemporaryInputMode m c) = cm_input_mode c"
  "cm_shifted_sequence_count (Composer_SetInputMode m c) = 0"
  "cm_shifted_sequence_count (SetTemporaryInputMode m c) = 0"
  by (simp_all add: Composer_SetInputMode_def SetTemporaryInputMode_def)

lemma apply_upper:
  assumes "upper_letter k"
  shows "ApplyTemporaryInputMode [k] False c =
    (let c1 = shifted_mode (c\<lparr>cm_is_in_shifted_ascii_revert_context := False\<rparr>)
     in Ret (c1\<lparr>cm_shifted_sequence_count := cm_shifted_sequence_count c1 + 1\<rparr>))"
  using assms by (simp add: ApplyTemporaryInputMode_def upper_letter_def char_size_def Let_def)

lemma apply_lower:
  assumes "lower_letter k"
  shows "ApplyTemporaryInputMode [k] False c = Ret ((unshifted_mode c)\<lparr>cm_shifted_sequence_count := 0\<rparr>)"
  using assms by (simp add: ApplyTemporaryInputMode_def lower_letter_def char_size_def Let_def)

definition in_shift :: "TransliterationType \<Rightarrow> TransliterationType \<Rightarrow> nat \<Rightarrow> Config \<Rightarrow> Composer \<Rightarrow> bool" where
  "in_shift m temporary n g c \<longleftrightarrow>
     cm_config c = g \<and> cm_input_mode c = temporary \<and> cm_comeback_input_mode c = m \<and>
     cm_shifted_sequence_count c = n \<and> \<not> cm_is_in_shifted_ascii_revert_context c"

lemma shift_more:
  assumes "in_shift m TT_HALF_ASCII n g c" "shift_key_mode_switch g = ASCII_INPUT_MODE" "\<forall>k \<in> set ks. upper_letter k"
  shows "\<exists>c'. apply_keys ks c = Ret c' \<and> in_shift m TT_HALF_ASCII (n + length ks) g c'"
  using assms(1,3)
proof (induction ks arbitrary: c n)
  case (Cons k ks)
  let ?c = "c\<lparr>cm_is_in_shifted_ascii_revert_context := False, cm_shifted_sequence_count := cm_shifted_sequence_count c + 1\<rparr>"
  have "ApplyTemporaryInputMode [k] False c = Ret ?c"
    using Cons.prems assms(2) by (simp add: apply_upper shifted_mode_def in_shift_def Let_def)
  moreover have "in_shift m TT_HALF_ASCII (Suc n) g ?c" using Cons.prems(1) by (simp add: in_shift_def)
  ultimately show ?case using Cons.IH [of "Suc n" ?c] Cons.prems(2) by simp
qed simp

text \<open>
  The temporary mode of shifted letters, with the setting for ASCII: the first shifted letter
  switches to half-width ASCII, further ones stay there, and the next letter without shift ends it
  exactly if there were at least two (so \<^verbatim>\<open>Ka\<close> is typed in ASCII as a word, while \<^verbatim>\<open>KAka\<close> returns to
  the mode before), marking that the mode was reverted.
\<close>

theorem shifted_sequence:
  assumes "shift_key_mode_switch (cm_config c) = ASCII_INPUT_MODE"
    and "cm_input_mode c = m" and "m \<noteq> TT_HALF_ASCII" and "m \<noteq> TT_FULL_ASCII"
    and "\<forall>k \<in> set (k0 # ks). upper_letter k" and "lower_letter l"
  shows "\<exists>c1 c2. apply_keys (k0 # ks) c = Ret c1 \<and> cm_input_mode c1 = TT_HALF_ASCII \<and>
    ApplyTemporaryInputMode [l] False c1 = Ret c2 \<and>
    cm_input_mode c2 = (if ks = [] then TT_HALF_ASCII else m) \<and>
    cm_comeback_input_mode c2 = m \<and>
    (cm_is_in_shifted_ascii_revert_context c2 \<longleftrightarrow> ks \<noteq> [])"
proof -
  let ?c = "(SetTemporaryInputMode TT_HALF_ASCII (c\<lparr>cm_is_in_shifted_ascii_revert_context := False\<rparr>))
              \<lparr>cm_shifted_sequence_count := 1\<rparr>"
  have a: "ApplyTemporaryInputMode [k0] False c = Ret ?c"
    using assms(1-5) by (simp add: apply_upper shifted_mode_def Let_def)
  have "in_shift m TT_HALF_ASCII 1 (cm_config c) ?c"
    using assms(2) by (simp add: in_shift_def SetTemporaryInputMode_def)
  then obtain c1 where c1: "apply_keys ks ?c = Ret c1" "in_shift m TT_HALF_ASCII (1 + length ks) (cm_config c) c1"
    using shift_more [where c = ?c and ks = ks, OF _ assms(1)] assms(5) by fastforce
  have "cm_input_mode c1 = TT_HALF_ASCII" using c1(2) by (simp add: in_shift_def)
  then show ?thesis
    using a c1 assms(1,6) by (auto simp: apply_lower unshifted_mode_def in_shift_def Let_def)
qed

theorem shifted_sequence_witness:
  "\<exists>c1 c2. apply_keys [0x4B, 0x41] demo_composer = Ret c1 \<and> cm_input_mode c1 = TT_HALF_ASCII \<and>
     ApplyTemporaryInputMode [0x6B] False c1 = Ret c2 \<and> cm_input_mode c2 = TT_HIRAGANA"
proof -
  have "shift_key_mode_switch (cm_config demo_composer) = ASCII_INPUT_MODE" "cm_input_mode demo_composer = TT_HIRAGANA"
    by (simp_all add: demo_composer_def NewComposer_def Reset_def ResetInputMode_def EditErase_def SetOutputMode_def
        Composer_SetInputMode_def demo_config_def Let_def)
  from shifted_sequence [OF this, of "0x4B" "[0x41]" "0x6B"] show ?thesis
    by (auto simp: upper_letter_def lower_letter_def)
qed

subsection \<open>Key events that are not safe\<close>

lemma scan_without_shift:
  "SHIFT \<notin> set keys \<Longrightarrow> keys \<noteq> [] \<Longrightarrow> scan_modifiers_from keys i = Out_of_bounds_read"
proof (induction keys i rule: scan_modifiers_from.induct)
  case (1 keys i)
  then have "keys ! i \<noteq> SHIFT" if "i < length keys" using nth_mem [OF that] by metis
  then show ?case using 1 by (cases "i \<ge> length keys") (simp_all add: scan_modifiers_from.simps [of keys i])
qed

lemma scan_with_shift:
  "SHIFT \<in> set (drop i keys) \<Longrightarrow> scan_modifiers_from keys i = Shift_found"
proof (induction keys i rule: scan_modifiers_from.induct)
  case (1 keys i)
  then have i: "i < length keys" by (metis drop_all empty_iff empty_set not_le)
  then have "SHIFT \<in> set (drop (Suc i) keys)" if "keys ! i \<noteq> SHIFT"
    using 1(2) that by (simp add: Cons_nth_drop_Suc [symmetric])
  then show ?case using 1 i by (auto simp: scan_modifiers_from.simps [of keys i])
qed

text \<open>
  \<open>C34\<close>: If insertion is enabled and the check of the time-out returns, a key event without a key code
  whose modifier keys do not contain Shift (so Control or Alt pressed alone) makes the loop over the
  modifier keys read beyond their end, as its condition does not mention the index; and an event whose
  key code is 0 and that has no key string gives an empty text whose first character is read.
\<close>

theorem InsertCharacterKeyEvent_undefined:
  assumes "EnableInsert E c" and "check_timeout E fuel now e c = Ret c1"
    and "key_code e = None \<and> modifier_keys e \<noteq> [] \<and> SHIFT \<notin> set (modifier_keys e) \<or>
      key_code e = Some 0 \<and> key_string e = None"
  shows "InsertCharacterKeyEvent E fuel now e c = Throw Undefined_behaviour"
  using assms(3)
proof
  assume "key_code e = None \<and> modifier_keys e \<noteq> [] \<and> SHIFT \<notin> set (modifier_keys e)"
  then have "scan_modifiers e = Out_of_bounds_read" "key_code e = None"
    by (simp_all add: scan_modifiers_def scan_without_shift)
  then show ?thesis using assms(1,2) by (simp add: InsertCharacterKeyEvent_def Let_def)
next
  assume "key_code e = Some 0 \<and> key_string e = None"
  then have k: "key_code e = Some 0" "key_string e = None" by simp_all
  have "\<exists>i. Input_Init (ptr_table (cm_table (set_event_mode e c1))) e (cm_is_new_input (set_event_mode e c1)) EmptyInput = Some i \<and>
      in_raw i = [] \<and> in_conversion i = []"
    using k by (simp add: Input_Init_def CodepointToUtf8_def EmptyInput_def Let_def)
  then show ?thesis using assms(1,2) k
    by (auto simp: InsertCharacterKeyEvent_def Let_def insert_event_input_def ApplyTemporaryInputMode_def)
qed

theorem InsertCharacterKeyEvent_undefined_witness:
  "InsertCharacterKeyEvent id_env 9 0 (EmptyKeyEvent\<lparr>modifier_keys := [CTRL]\<rparr>) demo_composer = Throw Undefined_behaviour"
proof -
  have "check_timeout id_env 9 0 (EmptyKeyEvent\<lparr>modifier_keys := [CTRL]\<rparr>) demo_composer = Ret demo_composer"
    "EnableInsert id_env demo_composer"
    by (simp_all add: demo_composer_def NewComposer_def Reset_def ResetInputMode_def EditErase_def SetOutputMode_def
        Composer_SetInputMode_def demo_config_def Let_def EnableInsert_def check_timeout_def kMaxPreeditLength_def Composer_GetLength_def
        Composition_SetTransliterator_def NewComposition_def Erase_def SetInputMode_def Composition_GetLength_def GetPosition_def)
  then show ?thesis
    by (intro InsertCharacterKeyEvent_undefined) (simp_all add: EmptyKeyEvent_def modifier_defs)
qed

end
