(* ===== verification/ImmutableConverter.thy ===== *)
theory ImmutableConverter
  imports Prelude
begin

section \<open>The lattice and the search for the cheapest conversion\<close>

text \<open>
  \<^verbatim>\<open>converter/node.h\<close>, \<^verbatim>\<open>converter/lattice.cc\<close>, and the Viterbi searches of
  \<^verbatim>\<open>converter/immutable_converter.cc\<close>. The nodes live in the arena of the lattice, and a pointer to a
  node is its index there (\<open>None\<close> is \<^verbatim>\<open>nullptr\<close>). Positions are byte offsets into the key; a node
  keeps them in 16 bits. Costs are unbounded integers; \<open>costs_never_cut\<close> bounds those of the search. The transition cost between two part-of-speech ids is an argument \<open>tc\<close> (see
  \<open>GetTransitionCost\<close> in theory \<open>Connector\<close>).
\<close>

subsection \<open>Nodes and lattices\<close>

datatype NodeType = NOR_NODE | BOS_NODE | EOS_NODE | CON_NODE | HIS_NODE

record Node =
  n_prev :: "nat option"
  n_next :: "nat option"
  n_constrained_prev :: "nat option"
  n_rid :: nat
  n_lid :: nat
  n_begin_pos :: nat
  n_end_pos :: nat
  n_wcost :: int
  n_cost :: int
  n_type :: NodeType
  n_attributes :: nat
  n_key :: ustr
  n_value :: ustr

definition Node_Init :: Node where
  "Node_Init =
     \<lparr>n_prev = None, n_next = None, n_constrained_prev = None, n_rid = 0, n_lid = 0, n_begin_pos = 0,
      n_end_pos = 0, n_wcost = 0, n_cost = 0, n_type = NOR_NODE, n_attributes = 0, n_key = [], n_value = []\<rparr>"

record Lattice =
  lat_key :: ustr
  begin_lists :: "nat list list"
  end_lists :: "nat list list"
  arena :: "Node list"

definition NewLattice :: Lattice where
  "NewLattice = \<lparr>lat_key = [], begin_lists = [], end_lists = [], arena = []\<rparr>"

definition node :: "Lattice \<Rightarrow> nat \<Rightarrow> Node" where
  "node L i = arena L ! i"

definition set_node :: "nat \<Rightarrow> Node \<Rightarrow> Lattice \<Rightarrow> Lattice" where
  "set_node i n L = L\<lparr>arena := (arena L)[i := n]\<rparr>"

definition NewNode :: "Lattice \<Rightarrow> nat \<times> Lattice" where
  "NewNode L = (length (arena L), L\<lparr>arena := arena L @ [Node_Init]\<rparr>)"

definition Lattice_Clear :: "Lattice \<Rightarrow> Lattice" where
  "Lattice_Clear L = L\<lparr>lat_key := [], begin_lists := [], end_lists := [], arena := []\<rparr>"

definition InitBOSNode :: "Node \<Rightarrow> nat \<Rightarrow> nat \<Rightarrow> Node" where
  "InitBOSNode n position bos_id =
     n\<lparr>n_rid := bos_id, n_lid := 0, n_key := [], n_value := ascii ''BOS'', n_type := BOS_NODE, n_wcost := 0,
       n_cost := 0, n_begin_pos := position, n_end_pos := position\<rparr>"

definition InitEOSNode :: "Node \<Rightarrow> nat \<Rightarrow> Node" where
  "InitEOSNode n position =
     n\<lparr>n_rid := 0, n_lid := 0, n_key := [], n_value := ascii ''EOS'', n_type := EOS_NODE, n_wcost := 0,
       n_cost := 0, n_begin_pos := position, n_end_pos := position\<rparr>"

definition SetKey :: "ustr \<Rightarrow> nat \<Rightarrow> Lattice \<Rightarrow> Lattice" where
  "SetKey key bos_id L =
     (let n = byte_size key;
          L1 = (Lattice_Clear L)\<lparr>lat_key := key, begin_lists := replicate (n + 1) [],
                                 end_lists := replicate (n + 1) []\<rparr>;
          (b, L2) = NewNode L1;
          L3 = set_node b (InitBOSNode (node L2 b) 0 bos_id) L2;
          (e, L4) = NewNode L3;
          L5 = set_node e (InitEOSNode (node L4 e) (n mod 2 ^ 16)) L4
      in L5\<lparr>end_lists := (end_lists L5)[0 := end_lists L5 ! 0 @ [b]],
            begin_lists := (begin_lists L5)[n := begin_lists L5 ! n @ [e]]\<rparr>)"

definition Lattice_Insert :: "nat \<Rightarrow> nat \<Rightarrow> Lattice \<Rightarrow> Lattice" where
  "Lattice_Insert pos i L =
     (let end_pos = min (byte_size (n_key (node L i)) + pos) (byte_size (lat_key L));
          L1 = set_node i ((node L i)\<lparr>n_begin_pos := pos mod 2 ^ 16, n_end_pos := end_pos mod 2 ^ 16,
                                      n_prev := None, n_next := None, n_cost := 0\<rparr>) L
      in L1\<lparr>begin_lists := (begin_lists L1)[pos := begin_lists L1 ! pos @ [i]],
            end_lists := (end_lists L1)[end_pos := end_lists L1 ! end_pos @ [i]]\<rparr>)"

definition bos_node :: "Lattice \<Rightarrow> nat" where
  "bos_node L = hd (end_lists L ! 0)"

definition eos_node :: "Lattice \<Rightarrow> nat" where
  "eos_node L = hd (begin_lists L ! byte_size (lat_key L))"

subsection \<open>The cache of transition costs\<close>

text \<open>
  The array of the cache is not initialised; its first contents are an argument. \<open>-1\<close> marks an
  entry that is not filled.
\<close>

definition kConnCacheSize :: nat where "kConnCacheSize = 2048"

record CachingConnector =
  cc_cache :: "nat \<Rightarrow> int"
  cc_cache_lid :: nat

definition NewCachingConnector :: "(nat \<Rightarrow> int) \<Rightarrow> CachingConnector" where
  "NewCachingConnector junk = \<lparr>cc_cache = junk, cc_cache_lid = 0xFFFF\<rparr>"

definition ResetCacheIfNecessary :: "nat \<Rightarrow> CachingConnector \<Rightarrow> CachingConnector" where
  "ResetCacheIfNecessary rnode_lid conn =
     (if cc_cache_lid conn \<noteq> rnode_lid then conn\<lparr>cc_cache := (\<lambda>_. - 1), cc_cache_lid := rnode_lid\<rparr> else conn)"

definition CachedTransitionCost ::
  "(nat \<Rightarrow> nat \<Rightarrow> int) \<Rightarrow> nat \<Rightarrow> nat \<Rightarrow> CachingConnector \<Rightarrow> int \<times> CachingConnector" where
  "CachedTransitionCost tc lnode_rid rnode_lid conn =
     (if lnode_rid \<ge> kConnCacheSize then (tc lnode_rid rnode_lid, conn)
      else if cc_cache conn lnode_rid \<noteq> - 1 then (cc_cache conn lnode_rid, conn)
      else (let c = tc lnode_rid rnode_lid
            in (c, conn\<lparr>cc_cache := (cc_cache conn)(lnode_rid := c)\<rparr>)))"

subsection \<open>The search\<close>

definition kVeryBigCost :: int where "kVeryBigCost = 536870911"

text \<open>The loop over the left nodes, with the best cost and node so far.\<close>

fun best_left ::
  "(nat \<Rightarrow> nat \<Rightarrow> int) \<Rightarrow> Lattice \<Rightarrow> nat \<Rightarrow> nat list \<Rightarrow> CachingConnector \<Rightarrow> int \<Rightarrow> nat option \<Rightarrow>
   int \<times> nat option \<times> CachingConnector" where
  "best_left tc L rlid [] conn best_cost best_node = (best_cost, best_node, conn)"
| "best_left tc L rlid (l # ls) conn best_cost best_node =
     (if n_prev (node L l) = None then best_left tc L rlid ls conn best_cost best_node
      else
        (let (t, conn') = CachedTransitionCost tc (n_rid (node L l)) rlid conn;
             cost = n_cost (node L l) + t
         in if cost < best_cost then best_left tc L rlid ls conn' cost (Some l)
            else best_left tc L rlid ls conn' best_cost best_node))"

definition viterbi_node ::
  "(nat \<Rightarrow> nat \<Rightarrow> int) \<Rightarrow> nat \<Rightarrow> nat \<Rightarrow> nat \<Rightarrow> CachingConnector \<times> Lattice \<Rightarrow> CachingConnector \<times> Lattice" where
  "viterbi_node tc pos right_boundary r = (\<lambda>(conn, L).
     (let rnode = node L r in
      if n_end_pos rnode > right_boundary then (conn, set_node r (rnode\<lparr>n_prev := None\<rparr>) L)
      else
        (let conn1 = ResetCacheIfNecessary (n_lid rnode) conn in
         case n_constrained_prev rnode of
           Some q \<Rightarrow>
             (if n_prev (node L q) = None then (conn1, set_node r (rnode\<lparr>n_prev := None\<rparr>) L)
              else
                (let (t, conn2) = CachedTransitionCost tc (n_rid (node L q)) (n_lid rnode) conn1
                 in (conn2, set_node r (rnode\<lparr>n_prev := Some q,
                                              n_cost := n_cost (node L q) + n_wcost rnode + t\<rparr>) L)))
         | None \<Rightarrow>
             (let (best_cost, best_node, conn2) =
                    best_left tc L (n_lid rnode) (end_lists L ! pos) conn1 kVeryBigCost None
              in (conn2, set_node r (rnode\<lparr>n_prev := best_node, n_cost := best_cost + n_wcost rnode\<rparr>) L)))))"

definition ViterbiInternal :: "(nat \<Rightarrow> int) \<Rightarrow> (nat \<Rightarrow> nat \<Rightarrow> int) \<Rightarrow> nat \<Rightarrow> nat \<Rightarrow> Lattice \<Rightarrow> Lattice" where
  "ViterbiInternal junk tc pos right_boundary L =
     snd (fold (viterbi_node tc pos right_boundary) (begin_lists L ! pos) (NewCachingConnector junk, L))"

definition connect_bos :: "(nat \<Rightarrow> nat \<Rightarrow> int) \<Rightarrow> nat \<Rightarrow> nat \<Rightarrow> Lattice \<Rightarrow> Lattice" where
  "connect_bos tc right_boundary r L =
     (let rnode = node L r; b = node L (bos_node L) in
      if n_end_pos rnode > right_boundary then L
      else set_node r (rnode\<lparr>n_prev := Some (bos_node L),
                             n_cost := n_cost b + tc (n_rid b) (n_lid rnode) + n_wcost rnode\<rparr>) L)"

text \<open>The loops over the positions of the segments after the first one.\<close>

fun viterbi_segments ::
  "(nat \<Rightarrow> int) \<Rightarrow> (nat \<Rightarrow> nat \<Rightarrow> int) \<Rightarrow> nat \<Rightarrow> ustr list \<Rightarrow> Lattice \<Rightarrow> Lattice" where
  "viterbi_segments junk tc left_boundary [] L = L"
| "viterbi_segments junk tc left_boundary (k # ks) L =
     (let right_boundary = left_boundary + byte_size k
      in viterbi_segments junk tc right_boundary ks
           (fold (\<lambda>pos. ViterbiInternal junk tc pos right_boundary) [left_boundary..<right_boundary] L))"

text \<open>The same loop over the left nodes, without the cache.\<close>

fun best_eos :: "(nat \<Rightarrow> nat \<Rightarrow> int) \<Rightarrow> Lattice \<Rightarrow> nat \<Rightarrow> nat list \<Rightarrow> int \<Rightarrow> nat option \<Rightarrow> int \<times> nat option" where
  "best_eos tc L rlid [] best_cost best_node = (best_cost, best_node)"
| "best_eos tc L rlid (l # ls) best_cost best_node =
     (if n_prev (node L l) = None then best_eos tc L rlid ls best_cost best_node
      else
        (let cost = n_cost (node L l) + tc (n_rid (node L l)) rlid
         in if cost < best_cost then best_eos tc L rlid ls cost (Some l)
            else best_eos tc L rlid ls best_cost best_node))"

definition connect_eos :: "(nat \<Rightarrow> nat \<Rightarrow> int) \<Rightarrow> Lattice \<Rightarrow> Lattice" where
  "connect_eos tc L =
     (let e = eos_node L;
          (best_cost, best_node) =
            best_eos tc L (n_lid (node L e)) (end_lists L ! byte_size (lat_key L)) kVeryBigCost None
      in set_node e ((node L e)\<lparr>n_prev := best_node, n_cost := best_cost + n_wcost (node L e)\<rparr>) L)"

text \<open>
  The nodes are linked from the end to the beginning; each step takes one unit of fuel. The result
  is the node reached last (\<open>None\<close> if there was no step), which is compared with the first node.
\<close>

fun link_path :: "nat \<Rightarrow> nat \<Rightarrow> nat option \<Rightarrow> Lattice \<Rightarrow> (nat option \<times> Lattice) outcome" where
  "link_path 0 i prev L = Timeout"
| "link_path (Suc fuel) i prev L =
     (case n_prev (node L i) of
        None \<Rightarrow> Ret (prev, L)
      | Some p \<Rightarrow> link_path fuel p (Some p) (set_node p ((node L p)\<lparr>n_next := Some i\<rparr>) L))"

definition make_path :: "nat \<Rightarrow> Lattice \<Rightarrow> (bool \<times> Lattice) outcome" where
  "make_path fuel L =
     obind (link_path fuel (eos_node L) None L) (\<lambda>(prev, L'). Ret (Some (bos_node L') = prev, L'))"

definition Viterbi ::
  "(nat \<Rightarrow> int) \<Rightarrow> (nat \<Rightarrow> nat \<Rightarrow> int) \<Rightarrow> nat \<Rightarrow> ustr list \<Rightarrow> Lattice \<Rightarrow> (bool \<times> Lattice) outcome" where
  "Viterbi junk tc fuel segment_keys L =
     (let right_boundary = byte_size (hd segment_keys);
          L1 = fold (connect_bos tc right_boundary) (begin_lists L ! 0) L;
          L2 = fold (\<lambda>pos. ViterbiInternal junk tc pos right_boundary) [1..<right_boundary] L1;
          L3 = viterbi_segments junk tc right_boundary (tl segment_keys) L2
      in make_path fuel (connect_eos tc L3))"

subsection \<open>The cache returns the costs of the connector\<close>

definition conn_ok :: "(nat \<Rightarrow> nat \<Rightarrow> int) \<Rightarrow> CachingConnector \<Rightarrow> bool" where
  "conn_ok tc conn \<longleftrightarrow> (cc_cache_lid conn \<noteq> 0xFFFF \<longrightarrow>
     (\<forall>i. cc_cache conn i \<noteq> - 1 \<longrightarrow> cc_cache conn i = tc i (cc_cache_lid conn)))"

lemma conn_ok_New [simp]: "conn_ok tc (NewCachingConnector junk)"
  by (simp add: conn_ok_def NewCachingConnector_def)

lemma conn_ok_Reset:
  "conn_ok tc conn \<Longrightarrow> conn_ok tc (ResetCacheIfNecessary l conn) \<and> cc_cache_lid (ResetCacheIfNecessary l conn) = l"
  by (auto simp: conn_ok_def ResetCacheIfNecessary_def)

lemma CachedTransitionCost_ok:
  assumes "conn_ok tc conn" "cc_cache_lid conn = l" "l \<noteq> 0xFFFF" "CachedTransitionCost tc r l conn = (t, conn')"
  shows "t = tc r l \<and> conn_ok tc conn' \<and> cc_cache_lid conn' = l"
  using assms by (auto simp: CachedTransitionCost_def conn_ok_def Let_def split: if_splits)

subsection \<open>Paths\<close>

text \<open>What the search does not change.\<close>

definition n_static :: "Node \<Rightarrow> nat \<times> nat \<times> nat \<times> nat \<times> int \<times> nat option" where
  "n_static n = (n_rid n, n_lid n, n_begin_pos n, n_end_pos n, n_wcost n, n_constrained_prev n)"

definition same_shape :: "Lattice \<Rightarrow> Lattice \<Rightarrow> bool" where
  "same_shape L L' \<longleftrightarrow> lat_key L' = lat_key L \<and> begin_lists L' = begin_lists L \<and> end_lists L' = end_lists L \<and>
     length (arena L') = length (arena L) \<and> (\<forall>i. n_static (node L' i) = n_static (node L i))"

lemma same_shape_refl [simp]: "same_shape L L"
  by (simp add: same_shape_def)

lemma same_shape_trans: "same_shape L L' \<Longrightarrow> same_shape L' L'' \<Longrightarrow> same_shape L L''"
  by (simp add: same_shape_def)

lemma node_set_node: "node (set_node i n L) j = (if i = j \<and> i < length (arena L) then n else node L j)"
  by (cases "i < length (arena L)") (auto simp: node_def set_node_def list_update_beyond)

lemma same_shape_set_node:
  "n_static n = n_static (node L i) \<Longrightarrow> same_shape L (set_node i n L)"
  by (auto simp: same_shape_def node_set_node) (simp_all add: set_node_def)

lemma set_node_lists [simp]:
  "lat_key (set_node i n L) = lat_key L" "begin_lists (set_node i n L) = begin_lists L"
  "end_lists (set_node i n L) = end_lists L" "length (arena (set_node i n L)) = length (arena L)"
  "bos_node (set_node i n L) = bos_node L" "eos_node (set_node i n L) = eos_node L"
  by (simp_all add: set_node_def bos_node_def eos_node_def)

lemma same_shape_nodes:
  assumes "same_shape L L'"
  shows "n_rid (node L' i) = n_rid (node L i)" "n_lid (node L' i) = n_lid (node L i)"
    "n_begin_pos (node L' i) = n_begin_pos (node L i)" "n_end_pos (node L' i) = n_end_pos (node L i)"
    "n_wcost (node L' i) = n_wcost (node L i)" "n_constrained_prev (node L' i) = n_constrained_prev (node L i)"
    "bos_node L' = bos_node L" "eos_node L' = eos_node L"
    "begin_lists L' = begin_lists L" "end_lists L' = end_lists L" "lat_key L' = lat_key L"
    "length (arena L') = length (arena L)"
proof -
  have "n_static (node L' i) = n_static (node L i)" using assms by (simp add: same_shape_def)
  then show "n_rid (node L' i) = n_rid (node L i)" "n_lid (node L' i) = n_lid (node L i)"
    "n_begin_pos (node L' i) = n_begin_pos (node L i)" "n_end_pos (node L' i) = n_end_pos (node L i)"
    "n_wcost (node L' i) = n_wcost (node L i)" "n_constrained_prev (node L' i) = n_constrained_prev (node L i)"
    by (simp_all add: n_static_def)
qed (use assms in \<open>simp_all add: same_shape_def bos_node_def eos_node_def\<close>)

text \<open>
  A lattice as \<open>SetKey\<close> and \<open>Lattice_Insert\<close> build it: the beginning and the end of a node say where it is
  listed, every node but the two sentinels has a positive length, and a node is constrained to one
  that ends where it begins.
\<close>

definition lat_size :: "Lattice \<Rightarrow> nat" where
  "lat_size L = byte_size (lat_key L)"

definition wf_lattice :: "Lattice \<Rightarrow> bool" where
  "wf_lattice L \<longleftrightarrow> (let n = lat_size L in
     0 < n \<and> length (begin_lists L) = n + 1 \<and> length (end_lists L) = n + 1 \<and> (\<exists>b e. end_lists L ! 0 = [b] \<and> begin_lists L ! n = [e] \<and> b < length (arena L) \<and> e < length (arena L) \<and>
       n_begin_pos (node L b) = 0 \<and> n_end_pos (node L b) = 0 \<and> n_begin_pos (node L e) = n \<and>
       n_end_pos (node L e) = n \<and> n_prev (node L b) = None) \<and>
     (\<forall>p < n. distinct (begin_lists L ! p) \<and>
       (\<forall>r \<in> set (begin_lists L ! p). r < length (arena L) \<and> n_begin_pos (node L r) = p \<and>
          p < n_end_pos (node L r) \<and> n_end_pos (node L r) \<le> n \<and> n_lid (node L r) \<noteq> 0xFFFF \<and>
          n_prev (node L r) = None \<and>
          (\<forall>q. n_constrained_prev (node L r) = Some q \<longrightarrow> 0 < p \<and> q \<in> set (end_lists L ! p)))) \<and>
     (\<forall>p. 0 < p \<longrightarrow> p \<le> n \<longrightarrow>
       (\<forall>l \<in> set (end_lists L ! p). n_begin_pos (node L l) < p \<and> n_end_pos (node L l) = p \<and>
          l \<in> set (begin_lists L ! n_begin_pos (node L l)))))"

lemma wf_latticeI:
  assumes "0 < n" "lat_size L = n" "length (begin_lists L) = n + 1" "length (end_lists L) = n + 1"
    "end_lists L ! 0 = [b]" "begin_lists L ! n = [e]" "b < length (arena L)" "e < length (arena L)"
    "n_begin_pos (node L b) = 0" "n_end_pos (node L b) = 0" "n_begin_pos (node L e) = n" "n_end_pos (node L e) = n"
    "n_prev (node L b) = None"
    "\<And>p. p < n \<Longrightarrow> distinct (begin_lists L ! p)"
    "\<And>p r. p < n \<Longrightarrow> r \<in> set (begin_lists L ! p) \<Longrightarrow> r < length (arena L) \<and> n_begin_pos (node L r) = p \<and>
          p < n_end_pos (node L r) \<and> n_end_pos (node L r) \<le> n \<and> n_lid (node L r) \<noteq> 0xFFFF \<and>
          n_prev (node L r) = None \<and>
          (\<forall>q. n_constrained_prev (node L r) = Some q \<longrightarrow> 0 < p \<and> q \<in> set (end_lists L ! p))"
    "\<And>p l. 0 < p \<Longrightarrow> p \<le> n \<Longrightarrow> l \<in> set (end_lists L ! p) \<Longrightarrow> n_begin_pos (node L l) < p \<and> n_end_pos (node L l) = p \<and>
          l \<in> set (begin_lists L ! n_begin_pos (node L l))"
  shows "wf_lattice L"
  unfolding wf_lattice_def Let_def using assms by blast

lemma wf_begin:
  assumes "wf_lattice L" "p < lat_size L" "r \<in> set (begin_lists L ! p)"
  shows "r < length (arena L)" "n_begin_pos (node L r) = p" "p < n_end_pos (node L r)"
    "n_end_pos (node L r) \<le> lat_size L" "n_lid (node L r) \<noteq> 0xFFFF" "n_prev (node L r) = None"
    "n_constrained_prev (node L r) = Some q \<Longrightarrow> 0 < p \<and> q \<in> set (end_lists L ! p)"
  using assms unfolding wf_lattice_def Let_def by blast+

lemma wf_end:
  assumes "wf_lattice L" "0 < p" "p \<le> lat_size L" "l \<in> set (end_lists L ! p)"
  shows "n_begin_pos (node L l) < p" "n_end_pos (node L l) = p" "l \<in> set (begin_lists L ! n_begin_pos (node L l))"
  using assms unfolding wf_lattice_def Let_def by blast+

lemma wf_ends:
  assumes "wf_lattice L"
  shows "0 < lat_size L" "end_lists L ! 0 = [bos_node L]" "begin_lists L ! lat_size L = [eos_node L]"
    "bos_node L < length (arena L)" "eos_node L < length (arena L)" "n_begin_pos (node L (eos_node L)) = lat_size L"
    "n_prev (node L (bos_node L)) = None" "n_begin_pos (node L (bos_node L)) = 0"
    "n_end_pos (node L (bos_node L)) = 0" "bos_node L \<noteq> eos_node L"
    "p < lat_size L \<Longrightarrow> distinct (begin_lists L ! p)"
    "length (begin_lists L) = lat_size L + 1" "length (end_lists L) = lat_size L + 1"
    "n_end_pos (node L (eos_node L)) = lat_size L"
  using assms unfolding wf_lattice_def Let_def bos_node_def eos_node_def lat_size_def by auto

text \<open>
  A path to a node, with its nodes from right to left and its cost. \<open>rb p\<close> is the end of the segment
  at position \<open>p\<close>, which no node may cross. The code keeps only partial costs below
  \<open>kVeryBigCost\<close>, except at the beginning and for constrained nodes.
\<close>

inductive path ::
  "(nat \<Rightarrow> nat \<Rightarrow> int) \<Rightarrow> (nat \<Rightarrow> nat) \<Rightarrow> Lattice \<Rightarrow> nat list \<Rightarrow> int \<Rightarrow> bool" for tc rb L where
  path_first: "r \<in> set (begin_lists L ! 0) \<Longrightarrow> n_end_pos (node L r) \<le> rb 0 \<Longrightarrow>
    path tc rb L [r] (n_cost (node L (bos_node L)) + tc (n_rid (node L (bos_node L))) (n_lid (node L r)) +
                      n_wcost (node L r))"
| path_next: "path tc rb L (l # ns) c \<Longrightarrow> 0 < p \<Longrightarrow> p < lat_size L \<Longrightarrow> l \<in> set (end_lists L ! p) \<Longrightarrow>
    r \<in> set (begin_lists L ! p) \<Longrightarrow> n_end_pos (node L r) \<le> rb p \<Longrightarrow>
    (case n_constrained_prev (node L r) of
       None \<Rightarrow> c + tc (n_rid (node L l)) (n_lid (node L r)) < kVeryBigCost
     | Some q \<Rightarrow> l = q) \<Longrightarrow>
    path tc rb L (r # l # ns) (c + tc (n_rid (node L l)) (n_lid (node L r)) + n_wcost (node L r))"

inductive_cases path_ConsE: "path tc rb L (r # ns) c"

lemmas path_cases = path_ConsE [consumes 1, case_names first step]

text \<open>A conversion is a path to the end of the key.\<close>

definition conversion_path ::
  "(nat \<Rightarrow> nat \<Rightarrow> int) \<Rightarrow> (nat \<Rightarrow> nat) \<Rightarrow> Lattice \<Rightarrow> nat list \<Rightarrow> int \<Rightarrow> bool" where
  "conversion_path tc rb L ns c \<longleftrightarrow>
     (\<exists>l ms c0. ns = l # ms \<and> path tc rb L ns c0 \<and> l \<in> set (end_lists L ! lat_size L) \<and>
        (let t = tc (n_rid (node L l)) (n_lid (node L (eos_node L)))
         in c0 + t < kVeryBigCost \<and> c = c0 + t + n_wcost (node L (eos_node L))))"

text \<open>The chain of predecessors that the search has stored.\<close>

fun prev_chain :: "Lattice \<Rightarrow> nat list \<Rightarrow> bool" where
  "prev_chain L [] = False"
| "prev_chain L [r] \<longleftrightarrow> n_prev (node L r) = Some (bos_node L)"
| "prev_chain L (r # l # ns) \<longleftrightarrow> n_prev (node L r) = Some l \<and> prev_chain L (l # ns)"

text \<open>A node that the search has settled, with respect to the lattice before the search.\<close>

definition settled :: "(nat \<Rightarrow> nat \<Rightarrow> int) \<Rightarrow> (nat \<Rightarrow> nat) \<Rightarrow> Lattice \<Rightarrow> Lattice \<Rightarrow> nat \<Rightarrow> bool" where
  "settled tc rb L0 L r \<longleftrightarrow>
     (if n_prev (node L r) = None then \<forall>ns c. \<not> path tc rb L0 (r # ns) c
      else (\<exists>ns. prev_chain L (r # ns) \<and> path tc rb L0 (r # ns) (n_cost (node L r))) \<and>
           (\<forall>ns c. path tc rb L0 (r # ns) c \<longrightarrow> n_cost (node L r) \<le> c))"

lemma path_nodes:
  assumes "path tc rb L ns c" "wf_lattice L"
  shows "\<forall>x \<in> set ns. x \<in> set (begin_lists L ! n_begin_pos (node L x)) \<and> n_begin_pos (node L x) < lat_size L \<and>
    n_begin_pos (node L x) \<le> n_begin_pos (node L (hd ns)) \<and>
    (x = hd ns \<or> n_begin_pos (node L x) < n_begin_pos (node L (hd ns)))"
  using assms(1)
proof induction
  case (path_first r)
  then show ?case using assms(2) by (auto simp: wf_lattice_def Let_def)
next
  case (path_next l ns c p r)
  have "n_begin_pos (node L r) = p" "n_begin_pos (node L l) < p"
    using path_next.hyps assms(2) by (auto simp: wf_lattice_def Let_def)
  then show ?case using path_next by auto
qed

lemma prev_chain_cong:
  assumes "\<forall>x \<in> set ns. n_prev (node L' x) = n_prev (node L x)" "bos_node L' = bos_node L"
  shows "prev_chain L' ns \<longleftrightarrow> prev_chain L ns"
  using assms(1)
proof (induction ns rule: induct_list012)
  case (3 x y zs)
  then show ?case by simp
qed (use assms(2) in simp_all)

lemma settled_stable:
  assumes "settled tc rb L0 L x" "wf_lattice L0" "same_shape L0 L" "same_shape L0 L'" "x \<notin> S"
    and "\<forall>i. i \<notin> S \<longrightarrow> node L' i = node L i" "\<forall>s \<in> S. n_begin_pos (node L0 x) \<le> n_begin_pos (node L0 s)"
  shows "settled tc rb L0 L' x"
proof -
  have x: "node L' x = node L x" using assms(5,6) by simp
  have "prev_chain L' (x # ns)" if p0: "prev_chain L (x # ns)" and p: "path tc rb L0 (x # ns) c" for ns c
  proof -
    have "y \<notin> S" if y: "y \<in> set ns" for y
    proof
      assume "y \<in> S"
      then have "n_begin_pos (node L0 x) \<le> n_begin_pos (node L0 y)" using assms(7) by simp
      then show False using path_nodes [OF p assms(2)] y \<open>y \<in> S\<close> assms(5) by fastforce
    qed
    then have "\<forall>y \<in> set (x # ns). n_prev (node L' y) = n_prev (node L y)"
      using assms(5,6) by auto
    moreover have "bos_node L' = bos_node L"
      using same_shape_nodes(7) [OF assms(3)] same_shape_nodes(7) [OF assms(4)] by simp
    ultimately show ?thesis using prev_chain_cong p0 by blast
  qed
  then show ?thesis using assms(1) x unfolding settled_def by metis
qed

subsection \<open>One node\<close>

definition left_ok :: "Lattice \<Rightarrow> nat \<Rightarrow> bool" where
  "left_ok L l \<longleftrightarrow> n_prev (node L l) \<noteq> None"

lemma best_left_spec:
  assumes "best_left tc L rlid ls conn bc0 bn0 = (bc, bn, conn')" "conn_ok tc conn" "cc_cache_lid conn = rlid"
    "rlid \<noteq> 0xFFFF"
  shows "conn_ok tc conn' \<and> bc \<le> bc0 \<and>
    (\<forall>l \<in> set ls. left_ok L l \<longrightarrow> bc \<le> n_cost (node L l) + tc (n_rid (node L l)) rlid) \<and>
    (bn = bn0 \<and> bc = bc0 \<or>
     (\<exists>l \<in> set ls. bn = Some l \<and> left_ok L l \<and> bc = n_cost (node L l) + tc (n_rid (node L l)) rlid \<and> bc < bc0))"
  using assms
proof (induction ls arbitrary: conn bc0 bn0)
  case (Cons l ls)
  show ?case
  proof (cases "n_prev (node L l) = None")
    case True
    then show ?thesis using Cons by (auto simp: left_ok_def)
  next
    case False
    obtain t conn1 where t: "CachedTransitionCost tc (n_rid (node L l)) rlid conn = (t, conn1)" by fastforce
    note ok = CachedTransitionCost_ok [OF Cons.prems(2,3,4) t]
    show ?thesis
    proof (cases "n_cost (node L l) + t < bc0")
      case True
      then have "best_left tc L rlid ls conn1 (n_cost (node L l) + t) (Some l) = (bc, bn, conn')"
        using Cons.prems(1) False t by simp
      from Cons.IH [OF this] ok Cons.prems(4) show ?thesis using True False by (auto simp: left_ok_def)
    next
      case f: False
      then have "best_left tc L rlid ls conn1 bc0 bn0 = (bc, bn, conn')"
        using Cons.prems(1) False t by simp
      from Cons.IH [OF this] ok Cons.prems(4) show ?thesis using f by (auto simp: left_ok_def)
    qed
  qed
qed simp

lemma best_eos_spec:
  assumes "best_eos tc L rlid ls bc0 bn0 = (bc, bn)"
  shows "bc \<le> bc0 \<and>
    (\<forall>l \<in> set ls. left_ok L l \<longrightarrow> bc \<le> n_cost (node L l) + tc (n_rid (node L l)) rlid) \<and>
    (bn = bn0 \<and> bc = bc0 \<or>
     (\<exists>l \<in> set ls. bn = Some l \<and> left_ok L l \<and> bc = n_cost (node L l) + tc (n_rid (node L l)) rlid \<and> bc < bc0))"
  using assms
proof (induction ls arbitrary: bc0 bn0)
  case (Cons l ls)
  show ?case
  proof (cases "n_prev (node L l) = None")
    case True
    then show ?thesis using Cons by (auto simp: left_ok_def)
  next
    case False
    let ?c = "n_cost (node L l) + tc (n_rid (node L l)) rlid"
    show ?thesis
    proof (cases "?c < bc0")
      case True
      then have "best_eos tc L rlid ls ?c (Some l) = (bc, bn)" using Cons.prems(1) False by simp
      from Cons.IH [OF this] show ?thesis using True False by (auto simp: left_ok_def)
    next
      case f: False
      then have "best_eos tc L rlid ls bc0 bn0 = (bc, bn)" using Cons.prems(1) False by simp
      from Cons.IH [OF this] show ?thesis using f by (auto simp: left_ok_def)
    qed
  qed
qed simp

text \<open>What a settled left neighbour gives its right neighbour.\<close>

definition step_allowed :: "(nat \<Rightarrow> nat \<Rightarrow> int) \<Rightarrow> Lattice \<Rightarrow> nat \<Rightarrow> nat \<Rightarrow> int \<Rightarrow> bool" where
  "step_allowed tc L l r c \<longleftrightarrow>
     (case n_constrained_prev (node L r) of
        None \<Rightarrow> c + tc (n_rid (node L l)) (n_lid (node L r)) < kVeryBigCost
      | Some q \<Rightarrow> l = q)"

lemma path_last_step:
  assumes "path tc rb L (r # ns) c" "wf_lattice L" "n_begin_pos (node L r) = p" "0 < p"
  shows "\<exists>l ms c0. ns = l # ms \<and> path tc rb L (l # ms) c0 \<and> l \<in> set (end_lists L ! p) \<and>
    n_end_pos (node L r) \<le> rb p \<and> step_allowed tc L l r c0 \<and>
    c = c0 + tc (n_rid (node L l)) (n_lid (node L r)) + n_wcost (node L r)"
  using assms(1)
proof (cases rule: path_cases)
  case first
  then have "r \<in> set (begin_lists L ! 0)" by simp
  then have "n_begin_pos (node L r) = 0" by (rule wf_begin(2) [OF assms(2) wf_ends(1) [OF assms(2)]])
  then show ?thesis using assms(3,4) by simp
next
  case (step l ns' c' p')
  then have "p' = p" using wf_begin(2) [OF assms(2), of p' r] assms(3) by simp
  then show ?thesis using step by (auto simp: step_allowed_def)
qed

lemma settled_step:
  assumes "wf_lattice L0" "same_shape L0 L" "same_shape L0 L'" "r \<in> set (begin_lists L0 ! p)" "0 < p" "p < lat_size L0"
    and "\<forall>i. i \<noteq> r \<longrightarrow> node L' i = node L i"
    and "\<forall>l \<in> set (end_lists L0 ! p). settled tc rb L0 L l"
    and "n_end_pos (node L0 r) \<le> rb p"
    and "n_prev (node L' r) = Some l" "l \<in> set (end_lists L0 ! p)" "left_ok L l"
    and "n_cost (node L' r) = n_cost (node L l) + tc (n_rid (node L0 l)) (n_lid (node L0 r)) + n_wcost (node L0 r)"
    and "step_allowed tc L0 l r (n_cost (node L l))"
    and "\<And>l' c. l' \<in> set (end_lists L0 ! p) \<Longrightarrow> left_ok L l' \<Longrightarrow> n_cost (node L l') \<le> c \<Longrightarrow> step_allowed tc L0 l' r c \<Longrightarrow>
        n_cost (node L l) + tc (n_rid (node L0 l)) (n_lid (node L0 r)) \<le>
        n_cost (node L l') + tc (n_rid (node L0 l')) (n_lid (node L0 r))"
  shows "settled tc rb L0 L' r"
proof -
  have lr: "l \<noteq> r" "n_begin_pos (node L0 l) < p" "n_begin_pos (node L0 r) = p"
    using wf_end(1) [OF assms(1,5) _ assms(11)] wf_begin(2) [OF assms(1,6,4)] assms(6) by auto
  obtain ns where ns: "prev_chain L (l # ns)" "path tc rb L0 (l # ns) (n_cost (node L l))"
    using assms(8,11,12) unfolding settled_def left_ok_def by (auto split: if_splits)
  have "r \<notin> set (l # ns)" using path_nodes [OF ns(2) assms(1)] lr by fastforce
  then have "\<forall>y \<in> set (l # ns). n_prev (node L' y) = n_prev (node L y)" using assms(7) by auto
  then have "prev_chain L' (l # ns)"
    using prev_chain_cong ns(1) same_shape_nodes(7) [OF assms(2)] same_shape_nodes(7) [OF assms(3)] by metis
  moreover have "path tc rb L0 (r # l # ns) (n_cost (node L' r))"
    unfolding assms(13) by (rule path_next [OF ns(2) assms(5,6,11,4,9)])
      (use assms(14) in \<open>simp add: step_allowed_def\<close>)
  moreover have "n_cost (node L' r) \<le> c" if path: "path tc rb L0 (r # ms) c" for ms c
  proof -
    obtain l' ms' c0 where l': "ms = l' # ms'" "path tc rb L0 (l' # ms') c0" "l' \<in> set (end_lists L0 ! p)"
      "step_allowed tc L0 l' r c0" "c = c0 + tc (n_rid (node L0 l')) (n_lid (node L0 r)) + n_wcost (node L0 r)"
      using path_last_step [OF path assms(1) lr(3) assms(5)] by blast
    have s: "settled tc rb L0 L l'" using assms(8) l'(3) by blast
    have ok: "left_ok L l'" "n_cost (node L l') \<le> c0"
      using s l'(2) unfolding settled_def left_ok_def by (metis option.distinct(1))+
    show ?thesis using assms(15) [OF l'(3) ok l'(4)] ok(2) l'(5) unfolding assms(13) by simp
  qed
  ultimately have "\<exists>ns. prev_chain L' (r # ns) \<and> path tc rb L0 (r # ns) (n_cost (node L' r))"
    "\<forall>ms c. path tc rb L0 (r # ms) c \<longrightarrow> n_cost (node L' r) \<le> c"
    using assms(10) by (blast intro: exI [of _ "l # ns"] prev_chain.simps(3) [THEN iffD2])+
  then show ?thesis using assms(10) by (simp add: settled_def)
qed

lemma settled_none:
  assumes "wf_lattice L0" "r \<in> set (begin_lists L0 ! p)" "0 < p" "p < lat_size L0"
    and "\<forall>l \<in> set (end_lists L0 ! p). settled tc rb L0 L l"
    and "n_prev (node L' r) = None"
    and "\<And>l c. n_end_pos (node L0 r) \<le> rb p \<Longrightarrow> l \<in> set (end_lists L0 ! p) \<Longrightarrow> left_ok L l \<Longrightarrow>
        n_cost (node L l) \<le> c \<Longrightarrow> \<not> step_allowed tc L0 l r c"
  shows "settled tc rb L0 L' r"
proof -
  have "\<not> path tc rb L0 (r # ms) c" for ms c
  proof
    assume path: "path tc rb L0 (r # ms) c"
    obtain l' ms' c0 where l': "ms = l' # ms'" "path tc rb L0 (l' # ms') c0" "l' \<in> set (end_lists L0 ! p)"
      "n_end_pos (node L0 r) \<le> rb p" "step_allowed tc L0 l' r c0"
      using path_last_step [OF path assms(1) wf_begin(2) [OF assms(1,4,2)] assms(3)] by blast
    have "settled tc rb L0 L l'" using assms(5) l'(3) by blast
    then have "left_ok L l'" "n_cost (node L l') \<le> c0"
      using l'(2) unfolding settled_def left_ok_def by (metis option.distinct(1))+
    then show False using assms(7) l'(3,4,5) by blast
  qed
  then show ?thesis using assms(6) by (simp add: settled_def)
qed

lemma viterbi_node_settles:
  assumes wf: "wf_lattice L0" and L: "same_shape L0 L" and conn: "conn_ok tc conn"
    and p: "0 < p" "p < lat_size L0" and r: "r \<in> set (begin_lists L0 ! p)"
    and left: "\<forall>l \<in> set (end_lists L0 ! p). settled tc rb L0 L l"
    and step: "viterbi_node tc p (rb p) r (conn, L) = (conn', L')"
  shows "same_shape L0 L' \<and> conn_ok tc conn' \<and> settled tc rb L0 L' r \<and> (\<forall>i. i \<noteq> r \<longrightarrow> node L' i = node L i)"
proof -
  note st = same_shape_nodes [OF L] and rr = wf_begin [OF wf p(2) r]
  let ?n = "node L r" and ?c1 = "ResetCacheIfNecessary (n_lid (node L r)) conn"
  have lt: "r < length (arena L)" using rr(1) st(12) by simp
  have c1: "conn_ok tc ?c1" "cc_cache_lid ?c1 = n_lid ?n" "n_lid ?n \<noteq> 0xFFFF"
    using conn_ok_Reset [OF conn] rr(5) st(2) by auto
  have shape: "same_shape L0 L''" "\<forall>i. i \<noteq> r \<longrightarrow> node L'' i = node L i" "node L'' r = m"
    if "L'' = set_node r m L" "n_static m = n_static ?n" for L'' m
    using that same_shape_trans [OF L same_shape_set_node [of m L r]] lt by (auto simp: node_set_node)
  consider (cross) "n_end_pos ?n > rb p"
    | (con) q where "n_end_pos ?n \<le> rb p" "n_constrained_prev ?n = Some q"
    | (free) "n_end_pos ?n \<le> rb p" "n_constrained_prev ?n = None" by fastforce
  then show ?thesis
  proof cases
    case cross
    then have e: "L' = set_node r (?n\<lparr>n_prev := None\<rparr>) L" "conn' = conn"
      using step by (simp_all add: viterbi_node_def Let_def)
    note s = shape [OF e(1)]
    have "settled tc rb L0 L' r"
      by (rule settled_none [OF wf r p left]) (use s cross st(4) in \<open>simp_all add: n_static_def\<close>)
    then show ?thesis using s e(2) conn by (simp add: n_static_def)
  next
    case (con q)
    have q: "q \<in> set (end_lists L0 ! p)" using rr(7) con(2) st(6) by simp
    show ?thesis
    proof (cases "n_prev (node L q) = None")
      case True
      then have e: "L' = set_node r (?n\<lparr>n_prev := None\<rparr>) L" "conn' = ?c1"
        using step con by (simp_all add: viterbi_node_def Let_def)
      note s = shape [OF e(1)]
      have "settled tc rb L0 L' r"
        by (rule settled_none [OF wf r p left])
          (use s con True st(6) in \<open>auto simp: n_static_def step_allowed_def left_ok_def\<close>)
      then show ?thesis using s e(2) c1(1) by (simp add: n_static_def)
    next
      case False
      obtain t c2 where t: "CachedTransitionCost tc (n_rid (node L q)) (n_lid ?n) ?c1 = (t, c2)" by fastforce
      note ok = CachedTransitionCost_ok [OF c1 t]
      have e: "L' = set_node r (?n\<lparr>n_prev := Some q, n_cost := n_cost (node L q) + n_wcost ?n + t\<rparr>) L" "conn' = c2"
        using step con False t by (simp_all add: viterbi_node_def Let_def)
      note s = shape [OF e(1)]
      have s': "same_shape L0 L'" using s(1) by (simp add: n_static_def)
      have "settled tc rb L0 L' r"
        by (rule settled_step [OF wf L s' r p _ left _ _ q])
          (use s con False st ok in \<open>auto simp: n_static_def left_ok_def step_allowed_def\<close>)
      then show ?thesis using s s' e(2) ok by (simp add: n_static_def)
    qed
  next
    case free
    obtain bc bn c2 where b: "best_left tc L (n_lid ?n) (end_lists L ! p) ?c1 kVeryBigCost None = (bc, bn, c2)"
      by (metis prod_cases3)
    note bs = best_left_spec [OF b c1]
    have e: "L' = set_node r (?n\<lparr>n_prev := bn, n_cost := bc + n_wcost ?n\<rparr>) L" "conn' = c2"
      using step free b by (simp_all add: viterbi_node_def Let_def)
    note s = shape [OF e(1)]
    have s': "same_shape L0 L'" using s(1) by (simp add: n_static_def)
    have el: "end_lists L ! p = end_lists L0 ! p" using st(10) by simp
    have n': "n_prev (node L' r) = bn" "n_cost (node L' r) = bc + n_wcost (node L0 r)"
      using s(3) st(5) by (simp_all add: n_static_def)
    have "settled tc rb L0 L' r"
    proof (cases bn)
      case None
      show ?thesis
        by (rule settled_none [OF wf r p left])
          (use n'(1) None bs el st free in \<open>auto simp: step_allowed_def\<close>)
    next
      case (Some l)
      have l: "l \<in> set (end_lists L0 ! p)" "left_ok L l" "bc < kVeryBigCost"
        "bc = n_cost (node L l) + tc (n_rid (node L0 l)) (n_lid (node L0 r))"
        using bs Some el st by auto
      show ?thesis
        by (rule settled_step [OF wf L s' r p _ left _ _ l(1,2)])
          (use s n' Some bs el st free l in \<open>auto simp: step_allowed_def n_static_def\<close>)
    qed
    then show ?thesis using s s' e(2) bs by (simp add: n_static_def)
  qed
qed

subsection \<open>All positions\<close>

lemma fold_settles:
  assumes "wf_lattice L0" "same_shape L0 L" "conn_ok tc conn" "0 < p" "p < lat_size L0"
    "set rs \<subseteq> set (begin_lists L0 ! p)" "distinct rs" "\<forall>l \<in> set (end_lists L0 ! p). settled tc rb L0 L l"
    "fold (viterbi_node tc p (rb p)) rs (conn, L) = (conn', L')"
  shows "same_shape L0 L' \<and> (\<forall>r \<in> set rs. settled tc rb L0 L' r) \<and> (\<forall>i. i \<notin> set rs \<longrightarrow> node L' i = node L i)"
  using assms(2,3,6-9)
proof (induction rs arbitrary: conn L)
  case (Cons r rs)
  obtain conn1 L1 where s: "viterbi_node tc p (rb p) r (conn, L) = (conn1, L1)" by fastforce
  have r: "r \<in> set (begin_lists L0 ! p)" using Cons.prems(3) by simp
  note S = viterbi_node_settles [OF assms(1) Cons.prems(1,2) assms(4,5) r Cons.prems(5) s]
  have b: "n_begin_pos (node L0 x) = p" if "x \<in> set (r # rs)" for x
    using wf_begin(2) [OF assms(1,5)] Cons.prems(3) that by blast
  have left: "\<forall>l \<in> set (end_lists L0 ! p). settled tc rb L0 L1 l"
  proof
    fix l assume l: "l \<in> set (end_lists L0 ! p)"
    have "n_begin_pos (node L0 l) < p" using wf_end(1) [OF assms(1,4) _ l] assms(5) by simp
    then show "settled tc rb L0 L1 l"
      using settled_stable [of tc rb L0 L l L1 "{r}"] S Cons.prems(1,5) assms(1) l b [of r] by auto
  qed
  have f: "fold (viterbi_node tc p (rb p)) rs (conn1, L1) = (conn', L')" using Cons.prems(6) s by simp
  have I: "same_shape L0 L' \<and> (\<forall>r \<in> set rs. settled tc rb L0 L' r) \<and> (\<forall>i. i \<notin> set rs \<longrightarrow> node L' i = node L1 i)"
    by (rule Cons.IH [OF _ _ _ _ left f]) (use S Cons.prems in auto)
  have "settled tc rb L0 L' r"
    using settled_stable [of tc rb L0 L1 r L' "set rs"] S I Cons.prems(4) assms(1) b by auto
  then show ?case using I S by auto
qed simp

definition settled_below :: "(nat \<Rightarrow> nat \<Rightarrow> int) \<Rightarrow> (nat \<Rightarrow> nat) \<Rightarrow> Lattice \<Rightarrow> nat \<Rightarrow> Lattice \<Rightarrow> bool" where
  "settled_below tc rb L0 p L \<longleftrightarrow>
     same_shape L0 L \<and> node L (bos_node L0) = node L0 (bos_node L0) \<and>
     (\<forall>q < p. \<forall>r \<in> set (begin_lists L0 ! q). settled tc rb L0 L r)"

lemma bos_not_listed:
  assumes "wf_lattice L0" "p < lat_size L0"
  shows "bos_node L0 \<notin> set (begin_lists L0 ! p)"
  using wf_begin(3) [OF assms] wf_ends(9) [OF assms(1)] by fastforce

lemma ViterbiInternal_settles:
  assumes "wf_lattice L0" "settled_below tc rb L0 p L" "0 < p" "p < lat_size L0" "rb p = right"
  shows "settled_below tc rb L0 (Suc p) (ViterbiInternal junk tc p right L)"
proof -
  have sh: "same_shape L0 L" using assms(2) by (simp add: settled_below_def)
  obtain conn' L' where f: "fold (viterbi_node tc p (rb p)) (begin_lists L0 ! p) (NewCachingConnector junk, L) = (conn', L')"
    by fastforce
  have left: "\<forall>l \<in> set (end_lists L0 ! p). settled tc rb L0 L l"
    using wf_end [OF assms(1,3)] assms(2,4) unfolding settled_below_def by (metis less_imp_le_nat)
  note F = fold_settles [OF assms(1) sh conn_ok_New assms(3,4) subset_refl wf_ends(11) [OF assms(1,4)] left f]
  have e: "ViterbiInternal junk tc p right L = L'"
    using f assms(5) same_shape_nodes(9) [OF sh] by (simp add: ViterbiInternal_def)
  have "settled tc rb L0 L' r" if "q < p" "r \<in> set (begin_lists L0 ! q)" for q r
  proof (rule settled_stable [of tc rb L0 L r L' "set (begin_lists L0 ! p)"])
    have q: "n_begin_pos (node L0 r) = q" using wf_begin(2) [OF assms(1) _ that(2)] that(1) assms(4) by simp
    then show "r \<notin> set (begin_lists L0 ! p)" using wf_begin(2) [OF assms(1,4)] that(1) by fastforce
    show "\<forall>s \<in> set (begin_lists L0 ! p). n_begin_pos (node L0 r) \<le> n_begin_pos (node L0 s)"
      using wf_begin(2) [OF assms(1,4)] q that(1) by fastforce
  qed (use assms(1,2) that F in \<open>auto simp: settled_below_def\<close>)
  then show ?thesis unfolding e
    using F assms(2) bos_not_listed [OF assms(1,4)] by (auto simp: settled_below_def less_Suc_eq)
qed

lemma positions_settle:
  assumes "wf_lattice L0" "settled_below tc rb L0 left L" "0 < left" "left \<le> right" "right \<le> lat_size L0"
    "\<forall>p. left \<le> p \<longrightarrow> p < right \<longrightarrow> rb p = right"
  shows "settled_below tc rb L0 right (fold (\<lambda>pos. ViterbiInternal junk tc pos right) [left..<right] L)"
proof -
  have "settled_below tc rb L0 (left + k) (fold (\<lambda>pos. ViterbiInternal junk tc pos right) [left..<left + k] L)"
    if "left + k \<le> right" for k
    using that
  proof (induction k)
    case (Suc k)
    then have "settled_below tc rb L0 (left + k) (fold (\<lambda>pos. ViterbiInternal junk tc pos right) [left..<left + k] L)"
      by simp
    then show ?case
      using ViterbiInternal_settles [OF assms(1), of tc rb "left + k" _ right junk] Suc.prems assms(3,5,6) by simp
  qed (use assms(2) in simp)
  from this [of "right - left"] show ?thesis using assms(4) by simp
qed

text \<open>The end of the segment at a position.\<close>

fun segment_end :: "nat \<Rightarrow> ustr list \<Rightarrow> nat \<Rightarrow> nat" where
  "segment_end left [] p = left"
| "segment_end left (k # ks) p =
     (if p < left + byte_size k then left + byte_size k else segment_end (left + byte_size k) ks p)"

lemma segments_settle:
  assumes "wf_lattice L0" "settled_below tc rb L0 left L" "0 < left"
    "left + sum_list (map byte_size ks) \<le> lat_size L0" "\<forall>p. left \<le> p \<longrightarrow> rb p = segment_end left ks p"
  shows "settled_below tc rb L0 (left + sum_list (map byte_size ks)) (viterbi_segments junk tc left ks L)"
  using assms(2-)
proof (induction ks arbitrary: left L)
  case (Cons k ks)
  let ?right = "left + byte_size k"
  have "settled_below tc rb L0 ?right (fold (\<lambda>pos. ViterbiInternal junk tc pos ?right) [left..<?right] L)"
    by (rule positions_settle [OF assms(1)]) (use Cons.prems in auto)
  from Cons.IH [OF this] Cons.prems show ?case by (simp add: Let_def add.assoc)
qed simp

subsection \<open>The beginning\<close>

lemma path_at_0:
  assumes "wf_lattice L0" "r \<in> set (begin_lists L0 ! 0)"
  shows "path tc rb L0 (r # ns) c \<longleftrightarrow> ns = [] \<and> n_end_pos (node L0 r) \<le> rb 0 \<and>
    c = n_cost (node L0 (bos_node L0)) + tc (n_rid (node L0 (bos_node L0))) (n_lid (node L0 r)) + n_wcost (node L0 r)"
    (is "?l \<longleftrightarrow> ?r")
proof
  assume ?l
  then show ?r
  proof (cases rule: path_cases)
    case (step l ns' c' p)
    then have "n_begin_pos (node L0 r) = p" "n_begin_pos (node L0 r) = 0"
      using wf_begin(2) [OF assms(1)] wf_ends(1) [OF assms(1)] assms(2) by blast+
    then show ?thesis using step by simp
  qed simp
next
  assume ?r
  then show ?l using path_first [OF assms(2), of rb tc] by simp
qed

lemma connect_bos_settles:
  assumes "wf_lattice L0" "same_shape L0 L" "set rs \<subseteq> set (begin_lists L0 ! 0)" "distinct rs"
    "\<forall>i. i \<in> set rs \<or> i = bos_node L0 \<longrightarrow> node L i = node L0 i" "L' = fold (connect_bos tc (rb 0)) rs L"
  shows "same_shape L0 L' \<and> (\<forall>r \<in> set rs. settled tc rb L0 L' r) \<and> (\<forall>i. i \<notin> set rs \<longrightarrow> node L' i = node L i)"
  using assms(2-)
proof (induction rs arbitrary: L)
  case (Cons r rs)
  let ?L1 = "connect_bos tc (rb 0) r L" and ?b = "node L0 (bos_node L0)"
  have r: "r \<in> set (begin_lists L0 ! 0)" "r \<noteq> bos_node L0"
    using Cons.prems(2) bos_not_listed [OF assms(1) wf_ends(1) [OF assms(1)]] by auto
  note rr = wf_begin [OF assms(1) wf_ends(1) [OF assms(1)] r(1)]
  have n: "node L r = node L0 r" "node L (bos_node L) = ?b" "r < length (arena L)"
    using Cons.prems(4) same_shape_nodes(7,12) [OF Cons.prems(1)] rr(1) by auto
  have L1: "?L1 = (if n_end_pos (node L0 r) > rb 0 then L
      else set_node r ((node L0 r)\<lparr>n_prev := Some (bos_node L0),
             n_cost := n_cost ?b + tc (n_rid ?b) (n_lid (node L0 r)) + n_wcost (node L0 r)\<rparr>) L)"
    using n same_shape_nodes(7) [OF Cons.prems(1)] by (simp add: connect_bos_def Let_def)
  have sh: "same_shape L0 ?L1"
    unfolding L1 using Cons.prems(1) same_shape_trans [OF Cons.prems(1) same_shape_set_node] n(1)
    by (simp add: n_static_def)
  have other: "\<forall>i. i \<noteq> r \<longrightarrow> node ?L1 i = node L i" unfolding L1 by (simp add: node_set_node)
  have set1: "settled tc rb L0 ?L1 r"
  proof (cases "n_end_pos (node L0 r) > rb 0")
    case True
    then have "node ?L1 r = node L0 r" unfolding L1 using n by simp
    then show ?thesis using True rr(6) path_at_0 [OF assms(1) r(1)] by (simp add: settled_def)
  next
    case False
    have "bos_node ?L1 = bos_node L0" using same_shape_nodes(7) [OF sh] .
    moreover have "node ?L1 r = (node L0 r)\<lparr>n_prev := Some (bos_node L0),
        n_cost := n_cost ?b + tc (n_rid ?b) (n_lid (node L0 r)) + n_wcost (node L0 r)\<rparr>"
      unfolding L1 using False n(3) by (simp add: node_set_node)
    ultimately show ?thesis using False path_at_0 [OF assms(1) r(1), of tc rb]
      by (auto simp: settled_def intro!: exI [of _ "[]"])
  qed
  have I: "same_shape L0 L' \<and> (\<forall>r \<in> set rs. settled tc rb L0 L' r) \<and> (\<forall>i. i \<notin> set rs \<longrightarrow> node L' i = node ?L1 i)"
    by (rule Cons.IH [OF sh]) (use Cons.prems other r in auto)
  have b: "n_begin_pos (node L0 x) = 0" if "x \<in> set (r # rs)" for x
    using wf_begin(2) [OF assms(1) wf_ends(1) [OF assms(1)]] Cons.prems(2) that by blast
  have "settled tc rb L0 L' r"
    using settled_stable [of tc rb L0 ?L1 r L' "set rs"] set1 I sh Cons.prems(3) assms(1) b by auto
  then show ?case using I other by auto
qed simp

subsection \<open>The end\<close>

text \<open>The nodes of a list follow each other by \<open>n_next\<close>.\<close>

fun linked :: "Lattice \<Rightarrow> nat list \<Rightarrow> bool" where
  "linked L (x # y # ys) \<longleftrightarrow> n_next (node L x) = Some y \<and> linked L (y # ys)"
| "linked L _ = True"

fun prev_list :: "Lattice \<Rightarrow> nat list \<Rightarrow> bool" where
  "prev_list L [] = False"
| "prev_list L [x] \<longleftrightarrow> n_prev (node L x) = None"
| "prev_list L (x # y # ys) \<longleftrightarrow> n_prev (node L x) = Some y \<and> prev_list L (y # ys)"

lemma prev_chain_list:
  "prev_chain L ns \<Longrightarrow> n_prev (node L (bos_node L)) = None \<Longrightarrow> prev_list L (ns @ [bos_node L])"
  by (induction ns rule: induct_list012) auto

lemma prev_list_cong:
  "\<forall>x \<in> set xs. n_prev (node L' x) = n_prev (node L x) \<Longrightarrow> prev_list L' xs \<longleftrightarrow> prev_list L xs"
  by (induction xs rule: induct_list012) auto

lemma linked_append: "linked L (xs @ [x]) \<Longrightarrow> n_next (node L x) = Some y \<Longrightarrow> linked L (xs @ [x, y])"
  by (induction xs rule: induct_list012) auto

lemma link_path_links:
  assumes "prev_list L (x # xs)" "distinct (x # xs)" "\<forall>y \<in> set (x # xs). y < length (arena L)" "length xs < fuel"
  shows "\<exists>L'. link_path fuel x prev L = Ret (if xs = [] then prev else Some (last xs), L') \<and>
    linked L' (rev (x # xs)) \<and> (\<forall>i. n_next (node L' i) = n_next (node L i) \<or> i \<in> set xs) \<and>
    (\<forall>i. n_cost (node L' i) = n_cost (node L i) \<and> n_prev (node L' i) = n_prev (node L i)) \<and>
    bos_node L' = bos_node L \<and> eos_node L' = eos_node L"
  using assms
proof (induction xs arbitrary: x prev L fuel)
  case Nil
  then show ?case by (cases fuel) (auto intro!: exI [of _ L])
next
  case (Cons y ys)
  obtain f where f: "fuel = Suc f" using Cons.prems(4) by (cases fuel) auto
  let ?L = "set_node y ((node L y)\<lparr>n_next := Some x\<rparr>) L"
  have other: "n_prev (node ?L i) = n_prev (node L i)" "n_cost (node ?L i) = n_cost (node L i)"
    "i \<noteq> y \<Longrightarrow> node ?L i = node L i" for i
    by (simp_all add: node_set_node)
  have y: "n_next (node ?L y) = Some x" using Cons.prems(3) by (simp add: node_set_node)
  have "prev_list ?L (y # ys)" using Cons.prems(1) prev_list_cong [of "y # ys" ?L L] other(1) by simp
  then obtain L' where r: "link_path f y (Some y) ?L = Ret (if ys = [] then Some y else Some (last ys), L')"
    "linked L' (rev (y # ys))" "\<forall>i. n_next (node L' i) = n_next (node ?L i) \<or> i \<in> set ys"
    "\<forall>i. n_cost (node L' i) = n_cost (node ?L i) \<and> n_prev (node L' i) = n_prev (node ?L i)"
    "bos_node L' = bos_node ?L" "eos_node L' = eos_node ?L"
    using Cons.IH [of ?L y f "Some y"] Cons.prems(2-4) f by auto
  have "n_next (node L' y) = Some x" using r(3) y Cons.prems(2) by force
  then have "linked L' (rev (x # y # ys))" using r(2) linked_append [of L' "rev ys" y x] by simp
  moreover have "n_next (node L' i) = n_next (node L i) \<or> i \<in> set (y # ys)" for i
    using r(3) other(3) [of i] by (cases "i = y") (metis list.set_intros)+
  moreover have "link_path fuel x prev L = Ret (Some (last (y # ys)), L')"
    using f r(1) Cons.prems(1) by simp
  ultimately show ?case using r(4-6) other(1,2) by auto
qed

lemma path_distinct:
  assumes "path tc rb L ns c" "wf_lattice L"
  shows "distinct ns \<and> ns \<noteq> [] \<and> (\<forall>x \<in> set ns. x < length (arena L) \<and> x \<noteq> bos_node L \<and> x \<noteq> eos_node L)"
  using assms(1)
proof induction
  case (path_first r)
  note b = wf_begin [OF assms(2) wf_ends(1) [OF assms(2)] path_first(1)]
  have "r \<noteq> bos_node L" using b(3) wf_ends(9) [OF assms(2)] by auto
  moreover have "r \<noteq> eos_node L" using b(2) wf_ends(1,6) [OF assms(2)] by auto
  ultimately show ?case using b(1) by simp
next
  case (path_next l ns c p r)
  note b = wf_begin [OF assms(2) path_next.hyps(3,5)]
  have "\<forall>x \<in> set (l # ns). n_begin_pos (node L x) \<le> n_begin_pos (node L l)"
    using path_nodes [OF path_next.hyps(1) assms(2)] by simp
  moreover have "n_begin_pos (node L l) < p"
    using wf_end(1) [OF assms(2) path_next.hyps(2) _ path_next.hyps(4)] path_next.hyps(3) by simp
  ultimately have "r \<notin> set (l # ns)" using b(2) by fastforce
  moreover have "r \<noteq> bos_node L" using b(3) wf_ends(9) [OF assms(2)] by auto
  moreover have "r \<noteq> eos_node L" using b(2) wf_ends(6) [OF assms(2)] path_next.hyps(3) by auto
  ultimately show ?case using path_next.IH b(1) by simp
qed

lemma connect_eos_correct:
  assumes "wf_lattice L0" "settled_below tc rb L0 (lat_size L0) L" "L' = connect_eos tc L"
  shows "same_shape L0 L' \<and> n_prev (node L' (bos_node L0)) = None \<and>
    (if n_prev (node L' (eos_node L0)) = None then \<forall>ns c. \<not> conversion_path tc rb L0 ns c
     else (\<exists>l ns. n_prev (node L' (eos_node L0)) = Some l \<and> prev_chain L' (l # ns) \<and>
            conversion_path tc rb L0 (l # ns) (n_cost (node L' (eos_node L0)))) \<and>
          (\<forall>ns c. conversion_path tc rb L0 ns c \<longrightarrow> n_cost (node L' (eos_node L0)) \<le> c))"
proof -
  have sh: "same_shape L0 L" using assms(2) by (simp add: settled_below_def)
  note st = same_shape_nodes [OF sh] and en = wf_ends [OF assms(1)]
  let ?e = "eos_node L0" and ?ls = "end_lists L0 ! lat_size L0"
  obtain bc bn where b: "best_eos tc L (n_lid (node L ?e)) ?ls kVeryBigCost None = (bc, bn)" by fastforce
  note B = best_eos_spec [OF b]
  have L': "L' = set_node ?e ((node L ?e)\<lparr>n_prev := bn, n_cost := bc + n_wcost (node L ?e)\<rparr>) L"
    using assms(3) b st by (simp add: connect_eos_def Let_def lat_size_def)
  have sh': "same_shape L0 L'"
    unfolding L' by (rule same_shape_trans [OF sh same_shape_set_node]) (simp add: n_static_def)
  have e: "n_prev (node L' ?e) = bn" "n_cost (node L' ?e) = bc + n_wcost (node L0 ?e)"
    "\<forall>i. i \<noteq> ?e \<longrightarrow> node L' i = node L i"
    unfolding L' using st(5,12) en(5) by (simp_all add: node_set_node)
  have settled: "settled tc rb L0 L l" if "l \<in> set ?ls" for l
    using wf_end [OF assms(1) en(1) order_refl that] assms(2) by (simp add: settled_below_def)
  have stay: "prev_chain L' ns" if "prev_chain L ns" "path tc rb L0 ns c" for ns c
  proof -
    have "\<forall>x \<in> set ns. n_prev (node L' x) = n_prev (node L x)"
      using path_distinct [OF that(2) assms(1)] e(3) by auto
    then show ?thesis
      using prev_chain_cong that(1) same_shape_nodes(7) [OF sh] same_shape_nodes(7) [OF sh'] by metis
  qed
  have bos: "n_prev (node L' (bos_node L0)) = None"
    using e(3) en(7,10) assms(2) by (simp add: settled_below_def)
  have lower: "bc + n_wcost (node L0 ?e) \<le> c" if conv: "conversion_path tc rb L0 ns c" for ns c
  proof -
    obtain l ms c0 where l: "ns = l # ms" "path tc rb L0 (l # ms) c0" "l \<in> set ?ls"
      "c = c0 + tc (n_rid (node L0 l)) (n_lid (node L0 ?e)) + n_wcost (node L0 ?e)"
      using conv by (auto simp: conversion_path_def Let_def)
    then have "left_ok L l" "n_cost (node L l) \<le> c0"
      using settled [OF l(3)] unfolding settled_def left_ok_def by (metis option.distinct(1))+
    then show ?thesis using B l(3,4) st(1,2) by fastforce
  qed
  show ?thesis
  proof (cases bn)
    case None
    have "\<not> conversion_path tc rb L0 ns c" for ns c
    proof
      assume "conversion_path tc rb L0 ns c"
      then obtain l ms c0 where l: "ns = l # ms" "path tc rb L0 (l # ms) c0" "l \<in> set ?ls"
        "c0 + tc (n_rid (node L0 l)) (n_lid (node L0 ?e)) < kVeryBigCost"
        by (auto simp: conversion_path_def Let_def)
      then have "left_ok L l" "n_cost (node L l) \<le> c0"
        using settled [OF l(3)] unfolding settled_def left_ok_def by (metis option.distinct(1))+
      then show False using B None l(3,4) st(1,2) by fastforce
    qed
    then show ?thesis using sh' bos e(1) None by simp
  next
    case (Some l)
    then have l: "l \<in> set ?ls" "left_ok L l" "bc < kVeryBigCost"
      "bc = n_cost (node L l) + tc (n_rid (node L0 l)) (n_lid (node L0 ?e))"
      using B st(1,2) by auto
    obtain ns where ns: "prev_chain L (l # ns)" "path tc rb L0 (l # ns) (n_cost (node L l))"
      using settled [OF l(1)] l(2) unfolding settled_def left_ok_def by (auto split: if_splits)
    have "conversion_path tc rb L0 (l # ns) (bc + n_wcost (node L0 ?e))"
      using ns(2) l by (auto simp: conversion_path_def Let_def)
    then show ?thesis using sh' bos e(1,2) Some stay [OF ns] lower by auto
  qed
qed

lemma conversion_path_cong_shape: "conversion_path tc rb L ns c \<Longrightarrow> \<exists>c0. path tc rb L ns c0"
  by (auto simp: conversion_path_def)

text \<open>What the search knows of a node in the end: its cost is the least cost of the paths to it, if there are any.\<close>

definition found :: "(nat \<Rightarrow> nat \<Rightarrow> int) \<Rightarrow> (nat \<Rightarrow> nat) \<Rightarrow> Lattice \<Rightarrow> Lattice \<Rightarrow> nat \<Rightarrow> bool" where
  "found tc rb L L' r \<longleftrightarrow>
     (n_prev (node L' r) \<noteq> None \<longleftrightarrow> (\<exists>ns c. path tc rb L (r # ns) c)) \<and>
     (n_prev (node L' r) \<noteq> None \<longrightarrow> (\<exists>ns. path tc rb L (r # ns) (n_cost (node L' r)))) \<and>
     (\<forall>ns c. path tc rb L (r # ns) c \<longrightarrow> n_cost (node L' r) \<le> c)"

lemma settled_found:
  assumes "settled tc rb L0 L r" "n_prev (node L' r) = n_prev (node L r)" "n_cost (node L' r) = n_cost (node L r)"
  shows "found tc rb L0 L' r"
  using assms unfolding settled_def found_def by (auto split: if_splits)

lemma connect_eos_other: "i \<noteq> eos_node L \<Longrightarrow> node (connect_eos tc L) i = node L i"
  by (simp add: connect_eos_def Let_def node_set_node split: prod.split)

lemma Viterbi_search:
  assumes "wf_lattice L" and "segment_keys \<noteq> []" and "hd segment_keys \<noteq> []"
    and "sum_list (map byte_size segment_keys) = lat_size L" and "length (arena L) < fuel"
  shows "\<exists>ok L'. Viterbi junk tc fuel segment_keys L = Ret (ok, L') \<and>
    (ok \<longleftrightarrow> (\<exists>ns c. conversion_path tc (segment_end 0 segment_keys) L ns c)) \<and>
    (ok \<longrightarrow> (\<exists>ns. conversion_path tc (segment_end 0 segment_keys) L ns (n_cost (node L' (eos_node L))) \<and>
                linked L' (bos_node L # rev ns @ [eos_node L])) \<and>
            (\<forall>ns c. conversion_path tc (segment_end 0 segment_keys) L ns c \<longrightarrow>
                n_cost (node L' (eos_node L)) \<le> c)) \<and>
    (\<forall>p < lat_size L. \<forall>r \<in> set (begin_lists L ! p). found tc (segment_end 0 segment_keys) L L' r)"
proof -
  let ?rb = "segment_end 0 segment_keys" and ?e = "eos_node L" and ?b = "bos_node L"
  obtain k ks where ks: "segment_keys = k # ks" using assms(2) by (cases segment_keys) auto
  have k: "0 < byte_size k" "?rb 0 = byte_size k" "byte_size k \<le> lat_size L"
    using assms(3,4) ks byte_size_0_iff [of k] by (auto simp del: byte_size_0_iff)
  note en = wf_ends [OF assms(1)]
  define L1 where "L1 = fold (connect_bos tc (byte_size k)) (begin_lists L ! 0) L"
  define L2 where "L2 = fold (\<lambda>pos. ViterbiInternal junk tc pos (byte_size k)) [1..<byte_size k] L1"
  define L3 where "L3 = viterbi_segments junk tc (byte_size k) ks L2"
  define L4 where "L4 = connect_eos tc L3"
  have "same_shape L L1 \<and> (\<forall>r \<in> set (begin_lists L ! 0). settled tc ?rb L L1 r) \<and>
      (\<forall>i. i \<notin> set (begin_lists L ! 0) \<longrightarrow> node L1 i = node L i)"
    by (rule connect_bos_settles [OF assms(1) same_shape_refl subset_refl en(11) [OF en(1)]])
      (simp_all add: L1_def k(2))
  then have "settled_below tc ?rb L 1 L1"
    using bos_not_listed [OF assms(1) en(1)] by (simp add: settled_below_def)
  then have "settled_below tc ?rb L (byte_size k) L2"
    unfolding L2_def by (rule positions_settle [OF assms(1)]) (use k ks in auto)
  then have "settled_below tc ?rb L (byte_size k + sum_list (map byte_size ks)) L3"
    unfolding L3_def by (rule segments_settle [OF assms(1)]) (use k ks assms(4) in auto)
  then have below: "settled_below tc ?rb L (lat_size L) L3" using assms(4) ks by simp
  note E = connect_eos_correct [OF assms(1) below L4_def]
  have st: "bos_node L4 = ?b" "eos_node L4 = ?e" "length (arena L4) = length (arena L)"
    using same_shape_nodes(7,8,12) E by blast+
  have V: "Viterbi junk tc fuel segment_keys L = make_path fuel L4"
    by (simp add: Viterbi_def Let_def ks L1_def L2_def L3_def L4_def)
  have F: "\<forall>p < lat_size L. \<forall>r \<in> set (begin_lists L ! p). found tc ?rb L L' r"
    if "\<And>i. n_prev (node L' i) = n_prev (node L4 i) \<and> n_cost (node L' i) = n_cost (node L4 i)" for L'
  proof (intro allI impI ballI)
    fix p r assume p: "p < lat_size L" "r \<in> set (begin_lists L ! p)"
    have "r \<noteq> eos_node L3"
      using wf_begin(2) [OF assms(1) p] en(6) p(1) same_shape_nodes(8) below by (auto simp: settled_below_def)
    then have "node L4 r = node L3 r" unfolding L4_def by (rule connect_eos_other)
    then show "found tc ?rb L L' r"
      using below p that by (intro settled_found [of _ _ _ L3]) (simp_all add: settled_below_def)
  qed
  show ?thesis
  proof (cases "n_prev (node L4 ?e)")
    case None
    then have "Viterbi junk tc fuel segment_keys L = Ret (False, L4)"
      unfolding V make_path_def st using assms(5) by (cases fuel) simp_all
    then show ?thesis using E None F [of L4] by (intro exI [of _ False] exI [of _ L4]) simp
  next
    case (Some l)
    then obtain ns where ns: "prev_chain L4 (l # ns)" "conversion_path tc ?rb L (l # ns) (n_cost (node L4 ?e))"
      using E by auto
    obtain c0 where "path tc ?rb L (l # ns) c0" using conversion_path_cong_shape [OF ns(2)] ..
    note d = path_distinct [OF this assms(1)]
    let ?xs = "l # ns @ [?b]"
    have "prev_list L4 ((l # ns) @ [bos_node L4])" using prev_chain_list [OF ns(1)] E st(1) by simp
    then have pl: "prev_list L4 (?e # ?xs)" using Some st(1) by simp
    have dist: "distinct (?e # ?xs)" "\<forall>y \<in> set (?e # ?xs). y < length (arena L4)"
      using d en(4,5,10) st(3) by auto
    have "set (?e # ?xs) \<subseteq> {..<length (arena L)}" using dist(2) st(3) by auto
    then have "length (?e # ?xs) \<le> length (arena L)"
      using card_mono [of "{..<length (arena L)}" "set (?e # ?xs)"] distinct_card [OF dist(1)] by simp
    then have "length ?xs < fuel" using assms(5) by simp
    from link_path_links [OF pl dist this, of None] obtain L' where L':
      "link_path fuel ?e None L4 = Ret (Some ?b, L')" "linked L' (rev (?e # ?xs))"
      "\<And>i. n_prev (node L' i) = n_prev (node L4 i) \<and> n_cost (node L' i) = n_cost (node L4 i)" "bos_node L' = ?b"
      using st(1) by auto
    have "Viterbi junk tc fuel segment_keys L = Ret (True, L')"
      unfolding V make_path_def st using L'(1,4) by simp
    moreover have "linked L' (?b # rev (l # ns) @ [?e])" using L'(2) by simp
    ultimately show ?thesis using E Some ns(2) L'(3) F [OF L'(3)] by auto
  qed
qed

text \<open>
  \<open>C7\<close>: The Viterbi search returns, and finds the cheapest conversion. It reports success exactly if
  the key can be covered by nodes that do not cross a segment boundary, respect their constraints and
  keep the partial costs below the cut-off; then the cost at the end is the least cost of all such
  paths, and following the \<^verbatim>\<open>next\<close> pointers from the first node to the last gives a path of that
  cost. The cache of transition costs, whatever is in its memory at first, does not change the
  result.
\<close>

theorem Viterbi_optimal:
  assumes "wf_lattice L" and "segment_keys \<noteq> []" and "hd segment_keys \<noteq> []"
    and "sum_list (map byte_size segment_keys) = lat_size L" and "length (arena L) < fuel"
  shows "\<exists>ok L'. Viterbi junk tc fuel segment_keys L = Ret (ok, L') \<and>
    (ok \<longleftrightarrow> (\<exists>ns c. conversion_path tc (segment_end 0 segment_keys) L ns c)) \<and>
    (ok \<longrightarrow> (\<exists>ns. conversion_path tc (segment_end 0 segment_keys) L ns (n_cost (node L' (eos_node L))) \<and>
                linked L' (bos_node L # rev ns @ [eos_node L])) \<and>
            (\<forall>ns c. conversion_path tc (segment_end 0 segment_keys) L ns c \<longrightarrow>
                n_cost (node L' (eos_node L)) \<le> c))"
  using Viterbi_search [OF assms] by blast

subsection \<open>Building a lattice\<close>

lemma SetKey_simps:
  "lat_key (SetKey key bos_id L) = key"
  "arena (SetKey key bos_id L) =
     [InitBOSNode Node_Init 0 bos_id, InitEOSNode Node_Init (byte_size key mod 2 ^ 16)]"
  "begin_lists (SetKey key bos_id L) = (replicate (byte_size key + 1) [])[byte_size key := [1]]"
  "end_lists (SetKey key bos_id L) = (replicate (byte_size key + 1) [])[0 := [0]]"
  by (simp_all add: SetKey_def Let_def Lattice_Clear_def NewNode_def set_node_def node_def nth_append
      del: replicate_Suc)

lemma wf_lattice_SetKey:
  assumes "key \<noteq> []" "byte_size key < 2 ^ 16"
  shows "wf_lattice (SetKey key bos_id L)"
proof -
  have n: "0 < byte_size key" "lat_size (SetKey key bos_id L) = byte_size key"
    using assms(1) byte_size_0_iff [of key] by (auto simp: lat_size_def SetKey_simps simp del: byte_size_0_iff)
  have lists: "begin_lists (SetKey key bos_id L) ! p = (if p = byte_size key then [1] else [])"
    "end_lists (SetKey key bos_id L) ! p = (if p = 0 then [0] else [])" if "p \<le> byte_size key" for p
    using that by (simp_all add: SetKey_simps nth_list_update del: replicate_Suc)
  show ?thesis unfolding wf_lattice_def Let_def n(2)
    using assms(2) n(1) lists
    by (auto simp: SetKey_simps(2-4) node_def InitBOSNode_def InitEOSNode_def Node_Init_def simp del: replicate_Suc)
qed

definition unlisted :: "nat \<Rightarrow> Lattice \<Rightarrow> bool" where
  "unlisted i L \<longleftrightarrow> (\<forall>p \<le> lat_size L. i \<notin> set (begin_lists L ! p) \<and> i \<notin> set (end_lists L ! p))"

lemma Insert_simps:
  fixes pos :: nat
  assumes "i < length (arena L)"
  defines "end_pos \<equiv> min (byte_size (n_key (node L i)) + pos) (lat_size L)"
  shows "lat_size (Lattice_Insert pos i L) = lat_size L" "length (arena (Lattice_Insert pos i L)) = length (arena L)"
    "begin_lists (Lattice_Insert pos i L) = (begin_lists L)[pos := begin_lists L ! pos @ [i]]"
    "end_lists (Lattice_Insert pos i L) = (end_lists L)[end_pos := end_lists L ! end_pos @ [i]]"
    "node (Lattice_Insert pos i L) j =
      (if j = i then (node L i)\<lparr>n_begin_pos := pos mod 2 ^ 16, n_end_pos := end_pos mod 2 ^ 16,
                                n_prev := None, n_next := None, n_cost := 0\<rparr> else node L j)"
  using assms(1) by (simp_all add: Lattice_Insert_def Let_def lat_size_def end_pos_def set_node_def node_def)

lemma wf_Insert:
  assumes "wf_lattice L" and "lat_size L < 2 ^ 16" and "pos < lat_size L" and "i < length (arena L)"
    and "unlisted i L" and "n_key (node L i) \<noteq> []" and "n_lid (node L i) \<noteq> 0xFFFF"
    and "\<And>q. n_constrained_prev (node L i) = Some q \<Longrightarrow> 0 < pos \<and> q \<in> set (end_lists L ! pos)"
  shows "wf_lattice (Lattice_Insert pos i L)"
proof -
  let ?L = "Lattice_Insert pos i L" and ?n = "lat_size L"
  define end_pos where "end_pos = min (byte_size (n_key (node L i)) + pos) ?n"
  have e: "pos < end_pos" "end_pos \<le> ?n" "end_pos mod 2 ^ 16 = end_pos" "pos mod 2 ^ 16 = pos"
    using assms(2,3,6) byte_size_0_iff [of "n_key (node L i)"]
    by (auto simp: end_pos_def min_def simp del: byte_size_0_iff)
  note S = Insert_simps [OF assms(4), of pos, folded end_pos_def, unfolded e(3,4)] and en = wf_ends [OF assms(1)]
  have bl: "set (begin_lists ?L ! p) = set (begin_lists L ! p) \<union> (if p = pos then {i} else {})"
    "set (end_lists ?L ! p) = set (end_lists L ! p) \<union> (if p = end_pos then {i} else {})" if "p \<le> ?n" for p
    using that en(12,13) S(3,4) by (auto simp: nth_list_update)
  have ni: "i \<notin> set (begin_lists L ! p)" "i \<notin> set (end_lists L ! p)" if "p \<le> ?n" for p
    using assms(5) that by (auto simp: unlisted_def)
  have b: "end_lists ?L ! 0 = [bos_node L]" "begin_lists ?L ! ?n = [eos_node L]"
    using S(3,4) e assms(3) en(2,3) by simp_all
  have bi: "bos_node L \<noteq> i" "eos_node L \<noteq> i"
    using ni(2) [of 0] ni(1) [of ?n] en(2,3) by auto
  have dist: "distinct (begin_lists ?L ! p)" if "p < ?n" for p
    using en(11) [OF that] ni(1) [of pos] assms(3) S(3) en(12) by (auto simp: nth_list_update)
  have B: "r < length (arena L) \<and> n_begin_pos (node ?L r) = p \<and> p < n_end_pos (node ?L r) \<and>
      n_end_pos (node ?L r) \<le> ?n \<and> n_lid (node ?L r) \<noteq> 0xFFFF \<and> n_prev (node ?L r) = None \<and>
      (\<forall>q. n_constrained_prev (node ?L r) = Some q \<longrightarrow> 0 < p \<and> q \<in> set (end_lists ?L ! p))"
    if p: "p < ?n" and r: "r \<in> set (begin_lists ?L ! p)" for p r
  proof (cases "r = i")
    case True
    then have "p = pos" using r bl(1) [of p] ni(1) [of p] p by (auto split: if_splits)
    then show ?thesis using True S(5) e assms(3,4,7,8) bl(2) [of p] p by auto
  next
    case False
    then have "r \<in> set (begin_lists L ! p)" using r bl(1) [of p] p by (auto split: if_splits)
    note w = wf_begin [OF assms(1) p this]
    show ?thesis using w(1-6) w(7) False S(5) bl(2) [of p] p by auto
  qed
  have E: "n_begin_pos (node ?L l) < p \<and> n_end_pos (node ?L l) = p \<and>
      l \<in> set (begin_lists ?L ! n_begin_pos (node ?L l))"
    if p: "0 < p" "p \<le> ?n" and l: "l \<in> set (end_lists ?L ! p)" for p l
  proof (cases "l = i")
    case True
    then have "p = end_pos" using l bl(2) [of p] ni(2) [of p] p by (auto split: if_splits)
    then show ?thesis using True S(5) e bl(1) [of pos] assms(3) by simp
  next
    case False
    then have "l \<in> set (end_lists L ! p)" using l bl(2) [of p] p by (auto split: if_splits)
    note w = wf_end [OF assms(1) p this]
    show ?thesis using w False S(5) bl(1) [of "n_begin_pos (node L l)"] p by auto
  qed
  show "wf_lattice ?L"
    by (rule wf_latticeI [where n = ?n and b = "bos_node L" and e = "eos_node L", OF en(1) S(1) _ _ b])
      (use en bi dist B E S(2-5) in simp_all)
qed

text \<open>
  \<open>C9\<close>: A lattice whose key has 1 to 65535 bytes is well-formed after \<^verbatim>\<open>SetKey\<close>, and it stays
  well-formed when a new node with a key is inserted before its end: the lists by beginning and by
  end agree with the positions that the node stores, also when its key is longer than the rest of
  the lattice.
\<close>

theorem wf_lattice_Insert:
  assumes "wf_lattice L" and "lat_size L < 2 ^ 16" and "pos < lat_size L" and "i < length (arena L)"
    and "unlisted i L" and "n_key (node L i) \<noteq> []" and "n_lid (node L i) \<noteq> 0xFFFF"
    and "\<And>q. n_constrained_prev (node L i) = Some q \<Longrightarrow> 0 < pos \<and> q \<in> set (end_lists L ! pos)"
    and "key \<noteq> []" and "byte_size key < 2 ^ 16"
  shows "wf_lattice (SetKey key bos_id K) \<and> wf_lattice (Lattice_Insert pos i L)"
  using wf_lattice_SetKey [OF assms(9,10)] wf_Insert [OF assms(1-8)] by blast

text \<open>A lattice for a key of two bytes, with a node for each byte and one for both.\<close>

definition demo_node :: "ustr \<Rightarrow> int \<Rightarrow> Node" where
  "demo_node key wcost = Node_Init\<lparr>n_key := key, n_wcost := wcost, n_lid := 1, n_rid := 1\<rparr>"

definition demo_lattice0 :: Lattice where
  "demo_lattice0 = (SetKey [0x61, 0x62] 0 NewLattice)
     \<lparr>arena := arena (SetKey [0x61, 0x62] 0 NewLattice) @
        [demo_node [0x61] 3, demo_node [0x62] 4, demo_node [0x61, 0x62] 5]\<rparr>"

definition demo_lattice :: Lattice where
  "demo_lattice = Lattice_Insert 0 4 (Lattice_Insert 1 3 (Lattice_Insert 0 2 demo_lattice0))"

lemma char_size_ab [simp]: "char_size 0x61 = 1" "char_size 0x62 = 1"
  by (simp_all add: char_size_def)

lemma demo_lattice0_eq:
  "demo_lattice0 =
     \<lparr>lat_key = [0x61, 0x62], begin_lists = [[], [], [1]], end_lists = [[0], [], []],
      arena = [InitBOSNode Node_Init 0 0, InitEOSNode Node_Init 2, demo_node [0x61] 3, demo_node [0x62] 4,
               demo_node [0x61, 0x62] 5]\<rparr>"
proof -
  have "2 mod 2 ^ 16 = (2 :: nat)" by simp
  moreover have "replicate 2 [] = [[], []]" by (simp add: numeral_2_eq_2)
  ultimately show ?thesis
    by (simp add: demo_lattice0_def SetKey_def Let_def Lattice_Clear_def NewNode_def set_node_def node_def
        NewLattice_def) (simp add: numeral_2_eq_2)
qed

lemma upto2: "p \<le> 2 \<longleftrightarrow> p = 0 \<or> p = 1 \<or> p = (2 :: nat)" "p < 2 \<longleftrightarrow> p = 0 \<or> p = (1 :: nat)"
  "p \<le> Suc (Suc 0) \<longleftrightarrow> p = 0 \<or> p = 1 \<or> p = (2 :: nat)" "p < Suc (Suc 0) \<longleftrightarrow> p = 0 \<or> p = (1 :: nat)"
  by auto

lemma wf_demo0: "wf_lattice demo_lattice0"
  by (rule wf_latticeI [where n = 2 and b = 0 and e = 1])
    (auto simp: demo_lattice0_eq lat_size_def upto2 node_def InitBOSNode_def InitEOSNode_def Node_Init_def
      dest!: upto2(1) [THEN iffD1])

theorem wf_lattice_Insert_witness:
  "wf_lattice (SetKey [0x61, 0x62] 0 NewLattice) \<and> wf_lattice (Lattice_Insert 0 2 demo_lattice0)"
  by (rule wf_lattice_Insert [OF wf_demo0])
    (simp_all add: demo_lattice0_eq lat_size_def unlisted_def upto2 node_def demo_node_def Node_Init_def)

lemma demo_lattice_eq:
  "demo_lattice =
     \<lparr>lat_key = [0x61, 0x62], begin_lists = [[2, 4], [3], [1]], end_lists = [[0], [2], [3, 4]],
      arena = [InitBOSNode Node_Init 0 0, InitEOSNode Node_Init 2,
               (demo_node [0x61] 3)\<lparr>n_end_pos := 1\<rparr>,
               (demo_node [0x62] 4)\<lparr>n_begin_pos := 1, n_end_pos := 2\<rparr>,
               (demo_node [0x61, 0x62] 5)\<lparr>n_end_pos := 2\<rparr>]\<rparr>"
  by (simp add: demo_lattice_def demo_lattice0_eq Lattice_Insert_def Let_def set_node_def node_def demo_node_def
      Node_Init_def)

lemma wf_demo: "wf_lattice demo_lattice"
  by (rule wf_latticeI [where n = 2 and b = 0 and e = 1])
    (auto simp: demo_lattice_eq lat_size_def upto2 node_def InitBOSNode_def InitEOSNode_def Node_Init_def
      demo_node_def dest!: upto2(1) [THEN iffD1])

theorem Viterbi_optimal_witness:
  "\<exists>L'. Viterbi (\<lambda>_. 7) (\<lambda>_ _. 1) 6 [[0x61, 0x62]] demo_lattice = Ret (True, L') \<and>
     n_cost (node L' 1) \<le> 7"
proof -
  let ?tc = "\<lambda>_ _. 1 :: int" and ?rb = "segment_end 0 [[0x61, 0x62]]"
  have e: "eos_node demo_lattice = 1" "bos_node demo_lattice = 0" "lat_size demo_lattice = 2"
    by (simp_all add: demo_lattice_eq eos_node_def bos_node_def lat_size_def)
  have "path ?tc ?rb demo_lattice [4] (n_cost (node demo_lattice 0) + 1 + n_wcost (node demo_lattice 4))"
    using path_first [of 4 demo_lattice ?rb ?tc] by (simp add: demo_lattice_eq node_def e bos_node_def)
  then have "conversion_path ?tc ?rb demo_lattice [4] 7"
    by (auto simp: conversion_path_def e kVeryBigCost_def Let_def intro!: exI [of _ 6])
      (simp_all add: demo_lattice_eq node_def InitBOSNode_def InitEOSNode_def demo_node_def)
  then have c: "\<exists>ns c. conversion_path ?tc ?rb demo_lattice ns c" "conversion_path ?tc ?rb demo_lattice [4] 7"
    by blast+
  obtain ok L' where V: "Viterbi (\<lambda>_. 7) ?tc 6 [[0x61, 0x62]] demo_lattice = Ret (ok, L')"
    "ok \<longleftrightarrow> (\<exists>ns c. conversion_path ?tc ?rb demo_lattice ns c)"
    "ok \<longrightarrow> (\<forall>ns c. conversion_path ?tc ?rb demo_lattice ns c \<longrightarrow> n_cost (node L' (eos_node demo_lattice)) \<le> c)"
    using Viterbi_optimal [OF wf_demo, of "[[0x61, 0x62]]" 6 "\<lambda>_. 7" ?tc] e(3) by (force simp: demo_lattice_eq)
  have "n_cost (node L' (eos_node demo_lattice)) \<le> 7" using V(2,3) c by blast
  then have "n_cost (node L' 1) \<le> 7" unfolding e(1) .
  moreover have "ok = True" using V(2) c(1) by simp
  ultimately show ?thesis using V(1) by auto
qed

subsection \<open>The size of the costs\<close>

text \<open>The paths without the cut-off.\<close>

inductive cover ::
  "(nat \<Rightarrow> nat \<Rightarrow> int) \<Rightarrow> (nat \<Rightarrow> nat) \<Rightarrow> Lattice \<Rightarrow> nat list \<Rightarrow> int \<Rightarrow> bool" for tc rb L where
  cover_first: "r \<in> set (begin_lists L ! 0) \<Longrightarrow> n_end_pos (node L r) \<le> rb 0 \<Longrightarrow>
    cover tc rb L [r] (n_cost (node L (bos_node L)) + tc (n_rid (node L (bos_node L))) (n_lid (node L r)) +
                       n_wcost (node L r))"
| cover_next: "cover tc rb L (l # ns) c \<Longrightarrow> 0 < p \<Longrightarrow> p < lat_size L \<Longrightarrow> l \<in> set (end_lists L ! p) \<Longrightarrow>
    r \<in> set (begin_lists L ! p) \<Longrightarrow> n_end_pos (node L r) \<le> rb p \<Longrightarrow>
    n_constrained_prev (node L r) \<in> {None, Some l} \<Longrightarrow>
    cover tc rb L (r # l # ns) (c + tc (n_rid (node L l)) (n_lid (node L r)) + n_wcost (node L r))"

definition costs_within :: "(nat \<Rightarrow> nat \<Rightarrow> int) \<Rightarrow> int \<Rightarrow> Lattice \<Rightarrow> bool" where
  "costs_within tc B L \<longleftrightarrow> n_cost (node L (bos_node L)) = 0 \<and> (\<forall>a b. \<bar>tc a b\<bar> \<le> B) \<and>
     (\<forall>p \<le> lat_size L. \<forall>r \<in> set (begin_lists L ! p). \<bar>n_wcost (node L r)\<bar> \<le> B)"

text \<open>A cover of the whole key, with the cost at its end.\<close>

definition full_cover ::
  "(nat \<Rightarrow> nat \<Rightarrow> int) \<Rightarrow> (nat \<Rightarrow> nat) \<Rightarrow> Lattice \<Rightarrow> nat list \<Rightarrow> int \<Rightarrow> bool" where
  "full_cover tc rb L ns c \<longleftrightarrow>
     (\<exists>l ms c0. ns = l # ms \<and> cover tc rb L ns c0 \<and> l \<in> set (end_lists L ! lat_size L) \<and>
        c = c0 + tc (n_rid (node L l)) (n_lid (node L (eos_node L))) + n_wcost (node L (eos_node L)))"

lemma costs_within_node:
  "costs_within tc B L \<Longrightarrow> p \<le> lat_size L \<Longrightarrow> r \<in> set (begin_lists L ! p) \<Longrightarrow> \<bar>n_wcost (node L r)\<bar> \<le> B"
  by (simp add: costs_within_def)

lemma cover_bound:
  assumes "cover tc rb L ns c" "wf_lattice L" "costs_within tc B L"
  shows "ns \<noteq> [] \<and> \<bar>c\<bar> \<le> 2 * B * int (length ns) \<and> length ns \<le> Suc (n_begin_pos (node L (hd ns))) \<and>
    n_begin_pos (node L (hd ns)) < lat_size L"
  using assms(1)
proof induction
  case (cover_first r)
  note b = wf_begin(2) [OF assms(2) wf_ends(1) [OF assms(2)] cover_first(1)]
  have "\<bar>n_wcost (node L r)\<bar> \<le> B" "\<And>x. \<bar>tc x (n_lid (node L r))\<bar> \<le> B"
    using assms(3) cover_first(1) wf_ends(1) [OF assms(2)] by (auto simp: costs_within_def)
  moreover have "\<bar>tc (n_rid (node L (bos_node L))) (n_lid (node L r))\<bar> \<le> B" by fact
  ultimately have "\<bar>tc (n_rid (node L (bos_node L))) (n_lid (node L r)) + n_wcost (node L r)\<bar> \<le> 2 * B" by linarith
  then show ?case using b assms(3) wf_ends(1) [OF assms(2)] by (simp add: costs_within_def)
next
  case (cover_next l ns c p r)
  note b = wf_begin(2) [OF assms(2) cover_next.hyps(3,5)]
  have l: "n_begin_pos (node L l) < p"
    using wf_end(1) [OF assms(2) cover_next.hyps(2) _ cover_next.hyps(4)] cover_next.hyps(3) by simp
  have t: "\<bar>n_wcost (node L r)\<bar> \<le> B" "\<bar>tc (n_rid (node L l)) (n_lid (node L r))\<bar> \<le> B"
    using costs_within_node [OF assms(3) _ cover_next.hyps(5)] assms(3) cover_next.hyps(3) by (simp_all add: costs_within_def)
  have "\<bar>c + tc (n_rid (node L l)) (n_lid (node L r)) + n_wcost (node L r)\<bar> \<le> 2 * B * int (length (l # ns)) + 2 * B"
    using t cover_next.IH by linarith
  also have "\<dots> = 2 * B * int (length (r # l # ns))" by (simp add: algebra_simps)
  finally show ?case using b l cover_next by auto
qed

lemma costs_within_nonneg: "costs_within tc B L \<Longrightarrow> 0 \<le> B"
  by (auto simp: costs_within_def dest: order_trans [OF abs_ge_zero])

lemma cover_small:
  assumes "cover tc rb L ns c" "wf_lattice L" "costs_within tc B L" "2 * B * (int (lat_size L) + 1) < kVeryBigCost"
  shows "\<bar>c\<bar> + 2 * B < kVeryBigCost"
proof -
  have "2 * B * int (length ns) \<le> 2 * B * int (lat_size L)"
    using cover_bound [OF assms(1-3)] costs_within_nonneg [OF assms(3)] by (intro mult_left_mono) auto
  then show ?thesis using cover_bound [OF assms(1-3)] assms(4) by (simp add: algebra_simps)
qed

lemma path_cover:
  assumes "path tc rb L ns c"
  shows "cover tc rb L ns c"
  using assms
proof induction
  case (path_first r)
  then show ?case by (rule cover_first)
next
  case (path_next l ns c p r)
  then show ?case by (intro cover_next) (auto split: option.splits)
qed

lemma cover_path:
  assumes "cover tc rb L ns c" "wf_lattice L" "costs_within tc B L" "2 * B * (int (lat_size L) + 1) < kVeryBigCost"
  shows "path tc rb L ns c"
  using assms(1)
proof induction
  case (cover_first r)
  then show ?case by (rule path_first)
next
  case (cover_next l ns c p r)
  have "\<bar>tc (n_rid (node L l)) (n_lid (node L r))\<bar> \<le> B" using assms(3) by (simp add: costs_within_def)
  then have "c + tc (n_rid (node L l)) (n_lid (node L r)) < kVeryBigCost"
    using cover_small [OF cover_next.hyps(1) assms(2-4)] costs_within_nonneg [OF assms(3)] by linarith
  then show ?case using cover_next by (intro path_next) (auto split: option.splits)
qed

lemma full_cover_conversion:
  assumes "wf_lattice L" "costs_within tc B L" "2 * B * (int (lat_size L) + 1) < kVeryBigCost"
  shows "conversion_path tc rb L ns c \<longleftrightarrow> full_cover tc rb L ns c" "full_cover tc rb L ns c \<Longrightarrow> \<bar>c\<bar> < kVeryBigCost"
proof -
  have t: "\<bar>tc a b\<bar> \<le> B" for a b using assms(2) by (simp add: costs_within_def)
  have below: "c0 + tc a b < kVeryBigCost" "\<bar>c0 + tc a b\<bar> + B < kVeryBigCost" if "cover tc rb L ns c0" for ns c0 a b
    using cover_small [OF that assms] t [of a b] by linarith+
  show "conversion_path tc rb L ns c \<longleftrightarrow> full_cover tc rb L ns c"
  proof
    assume "conversion_path tc rb L ns c"
    then show "full_cover tc rb L ns c"
      unfolding conversion_path_def full_cover_def Let_def using path_cover by (elim exE conjE) (intro exI conjI)
  next
    assume "full_cover tc rb L ns c"
    then show "conversion_path tc rb L ns c"
      unfolding conversion_path_def full_cover_def Let_def
      by (elim exE conjE) (intro exI conjI cover_path [OF _ assms] below(1))
  qed
  have e: "\<bar>n_wcost (node L (eos_node L))\<bar> \<le> B"
    by (rule costs_within_node [OF assms(2) order_refl]) (simp add: wf_ends(3) [OF assms(1)])
  show "\<bar>c\<bar> < kVeryBigCost" if full: "full_cover tc rb L ns c"
  proof -
    obtain l c0 where "cover tc rb L ns c0"
      and c: "c = c0 + tc (n_rid (node L l)) (n_lid (node L (eos_node L))) + n_wcost (node L (eos_node L))"
      using full unfolding full_cover_def by blast
    from below(2) [OF this(1), of "n_rid (node L l)" "n_lid (node L (eos_node L))"] show ?thesis unfolding c using e by linarith
  qed
qed

text \<open>
  \<open>C25\<close>: The cut-off of the Viterbi search never loses a conversion, and its 32-bit sums do not overflow, when the
  costs are small. The lattice is well-formed and has a key of \<open>n\<close> bytes, the segments cover the key and the first is
  not empty; the first node has cost 0, no transition cost and no word cost in the lattice exceeds \<open>B\<close> in absolute
  value, and \<open>2 * B * (n + 1)\<close> is below the cut-off of 536870911. Then the search reports success exactly if nodes that
  respect the segments and the constraints cover the key at all, whatever they cost; the cost at the end is the
  least cost of all such covers; every other node has a predecessor in the end exactly if a cover reaches it, and its
  cost is the least; and each of these costs, also together with any transition cost, is below the
  cut-off in absolute value.
\<close>

theorem costs_never_cut:
  assumes "wf_lattice L" and "segment_keys \<noteq> []" and "hd segment_keys \<noteq> []"
    and "sum_list (map byte_size segment_keys) = lat_size L" and "length (arena L) < fuel"
    and "costs_within tc B L" and "2 * B * (int (lat_size L) + 1) < kVeryBigCost"
  shows "\<exists>ok L'. Viterbi junk tc fuel segment_keys L = Ret (ok, L') \<and>
    (ok \<longleftrightarrow> (\<exists>ns c. full_cover tc (segment_end 0 segment_keys) L ns c)) \<and>
    (ok \<longrightarrow> \<bar>n_cost (node L' (eos_node L))\<bar> < kVeryBigCost \<and>
      (\<exists>ns. full_cover tc (segment_end 0 segment_keys) L ns (n_cost (node L' (eos_node L)))) \<and>
      (\<forall>ns c. full_cover tc (segment_end 0 segment_keys) L ns c \<longrightarrow> n_cost (node L' (eos_node L)) \<le> c)) \<and>
    (\<forall>p < lat_size L. \<forall>r \<in> set (begin_lists L ! p).
      (n_prev (node L' r) \<noteq> None \<longleftrightarrow> (\<exists>ns c. cover tc (segment_end 0 segment_keys) L (r # ns) c)) \<and>
      (\<forall>ns c. cover tc (segment_end 0 segment_keys) L (r # ns) c \<longrightarrow> n_cost (node L' r) \<le> c) \<and>
      (n_prev (node L' r) \<noteq> None \<longrightarrow> \<bar>n_cost (node L' r)\<bar> < kVeryBigCost \<and>
        (\<forall>a b. \<bar>n_cost (node L' r) + tc a b\<bar> < kVeryBigCost) \<and>
        (\<exists>ns. cover tc (segment_end 0 segment_keys) L (r # ns) (n_cost (node L' r)))))"
proof -
  let ?rb = "segment_end 0 segment_keys"
  note bounds = assms(1,6,7)
  have eq: "path tc ?rb L ns c \<longleftrightarrow> cover tc ?rb L ns c" for ns c using path_cover cover_path [OF _ bounds] by blast
  note full = full_cover_conversion [OF bounds, of ?rb]
  have small: "\<bar>c\<bar> < kVeryBigCost" "\<bar>c + tc a b\<bar> < kVeryBigCost" if "cover tc ?rb L ns c" for ns c a b
  proof -
    have t: "\<bar>tc a b\<bar> \<le> B" using assms(6) by (simp add: costs_within_def)
    then show "\<bar>c\<bar> < kVeryBigCost" "\<bar>c + tc a b\<bar> < kVeryBigCost"
      using cover_small [OF that bounds] costs_within_nonneg [OF assms(6)] by linarith+
  qed
  obtain ok L' where V: "Viterbi junk tc fuel segment_keys L = Ret (ok, L')"
    "ok \<longleftrightarrow> (\<exists>ns c. conversion_path tc ?rb L ns c)"
    "ok \<longrightarrow> (\<exists>ns. conversion_path tc ?rb L ns (n_cost (node L' (eos_node L)))) \<and>
       (\<forall>ns c. conversion_path tc ?rb L ns c \<longrightarrow> n_cost (node L' (eos_node L)) \<le> c)"
    "\<forall>p < lat_size L. \<forall>r \<in> set (begin_lists L ! p). found tc ?rb L L' r"
    using Viterbi_search [OF assms(1-5)] by blast
  note V' = V [unfolded full(1) found_def eq]
  show ?thesis
  proof (intro exI [of _ ok] exI [of _ L'] conjI)
    show "ok \<longrightarrow> \<bar>n_cost (node L' (eos_node L))\<bar> < kVeryBigCost \<and>
      (\<exists>ns. full_cover tc ?rb L ns (n_cost (node L' (eos_node L)))) \<and>
      (\<forall>ns c. full_cover tc ?rb L ns c \<longrightarrow> n_cost (node L' (eos_node L)) \<le> c)"
      using V'(3) full(2) by blast
  qed (use V' small in \<open>blast+\<close>)
qed

theorem costs_never_cut_witness:
  "\<exists>L'. Viterbi (\<lambda>_. 7) (\<lambda>_ _. 1) 6 [[0x61, 0x62]] demo_lattice = Ret (True, L') \<and>
     \<bar>n_cost (node L' 1)\<bar> < kVeryBigCost"
proof -
  let ?tc = "\<lambda>_ _. 1 :: int" and ?rb = "segment_end 0 [[0x61, 0x62]]"
  have e: "eos_node demo_lattice = 1" "bos_node demo_lattice = 0" "lat_size demo_lattice = 2"
    by (simp_all add: demo_lattice_eq eos_node_def bos_node_def lat_size_def)
  have B: "costs_within ?tc 5 demo_lattice"
    by (auto simp: costs_within_def demo_lattice_eq lat_size_def bos_node_def node_def upto2 InitBOSNode_def InitEOSNode_def
        Node_Init_def demo_node_def dest!: upto2(1,3) [THEN iffD1])
  have "cover ?tc ?rb demo_lattice [4] (n_cost (node demo_lattice 0) + 1 + n_wcost (node demo_lattice 4))"
    using cover_first [of 4 demo_lattice ?rb ?tc] by (simp add: demo_lattice_eq node_def e bos_node_def)
  then have "\<exists>c. full_cover ?tc ?rb demo_lattice [4] c"
    unfolding full_cover_def e(3) by (fastforce simp: demo_lattice_eq)
  then have c: "\<exists>ns c. full_cover ?tc ?rb demo_lattice ns c" by blast
  have "2 * 5 * (int (lat_size demo_lattice) + 1) < kVeryBigCost" by (simp add: e(3) kVeryBigCost_def)
  from costs_never_cut [OF wf_demo _ _ _ _ B this, of "[[0x61, 0x62]]" 6 "\<lambda>_. 7"]
  obtain ok L' where V: "Viterbi (\<lambda>_. 7) ?tc 6 [[0x61, 0x62]] demo_lattice = Ret (ok, L')"
    "ok \<longleftrightarrow> (\<exists>ns c. full_cover ?tc ?rb demo_lattice ns c)"
    "ok \<longrightarrow> \<bar>n_cost (node L' (eos_node demo_lattice))\<bar> < kVeryBigCost"
    using e(3) by (force simp: demo_lattice_eq)
  then show ?thesis using c unfolding e(1) by auto
qed

subsection \<open>The search for predictions\<close>

text \<open>
  The nodes that end at a position are grouped by their right id, those that begin there by their
  left id: sorted lists of a key with a cost and a node, the cost \<open>INT_MAX\<close> standing for none.
  \<^verbatim>\<open>std::lower_bound\<close> is the first entry whose key is not less.
\<close>

type_synonym BestMap = "(nat \<times> int \<times> nat option) list"

definition INT_MAX :: int where "INT_MAX = 2147483647"

definition LowerBound :: "BestMap \<Rightarrow> nat \<Rightarrow> nat" where
  "LowerBound m key = length (takeWhile (\<lambda>(k, v). k < key) m)"

definition bm_absent :: "BestMap \<Rightarrow> nat \<Rightarrow> bool" where
  "bm_absent m key \<longleftrightarrow> (let i = LowerBound m key in i = length m \<or> fst (m ! i) \<noteq> key)"

definition bm_insert :: "nat \<Rightarrow> int \<times> nat option \<Rightarrow> BestMap \<Rightarrow> BestMap" where
  "bm_insert key v m = take (LowerBound m key) m @ (key, v) # drop (LowerBound m key) m"

definition add_left :: "Lattice \<Rightarrow> nat \<Rightarrow> BestMap \<Rightarrow> BestMap" where
  "add_left L l m =
     (let rid = n_rid (node L l); i = LowerBound m rid in
      if bm_absent m rid then bm_insert rid (n_cost (node L l), Some l) m
      else if n_cost (node L l) < fst (snd (m ! i)) then m[i := (rid, n_cost (node L l), Some l)]
      else m)"

definition add_right :: "Lattice \<Rightarrow> nat \<Rightarrow> nat \<Rightarrow> BestMap \<Rightarrow> BestMap" where
  "add_right L calc_end_pos r m =
     (if n_end_pos (node L r) > calc_end_pos then m
      else if bm_absent m (n_lid (node L r)) then bm_insert (n_lid (node L r)) (INT_MAX, None) m
      else m)"

definition improve :: "(nat \<Rightarrow> nat \<Rightarrow> int) \<Rightarrow> nat \<times> int \<times> nat option \<Rightarrow> nat \<times> int \<times> nat option \<Rightarrow> nat \<times> int \<times> nat option" where
  "improve tc liter riter =
     (let cost = fst (snd liter) + tc (fst liter) (fst riter) in
      if cost < fst (snd riter) then (fst riter, cost, snd (snd liter)) else riter)"

definition assign_best :: "nat \<Rightarrow> BestMap \<Rightarrow> nat \<Rightarrow> Lattice \<Rightarrow> Lattice" where
  "assign_best calc_end_pos rbest r L =
     (let rnode = node L r; i = LowerBound rbest (n_lid rnode) in
      if n_end_pos rnode > calc_end_pos then L
      else if bm_absent rbest (n_lid rnode) \<or> snd (snd (rbest ! i)) = None then L
      else set_node r (rnode\<lparr>n_cost := fst (snd (rbest ! i)) + n_wcost rnode, n_prev := snd (snd (rbest ! i))\<rparr>) L)"

definition prediction_position :: "(nat \<Rightarrow> nat \<Rightarrow> int) \<Rightarrow> nat \<Rightarrow> nat \<Rightarrow> Lattice \<Rightarrow> Lattice" where
  "prediction_position tc calc_end_pos pos L =
     (let lbest = fold (add_left L) (end_lists L ! pos) [];
          rbest = fold (add_right L calc_end_pos) (begin_lists L ! pos) []
      in if lbest = [] then L
         else if rbest = [] then L
         else (let rbest' = fold (\<lambda>liter. map (improve tc liter)) lbest rbest
               in fold (assign_best calc_end_pos rbest') (begin_lists L ! pos) L))"



subsection \<open>Grouping finds the same minimum\<close>

definition sorted_map :: "BestMap \<Rightarrow> bool" where
  "sorted_map m \<longleftrightarrow> sorted_wrt (<) (map fst m)"

lemma LowerBound_split:
  assumes "sorted_map m"
  shows "\<forall>x \<in> set (take (LowerBound m k) m). fst x < k" "\<forall>x \<in> set (drop (LowerBound m k) m). k \<le> fst x"
proof -
  have t: "take (LowerBound m k) m = takeWhile (\<lambda>(j, v). j < k) m"
    "drop (LowerBound m k) m = dropWhile (\<lambda>(j, v). j < k) m"
    by (simp_all add: LowerBound_def takeWhile_eq_take [symmetric] dropWhile_eq_drop [symmetric])
  show "\<forall>x \<in> set (take (LowerBound m k) m). fst x < k"
    unfolding t by (auto dest: set_takeWhileD)
  show "\<forall>x \<in> set (drop (LowerBound m k) m). k \<le> fst x"
  proof (cases "dropWhile (\<lambda>(j, v). j < k) m")
    case Nil
    show ?thesis unfolding t Nil by simp
  next
    case (Cons y ys)
    then have y: "k \<le> fst y" using hd_dropWhile [of "\<lambda>(j, v). j < k" m] by (auto split: prod.splits)
    have "sorted_map (y # ys)"
      using assms Cons by (metis sorted_map_def dropWhile_eq_drop drop_map sorted_wrt_drop)
    then show ?thesis unfolding t Cons using y by (auto simp: sorted_map_def)
  qed
qed

lemma LowerBound_le: "LowerBound m k \<le> length m"
  by (simp add: LowerBound_def length_takeWhile_le)

lemma bm_present:
  assumes "sorted_map m" "\<not> bm_absent m k"
  shows "LowerBound m k < length m" "fst (m ! LowerBound m k) = k"
  using assms(2) LowerBound_le [of m k] by (auto simp: bm_absent_def Let_def)

lemma map_of_at:
  assumes "sorted_map m" "i < length m"
  shows "map_of m (fst (m ! i)) = Some (snd (m ! i))"
proof -
  have "distinct (map fst m)" using assms(1) strict_sorted_iff by (auto simp: sorted_map_def)
  then show ?thesis using assms(2) by (metis map_of_eq_Some_iff nth_mem prod.collapse)
qed

lemma bm_absent_iff:
  assumes "sorted_map m"
  shows "bm_absent m k \<longleftrightarrow> map_of m k = None"
proof
  assume a: "bm_absent m k"
  show "map_of m k = None"
  proof (rule ccontr)
    assume "map_of m k \<noteq> None"
    then obtain v where kv: "(k, v) \<in> set m" by (auto dest: map_of_SomeD)
    let ?i = "LowerBound m k"
    have "(k, v) \<in> set (drop ?i m)"
      using kv LowerBound_split(1) [OF assms, of k] by (metis append_take_drop_id Un_iff fst_conv less_irrefl set_append)
    then obtain x xs where d: "drop ?i m = x # xs" "x = (k, v) \<or> (k, v) \<in> set xs"
      by (cases "drop ?i m") auto
    have i: "?i < length m" "m ! ?i = x" using d(1)
      by (metis drop_all leI list.discI, metis Cons_nth_drop_Suc drop_all leI list.discI list.inject)
    then have "fst x \<noteq> k" using a by (simp add: bm_absent_def Let_def)
    moreover have "sorted_map (x # xs)" using assms d(1) by (metis sorted_map_def drop_map sorted_wrt_drop)
    ultimately have "fst x < k" using d(2) by (auto simp: sorted_map_def)
    moreover have "k \<le> fst x" using LowerBound_split(2) [OF assms, of k] d(1) by simp
    ultimately show False by simp
  qed
next
  assume n: "map_of m k = None"
  show "bm_absent m k"
  proof (rule ccontr)
    assume "\<not> bm_absent m k"
    from bm_present [OF assms this] map_of_at [OF assms] n show False by (metis option.distinct(1))
  qed
qed

lemma bm_insert_correct:
  assumes "sorted_map m" "bm_absent m k"
  shows "sorted_map (bm_insert k v m)" "map_of (bm_insert k v m) = (map_of m)(k \<mapsto> v)"
proof -
  let ?a = "take (LowerBound m k) m" and ?b = "drop (LowerBound m k) m"
  have none: "map_of m k = None" using assms bm_absent_iff by blast
  have "fst x \<noteq> k" if "x \<in> set ?b" for x
    using none in_set_dropD [OF that] by (force simp: map_of_eq_None_iff)
  then have b: "\<forall>x \<in> set ?b. k < fst x" using LowerBound_split(2) [OF assms(1), of k] by fastforce
  have "sorted_wrt (<) (map fst (?a @ ?b))" using assms(1) by (simp add: sorted_map_def)
  then have "sorted_wrt (<) (map fst ?a @ map fst ?b)" by (simp only: map_append)
  then show "sorted_map (bm_insert k v m)"
    using b LowerBound_split(1) [OF assms(1), of k]
    by (auto simp: sorted_map_def bm_insert_def sorted_wrt_append simp del: append_take_drop_id)
  have "map_of m = map_of (?a @ ?b)" by simp
  moreover have "map_of ?a k = None" using LowerBound_split(1) [OF assms(1), of k] by (force simp: map_of_eq_None_iff)
  ultimately show "map_of (bm_insert k v m) = (map_of m)(k \<mapsto> v)"
    by (auto simp: bm_insert_def map_add_def fun_eq_iff map_of_append simp del: append_take_drop_id split: option.split)
qed

lemma bm_update_correct:
  assumes "sorted_map m" "\<not> bm_absent m k"
  shows "sorted_map (m[LowerBound m k := (k, v)])" "map_of (m[LowerBound m k := (k, v)]) = (map_of m)(k \<mapsto> v)"
proof -
  note p = bm_present [OF assms]
  let ?i = "LowerBound m k"
  have keys: "map fst (m[?i := (k, v)]) = map fst m"
    using p by (simp add: map_update) (metis list_update_id nth_map)
  then show s: "sorted_map (m[?i := (k, v)])" using assms(1) by (simp add: sorted_map_def)
  have d: "distinct (map fst m)" using assms(1) strict_sorted_iff by (auto simp: sorted_map_def)
  show "map_of (m[?i := (k, v)]) = (map_of m)(k \<mapsto> v)"
  proof
    fix j
    show "map_of (m[?i := (k, v)]) j = ((map_of m)(k \<mapsto> v)) j"
    proof (cases "j = k")
      case True
      then show ?thesis using map_of_at [OF s, of ?i] p by simp
    next
      case False
      have "(j, w) \<in> set (m[?i := (k, v)]) \<longleftrightarrow> (j, w) \<in> set m" for w
        using False p by (auto simp: in_set_conv_nth nth_list_update) (metis fst_conv)
      then have "map_of (m[?i := (k, v)]) j = Some w \<longleftrightarrow> map_of m j = Some w" for w
        using map_of_eq_Some_iff [OF d] map_of_eq_Some_iff [of "m[?i := (k, v)]"] d keys by simp
      then show ?thesis using False by (metis fun_upd_other not_None_eq)
    qed
  qed
qed

lemma add_left_spec:
  assumes "sorted_map m"
  shows "sorted_map (add_left L l m)"
    "map_of (add_left L l m) = (case map_of m (n_rid (node L l)) of
        None \<Rightarrow> (map_of m)(n_rid (node L l) \<mapsto> (n_cost (node L l), Some l))
      | Some v \<Rightarrow> if n_cost (node L l) < fst v then (map_of m)(n_rid (node L l) \<mapsto> (n_cost (node L l), Some l))
                       else map_of m)"
proof -
  let ?k = "n_rid (node L l)"
  have at: "\<not> bm_absent m ?k \<Longrightarrow> map_of m ?k = Some (snd (m ! LowerBound m ?k))"
    using bm_present [OF assms] map_of_at [OF assms] by metis
  show "sorted_map (add_left L l m)"
    using assms bm_insert_correct(1) [OF assms] bm_update_correct(1) [OF assms] by (simp add: add_left_def Let_def)
  show "map_of (add_left L l m) = (case map_of m ?k of
        None \<Rightarrow> (map_of m)(?k \<mapsto> (n_cost (node L l), Some l))
      | Some v \<Rightarrow> if n_cost (node L l) < fst v then (map_of m)(?k \<mapsto> (n_cost (node L l), Some l)) else map_of m)"
  proof (cases "bm_absent m ?k")
    case True
    then show ?thesis using bm_absent_iff [OF assms, of ?k] bm_insert_correct(2) [OF assms True]
      by (simp add: add_left_def Let_def)
  next
    case False
    then show ?thesis using at bm_update_correct(2) [OF assms False] by (simp add: add_left_def Let_def)
  qed
qed

definition left_groups :: "Lattice \<Rightarrow> nat list \<Rightarrow> BestMap \<Rightarrow> bool" where
  "left_groups L ls m \<longleftrightarrow> sorted_map m \<and>
     (\<forall>l \<in> set ls. map_of m (n_rid (node L l)) \<noteq> None) \<and>
     (\<forall>k c x. map_of m k = Some (c, x) \<longrightarrow>
        (\<exists>l \<in> set ls. x = Some l \<and> n_rid (node L l) = k \<and> c = n_cost (node L l)) \<and>
        (\<forall>l \<in> set ls. n_rid (node L l) = k \<longrightarrow> c \<le> n_cost (node L l)))"

lemma left_groups_fold: "left_groups L ls (fold (add_left L) ls [])"
proof (induction ls rule: rev_induct)
  case Nil
  then show ?case by (simp add: left_groups_def sorted_map_def)
next
  case (snoc l ls)
  let ?m = "fold (add_left L) ls []"
  have s: "sorted_map ?m" using snoc by (simp add: left_groups_def)
  show ?case using snoc add_left_spec [OF s, of L l]
    unfolding left_groups_def fold_append fold_simps comp_apply
    by (auto split: option.splits if_splits prod.splits) force+
qed

definition right_groups :: "Lattice \<Rightarrow> nat \<Rightarrow> nat list \<Rightarrow> BestMap \<Rightarrow> bool" where
  "right_groups L e rs m \<longleftrightarrow> sorted_map m \<and>
     (\<forall>k. map_of m k = (if \<exists>r \<in> set rs. n_end_pos (node L r) \<le> e \<and> n_lid (node L r) = k
                        then Some (INT_MAX, None) else None))"

lemma right_groups_fold: "right_groups L e rs (fold (add_right L e) rs [])"
proof (induction rs rule: rev_induct)
  case Nil
  then show ?case by (simp add: right_groups_def sorted_map_def)
next
  case (snoc r rs)
  let ?m = "fold (add_right L e) rs []" and ?k = "n_lid (node L r)"
  have s: "sorted_map ?m" using snoc by (simp add: right_groups_def)
  show ?case
  proof (cases "n_end_pos (node L r) \<le> e \<and> bm_absent ?m ?k")
    case True
    then have "add_right L e r ?m = bm_insert ?k (INT_MAX, None) ?m" by (simp add: add_right_def)
    then show ?thesis using snoc bm_insert_correct [OF s, of ?k "(INT_MAX, None)"] True
      unfolding right_groups_def fold_append fold_simps comp_apply by auto
  next
    case False
    then have "add_right L e r ?m = ?m" by (auto simp: add_right_def)
    moreover have "n_end_pos (node L r) \<le> e \<Longrightarrow> map_of ?m ?k \<noteq> None"
      using False bm_absent_iff [OF s] by blast
    ultimately show ?thesis using snoc unfolding right_groups_def fold_append fold_simps comp_apply
      by (auto split: if_splits)
  qed
qed

lemma improve_key [simp]: "fst (improve tc a b) = fst b"
  by (simp add: improve_def Let_def)

lemma map_improve:
  assumes "sorted_map m"
  shows "sorted_map (map (improve tc a) m)"
    "map_of (map (improve tc a) m) k = map_option (\<lambda>v. snd (improve tc a (k, v))) (map_of m k)"
proof -
  have "map fst (map (improve tc a) m) = map fst m" by simp
  then show "sorted_map (map (improve tc a) m)" using assms by (simp only: sorted_map_def)
  show "map_of (map (improve tc a) m) k = map_option (\<lambda>v. snd (improve tc a (k, v))) (map_of m k)"
    by (induction m) (auto simp: improve_def Let_def)
qed

lemma fold_improve:
  assumes "sorted_map m"
  shows "sorted_map (fold (\<lambda>a. map (improve tc a)) as m) \<and>
    map_of (fold (\<lambda>a. map (improve tc a)) as m) k =
      map_option (\<lambda>v. fold (\<lambda>a v. snd (improve tc a (k, v))) as v) (map_of m k)"
  using assms
proof (induction as arbitrary: m)
  case Nil
  then show ?case by (simp add: option.map_ident)
next
  case (Cons a as)
  then show ?case using map_improve [OF Cons.prems, of tc a] by (simp add: option.map_comp comp_def)
qed

lemma fold_minimum:
  assumes "fold (\<lambda>a v. snd (improve tc a (k, v))) as v0 = v"
  shows "fst v \<le> fst v0 \<and> (\<forall>a \<in> set as. fst v \<le> fst (snd a) + tc (fst a) k) \<and>
    (v = v0 \<or> (\<exists>a \<in> set as. v = (fst (snd a) + tc (fst a) k, snd (snd a)) \<and> fst v < fst v0))"
  using assms
proof (induction as arbitrary: v0)
  case (Cons a as)
  let ?v1 = "snd (improve tc a (k, v0))"
  have v1: "?v1 = (if fst (snd a) + tc (fst a) k < fst v0 then (fst (snd a) + tc (fst a) k, snd (snd a)) else v0)"
    by (simp add: improve_def Let_def)
  have "fold (\<lambda>a v. snd (improve tc a (k, v))) as ?v1 = v" using Cons.prems by simp
  from Cons.IH [OF this] show ?case using v1 by (auto split: if_splits)
qed simp

lemma assign_fold:
  assumes "distinct rs" "r \<in> set rs" "\<forall>x \<in> set rs. x < length (arena L)" "n_end_pos (node L r) \<le> e"
    "sorted_map m" "map_of m (n_lid (node L r)) = Some (c, Some l)"
  shows "n_prev (node (fold (assign_best e m) rs L) r) = Some l \<and>
    n_cost (node (fold (assign_best e m) rs L) r) = c + n_wcost (node L r)"
  using assms
proof (induction rs arbitrary: L)
  case (Cons x rs)
  let ?L1 = "assign_best e m x L"
  have other: "node ?L1 i = node L i" if "i \<noteq> x" for i
    using that by (simp add: assign_best_def Let_def node_set_node)
  have len: "length (arena ?L1) = length (arena L)" by (simp add: assign_best_def Let_def)
  show ?case
  proof (cases "x = r")
    case False
    then have "r \<in> set rs" "node ?L1 r = node L r" using Cons.prems(2) other by auto
    then show ?thesis using Cons.IH [of ?L1] Cons.prems len by simp
  next
    case True
    have same: "node (fold (assign_best e m) rs K) i = node K i" if "i \<notin> set rs" for K i
      using that
    proof (induction rs arbitrary: K)
      case (Cons y ys)
      then show ?case by (simp add: assign_best_def Let_def node_set_node)
    qed simp
    let ?k = "n_lid (node L r)"
    have p: "\<not> bm_absent m ?k" using Cons.prems(5,6) bm_absent_iff by fastforce
    have "snd (m ! LowerBound m ?k) = (c, Some l)"
      using bm_present [OF Cons.prems(5) p] map_of_at [OF Cons.prems(5)] Cons.prems(6) by fastforce
    then have "?L1 = set_node r ((node L r)\<lparr>n_cost := c + n_wcost (node L r), n_prev := Some l\<rparr>) L"
      using True p Cons.prems(4) by (simp add: assign_best_def Let_def)
    then show ?thesis using same [of r ?L1] True Cons.prems(1,3) by (simp add: node_set_node)
  qed
qed simp

text \<open>
  The faster search for predictions, which groups the nodes by part of speech before it looks at
  the transition costs, gives each node that begins at a position the same cost as the comparison of
  all pairs: the least sum over the nodes that end there, and a node that attains it as its
  predecessor.
\<close>

theorem prediction_position_correct:
  assumes "distinct (begin_lists L ! pos)" and "\<forall>x \<in> set (begin_lists L ! pos). x < length (arena L)"
    and "r \<in> set (begin_lists L ! pos)" and "n_end_pos (node L r) \<le> calc_end_pos"
    and "end_lists L ! pos \<noteq> []"
    and "\<forall>l \<in> set (end_lists L ! pos). n_cost (node L l) + tc (n_rid (node L l)) (n_lid (node L r)) < INT_MAX"
  shows "\<exists>l \<in> set (end_lists L ! pos).
    n_prev (node (prediction_position tc calc_end_pos pos L) r) = Some l \<and>
    n_cost (node (prediction_position tc calc_end_pos pos L) r) =
      n_cost (node L l) + tc (n_rid (node L l)) (n_lid (node L r)) + n_wcost (node L r) \<and>
    (\<forall>l' \<in> set (end_lists L ! pos). n_cost (node L l) + tc (n_rid (node L l)) (n_lid (node L r)) \<le>
      n_cost (node L l') + tc (n_rid (node L l')) (n_lid (node L r)))"
proof -
  let ?ls = "end_lists L ! pos" and ?rs = "begin_lists L ! pos" and ?k = "n_lid (node L r)"
  define lb where "lb = fold (add_left L) ?ls []"
  define rm where "rm = fold (add_right L calc_end_pos) ?rs []"
  have lg: "left_groups L ?ls lb" unfolding lb_def by (rule left_groups_fold)
  have rg: "right_groups L calc_end_pos ?rs rm" unfolding rm_def by (rule right_groups_fold)
  have sl: "sorted_map lb" and sr: "sorted_map rm" using lg rg by (simp_all add: left_groups_def right_groups_def)
  have rk: "map_of rm ?k = Some (INT_MAX, None)" using rg assms(3,4) by (auto simp: right_groups_def)
  then have rn: "rm \<noteq> []" by auto
  obtain l0 where "l0 \<in> set ?ls" using assms(5) by (cases ?ls) auto
  then have ln: "lb \<noteq> []" using lg by (auto simp: left_groups_def)
  let ?f = "fold (\<lambda>a v. snd (improve tc a (?k, v))) lb"
  define v where "v = ?f (INT_MAX, None)"
  define rb where "rb = fold (\<lambda>a. map (improve tc a)) lb rm"
  have rb: "sorted_map rb" "map_of rb ?k = Some v"
    using fold_improve [OF sr, of tc lb ?k] rk by (simp_all add: rb_def v_def)
  note F = fold_minimum [OF v_def [symmetric]]
  have d: "distinct (map fst lb)" using sl strict_sorted_iff by (auto simp: sorted_map_def)
  have entry: "\<exists>l \<in> set ?ls. snd (snd a) = Some l \<and> fst a = n_rid (node L l) \<and> fst (snd a) = n_cost (node L l)"
    if "a \<in> set lb" for a
    using lg map_of_eq_Some_iff [OF d, of "fst a" "snd a"] that
    unfolding left_groups_def by (metis prod.collapse)
  have lower: "fst v \<le> n_cost (node L l') + tc (n_rid (node L l')) ?k" if l': "l' \<in> set ?ls" for l'
  proof -
    obtain c x where m: "map_of lb (n_rid (node L l')) = Some (c, x)" "c \<le> n_cost (node L l')"
      using lg l' unfolding left_groups_def by (metis not_None_eq prod.collapse)
    then have "(n_rid (node L l'), c, x) \<in> set lb" by (blast dest: map_of_SomeD)
    then show ?thesis using F m(2) by fastforce
  qed
  have "fst v < INT_MAX" using lower [OF \<open>l0 \<in> set ?ls\<close>] assms(6) \<open>l0 \<in> set ?ls\<close> by force
  then obtain a where a: "a \<in> set lb" "v = (fst (snd a) + tc (fst a) ?k, snd (snd a))" using F by auto
  obtain l where l: "l \<in> set ?ls" "snd (snd a) = Some l" "fst a = n_rid (node L l)" "fst (snd a) = n_cost (node L l)"
    using entry [OF a(1)] by blast
  have P: "prediction_position tc calc_end_pos pos L = fold (assign_best calc_end_pos rb) ?rs L"
    unfolding prediction_position_def Let_def lb_def [symmetric] rm_def [symmetric] rb_def [symmetric]
    using ln rn by simp
  have "map_of rb ?k = Some (n_cost (node L l) + tc (n_rid (node L l)) ?k, Some l)" using rb(2) a(2) l by simp
  from assign_fold [OF assms(1,3,2,4) rb(1) this] show ?thesis
    unfolding P using l lower a(2) by (intro bexI [of _ l]) auto
qed

theorem prediction_position_correct_witness:
  "\<exists>l \<in> {0}. n_prev (node (prediction_position (\<lambda>_ _. 1) 2 0 demo_lattice) 4) = Some l"
  using prediction_position_correct [of demo_lattice 0 4 2 "\<lambda>_ _. 1"]
  by (auto simp: demo_lattice_eq node_def INT_MAX_def InitBOSNode_def Node_Init_def demo_node_def)

text \<open>A lattice with other constraints.\<close>

definition constrain :: "(nat \<Rightarrow> nat option) \<Rightarrow> Lattice \<Rightarrow> Lattice" where
  "constrain f L = L\<lparr>arena := map (\<lambda>i. (arena L ! i)\<lparr>n_constrained_prev := f i\<rparr>) [0..<length (arena L)]\<rparr>"

lemma constrain_simps [simp]:
  "lat_key (constrain f L) = lat_key L" "begin_lists (constrain f L) = begin_lists L" "end_lists (constrain f L) = end_lists L"
  "bos_node (constrain f L) = bos_node L" "eos_node (constrain f L) = eos_node L"
  by (simp_all add: constrain_def bos_node_def eos_node_def)

lemma nth_beyond: "length xs = length ys \<Longrightarrow> length xs \<le> i \<Longrightarrow> xs ! i = ys ! i"
proof (induction xs ys arbitrary: i rule: list_induct2)
  case (Cons x xs y ys)
  then show ?case by (cases i) simp_all
qed simp

lemma node_constrain:
  "node (constrain f L) i = (if i < length (arena L) then (node L i)\<lparr>n_constrained_prev := f i\<rparr> else node L i)"
  using nth_beyond [of "arena (constrain f L)" "arena L" i] by (simp add: constrain_def node_def)

lemma constrain_fields [simp]:
  "n_rid (node (constrain f L) i) = n_rid (node L i)" "n_lid (node (constrain f L) i) = n_lid (node L i)"
  "n_end_pos (node (constrain f L) i) = n_end_pos (node L i)" "n_wcost (node (constrain f L) i) = n_wcost (node L i)"
  "n_cost (node (constrain f L) i) = n_cost (node L i)" "n_prev (node (constrain f L) i) = n_prev (node L i)"
  by (simp_all add: node_constrain)

lemma arena_constrain [simp]: "length (arena (constrain f L)) = length (arena L)"
  by (simp add: constrain_def)








end
