(* ===== verification/BitVector.thy ===== *)
theory BitVector
  imports Prelude "HOL-Library.Word"
begin

unbundle bit_operations_syntax

section \<open>Bit vectors with rank and select\<close>

text \<open>
  \<^verbatim>\<open>storage/louds/simple_succinct_bit_vector_index.cc\<close>, \<^verbatim>\<open>base/container/bitarray.h\<close> and
  \<^verbatim>\<open>storage/louds/louds.cc\<close>. The data is a list of bytes; a 32-bit word is loaded in the byte order of
  the machine, which is little-endian on every platform the program supports. Pointers into the
  index are positions in it.
\<close>

type_synonym u8 = "8 word"
type_synonym u32 = "32 word"

subsection \<open>Bits of a byte string\<close>

definition bv :: "u8 list \<Rightarrow> nat \<Rightarrow> bool" where
  "bv data i = bit (data ! (i div 8)) (i mod 8)"

definition LoadUnaligned32 :: "u8 list \<Rightarrow> nat \<Rightarrow> u32" where
  "LoadUnaligned32 data offset =
     ucast (data ! offset) OR push_bit 8 (ucast (data ! (offset + 1))) OR
     push_bit 16 (ucast (data ! (offset + 2))) OR push_bit 24 (ucast (data ! (offset + 3)))"

definition popcount :: "u32 \<Rightarrow> nat" where
  "popcount w = length (filter (bit w) [0..<32])"

definition BitCount0 :: "u32 \<Rightarrow> nat" where
  "BitCount0 x = popcount (NOT x)"

lemma bit_LoadUnaligned32:
  assumes "k < 32"
  shows "bit (LoadUnaligned32 data offset) k = bit (data ! (offset + k div 8)) (k mod 8)"
proof -
  consider "k < 8" | "8 \<le> k" "k < 16" | "16 \<le> k" "k < 24" | "24 \<le> k" using assms by linarith
  then show ?thesis
  proof cases
    case 1
    then show ?thesis by (simp add: LoadUnaligned32_def bit_simps)
  next
    case 2
    then have "k div 8 = 1" "k mod 8 = k - 8" by (simp_all add: div_nat_eqI mod_nat_eqI)
    then show ?thesis using 2 assms by (auto simp: LoadUnaligned32_def bit_simps dest: bit_imp_le_length)
  next
    case 3
    then have "k div 8 = 2" "k mod 8 = k - 16" by (simp_all add: div_nat_eqI mod_nat_eqI)
    then show ?thesis using 3 assms by (auto simp: LoadUnaligned32_def bit_simps dest: bit_imp_le_length)
  next
    case 4
    then have "k div 8 = 3" "k mod 8 = k - 24" using assms by (simp_all add: div_nat_eqI mod_nat_eqI)
    then show ?thesis using 4 assms by (auto simp: LoadUnaligned32_def bit_simps dest: bit_imp_le_length)
  qed
qed

lemma bit_word_bv:
  assumes "k < 32" "4 dvd offset"
  shows "bit (LoadUnaligned32 data offset) k = bv data (8 * offset + k)"
  using assms by (simp add: bit_LoadUnaligned32 bv_def)

subsection \<open>The number of bits in a range\<close>

definition ones :: "u8 list \<Rightarrow> nat \<Rightarrow> nat \<Rightarrow> nat" where
  "ones data a b = length (filter (bv data) [a..<b])"

lemma ones_same [simp]: "ones data a a = 0"
  by (simp add: ones_def)

lemma ones_join: "a \<le> b \<Longrightarrow> b \<le> c \<Longrightarrow> ones data a b + ones data b c = ones data a c"
  using upt_add_eq_append [of a b "c - b"] by (simp add: ones_def)

lemma ones_Suc: "a \<le> b \<Longrightarrow> ones data a (Suc b) = ones data a b + (if bv data b then 1 else 0)"
  by (simp add: ones_def)

lemma ones_le: "ones data a b \<le> b - a"
  unfolding ones_def using length_filter_le [of "bv data" "[a..<b]"] by simp

lemma ones_mono: "b \<le> c \<Longrightarrow> ones data a b \<le> ones data a c"
  by (cases "a \<le> b") (use ones_join [of a b c data] in \<open>simp_all add: ones_def\<close>)

lemma filter_shift: "length (filter P [a..<a + n]) = length (filter (\<lambda>k. P (a + k)) [0..<n])"
proof -
  have "[a..<a + n] = map (\<lambda>k. a + k) [0..<n]"
    by (rule nth_equalityI) simp_all
  then show ?thesis by (simp only: filter_map length_map comp_def)
qed

lemma upt_less: "k \<in> set [a..<b] \<Longrightarrow> k < b"
  by (simp only: set_upt atLeastLessThan_iff)

lemma filter_upt_cong: "(\<And>k. k < b \<Longrightarrow> P k = Q k) \<Longrightarrow> filter P [a..<b] = filter Q [a..<b]"
  by (intro filter_cong refl) (blast dest: upt_less)

lemma popcount_ones:
  assumes "4 dvd offset"
  shows "popcount (LoadUnaligned32 data offset) = ones data (8 * offset) (8 * offset + 32)"
proof -
  have "filter (bit (LoadUnaligned32 data offset)) [0..<32] = filter (\<lambda>k. bv data (8 * offset + k)) [0..<32]"
    by (intro filter_upt_cong bit_word_bv assms)
  then show ?thesis by (simp only: popcount_def ones_def filter_shift [of "bv data" "8 * offset" 32])
qed

lemma popcount_le: "popcount w \<le> 32"
  unfolding popcount_def using length_filter_le [of "bit w" "[0..<32]"] by (simp only: length_upt)

lemma BitCount0_eq: "BitCount0 w = 32 - popcount w"
proof -
  have "filter (bit (NOT w)) [0..<32] = filter (\<lambda>k. \<not> bit w k) [0..<32]"
    by (intro filter_upt_cong) (simp add: bit_not_iff)
  then show ?thesis
    using sum_length_filter_compl [of "bit w" "[0..<32]"] unfolding BitCount0_def popcount_def by (simp only: length_upt)
qed

lemma popcount_shift:
  assumes "4 dvd offset" "0 < m" "m < 32"
  shows "popcount (push_bit (32 - m) (LoadUnaligned32 data offset)) = ones data (8 * offset) (8 * offset + m)"
proof -
  let ?w = "LoadUnaligned32 data offset"
  let ?P = "\<lambda>k. 32 - m \<le> k \<and> bit ?w (k - (32 - m))"
  have "popcount (push_bit (32 - m) ?w) = length (filter ?P [0..<32])"
    unfolding popcount_def by (intro arg_cong [where f = length] filter_upt_cong) (auto simp: bit_push_bit_iff)
  also have "[0..<32] = [0..<32 - m] @ [32 - m..<(32 - m) + m]"
    using assms upt_add_eq_append [of 0 "32 - m" m] by simp
  also have "length (filter ?P ([0..<32 - m] @ [32 - m..<(32 - m) + m])) = length (filter ?P [32 - m..<(32 - m) + m])"
    by (simp add: filter_empty_conv)
  also have "\<dots> = length (filter (bit ?w) [0..<m])"
    unfolding filter_shift [of ?P] by simp
  also have "filter (bit ?w) [0..<m] = filter (\<lambda>k. bv data (8 * offset + k)) [0..<m]"
    by (intro filter_upt_cong bit_word_bv assms) (use assms in simp)
  finally show ?thesis by (simp only: ones_def filter_shift [of "bv data" "8 * offset" m])
qed

subsection \<open>The index\<close>

record BitVectorIndex =
  sv_data :: "u8 list"
  sv_length :: nat
  sv_chunk_size :: nat
  sv_index :: "nat list"
  sv_lb0_cache :: "nat list"
  sv_lb0_increment :: nat
  sv_lb1_increment :: nat
  sv_lb1_cache :: "nat list"

fun Count1Bits :: "u8 list \<Rightarrow> nat \<Rightarrow> nat \<Rightarrow> nat" where
  "Count1Bits data offset 0 = 0"
| "Count1Bits data offset (Suc n) = popcount (LoadUnaligned32 data offset) + Count1Bits data (offset + 4) n"

text \<open>A chunk size below 4, which a \<^verbatim>\<open>DCHECK\<close> excludes, would not let the loop end; it stops here.\<close>

function index_loop :: "u8 list \<Rightarrow> nat \<Rightarrow> nat \<Rightarrow> nat \<Rightarrow> nat \<Rightarrow> nat list" where
  "index_loop data offset chunk_size words num_bits =
     (if words = 0 \<or> chunk_size < 4 then [num_bits]
      else num_bits #
        index_loop data (offset + chunk_size) chunk_size (words - chunk_size div 4)
          (num_bits + Count1Bits data offset (min (chunk_size div 4) words)))"
  by auto
termination
  by (relation "measure (\<lambda>(data, offset, chunk_size, words, num_bits). words)") auto

declare index_loop.simps [simp del]

text \<open>\<open>None\<close> is the failure of the \<^verbatim>\<open>CHECK\<close> of the size.\<close>

definition InitIndex :: "u8 list \<Rightarrow> nat \<Rightarrow> nat \<Rightarrow> nat list option" where
  "InitIndex data len chunk_size =
     (let chunk_length = (len + chunk_size - 1) div chunk_size;
          index = index_loop data 0 chunk_size (len div 4) 0
      in if chunk_length + 1 = length index then Some index else None)"

text \<open>\<^verbatim>\<open>std::lower_bound\<close> between two positions of the index, for the values that \<open>f\<close> reads there.\<close>

definition lower_bound :: "(nat \<Rightarrow> nat) \<Rightarrow> nat \<Rightarrow> nat \<Rightarrow> nat \<Rightarrow> nat" where
  "lower_bound f a b v = a + length (takeWhile (\<lambda>i. f i < v) [a..<b])"

definition zeros_before :: "nat list \<Rightarrow> nat \<Rightarrow> nat \<Rightarrow> nat" where
  "zeros_before index chunk_size i = chunk_size * 8 * i - index ! i"

definition InitLowerBoundCache :: "(nat \<Rightarrow> nat) \<Rightarrow> nat \<Rightarrow> nat \<Rightarrow> nat \<Rightarrow> nat list" where
  "InitLowerBoundCache f index_size increment size' =
     [0] @ map (\<lambda>i. lower_bound f 0 index_size (increment * i)) [1..<size' + 1] @ [index_size]"

definition Init :: "u8 list \<Rightarrow> nat \<Rightarrow> nat \<Rightarrow> nat \<Rightarrow> nat \<Rightarrow> BitVectorIndex option" where
  "Init data len chunk_size lb0_cache_size lb1_cache_size =
     (case InitIndex data len chunk_size of
        None \<Rightarrow> None
      | Some index \<Rightarrow>
          (let n1 = last index; n0 = 8 * len - last index;
               i0 = (if lb0_cache_size = 0 then n0 else n0 div lb0_cache_size);
               i0' = (if i0 = 0 then 1 else i0);
               i1 = (if lb1_cache_size = 0 then n1 else n1 div lb1_cache_size);
               i1' = (if i1 = 0 then 1 else i1)
           in Some \<lparr>sv_data = data, sv_length = len, sv_chunk_size = chunk_size, sv_index = index,
                    sv_lb0_cache = InitLowerBoundCache (zeros_before index chunk_size) (length index) i0' lb0_cache_size,
                    sv_lb0_increment = i0', sv_lb1_increment = i1',
                    sv_lb1_cache = InitLowerBoundCache (\<lambda>i. index ! i) (length index) i1' lb1_cache_size\<rparr>))"

definition sv_Reset :: "BitVectorIndex \<Rightarrow> BitVectorIndex" where
  "sv_Reset sv = sv\<lparr>sv_data := [], sv_length := 0, sv_index := [], sv_lb0_increment := 1, sv_lb0_cache := [],
     sv_lb1_increment := 1, sv_lb1_cache := []\<rparr>"

definition sv_Get :: "BitVectorIndex \<Rightarrow> nat \<Rightarrow> nat" where
  "sv_Get sv i = (if bit (drop_bit (i mod 8) (sv_data sv ! (i div 8))) 0 then 1 else 0)"

definition Rank1 :: "BitVectorIndex \<Rightarrow> nat \<Rightarrow> nat" where
  "Rank1 sv n =
     (let chunk_size = sv_chunk_size sv;
          num_chunks = n div (chunk_size * 8);
          result = sv_index sv ! (n div (chunk_size * 8)) +
                   Count1Bits (sv_data sv) (num_chunks * chunk_size) ((n div 8 - num_chunks * chunk_size) div 4)
      in if n mod 32 > 0
         then result + popcount (push_bit (32 - n mod 32) (LoadUnaligned32 (sv_data sv) (4 * (n div 32))))
         else result)"

definition Rank0 :: "BitVectorIndex \<Rightarrow> nat \<Rightarrow> nat" where
  "Rank0 sv n = n - Rank1 sv n"

definition GetNum1Bits :: "BitVectorIndex \<Rightarrow> nat" where
  "GetNum1Bits sv = last (sv_index sv)"

definition GetNum0Bits :: "BitVectorIndex \<Rightarrow> nat" where
  "GetNum0Bits sv = 8 * sv_length sv - last (sv_index sv)"

text \<open>
  The linear searches over words and over the bits of a word. They do not look at the end of the
  data; here they have fuel (the number of words, and 32 bits), and \<open>None\<close> is a read beyond it.
\<close>

fun select_word :: "(u32 \<Rightarrow> nat) \<Rightarrow> u8 list \<Rightarrow> nat \<Rightarrow> nat \<Rightarrow> nat \<Rightarrow> (nat \<times> nat) option" where
  "select_word count data 0 offset n = None"
| "select_word count data (Suc fuel) offset n =
     (let bit_count = count (LoadUnaligned32 data offset) in
      if bit_count \<ge> n then Some (offset, n) else select_word count data fuel (offset + 4) (n - bit_count))"

fun select_bit :: "nat \<Rightarrow> u32 \<Rightarrow> nat \<Rightarrow> nat \<Rightarrow> nat option" where
  "select_bit fuel word n index =
     (if n = 0 then Some (index - 1)
      else case fuel of
        0 \<Rightarrow> None
      | Suc f \<Rightarrow> select_bit f (drop_bit 1 word) (n - (if bit word 0 then 1 else 0)) (index + 1))"

declare select_bit.simps [simp del]

definition Select0 :: "BitVectorIndex \<Rightarrow> nat \<Rightarrow> nat option" where
  "Select0 sv n =
     (let ci = min (n div sv_lb0_increment sv) (length (sv_lb0_cache sv) - 2);
          chunk_index = lower_bound (zeros_before (sv_index sv) (sv_chunk_size sv))
                          (sv_lb0_cache sv ! ci) (sv_lb0_cache sv ! (ci + 1)) n - 1;
          n' = n - (sv_chunk_size sv * 8 * chunk_index - sv_index sv ! chunk_index);
          offset = 4 * (chunk_index * sv_chunk_size sv div 4)
      in case select_word BitCount0 (sv_data sv) (sv_length sv div 4 - offset div 4) offset n' of
           None \<Rightarrow> None
         | Some (ptr, m) \<Rightarrow> select_bit 32 (NOT (LoadUnaligned32 (sv_data sv) ptr)) m (ptr * 8))"

definition Select1 :: "BitVectorIndex \<Rightarrow> nat \<Rightarrow> nat option" where
  "Select1 sv n =
     (let ci = min (n div sv_lb1_increment sv) (length (sv_lb1_cache sv) - 2);
          chunk_index = lower_bound (\<lambda>i. sv_index sv ! i)
                          (sv_lb1_cache sv ! ci) (sv_lb1_cache sv ! (ci + 1)) n - 1;
          n' = n - sv_index sv ! chunk_index;
          offset = 4 * (chunk_index * sv_chunk_size sv div 4)
      in case select_word popcount (sv_data sv) (sv_length sv div 4 - offset div 4) offset n' of
           None \<Rightarrow> None
         | Some (ptr, m) \<Rightarrow> select_bit 32 (LoadUnaligned32 (sv_data sv) ptr) m (ptr * 8))"

subsection \<open>The index holds the rank at each chunk\<close>

lemma Count1Bits_ones:
  "4 dvd offset \<Longrightarrow> Count1Bits data offset n = ones data (8 * offset) (8 * offset + 32 * n)"
proof (induction n arbitrary: offset)
  case (Suc n)
  then have "Count1Bits data (offset + 4) n = ones data (8 * offset + 32) (8 * offset + 32 + 32 * n)"
    by (simp add: add.commute)
  then show ?case using Suc.prems ones_join [of "8 * offset" "8 * offset + 32" "8 * offset + 32 + 32 * n" data]
    by (simp add: popcount_ones add.commute add.left_commute)
qed simp

definition sizes_ok :: "nat \<Rightarrow> nat \<Rightarrow> bool" where
  "sizes_ok len chunk_size \<longleftrightarrow> 4 dvd len \<and> 4 dvd chunk_size \<and> 0 < chunk_size"

lemma index_loop_step:
  "0 < words \<Longrightarrow> 0 < c \<Longrightarrow>
    index_loop data offset (4 * c) words num_bits = num_bits #
      index_loop data (offset + 4 * c) (4 * c) (words - c) (num_bits + Count1Bits data offset (min c words))"
  by (subst index_loop.simps) simp

lemma index_loop_end: "index_loop data offset chunk_size 0 num_bits = [num_bits]"
  by (subst index_loop.simps) simp

lemma index_loop_length:
  assumes "0 < c"
  shows "length (index_loop data offset (4 * c) words nb) = (words + c - 1) div c + 1"
proof (induction words arbitrary: offset nb rule: less_induct)
  case (less words)
  show ?case
  proof (cases "words = 0")
    case True
    then show ?thesis using assms by (simp add: index_loop_end)
  next
    case False
    then have IH: "length (index_loop data (offset + 4 * c) (4 * c) (words - c) nb') = (words - c + c - 1) div c + 1" for nb'
      using less.IH [of "words - c"] assms by simp
    have "(words - c + c - 1) div c + 1 = (words + c - 1) div c"
    proof (cases "words \<le> c")
      case True
      have "(words + c - 1) div c = 1" using True False assms by (intro div_nat_eqI) auto
      then show ?thesis using True assms by simp
    next
      case f: False
      then have "words + c - 1 = (words - 1) + c" "words - c + c - 1 = words - 1" using assms by auto
      then show ?thesis using assms by (simp only: div_add_self2)
    qed
    then show ?thesis using False assms IH by (simp add: index_loop_step)
  qed
qed

lemma index_loop_nth:
  assumes "0 < c" and "4 dvd offset" and "j < length (index_loop data offset (4 * c) words nb)"
  shows "index_loop data offset (4 * c) words nb ! j =
    nb + ones data (8 * offset) (8 * offset + min (32 * words) (32 * c * j))"
  using assms(2,3)
proof (induction j arbitrary: offset words nb)
  case 0
  then show ?case using assms(1) by (cases "words = 0") (simp_all add: index_loop_end index_loop_step)
next
  case (Suc j)
  let ?n = "min c words"
  have w: "0 < words" using Suc.prems by (cases "words = 0") (simp_all add: index_loop_end)
  have cnt: "Count1Bits data offset ?n = ones data (8 * offset) (8 * offset + 32 * ?n)"
    by (rule Count1Bits_ones [OF Suc.prems(1)])
  define r where "r = min (32 * (words - c)) (32 * c * j)"
  have IH: "index_loop data (offset + 4 * c) (4 * c) (words - c) (nb + Count1Bits data offset ?n) ! j =
      nb + Count1Bits data offset ?n + ones data (8 * (offset + 4 * c)) (8 * (offset + 4 * c) + r)"
    unfolding r_def by (rule Suc.IH) (use Suc.prems assms(1) w in \<open>simp_all add: index_loop_step\<close>)
  have "ones data (8 * offset) (8 * offset + 32 * ?n) + ones data (8 * (offset + 4 * c)) (8 * (offset + 4 * c) + r) =
      ones data (8 * offset) (8 * offset + min (32 * words) (32 * c * Suc j))"
  proof (cases "words \<le> c")
    case True
    then have "r = 0" "min (32 * words) (32 * c * Suc j) = 32 * words" by (simp_all add: r_def min_def)
    then show ?thesis using True by (simp add: min_def)
  next
    case False
    then have "32 * words = 32 * c + 32 * (words - c)" "32 * c * Suc j = 32 * c + 32 * c * j" by simp_all
    then have "min (32 * words) (32 * c * Suc j) = 32 * c + r" by (metis r_def min_add_distrib_right)
    then show ?thesis using False ones_join [of "8 * offset" "8 * offset + 32 * c" "8 * offset + (32 * c + r)" data]
      by (simp add: algebra_simps)
  qed
  then show ?case using IH cnt assms(1) w by (simp add: index_loop_step)
qed

lemma sub_mult_div: "(a - 4 * m) div 4 = a div 4 - (m::nat)"
  by presburger

lemma mult_div_ceiling: "(4 * w + 4 * c - 1) div (4 * c) = (w + c - 1) div (c::nat)"
proof (cases "w + c = 0")
  case False
  then have "4 * w + 4 * c - 1 = 4 * (w + c - 1) + 3" by linarith
  then have "(4 * w + 4 * c - 1) div 4 = w + c - 1" by simp
  then show ?thesis by (simp only: div_mult2_eq)
qed simp

text \<open>The index of a bit vector: the number of set bits before each chunk, cut at the end of the data.\<close>

definition good_index :: "u8 list \<Rightarrow> nat \<Rightarrow> nat \<Rightarrow> nat list \<Rightarrow> bool" where
  "good_index data len chunk_size index \<longleftrightarrow>
     length index = (len + chunk_size - 1) div chunk_size + 1 \<and>
     (\<forall>j < length index. index ! j = ones data 0 (min (8 * len) (8 * chunk_size * j)))"

lemma sizes_okE:
  assumes "sizes_ok len chunk_size"
  obtains w c where "len = 4 * w" "chunk_size = 4 * c" "0 < c"
  using assms by (auto simp: sizes_ok_def dvd_def)

lemma InitIndex_good:
  assumes "sizes_ok len chunk_size"
  obtains index where "InitIndex data len chunk_size = Some index" "good_index data len chunk_size index"
proof -
  obtain w c where e: "len = 4 * w" "chunk_size = 4 * c" "0 < c" using sizes_okE [OF assms] .
  define index where "index = index_loop data 0 (4 * c) w 0"
  have l: "length index = (w + c - 1) div c + 1" using index_loop_length [OF e(3)] by (simp add: index_def)
  have "index ! j = ones data 0 (min (32 * w) (32 * c * j))" if "j < length index" for j
    using index_loop_nth [OF e(3), of 0 j data w 0] that by (simp add: index_def)
  then have "good_index data len chunk_size index"
    using l e mult_div_ceiling [of w c] by (simp add: good_index_def)
  moreover have "InitIndex data len chunk_size = Some index"
    using l e mult_div_ceiling [of w c] by (simp add: InitIndex_def Let_def index_def)
  ultimately show thesis using that by blast
qed

lemma good_index_at:
  assumes "sizes_ok len chunk_size" "good_index data len chunk_size index" "chunk_size * j \<le> len"
  shows "j < length index \<and> index ! j = ones data 0 (8 * chunk_size * j)"
proof -
  obtain w c where e: "len = 4 * w" "chunk_size = 4 * c" "0 < c" using sizes_okE [OF assms(1)] .
  have "j \<le> len div chunk_size" using assms(3) e(2,3) by (simp add: less_eq_div_iff_mult_less_eq mult.commute)
  also have "\<dots> \<le> (len + chunk_size - 1) div chunk_size" using e by (intro div_le_mono) simp
  finally show ?thesis using assms(2,3) by (simp add: good_index_def min_def mult.assoc)
qed

lemma good_index_end:
  assumes "sizes_ok len chunk_size" "good_index data len chunk_size index"
  shows "index \<noteq> [] \<and> len \<le> chunk_size * (length index - 1) \<and> last index = ones data 0 (8 * len)"
proof -
  obtain w c where e: "len = 4 * w" "chunk_size = 4 * c" "0 < c" using sizes_okE [OF assms(1)] .
  have n: "length index = (len + chunk_size - 1) div chunk_size + 1" using assms(2) by (simp add: good_index_def)
  have "len \<le> chunk_size * ((len + chunk_size - 1) div chunk_size)"
  proof -
    have "len + chunk_size - 1 = chunk_size * ((len + chunk_size - 1) div chunk_size) + (len + chunk_size - 1) mod chunk_size"
      by simp
    moreover have "(len + chunk_size - 1) mod chunk_size < chunk_size" using e by simp
    ultimately show ?thesis by linarith
  qed
  moreover have "index \<noteq> []" using n by auto
  ultimately show ?thesis using assms(2) n by (auto simp: good_index_def last_conv_nth min_def mult.assoc)
qed

text \<open>A bit vector index as \<^const>\<open>Init\<close> makes it.\<close>

definition sv_ok :: "BitVectorIndex \<Rightarrow> bool" where
  "sv_ok sv \<longleftrightarrow> sizes_ok (sv_length sv) (sv_chunk_size sv) \<and>
     good_index (sv_data sv) (sv_length sv) (sv_chunk_size sv) (sv_index sv) \<and>
     0 < sv_lb0_increment sv \<and> 0 < sv_lb1_increment sv \<and>
     (\<exists>n0. sv_lb0_cache sv = InitLowerBoundCache (zeros_before (sv_index sv) (sv_chunk_size sv))
        (length (sv_index sv)) (sv_lb0_increment sv) n0) \<and>
     (\<exists>n1. sv_lb1_cache sv = InitLowerBoundCache (\<lambda>i. sv_index sv ! i)
        (length (sv_index sv)) (sv_lb1_increment sv) n1)"

lemma Init_ok:
  assumes "sizes_ok len chunk_size"
  obtains sv where "Init data len chunk_size n0 n1 = Some sv" "sv_ok sv" "sv_data sv = data" "sv_length sv = len"
proof -
  obtain index where i: "InitIndex data len chunk_size = Some index" "good_index data len chunk_size index"
    using InitIndex_good [OF assms] .
  define sv where "sv = the (Init data len chunk_size n0 n1)"
  have s: "Init data len chunk_size n0 n1 = Some sv" using i(1) by (simp add: Init_def sv_def Let_def)
  then have "sv_ok sv \<and> sv_data sv = data \<and> sv_length sv = len"
    using i assms by (auto simp: Init_def sv_ok_def Let_def)
  then show thesis using that s by blast
qed

lemma Rank1_ones:
  assumes "sv_ok sv" and "n \<le> 8 * sv_length sv"
  shows "Rank1 sv n = ones (sv_data sv) 0 n"
proof -
  let ?d = "sv_data sv" and ?cs = "sv_chunk_size sv"
  have s: "sizes_ok (sv_length sv) ?cs" "good_index ?d (sv_length sv) ?cs (sv_index sv)"
    using assms(1) by (simp_all add: sv_ok_def)
  obtain w c where e: "sv_length sv = 4 * w" "?cs = 4 * c" "0 < c" using sizes_okE [OF s(1)] .
  define q where "q = n div (?cs * 8)"
  have qn: "32 * c * q \<le> n" by (simp add: q_def e(2) mult.commute)
  then have q: "sv_index sv ! q = ones ?d 0 (32 * c * q)"
    using good_index_at [OF s, of q] assms(2) e by simp
  have cq: "c * q \<le> n div 32" using div_le_mono [OF qn, of 32] by (simp add: mult.assoc)
  have "(n div 8 - q * ?cs) div 4 = n div 32 - c * q"
  proof -
    have "n div 8 - q * ?cs = n div 8 - 4 * (c * q)" using e by (simp add: ac_simps)
    also have "\<dots> div 4 = n div 8 div 4 - c * q" by (rule sub_mult_div)
    finally show ?thesis by (simp add: div_mult2_eq [symmetric])
  qed
  then have cnt: "Count1Bits ?d (q * ?cs) ((n div 8 - q * ?cs) div 4) = ones ?d (32 * c * q) (32 * (n div 32))"
    using Count1Bits_ones [of "4 * (c * q)" ?d "n div 32 - c * q"] cq e by (simp add: mult.commute mult.left_commute algebra_simps)
  have r: "Rank1 sv n = ones ?d 0 (32 * (n div 32)) +
      (if n mod 32 > 0 then popcount (push_bit (32 - n mod 32) (LoadUnaligned32 ?d (4 * (n div 32)))) else 0)"
    using ones_join [of 0 "32 * c * q" "32 * (n div 32)" ?d] cq q cnt unfolding Rank1_def q_def [symmetric] Let_def by auto
  show ?thesis
  proof (cases "n mod 32 > 0")
    case True
    then have "popcount (push_bit (32 - n mod 32) (LoadUnaligned32 ?d (4 * (n div 32)))) = ones ?d (32 * (n div 32)) n"
      using popcount_shift [of "4 * (n div 32)" "n mod 32" ?d] by simp
    then show ?thesis using r True ones_join [of 0 "32 * (n div 32)" n ?d] by simp
  next
    case False
    then have "32 * (n div 32) = n" by presburger
    then show ?thesis using r False by simp
  qed
qed

subsection \<open>Lower bounds, with and without the cache\<close>

lemma lower_bound_eqI:
  assumes "a \<le> p" "p \<le> b" "\<And>i. a \<le> i \<Longrightarrow> i < p \<Longrightarrow> f i < v" "p < b \<Longrightarrow> \<not> f p < v"
  shows "lower_bound f a b v = p"
proof -
  have e: "[a..<b] = [a..<p] @ [p..<b]" using assms(1,2) by (metis le_add_diff_inverse upt_add_eq_append)
  have "takeWhile (\<lambda>i. f i < v) ([a..<p] @ [p..<b]) = [a..<p] @ takeWhile (\<lambda>i. f i < v) [p..<b]"
    by (rule takeWhile_append2) (use assms(3) in auto)
  also have "takeWhile (\<lambda>i. f i < v) [p..<b] = []" using assms(4) by (cases "p < b") (simp_all add: upt_conv_Cons)
  finally have "takeWhile (\<lambda>i. f i < v) [a..<b] = [a..<p]" by (simp add: e)
  then show ?thesis using assms(1) by (simp add: lower_bound_def)
qed

lemma lower_bound_0:
  "lower_bound f 0 m v \<le> m \<and> (\<forall>i < lower_bound f 0 m v. f i < v) \<and>
   (lower_bound f 0 m v < m \<longrightarrow> \<not> f (lower_bound f 0 m v) < v)"
proof -
  let ?P = "\<lambda>i. f i < v"
  let ?n = "length (takeWhile ?P [0..<m])"
  have n: "?n \<le> m" using length_takeWhile_le [of ?P "[0..<m]"] by simp
  have "f i < v" if "i < ?n" for i
    using nth_mem [of i "takeWhile ?P [0..<m]"] that n by (auto simp: takeWhile_nth dest: set_takeWhileD)
  moreover have "\<not> f ?n < v" if "?n < m" using nth_length_takeWhile [of ?P "[0..<m]"] that by simp
  ultimately show ?thesis using n by (simp add: lower_bound_def)
qed

lemma lower_bound_mono:
  assumes "v \<le> v'"
  shows "lower_bound f 0 m v \<le> lower_bound f 0 m v'"
proof (rule ccontr)
  assume "\<not> ?thesis"
  then have "lower_bound f 0 m v' < lower_bound f 0 m v" by simp
  then show False using lower_bound_0 [of f m v] lower_bound_0 [of f m v'] assms by fastforce
qed

lemma lower_bound_within:
  assumes "a \<le> lower_bound f 0 m v" "lower_bound f 0 m v \<le> b"  "b \<le> m"
  shows "lower_bound f a b v = lower_bound f 0 m v"
  by (rule lower_bound_eqI) (use assms lower_bound_0 [of f m v] in auto)

lemma cached_lower_bound:
  assumes "cache = InitLowerBoundCache f m increment n" "0 < increment" "ci = min (v div increment) (length cache - 2)"
  shows "lower_bound f (cache ! ci) (cache ! (ci + 1)) v = lower_bound f 0 m v"
proof -
  have l: "length cache = n + 2" using assms(1) by (simp add: InitLowerBoundCache_def)
  have c: "cache ! j = (if j = 0 then 0 else if j \<le> n then lower_bound f 0 m (increment * j) else m)" if "j \<le> n + 1" for j
    using that assms(1) by (auto simp: InitLowerBoundCache_def nth_append nth_Cons' simp del: upt_Suc)
  have ci: "ci \<le> n" "ci \<le> v div increment" "ci = n \<or> ci = v div increment" using assms(3) l by auto
  have "cache ! ci \<le> lower_bound f 0 m v"
  proof -
    have "increment * ci \<le> v" using ci(2) by (metis div_times_less_eq_dividend le_trans mult.commute mult_le_mono1)
    then show ?thesis using c [of ci] ci(1) lower_bound_mono by auto
  qed
  moreover have "lower_bound f 0 m v \<le> cache ! (ci + 1)"
  proof (cases "ci = n")
    case True
    then show ?thesis using c [of "ci + 1"] lower_bound_0 [of f m v] by simp
  next
    case False
    then have "v \<le> increment * (ci + 1)" using ci dividend_less_times_div [OF assms(2), of v] by simp
    then show ?thesis using False c [of "ci + 1"] ci lower_bound_mono by simp
  qed
  moreover have "cache ! (ci + 1) \<le> m" using c [of "ci + 1"] ci(1) lower_bound_0 by simp
  ultimately show ?thesis by (rule lower_bound_within)
qed

subsection \<open>The searches for words and bits\<close>

definition count_range :: "(nat \<Rightarrow> bool) \<Rightarrow> nat \<Rightarrow> nat \<Rightarrow> nat" where
  "count_range P a b = length (filter P [a..<b])"

lemma count_range_join: "a \<le> b \<Longrightarrow> b \<le> c \<Longrightarrow> count_range P a b + count_range P b c = count_range P a c"
  using upt_add_eq_append [of a b "c - b"] by (simp add: count_range_def)

lemma count_range_same [simp]: "count_range P a a = 0"
  by (simp add: count_range_def)

lemma ones_count: "ones data a b = count_range (bv data) a b"
  by (simp add: ones_def count_range_def)

lemma zeros_count: "count_range (\<lambda>i. \<not> bv data i) a b = (b - a) - ones data a b"
  using sum_length_filter_compl [of "bv data" "[a..<b]"] by (simp add: count_range_def ones_def)

lemma select_word_spec:
  assumes "\<And>ptr. 4 dvd ptr \<Longrightarrow> count (LoadUnaligned32 data ptr) = count_range P (8 * ptr) (8 * ptr + 32)"
    and "4 dvd offset" "0 < n" "n \<le> count_range P (8 * offset) (8 * offset + 32 * fuel)"
  shows "\<exists>ptr m. select_word count data fuel offset n = Some (ptr, m) \<and> 4 dvd ptr \<and> offset \<le> ptr \<and>
    8 * ptr + 32 \<le> 8 * offset + 32 * fuel \<and> 0 < m \<and> m \<le> count_range P (8 * ptr) (8 * ptr + 32) \<and>
    count_range P (8 * offset) (8 * ptr) + m = n"
  using assms(2-4)
proof (induction fuel arbitrary: offset n)
  case (Suc fuel)
  let ?k = "count_range P (8 * offset) (8 * offset + 32)"
  have k: "count (LoadUnaligned32 data offset) = ?k" by (rule assms(1) [OF Suc.prems(1)])
  show ?case
  proof (cases "n \<le> ?k")
    case True
    then show ?thesis using Suc.prems k by auto
  next
    case False
    have n: "n - ?k \<le> count_range P (8 * (offset + 4)) (8 * (offset + 4) + 32 * fuel)"
      using count_range_join [of "8 * offset" "8 * offset + 32" "8 * offset + 32 * Suc fuel" P] Suc.prems(3)
      by (simp add: algebra_simps)
    obtain ptr m where r: "select_word count data fuel (offset + 4) (n - ?k) = Some (ptr, m)" "4 dvd ptr" "offset + 4 \<le> ptr"
      "8 * ptr + 32 \<le> 8 * (offset + 4) + 32 * fuel" "0 < m" "m \<le> count_range P (8 * ptr) (8 * ptr + 32)"
      "count_range P (8 * (offset + 4)) (8 * ptr) + m = n - ?k"
      using Suc.IH [OF _ _ n] Suc.prems(1) False by auto
    have "count_range P (8 * offset) (8 * ptr) + m = n"
      using r(7) False count_range_join [of "8 * offset" "8 * offset + 32" "8 * ptr" P] r(3) by (simp add: algebra_simps)
    then show ?thesis using r False k by auto
  qed
qed simp

lemma select_bit_spec:
  assumes "0 < n" "n \<le> count_range (bit w) 0 fuel"
  shows "\<exists>p. select_bit fuel w n index = Some (index + p) \<and> p < fuel \<and> bit w p \<and> count_range (bit w) 0 p + 1 = n"
  using assms
proof (induction fuel arbitrary: w n index)
  case (Suc f)
  let ?w = "drop_bit 1 w" and ?b = "if bit w 0 then 1 else 0 :: nat"
  have sh: "count_range (bit w) 0 (Suc k) = ?b + count_range (bit ?w) 0 k" for k
  proof -
    have "filter (bit w) [1..<1 + k] = filter (bit w) [1..<Suc k]" by simp
    then show ?thesis using filter_shift [of "bit w" 1 k]
      unfolding count_range_def upt_conv_Cons [OF zero_less_Suc] by (simp add: bit_drop_bit_eq comp_def)
  qed
  have step: "select_bit (Suc f) w n index = select_bit f ?w (n - ?b) (index + 1)"
    using Suc.prems(1) by (subst select_bit.simps) simp
  show ?case
  proof (cases "n - ?b = 0")
    case True
    then have "n = 1" "bit w 0" using Suc.prems(1) by (auto split: if_splits)
    then show ?thesis unfolding step by (subst select_bit.simps) (auto intro: exI [of _ 0])
  next
    case False
    then have "n - ?b \<le> count_range (bit ?w) 0 f" using Suc.prems(2) sh [of f] by simp
    then obtain p where "select_bit f ?w (n - ?b) (index + 1) = Some (index + 1 + p)" "p < f" "bit ?w p"
      "count_range (bit ?w) 0 p + 1 = n - ?b"
      using Suc.IH [of "n - ?b" ?w "index + 1"] False by auto
    then show ?thesis unfolding step using sh [of p] False by (intro exI [of _ "Suc p"]) (auto simp: bit_drop_bit_eq)
  qed
qed simp

lemma count_range_shift: "count_range P a (a + n) = count_range (\<lambda>k. P (a + k)) 0 n"
  unfolding count_range_def by (rule filter_shift)

lemma search_spec:
  assumes count: "\<And>ptr. 4 dvd ptr \<Longrightarrow> count (LoadUnaligned32 data ptr) = count_range P (8 * ptr) (8 * ptr + 32)"
    and word: "\<And>ptr k. 4 dvd ptr \<Longrightarrow> k < 32 \<Longrightarrow> bit (word (LoadUnaligned32 data ptr)) k = P (8 * ptr + k)"
    and "4 dvd offset" "4 dvd len" "offset \<le> len" "0 < n" "n \<le> count_range P (8 * offset) (8 * len)"
  shows "\<exists>p. (case select_word count data (len div 4 - offset div 4) offset n of None \<Rightarrow> None
      | Some (ptr, m) \<Rightarrow> select_bit 32 (word (LoadUnaligned32 data ptr)) m (ptr * 8)) = Some p \<and>
    p < 8 * len \<and> 8 * offset \<le> p \<and> P p \<and> count_range P (8 * offset) p + 1 = n"
proof -
  have e: "8 * offset + 32 * (len div 4 - offset div 4) = 8 * len" using assms(3-5) by (elim dvdE) simp
  obtain ptr m where r: "select_word count data (len div 4 - offset div 4) offset n = Some (ptr, m)" "4 dvd ptr" "offset \<le> ptr"
    "8 * ptr + 32 \<le> 8 * len" "0 < m" "m \<le> count_range P (8 * ptr) (8 * ptr + 32)"
    "count_range P (8 * offset) (8 * ptr) + m = n"
    using select_word_spec [of count data P offset n "len div 4 - offset div 4"] count assms(3,6,7) unfolding e by blast
  let ?w = "word (LoadUnaligned32 data ptr)"
  have c: "count_range (bit ?w) 0 k = count_range P (8 * ptr) (8 * ptr + k)" if "k \<le> 32" for k
    unfolding count_range_shift unfolding count_range_def
    by (intro arg_cong [where f = length] filter_upt_cong word r(2)) (use that in simp)
  obtain p where p: "select_bit 32 ?w m (ptr * 8) = Some (ptr * 8 + p)" "p < 32" "bit ?w p" "count_range (bit ?w) 0 p + 1 = m"
    using select_bit_spec [of m ?w 32 "ptr * 8"] r(5,6) c [of 32] by auto
  have "count_range P (8 * offset) (8 * ptr + p) + 1 = n"
    using count_range_join [of "8 * offset" "8 * ptr" "8 * ptr + p" P] c [of p] p(2,4) r(3,7) by simp
  moreover have "P (8 * ptr + p)" using word [OF r(2) p(2)] p(3) by simp
  ultimately show ?thesis using r(1,3,4) p(1,2) by (auto simp: mult.commute)
qed

lemma chunk_before:
  assumes "mono_on {..<m} f" "f 0 < v" "0 < m" "\<not> f (m - 1) < v"
  shows "0 < lower_bound f 0 m v \<and> lower_bound f 0 m v < m \<and> f (lower_bound f 0 m v - 1) < v \<and> v \<le> f (lower_bound f 0 m v)"
proof -
  note lb = lower_bound_0 [of f m v]
  let ?p = "lower_bound f 0 m v"
  have "?p < m"
  proof (rule ccontr)
    assume "\<not> ?p < m"
    then have "m - 1 < ?p" using assms(3) lb by linarith
    then show False using lb assms(4) by blast
  qed
  moreover have "0 < ?p" using lb assms(2,3) by (cases "?p = 0") auto
  ultimately show ?thesis using lb by simp
qed

lemma offset_eq: "4 dvd c * (cs::nat) \<Longrightarrow> 4 * (c * cs div 4) = c * cs"
  by simp

lemma BitCount0_zeros:
  assumes "4 dvd ptr"
  shows "BitCount0 (LoadUnaligned32 data ptr) = count_range (\<lambda>i. \<not> bv data i) (8 * ptr) (8 * ptr + 32)"
  using assms by (simp add: BitCount0_eq popcount_ones zeros_count)

text \<open>
  What the two searches share: \<open>f\<close> counts the bits that satisfy \<open>P\<close> before each chunk.
\<close>

lemma select_common:
  assumes "sizes_ok len cs" "0 < increment" "cache = InitLowerBoundCache f m increment k"
    and count: "\<And>ptr. 4 dvd ptr \<Longrightarrow> count (LoadUnaligned32 data ptr) = count_range P (8 * ptr) (8 * ptr + 32)"
    and word: "\<And>ptr k. 4 dvd ptr \<Longrightarrow> k < 32 \<Longrightarrow> bit (word (LoadUnaligned32 data ptr)) k = P (8 * ptr + k)"
    and mono: "mono_on {..<m} f" and "0 < m"
    and f: "\<And>j. j < m \<Longrightarrow> cs * j \<le> len \<Longrightarrow> f j = count_range P 0 (8 * (j * cs))"
    and beyond: "\<And>j. j < m \<Longrightarrow> len \<le> cs * j \<Longrightarrow> count_range P 0 (8 * len) \<le> f j"
    and "len \<le> cs * (m - 1)" "0 < n" "n \<le> count_range P 0 (8 * len)"
    and ci: "ci = lower_bound f (cache ! min (n div increment) (length cache - 2))
      (cache ! (min (n div increment) (length cache - 2) + 1)) n - 1"
  shows "\<exists>q. (case select_word count data (len div 4 - (4 * (ci * cs div 4)) div 4) (4 * (ci * cs div 4)) (n - f ci) of
      None \<Rightarrow> None | Some (ptr, m) \<Rightarrow> select_bit 32 (word (LoadUnaligned32 data ptr)) m (ptr * 8)) = Some q \<and>
    q < 8 * len \<and> P q \<and> count_range P 0 q + 1 = n"
proof -
  have "f 0 = 0" using f [of 0] \<open>0 < m\<close> by simp
  moreover have "n \<le> f (m - 1)" using beyond [of "m - 1"] assms(7,10,12) by simp
  ultimately have c: "ci < m" "f ci < n"
    using chunk_before [OF mono, of n] assms(7,11) ci cached_lower_bound [OF assms(3,2) refl, of n] by auto
  have start: "cs * ci \<le> len"
    using beyond [OF c(1)] c(2) assms(12) by (cases "cs * ci \<le> len") auto
  have fci: "f ci = count_range P 0 (8 * (ci * cs))" using f [OF c(1) start] .
  have off: "4 dvd ci * cs" "4 dvd len" "4 * (ci * cs div 4) = ci * cs" using assms(1) by (auto simp: sizes_ok_def)
  have r: "ci * cs \<le> len" "0 < n - f ci" using start c(2) by (simp_all add: mult.commute)
  have n': "n - f ci \<le> count_range P (8 * (ci * cs)) (8 * len)"
    using assms(12) fci start count_range_join [of 0 "8 * (ci * cs)" "8 * len" P] by (simp add: ac_simps)
  obtain q where q: "(case select_word count data (len div 4 - (ci * cs) div 4) (ci * cs) (n - f ci) of
      None \<Rightarrow> None | Some (ptr, m) \<Rightarrow> select_bit 32 (word (LoadUnaligned32 data ptr)) m (ptr * 8)) = Some q"
    "q < 8 * len" "8 * (ci * cs) \<le> q" "P q" "count_range P (8 * (ci * cs)) q + 1 = n - f ci"
    using search_spec [where count = count and word = word, OF count word off(1,2) r n'] by blast
  have "count_range P 0 q + 1 = n"
    using q(3,5) fci c(2) count_range_join [of 0 "8 * (ci * cs)" q P] by simp
  then show ?thesis using q unfolding off(3) by blast
qed

lemma good_index_min:
  assumes "good_index data len cs index" "j < length index"
  shows "index ! j = ones data 0 (min (8 * len) (8 * (j * cs)))"
  using assms by (auto simp: good_index_def ac_simps)

lemma Select1_position:
  assumes "sv_ok sv" "0 < n" "n \<le> count_range (bv (sv_data sv)) 0 (8 * sv_length sv)"
  shows "\<exists>p. Select1 sv n = Some p \<and> p < 8 * sv_length sv \<and> bv (sv_data sv) p \<and>
    count_range (bv (sv_data sv)) 0 p + 1 = n"
proof -
  let ?i = "sv_index sv"
  have s: "sizes_ok (sv_length sv) (sv_chunk_size sv)" "good_index (sv_data sv) (sv_length sv) (sv_chunk_size sv) ?i" "0 < sv_lb1_increment sv"
    using assms(1) by (simp_all add: sv_ok_def)
  obtain k where k: "sv_lb1_cache sv = InitLowerBoundCache (\<lambda>i. ?i ! i) (length ?i) (sv_lb1_increment sv) k"
    using assms(1) by (auto simp: sv_ok_def)
  note at = good_index_min [OF s(2)]
  have m: "mono_on {..<length ?i} (\<lambda>i. ?i ! i)" by (intro mono_onI) (auto simp: at intro!: ones_mono min.mono)
  show ?thesis unfolding Select1_def Let_def
    by (rule select_common [where word = "\<lambda>w. w" and f = "\<lambda>i. ?i ! i", OF s(1,3) k _ _ m _ _ _ _ assms(2,3) refl])
      (use good_index_end [OF s(1,2)] in \<open>auto simp: popcount_ones ones_count bit_word_bv at min_def ac_simps\<close>)
qed

lemma Select0_position:
  assumes "sv_ok sv" "0 < n" "n \<le> count_range (\<lambda>i. \<not> bv (sv_data sv) i) 0 (8 * sv_length sv)"
  shows "\<exists>p. Select0 sv n = Some p \<and> p < 8 * sv_length sv \<and> \<not> bv (sv_data sv) p \<and>
    count_range (\<lambda>i. \<not> bv (sv_data sv) i) 0 p + 1 = n"
proof -
  let ?i = "sv_index sv" and ?f = "zeros_before (sv_index sv) (sv_chunk_size sv)" and ?d = "sv_data sv"
  have s: "sizes_ok (sv_length sv) (sv_chunk_size sv)" "good_index ?d (sv_length sv) (sv_chunk_size sv) ?i" "0 < sv_lb0_increment sv"
    using assms(1) by (simp_all add: sv_ok_def)
  obtain k where k: "sv_lb0_cache sv = InitLowerBoundCache ?f (length ?i) (sv_lb0_increment sv) k"
    using assms(1) by (auto simp: sv_ok_def)
  have at: "?f j = 8 * (j * sv_chunk_size sv) - ones ?d 0 (min (8 * sv_length sv) (8 * (j * sv_chunk_size sv)))"
    if "j < length ?i" for j
    using good_index_min [OF s(2) that] by (simp add: zeros_before_def ac_simps)
  have grow: "a - ones ?d 0 (min L a) \<le> b - ones ?d 0 (min L b)" if "a \<le> b" for a b L
  proof -
    have "ones ?d 0 (min L b) \<le> ones ?d 0 (min L a) + (b - a)"
      using ones_join [of 0 "min L a" "min L b" ?d] ones_le [of ?d "min L a" "min L b"] that by (simp add: min_def split: if_splits)
    then show ?thesis using that by simp
  qed
  have m: "mono_on {..<length ?i} ?f" by (intro mono_onI) (auto simp: at intro!: grow)
  show ?thesis unfolding Select0_def Let_def zeros_before_def [symmetric]
    by (rule select_common [where word = NOT and f = ?f and P = "\<lambda>i. \<not> bv ?d i", OF s(1,3) k _ _ m _ _ _ _ assms(2,3) refl])
      (use good_index_end [OF s(1,2)] in \<open>auto simp: BitCount0_zeros bit_word_bv bit_not_iff at zeros_count min_def ac_simps\<close>)
qed

subsection \<open>The interface of rank and select\<close>

locale rank_select =
  fixes ok :: "'v \<Rightarrow> bool" and bits :: "'v \<Rightarrow> nat \<Rightarrow> bool" and nbits :: "'v \<Rightarrow> nat"
    and rank1 :: "'v \<Rightarrow> nat \<Rightarrow> nat" and select0 :: "'v \<Rightarrow> nat \<Rightarrow> nat option" and select1 :: "'v \<Rightarrow> nat \<Rightarrow> nat option"
  assumes rank1: "ok v \<Longrightarrow> n \<le> nbits v \<Longrightarrow> rank1 v n = count_range (bits v) 0 n"
    and select1: "ok v \<Longrightarrow> 0 < n \<Longrightarrow> n \<le> count_range (bits v) 0 (nbits v) \<Longrightarrow>
      \<exists>p. select1 v n = Some p \<and> p < nbits v \<and> bits v p \<and> count_range (bits v) 0 p + 1 = n"
    and select0: "ok v \<Longrightarrow> 0 < n \<Longrightarrow> n \<le> count_range (\<lambda>i. \<not> bits v i) 0 (nbits v) \<Longrightarrow>
      \<exists>p. select0 v n = Some p \<and> p < nbits v \<and> \<not> bits v p \<and> count_range (\<lambda>i. \<not> bits v i) 0 p + 1 = n"

lemma count_range_Suc: "count_range P 0 (Suc p) = count_range P 0 p + (if P p then 1 else 0)"
  by (simp add: count_range_def)

lemma count_range_mono: "p \<le> q \<Longrightarrow> count_range P 0 p \<le> count_range P 0 q"
  using count_range_join [of 0 p q P] by simp

lemma count_range_inj:
  assumes "P p" "P q" "count_range P 0 p = count_range P 0 q"
  shows "p = q"
proof -
  have "\<not> a < b" if "P a" "count_range P 0 a = count_range P 0 b" for a b
    using count_range_mono [of "Suc a" b P] that by (auto simp: count_range_Suc)
  then show ?thesis using assms by (metis linorder_neqE_nat)
qed

lemma count_range_below: "P p \<Longrightarrow> p < n \<Longrightarrow> count_range P 0 p + 1 \<le> count_range P 0 n"
  using count_range_mono [of "Suc p" n P] by (simp add: count_range_Suc)

context rank_select begin

lemma select1_at:
  assumes "ok v" "p < nbits v" "bits v p"
  shows "select1 v (count_range (bits v) 0 p + 1) = Some p"
proof -
  obtain q where "select1 v (count_range (bits v) 0 p + 1) = Some q" "bits v q" "count_range (bits v) 0 q = count_range (bits v) 0 p"
    using select1 [OF assms(1), of "count_range (bits v) 0 p + 1"] count_range_below [of "bits v", OF assms(3,2)] by auto
  then show ?thesis using count_range_inj [of "bits v" q p] assms(3) by simp
qed

lemma select0_at:
  assumes "ok v" "p < nbits v" "\<not> bits v p"
  shows "select0 v (count_range (\<lambda>i. \<not> bits v i) 0 p + 1) = Some p"
proof -
  let ?Z = "\<lambda>i. \<not> bits v i"
  obtain q where "select0 v (count_range ?Z 0 p + 1) = Some q" "?Z q" "count_range ?Z 0 q = count_range ?Z 0 p"
    using select0 [OF assms(1), of "count_range ?Z 0 p + 1"] count_range_below [of ?Z, OF assms(3,2)] by auto
  then show ?thesis using count_range_inj [of ?Z q p] assms(3) by simp
qed

lemma rank1_select1:
  assumes "ok v" "0 < n" "n \<le> rank1 v (nbits v)"
  shows "\<exists>p. select1 v n = Some p \<and> bits v p \<and> rank1 v p = n - 1"
  using select1 [OF assms(1,2)] assms by (auto simp: rank1)

lemma select1_rank1:
  assumes "ok v" "p < nbits v" "bits v p"
  shows "select1 v (rank1 v p + 1) = Some p"
  using select1_at [OF assms] assms by (simp add: rank1)

end

lemma sv_Get_bv: "sv_Get sv i \<noteq> 0 \<longleftrightarrow> bv (sv_data sv) i"
  by (simp add: sv_Get_def bv_def bit_drop_bit_eq)

interpretation sv: rank_select sv_ok "\<lambda>sv. bv (sv_data sv)" "\<lambda>sv. 8 * sv_length sv" Rank1 Select0 Select1
proof unfold_locales
  show "Rank1 sv n = count_range (bv (sv_data sv)) 0 n" if "sv_ok sv" "n \<le> 8 * sv_length sv" for sv n
    using Rank1_ones [OF that] by (simp add: ones_count)
qed (fact Select1_position Select0_position)+

text \<open>
  \<open>C8\<close>: A bit vector index of any chunk size that is a multiple of 4, with caches of any size, answers rank
  and select correctly: initialising it never fails the \<^verbatim>\<open>CHECK\<close>, \<^verbatim>\<open>Rank1\<close> counts the bits before a position,
  up to the end of the data, and \<^verbatim>\<open>Select1\<close> and \<^verbatim>\<open>Select0\<close> return the position of the n-th set or clear
  bit, without reading beyond the data, when there is one.
\<close>

theorem rank_select_correct:
  assumes "sizes_ok len chunk_size" and "len \<le> length data"
  shows "\<exists>sv. Init data len chunk_size n0 n1 = Some sv \<and>
    (\<forall>n \<le> 8 * len. Rank1 sv n = length (filter (bv data) [0..<n]) \<and> Rank0 sv n = length (filter (\<lambda>i. \<not> bv data i) [0..<n])) \<and>
    (\<forall>p < 8 * len. if bv data p then Select1 sv (Rank1 sv p + 1) = Some p else Select0 sv (Rank0 sv p + 1) = Some p)"
proof -
  obtain sv where s: "Init data len chunk_size n0 n1 = Some sv" "sv_ok sv" "sv_data sv = data" "sv_length sv = len"
    using Init_ok [OF assms(1)] .
  have r1: "Rank1 sv n = count_range (bv data) 0 n" if "n \<le> 8 * len" for n
    using sv.rank1 [OF s(2), of n] that s(3,4) by simp
  moreover have r0: "Rank0 sv n = count_range (\<lambda>i. \<not> bv data i) 0 n" if "n \<le> 8 * len" for n
    using r1 [OF that] by (simp add: Rank0_def zeros_count ones_count)
  ultimately show ?thesis
    using s sv.select1_at [OF s(2)] sv.select0_at [OF s(2)] by (auto simp: count_range_def)
qed

definition sv_demo :: "u8 list" where
  "sv_demo = [0xa5, 0, 0xff, 1]"

lemma sv_demo_counts:
  "length (filter (bv sv_demo) [0..<32]) = 13" "length (filter (\<lambda>i. \<not> bv sv_demo i) [0..<8]) = 4"
  by code_simp+

theorem rank_select_correct_witness:
  "\<exists>sv. Init sv_demo 4 4 1 1 = Some sv \<and> Rank1 sv 32 = 13 \<and> Rank0 sv 8 = 4"
proof -
  have "sizes_ok 4 4" "4 \<le> length sv_demo" by (simp_all add: sizes_ok_def sv_demo_def)
  from rank_select_correct [OF this, of 1 1] show ?thesis
    using sv_demo_counts by (auto simp del: upt_conv_Cons upt_rec_numeral)
qed

end
