(* ===== verification/DictionaryCodec.thy ===== *)
theory DictionaryCodec
  imports BitVector Util
begin

unbundle bit_operations_syntax

section \<open>The codec of the system dictionary\<close>

text \<open>
  \<^verbatim>\<open>dictionary/system/codec.cc\<close> with the types of \<^verbatim>\<open>words_info.h\<close> and \<^verbatim>\<open>dictionary_token.h\<close>. Keys and values are code
  points, as the iterator over a string gives them, and every code point that is appended goes through \<open>CodepointToUtf8\<close>, which drops
  U+0000; encoded values and tokens are bytes. A pointer is the
  bytes from it on. \<open>None\<close> is a failed \<^verbatim>\<open>CHECK\<close> or \<^verbatim>\<open>LOG(FATAL)\<close>. The two fields for accents, which this codec neither
  writes nor reads, are left out of \<^verbatim>\<open>TokenInfo\<close>.
\<close>

type_synonym d16 = "16 word"

subsection \<open>Keys\<close>

definition swap_offset :: "nat \<Rightarrow> nat" where
  "swap_offset code =
     (if (0x0001 \<le> code \<and> code \<le> 0x001f) \<or> (0x3041 \<le> code \<and> code \<le> 0x305f) then 0x3041 - 0x0001
      else if (0x0040 \<le> code \<and> code \<le> 0x0075) \<or> (0x3060 \<le> code \<and> code \<le> 0x3095) then 0x3060 - 0x0040
      else if (0x0076 \<le> code \<and> code \<le> 0x0077) \<or> (0x30FB \<le> code \<and> code \<le> 0x30FC) then 0x30FB - 0x0076
      else 0)"

definition swap_char :: "nat \<Rightarrow> nat" where
  "swap_char code = (if code < 0x80 then code + swap_offset code else code - swap_offset code)"

definition EncodeDecodeKeyImpl :: "ustr \<Rightarrow> ustr" where
  "EncodeDecodeKeyImpl src = concat (map (\<lambda>code. CodepointToUtf8 (swap_char code)) src)"

definition EncodeKey :: "ustr \<Rightarrow> ustr" where "EncodeKey src = EncodeDecodeKeyImpl src"
definition DecodeKey :: "ustr \<Rightarrow> ustr" where "DecodeKey src = EncodeDecodeKeyImpl src"

definition GetEncodedDecodedKeyLengthImpl :: "ustr \<Rightarrow> nat" where
  "GetEncodedDecodedKeyLengthImpl src =
     fold (\<lambda>code size'.
        if (0x3041 \<le> code \<and> code \<le> 0x3095) \<or> (0x30FB \<le> code \<and> code \<le> 0x30FC) then size' - 2
        else if (0x0001 \<le> code \<and> code \<le> 0x001F) \<or> (0x0040 \<le> code \<and> code \<le> 0x0077) then size' + 2
        else size') src (byte_size src)"

subsection \<open>Values\<close>

definition kValueCharMarkAscii :: nat where "kValueCharMarkAscii = 0xfc"
definition kValueCharMarkXX00 :: nat where "kValueCharMarkXX00 = 0xfd"
definition kValueCharMarkOtherUcs2 :: nat where "kValueCharMarkOtherUcs2 = 0xfe"
definition kValueCharMarkCodepoint :: nat where "kValueCharMarkCodepoint = 0xff"
definition kValueCharMarkCodepointMiddle0 :: nat where "kValueCharMarkCodepointMiddle0 = 0x80"
definition kValueCharMarkCodepointRight0 :: nat where "kValueCharMarkCodepointRight0 = 0x40"
definition kValueCharMarkCodepointLeftMask :: nat where "kValueCharMarkCodepointLeftMask = 0x1f"
definition kValueKanjiOffset :: nat where "kValueKanjiOffset = 0x01"
definition kValueHiraganaOffset :: nat where "kValueHiraganaOffset = 0x4b"
definition kValueKatakanaOffset :: nat where "kValueKatakanaOffset = 0x9f"

lemmas value_consts = kValueCharMarkAscii_def kValueCharMarkXX00_def kValueCharMarkOtherUcs2_def kValueCharMarkCodepoint_def
  kValueCharMarkCodepointMiddle0_def kValueCharMarkCodepointRight0_def kValueCharMarkCodepointLeftMask_def
  kValueKanjiOffset_def kValueHiraganaOffset_def kValueKatakanaOffset_def

definition encode_char :: "nat \<Rightarrow> nat list" where
  "encode_char c =
     (if c \<ge> 0x3041 \<and> c < 0x3095 then [c - 0x3041 + kValueHiraganaOffset]
      else if c \<ge> 0x30a1 \<and> c < 0x30fd then [c - 0x30a1 + kValueKatakanaOffset]
      else if c < 0x10000 \<and> drop_bit 8 c AND 255 = 0 then [kValueCharMarkAscii, c AND 255]
      else if c < 0x10000 \<and> c AND 255 = 0 then [kValueCharMarkXX00, drop_bit 8 c AND 255]
      else if c \<ge> 0x4e00 \<and> c < 0x9800 then [drop_bit 8 (c - 0x4e00) + kValueKanjiOffset, c AND 255]
      else if 0x10000 \<le> c \<and> c \<le> 0x10ffff then
        let left = drop_bit 16 c AND 255; middle = drop_bit 8 c AND 255; right = c AND 255;
            left = (if middle = 0 then left OR kValueCharMarkCodepointMiddle0 else left);
            left = (if right = 0 then left OR kValueCharMarkCodepointRight0 else left)
        in [kValueCharMarkCodepoint, left] @ (if middle \<noteq> 0 then [middle] else []) @ (if right \<noteq> 0 then [right] else [])
      else [kValueCharMarkOtherUcs2, drop_bit 8 c AND 255, c AND 255])"

definition EncodeValue :: "ustr \<Rightarrow> u8 list" where
  "EncodeValue src = map of_nat (concat (map encode_char src))"

text \<open>
  One step of the decoder: the code point and the number of bytes read. A byte 0xfb is no mark and no
  character of the encoder; it is read as the Katakana of its place. A byte 0 is not what the encoder writes; the kanji
  it stands for would be before U+4E00.
\<close>

definition decode_char :: "nat list \<Rightarrow> nat \<times> nat" where
  "decode_char p =
     (let cc = p ! 0 in
      if kValueHiraganaOffset \<le> cc \<and> cc < kValueKatakanaOffset then (0x3041 + cc - kValueHiraganaOffset, 1)
      else if kValueKatakanaOffset \<le> cc \<and> cc < kValueCharMarkAscii then (0x30a1 + cc - kValueKatakanaOffset, 1)
      else if cc = kValueCharMarkAscii then (p ! 1, 2)
      else if cc = kValueCharMarkXX00 then (push_bit 8 (p ! 1), 2)
      else if cc = kValueCharMarkCodepoint then
        let c = push_bit 16 (p ! 1 AND kValueCharMarkCodepointLeftMask); pos = 2;
            (c, pos) = (if p ! 1 AND kValueCharMarkCodepointMiddle0 = 0 then (c + push_bit 8 (p ! pos), pos + 1) else (c, pos));
            (c, pos) = (if p ! 1 AND kValueCharMarkCodepointRight0 = 0 then (c + p ! pos, pos + 1) else (c, pos))
        in (c, pos)
      else if cc = kValueCharMarkOtherUcs2 then (push_bit 8 (p ! 1) + p ! 2, 3)
      else (0x4e00 + push_bit 8 cc - push_bit 8 kValueKanjiOffset + p ! 1, 2))"

lemma decode_char_progress: "0 < snd (decode_char p)"
  by (simp add: decode_char_def Let_def split: prod.split)

function decode_chars :: "nat list \<Rightarrow> ustr" where
  "decode_chars p = 
     (if p = [] then [] else CodepointToUtf8 (fst (decode_char p)) @ decode_chars (drop (snd (decode_char p)) p))"
  by auto
termination
  by (relation "measure length") (use decode_char_progress in \<open>auto simp: neq_Nil_conv intro!: diff_less\<close>)

declare decode_chars.simps [simp del]

definition DecodeValue :: "u8 list \<Rightarrow> ustr" where
  "DecodeValue src = decode_chars (map unat src)"

subsection \<open>Tokens\<close>

record Token =
  tk_key :: ustr
  tk_value :: ustr
  tk_cost :: int
  tk_lid :: d16
  tk_rid :: d16
  tk_attributes :: u8

definition NewToken :: Token where
  "NewToken = \<lparr>tk_key = [], tk_value = [], tk_cost = 0, tk_lid = 0, tk_rid = 0, tk_attributes = 0\<rparr>"

definition SPELLING_CORRECTION :: u8 where "SPELLING_CORRECTION = 1"

datatype PosType = DEFAULT_POS | FREQUENT_POS | SAME_AS_PREV_POS
datatype ValueType = DEFAULT_VALUE | SAME_AS_PREV_VALUE | AS_IS_HIRAGANA | AS_IS_KATAKANA
datatype CostType = DEFAULT_COST | CAN_USE_SMALL_ENCODING

record TokenInfo =
  ti_token :: Token
  ti_id_in_value_trie :: int
  ti_id_in_frequent_pos_map :: int
  ti_pos_type :: PosType
  ti_value_type :: ValueType
  ti_cost_type :: CostType

definition NewTokenInfo :: "Token \<Rightarrow> TokenInfo" where
  "NewTokenInfo t = \<lparr>ti_token = t, ti_id_in_value_trie = -1, ti_id_in_frequent_pos_map = -1, ti_pos_type = DEFAULT_POS,
     ti_value_type = DEFAULT_VALUE, ti_cost_type = DEFAULT_COST\<rparr>"

definition kPosMax :: d16 where "kPosMax = 0x0fff"
definition kCostMax :: int where "kCostMax = 0x7fff"
definition kValueTrieIdMax :: u32 where "kValueTrieIdMax = 0x3fffff"
definition kSmallCostFlag :: u8 where "kSmallCostFlag = 0x80"
definition kSmallCostMask :: u8 where "kSmallCostMask = 0x7f"
definition kTokenTerminationFlag :: u8 where "kTokenTerminationFlag = 0xff"
definition kValueTypeFlagMask :: u8 where "kValueTypeFlagMask = 0x03"
definition kAsIsHiraganaValueFlag :: u8 where "kAsIsHiraganaValueFlag = 0x01"
definition kAsIsKatakanaValueFlag :: u8 where "kAsIsKatakanaValueFlag = 0x02"
definition kSameAsPrevValueFlag :: u8 where "kSameAsPrevValueFlag = 0x03"
definition kNormalValueFlag :: u8 where "kNormalValueFlag = 0x00"
definition kPosTypeFlagMask :: u8 where "kPosTypeFlagMask = 0x0c"
definition kFullPosFlag :: u8 where "kFullPosFlag = 0x04"
definition kMonoPosFlag :: u8 where "kMonoPosFlag = 0x08"
definition kSameAsPrevPosFlag :: u8 where "kSameAsPrevPosFlag = 0x0c"
definition kFrequentPosFlag :: u8 where "kFrequentPosFlag = 0x00"
definition kSpellingCorrectionFlag :: u8 where "kSpellingCorrectionFlag = 0x10"
definition kCrammedIDFlag :: u8 where "kCrammedIDFlag = 0x40"
definition kUpperFlagsMask :: u8 where "kUpperFlagsMask = 0xc0"
definition kUpperCrammedIDMask :: u8 where "kUpperCrammedIDMask = 0x3f"
definition kLastTokenFlag :: u8 where "kLastTokenFlag = 0x80"

lemmas flag_consts = kSmallCostFlag_def kSmallCostMask_def kTokenTerminationFlag_def kValueTypeFlagMask_def kAsIsHiraganaValueFlag_def
  kAsIsKatakanaValueFlag_def kSameAsPrevValueFlag_def kNormalValueFlag_def kPosTypeFlagMask_def kFullPosFlag_def kMonoPosFlag_def
  kSameAsPrevPosFlag_def kFrequentPosFlag_def kSpellingCorrectionFlag_def kCrammedIDFlag_def kUpperFlagsMask_def
  kUpperCrammedIDMask_def kLastTokenFlag_def

definition GetFlagForPos :: "TokenInfo \<Rightarrow> u8 option" where
  "GetFlagForPos token_info =
     (let lid = tk_lid (ti_token token_info); rid = tk_rid (ti_token token_info) in
      if lid > kPosMax \<or> rid > kPosMax then None
      else if ti_pos_type token_info = FREQUENT_POS then Some kFrequentPosFlag
      else if ti_pos_type token_info = SAME_AS_PREV_POS then Some kSameAsPrevPosFlag
      else if lid = rid then Some kMonoPosFlag
      else Some kFullPosFlag)"

definition GetFlagForValue :: "TokenInfo \<Rightarrow> u8" where
  "GetFlagForValue token_info =
     (case ti_value_type token_info of
        SAME_AS_PREV_VALUE \<Rightarrow> kSameAsPrevValueFlag
      | AS_IS_HIRAGANA \<Rightarrow> kAsIsHiraganaValueFlag
      | AS_IS_KATAKANA \<Rightarrow> kAsIsKatakanaValueFlag
      | DEFAULT_VALUE \<Rightarrow> kNormalValueFlag)"

definition GetFlagsForToken :: "TokenInfo list \<Rightarrow> nat \<Rightarrow> u8 option" where
  "GetFlagsForToken tokens index =
     (let token_info = tokens ! index;
          flags = (if index = length tokens - 1 then kLastTokenFlag else 0);
          flags = (if tk_attributes (ti_token token_info) AND SPELLING_CORRECTION \<noteq> 0 then flags OR kSpellingCorrectionFlag else flags)
      in Option.bind (GetFlagForPos token_info) (\<lambda>pos_flag.
         let flags = flags OR pos_flag in
         if index = 0 \<and> flags AND kPosTypeFlagMask = kSameAsPrevPosFlag then None
         else
           let flags = flags OR GetFlagForValue token_info in
           if index = 0 \<and> flags AND kValueTypeFlagMask = kSameAsPrevValueFlag then None
           else Some (if flags AND kUpperCrammedIDMask = 0 then flags OR kCrammedIDFlag else flags)))"

definition EncodeCost :: "TokenInfo \<Rightarrow> u8 list option" where
  "EncodeCost token_info =
     (let cost = tk_cost (ti_token token_info) in
      if cost > kCostMax then None
      else if ti_cost_type token_info = CAN_USE_SMALL_ENCODING then Some [word_of_int (drop_bit 8 cost) OR kSmallCostFlag]
      else Some [word_of_int (drop_bit 8 cost), word_of_int (cost AND 0xff)])"

definition EncodePos :: "TokenInfo \<Rightarrow> u8 \<Rightarrow> u8 list option" where
  "EncodePos token_info flags =
     (let pos_flag = flags AND kPosTypeFlagMask; lid = tk_lid (ti_token token_info); rid = tk_rid (ti_token token_info) in
      if pos_flag = kFullPosFlag then
        Some [ucast (lid AND 255), ucast ((push_bit 4 rid AND 255) OR drop_bit 8 lid), ucast (drop_bit 4 rid AND 255)]
      else if pos_flag = kMonoPosFlag then Some [ucast (lid AND 255), ucast (drop_bit 8 lid)]
      else if pos_flag = kFrequentPosFlag then
        let vid = ti_id_in_frequent_pos_map token_info in if vid < 0 then None else Some [word_of_int vid]
      else if pos_flag = kSameAsPrevPosFlag then Some []
      else None)"

text \<open>The bytes of the id, and the bits of it that go to the flags in the first byte.\<close>

definition EncodeValueInfo :: "TokenInfo \<Rightarrow> u8 \<Rightarrow> (u8 \<times> u8 list) option" where
  "EncodeValueInfo token_info flags =
     (if flags AND kValueTypeFlagMask \<noteq> kNormalValueFlag then Some (0, [])
      else
        let vid = word_of_int (ti_id_in_value_trie token_info) :: u32 in
        if vid > kValueTrieIdMax then None
        else if flags AND kCrammedIDFlag \<noteq> 0
        then Some (ucast (drop_bit 16 vid) AND kUpperCrammedIDMask, [ucast (vid AND 255), ucast (drop_bit 8 vid AND 255)])
        else Some (0, [ucast (vid AND 255), ucast (drop_bit 8 vid AND 255), ucast (drop_bit 16 vid AND 255)]))"

definition EncodeToken :: "TokenInfo list \<Rightarrow> nat \<Rightarrow> u8 list option" where
  "EncodeToken tokens index =
     (if \<not> index < length tokens then None
      else Option.bind (GetFlagsForToken tokens index) (\<lambda>flags.
           let token_info = tokens ! index in
           Option.bind (EncodePos token_info flags) (\<lambda>pos.
           Option.bind (EncodeCost token_info) (\<lambda>cost.
           Option.bind (EncodeValueInfo token_info flags) (\<lambda>(upper, vid).
           Some ((flags OR upper) # pos @ cost @ vid))))))"

text \<open>
  The final check compares a \<^verbatim>\<open>char\<close> with a \<^verbatim>\<open>uint8_t\<close>. The build makes \<^verbatim>\<open>char\<close> unsigned (\<^verbatim>\<open>-funsigned-char\<close> in
  \<^verbatim>\<open>.bazelrc\<close>). The first byte of the empty string is 0.
\<close>

definition EncodeTokens :: "TokenInfo list \<Rightarrow> u8 list option" where
  "EncodeTokens tokens =
     Option.bind (those (map (EncodeToken tokens) [0..<length tokens])) (\<lambda>parts.
     let output = concat parts
     in if (case output of [] \<Rightarrow> 0 | b # _ \<Rightarrow> b) \<noteq> kTokenTerminationFlag then Some output else None)"

definition ReadFlags :: "u8 \<Rightarrow> u8" where
  "ReadFlags v = (if v AND kCrammedIDFlag \<noteq> 0 then v AND kUpperFlagsMask else v)"

definition DecodeCost :: "u8 list \<Rightarrow> TokenInfo \<times> nat \<Rightarrow> TokenInfo \<times> nat" where
  "DecodeCost ptr s =
     (let (ti, offset) = s in
      if ptr ! offset AND kSmallCostFlag \<noteq> 0
      then (ti\<lparr>ti_token := (ti_token ti)\<lparr>tk_cost := push_bit 8 (uint (ptr ! offset AND kSmallCostMask))\<rparr>\<rparr>, offset + 1)
      else (ti\<lparr>ti_token := (ti_token ti)\<lparr>tk_cost := push_bit 8 (uint (ptr ! offset)) + uint (ptr ! (offset + 1))\<rparr>\<rparr>, offset + 2))"

definition DecodePos :: "u8 list \<Rightarrow> u8 \<Rightarrow> TokenInfo \<times> nat \<Rightarrow> TokenInfo \<times> nat" where
  "DecodePos ptr flags s =
     (let (ti, offset) = s; pos_flag = flags AND kPosTypeFlagMask in
      if pos_flag = kFrequentPosFlag
      then (ti\<lparr>ti_pos_type := FREQUENT_POS, ti_id_in_frequent_pos_map := uint (ptr ! offset)\<rparr>, offset + 1)
      else if pos_flag = kSameAsPrevPosFlag then (ti\<lparr>ti_pos_type := SAME_AS_PREV_POS\<rparr>, offset)
      else if pos_flag = kMonoPosFlag
      then let vid = push_bit 8 (ucast (ptr ! (offset + 1))) OR ucast (ptr ! offset)
           in (ti\<lparr>ti_token := (ti_token ti)\<lparr>tk_lid := vid, tk_rid := vid\<rparr>\<rparr>, offset + 2)
      else
        let lid = ucast (ptr ! offset) + push_bit 8 (ucast (ptr ! (offset + 1) AND 0x0f));
            rid = ucast (drop_bit 4 (ptr ! (offset + 1))) + push_bit 4 (ucast (ptr ! (offset + 2)))
        in (ti\<lparr>ti_token := (ti_token ti)\<lparr>tk_lid := lid, tk_rid := rid\<rparr>\<rparr>, offset + 3))"

definition read_id :: "u8 list \<Rightarrow> u8 \<Rightarrow> nat \<Rightarrow> u32 \<times> nat" where
  "read_id ptr flags offset =
     (let vid = push_bit 8 (ucast (ptr ! (offset + 1))) OR ucast (ptr ! offset) in
      if flags AND kCrammedIDFlag \<noteq> 0 then (vid OR push_bit 16 (ucast (ptr ! 0 AND kUpperCrammedIDMask)), offset + 2)
      else (vid OR push_bit 16 (ucast (ptr ! (offset + 2))), offset + 3))"

definition DecodeValueInfo :: "u8 list \<Rightarrow> u8 \<Rightarrow> TokenInfo \<times> nat \<Rightarrow> TokenInfo \<times> nat" where
  "DecodeValueInfo ptr flags s =
     (let (ti, offset) = s; value_flag = flags AND kValueTypeFlagMask in
      if value_flag = kAsIsHiraganaValueFlag then (ti\<lparr>ti_value_type := AS_IS_HIRAGANA\<rparr>, offset)
      else if value_flag = kAsIsKatakanaValueFlag then (ti\<lparr>ti_value_type := AS_IS_KATAKANA\<rparr>, offset)
      else if value_flag = kSameAsPrevValueFlag then (ti\<lparr>ti_value_type := SAME_AS_PREV_VALUE\<rparr>, offset)
      else case read_id ptr flags offset of
             (vid, offset) \<Rightarrow> (ti\<lparr>ti_value_type := DEFAULT_VALUE, ti_id_in_value_trie := uint vid\<rparr>, offset))"

definition DecodeToken :: "u8 list \<Rightarrow> TokenInfo \<Rightarrow> bool \<times> TokenInfo \<times> nat" where
  "DecodeToken ptr token_info =
     (let flags = ReadFlags (ptr ! 0);
          ti = (if flags AND kSpellingCorrectionFlag \<noteq> 0
                then token_info\<lparr>ti_token := (ti_token token_info)\<lparr>tk_attributes := SPELLING_CORRECTION\<rparr>\<rparr> else token_info);
          (ti, offset) = DecodeValueInfo ptr flags (DecodeCost ptr (DecodePos ptr flags (ti, 1)))
      in (flags AND kLastTokenFlag = 0, ti, offset))"

definition ReadValueInfo :: "u8 list \<Rightarrow> u8 \<Rightarrow> nat \<Rightarrow> int \<times> nat" where
  "ReadValueInfo ptr flags offset =
     (if flags AND kValueTypeFlagMask = kNormalValueFlag
      then case read_id ptr flags offset of (vid, offset) \<Rightarrow> (uint vid, offset)
      else (-1, offset))"

definition ReadTokenForReverseLookup :: "u8 list \<Rightarrow> bool \<times> int \<times> nat" where
  "ReadTokenForReverseLookup ptr =
     (let flags = ReadFlags (ptr ! 0); pos_flag = flags AND kPosTypeFlagMask;
          offset = (if pos_flag = kFrequentPosFlag then 2 else if pos_flag = kMonoPosFlag then 3
                    else if pos_flag = kFullPosFlag then 4 else 1);
          offset = (if ptr ! offset AND kSmallCostFlag \<noteq> 0 then offset + 1 else offset + 2);
          (value_id, offset) = ReadValueInfo ptr flags offset
      in (flags AND kLastTokenFlag = 0, value_id, offset))"

subsection \<open>Keys and values come back\<close>

lemma swap_char_ranges:
  "1 \<le> c \<Longrightarrow> c \<le> 0x1f \<Longrightarrow> swap_char c = c + 0x3040"
  "0x40 \<le> c \<Longrightarrow> c \<le> 0x75 \<Longrightarrow> swap_char c = c + 0x3020"
  "0x76 \<le> c \<Longrightarrow> c \<le> 0x77 \<Longrightarrow> swap_char c = c + 0x3085"
  "0x3041 \<le> c \<Longrightarrow> c \<le> 0x305f \<Longrightarrow> swap_char c = c - 0x3040"
  "0x3060 \<le> c \<Longrightarrow> c \<le> 0x3095 \<Longrightarrow> swap_char c = c - 0x3020"
  "0x30fb \<le> c \<Longrightarrow> c \<le> 0x30fc \<Longrightarrow> swap_char c = c - 0x3085"
  by (simp_all add: swap_char_def swap_offset_def)

lemma swap_char_cases:
  obtains "1 \<le> c" "c \<le> 0x1f" | "0x40 \<le> c" "c \<le> 0x75" | "0x76 \<le> c" "c \<le> 0x77" | "0x3041 \<le> c" "c \<le> 0x305f"
    | "0x3060 \<le> c" "c \<le> 0x3095" | "0x30fb \<le> c" "c \<le> 0x30fc" | "swap_offset c = 0" "swap_char c = c"
    "\<not> ((0x3041 \<le> c \<and> c \<le> 0x3095) \<or> (0x30FB \<le> c \<and> c \<le> 0x30FC))" "\<not> ((1 \<le> c \<and> c \<le> 0x1F) \<or> (0x0040 \<le> c \<and> c \<le> 0x0077))"
proof -
  consider "1 \<le> c \<and> c \<le> 0x1f" | "0x40 \<le> c \<and> c \<le> 0x75" | "0x76 \<le> c \<and> c \<le> 0x77" | "0x3041 \<le> c \<and> c \<le> 0x305f"
    | "0x3060 \<le> c \<and> c \<le> 0x3095" | "0x30fb \<le> c \<and> c \<le> 0x30fc"
    | (none) "\<not> (1 \<le> c \<and> c \<le> 0x1f)" "\<not> (0x40 \<le> c \<and> c \<le> 0x75)" "\<not> (0x76 \<le> c \<and> c \<le> 0x77)"
      "\<not> (0x3041 \<le> c \<and> c \<le> 0x305f)" "\<not> (0x3060 \<le> c \<and> c \<le> 0x3095)" "\<not> (0x30fb \<le> c \<and> c \<le> 0x30fc)"
    by blast
  then show thesis
  proof cases
    case none
    have o: "swap_offset c = 0" unfolding swap_offset_def using none by presburger
    have "\<not> ((0x3041 \<le> c \<and> c \<le> 0x3095) \<or> (0x30FB \<le> c \<and> c \<le> 0x30FC))" "\<not> ((1 \<le> c \<and> c \<le> 0x1F) \<or> (0x0040 \<le> c \<and> c \<le> 0x0077))"
      using none by linarith+
    then show thesis using that(7) o by (simp add: swap_char_def)
  qed (use that in blast)+
qed

lemma swap_involution: "swap_char (swap_char c) = c"
  by (rule swap_char_cases [of c]) (simp_all add: swap_char_ranges)

text \<open>
  \<^verbatim>\<open>CodepointToUtf8Append\<close> appends nothing for U+0000 (the code asserts that there is none), so keys and
  values come back if they are text: Unicode scalar values without U+0000.
\<close>

definition text_ok :: "ustr \<Rightarrow> bool" where
  "text_ok s \<longleftrightarrow> valid_ustr s \<and> 0 \<notin> set s"

lemma text_ok_simps [simp]:
  "text_ok []"
  "text_ok (c # s) \<longleftrightarrow> scalar c \<and> c \<noteq> 0 \<and> text_ok s"
  "text_ok (s @ t) \<longleftrightarrow> text_ok s \<and> text_ok t"
  by (auto simp: text_ok_def)

lemma text_ok_take_drop: "text_ok s \<Longrightarrow> text_ok (take n s) \<and> text_ok (drop n s)"
  by (metis append_take_drop_id text_ok_simps(3))

lemma text_ok_valid: "text_ok s \<Longrightarrow> valid_ustr s" and text_ok_0: "text_ok s \<Longrightarrow> 0 \<notin> set s"
  by (simp_all add: text_ok_def)

lemma swap_char_0 [simp]: "swap_char c = 0 \<longleftrightarrow> c = 0"
  using swap_involution [of c] by (auto simp: swap_char_def [of 0] swap_offset_def)

lemma EncodeKey_simps [simp]:
  "EncodeKey [] = []"
  "EncodeKey (c # s) = CodepointToUtf8 (swap_char c) @ EncodeKey s"
  by (simp_all add: EncodeKey_def EncodeDecodeKeyImpl_def)

lemma EncodeKey_append: "EncodeKey (s @ t) = EncodeKey s @ EncodeKey t"
  by (simp add: EncodeKey_def EncodeDecodeKeyImpl_def)

lemma DecodeKey_eq: "DecodeKey = EncodeKey"
  by (simp add: fun_eq_iff DecodeKey_def EncodeKey_def)

lemma DecodeKey_EncodeKey: "0 \<notin> set s \<Longrightarrow> DecodeKey (EncodeKey s) = s"
  unfolding DecodeKey_eq
  by (induction s) (simp_all add: EncodeKey_append CodepointToUtf8_def swap_involution)

lemma EncodeKey_inj: "0 \<notin> set s \<Longrightarrow> 0 \<notin> set t \<Longrightarrow> EncodeKey s = EncodeKey t \<longleftrightarrow> s = t"
  by (metis DecodeKey_EncodeKey)

lemma scalar_swap: "scalar c \<Longrightarrow> scalar (swap_char c)"
  by (rule swap_char_cases [of c]) (simp_all add: scalar_def swap_char_ranges, linarith+)

lemma text_EncodeKey: "text_ok s \<Longrightarrow> text_ok (EncodeKey s)"
  by (induction s) (simp_all add: CodepointToUtf8_def scalar_swap)

lemma valid_EncodeKey: "text_ok s \<Longrightarrow> valid_ustr (EncodeKey s)"
  using text_EncodeKey by (rule text_ok_valid)

lemma char_size_swap:
  "int (char_size (swap_char c)) =
    int (char_size c) + (if (0x3041 \<le> c \<and> c \<le> 0x3095) \<or> (0x30FB \<le> c \<and> c \<le> 0x30FC) then -2
      else if (0x0001 \<le> c \<and> c \<le> 0x001F) \<or> (0x0040 \<le> c \<and> c \<le> 0x0077) then 2 else 0)"
  by (rule swap_char_cases [of c]) (simp_all add: swap_char_ranges char_size_def)

lemma key_length_fold:
  "0 \<notin> set src \<Longrightarrow> 2 * length src \<le> n \<or> byte_size src \<le> n \<Longrightarrow>
    int (fold (\<lambda>code size'.
        if (0x3041 \<le> code \<and> code \<le> 0x3095) \<or> (0x30FB \<le> code \<and> code \<le> 0x30FC) then size' - 2
        else if (0x0001 \<le> code \<and> code \<le> 0x001F) \<or> (0x0040 \<le> code \<and> code \<le> 0x0077) then size' + 2
        else size') src n) = int n + int (byte_size (EncodeDecodeKeyImpl src)) - int (byte_size src)"
proof (induction src arbitrary: n)
  case (Cons c src)
  let ?m = "if (0x3041 \<le> c \<and> c \<le> 0x3095) \<or> (0x30FB \<le> c \<and> c \<le> 0x30FC) then n - 2
        else if (0x0001 \<le> c \<and> c \<le> 0x001F) \<or> (0x0040 \<le> c \<and> c \<le> 0x0077) then n + 2 else n"
  have three: "char_size c = 3" if "(0x3041 \<le> c \<and> c \<le> 0x3095) \<or> (0x30FB \<le> c \<and> c \<le> 0x30FC)"
    using that by (auto simp: char_size_def)
  have "2 * length src \<le> ?m \<or> byte_size src \<le> ?m"
    using Cons.prems(2) three char_size_bounds [of c] by (auto split: if_splits)
  note IH = Cons.IH [OF _ this]
  have m: "int ?m = int n + (if (0x3041 \<le> c \<and> c \<le> 0x3095) \<or> (0x30FB \<le> c \<and> c \<le> 0x30FC) then -2
      else if (0x0001 \<le> c \<and> c \<le> 0x001F) \<or> (0x0040 \<le> c \<and> c \<le> 0x0077) then 2 else 0)"
    using Cons.prems(2) three by (auto split: if_splits)
  have e: "int (byte_size (EncodeDecodeKeyImpl (c # src))) = int (char_size (swap_char c)) +
      int (byte_size (EncodeDecodeKeyImpl src))"
    using Cons.prems(1) by (simp add: EncodeDecodeKeyImpl_def CodepointToUtf8_def)
  have z: "0 \<notin> set src" using Cons.prems(1) by simp
  show ?case unfolding fold.simps comp_def IH [OF z] m e char_size_swap byte_size.simps by simp
qed (simp add: EncodeDecodeKeyImpl_def)

lemma GetEncodedDecodedKeyLength: "0 \<notin> set s \<Longrightarrow> GetEncodedDecodedKeyLengthImpl s = byte_size (EncodeKey s)"
  using key_length_fold [of s "byte_size s"] by (simp add: GetEncodedDecodedKeyLengthImpl_def EncodeKey_def)

lemma and_255: "(c::nat) AND 255 = c mod 256"
  using take_bit_eq_mask [of 8 c] by (simp add: take_bit_eq_mod mask_eq_exp_minus_1)

lemma drop_bit_nat: "drop_bit 8 (c::nat) = c div 256" "drop_bit 16 (c::nat) = c div 65536" "push_bit 8 c = 256 * c" "push_bit 16 c = 65536 * c"
  by (simp_all add: drop_bit_eq_div push_bit_eq_mult)

text \<open>The upper byte of a code point beyond U+FFFF with its two flags.\<close>

lemma left_flags:
  assumes "l \<le> (16::nat)"
  shows "l OR 0x80 = l + 0x80" "l OR 0x40 = l + 0x40" "(l + 0x80) OR 0x40 = l + 0xc0"
    "l AND 0x1f = l" "(l + 0x80) AND 0x1f = l" "(l + 0x40) AND 0x1f = l" "(l + 0xc0) AND 0x1f = l"
    "l AND 0x80 = 0" "(l + 0x40) AND 0x80 = 0" "(l + 0x80) AND 0x80 = 0x80" "(l + 0xc0) AND 0x80 = 0x80"
    "l AND 0x40 = 0" "(l + 0x80) AND 0x40 = 0" "(l + 0x40) AND 0x40 = 0x40" "(l + 0xc0) AND 0x40 = 0x40"
proof -
  have "l = 0 \<or> l = 1 \<or> l = 2 \<or> l = 3 \<or> l = 4 \<or> l = 5 \<or> l = 6 \<or> l = 7 \<or> l = 8 \<or> l = 9 \<or> l = 10 \<or> l = 11 \<or> l = 12 \<or>
      l = 13 \<or> l = 14 \<or> l = 15 \<or> l = 16" using assms by presburger
  then show "l OR 0x80 = l + 0x80" "l OR 0x40 = l + 0x40" "(l + 0x80) OR 0x40 = l + 0xc0"
    "l AND 0x1f = l" "(l + 0x80) AND 0x1f = l" "(l + 0x40) AND 0x1f = l" "(l + 0xc0) AND 0x1f = l"
    "l AND 0x80 = 0" "(l + 0x40) AND 0x80 = 0" "(l + 0x80) AND 0x80 = 0x80" "(l + 0xc0) AND 0x80 = 0x80"
    "l AND 0x40 = 0" "(l + 0x80) AND 0x40 = 0" "(l + 0x40) AND 0x40 = 0x40" "(l + 0xc0) AND 0x40 = 0x40"
    by (elim disjE; simp)+
qed

text \<open>The decoder on each kind of first byte.\<close>

lemma decode_char_first:
  "75 \<le> b \<Longrightarrow> b < 159 \<Longrightarrow> decode_char (b # p) = (0x3041 + b - 75, 1)"
  "159 \<le> b \<Longrightarrow> b < 252 \<Longrightarrow> decode_char (b # p) = (0x30a1 + b - 159, 1)"
  "decode_char (252 # b # p) = (b, 2)"
  "decode_char (253 # b # p) = (256 * b, 2)"
  "decode_char (254 # b # c # p) = (256 * b + c, 3)"
  "b < 75 \<Longrightarrow> decode_char (b # c # p) = (0x4e00 + 256 * b - 256 + c, 2)"
  by (simp_all add: decode_char_def value_consts Let_def push_bit_eq_mult)

lemma decode_char_255:
  "decode_char (255 # l # p) =
     (65536 * (l AND 0x1f) + (if l AND 0x80 = 0 then 256 * p ! 0 else 0) +
        (if l AND 0x40 = 0 then p ! (if l AND 0x80 = 0 then 1 else 0) else 0),
      2 + (if l AND 0x80 = 0 then 1 else 0) + (if l AND 0x40 = 0 then 1 else 0))"
  by (simp add: decode_char_def value_consts Let_def push_bit_eq_mult)

lemma code_point_parts: "(c::nat) = 65536 * (c div 65536) + 256 * (c div 256 mod 256) + c mod 256"
proof -
  have "c = 256 * (c div 256) + c mod 256" by simp
  moreover have "c div 256 = 256 * (c div 65536) + c div 256 mod 256" by (simp add: div_mult2_eq [of c 256 256, simplified])
  ultimately show ?thesis by linarith
qed

lemma decode_encode_char:
  assumes "c \<le> 0x10ffff"
  shows "decode_char (encode_char c @ rest) = (c, length (encode_char c))"
proof -
  consider (hiragana) "0x3041 \<le> c" "c < 0x3095" | (katakana) "0x30a1 \<le> c" "c < 0x30fd"
    | (ascii) "c < 256"
    | (xx00) "256 \<le> c" "c < 0x10000" "c mod 256 = 0" "\<not> (0x3041 \<le> c \<and> c < 0x3095)" "\<not> (0x30a1 \<le> c \<and> c < 0x30fd)"
    | (kanji) "0x4e00 \<le> c" "c < 0x9800" "c mod 256 \<noteq> 0"
    | (ucs4) "0x10000 \<le> c"
    | (other) "256 \<le> c" "c < 0x10000" "c mod 256 \<noteq> 0" "\<not> (0x3041 \<le> c \<and> c < 0x3095)" "\<not> (0x30a1 \<le> c \<and> c < 0x30fd)"
      "\<not> (0x4e00 \<le> c \<and> c < 0x9800)"
    by linarith
  then show ?thesis
  proof cases
    case hiragana
    then show ?thesis by (simp add: encode_char_def decode_char_first value_consts)
  next
    case katakana
    then show ?thesis by (simp add: encode_char_def decode_char_first value_consts)
  next
    case ascii
    then show ?thesis by (simp add: encode_char_def decode_char_first value_consts and_255 drop_bit_nat)
  next
    case xx00
    have d: "c div 256 mod 256 = c div 256" "c div 256 \<noteq> 0" using xx00 by auto
    have n: "(0x3041 \<le> c \<and> c < 0x3095) = False" "(0x30a1 \<le> c \<and> c < 0x30fd) = False" using xx00 by simp_all
    have "256 * (c div 256) = c" using xx00(3) by auto
    then show ?thesis using xx00(2,3) d by (simp add: encode_char_def n decode_char_first value_consts and_255 drop_bit_nat)
  next
    case kanji
    obtain d where d: "c = 0x4e00 + d" using kanji(1) le_Suc_ex by blast
    have m: "c mod 256 = d mod 256" unfolding d by (simp add: mod_add_left_eq [symmetric])
    have "78 \<le> c div 256" "c div 256 < 256" using kanji(1,2) by simp_all
    then have q: "c div 256 mod 256 \<noteq> 0" by simp
    have n: "(0x3041 \<le> c \<and> c < 0x3095) = False" "(0x30a1 \<le> c \<and> c < 0x30fd) = False" using kanji(1) by simp_all
    have e: "encode_char c = [d div 256 + 1, d mod 256]"
    proof -
      have "encode_char c = [(c - 0x4e00) div 256 + 1, c mod 256]"
        unfolding encode_char_def n using kanji q by (simp add: value_consts and_255 drop_bit_nat)
      moreover have "c - 0x4e00 = d" using d by simp
      ultimately show ?thesis using m by simp
    qed
    have "d div 256 + 1 < 0x4b" using kanji(2) d by simp
    moreover have "0x4e00 + 256 * (d div 256 + 1) - 256 + d mod 256 = c"
      using div_mult_mod_eq [of d 256] unfolding d by simp
    ultimately show ?thesis by (simp add: e decode_char_first del: mod_less)
  next
    case ucs4
    define l m r where "l = c div 65536" and "m = c div 256 mod 256" and "r = c mod 256"
    have l: "l \<le> 16" "l mod 256 = l" using assms by (auto simp: l_def)
    have c: "c = 65536 * l + 256 * m + r" using code_point_parts [of c] by (simp add: l_def m_def r_def)
    have e: "encode_char c = [0xff, (if r = 0 then (if m = 0 then l OR 0x80 else l) OR 0x40 else if m = 0 then l OR 0x80 else l)] @
        (if m \<noteq> 0 then [m] else []) @ (if r \<noteq> 0 then [r] else [])"
      using ucs4 assms l(2) by (simp add: encode_char_def value_consts and_255 drop_bit_nat Let_def l_def [symmetric] m_def [symmetric] r_def [symmetric])
    show ?thesis
      using left_flags [OF l(1)] unfolding e
      by (cases "m = 0"; cases "r = 0") (simp_all add: c decode_char_255)
  next
    case other
    have d: "c div 256 mod 256 = c div 256" "c div 256 \<noteq> 0" using other by auto
    have n: "(0x3041 \<le> c \<and> c < 0x3095) = False" "(0x30a1 \<le> c \<and> c < 0x30fd) = False" "(0x4e00 \<le> c \<and> c < 0x9800) = False"
      "(0x10000 \<le> c \<and> c \<le> 0x10ffff) = False" using other by simp_all
    have e: "encode_char c = [0xfe, c div 256, c mod 256]"
      using other(3) d by (simp add: encode_char_def n value_consts and_255 drop_bit_nat)
    show ?thesis by (simp add: e decode_char_first)
  qed
qed

lemma encode_char_bytes: "c \<le> 0x10ffff \<Longrightarrow> \<forall>b \<in> set (encode_char c). b < 256"
  using left_flags [of "c div 65536"] by (auto simp: encode_char_def value_consts and_255 drop_bit_nat Let_def)

lemma encode_char_not_Nil: "encode_char c \<noteq> []"
  by (simp add: encode_char_def Let_def)

lemma DecodeValue_EncodeValue:
  assumes "\<forall>c \<in> set s. c \<le> 0x10ffff \<and> c \<noteq> 0"
  shows "DecodeValue (EncodeValue s) = s"
proof -
  have "decode_chars (concat (map encode_char s)) = s"
    using assms
  proof (induction s)
    case (Cons c s)
    then show ?case using encode_char_not_Nil [of c]
      by (subst decode_chars.simps) (simp add: decode_encode_char CodepointToUtf8_def)
  qed (simp add: decode_chars.simps)
  moreover have "map unat (map of_nat (concat (map encode_char s)) :: u8 list) = concat (map encode_char s)"
    unfolding map_map comp_def by (rule map_idI) (use assms encode_char_bytes in \<open>auto simp: unsigned_of_nat take_bit_nat_eq_self\<close>)
  ultimately show ?thesis by (simp only: DecodeValue_def EncodeValue_def)
qed

lemma text_ok_chars: "text_ok s \<Longrightarrow> \<forall>c \<in> set s. c \<le> 0x10ffff \<and> c \<noteq> 0"
  using gr0I by (fastforce simp: text_ok_def valid_ustr_def scalar_def)

lemma EncodeValue_inj:
  "text_ok s \<Longrightarrow> text_ok t \<Longrightarrow> EncodeValue s = EncodeValue t \<longleftrightarrow> s = t"
  by (metis DecodeValue_EncodeValue text_ok_chars)

lemma EncodeValue_not_Nil: "s \<noteq> [] \<Longrightarrow> EncodeValue s \<noteq> []"
  using encode_char_not_Nil by (cases s) (auto simp: EncodeValue_def)

subsection \<open>Tokens come back\<close>

text \<open>The two kinds of first byte: flags in the lower six bits, or six bits of the id.\<close>

lemma plain_flags:
  fixes L S P V f :: u8
  assumes "L = 0 \<or> L = 0x80" "S = 0 \<or> S = 0x10" "P = 0 \<or> P = 4 \<or> P = 8 \<or> P = 0x0c" "V = 0 \<or> V = 1 \<or> V = 2 \<or> V = 3"
    and "f = L OR S OR P OR V" "f AND kUpperCrammedIDMask \<noteq> 0"
  shows "ReadFlags f = f" "f AND kCrammedIDFlag = 0" "f AND kPosTypeFlagMask = P" "f AND kValueTypeFlagMask = V"
    "f AND kSpellingCorrectionFlag = S" "f AND kLastTokenFlag = L"
  using assms by (elim disjE; simp add: flag_consts ReadFlags_def)+

lemma crammed_flags:
  fixes L f u :: u8
  assumes "L = 0 \<or> L = 0x80" "f = L OR kCrammedIDFlag OR (u AND kUpperCrammedIDMask)"
  shows "ReadFlags f = L OR kCrammedIDFlag" "ReadFlags f AND kPosTypeFlagMask = 0" "ReadFlags f AND kValueTypeFlagMask = 0"
    "ReadFlags f AND kSpellingCorrectionFlag = 0" "ReadFlags f AND kLastTokenFlag = L" "ReadFlags f AND kCrammedIDFlag \<noteq> 0"
    "f AND kUpperCrammedIDMask = u AND kUpperCrammedIDMask"
proof -
  have c: "f AND kCrammedIDFlag = kCrammedIDFlag" "f AND kUpperFlagsMask = L OR kCrammedIDFlag"
    "f AND kUpperCrammedIDMask = u AND kUpperCrammedIDMask"
    using assms by (elim disjE; simp add: flag_consts bit.conj_disj_distrib2 and.assoc)+
  then show r: "ReadFlags f = L OR kCrammedIDFlag" by (simp add: ReadFlags_def) (simp add: flag_consts)
  show "f AND kUpperCrammedIDMask = u AND kUpperCrammedIDMask" by (rule c(3))
  show "ReadFlags f AND kPosTypeFlagMask = 0" "ReadFlags f AND kValueTypeFlagMask = 0"
    "ReadFlags f AND kSpellingCorrectionFlag = 0" "ReadFlags f AND kLastTokenFlag = L" "ReadFlags f AND kCrammedIDFlag \<noteq> 0"
    unfolding r using assms(1) by (elim disjE; simp add: flag_consts)+
qed

definition pos_flag :: "TokenInfo \<Rightarrow> u8" where
  "pos_flag ti = (if ti_pos_type ti = FREQUENT_POS then 0 else if ti_pos_type ti = SAME_AS_PREV_POS then 0x0c
     else if tk_lid (ti_token ti) = tk_rid (ti_token ti) then 8 else 4)"

definition value_flag :: "TokenInfo \<Rightarrow> u8" where
  "value_flag ti = (case ti_value_type ti of DEFAULT_VALUE \<Rightarrow> 0 | AS_IS_HIRAGANA \<Rightarrow> 1 | AS_IS_KATAKANA \<Rightarrow> 2 | SAME_AS_PREV_VALUE \<Rightarrow> 3)"

definition last_flag :: "TokenInfo list \<Rightarrow> nat \<Rightarrow> u8" where
  "last_flag tokens i = (if i = length tokens - 1 then 0x80 else 0)"

definition spelling_flag :: "TokenInfo \<Rightarrow> u8" where
  "spelling_flag ti = (if tk_attributes (ti_token ti) AND SPELLING_CORRECTION \<noteq> 0 then 0x10 else 0)"

definition base_flags :: "TokenInfo list \<Rightarrow> nat \<Rightarrow> u8" where
  "base_flags tokens i = last_flag tokens i OR spelling_flag (tokens ! i) OR pos_flag (tokens ! i) OR value_flag (tokens ! i)"

lemma GetFlagForPos_Some:
  "GetFlagForPos ti = Some f \<longleftrightarrow> tk_lid (ti_token ti) \<le> kPosMax \<and> tk_rid (ti_token ti) \<le> kPosMax \<and> f = pos_flag ti"
  by (auto simp: GetFlagForPos_def pos_flag_def flag_consts Let_def not_less)

lemma GetFlagForValue_eq: "GetFlagForValue ti = value_flag ti"
  by (simp add: GetFlagForValue_def value_flag_def flag_consts split: ValueType.splits)

lemma GetFlagsForToken_Some:
  assumes "GetFlagsForToken tokens i = Some f"
  shows "f = (if base_flags tokens i AND kUpperCrammedIDMask = 0 then base_flags tokens i OR kCrammedIDFlag else base_flags tokens i)"
    "tk_lid (ti_token (tokens ! i)) \<le> kPosMax" "tk_rid (ti_token (tokens ! i)) \<le> kPosMax"
proof -
  let ?L = "if i = length tokens - 1 then kLastTokenFlag else 0"
  let ?S = "if tk_attributes (ti_token (tokens ! i)) AND SPELLING_CORRECTION \<noteq> 0 then ?L OR kSpellingCorrectionFlag else ?L"
  obtain p where p: "GetFlagForPos (tokens ! i) = Some p"
    using assms by (cases "GetFlagForPos (tokens ! i)") (auto simp: GetFlagsForToken_def Let_def)
  have S: "?S = last_flag tokens i OR spelling_flag (tokens ! i)"
    by (simp add: last_flag_def spelling_flag_def flag_consts)
  have b: "(?S OR pos_flag (tokens ! i)) OR value_flag (tokens ! i) = base_flags tokens i"
    unfolding S by (simp only: base_flags_def or.assoc)
  show "tk_lid (ti_token (tokens ! i)) \<le> kPosMax" "tk_rid (ti_token (tokens ! i)) \<le> kPosMax"
    using p by (simp_all add: GetFlagForPos_Some)
  have "p = pos_flag (tokens ! i)" using p by (simp add: GetFlagForPos_Some)
  then show "f = (if base_flags tokens i AND kUpperCrammedIDMask = 0 then base_flags tokens i OR kCrammedIDFlag else base_flags tokens i)"
    using assms unfolding GetFlagsForToken_def Let_def p GetFlagForValue_eq Option.bind.simps b [symmetric] by (simp split: if_splits)
qed

lemma flag_values:
  "pos_flag ti = 0 \<or> pos_flag ti = 4 \<or> pos_flag ti = 8 \<or> pos_flag ti = 0x0c"
  "value_flag ti = 0 \<or> value_flag ti = 1 \<or> value_flag ti = 2 \<or> value_flag ti = 3"
  by (auto simp: pos_flag_def value_flag_def split: ValueType.splits)

text \<open>Crammed are the tokens with no flag below bit 6.\<close>

definition crammed :: "TokenInfo \<Rightarrow> bool" where
  "crammed ti \<longleftrightarrow> tk_attributes (ti_token ti) AND SPELLING_CORRECTION = 0 \<and> ti_pos_type ti = FREQUENT_POS \<and> ti_value_type ti = DEFAULT_VALUE"

lemma base_flags_crammed: "base_flags tokens i AND kUpperCrammedIDMask = 0 \<longleftrightarrow> crammed (tokens ! i)"
proof -
  have "(L OR S OR P OR V) AND kUpperCrammedIDMask = 0 \<longleftrightarrow> S = 0 \<and> P = 0 \<and> V = 0"
    if "L = 0 \<or> L = 0x80" "S = 0 \<or> S = 0x10" "P = 0 \<or> P = 4 \<or> P = 8 \<or> P = 0x0c" "V = 0 \<or> V = 1 \<or> V = 2 \<or> V = 3" for L S P V :: u8
    using that by (elim disjE; simp add: flag_consts)
  then have "base_flags tokens i AND kUpperCrammedIDMask = 0
      \<longleftrightarrow> spelling_flag (tokens ! i) = 0 \<and> pos_flag (tokens ! i) = 0 \<and> value_flag (tokens ! i) = 0"
    using flag_values [of "tokens ! i"] unfolding base_flags_def by (simp add: last_flag_def spelling_flag_def)
  then show ?thesis by (auto simp: crammed_def spelling_flag_def pos_flag_def value_flag_def split: ValueType.splits)
qed

lemma bit_mask_le:
  fixes w :: "'a::len word"
  assumes "w \<le> mask n" "bit w k" shows "k < n"
proof -
  have "uint w \<le> uint (mask n :: 'a word)" using assms(1) by (simp add: word_le_def)
  moreover have "uint (mask n :: 'a word) = 2 ^ min LENGTH('a) n - 1" unfolding uint_mask_eq by (simp add: mask_eq_exp_minus_1)
  moreover have "(2 :: int) ^ min LENGTH('a) n \<le> 2 ^ n" by (rule power_increasing) simp_all
  ultimately have "uint w < 2 ^ n" by linarith
  then have "take_bit n w = w" by (simp add: mask_eq_iff take_bit_eq_mask)
  then show ?thesis using assms(2) by (metis bit_take_bit_iff)
qed

lemma word_255: "(255 :: 'a::len word) = mask 8" and word_15: "(15 :: 'a word) = mask 4"
  by (simp_all add: mask_eq_exp_minus_1)

lemma EncodePos_DecodePos:
  assumes "EncodePos ti f = Some bs" "f AND kPosTypeFlagMask = pos_flag ti" "g AND kPosTypeFlagMask = pos_flag ti"
    and "tk_lid (ti_token ti) \<le> kPosMax" "tk_rid (ti_token ti) \<le> kPosMax" "ti_id_in_frequent_pos_map ti < 256"
  shows "DecodePos (pre @ bs @ rest) g (t, length pre) =
    (case ti_pos_type ti of
       FREQUENT_POS \<Rightarrow> t\<lparr>ti_pos_type := FREQUENT_POS, ti_id_in_frequent_pos_map := ti_id_in_frequent_pos_map ti\<rparr>
     | SAME_AS_PREV_POS \<Rightarrow> t\<lparr>ti_pos_type := SAME_AS_PREV_POS\<rparr>
     | DEFAULT_POS \<Rightarrow> t\<lparr>ti_token := (ti_token t)\<lparr>tk_lid := tk_lid (ti_token ti), tk_rid := tk_rid (ti_token ti)\<rparr>\<rparr>,
     length (pre @ bs))"
proof -
  let ?l = "tk_lid (ti_token ti)" and ?r = "tk_rid (ti_token ti)"
  have m: "kPosMax = mask 12" by (simp add: kPosMax_def mask_eq_exp_minus_1)
  have lb: "bit ?l k \<Longrightarrow> k < 12" and rb: "bit ?r k \<Longrightarrow> k < 12" for k
    using bit_mask_le assms(4,5) unfolding m by blast+
  show ?thesis
  proof (cases "ti_pos_type ti")
    case FREQUENT_POS
    then have p: "pos_flag ti = 0" by (simp add: pos_flag_def)
    then have "0 \<le> ti_id_in_frequent_pos_map ti" "bs = [word_of_int (ti_id_in_frequent_pos_map ti)]"
      using assms(1,2) by (auto simp: EncodePos_def flag_consts Let_def split: if_splits)
    then show ?thesis using FREQUENT_POS p assms(3,6)
      by (simp add: DecodePos_def flag_consts Let_def uint_word_of_int_eq take_bit_int_eq_self)
  next
    case SAME_AS_PREV_POS
    then have p: "pos_flag ti = 0x0c" by (simp add: pos_flag_def)
    then have "bs = []" using assms(1,2) by (auto simp: EncodePos_def flag_consts Let_def split: if_splits)
    then show ?thesis using SAME_AS_PREV_POS p assms(3) by (simp add: DecodePos_def flag_consts Let_def)
  next
    case DEFAULT_POS
    show ?thesis
    proof (cases "?l = ?r")
      case True
      then have p: "pos_flag ti = 8" using DEFAULT_POS by (simp add: pos_flag_def)
      then have bs: "bs = [ucast (?l AND 255), ucast (drop_bit 8 ?l)]" using assms(1,2) by (auto simp: EncodePos_def flag_consts Let_def)
      have "push_bit 8 (ucast (ucast (drop_bit 8 ?l) :: u8)) OR ucast (ucast (?l AND 255) :: u8) = ?l"
        using lb by (intro bit_word_eqI) (auto simp: bit_simps word_255)
      then show ?thesis using DEFAULT_POS p assms(3) True by (simp add: DecodePos_def flag_consts Let_def bs nth_append)
    next
      case False
      then have p: "pos_flag ti = 4" using DEFAULT_POS by (simp add: pos_flag_def)
      let ?b1 = "ucast ((push_bit 4 ?r AND 255) OR drop_bit 8 ?l) :: u8"
      have bs: "bs = [ucast (?l AND 255), ?b1, ucast (drop_bit 4 ?r AND 255)]" using assms(1,2) p by (auto simp: EncodePos_def flag_consts Let_def)
      have "ucast (ucast (?l AND 255) :: u8) + push_bit 8 (ucast (?b1 AND 0x0f))
          = (ucast (ucast (?l AND 255) :: u8) OR push_bit 8 (ucast (?b1 AND 0x0f)) :: d16)"
        by (rule disjunctive_add_eq_or, rule bit_word_eqI) (auto simp: bit_simps word_255 word_15)
      also have "\<dots> = ?l" by (intro bit_word_eqI) (auto simp: bit_simps word_255 word_15 dest: lb rb)
      finally have l: "ucast (ucast (?l AND 255) :: u8) + push_bit 8 (ucast (?b1 AND 0x0f)) = ?l" .
      have "ucast (drop_bit 4 ?b1) + push_bit 4 (ucast (ucast (drop_bit 4 ?r AND 255) :: u8))
          = (ucast (drop_bit 4 ?b1) OR push_bit 4 (ucast (ucast (drop_bit 4 ?r AND 255) :: u8)) :: d16)"
        by (rule disjunctive_add_eq_or, rule bit_word_eqI) (auto simp: bit_simps word_255 word_15 dest: lb rb)
      also have "\<dots> = ?r"
      proof (rule bit_word_eqI)
        fix n assume "n < LENGTH(16)"
        then show "bit (ucast (drop_bit 4 ?b1) OR push_bit 4 (ucast (ucast (drop_bit 4 ?r AND 255) :: u8)) :: d16) n = bit ?r n"
          by (cases "n < 4") (auto simp: bit_simps word_255 dest: lb rb)
      qed
      finally have r: "ucast (drop_bit 4 ?b1) + push_bit 4 (ucast (ucast (drop_bit 4 ?r AND 255) :: u8)) = ?r" .
      show ?thesis using DEFAULT_POS p assms(3) l r by (simp add: DecodePos_def flag_consts Let_def bs nth_append)
    qed
  qed
qed

definition decoded_cost :: "TokenInfo \<Rightarrow> int" where
  "decoded_cost ti = (if ti_cost_type ti = CAN_USE_SMALL_ENCODING then push_bit 8 (drop_bit 8 (tk_cost (ti_token ti))) else tk_cost (ti_token ti))"

definition decoded_pos :: "TokenInfo \<Rightarrow> TokenInfo \<Rightarrow> TokenInfo" where
  "decoded_pos ti t =
    (case ti_pos_type ti of
       FREQUENT_POS \<Rightarrow> t\<lparr>ti_pos_type := FREQUENT_POS, ti_id_in_frequent_pos_map := ti_id_in_frequent_pos_map ti\<rparr>
     | SAME_AS_PREV_POS \<Rightarrow> t\<lparr>ti_pos_type := SAME_AS_PREV_POS\<rparr>
     | DEFAULT_POS \<Rightarrow> t\<lparr>ti_token := (ti_token t)\<lparr>tk_lid := tk_lid (ti_token ti), tk_rid := tk_rid (ti_token ti)\<rparr>\<rparr>)"

definition decoded_value :: "TokenInfo \<Rightarrow> TokenInfo \<Rightarrow> TokenInfo" where
  "decoded_value ti t =
     (if ti_value_type ti = DEFAULT_VALUE then t\<lparr>ti_value_type := DEFAULT_VALUE, ti_id_in_value_trie := ti_id_in_value_trie ti\<rparr>
      else t\<lparr>ti_value_type := ti_value_type ti\<rparr>)"

definition decoded_attributes :: "TokenInfo \<Rightarrow> TokenInfo \<Rightarrow> TokenInfo" where
  "decoded_attributes ti t =
     (if spelling_flag ti \<noteq> 0 then t\<lparr>ti_token := (ti_token t)\<lparr>tk_attributes := SPELLING_CORRECTION\<rparr>\<rparr> else t)"

definition decoded_info :: "TokenInfo \<Rightarrow> TokenInfo \<Rightarrow> TokenInfo" where
  "decoded_info ti t =
     (let t = decoded_pos ti (decoded_attributes ti t)
      in decoded_value ti (t\<lparr>ti_token := (ti_token t)\<lparr>tk_cost := decoded_cost ti\<rparr>\<rparr>))"

text \<open>The values that are in their ranges before the encoder's own checks.\<close>

definition info_ok :: "TokenInfo \<Rightarrow> bool" where
  "info_ok ti \<longleftrightarrow> 0 \<le> tk_cost (ti_token ti) \<and> ti_id_in_frequent_pos_map ti < 256
     \<and> (ti_value_type ti = DEFAULT_VALUE \<longrightarrow> 0 \<le> ti_id_in_value_trie ti \<and> ti_id_in_value_trie ti < 2 ^ 32)"

lemma drop_bit_cost:
  assumes "0 \<le> (c :: int)" "c \<le> kCostMax" shows "0 \<le> drop_bit 8 c" "drop_bit 8 c < 128"
  using assms by (simp_all add: drop_bit_eq_div kCostMax_def)

lemma uint_cost_byte:
  assumes "0 \<le> c" "c \<le> kCostMax"
  shows "uint (word_of_int (drop_bit 8 c) :: u8) = drop_bit 8 c" "uint (word_of_int (c AND 255) :: u8) = c AND 255"
    "(word_of_int (drop_bit 8 c) :: u8) AND kSmallCostFlag = 0"
    "((word_of_int (drop_bit 8 c) :: u8) OR kSmallCostFlag) AND kSmallCostFlag \<noteq> 0"
    "((word_of_int (drop_bit 8 c) :: u8) OR kSmallCostFlag) AND kSmallCostMask = word_of_int (drop_bit 8 c)"
proof -
  let ?w = "word_of_int (drop_bit 8 c) :: u8"
  show u: "uint ?w = drop_bit 8 c"
    using drop_bit_cost [OF assms] by (simp add: uint_word_of_int_eq take_bit_int_eq_self)
  have "c AND 255 = take_bit 8 c" by (simp add: take_bit_eq_mask mask_eq_exp_minus_1)
  then show "uint (word_of_int (c AND 255) :: u8) = c AND 255" by (simp add: uint_word_of_int_eq)
  have w: "?w AND mask 7 = ?w" using drop_bit_cost [OF assms] u by (simp add: mask_eq_iff)
  have m: "kSmallCostMask = mask 7" by (simp add: kSmallCostMask_def mask_eq_exp_minus_1)
  have z: "mask 7 AND kSmallCostFlag = (0 :: u8)" by (simp add: kSmallCostFlag_def mask_eq_exp_minus_1)
  show 3: "?w AND kSmallCostFlag = 0" using w z by (metis and.assoc and_zero_eq)
  show "(?w OR kSmallCostFlag) AND kSmallCostFlag \<noteq> 0"
    unfolding bit.conj_disj_distrib2 3 by (simp add: kSmallCostFlag_def)
  show "(?w OR kSmallCostFlag) AND kSmallCostMask = ?w"
    unfolding bit.conj_disj_distrib2 m w using z by (simp add: and.commute)
qed

lemma cost_bytes_split: "push_bit 8 (drop_bit 8 c) + (c AND 255) = (c :: int)"
proof -
  have "c AND 255 = c mod 256" using take_bit_eq_mod [of 8 c] by (simp add: take_bit_eq_mask mask_eq_exp_minus_1)
  then show ?thesis by (simp add: push_bit_eq_mult drop_bit_eq_div)
qed

lemma EncodeCost_DecodeCost:
  assumes "EncodeCost ti = Some bs" "0 \<le> tk_cost (ti_token ti)"
  shows "DecodeCost (pre @ bs @ rest) (t, length pre) = (t\<lparr>ti_token := (ti_token t)\<lparr>tk_cost := decoded_cost ti\<rparr>\<rparr>, length (pre @ bs))"
    "(bs @ rest) ! 0 AND kSmallCostFlag \<noteq> 0 \<longleftrightarrow> ti_cost_type ti = CAN_USE_SMALL_ENCODING"
    "length bs = (if ti_cost_type ti = CAN_USE_SMALL_ENCODING then 1 else 2)"
proof -
  let ?c = "tk_cost (ti_token ti)"
  have c: "?c \<le> kCostMax" using assms(1) by (auto simp: EncodeCost_def Let_def split: if_splits)
  note u = uint_cost_byte [OF assms(2) c]
  have bs: "bs = (if ti_cost_type ti = CAN_USE_SMALL_ENCODING then [word_of_int (drop_bit 8 ?c) OR kSmallCostFlag]
      else [word_of_int (drop_bit 8 ?c), word_of_int (?c AND 255)])"
    using assms(1) c by (auto simp: EncodeCost_def Let_def)
  show "length bs = (if ti_cost_type ti = CAN_USE_SMALL_ENCODING then 1 else 2)" by (simp add: bs)
  show "(bs @ rest) ! 0 AND kSmallCostFlag \<noteq> 0 \<longleftrightarrow> ti_cost_type ti = CAN_USE_SMALL_ENCODING" using u(3,4) by (simp add: bs)
  show "DecodeCost (pre @ bs @ rest) (t, length pre) = (t\<lparr>ti_token := (ti_token t)\<lparr>tk_cost := decoded_cost ti\<rparr>\<rparr>, length (pre @ bs))"
    using u cost_bytes_split [of ?c] by (simp add: DecodeCost_def bs decoded_cost_def nth_append)
qed

text \<open>The id: 22 bits in two or three bytes, the upper six in the flags if they are crammed.\<close>

lemma id_bytes:
  fixes v :: u32
  assumes "v \<le> kValueTrieIdMax"
  shows "(push_bit 8 (ucast (ucast (drop_bit 8 v AND 255) :: u8)) OR ucast (ucast (v AND 255) :: u8))
      OR push_bit 16 (ucast (ucast (drop_bit 16 v AND 255) :: u8)) = v"
    "(push_bit 8 (ucast (ucast (drop_bit 8 v AND 255) :: u8)) OR ucast (ucast (v AND 255) :: u8))
      OR push_bit 16 (ucast (ucast (drop_bit 16 v) AND kUpperCrammedIDMask :: u8)) = v"
proof -
  have m: "kValueTrieIdMax = mask 22" by (simp add: kValueTrieIdMax_def mask_eq_exp_minus_1)
  have b: "bit v k \<Longrightarrow> k < 22" for k using bit_mask_le assms unfolding m by blast
  have k: "kUpperCrammedIDMask = mask 6" by (simp add: kUpperCrammedIDMask_def mask_eq_exp_minus_1)
  show "(push_bit 8 (ucast (ucast (drop_bit 8 v AND 255) :: u8)) OR ucast (ucast (v AND 255) :: u8))
      OR push_bit 16 (ucast (ucast (drop_bit 16 v AND 255) :: u8)) = v"
  proof (rule bit_word_eqI)
    fix n assume "n < LENGTH(32)"
    consider "n < 8" | "8 \<le> n" "n < 16" | "16 \<le> n" by linarith
    then show "bit ((push_bit 8 (ucast (ucast (drop_bit 8 v AND 255) :: u8)) OR ucast (ucast (v AND 255) :: u8))
        OR push_bit 16 (ucast (ucast (drop_bit 16 v AND 255) :: u8)) :: u32) n = bit v n"
      by cases (auto simp: bit_simps word_255 dest: b)
  qed
  show "(push_bit 8 (ucast (ucast (drop_bit 8 v AND 255) :: u8)) OR ucast (ucast (v AND 255) :: u8))
      OR push_bit 16 (ucast (ucast (drop_bit 16 v) AND kUpperCrammedIDMask :: u8)) = v"
  proof (rule bit_word_eqI)
    fix n assume "n < LENGTH(32)"
    consider "n < 8" | "8 \<le> n" "n < 16" | "16 \<le> n" by linarith
    then show "bit ((push_bit 8 (ucast (ucast (drop_bit 8 v AND 255) :: u8)) OR ucast (ucast (v AND 255) :: u8))
        OR push_bit 16 (ucast (ucast (drop_bit 16 v) AND kUpperCrammedIDMask :: u8)) :: u32) n = bit v n"
      by cases (auto simp: bit_simps word_255 k dest: b)
  qed
qed

lemma EncodeValueInfo_read_id:
  assumes "EncodeValueInfo ti f = Some (upper, bs)" "f AND kValueTypeFlagMask = 0"
    and "0 \<le> ti_id_in_value_trie ti" "ti_id_in_value_trie ti < 2 ^ 32"
    and "f AND kCrammedIDFlag = 0 \<longleftrightarrow> g AND kCrammedIDFlag = 0"
    and "f AND kCrammedIDFlag \<noteq> 0 \<Longrightarrow> (pre @ bs @ rest) ! 0 AND kUpperCrammedIDMask = upper AND kUpperCrammedIDMask"
  shows "read_id (pre @ bs @ rest) g (length pre) = (word_of_int (ti_id_in_value_trie ti), length (pre @ bs))"
proof -
  define v where "v = (word_of_int (ti_id_in_value_trie ti) :: u32)"
  have le: "v \<le> kValueTrieIdMax"
    using assms(1,2) by (auto simp: EncodeValueInfo_def v_def Let_def kNormalValueFlag_def not_less split: if_splits)
  then have nl: "\<not> kValueTrieIdMax < v" by simp
  show ?thesis
  proof (cases "f AND kCrammedIDFlag = 0")
    case True
    then have "bs = [ucast (v AND 255), ucast (drop_bit 8 v AND 255), ucast (drop_bit 16 v AND 255)]"
      using assms(1,2) nl by (auto simp: EncodeValueInfo_def v_def [symmetric] Let_def kNormalValueFlag_def)
    then show ?thesis unfolding v_def [symmetric]
      using True assms(5) id_bytes(1) [OF le] by (simp add: read_id_def Let_def nth_append)
  next
    case False
    then have bs: "bs = [ucast (v AND 255), ucast (drop_bit 8 v AND 255)]" and u: "upper = ucast (drop_bit 16 v) AND kUpperCrammedIDMask"
      using assms(1,2) nl by (auto simp: EncodeValueInfo_def v_def [symmetric] Let_def kNormalValueFlag_def)
    have z: "(pre @ bs @ rest) ! 0 AND kUpperCrammedIDMask = ucast (drop_bit 16 v) AND kUpperCrammedIDMask"
      using assms(6) [OF False] by (simp add: u and.assoc)
    have n: "(pre @ bs @ rest) ! length pre = ucast (v AND 255)" "(pre @ bs @ rest) ! (length pre + 1) = ucast (drop_bit 8 v AND 255)"
      by (simp_all add: bs nth_append)
    show ?thesis unfolding v_def [symmetric] read_id_def Let_def n z
      using False assms(5) id_bytes(2) [OF le] by (simp add: bs)
  qed
qed

lemma EncodeValueInfo_other:
  assumes "EncodeValueInfo ti f = Some (upper, bs)" "f AND kValueTypeFlagMask \<noteq> 0"
  shows "bs = []" "upper = 0"
  using assms by (auto simp: EncodeValueInfo_def kNormalValueFlag_def)

lemma flags_read:
  assumes "GetFlagsForToken tokens i = Some f" "EncodeValueInfo (tokens ! i) f = Some (upper, bs)"
  defines "g \<equiv> ReadFlags (f OR upper)"
  shows "f AND kPosTypeFlagMask = pos_flag (tokens ! i)" "g AND kPosTypeFlagMask = pos_flag (tokens ! i)"
    "f AND kValueTypeFlagMask = value_flag (tokens ! i)" "g AND kValueTypeFlagMask = value_flag (tokens ! i)"
    "g AND kSpellingCorrectionFlag = spelling_flag (tokens ! i)" "g AND kLastTokenFlag = last_flag tokens i"
    "f AND kCrammedIDFlag = 0 \<longleftrightarrow> g AND kCrammedIDFlag = 0"
    "f AND kCrammedIDFlag \<noteq> 0 \<Longrightarrow> (f OR upper) AND kUpperCrammedIDMask = upper AND kUpperCrammedIDMask"
proof -
  let ?ti = "tokens ! i"
  have L: "last_flag tokens i = 0 \<or> last_flag tokens i = 0x80" by (simp add: last_flag_def)
  have S: "spelling_flag ?ti = 0 \<or> spelling_flag ?ti = 0x10" by (simp add: spelling_flag_def)
  note F = GetFlagsForToken_Some(1) [OF assms(1)]
  have "f AND kPosTypeFlagMask = pos_flag ?ti \<and> g AND kPosTypeFlagMask = pos_flag ?ti \<and>
     f AND kValueTypeFlagMask = value_flag ?ti \<and> g AND kValueTypeFlagMask = value_flag ?ti \<and>
     g AND kSpellingCorrectionFlag = spelling_flag ?ti \<and> g AND kLastTokenFlag = last_flag tokens i \<and>
     (f AND kCrammedIDFlag = 0 \<longleftrightarrow> g AND kCrammedIDFlag = 0) \<and>
     (f AND kCrammedIDFlag \<noteq> 0 \<longrightarrow> (f OR upper) AND kUpperCrammedIDMask = upper AND kUpperCrammedIDMask)"
  proof (cases "crammed ?ti")
    case True
    then have z: "spelling_flag ?ti = 0" "pos_flag ?ti = 0" "value_flag ?ti = 0"
      by (simp_all add: crammed_def spelling_flag_def pos_flag_def value_flag_def)
    have f: "f = last_flag tokens i OR kCrammedIDFlag"
      using F True base_flags_crammed [of tokens i] by (simp add: base_flags_def z)
    have f0: "f AND kPosTypeFlagMask = 0" "f AND kValueTypeFlagMask = 0" "f AND kCrammedIDFlag \<noteq> 0"
      using L unfolding f by (elim disjE; simp add: flag_consts)+
    have "upper AND kUpperCrammedIDMask = upper"
      using assms(2) f0 by (auto simp: EncodeValueInfo_def Let_def kNormalValueFlag_def and.assoc split: if_splits)
    then have "f OR upper = last_flag tokens i OR kCrammedIDFlag OR (upper AND kUpperCrammedIDMask)" by (simp add: f or.assoc)
    note c = crammed_flags [OF L this]
    show ?thesis using c f0 z unfolding g_def by simp
  next
    case False
    then have f: "f = base_flags tokens i" and m: "f AND kUpperCrammedIDMask \<noteq> 0" using F base_flags_crammed [of tokens i] by auto
    note p = plain_flags [OF L S flag_values(1) [of ?ti] flag_values(2) [of ?ti] f [unfolded base_flags_def] m]
    have "upper = 0" using assms(2) p(2) by (auto simp: EncodeValueInfo_def Let_def split: if_splits)
    then show ?thesis using p unfolding g_def by simp
  qed
  then show "f AND kPosTypeFlagMask = pos_flag ?ti" "g AND kPosTypeFlagMask = pos_flag ?ti"
    "f AND kValueTypeFlagMask = value_flag ?ti" "g AND kValueTypeFlagMask = value_flag ?ti"
    "g AND kSpellingCorrectionFlag = spelling_flag ?ti" "g AND kLastTokenFlag = last_flag tokens i"
    "f AND kCrammedIDFlag = 0 \<longleftrightarrow> g AND kCrammedIDFlag = 0"
    "f AND kCrammedIDFlag \<noteq> 0 \<Longrightarrow> (f OR upper) AND kUpperCrammedIDMask = upper AND kUpperCrammedIDMask"
    by simp_all
qed

lemma EncodeToken_Some:
  assumes "EncodeToken tokens i = Some bs"
  obtains f upper pos cost vid where "i < length tokens" "GetFlagsForToken tokens i = Some f" "EncodePos (tokens ! i) f = Some pos"
    "EncodeCost (tokens ! i) = Some cost" "EncodeValueInfo (tokens ! i) f = Some (upper, vid)"
    "bs = (f OR upper) # pos @ cost @ vid"
  using assms by (auto simp: EncodeToken_def Let_def bind_eq_Some_conv split: if_splits)

lemma length_EncodePos:
  assumes "EncodePos ti f = Some pos" "f AND kPosTypeFlagMask = pos_flag ti"
  shows "length pos = (if pos_flag ti = kFrequentPosFlag then 1 else if pos_flag ti = kMonoPosFlag then 2
                       else if pos_flag ti = kFullPosFlag then 3 else 0)"
  using assms by (auto simp: EncodePos_def flag_consts Let_def split: if_splits)

text \<open>One token is read back from its bytes whatever follows them, and so many bytes are consumed.\<close>

lemma DecodeToken_EncodeToken:
  assumes "EncodeToken tokens i = Some bs" "info_ok (tokens ! i)"
  shows "DecodeToken (bs @ rest) t = (last_flag tokens i = 0, decoded_info (tokens ! i) t, length bs)"
proof -
  let ?ti = "tokens ! i"
  from assms(1) obtain f upper pos cost vid where e: "GetFlagsForToken tokens i = Some f" "EncodePos ?ti f = Some pos"
    "EncodeCost ?ti = Some cost" "EncodeValueInfo ?ti f = Some (upper, vid)" "bs = (f OR upper) # pos @ cost @ vid"
    by (rule EncodeToken_Some)
  let ?p = "bs @ rest" and ?g = "ReadFlags (f OR upper)"
  note F = flags_read [OF e(1,4)]
  note ok = assms(2) [unfolded info_ok_def]
  define t1 where "t1 = decoded_attributes ?ti t"
  define t2 where "t2 = decoded_pos ?ti t1"
  define t3 where "t3 = t2\<lparr>ti_token := (ti_token t2)\<lparr>tk_cost := decoded_cost ?ti\<rparr>\<rparr>"
  have p0: "?p ! 0 = f OR upper" by (simp add: e(5))
  have a: "(if ?g AND kSpellingCorrectionFlag \<noteq> 0 then t\<lparr>ti_token := (ti_token t)\<lparr>tk_attributes := SPELLING_CORRECTION\<rparr>\<rparr> else t) = t1"
    by (simp add: F(5) t1_def decoded_attributes_def)
  have b: "DecodePos ?p ?g (t1, 1) = (t2, Suc (length pos))"
    using EncodePos_DecodePos [OF e(2) F(1,2) GetFlagsForToken_Some(2,3) [OF e(1)], of "[f OR upper]" "cost @ vid @ rest" t1] ok
    by (simp add: e(5) t2_def decoded_pos_def)
  have c: "DecodeCost ?p (t2, Suc (length pos)) = (t3, Suc (length pos + length cost))"
    using EncodeCost_DecodeCost(1) [OF e(3), of "(f OR upper) # pos" "vid @ rest" t2] ok by (simp add: e(5) t3_def)
  have d: "DecodeValueInfo ?p ?g (t3, Suc (length pos + length cost)) = (decoded_value ?ti t3, length bs)"
  proof (cases "ti_value_type ?ti = DEFAULT_VALUE")
    case True
    then have v: "value_flag ?ti = 0" by (simp add: value_flag_def)
    have "read_id ?p ?g (Suc (length pos + length cost)) = (word_of_int (ti_id_in_value_trie ?ti), length bs)"
      using EncodeValueInfo_read_id [OF e(4), of ?g "(f OR upper) # pos @ cost" rest] F(3,7,8) v ok True by (simp add: e(5))
    then show ?thesis using True v F(4) ok
      by (simp add: DecodeValueInfo_def flag_consts Let_def decoded_value_def uint_word_of_int_eq take_bit_int_eq_self)
  next
    case False
    then have v: "value_flag ?ti \<noteq> 0" by (cases "ti_value_type ?ti") (simp_all add: value_flag_def)
    have "vid = []" using EncodeValueInfo_other [OF e(4)] F(3) v by simp
    then show ?thesis using False F(4)
      by (cases "ti_value_type ?ti") (simp_all add: DecodeValueInfo_def flag_consts Let_def decoded_value_def value_flag_def e(5))
  qed
  show ?thesis unfolding DecodeToken_def Let_def p0 a b c d F(6)
    by (simp add: decoded_info_def Let_def t1_def t2_def t3_def)
qed

lemma ReadTokenForReverseLookup_EncodeToken:
  assumes "EncodeToken tokens i = Some bs" "info_ok (tokens ! i)"
  shows "ReadTokenForReverseLookup (bs @ rest) =
    (last_flag tokens i = 0, if ti_value_type (tokens ! i) = DEFAULT_VALUE then ti_id_in_value_trie (tokens ! i) else -1, length bs)"
proof -
  let ?ti = "tokens ! i"
  from assms(1) obtain f upper pos cost vid where e: "GetFlagsForToken tokens i = Some f" "EncodePos ?ti f = Some pos"
    "EncodeCost ?ti = Some cost" "EncodeValueInfo ?ti f = Some (upper, vid)" "bs = (f OR upper) # pos @ cost @ vid"
    by (rule EncodeToken_Some)
  let ?p = "bs @ rest" and ?g = "ReadFlags (f OR upper)"
  note F = flags_read [OF e(1,4)]
  note ok = assms(2) [unfolded info_ok_def]
  have p0: "?p ! 0 = f OR upper" by (simp add: e(5))
  have pos: "(if pos_flag ?ti = kFrequentPosFlag then 2 else if pos_flag ?ti = kMonoPosFlag then 3
      else if pos_flag ?ti = kFullPosFlag then 4 else 1) = Suc (length pos)"
    using length_EncodePos [OF e(2) F(1)] by simp
  have n: "?p ! Suc (length pos) = (cost @ vid @ rest) ! 0" by (simp add: e(5) nth_append)
  have cost: "(if ?p ! Suc (length pos) AND kSmallCostFlag \<noteq> 0 then Suc (length pos) + 1 else Suc (length pos) + 2)
      = Suc (length pos + length cost)"
    using EncodeCost_DecodeCost(2) [OF e(3), of "vid @ rest"] EncodeCost_DecodeCost(3) [OF e(3)] ok unfolding n by simp
  have d: "ReadValueInfo ?p ?g (Suc (length pos + length cost))
      = (if ti_value_type ?ti = DEFAULT_VALUE then ti_id_in_value_trie ?ti else -1, length bs)"
  proof (cases "ti_value_type ?ti = DEFAULT_VALUE")
    case True
    then have v: "value_flag ?ti = 0" by (simp add: value_flag_def)
    have "read_id ?p ?g (Suc (length pos + length cost)) = (word_of_int (ti_id_in_value_trie ?ti), length bs)"
      using EncodeValueInfo_read_id [OF e(4), of ?g "(f OR upper) # pos @ cost" rest] F(3,7,8) v ok True by (simp add: e(5))
    then show ?thesis using True v F(4) ok
      by (simp add: ReadValueInfo_def flag_consts uint_word_of_int_eq take_bit_int_eq_self)
  next
    case False
    then have v: "value_flag ?ti \<noteq> 0" by (cases "ti_value_type ?ti") (simp_all add: value_flag_def)
    have "vid = []" using EncodeValueInfo_other [OF e(4)] F(3) v by simp
    then show ?thesis using False v F(4) by (simp add: ReadValueInfo_def flag_consts e(5))
  qed
  show ?thesis unfolding ReadTokenForReverseLookup_def Let_def p0 F(2) pos cost d F(6) by simp
qed

text \<open>All tokens of a key, read one after the other.\<close>

fun decode_all :: "TokenInfo list \<Rightarrow> u8 list \<Rightarrow> TokenInfo list option" where
  "decode_all [] p = None"
| "decode_all (t # ts) p =
     (case DecodeToken p t of
        (cont, ti, n) \<Rightarrow> if cont then map_option ((#) ti) (decode_all ts (drop n p)) else if ts = [] then Some [ti] else None)"

lemma those_Some_nth:
  "those xs = Some ys \<Longrightarrow> length ys = length xs \<and> (\<forall>i < length xs. xs ! i = Some (ys ! i))"
proof (induction xs arbitrary: ys)
  case (Cons x xs)
  then obtain a as where "x = Some a" "those xs = Some as" "ys = a # as" by (auto split: option.splits)
  then show ?case using Cons.IH [of as] by (auto simp: nth_Cons split: nat.split)
qed simp

lemma EncodeTokens_parts:
  assumes "EncodeTokens tokens = Some bs"
  obtains parts where "bs = concat parts" "length parts = length tokens"
    "\<And>i. i < length tokens \<Longrightarrow> EncodeToken tokens i = Some (parts ! i)"
proof -
  obtain parts where p: "those (map (EncodeToken tokens) [0..<length tokens]) = Some parts" "bs = concat parts"
    using assms by (auto simp: EncodeTokens_def Let_def bind_eq_Some_conv split: if_splits)
  from those_Some_nth [OF p(1)] show thesis by (intro that [OF p(2)]) simp_all
qed

lemma last_flag_iff: "i < length tokens \<Longrightarrow> last_flag tokens i = 0 \<longleftrightarrow> Suc i < length tokens"
  by (auto simp: last_flag_def)

lemma decode_all_parts:
  assumes "\<And>i. i < length tokens \<Longrightarrow> EncodeToken tokens i = Some (parts ! i)" "\<forall>ti \<in> set tokens. info_ok ti"
    and "length parts = length tokens" "length ts = length tokens" "n < length tokens"
  shows "decode_all (drop n ts) (concat (drop n parts) @ rest) = Some (map2 decoded_info (drop n tokens) (drop n ts))"
  using assms(5)
proof (induction "length tokens - Suc n" arbitrary: n)
  case 0
  then have n: "Suc n = length tokens" by simp
  have d: "drop n ts = [ts ! n]" "drop n tokens = [tokens ! n]" "drop n parts = [parts ! n]"
    using Cons_nth_drop_Suc [of n ts] Cons_nth_drop_Suc [of n tokens] Cons_nth_drop_Suc [of n parts] n assms(3,4) by simp_all
  have "DecodeToken (parts ! n @ rest) (ts ! n) = (False, decoded_info (tokens ! n) (ts ! n), length (parts ! n))"
    using DecodeToken_EncodeToken [OF assms(1) [OF 0(2)], of rest "ts ! n"] assms(2) nth_mem [OF 0(2)] last_flag_iff [OF 0(2)] n by simp
  then show ?case unfolding d by simp
next
  case (Suc k)
  then have n: "Suc n < length tokens" by simp
  have d: "drop n ts = ts ! n # drop (Suc n) ts" "drop n tokens = tokens ! n # drop (Suc n) tokens" "drop n parts = parts ! n # drop (Suc n) parts"
    using Cons_nth_drop_Suc [of n ts] Cons_nth_drop_Suc [of n tokens] Cons_nth_drop_Suc [of n parts] n assms(3,4) by simp_all
  have "DecodeToken (parts ! n @ concat (drop (Suc n) parts) @ rest) (ts ! n) = (True, decoded_info (tokens ! n) (ts ! n), length (parts ! n))"
    using DecodeToken_EncodeToken [OF assms(1) [OF Suc.prems]] assms(2) nth_mem [OF Suc.prems] last_flag_iff [OF Suc.prems] n by simp
  then show ?case unfolding d using Suc.hyps(1) [OF _ n] Suc.hyps(2) by simp
qed

subsection \<open>The first byte\<close>

text \<open>The flags of a token that is alone: either the six lower bits are free for the id, or the byte cannot be 0xff.\<close>

definition crams :: "TokenInfo \<Rightarrow> bool" where
  "crams ti \<longleftrightarrow> ti_pos_type ti = FREQUENT_POS \<and> ti_value_type ti = DEFAULT_VALUE \<and>
     tk_attributes (ti_token ti) AND SPELLING_CORRECTION = 0"

definition refers_back :: "TokenInfo \<Rightarrow> bool" where
  "refers_back ti \<longleftrightarrow> ti_pos_type ti = SAME_AS_PREV_POS \<or> ti_value_type ti = SAME_AS_PREV_VALUE"

lemma flags_refer_back: "refers_back ti \<Longrightarrow> GetFlagsForToken [ti] 0 = None"
  by (cases "ti_pos_type ti"; cases "ti_value_type ti")
    (auto simp: refers_back_def GetFlagsForToken_def GetFlagForPos_def GetFlagForValue_def Let_def flag_consts
      bit.conj_disj_distrib2 bind_eq_None_conv split: if_splits)

lemma flags_cram:
  assumes "crams ti" "tk_lid (ti_token ti) \<le> kPosMax" "tk_rid (ti_token ti) \<le> kPosMax"
  shows "GetFlagsForToken [ti] 0 = Some 0xc0"
  using assms by (simp add: crams_def GetFlagsForToken_def GetFlagForPos_def GetFlagForValue_def Let_def flag_consts not_less [symmetric])

lemma flags_no_cram:
  assumes "\<not> crams ti" "\<not> refers_back ti" "tk_lid (ti_token ti) \<le> kPosMax" "tk_rid (ti_token ti) \<le> kPosMax"
  shows "\<exists>f. GetFlagsForToken [ti] 0 = Some f \<and> f \<noteq> 0xff \<and> f AND kCrammedIDFlag = 0 \<and>
    (f AND kPosTypeFlagMask = kFrequentPosFlag \<longrightarrow> ti_pos_type ti = FREQUENT_POS) \<and> f AND kPosTypeFlagMask \<in> {0, 4, 8} \<and>
    (f AND kValueTypeFlagMask = kNormalValueFlag \<longrightarrow> ti_value_type ti = DEFAULT_VALUE)"
  using assms
  by (cases "tk_attributes (ti_token ti) AND SPELLING_CORRECTION = 0"; cases "ti_pos_type ti"; cases "ti_value_type ti";
      cases "tk_lid (ti_token ti) = tk_rid (ti_token ti)")
    (simp_all add: crams_def refers_back_def GetFlagsForToken_def GetFlagForPos_def GetFlagForValue_def Let_def flag_consts not_less [symmetric])

lemma EncodeTokens_single:
  assumes "GetFlagsForToken [ti] 0 = Some f" "EncodePos ti f = Some p" "EncodeCost ti = Some c" "EncodeValueInfo ti f = Some (u, vs)"
  shows "EncodeTokens [ti] = (if f OR u = 0xff then None else Some ((f OR u) # p @ c @ vs))"
  using assms by (simp add: EncodeTokens_def EncodeToken_def kTokenTerminationFlag_def)

lemma EncodeCost_ok:
  assumes "tk_cost (ti_token ti) \<le> kCostMax"
  obtains c where "EncodeCost ti = Some c"
  using assms by (cases "ti_cost_type ti = CAN_USE_SMALL_ENCODING") (auto simp: EncodeCost_def Let_def)

lemma EncodePos_ok:
  assumes "f AND kPosTypeFlagMask \<in> {0, 4, 8}" "f AND kPosTypeFlagMask = kFrequentPosFlag \<Longrightarrow> 0 \<le> ti_id_in_frequent_pos_map ti"
  obtains p where "EncodePos ti f = Some p"
  using assms by (auto simp: EncodePos_def Let_def flag_consts)

lemma value_id_ok:
  assumes "0 \<le> v" "v \<le> 0x3fffff"
  shows "uint (word_of_int v :: u32) = v" "\<not> kValueTrieIdMax < (word_of_int v :: u32)"
proof -
  show u: "uint (word_of_int v :: u32) = v" using assms by (simp add: uint_word_of_int_eq take_bit_int_eq_self)
  then show "\<not> kValueTrieIdMax < (word_of_int v :: u32)" using assms by (simp add: word_less_def kValueTrieIdMax_def)
qed

lemma crammed_byte:
  assumes "0 \<le> v" "v \<le> 0x3fffff"
  defines "h \<equiv> ucast (drop_bit 16 (word_of_int v :: u32)) :: u8"
  shows "0xc0 OR (h AND kUpperCrammedIDMask) = 0xff \<longleftrightarrow> 0x3f0000 \<le> v"
proof -
  note u = value_id_ok(1) [OF assms(1,2)]
  have "uint h = take_bit 8 (drop_bit 16 (uint (word_of_int v :: u32)))"
    unfolding h_def by (simp add: unsigned_ucast_eq unsigned_drop_bit_eq drop_bit_take_bit)
  also have "\<dots> = take_bit 8 (drop_bit 16 v)" by (simp only: u)
  also have "\<dots> = v div 65536" using assms by (subst take_bit_int_eq_self) (auto simp: drop_bit_eq_div)
  finally have uh: "uint h = v div 65536" .
  have k: "kUpperCrammedIDMask = mask 6" by (simp add: kUpperCrammedIDMask_def mask_eq_exp_minus_1)
  have h6: "h AND kUpperCrammedIDMask = h" using uh assms unfolding k by (subst mask_eq_iff) simp
  have "0xc0 OR h = 0xff \<longleftrightarrow> h = 0x3f"
  proof
    assume "0xc0 OR h = 0xff"
    then have "(0xc0 OR h) AND kUpperCrammedIDMask = 0xff AND kUpperCrammedIDMask" by simp
    then show "h = 0x3f" unfolding bit.conj_disj_distrib2 h6 by (simp add: kUpperCrammedIDMask_def)
  qed simp
  moreover have "h = 0x3f \<longleftrightarrow> v div 65536 = 63" using uh by (auto simp: word_uint_eq_iff)
  ultimately show ?thesis using assms h6 by auto
qed

lemma EncodeValueInfo_crammed:
  assumes "0 \<le> v" "v \<le> 0x3fffff" "ti_id_in_value_trie ti = v"
  obtains vs where "EncodeValueInfo ti 0xc0 = Some (ucast (drop_bit 16 (word_of_int v :: u32)) AND kUpperCrammedIDMask, vs)"
  using value_id_ok [OF assms(1,2)] assms(3) by (auto simp: EncodeValueInfo_def Let_def flag_consts)

lemma EncodeValueInfo_plain:
  assumes "f AND kCrammedIDFlag = 0"
    and "f AND kValueTypeFlagMask = kNormalValueFlag \<Longrightarrow> 0 \<le> ti_id_in_value_trie ti \<and> ti_id_in_value_trie ti \<le> 0x3fffff"
  obtains vs where "EncodeValueInfo ti f = Some (0, vs)"
  using assms value_id_ok(2) [of "ti_id_in_value_trie ti"]
  by (cases "f AND kValueTypeFlagMask = kNormalValueFlag") (auto simp: EncodeValueInfo_def Let_def)

text \<open>
  \<open>C37\<close>: The encoder stops the build of a dictionary on a value id that the format allows. The comment on the
  flags says that the first byte of a key cannot be the termination flag 0xff, but the byte may also hold the upper
  six bits of the value id. Take one token, the only one of its key, that is in the ranges of the format (ids of
  the parts of speech at most 0x0fff, cost at most 0x7fff, a frequent part of speech with its number, a value with
  an id from 0 to 0x3fffff). The \<^verbatim>\<open>CHECK\<close>s of \<^verbatim>\<open>EncodeTokens\<close> fail for exactly two reasons: the token refers to a token
  before it, which does not exist; or it has a frequent part of speech, an ordinary value and no spelling correction, and
  its value id is 0x3f0000 or more.
\<close>

theorem EncodeTokens_first_byte:
  assumes "tk_lid (ti_token ti) \<le> kPosMax" and "tk_rid (ti_token ti) \<le> kPosMax" and "tk_cost (ti_token ti) \<le> kCostMax"
    and "ti_pos_type ti = FREQUENT_POS \<longrightarrow> 0 \<le> ti_id_in_frequent_pos_map ti"
    and "ti_value_type ti = DEFAULT_VALUE \<longrightarrow> 0 \<le> ti_id_in_value_trie ti \<and> ti_id_in_value_trie ti \<le> uint kValueTrieIdMax"
  shows "EncodeTokens [ti] = None \<longleftrightarrow>
    ti_pos_type ti = SAME_AS_PREV_POS \<or> ti_value_type ti = SAME_AS_PREV_VALUE \<or>
    ti_pos_type ti = FREQUENT_POS \<and> ti_value_type ti = DEFAULT_VALUE \<and>
      tk_attributes (ti_token ti) AND SPELLING_CORRECTION = 0 \<and> 0x3f0000 \<le> ti_id_in_value_trie ti"
proof -
  from EncodeCost_ok [OF assms(3)] obtain c where c: "EncodeCost ti = Some c" .
  consider "refers_back ti" | "crams ti" | "\<not> crams ti" "\<not> refers_back ti" by blast
  then show ?thesis
  proof cases
    case 1
    then show ?thesis using flags_refer_back [OF 1] by (auto simp: refers_back_def EncodeTokens_def EncodeToken_def)
  next
    case 2
    have v: "0 \<le> ti_id_in_value_trie ti" "ti_id_in_value_trie ti \<le> 0x3fffff"
      using 2 assms(5) by (simp_all add: crams_def kValueTrieIdMax_def)
    from EncodePos_ok [of "0xc0" ti] 2 assms(4) obtain p where p: "EncodePos ti 0xc0 = Some p"
      by (auto simp: crams_def flag_consts)
    from EncodeValueInfo_crammed [OF v refl] obtain vs where "EncodeValueInfo ti 0xc0 =
      Some (ucast (drop_bit 16 (word_of_int (ti_id_in_value_trie ti) :: u32)) AND kUpperCrammedIDMask, vs)" .
    from EncodeTokens_single [OF flags_cram [OF 2 assms(1,2)] p c this]
    show ?thesis using 2 crammed_byte [OF v] by (simp add: crams_def)
  next
    case 3
    from flags_no_cram [OF 3 assms(1,2)] obtain f where f: "GetFlagsForToken [ti] 0 = Some f" "f \<noteq> 0xff"
      "f AND kCrammedIDFlag = 0" "f AND kPosTypeFlagMask = kFrequentPosFlag \<longrightarrow> ti_pos_type ti = FREQUENT_POS"
      "f AND kPosTypeFlagMask \<in> {0, 4, 8}" "f AND kValueTypeFlagMask = kNormalValueFlag \<longrightarrow> ti_value_type ti = DEFAULT_VALUE"
      by (elim exE conjE)
    from EncodePos_ok [OF f(5), of ti] f(4) assms(4) obtain p where p: "EncodePos ti f = Some p" by blast
    from EncodeValueInfo_plain [OF f(3), of ti] f(6) assms(5) obtain vs where "EncodeValueInfo ti f = Some (0, vs)"
      by (auto simp: kValueTrieIdMax_def)
    from EncodeTokens_single [OF f(1) p c this] show ?thesis using f(2) 3 by (auto simp: crams_def refers_back_def)
  qed
qed

text \<open>The token of an entry with an empty key and value, with a frequent part of speech and the value id \<open>v\<close>.\<close>

definition first_token_crammed :: "int \<Rightarrow> TokenInfo" where
  "first_token_crammed v = (NewTokenInfo NewToken)\<lparr>ti_pos_type := FREQUENT_POS, ti_id_in_frequent_pos_map := 0, ti_id_in_value_trie := v\<rparr>"

theorem EncodeTokens_first_byte_witness:
  "EncodeTokens [first_token_crammed 0x3f0000] = None"
  using EncodeTokens_first_byte [of "first_token_crammed 0x3f0000"]
  by (simp add: first_token_crammed_def NewTokenInfo_def NewToken_def kValueTrieIdMax_def kPosMax_def kCostMax_def SPELLING_CORRECTION_def)

end
