(* ===== verification/LoudsTrie.thy ===== *)
theory LoudsTrie
  imports BitVector
begin

section \<open>Trees as bit sequences\<close>

text \<open>
  \<^verbatim>\<open>storage/louds/louds.h\<close> and \<^verbatim>\<open>louds.cc\<close>. A node is the position of its bit and its number in
  breadth-first order. The two parts of \<^verbatim>\<open>select_cache_\<close> are two lists, whose lengths are the cache
  sizes.
\<close>

record LoudsNode =
  edge_index :: nat
  node_id :: nat

record Louds =
  ld_index :: BitVectorIndex
  ld_select0_cache :: "nat list"
  ld_select1_cache :: "nat list"

definition root_node :: LoudsNode where
  "root_node = \<lparr>edge_index = 0, node_id = 1\<rparr>"

definition fill_cache :: "(nat \<Rightarrow> nat option) \<Rightarrow> nat \<Rightarrow> nat list option" where
  "fill_cache sel n = (if n = 0 then Some [] else map_option (Cons 0) (those (map sel [1..<n])))"

definition Louds_Init :: "u8 list \<Rightarrow> nat \<Rightarrow> nat \<Rightarrow> nat \<Rightarrow> nat \<Rightarrow> nat \<Rightarrow> Louds option" where
  "Louds_Init data len bitvec_lb0_cache_size bitvec_lb1_cache_size select0_cache_size select1_cache_size =
     (case Init data len 32 bitvec_lb0_cache_size bitvec_lb1_cache_size of
        None \<Rightarrow> None
      | Some index \<Rightarrow>
          (let n0 = min select0_cache_size (GetNum0Bits index); n1 = min select1_cache_size (GetNum1Bits index) in
           case (fill_cache (\<lambda>i. map_option Suc (Select0 index i)) n0, fill_cache (Select1 index) n1) of
             (Some c0, Some c1) \<Rightarrow> Some \<lparr>ld_index = index, ld_select0_cache = c0, ld_select1_cache = c1\<rparr>
           | _ \<Rightarrow> None))"

definition Louds_Reset :: "Louds \<Rightarrow> Louds" where
  "Louds_Reset L = \<lparr>ld_index = sv_Reset (ld_index L), ld_select0_cache = [], ld_select1_cache = []\<rparr>"

definition cached_select0 :: "Louds \<Rightarrow> nat \<Rightarrow> nat option" where
  "cached_select0 L k = (if k < length (ld_select0_cache L) then Some (ld_select0_cache L ! k)
     else map_option Suc (Select0 (ld_index L) k))"

definition cached_select1 :: "Louds \<Rightarrow> nat \<Rightarrow> nat option" where
  "cached_select1 L k = (if k < length (ld_select1_cache L) then Some (ld_select1_cache L ! k)
     else Select1 (ld_index L) k)"

definition InitNodeFromNodeId :: "Louds \<Rightarrow> nat \<Rightarrow> LoudsNode option" where
  "InitNodeFromNodeId L k = map_option (\<lambda>e. \<lparr>edge_index = e, node_id = k\<rparr>) (cached_select1 L k)"

definition IsRoot :: "LoudsNode \<Rightarrow> bool" where
  "IsRoot nd \<longleftrightarrow> node_id nd = 1"

definition MoveToFirstChild :: "Louds \<Rightarrow> LoudsNode \<Rightarrow> LoudsNode option" where
  "MoveToFirstChild L nd =
     map_option (\<lambda>e. \<lparr>edge_index = e, node_id = e + 1 - node_id nd\<rparr>) (cached_select0 L (node_id nd))"

definition MoveToNextSibling :: "LoudsNode \<Rightarrow> LoudsNode" where
  "MoveToNextSibling nd = \<lparr>edge_index = edge_index nd + 1, node_id = node_id nd + 1\<rparr>"

definition MoveToParent :: "Louds \<Rightarrow> LoudsNode \<Rightarrow> LoudsNode option" where
  "MoveToParent L nd =
     (let k = edge_index nd + 1 - node_id nd
      in map_option (\<lambda>e. \<lparr>edge_index = e, node_id = k\<rparr>) (cached_select1 L k))"

definition IsValidNode :: "Louds \<Rightarrow> LoudsNode \<Rightarrow> bool" where
  "IsValidNode L nd \<longleftrightarrow> sv_Get (ld_index L) (edge_index nd) \<noteq> 0"

subsection \<open>The sequence of a tree\<close>

text \<open>
  A tree is given by the degrees of its nodes in breadth-first order; node \<open>k\<close>, from 1, has degree
  \<open>ds ! (k - 1)\<close>. Its children are the nodes from \<open>first_child ds k\<close> on.
\<close>

definition degree_bits :: "nat \<Rightarrow> bool list" where
  "degree_bits d = replicate d True @ [False]"

definition louds_bits :: "nat list \<Rightarrow> bool list" where
  "louds_bits ds = [True, False] @ concat (map degree_bits ds)"

definition first_child :: "nat list \<Rightarrow> nat \<Rightarrow> nat" where
  "first_child ds k = 2 + sum_list (take (k - 1) ds)"

definition louds_start :: "nat list \<Rightarrow> nat \<Rightarrow> nat" where
  "louds_start ds k = 1 + sum_list (take (k - 1) ds) + k"

definition bfs_degrees :: "nat list \<Rightarrow> bool" where
  "bfs_degrees ds \<longleftrightarrow> sum_list ds + 1 = length ds \<and> (\<forall>k < length ds. k < 1 + sum_list (take k ds))"

lemma count_nth: "p \<le> length xs \<Longrightarrow> count_range (\<lambda>i. Q (xs ! i)) 0 p = length (filter Q (take p xs))"
proof (induction p)
  case (Suc p)
  then show ?case by (simp add: count_range_Suc take_Suc_conv_app_nth)
qed (simp add: count_range_def)

lemma filter_degrees:
  "length (filter (\<lambda>b. b) (concat (map degree_bits ds))) = sum_list ds"
  "length (filter Not (concat (map degree_bits ds))) = length ds"
  "length (concat (map degree_bits ds)) = sum_list ds + length ds"
  by (induction ds) (simp_all add: degree_bits_def)

lemma louds_split:
  assumes "0 < k" "k \<le> length ds"
  shows "louds_bits ds = ([True, False] @ concat (map degree_bits (take (k - 1) ds))) @
      degree_bits (ds ! (k - 1)) @ concat (map degree_bits (drop k ds))"
    and "length ([True, False] @ concat (map degree_bits (take (k - 1) ds))) = louds_start ds k"
proof -
  have "ds = take (k - 1) ds @ ds ! (k - 1) # drop k ds" using assms id_take_nth_drop [of "k - 1" ds] by simp
  then have "map degree_bits ds = map degree_bits (take (k - 1) ds) @ degree_bits (ds ! (k - 1)) # map degree_bits (drop k ds)"
    by (metis list.simps(9) map_append)
  then show "louds_bits ds = ([True, False] @ concat (map degree_bits (take (k - 1) ds))) @
      degree_bits (ds ! (k - 1)) @ concat (map degree_bits (drop k ds))"
    by (simp add: louds_bits_def)
  show "length ([True, False] @ concat (map degree_bits (take (k - 1) ds))) = louds_start ds k"
    using assms by (simp add: filter_degrees louds_start_def)
qed

lemma louds_at:
  assumes "0 < k" "k \<le> length ds" "i \<le> ds ! (k - 1)"
  shows "louds_start ds k + i < length (louds_bits ds) \<and>
    (louds_bits ds ! (louds_start ds k + i) \<longleftrightarrow> i < ds ! (k - 1)) \<and>
    count_range (\<lambda>p. louds_bits ds ! p) 0 (louds_start ds k + i) = 1 + sum_list (take (k - 1) ds) + i \<and>
    count_range (\<lambda>p. \<not> louds_bits ds ! p) 0 (louds_start ds k + i) = k"
proof -
  define A where "A = [True, False] @ concat (map degree_bits (take (k - 1) ds))"
  let ?d = "ds ! (k - 1)" and ?r = "concat (map degree_bits (drop k ds))"
  have s: "louds_bits ds = A @ degree_bits ?d @ ?r" "length A = louds_start ds k"
    using louds_split [OF assms(1,2)] by (simp_all only: A_def)
  have lt: "louds_start ds k + i < length (louds_bits ds)"
    using s assms(3) by (simp add: degree_bits_def)
  have "louds_bits ds ! (louds_start ds k + i) = (degree_bits ?d @ ?r) ! i"
    unfolding s(1) nth_append s(2) by simp
  then have at: "louds_bits ds ! (louds_start ds k + i) \<longleftrightarrow> i < ?d"
    using assms(3) by (auto simp: degree_bits_def nth_append)
  have t: "take (louds_start ds k + i) (louds_bits ds) = A @ replicate i True"
    using s assms(3) by (simp add: degree_bits_def min_def)
  show ?thesis
    using lt at count_nth [of "louds_start ds k + i" "louds_bits ds" "\<lambda>b. b"]
      count_nth [of "louds_start ds k + i" "louds_bits ds" Not] assms(1,2)
    unfolding t by (simp add: A_def filter_degrees)
qed

subsection \<open>The operations on a tree\<close>

text \<open>The node with number \<open>k\<close>: its position is that of the k-th set bit.\<close>

definition is_node :: "nat list \<Rightarrow> LoudsNode \<Rightarrow> nat \<Rightarrow> bool" where
  "is_node ds nd k \<longleftrightarrow> node_id nd = k \<and> edge_index nd < length (louds_bits ds) \<and> louds_bits ds ! edge_index nd \<and>
     count_range (\<lambda>p. louds_bits ds ! p) 0 (edge_index nd) + 1 = k"

definition holds_louds :: "u8 list \<Rightarrow> nat \<Rightarrow> nat list \<Rightarrow> bool" where
  "holds_louds data len ds \<longleftrightarrow> length (louds_bits ds) \<le> 8 * len \<and>
     (\<forall>i < length (louds_bits ds). bv data i = louds_bits ds ! i)"

definition louds_ok :: "Louds \<Rightarrow> nat list \<Rightarrow> bool" where
  "louds_ok L ds \<longleftrightarrow> sv_ok (ld_index L) \<and> holds_louds (sv_data (ld_index L)) (sv_length (ld_index L)) ds \<and>
     (\<forall>k > 0. cached_select0 L k = map_option Suc (Select0 (ld_index L) k)) \<and>
     (\<forall>k > 0. cached_select1 L k = Select1 (ld_index L) k)"

lemma those_map: "(\<And>i. i \<in> set xs \<Longrightarrow> \<exists>y. f i = Some y) \<Longrightarrow> those (map f xs) = Some (map (\<lambda>i. the (f i)) xs)"
proof (induction xs)
  case (Cons a xs)
  moreover obtain y where "f a = Some y" using Cons.prems [of a] by auto
  ultimately show ?case by simp
qed simp

lemma fill_cache_correct:
  assumes "\<And>i. 0 < i \<Longrightarrow> i < n \<Longrightarrow> \<exists>y. f i = Some y"
  shows "\<exists>c. fill_cache f n = Some c \<and> length c = n \<and> (\<forall>i < n. 0 < i \<longrightarrow> Some (c ! i) = f i)"
proof (cases "n = 0")
  case True
  then show ?thesis by (simp add: fill_cache_def)
next
  case False
  define c where "c = 0 # map (\<lambda>i. the (f i)) [1..<n]"
  have "fill_cache f n = Some c"
    using False those_map [of "[1..<n]" f] assms by (simp add: fill_cache_def c_def)
  moreover have "Some (c ! i) = f i" if "i < n" "0 < i" for i
  proof -
    have "[1..<n] ! (i - 1) = i" using that by (subst nth_upt) simp_all
    then show ?thesis using assms [of i] that by (auto simp: c_def nth_Cons')
  qed
  moreover have "length c = n" using False by (simp add: c_def)
  ultimately show ?thesis by blast
qed

lemma Louds_Init_ok:
  assumes "4 dvd len" "holds_louds data len ds"
  obtains L where "Louds_Init data len a b c d = Some L" "louds_ok L ds"
proof -
  have "sizes_ok len 32" using assms(1) by (simp add: sizes_ok_def)
  then obtain sv where sv: "Init data len 32 a b = Some sv" "sv_ok sv" "sv_data sv = data" "sv_length sv = len"
    using Init_ok by blast
  have l: "last (sv_index sv) = count_range (bv data) 0 (8 * len)"
    using sv(2-4) good_index_end [of len "sv_chunk_size sv" data "sv_index sv"] by (simp add: sv_ok_def ones_count)
  have z: "GetNum0Bits sv = count_range (\<lambda>i. \<not> bv data i) 0 (8 * len)"
    using l sv(4) by (simp add: GetNum0Bits_def zeros_count ones_count)
  have o: "GetNum1Bits sv = count_range (bv data) 0 (8 * len)"
    using l by (simp add: GetNum1Bits_def)
  let ?n0 = "min c (GetNum0Bits sv)" and ?n1 = "min d (GetNum1Bits sv)"
  obtain c0 where c0: "fill_cache (\<lambda>i. map_option Suc (Select0 sv i)) ?n0 = Some c0" "length c0 = ?n0"
    "\<forall>i < ?n0. 0 < i \<longrightarrow> Some (c0 ! i) = map_option Suc (Select0 sv i)"
  proof -
    have "\<exists>y. map_option Suc (Select0 sv i) = Some y" if "0 < i" "i < ?n0" for i
      using Select0_position [OF sv(2), of i] that sv(3,4) z by auto
    then show thesis using fill_cache_correct [of ?n0 "\<lambda>i. map_option Suc (Select0 sv i)"] that by blast
  qed
  obtain c1 where c1: "fill_cache (Select1 sv) ?n1 = Some c1" "length c1 = ?n1"
    "\<forall>i < ?n1. 0 < i \<longrightarrow> Some (c1 ! i) = Select1 sv i"
  proof -
    have "\<exists>y. Select1 sv i = Some y" if "0 < i" "i < ?n1" for i
      using Select1_position [OF sv(2), of i] that sv(3,4) o by auto
    then show thesis using fill_cache_correct [of ?n1 "Select1 sv"] that by blast
  qed
  define L where "L = \<lparr>ld_index = sv, ld_select0_cache = c0, ld_select1_cache = c1\<rparr>"
  have "Louds_Init data len a b c d = Some L" using sv(1) c0(1) c1(1) by (simp add: Louds_Init_def L_def Let_def)
  moreover have "louds_ok L ds"
    using sv assms(2) c0(2,3) c1(2,3) by (simp add: louds_ok_def L_def cached_select0_def cached_select1_def)
  ultimately show thesis using that by blast
qed

lemma louds_first: "louds_bits ds ! 0 \<and> \<not> louds_bits ds ! 1 \<and> 1 < length (louds_bits ds)"
  by (simp add: louds_bits_def)

lemma holds_count:
  assumes "holds_louds data len ds" "p \<le> length (louds_bits ds)"
  shows "count_range (bv data) 0 p = count_range (\<lambda>i. louds_bits ds ! i) 0 p"
    and "count_range (\<lambda>i. \<not> bv data i) 0 p = count_range (\<lambda>i. \<not> louds_bits ds ! i) 0 p"
  using assms unfolding count_range_def
  by (auto intro!: arg_cong [where f = length] filter_upt_cong simp: holds_louds_def)

lemma select_node:
  assumes "louds_ok L ds" "is_node ds nd k"
  shows "cached_select1 L k = Some (edge_index nd)"
proof -
  have h: "sv_ok (ld_index L)" "holds_louds (sv_data (ld_index L)) (sv_length (ld_index L)) ds"
    "cached_select1 L k = Select1 (ld_index L) k"
    using assms by (auto simp: louds_ok_def is_node_def)
  then show ?thesis
    using sv.select1_at [OF h(1), of "edge_index nd"] assms(2) holds_count(1) [OF h(2), of "edge_index nd"]
    by (auto simp: is_node_def holds_louds_def)
qed

lemma select_start:
  assumes "louds_ok L ds" "0 < k" "k \<le> length ds"
  shows "cached_select0 L k = Some (louds_start ds k)"
proof -
  have h: "sv_ok (ld_index L)" "holds_louds (sv_data (ld_index L)) (sv_length (ld_index L)) ds"
    "cached_select0 L k = map_option Suc (Select0 (ld_index L) k)"
    using assms by (auto simp: louds_ok_def)
  obtain p where p: "louds_start ds k = Suc p" "p < length (louds_bits ds)" "\<not> louds_bits ds ! p"
    "count_range (\<lambda>i. \<not> louds_bits ds ! i) 0 p + 1 = k"
  proof (cases "k = 1")
    case True
    have "count_range (\<lambda>i. \<not> louds_bits ds ! i) 0 1 = 0" by (simp add: count_range_def louds_bits_def)
    then show thesis using that [of 1] True louds_first [of ds] assms(3) by (auto simp: louds_start_def)
  next
    case False
    then have k: "0 < k - 1" "k - 1 \<le> length ds" using assms by auto
    let ?d = "ds ! (k - 1 - 1)"
    have e: "louds_start ds k = Suc (louds_start ds (k - 1) + ?d)"
    proof -
      have "take (k - 1) ds = take (k - 1 - 1) ds @ [?d]"
        using k take_Suc_conv_app_nth [of "k - 1 - 1" ds] by (simp add: Suc_diff_Suc numeral_2_eq_2)
      then show ?thesis using k by (simp add: louds_start_def)
    qed
    show thesis
      by (rule that [OF e]) (use louds_at [OF k order.refl] k in auto)
  qed
  have "Select0 (ld_index L) k = Some p"
    using sv.select0_at [OF h(1), of p] p(2-4) h(2) holds_count(2) [OF h(2), of p] by (auto simp: holds_louds_def)
  then show ?thesis using h(3) p(1) by simp
qed

lemma valid_iff:
  assumes "louds_ok L ds" "edge_index nd < length (louds_bits ds)"
  shows "IsValidNode L nd \<longleftrightarrow> louds_bits ds ! edge_index nd"
  unfolding IsValidNode_def sv_Get_bv using assms by (simp add: louds_ok_def holds_louds_def)

lemma is_node_unique: "is_node ds nd k \<Longrightarrow> is_node ds nd' k \<Longrightarrow> nd = nd'"
  using count_range_inj [of "\<lambda>p. louds_bits ds ! p" "edge_index nd" "edge_index nd'"]
  by (auto simp: is_node_def intro: LoudsNode.equality)

lemma child_at:
  assumes "0 < k" "k \<le> length ds" "i < ds ! (k - 1)"
  shows "is_node ds \<lparr>edge_index = louds_start ds k + i, node_id = first_child ds k + i\<rparr> (first_child ds k + i)"
  using louds_at [OF assms(1,2), of i] assms(3) by (simp add: is_node_def first_child_def)

lemma child_edge:
  assumes "is_node ds nd (first_child ds k + i)" "0 < k" "k \<le> length ds" "i < ds ! (k - 1)"
  shows "nd = \<lparr>edge_index = louds_start ds k + i, node_id = first_child ds k + i\<rparr>"
  using is_node_unique [OF assms(1) child_at] assms(2-4) by simp

lemma root_is_node: "is_node ds root_node 1"
  using louds_first [of ds] by (simp add: is_node_def root_node_def louds_bits_def)

lemma MoveToFirstChild_correct:
  assumes "louds_ok L ds" "is_node ds nd k" "0 < k" "k \<le> length ds"
  shows "\<exists>f. MoveToFirstChild L nd = Some f \<and> (IsValidNode L f \<longleftrightarrow> 0 < ds ! (k - 1)) \<and>
    (0 < ds ! (k - 1) \<longrightarrow> is_node ds f (first_child ds k))"
proof -
  let ?f = "\<lparr>edge_index = louds_start ds k, node_id = first_child ds k\<rparr>"
  have "MoveToFirstChild L nd = Some ?f"
    using select_start [OF assms(1,3,4)] assms(2) by (simp add: MoveToFirstChild_def is_node_def louds_start_def first_child_def)
  moreover have "IsValidNode L ?f \<longleftrightarrow> 0 < ds ! (k - 1)"
    using valid_iff [OF assms(1), of ?f] louds_at [OF assms(3,4), of 0] by simp
  ultimately show ?thesis using child_at [OF assms(3,4), of 0] by auto
qed

lemma MoveToNextSibling_correct:
  assumes "louds_ok L ds" "is_node ds nd (first_child ds k + i)" "0 < k" "k \<le> length ds" "i < ds ! (k - 1)"
  shows "(IsValidNode L (MoveToNextSibling nd) \<longleftrightarrow> i + 1 < ds ! (k - 1)) \<and>
    (i + 1 < ds ! (k - 1) \<longrightarrow> is_node ds (MoveToNextSibling nd) (first_child ds k + i + 1))"
proof -
  have n: "MoveToNextSibling nd = \<lparr>edge_index = louds_start ds k + (i + 1), node_id = first_child ds k + (i + 1)\<rparr>"
    using child_edge [OF assms(2-5)] by (simp add: MoveToNextSibling_def)
  then have "IsValidNode L (MoveToNextSibling nd) \<longleftrightarrow> i + 1 < ds ! (k - 1)"
    using valid_iff [OF assms(1), of "MoveToNextSibling nd"] louds_at [OF assms(3,4), of "i + 1"] assms(5) by simp
  then show ?thesis using child_at [OF assms(3,4), of "i + 1"] n by auto
qed

lemma bfs_before_child:
  assumes "bfs_degrees ds" "0 < k" "k \<le> length ds"
  shows "k < first_child ds k"
proof -
  have "k - 1 < 1 + sum_list (take (k - 1) ds)" using assms unfolding bfs_degrees_def by auto
  then show ?thesis using assms(2) by (simp add: first_child_def)
qed

lemma count_range_reaches: "0 < k \<Longrightarrow> k \<le> count_range P 0 n \<Longrightarrow> \<exists>p < n. P p \<and> count_range P 0 p + 1 = k"
proof (induction n)
  case (Suc n)
  show ?case
  proof (cases "k \<le> count_range P 0 n")
    case True
    then show ?thesis using Suc less_Suc_eq by blast
  next
    case False
    then have "P n" "count_range P 0 n + 1 = k" using Suc.prems by (auto simp: count_range_Suc split: if_splits)
    then show ?thesis by blast
  qed
qed (simp add: count_range_def)

lemma node_exists:
  assumes "0 < k" "k \<le> 1 + sum_list ds"
  shows "\<exists>nd. is_node ds nd k"
proof -
  have "count_range (\<lambda>p. louds_bits ds ! p) 0 (length (louds_bits ds)) = 1 + sum_list ds"
    using count_nth [of "length (louds_bits ds)" "louds_bits ds" "\<lambda>b. b"] by (simp add: louds_bits_def filter_degrees)
  then obtain p where "p < length (louds_bits ds)" "louds_bits ds ! p" "count_range (\<lambda>p. louds_bits ds ! p) 0 p + 1 = k"
    using count_range_reaches [of k "\<lambda>p. louds_bits ds ! p" "length (louds_bits ds)"] assms by auto
  then have "is_node ds \<lparr>edge_index = p, node_id = k\<rparr> k" by (simp add: is_node_def)
  then show ?thesis by blast
qed

lemma MoveToParent_correct:
  assumes "louds_ok L ds" "bfs_degrees ds" "is_node ds nd (first_child ds k + i)" "0 < k" "k \<le> length ds" "i < ds ! (k - 1)"
  shows "\<exists>p. MoveToParent L nd = Some p \<and> is_node ds p k"
proof -
  obtain p where p: "is_node ds p k" using node_exists [of k ds] assms(2,4,5) by (auto simp: bfs_degrees_def)
  have "edge_index nd + 1 - node_id nd = k"
    using child_edge [OF assms(3-6)] by (simp add: louds_start_def first_child_def)
  then have "MoveToParent L nd = Some p"
    using select_node [OF assms(1) p] p by (simp add: MoveToParent_def is_node_def)
  then show ?thesis using p by blast
qed

section \<open>Tries\<close>

text \<open>
  \<^verbatim>\<open>storage/louds/louds_trie.h\<close> and \<^verbatim>\<open>louds_trie.cc\<close>. Characters are bytes. \<open>None\<close> stands for a failed
  \<^verbatim>\<open>CHECK\<close>, for a read that the code does not guard, and for a loop that does not end.
\<close>

record LoudsTrie =
  lt_louds :: Louds
  lt_terminal :: BitVectorIndex
  lt_edge_character :: "u8 list"

text \<open>A 32-bit size that is read into an \<^verbatim>\<open>int\<close>.\<close>

definition load_int :: "u8 list \<Rightarrow> nat \<Rightarrow> int" where
  "load_int data offset = sint (LoadUnaligned32 data offset)"

text \<open>A negative size, which would place the sections before the image, is undefined behaviour (\<open>None\<close>).\<close>

definition Open :: "u8 list \<Rightarrow> nat \<Rightarrow> nat \<Rightarrow> nat \<Rightarrow> nat \<Rightarrow> nat \<Rightarrow> LoudsTrie option" where
  "Open data louds_lb0_cache_size louds_lb1_cache_size louds_select0_cache_size louds_select1_cache_size termvec_lb1_cache_size =
     (let louds_size = load_int data 0; terminal_size = load_int data 4;
          num_character_bits = load_int data 8; edge_character_size = load_int data 12
      in if num_character_bits \<noteq> 8 \<or> \<not> edge_character_size > 0 then None
         else if louds_size < 0 \<or> terminal_size < 0 then None
         else
           let louds_image = drop 16 data; terminal_image = drop (nat louds_size) louds_image;
               edge_character = drop (nat terminal_size) terminal_image
           in case (Louds_Init louds_image (nat louds_size) louds_lb0_cache_size louds_lb1_cache_size
                      louds_select0_cache_size louds_select1_cache_size,
                    Init terminal_image (nat terminal_size) 32 0 termvec_lb1_cache_size) of
             (Some L, Some t) \<Rightarrow> Some \<lparr>lt_louds = L, lt_terminal = t, lt_edge_character = edge_character\<rparr>
           | _ \<Rightarrow> None)"

definition LoudsTrie_Close :: "LoudsTrie \<Rightarrow> LoudsTrie" where
  "LoudsTrie_Close T = \<lparr>lt_louds = Louds_Reset (lt_louds T), lt_terminal = sv_Reset (lt_terminal T), lt_edge_character = []\<rparr>"

definition IsTerminalNode :: "LoudsTrie \<Rightarrow> LoudsNode \<Rightarrow> bool" where
  "IsTerminalNode T nd \<longleftrightarrow> sv_Get (lt_terminal T) (node_id nd - 1) \<noteq> 0"

definition GetEdgeLabelToParentNode :: "LoudsTrie \<Rightarrow> LoudsNode \<Rightarrow> u8" where
  "GetEdgeLabelToParentNode T nd = lt_edge_character T ! (node_id nd - 1)"

definition GetKeyIdOfTerminalNode :: "LoudsTrie \<Rightarrow> LoudsNode \<Rightarrow> nat" where
  "GetKeyIdOfTerminalNode T nd = Rank1 (lt_terminal T) (node_id nd - 1)"

definition GetTerminalNodeFromKeyId :: "LoudsTrie \<Rightarrow> nat \<Rightarrow> LoudsNode option" where
  "GetTerminalNodeFromKeyId T key_id =
     Option.bind (Select1 (lt_terminal T) (key_id + 1)) (\<lambda>p. InitNodeFromNodeId (lt_louds T) (p + 1))"

partial_function (option) child_loop :: "LoudsTrie \<Rightarrow> u8 \<Rightarrow> LoudsNode \<Rightarrow> (bool \<times> LoudsNode) option" where
  "child_loop T label nd =
     (if \<not> IsValidNode (lt_louds T) nd then Some (False, nd)
      else if GetEdgeLabelToParentNode T nd = label then Some (True, nd)
      else child_loop T label (MoveToNextSibling nd))"

definition MoveToChildByLabel :: "LoudsTrie \<Rightarrow> u8 \<Rightarrow> LoudsNode \<Rightarrow> (bool \<times> LoudsNode) option" where
  "MoveToChildByLabel T label nd = Option.bind (MoveToFirstChild (lt_louds T) nd) (child_loop T label)"

fun Traverse :: "LoudsTrie \<Rightarrow> u8 list \<Rightarrow> LoudsNode \<Rightarrow> (bool \<times> LoudsNode) option" where
  "Traverse T [] nd = Some (True, nd)"
| "Traverse T (c # key) nd =
     Option.bind (MoveToChildByLabel T c nd) (\<lambda>(found, nd'). if \<not> found then Some (False, nd') else Traverse T key nd')"

definition HasKey :: "LoudsTrie \<Rightarrow> u8 list \<Rightarrow> bool option" where
  "HasKey T key = map_option (\<lambda>(found, nd). found \<and> IsTerminalNode T nd) (Traverse T key root_node)"

definition ExactSearch :: "LoudsTrie \<Rightarrow> u8 list \<Rightarrow> int option" where
  "ExactSearch T key =
     map_option (\<lambda>(found, nd). if found \<and> IsTerminalNode T nd then int (GetKeyIdOfTerminalNode T nd) else -1)
       (Traverse T key root_node)"

text \<open>The calls of the callback of \<^verbatim>\<open>PrefixSearch\<close>, as pairs of the length of the prefix and the node.\<close>

fun prefix_loop :: "LoudsTrie \<Rightarrow> u8 list \<Rightarrow> nat \<Rightarrow> LoudsNode \<Rightarrow> (nat \<times> LoudsNode) list option" where
  "prefix_loop T [] i nd = Some []"
| "prefix_loop T (c # key) i nd =
     Option.bind (MoveToChildByLabel T c nd) (\<lambda>(found, nd').
       if \<not> found then Some []
       else map_option (\<lambda>calls. if IsTerminalNode T nd' then (i + 1, nd') # calls else calls)
              (prefix_loop T key (i + 1) nd'))"

definition PrefixSearch :: "LoudsTrie \<Rightarrow> u8 list \<Rightarrow> (nat \<times> LoudsNode) list option" where
  "PrefixSearch T key = prefix_loop T key 0 root_node"

definition kMaxDepth :: nat where "kMaxDepth = 256"

text \<open>The buffer has room for \<^const>\<open>kMaxDepth\<close> characters; \<open>None\<close> is also a write before its start.\<close>

partial_function (option) climb :: "LoudsTrie \<Rightarrow> LoudsNode \<Rightarrow> u8 list \<Rightarrow> u8 list option" where
  "climb T nd buf =
     (if IsRoot nd then Some buf
      else if length buf = kMaxDepth then None
      else Option.bind (MoveToParent (lt_louds T) nd) (\<lambda>p. climb T p (GetEdgeLabelToParentNode T nd # buf)))"

definition RestoreKeyString :: "LoudsTrie \<Rightarrow> LoudsNode \<Rightarrow> u8 list option" where
  "RestoreKeyString T nd = climb T nd []"

definition RestoreKeyStringFromId :: "LoudsTrie \<Rightarrow> int \<Rightarrow> u8 list option" where
  "RestoreKeyStringFromId T key_id =
     (if key_id < 0 then Some [] else Option.bind (GetTerminalNodeFromKeyId T (nat key_id)) (RestoreKeyString T))"

subsection \<open>What a trie stands for\<close>

text \<open>
  The nodes in breadth-first order, each with the string that leads to it and whether it is the end
  of a word.
\<close>

definition trie_shape :: "nat list \<Rightarrow> u8 list list \<Rightarrow> bool" where
  "trie_shape ds paths \<longleftrightarrow> bfs_degrees ds \<and> length paths = length ds \<and> distinct paths \<and> paths ! 0 = [] \<and>
     (\<forall>k \<in> {1..length ds}. \<forall>i < ds ! (k - 1). \<exists>c. paths ! (first_child ds k + i - 1) = paths ! (k - 1) @ [c])"

definition trie_ok :: "LoudsTrie \<Rightarrow> nat list \<Rightarrow> u8 list list \<Rightarrow> bool list \<Rightarrow> bool" where
  "trie_ok T ds paths ends \<longleftrightarrow> trie_shape ds paths \<and> louds_ok (lt_louds T) ds \<and>
     (\<forall>j < length paths. 0 < j \<longrightarrow> lt_edge_character T ! j = last (paths ! j)) \<and>
     length ends = length paths \<and> sv_ok (lt_terminal T) \<and> length ends \<le> 8 * sv_length (lt_terminal T) \<and>
     (\<forall>j < length ends. bv (sv_data (lt_terminal T)) j = ends ! j)"

definition word_at :: "u8 list list \<Rightarrow> bool list \<Rightarrow> u8 list \<Rightarrow> bool" where
  "word_at paths ends w \<longleftrightarrow> (\<exists>j < length paths. paths ! j = w \<and> ends ! j)"

lemma has_parent:
  assumes "2 \<le> j" "j \<le> 1 + sum_list ds"
  shows "\<exists>k i. 0 < k \<and> k \<le> length ds \<and> i < ds ! (k - 1) \<and> j = first_child ds k + i"
proof -
  have "\<exists>k i. 0 < k \<and> k \<le> n \<and> i < ds ! (k - 1) \<and> j = first_child ds k + i"
    if "n \<le> length ds" "j \<le> 1 + sum_list (take n ds)" for n
    using that
  proof (induction n)
    case (Suc n)
    have t: "take (Suc n) ds = take n ds @ [ds ! n]" using Suc.prems(1) by (simp add: take_Suc_conv_app_nth)
    show ?case
    proof (cases "j \<le> 1 + sum_list (take n ds)")
      case True
      then show ?thesis using Suc by (metis Suc_leD le_SucI)
    next
      case False
      then show ?thesis using Suc.prems(2) t
        by (intro exI [of _ "Suc n"] exI [of _ "j - first_child ds (Suc n)"]) (auto simp: first_child_def)
    qed
  qed (use assms(1) in simp)
  from this [of "length ds"] show ?thesis using assms(2) by simp
qed

lemma child_in_range:
  assumes "0 < k" "k \<le> length ds" "i < ds ! (k - 1)"
  shows "first_child ds k + i \<le> 1 + sum_list ds"
proof -
  have "sum_list ds = sum_list (take (k - 1) ds @ ds ! (k - 1) # drop (Suc (k - 1)) ds)"
    using assms(1,2) by (subst id_take_nth_drop [symmetric]) auto
  then show ?thesis using assms by (simp add: first_child_def)
qed

lemma child_path:
  assumes "trie_ok T ds paths ends" "0 < k" "k \<le> length ds" "i < ds ! (k - 1)"
  shows "paths ! (first_child ds k + i - 1) = paths ! (k - 1) @ [lt_edge_character T ! (first_child ds k + i - 1)]"
proof -
  obtain c where c: "paths ! (first_child ds k + i - 1) = paths ! (k - 1) @ [c]"
    using assms by (fastforce simp: trie_ok_def trie_shape_def)
  have "first_child ds k + i - 1 < length paths" "0 < first_child ds k + i - 1"
    using child_in_range [OF assms(2-4)] assms(1) by (auto simp: trie_ok_def trie_shape_def bfs_degrees_def first_child_def)
  then have "lt_edge_character T ! (first_child ds k + i - 1) = last (paths ! (first_child ds k + i - 1))"
    using assms(1) by (auto simp: trie_ok_def)
  then show ?thesis using c by simp
qed

lemma path_has_child:
  assumes "trie_ok T ds paths ends" "0 < k" "k \<le> length ds" "paths ! (k - 1) @ [c] \<in> set paths"
  shows "\<exists>i < ds ! (k - 1). lt_edge_character T ! (first_child ds k + i - 1) = c"
proof -
  have s: "trie_shape ds paths" using assms(1) by (simp add: trie_ok_def)
  obtain j where j: "j < length paths" "paths ! j = paths ! (k - 1) @ [c]" using assms(4) by (metis in_set_conv_nth)
  have "j \<noteq> 0"
  proof
    assume "j = 0"
    then show False using s j(2) by (simp add: trie_shape_def)
  qed
  then obtain k' i where k': "0 < k'" "k' \<le> length ds" "i < ds ! (k' - 1)" "j + 1 = first_child ds k' + i"
    using has_parent [of "j + 1" ds] s j(1) by (auto simp: trie_shape_def bfs_degrees_def)
  then have jj: "j = first_child ds k' + i - 1" by simp
  have "paths ! (k' - 1) = paths ! (k - 1)" "lt_edge_character T ! j = c"
    using child_path [OF assms(1) k'(1-3)] j(2) jj by auto
  then have "k' - 1 = k - 1" using s k'(1,2) assms(2,3)
    by (auto simp: trie_shape_def nth_eq_iff_index_eq)
  then have "k' = k" using k'(1) assms(2) by simp
  then show ?thesis using k'(3) jj \<open>lt_edge_character T ! j = c\<close> by blast
qed

lemma child_loop_correct:
  assumes "trie_ok T ds paths ends" "0 < k" "k \<le> length ds"
    and "i < ds ! (k - 1)" "is_node ds nd (first_child ds k + i)"
    and "\<forall>i' < i. lt_edge_character T ! (first_child ds k + i' - 1) \<noteq> c"
  shows "\<exists>found nd'. child_loop T c nd = Some (found, nd') \<and>
    (found \<longleftrightarrow> (\<exists>i < ds ! (k - 1). lt_edge_character T ! (first_child ds k + i - 1) = c)) \<and>
    (found \<longrightarrow> (\<exists>i < ds ! (k - 1). lt_edge_character T ! (first_child ds k + i - 1) = c \<and> is_node ds nd' (first_child ds k + i)))"
  using assms(4-6)
proof (induction "ds ! (k - 1) - i" arbitrary: i nd)
  case (Suc n)
  have lo: "louds_ok (lt_louds T) ds" using assms(1) by (simp add: trie_ok_def)
  have v: "IsValidNode (lt_louds T) nd"
    using valid_iff [OF lo, of nd] Suc.prems(2) by (simp add: is_node_def)
  have l: "GetEdgeLabelToParentNode T nd = lt_edge_character T ! (first_child ds k + i - 1)"
    using Suc.prems(2) by (simp add: GetEdgeLabelToParentNode_def is_node_def)
  show ?case
  proof (cases "lt_edge_character T ! (first_child ds k + i - 1) = c")
    case True
    then show ?thesis using v l Suc.prems by (subst child_loop.simps) auto
  next
    case False
    note nx = MoveToNextSibling_correct [OF lo Suc.prems(2) assms(2,3) Suc.prems(1)]
    have less: "\<forall>i' < i + 1. lt_edge_character T ! (first_child ds k + i' - 1) \<noteq> c"
      using Suc.prems(3) False by (auto simp: less_Suc_eq)
    have step: "child_loop T c nd = child_loop T c (MoveToNextSibling nd)"
      using v l False by (subst child_loop.simps) simp
    show ?thesis
    proof (cases "i + 1 < ds ! (k - 1)")
      case True
      then show ?thesis
        using Suc.hyps(1) [of "i + 1" "MoveToNextSibling nd"] Suc.hyps(2) nx less unfolding step by (simp add: add.assoc)
    next
      case e: False
      have "child_loop T c (MoveToNextSibling nd) = Some (False, MoveToNextSibling nd)"
        using nx e by (subst child_loop.simps) simp
      moreover have "\<not> (\<exists>i < ds ! (k - 1). lt_edge_character T ! (first_child ds k + i - 1) = c)"
      proof
        assume "\<exists>i < ds ! (k - 1). lt_edge_character T ! (first_child ds k + i - 1) = c"
        then obtain i2 where "i2 < ds ! (k - 1)" "lt_edge_character T ! (first_child ds k + i2 - 1) = c" by blast
        then show False using less e by (cases "i2 < i + 1") auto
      qed
      ultimately show ?thesis unfolding step by blast
    qed
  qed
qed simp

lemma trie_shapeD:
  assumes "trie_shape ds paths"
  shows "bfs_degrees ds" "length paths = length ds" "distinct paths" "paths ! 0 = []" "0 < length ds"
  using assms by (auto simp: trie_shape_def bfs_degrees_def)

lemma path_index_unique:
  assumes "trie_shape ds paths" "0 < k" "k \<le> length ds" "0 < k'" "k' \<le> length ds" "paths ! (k - 1) = paths ! (k' - 1)"
  shows "k = k'"
proof -
  have "k - 1 = k' - 1" using assms trie_shapeD [OF assms(1)] by (simp add: nth_eq_iff_index_eq)
  then show ?thesis using assms(2,4) by simp
qed

lemma MoveToChildByLabel_correct:
  assumes "trie_ok T ds paths ends" "is_node ds nd k" "0 < k" "k \<le> length ds"
  shows "\<exists>found nd'. MoveToChildByLabel T c nd = Some (found, nd') \<and>
    (found \<longleftrightarrow> paths ! (k - 1) @ [c] \<in> set paths) \<and>
    (found \<longrightarrow> (\<exists>k'. is_node ds nd' k' \<and> 0 < k' \<and> k' \<le> length ds \<and> paths ! (k' - 1) = paths ! (k - 1) @ [c]))"
proof -
  let ?l = "\<lambda>i. lt_edge_character T ! (first_child ds k + i - 1)" and ?d = "ds ! (k - 1)"
  have s: "trie_shape ds paths" and lo: "louds_ok (lt_louds T) ds" using assms(1) by (simp_all add: trie_ok_def)
  note sd = trie_shapeD [OF s]
  have child: "\<exists>k'. k' = first_child ds k + i \<and> 0 < k' \<and> k' \<le> length ds \<and> paths ! (k' - 1) = paths ! (k - 1) @ [?l i]"
    if "i < ?d" for i
    using child_path [OF assms(1,3,4) that] child_in_range [OF assms(3,4) that] sd(1)
    by (auto simp: bfs_degrees_def first_child_def)
  have ex: "(\<exists>i < ?d. ?l i = c) \<longleftrightarrow> paths ! (k - 1) @ [c] \<in> set paths"
  proof
    assume "\<exists>i < ?d. ?l i = c"
    then obtain k' where "0 < k'" "k' \<le> length ds" "paths ! (k' - 1) = paths ! (k - 1) @ [c]" using child by blast
    then show "paths ! (k - 1) @ [c] \<in> set paths" using sd(2) by (metis Suc_diff_1 Suc_le_lessD nth_mem)
  qed (rule path_has_child [OF assms(1,3,4)])
  obtain f where "MoveToFirstChild (lt_louds T) nd = Some f \<and> (IsValidNode (lt_louds T) f \<longleftrightarrow> 0 < ?d) \<and>
    (0 < ?d \<longrightarrow> is_node ds f (first_child ds k))"
    using MoveToFirstChild_correct [OF lo assms(2-4)] ..
  then have f: "MoveToFirstChild (lt_louds T) nd = Some f" "IsValidNode (lt_louds T) f \<longleftrightarrow> 0 < ?d"
    "0 < ?d \<longrightarrow> is_node ds f (first_child ds k)" by simp_all
  show ?thesis
  proof (cases "0 < ?d")
    case True
    then obtain found nd' where r: "child_loop T c f = Some (found, nd')" "found \<longleftrightarrow> (\<exists>i < ?d. ?l i = c)"
      "found \<longrightarrow> (\<exists>i < ?d. ?l i = c \<and> is_node ds nd' (first_child ds k + i))"
      using child_loop_correct [OF assms(1,3,4), of 0 f c] f(3) by auto
    have "MoveToChildByLabel T c nd = Some (found, nd')" using f(1) r(1) by (simp add: MoveToChildByLabel_def)
    moreover have "found \<longleftrightarrow> paths ! (k - 1) @ [c] \<in> set paths" using r(2) ex by blast
    moreover have "\<exists>k'. is_node ds nd' k' \<and> 0 < k' \<and> k' \<le> length ds \<and> paths ! (k' - 1) = paths ! (k - 1) @ [c]" if found
    proof -
      obtain i where i: "i < ?d" "?l i = c" "is_node ds nd' (first_child ds k + i)" using r(3) \<open>found\<close> by blast
      then show ?thesis using child [OF i(1)] by auto
    qed
    ultimately show ?thesis by blast
  next
    case False
    then have "child_loop T c f = Some (False, f)" using f(2) by (subst child_loop.simps) simp
    then have "MoveToChildByLabel T c nd = Some (False, f)" using f(1) by (simp add: MoveToChildByLabel_def)
    moreover have "paths ! (k - 1) @ [c] \<notin> set paths" using ex False by simp
    ultimately show ?thesis by blast
  qed
qed

text \<open>Every prefix of the string of a node is the string of a node.\<close>

lemma path_prefix:
  assumes "trie_shape ds paths" "p @ [c] \<in> set paths"
  shows "p \<in> set paths"
proof -
  note sd = trie_shapeD [OF assms(1)]
  obtain j where j: "j < length paths" "paths ! j = p @ [c]" using assms(2) by (metis in_set_conv_nth)
  have "j \<noteq> 0"
  proof
    assume "j = 0"
    then show False using sd(4) j(2) by simp
  qed
  then obtain k i where k: "0 < k" "k \<le> length ds" "i < ds ! (k - 1)" "j + 1 = first_child ds k + i"
    using has_parent [of "j + 1" ds] sd(1,2) j(1) by (auto simp: bfs_degrees_def)
  then have "\<exists>c. paths ! (first_child ds k + i - 1) = paths ! (k - 1) @ [c]"
    using assms(1) by (simp add: trie_shape_def)
  moreover have "j = first_child ds k + i - 1" using k(4) by simp
  ultimately have "p = paths ! (k - 1)" using j(2) by simp
  then show ?thesis using k(1,2) sd(2) by simp
qed

lemma path_prefixes: "trie_shape ds paths \<Longrightarrow> p @ q \<in> set paths \<Longrightarrow> p \<in> set paths"
proof (induction q rule: rev_induct)
  case (snoc c q)
  then show ?case using path_prefix [of ds paths "p @ q" c] by simp
qed simp

lemma Traverse_correct:
  assumes "trie_ok T ds paths ends" "is_node ds nd k" "0 < k" "k \<le> length ds"
  shows "\<exists>found nd'. Traverse T key nd = Some (found, nd') \<and> (found \<longleftrightarrow> paths ! (k - 1) @ key \<in> set paths) \<and>
    (found \<longrightarrow> (\<exists>k'. is_node ds nd' k' \<and> 0 < k' \<and> k' \<le> length ds \<and> paths ! (k' - 1) = paths ! (k - 1) @ key))"
  using assms(2-4)
proof (induction key arbitrary: nd k)
  case Nil
  then show ?case using assms(1) trie_shapeD(2) [of ds paths] by (auto simp: trie_ok_def)
next
  case (Cons c key)
  have s: "trie_shape ds paths" using assms(1) by (simp add: trie_ok_def)
  obtain found nd' where m: "MoveToChildByLabel T c nd = Some (found, nd')"
    "found \<longleftrightarrow> paths ! (k - 1) @ [c] \<in> set paths"
    "found \<longrightarrow> (\<exists>k'. is_node ds nd' k' \<and> 0 < k' \<and> k' \<le> length ds \<and> paths ! (k' - 1) = paths ! (k - 1) @ [c])"
    using MoveToChildByLabel_correct [OF assms(1) Cons.prems, of c] by blast
  show ?case
  proof (cases found)
    case True
    then obtain k' where k': "is_node ds nd' k'" "0 < k'" "k' \<le> length ds" "paths ! (k' - 1) = paths ! (k - 1) @ [c]"
      using m(3) by blast
    then show ?thesis using Cons.IH [OF k'(1-3)] m(1) True by simp
  next
    case False
    then have "paths ! (k - 1) @ c # key \<notin> set paths"
      using m(2) path_prefixes [OF s, of "paths ! (k - 1) @ [c]" key] by auto
    then show ?thesis using m(1) False by auto
  qed
qed

lemma terminal_iff:
  assumes "trie_ok T ds paths ends" "is_node ds nd k" "0 < k" "k \<le> length ds"
  shows "IsTerminalNode T nd \<longleftrightarrow> ends ! (k - 1)"
  unfolding IsTerminalNode_def sv_Get_bv using assms trie_shapeD(2) [of ds paths]
  by (auto simp: trie_ok_def is_node_def)

lemma word_at_iff:
  assumes "trie_shape ds paths" "0 < k" "k \<le> length ds" "length ends = length paths"
  shows "word_at paths ends (paths ! (k - 1)) \<longleftrightarrow> ends ! (k - 1)"
proof -
  note sd = trie_shapeD [OF assms(1)]
  have "k - 1 < length paths" using assms(2,3) sd(2) by simp
  moreover have "j = k - 1" if "j < length paths" "paths ! j = paths ! (k - 1)" for j
    using that sd(3) \<open>k - 1 < length paths\<close> nth_eq_iff_index_eq by blast
  ultimately show ?thesis unfolding word_at_def by blast
qed

definition key_id :: "u8 list list \<Rightarrow> bool list \<Rightarrow> u8 list \<Rightarrow> nat" where
  "key_id paths ends w = length (filter (\<lambda>b. b) (take (length (takeWhile (\<lambda>p. p \<noteq> w) paths)) ends))"

lemma takeWhile_path:
  assumes "distinct paths" "j < length paths"
  shows "length (takeWhile (\<lambda>p. p \<noteq> paths ! j) paths) = j"
proof -
  have "paths = take j paths @ paths ! j # drop (Suc j) paths" using assms(2) by (rule id_take_nth_drop)
  then have "takeWhile (\<lambda>p. p \<noteq> paths ! j) paths =
      takeWhile (\<lambda>p. p \<noteq> paths ! j) (take j paths @ paths ! j # drop (Suc j) paths)"
    by (rule arg_cong)
  also have "\<dots> = takeWhile (\<lambda>p. p \<noteq> paths ! j) (take j paths)" by (simp only: takeWhile_tail not_not simp_thms)
  also have "\<dots> = take j paths"
    using assms by (auto simp: takeWhile_eq_all_conv in_set_conv_nth nth_eq_iff_index_eq)
  finally show ?thesis using assms(2) by simp
qed

lemma GetKeyId_correct:
  assumes "trie_ok T ds paths ends" "is_node ds nd k" "0 < k" "k \<le> length ds"
  shows "GetKeyIdOfTerminalNode T nd = key_id paths ends (paths ! (k - 1))"
proof -
  have s: "trie_shape ds paths" "length ends = length paths" "sv_ok (lt_terminal T)"
    "length ends \<le> 8 * sv_length (lt_terminal T)" "\<forall>j < length ends. bv (sv_data (lt_terminal T)) j = ends ! j"
    using assms(1) by (simp_all add: trie_ok_def)
  note sd = trie_shapeD [OF s(1)]
  have k: "k - 1 < length paths" using assms(3,4) sd(2) by simp
  have "Rank1 (lt_terminal T) (k - 1) = count_range (bv (sv_data (lt_terminal T))) 0 (k - 1)"
    using sv.rank1 [OF s(3)] s(2,4) k by simp
  also have "\<dots> = count_range (\<lambda>i. ends ! i) 0 (k - 1)"
    using s(2,5) k unfolding count_range_def by (intro arg_cong [where f = length] filter_upt_cong) simp
  also have "\<dots> = length (filter (\<lambda>b. b) (take (k - 1) ends))"
    using count_nth [of "k - 1" ends "\<lambda>b. b"] s(2) k by simp
  finally show ?thesis using takeWhile_path [OF sd(3) k] assms(2)
    by (simp add: GetKeyIdOfTerminalNode_def is_node_def key_id_def)
qed

theorem ExactSearch_correct:
  assumes "trie_ok T ds paths ends"
  shows "ExactSearch T key = Some (if word_at paths ends key then int (key_id paths ends key) else -1)"
proof -
  have s: "trie_shape ds paths" "length ends = length paths" using assms by (simp_all add: trie_ok_def)
  note sd = trie_shapeD [OF s(1)]
  have p0: "paths ! (1 - 1) = []" using sd(4) by simp
  obtain found nd where t: "Traverse T key root_node = Some (found, nd)" "found \<longleftrightarrow> key \<in> set paths"
    "found \<longrightarrow> (\<exists>k. is_node ds nd k \<and> 0 < k \<and> k \<le> length ds \<and> paths ! (k - 1) = key)"
    using Traverse_correct [OF assms root_is_node, of key] sd(5) unfolding p0 by auto
  show ?thesis
  proof (cases found)
    case True
    then obtain k where k: "is_node ds nd k" "0 < k" "k \<le> length ds" "paths ! (k - 1) = key" using t(3) by blast
    then show ?thesis using t(1) True terminal_iff [OF assms k(1-3)] word_at_iff [OF s(1) k(2,3) s(2)]
        GetKeyId_correct [OF assms k(1-3)] by (simp add: ExactSearch_def)
  next
    case False
    then have "\<not> word_at paths ends key" using t(2) by (auto simp: word_at_def)
    then show ?thesis using t(1) False by (simp add: ExactSearch_def)
  qed
qed

lemma climb_correct:
  assumes "trie_ok T ds paths ends" "is_node ds nd k" "0 < k" "k \<le> length ds"
    and "length (paths ! (k - 1)) + length buf \<le> kMaxDepth"
  shows "climb T nd buf = Some (paths ! (k - 1) @ buf)"
  using assms(2-5)
proof (induction k arbitrary: nd buf rule: less_induct)
  case (less k)
  have s: "trie_shape ds paths" and lo: "louds_ok (lt_louds T) ds" using assms(1) by (simp_all add: trie_ok_def)
  note sd = trie_shapeD [OF s]
  show ?case
  proof (cases "k = 1")
    case True
    then show ?thesis using less.prems(1) sd(4) by (subst climb.simps) (simp add: IsRoot_def is_node_def)
  next
    case False
    then have "2 \<le> k" "k \<le> 1 + sum_list ds" using less.prems(2,3) sd(1) by (auto simp: bfs_degrees_def)
    then obtain k0 i where k0: "0 < k0" "k0 \<le> length ds" "i < ds ! (k0 - 1)" "k = first_child ds k0 + i"
      using has_parent by blast
    have path: "paths ! (k - 1) = paths ! (k0 - 1) @ [lt_edge_character T ! (k - 1)]"
      using child_path [OF assms(1) k0(1-3)] k0(4) by simp
    obtain p where p: "MoveToParent (lt_louds T) nd = Some p" "is_node ds p k0"
      using MoveToParent_correct [OF lo sd(1) _ k0(1-3), of nd] less.prems(1) k0(4) by blast
    have "k0 < k" using bfs_before_child [OF sd(1) k0(1,2)] k0(4) by simp
    then have "climb T p (GetEdgeLabelToParentNode T nd # buf) = Some (paths ! (k0 - 1) @ GetEdgeLabelToParentNode T nd # buf)"
      by (rule less.IH [OF _ p(2) k0(1,2)]) (use less.prems(4) path in simp)
    moreover have "GetEdgeLabelToParentNode T nd = lt_edge_character T ! (k - 1)"
      using less.prems(1) by (simp add: GetEdgeLabelToParentNode_def is_node_def)
    moreover have "climb T nd buf = climb T p (GetEdgeLabelToParentNode T nd # buf)"
      using less.prems(1,4) False p(1) path by (subst climb.simps) (auto simp: IsRoot_def is_node_def)
    ultimately show ?thesis using path by simp
  qed
qed

lemma word_node:
  assumes "trie_ok T ds paths ends" "word_at paths ends w"
  obtains k nd where "is_node ds nd k" "0 < k" "k \<le> length ds" "paths ! (k - 1) = w" "ends ! (k - 1)"
proof -
  have s: "trie_shape ds paths" using assms(1) by (simp add: trie_ok_def)
  note sd = trie_shapeD [OF s]
  obtain j where j: "j < length paths" "paths ! j = w" "ends ! j" using assms(2) by (auto simp: word_at_def)
  obtain nd where "is_node ds nd (j + 1)"
    using node_exists [of "j + 1" ds] j(1) sd(1,2) by (auto simp: bfs_degrees_def)
  then show thesis using that [of nd "j + 1"] j sd(2) by simp
qed

lemma GetTerminalNodeFromKeyId_correct:
  assumes "trie_ok T ds paths ends" "is_node ds nd k" "0 < k" "k \<le> length ds" "ends ! (k - 1)"
  shows "GetTerminalNodeFromKeyId T (key_id paths ends (paths ! (k - 1))) = Some nd"
proof -
  have s: "trie_shape ds paths" "length ends = length paths" "sv_ok (lt_terminal T)" "louds_ok (lt_louds T) ds"
    "length ends \<le> 8 * sv_length (lt_terminal T)" "\<forall>j < length ends. bv (sv_data (lt_terminal T)) j = ends ! j"
    using assms(1) by (simp_all add: trie_ok_def)
  note sd = trie_shapeD [OF s(1)]
  have "k - 1 < length ends" using assms(3,4) s(2) sd(2) by simp
  then have "Select1 (lt_terminal T) (Rank1 (lt_terminal T) (k - 1) + 1) = Some (k - 1)"
    using sv.select1_rank1 [OF s(3), of "k - 1"] s(5,6) assms(5) by simp
  moreover have "Rank1 (lt_terminal T) (k - 1) = key_id paths ends (paths ! (k - 1))"
    using GetKeyId_correct [OF assms(1-4)] assms(2) by (simp add: GetKeyIdOfTerminalNode_def is_node_def)
  moreover have "InitNodeFromNodeId (lt_louds T) k = Some nd"
    using select_node [OF s(4) assms(2)] assms(2) by (simp add: InitNodeFromNodeId_def is_node_def)
  ultimately show ?thesis using assms(3) by (simp add: GetTerminalNodeFromKeyId_def)
qed

lemma RestoreKeyString_correct:
  assumes "trie_ok T ds paths ends" "word_at paths ends w" "length w \<le> kMaxDepth"
  shows "RestoreKeyStringFromId T (int (key_id paths ends w)) = Some w"
proof -
  obtain k nd where k: "is_node ds nd k" "0 < k" "k \<le> length ds" "paths ! (k - 1) = w" "ends ! (k - 1)"
    using word_node [OF assms(1,2)] .
  have "RestoreKeyString T nd = Some w"
    using climb_correct [OF assms(1) k(1-3), of "[]"] k(4) assms(3) by (simp add: RestoreKeyString_def)
  then show ?thesis
    using GetTerminalNodeFromKeyId_correct [OF assms(1) k(1-3,5)] k(4) by (simp add: RestoreKeyStringFromId_def)
qed

text \<open>The words that the callback of \<^const>\<open>PrefixSearch\<close> should see: their lengths and their key ids.\<close>

definition prefix_words :: "u8 list list \<Rightarrow> bool list \<Rightarrow> u8 list \<Rightarrow> (nat \<times> nat) list" where
  "prefix_words paths ends key =
     map (\<lambda>i. (i, key_id paths ends (take i key))) (filter (\<lambda>i. word_at paths ends (take i key)) [1..<length key + 1])"

lemma prefix_loop_correct:
  assumes "trie_ok T ds paths ends" "is_node ds nd k" "0 < k" "k \<le> length ds" "paths ! (k - 1) = p"
  shows "map_option (map (\<lambda>(i, nd). (i, GetKeyIdOfTerminalNode T nd))) (prefix_loop T key (length p) nd) =
    Some (map (\<lambda>i. (i, key_id paths ends (take i (p @ key))))
      (filter (\<lambda>i. word_at paths ends (take i (p @ key))) [length p + 1..<length p + length key + 1]))"
  using assms(2-5)
proof (induction key arbitrary: nd k p)
  case (Cons c key)
  have s: "trie_shape ds paths" "length ends = length paths" using assms(1) by (simp_all add: trie_ok_def)
  let ?W = "\<lambda>i. word_at paths ends (take i (p @ c # key))"
  have up: "[length p + 1..<length p + length (c # key) + 1] = (length p + 1) # [length (p @ [c]) + 1..<length (p @ [c]) + length key + 1]"
    by (subst upt_conv_Cons) simp_all
  obtain found nd' where m: "MoveToChildByLabel T c nd = Some (found, nd')" "found \<longleftrightarrow> p @ [c] \<in> set paths"
    "found \<longrightarrow> (\<exists>k'. is_node ds nd' k' \<and> 0 < k' \<and> k' \<le> length ds \<and> paths ! (k' - 1) = p @ [c])"
    using MoveToChildByLabel_correct [OF assms(1) Cons.prems(1-3), of c] unfolding Cons.prems(4) by blast
  show ?case
  proof (cases found)
    case True
    then obtain k' where k': "is_node ds nd' k'" "0 < k'" "k' \<le> length ds" "paths ! (k' - 1) = p @ [c]" using m(3) by blast
    obtain calls where calls: "prefix_loop T key (length p + 1) nd' = Some calls"
      "map (\<lambda>(i, nd). (i, GetKeyIdOfTerminalNode T nd)) calls = map (\<lambda>i. (i, key_id paths ends (take i (p @ c # key))))
        (filter ?W [length (p @ [c]) + 1..<length (p @ [c]) + length key + 1])"
      using Cons.IH [OF k'] by auto
    have "?W (length p + 1) \<longleftrightarrow> IsTerminalNode T nd'"
      using terminal_iff [OF assms(1) k'(1-3)] word_at_iff [OF s(1) k'(2,3) s(2)] k'(4) by simp
    moreover have "GetKeyIdOfTerminalNode T nd' = key_id paths ends (take (length p + 1) (p @ c # key))"
      using GetKeyId_correct [OF assms(1) k'(1-3)] k'(4) by simp
    ultimately show ?thesis unfolding up using m(1) True calls by simp
  next
    case False
    have none: "\<not> ?W i" if "length p + 1 \<le> i" for i
    proof
      assume "?W i"
      then have "take i (p @ c # key) \<in> set paths" unfolding word_at_def by (metis nth_mem)
      moreover have "take i (p @ c # key) = (p @ [c]) @ take (i - length p - 1) key"
        using that by (cases "i - length p") auto
      ultimately have "p @ [c] \<in> set paths" using path_prefixes [OF s(1)] by metis
      then show False using False m(2) by simp
    qed
    have fl: "filter ?W [length p + 1..<length p + length (c # key) + 1] = []"
    proof (rule filter_False, rule ballI)
      fix i assume "i \<in> set [length p + 1..<length p + length (c # key) + 1]"
      then show "\<not> ?W i" using none by (simp only: set_upt atLeastLessThan_iff not_False_eq_True)
    qed
    have "prefix_loop T (c # key) (length p) nd = Some []" using m(1) False by simp
    then show ?thesis by (simp only: fl option.map list.map)
  qed
qed simp

lemma PrefixSearch_correct:
  assumes "trie_ok T ds paths ends"
  shows "map_option (map (\<lambda>(i, nd). (i, GetKeyIdOfTerminalNode T nd))) (PrefixSearch T key) = Some (prefix_words paths ends key)"
proof -
  have "trie_shape ds paths" using assms by (simp add: trie_ok_def)
  note sd = trie_shapeD [OF this]
  have "paths ! (1 - 1) = []" "1 \<le> length ds" using sd(4,5) by (simp_all add: Suc_le_eq)
  from prefix_loop_correct [OF assms root_is_node _ this(2) this(1), of key] show ?thesis
    unfolding PrefixSearch_def prefix_words_def by (simp del: upt_Suc)
qed

end
