(* ===== verification/LoudsTrieBuilder.thy ===== *)
theory LoudsTrieBuilder
  imports LoudsTrie "HOL-Library.List_Lexorder" "HOL-Library.Multiset"
begin

section \<open>Writing bit streams\<close>

text \<open>\<^verbatim>\<open>storage/louds/bit_stream.cc\<close>.\<close>

record BitStream =
  bs_image :: "u8 list"
  bs_num_bits :: nat

definition NewBitStream :: BitStream where
  "NewBitStream = \<lparr>bs_image = [], bs_num_bits = 0\<rparr>"

definition PushBit :: "bool \<Rightarrow> BitStream \<Rightarrow> BitStream" where
  "PushBit b s =
     (let shift = bs_num_bits s mod 8;
          image1 = (if shift = 0 then bs_image s @ [0] else bs_image s);
          image2 = butlast image1 @ [last image1 OR push_bit shift (if b then 1 else 0)]
      in \<lparr>bs_image = image2, bs_num_bits = bs_num_bits s + 1\<rparr>)"

definition FillPadding32 :: "BitStream \<Rightarrow> BitStream" where
  "FillPadding32 s =
     (let remaining = length (bs_image s) mod 4;
          image1 = (if remaining \<noteq> 0 then bs_image s @ replicate (4 - remaining) 0 else bs_image s)
      in \<lparr>bs_image = image1, bs_num_bits = length image1 * 8\<rparr>)"

definition PushInt32 :: "nat \<Rightarrow> u8 list \<Rightarrow> u8 list option" where
  "PushInt32 v data =
     (if \<not> v \<le> 0xffffffff then None
      else Some (data @ [word_of_nat v, word_of_nat (v div 2 ^ 8), word_of_nat (v div 2 ^ 16), word_of_nat (v div 2 ^ 24)]))"

text \<open>The stream holds the bits \<open>bl\<close>, and zeros after them up to the end of the last byte.\<close>

definition stream_ok :: "BitStream \<Rightarrow> bool list \<Rightarrow> bool" where
  "stream_ok s bl \<longleftrightarrow> bs_num_bits s = length bl \<and> length (bs_image s) = (length bl + 7) div 8 \<and>
     (\<forall>i < 8 * length (bs_image s). bv (bs_image s) i = (i < length bl \<and> bl ! i))"

lemma stream_ok_New: "stream_ok NewBitStream []"
  by (simp add: stream_ok_def NewBitStream_def)

lemma bv_snoc: "i < 8 * length xs \<Longrightarrow> bv (xs @ ys) i = bv xs i"
  by (simp add: bv_def nth_append less_mult_imp_div_less mult.commute)

lemma bv_last: "8 * length xs \<le> i \<Longrightarrow> i < 8 * length xs + 8 \<Longrightarrow> bv (xs @ [y]) i = bit y (i - 8 * length xs)"
proof -
  assume a: "8 * length xs \<le> i" "i < 8 * length xs + 8"
  then have "i div 8 = length xs" by (simp add: div_nat_eqI)
  moreover have "i mod 8 = i - 8 * length xs" using a by (simp add: modulo_nat_def \<open>i div 8 = length xs\<close>)
  ultimately show ?thesis by (simp add: bv_def)
qed

lemma ceil8:
  "n mod 8 = 0 \<Longrightarrow> Suc ((n + 7) div 8) = (n + 8) div (8 :: nat)" "n mod 8 \<noteq> 0 \<Longrightarrow> (n + 7) div 8 = (n + 8) div (8 :: nat)"
  "n mod 8 = 0 \<Longrightarrow> 8 * ((n + 7) div 8) = (n :: nat)"
  by presburger+

lemma stream_ok_PushBit:
  assumes "stream_ok s bl"
  shows "stream_ok (PushBit b s) (bl @ [b])"
proof -
  let ?im = "bs_image s" and ?n = "length bl"
  have n: "bs_num_bits s = ?n" "length ?im = (?n + 7) div 8"
    and at: "\<And>i. i < 8 * length ?im \<Longrightarrow> bv ?im i = (i < ?n \<and> bl ! i)"
    using assms by (auto simp: stream_ok_def)
  define im1 where "im1 = (if ?n mod 8 = 0 then ?im @ [0] else ?im)"
  have l1: "length im1 = (?n + 1 + 7) div 8" using n(2) ceil8 [of ?n] by (auto simp: im1_def)
  have at1: "bv im1 i = (i < ?n \<and> bl ! i)" if "i < 8 * length im1" for i
  proof (cases "i < 8 * length ?im")
    case True
    then show ?thesis using at by (simp add: im1_def bv_snoc)
  next
    case False
    then have m: "?n mod 8 = 0" using that by (auto simp: im1_def split: if_splits)
    then have "8 * length ?im = ?n" using n(2) ceil8(3) by simp
    moreover have "bv im1 i = bit (0 :: u8) (i - 8 * length ?im)"
      using bv_last [of ?im i 0] False that m by (simp add: im1_def)
    ultimately show ?thesis using False by simp
  qed
  have ne: "im1 \<noteq> []" using l1 by auto
  define a where "a = butlast im1"
  define y where "y = last im1"
  have im1: "im1 = a @ [y]" using ne by (simp add: a_def y_def)
  have la: "length a = ?n div 8" using l1 im1 by simp
  have im2: "bs_image (PushBit b s) = a @ [y OR push_bit (?n mod 8) (if b then 1 else 0)]"
    using n(1) by (simp add: PushBit_def Let_def im1_def [symmetric] a_def y_def)
  have "bv (bs_image (PushBit b s)) i = (i < length (bl @ [b]) \<and> (bl @ [b]) ! i)" if i: "i < 8 * length im1" for i
  proof (cases "i < 8 * length a")
    case True
    have "8 * length a \<le> ?n" using la by simp
    then show ?thesis using True at1 [OF i] bv_snoc [OF True, of "[y]"] unfolding im2 im1
      by (simp add: bv_snoc nth_append)
  next
    case False
    then have r: "8 * length a \<le> i" "i < 8 * length a + 8" using i im1 by auto
    have "bit y (i - 8 * length a) = (i < ?n \<and> bl ! i)"
      using at1 [OF i] unfolding im1 bv_last [OF r] .
    moreover have "bit (push_bit (?n mod 8) (if b then 1 else 0) :: u8) (i - 8 * length a) \<longleftrightarrow> b \<and> i = ?n"
    proof -
      have "?n = 8 * length a + ?n mod 8" using la by simp
      then show ?thesis using r by (auto simp: bit_simps)
    qed
    ultimately show ?thesis unfolding im2 bv_last [OF r] by (auto simp: bit_or_iff nth_append)
  qed
  moreover have "length (bs_image (PushBit b s)) = length im1" unfolding im2 by (simp add: im1)
  ultimately show ?thesis using l1 n(1) by (simp add: stream_ok_def PushBit_def Let_def)
qed

lemma stream_ok_fold:
  assumes "stream_ok s bl"
  shows "stream_ok (fold PushBit bs s) (bl @ bs)"
  using assms
proof (induction bs arbitrary: s bl)
  case (Cons b bs)
  then show ?case using Cons.IH [OF stream_ok_PushBit [OF Cons.prems], of b] by simp
qed simp

lemma FillPadding32_correct:
  assumes "stream_ok s bl"
  shows "4 dvd length (bs_image (FillPadding32 s)) \<and> length bl \<le> 8 * length (bs_image (FillPadding32 s)) \<and>
    8 * length (bs_image (FillPadding32 s)) < length bl + 32 \<and>
    (\<forall>i < 8 * length (bs_image (FillPadding32 s)). bv (bs_image (FillPadding32 s)) i = (i < length bl \<and> bl ! i))"
proof -
  let ?im = "bs_image s" and ?f = "bs_image (FillPadding32 s)"
  have n: "length ?im = (length bl + 7) div 8"
    and at: "\<And>i. i < 8 * length ?im \<Longrightarrow> bv ?im i = (i < length bl \<and> bl ! i)"
    using assms by (auto simp: stream_ok_def)
  obtain k where f: "?f = ?im @ replicate k 0" "k < 4" "4 dvd length ?im + k"
  proof (cases "length ?im mod 4 = 0")
    case True
    then show thesis by (intro that [of 0]) (auto simp: FillPadding32_def Let_def)
  next
    case False
    have "4 dvd length ?im + (4 - length ?im mod 4)" by presburger
    then show thesis using False by (intro that [of "4 - length ?im mod 4"]) (auto simp: FillPadding32_def Let_def)
  qed
  have "bv ?f i = (i < length bl \<and> bl ! i)" if "i < 8 * length ?f" for i
  proof (cases "i < 8 * length ?im")
    case True
    then show ?thesis using at by (simp add: f(1) bv_snoc)
  next
    case False
    then have "i div 8 - length ?im < k" "\<not> i div 8 < length ?im" using that f(1) by auto
    then have "?f ! (i div 8) = 0" unfolding f(1) nth_append by simp
    moreover have "length bl \<le> i" using n False by linarith
    ultimately show ?thesis by (simp add: bv_def)
  qed
  then show ?thesis using n f by auto
qed

lemma length_PushInt32: "PushInt32 v data = Some data' \<Longrightarrow> length data' = length data + 4"
  by (auto simp: PushInt32_def split: if_splits)

definition le_bytes :: "nat \<Rightarrow> u8 list" where
  "le_bytes v = [word_of_nat v, word_of_nat (v div 2 ^ 8), word_of_nat (v div 2 ^ 16), word_of_nat (v div 2 ^ 24)]"

lemma bit_le_bytes: "k < 32 \<Longrightarrow> bit (le_bytes v ! (k div 8)) (k mod 8) = bit v k"
proof -
  assume k: "k < 32"
  have e: "8 * (k div 8) + k mod 8 = k" by simp
  have b: "bit (word_of_nat (v div 2 ^ n) :: u8) (k mod 8) = bit v (n + k mod 8)" for n
    by (simp add: bit_of_nat_iff drop_bit_eq_div [symmetric] bit_drop_bit_eq)
  consider "k div 8 = 0" | "k div 8 = 1" | "k div 8 = 2" | "k div 8 = 3" using k by linarith
  then show ?thesis
  proof cases
    case 1
    then show ?thesis using b [of 0] e by (simp add: le_bytes_def)
  next
    case 2
    then show ?thesis using b [of 8] e by (simp add: le_bytes_def)
  next
    case 3
    then show ?thesis using b [of 16] e by (simp add: le_bytes_def)
  next
    case 4
    then show ?thesis using b [of 24] e by (simp add: le_bytes_def)
  qed
qed

lemma PushInt32_eq: "v < 2 ^ 32 \<Longrightarrow> PushInt32 v data = Some (data @ le_bytes v)"
  by (simp add: PushInt32_def le_bytes_def)

lemma length_le_bytes [simp]: "length (le_bytes v) = 4"
  by (simp add: le_bytes_def)

lemma load_le_bytes:
  assumes "v < 2 ^ 31"
  shows "load_int (data @ le_bytes v @ rest) (length data) = int v"
proof -
  have "LoadUnaligned32 (data @ le_bytes v @ rest) (length data) = (word_of_nat v :: u32)"
  proof (rule bit_word_eqI)
    fix k assume "k < LENGTH(32)"
    then have k: "k < 32" by simp
    then have "k div 8 < 4" by linarith
    then have "(data @ le_bytes v @ rest) ! (length data + k div 8) = le_bytes v ! (k div 8)"
      by (simp add: nth_append)
    then show "bit (LoadUnaligned32 (data @ le_bytes v @ rest) (length data)) k = bit (word_of_nat v :: u32) k"
      using k bit_le_bytes [OF k, of v] by (simp add: bit_LoadUnaligned32 bit_of_nat_iff)
  qed
  moreover have "signed_take_bit 31 (int v) = int v" using assms by (intro signed_take_bit_int_eq_self) simp_all
  ultimately show ?thesis by (simp add: load_int_def signed_of_nat)
qed

section \<open>Building a trie\<close>

text \<open>\<^verbatim>\<open>storage/louds/louds_trie_builder.cc\<close>. An entry is a word and its index in the sorted list.\<close>

type_synonym TrieEntry = "u8 list \<times> nat"

record LoudsTrieBuilder =
  lb_built :: bool
  lb_word_list :: "u8 list list"
  lb_id_list :: "int list"
  lb_image :: "u8 list"

definition NewLoudsTrieBuilder :: LoudsTrieBuilder where
  "NewLoudsTrieBuilder = \<lparr>lb_built = False, lb_word_list = [], lb_id_list = [], lb_image = []\<rparr>"

definition Add :: "u8 list \<Rightarrow> LoudsTrieBuilder \<Rightarrow> LoudsTrieBuilder option" where
  "Add word b = (if lb_built b \<or> word = [] then None else Some (b\<lparr>lb_word_list := lb_word_list b @ [word]\<rparr>))"

record TrieStreams =
  ts_trie :: BitStream
  ts_terminal :: BitStream
  ts_edge_character :: "u8 list"
  ts_id_list :: "int list"
  ts_id :: nat

definition push_edge :: "nat \<Rightarrow> TrieEntry \<Rightarrow> TrieStreams \<Rightarrow> TrieStreams" where
  "push_edge depth e st =
     (let st1 = st\<lparr>ts_trie := PushBit True (ts_trie st), ts_edge_character := ts_edge_character st @ [fst e ! depth]\<rparr>
      in if length (fst e) = depth + 1
         then st1\<lparr>ts_terminal := PushBit True (ts_terminal st), ts_id_list := (ts_id_list st)[snd e := int (ts_id st)],
                  ts_id := ts_id st + 1\<rparr>
         else st1\<lparr>ts_terminal := PushBit False (ts_terminal st)\<rparr>)"

definition level_step :: "nat \<Rightarrow> TrieEntry list \<Rightarrow> nat \<Rightarrow> TrieStreams \<Rightarrow> TrieStreams" where
  "level_step depth entry_list i st =
     (let word = fst (entry_list ! i);
          st1 = (if length word > depth \<and>
                    (i = 0 \<or> take (depth + 1) word \<noteq> take (depth + 1) (fst (entry_list ! (i - 1))))
                 then push_edge depth (entry_list ! i) st else st)
      in if i = length entry_list - 1 \<or> take depth word \<noteq> take depth (fst (entry_list ! (i + 1)))
         then st1\<lparr>ts_trie := PushBit False (ts_trie st1)\<rparr> else st1)"

definition level_loop :: "nat \<Rightarrow> TrieEntry list \<Rightarrow> TrieStreams \<Rightarrow> TrieStreams" where
  "level_loop depth entry_list st = fold (level_step depth entry_list) [0..<length entry_list] st"

lemma entries_decrease:
  "sum_list (map (\<lambda>e. Suc (length (fst e)) - Suc depth) (filter (\<lambda>e. \<not> length (fst e) < depth + 1) es))
     + length (filter (\<lambda>e. \<not> length (fst e) < depth + 1) es)
   \<le> sum_list (map (\<lambda>e. Suc (length (fst e)) - depth) es)"
  by (induction es) auto

function depth_loop :: "nat \<Rightarrow> TrieEntry list \<Rightarrow> TrieStreams \<Rightarrow> TrieStreams" where
  "depth_loop depth entry_list st =
     (if entry_list = [] then st
      else depth_loop (Suc depth) (filter (\<lambda>e. \<not> length (fst e) < depth + 1) entry_list) (level_loop depth entry_list st))"
  by auto

termination
proof (relation "measure (\<lambda>(depth, es, st). sum_list (map (\<lambda>e. Suc (length (fst e)) - depth) es) + (if es = [] then 0 else 1))")
  fix depth and es :: "TrieEntry list" and st
  assume "es \<noteq> []"
  let ?f = "filter (\<lambda>e. \<not> length (fst e) < depth + 1) es"
  have "(if ?f = [] then 0 else 1) \<le> length ?f" by (cases ?f) auto
  then show "((Suc depth, ?f, level_loop depth es st), depth, es, st)
      \<in> measure (\<lambda>(depth, es, st). sum_list (map (\<lambda>e. Suc (length (fst e)) - depth) es) + (if es = [] then 0 else 1))"
    using entries_decrease [of depth es] \<open>es \<noteq> []\<close> by simp
qed simp

declare depth_loop.simps [simp del]

definition trie_streams :: "u8 list list \<Rightarrow> int list \<Rightarrow> TrieStreams" where
  "trie_streams words ids =
     depth_loop 0 (zip words [0..<length words])
       \<lparr>ts_trie = PushBit False (PushBit True NewBitStream), ts_terminal = PushBit False NewBitStream,
        ts_edge_character = [0], ts_id_list = ids, ts_id = 0\<rparr>"

definition Build :: "LoudsTrieBuilder \<Rightarrow> LoudsTrieBuilder option" where
  "Build b =
     (if lb_built b then None
      else
        let words = remdups_adj (sort (lb_word_list b));
            ids = take (length words) (lb_id_list b) @ replicate (length words - length (lb_id_list b)) (-1);
            st = trie_streams words ids;
            trie = bs_image (FillPadding32 (ts_trie st));
            terminal = bs_image (FillPadding32 (ts_terminal st))
        in Option.bind (PushInt32 (length trie) (lb_image b)) (\<lambda>i1.
           Option.bind (PushInt32 (length terminal) i1) (\<lambda>i2.
           Option.bind (PushInt32 8 i2) (\<lambda>i3.
           Option.bind (PushInt32 (length (ts_edge_character st)) i3) (\<lambda>i4.
           Some \<lparr>lb_built = True, lb_word_list = words, lb_id_list = ts_id_list st,
                 lb_image = i4 @ trie @ terminal @ ts_edge_character st\<rparr>)))))"

definition GetId :: "u8 list \<Rightarrow> LoudsTrieBuilder \<Rightarrow> int option" where
  "GetId word b =
     (if \<not> lb_built b then None
      else let i = length (takeWhile (\<lambda>w. w < word) (lb_word_list b))
           in if i = length (lb_word_list b) \<or> lb_word_list b ! i \<noteq> word then Some (-1)
              else Some (lb_id_list b ! i))"

subsection \<open>Prefixes of sorted words\<close>

lemma take_mono_list: "(xs :: u8 list) \<le> ys \<Longrightarrow> take n xs \<le> take n ys"
proof (induction n arbitrary: xs ys)
  case (Suc n)
  then show ?case by (cases xs; cases ys) auto
qed simp

lemma take_le_self: "take n (xs :: u8 list) \<le> xs"
proof (induction n arbitrary: xs)
  case (Suc n)
  then show ?case by (cases xs) auto
qed simp

lemma take_between:
  assumes "(x :: u8 list) \<le> y" "y \<le> z" "take n x = take n z"
  shows "take n y = take n x"
  using take_mono_list [OF assms(1), of n] take_mono_list [OF assms(2), of n] assms(3) by simp

lemma sorted_remdups_adj_distinct: "sorted xs \<Longrightarrow> sorted (remdups_adj xs) \<and> distinct (remdups_adj xs)"
proof (induction xs rule: remdups_adj.induct)
  case (3 x y xs)
  then show ?case by (auto simp: antisym)
qed auto

subsection \<open>The edges of one level\<close>

text \<open>
  What a pass over the words of one depth writes, as a list of the nodes of that depth, each with the
  strings of its children. \<open>prev\<close> is the word before, \<open>cs\<close> the children of the node at hand so far.
\<close>

definition is_new :: "nat \<Rightarrow> u8 list option \<Rightarrow> u8 list \<Rightarrow> bool" where
  "is_new d prev w \<longleftrightarrow> d < length w \<and> (case prev of None \<Rightarrow> True | Some v \<Rightarrow> take (d + 1) w \<noteq> take (d + 1) v)"

definition is_last :: "nat \<Rightarrow> u8 list \<Rightarrow> u8 list list \<Rightarrow> bool" where
  "is_last d w ws \<longleftrightarrow> ws = [] \<or> take d w \<noteq> take d (hd ws)"

fun kids :: "nat \<Rightarrow> u8 list option \<Rightarrow> u8 list list \<Rightarrow> u8 list list" where
  "kids d prev [] = []"
| "kids d prev (w # ws) = (if is_new d prev w then [take (d + 1) w] else []) @ kids d (Some w) ws"

fun level_bits :: "nat \<Rightarrow> u8 list option \<Rightarrow> u8 list list \<Rightarrow> bool list" where
  "level_bits d prev [] = []"
| "level_bits d prev (w # ws) =
     (if is_new d prev w then [True] else []) @ (if is_last d w ws then [False] else []) @ level_bits d (Some w) ws"

fun level_nodes :: "nat \<Rightarrow> u8 list option \<Rightarrow> u8 list list \<Rightarrow> u8 list list \<Rightarrow> (u8 list \<times> u8 list list) list" where
  "level_nodes d prev cs [] = []"
| "level_nodes d prev cs (w # ws) =
     (let cs' = cs @ (if is_new d prev w then [take (d + 1) w] else [])
      in if is_last d w ws then (take d w, cs') # level_nodes d (Some w) [] ws else level_nodes d (Some w) cs' ws)"

lemma level_nodes_bits:
  "E \<noteq> [] \<or> cs = [] \<Longrightarrow>
    replicate (length cs) True @ level_bits d prev E = concat (map (\<lambda>g. degree_bits (length (snd g))) (level_nodes d prev cs E))"
proof (induction E arbitrary: prev cs)
  case (Cons w ws)
  let ?cs = "cs @ (if is_new d prev w then [take (d + 1) w] else [])"
  have n: "replicate (length cs) True @ (if is_new d prev w then [True] else []) = replicate (length ?cs) True"
    by (simp add: replicate_append_same)
  show ?case
  proof (cases "is_last d w ws")
    case True
    have "level_bits d (Some w) ws = concat (map (\<lambda>g. degree_bits (length (snd g))) (level_nodes d (Some w) [] ws))"
      using Cons.IH [of "[]" "Some w"] by simp
    then show ?thesis using True n by (simp add: degree_bits_def)
  next
    case False
    then have "ws \<noteq> []" by (simp add: is_last_def)
    then have "replicate (length ?cs) True @ level_bits d (Some w) ws =
        concat (map (\<lambda>g. degree_bits (length (snd g))) (level_nodes d (Some w) ?cs ws))"
      using Cons.IH [of ?cs "Some w"] by blast
    then show ?thesis using False n by (simp add: append_assoc [symmetric] del: append_assoc)
  qed
qed simp

lemma level_nodes_kids:
  "E \<noteq> [] \<or> cs = [] \<Longrightarrow> concat (map snd (level_nodes d prev cs E)) = cs @ kids d prev E"
proof (induction E arbitrary: prev cs)
  case (Cons w ws)
  then show ?case
    by (cases "is_last d w ws") (auto simp: Let_def is_last_def)
qed simp

lemma level_nodes_fst: "map fst (level_nodes d prev cs E) = remdups_adj (map (take d) E)"
proof (induction E arbitrary: prev cs)
  case (Cons w ws)
  have e: "remdups_adj (map (take d) (w # ws)) =
      (if is_last d w ws then take d w # remdups_adj (map (take d) ws) else remdups_adj (map (take d) ws))"
    by (cases ws) (auto simp: is_last_def)
  show ?case unfolding e by (simp add: Let_def Cons.IH del: remdups_adj.simps)
qed simp

lemma level_nodes_child:
  assumes "(p, c) \<in> set (level_nodes d prev cs E)" "q \<in> set c"
    and "\<And>w. w \<in> set E \<Longrightarrow> d \<le> length w" "\<And>q. q \<in> set cs \<Longrightarrow> E \<noteq> [] \<Longrightarrow> \<exists>x. q = take d (hd E) @ [x]"
  shows "\<exists>x. q = p @ [x]"
  using assms
proof (induction E arbitrary: prev cs)
  case (Cons w ws)
  let ?cs = "cs @ (if is_new d prev w then [take (d + 1) w] else [])"
  have cs: "\<exists>x. q = take d w @ [x]" if "q \<in> set ?cs" for q
    using that Cons.prems(4) [of q] by (auto simp: is_new_def take_Suc_conv_app_nth split: if_splits)
  show ?case
  proof (cases "is_last d w ws")
    case True
    then consider "(p, c) = (take d w, ?cs)" | "(p, c) \<in> set (level_nodes d (Some w) [] ws)"
      using Cons.prems(1) by (auto simp: Let_def)
    then show ?thesis
    proof cases
      case 1
      then show ?thesis using cs Cons.prems(2) by blast
    next
      case 2
      then show ?thesis using Cons.IH [of "Some w" "[]"] Cons.prems(2,3) by simp
    qed
  next
    case False
    then have "(p, c) \<in> set (level_nodes d (Some w) ?cs ws)" "take d (hd ws) = take d w"
      using Cons.prems(1) by (auto simp: Let_def is_last_def)
    then show ?thesis using Cons.IH [of "Some w" ?cs] Cons.prems(2,3) cs by auto
  qed
qed simp

lemma kid_length: "x \<in> set (map (take (d + 1)) (filter (\<lambda>w. d < length w) E)) \<Longrightarrow> length x = d + 1"
  by auto

lemma sorted_map_take: "sorted (xs :: u8 list list) \<Longrightarrow> sorted (map (take n) xs)"
  by (induction xs) (auto intro: take_mono_list)

lemma remdups_adj_notin: "x \<notin> set xs \<Longrightarrow> remdups_adj (x # xs) = x # remdups_adj xs"
  by (cases xs) auto

lemma kids_remdups:
  assumes "sorted_wrt (<) (v # E)" "\<And>w. w \<in> set (v # E) \<Longrightarrow> d \<le> length w"
  shows "remdups_adj (take (d + 1) v # map (take (d + 1)) (filter (\<lambda>w. d < length w) E)) = take (d + 1) v # kids d (Some v) E"
  using assms
proof (induction E arbitrary: v)
  case (Cons w ws)
  let ?X = "map (take (d + 1)) (filter (\<lambda>w. d < length w) ws)"
  have IH: "remdups_adj (take (d + 1) w # ?X) = take (d + 1) w # kids d (Some w) ws"
    by (rule Cons.IH) (use Cons.prems in auto)
  show ?case
  proof (cases "d < length w")
    case True
    then show ?thesis using IH by (auto simp: is_new_def)
  next
    case False
    then have w: "length w = d" "take (d + 1) w = w" using Cons.prems(2) [of w] by auto
    have "w \<notin> set ?X" using kid_length [of w d ws] w(1) by auto
    then have "remdups_adj (w # ?X) = w # remdups_adj ?X" by (rule remdups_adj_notin)
    then have k: "kids d (Some w) ws = remdups_adj ?X" using IH w(2) by simp
    have "take (d + 1) v \<noteq> take (d + 1) x" if x: "x \<in> set ws" "d < length x" for x
    proof
      assume e: "take (d + 1) v = take (d + 1) x"
      have vw: "v < w" "w < x" using Cons.prems(1) x(1) by auto
      have "take d v = take d x" using arg_cong [OF e, of "take d"] by simp
      then have "take d w = take d v" using take_between [of v w x d] vw by simp
      then have "w \<le> v" using w(1) take_le_self [of d v] by simp
      then show False using vw by simp
    qed
    then have "remdups_adj (take (d + 1) v # ?X) = take (d + 1) v # remdups_adj ?X"
      by (cases "filter (\<lambda>w. d < length w) ws") (auto simp: filter_eq_Cons_iff)
    then show ?thesis using False k by (simp add: is_new_def)
  qed
qed simp

lemma kids_level:
  assumes "sorted_wrt (<) E" "\<And>w. w \<in> set E \<Longrightarrow> d \<le> length w"
  shows "kids d None E = remdups_adj (map (take (d + 1)) (filter (\<lambda>w. d < length w) E))"
proof (cases E)
  case (Cons v ws)
  note k = kids_remdups [of v ws d]
  show ?thesis
  proof (cases "d < length v")
    case True
    then show ?thesis using k assms Cons by (simp add: is_new_def)
  next
    case False
    let ?X = "map (take (d + 1)) (filter (\<lambda>w. d < length w) ws)"
    have v: "length v = d" "take (d + 1) v = v" using False assms(2) [of v] Cons by auto
    have "v \<notin> set ?X" using kid_length [of v d ws] v(1) by auto
    then have "remdups_adj (v # ?X) = v # remdups_adj ?X" by (rule remdups_adj_notin)
    then show ?thesis using k assms Cons v(2) False by (simp add: is_new_def)
  qed
qed simp

text \<open>Whether an edge ends a word shows in the word at hand.\<close>

fun kid_ends :: "nat \<Rightarrow> u8 list option \<Rightarrow> u8 list list \<Rightarrow> bool list" where
  "kid_ends d prev [] = []"
| "kid_ends d prev (w # ws) = (if is_new d prev w then [length w = d + 1] else []) @ kid_ends d (Some w) ws"

lemma kids_notin:
  assumes "sorted_wrt (<) (v # E)" "\<And>w. w \<in> set (v # E) \<Longrightarrow> d \<le> length w"
  shows "take (d + 1) v \<notin> set (kids d (Some v) E)"
proof -
  have "sorted (v # filter (\<lambda>w. d < length w) E)"
    using assms(1) by (auto simp: sorted_wrt_filter strict_sorted_imp_sorted less_imp_le)
  from sorted_map_take [OF this, of "d + 1"]
  have "sorted (take (d + 1) v # map (take (d + 1)) (filter (\<lambda>w. d < length w) E))" by simp
  then have "distinct (take (d + 1) v # kids d (Some v) E)"
    using sorted_remdups_adj_distinct kids_remdups [OF assms] by metis
  then show ?thesis by simp
qed

lemma kid_ends_words:
  assumes "sorted_wrt (<) E" "\<And>w. w \<in> set E \<Longrightarrow> d \<le> length w" "\<And>v. prev = Some v \<Longrightarrow> v \<notin> set (kids d prev E)"
  shows "kid_ends d prev E = map (\<lambda>q. q \<in> set E) (kids d prev E)"
  using assms
proof (induction E arbitrary: prev)
  case (Cons w ws)
  have nk: "take (d + 1) w \<notin> set (kids d (Some w) ws)"
    by (rule kids_notin) (use Cons.prems in auto)
  have wk: "w \<notin> set (kids d (Some w) ws)"
  proof (cases "length w \<le> d + 1")
    case True
    then show ?thesis using nk by simp
  next
    case False
    have "length q \<le> d + 1" if "q \<in> set (kids d p E)" for q p E
      using that by (induction E arbitrary: p) (auto split: if_splits)
    then show ?thesis using False by blast
  qed
  have IH: "kid_ends d (Some w) ws = map (\<lambda>q. q \<in> set ws) (kids d (Some w) ws)"
    by (rule Cons.IH) (use Cons.prems wk in auto)
  also have "\<dots> = map (\<lambda>q. q \<in> set (w # ws)) (kids d (Some w) ws)" using wk by auto
  finally have rest: "kid_ends d (Some w) ws = map (\<lambda>q. q \<in> set (w # ws)) (kids d (Some w) ws)" .
  have "take (d + 1) w \<in> set (w # ws) \<longleftrightarrow> length w = d + 1" if "d < length w"
  proof
    assume "take (d + 1) w \<in> set (w # ws)"
    moreover have "take (d + 1) w \<notin> set ws"
    proof
      assume "take (d + 1) w \<in> set ws"
      then have "w < take (d + 1) w" using Cons.prems(1) by auto
      then show False using take_le_self [of "d + 1" w] by simp
    qed
    ultimately have "take (d + 1) w = w" by simp
    then have "length w \<le> d + 1" by (metis length_take min.cobounded2)
    then show "length w = d + 1" using that by simp
  qed simp
  then show ?case using rest by (auto simp: is_new_def)
qed simp

subsection \<open>What the loops write\<close>

definition assign_ids :: "nat list \<Rightarrow> int list \<Rightarrow> int list" where
  "assign_ids js ids = fold (\<lambda>(n, j) l. l[j := int n]) (enumerate 0 js) ids"

definition wrote :: "int list \<Rightarrow> TrieStreams \<Rightarrow> bool list \<Rightarrow> bool list \<Rightarrow> u8 list \<Rightarrow> nat list \<Rightarrow> bool" where
  "wrote ids st bits terms edges js \<longleftrightarrow> stream_ok (ts_trie st) bits \<and> stream_ok (ts_terminal st) terms \<and>
     ts_edge_character st = edges \<and> ts_id st = length js \<and> ts_id_list st = assign_ids js ids"

lemma assign_ids_snoc: "assign_ids (js @ [j]) ids = (assign_ids js ids)[j := int (length js)]"
  by (simp add: assign_ids_def enumerate_append_eq)

fun end_entries :: "nat \<Rightarrow> u8 list option \<Rightarrow> TrieEntry list \<Rightarrow> TrieEntry list" where
  "end_entries d prev [] = []"
| "end_entries d prev (e # es) =
     (if is_new d prev (fst e) \<and> length (fst e) = d + 1 then [e] else []) @ end_entries d (Some (fst e)) es"

lemma end_entries_subset: "set (end_entries d prev es) \<subseteq> set es"
  by (induction es arbitrary: prev) auto

lemma end_entries_words:
  "map fst (end_entries d prev es) =
     map fst (filter snd (zip (kids d prev (map fst es)) (kid_ends d prev (map fst es))))"
  by (induction es arbitrary: prev) auto

lemma wrote_push_edge:
  assumes "wrote ids st bits terms edges js" "d < length (fst e)"
  shows "wrote ids (push_edge d e st) (bits @ [True]) (terms @ [length (fst e) = d + 1])
    (edges @ [last (take (d + 1) (fst e))]) (js @ (if length (fst e) = d + 1 then [snd e] else []))"
proof -
  have "last (take (d + 1) (fst e)) = fst e ! d"
    using assms(2) by (simp add: take_Suc_conv_app_nth)
  then show ?thesis using assms
    by (auto simp: wrote_def push_edge_def Let_def stream_ok_PushBit assign_ids_snoc)
qed

lemma level_loop_writes:
  assumes "es = pre @ rest" "prev = (if pre = [] then None else Some (fst (last pre)))" "wrote ids st bits terms edges js"
  shows "wrote ids (fold (level_step d es) [length pre..<length es] st)
    (bits @ level_bits d prev (map fst rest)) (terms @ kid_ends d prev (map fst rest))
    (edges @ map last (kids d prev (map fst rest))) (js @ map snd (end_entries d prev rest))"
  using assms
proof (induction rest arbitrary: pre prev st bits terms edges js)
  case (Cons e rest)
  let ?i = "length pre"
  have at: "es ! ?i = e" "?i < length es" "?i = 0 \<longleftrightarrow> prev = None" "?i = length es - 1 \<longleftrightarrow> rest = []"
    using Cons.prems(1,2) by auto
  have pv: "es ! (?i - 1) = last pre" "prev = Some (fst (last pre))" if "pre \<noteq> []"
    using that Cons.prems(1,2) by (simp_all add: nth_append last_conv_nth)
  have nx: "es ! (?i + 1) = hd rest" if "rest \<noteq> []" using that Cons.prems(1) by (simp add: nth_append hd_conv_nth)
  have new: "length (fst e) > d \<and> (?i = 0 \<or> take (d + 1) (fst e) \<noteq> take (d + 1) (fst (es ! (?i - 1)))) \<longleftrightarrow> is_new d prev (fst e)"
    using pv Cons.prems(2) by (cases "pre = []") (auto simp: is_new_def)
  have lst: "?i = length es - 1 \<or> take d (fst e) \<noteq> take d (fst (es ! (?i + 1))) \<longleftrightarrow> is_last d (fst e) (map fst rest)"
    using nx at(4) by (cases "rest = []") (auto simp: is_last_def hd_map)
  define st1 where "st1 = (if is_new d prev (fst e) then push_edge d e st else st)"
  define b1 where "b1 = bits @ (if is_new d prev (fst e) then [True] else [])"
  define t1 where "t1 = terms @ (if is_new d prev (fst e) then [length (fst e) = d + 1] else [])"
  define e1 where "e1 = edges @ (if is_new d prev (fst e) then [last (take (d + 1) (fst e))] else [])"
  define j1 where "j1 = js @ (if is_new d prev (fst e) \<and> length (fst e) = d + 1 then [snd e] else [])"
  have w1: "wrote ids st1 b1 t1 e1 j1"
    using Cons.prems(3) wrote_push_edge [OF Cons.prems(3), of d e]
    by (auto simp: st1_def b1_def t1_def e1_def j1_def is_new_def)
  define st2 where "st2 = (if is_last d (fst e) (map fst rest) then st1\<lparr>ts_trie := PushBit False (ts_trie st1)\<rparr> else st1)"
  define b2 where "b2 = b1 @ (if is_last d (fst e) (map fst rest) then [False] else [])"
  have w2: "wrote ids st2 b2 t1 e1 j1"
    using w1 by (auto simp: st2_def b2_def wrote_def stream_ok_PushBit)
  have step: "level_step d es ?i st = st2"
    unfolding level_step_def Let_def at(1) new lst st2_def st1_def by (rule refl)
  have "wrote ids (fold (level_step d es) [length (pre @ [e])..<length es] st2)
      (b2 @ level_bits d (Some (fst e)) (map fst rest)) (t1 @ kid_ends d (Some (fst e)) (map fst rest))
      (e1 @ map last (kids d (Some (fst e)) (map fst rest))) (j1 @ map snd (end_entries d (Some (fst e)) rest))"
    by (rule Cons.IH [OF _ _ w2]) (use Cons.prems(1) in simp_all)
  moreover have "[?i..<length es] = ?i # [length (pre @ [e])..<length es]"
    using at(2) by (simp add: upt_conv_Cons)
  moreover have "bits @ level_bits d prev (map fst (e # rest)) = b2 @ level_bits d (Some (fst e)) (map fst rest)"
    "terms @ kid_ends d prev (map fst (e # rest)) = t1 @ kid_ends d (Some (fst e)) (map fst rest)"
    "edges @ map last (kids d prev (map fst (e # rest))) = e1 @ map last (kids d (Some (fst e)) (map fst rest))"
    "js @ map snd (end_entries d prev (e # rest)) = j1 @ map snd (end_entries d (Some (fst e)) rest)"
    by (simp_all add: b2_def b1_def t1_def e1_def j1_def)
  ultimately show ?case using step by (simp only: fold_simps)
qed simp

text \<open>Both loops together.\<close>

definition sorted_entries :: "nat \<Rightarrow> TrieEntry list \<Rightarrow> bool" where
  "sorted_entries d es \<longleftrightarrow> sorted_wrt (<) (map fst es) \<and> (\<forall>e \<in> set es. d \<le> length (fst e))"

definition tree_nodes :: "nat \<Rightarrow> u8 list list \<Rightarrow> (u8 list \<times> u8 list list) list \<Rightarrow> bool" where
  "tree_nodes d E G \<longleftrightarrow>
     map fst G = remdups_adj (map (take d) E) @ concat (map snd G) \<and>
     (\<forall>(p, c) \<in> set G. \<forall>q \<in> set c. \<exists>x. q = p @ [x]) \<and>
     sorted (map (\<lambda>g. length (fst g)) G) \<and> distinct (map fst G) \<and> (\<forall>g \<in> set G. d \<le> length (fst g)) \<and>
     (\<forall>w \<in> set E. d < length w \<longrightarrow> w \<in> set (concat (map snd G))) \<and>
     (\<forall>q \<in> set (concat (map snd G)). \<exists>w \<in> set E. q = take (length q) w)"

lemma sorted_const: "\<forall>g \<in> set xs. f g = (d :: nat) \<Longrightarrow> sorted (map f xs)"
  by (induction xs) auto

lemma level_tree:
  assumes "sorted_wrt (<) E" "\<And>w. w \<in> set E \<Longrightarrow> d \<le> length w" "tree_nodes (Suc d) (filter (\<lambda>w. d < length w) E) G"
  shows "tree_nodes d E (level_nodes d None [] E @ G)"
proof -
  let ?L = "level_nodes d None [] E" and ?E' = "filter (\<lambda>w. d < length w) E"
  have f: "map fst ?L = remdups_adj (map (take d) E)" by (rule level_nodes_fst)
  have k: "concat (map snd ?L) = remdups_adj (map (take (Suc d)) ?E')"
    using level_nodes_kids [of E "[]" d None] kids_level [OF assms(1,2)] by simp
  have len: "length p = d" if "p \<in> set (map fst ?L)" for p using that assms(2) unfolding f by auto
  have G: "map fst G = remdups_adj (map (take (Suc d)) ?E') @ concat (map snd G)"
    "\<forall>(p, c) \<in> set G. \<forall>q \<in> set c. \<exists>x. q = p @ [x]" "sorted (map (\<lambda>g. length (fst g)) G)" "distinct (map fst G)"
    "\<forall>g \<in> set G. Suc d \<le> length (fst g)" "\<forall>w \<in> set ?E'. Suc d < length w \<longrightarrow> w \<in> set (concat (map snd G))"
    "\<forall>q \<in> set (concat (map snd G)). \<exists>w \<in> set ?E'. q = take (length q) w"
    using assms(3) unfolding tree_nodes_def by blast+
  have "map fst (?L @ G) = remdups_adj (map (take d) E) @ concat (map snd (?L @ G))"
    using f k G(1) by simp
  moreover have "\<forall>(p, c) \<in> set (?L @ G). \<forall>q \<in> set c. \<exists>x. q = p @ [x]"
    using level_nodes_child [of _ _ d None "[]" E] assms(2) G(2) by fastforce
  moreover have "sorted (map (\<lambda>g. length (fst g)) (?L @ G))"
  proof -
    have "\<forall>g \<in> set ?L. length (fst g) = d" using len by auto
    then show ?thesis using G(3,5) sorted_const [of ?L "\<lambda>g. length (fst g)" d] by (auto simp: sorted_append)
  qed
  moreover have "distinct (map fst (?L @ G))"
  proof -
    have "sorted (map (take d) E)" using assms(1) by (intro sorted_map_take) (simp add: strict_sorted_imp_sorted)
    then have "distinct (map fst ?L)" unfolding f using sorted_remdups_adj_distinct by blast
    moreover have "set (map fst ?L) \<inter> set (map fst G) = {}"
    proof (rule equals0I)
      fix p assume "p \<in> set (map fst ?L) \<inter> set (map fst G)"
      then obtain g where "g \<in> set G" "fst g = p" "p \<in> set (map fst ?L)" by auto
      then have "length p = d" "Suc d \<le> length p" using len G(5) by blast+
      then show False by simp
    qed
    ultimately show ?thesis using G(4) by simp
  qed
  moreover have "\<forall>g \<in> set (?L @ G). d \<le> length (fst g)" using len G(5) by fastforce
  moreover have "w \<in> set (concat (map snd (?L @ G)))" if w: "w \<in> set E" "d < length w" for w
  proof (cases "length w = Suc d")
    case True
    then have "w \<in> set (remdups_adj (map (take (Suc d)) ?E'))" using w by (auto intro: rev_image_eqI)
    then show ?thesis using k by (metis Un_iff concat_append map_append set_append)
  next
    case False
    then have "w \<in> set (concat (map snd G))" using w G(6) by auto
    then show ?thesis by auto
  qed
  moreover have "\<exists>w \<in> set E. q = take (length q) w" if q: "q \<in> set (concat (map snd (?L @ G)))" for q
  proof -
    consider "q \<in> set (remdups_adj (map (take (Suc d)) ?E'))" | "q \<in> set (concat (map snd G))"
      using q k by auto
    then show ?thesis
    proof cases
      case 1
      then show ?thesis by auto
    next
      case 2
      then obtain w where "w \<in> set ?E'" "q = take (length q) w" using G(7) by blast
      then show ?thesis by auto
    qed
  qed
  ultimately show ?thesis unfolding tree_nodes_def by blast
qed

lemma filter_zip_map: "map fst (filter snd (zip xs (map P xs))) = filter P xs"
  by (induction xs) auto

lemma tree_nodes_children_length:
  assumes "tree_nodes d E G" "q \<in> set (concat (map snd G))"
  shows "d < length q"
proof -
  obtain p c where g: "(p, c) \<in> set G" "q \<in> set c" using assms(2) by auto
  then obtain x where "q = p @ [x]" using assms(1) by (fastforce simp: tree_nodes_def)
  moreover have "d \<le> length p" using g(1) assms(1) by (fastforce simp: tree_nodes_def)
  ultimately show ?thesis by simp
qed

lemma depth_loop_writes:
  assumes "wrote ids st bits terms edges js" "sorted_entries d es"
  shows "\<exists>G J. wrote ids (depth_loop d es st) (bits @ concat (map (\<lambda>g. degree_bits (length (snd g))) G))
      (terms @ map (\<lambda>q. q \<in> set (map fst es)) (concat (map snd G)))
      (edges @ map last (concat (map snd G))) (js @ map snd J) \<and>
    tree_nodes d (map fst es) G \<and> map fst J = filter (\<lambda>q. q \<in> set (map fst es)) (concat (map snd G)) \<and> set J \<subseteq> set es"
  using assms
proof (induction d es st arbitrary: bits terms edges js rule: depth_loop.induct)
  case (1 d es st)
  show ?case
  proof (cases "es = []")
    case True
    then show ?thesis using "1.prems"(1)
      by (intro exI [of _ "[]"]) (simp add: depth_loop.simps [of d "[]" st] tree_nodes_def)
  next
    case False
    let ?E = "map fst es" and ?es' = "filter (\<lambda>e. \<not> length (fst e) < d + 1) es"
    let ?L = "level_nodes d None [] ?E" and ?K = "kids d None ?E"
    have srt: "sorted_wrt (<) ?E" and len: "\<And>w. w \<in> set ?E \<Longrightarrow> d \<le> length w"
      using "1.prems"(2) by (auto simp: sorted_entries_def)
    have E': "map fst ?es' = filter (\<lambda>w. d < length w) ?E" by (simp add: filter_map comp_def not_less Suc_le_eq)
    have se: "sorted_entries (Suc d) ?es'"
      using srt unfolding sorted_entries_def E' by (auto simp: sorted_wrt_filter)
    have ke: "kid_ends d None ?E = map (\<lambda>q. q \<in> set ?E) ?K"
      using kid_ends_words [OF srt len, of None] by simp
    have kL: "concat (map snd ?L) = ?K" using level_nodes_kids [of ?E "[]" d None] by simp
    have w: "wrote ids (level_loop d es st) (bits @ level_bits d None ?E) (terms @ kid_ends d None ?E)
        (edges @ map last ?K) (js @ map snd (end_entries d None es))"
      using level_loop_writes [of es "[]" es None ids st bits terms edges js d] "1.prems"(1) by (simp add: level_loop_def)
    obtain G J where G: "wrote ids (depth_loop (Suc d) ?es' (level_loop d es st))
        ((bits @ level_bits d None ?E) @ concat (map (\<lambda>g. degree_bits (length (snd g))) G))
        ((terms @ kid_ends d None ?E) @ map (\<lambda>q. q \<in> set (map fst ?es')) (concat (map snd G)))
        ((edges @ map last ?K) @ map last (concat (map snd G))) ((js @ map snd (end_entries d None es)) @ map snd J)"
      and tn: "tree_nodes (Suc d) (map fst ?es') G"
      and J: "map fst J = filter (\<lambda>q. q \<in> set (map fst ?es')) (concat (map snd G))" "set J \<subseteq> set ?es'"
      using "1.IH" [OF False w se] by blast
    have mem: "q \<in> set (map fst ?es') \<longleftrightarrow> q \<in> set ?E" if "q \<in> set (concat (map snd G))" for q
      using tree_nodes_children_length [OF tn that] unfolding E' by simp
    have bits: "level_bits d None ?E = concat (map (\<lambda>g. degree_bits (length (snd g))) ?L)"
      using level_nodes_bits [of ?E "[]" d None] by simp
    have t: "map (\<lambda>q. q \<in> set (map fst ?es')) (concat (map snd G)) = map (\<lambda>q. q \<in> set ?E) (concat (map snd G))"
      by (rule map_cong [OF refl]) (rule mem)
    have j: "map fst (end_entries d None es @ J) = filter (\<lambda>q. q \<in> set ?E) (concat (map snd (?L @ G)))"
    proof -
      have "map fst (end_entries d None es) = filter (\<lambda>q. q \<in> set ?E) ?K"
        unfolding end_entries_words ke filter_zip_map ..
      moreover have "map fst J = filter (\<lambda>q. q \<in> set ?E) (concat (map snd G))"
        unfolding J(1) by (rule filter_cong [OF refl]) (rule mem)
      ultimately show ?thesis using kL by simp
    qed
    have dl: "depth_loop d es st = depth_loop (Suc d) ?es' (level_loop d es st)"
      using False by (subst depth_loop.simps) simp
    have "wrote ids (depth_loop d es st) (bits @ concat (map (\<lambda>g. degree_bits (length (snd g))) (?L @ G)))
        (terms @ map (\<lambda>q. q \<in> set ?E) (concat (map snd (?L @ G)))) (edges @ map last (concat (map snd (?L @ G))))
        (js @ map snd (end_entries d None es @ J))"
      using G unfolding dl bits ke t by (simp add: kL)
    moreover have "tree_nodes d ?E (?L @ G)" by (rule level_tree [OF srt len tn [unfolded E']])
    moreover have "set (end_entries d None es @ J) \<subseteq> set es"
      using end_entries_subset [of d None es] J(2) by auto
    ultimately show ?thesis using j by blast
  qed
qed

subsection \<open>The tree of the words\<close>

lemma root_level: "W \<noteq> [] \<Longrightarrow> remdups_adj (map (take 0) W) = [[]]"
proof (induction W)
  case (Cons w W)
  then show ?case by (cases W) auto
qed simp

lemma tree_shape:
  assumes "tree_nodes 0 W G" "W \<noteq> []"
  shows "trie_shape (map (\<lambda>g. length (snd g)) G) (map fst G)"
proof -
  let ?ds = "map (\<lambda>g. length (snd g)) G" and ?c = "concat (map snd G)"
  have r: "remdups_adj (map (take 0) W) = [[]]" by (rule root_level [OF assms(2)])
  have P: "map fst G = [] # ?c" using assms(1) r by (simp add: tree_nodes_def)
  have G: "\<And>p c q. (p, c) \<in> set G \<Longrightarrow> q \<in> set c \<Longrightarrow> \<exists>x. q = p @ [x]" "sorted (map (\<lambda>g. length (fst g)) G)" "distinct (map fst G)"
    using assms(1) unfolding tree_nodes_def by blast+
  have sum: "sum_list (take n ?ds) = length (concat (map snd (take n G)))" for n
    by (simp add: length_concat take_map comp_def)
  have n: "sum_list ?ds + 1 = length ?ds"
    using arg_cong [OF P, of length] sum [of "length G"] by simp
  have child: "\<exists>x. (map fst G) ! (1 + sum_list (take k ?ds) + i) = fst (G ! k) @ [x]"
    and below: "1 + sum_list (take k ?ds) + i < length G"
    if "k < length G" "i < length (snd (G ! k))" for k i
  proof -
    have s: "G = take k G @ G ! k # drop (Suc k) G" using that(1) by (rule id_take_nth_drop)
    have c: "?c = concat (map snd (take k G)) @ snd (G ! k) @ concat (map snd (drop (Suc k) G))"
      using arg_cong [OF s, of "\<lambda>g. concat (map snd g)"] by (simp only: map_append concat_append list.map concat.simps)
    have "(map fst G) ! (1 + sum_list (take k ?ds) + i) = snd (G ! k) ! i"
      unfolding P sum c using that(2) by (simp add: nth_append)
    moreover have "\<exists>x. snd (G ! k) ! i = fst (G ! k) @ [x]"
      using G(1) [of "fst (G ! k)" "snd (G ! k)"] that by simp
    ultimately show "\<exists>x. (map fst G) ! (1 + sum_list (take k ?ds) + i) = fst (G ! k) @ [x]" by simp
    have "length G = 1 + length ?c" using arg_cong [OF P, of length] by simp
    moreover have "length ?c = length (concat (map snd (take k G))) + (length (snd (G ! k)) + length (concat (map snd (drop (Suc k) G))))"
      using arg_cong [OF c, of length] by (simp only: length_append)
    ultimately show "1 + sum_list (take k ?ds) + i < length G" using that(2) unfolding sum by linarith
  qed
  have before: "k < 1 + sum_list (take k ?ds)" if k: "k < length ?ds" for k
  proof (cases "k = 0")
    case False
    then obtain j i where j: "0 < j" "j \<le> length ?ds" "i < ?ds ! (j - 1)" "k + 1 = first_child ?ds j + i"
      using has_parent [of "k + 1" ?ds] k n by auto
    then have j': "j - 1 < length G" "i < length (snd (G ! (j - 1)))" "k = 1 + sum_list (take (j - 1) ?ds) + i"
      by (auto simp: first_child_def)
    then have "length (fst (G ! k)) = length (fst (G ! (j - 1))) + 1"
      using child [OF j'(1,2)] k by auto
    then have "j - 1 < k"
      using sorted_nth_mono [OF G(2), of k "j - 1"] j'(1) by (cases "j - 1 < k") auto
    have "sum_list (take j ?ds) = sum_list (take (j - 1) ?ds) + ?ds ! (j - 1)"
      using j(1,2) take_Suc_conv_app_nth [of "j - 1" ?ds] by simp
    then have "k \<le> sum_list (take j ?ds)" using j' by simp
    also have "\<dots> \<le> sum_list (take k ?ds)"
    proof -
      have "take k ?ds = take j ?ds @ take (k - j) (drop j ?ds)"
        using \<open>j - 1 < k\<close> j(1) by (simp add: take_add [symmetric])
      then show ?thesis by simp
    qed
    finally show ?thesis by simp
  qed simp
  have "\<exists>c. map fst G ! (first_child ?ds k + i - 1) = map fst G ! (k - 1) @ [c]"
    if k: "k \<in> {1..length ?ds}" "i < ?ds ! (k - 1)" for k i
  proof -
    have k': "k - 1 < length G" "i < length (snd (G ! (k - 1)))" using k by auto
    have "first_child ?ds k + i - 1 = 1 + sum_list (take (k - 1) ?ds) + i" by (simp add: first_child_def)
    then show ?thesis using child [OF k'] k' by simp
  qed
  moreover have "map fst G ! 0 = []" using P by simp
  ultimately show ?thesis unfolding trie_shape_def bfs_degrees_def using n before G(3) by simp
qed

lemma assign_ids_length [simp]: "length (assign_ids js ids) = length ids"
  by (induction js rule: rev_induct) (simp_all add: assign_ids_snoc, simp add: assign_ids_def)

lemma assign_ids_nth:
  "distinct js \<Longrightarrow> n < length js \<Longrightarrow> js ! n < length ids \<Longrightarrow> assign_ids js ids ! (js ! n) = int n"
proof (induction js rule: rev_induct)
  case (snoc j js)
  show ?case
  proof (cases "n = length js")
    case True
    then show ?thesis using snoc.prems by (simp add: assign_ids_snoc)
  next
    case False
    then have n: "n < length js" using snoc.prems by simp
    then have "js ! n \<noteq> j" using snoc.prems(1) by (auto simp: in_set_conv_nth)
    then show ?thesis using snoc n by (simp add: assign_ids_snoc nth_append)
  qed
qed simp

lemma takeWhile_until: "\<forall>x \<in> set a. P x \<Longrightarrow> \<not> P w \<Longrightarrow> takeWhile P (a @ w # b) = a"
  by (induction a) auto

lemma filter_at:
  assumes "distinct xs" "w \<in> set xs" "P w"
  shows "length (filter P (takeWhile (\<lambda>p. p \<noteq> w) xs)) < length (filter P xs) \<and>
    filter P xs ! length (filter P (takeWhile (\<lambda>p. p \<noteq> w) xs)) = w"
proof -
  obtain a b where ab: "xs = a @ w # b" "w \<notin> set a" using split_list_first [OF assms(2)] by blast
  then have "takeWhile (\<lambda>p. p \<noteq> w) xs = a" 
  proof -
    have "\<forall>x \<in> set a. x \<noteq> w" using ab(2) by blast
    then show ?thesis unfolding ab(1) by (intro takeWhile_until) simp_all
  qed
  then show ?thesis using ab assms(3) by simp
qed

lemma take_length_takeWhile: "take (length (takeWhile P xs)) xs = takeWhile P xs"
  by (induction xs) auto

lemma key_id_map: "key_id xs (map P xs) w = length (filter P (takeWhile (\<lambda>p. p \<noteq> w) xs))"
  by (simp add: key_id_def take_map take_length_takeWhile filter_map comp_def)

lemma lower_index:
  assumes "sorted_wrt (<) (W :: u8 list list)"
  shows "if w \<in> set W then length (takeWhile (\<lambda>x. x < w) W) < length W \<and> W ! length (takeWhile (\<lambda>x. x < w) W) = w
    else length (takeWhile (\<lambda>x. x < w) W) = length W \<or> W ! length (takeWhile (\<lambda>x. x < w) W) \<noteq> w"
proof -
  let ?n = "length (takeWhile (\<lambda>x. x < w) W)"
  have le: "?n \<le> length W" by (rule length_takeWhile_le)
  show ?thesis
  proof (cases "w \<in> set W")
    case True
    then obtain a b where ab: "W = a @ w # b" by (meson split_list)
    then have "\<forall>x \<in> set a. x < w" using assms by (auto simp: sorted_wrt_append)
    then have "takeWhile (\<lambda>x. x < w) W = a" using ab takeWhile_until [of a "\<lambda>x. x < w" w b] by simp
    then show ?thesis using True ab by simp
  next
    case False
    then have "W ! ?n \<noteq> w" if "?n < length W" using nth_mem [OF that] by metis
    then show ?thesis using False le by auto
  qed
qed

lemma length_distinct_prefixes:
  assumes "distinct Q" "\<forall>q \<in> set Q. \<exists>w \<in> set W. q = take (length q) w" "[] \<notin> set Q"
  shows "length Q \<le> sum_list (map length W)"
proof -
  have "set Q \<subseteq> set (concat (map (\<lambda>w. map (\<lambda>i. take i w) [1..<Suc (length w)]) W))"
  proof
    fix q assume q: "q \<in> set Q"
    then obtain w where w: "w \<in> set W" "q = take (length q) w" using assms(2) by blast
    then have "length q \<le> length w" by (metis length_take min.cobounded1)
    moreover have "0 < length q" using q assms(3) by auto
    ultimately have "q \<in> set (map (\<lambda>i. take i w) [1..<Suc (length w)])" 
      using w(2) unfolding set_map set_upt by (intro image_eqI [of _ _ "length q"]) (auto simp: Suc_le_eq)
    then show "q \<in> set (concat (map (\<lambda>w. map (\<lambda>i. take i w) [1..<Suc (length w)]) W))" using w(1) by (auto simp del: upt_Suc)
  qed
  then have "card (set Q) \<le> card (set (concat (map (\<lambda>w. map (\<lambda>i. take i w) [1..<Suc (length w)]) W)))"
    by (intro card_mono) auto
  also have "\<dots> \<le> length (concat (map (\<lambda>w. map (\<lambda>i. take i w) [1..<Suc (length w)]) W))" by (rule card_length)
  also have "\<dots> = sum_list (map length W)" by (simp add: length_concat comp_def del: upt_Suc)
  finally show ?thesis using distinct_card [OF assms(1)] by simp
qed

lemma remdups_adj_sort:
  "sorted_wrt (<) (remdups_adj (sort (ws :: u8 list list))) \<and> set (remdups_adj (sort ws)) = set ws"
  using sorted_remdups_adj_distinct [of "sort ws"] by (auto simp: strict_sorted_iff)

lemma sum_remdups_adj_sort: "sum_list (map length (remdups_adj (sort (ws :: u8 list list)))) \<le> sum_list (map length ws)"
proof -
  have a: "sum_list (map length (remdups_adj xs)) \<le> sum_list (map length xs)" for xs :: "u8 list list"
    by (induction xs rule: remdups_adj.induct) auto
  have "sum_list (map length (sort ws)) = sum_list (map length ws)"
    by (metis mset_map mset_sort sum_mset_sum_list)
  then show ?thesis using a [of "sort ws"] by simp
qed

text \<open>What \<^const>\<open>Build\<close> writes, in terms of the tree.\<close>

lemma trie_streams_result:
  assumes "sorted_wrt (<) W" "W \<noteq> []" "[] \<notin> set W" "length ids = length W"
  obtains G where "tree_nodes 0 W G"
    and "stream_ok (ts_trie (trie_streams W ids)) (louds_bits (map (\<lambda>g. length (snd g)) G))"
    and "stream_ok (ts_terminal (trie_streams W ids)) (map (\<lambda>q. q \<in> set W) (map fst G))"
    and "ts_edge_character (trie_streams W ids) = 0 # map last (concat (map snd G))"
    and "\<And>j. j < length W \<Longrightarrow> ts_id_list (trie_streams W ids) ! j =
      int (key_id (map fst G) (map (\<lambda>q. q \<in> set W) (map fst G)) (W ! j))"
proof -
  let ?es = "zip W [0..<length W]"
  have E: "map fst ?es = W" by simp
  have se: "sorted_entries 0 ?es" using assms(1) unfolding sorted_entries_def E by simp
  have w0: "wrote ids \<lparr>ts_trie = PushBit False (PushBit True NewBitStream), ts_terminal = PushBit False NewBitStream,
      ts_edge_character = [0], ts_id_list = ids, ts_id = 0\<rparr> ([True] @ [False]) [False] [0] []"
    using stream_ok_PushBit [OF stream_ok_PushBit [OF stream_ok_New, of True], of False] stream_ok_PushBit [OF stream_ok_New, of False]
    by (simp add: wrote_def assign_ids_def)
  obtain G J where G: "wrote ids (trie_streams W ids) (([True] @ [False]) @ concat (map (\<lambda>g. degree_bits (length (snd g))) G))
      ([False] @ map (\<lambda>q. q \<in> set W) (concat (map snd G))) ([0] @ map last (concat (map snd G))) ([] @ map snd J)"
    and tn: "tree_nodes 0 W G" and J: "map fst J = filter (\<lambda>q. q \<in> set W) (concat (map snd G))" "set J \<subseteq> set ?es"
    using depth_loop_writes [OF w0 se] unfolding E trie_streams_def by blast
  have P: "map fst G = [] # concat (map snd G)"
  proof -
    have "remdups_adj (map (take 0) W) = [[]]" by (rule root_level [OF assms(2)])
    then show ?thesis using tn by (simp add: tree_nodes_def)
  qed
  have ds: "distinct (map fst G)" using tn unfolding tree_nodes_def by blast
  have fJ: "filter (\<lambda>q. q \<in> set W) (map fst G) = map fst J" using P J(1) assms(3) by simp
  have idx: "snd e < length W \<and> W ! snd e = fst e" if "e \<in> set J" for e
    using J(2) that by (auto simp: set_zip)
  have dW: "distinct W" using assms(1) by (simp add: strict_sorted_iff)
  have dj: "distinct (map snd J)"
  proof -
    have "distinct (map fst J)" using fJ ds by (metis distinct_filter)
    then have "distinct J" by (rule distinct_map [THEN iffD1, THEN conjunct1])
    moreover have "inj_on snd (set J)"
    proof (rule inj_onI)
      fix a b assume "a \<in> set J" "b \<in> set J" "snd a = snd b"
      then show "a = b" using idx [of a] idx [of b] by (metis prod_eqI)
    qed
    ultimately show ?thesis by (simp add: distinct_map)
  qed
  have ids: "ts_id_list (trie_streams W ids) ! j = int (key_id (map fst G) (map (\<lambda>q. q \<in> set W) (map fst G)) (W ! j))"
    if j: "j < length W" for j
  proof -
    let ?w = "W ! j" and ?n = "length (filter (\<lambda>q. q \<in> set W) (takeWhile (\<lambda>p. p \<noteq> W ! j) (map fst G)))"
    have wW: "?w \<in> set W" using j by simp
    then have "?w \<noteq> []" using assms(3) by metis
    then have "?w \<in> set (concat (map snd G))" using tn wW unfolding tree_nodes_def by blast
    then have "?w \<in> set (map fst G)" using P by simp
    from filter_at [OF ds this, of "\<lambda>q. q \<in> set W"] wW
    have n: "?n < length (map fst J)" "map fst J ! ?n = ?w" unfolding fJ by auto
    have "snd (J ! ?n) < length W" "W ! snd (J ! ?n) = W ! j" using idx [of "J ! ?n"] n by auto
    then have "snd (J ! ?n) = j" using nth_eq_iff_index_eq [OF dW] j by blast
    moreover have "key_id (map fst G) (map (\<lambda>q. q \<in> set W) (map fst G)) ?w = ?n"
      by (rule key_id_map)
    moreover have "assign_ids (map snd J) ids ! (map snd J ! ?n) = int ?n"
      by (rule assign_ids_nth) (use dj n assms(4) idx [of "J ! ?n"] in auto)
    ultimately show ?thesis using G n(1) by (simp add: wrote_def)
  qed
  show thesis
    by (rule that [OF tn]) (use G P assms(3) ids in \<open>simp_all add: wrote_def louds_bits_def comp_def\<close>)
qed

subsection \<open>From words to a trie and back\<close>

lemma Open_parts:
  assumes "length trie < 2 ^ 31" "length terminal < 2 ^ 31" "length edge < 2 ^ 31" "edge \<noteq> []"
  shows "Open (le_bytes (length trie) @ le_bytes (length terminal) @ le_bytes 8 @ le_bytes (length edge) @ trie @ terminal @ edge) a b c d e =
    (case (Louds_Init (trie @ terminal @ edge) (length trie) a b c d, Init (terminal @ edge) (length terminal) 32 0 e) of
       (Some L, Some t) \<Rightarrow> Some \<lparr>lt_louds = L, lt_terminal = t, lt_edge_character = edge\<rparr> | _ \<Rightarrow> None)"
proof -
  let ?im = "le_bytes (length trie) @ le_bytes (length terminal) @ le_bytes 8 @ le_bytes (length edge) @ trie @ terminal @ edge"
  have l: "load_int ?im 0 = int (length trie)" "load_int ?im 4 = int (length terminal)" "load_int ?im 8 = 8"
    "load_int ?im 12 = int (length edge)"
    using load_le_bytes [of "length trie" "[]"] load_le_bytes [of "length terminal" "le_bytes (length trie)"]
      load_le_bytes [of 8 "le_bytes (length trie) @ le_bytes (length terminal)"]
      load_le_bytes [of "length edge" "le_bytes (length trie) @ le_bytes (length terminal) @ le_bytes 8"] assms(1-3)
    by simp_all
  have d: "drop 16 ?im = trie @ terminal @ edge" by simp
  have e: "drop (length trie) (trie @ terminal @ edge) = terminal @ edge" "drop (length terminal) (terminal @ edge) = edge"
    by simp_all
  show ?thesis unfolding Open_def Let_def l d nat_int e using assms(4) by simp
qed

lemma bv_append: "i < 8 * length xs \<Longrightarrow> bv (xs @ ys) i = bv xs i"
  by (rule bv_snoc)

definition AddAll :: "u8 list list \<Rightarrow> LoudsTrieBuilder option" where
  "AddAll ws = fold (\<lambda>w b. Option.bind b (Add w)) ws (Some NewLoudsTrieBuilder)"

lemma AddAll_words:
  assumes "[] \<notin> set ws"
  shows "AddAll ws = Some (NewLoudsTrieBuilder\<lparr>lb_word_list := ws\<rparr>)"
proof -
  have "fold (\<lambda>w b. Option.bind b (Add w)) ws (Some (NewLoudsTrieBuilder\<lparr>lb_word_list := us\<rparr>)) =
      Some (NewLoudsTrieBuilder\<lparr>lb_word_list := us @ ws\<rparr>)" for us
    using assms by (induction ws arbitrary: us) (auto simp: Add_def NewLoudsTrieBuilder_def)
  from this [of "[]"] show ?thesis by (simp add: AddAll_def NewLoudsTrieBuilder_def)
qed

text \<open>The trie that is read back from the image of a set of words.\<close>

lemma Build_Open:
  assumes "ws \<noteq> []" "[] \<notin> set ws" "sum_list (map length ws) + 1 < 2 ^ 31"
  obtains b T ds paths where "Build (NewLoudsTrieBuilder\<lparr>lb_word_list := ws\<rparr>) = Some b"
    and "Open (lb_image b) a1 a2 a3 a4 a5 = Some T" and "trie_ok T ds paths (map (\<lambda>q. q \<in> set ws) paths)"
    and "set ws \<subseteq> set paths"
    and "lb_built b" and "lb_word_list b = remdups_adj (sort ws)"
    and "\<And>j. j < length (lb_word_list b) \<Longrightarrow>
      lb_id_list b ! j = int (key_id paths (map (\<lambda>q. q \<in> set ws) paths) (lb_word_list b ! j))"
proof -
  let ?W = "remdups_adj (sort ws)" and ?ids = "replicate (length (remdups_adj (sort ws))) (-1 :: int)"
  have W: "sorted_wrt (<) ?W" "set ?W = set ws" using remdups_adj_sort by auto
  then have W': "?W \<noteq> []" "[] \<notin> set ?W" using assms(1,2) by (metis set_empty, simp)
  let ?st = "trie_streams ?W ?ids"
  obtain G where tn: "tree_nodes 0 ?W G"
    and st: "stream_ok (ts_trie ?st) (louds_bits (map (\<lambda>g. length (snd g)) G))"
      "stream_ok (ts_terminal ?st) (map (\<lambda>q. q \<in> set ?W) (map fst G))"
      "ts_edge_character ?st = 0 # map last (concat (map snd G))"
    and ids: "\<And>j. j < length ?W \<Longrightarrow> ts_id_list ?st ! j = int (key_id (map fst G) (map (\<lambda>q. q \<in> set ?W) (map fst G)) (?W ! j))"
    using trie_streams_result [OF W(1) W', of ?ids] by auto
  define ds where "ds = map (\<lambda>g. length (snd g)) G"
  define paths where "paths = map fst G"
  let ?Q = "concat (map snd G)"
  have sh: "trie_shape ds paths" unfolding ds_def paths_def by (rule tree_shape [OF tn W'(1)])
  note sd = trie_shapeD [OF sh]
  have P: "paths = [] # ?Q"
  proof -
    have "length paths = length (remdups_adj (map (take 0) ?W)) + length ?Q" "paths = remdups_adj (map (take 0) ?W) @ ?Q"
      using tn by (simp_all add: tree_nodes_def paths_def)
    moreover have "remdups_adj (map (take 0) ?W) = [[]]" by (rule root_level [OF W'(1)])
    ultimately show ?thesis by simp
  qed
  have "length ?Q \<le> sum_list (map length ?W)"
    by (rule length_distinct_prefixes) (use tn sd(3) P in \<open>auto simp: tree_nodes_def\<close>)
  then have nQ: "length ?Q + 1 < 2 ^ 31" using sum_remdups_adj_sort [of ws] assms(3) by linarith
  then have nds: "length ds < 2 ^ 31" using sd(2) P by simp
  let ?trie = "bs_image (FillPadding32 (ts_trie ?st))" and ?tvec = "bs_image (FillPadding32 (ts_terminal ?st))"
  let ?edge = "ts_edge_character ?st"
  note ft = FillPadding32_correct [OF st(1)] and fm = FillPadding32_correct [OF st(2)]
  have lb: "length (louds_bits ds) = 2 + sum_list ds + length ds" by (simp add: louds_bits_def filter_degrees)
  have "sum_list ds < length ds" using sd(1) by (simp add: bfs_degrees_def)
  then have len: "length ?trie < 2 ^ 31" "length ?tvec < 2 ^ 31" "length ?edge < 2 ^ 31" "?edge \<noteq> []"
    using ft fm nds nQ lb sd(2) by (auto simp: ds_def [symmetric] paths_def [symmetric] st(3))
  define b where "b = \<lparr>lb_built = True, lb_word_list = ?W, lb_id_list = ts_id_list ?st,
    lb_image = le_bytes (length ?trie) @ le_bytes (length ?tvec) @ le_bytes 8 @ le_bytes (length ?edge) @ ?trie @ ?tvec @ ?edge\<rparr>"
  have B: "Build (NewLoudsTrieBuilder\<lparr>lb_word_list := ws\<rparr>) = Some b"
    using len by (simp add: Build_def NewLoudsTrieBuilder_def Let_def PushInt32_eq b_def)
  have hl: "holds_louds (?trie @ ?tvec @ ?edge) (length ?trie) ds"
    using ft by (auto simp: holds_louds_def bv_append ds_def)
  obtain L where L: "Louds_Init (?trie @ ?tvec @ ?edge) (length ?trie) a1 a2 a3 a4 = Some L" "louds_ok L ds"
    using Louds_Init_ok [OF _ hl] ft by blast
  obtain t where t: "Init (?tvec @ ?edge) (length ?tvec) 32 0 a5 = Some t" "sv_ok t" "sv_data t = ?tvec @ ?edge" "sv_length t = length ?tvec"
    using Init_ok [of "length ?tvec" 32 "?tvec @ ?edge" 0 a5] fm by (auto simp: sizes_ok_def)
  define T where "T = \<lparr>lt_louds = L, lt_terminal = t, lt_edge_character = ?edge\<rparr>"
  have O: "Open (lb_image b) a1 a2 a3 a4 a5 = Some T"
    unfolding b_def using Open_parts [OF len] L(1) t(1) by (simp add: T_def)
  have "?edge ! j = last (paths ! j)" if "j < length paths" "0 < j" for j
    using that P st(3) by (cases j) auto
  then have ok: "trie_ok T ds paths (map (\<lambda>q. q \<in> set ws) paths)"
    using sh L(2) t fm W(2) by (auto simp: trie_ok_def T_def paths_def [symmetric] bv_append)
  have "set ws \<subseteq> set paths"
  proof
    fix w assume "w \<in> set ws"
    then have "w \<in> set ?W" "w \<noteq> []" using W(2) assms(2) by auto
    then have "w \<in> set ?Q" using tn unfolding tree_nodes_def by blast
    then show "w \<in> set paths" using P by simp
  qed
  then show thesis
    by (rule that [OF B O ok]) (use ids W(2) in \<open>simp_all add: b_def paths_def\<close>)
qed

lemma word_at_set:
  assumes "set ws \<subseteq> set paths"
  shows "word_at paths (map (\<lambda>q. q \<in> set ws) paths) key \<longleftrightarrow> key \<in> set ws"
proof
  assume "key \<in> set ws"
  then obtain j where "j < length paths" "paths ! j = key" using assms by (metis in_set_conv_nth subsetD)
  then show "word_at paths (map (\<lambda>q. q \<in> set ws) paths) key"
    using \<open>key \<in> set ws\<close> unfolding word_at_def by (intro exI [of _ j]) simp
qed (auto simp: word_at_def)

lemma key_id_bij:
  assumes "distinct paths" "set ws \<subseteq> set paths"
  defines "ends \<equiv> map (\<lambda>q. q \<in> set ws) paths"
  shows "inj_on (key_id paths ends) (set ws)" "key_id paths ends ` set ws = {..<card (set ws)}"
proof -
  let ?F = "filter (\<lambda>q. q \<in> set ws) paths"
  have len: "length ?F = card (set ws)"
  proof -
    have "set ?F = set ws" using assms(2) by auto
    then show ?thesis using distinct_card [of ?F] assms(1) by simp
  qed
  have at: "key_id paths ends w < card (set ws) \<and> ?F ! key_id paths ends w = w" if "w \<in> set ws" for w
    using filter_at [OF assms(1), of w "\<lambda>q. q \<in> set ws"] that assms(2) len unfolding ends_def key_id_map by auto
  show inj: "inj_on (key_id paths ends) (set ws)" using at by (metis inj_onI)
  have "key_id paths ends ` set ws \<subseteq> {..<card (set ws)}" using at by auto
  then show "key_id paths ends ` set ws = {..<card (set ws)}"
    using card_image [OF inj] by (intro card_subset_eq) simp_all
qed

lemma HasKey_ExactSearch: "HasKey T key = map_option (\<lambda>v. v \<noteq> -1) (ExactSearch T key)"
  by (simp add: HasKey_def ExactSearch_def option.map_comp comp_def case_prod_unfold)

text \<open>What the builder and the reader of a trie promise their users: \<open>f\<close> numbers the words.\<close>

definition trie_serves :: "u8 list list \<Rightarrow> LoudsTrieBuilder \<Rightarrow> LoudsTrie \<Rightarrow> (u8 list \<Rightarrow> nat) \<Rightarrow> bool" where
  "trie_serves ws b T f \<longleftrightarrow>
     (\<forall>key. GetId key b = Some (if key \<in> set ws then int (f key) else -1) \<and>
       ExactSearch T key = Some (if key \<in> set ws then int (f key) else -1) \<and>
       HasKey T key = Some (key \<in> set ws) \<and>
       (key \<in> set ws \<and> length key \<le> kMaxDepth \<longrightarrow> RestoreKeyStringFromId T (int (f key)) = Some key) \<and>
       map_option (map (\<lambda>(i, nd). (i, GetKeyIdOfTerminalNode T nd))) (PrefixSearch T key) =
         Some (map (\<lambda>i. (i, f (take i key))) (filter (\<lambda>i. take i key \<in> set ws) [1..<length key + 1]))) \<and>
     inj_on f (set ws) \<and> f ` set ws = {..<card (set ws)}"

lemma trie_build_open:
  assumes "ws \<noteq> []" "[] \<notin> set ws" "sum_list (map length ws) + 1 < 2 ^ 31"
  obtains b T f where "AddAll ws = Some (NewLoudsTrieBuilder\<lparr>lb_word_list := ws\<rparr>)"
    and "Build (NewLoudsTrieBuilder\<lparr>lb_word_list := ws\<rparr>) = Some b" and "Open (lb_image b) c1 c2 c3 c4 c5 = Some T"
    and "trie_serves ws b T f"
proof -
  obtain b T ds paths where B: "Build (NewLoudsTrieBuilder\<lparr>lb_word_list := ws\<rparr>) = Some b"
    "Open (lb_image b) c1 c2 c3 c4 c5 = Some T" "trie_ok T ds paths (map (\<lambda>q. q \<in> set ws) paths)" "set ws \<subseteq> set paths"
    "lb_built b" "lb_word_list b = remdups_adj (sort ws)"
    and ids: "\<And>j. j < length (lb_word_list b) \<Longrightarrow>
      lb_id_list b ! j = int (key_id paths (map (\<lambda>q. q \<in> set ws) paths) (lb_word_list b ! j))"
    using Build_Open [OF assms] by blast
  let ?ends = "map (\<lambda>q. q \<in> set ws) paths"
  note word = word_at_set [OF B(4)]
  have "GetId key b = Some (if key \<in> set ws then int (key_id paths ?ends key) else -1)" for key
    using lower_index [of "lb_word_list b" key] remdups_adj_sort [of ws] ids [of "length (takeWhile (\<lambda>w. w < key) (lb_word_list b))"]
      B(5,6) by (auto simp: GetId_def Let_def split: if_splits)
  moreover have X: "ExactSearch T key = Some (if key \<in> set ws then int (key_id paths ?ends key) else -1)" for key
    using ExactSearch_correct [OF B(3)] by (simp add: word)
  moreover have "HasKey T key = Some (key \<in> set ws)" for key by (simp add: HasKey_ExactSearch X)
  moreover have "RestoreKeyStringFromId T (int (key_id paths ?ends key)) = Some key"
    if "key \<in> set ws" "length key \<le> kMaxDepth" for key
    using RestoreKeyString_correct [OF B(3), of key] that by (simp add: word)
  moreover have "map_option (map (\<lambda>(i, nd). (i, GetKeyIdOfTerminalNode T nd))) (PrefixSearch T key) =
      Some (map (\<lambda>i. (i, key_id paths ?ends (take i key))) (filter (\<lambda>i. take i key \<in> set ws) [1..<length key + 1]))" for key
    using PrefixSearch_correct [OF B(3), of key] by (simp add: prefix_words_def word del: upt_Suc)
  moreover have "distinct paths" using B(3) trie_shapeD(3) unfolding trie_ok_def by blast
  then have "inj_on (key_id paths ?ends) (set ws)" "key_id paths ?ends ` set ws = {..<card (set ws)}"
    using key_id_bij B(4) by blast+
  ultimately have "trie_serves ws b T (key_id paths ?ends)" unfolding trie_serves_def by blast
  then show thesis using that AddAll_words [OF assms(2)] B(1,2) by blast
qed

lemma trie_servesD:
  assumes "trie_serves ws b T f"
  shows "GetId key b = Some (if key \<in> set ws then int (f key) else -1)"
    "ExactSearch T key = Some (if key \<in> set ws then int (f key) else -1)" "HasKey T key = Some (key \<in> set ws)"
    "key \<in> set ws \<Longrightarrow> length key \<le> kMaxDepth \<Longrightarrow> RestoreKeyStringFromId T (int (f key)) = Some key"
    "map_option (map (\<lambda>(i, nd). (i, GetKeyIdOfTerminalNode T nd))) (PrefixSearch T key) =
         Some (map (\<lambda>i. (i, f (take i key))) (filter (\<lambda>i. take i key \<in> set ws) [1..<length key + 1]))"
    "inj_on f (set ws)" "f ` set ws = {..<card (set ws)}"
  using assms unfolding trie_serves_def by blast+

definition demo_words :: "u8 list list" where
  "demo_words = [[97, 98], [97]]"

lemma demo_words_ok: "demo_words \<noteq> []" "[] \<notin> set demo_words" "sum_list (map length demo_words) + 1 < 2 ^ 31"
  by (simp_all add: demo_words_def)

text \<open>
  \<open>C4\<close>: A trie that is built from a non-empty list of non-empty words of less than 2^31 - 1 characters in total, written as an
  image and opened again with caches of any size, gives every word the id that the builder
  gave it, gives -1 for every other string, and restores every word of up to \<^verbatim>\<open>kMaxDepth\<close> (256) characters from its id; longer
  words would underrun the buffer for the restored key. Building, opening and these searches do not fail.
\<close>

theorem LoudsTrie_roundtrip:
  assumes "ws \<noteq> []" and "[] \<notin> set ws" and "sum_list (map length ws) + 1 < 2 ^ 31"
  shows "\<exists>b b' T. AddAll ws = Some b \<and> Build b = Some b' \<and> Open (lb_image b') c1 c2 c3 c4 c5 = Some T \<and>
    (\<forall>key. ExactSearch T key = GetId key b' \<and> (GetId key b' = Some (-1) \<longleftrightarrow> key \<notin> set ws) \<and>
      (key \<in> set ws \<and> length key \<le> kMaxDepth \<longrightarrow> Option.bind (ExactSearch T key) (RestoreKeyStringFromId T) = Some key))"
proof -
  obtain b T f where B: "AddAll ws = Some (NewLoudsTrieBuilder\<lparr>lb_word_list := ws\<rparr>)"
    "Build (NewLoudsTrieBuilder\<lparr>lb_word_list := ws\<rparr>) = Some b" "Open (lb_image b) c1 c2 c3 c4 c5 = Some T" "trie_serves ws b T f"
    by (rule trie_build_open [OF assms])
  show ?thesis using B(1-3) trie_servesD(1,2,4) [OF B(4)] by auto
qed

theorem LoudsTrie_roundtrip_witness:
  "\<exists>b b' T. AddAll demo_words = Some b \<and> Build b = Some b' \<and> Open (lb_image b') 0 0 1 1 0 = Some T \<and>
    ExactSearch T [98] = Some (-1) \<and> Option.bind (ExactSearch T [97, 98]) (RestoreKeyStringFromId T) = Some [97, 98]"
proof -
  from LoudsTrie_roundtrip [OF demo_words_ok, of 0 0 1 1 0] obtain b b' T where
    T: "AddAll demo_words = Some b" "Build b = Some b'" "Open (lb_image b') 0 0 1 1 0 = Some T"
    and k: "\<And>key. ExactSearch T key = GetId key b'" "\<And>key. GetId key b' = Some (-1) \<longleftrightarrow> key \<notin> set demo_words"
      "\<And>key. key \<in> set demo_words \<and> length key \<le> kMaxDepth \<longrightarrow> Option.bind (ExactSearch T key) (RestoreKeyStringFromId T) = Some key"
    by blast
  have "ExactSearch T [98] = Some (-1)" using k(1,2) [of "[98]"] by (simp add: demo_words_def)
  moreover have "[97, 98] \<in> set demo_words \<and> length [97 :: u8, 98] \<le> kMaxDepth" by (simp add: demo_words_def kMaxDepth_def)
  ultimately show ?thesis using T k(3) by blast
qed

text \<open>
  \<open>C10\<close>: On a trie that is built from a non-empty list of non-empty words of less than 2^31 - 1 characters in total, and opened, \<^verbatim>\<open>PrefixSearch\<close> calls its
  callback for exactly the prefixes of the key that are words of the trie, in order of their length, each with a node of the id
  of that word.
\<close>

theorem PrefixSearch_words:
  assumes "ws \<noteq> []" and "[] \<notin> set ws" and "sum_list (map length ws) + 1 < 2 ^ 31"
  shows "\<exists>b b' T. AddAll ws = Some b \<and> Build b = Some b' \<and> Open (lb_image b') c1 c2 c3 c4 c5 = Some T \<and>
    (\<forall>key. map_option (map (\<lambda>(i, nd). (i, Some (int (GetKeyIdOfTerminalNode T nd))))) (PrefixSearch T key) =
      Some (map (\<lambda>i. (i, ExactSearch T (take i key))) (filter (\<lambda>i. take i key \<in> set ws) [1..<length key + 1])))"
proof -
  obtain b T f where B: "AddAll ws = Some (NewLoudsTrieBuilder\<lparr>lb_word_list := ws\<rparr>)"
    "Build (NewLoudsTrieBuilder\<lparr>lb_word_list := ws\<rparr>) = Some b" "Open (lb_image b) c1 c2 c3 c4 c5 = Some T" "trie_serves ws b T f"
    by (rule trie_build_open [OF assms])
  have "map_option (map (\<lambda>(i, nd). (i, Some (int (GetKeyIdOfTerminalNode T nd))))) (PrefixSearch T key) =
      Some (map (\<lambda>i. (i, ExactSearch T (take i key))) (filter (\<lambda>i. take i key \<in> set ws) [1..<length key + 1]))" for key
  proof -
    obtain calls where c: "PrefixSearch T key = Some calls" "map (\<lambda>(i, nd). (i, GetKeyIdOfTerminalNode T nd)) calls =
        map (\<lambda>i. (i, f (take i key))) (filter (\<lambda>i. take i key \<in> set ws) [1..<length key + 1])"
      using trie_servesD(5) [OF B(4), of key] by auto
    have "map (\<lambda>(i, nd). (i, Some (int (GetKeyIdOfTerminalNode T nd)))) calls =
        map (\<lambda>(i, k). (i, Some (int k))) (map (\<lambda>(i, nd). (i, GetKeyIdOfTerminalNode T nd)) calls)"
      by (simp add: case_prod_unfold)
    also have "\<dots> = map (\<lambda>i. (i, ExactSearch T (take i key))) (filter (\<lambda>i. take i key \<in> set ws) [1..<length key + 1])"
      unfolding c(2) map_map by (rule map_cong [OF refl]) (simp add: trie_servesD(2) [OF B(4)] del: upt_Suc)
    finally show ?thesis using c(1) by simp
  qed
  then show ?thesis using B(1-3) by blast
qed

theorem PrefixSearch_words_witness:
  "\<exists>b b' T. AddAll demo_words = Some b \<and> Build b = Some b' \<and> Open (lb_image b') 0 0 1 1 0 = Some T \<and>
    map_option (map fst) (PrefixSearch T [97, 98, 99]) = Some [1, 2]"
proof -
  let ?k = "[97, 98, 99 :: u8]"
  from PrefixSearch_words [OF demo_words_ok, of 0 0 1 1 0] obtain b b' T where
    T: "AddAll demo_words = Some b" "Build b = Some b'" "Open (lb_image b') 0 0 1 1 0 = Some T"
    and k: "map_option (map (\<lambda>(i, nd). (i, Some (int (GetKeyIdOfTerminalNode T nd))))) (PrefixSearch T ?k) =
      Some (map (\<lambda>i. (i, ExactSearch T (take i ?k))) (filter (\<lambda>i. take i ?k \<in> set demo_words) [1..<length ?k + 1]))"
    by blast
  obtain calls where c: "PrefixSearch T ?k = Some calls"
    "map (\<lambda>(i, nd). (i, Some (int (GetKeyIdOfTerminalNode T nd)))) calls =
      map (\<lambda>i. (i, ExactSearch T (take i ?k))) (filter (\<lambda>i. take i ?k \<in> set demo_words) [1..<length ?k + 1])"
    using k by (cases "PrefixSearch T ?k") simp_all
  have "map fst calls = filter (\<lambda>i. take i ?k \<in> set demo_words) [1..<length ?k + 1]"
    using arg_cong [OF c(2), of "map fst"] by (simp add: case_prod_unfold comp_def del: upt_Suc)
  also have "\<dots> = [1, 2]" by (simp add: demo_words_def upt_rec numeral_2_eq_2)
  finally have "map fst calls = [1, 2]" .
  then show ?thesis using T c(1) by auto
qed

end
