(* ===== verification/BitVectorBasedArray.thy ===== *)
theory BitVectorBasedArray
  imports LoudsTrieBuilder
begin

section \<open>Arrays of byte strings\<close>

text \<open>
  \<^verbatim>\<open>storage/louds/bit_vector_based_array.cc\<close> and \<^verbatim>\<open>bit_vector_based_array_builder.cc\<close>. The lengths of the
  elements, in steps, are in a bit vector. The reader keeps its lengths as \<^verbatim>\<open>int\<close>, so that they are narrowed to 32 bits.
\<close>

record BitVectorBasedArrayBuilder =
  vb_built :: bool
  vb_elements :: "u8 list list"
  vb_base_length :: nat
  vb_step_length :: nat
  vb_image :: "u8 list"

definition NewArrayBuilder :: BitVectorBasedArrayBuilder where
  "NewArrayBuilder = \<lparr>vb_built = False, vb_elements = [], vb_base_length = 4, vb_step_length = 1, vb_image = []\<rparr>"

definition Array_Add :: "u8 list \<Rightarrow> BitVectorBasedArrayBuilder \<Rightarrow> BitVectorBasedArrayBuilder option" where
  "Array_Add element b = (if vb_built b then None else Some (b\<lparr>vb_elements := vb_elements b @ [element]\<rparr>))"

definition SetSize :: "nat \<Rightarrow> nat \<Rightarrow> BitVectorBasedArrayBuilder \<Rightarrow> BitVectorBasedArrayBuilder option" where
  "SetSize base_length step_length b =
     (if vb_built b then None else Some (b\<lparr>vb_base_length := base_length, vb_step_length := step_length\<rparr>))"

text \<open>The loop that counts the steps, with the wrap-around of \<^verbatim>\<open>size_t\<close>.\<close>

partial_function (option) count_steps :: "nat \<Rightarrow> nat \<Rightarrow> nat \<Rightarrow> nat \<Rightarrow> nat option" where
  "count_steps base_length step_length len num_steps =
     (if \<not> len > base_length then Some num_steps
      else count_steps base_length step_length ((len + 2 ^ 64 - step_length) mod 2 ^ 64) (num_steps + 1))"

definition add_element :: "nat \<Rightarrow> nat \<Rightarrow> u8 list \<Rightarrow> BitStream \<times> u8 list \<Rightarrow> (BitStream \<times> u8 list) option" where
  "add_element base_length step_length element s =
     map_option (\<lambda>num_steps.
       let output_length = base_length + num_steps * step_length
       in (fold PushBit (replicate num_steps True) (PushBit False (fst s)),
           snd s @ element @ replicate (output_length - length element) 0))
       (count_steps base_length step_length (length element) 0)"

definition Array_Build :: "BitVectorBasedArrayBuilder \<Rightarrow> BitVectorBasedArrayBuilder option" where
  "Array_Build b =
     (if vb_built b then None
      else Option.bind (fold (\<lambda>element s. Option.bind s (add_element (vb_base_length b) (vb_step_length b) element))
                          (vb_elements b) (Some (NewBitStream, []))) (\<lambda>(bit_stream, data).
           let bits = bs_image (FillPadding32 (PushBit False bit_stream))
           in Option.bind (PushInt32 (length bits) (vb_image b)) (\<lambda>i1.
              Option.bind (PushInt32 (vb_base_length b) i1) (\<lambda>i2.
              Option.bind (PushInt32 (vb_step_length b) i2) (\<lambda>i3.
              Option.bind (PushInt32 0 i3) (\<lambda>i4.
              Some (b\<lparr>vb_built := True, vb_image := i4 @ bits @ data\<rparr>)))))))"

record BitVectorBasedArray =
  va_index :: BitVectorIndex
  va_base_length :: int
  va_step_length :: int
  va_data :: "u8 list"

definition kLb0CacheSize :: nat where "kLb0CacheSize = 1024"
definition kLb1CacheSize :: nat where "kLb1CacheSize = 0"

text \<open>The three sizes are read into an \<^verbatim>\<open>int\<close>; a negative size of the index would place the data before the image (\<open>None\<close>).\<close>

definition Array_Open :: "u8 list \<Rightarrow> BitVectorBasedArray option" where
  "Array_Open data =
     (let index_length = load_int data 0; base_length = load_int data 4; step_length = load_int data 8
      in if load_int data 12 \<noteq> 0 \<or> index_length < 0 then None
         else map_option (\<lambda>index. \<lparr>va_index = index, va_base_length = base_length, va_step_length = step_length,
                va_data = drop (nat index_length) (drop 16 data)\<rparr>)
              (Init (drop 16 data) (nat index_length) 32 kLb0CacheSize kLb1CacheSize))"

definition Array_Close :: "BitVectorBasedArray \<Rightarrow> BitVectorBasedArray" where
  "Array_Close a = \<lparr>va_index = sv_Reset (va_index a), va_base_length = 0, va_step_length = 0, va_data = []\<rparr>"

partial_function (option) skip_ones :: "BitVectorIndex \<Rightarrow> nat \<Rightarrow> nat option" where
  "skip_ones index i = (if sv_Get index i = 0 then Some i else skip_ones index (i + 1))"

text \<open>
  The pointer and length that \<^verbatim>\<open>Get\<close> returns, as the bytes they stand for. The index into the data is narrowed to an \<^verbatim>\<open>int\<close>; a
  negative index or length points outside the data (\<open>None\<close>).
\<close>

definition narrow_int :: "int \<Rightarrow> int" where
  "narrow_int = signed_take_bit 31"

definition Array_Get :: "BitVectorBasedArray \<Rightarrow> nat \<Rightarrow> u8 list option" where
  "Array_Get a index =
     Option.bind (Select0 (va_index a) (index + 1)) (\<lambda>bit_index.
     let data_index = narrow_int (va_base_length a * int index + va_step_length a * int (Rank1 (va_index a) bit_index))
     in Option.bind (skip_ones (va_index a) (bit_index + 1)) (\<lambda>i.
        let len = va_base_length a + va_step_length a * int (i - bit_index - 1)
        in if data_index < 0 \<or> len < 0 then None else Some (take (nat len) (drop (nat data_index) (va_data a)))))"

lemma narrow_int_id: "0 \<le> i \<Longrightarrow> i < 2 ^ 31 \<Longrightarrow> narrow_int i = i"
  by (simp add: narrow_int_def signed_take_bit_int_eq_self)

subsection \<open>The lengths\<close>

definition steps_of :: "nat \<Rightarrow> nat \<Rightarrow> nat \<Rightarrow> nat" where
  "steps_of base_length step_length len = (len - base_length + step_length - 1) div step_length"

lemma steps_of_bounds:
  assumes "0 < s"
  shows "len \<le> b + steps_of b s len * s \<and> steps_of b s len \<le> len - b \<and> (len \<le> b \<longrightarrow> steps_of b s len = 0)"
proof -
  let ?m = "len - b"
  have "?m \<le> (?m + s - 1) div s * s"
  proof -
    have "?m + s - 1 = (?m + s - 1) div s * s + (?m + s - 1) mod s" by simp
    moreover have "(?m + s - 1) mod s \<le> s - 1" using assms mod_less_divisor [of s "?m + s - 1"] by linarith
    ultimately show ?thesis using assms by linarith
  qed
  moreover have "(?m + s - 1) div s \<le> ?m"
  proof (cases "?m = 0")
    case False
    obtain m' s' where e: "?m = Suc m'" "s = Suc s'" using False assms by (metis not0_implies_Suc not_gr0)
    have "?m + s - 1 \<le> ?m * s" unfolding e by simp
    then have "(?m + s - 1) div s \<le> ?m * s div s" by (rule div_le_mono)
    then show ?thesis using assms by simp
  qed (use assms in simp)
  moreover have "?m = 0 \<longrightarrow> (?m + s - 1) div s = 0" using assms by simp
  ultimately show ?thesis by (simp add: steps_of_def)
qed

lemma count_steps_correct:
  assumes "0 < s" "s \<le> b + 1" "len < 2 ^ 64"
  shows "count_steps b s len n = Some (n + steps_of b s len)"
  using assms(3)
proof (induction len arbitrary: n rule: less_induct)
  case (less len)
  show ?case
  proof (cases "len > b")
    case True
    then have l: "s \<le> len" using assms(2) by simp
    have "(len + 2 ^ 64 - s) mod 2 ^ 64 = len - s"
    proof -
      have "len + 2 ^ 64 - s = (len - s) + 2 ^ 64" using l by linarith
      then have "(len + 2 ^ 64 - s) mod 2 ^ 64 = (len - s) mod 2 ^ 64" by (simp only: mod_add_self2)
      also have "\<dots> = len - s" by (rule mod_less) (use less.prems in linarith)
      finally show ?thesis .
    qed
    then have "count_steps b s len n = count_steps b s (len - s) (n + 1)"
      using True by (subst count_steps.simps) simp
    moreover have "count_steps b s (len - s) (n + 1) = Some (n + 1 + steps_of b s (len - s))" by (rule less.IH) (use l assms(1) less.prems in auto)
    moreover have "steps_of b s len = steps_of b s (len - s) + 1"
    proof (cases "len - s \<le> b")
      case True
      have e: "len - b + s - 1 = s + (len - b - 1)" "len - b - 1 < s" using True \<open>len > b\<close> assms(1) l by auto
      have "(s + (len - b - 1)) div s = 1" by (subst div_add_self1) (use e(2) assms(1) in simp_all)
      then have "steps_of b s len = 1" unfolding steps_of_def e(1) .
      then show ?thesis using True assms(1) by (simp add: steps_of_def)
    next
      case False
      then have e: "len - b + s - 1 = (len - s - b + s - 1) + s" by simp
      show ?thesis unfolding steps_of_def e by (rule div_add_self2) (use assms(1) in simp)
    qed
    ultimately show ?thesis by simp
  next
    case False
    then show ?thesis using steps_of_bounds [OF assms(1), of len b] by (subst count_steps.simps) simp
  qed
qed

text \<open>With a step of 2 from a base of 0 an odd length never meets the base: the subtraction wraps around.\<close>

lemma count_steps_odd_loops:
  "count_steps b s len n = Some r \<Longrightarrow> b = 0 \<and> s = 2 \<and> odd len \<longrightarrow> False"
proof (erule count_steps.raw_induct [rotated])
  fix f :: "nat \<Rightarrow> nat \<Rightarrow> nat \<Rightarrow> nat \<Rightarrow> nat option" and b s len n r :: nat
  assume IH: "\<And>b s len n r. f b s len n = Some r \<Longrightarrow> b = 0 \<and> s = 2 \<and> odd len \<longrightarrow> False"
    and body: "(if \<not> len > b then Some n else f b s ((len + 2 ^ 64 - s) mod 2 ^ 64) (n + 1)) = Some r"
  show "b = 0 \<and> s = 2 \<and> odd len \<longrightarrow> False"
  proof
    assume z: "b = 0 \<and> s = 2 \<and> odd len"
    then have "0 < len" by (cases len) auto
    then have f: "f b s ((len + 2 ^ 64 - s) mod 2 ^ 64) (n + 1) = Some r" using body z by simp
    have "even ((len + 2 ^ 64 - 2) mod 2 ^ 64) \<longleftrightarrow> even (len + 2 ^ 64 - 2)" by (rule dvd_mod_iff) simp
    then have "odd ((len + 2 ^ 64 - s) mod 2 ^ 64)" using z by simp
    then show False using IH [OF f] z by simp
  qed
qed

lemma count_steps_odd: "odd len \<Longrightarrow> count_steps 0 2 len n = None"
  using count_steps_odd_loops [of 0 2 len n] by (cases "count_steps 0 2 len n") auto

subsection \<open>Storing and reading\<close>

definition item_bits :: "nat \<Rightarrow> bool list" where
  "item_bits k = False # replicate k True"

definition array_bits :: "nat list \<Rightarrow> bool list" where
  "array_bits ks = concat (map item_bits ks) @ [False]"

definition padded :: "nat \<Rightarrow> nat \<Rightarrow> u8 list \<Rightarrow> u8 list" where
  "padded b s e = e @ replicate (b + steps_of b s (length e) * s - length e) 0"

lemma length_padded: "0 < s \<Longrightarrow> length (padded b s e) = b + steps_of b s (length e) * s"
  using steps_of_bounds [of s "length e" b] by (simp add: padded_def)

lemma padded_length_le:
  assumes "0 < s"
  shows "length (padded b s e) \<le> length e + b + s"
proof (cases "length e \<le> b")
  case True
  then show ?thesis using length_padded [OF assms, of b e] steps_of_bounds [OF assms, of "length e" b] by simp
next
  case False
  have "steps_of b s (length e) * s \<le> length e - b + s - 1"
    by (simp add: steps_of_def)
  then show ?thesis using length_padded [OF assms, of b e] False by simp
qed

lemma add_elements:
  assumes "0 < s" "s \<le> b + 1" "\<And>e. e \<in> set es \<Longrightarrow> length e < 2 ^ 64" "stream_ok bs bl"
  shows "\<exists>bs'. fold (\<lambda>e st. Option.bind st (add_element b s e)) es (Some (bs, data)) = Some (bs', data @ concat (map (padded b s) es)) \<and>
    stream_ok bs' (bl @ concat (map (\<lambda>e. item_bits (steps_of b s (length e))) es))"
  using assms(3,4)
proof (induction es arbitrary: bs bl data)
  case (Cons e es)
  let ?k = "steps_of b s (length e)"
  have "count_steps b s (length e) 0 = Some ?k"
    using count_steps_correct [OF assms(1,2), of "length e" 0] Cons.prems(1) by simp
  then have a: "add_element b s e (bs, data) =
      Some (fold PushBit (replicate ?k True) (PushBit False bs), data @ padded b s e)"
    by (simp add: add_element_def padded_def Let_def)
  have "stream_ok (fold PushBit (replicate ?k True) (PushBit False bs)) (bl @ item_bits ?k)"
    using stream_ok_fold [OF stream_ok_PushBit [OF Cons.prems(2), of False], of "replicate ?k True"] by (simp add: item_bits_def)
  from Cons.IH [OF _ this, of "data @ padded b s e"] show ?case using Cons.prems(1) a by simp
qed simp

lemma item_counts:
  "length (filter Not (concat (map item_bits ks))) = length ks"
  "length (filter (\<lambda>b. b) (concat (map item_bits ks))) = sum_list ks"
  "length (concat (map item_bits ks)) = length ks + sum_list ks"
  by (induction ks) (simp_all add: item_bits_def)

lemma array_bits_at:
  assumes "j < length ks"
  defines "p \<equiv> j + sum_list (take j ks)"
  shows "p + ks ! j + 1 < length (array_bits ks) \<and> \<not> array_bits ks ! p \<and>
    (\<forall>i < ks ! j. array_bits ks ! (p + 1 + i)) \<and> \<not> array_bits ks ! (p + 1 + ks ! j) \<and>
    count_range (\<lambda>i. \<not> array_bits ks ! i) 0 p = j \<and> count_range (\<lambda>i. array_bits ks ! i) 0 p = sum_list (take j ks)"
proof -
  define A where "A = concat (map item_bits (take j ks))"
  define R where "R = concat (map item_bits (drop (Suc j) ks)) @ [False]"
  have "map item_bits ks = map item_bits (take j ks) @ item_bits (ks ! j) # map item_bits (drop (Suc j) ks)"
    using arg_cong [OF id_take_nth_drop [OF assms(1)], of "map item_bits"] by simp
  then have s: "array_bits ks = A @ item_bits (ks ! j) @ R" by (simp add: array_bits_def A_def R_def)
  have l: "length A = p" using assms(1) by (simp add: A_def p_def item_counts)
  have R: "R ! 0 = False" "0 < length R" by (cases "drop (Suc j) ks"; simp add: R_def item_bits_def)+
  have t: "take p (array_bits ks) = A" using s l by simp
  have ge: "array_bits ks ! (p + i) = (item_bits (ks ! j) @ R) ! i" for i unfolding s using l by (simp add: nth_append)
  have lt: "p + ks ! j + 1 < length (array_bits ks)" unfolding s using l R(2) by (simp add: item_bits_def)
  have "\<not> array_bits ks ! p" using ge [of 0] by (simp add: item_bits_def)
  moreover have "array_bits ks ! (p + 1 + i)" if "i < ks ! j" for i
    using ge [of "1 + i"] that by (simp add: item_bits_def nth_append)
  moreover have "\<not> array_bits ks ! (p + 1 + ks ! j)"
    using ge [of "1 + ks ! j"] R(1) by (simp add: item_bits_def nth_append)
  moreover have "count_range (\<lambda>i. \<not> array_bits ks ! i) 0 p = j"
    using count_nth [of p "array_bits ks" Not] lt t assms(1) by (simp add: A_def item_counts)
  moreover have "count_range (\<lambda>i. array_bits ks ! i) 0 p = sum_list (take j ks)"
    using count_nth [of p "array_bits ks" "\<lambda>b. b"] lt t by (simp add: A_def item_counts)
  ultimately show ?thesis using lt by blast
qed

lemma count_range_cong: "(\<And>i. i < p \<Longrightarrow> P i = Q i) \<Longrightarrow> count_range P 0 p = count_range Q 0 p"
  unfolding count_range_def by (intro arg_cong [where f = length] filter_upt_cong)

lemma skip_ones_correct:
  assumes "\<And>i. i < n \<Longrightarrow> sv_Get index (p + i) \<noteq> 0" "sv_Get index (p + n) = 0"
  shows "skip_ones index p = Some (p + n)"
  using assms
proof (induction n arbitrary: p)
  case 0
  then show ?case by (subst skip_ones.simps) simp
next
  case (Suc n)
  have "skip_ones index (p + 1) = Some (p + 1 + n)"
    by (rule Suc.IH) (use Suc.prems(1) [of "Suc i" for i] Suc.prems(2) in \<open>simp_all add: add.commute\<close>)
  then show ?case using Suc.prems(1) [of 0] by (subst skip_ones.simps) simp
qed

lemma padded_at:
  assumes "0 < s" "j < length es"
  shows "take (b + s * steps_of b s (length (es ! j)))
      (drop (b * j + s * sum_list (take j (map (\<lambda>e. steps_of b s (length e)) es))) (concat (map (padded b s) es))) = padded b s (es ! j)"
proof -
  let ?k = "\<lambda>e. steps_of b s (length e)"
  have "length (concat (map (padded b s) (take j es))) = sum_list (map (\<lambda>e. b + ?k e * s) (take j es))"
    using length_padded [OF assms(1)] by (simp add: length_concat comp_def)
  also have "\<dots> = b * j + s * sum_list (map ?k (take j es))"
    using assms(2) by (simp add: sum_list_addf sum_list_triv sum_list_const_mult mult.commute)
  finally have l: "length (concat (map (padded b s) (take j es))) = b * j + s * sum_list (take j (map ?k es))"
    by (simp add: take_map)
  have "concat (map (padded b s) es) =
      concat (map (padded b s) (take j es)) @ padded b s (es ! j) @ concat (map (padded b s) (drop (Suc j) es))"
    using arg_cong [OF id_take_nth_drop [OF assms(2)], of "\<lambda>xs. concat (map (padded b s) xs)"] by (simp only: map_append concat_append list.map concat.simps)
  then show ?thesis using l length_padded [OF assms(1), of b "es ! j"] by (simp add: mult.commute)
qed

lemma array_build_open:
  assumes "0 < s" and "s \<le> b + 1" and "b < 2 ^ 31" and "s < 2 ^ 31"
    and "sum_list (map (\<lambda>e. length e + b + s) es) + length es < 2 ^ 31"
  shows "\<exists>b1 a. Array_Build (NewArrayBuilder\<lparr>vb_elements := es, vb_base_length := b, vb_step_length := s\<rparr>) = Some b1 \<and>
    Array_Open (vb_image b1) = Some a \<and>
    (\<forall>j < length es. Array_Get a j =
       Some (es ! j @ replicate (b + (length (es ! j) - b + s - 1) div s * s - length (es ! j)) 0))"
proof -
  define ks where "ks = map (\<lambda>e. steps_of b s (length e)) es"
  have sm: "sum_list (map length es) + length es < 2 ^ 31"
    using assms(5) sum_list_mono [of es length "\<lambda>e. length e + b + s"] by simp
  have len: "length e < 2 ^ 64" if "e \<in> set es" for e
    using member_le_sum_list [of "length e" "map length es"] that sm by simp
  obtain bs where bs: "fold (\<lambda>e st. Option.bind st (add_element b s e)) es (Some (NewBitStream, [])) = Some (bs, concat (map (padded b s) es))"
    "stream_ok bs (concat (map item_bits ks))"
    using add_elements [OF assms(1,2) len stream_ok_New, of es "[]"] by (auto simp: ks_def comp_def)
  let ?data = "concat (map (padded b s) es)"
  define bits where "bits = bs_image (FillPadding32 (PushBit False bs))"
  have ft: "4 dvd length bits" "length (array_bits ks) \<le> 8 * length bits" "8 * length bits < length (array_bits ks) + 32"
    "\<And>i. i < length (array_bits ks) \<Longrightarrow> bv bits i = array_bits ks ! i"
    using FillPadding32_correct [OF stream_ok_PushBit [OF bs(2), of False]] by (simp_all add: bits_def array_bits_def)
  have "sum_list ks \<le> sum_list (map length es)"
  proof -
    have "steps_of b s (length e) \<le> length e" for e :: "u8 list"
      using steps_of_bounds [OF assms(1), of "length e" b] by linarith
    then show ?thesis unfolding ks_def by (intro sum_list_mono)
  qed
  moreover have "length (array_bits ks) = length ks + sum_list ks + 1" by (simp add: array_bits_def item_counts)
  moreover have "length ks = length es" by (simp add: ks_def)
  ultimately have "length (array_bits ks) \<le> 2 ^ 31" using sm by linarith
  then have small: "length bits < 2 ^ 31" using ft(3) by simp
  let ?im = "le_bytes (length bits) @ le_bytes b @ le_bytes s @ le_bytes 0 @ bits @ ?data"
  define b1 where "b1 = NewArrayBuilder\<lparr>vb_elements := es, vb_base_length := b, vb_step_length := s, vb_built := True, vb_image := ?im\<rparr>"
  have B: "Array_Build (NewArrayBuilder\<lparr>vb_elements := es, vb_base_length := b, vb_step_length := s\<rparr>) = Some b1"
    using bs(1) small assms(3,4) by (simp add: Array_Build_def NewArrayBuilder_def Let_def bits_def [symmetric] PushInt32_eq b1_def)
  have l: "load_int ?im 0 = int (length bits)" "load_int ?im 4 = int b" "load_int ?im 8 = int s" "load_int ?im 12 = 0"
    using load_le_bytes [of "length bits" "[]"] load_le_bytes [of b "le_bytes (length bits)"]
      load_le_bytes [of s "le_bytes (length bits) @ le_bytes b"]
      load_le_bytes [of 0 "le_bytes (length bits) @ le_bytes b @ le_bytes s"] small assms(3,4) by simp_all
  have d: "drop 16 ?im = bits @ ?data" by simp
  obtain sv where sv: "Init (bits @ ?data) (length bits) 32 kLb0CacheSize kLb1CacheSize = Some sv" "sv_ok sv"
    "sv_data sv = bits @ ?data" "sv_length sv = length bits"
    using Init_ok [of "length bits" 32 "bits @ ?data"] ft(1) by (auto simp: sizes_ok_def)
  define a where "a = \<lparr>va_index = sv, va_base_length = int b, va_step_length = int s, va_data = ?data\<rparr>"
  have O: "Array_Open ?im = Some a" unfolding Array_Open_def Let_def l d nat_int sv(1) by (simp add: a_def)
  have offset: "b * j + s * sum_list (take j ks) < 2 ^ 31" if "j < length es" for j
  proof -
    have "b * j + s * sum_list (take j ks) = length (concat (map (padded b s) (take j es)))"
      using length_padded [OF assms(1)] that
      by (simp add: length_concat comp_def ks_def take_map sum_list_addf sum_list_triv sum_list_const_mult mult.commute)
    also have "\<dots> \<le> length ?data"
    proof -
      have "?data = concat (map (padded b s) (take j es)) @ concat (map (padded b s) (drop j es))"
        by (simp flip: concat_append map_append)
      then show ?thesis by (metis le_add1 length_append)
    qed
    also have "length ?data = sum_list (map (\<lambda>e. length (padded b s e)) es)" by (simp add: length_concat comp_def)
    also have "\<dots> \<le> sum_list (map (\<lambda>e. length e + b + s) es)" by (intro sum_list_mono padded_length_le [OF assms(1)])
    finally show ?thesis using assms(5) by linarith
  qed
  have bvs: "bv (sv_data sv) i = array_bits ks ! i" if "i < length (array_bits ks)" for i
    using ft(2,4) that sv(3) by (simp add: bv_snoc)
  have "Array_Get a j = Some (padded b s (es ! j))" if j: "j < length es" for j
  proof -
    define p where "p = j + sum_list (take j ks)"
    have jk: "j < length ks" using j by (simp add: ks_def)
    note at = array_bits_at [OF jk, folded p_def]
    have cz: "count_range (\<lambda>i. \<not> bv (sv_data sv) i) 0 p = j" "count_range (bv (sv_data sv)) 0 p = sum_list (take j ks)"
      using count_range_cong [of p "\<lambda>i. \<not> bv (sv_data sv) i" "\<lambda>i. \<not> array_bits ks ! i"]
        count_range_cong [of p "bv (sv_data sv)" "\<lambda>i. array_bits ks ! i"] at bvs by simp_all
    have sel: "Select0 sv (j + 1) = Some p"
      using sv.select0_at [OF sv(2), of p] at bvs ft(2) sv(4) cz(1) by simp
    have rank: "Rank1 sv p = sum_list (take j ks)"
      using sv.rank1 [OF sv(2), of p] at ft(2) sv(4) cz(2) by simp
    have "skip_ones sv (p + 1) = Some (p + 1 + ks ! j)"
      by (rule skip_ones_correct) (use at bvs sv_Get_bv [of sv] in auto)
    moreover have "narrow_int (int b * int j + int s * int (sum_list (take j ks))) = int (b * j + s * sum_list (take j ks))"
      using offset [OF j] by (simp add: narrow_int_id flip: of_nat_mult of_nat_add)
    moreover have "int b + int s * int (ks ! j) = int (b + s * ks ! j)" by simp
    ultimately show ?thesis
      using sel rank padded_at [OF assms(1) j, of b] j unfolding Array_Get_def Let_def a_def BitVectorBasedArray.simps
      by (simp add: ks_def nat_int_add del: of_nat_add of_nat_mult)
  qed
  then show ?thesis using B O by (intro exI [of _ b1] exI [of _ a]) (simp add: b1_def padded_def steps_of_def)
qed

text \<open>
  \<open>C11\<close>: An array of byte strings that is built with a base length and a step, from 1 to one more than the base length, and
  opened from its image, returns every element under its index, filled up with zeros to the base
  length or the next step after it; building and opening do not fail and the search for the length ends. Base and
  step are less than 2^31, and so is the total of the lengths with base, step and one more for each element, so that all sizes fit
  an \<^verbatim>\<open>int\<close>. With a greater step building need not end (\<open>Array_Build_diverges\<close>).
\<close>

theorem BitVectorBasedArray_roundtrip:
  assumes "0 < s" and "s \<le> b + 1" and "b < 2 ^ 31" and "s < 2 ^ 31"
    and "sum_list (map (\<lambda>e. length e + b + s) es) + length es < 2 ^ 31"
  shows "\<exists>b1 a. Array_Build (NewArrayBuilder\<lparr>vb_elements := es, vb_base_length := b, vb_step_length := s\<rparr>) = Some b1 \<and>
    Array_Open (vb_image b1) = Some a \<and>
    (\<forall>j < length es. Array_Get a j =
       Some (es ! j @ replicate (b + (length (es ! j) - b + s - 1) div s * s - length (es ! j)) 0))"
  using array_build_open [OF assms] .

theorem BitVectorBasedArray_roundtrip_witness:
  "\<exists>b1 a. Array_Build (NewArrayBuilder\<lparr>vb_elements := [[97], [97, 98, 99]], vb_base_length := 2, vb_step_length := 2\<rparr>) = Some b1 \<and>
    Array_Open (vb_image b1) = Some a \<and> Array_Get a 1 = Some [97, 98, 99, 0] \<and> Array_Get a 0 = Some [97, 0]"
proof -
  obtain b1 a where h: "Array_Build (NewArrayBuilder\<lparr>vb_elements := [[97], [97, 98, 99]], vb_base_length := 2, vb_step_length := 2\<rparr>) = Some b1"
    "Array_Open (vb_image b1) = Some a"
    and g: "\<And>j. j < length [[97], [97, 98, 99 :: u8]] \<Longrightarrow> Array_Get a j = Some ([[97], [97, 98, 99]] ! j @
      replicate (2 + (length ([[97], [97, 98, 99 :: u8]] ! j) - 2 + 2 - 1) div 2 * 2 - length ([[97], [97, 98, 99 :: u8]] ! j)) 0)"
    using BitVectorBasedArray_roundtrip [of 2 2 "[[97], [97, 98, 99]]"] by auto
  show ?thesis using h g [of 0] g [of 1] by (simp add: numeral_2_eq_2)
qed

text \<open>
  Building an array does not end when the step is more than one longer than the base and an element falls
  between them: with a base of 0 and a step of 2, an element of odd length makes the count of steps run
  on for ever, because the length is unsigned and wraps around.
\<close>

theorem Array_Build_diverges:
  assumes "odd (length e)"
  shows "Array_Build (NewArrayBuilder\<lparr>vb_elements := e # es, vb_base_length := 0, vb_step_length := 2\<rparr>) = None"
proof -
  have "fold (\<lambda>e st. Option.bind st (add_element 0 2 e)) es None = None" by (induction es) simp_all
  then show ?thesis using count_steps_odd [OF assms, of 0]
    by (simp add: Array_Build_def NewArrayBuilder_def add_element_def)
qed

theorem Array_Build_diverges_witness:
  "Array_Build (NewArrayBuilder\<lparr>vb_elements := [[97], []], vb_base_length := 0, vb_step_length := 2\<rparr>) = None"
  using Array_Build_diverges [of "[97]" "[[]]"] by simp

end
