(* ===== verification/SystemDictionaryBuilder.thy ===== *)
theory SystemDictionaryBuilder
  imports DictionaryCodec BitVectorBasedArray Transliterators "HOL-Library.Product_Lexorder"
begin

unbundle bit_operations_syntax

section \<open>Building the system dictionary\<close>

text \<open>
  \<^verbatim>\<open>dictionary/system/system_dictionary_builder.cc\<close>. Strings are code points; \<open>str\<close> gives the bytes where the code
  compares or stores them. The sections of the image are the fields of a record; the part-of-speech section, an array
  of 256 integers in memory, is a list. \<open>None\<close> is a failed \<^verbatim>\<open>CHECK\<close> or a null pointer that is followed.
\<close>

definition str :: "ustr \<Rightarrow> u8 list" where
  "str s = map of_nat (encode_ustr s)"

record KeyInfo =
  ki_id_in_key_trie :: int
  ki_key :: ustr
  ki_tokens :: "TokenInfo list"

definition NewKeyInfo :: "ustr \<Rightarrow> KeyInfo" where
  "NewKeyInfo key = \<lparr>ki_id_in_key_trie = -1, ki_key = key, ki_tokens = []\<rparr>"

definition GetCombinedPos :: "d16 \<Rightarrow> d16 \<Rightarrow> u32" where
  "GetCombinedPos lid rid = push_bit 16 (ucast lid) OR ucast rid"

definition token_pos :: "TokenInfo \<Rightarrow> u32" where
  "token_pos ti = GetCombinedPos (tk_lid (ti_token ti)) (tk_rid (ti_token ti))"

definition GetValueType :: "env \<Rightarrow> Token \<Rightarrow> ValueType" where
  "GetValueType E token =
     (if tk_value token = tk_key token then AS_IS_HIRAGANA
      else if tk_value token = HiraganaToKatakana E (tk_key token) then AS_IS_KATAKANA
      else DEFAULT_VALUE)"

definition HasHomonymsInSamePos :: "KeyInfo \<Rightarrow> bool" where
  "HasHomonymsInSamePos ki \<longleftrightarrow> (if length (ki_tokens ki) = 1 then False else \<not> distinct (map token_pos (ki_tokens ki)))"

definition HasHeterophones :: "KeyInfo \<Rightarrow> ustr set \<Rightarrow> bool" where
  "HasHeterophones ki heteronym_values \<longleftrightarrow> list_ex (\<lambda>ti. tk_value (ti_token ti) \<in> heteronym_values) (ki_tokens ki)"

fun group_tokens :: "env \<Rightarrow> KeyInfo \<Rightarrow> Token list \<Rightarrow> KeyInfo list" where
  "group_tokens E last_key_info [] = [last_key_info]"
| "group_tokens E last_key_info (token # tokens) =
     (let (done, current) = (if ki_key last_key_info \<noteq> tk_key token then ([last_key_info], NewKeyInfo (tk_key token)) else ([], last_key_info));
          ti = (NewTokenInfo token)\<lparr>ti_value_type := GetValueType E token\<rparr>
      in done @ group_tokens E (current\<lparr>ki_tokens := ki_tokens current @ [ti]\<rparr>) tokens)"

definition ReadTokens :: "env \<Rightarrow> Token list \<Rightarrow> KeyInfo list option" where
  "ReadTokens E tokens =
     (if list_ex (\<lambda>t. tk_key t = [] \<or> tk_value t = []) tokens then None
      else let tokens = sort_key (\<lambda>t. str (tk_key t)) tokens
           in Some (case tokens of [] \<Rightarrow> [] | t # _ \<Rightarrow> group_tokens E (NewKeyInfo (tk_key t)) tokens))"

subsection \<open>Frequent parts of speech\<close>

text \<open>An ordered map that counts: \<^verbatim>\<open>m[x]++\<close> for every element, then in the order of the keys.\<close>

definition histogram :: "'a::linorder list \<Rightarrow> ('a \<times> nat) list" where
  "histogram xs = map (\<lambda>x. (x, count_list xs x)) (remdups_adj (sort xs))"

definition max_freq :: nat where "max_freq = 2147483647"

fun freq_threshold :: "(nat \<times> nat) list \<Rightarrow> nat \<Rightarrow> nat \<Rightarrow> nat \<times> nat" where
  "freq_threshold [] num_freq_pos threshold = (num_freq_pos, threshold)"
| "freq_threshold ((freq, n) # rest) num_freq_pos threshold =
     (if num_freq_pos + n > 255 then (num_freq_pos, threshold) else freq_threshold rest (num_freq_pos + n) freq)"

definition BuildFrequentPos :: "KeyInfo list \<Rightarrow> (u32 \<times> nat) list option" where
  "BuildFrequentPos key_info_list =
     (let pos_map = histogram (map token_pos (concat (map ki_tokens key_info_list)));
          freq_map = histogram (map snd pos_map);
          (num_freq_pos, threshold) = freq_threshold (rev freq_map) 0 max_freq;
          frequent_pos = filter (\<lambda>(pos, freq). freq \<ge> threshold) pos_map
      in if length frequent_pos = num_freq_pos then Some (zip (map fst frequent_pos) [0..<length frequent_pos]) else None)"

subsection \<open>Tries and ids\<close>

definition as_is :: "TokenInfo \<Rightarrow> bool" where
  "as_is ti \<longleftrightarrow> ti_value_type ti = AS_IS_HIRAGANA \<or> ti_value_type ti = AS_IS_KATAKANA"

definition value_words :: "KeyInfo list \<Rightarrow> u8 list list" where
  "value_words key_info_list =
     map (\<lambda>ti. EncodeValue (tk_value (ti_token ti))) (filter (\<lambda>ti. \<not> as_is ti) (concat (map ki_tokens key_info_list)))"

definition BuildValueTrie :: "KeyInfo list \<Rightarrow> LoudsTrieBuilder option" where
  "BuildValueTrie key_info_list = Option.bind (AddAll (value_words key_info_list)) Build"

definition key_word :: "ustr \<Rightarrow> u8 list" where
  "key_word key = str (EncodeKey key)"

definition BuildKeyTrie :: "KeyInfo list \<Rightarrow> LoudsTrieBuilder option" where
  "BuildKeyTrie key_info_list = Option.bind (AddAll (map (\<lambda>ki. key_word (ki_key ki)) key_info_list)) Build"

definition map_tokens :: "(TokenInfo \<Rightarrow> TokenInfo option) \<Rightarrow> KeyInfo \<Rightarrow> KeyInfo option" where
  "map_tokens f ki = map_option (\<lambda>tis. ki\<lparr>ki_tokens := tis\<rparr>) (those (map f (ki_tokens ki)))"

definition SetIdForValue :: "LoudsTrieBuilder \<Rightarrow> KeyInfo list \<Rightarrow> KeyInfo list option" where
  "SetIdForValue value_trie_builder key_info_list =
     those (map (map_tokens (\<lambda>ti. map_option (\<lambda>vid. ti\<lparr>ti_id_in_value_trie := vid\<rparr>)
       (GetId (EncodeValue (tk_value (ti_token ti))) value_trie_builder))) key_info_list)"

definition SetIdForKey :: "LoudsTrieBuilder \<Rightarrow> KeyInfo list \<Rightarrow> KeyInfo list option" where
  "SetIdForKey key_trie_builder key_info_list =
     those (map (\<lambda>ki. map_option (\<lambda>kid. ki\<lparr>ki_id_in_key_trie := kid\<rparr>) (GetId (key_word (ki_key ki)) key_trie_builder)) key_info_list)"

subsection \<open>Order and types of the tokens of a key\<close>

definition token_order :: "TokenInfo \<Rightarrow> int \<times> int \<times> int \<times> int" where
  "token_order ti =
     (- uint (tk_lid (ti_token ti)), - uint (tk_rid (ti_token ti)), ti_id_in_value_trie ti, uint (tk_attributes (ti_token ti)))"

definition SortTokenInfo :: "KeyInfo list \<Rightarrow> KeyInfo list" where
  "SortTokenInfo key_info_list = map (\<lambda>ki. ki\<lparr>ki_tokens := sort_key token_order (ki_tokens ki)\<rparr>) key_info_list"

fun heterophone_step :: "Token \<Rightarrow> (ustr \<Rightarrow> ustr option) \<times> ustr set \<Rightarrow> (ustr \<Rightarrow> ustr option) \<times> ustr set" where
  "heterophone_step token (seen_reading_map, heterophone_values) =
     (if tk_value token \<in> heterophone_values then (seen_reading_map, heterophone_values)
      else case seen_reading_map (tk_value token) of
             None \<Rightarrow> (seen_reading_map(tk_value token \<mapsto> tk_key token), heterophone_values)
           | Some reading \<Rightarrow>
               if reading = tk_key token then (seen_reading_map, heterophone_values)
               else (seen_reading_map, insert (tk_value token) heterophone_values))"

definition heterophones :: "KeyInfo list \<Rightarrow> ustr set" where
  "heterophones key_info_list = snd (fold heterophone_step (map ti_token (concat (map ki_tokens key_info_list))) (\<lambda>v. None, {}))"

definition SetCostType :: "nat \<Rightarrow> KeyInfo list \<Rightarrow> KeyInfo list" where
  "SetCostType min_key_len key_info_list =
     (let heterophone_values = heterophones key_info_list
      in map (\<lambda>ki. if length (ki_key ki) < min_key_len \<or> HasHomonymsInSamePos ki \<or> HasHeterophones ki heterophone_values then ki
                   else ki\<lparr>ki_tokens := map (\<lambda>ti. if tk_cost (ti_token ti) < 0x100 then ti
                          else ti\<lparr>ti_cost_type := CAN_USE_SMALL_ENCODING\<rparr>) (ki_tokens ki)\<rparr>) key_info_list)"

definition pos_type_at :: "(u32 \<times> nat) list \<Rightarrow> TokenInfo list \<Rightarrow> nat \<Rightarrow> TokenInfo" where
  "pos_type_at frequent_pos tokens i =
     (let ti = tokens ! i;
          ti = (case map_of frequent_pos (token_pos ti) of
                  Some pid \<Rightarrow> ti\<lparr>ti_pos_type := FREQUENT_POS, ti_id_in_frequent_pos_map := int pid\<rparr> | None \<Rightarrow> ti)
      in if i \<ge> 1 \<and> token_pos (tokens ! (i - 1)) = token_pos (tokens ! i) then ti\<lparr>ti_pos_type := SAME_AS_PREV_POS\<rparr> else ti)"

definition SetPosType :: "(u32 \<times> nat) list \<Rightarrow> KeyInfo list \<Rightarrow> KeyInfo list" where
  "SetPosType frequent_pos key_info_list =
     map (\<lambda>ki. ki\<lparr>ki_tokens := map (pos_type_at frequent_pos (ki_tokens ki)) [0..<length (ki_tokens ki)]\<rparr>) key_info_list"

definition value_type_at :: "TokenInfo list \<Rightarrow> nat \<Rightarrow> TokenInfo" where
  "value_type_at tokens i =
     (let ti = tokens ! i
      in if i \<ge> 1 \<and> \<not> as_is ti \<and> tk_value (ti_token ti) = tk_value (ti_token (tokens ! (i - 1)))
         then ti\<lparr>ti_value_type := SAME_AS_PREV_VALUE\<rparr> else ti)"

definition SetValueType :: "KeyInfo list \<Rightarrow> KeyInfo list" where
  "SetValueType key_info_list =
     map (\<lambda>ki. ki\<lparr>ki_tokens := map (value_type_at (ki_tokens ki)) [0..<length (ki_tokens ki)]\<rparr>) key_info_list"

subsection \<open>The token array\<close>

definition id_to_keyinfo_table :: "KeyInfo list \<Rightarrow> KeyInfo option list option" where
  "id_to_keyinfo_table key_info_list =
     fold (\<lambda>ki table. Option.bind table (\<lambda>table.
             let kid = ki_id_in_key_trie ki
             in if 0 \<le> kid \<and> kid < int (length table) then Some (table[nat kid := Some ki]) else None))
       key_info_list (Some (replicate (length key_info_list) None))"

definition Array_AddAll :: "u8 list list \<Rightarrow> BitVectorBasedArrayBuilder option" where
  "Array_AddAll elements = fold (\<lambda>e b. Option.bind b (Array_Add e)) elements (Some NewArrayBuilder)"

definition BuildTokenArray :: "KeyInfo list \<Rightarrow> BitVectorBasedArrayBuilder option" where
  "BuildTokenArray key_info_list =
     Option.bind (id_to_keyinfo_table key_info_list) (\<lambda>table.
     Option.bind (those table) (\<lambda>infos.
     Option.bind (those (map (\<lambda>ki. EncodeTokens (ki_tokens ki)) infos)) (\<lambda>elements.
     Option.bind (Array_AddAll (elements @ [[kTokenTerminationFlag]])) Array_Build)))"

record DictionaryImage =
  di_value :: "u8 list"
  di_key :: "u8 list"
  di_tokens :: "u8 list"
  di_pos :: "u32 list"

definition frequent_pos_array :: "(u32 \<times> nat) list \<Rightarrow> u32 list" where
  "frequent_pos_array frequent_pos = fold (\<lambda>(pos, index) a. a[index := pos]) frequent_pos (replicate 256 0)"

text \<open>\<^verbatim>\<open>BuildFromTokensInternal\<close> and the sections of \<^verbatim>\<open>WriteToStream\<close>.\<close>

definition BuildFromTokens :: "env \<Rightarrow> nat \<Rightarrow> Token list \<Rightarrow> DictionaryImage option" where
  "BuildFromTokens E min_key_len tokens =
     Option.bind (ReadTokens E tokens) (\<lambda>infos.
     Option.bind (BuildFrequentPos infos) (\<lambda>frequent_pos.
     Option.bind (BuildValueTrie infos) (\<lambda>value_trie_builder.
     Option.bind (BuildKeyTrie infos) (\<lambda>key_trie_builder.
     Option.bind (SetIdForValue value_trie_builder infos) (\<lambda>infos.
     Option.bind (SetIdForKey key_trie_builder infos) (\<lambda>infos.
     Option.bind (BuildTokenArray (SetValueType (SetPosType frequent_pos (SetCostType min_key_len (SortTokenInfo infos)))))
       (\<lambda>token_array_builder.
     Some \<lparr>di_value = lb_image value_trie_builder, di_key = lb_image key_trie_builder,
           di_tokens = vb_image token_array_builder, di_pos = frequent_pos_array frequent_pos\<rparr>)))))))"

lemma those_map_exists: "(\<And>x. x \<in> set xs \<Longrightarrow> f x = Some (g x)) \<Longrightarrow> those (map f xs) = Some (map g xs)"
  by (induction xs) auto

subsection \<open>Strings\<close>

lemma map_of_nat_u8: "bytes bs \<Longrightarrow> map unat (map of_nat bs :: u8 list) = bs"
proof (induction bs)
  case (Cons b bs)
  then show ?case by (simp add: unsigned_of_nat take_bit_nat_eq_self)
qed simp

lemma bytes_encode_ustr: "valid_ustr s \<Longrightarrow> bytes (encode_ustr s)"
  by (induction s) (auto simp: bytes_Encode scalar_le)

lemma Utf8ToUtf32_str: "valid_ustr s \<Longrightarrow> Utf8ToUtf32 (map unat (str s)) = s"
  unfolding str_def using map_of_nat_u8 [OF bytes_encode_ustr] Utf8ToUtf32_encode_append [of s "[]"]
  by (simp add: Utf8ToUtf32.simps)

lemma str_inj: "valid_ustr s \<Longrightarrow> valid_ustr t \<Longrightarrow> str s = str t \<longleftrightarrow> s = t"
  by (metis Utf8ToUtf32_str)

lemma str_append: "str (s @ t) = str s @ str t" by (simp add: str_def)
lemma length_str: "valid_ustr s \<Longrightarrow> length (str s) = byte_size s" by (simp add: str_def length_encode_ustr)

lemma key_word_inj: "text_ok s \<Longrightarrow> text_ok t \<Longrightarrow> key_word s = key_word t \<longleftrightarrow> s = t"
  by (simp add: key_word_def str_inj valid_EncodeKey EncodeKey_inj text_ok_0)

lemma key_word_Nil: "text_ok s \<Longrightarrow> s \<noteq> [] \<Longrightarrow> key_word s \<noteq> []"
proof -
  assume v: "text_ok s" "s \<noteq> []"
  then have "EncodeKey s \<noteq> []" by (cases s) (simp_all add: CodepointToUtf8_def)
  then have "0 < length (str (EncodeKey s))" using v(1) byte_size_0_iff [of "EncodeKey s"] by (simp add: length_str valid_EncodeKey del: byte_size_0_iff)
  then show ?thesis by (simp add: key_word_def)
qed

subsection \<open>Tokens in groups\<close>

definition read_info :: "env \<Rightarrow> Token \<Rightarrow> TokenInfo" where
  "read_info E t = (NewTokenInfo t)\<lparr>ti_value_type := GetValueType E t\<rparr>"

lemma read_info_simps [simp]:
  "ti_token (read_info E t) = t" "ti_value_type (read_info E t) = GetValueType E t" "ti_pos_type (read_info E t) = DEFAULT_POS"
  "ti_cost_type (read_info E t) = DEFAULT_COST" "ti_id_in_frequent_pos_map (read_info E t) = -1"
  by (simp_all add: read_info_def NewTokenInfo_def)

lemma group_tokens_step:
  "group_tokens E ki (t # ts) = (if ki_key ki \<noteq> tk_key t then ki # group_tokens E ((NewKeyInfo (tk_key t))\<lparr>ki_tokens := [read_info E t]\<rparr>) ts
     else group_tokens E (ki\<lparr>ki_tokens := ki_tokens ki @ [read_info E t]\<rparr>) ts)"
  by (simp add: Let_def read_info_def NewKeyInfo_def)

lemma group_tokens_contents: "concat (map ki_tokens (group_tokens E ki ts)) = ki_tokens ki @ map (read_info E) ts"
  by (induction ts arbitrary: ki) (simp_all add: group_tokens_step del: group_tokens.simps(2))

lemma group_tokens_keys: "map ki_key (group_tokens E ki ts) = remdups_adj (ki_key ki # map tk_key ts)"
  by (induction ts arbitrary: ki) (simp_all add: group_tokens_step NewKeyInfo_def del: group_tokens.simps(2))

lemma group_tokens_same:
  "\<forall>ti \<in> set (ki_tokens ki). tk_key (ti_token ti) = ki_key ki \<Longrightarrow> g \<in> set (group_tokens E ki ts) \<Longrightarrow>
    \<forall>ti \<in> set (ki_tokens g). tk_key (ti_token ti) = ki_key g"
proof (induction ts arbitrary: ki)
  case (Cons t ts)
  show ?case
  proof (cases "ki_key ki = tk_key t")
    case True
    then show ?thesis using Cons.IH [of "ki\<lparr>ki_tokens := ki_tokens ki @ [read_info E t]\<rparr>"] Cons.prems
      by (simp add: group_tokens_step del: group_tokens.simps(2))
  next
    case False
    then show ?thesis using Cons.IH [of "(NewKeyInfo (tk_key t))\<lparr>ki_tokens := [read_info E t]\<rparr>"] Cons.prems
      by (auto simp: group_tokens_step NewKeyInfo_def simp del: group_tokens.simps(2))
  qed
qed simp

lemma group_tokens_nonempty:
  "ki_tokens ki \<noteq> [] \<or> (ts \<noteq> [] \<and> tk_key (hd ts) = ki_key ki) \<Longrightarrow> g \<in> set (group_tokens E ki ts) \<Longrightarrow> ki_tokens g \<noteq> []"
proof (induction ts arbitrary: ki)
  case (Cons t ts)
  show ?case
  proof (cases "ki_key ki = tk_key t")
    case True
    then show ?thesis using Cons.IH [of "ki\<lparr>ki_tokens := ki_tokens ki @ [read_info E t]\<rparr>"] Cons.prems
      by (simp add: group_tokens_step del: group_tokens.simps(2))
  next
    case False
    then show ?thesis using Cons.IH [of "(NewKeyInfo (tk_key t))\<lparr>ki_tokens := [read_info E t]\<rparr>"] Cons.prems
      by (auto simp: group_tokens_step NewKeyInfo_def simp del: group_tokens.simps(2))
  qed
qed simp

lemma filter_groups:
  assumes "distinct (map f G)" "\<And>g x. g \<in> set G \<Longrightarrow> x \<in> set (h g) \<Longrightarrow> k x = f g" "g \<in> set G"
  shows "filter (\<lambda>x. k x = f g) (concat (map h G)) = h g"
  using assms
proof (induction G)
  case (Cons a G)
  have o: "filter (\<lambda>x. k x = f b) (h c) = []" if "b \<in> set (a # G)" "c \<in> set (a # G)" "f b \<noteq> f c" for b c
    using that Cons.prems(2) by (auto simp: filter_empty_conv)
  show ?case
  proof (cases "g = a")
    case True
    have "k x \<noteq> f a" if "y \<in> set G" "x \<in> set (h y)" for x y
      using Cons.prems(1) Cons.prems(2) [of y x] that by (auto simp: image_iff)
    then have "filter (\<lambda>x. k x = f a) (concat (map h G)) = []" by (auto simp: filter_empty_conv)
    moreover have "filter (\<lambda>x. k x = f a) (h a) = h a" using Cons.prems(2) by (simp add: filter_id_conv)
    ultimately show ?thesis using True by simp
  next
    case False
    then have g: "g \<in> set G" using Cons.prems(3) by simp
    then have "f g \<in> f ` set G" by (rule imageI)
    then have "f g \<noteq> f a" using Cons.prems(1) by auto
    then show ?thesis using Cons.IH [OF _ _ g] Cons.prems(1,2) o [of g a] g by simp
  qed
qed simp

lemma remdups_adj_map_inj: "inj_on f (set xs) \<Longrightarrow> remdups_adj (map f xs) = map f (remdups_adj xs)"
  by (induction xs rule: remdups_adj.induct) (auto simp: inj_on_eq_iff inj_on_def)

definition groups :: "env \<Rightarrow> Token list \<Rightarrow> KeyInfo list \<Rightarrow> bool" where
  "groups E tokens G \<longleftrightarrow> distinct (map ki_key G) \<and> set (map ki_key G) = tk_key ` set tokens \<and>
     (\<forall>g \<in> set G. ki_tokens g = map (read_info E) (filter (\<lambda>t. tk_key t = ki_key g) tokens))"

lemma groups_tokens: "groups E tokens G \<Longrightarrow> g \<in> set G \<Longrightarrow> ki_tokens g \<noteq> []"
proof -
  assume a: "groups E tokens G" "g \<in> set G"
  then have "ki_key g \<in> tk_key ` set tokens" unfolding groups_def by (metis image_eqI set_map)
  then show ?thesis using a by (auto simp: groups_def filter_empty_conv)
qed

lemma ReadTokens_groups:
  assumes "\<forall>t \<in> set tokens. tk_key t \<noteq> [] \<and> text_ok (tk_key t) \<and> tk_value t \<noteq> []" "tokens \<noteq> []"
  obtains G where "ReadTokens E tokens = Some G" "groups E tokens G" "mset (concat (map ki_tokens G)) = image_mset (read_info E) (mset tokens)"
proof -
  let ?s = "sort_key (\<lambda>t. str (tk_key t)) tokens"
  have "?s \<noteq> []" using assms(2) by (metis length_0_conv length_sort)
  then obtain t ts where ts: "?s = t # ts" by (cases ?s) auto
  have set: "set (t # ts) = set tokens" by (metis ts set_sort)
  define G where "G = group_tokens E (NewKeyInfo (tk_key t)) (t # ts)"
  have R: "ReadTokens E tokens = Some G" using assms(1) by (auto simp: ReadTokens_def list_ex_iff ts G_def)
  have c: "concat (map ki_tokens G) = map (read_info E) ?s" unfolding G_def group_tokens_contents ts by (simp add: NewKeyInfo_def)
  have k: "map ki_key G = remdups_adj (map tk_key ?s)" unfolding G_def group_tokens_keys ts by (simp add: NewKeyInfo_def)
  have inj: "inj_on str (set (map tk_key ?s))" 
  proof (rule inj_onI)
    fix a b assume "a \<in> set (map tk_key ?s)" "b \<in> set (map tk_key ?s)" "str a = str b"
    moreover from this have "text_ok a" "text_ok b" using assms(1) by auto
    ultimately show "a = b" using str_inj text_ok_valid by blast
  qed
  have "sorted (map str (map tk_key ?s))" using sorted_sort_key [of "\<lambda>t. str (tk_key t)" tokens] by (simp add: comp_def)
  then have "distinct (map str (remdups_adj (map tk_key ?s)))"
    using sorted_remdups_adj_distinct remdups_adj_map_inj [OF inj] by metis
  then have d: "distinct (map ki_key G)" unfolding k by (simp add: distinct_map)
  have "ki_tokens g = map (read_info E) (filter (\<lambda>t. tk_key t = ki_key g) tokens)" if g: "g \<in> set G" for g
  proof -
    have "\<forall>ti \<in> set (ki_tokens h). tk_key (ti_token ti) = ki_key h" if "h \<in> set G" for h
      using that unfolding G_def by (rule group_tokens_same [rotated]) (simp add: NewKeyInfo_def)
    then have "ki_tokens g = filter (\<lambda>ti. tk_key (ti_token ti) = ki_key g) (concat (map ki_tokens G))"
      using filter_groups [OF d, of ki_tokens "\<lambda>ti. tk_key (ti_token ti)"] g by auto
    also have "\<dots> = map (read_info E) (filter (\<lambda>t. tk_key t = ki_key g) ?s)" unfolding c by (simp add: filter_map comp_def)
    also have "filter (\<lambda>t. tk_key t = ki_key g) ?s = filter (\<lambda>t. tk_key t = ki_key g) tokens"
    proof -
      have "ki_key g \<in> set (map ki_key G)" using g by simp
      then have "ki_key g \<in> tk_key ` set tokens" unfolding k using set ts by auto
      then have v: "text_ok (ki_key g)" using assms(1) by auto
      have "filter (\<lambda>t. tk_key t = ki_key g) xs = filter (\<lambda>t. str (tk_key t) = str (ki_key g)) xs" if "set xs \<subseteq> set tokens" for xs
      proof (rule filter_cong [OF refl])
        fix t assume "t \<in> set xs"
        then have "text_ok (tk_key t)" using that assms(1) by auto
        then show "tk_key t = ki_key g \<longleftrightarrow> str (tk_key t) = str (ki_key g)"
          using str_inj [OF text_ok_valid text_ok_valid] v by blast
      qed
      then show ?thesis using sort_key_stable [of "\<lambda>t. str (tk_key t)" "str (ki_key g)" tokens] by simp
    qed
    finally show ?thesis .
  qed
  moreover have "set (map ki_key G) = tk_key ` set tokens" unfolding k using set ts by auto
  ultimately have "groups E tokens G" using d by (simp add: groups_def)
  moreover have "mset (concat (map ki_tokens G)) = image_mset (read_info E) (mset tokens)" unfolding c by simp
  ultimately show thesis using that R by blast
qed

subsection \<open>The frequent parts of speech\<close>

lemma freq_threshold_spec:
  "sorted_wrt (\<lambda>x y. fst x > fst y) xs \<Longrightarrow> \<forall>x \<in> set xs. fst x < thr \<Longrightarrow> freq_threshold xs num thr = (num', thr') \<Longrightarrow>
    num' = num + sum_list (map snd (filter (\<lambda>x. fst x \<ge> thr') xs)) \<and> thr' \<le> thr \<and> (num \<le> 255 \<longrightarrow> num' \<le> 255)"
proof (induction xs arbitrary: num thr)
  case (Cons x xs)
  obtain f n where x: "x = (f, n)" by (cases x)
  show ?case
  proof (cases "num + n > 255")
    case True
    then have r: "num' = num" "thr' = thr" using Cons.prems(3) x by simp_all
    have "filter (\<lambda>x. fst x \<ge> thr) (x # xs) = []" using Cons.prems(2) by (auto simp: filter_empty_conv)
    then show ?thesis using r by simp
  next
    case False
    then have r: "freq_threshold xs (num + n) f = (num', thr')" using Cons.prems(3) x by simp
    from Cons.IH [OF _ _ this] Cons.prems(1) x
    have IH: "num' = num + n + sum_list (map snd (filter (\<lambda>x. fst x \<ge> thr') xs))" "thr' \<le> f" "num + n \<le> 255 \<longrightarrow> num' \<le> 255" by auto
    moreover have "f < thr" using Cons.prems(2) x by simp
    ultimately show ?thesis using x False by simp
  qed
qed simp

lemma histogram_facts:
  fixes xs :: "'a::linorder list"
  shows "sorted_wrt (\<lambda>x y. fst x < fst y) (histogram xs)" "distinct (map fst (histogram xs))"
    "\<And>x n. (x, n) \<in> set (histogram xs) \<longleftrightarrow> x \<in> set xs \<and> n = count_list xs x"
    "sum_list (map snd (filter (\<lambda>x. P (fst x)) (histogram xs))) = length (filter P xs)"
proof -
  let ?u = "remdups_adj (sort xs)"
  have d: "sorted_wrt (<) ?u" "set ?u = set xs"
    using sorted_remdups_adj_distinct [of "sort xs"] by (simp_all add: strict_sorted_iff)
  show "sorted_wrt (\<lambda>x y. fst x < fst y) (histogram xs)" using d(1) by (simp add: histogram_def sorted_wrt_map)
  show "distinct (map fst (histogram xs))" using d(1) by (simp add: histogram_def comp_def strict_sorted_iff)
  show "\<And>x n. (x, n) \<in> set (histogram xs) \<longleftrightarrow> x \<in> set xs \<and> n = count_list xs x" using d(2) by (auto simp: histogram_def)
  have "map snd (filter (\<lambda>x. P (fst x)) (histogram xs)) = map (count_list xs) (filter P ?u)"
    by (simp add: histogram_def filter_map comp_def)
  also have "sum_list \<dots> = sum (count_list xs) (set (filter P ?u))"
    using d(1) by (intro sum_list_distinct_conv_sum_set) (simp add: strict_sorted_iff)
  also have "set (filter P ?u) = set (filter P xs)" using d(2) by auto
  also have "sum (count_list xs) (set (filter P xs)) = sum (count_list (filter P xs)) (set (filter P xs))"
  proof (rule sum.cong [OF refl])
    fix x assume "x \<in> set (filter P xs)"
    then have "P x" by simp
    then show "count_list xs x = count_list (filter P xs) x" by (induction xs) auto
  qed
  also have "\<dots> = length (filter P xs)" by (rule sum_count_set) simp_all
  finally show "sum_list (map snd (filter (\<lambda>x. P (fst x)) (histogram xs))) = length (filter P xs)" .
qed

lemma frequent_pos_array_nth:
  assumes "length ps \<le> 256" "i < length ps"
  shows "frequent_pos_array (zip ps [0..<length ps]) ! i = ps ! i"
proof -
  have "length (fold (\<lambda>(pos, index) a. a[index := pos]) (zip ps [0..<length ps]) (replicate 256 0)) = 256 \<and>
    (\<forall>i < length ps. fold (\<lambda>(pos, index) a. a[index := pos]) (zip ps [0..<length ps]) (replicate 256 0) ! i = ps ! i)"
    using assms(1)
  proof (induction ps rule: rev_induct)
    case (snoc p ps)
    have z: "zip (ps @ [p]) [0..<length (ps @ [p])] = zip ps [0..<length ps] @ [(p, length ps)]" by simp
    show ?case unfolding z using snoc by (auto simp: nth_list_update nth_append)
  qed simp
  then show ?thesis using assms(2) by (simp add: frequent_pos_array_def)
qed

lemma BuildFrequentPos_exists:
  assumes "length (concat (map ki_tokens G)) < max_freq"
  obtains fp where "BuildFrequentPos G = Some fp"
    "\<And>p i. map_of fp p = Some i \<Longrightarrow> i < 256 \<and> frequent_pos_array fp ! i = p"
proof -
  define ps where "ps = map token_pos (concat (map ki_tokens G))"
  define pm where "pm = histogram ps"
  define fm where "fm = rev (histogram (map snd pm))"
  obtain num thr where ft: "freq_threshold fm 0 max_freq = (num, thr)" by (cases "freq_threshold fm 0 max_freq")
  have "sorted_wrt (\<lambda>x y. fst x > fst y) fm" unfolding fm_def sorted_wrt_rev by (rule histogram_facts(1))
  moreover have "fst x < max_freq" if "x \<in> set fm" for x
  proof -
    obtain f n where x: "x = (f, n)" by (cases x)
    then have "f \<in> snd ` set pm" using that by (auto simp: fm_def histogram_facts(3))
    then obtain p where "f = count_list ps p" by (auto simp: pm_def histogram_facts(3))
    then have "f \<le> length ps" by (simp add: count_le_length)
    then show ?thesis using x assms by (simp add: ps_def)
  qed
  ultimately have s: "num = sum_list (map snd (filter (\<lambda>x. fst x \<ge> thr) fm))" "num \<le> 255"
    using freq_threshold_spec [OF _ _ ft] by auto
  have "sum_list (map snd (filter (\<lambda>x. fst x \<ge> thr) fm)) = sum_list (map snd (filter (\<lambda>x. fst x \<ge> thr) (histogram (map snd pm))))"
    unfolding fm_def rev_filter [symmetric] rev_map [symmetric] sum_list_rev ..
  also have "\<dots> = length (filter (\<lambda>f. f \<ge> thr) (map snd pm))" by (rule histogram_facts(4))
  also have "\<dots> = length (filter (\<lambda>(pos, freq). freq \<ge> thr) pm)" by (simp add: filter_map comp_def case_prod_unfold)
  finally have num: "length (filter (\<lambda>(pos, freq). freq \<ge> thr) pm) = num" using s(1) by simp
  define kept where "kept = map fst (filter (\<lambda>(pos, freq). freq \<ge> thr) pm)"
  have l: "length kept \<le> 255" "length kept = num" using num s(2) by (simp_all add: kept_def)
  have B: "BuildFrequentPos G = Some (zip kept [0..<length kept])"
    using num ft by (simp add: BuildFrequentPos_def Let_def ps_def [symmetric] pm_def [symmetric] fm_def [symmetric] kept_def)
  have "i < 256 \<and> frequent_pos_array (zip kept [0..<length kept]) ! i = p" if "map_of (zip kept [0..<length kept]) p = Some i" for p i
  proof -
    have "(p, i) \<in> set (zip kept [0..<length kept])" using that by (rule map_of_SomeD)
    then have "i < length kept" "kept ! i = p" by (auto simp: set_zip)
    then show ?thesis using frequent_pos_array_nth [of kept i] l by simp
  qed
  then show thesis using that B by blast
qed

end
