(* ===== verification/SystemDictionary.thy ===== *)
theory SystemDictionary
  imports SystemDictionaryBuilder
begin

unbundle bit_operations_syntax

section \<open>Reading the system dictionary\<close>

text \<open>
  \<^verbatim>\<open>dictionary/system/system_dictionary.cc\<close> and \<^verbatim>\<open>token_decode_iterator.h\<close>. A callback is a record of functions on a state of
  the caller, with the flag for conversion that ignores kana modifiers. A pointer to tokens is the bytes from it to the end of
  its element. The part-of-speech section is a list of integers. Predictive and reverse look-up are not modelled.
\<close>

record SystemDictionary =
  sd_key_trie :: LoudsTrie
  sd_value_trie :: LoudsTrie
  sd_token_array :: BitVectorBasedArray
  sd_frequent_pos :: "u32 list"

definition kKeyTrieLb0CacheSize :: nat where "kKeyTrieLb0CacheSize = 1 * 1024"
definition kKeyTrieLb1CacheSize :: nat where "kKeyTrieLb1CacheSize = 1 * 1024"
definition kKeyTrieSelect0CacheSize :: nat where "kKeyTrieSelect0CacheSize = 4 * 1024"
definition kKeyTrieSelect1CacheSize :: nat where "kKeyTrieSelect1CacheSize = 4 * 1024"
definition kKeyTrieTermvecCacheSize :: nat where "kKeyTrieTermvecCacheSize = 1 * 1024"
definition kValueTrieLb0CacheSize :: nat where "kValueTrieLb0CacheSize = 1 * 1024"
definition kValueTrieLb1CacheSize :: nat where "kValueTrieLb1CacheSize = 1 * 1024"
definition kValueTrieSelect0CacheSize :: nat where "kValueTrieSelect0CacheSize = 1 * 1024"
definition kValueTrieSelect1CacheSize :: nat where "kValueTrieSelect1CacheSize = 16 * 1024"
definition kValueTrieTermvecCacheSize :: nat where "kValueTrieTermvecCacheSize = 4 * 1024"

definition OpenDictionaryFile :: "DictionaryImage \<Rightarrow> SystemDictionary option" where
  "OpenDictionaryFile img =
     Option.bind (Open (di_key img) kKeyTrieLb0CacheSize kKeyTrieLb1CacheSize kKeyTrieSelect0CacheSize
       kKeyTrieSelect1CacheSize kKeyTrieTermvecCacheSize) (\<lambda>key_trie.
     Option.bind (Open (di_value img) kValueTrieLb0CacheSize kValueTrieLb1CacheSize kValueTrieSelect0CacheSize
       kValueTrieSelect1CacheSize kValueTrieTermvecCacheSize) (\<lambda>value_trie.
     Option.bind (Array_Open (di_tokens img)) (\<lambda>token_array.
     Some \<lparr>sd_key_trie = key_trie, sd_value_trie = value_trie, sd_token_array = token_array, sd_frequent_pos = di_pos img\<rparr>)))"

definition GetTokenArrayPtr :: "SystemDictionary \<Rightarrow> int \<Rightarrow> u8 list option" where
  "GetTokenArrayPtr d kid = Array_Get (sd_token_array d) (nat kid)"

subsection \<open>The iterator over the tokens of a key\<close>

datatype IteratorState = HAS_NEXT | LAST_TOKEN | DONE

record TokenDecodeIterator =
  it_key :: ustr
  it_key_katakana :: ustr
  it_state :: IteratorState
  it_ptr :: "u8 list"
  it_token_info :: TokenInfo

definition LookupValue :: "SystemDictionary \<Rightarrow> int \<Rightarrow> ustr option" where
  "LookupValue d vid = map_option DecodeValue (RestoreKeyStringFromId (sd_value_trie d) vid)"

definition fill_value :: "env \<Rightarrow> SystemDictionary \<Rightarrow> int \<Rightarrow> TokenDecodeIterator \<Rightarrow> TokenDecodeIterator option" where
  "fill_value E d prev_id_in_value_trie it =
     (let ti = it_token_info it in
      case ti_value_type ti of
        DEFAULT_VALUE \<Rightarrow>
          map_option (\<lambda>v. it\<lparr>it_token_info := ti\<lparr>ti_token := (ti_token ti)\<lparr>tk_value := v\<rparr>\<rparr>\<rparr>) (LookupValue d (ti_id_in_value_trie ti))
      | SAME_AS_PREV_VALUE \<Rightarrow> Some (it\<lparr>it_token_info := ti\<lparr>ti_id_in_value_trie := prev_id_in_value_trie\<rparr>\<rparr>)
      | AS_IS_HIRAGANA \<Rightarrow> Some (it\<lparr>it_token_info := ti\<lparr>ti_token := (ti_token ti)\<lparr>tk_value := tk_key (ti_token ti)\<rparr>\<rparr>\<rparr>)
      | AS_IS_KATAKANA \<Rightarrow>
          let katakana = (if it_key it \<noteq> [] \<and> it_key_katakana it = [] then HiraganaToKatakana E (it_key it) else it_key_katakana it)
          in Some (it\<lparr>it_key_katakana := katakana, it_token_info := ti\<lparr>ti_token := (ti_token ti)\<lparr>tk_value := katakana\<rparr>\<rparr>\<rparr>))"

definition fill_pos :: "SystemDictionary \<Rightarrow> TokenDecodeIterator \<Rightarrow> TokenDecodeIterator" where
  "fill_pos d it =
     (let ti = it_token_info it in
      if ti_pos_type ti = FREQUENT_POS then
        let pos = sd_frequent_pos d ! nat (ti_id_in_frequent_pos_map ti)
        in it\<lparr>it_token_info := ti\<lparr>ti_token := (ti_token ti)\<lparr>tk_lid := ucast (drop_bit 16 pos), tk_rid := ucast (pos AND 0xffff)\<rparr>\<rparr>\<rparr>
      else it)"

definition NextInternal :: "env \<Rightarrow> SystemDictionary \<Rightarrow> TokenDecodeIterator \<Rightarrow> TokenDecodeIterator option" where
  "NextInternal E d it =
     (let prev_id_in_value_trie = ti_id_in_value_trie (it_token_info it);
          info = NewTokenInfo ((ti_token (it_token_info it))\<lparr>tk_attributes := 0\<rparr>);
          (cont, info, read_bytes) = DecodeToken (it_ptr it) info;
          it = it\<lparr>it_state := (if cont then it_state it else LAST_TOKEN), it_ptr := drop read_bytes (it_ptr it), it_token_info := info\<rparr>
      in map_option (fill_pos d) (fill_value E d prev_id_in_value_trie it))"

definition NewTokenDecodeIterator :: "env \<Rightarrow> SystemDictionary \<Rightarrow> ustr \<Rightarrow> u8 list \<Rightarrow> TokenDecodeIterator option" where
  "NewTokenDecodeIterator E d key ptr =
     NextInternal E d \<lparr>it_key = key, it_key_katakana = [], it_state = HAS_NEXT, it_ptr = ptr,
       it_token_info = NewTokenInfo (NewToken\<lparr>tk_key := key\<rparr>)\<rparr>"

definition Iterator_Next :: "env \<Rightarrow> SystemDictionary \<Rightarrow> TokenDecodeIterator \<Rightarrow> TokenDecodeIterator option" where
  "Iterator_Next E d it = (if it_state it = LAST_TOKEN then Some (it\<lparr>it_state := DONE\<rparr>) else NextInternal E d it)"

text \<open>The \<^verbatim>\<open>for\<close> loop over an iterator; the body says whether to go on.\<close>

partial_function (option) token_loop ::
  "env \<Rightarrow> SystemDictionary \<Rightarrow> (TokenInfo \<Rightarrow> 's \<Rightarrow> bool \<times> 's) \<Rightarrow> TokenDecodeIterator \<Rightarrow> 's \<Rightarrow> 's option" where
  "token_loop E d body it s =
     (if it_state it = DONE then Some s
      else case body (it_token_info it) s of
             (cont, s') \<Rightarrow> if cont then Option.bind (Iterator_Next E d it) (\<lambda>it'. token_loop E d body it' s') else Some s')"

definition for_tokens :: "env \<Rightarrow> SystemDictionary \<Rightarrow> ustr \<Rightarrow> int \<Rightarrow> (TokenInfo \<Rightarrow> 's \<Rightarrow> bool \<times> 's) \<Rightarrow> 's \<Rightarrow> 's option" where
  "for_tokens E d key kid body s =
     Option.bind (GetTokenArrayPtr d kid) (\<lambda>ptr.
     Option.bind (NewTokenDecodeIterator E d key ptr) (\<lambda>it. token_loop E d body it s))"

subsection \<open>Look-up\<close>

datatype ResultType = TRAVERSE_DONE | TRAVERSE_NEXT_KEY | TRAVERSE_CULL | TRAVERSE_CONTINUE

record 's Callback =
  IsKanaModifierInsensitiveConversion :: bool
  OnKey :: "ustr \<Rightarrow> 's \<Rightarrow> ResultType \<times> 's"
  OnActualKey :: "ustr \<Rightarrow> ustr \<Rightarrow> nat \<Rightarrow> 's \<Rightarrow> ResultType \<times> 's"
  OnToken :: "ustr \<Rightarrow> ustr \<Rightarrow> Token \<Rightarrow> 's \<Rightarrow> ResultType \<times> 's"

definition Dictionary_HasKey :: "SystemDictionary \<Rightarrow> ustr \<Rightarrow> bool option" where
  "Dictionary_HasKey d key = HasKey (sd_key_trie d) (key_word key)"

definition Dictionary_HasValue :: "env \<Rightarrow> SystemDictionary \<Rightarrow> ustr \<Rightarrow> bool option" where
  "Dictionary_HasValue E d v =
     Option.bind (HasKey (sd_value_trie d) (EncodeValue v)) (\<lambda>stored.
     if stored then Some True
     else let key = KatakanaToHiragana E v in
       Option.bind (ExactSearch (sd_key_trie d) (key_word key)) (\<lambda>kid.
       if kid = -1 then Some False
       else for_tokens E d key kid (\<lambda>ti found. if v = tk_value (ti_token ti) then (False, True) else (True, found)) False))"

definition LookupExact :: "env \<Rightarrow> SystemDictionary \<Rightarrow> ustr \<Rightarrow> 's Callback \<Rightarrow> 's \<Rightarrow> 's option" where
  "LookupExact E d key callback s =
     Option.bind (ExactSearch (sd_key_trie d) (key_word key)) (\<lambda>kid.
     if kid = -1 then Some s
     else case OnKey callback key s of (r, s) \<Rightarrow>
       if r \<noteq> TRAVERSE_CONTINUE then Some s
       else case OnActualKey callback key key 0 s of (r, s) \<Rightarrow>
         if r \<noteq> TRAVERSE_CONTINUE then Some s
         else for_tokens E d key kid (\<lambda>ti s. case OnToken callback key key (ti_token ti) s of (r, s) \<Rightarrow> (r = TRAVERSE_CONTINUE, s)) s)"

text \<open>
  \<^verbatim>\<open>RunCallbackOnEachPrefix\<close>. The third component of the result of a body is set when the whole traversal ends.
\<close>

definition prefix_tokens ::
  "env \<Rightarrow> SystemDictionary \<Rightarrow> ustr \<Rightarrow> nat \<Rightarrow> 's Callback \<Rightarrow> (TokenInfo \<Rightarrow> bool) \<Rightarrow> 's \<Rightarrow> (bool \<times> 's) option" where
  "prefix_tokens E d prefix kid callback token_filter s =
     for_tokens E d prefix (int kid) (\<lambda>ti (fin, s).
       if \<not> token_filter ti then (True, (fin, s))
       else case OnToken callback prefix prefix (ti_token ti) s of
              (r, s) \<Rightarrow> if r = TRAVERSE_DONE \<or> r = TRAVERSE_CULL then (False, (True, s))
                       else (r \<noteq> TRAVERSE_NEXT_KEY, (fin, s))) (False, s)"

definition prefix_key ::
  "env \<Rightarrow> SystemDictionary \<Rightarrow> ustr \<Rightarrow> nat \<Rightarrow> 's Callback \<Rightarrow> (TokenInfo \<Rightarrow> bool) \<Rightarrow> 's \<Rightarrow> (bool \<times> 's) option" where
  "prefix_key E d prefix kid callback token_filter s =
     (case OnKey callback prefix s of (r, s) \<Rightarrow>
        if r = TRAVERSE_DONE \<or> r = TRAVERSE_CULL then Some (True, s)
        else if r = TRAVERSE_NEXT_KEY then Some (False, s)
        else case OnActualKey callback prefix prefix 0 s of (r, s) \<Rightarrow>
          if r = TRAVERSE_DONE \<or> r = TRAVERSE_CULL then Some (True, s)
          else if r = TRAVERSE_NEXT_KEY then Some (False, s)
          else prefix_tokens E d prefix kid callback token_filter s)"

definition GetDecodedKeyLength :: "u8 list \<Rightarrow> nat" where
  "GetDecodedKeyLength encoded = GetEncodedDecodedKeyLengthImpl (Utf8ToUtf32 (map unat encoded))"

fun each_prefix ::
  "env \<Rightarrow> SystemDictionary \<Rightarrow> ustr \<Rightarrow> u8 list \<Rightarrow> 's Callback \<Rightarrow> (TokenInfo \<Rightarrow> bool) \<Rightarrow> u8 list \<Rightarrow> u8 list \<Rightarrow> LoudsNode \<Rightarrow> 's \<Rightarrow> 's option" where
  "each_prefix E d key encoded_key callback token_filter done [] nd s = Some s"
| "each_prefix E d key encoded_key callback token_filter done (c # rest) nd s =
     Option.bind (MoveToChildByLabel (sd_key_trie d) c nd) (\<lambda>(found, nd).
       if \<not> found then Some s
       else if \<not> IsTerminalNode (sd_key_trie d) nd then each_prefix E d key encoded_key callback token_filter (done @ [c]) rest nd s
       else let prefix = byte_take (GetDecodedKeyLength (done @ [c])) key in
            Option.bind (prefix_key E d prefix (GetKeyIdOfTerminalNode (sd_key_trie d) nd) callback token_filter s) (\<lambda>(fin, s).
              if fin then Some s else each_prefix E d key encoded_key callback token_filter (done @ [c]) rest nd s))"

subsection \<open>Look-up with key expansion\<close>

text \<open>
  \<^verbatim>\<open>key_expansion_table.h\<close>: a bitmap of 256 rows of eight 32-bit words; \<^verbatim>\<open>char\<close> is unsigned in every build
  (\<^verbatim>\<open>-funsigned-char\<close>, \<^verbatim>\<open>/J\<close>). A row is the function from the index of a word to the word.
\<close>

type_synonym KeyExpansionTable = "u8 \<Rightarrow> nat \<Rightarrow> u32"

definition SetBit :: "u8 \<Rightarrow> u8 \<Rightarrow> KeyExpansionTable \<Rightarrow> KeyExpansionTable" where
  "SetBit key v table =
     table(key := (table key)(unat v div 32 := table key (unat v div 32) OR push_bit (unat v mod 32) 1))"

definition NewKeyExpansionTable :: KeyExpansionTable where
  "NewKeyExpansionTable = fold (\<lambda>i. SetBit (of_nat i) (of_nat i)) [0..<256] (\<lambda>key i. 0)"

definition Table_Add :: "u8 \<Rightarrow> u8 list \<Rightarrow> KeyExpansionTable \<Rightarrow> KeyExpansionTable" where
  "Table_Add key data table = fold (SetBit key) data table"

definition ExpandKey :: "KeyExpansionTable \<Rightarrow> u8 \<Rightarrow> nat \<Rightarrow> u32" where
  "ExpandKey table key = table key"

definition IsHit :: "(nat \<Rightarrow> u32) \<Rightarrow> u8 \<Rightarrow> bool" where
  "IsHit row v \<longleftrightarrow> drop_bit (unat v mod 32) (row (unat v div 32)) AND 1 \<noteq> 0"

definition kHiraganaExpansionTable :: "ustr list" where
  "kHiraganaExpansionTable =
    [[0x3042, 0x3042, 0x3041], [0x3044, 0x3044, 0x3043], [0x3046, 0x3046, 0x3045, 0x3094], [0x3048, 0x3048, 0x3047],
     [0x304A, 0x304A, 0x3049], [0x304B, 0x304B, 0x304C], [0x304D, 0x304D, 0x304E], [0x304F, 0x304F, 0x3050],
     [0x3051, 0x3051, 0x3052], [0x3053, 0x3053, 0x3054], [0x3055, 0x3055, 0x3056], [0x3057, 0x3057, 0x3058],
     [0x3059, 0x3059, 0x305A], [0x305B, 0x305B, 0x305C], [0x305D, 0x305D, 0x305E], [0x305F, 0x305F, 0x3060],
     [0x3061, 0x3061, 0x3062], [0x3064, 0x3064, 0x3063, 0x3065], [0x3063, 0x3063, 0x3065], [0x3066, 0x3066, 0x3067],
     [0x3068, 0x3068, 0x3069], [0x306F, 0x306F, 0x3070, 0x3071], [0x3072, 0x3072, 0x3073, 0x3074],
     [0x3075, 0x3075, 0x3076, 0x3077], [0x3078, 0x3078, 0x3079, 0x307A], [0x307B, 0x307B, 0x307C, 0x307D],
     [0x3084, 0x3084, 0x3083], [0x3086, 0x3086, 0x3085], [0x3088, 0x3088, 0x3087], [0x308F, 0x308F, 0x308E]]"

definition BuildHiraganaExpansionTable :: "KeyExpansionTable \<Rightarrow> KeyExpansionTable" where
  "BuildHiraganaExpansionTable encoded_table =
     fold (\<lambda>row table. let encoded = str (EncodeKey row) in
       if length encoded = 1 then table else Table_Add (hd encoded) (tl encoded) table) kHiraganaExpansionTable encoded_table"

text \<open>The member of the dictionary; it depends on nothing but the codec.\<close>

definition hiragana_expansion_table :: KeyExpansionTable where
  "hiragana_expansion_table = BuildHiraganaExpansionTable NewKeyExpansionTable"

text \<open>
  \<^verbatim>\<open>LookupPrefixWithKeyExpansionImpl\<close>. A terminal node gives the result to return (\<open>None\<close> goes on to the children). \<open>done\<close>
  is the part of the encoded key before \<^verbatim>\<open>key_pos\<close> and \<open>actual\<close> that of the buffer with the characters that were used; writing beyond the
  buffer of \<^verbatim>\<open>kMaxDepth + 1\<close> characters is \<open>None\<close>.
\<close>

definition actual_tokens ::
  "env \<Rightarrow> SystemDictionary \<Rightarrow> ustr \<Rightarrow> ustr \<Rightarrow> nat \<Rightarrow> 's Callback \<Rightarrow> 's \<Rightarrow> (ResultType option \<times> 's) option" where
  "actual_tokens E d prefix actual_prefix kid callback s =
     for_tokens E d actual_prefix (int kid) (\<lambda>ti (stop, s).
       case OnToken callback prefix actual_prefix (ti_token ti) s of
         (r, s) \<Rightarrow> if r = TRAVERSE_DONE \<or> r = TRAVERSE_CULL then (False, (Some r, s))
                  else (r \<noteq> TRAVERSE_NEXT_KEY, (stop, s))) (None, s)"

definition expansion_terminal ::
  "env \<Rightarrow> SystemDictionary \<Rightarrow> ustr \<Rightarrow> 's Callback \<Rightarrow> u8 list \<Rightarrow> u8 list \<Rightarrow> nat \<Rightarrow> LoudsNode \<Rightarrow> 's \<Rightarrow> (ResultType option \<times> 's) option" where
  "expansion_terminal E d key callback done actual num_expanded nd s =
     (if \<not> IsTerminalNode (sd_key_trie d) nd then Some (None, s)
      else let prefix = byte_take (GetDecodedKeyLength done) key in
        case OnKey callback prefix s of (r, s) \<Rightarrow>
          if r = TRAVERSE_DONE \<or> r = TRAVERSE_CULL then Some (Some r, s)
          else if r = TRAVERSE_NEXT_KEY then Some (None, s)
          else let actual_prefix = DecodeKey (Utf8ToUtf32 (map unat actual)) in
            case OnActualKey callback prefix actual_prefix num_expanded s of (r, s) \<Rightarrow>
              if r = TRAVERSE_DONE \<or> r = TRAVERSE_CULL then Some (Some r, s)
              else if r = TRAVERSE_NEXT_KEY then Some (None, s)
              else actual_tokens E d prefix actual_prefix (GetKeyIdOfTerminalNode (sd_key_trie d) nd) callback s)"

text \<open>The loop over the children of a node; \<open>visit\<close> is its body.\<close>

partial_function (option) expansion_children ::
  "LoudsTrie \<Rightarrow> (LoudsNode \<Rightarrow> 's \<Rightarrow> (ResultType \<times> 's) option) \<Rightarrow> LoudsNode \<Rightarrow> 's \<Rightarrow> (ResultType \<times> 's) option" where
  "expansion_children T visit nd s =
     (if \<not> IsValidNode (lt_louds T) nd then Some (TRAVERSE_CONTINUE, s)
      else Option.bind (visit nd s) (\<lambda>(r, s).
        if r = TRAVERSE_DONE then Some (TRAVERSE_DONE, s)
        else expansion_children T visit (MoveToNextSibling nd) s))"

fun LookupPrefixWithKeyExpansionImpl ::
  "env \<Rightarrow> SystemDictionary \<Rightarrow> ustr \<Rightarrow> KeyExpansionTable \<Rightarrow> 's Callback \<Rightarrow> u8 list \<Rightarrow> u8 list \<Rightarrow> nat \<Rightarrow> u8 list \<Rightarrow> LoudsNode \<Rightarrow> 's \<Rightarrow>
   (ResultType \<times> 's) option" where
  "LookupPrefixWithKeyExpansionImpl E d key table callback done actual num_expanded [] nd s =
     Option.bind (expansion_terminal E d key callback done actual num_expanded nd s) (\<lambda>(stop, s).
       case stop of Some r \<Rightarrow> Some (r, s) | None \<Rightarrow> Some (TRAVERSE_CONTINUE, s))"
| "LookupPrefixWithKeyExpansionImpl E d key table callback done actual num_expanded (current_char # rest) nd s =
     Option.bind (expansion_terminal E d key callback done actual num_expanded nd s) (\<lambda>(stop, s).
       case stop of
         Some r \<Rightarrow> Some (r, s)
       | None \<Rightarrow>
           Option.bind (MoveToFirstChild (lt_louds (sd_key_trie d)) nd) (\<lambda>child.
             expansion_children (sd_key_trie d) (\<lambda>nd s.
               let c = GetEdgeLabelToParentNode (sd_key_trie d) nd in
               if \<not> IsHit (ExpandKey table current_char) c then Some (TRAVERSE_CONTINUE, s)
               else if length actual > kMaxDepth then None
               else LookupPrefixWithKeyExpansionImpl E d key table callback (done @ [current_char]) (actual @ [c])
                      (if c \<noteq> current_char then num_expanded + 1 else num_expanded) rest nd s) child s))"

definition LookupPrefix :: "env \<Rightarrow> SystemDictionary \<Rightarrow> ustr \<Rightarrow> 's Callback \<Rightarrow> 's \<Rightarrow> 's option" where
  "LookupPrefix E d key callback s =
     (let encoded_key = key_word key in
      if \<not> IsKanaModifierInsensitiveConversion callback
      then each_prefix E d key encoded_key callback (\<lambda>ti. True) [] encoded_key root_node s
      else map_option snd (LookupPrefixWithKeyExpansionImpl E d key hiragana_expansion_table callback [] [] 0 encoded_key root_node s))"

subsection \<open>What the iterator delivers\<close>

definition stored_token :: "TokenInfo \<Rightarrow> Token" where
  "stored_token ti = (ti_token ti)\<lparr>tk_cost := decoded_cost ti,
     tk_attributes := (if spelling_flag ti \<noteq> 0 then SPELLING_CORRECTION else 0)\<rparr>"

text \<open>The tokens of a key, ready to be encoded, agree with what the reader knows.\<close>

definition fits :: "env \<Rightarrow> SystemDictionary \<Rightarrow> ustr \<Rightarrow> TokenInfo list \<Rightarrow> bool" where
  "fits E d key T \<longleftrightarrow> (\<forall>i < length T. let ti = T ! i; t = ti_token ti; p = ti_token (T ! (i - 1)) in
     info_ok ti \<and> tk_key t = key \<and>
     (ti_pos_type ti = FREQUENT_POS \<longrightarrow> sd_frequent_pos d ! nat (ti_id_in_frequent_pos_map ti) = GetCombinedPos (tk_lid t) (tk_rid t)) \<and>
     (ti_pos_type ti = SAME_AS_PREV_POS \<longrightarrow> 0 < i \<and> tk_lid t = tk_lid p \<and> tk_rid t = tk_rid p) \<and>
     (ti_value_type ti = DEFAULT_VALUE \<longrightarrow> LookupValue d (ti_id_in_value_trie ti) = Some (tk_value t)) \<and>
     (ti_value_type ti = SAME_AS_PREV_VALUE \<longrightarrow> 0 < i \<and> tk_value t = tk_value p) \<and>
     (ti_value_type ti = AS_IS_HIRAGANA \<longrightarrow> tk_value t = key) \<and>
     (ti_value_type ti = AS_IS_KATAKANA \<longrightarrow> tk_value t = HiraganaToKatakana E key))"

fun run_tokens :: "(TokenInfo \<Rightarrow> 's \<Rightarrow> bool \<times> 's) \<Rightarrow> TokenInfo list \<Rightarrow> 's \<Rightarrow> 's" where
  "run_tokens body [] s = s"
| "run_tokens body (ti # tis) s = (case body ti s of (cont, s') \<Rightarrow> if cont then run_tokens body tis s' else s')"

lemma GetCombinedPos_parts:
  "ucast (drop_bit 16 (GetCombinedPos l r)) = l" "ucast (GetCombinedPos l r AND 0xffff) = r"
proof -
  have m: "(0xffff :: u32) = mask 16" by (simp add: mask_eq_exp_minus_1)
  show "ucast (drop_bit 16 (GetCombinedPos l r)) = l"
    unfolding GetCombinedPos_def by (rule bit_word_eqI) (auto simp: bit_simps dest: bit_imp_le_length)
  show "ucast (GetCombinedPos l r AND 0xffff) = r"
    unfolding GetCombinedPos_def m by (rule bit_word_eqI) (auto simp: bit_simps dest: bit_imp_le_length)
qed

lemma GetCombinedPos_inj: "GetCombinedPos l r = GetCombinedPos l' r' \<longleftrightarrow> l = l' \<and> r = r'"
  by (metis GetCombinedPos_parts)

text \<open>Two infos agree if the caller of the iterator cannot tell them apart, except by the cost of the value id.\<close>

definition delivers :: "TokenInfo \<Rightarrow> TokenInfo \<Rightarrow> bool" where
  "delivers ti info \<longleftrightarrow> ti_token info = stored_token ti \<and> ti_value_type info = ti_value_type ti \<and>
     (ti_value_type ti = DEFAULT_VALUE \<longrightarrow> ti_id_in_value_trie info = ti_id_in_value_trie ti)"

definition it_at :: "env \<Rightarrow> ustr \<Rightarrow> TokenInfo list \<Rightarrow> u8 list list \<Rightarrow> u8 list \<Rightarrow> nat \<Rightarrow> TokenDecodeIterator \<Rightarrow> bool" where
  "it_at E key T parts rest n it \<longleftrightarrow> it_key it = key \<and> (it_key_katakana it = [] \<or> it_key_katakana it = HiraganaToKatakana E key) \<and>
     it_state it = (if Suc n < length T then HAS_NEXT else LAST_TOKEN) \<and> it_ptr it = concat (drop (Suc n) parts) @ rest \<and>
     delivers (T ! n) (it_token_info it)"

lemma decoded_info_parts:
  "ti_value_type (decoded_info ti t) = ti_value_type ti"
  "ti_value_type ti = DEFAULT_VALUE \<Longrightarrow> ti_id_in_value_trie (decoded_info ti t) = ti_id_in_value_trie ti"
  "ti_pos_type t = DEFAULT_POS \<Longrightarrow> ti_pos_type (decoded_info ti t) = ti_pos_type ti"
  "ti_pos_type ti = FREQUENT_POS \<Longrightarrow> ti_id_in_frequent_pos_map (decoded_info ti t) = ti_id_in_frequent_pos_map ti"
  "tk_attributes (ti_token t) = 0 \<Longrightarrow> ti_token (decoded_info ti t) = (ti_token t)\<lparr>tk_cost := decoded_cost ti,
     tk_lid := (if ti_pos_type ti = DEFAULT_POS then tk_lid (ti_token ti) else tk_lid (ti_token t)),
     tk_rid := (if ti_pos_type ti = DEFAULT_POS then tk_rid (ti_token ti) else tk_rid (ti_token t)),
     tk_attributes := (if spelling_flag ti \<noteq> 0 then SPELLING_CORRECTION else 0)\<rparr>"
  by (cases "ti_pos_type ti"; simp add: decoded_info_def decoded_value_def decoded_pos_def decoded_attributes_def Let_def)+

lemma NextInternal_correct:
  assumes T: "fits E d key T" "EncodeToken T n = Some part" "n < length T" "ptr = part @ rest"
    and it: "it_key it = key" "it_key_katakana it = [] \<or> it_key_katakana it = HiraganaToKatakana E key" "it_state it = HAS_NEXT"
      "it_ptr it = ptr" "tk_key (ti_token (it_token_info it)) = key" "0 < n \<Longrightarrow> delivers (T ! (n - 1)) (it_token_info it)"
    and key: "key \<noteq> []"
  obtains it' where "NextInternal E d it = Some it'" "it_key it' = key"
    "it_key_katakana it' = [] \<or> it_key_katakana it' = HiraganaToKatakana E key"
    "it_state it' = (if Suc n < length T then HAS_NEXT else LAST_TOKEN)" "it_ptr it' = rest" "delivers (T ! n) (it_token_info it')"
proof -
  let ?ti = "T ! n" and ?p = "ti_token (T ! (n - 1))"
  define info0 where "info0 = NewTokenInfo ((ti_token (it_token_info it))\<lparr>tk_attributes := 0\<rparr>)"
  define info where "info = decoded_info ?ti info0"
  define it1 where "it1 = it\<lparr>it_state := (if Suc n < length T then HAS_NEXT else LAST_TOKEN), it_ptr := rest, it_token_info := info\<rparr>"
  have f: "info_ok ?ti" "tk_key (ti_token ?ti) = key"
    "ti_pos_type ?ti = FREQUENT_POS \<Longrightarrow> sd_frequent_pos d ! nat (ti_id_in_frequent_pos_map ?ti) = GetCombinedPos (tk_lid (ti_token ?ti)) (tk_rid (ti_token ?ti))"
    "ti_pos_type ?ti = SAME_AS_PREV_POS \<Longrightarrow> 0 < n \<and> tk_lid (ti_token ?ti) = tk_lid ?p \<and> tk_rid (ti_token ?ti) = tk_rid ?p"
    "ti_value_type ?ti = DEFAULT_VALUE \<Longrightarrow> LookupValue d (ti_id_in_value_trie ?ti) = Some (tk_value (ti_token ?ti))"
    "ti_value_type ?ti = SAME_AS_PREV_VALUE \<Longrightarrow> 0 < n \<and> tk_value (ti_token ?ti) = tk_value ?p"
    "ti_value_type ?ti = AS_IS_HIRAGANA \<Longrightarrow> tk_value (ti_token ?ti) = key"
    "ti_value_type ?ti = AS_IS_KATAKANA \<Longrightarrow> tk_value (ti_token ?ti) = HiraganaToKatakana E key"
    using T(1,3) unfolding fits_def Let_def by blast+
  have "DecodeToken ptr info0 = (Suc n < length T, info, length part)"
    using DecodeToken_EncodeToken [OF T(2) f(1), of rest info0] T(4) last_flag_iff [OF T(3)] by (simp add: info_def)
  then have N: "NextInternal E d it = map_option (fill_pos d) (fill_value E d (ti_id_in_value_trie (it_token_info it)) it1)"
    using it(3,4) T(4) unfolding NextInternal_def Let_def info0_def [symmetric] by (simp add: it1_def)
  have i0: "ti_pos_type info0 = DEFAULT_POS" "tk_attributes (ti_token info0) = 0" "tk_key (ti_token info0) = key"
    "tk_value (ti_token info0) = tk_value (ti_token (it_token_info it))"
    "tk_lid (ti_token info0) = tk_lid (ti_token (it_token_info it))" "tk_rid (ti_token info0) = tk_rid (ti_token (it_token_info it))"
    using it(5) by (simp_all add: info0_def NewTokenInfo_def)
  have prev: "tk_value (ti_token info0) = tk_value ?p \<and> tk_lid (ti_token info0) = tk_lid ?p \<and> tk_rid (ti_token info0) = tk_rid ?p" if "0 < n"
    using it(6) [OF that] by (simp add: i0 delivers_def stored_token_def)
  note dp = decoded_info_parts [where ti = "T ! n" and t = info0, folded info_def]
  let ?kat = "if ti_value_type ?ti = AS_IS_KATAKANA then HiraganaToKatakana E key else it_key_katakana it"
  obtain info2 where v: "fill_value E d (ti_id_in_value_trie (it_token_info it)) it1 =
      Some (it1\<lparr>it_key_katakana := ?kat, it_token_info := info2\<rparr>)"
    and i2: "ti_token info2 = (ti_token info)\<lparr>tk_value := tk_value (ti_token ?ti)\<rparr>" "ti_value_type info2 = ti_value_type ?ti"
      "ti_pos_type info2 = ti_pos_type ?ti" "ti_id_in_frequent_pos_map info2 = ti_id_in_frequent_pos_map info"
      "ti_value_type ?ti = DEFAULT_VALUE \<longrightarrow> ti_id_in_value_trie info2 = ti_id_in_value_trie ?ti"
  proof (cases "ti_value_type ?ti")
    case DEFAULT_VALUE
    then show thesis using f(5) dp i0
      by (intro that [of "info\<lparr>ti_token := (ti_token info)\<lparr>tk_value := tk_value (ti_token ?ti)\<rparr>\<rparr>"])
        (simp_all add: fill_value_def it1_def Let_def)
  next
    case SAME_AS_PREV_VALUE
    then have "tk_value (ti_token info) = tk_value (ti_token ?ti)" using f(6) prev dp(5) i0 by simp
    then have "ti_token info = (ti_token info)\<lparr>tk_value := tk_value (ti_token ?ti)\<rparr>" by simp
    then show thesis using SAME_AS_PREV_VALUE dp i0
      by (intro that [of "info\<lparr>ti_id_in_value_trie := ti_id_in_value_trie (it_token_info it)\<rparr>"])
        (simp_all add: fill_value_def it1_def Let_def)
  next
    case AS_IS_HIRAGANA
    then show thesis using f(7) dp i0
      by (intro that [of "info\<lparr>ti_token := (ti_token info)\<lparr>tk_value := tk_value (ti_token ?ti)\<rparr>\<rparr>"])
        (simp_all add: fill_value_def it1_def Let_def)
  next
    case AS_IS_KATAKANA
    have kat: "(if it_key it1 \<noteq> [] \<and> it_key_katakana it1 = [] then HiraganaToKatakana E (it_key it1) else it_key_katakana it1) = HiraganaToKatakana E key"
      using it(1,2) key by (auto simp: it1_def)
    have i1: "it_token_info it1 = info" by (simp add: it1_def)
    have "fill_value E d (ti_id_in_value_trie (it_token_info it)) it1 = Some (it1\<lparr>it_key_katakana := HiraganaToKatakana E key,
        it_token_info := info\<lparr>ti_token := (ti_token info)\<lparr>tk_value := HiraganaToKatakana E key\<rparr>\<rparr>\<rparr>)"
      unfolding fill_value_def Let_def i1 dp(1) AS_IS_KATAKANA kat by simp
    then show thesis using AS_IS_KATAKANA f(8) dp i0
      by (intro that [of "info\<lparr>ti_token := (ti_token info)\<lparr>tk_value := tk_value (ti_token ?ti)\<rparr>\<rparr>"]) simp_all
  qed
  define it2 where "it2 = it1\<lparr>it_key_katakana := ?kat, it_token_info := info2\<rparr>"
  have tok: "ti_token info2 = (stored_token ?ti)\<lparr>tk_lid := (if ti_pos_type ?ti = DEFAULT_POS then tk_lid (ti_token ?ti) else tk_lid (ti_token info0)),
      tk_rid := (if ti_pos_type ?ti = DEFAULT_POS then tk_rid (ti_token ?ti) else tk_rid (ti_token info0))\<rparr>"
    unfolding i2(1) dp(5) [OF i0(2)] stored_token_def by (rule Token.equality) (simp_all add: i0 f(2))
  have "delivers ?ti (it_token_info (fill_pos d it2))"
  proof (cases "ti_pos_type ?ti")
    case DEFAULT_POS
    have "ti_token info2 = stored_token ?ti"
      unfolding tok by (rule Token.equality) (simp_all add: stored_token_def DEFAULT_POS)
    then show ?thesis using i2(2-5) DEFAULT_POS by (simp add: fill_pos_def it2_def delivers_def Let_def)
  next
    case FREQUENT_POS
    then have id: "ti_id_in_frequent_pos_map info2 = ti_id_in_frequent_pos_map ?ti" using i2(4) dp(4) by simp
    have "(ti_token info2)\<lparr>tk_lid := tk_lid (ti_token ?ti), tk_rid := tk_rid (ti_token ?ti)\<rparr> = stored_token ?ti"
      unfolding tok by (rule Token.equality) (simp_all add: stored_token_def)
    then show ?thesis using i2(2,3,5) FREQUENT_POS
      by (simp add: fill_pos_def it2_def delivers_def Let_def id f(3) [OF FREQUENT_POS] GetCombinedPos_parts)
  next
    case SAME_AS_PREV_POS
    have "ti_token info2 = stored_token ?ti"
      unfolding tok using prev f(4) [OF SAME_AS_PREV_POS] by (intro Token.equality) (simp_all add: stored_token_def SAME_AS_PREV_POS)
    then show ?thesis using i2(2-5) SAME_AS_PREV_POS by (simp add: fill_pos_def it2_def delivers_def Let_def)
  qed
  moreover have "it_key (fill_pos d it2) = it_key it2" "it_key_katakana (fill_pos d it2) = it_key_katakana it2"
    "it_state (fill_pos d it2) = it_state it2" "it_ptr (fill_pos d it2) = it_ptr it2"
    by (simp_all add: fill_pos_def Let_def)
  ultimately show thesis using it(1,2) N v
    by (intro that [of "fill_pos d it2"]) (simp_all add: it2_def it1_def)
qed

lemma token_loop_correct:
  assumes T: "fits E d key T" "key \<noteq> []" "\<And>i. i < length T \<Longrightarrow> EncodeToken T i = Some (parts ! i)" "length parts = length T"
    and it: "n < length T" "it_at E key T parts rest n it"
  shows "\<exists>infos. list_all2 delivers (drop n T) infos \<and> (\<forall>(body :: TokenInfo \<Rightarrow> 's \<Rightarrow> bool \<times> 's) s. token_loop E d body it s = Some (run_tokens body infos s))"
  using it
proof (induction "length T - Suc n" arbitrary: n it)
  case 0
  then have n: "\<not> Suc n < length T" by simp
  let ?info = "it_token_info it"
  have st: "it_state it = LAST_TOKEN" "delivers (T ! n) ?info" using 0(3) n by (simp_all add: it_at_def)
  have "token_loop E d body (it\<lparr>it_state := DONE\<rparr>) s = Some s" for body :: "TokenInfo \<Rightarrow> 's \<Rightarrow> bool \<times> 's" and s
    by (subst token_loop.simps) simp
  then have "token_loop E d body it s = Some (run_tokens body [?info] s)" for body :: "TokenInfo \<Rightarrow> 's \<Rightarrow> bool \<times> 's" and s
    by (subst token_loop.simps) (simp add: st Iterator_Next_def split: prod.split)
  moreover have "drop n T = [T ! n]" using Cons_nth_drop_Suc [OF 0(2)] n by simp
  ultimately show ?case using st(2) by (intro exI [of _ "[?info]"]) simp
next
  case (Suc k)
  then have n: "Suc n < length T" by simp
  let ?info = "it_token_info it"
  have st: "it_key it = key" "it_key_katakana it = [] \<or> it_key_katakana it = HiraganaToKatakana E key" "it_state it = HAS_NEXT"
    "it_ptr it = concat (drop (Suc n) parts) @ rest" "delivers (T ! n) ?info"
    using Suc.prems(2) n by (simp_all add: it_at_def)
  have d: "drop (Suc n) parts = parts ! Suc n # drop (Suc (Suc n)) parts" using Cons_nth_drop_Suc [of "Suc n" parts] n T(4) by simp
  have "tk_key (ti_token ?info) = key"
    using st(5) T(1) n unfolding fits_def delivers_def by (simp add: Let_def stored_token_def)
  from NextInternal_correct [OF T(1) T(3) [OF n] n _ st(1-4) this _ T(2), of "concat (drop (Suc (Suc n)) parts) @ rest"]
  obtain it' where it': "NextInternal E d it = Some it'" "it_at E key T parts rest (Suc n) it'"
    using st(5) by (auto simp: d it_at_def)
  have k: "k = length T - Suc (Suc n)" using Suc.hyps(2) by simp
  obtain infos where infos: "list_all2 delivers (drop (Suc n) T) infos" "\<forall>(body :: TokenInfo \<Rightarrow> 's \<Rightarrow> bool \<times> 's) s. token_loop E d body it' s = Some (run_tokens body infos s)"
    using Suc.hyps(1) [OF k n it'(2)] by blast
  have "token_loop E d body it s = Some (run_tokens body (?info # infos) s)" for body :: "TokenInfo \<Rightarrow> 's \<Rightarrow> bool \<times> 's" and s
    by (subst token_loop.simps) (simp add: st(3) Iterator_Next_def it'(1) infos(2) split: prod.split)
  moreover have "drop n T = T ! n # drop (Suc n) T" using Cons_nth_drop_Suc [of n T] n by simp
  ultimately show ?case using st(5) infos(1) by (intro exI [of _ "?info # infos"]) simp
qed

lemma for_tokens_correct:
  assumes T: "fits E d key T" "key \<noteq> []" "T \<noteq> []" "EncodeTokens T = Some bs" and p: "GetTokenArrayPtr d kid = Some (bs @ rest)"
  obtains infos where "list_all2 delivers T infos" "\<And>(body :: TokenInfo \<Rightarrow> 's \<Rightarrow> bool \<times> 's) s. for_tokens E d key kid body s = Some (run_tokens body infos s)"
proof -
  obtain parts where parts: "bs = concat parts" "length parts = length T" "\<And>i. i < length T \<Longrightarrow> EncodeToken T i = Some (parts ! i)"
    by (rule EncodeTokens_parts [OF T(4)]) blast
  have n: "0 < length T" using T(3) by simp
  have d: "parts = parts ! 0 # drop (Suc 0) parts" using Cons_nth_drop_Suc [of 0 parts] n parts(2) by simp
  have "bs @ rest = parts ! 0 @ concat (drop (Suc 0) parts) @ rest" by (subst parts(1), subst d) simp
  from NextInternal_correct [OF T(1) parts(3) [OF n] n this, of "\<lparr>it_key = key, it_key_katakana = [], it_state = HAS_NEXT, it_ptr = bs @ rest,
      it_token_info = NewTokenInfo (NewToken\<lparr>tk_key := key\<rparr>)\<rparr>"] T(2)
  obtain it where it: "NewTokenDecodeIterator E d key (bs @ rest) = Some it" "it_at E key T parts rest 0 it"
    by (auto simp: NewTokenDecodeIterator_def NewTokenInfo_def it_at_def)
  from token_loop_correct [OF T(1,2) parts(3,2) n it(2)]
  obtain infos where "list_all2 delivers T infos" "\<forall>(body :: TokenInfo \<Rightarrow> 's \<Rightarrow> bool \<times> 's) s. token_loop E d body it s = Some (run_tokens body infos s)" by auto
  then show thesis using p it(1) by (intro that [of infos]) (simp_all add: for_tokens_def)
qed

subsection \<open>When the tokens can be encoded\<close>

definition encodable :: "TokenInfo list \<Rightarrow> bool" where
  "encodable T \<longleftrightarrow> T \<noteq> [] \<and> (\<forall>i < length T. let ti = T ! i; t = ti_token ti in
     tk_lid t \<le> kPosMax \<and> tk_rid t \<le> kPosMax \<and> tk_cost t \<le> kCostMax \<and>
     (ti_pos_type ti = FREQUENT_POS \<longrightarrow> 0 \<le> ti_id_in_frequent_pos_map ti) \<and>
     (ti_pos_type ti = SAME_AS_PREV_POS \<longrightarrow> 0 < i) \<and>
     (ti_value_type ti = DEFAULT_VALUE \<longrightarrow> 0 \<le> ti_id_in_value_trie ti \<and> ti_id_in_value_trie ti < 0x3f0000) \<and>
     (ti_value_type ti = SAME_AS_PREV_VALUE \<longrightarrow> 0 < i))"

lemma flag_parts:
  fixes L S P V :: u8
  assumes "L = 0 \<or> L = 0x80" "S = 0 \<or> S = 0x10" "P = 0 \<or> P = 4 \<or> P = 8 \<or> P = 0x0c" "V = 0 \<or> V = 1 \<or> V = 2 \<or> V = 3"
  shows "((L OR S) OR P) AND kPosTypeFlagMask = P" "(((L OR S) OR P) OR V) AND kValueTypeFlagMask = V"
  using assms by (elim disjE; simp add: flag_consts)+

lemma GetFlagsForToken_exists:
  assumes "tk_lid (ti_token (T ! i)) \<le> kPosMax" "tk_rid (ti_token (T ! i)) \<le> kPosMax"
    and "ti_pos_type (T ! i) = SAME_AS_PREV_POS \<longrightarrow> 0 < i" "ti_value_type (T ! i) = SAME_AS_PREV_VALUE \<longrightarrow> 0 < i"
  shows "\<exists>f. GetFlagsForToken T i = Some f"
proof -
  let ?L = "last_flag T i" and ?S = "spelling_flag (T ! i)" and ?P = "pos_flag (T ! i)" and ?V = "value_flag (T ! i)"
  let ?l = "if i = length T - 1 then kLastTokenFlag else 0"
  have s: "(if tk_attributes (ti_token (T ! i)) AND SPELLING_CORRECTION \<noteq> 0 then ?l OR kSpellingCorrectionFlag else ?l) = ?L OR ?S"
    by (simp add: last_flag_def spelling_flag_def flag_consts)
  have p: "GetFlagForPos (T ! i) = Some ?P" using assms(1,2) by (simp add: GetFlagForPos_Some)
  have LS: "?L = 0 \<or> ?L = 0x80" "?S = 0 \<or> ?S = 0x10" by (simp_all add: last_flag_def spelling_flag_def)
  note fp = flag_parts [OF LS flag_values(1) [of "T ! i"] flag_values(2) [of "T ! i"]]
  have "i = 0 \<Longrightarrow> ?P \<noteq> kSameAsPrevPosFlag" using assms(3) by (auto simp: pos_flag_def flag_consts)
  moreover have "i = 0 \<Longrightarrow> ?V \<noteq> kSameAsPrevValueFlag" using assms(4) by (auto simp: value_flag_def flag_consts split: ValueType.splits)
  ultimately show ?thesis
    unfolding GetFlagsForToken_def Let_def s p bind.bind_lunit GetFlagForValue_eq fp by auto
qed

lemma EncodeValueInfo_exists:
  assumes "ti_value_type ti = DEFAULT_VALUE \<longrightarrow> 0 \<le> ti_id_in_value_trie ti \<and> ti_id_in_value_trie ti < 0x3f0000"
    and "f AND kValueTypeFlagMask = value_flag ti"
  shows "\<exists>upper vid. EncodeValueInfo ti f = Some (upper, vid) \<and> length vid \<le> 3 \<and> (upper AND kUpperCrammedIDMask \<noteq> kUpperCrammedIDMask)"
proof (cases "ti_value_type ti = DEFAULT_VALUE")
  case True
  define w where "w = (word_of_int (ti_id_in_value_trie ti) :: u32)"
  have u: "uint w = ti_id_in_value_trie ti" using assms(1) True by (simp add: w_def uint_word_of_int_eq take_bit_int_eq_self)
  then have nl: "\<not> kValueTrieIdMax < w" using assms(1) True by (simp add: word_less_def kValueTrieIdMax_def)
  have "ucast (drop_bit 16 w) AND kUpperCrammedIDMask \<noteq> kUpperCrammedIDMask"
  proof
    assume a: "ucast (drop_bit 16 w) AND kUpperCrammedIDMask = kUpperCrammedIDMask"
    have "uint (ucast (drop_bit 16 w) AND mask 6 :: u8) = take_bit 6 (drop_bit 16 (uint w))"
      by (simp flip: take_bit_eq_mask add: unsigned_take_bit_eq unsigned_ucast_eq unsigned_drop_bit_eq drop_bit_take_bit take_bit_take_bit)
    moreover have "(mask 6 :: u8) = kUpperCrammedIDMask" by (simp add: kUpperCrammedIDMask_def mask_eq_exp_minus_1)
    ultimately have "take_bit 6 (drop_bit 16 (uint w)) = 63" using a by (simp add: kUpperCrammedIDMask_def)
    moreover have "drop_bit 16 (uint w) < 63" "0 \<le> drop_bit 16 (uint w)" using assms(1) True u by (auto simp: drop_bit_eq_div)
    ultimately show False by (simp add: take_bit_int_eq_self)
  qed
  moreover have "value_flag ti = 0" using True by (simp add: value_flag_def)
  ultimately show ?thesis using nl assms(2)
    by (auto simp: EncodeValueInfo_def kNormalValueFlag_def Let_def w_def [symmetric] and.assoc kUpperCrammedIDMask_def)
next
  case False
  then have "value_flag ti \<noteq> 0" by (cases "ti_value_type ti") (simp_all add: value_flag_def)
  then show ?thesis using assms(2) by (simp add: EncodeValueInfo_def kNormalValueFlag_def kUpperCrammedIDMask_def)
qed

lemma EncodePos_exists:
  assumes "ti_pos_type ti = FREQUENT_POS \<longrightarrow> 0 \<le> ti_id_in_frequent_pos_map ti" "f AND kPosTypeFlagMask = pos_flag ti"
  shows "\<exists>pos. EncodePos ti f = Some pos \<and> length pos \<le> 3"
proof -
  have "pos_flag ti = kFrequentPosFlag \<Longrightarrow> ti_pos_type ti = FREQUENT_POS"
    by (simp add: pos_flag_def kFrequentPosFlag_def split: if_splits)
  moreover have "pos_flag ti = kFullPosFlag \<or> pos_flag ti = kMonoPosFlag \<or> pos_flag ti = kFrequentPosFlag \<or> pos_flag ti = kSameAsPrevPosFlag"
    using flag_values(1) [of ti] by (auto simp: flag_consts)
  ultimately show ?thesis using assms unfolding EncodePos_def Let_def assms(2) by auto
qed

lemma EncodeCost_exists: "tk_cost (ti_token ti) \<le> kCostMax \<Longrightarrow> \<exists>cost. EncodeCost ti = Some cost \<and> length cost \<le> 2"
  by (auto simp: EncodeCost_def Let_def)

lemma EncodeToken_exists:
  assumes "encodable T" "i < length T"
  shows "\<exists>b bs. EncodeToken T i = Some (b # bs) \<and> length bs \<le> 8 \<and> b \<noteq> kTokenTerminationFlag"
proof -
  let ?ti = "T ! i"
  have e: "tk_lid (ti_token ?ti) \<le> kPosMax" "tk_rid (ti_token ?ti) \<le> kPosMax" "tk_cost (ti_token ?ti) \<le> kCostMax"
    "ti_pos_type ?ti = FREQUENT_POS \<longrightarrow> 0 \<le> ti_id_in_frequent_pos_map ?ti"
    "ti_pos_type ?ti = SAME_AS_PREV_POS \<longrightarrow> 0 < i"
    "ti_value_type ?ti = DEFAULT_VALUE \<longrightarrow> 0 \<le> ti_id_in_value_trie ?ti \<and> ti_id_in_value_trie ?ti < 0x3f0000"
    "ti_value_type ?ti = SAME_AS_PREV_VALUE \<longrightarrow> 0 < i"
    using assms unfolding encodable_def Let_def by blast+
  obtain f where f: "GetFlagsForToken T i = Some f" using GetFlagsForToken_exists [OF e(1,2,5,7)] by blast
  define f' where "f' = (if base_flags T i AND kUpperCrammedIDMask = 0 then kCrammedIDFlag else 0 :: u8)"
  have fb: "f = base_flags T i OR f'" using GetFlagsForToken_Some(1) [OF f] by (simp add: f'_def)
  have m: "f' AND kPosTypeFlagMask = 0" "f' AND kValueTypeFlagMask = 0" by (simp_all add: f'_def flag_consts)
  have LS: "last_flag T i = 0 \<or> last_flag T i = 0x80" "spelling_flag ?ti = 0 \<or> spelling_flag ?ti = 0x10"
    by (simp_all add: last_flag_def spelling_flag_def)
  note fp = flag_parts [OF LS flag_values(1) [of ?ti] flag_values(2) [of ?ti]]
  have vm: "value_flag ?ti AND kPosTypeFlagMask = 0" using flag_values(2) [of ?ti] by (auto simp: flag_consts)
  have P: "f AND kPosTypeFlagMask = pos_flag ?ti" "f AND kValueTypeFlagMask = value_flag ?ti"
    using fp m vm unfolding fb base_flags_def by (simp_all only: bit.conj_disj_distrib2 or.assoc or.right_neutral)
  obtain pos where pos: "EncodePos ?ti f = Some pos" "length pos \<le> 3" using EncodePos_exists [OF e(4) P(1)] by blast
  obtain cost where cost: "EncodeCost ?ti = Some cost" "length cost \<le> 2" using EncodeCost_exists [OF e(3)] by blast
  obtain upper vid where v: "EncodeValueInfo ?ti f = Some (upper, vid)" "length vid \<le> 3"
    "upper AND kUpperCrammedIDMask \<noteq> kUpperCrammedIDMask"
    using EncodeValueInfo_exists [OF e(6) P(2)] by blast
  note F = flags_read(7,8) [OF f v(1)]
  have "f OR upper \<noteq> kTokenTerminationFlag"
  proof
    assume a: "f OR upper = kTokenTerminationFlag"
    have "ReadFlags (f OR upper) AND kCrammedIDFlag \<noteq> 0" unfolding a by (simp add: ReadFlags_def flag_consts)
    then have "(f OR upper) AND kUpperCrammedIDMask = upper AND kUpperCrammedIDMask" using F by blast
    then show False using v(3) unfolding a by (simp add: flag_consts)
  qed
  then show ?thesis using assms(2) f pos cost v by (simp add: EncodeToken_def Let_def)
qed

lemma EncodeTokens_exists:
  assumes "encodable T"
  shows "\<exists>bs. EncodeTokens T = Some bs \<and> length bs \<le> 9 * length T"
proof -
  define g where "g i = the (EncodeToken T i)" for i
  have g: "EncodeToken T i = Some (g i)" "length (g i) \<le> 9" "g i \<noteq> []" "hd (g i) \<noteq> kTokenTerminationFlag" if "i < length T" for i
    using EncodeToken_exists [OF assms that] by (auto simp: g_def)
  have t: "those (map (EncodeToken T) [0..<length T]) = Some (map g [0..<length T])"
    by (rule those_map_exists) (use g(1) in simp)
  have n: "0 < length T" using assms by (simp add: encodable_def)
  then have h: "concat (map g [0..<length T]) = hd (g 0) # tl (g 0) @ concat (map g [1..<length T])"
    using g(3) [OF n] by (subst upt_conv_Cons) simp_all
  have "length (concat (map g [0..<k])) \<le> 9 * k" if "k \<le> length T" for k
    using that
  proof (induction k)
    case (Suc k)
    then show ?case using g(2) [of k] by simp
  qed simp
  then have "length (concat (map g [0..<length T])) \<le> 9 * length T" by simp
  then show ?thesis using t h g(4) [OF n] by (auto simp: EncodeTokens_def Let_def)
qed

subsection \<open>The tokens of one key after all passes\<close>

definition cost_pass :: "bool \<Rightarrow> TokenInfo list \<Rightarrow> TokenInfo list" where
  "cost_pass b T = map (\<lambda>ti. if b \<and> \<not> tk_cost (ti_token ti) < 0x100 then ti\<lparr>ti_cost_type := CAN_USE_SMALL_ENCODING\<rparr> else ti) T"

definition finish_tokens :: "(u32 \<times> nat) list \<Rightarrow> bool \<Rightarrow> TokenInfo list \<Rightarrow> TokenInfo list" where
  "finish_tokens fp b T =
     (let T3 = cost_pass b T; T4 = map (pos_type_at fp T3) [0..<length T3] in map (value_type_at T4) [0..<length T4])"

lemma length_finish_tokens [simp]: "length (finish_tokens fp b T) = length T"
  by (simp add: finish_tokens_def cost_pass_def Let_def)

lemma cost_pass_nth:
  assumes "i < length T"
  shows "ti_token (cost_pass b T ! i) = ti_token (T ! i)" "ti_value_type (cost_pass b T ! i) = ti_value_type (T ! i)"
    "ti_pos_type (cost_pass b T ! i) = ti_pos_type (T ! i)" "ti_id_in_value_trie (cost_pass b T ! i) = ti_id_in_value_trie (T ! i)"
    "ti_id_in_frequent_pos_map (cost_pass b T ! i) = ti_id_in_frequent_pos_map (T ! i)" "length (cost_pass b T) = length T"
    "ti_cost_type (cost_pass b T ! i) = (if b \<and> \<not> tk_cost (ti_token (T ! i)) < 0x100 then CAN_USE_SMALL_ENCODING else ti_cost_type (T ! i))"
  using assms by (simp_all add: cost_pass_def)

lemma pos_type_at_parts:
  "ti_token (pos_type_at fp T i) = ti_token (T ! i)" "ti_value_type (pos_type_at fp T i) = ti_value_type (T ! i)"
  "ti_id_in_value_trie (pos_type_at fp T i) = ti_id_in_value_trie (T ! i)" "ti_cost_type (pos_type_at fp T i) = ti_cost_type (T ! i)"
  "ti_pos_type (pos_type_at fp T i) = (if i \<ge> 1 \<and> token_pos (T ! (i - 1)) = token_pos (T ! i) then SAME_AS_PREV_POS
     else if map_of fp (token_pos (T ! i)) = None then ti_pos_type (T ! i) else FREQUENT_POS)"
  "ti_id_in_frequent_pos_map (pos_type_at fp T i) = (case map_of fp (token_pos (T ! i)) of Some pid \<Rightarrow> int pid | None \<Rightarrow> ti_id_in_frequent_pos_map (T ! i))"
  by (simp_all add: pos_type_at_def Let_def split: option.splits)

lemma value_type_at_parts:
  "ti_token (value_type_at T i) = ti_token (T ! i)" "ti_pos_type (value_type_at T i) = ti_pos_type (T ! i)"
  "ti_id_in_value_trie (value_type_at T i) = ti_id_in_value_trie (T ! i)" "ti_cost_type (value_type_at T i) = ti_cost_type (T ! i)"
  "ti_id_in_frequent_pos_map (value_type_at T i) = ti_id_in_frequent_pos_map (T ! i)"
  "ti_value_type (value_type_at T i) = (if i \<ge> 1 \<and> \<not> as_is (T ! i) \<and> tk_value (ti_token (T ! i)) = tk_value (ti_token (T ! (i - 1)))
     then SAME_AS_PREV_VALUE else ti_value_type (T ! i))"
  by (simp_all add: value_type_at_def Let_def)

lemma finish_nth:
  fixes fp b T i
  assumes i: "i < length T"
  defines "F \<equiv> finish_tokens fp b T ! i" and "ti \<equiv> T ! i"
  shows "ti_token F = ti_token ti" "ti_id_in_value_trie F = ti_id_in_value_trie ti"
    "ti_cost_type F = (if b \<and> \<not> tk_cost (ti_token ti) < 0x100 then CAN_USE_SMALL_ENCODING else ti_cost_type ti)"
    "ti_pos_type F = (if i \<ge> 1 \<and> token_pos (T ! (i - 1)) = token_pos ti then SAME_AS_PREV_POS
       else if map_of fp (token_pos ti) = None then ti_pos_type ti else FREQUENT_POS)"
    "ti_id_in_frequent_pos_map F = (case map_of fp (token_pos ti) of Some pid \<Rightarrow> int pid | None \<Rightarrow> ti_id_in_frequent_pos_map ti)"
    "ti_value_type F = (if i \<ge> 1 \<and> \<not> as_is ti \<and> tk_value (ti_token ti) = tk_value (ti_token (T ! (i - 1)))
       then SAME_AS_PREV_VALUE else ti_value_type ti)"
proof -
  let ?T3 = "cost_pass b T"
  let ?T4 = "map (pos_type_at fp ?T3) [0..<length ?T3]"
  have l: "length ?T3 = length T" by (simp add: cost_pass_def)
  have F: "F = value_type_at ?T4 i" unfolding F_def finish_tokens_def Let_def using i l by simp
  have n4: "?T4 ! j = pos_type_at fp ?T3 j" if "j < length T" for j using that l by simp
  have i': "i - 1 < length T" using i by simp
  have tp: "token_pos (?T3 ! j) = token_pos (T ! j)" if "j < length T" for j
    using cost_pass_nth(1) [OF that] by (simp add: token_pos_def)
  note 1 = value_type_at_parts [where T = ?T4 and i = i, folded F, unfolded n4 [OF i] n4 [OF i']]
  note 2 = pos_type_at_parts [where fp = fp and T = ?T3 and i = i, unfolded cost_pass_nth [OF i] tp [OF i] tp [OF i']]
  show "ti_token F = ti_token ti" "ti_id_in_value_trie F = ti_id_in_value_trie ti"
    "ti_cost_type F = (if b \<and> \<not> tk_cost (ti_token ti) < 0x100 then CAN_USE_SMALL_ENCODING else ti_cost_type ti)"
    "ti_pos_type F = (if i \<ge> 1 \<and> token_pos (T ! (i - 1)) = token_pos ti then SAME_AS_PREV_POS
       else if map_of fp (token_pos ti) = None then ti_pos_type ti else FREQUENT_POS)"
    "ti_id_in_frequent_pos_map F = (case map_of fp (token_pos ti) of Some pid \<Rightarrow> int pid | None \<Rightarrow> ti_id_in_frequent_pos_map ti)"
    unfolding ti_def 1 2 by simp_all
  show "ti_value_type F = (if i \<ge> 1 \<and> \<not> as_is ti \<and> tk_value (ti_token ti) = tk_value (ti_token (T ! (i - 1)))
       then SAME_AS_PREV_VALUE else ti_value_type ti)"
    unfolding ti_def 1 2 as_is_def pos_type_at_parts(1,2) cost_pass_nth [OF i] cost_pass_nth(1) [OF i'] by simp
qed

text \<open>What the tokens that the builder starts from, with their value ids, have to fulfil.\<close>

definition source_info :: "env \<Rightarrow> SystemDictionary \<Rightarrow> ustr \<Rightarrow> TokenInfo \<Rightarrow> bool" where
  "source_info E d key ti \<longleftrightarrow> (let t = ti_token ti in
     tk_key t = key \<and> 0 \<le> tk_cost t \<and> tk_cost t \<le> kCostMax \<and> tk_lid t \<le> kPosMax \<and> tk_rid t \<le> kPosMax \<and>
     ti_value_type ti = GetValueType E t \<and> ti_pos_type ti = DEFAULT_POS \<and> ti_cost_type ti = DEFAULT_COST \<and>
     ti_id_in_frequent_pos_map ti = -1 \<and>
     (ti_value_type ti = DEFAULT_VALUE \<longrightarrow> 0 \<le> ti_id_in_value_trie ti \<and> ti_id_in_value_trie ti < 0x3f0000 \<and>
        LookupValue d (ti_id_in_value_trie ti) = Some (tk_value t)))"

lemma finish_fits:
  assumes src: "\<And>ti. ti \<in> set T \<Longrightarrow> source_info E d key ti"
    and d: "sd_frequent_pos d = frequent_pos_array fp"
    and fp: "\<And>p i. map_of fp p = Some i \<Longrightarrow> i < 256 \<and> frequent_pos_array fp ! i = p"
  shows "fits E d key (finish_tokens fp b T)"
  unfolding fits_def Let_def length_finish_tokens
proof (intro allI impI)
  fix i assume i: "i < length T"
  let ?ti = "T ! i" and ?F = "finish_tokens fp b T ! i"
  have i1: "i - 1 < length T" using i by simp
  note F = finish_nth [OF i, of fp b] and P = finish_nth(1) [OF i1, of fp b]
  note s = src [OF nth_mem [OF i], unfolded source_info_def Let_def]
  have freq: "i' < 256 \<and> sd_frequent_pos d ! i' = GetCombinedPos (tk_lid (ti_token ?ti)) (tk_rid (ti_token ?ti))"
    if "map_of fp (token_pos ?ti) = Some i'" for i' using fp [OF that] by (simp add: d token_pos_def)
  have prev: "tk_lid (ti_token ?ti) = tk_lid (ti_token (T ! (i - 1))) \<and> tk_rid (ti_token ?ti) = tk_rid (ti_token (T ! (i - 1)))"
    if "token_pos (T ! (i - 1)) = token_pos ?ti" using that by (simp add: token_pos_def GetCombinedPos_inj)
  have "info_ok ?F"
    unfolding info_ok_def F using s freq by (auto split: option.split)
  moreover have "tk_key (ti_token ?F) = key" using s F(1) by simp
  moreover have "ti_pos_type ?F = FREQUENT_POS \<longrightarrow>
      sd_frequent_pos d ! nat (ti_id_in_frequent_pos_map ?F) = GetCombinedPos (tk_lid (ti_token ?F)) (tk_rid (ti_token ?F))"
    unfolding F using s freq by (auto split: option.split)
  moreover have "ti_pos_type ?F = SAME_AS_PREV_POS \<longrightarrow> 0 < i \<and>
      tk_lid (ti_token ?F) = tk_lid (ti_token (finish_tokens fp b T ! (i - 1))) \<and>
      tk_rid (ti_token ?F) = tk_rid (ti_token (finish_tokens fp b T ! (i - 1)))"
    unfolding F P using s prev by auto
  moreover have "ti_value_type ?F = DEFAULT_VALUE \<longrightarrow> LookupValue d (ti_id_in_value_trie ?F) = Some (tk_value (ti_token ?F))"
    unfolding F using s by auto
  moreover have "ti_value_type ?F = SAME_AS_PREV_VALUE \<longrightarrow> 0 < i \<and>
      tk_value (ti_token ?F) = tk_value (ti_token (finish_tokens fp b T ! (i - 1)))"
    unfolding F P using s by (auto simp: GetValueType_def split: if_splits)
  moreover have "ti_value_type ?F = AS_IS_HIRAGANA \<longrightarrow> tk_value (ti_token ?F) = key"
    unfolding F using s by (auto simp: GetValueType_def split: if_splits)
  moreover have "ti_value_type ?F = AS_IS_KATAKANA \<longrightarrow> tk_value (ti_token ?F) = HiraganaToKatakana E key"
    unfolding F using s by (auto simp: GetValueType_def split: if_splits)
  ultimately show "info_ok ?F \<and> tk_key (ti_token ?F) = key \<and>
     (ti_pos_type ?F = FREQUENT_POS \<longrightarrow> sd_frequent_pos d ! nat (ti_id_in_frequent_pos_map ?F) = GetCombinedPos (tk_lid (ti_token ?F)) (tk_rid (ti_token ?F))) \<and>
     (ti_pos_type ?F = SAME_AS_PREV_POS \<longrightarrow> 0 < i \<and> tk_lid (ti_token ?F) = tk_lid (ti_token (finish_tokens fp b T ! (i - 1))) \<and>
       tk_rid (ti_token ?F) = tk_rid (ti_token (finish_tokens fp b T ! (i - 1)))) \<and>
     (ti_value_type ?F = DEFAULT_VALUE \<longrightarrow> LookupValue d (ti_id_in_value_trie ?F) = Some (tk_value (ti_token ?F))) \<and>
     (ti_value_type ?F = SAME_AS_PREV_VALUE \<longrightarrow> 0 < i \<and> tk_value (ti_token ?F) = tk_value (ti_token (finish_tokens fp b T ! (i - 1)))) \<and>
     (ti_value_type ?F = AS_IS_HIRAGANA \<longrightarrow> tk_value (ti_token ?F) = key) \<and>
     (ti_value_type ?F = AS_IS_KATAKANA \<longrightarrow> tk_value (ti_token ?F) = HiraganaToKatakana E key)"
    by blast
qed

lemma finish_encodable:
  assumes src: "\<And>ti. ti \<in> set T \<Longrightarrow> source_info E d key ti" and ne: "T \<noteq> []"
  shows "encodable (finish_tokens fp b T)"
  unfolding encodable_def Let_def length_finish_tokens
proof (intro conjI allI impI)
  show "finish_tokens fp b T \<noteq> []" using ne length_finish_tokens [of fp b T] by (metis length_0_conv)
  fix i assume i: "i < length T"
  note F = finish_nth [OF i, of fp b] and s = src [OF nth_mem [OF i], unfolded source_info_def Let_def]
  show "tk_lid (ti_token (finish_tokens fp b T ! i)) \<le> kPosMax" "tk_rid (ti_token (finish_tokens fp b T ! i)) \<le> kPosMax"
    "tk_cost (ti_token (finish_tokens fp b T ! i)) \<le> kCostMax"
    using F(1) s by simp_all
  show "ti_pos_type (finish_tokens fp b T ! i) = FREQUENT_POS \<Longrightarrow> 0 \<le> ti_id_in_frequent_pos_map (finish_tokens fp b T ! i)"
    unfolding F using s by (auto split: option.split if_splits)
  show "ti_pos_type (finish_tokens fp b T ! i) = SAME_AS_PREV_POS \<Longrightarrow> 0 < i" unfolding F using s by (auto split: if_splits)
  show "ti_value_type (finish_tokens fp b T ! i) = SAME_AS_PREV_VALUE \<Longrightarrow> 0 < i"
    unfolding F using s by (auto simp: GetValueType_def split: if_splits)
  assume "ti_value_type (finish_tokens fp b T ! i) = DEFAULT_VALUE"
  then have "ti_value_type (T ! i) = DEFAULT_VALUE" unfolding F by (simp split: if_splits)
  then show "0 \<le> ti_id_in_value_trie (finish_tokens fp b T ! i)" "ti_id_in_value_trie (finish_tokens fp b T ! i) < 0x3f0000"
    using s F(2) by simp_all
qed

text \<open>A token as the dictionary keeps it: the cost without its lower eight bits if it is written in one byte, and of the
  attributes the first only.\<close>

definition kept_token :: "bool \<Rightarrow> Token \<Rightarrow> Token" where
  "kept_token b t = t\<lparr>tk_cost := (if b \<and> \<not> tk_cost t < 0x100 then tk_cost t div 0x100 * 0x100 else tk_cost t),
     tk_attributes := tk_attributes t AND SPELLING_CORRECTION\<rparr>"

lemma finish_stored:
  assumes src: "\<And>ti. ti \<in> set T \<Longrightarrow> source_info E d key ti"
  shows "map stored_token (finish_tokens fp b T) = map (\<lambda>ti. kept_token b (ti_token ti)) T"
proof (rule nth_equalityI)
  fix i assume "i < length (map stored_token (finish_tokens fp b T))"
  then have i: "i < length T" by simp
  note F = finish_nth [OF i, of fp b] and s = src [OF nth_mem [OF i], unfolded source_info_def Let_def]
  have one: "x AND 1 \<noteq> 0 \<Longrightarrow> x AND 1 = 1" for x :: u8 by (simp add: and_one_eq mod_2_eq_odd split: if_splits)
  have "spelling_flag (finish_tokens fp b T ! i) \<noteq> 0 \<longleftrightarrow> tk_attributes (ti_token (T ! i)) AND 1 \<noteq> 0"
    by (simp add: spelling_flag_def F(1) SPELLING_CORRECTION_def)
  then have A: "(if spelling_flag (finish_tokens fp b T ! i) \<noteq> 0 then SPELLING_CORRECTION else 0)
      = tk_attributes (ti_token (T ! i)) AND SPELLING_CORRECTION"
    using one [of "tk_attributes (ti_token (T ! i))"] by (simp add: SPELLING_CORRECTION_def)
  have C: "decoded_cost (finish_tokens fp b T ! i) = (if b \<and> \<not> tk_cost (ti_token (T ! i)) < 0x100
      then tk_cost (ti_token (T ! i)) div 0x100 * 0x100 else tk_cost (ti_token (T ! i)))"
    unfolding decoded_cost_def F(1) F(3) using s by (simp add: push_bit_eq_mult drop_bit_eq_div)
  have "stored_token (finish_tokens fp b T ! i) = kept_token b (ti_token (T ! i))"
    unfolding stored_token_def kept_token_def A C F(1) ..
  then show "map stored_token (finish_tokens fp b T) ! i = map (\<lambda>ti. kept_token b (ti_token ti)) T ! i" using i by simp
qed simp

subsection \<open>Values with several readings\<close>

definition two_readings :: "Token list \<Rightarrow> ustr \<Rightarrow> bool" where
  "two_readings ts v \<longleftrightarrow> (\<exists>t \<in> set ts. \<exists>u \<in> set ts. tk_value t = v \<and> tk_value u = v \<and> tk_key t \<noteq> tk_key u)"

lemma heterophone_fold:
  "case fold heterophone_step ts (\<lambda>v. None, {}) of (seen, het) \<Rightarrow> (\<forall>v. v \<in> het \<longleftrightarrow> two_readings ts v) \<and>
     (\<forall>v. v \<notin> het \<longrightarrow> (seen v = None \<longleftrightarrow> (\<forall>t \<in> set ts. tk_value t \<noteq> v)) \<and> (\<forall>k. seen v = Some k \<longrightarrow> (\<exists>t \<in> set ts. tk_value t = v \<and> tk_key t = k)))"
proof (induction ts rule: rev_induct)
  case Nil
  show ?case by (simp add: two_readings_def)
next
  case (snoc t ts)
  obtain seen het where f: "fold heterophone_step ts (\<lambda>v. None, {}) = (seen, het)" by (cases "fold heterophone_step ts (\<lambda>v. None, {})")
  have IH: "\<And>v. v \<in> het \<longleftrightarrow> two_readings ts v" "\<And>v. v \<notin> het \<Longrightarrow> seen v = None \<longleftrightarrow> (\<forall>t \<in> set ts. tk_value t \<noteq> v)"
    "\<And>v k. v \<notin> het \<Longrightarrow> seen v = Some k \<Longrightarrow> (\<exists>t \<in> set ts. tk_value t = v \<and> tk_key t = k)"
    using snoc.IH unfolding f by auto
  have two: "two_readings (ts @ [t]) v \<longleftrightarrow> two_readings ts v \<or> (v = tk_value t \<and> (\<exists>u \<in> set ts. tk_value u = v \<and> tk_key u \<noteq> tk_key t))" for v
  proof
    assume "two_readings (ts @ [t]) v"
    then obtain a b where ab: "a \<in> insert t (set ts)" "b \<in> insert t (set ts)" "tk_value a = v" "tk_value b = v" "tk_key a \<noteq> tk_key b"
      unfolding two_readings_def by auto
    show "two_readings ts v \<or> (v = tk_value t \<and> (\<exists>u \<in> set ts. tk_value u = v \<and> tk_key u \<noteq> tk_key t))"
    proof (cases "a \<in> set ts \<and> b \<in> set ts")
      case True
      then show ?thesis using ab(3-5) unfolding two_readings_def by blast
    next
      case False
      then consider "a = t" "b \<in> set ts" | "b = t" "a \<in> set ts" using ab(1,2,5) by auto
      then show ?thesis using ab(3-5) by cases (auto intro: bexI [of _ a] bexI [of _ b])
    qed
  next
    assume "two_readings ts v \<or> (v = tk_value t \<and> (\<exists>u \<in> set ts. tk_value u = v \<and> tk_key u \<noteq> tk_key t))"
    then show "two_readings (ts @ [t]) v"
    proof
      assume "two_readings ts v"
      then obtain a b where "a \<in> set ts" "b \<in> set ts" "tk_value a = v" "tk_value b = v" "tk_key a \<noteq> tk_key b"
        unfolding two_readings_def by blast
      then show ?thesis unfolding two_readings_def by (intro bexI [of _ a] bexI [of _ b]) simp_all
    next
      assume "v = tk_value t \<and> (\<exists>u \<in> set ts. tk_value u = v \<and> tk_key u \<noteq> tk_key t)"
      then obtain u where "u \<in> set ts" "tk_value u = v" "tk_key u \<noteq> tk_key t" "v = tk_value t" by blast
      then show ?thesis unfolding two_readings_def by (intro bexI [of _ u] bexI [of _ t]) simp_all
    qed
  qed
  let ?v = "tk_value t"
  show ?case
  proof (cases "?v \<in> het")
    case True
    then have F: "fold heterophone_step (ts @ [t]) (\<lambda>v. None, {}) = (seen, het)" by (simp add: f)
    have "two_readings (ts @ [t]) v \<longleftrightarrow> two_readings ts v" for v using True IH(1) two by blast
    then show ?thesis unfolding F using IH True by auto
  next
    case False
    show ?thesis
    proof (cases "seen ?v")
      case None
      then have F: "fold heterophone_step (ts @ [t]) (\<lambda>v. None, {}) = (seen(?v \<mapsto> tk_key t), het)" using False by (simp add: f)
      have "\<forall>u \<in> set ts. tk_value u \<noteq> ?v" using IH(2) [OF False] None by simp
      then have "two_readings (ts @ [t]) v \<longleftrightarrow> two_readings ts v" for v using two by blast
      then show ?thesis unfolding F using IH by auto
    next
      case (Some k)
      then obtain u where u: "u \<in> set ts" "tk_value u = ?v" "tk_key u = k" using IH(3) [OF False] by blast
      have all: "tk_key w = k" if "w \<in> set ts" "tk_value w = ?v" for w
        using False IH(1) u that unfolding two_readings_def by blast
      show ?thesis
      proof (cases "k = tk_key t")
        case True
        then have F: "fold heterophone_step (ts @ [t]) (\<lambda>v. None, {}) = (seen, het)" using False Some by (simp add: f)
        have "two_readings (ts @ [t]) v \<longleftrightarrow> two_readings ts v" for v using two all True by blast
        then show ?thesis unfolding F using IH False u(1,2) by auto
      next
        case k: False
        then have F: "fold heterophone_step (ts @ [t]) (\<lambda>v. None, {}) = (seen, insert ?v het)" using False Some by (simp add: f)
        have "two_readings (ts @ [t]) v \<longleftrightarrow> v = ?v \<or> two_readings ts v" for v using two u k by blast
        then show ?thesis unfolding F using IH by auto
      qed
    qed
  qed
qed

lemma heterophones_iff: "v \<in> heterophones G \<longleftrightarrow> two_readings (map ti_token (concat (map ki_tokens G))) v"
  using heterophone_fold [of "map ti_token (concat (map ki_tokens G))"]
  by (auto simp: heterophones_def split: prod.splits)

subsection \<open>All keys\<close>

definition small_cost :: "nat \<Rightarrow> ustr set \<Rightarrow> KeyInfo \<Rightarrow> bool" where
  "small_cost m het ki \<longleftrightarrow> \<not> (length (ki_key ki) < m \<or> HasHomonymsInSamePos ki \<or> HasHeterophones ki het)"

definition finish_key :: "(u32 \<times> nat) list \<Rightarrow> nat \<Rightarrow> ustr set \<Rightarrow> KeyInfo \<Rightarrow> KeyInfo" where
  "finish_key fp m het g = g\<lparr>ki_tokens := finish_tokens fp (small_cost m het g) (ki_tokens g)\<rparr>"

lemma cost_pass_False [simp]: "cost_pass False T = T" by (simp add: cost_pass_def)

lemma passes_eq:
  "SetValueType (SetPosType fp (SetCostType m G)) = map (finish_key fp m (heterophones G)) G"
proof -
  have "SetCostType m G = map (\<lambda>g. g\<lparr>ki_tokens := cost_pass (small_cost m (heterophones G) g) (ki_tokens g)\<rparr>) G"
    by (simp add: SetCostType_def Let_def small_cost_def cost_pass_def)
  then show ?thesis
    by (simp add: SetValueType_def SetPosType_def finish_key_def finish_tokens_def Let_def)
qed

lemma those_map_Some: "those (map (\<lambda>x. Some (f x)) xs) = Some (map f xs)"
  by (induction xs) simp_all

lemma map_tokens_Some: "map_tokens (\<lambda>ti. Some (h ti)) = (\<lambda>ki. Some (ki\<lparr>ki_tokens := map h (ki_tokens ki)\<rparr>))"
  by (rule ext) (simp add: map_tokens_def those_map_Some)

definition with_ids :: "(u8 list \<Rightarrow> int) \<Rightarrow> (u8 list \<Rightarrow> int) \<Rightarrow> KeyInfo \<Rightarrow> KeyInfo" where
  "with_ids vid kid g = g\<lparr>ki_id_in_key_trie := kid (key_word (ki_key g)),
     ki_tokens := map (\<lambda>ti. ti\<lparr>ti_id_in_value_trie := vid (EncodeValue (tk_value (ti_token ti)))\<rparr>) (ki_tokens g)\<rparr>"

lemma SetIds_eq:
  assumes "\<And>w. GetId w vb = Some (vid w)" "\<And>w. GetId w kb = Some (kid w)"
  shows "Option.bind (SetIdForValue vb G) (SetIdForKey kb) = Some (map (with_ids vid kid) G)"
proof -
  let ?g1 = "\<lambda>g. g\<lparr>ki_tokens := map (\<lambda>ti. ti\<lparr>ti_id_in_value_trie := vid (EncodeValue (tk_value (ti_token ti)))\<rparr>) (ki_tokens g)\<rparr>"
  have "SetIdForValue vb G = Some (map ?g1 G)"
    by (simp add: SetIdForValue_def assms(1) map_tokens_Some those_map_Some)
  moreover have "SetIdForKey kb (map ?g1 G) = Some (map (with_ids vid kid) G)"
    by (simp add: SetIdForKey_def assms(2) comp_def those_map_Some with_ids_def)
  ultimately show ?thesis by simp
qed

text \<open>The table from key ids to key infos is full.\<close>

lemma id_table_fold:
  assumes "\<And>g. g \<in> set G \<Longrightarrow> ki_id_in_key_trie g = int (f g) \<and> f g < n" "inj_on f (set G)" "distinct G"
  shows "\<exists>t. fold (\<lambda>ki table. Option.bind table (\<lambda>table. let kid = ki_id_in_key_trie ki
             in if 0 \<le> kid \<and> kid < int (length table) then Some (table[nat kid := Some ki]) else None)) G (Some (replicate n None)) = Some t \<and>
    length t = n \<and> (\<forall>g \<in> set G. t ! f g = Some g)"
  using assms
proof (induction G rule: rev_induct)
  case (snoc h G)
  obtain t where t: "fold (\<lambda>ki table. Option.bind table (\<lambda>table. let kid = ki_id_in_key_trie ki
             in if 0 \<le> kid \<and> kid < int (length table) then Some (table[nat kid := Some ki]) else None)) G (Some (replicate n None)) = Some t"
    "length t = n" "\<forall>g \<in> set G. t ! f g = Some g"
    using snoc.IH snoc.prems by (auto simp: inj_on_def)
  have h: "ki_id_in_key_trie h = int (f h)" "f h < n" using snoc.prems(1) [of h] by simp_all
  have "f h \<noteq> f g" if "g \<in> set G" for g
    using snoc.prems(2,3) that by (auto simp: inj_on_def)
  then have "\<forall>g \<in> set (G @ [h]). t[f h := Some h] ! f g = Some g" using t h by auto
  then show ?case using t h by (auto simp: Let_def)
qed simp

lemma id_table_full:
  assumes ids: "\<And>g. g \<in> set G \<Longrightarrow> ki_id_in_key_trie g = int (f g)" and bij: "inj_on f (set G)" "f ` set G = {..<length G}" and d: "distinct G"
  obtains infos where "Option.bind (id_to_keyinfo_table G) those = Some infos" "length infos = length G"
    "\<And>g. g \<in> set G \<Longrightarrow> infos ! f g = g" "set infos \<subseteq> set G"
proof -
  have lt: "f g < length G" if "g \<in> set G" for g using bij(2) that by auto
  obtain t where t: "id_to_keyinfo_table G = Some t" "length t = length G" "\<forall>g \<in> set G. t ! f g = Some g"
    using id_table_fold [of G f "length G"] ids lt bij(1) d unfolding id_to_keyinfo_table_def by blast
  have full: "\<exists>g \<in> set G. t ! j = Some g" if "j < length t" for j
  proof -
    have "j \<in> f ` set G" using that t(2) bij(2) by simp
    then show ?thesis using t(3) by blast
  qed
  define infos where "infos = map the t"
  have ti: "t ! j = Some (infos ! j) \<and> infos ! j \<in> set G" if "j < length t" for j using full [OF that] that by (auto simp: infos_def)
  then have "t = map Some infos" by (intro nth_equalityI) (simp_all add: infos_def)
  then have "those t = Some infos" by (simp add: those_map_Some [where f = "\<lambda>x. x", simplified])
  moreover have "set infos \<subseteq> set G" using ti by (auto simp: in_set_conv_nth infos_def)
  ultimately show thesis using that [of infos] t by (auto simp: infos_def lt)
qed

lemma id_table_mset:
  assumes "length infos = length G" "\<And>g. g \<in> set G \<Longrightarrow> infos ! f g = g" "set infos \<subseteq> set G" "f ` set G = {..<length G}" "distinct G"
  shows "mset infos = mset G"
proof -
  have "set G \<subseteq> set infos"
  proof
    fix g assume g: "g \<in> set G"
    then have "f g < length infos" using assms(1,4) by auto
    then show "g \<in> set infos" using assms(2) [OF g] nth_mem by metis
  qed
  then have s: "set infos = set G" using assms(3) by blast
  then have "distinct infos" using assms(1,5) by (metis card_distinct distinct_card)
  then show ?thesis using assms(5) s by (simp add: set_eq_iff_mset_eq_distinct)
qed

lemma Array_AddAll_eq: "Array_AddAll es = Some (NewArrayBuilder\<lparr>vb_elements := es\<rparr>)"
proof -
  have "fold (\<lambda>e b. Option.bind b (Array_Add e)) es (Some (NewArrayBuilder\<lparr>vb_elements := us\<rparr>)) = Some (NewArrayBuilder\<lparr>vb_elements := us @ es\<rparr>)" for us
    by (induction es arbitrary: us) (simp_all add: Array_Add_def NewArrayBuilder_def)
  from this [of "[]"] show ?thesis by (simp add: Array_AddAll_def NewArrayBuilder_def)
qed

lemma sum_list_le_mult: "(\<And>x. x \<in> set xs \<Longrightarrow> h x \<le> c * k x) \<Longrightarrow> sum_list (map h xs) \<le> c * sum_list (map k xs)" for c :: nat
  by (induction xs) (auto simp: distrib_left intro: add_mono)

lemma sum_list_map_mset: "mset xs = mset ys \<Longrightarrow> sum_list (map h xs) = sum_list (map h ys)" for h :: "'a \<Rightarrow> nat"
  by (metis mset_map sum_mset_sum_list)

lemma BuildTokenArray_exists:
  assumes ids: "\<And>g. g \<in> set G \<Longrightarrow> ki_id_in_key_trie g = int (f g)" and bij: "inj_on f (set G)" "f ` set G = {..<length G}"
    and d: "distinct G" and enc: "\<And>g. g \<in> set G \<Longrightarrow> encodable (ki_tokens g)"
    and small: "6 * length G + 9 * sum_list (map (\<lambda>g. length (ki_tokens g)) G) + 7 < 2 ^ 31"
  obtains tb a where "BuildTokenArray G = Some tb" "Array_Open (vb_image tb) = Some a"
    "\<And>g. g \<in> set G \<Longrightarrow> \<exists>bs rest. EncodeTokens (ki_tokens g) = Some bs \<and> Array_Get a (f g) = Some (bs @ rest)"
proof -
  obtain infos where infos: "Option.bind (id_to_keyinfo_table G) those = Some infos" "length infos = length G"
    "\<And>g. g \<in> set G \<Longrightarrow> infos ! f g = g" "set infos \<subseteq> set G"
    using id_table_full [OF ids bij d] by blast
  have m: "mset infos = mset G" by (rule id_table_mset [OF infos(2-4) bij(2) d])
  define en where "en g = the (EncodeTokens (ki_tokens g))" for g :: KeyInfo
  have en: "EncodeTokens (ki_tokens g) = Some (en g)" "length (en g) \<le> 9 * length (ki_tokens g)" if "g \<in> set G" for g
    using EncodeTokens_exists [OF enc [OF that]] by (auto simp: en_def)
  have e: "those (map (\<lambda>ki. EncodeTokens (ki_tokens ki)) infos) = Some (map en infos)"
    by (rule those_map_exists) (use en(1) infos(4) in blast)
  let ?es = "map en infos @ [[kTokenTerminationFlag]]"
  have "sum_list (map (\<lambda>g. length (en g)) infos) \<le> 9 * sum_list (map (\<lambda>g. length (ki_tokens g)) infos)"
    using en(2) infos(4) by (intro sum_list_le_mult) blast
  also have "sum_list (map (\<lambda>g. length (ki_tokens g)) infos) = sum_list (map (\<lambda>g. length (ki_tokens g)) G)"
    by (rule sum_list_map_mset [OF m])
  finally have s: "sum_list (map (\<lambda>e. length e + 4 + 1) ?es) + length ?es < 2 ^ 31"
    using small infos(2) by (simp add: comp_def sum_list_addf sum_list_triv)
  have nb: "NewArrayBuilder\<lparr>vb_elements := ?es, vb_base_length := 4, vb_step_length := 1\<rparr> = NewArrayBuilder\<lparr>vb_elements := ?es\<rparr>"
    by (simp add: NewArrayBuilder_def)
  obtain tb a where tb: "Array_Build (NewArrayBuilder\<lparr>vb_elements := ?es\<rparr>) = Some tb" "Array_Open (vb_image tb) = Some a"
    "\<forall>j < length ?es. \<exists>rest. Array_Get a j = Some (?es ! j @ rest)"
    using array_build_open [of 1 4 ?es, unfolded nb] s by auto
  have B: "BuildTokenArray G = Some tb"
  proof -
    have "BuildTokenArray G = Option.bind (Option.bind (id_to_keyinfo_table G) those) (\<lambda>infos.
      Option.bind (those (map (\<lambda>ki. EncodeTokens (ki_tokens ki)) infos)) (\<lambda>elements.
      Option.bind (Array_AddAll (elements @ [[kTokenTerminationFlag]])) Array_Build))"
      by (simp add: BuildTokenArray_def bind_assoc)
    then show ?thesis by (simp add: infos(1) e Array_AddAll_eq tb(1))
  qed
  have "\<exists>bs rest. EncodeTokens (ki_tokens g) = Some bs \<and> Array_Get a (f g) = Some (bs @ rest)" if g: "g \<in> set G" for g
  proof -
    have l: "f g < length infos" using bij(2) g infos(2) by auto
    then have "f g < length ?es" by simp
    then obtain rest where "Array_Get a (f g) = Some (?es ! f g @ rest)" using tb(3) by blast
    moreover have "?es ! f g = en g" using l infos(3) [OF g] by (simp add: nth_append)
    ultimately show ?thesis using en(1) [OF g] by auto
  qed
  then show thesis using that B tb(2) by blast
qed

subsection \<open>Dictionaries that can be built\<close>

text \<open>
  The limits of the format: no empty strings, at most 12 bits for a part of speech and 15 for a cost, values that the buffer
  for restoring holds, fewer than 0x3f0000 different values, at least one value that is not the reading itself.
\<close>

definition dictionary_ok :: "env \<Rightarrow> Token list \<Rightarrow> bool" where
  "dictionary_ok E tokens \<longleftrightarrow>
     (\<forall>t \<in> set tokens. tk_key t \<noteq> [] \<and> text_ok (tk_key t) \<and> tk_value t \<noteq> [] \<and> text_ok (tk_value t) \<and>
        0 \<le> tk_cost t \<and> tk_cost t \<le> kCostMax \<and> tk_lid t \<le> kPosMax \<and> tk_rid t \<le> kPosMax \<and>
        length (EncodeValue (tk_value t)) \<le> kMaxDepth) \<and>
     (\<exists>t \<in> set tokens. GetValueType E t = DEFAULT_VALUE) \<and>
     card (tk_value ` set tokens) < 0x3f0000 \<and> length tokens < 2 ^ 27 \<and>
     sum_list (map (\<lambda>t. length (key_word (tk_key t)) + length (EncodeValue (tk_value t))) tokens) + 1 < 2 ^ 31"

definition one_byte_costs :: "nat \<Rightarrow> Token list \<Rightarrow> ustr \<Rightarrow> bool" where
  "one_byte_costs m tokens key \<longleftrightarrow> m \<le> length key \<and>
     distinct (map (\<lambda>t. (tk_lid t, tk_rid t)) (filter (\<lambda>t. tk_key t = key) tokens)) \<and>
     (\<forall>t \<in> set tokens. tk_key t = key \<longrightarrow> \<not> two_readings tokens (tk_value t))"

text \<open>What the reader can rely on.\<close>

definition serves :: "env \<Rightarrow> nat \<Rightarrow> Token list \<Rightarrow> SystemDictionary \<Rightarrow> (u8 list \<Rightarrow> nat) \<Rightarrow> bool" where
  "serves E m tokens d f \<longleftrightarrow>
     (\<forall>w. ExactSearch (sd_key_trie d) w = Some (if w \<in> key_word ` tk_key ` set tokens then int (f w) else -1) \<and>
       HasKey (sd_key_trie d) w = Some (w \<in> key_word ` tk_key ` set tokens) \<and>
       map_option (map (\<lambda>(i, nd). (i, GetKeyIdOfTerminalNode (sd_key_trie d) nd))) (PrefixSearch (sd_key_trie d) w) =
         Some (map (\<lambda>i. (i, f (take i w))) (filter (\<lambda>i. take i w \<in> key_word ` tk_key ` set tokens) [1..<length w + 1])) \<and>
       HasKey (sd_value_trie d) w = Some (\<exists>t \<in> set tokens. GetValueType E t = DEFAULT_VALUE \<and> w = EncodeValue (tk_value t))) \<and>
     (\<forall>key \<in> tk_key ` set tokens. \<exists>T bs rest ord. fits E d key T \<and> T \<noteq> [] \<and> EncodeTokens T = Some bs \<and>
       GetTokenArrayPtr d (int (f (key_word key))) = Some (bs @ rest) \<and>
       map stored_token T = map (kept_token (one_byte_costs m tokens key)) ord \<and>
       mset ord = mset (filter (\<lambda>t. tk_key t = key) tokens) \<and>
       sorted (map (\<lambda>t. (- uint (tk_lid t), - uint (tk_rid t))) ord))"

lemma token_order_sorted:
  "sorted (map token_order T) \<Longrightarrow> sorted (map (\<lambda>t. (- uint (tk_lid t), - uint (tk_rid t))) (map ti_token T))"
proof (induction T)
  case (Cons a T)
  have "(- uint (tk_lid (ti_token a)), - uint (tk_rid (ti_token a))) \<le> (- uint (tk_lid (ti_token b)), - uint (tk_rid (ti_token b)))"
    if "b \<in> set T" for b
  proof -
    have "token_order a \<le> token_order b" using Cons.prems that by simp
    then show ?thesis by (auto simp: token_order_def less_eq_prod_def)
  qed
  then show ?case using Cons by auto
qed simp

lemma small_cost_iff:
  assumes "ki_key g = key" "mset (map ti_token (ki_tokens g)) = mset (filter (\<lambda>t. tk_key t = key) tokens)"
    and "\<And>v. v \<in> het \<longleftrightarrow> two_readings tokens v"
  shows "small_cost m het g \<longleftrightarrow> one_byte_costs m tokens key"
proof -
  let ?F = "filter (\<lambda>t. tk_key t = key) tokens"
  have "map token_pos (ki_tokens g) = map (\<lambda>t. GetCombinedPos (tk_lid t) (tk_rid t)) (map ti_token (ki_tokens g))"
    by (simp add: token_pos_def comp_def)
  then have "mset (map token_pos (ki_tokens g)) = mset (map (\<lambda>t. GetCombinedPos (tk_lid t) (tk_rid t)) ?F)"
    using assms(2) by (metis mset_map)
  then have "distinct (map token_pos (ki_tokens g)) \<longleftrightarrow> distinct (map (\<lambda>t. GetCombinedPos (tk_lid t) (tk_rid t)) ?F)"
    by (rule mset_eq_imp_distinct_iff)
  also have "\<dots> \<longleftrightarrow> distinct (map (\<lambda>t. (tk_lid t, tk_rid t)) ?F)"
  proof -
    have "map (\<lambda>t. GetCombinedPos (tk_lid t) (tk_rid t)) ?F = map (\<lambda>(l, r). GetCombinedPos l r) (map (\<lambda>t. (tk_lid t, tk_rid t)) ?F)" by simp
    moreover have "inj_on (\<lambda>(l, r). GetCombinedPos l r) A" for A by (auto simp: inj_on_def GetCombinedPos_inj)
    ultimately show ?thesis by (simp only: distinct_map) blast
  qed
  finally have dis: "distinct (map token_pos (ki_tokens g)) \<longleftrightarrow> distinct (map (\<lambda>t. (tk_lid t, tk_rid t)) ?F)" .
  have "length (ki_tokens g) = 1 \<Longrightarrow> distinct (map token_pos (ki_tokens g))" by (auto simp: length_Suc_conv)
  then have hom: "HasHomonymsInSamePos g \<longleftrightarrow> \<not> distinct (map (\<lambda>t. (tk_lid t, tk_rid t)) ?F)"
    using dis unfolding HasHomonymsInSamePos_def by auto
  have "ti_token ` set (ki_tokens g) = set ?F" using arg_cong [OF assms(2), of set_mset] by simp
  then have hetero: "HasHeterophones g het \<longleftrightarrow> (\<exists>t \<in> set tokens. tk_key t = key \<and> two_readings tokens (tk_value t))"
    
  proof -
    have "HasHeterophones g het \<longleftrightarrow> (\<exists>t \<in> ti_token ` set (ki_tokens g). two_readings tokens (tk_value t))"
      by (simp add: HasHeterophones_def list_ex_iff assms(3))
    then show ?thesis unfolding \<open>ti_token ` set (ki_tokens g) = set ?F\<close> by auto
  qed
  show ?thesis unfolding small_cost_def one_byte_costs_def hom hetero assms(1) by auto
qed

lemma sum_list_distinct_le:
  "distinct ks \<Longrightarrow> set ks \<subseteq> set xs \<Longrightarrow> sum_list (map h ks) \<le> sum_list (map h xs)" for h :: "'a \<Rightarrow> nat"
proof (induction ks arbitrary: xs)
  case (Cons k ks)
  have "set ks \<subseteq> set (remove1 k xs)"
  proof
    fix x assume "x \<in> set ks"
    then have "x \<in> set xs" "x \<noteq> k" using Cons.prems by auto
    then show "x \<in> set (remove1 k xs)" by simp
  qed
  then have "sum_list (map h ks) \<le> sum_list (map h (remove1 k xs))" using Cons.IH Cons.prems(1) by simp
  then show ?case using sum_list_map_remove1 [of k xs h] Cons.prems(2) by simp
qed simp

lemma sum_list_filter_le: "sum_list (map h (filter P xs)) \<le> sum_list (map h xs)" for h :: "'a \<Rightarrow> nat"
  by (induction xs) auto

text \<open>The two tries of a dictionary.\<close>

definition stored_values :: "env \<Rightarrow> Token list \<Rightarrow> u8 list set" where
  "stored_values E tokens = {w. \<exists>t \<in> set tokens. GetValueType E t = DEFAULT_VALUE \<and> w = EncodeValue (tk_value t)}"

lemma GetValueType_cases: "GetValueType E t = DEFAULT_VALUE \<or> GetValueType E t = AS_IS_HIRAGANA \<or> GetValueType E t = AS_IS_KATAKANA"
  by (simp add: GetValueType_def)

lemma as_is_read_info: "as_is (read_info E t) \<longleftrightarrow> GetValueType E t \<noteq> DEFAULT_VALUE"
  using GetValueType_cases [of E t] by (auto simp: as_is_def)

lemma value_words_facts:
  assumes ok: "dictionary_ok E tokens" and m: "mset (concat (map ki_tokens G)) = image_mset (read_info E) (mset tokens)"
  shows "set (value_words G) = stored_values E tokens" "value_words G \<noteq> []" "[] \<notin> set (value_words G)"
    "sum_list (map length (value_words G)) + 1 < 2 ^ 31" "card (set (value_words G)) < 0x3f0000"
proof -
  have s: "set (concat (map ki_tokens G)) = read_info E ` set tokens" using arg_cong [OF m, of set_mset] by simp
  have "set (value_words G) = (\<lambda>ti. EncodeValue (tk_value (ti_token ti))) ` {ti \<in> set (concat (map ki_tokens G)). \<not> as_is ti}"
    unfolding value_words_def by simp
  also have "\<dots> = stored_values E tokens" 
  proof (intro equalityI subsetI)
    fix w assume "w \<in> stored_values E tokens"
    then obtain t where "t \<in> set tokens" "GetValueType E t = DEFAULT_VALUE" "w = EncodeValue (tk_value t)" by (auto simp: stored_values_def)
    then show "w \<in> (\<lambda>ti. EncodeValue (tk_value (ti_token ti))) ` {ti \<in> set (concat (map ki_tokens G)). \<not> as_is ti}"
      unfolding s by (intro image_eqI [of _ _ "read_info E t"]) (simp_all add: as_is_read_info)
  qed (unfold s, auto simp: stored_values_def as_is_read_info)
  finally show v: "set (value_words G) = stored_values E tokens" .
  have "EncodeValue (tk_value t) \<noteq> []" if "t \<in> set tokens" for t
    using ok that by (simp add: dictionary_ok_def EncodeValue_not_Nil)
  then have ne: "[] \<notin> stored_values E tokens" unfolding stored_values_def by force
  have ne': "stored_values E tokens \<noteq> {}" using ok by (auto simp: dictionary_ok_def stored_values_def)
  then show "value_words G \<noteq> []" "[] \<notin> set (value_words G)" using v ne ne' by (auto simp flip: set_empty)
  have "sum_list (map length (value_words G)) =
      sum_list (map (\<lambda>ti. length (EncodeValue (tk_value (ti_token ti)))) (filter (\<lambda>ti. \<not> as_is ti) (concat (map ki_tokens G))))"
    by (simp add: value_words_def comp_def)
  also have "\<dots> \<le> sum_list (map (\<lambda>ti. length (EncodeValue (tk_value (ti_token ti)))) (concat (map ki_tokens G)))"
    by (rule sum_list_filter_le)
  also have "\<dots> = sum_list (map (\<lambda>ti. length (EncodeValue (tk_value (ti_token ti)))) (map (read_info E) tokens))"
    by (rule sum_list_map_mset) (simp add: m)
  also have "\<dots> = sum_list (map (\<lambda>t. length (EncodeValue (tk_value t))) tokens)" by (simp add: comp_def)
  also have "\<dots> \<le> sum_list (map (\<lambda>t. length (key_word (tk_key t)) + length (EncodeValue (tk_value t))) tokens)"
    by (rule sum_list_mono) simp
  finally show "sum_list (map length (value_words G)) + 1 < 2 ^ 31" using ok by (simp add: dictionary_ok_def)
  have "stored_values E tokens \<subseteq> EncodeValue ` tk_value ` set tokens" by (auto simp: stored_values_def)
  then have "card (stored_values E tokens) \<le> card (EncodeValue ` tk_value ` set tokens)" by (intro card_mono) simp_all
  also have "\<dots> \<le> card (tk_value ` set tokens)" by (intro card_image_le) simp
  finally show "card (set (value_words G)) < 0x3f0000" using ok v by (simp add: dictionary_ok_def)
qed

lemma key_words_facts:
  assumes ok: "dictionary_ok E tokens" and g: "groups E tokens G"
  defines "ws \<equiv> map (\<lambda>ki. key_word (ki_key ki)) G"
  shows "set ws = key_word ` tk_key ` set tokens" "ws \<noteq> []" "[] \<notin> set ws" "sum_list (map length ws) + 1 < 2 ^ 31" "distinct ws"
proof -
  have k: "set (map ki_key G) = tk_key ` set tokens" "distinct (map ki_key G)" using g by (auto simp: groups_def)
  have ws: "ws = map key_word (map ki_key G)" by (simp add: ws_def)
  show s: "set ws = key_word ` tk_key ` set tokens" unfolding ws set_map [of key_word] k(1) ..
  have t: "tokens \<noteq> []" "\<And>t. t \<in> set tokens \<Longrightarrow> tk_key t \<noteq> [] \<and> text_ok (tk_key t)" using ok by (auto simp: dictionary_ok_def)
  show "ws \<noteq> []" using s t(1) by (auto simp flip: set_empty)
  show "[] \<notin> set ws" using s t(2) by (auto dest!: sym [of "[]"]) (metis key_word_Nil)
  have "sum_list (map length ws) = sum_list (map (\<lambda>k. length (key_word k)) (map ki_key G))" by (simp add: ws_def comp_def)
  also have "\<dots> \<le> sum_list (map (\<lambda>k. length (key_word k)) (map tk_key tokens))"
    by (rule sum_list_distinct_le) (use k in auto)
  also have "\<dots> \<le> sum_list (map (\<lambda>t. length (key_word (tk_key t)) + length (EncodeValue (tk_value t))) tokens)"
    unfolding map_map comp_def by (rule sum_list_mono) simp
  finally show "sum_list (map length ws) + 1 < 2 ^ 31" using ok by (simp add: dictionary_ok_def)
  have "inj_on key_word (set (map ki_key G))" unfolding k(1) using t(2) key_word_inj by (auto simp: inj_on_def)
  then show "distinct ws" unfolding ws using k(2) by (simp only: distinct_map [of key_word])
qed

text \<open>The source infos: ids of values that can be restored.\<close>

lemma source_info_with_id:
  assumes ok: "dictionary_ok E tokens" and t: "t \<in> set tokens"
    and tr: "trie_serves W vb (sd_value_trie d) f" "set W = stored_values E tokens" "card (set W) < 0x3f0000"
  shows "source_info E d (tk_key t) ((read_info E t)\<lparr>ti_id_in_value_trie := (if EncodeValue (tk_value t) \<in> set W then int (f (EncodeValue (tk_value t))) else -1)\<rparr>)"
proof -
  let ?w = "EncodeValue (tk_value t)"
  have o: "0 \<le> tk_cost t" "tk_cost t \<le> kCostMax" "tk_lid t \<le> kPosMax" "tk_rid t \<le> kPosMax" "length ?w \<le> kMaxDepth" "text_ok (tk_value t)"
    using ok t by (auto simp: dictionary_ok_def)
  have "?w \<in> set W \<and> f ?w < 0x3f0000 \<and> LookupValue d (int (f ?w)) = Some (tk_value t)" if "GetValueType E t = DEFAULT_VALUE"
  proof -
    have w: "?w \<in> set W" using that t tr(2) by (auto simp: stored_values_def)
    then have "f ?w \<in> {..<card (set W)}" using trie_servesD(7) [OF tr(1)] by blast
    moreover have "RestoreKeyStringFromId (sd_value_trie d) (int (f ?w)) = Some ?w" by (rule trie_servesD(4) [OF tr(1) w o(5)])
    ultimately show ?thesis using w tr(3) text_ok_chars [OF o(6)] DecodeValue_EncodeValue by (simp add: LookupValue_def)
  qed
  then show ?thesis using o by (simp add: source_info_def Let_def)
qed

text \<open>The infos of one key with their ids, in the order of the dictionary.\<close>

definition ordered_infos :: "env \<Rightarrow> (u8 list \<Rightarrow> int) \<Rightarrow> Token list \<Rightarrow> ustr \<Rightarrow> TokenInfo list" where
  "ordered_infos E vid tokens key = sort_key token_order
     (map (\<lambda>t. (read_info E t)\<lparr>ti_id_in_value_trie := vid (EncodeValue (tk_value t))\<rparr>) (filter (\<lambda>t. tk_key t = key) tokens))"

lemma ordered_infos_facts:
  "mset (map ti_token (ordered_infos E vid tokens key)) = mset (filter (\<lambda>t. tk_key t = key) tokens)"
  "sorted (map (\<lambda>t. (- uint (tk_lid t), - uint (tk_rid t))) (map ti_token (ordered_infos E vid tokens key)))"
  "set (ordered_infos E vid tokens key) = (\<lambda>t. (read_info E t)\<lparr>ti_id_in_value_trie := vid (EncodeValue (tk_value t))\<rparr>) ` {t \<in> set tokens. tk_key t = key}"
proof -
  show "mset (map ti_token (ordered_infos E vid tokens key)) = mset (filter (\<lambda>t. tk_key t = key) tokens)"
    by (simp add: ordered_infos_def multiset.map_comp comp_def)
  show "sorted (map (\<lambda>t. (- uint (tk_lid t), - uint (tk_rid t))) (map ti_token (ordered_infos E vid tokens key)))"
    by (rule token_order_sorted) (simp add: ordered_infos_def)
qed (simp add: ordered_infos_def)

definition built_key :: "env \<Rightarrow> (u32 \<times> nat) list \<Rightarrow> nat \<Rightarrow> (u8 list \<Rightarrow> int) \<Rightarrow> (u8 list \<Rightarrow> int) \<Rightarrow> Token list \<Rightarrow> KeyInfo \<Rightarrow> KeyInfo" where
  "built_key E fp m vid kid tokens g = \<lparr>ki_id_in_key_trie = kid (key_word (ki_key g)), ki_key = ki_key g,
     ki_tokens = finish_tokens fp (one_byte_costs m tokens (ki_key g)) (ordered_infos E vid tokens (ki_key g))\<rparr>"

lemma passes_built:
  assumes g: "groups E tokens G"
  shows "SetValueType (SetPosType fp (SetCostType m (SortTokenInfo (map (with_ids vid kid) G)))) = map (built_key E fp m vid kid tokens) G"
proof -
  let ?S = "SortTokenInfo (map (with_ids vid kid) G)"
  let ?s = "\<lambda>g. (with_ids vid kid g)\<lparr>ki_tokens := sort_key token_order (ki_tokens (with_ids vid kid g))\<rparr>"
  have S: "?S = map ?s G" by (simp add: SortTokenInfo_def)
  have tok: "ki_tokens (?s h) = ordered_infos E vid tokens (ki_key h)" if "h \<in> set G" for h
    using g that by (simp add: groups_def with_ids_def ordered_infos_def comp_def)
  have w: "ki_key (with_ids vid kid h) = ki_key h" "ki_id_in_key_trie (with_ids vid kid h) = kid (key_word (ki_key h))" for h
    by (simp_all add: with_ids_def)
  have keys: "ki_key (?s h) = ki_key h" "ki_id_in_key_trie (?s h) = kid (key_word (ki_key h))" for h by (simp_all add: w)
  have "set (map ti_token (concat (map ki_tokens ?S))) = (\<Union>h \<in> set G. ti_token ` set (ki_tokens (?s h)))" unfolding S by auto
  also have "\<dots> = (\<Union>h \<in> set G. {t \<in> set tokens. tk_key t = ki_key h})"
  proof (rule SUP_cong [OF refl])
    fix h assume "h \<in> set G"
    then show "ti_token ` set (ki_tokens (?s h)) = {t \<in> set tokens. tk_key t = ki_key h}"
      unfolding tok [OF \<open>h \<in> set G\<close>] ordered_infos_facts(3) image_image by simp
  qed
  also have "\<dots> = set tokens"
  proof -
    have "\<exists>h \<in> set G. tk_key t = ki_key h" if "t \<in> set tokens" for t
      using g that unfolding groups_def by (metis imageE image_eqI set_map)
    then show ?thesis by auto
  qed
  finally have "set (map ti_token (concat (map ki_tokens ?S))) = set tokens" .
  then have het: "v \<in> heterophones ?S \<longleftrightarrow> two_readings tokens v" for v by (simp add: heterophones_iff two_readings_def)
  have "finish_key fp m (heterophones ?S) (?s h) = built_key E fp m vid kid tokens h" if h: "h \<in> set G" for h
  proof -
    have "small_cost m (heterophones ?S) (?s h) \<longleftrightarrow> one_byte_costs m tokens (ki_key h)"
      by (rule small_cost_iff) (use het keys tok [OF h] ordered_infos_facts(1) in auto)
    then show ?thesis by (intro KeyInfo.equality) (simp_all add: finish_key_def built_key_def keys w tok [OF h, simplified] del: KeyInfo.ext_inject)
  qed
  then show ?thesis unfolding passes_eq unfolding S by simp
qed

lemma dictionary_built:
  assumes ok: "dictionary_ok E tokens"
  obtains img d f where "BuildFromTokens E m tokens = Some img" "OpenDictionaryFile img = Some d" "serves E m tokens d f"
proof -
  have tok: "\<forall>t \<in> set tokens. tk_key t \<noteq> [] \<and> text_ok (tk_key t) \<and> tk_value t \<noteq> []" "tokens \<noteq> []"
    using ok by (auto simp: dictionary_ok_def)
  obtain G where R: "ReadTokens E tokens = Some G" and g: "groups E tokens G"
    and mG: "mset (concat (map ki_tokens G)) = image_mset (read_info E) (mset tokens)"
    by (rule ReadTokens_groups [OF tok])
  have len: "length (concat (map ki_tokens G)) = length tokens" using arg_cong [OF mG, of size] by simp
  then have "length (concat (map ki_tokens G)) < max_freq" using ok by (simp add: dictionary_ok_def max_freq_def)
  from BuildFrequentPos_exists [OF this] obtain fp where fp: "BuildFrequentPos G = Some fp"
    "\<And>p i. map_of fp p = Some i \<Longrightarrow> i < 256 \<and> frequent_pos_array fp ! i = p" by blast
  let ?vw = "value_words G" and ?kw = "map (\<lambda>ki. key_word (ki_key ki)) G"
  note vf = value_words_facts [OF ok mG] and kf = key_words_facts [OF ok g]
  obtain vb Tv fv where v: "AddAll ?vw = Some (NewLoudsTrieBuilder\<lparr>lb_word_list := ?vw\<rparr>)"
    "Build (NewLoudsTrieBuilder\<lparr>lb_word_list := ?vw\<rparr>) = Some vb"
    "Open (lb_image vb) kValueTrieLb0CacheSize kValueTrieLb1CacheSize kValueTrieSelect0CacheSize kValueTrieSelect1CacheSize
       kValueTrieTermvecCacheSize = Some Tv" "trie_serves ?vw vb Tv fv"
    by (rule trie_build_open [OF vf(2,3,4)])
  obtain kb Tk fk where k: "AddAll ?kw = Some (NewLoudsTrieBuilder\<lparr>lb_word_list := ?kw\<rparr>)"
    "Build (NewLoudsTrieBuilder\<lparr>lb_word_list := ?kw\<rparr>) = Some kb"
    "Open (lb_image kb) kKeyTrieLb0CacheSize kKeyTrieLb1CacheSize kKeyTrieSelect0CacheSize kKeyTrieSelect1CacheSize
       kKeyTrieTermvecCacheSize = Some Tk" "trie_serves ?kw kb Tk fk"
    by (rule trie_build_open [OF kf(2,3,4)])
  define vid where "vid w = (if w \<in> set ?vw then int (fv w) else -1)" for w
  define kid where "kid w = (if w \<in> set ?kw then int (fk w) else -1)" for w
  let ?B = "built_key E fp m vid kid tokens"
  define G3 where "G3 = map ?B G"
  have ids: "Option.bind (SetIdForValue vb G) (SetIdForKey kb) = Some (map (with_ids vid kid) G)"
    by (rule SetIds_eq) (simp_all add: trie_servesD(1) [OF v(4)] trie_servesD(1) [OF k(4)] vid_def kid_def)
  have keys3: "map ki_key G3 = map ki_key G" by (simp add: G3_def built_key_def)
  have dk: "distinct (map ki_key G)" "set (map ki_key G) = tk_key ` set tokens" using g by (auto simp: groups_def)
  have d3: "distinct G3" using dk(1) keys3 by (metis distinct_map)
  let ?f = "\<lambda>ki. fk (key_word (ki_key ki))"
  have n: "card (set ?kw) = length G3" using distinct_card [OF kf(5)] by (simp add: G3_def)
  have img3: "key_word ` ki_key ` set G3 = set ?kw" using arg_cong [OF keys3, of set] by (auto simp: image_image)
  have bij: "inj_on ?f (set G3)" "?f ` set G3 = {..<length G3}"
  proof -
    have "?f ` set G3 = fk ` set ?kw" unfolding img3 [symmetric] by (simp add: image_image)
    then show i: "?f ` set G3 = {..<length G3}" using trie_servesD(7) [OF k(4)] n by simp
    have "card (?f ` set G3) = card (set G3)" unfolding i using distinct_card [OF d3] by simp
    then show "inj_on ?f (set G3)" by (rule eq_card_imp_inj_on [rotated]) simp
  qed
  have kid3: "ki_id_in_key_trie h = int (?f h)" if "h \<in> set G3" for h
  proof -
    have "key_word (ki_key h) \<in> set ?kw" using that img3 by blast
    then show ?thesis using that by (auto simp: G3_def built_key_def kid_def)
  qed
  define D where "D a = \<lparr>sd_key_trie = Tk, sd_value_trie = Tv, sd_token_array = a, sd_frequent_pos = frequent_pos_array fp\<rparr>" for a
  let ?I = "ordered_infos E vid tokens"
  have src: "source_info E (D a) key ti" if "ti \<in> set (?I key)" for a key ti
  proof -
    from that obtain t where t: "t \<in> set tokens" "tk_key t = key" "ti = (read_info E t)\<lparr>ti_id_in_value_trie := vid (EncodeValue (tk_value t))\<rparr>"
      unfolding ordered_infos_facts(3) by auto
    have "trie_serves ?vw vb (sd_value_trie (D a)) fv" using v(4) by (simp add: D_def)
    from source_info_with_id [OF ok t(1) this vf(1,5)] show ?thesis unfolding t(3) vid_def using t(2) by simp
  qed
  have neI: "?I key \<noteq> []" if "key \<in> tk_key ` set tokens" for key
    using that ordered_infos_facts(3) [of E vid tokens key] by (auto simp flip: set_empty)
  have enc3: "encodable (ki_tokens h)" if hh: "h \<in> set G3" for h
  proof -
    obtain g' where g': "g' \<in> set G" "h = ?B g'" using hh by (auto simp: G3_def)
    then have "ki_key g' \<in> tk_key ` set tokens" using dk(2) by (metis image_eqI set_map)
    from finish_encodable [OF src neI [OF this]] show ?thesis by (simp add: g'(2) built_key_def)
  qed
  have "sum_list (map (\<lambda>h. length (ki_tokens h)) G3) = length tokens"
  proof -
    have "length (ki_tokens (?B h)) = length (ki_tokens h)" if "h \<in> set G" for h
      using g that by (simp add: built_key_def ordered_infos_def groups_def)
    then have "sum_list (map (\<lambda>h. length (ki_tokens h)) G3) = sum_list (map (\<lambda>h. length (ki_tokens h)) G)"
      unfolding G3_def map_map comp_def by (intro arg_cong [where f = sum_list] map_cong [OF refl]) simp
    then show ?thesis using len by (simp add: length_concat comp_def)
  qed
  moreover have "length G3 \<le> length tokens"
  proof -
    have "length G3 = card (tk_key ` set tokens)" using distinct_card [OF dk(1)] dk(2) by (simp add: G3_def)
    also have "\<dots> \<le> length tokens" using card_image_le [of "set tokens" tk_key] card_length [of tokens] by simp
    finally show ?thesis .
  qed
  ultimately have small: "6 * length G3 + 9 * sum_list (map (\<lambda>h. length (ki_tokens h)) G3) + 7 < 2 ^ 31"
    using ok by (simp add: dictionary_ok_def)
  obtain tb a where tb: "BuildTokenArray G3 = Some tb" "Array_Open (vb_image tb) = Some a"
    "\<And>h. h \<in> set G3 \<Longrightarrow> \<exists>bs rest. EncodeTokens (ki_tokens h) = Some bs \<and> Array_Get a (?f h) = Some (bs @ rest)"
    by (rule BuildTokenArray_exists [OF kid3 bij d3 enc3 small]) blast+
  define img where "img = \<lparr>di_value = lb_image vb, di_key = lb_image kb, di_tokens = vb_image tb, di_pos = frequent_pos_array fp\<rparr>"
  have B: "BuildFromTokens E m tokens = Some img"
  proof -
    obtain infos where i: "SetIdForValue vb G = Some infos" "SetIdForKey kb infos = Some (map (with_ids vid kid) G)"
      using ids by (auto simp: bind_eq_Some_conv)
    show ?thesis
      by (simp add: BuildFromTokens_def R fp(1) BuildValueTrie_def v(1,2) BuildKeyTrie_def k(1,2) i passes_built [OF g] tb(1) [unfolded G3_def] img_def)
  qed
  have O: "OpenDictionaryFile img = Some (D a)"
    by (simp add: OpenDictionaryFile_def img_def k(3) v(3) tb(2) D_def)
  have "\<exists>T bs rest ord. fits E (D a) key T \<and> T \<noteq> [] \<and> EncodeTokens T = Some bs \<and>
       GetTokenArrayPtr (D a) (int (fk (key_word key))) = Some (bs @ rest) \<and>
       map stored_token T = map (kept_token (one_byte_costs m tokens key)) ord \<and>
       mset ord = mset (filter (\<lambda>t. tk_key t = key) tokens) \<and>
       sorted (map (\<lambda>t. (- uint (tk_lid t), - uint (tk_rid t))) ord)" if key: "key \<in> tk_key ` set tokens" for key
  proof -
    have "key \<in> set (map ki_key G)" using key dk(2) by simp
    then obtain h where h: "h \<in> set G" "ki_key h = key" by auto
    let ?T = "finish_tokens fp (one_byte_costs m tokens key) (?I key)"
    have B: "ki_tokens (?B h) = ?T" "ki_key (?B h) = key" using h(2) by (simp_all add: built_key_def)
    have "?B h \<in> set G3" using h(1) by (simp add: G3_def)
    from tb(3) [OF this] obtain bs rest where e: "EncodeTokens ?T = Some bs" "Array_Get a (fk (key_word key)) = Some (bs @ rest)"
      unfolding B by blast
    have "fits E (D a) key ?T" by (rule finish_fits [OF src _ fp(2)]) (simp_all add: D_def)
    moreover have "?T \<noteq> []" using neI [OF key] length_finish_tokens [of fp _ "?I key"] by (metis length_0_conv)
    moreover have "map stored_token ?T = map (kept_token (one_byte_costs m tokens key)) (map ti_token (?I key))"
      using finish_stored [where T = "?I key", OF src, where fp = fp] by (simp add: comp_def)
    moreover have "GetTokenArrayPtr (D a) (int (fk (key_word key))) = Some (bs @ rest)" using e(2) by (simp add: GetTokenArrayPtr_def D_def)
    ultimately show ?thesis using e(1) ordered_infos_facts(1,2)
      by (intro exI [of _ ?T] exI [of _ bs] exI [of _ rest] exI [of _ "map ti_token (?I key)"] conjI)
  qed
  then have "serves E m tokens (D a) fk"
    unfolding serves_def using trie_servesD(2,3,5) [OF k(4)] trie_servesD(3) [OF v(4)] vf(1) kf(1)
    by (simp add: D_def stored_values_def del: upt_Suc)
  then show thesis using that B O by blast
qed

subsection \<open>What a caller sees\<close>

text \<open>The callbacks of an exact look-up, on the tokens of the key.\<close>

fun give_tokens :: "'s Callback \<Rightarrow> ustr \<Rightarrow> Token list \<Rightarrow> 's \<Rightarrow> 's" where
  "give_tokens cb key [] s = s"
| "give_tokens cb key (t # ts) s =
     (case OnToken cb key key t s of (r, s') \<Rightarrow> if r = TRAVERSE_CONTINUE then give_tokens cb key ts s' else s')"

definition give_key :: "'s Callback \<Rightarrow> ustr \<Rightarrow> Token list \<Rightarrow> 's \<Rightarrow> 's" where
  "give_key cb key ts s =
     (if ts = [] then s
      else case OnKey cb key s of (r, s) \<Rightarrow> if r \<noteq> TRAVERSE_CONTINUE then s
      else case OnActualKey cb key key 0 s of (r, s) \<Rightarrow> if r \<noteq> TRAVERSE_CONTINUE then s else give_tokens cb key ts s)"

text \<open>The tokens of one key as the dictionary gives them back.\<close>

definition answers :: "nat \<Rightarrow> Token list \<Rightarrow> ustr \<Rightarrow> Token list \<Rightarrow> bool" where
  "answers m tokens key ts \<longleftrightarrow> (\<exists>ord. ts = map (kept_token (one_byte_costs m tokens key)) ord \<and>
     mset ord = mset (filter (\<lambda>t. tk_key t = key) tokens) \<and>
     sorted (map (\<lambda>t. (- uint (tk_lid t), - uint (tk_rid t))) ord))"

lemma answers_Nil: "answers m tokens key [] \<longleftrightarrow> key \<notin> tk_key ` set tokens"
proof -
  have "filter (\<lambda>t. tk_key t = key) tokens = [] \<longleftrightarrow> key \<notin> tk_key ` set tokens" by (auto simp: filter_empty_conv)
  then show ?thesis by (auto simp: answers_def)
qed

lemma answers_values: "answers m tokens key ts \<Longrightarrow> tk_value ` set ts = tk_value ` {t \<in> set tokens. tk_key t = key}"
proof -
  assume "answers m tokens key ts"
  then obtain ord where o: "ts = map (kept_token (one_byte_costs m tokens key)) ord" "mset ord = mset (filter (\<lambda>t. tk_key t = key) tokens)"
    by (auto simp: answers_def)
  have "set ord = {t \<in> set tokens. tk_key t = key}" using arg_cong [OF o(2), of set_mset] by simp
  then show ?thesis unfolding o(1) by (simp add: image_image kept_token_def)
qed

text \<open>The tokens of a key of the dictionary, from the iterator.\<close>

lemma serves_tokens:
  assumes s: "serves E m tokens d f" and key: "key \<in> tk_key ` set tokens" "key \<noteq> []"
  obtains ts where "answers m tokens key ts" "ts \<noteq> []"
    "\<exists>infos. map ti_token infos = ts \<and>
      (\<forall>(body :: TokenInfo \<Rightarrow> 's \<Rightarrow> bool \<times> 's) s. for_tokens E d key (int (f (key_word key))) body s = Some (run_tokens body infos s))"
    "\<exists>infos. map ti_token infos = ts \<and>
      (\<forall>(body :: TokenInfo \<Rightarrow> bool \<times> 's \<Rightarrow> bool \<times> bool \<times> 's) s. for_tokens E d key (int (f (key_word key))) body s = Some (run_tokens body infos s))"
proof -
  from s key(1) obtain T bs rest ord where T: "fits E d key T" "T \<noteq> []" "EncodeTokens T = Some bs"
      "GetTokenArrayPtr d (int (f (key_word key))) = Some (bs @ rest)"
      "map stored_token T = map (kept_token (one_byte_costs m tokens key)) ord"
      "mset ord = mset (filter (\<lambda>t. tk_key t = key) tokens)" "sorted (map (\<lambda>t. (- uint (tk_lid t), - uint (tk_rid t))) ord)"
    unfolding serves_def by blast
  have t: "map ti_token infos = map stored_token T" if "list_all2 delivers T infos" for infos
    using that by (induction rule: list_all2_induct) (auto simp: delivers_def)
  show thesis
  proof (rule that [of "map stored_token T"])
    show "answers m tokens key (map stored_token T)" unfolding answers_def using T(5-7) by blast
    show "map stored_token T \<noteq> []" using T(2) by simp
    show "\<exists>infos. map ti_token infos = map stored_token T \<and>
      (\<forall>(body :: TokenInfo \<Rightarrow> 's \<Rightarrow> bool \<times> 's) s. for_tokens E d key (int (f (key_word key))) body s = Some (run_tokens body infos s))"
      by (rule for_tokens_correct [OF T(1) key(2) T(2-4)]) (use t in blast)
    show "\<exists>infos. map ti_token infos = map stored_token T \<and>
      (\<forall>(body :: TokenInfo \<Rightarrow> bool \<times> 's \<Rightarrow> bool \<times> bool \<times> 's) s. for_tokens E d key (int (f (key_word key))) body s = Some (run_tokens body infos s))"
      by (rule for_tokens_correct [OF T(1) key(2) T(2-4)]) (use t in blast)
  qed
qed

lemma run_give_tokens:
  "run_tokens (\<lambda>ti s. case OnToken cb key key (ti_token ti) s of (r, s) \<Rightarrow> (r = TRAVERSE_CONTINUE, s)) infos s = give_tokens cb key (map ti_token infos) s"
  by (induction infos arbitrary: s) (auto split: prod.splits)

lemma dictionary_keys: "dictionary_ok E tokens \<Longrightarrow> key \<in> tk_key ` set tokens \<Longrightarrow> text_ok key \<and> key \<noteq> []"
  by (auto simp: dictionary_ok_def)

lemma key_word_in:
  assumes "dictionary_ok E tokens" "text_ok key"
  shows "key_word key \<in> key_word ` tk_key ` set tokens \<longleftrightarrow> key \<in> tk_key ` set tokens"
proof -
  have "key_word key = key_word k \<longleftrightarrow> key = k" if "k \<in> tk_key ` set tokens" for k
    using key_word_inj [OF assms(2)] dictionary_keys [OF assms(1) that] by blast
  then show ?thesis by auto
qed

lemma LookupExact_serves:
  assumes ok: "dictionary_ok E tokens" and s: "serves E m tokens d f" and key: "text_ok key"
  shows "\<exists>ts. answers m tokens key ts \<and> (\<forall>(cb :: 's Callback) s. LookupExact E d key cb s = Some (give_key cb key ts s))"
proof (cases "key \<in> tk_key ` set tokens")
  case False
  then have "ExactSearch (sd_key_trie d) (key_word key) = Some (-1)" using s key_word_in [OF ok key] by (auto simp: serves_def)
  then show ?thesis using False by (intro exI [of _ "[]"]) (simp add: answers_Nil LookupExact_def give_key_def)
next
  case True
  then have e: "ExactSearch (sd_key_trie d) (key_word key) = Some (int (f (key_word key)))"
    using s by (simp add: serves_def)
  have ne: "key \<noteq> []" using dictionary_keys [OF ok True] by blast
  obtain ts where ts: "answers m tokens key ts" "ts \<noteq> []" and run: "\<exists>infos. map ti_token infos = ts \<and>
      (\<forall>(body :: TokenInfo \<Rightarrow> 's \<Rightarrow> bool \<times> 's) s. for_tokens E d key (int (f (key_word key))) body s = Some (run_tokens body infos s))"
    by (rule serves_tokens [where 's = 's, OF s True ne])
  from run obtain infos where i: "map ti_token infos = ts \<and>
      (\<forall>(body :: TokenInfo \<Rightarrow> 's \<Rightarrow> bool \<times> 's) s. for_tokens E d key (int (f (key_word key))) body s = Some (run_tokens body infos s))" ..
  have "LookupExact E d key cb s = Some (give_key cb key ts s)" for cb :: "'s Callback" and s
    by (simp add: LookupExact_def e ts(2) i [THEN conjunct1] i [THEN conjunct2, rule_format] run_give_tokens give_key_def split: prod.split)
  then show ?thesis using ts(1) by blast
qed

lemma HasKey_serves:
  "dictionary_ok E tokens \<Longrightarrow> serves E m tokens d f \<Longrightarrow> text_ok key \<Longrightarrow> Dictionary_HasKey d key = Some (key \<in> tk_key ` set tokens)"
  by (simp add: Dictionary_HasKey_def serves_def key_word_in)

lemma run_find: "run_tokens (\<lambda>ti found. if v = tk_value (ti_token ti) then (False, True) else (True, found)) infos found = (found \<or> v \<in> tk_value ` set (map ti_token infos))"
  by (induction infos) auto

lemma HasValue_serves:
  assumes ok: "dictionary_ok E tokens" and s: "serves E m tokens d f" and v: "text_ok v" "text_ok (KatakanaToHiragana E v)"
  shows "Dictionary_HasValue E d v =
    Some (\<exists>t \<in> set tokens. tk_value t = v \<and> (GetValueType E t = DEFAULT_VALUE \<or> tk_key t = KatakanaToHiragana E v))"
proof -
  let ?k = "KatakanaToHiragana E v"
  let ?st = "\<exists>t \<in> set tokens. GetValueType E t = DEFAULT_VALUE \<and> v = tk_value t"
  have "\<forall>t \<in> set tokens. text_ok (tk_value t)" using ok by (simp add: dictionary_ok_def)
  then have "(\<exists>t \<in> set tokens. GetValueType E t = DEFAULT_VALUE \<and> EncodeValue v = EncodeValue (tk_value t)) \<longleftrightarrow> ?st"
    using EncodeValue_inj [OF v(1)] by auto
  then have h: "HasKey (sd_value_trie d) (EncodeValue v) = Some ?st"
    using s unfolding serves_def by (elim conjE allE [of _ "EncodeValue v"]) simp
  have e: "ExactSearch (sd_key_trie d) (key_word ?k) = Some (if ?k \<in> tk_key ` set tokens then int (f (key_word ?k)) else -1)"
    using s key_word_in [OF ok v(2)] by (simp add: serves_def)
  show ?thesis
  proof (cases "?k \<in> tk_key ` set tokens")
    case False
    then have "tk_key t \<noteq> ?k" if "t \<in> set tokens" for t using False that by (metis image_eqI)
    then show ?thesis using False by (auto simp: Dictionary_HasValue_def h e Let_def)
  next
    case True
    have ne: "?k \<noteq> []" using dictionary_keys [OF ok True] by blast
    obtain ts where ts: "answers m tokens ?k ts" and run: "\<exists>infos. map ti_token infos = ts \<and>
      (\<forall>(body :: TokenInfo \<Rightarrow> bool \<Rightarrow> bool \<times> bool) s. for_tokens E d ?k (int (f (key_word ?k))) body s = Some (run_tokens body infos s))"
      by (rule serves_tokens [where 's = bool, OF s True ne])
    from run obtain infos where i: "map ti_token infos = ts \<and>
      (\<forall>(body :: TokenInfo \<Rightarrow> bool \<Rightarrow> bool \<times> bool) s. for_tokens E d ?k (int (f (key_word ?k))) body s = Some (run_tokens body infos s))" ..
    have "v \<in> tk_value ` set ts \<longleftrightarrow> (\<exists>t \<in> set tokens. tk_key t = ?k \<and> tk_value t = v)"
      unfolding answers_values [OF ts] by auto
    then show ?thesis
      by (auto simp: Dictionary_HasValue_def h e True Let_def i [THEN conjunct2, rule_format] run_find i [THEN conjunct1])
  qed
qed

text \<open>The callbacks of a prefix look-up.\<close>

fun give_prefix_tokens :: "'s Callback \<Rightarrow> ustr \<Rightarrow> Token list \<Rightarrow> 's \<Rightarrow> bool \<times> 's" where
  "give_prefix_tokens cb k [] s = (False, s)"
| "give_prefix_tokens cb k (t # ts) s =
     (case OnToken cb k k t s of (r, s) \<Rightarrow>
        if r = TRAVERSE_DONE \<or> r = TRAVERSE_CULL then (True, s)
        else if r = TRAVERSE_NEXT_KEY then (False, s) else give_prefix_tokens cb k ts s)"

definition give_prefix :: "'s Callback \<Rightarrow> ustr \<Rightarrow> Token list \<Rightarrow> 's \<Rightarrow> bool \<times> 's" where
  "give_prefix cb k ts s =
     (case OnKey cb k s of (r, s) \<Rightarrow>
        if r = TRAVERSE_DONE \<or> r = TRAVERSE_CULL then (True, s)
        else if r = TRAVERSE_NEXT_KEY then (False, s)
        else case OnActualKey cb k k 0 s of (r, s) \<Rightarrow>
          if r = TRAVERSE_DONE \<or> r = TRAVERSE_CULL then (True, s)
          else if r = TRAVERSE_NEXT_KEY then (False, s) else give_prefix_tokens cb k ts s)"

fun give_prefixes :: "'s Callback \<Rightarrow> (ustr \<Rightarrow> Token list) \<Rightarrow> ustr list \<Rightarrow> 's \<Rightarrow> 's" where
  "give_prefixes cb tokens_of [] s = s"
| "give_prefixes cb tokens_of (k # ks) s =
     (case give_prefix cb k (tokens_of k) s of (fin, s) \<Rightarrow> if fin then s else give_prefixes cb tokens_of ks s)"

text \<open>The prefixes of a key that are in the dictionary, the shortest first.\<close>

definition dictionary_prefixes :: "Token list \<Rightarrow> ustr \<Rightarrow> ustr list" where
  "dictionary_prefixes tokens key = filter (\<lambda>k. k \<in> tk_key ` set tokens) (map (\<lambda>n. take n key) [1..<length key + 1])"

lemma run_give_prefix_tokens:
  "run_tokens (\<lambda>ti (fin, s). if \<not> True then (True, (fin, s))
       else case OnToken cb k k (ti_token ti) s of
              (r, s) \<Rightarrow> if r = TRAVERSE_DONE \<or> r = TRAVERSE_CULL then (False, (True, s))
                       else (r \<noteq> TRAVERSE_NEXT_KEY, (fin, s))) infos (False, s) = give_prefix_tokens cb k (map ti_token infos) s"
  by (induction infos arbitrary: s) (auto split: prod.splits)

lemma prefix_key_serves:
  assumes s: "serves E m tokens d f" and k: "k \<in> tk_key ` set tokens" "k \<noteq> []"
  shows "\<exists>ts. answers m tokens k ts \<and>
    (\<forall>(cb :: 's Callback) s. prefix_key E d k (f (key_word k)) cb (\<lambda>ti. True) s = Some (give_prefix cb k ts s))"
proof -
  obtain ts where ts: "answers m tokens k ts" and run: "\<exists>infos. map ti_token infos = ts \<and>
      (\<forall>(body :: TokenInfo \<Rightarrow> bool \<times> 's \<Rightarrow> bool \<times> bool \<times> 's) s. for_tokens E d k (int (f (key_word k))) body s = Some (run_tokens body infos s))"
    by (rule serves_tokens [where 's = 's, OF s k])
  from run obtain infos where i: "map ti_token infos = ts \<and>
      (\<forall>(body :: TokenInfo \<Rightarrow> bool \<times> 's \<Rightarrow> bool \<times> bool \<times> 's) s. for_tokens E d k (int (f (key_word k))) body s = Some (run_tokens body infos s))" ..
  have "prefix_tokens E d k (f (key_word k)) cb (\<lambda>ti. True) s = Some (give_prefix_tokens cb k ts s)" for cb :: "'s Callback" and s
    unfolding prefix_tokens_def i [THEN conjunct2, rule_format] run_give_prefix_tokens i [THEN conjunct1] ..
  then have "prefix_key E d k (f (key_word k)) cb (\<lambda>ti. True) s = Some (give_prefix cb k ts s)" for cb :: "'s Callback" and s
    by (simp add: prefix_key_def give_prefix_def split: prod.split)
  then show ?thesis using ts by blast
qed

text \<open>The loop over the bytes of the key calls back where the trie's own prefix search does.\<close>

fun run_calls ::
  "env \<Rightarrow> SystemDictionary \<Rightarrow> ustr \<Rightarrow> u8 list \<Rightarrow> 's Callback \<Rightarrow> (nat \<times> nat) list \<Rightarrow> 's \<Rightarrow> 's option" where
  "run_calls E d key w cb [] s = Some s"
| "run_calls E d key w cb ((i, kid) # calls) s =
     Option.bind (prefix_key E d (byte_take (GetDecodedKeyLength (take i w)) key) kid cb (\<lambda>ti. True) s)
       (\<lambda>(fin, s). if fin then Some s else run_calls E d key w cb calls s)"

lemma each_prefix_calls:
  "map_option (map (\<lambda>(i, nd). (i, GetKeyIdOfTerminalNode (sd_key_trie d) nd))) (prefix_loop (sd_key_trie d) rest (length done) nd) = Some calls \<Longrightarrow>
   each_prefix E d key w cb (\<lambda>ti. True) done rest nd s = run_calls E d key (done @ rest) cb calls s"
proof (induction rest arbitrary: "done" nd calls s)
  case (Cons c rest)
  let ?id = "map (\<lambda>(i, nd). (i, GetKeyIdOfTerminalNode (sd_key_trie d) nd))"
  obtain found nd' where m: "MoveToChildByLabel (sd_key_trie d) c nd = Some (found, nd')" using Cons.prems by (auto simp: bind_eq_Some_conv)
  show ?case
  proof (cases found)
    case False
    then show ?thesis using Cons.prems m by auto
  next
    case True
    obtain cs where cs: "prefix_loop (sd_key_trie d) rest (length (done @ [c])) nd' = Some cs"
      "calls = ?id (if IsTerminalNode (sd_key_trie d) nd' then (length done + 1, nd') # cs else cs)"
      using Cons.prems m True by auto
    have IH: "each_prefix E d key w cb (\<lambda>ti. True) (done @ [c]) rest nd' s = run_calls E d key (done @ c # rest) cb (?id cs) s" for s
      using Cons.IH [of "done @ [c]" nd' "?id cs" s] cs(1) by simp
    show ?thesis using m True cs(2) by (simp add: IH cong: if_cong)
  qed
qed simp

lemma key_word_append: "key_word (s @ t) = key_word s @ key_word t" by (simp add: key_word_def EncodeKey_append str_append)

lemma key_word_prefix:
  assumes "text_ok k" "text_ok key" "take i (key_word key) = key_word k"
  shows "\<exists>n \<le> length key. k = take n key"
proof -
  have v: "valid_ustr (EncodeKey k)" "valid_ustr (EncodeKey key)" using assms(1,2) by (simp_all add: valid_EncodeKey)
  have "str (EncodeKey key) = str (EncodeKey k) @ drop i (key_word key)"
    using assms(3) append_take_drop_id [of i "key_word key"] by (simp add: key_word_def)
  then have "Utf8ToUtf32 (map unat (str (EncodeKey key))) = EncodeKey k @ Utf8ToUtf32 (map unat (drop i (key_word key)))"
    using map_of_nat_u8 [OF bytes_encode_ustr [OF v(1)]] Utf8ToUtf32_encode_append [OF v(1)] by (simp add: str_def)
  then obtain r where "EncodeKey key = EncodeKey k @ r" using Utf8ToUtf32_str [OF v(2)] by auto
  then have "key = k @ DecodeKey r"
    using DecodeKey_EncodeKey [OF text_ok_0 [OF assms(1)]] DecodeKey_EncodeKey [OF text_ok_0 [OF assms(2)]]
    by (simp add: DecodeKey_eq EncodeKey_append)
  then show ?thesis by (intro exI [of _ "length k"]) simp
qed

lemma GetDecodedKeyLength_word:
  assumes "text_ok k"
  shows "GetDecodedKeyLength (key_word k) = byte_size k"
proof -
  have "EncodeKey (EncodeKey k) = k" using DecodeKey_EncodeKey [OF text_ok_0 [OF assms]] by (simp add: DecodeKey_eq)
  then show ?thesis using Utf8ToUtf32_str [OF valid_EncodeKey [OF assms]]
    by (simp add: GetDecodedKeyLength_def key_word_def GetEncodedDecodedKeyLength text_ok_0 [OF text_EncodeKey [OF assms]])
qed

text \<open>The lengths of the prefixes in the trie.\<close>

lemma prefix_lengths:
  assumes ok: "dictionary_ok E tokens" and key: "text_ok key"
  shows "filter (\<lambda>i. take i (key_word key) \<in> key_word ` tk_key ` set tokens) [1..<length (key_word key) + 1] =
    map (\<lambda>k. length (key_word k)) (dictionary_prefixes tokens key)"
    (is "?L = ?R")
proof (rule sorted_distinct_set_unique)
  let ?w = "key_word key" and ?K = "tk_key ` set tokens"
  have v: "text_ok k \<and> k \<noteq> []" if "k \<in> ?K" for k using dictionary_keys [OF ok that] .
  show "sorted ?L" "distinct ?L" by (simp_all add: sorted_wrt_filter del: upt_Suc)
  have g: "length (key_word (take n key)) < length (key_word (take m key))" if "n < m" "m \<le> length key" for n m
  proof -
    have s: "take m key = take n key @ take (m - n) (drop n key)" using that(1) by (simp flip: take_add)
    have "take (m - n) (drop n key) \<noteq> []" "text_ok (take (m - n) (drop n key))"
      using that text_ok_take_drop [OF key, of n] text_ok_take_drop by auto
    then have "key_word (take (m - n) (drop n key)) \<noteq> []" by (rule key_word_Nil [rotated])
    then show ?thesis unfolding s key_word_append by simp
  qed
  have ss: "sorted_wrt (<) (map (\<lambda>n. length (key_word (take n key))) (filter P [1..<length key + 1]))" for P
    unfolding sorted_wrt_map by (rule sorted_wrt_filter, rule sorted_wrt_mono_rel [OF _ strict_sorted_iff [THEN iffD2]])
      (use g in \<open>auto simp del: upt_Suc\<close>)
  have R: "?R = map (\<lambda>n. length (key_word (take n key))) (filter (\<lambda>n. take n key \<in> ?K) [1..<length key + 1])"
    by (simp add: dictionary_prefixes_def filter_map comp_def del: upt_Suc)
  show "sorted ?R" "distinct ?R" using ss unfolding R by (simp_all add: strict_sorted_iff del: upt_Suc)
  show "set ?L = set ?R"
  proof (intro equalityI subsetI)
    fix i assume "i \<in> set ?L"
    then have i: "take i ?w \<in> key_word ` ?K" "i \<le> length ?w" "0 < i" by (simp_all del: upt_Suc)
    then obtain k where k: "k \<in> ?K" "take i ?w = key_word k" "i \<le> length ?w" by blast
    obtain n where n: "n \<le> length key" "k = take n key" using key_word_prefix [OF _ key k(2)] v [OF k(1)] by blast
    have "i = length (key_word k)" using k(3) by (simp flip: k(2))
    moreover have "n \<noteq> 0" using v [OF k(1)] n(2) by auto
    ultimately show "i \<in> set ?R" unfolding R using n k(1) by (auto simp del: upt_Suc)
  next
    fix i assume "i \<in> set ?R"
    then obtain n where n: "1 \<le> n" "n \<le> length key" "take n key \<in> ?K" "i = length (key_word (take n key))"
      unfolding R by (auto simp del: upt_Suc)
    have w: "?w = key_word (take n key) @ key_word (drop n key)" by (simp flip: key_word_append)
    have "1 \<le> length (key_word (take n key))" using key_word_Nil v [OF n(3)] by (metis One_nat_def Suc_leI length_greater_0_conv)
    moreover have "take i ?w = key_word (take n key)" "i \<le> length ?w" using w n(4) by simp_all
    ultimately show "i \<in> set ?L" using n(3,4) by (simp add: image_eqI del: upt_Suc One_nat_def)
  qed
qed

lemma prefix_words_served:
  assumes ok: "dictionary_ok E tokens" and s: "serves E m tokens d f" and key: "text_ok key"
  shows "map_option (map (\<lambda>(i, nd). (i, GetKeyIdOfTerminalNode (sd_key_trie d) nd))) (PrefixSearch (sd_key_trie d) (key_word key)) =
    Some (map (\<lambda>k. (length (key_word k), f (key_word k))) (dictionary_prefixes tokens key))"
proof -
  let ?w = "key_word key" and ?P = "dictionary_prefixes tokens key"
  have t: "take (length (key_word k)) ?w = key_word k" if "k \<in> set ?P" for k
  proof -
    from that obtain n where "k = take n key" by (auto simp: dictionary_prefixes_def simp del: upt_Suc)
    then have "?w = key_word k @ key_word (drop n key)" by (simp flip: key_word_append)
    then show ?thesis by simp
  qed
  have "map_option (map (\<lambda>(i, nd). (i, GetKeyIdOfTerminalNode (sd_key_trie d) nd))) (PrefixSearch (sd_key_trie d) ?w) =
      Some (map (\<lambda>i. (i, f (take i ?w))) (map (\<lambda>k. length (key_word k)) ?P))"
    using s unfolding serves_def prefix_lengths [OF ok key, symmetric] by blast
  moreover have "map (\<lambda>i. (i, f (take i ?w))) (map (\<lambda>k. length (key_word k)) ?P) = map (\<lambda>k. (length (key_word k), f (key_word k))) ?P"
    using t by simp
  ultimately show ?thesis by (simp only:)
qed

lemma LookupPrefix_serves:
  assumes ok: "dictionary_ok E tokens" and s: "serves E m tokens d f" and key: "text_ok key"
  shows "\<exists>tokens_of. (\<forall>k \<in> tk_key ` set tokens. answers m tokens k (tokens_of k)) \<and>
    (\<forall>(cb :: 's Callback) s. \<not> IsKanaModifierInsensitiveConversion cb \<longrightarrow>
      LookupPrefix E d key cb s = Some (give_prefixes cb tokens_of (dictionary_prefixes tokens key) s))"
proof -
  have "\<forall>k \<in> tk_key ` set tokens. \<exists>ts. answers m tokens k ts \<and>
    (\<forall>(cb :: 's Callback) s. prefix_key E d k (f (key_word k)) cb (\<lambda>ti. True) s = Some (give_prefix cb k ts s))"
    using prefix_key_serves [where 's = 's, OF s] dictionary_keys [OF ok] by blast
  then obtain tokens_of where T: "\<forall>k \<in> tk_key ` set tokens. answers m tokens k (tokens_of k) \<and>
    (\<forall>(cb :: 's Callback) s. prefix_key E d k (f (key_word k)) cb (\<lambda>ti. True) s = Some (give_prefix cb k (tokens_of k) s))"
    by (rule bchoice [THEN exE])
  let ?w = "key_word key"
  have run: "run_calls E d key ?w cb (map (\<lambda>k. (length (key_word k), f (key_word k))) ks) s = Some (give_prefixes cb tokens_of ks s)"
    if "set ks \<subseteq> set (dictionary_prefixes tokens key)" for cb :: "'s Callback" and ks s
    using that
  proof (induction ks arbitrary: s)
    case (Cons k ks)
    then obtain n where n: "k = take n key" and k: "k \<in> tk_key ` set tokens" by (auto simp: dictionary_prefixes_def simp del: upt_Suc)
    have v: "text_ok k" using dictionary_keys [OF ok k] by blast
    have "?w = key_word k @ key_word (drop n key)" unfolding n by (simp flip: key_word_append)
    then have "take (length (key_word k)) ?w = key_word k" by simp
    moreover have "byte_take (byte_size k) key = k" using byte_take_prefix [of k "drop n key"] by (simp add: n)
    moreover have "prefix_key E d k (f (key_word k)) cb (\<lambda>ti. True) s = Some (give_prefix cb k (tokens_of k) s)" using T k by blast
    ultimately show ?case using Cons by (simp add: GetDecodedKeyLength_word [OF v] split: prod.split)
  qed simp
  have "LookupPrefix E d key cb s = Some (give_prefixes cb tokens_of (dictionary_prefixes tokens key) s)"
    if "\<not> IsKanaModifierInsensitiveConversion cb" for cb :: "'s Callback" and s
    unfolding LookupPrefix_def Let_def if_P [OF that]
    by (subst each_prefix_calls [OF prefix_words_served [OF ok s key, unfolded PrefixSearch_def, folded list.size(3) [where 'a = u8]]])
      (simp add: run)
  then show ?thesis using T by blast
qed

subsection \<open>A small dictionary\<close>

definition kana_env :: env where
  "kana_env = \<lparr>HiraganaToKatakana = List.map (\<lambda>c. if 0x3041 \<le> c \<and> c \<le> 0x3096 then c + 0x60 else c),
     KatakanaToHiragana = List.map (\<lambda>c. if 0x30A1 \<le> c \<and> c \<le> 0x30F6 then c - 0x60 else c),
     HalfWidthAsciiToFullWidthAscii = (\<lambda>s. s), FullWidthAsciiToHalfWidthAscii = (\<lambda>s. s),
     HalfWidthKatakanaToFullWidthKatakana = (\<lambda>s. s), FullWidthKatakanaToHalfWidthKatakana = (\<lambda>s. s),
     ConvertPreeditString = (\<lambda>s. s)\<rparr>"

definition ka :: Token where
  "ka = NewToken\<lparr>tk_key := [0x304B], tk_value := [0x868A], tk_cost := 5000, tk_lid := 3, tk_rid := 3\<rparr>"
definition kaki :: Token where
  "kaki = NewToken\<lparr>tk_key := [0x304B, 0x304D], tk_value := [0x67FF], tk_cost := 4001, tk_lid := 3, tk_rid := 4\<rparr>"
definition kaki_katakana :: Token where
  "kaki_katakana = NewToken\<lparr>tk_key := [0x304B, 0x304D], tk_value := [0x30AB, 0x30AD], tk_cost := 6000, tk_lid := 7, tk_rid := 7\<rparr>"

definition demo_tokens :: "Token list" where "demo_tokens = [ka, kaki, kaki_katakana]"

lemmas demo_defs = demo_tokens_def ka_def kaki_def kaki_katakana_def kana_env_def NewToken_def

lemma demo_keys: "tk_key ka = [0x304B]" "tk_key kaki = [0x304B, 0x304D]" "tk_key kaki_katakana = [0x304B, 0x304D]"
  by (simp_all add: demo_defs)

lemma demo_ok: "dictionary_ok kana_env demo_tokens"
proof -
  have e: "length (key_word [0x304B]) < 10" "length (key_word [0x304B, 0x304D]) < 10"
    by (simp_all add: key_word_def str_def EncodeKey_def EncodeDecodeKeyImpl_def swap_char_def swap_offset_def Encode_def CodepointToUtf8_def)
  show ?thesis
    unfolding dictionary_ok_def
    by (auto simp: demo_defs GetValueType_def scalar_def kCostMax_def kPosMax_def kMaxDepth_def EncodeValue_def encode_char_def value_consts
       intro: order_less_trans [OF add_strict_mono [OF e(1) add_strict_mono [OF e(2) e(2)]]])
qed

definition collect :: "Token list Callback" where
  "collect = \<lparr>IsKanaModifierInsensitiveConversion = False, OnKey = (\<lambda>k s. (TRAVERSE_CONTINUE, s)), OnActualKey = (\<lambda>k a n s. (TRAVERSE_CONTINUE, s)),
     OnToken = (\<lambda>k a t s. (TRAVERSE_CONTINUE, s @ [t]))\<rparr>"

lemma collect_tokens: "give_tokens collect key ts s = s @ ts" "give_key collect key ts s = s @ ts" "give_prefix collect key ts s = (False, s @ ts)"
proof -
  show 1: "give_tokens collect key ts s = s @ ts" for s by (induction ts arbitrary: s) (simp_all add: collect_def)
  have "give_prefix_tokens collect key ts s = (False, s @ ts)" for s by (induction ts arbitrary: s) (simp_all add: collect_def)
  then show "give_prefix collect key ts s = (False, s @ ts)" by (simp add: give_prefix_def collect_def)
  show "give_key collect key ts s = s @ ts" using 1 by (simp add: give_key_def) (simp add: collect_def)
qed

lemma demo_answers:
  "answers 4 demo_tokens [0x304B] ts \<Longrightarrow> ts = [ka]"
  "answers 4 demo_tokens [0x304B, 0x304D] ts \<Longrightarrow> ts = [kaki_katakana, kaki]"
proof -
  have k: "kept_token (one_byte_costs 4 demo_tokens key) t = t\<lparr>tk_attributes := tk_attributes t AND SPELLING_CORRECTION\<rparr>" if "length key < 4" for key t
    using that by (simp add: kept_token_def one_byte_costs_def)
  have a: "t\<lparr>tk_attributes := tk_attributes t AND SPELLING_CORRECTION\<rparr> = t" if "t \<in> set demo_tokens" for t
    using that by (auto simp: demo_defs)
  show "ts = [ka]" if h: "answers 4 demo_tokens [0x304B] ts"
  proof -
    obtain ord where o: "ts = map (kept_token (one_byte_costs 4 demo_tokens [0x304B])) ord"
        "mset ord = mset (filter (\<lambda>t. tk_key t = [0x304B]) demo_tokens)"
      using h unfolding answers_def by blast
    then have "ord = [ka]" by (simp add: demo_tokens_def demo_keys)
    moreover have "ka \<in> set demo_tokens" by (simp add: demo_tokens_def)
    ultimately show ?thesis by (simp add: o(1) k a)
  qed
  show "ts = [kaki_katakana, kaki]" if h: "answers 4 demo_tokens [0x304B, 0x304D] ts"
  proof -
    obtain ord where o: "ts = map (kept_token (one_byte_costs 4 demo_tokens [0x304B, 0x304D])) ord"
        "mset ord = mset (filter (\<lambda>t. tk_key t = [0x304B, 0x304D]) demo_tokens)"
        "sorted (map (\<lambda>t. (- uint (tk_lid t), - uint (tk_rid t))) ord)"
      using h unfolding answers_def by blast
    have o2: "mset ord = {#kaki, kaki_katakana#}" using o(2) by (simp add: demo_tokens_def demo_keys)
    have "length ord = 2" using arg_cong [OF o2, of size] by simp
    then obtain x y where xy: "ord = [x, y]" by (auto simp: length_Suc_conv numeral_2_eq_2)
    have "{x, y} = {kaki, kaki_katakana}" using arg_cong [OF o2, of set_mset] xy by simp
    then have "x = kaki \<and> y = kaki_katakana \<or> x = kaki_katakana \<and> y = kaki" by (auto simp: doubleton_eq_iff)
    then have "ord = [kaki_katakana, kaki]" using o(3) xy by (auto simp: demo_defs less_eq_prod_def)
    moreover have "kaki \<in> set demo_tokens" "kaki_katakana \<in> set demo_tokens" by (simp_all add: demo_tokens_def)
    ultimately show ?thesis by (simp add: o(1) k a)
  qed
qed

subsection \<open>Properties\<close>

text \<open>
  \<open>C5\<close>: A dictionary built from a list of tokens can be opened, and an exact look-up in it calls back with the tokens of
  the key and nothing else: the key once if it has tokens, then its tokens in decreasing order of their parts of speech until
  the callback stops, with the costs as the codec keeps them. Keys that are not in the list are not found. Keys and values are
  text without U+0000, which the codec would drop, and the tokens keep the limits of the format (\<open>dictionary_ok\<close>): non-empty keys
  and values, costs and parts of speech in range, encoded values of at most 256 bytes, fewer than 0x3f0000 values of which one is stored, and less
  than 2 GiB of words.
\<close>

theorem LookupExact_correct:
  assumes "dictionary_ok E tokens"
  shows "\<exists>img d. BuildFromTokens E m tokens = Some img \<and> OpenDictionaryFile img = Some d \<and>
    (\<forall>key. text_ok key \<longrightarrow> Dictionary_HasKey d key = Some (key \<in> tk_key ` set tokens) \<and>
      (\<exists>ts. answers m tokens key ts \<and> (\<forall>(cb :: 's Callback) s. LookupExact E d key cb s = Some (give_key cb key ts s))))"
  by (rule dictionary_built [OF assms, of m]) (use LookupExact_serves [OF assms] HasKey_serves [OF assms] in blast)

theorem LookupExact_correct_witness:
  "\<exists>img d. BuildFromTokens kana_env 4 demo_tokens = Some img \<and> OpenDictionaryFile img = Some d \<and>
    LookupExact kana_env d [0x304B] collect [] = Some [ka] \<and>
    LookupExact kana_env d [0x304B, 0x304D] collect [] = Some [kaki_katakana, kaki] \<and>
    LookupExact kana_env d [0x304D] collect [] = Some []"
proof -
  from LookupExact_correct [where 's = "Token list", OF demo_ok, of 4] obtain img d where
    d: "BuildFromTokens kana_env 4 demo_tokens = Some img" "OpenDictionaryFile img = Some d"
    and L: "\<forall>key. text_ok key \<longrightarrow> Dictionary_HasKey d key = Some (key \<in> tk_key ` set demo_tokens) \<and>
      (\<exists>ts. answers 4 demo_tokens key ts \<and> (\<forall>(cb :: Token list Callback) s. LookupExact kana_env d key cb s = Some (give_key cb key ts s)))"
    by blast
  have "\<exists>ts. answers 4 demo_tokens key ts \<and> LookupExact kana_env d key collect [] = Some ts" if "text_ok key" for key
    using L that collect_tokens(2) [of key _ "[]"] by auto
  from this [of "[0x304B]"] this [of "[0x304B, 0x304D]"] this [of "[0x304D]"]
  have "LookupExact kana_env d [0x304B] collect [] = Some [ka]" "LookupExact kana_env d [0x304B, 0x304D] collect [] = Some [kaki_katakana, kaki]"
    "\<exists>ts. answers 4 demo_tokens [0x304D] ts \<and> LookupExact kana_env d [0x304D] collect [] = Some ts"
    using demo_answers by (auto simp: scalar_def)
  moreover have "answers 4 demo_tokens [0x304D] ts \<Longrightarrow> ts = []" for ts by (simp add: answers_def demo_tokens_def demo_keys)
  ultimately show ?thesis using d by blast
qed

text \<open>
  \<open>C6\<close>: If the callback does not ask for conversion that ignores kana modifiers (no key expansion), a prefix look-up in a dictionary
  that was built and opened calls back for exactly the prefixes of the key that are keys of the dictionary,
  the shortest first, each with its own tokens, and obeys the results of the callbacks (stop, next key, go on). The keys and values are
  text without U+0000, and the tokens keep the limits of the format, as for \<open>LookupExact_correct\<close>.
\<close>

theorem LookupPrefix_correct:
  assumes "dictionary_ok E tokens" "text_ok key"
  shows "\<exists>img d tokens_of. BuildFromTokens E m tokens = Some img \<and> OpenDictionaryFile img = Some d \<and>
    (\<forall>k \<in> tk_key ` set tokens. answers m tokens k (tokens_of k)) \<and>
    (\<forall>(cb :: 's Callback) s. \<not> IsKanaModifierInsensitiveConversion cb \<longrightarrow>
      LookupPrefix E d key cb s = Some (give_prefixes cb tokens_of (dictionary_prefixes tokens key) s))"
proof -
  obtain img d f where d: "BuildFromTokens E m tokens = Some img" "OpenDictionaryFile img = Some d" "serves E m tokens d f"
    by (rule dictionary_built [OF assms(1)])
  from LookupPrefix_serves [where 's = 's, OF assms(1) d(3) assms(2)] obtain tokens_of where
    t: "\<forall>k \<in> tk_key ` set tokens. answers m tokens k (tokens_of k)"
    "\<forall>(cb :: 's Callback) s. \<not> IsKanaModifierInsensitiveConversion cb \<longrightarrow>
      LookupPrefix E d key cb s = Some (give_prefixes cb tokens_of (dictionary_prefixes tokens key) s)"
    by (elim exE conjE)
  show ?thesis by (intro exI [of _ img] exI [of _ d] exI [of _ tokens_of] conjI d t)
qed

theorem LookupPrefix_correct_witness:
  "\<exists>img d. BuildFromTokens kana_env 4 demo_tokens = Some img \<and> OpenDictionaryFile img = Some d \<and>
    LookupPrefix kana_env d [0x304B, 0x304D, 0x304F] collect [] = Some [ka, kaki_katakana, kaki]"
proof -
  have v: "text_ok [0x304B, 0x304D, 0x304F]" by (simp add: scalar_def)
  from LookupPrefix_correct [where 's = "Token list", OF demo_ok v, of 4] obtain img d tokens_of where
    d: "BuildFromTokens kana_env 4 demo_tokens = Some img" "OpenDictionaryFile img = Some d"
    and a: "\<forall>k \<in> tk_key ` set demo_tokens. answers 4 demo_tokens k (tokens_of k)"
    and P: "\<forall>(cb :: Token list Callback) s. \<not> IsKanaModifierInsensitiveConversion cb \<longrightarrow>
      LookupPrefix kana_env d [0x304B, 0x304D, 0x304F] cb s =
        Some (give_prefixes cb tokens_of (dictionary_prefixes demo_tokens [0x304B, 0x304D, 0x304F]) s)"
    by blast
  have L: "LookupPrefix kana_env d [0x304B, 0x304D, 0x304F] collect [] =
      Some (give_prefixes collect tokens_of (dictionary_prefixes demo_tokens [0x304B, 0x304D, 0x304F]) [])"
    using P by (simp add: collect_def)
  have p: "dictionary_prefixes demo_tokens [0x304B, 0x304D, 0x304F] = [[0x304B], [0x304B, 0x304D]]"
    by (simp add: dictionary_prefixes_def demo_tokens_def demo_keys upt_rec)
  have "tokens_of [0x304B] = [ka]" "tokens_of [0x304B, 0x304D] = [kaki_katakana, kaki]"
    using a demo_answers by (auto simp: demo_tokens_def demo_keys)
  then have "LookupPrefix kana_env d [0x304B, 0x304D, 0x304F] collect [] = Some [ka, kaki_katakana, kaki]"
    unfolding L p by (simp add: collect_tokens(3))
  then show ?thesis using d by blast
qed

text \<open>
  \<^verbatim>\<open>HasValue\<close> finds a value that is stored in the value trie, and a value that is its own reading, or the reading in
  katakana, if the reading of the token is what \<^verbatim>\<open>KatakanaToHiragana\<close> makes of the value.
\<close>

theorem HasValue_correct:
  assumes "dictionary_ok E tokens" "text_ok v" "text_ok (KatakanaToHiragana E v)"
  shows "\<exists>img d. BuildFromTokens E m tokens = Some img \<and> OpenDictionaryFile img = Some d \<and> Dictionary_HasValue E d v =
    Some (\<exists>t \<in> set tokens. tk_value t = v \<and> (GetValueType E t = DEFAULT_VALUE \<or> tk_key t = KatakanaToHiragana E v))"
  by (rule dictionary_built [OF assms(1), of m]) (use HasValue_serves [OF assms(1) _ assms(2,3)] in blast)

theorem HasValue_correct_witness:
  "\<exists>img d. BuildFromTokens kana_env 4 demo_tokens = Some img \<and> OpenDictionaryFile img = Some d \<and>
    Dictionary_HasValue kana_env d [0x30AB, 0x30AD] = Some True"
proof -
  have v: "text_ok [0x30AB, 0x30AD]" "KatakanaToHiragana kana_env [0x30AB, 0x30AD] = [0x304B, 0x304D]"
    by (simp_all add: scalar_def kana_env_def)
  have "text_ok (KatakanaToHiragana kana_env [0x30AB, 0x30AD])" unfolding v(2) by (simp add: scalar_def)
  from HasValue_correct [OF demo_ok v(1) this, of 4] v(2) show ?thesis by (simp add: demo_tokens_def demo_keys) (simp add: demo_defs)
qed

end
