(* ===== verification/LruCache.thy ===== *)
theory LruCache
  imports Prelude
begin

section \<open>The LRU cache\<close>

text \<open>
  \<^verbatim>\<open>storage/lru_cache.h\<close>. The elements of all blocks are one heap, a list; a pointer is an index of it. The
  key and value of a new element are the value-initialised ones, \<open>lc_blank\<close>. \<open>None\<close> is a failed
  \<^verbatim>\<open>CHECK\<close>. The hash table is a map. Sizes are natural numbers, as those of the caches of the program
  are far below the range of \<^verbatim>\<open>size_t\<close>.
\<close>

record ('k, 'v) Element =
  el_next :: "nat option"
  el_prev :: "nat option"
  el_key :: 'k
  el_value :: 'v

record ('k, 'v) LruCache =
  lc_heap :: "('k, 'v) Element list"
  lc_table :: "'k \<Rightarrow> nat option"
  lc_free :: "nat option"
  lc_head :: "nat option"
  lc_tail :: "nat option"
  lc_block_count :: nat
  lc_block_capacity :: nat
  lc_next_block_size :: nat
  lc_max_elements :: nat
  lc_blank :: "'k \<times> 'v"

definition kMaxBlocks :: nat where "kMaxBlocks = 10"

definition set_el :: "nat \<Rightarrow> (('k, 'v) Element \<Rightarrow> ('k, 'v) Element) \<Rightarrow> ('k, 'v) LruCache \<Rightarrow> ('k, 'v) LruCache" where
  "set_el i f c = c\<lparr>lc_heap := (lc_heap c)[i := f (lc_heap c ! i)]\<rparr>"

definition PushFreeList :: "nat \<Rightarrow> ('k, 'v) LruCache \<Rightarrow> ('k, 'v) LruCache" where
  "PushFreeList e c = (set_el e (\<lambda>x. x\<lparr>el_prev := None, el_next := lc_free c\<rparr>) c)\<lparr>lc_free := Some e\<rparr>"

definition next_size :: "nat \<Rightarrow> nat \<Rightarrow> nat \<Rightarrow> nat \<Rightarrow> nat" where
  "next_size max_elements capacity size' blocks_remaining =
     (let doubled = size' * 2;
          elements_remaining = max_elements - capacity;
          capped = (if doubled > elements_remaining div blocks_remaining then elements_remaining div blocks_remaining else doubled)
      in if capacity + capped > max_elements then max_elements - capacity else capped)"

definition AddBlock :: "('k, 'v) LruCache \<Rightarrow> ('k, 'v) LruCache" where
  "AddBlock c =
     (if lc_block_count c < kMaxBlocks \<and> lc_block_capacity c < lc_max_elements c then
        let n = lc_next_block_size c; base = length (lc_heap c);
            c1 = c\<lparr>lc_heap := lc_heap c @
                     replicate n \<lparr>el_next = None, el_prev = None, el_key = fst (lc_blank c), el_value = snd (lc_blank c)\<rparr>,
                   lc_block_capacity := lc_block_capacity c + n\<rparr>;
            c2 = fold PushFreeList [base..<base + n] c1;
            c3 = c2\<lparr>lc_block_count := lc_block_count c + 1\<rparr>;
            blocks_remaining = kMaxBlocks - lc_block_count c3
        in if blocks_remaining > 0
           then c3\<lparr>lc_next_block_size := next_size (lc_max_elements c) (lc_block_capacity c3) n blocks_remaining\<rparr>
           else c3
      else c)"

definition PopFreeList :: "('k, 'v) LruCache \<Rightarrow> (nat option \<times> ('k, 'v) LruCache) option" where
  "PopFreeList c =
     (case lc_free c of
        None \<Rightarrow> Some (None, c)
      | Some r \<Rightarrow>
          if el_prev (lc_heap c ! r) \<noteq> None then None
          else
            let c1 = c\<lparr>lc_free := el_next (lc_heap c ! r)\<rparr>;
                c2 = (case lc_free c1 of None \<Rightarrow> c1 | Some f \<Rightarrow> set_el f (\<lambda>x. x\<lparr>el_prev := None\<rparr>) c1)
            in Some (Some r, set_el r (\<lambda>x. x\<lparr>el_next := None\<rparr>) c2))"

definition NextFreeElement :: "('k, 'v) LruCache \<Rightarrow> (nat option \<times> ('k, 'v) LruCache) option" where
  "NextFreeElement c =
     Option.bind (PopFreeList c) (\<lambda>(r, c1). if r = None then PopFreeList (AddBlock c1) else Some (r, c1))"

definition LookupInternal :: "'k \<Rightarrow> ('k, 'v) LruCache \<Rightarrow> nat option" where
  "LookupInternal key c = lc_table c key"

definition RemoveFromLRU :: "nat \<Rightarrow> ('k, 'v) LruCache \<Rightarrow> ('k, 'v) LruCache" where
  "RemoveFromLRU e c =
     (let n = el_next (lc_heap c ! e); p = el_prev (lc_heap c ! e);
          c1 = (if lc_head c = Some e then c\<lparr>lc_head := n\<rparr> else c);
          c2 = (if lc_tail c1 = Some e then c1\<lparr>lc_tail := p\<rparr> else c1);
          c3 = (case p of None \<Rightarrow> c2 | Some q \<Rightarrow> set_el q (\<lambda>x. x\<lparr>el_next := n\<rparr>) c2);
          c4 = (case n of None \<Rightarrow> c3 | Some q \<Rightarrow> set_el q (\<lambda>x. x\<lparr>el_prev := p\<rparr>) c3)
      in set_el e (\<lambda>x. x\<lparr>el_prev := None, el_next := None\<rparr>) c4)"

definition PushLRUHead :: "nat \<Rightarrow> ('k, 'v) LruCache \<Rightarrow> ('k, 'v) LruCache" where
  "PushLRUHead e c =
     (if lc_head c = Some e then c
      else
        let c1 = RemoveFromLRU e c;
            n = lc_head c1;
            c2 = (set_el e (\<lambda>x. x\<lparr>el_next := n\<rparr>) c1)\<lparr>lc_head := Some e\<rparr>;
            c3 = (case n of None \<Rightarrow> c2 | Some q \<Rightarrow> set_el q (\<lambda>x. x\<lparr>el_prev := Some e\<rparr>) c2)
        in if lc_tail c3 = None then c3\<lparr>lc_tail := Some e\<rparr> else c3)"

definition Evict :: "nat option \<Rightarrow> ('k, 'v) LruCache \<Rightarrow> (bool \<times> ('k, 'v) LruCache) option" where
  "Evict e c =
     (case e of
        None \<Rightarrow> Some (False, c)
      | Some i \<Rightarrow>
          let key = el_key (lc_heap c ! i)
          in if lc_table c key = None then None
             else Some (True, PushFreeList i (RemoveFromLRU i (c\<lparr>lc_table := (lc_table c)(key := None)\<rparr>))))"

function first_block_size :: "nat \<Rightarrow> nat \<Rightarrow> nat" where
  "first_block_size max_elements n =
     (if n \<noteq> 0 \<and> n * 2 ^ kMaxBlocks < max_elements then first_block_size max_elements (n * 2) else n)"
  by auto

termination
proof (relation "measure (\<lambda>(m, n). m - n)")
  fix m n :: nat
  assume a: "n \<noteq> 0 \<and> n * 2 ^ kMaxBlocks < m"
  have "n < m" by (rule le_less_trans [of n "n * 2 ^ kMaxBlocks"]) (use a in simp_all)
  then show "((m, n * 2), m, n) \<in> measure (\<lambda>(m, n). m - n)" using a by auto
qed simp

declare first_block_size.simps [simp del]

definition NewLruCache :: "'k \<times> 'v \<Rightarrow> nat \<Rightarrow> ('k, 'v) LruCache" where
  "NewLruCache blank max_elements =
     \<lparr>lc_heap = [], lc_table = (\<lambda>_. None), lc_free = None, lc_head = None, lc_tail = None, lc_block_count = 0,
      lc_block_capacity = 0,
      lc_next_block_size = (if max_elements \<le> 128 then max_elements else first_block_size max_elements 64),
      lc_max_elements = max_elements, lc_blank = blank\<rparr>"

text \<open>\<^verbatim>\<open>Insert(key)\<close>, which returns the element, and \<^verbatim>\<open>Insert(key, value)\<close>.\<close>

definition InsertKey :: "'k \<Rightarrow> ('k, 'v) LruCache \<Rightarrow> (nat \<times> ('k, 'v) LruCache) option" where
  "InsertKey key c =
     Option.bind (case LookupInternal key c of None \<Rightarrow> Some c
                  | Some e \<Rightarrow> Option.bind (Evict (Some e) c) (\<lambda>(erased, c1). if erased then Some c1 else None)) (\<lambda>c1.
     Option.bind (NextFreeElement c1) (\<lambda>(r, c2).
     Option.bind (case r of Some e \<Rightarrow> Some (e, c2)
                  | None \<Rightarrow>
                      Option.bind (Evict (lc_tail c2) c2) (\<lambda>(erased, c3).
                      if \<not> erased then None
                      else Option.bind (NextFreeElement c3) (\<lambda>(r', c4).
                           case r' of None \<Rightarrow> None | Some e \<Rightarrow> Some (e, c4)))) (\<lambda>(e, c5).
     let c6 = set_el e (\<lambda>x. x\<lparr>el_key := key\<rparr>) c5;
         c7 = c6\<lparr>lc_table := (lc_table c6)(key := Some e)\<rparr>
     in Some (e, PushLRUHead e c7))))"

definition Insert :: "'k \<Rightarrow> 'v \<Rightarrow> ('k, 'v) LruCache \<Rightarrow> ('k, 'v) LruCache option" where
  "Insert key v c = map_option (\<lambda>(e, c1). set_el e (\<lambda>x. x\<lparr>el_value := v\<rparr>) c1) (InsertKey key c)"

definition MutableLookup :: "'k \<Rightarrow> ('k, 'v) LruCache \<Rightarrow> 'v option \<times> ('k, 'v) LruCache" where
  "MutableLookup key c =
     (case LookupInternal key c of
        None \<Rightarrow> (None, c)
      | Some e \<Rightarrow> let c1 = PushLRUHead e c in (Some (el_value (lc_heap c1 ! e)), c1))"

definition LookupWithoutInsert :: "'k \<Rightarrow> ('k, 'v) LruCache \<Rightarrow> 'v option" where
  "LookupWithoutInsert key c = map_option (\<lambda>e. el_value (lc_heap c ! e)) (LookupInternal key c)"

definition Lru_Erase :: "'k \<Rightarrow> ('k, 'v) LruCache \<Rightarrow> (bool \<times> ('k, 'v) LruCache) option" where
  "Lru_Erase key c = Evict (LookupInternal key c) c"

definition Lru_HasKey :: "'k \<Rightarrow> ('k, 'v) LruCache \<Rightarrow> bool" where
  "Lru_HasKey key c \<longleftrightarrow> lc_table c key \<noteq> None"

text \<open>
  The iteration over the elements from the head, with the number of elements as fuel; the iterator
  reads the next pointer before the body runs.
\<close>

fun follow :: "('k, 'v) Element list \<Rightarrow> nat \<Rightarrow> nat option \<Rightarrow> nat list" where
  "follow h 0 p = []"
| "follow h (Suc n) None = []"
| "follow h (Suc n) (Some e) = e # follow h n (el_next (h ! e))"

definition lru_elements :: "('k, 'v) LruCache \<Rightarrow> nat list" where
  "lru_elements c = follow (lc_heap c) (length (lc_heap c)) (lc_head c)"

fun clear_loop :: "nat \<Rightarrow> nat option \<Rightarrow> ('k, 'v) LruCache \<Rightarrow> ('k, 'v) LruCache" where
  "clear_loop 0 p c = c"
| "clear_loop (Suc n) None c = c"
| "clear_loop (Suc n) (Some e) c = (let next' = el_next (lc_heap c ! e) in clear_loop n next' (PushFreeList e c))"

definition Clear :: "('k, 'v) LruCache \<Rightarrow> ('k, 'v) LruCache" where
  "Clear c =
     (let c1 = clear_loop (length (lc_heap c)) (lc_head c) (c\<lparr>lc_table := (\<lambda>_. None)\<rparr>)
      in c1\<lparr>lc_head := None, lc_tail := None\<rparr>)"

subsection \<open>Linked lists on the heap\<close>

text \<open>
  A doubly linked piece of the heap: \<open>p\<close> is the pointer back from its first element, \<open>n\<close> the pointer on
  from its last.
\<close>

definition hd_or :: "'a list \<Rightarrow> 'a option \<Rightarrow> 'a option" where
  "hd_or xs n = (case xs of [] \<Rightarrow> n | x # _ \<Rightarrow> Some x)"

definition last_or :: "'a option \<Rightarrow> 'a list \<Rightarrow> 'a option" where
  "last_or p xs = (if xs = [] then p else Some (last xs))"

lemma hd_or_simps [simp]: "hd_or [] n = n" "hd_or (x # xs) n = Some x" "hd_or (xs @ ys) n = hd_or xs (hd_or ys n)"
  by (simp_all add: hd_or_def split: list.splits)

lemma last_or_simps [simp]: "last_or p [] = p" "last_or p (xs @ [x]) = Some x" "last_or p (x # xs) = last_or (Some x) xs"
  "last_or p (xs @ ys) = last_or (last_or p xs) ys"
  by (simp_all add: last_or_def)

fun seg :: "('k, 'v) Element list \<Rightarrow> nat option \<Rightarrow> nat list \<Rightarrow> nat option \<Rightarrow> bool" where
  "seg h p [] n = True"
| "seg h p (x # xs) n \<longleftrightarrow> el_prev (h ! x) = p \<and> el_next (h ! x) = hd_or xs n \<and> seg h (Some x) xs n"

fun free_seg :: "('k, 'v) Element list \<Rightarrow> nat list \<Rightarrow> bool" where
  "free_seg h [] = True"
| "free_seg h (x # xs) \<longleftrightarrow> el_prev (h ! x) = None \<and> el_next (h ! x) = hd_or xs None \<and> free_seg h xs"

lemma seg_append: "seg h p (xs @ ys) n \<longleftrightarrow> seg h p xs (hd_or ys n) \<and> seg h (last_or p xs) ys n"
  by (induction xs arbitrary: p) auto

lemma seg_cong:
  "(\<And>x. x \<in> set xs \<Longrightarrow> el_prev (h' ! x) = el_prev (h ! x) \<and> el_next (h' ! x) = el_next (h ! x)) \<Longrightarrow> seg h' p xs n = seg h p xs n"
  by (induction xs arbitrary: p) auto

lemma free_seg_cong:
  "(\<And>x. x \<in> set xs \<Longrightarrow> el_prev (h' ! x) = el_prev (h ! x) \<and> el_next (h' ! x) = el_next (h ! x)) \<Longrightarrow> free_seg h' xs = free_seg h xs"
  by (induction xs) auto

lemma hd_or_eq_Some: "hd_or xs None = Some x \<longleftrightarrow> (\<exists>ys. xs = x # ys)"
  by (cases xs) auto

lemma hd_or_eq_None [simp]: "hd_or xs None = None \<longleftrightarrow> xs = []"
  by (cases xs) auto

lemma last_or_eq_Some: "last_or None xs = Some x \<longleftrightarrow> (\<exists>ys. xs = ys @ [x])"
  by (cases xs rule: rev_cases) auto

lemma last_or_eq_None [simp]: "last_or None xs = None \<longleftrightarrow> xs = []"
  by (simp add: last_or_def)

lemma seg_relast:
  assumes "seg h p xs m" "distinct xs"
    and "\<And>x. x \<in> set xs \<Longrightarrow> el_prev (h' ! x) = el_prev (h ! x)"
    and "\<And>x. x \<in> set xs \<Longrightarrow> el_next (h' ! x) = (if last_or None xs = Some x then m' else el_next (h ! x))"
  shows "seg h' p xs m'"
proof (cases xs rule: rev_cases)
  case (snoc ys y)
  have "seg h' p ys (Some y)"
    using assms snoc by (subst seg_cong [of _ h' h]) (auto simp: seg_append)
  then show ?thesis using assms snoc by (auto simp: seg_append)
qed simp

lemma seg_rehead:
  assumes "seg h q xs n" "distinct xs"
    and "\<And>x. x \<in> set xs \<Longrightarrow> el_next (h' ! x) = el_next (h ! x)"
    and "\<And>x. x \<in> set xs \<Longrightarrow> el_prev (h' ! x) = (if hd_or xs None = Some x then q' else el_prev (h ! x))"
  shows "seg h' q' xs n"
proof (cases xs)
  case (Cons x ys)
  have "seg h' (Some x) ys n"
    using assms Cons by (subst seg_cong [of _ h' h]) auto
  then show ?thesis using assms Cons by auto
qed simp

definition lru_rep :: "('k, 'v) LruCache \<Rightarrow> nat list \<Rightarrow> bool" where
  "lru_rep c L \<longleftrightarrow> distinct L \<and> set L \<subseteq> {..<length (lc_heap c)} \<and> seg (lc_heap c) None L None \<and>
     lc_head c = hd_or L None \<and> lc_tail c = last_or None L"

text \<open>What an operation on the links of the elements \<open>X\<close> leaves alone.\<close>

definition frame :: "nat set \<Rightarrow> ('k, 'v) LruCache \<Rightarrow> ('k, 'v) LruCache \<Rightarrow> bool" where
  "frame X c c' \<longleftrightarrow> length (lc_heap c') = length (lc_heap c) \<and>
     (\<forall>i < length (lc_heap c). el_key (lc_heap c' ! i) = el_key (lc_heap c ! i) \<and> el_value (lc_heap c' ! i) = el_value (lc_heap c ! i) \<and>
        (i \<notin> X \<longrightarrow> el_next (lc_heap c' ! i) = el_next (lc_heap c ! i) \<and> el_prev (lc_heap c' ! i) = el_prev (lc_heap c ! i))) \<and>
     lc_table c' = lc_table c \<and> lc_free c' = lc_free c \<and> lc_block_count c' = lc_block_count c \<and>
     lc_block_capacity c' = lc_block_capacity c \<and> lc_next_block_size c' = lc_next_block_size c \<and>
     lc_max_elements c' = lc_max_elements c \<and> lc_blank c' = lc_blank c"

lemma frame_refl: "frame X c c"
  by (simp add: frame_def)

lemma frame_trans: "frame X c c' \<Longrightarrow> frame Y c' c'' \<Longrightarrow> frame (X \<union> Y) c c''"
  by (auto simp: frame_def)

lemma frame_mono: "frame X c c' \<Longrightarrow> X \<subseteq> Y \<Longrightarrow> frame Y c c'"
  by (auto simp: frame_def)

lemma set_el_simps [simp]:
  "lc_heap (set_el i f c) = (lc_heap c)[i := f (lc_heap c ! i)]" "lc_table (set_el i f c) = lc_table c"
  "lc_free (set_el i f c) = lc_free c" "lc_head (set_el i f c) = lc_head c" "lc_tail (set_el i f c) = lc_tail c"
  "lc_block_count (set_el i f c) = lc_block_count c" "lc_block_capacity (set_el i f c) = lc_block_capacity c"
  "lc_next_block_size (set_el i f c) = lc_next_block_size c" "lc_max_elements (set_el i f c) = lc_max_elements c"
  "lc_blank (set_el i f c) = lc_blank c"
  by (simp_all add: set_el_def)

lemma nth_update: "xs[i := y] ! j = (if i = j \<and> j < length xs then y else xs ! j)"
  by (cases "i < length xs") (auto simp: nth_list_update list_update_beyond)

lemma RemoveFromLRU_rest:
  "length (lc_heap (RemoveFromLRU e c)) = length (lc_heap c)" "lc_table (RemoveFromLRU e c) = lc_table c"
  "lc_free (RemoveFromLRU e c) = lc_free c" "lc_block_count (RemoveFromLRU e c) = lc_block_count c"
  "lc_block_capacity (RemoveFromLRU e c) = lc_block_capacity c" "lc_next_block_size (RemoveFromLRU e c) = lc_next_block_size c"
  "lc_max_elements (RemoveFromLRU e c) = lc_max_elements c" "lc_blank (RemoveFromLRU e c) = lc_blank c"
  by (auto simp: RemoveFromLRU_def Let_def split: option.splits)

lemma RemoveFromLRU_heap:
  "lc_heap (RemoveFromLRU e c) =
     (let h = lc_heap c; n = el_next (h ! e); p = el_prev (h ! e);
          h1 = (case p of None \<Rightarrow> h | Some q \<Rightarrow> h[q := (h ! q)\<lparr>el_next := n\<rparr>]);
          h2 = (case n of None \<Rightarrow> h1 | Some q \<Rightarrow> h1[q := (h1 ! q)\<lparr>el_prev := p\<rparr>])
      in h2[e := (h2 ! e)\<lparr>el_prev := None, el_next := None\<rparr>])"
  by (auto simp: RemoveFromLRU_def Let_def split: option.splits)

lemma RemoveFromLRU_data:
  "el_key (lc_heap (RemoveFromLRU e c) ! x) = el_key (lc_heap c ! x) \<and> el_value (lc_heap (RemoveFromLRU e c) ! x) = el_value (lc_heap c ! x)"
  by (cases "el_prev (lc_heap c ! e)"; cases "el_next (lc_heap c ! e)") (simp_all add: RemoveFromLRU_heap Let_def nth_update)

lemma RemoveFromLRU_links:
  assumes "x < length (lc_heap c)" "el_prev (lc_heap c ! e) \<noteq> Some e" "el_next (lc_heap c ! e) \<noteq> Some e"
  shows "el_next (lc_heap (RemoveFromLRU e c) ! x) =
      (if x = e then None else if el_prev (lc_heap c ! e) = Some x then el_next (lc_heap c ! e) else el_next (lc_heap c ! x))"
    and "el_prev (lc_heap (RemoveFromLRU e c) ! x) =
      (if x = e then None else if el_next (lc_heap c ! e) = Some x then el_prev (lc_heap c ! e) else el_prev (lc_heap c ! x))"
  using assms by (cases "el_prev (lc_heap c ! e)"; cases "el_next (lc_heap c ! e)"; simp add: RemoveFromLRU_heap Let_def nth_update)+

lemma RemoveFromLRU_frame:
  assumes "el_prev (lc_heap c ! e) \<noteq> Some e" "el_next (lc_heap c ! e) \<noteq> Some e"
    and "\<And>q. el_next (lc_heap c ! e) = Some q \<Longrightarrow> q \<in> X" "\<And>q. el_prev (lc_heap c ! e) = Some q \<Longrightarrow> q \<in> X" "e \<in> X"
  shows "frame X c (RemoveFromLRU e c)"
  unfolding frame_def using assms(3-5) RemoveFromLRU_links [OF _ assms(1,2)]
  by (auto simp: RemoveFromLRU_rest RemoveFromLRU_data)

lemma RemoveFromLRU_ends:
  "lc_head (RemoveFromLRU e c) = (if lc_head c = Some e then el_next (lc_heap c ! e) else lc_head c)"
  "lc_tail (RemoveFromLRU e c) = (if lc_tail c = Some e then el_prev (lc_heap c ! e) else lc_tail c)"
  by (auto simp: RemoveFromLRU_def Let_def split: option.splits)

lemma RemoveFromLRU_in:
  assumes "lru_rep c (A @ e # B)"
  shows "lru_rep (RemoveFromLRU e c) (A @ B)" and "frame (set (A @ e # B)) c (RemoveFromLRU e c)"
    and "el_next (lc_heap (RemoveFromLRU e c) ! e) = None" "el_prev (lc_heap (RemoveFromLRU e c) ! e) = None"
proof -
  let ?h = "lc_heap c" and ?h' = "lc_heap (RemoveFromLRU e c)"
  have d: "distinct (A @ e # B)" and lt: "\<And>x. x \<in> set (A @ e # B) \<Longrightarrow> x < length ?h"
    and s: "seg ?h None A (Some e)" "seg ?h (Some e) B None"
    and l: "el_prev (?h ! e) = last_or None A" "el_next (?h ! e) = hd_or B None"
    and ht: "lc_head c = hd_or (A @ e # B) None" "lc_tail c = last_or None (A @ e # B)"
    using assms by (auto simp: lru_rep_def seg_append)
  have ne: "el_prev (?h ! e) \<noteq> Some e" "el_next (?h ! e) \<noteq> Some e"
    using d l by (auto simp: last_or_eq_Some hd_or_eq_Some)
  show f: "frame (set (A @ e # B)) c (RemoveFromLRU e c)"
    by (rule RemoveFromLRU_frame [OF ne]) (use lt l in \<open>auto simp: last_or_eq_Some hd_or_eq_Some\<close>)
  have el: "e < length ?h" using lt by simp
  note k = RemoveFromLRU_links [OF _ ne]
  show "el_next (?h' ! e) = None" "el_prev (?h' ! e) = None" using k [OF el] by simp_all
  have "seg ?h' None A (hd_or B None)"
    by (rule seg_relast [OF s(1)]) (use d lt l k in \<open>auto simp: hd_or_eq_Some\<close>)
  moreover have "seg ?h' (last_or None A) B None"
    by (rule seg_rehead [OF s(2)]) (use d lt l k in \<open>auto simp: last_or_eq_Some\<close>)
  moreover have "lc_head (RemoveFromLRU e c) = hd_or (A @ B) None"
    using d l ht by (cases A) (auto simp: RemoveFromLRU_ends)
  moreover have "lc_tail (RemoveFromLRU e c) = last_or None (A @ B)"
    using d l ht by (cases B rule: rev_cases) (auto simp: RemoveFromLRU_ends)
  moreover have "length ?h' = length ?h" using f by (simp add: frame_def)
  ultimately show "lru_rep (RemoveFromLRU e c) (A @ B)" using d lt by (auto simp: lru_rep_def seg_append)
qed

lemma lru_rep_frame:
  assumes "lru_rep c L" "frame X c c'" "X \<inter> set L = {}" "lc_head c' = lc_head c" "lc_tail c' = lc_tail c"
  shows "lru_rep c' L"
  using assms unfolding lru_rep_def frame_def by (subst seg_cong [of L "lc_heap c'" "lc_heap c"]) auto

lemma RemoveFromLRU_out:
  assumes "lru_rep c L" "e \<notin> set L" "e < length (lc_heap c)" "el_next (lc_heap c ! e) = None" "el_prev (lc_heap c ! e) = None"
  shows "lru_rep (RemoveFromLRU e c) L" and "frame {e} c (RemoveFromLRU e c)"
    and "el_next (lc_heap (RemoveFromLRU e c) ! e) = None" "el_prev (lc_heap (RemoveFromLRU e c) ! e) = None"
proof -
  show f: "frame {e} c (RemoveFromLRU e c)" by (rule RemoveFromLRU_frame) (use assms in simp_all)
  have "lc_head c \<noteq> Some e" "lc_tail c \<noteq> Some e"
    using assms(1,2) by (auto simp: lru_rep_def hd_or_eq_Some last_or_eq_Some)
  then show "lru_rep (RemoveFromLRU e c) L"
    by (intro lru_rep_frame [OF assms(1) f]) (use assms(2) in \<open>auto simp: RemoveFromLRU_ends\<close>)
  show "el_next (lc_heap (RemoveFromLRU e c) ! e) = None" "el_prev (lc_heap (RemoveFromLRU e c) ! e) = None"
    using RemoveFromLRU_links [of e c e] assms by simp_all
qed

text \<open>The second half of \<^const>\<open>PushLRUHead\<close>.\<close>

lemma push_front:
  assumes "lru_rep c L" "e \<notin> set L" "e < length (lc_heap c)" "el_prev (lc_heap c ! e) = None"
  defines "c2 \<equiv> (set_el e (\<lambda>x. x\<lparr>el_next := lc_head c\<rparr>) c)\<lparr>lc_head := Some e\<rparr>"
  defines "c3 \<equiv> (case lc_head c of None \<Rightarrow> c2 | Some q \<Rightarrow> set_el q (\<lambda>x. x\<lparr>el_prev := Some e\<rparr>) c2)"
  shows "lru_rep (if lc_tail c3 = None then c3\<lparr>lc_tail := Some e\<rparr> else c3) (e # L) \<and>
    frame (insert e (set L)) c (if lc_tail c3 = None then c3\<lparr>lc_tail := Some e\<rparr> else c3)"
proof -
  let ?r = "if lc_tail c3 = None then c3\<lparr>lc_tail := Some e\<rparr> else c3" and ?h = "lc_heap c"
  have L: "distinct L" "\<And>x. x \<in> set L \<Longrightarrow> x < length ?h" "seg ?h None L None" "lc_head c = hd_or L None" "lc_tail c = last_or None L"
    using assms(1) by (auto simp: lru_rep_def)
  have f: "frame (insert e (set L)) c ?r"
    using L(2,4) assms(3) by (auto simp: frame_def c3_def c2_def nth_update hd_or_eq_Some split: option.splits)
  have lk: "el_next (lc_heap ?r ! x) = (if x = e then hd_or L None else el_next (?h ! x))"
    "el_prev (lc_heap ?r ! x) = (if hd_or L None = Some x then Some e else el_prev (?h ! x))" if "x < length ?h" for x
    using that assms(2,3) L(2,4) by (auto simp: c3_def c2_def nth_update hd_or_eq_Some split: option.splits)
  have "seg (lc_heap ?r) (Some e) L None"
    by (rule seg_rehead [OF L(3,1)]) (use lk L(2) assms(2) in auto)
  moreover have "el_prev (lc_heap ?r ! e) = None" "el_next (lc_heap ?r ! e) = hd_or L None"
    using lk [OF assms(3)] assms(2,4) by (auto simp: hd_or_eq_Some)
  moreover have "lc_head ?r = Some e" by (auto simp: c3_def c2_def split: option.splits)
  moreover have "lc_tail ?r = last_or None (e # L)"
    using L(5) by (cases L rule: rev_cases) (auto simp: c3_def c2_def split: option.splits)
  ultimately show ?thesis using f L(1,2) assms(2,3) by (auto simp: lru_rep_def frame_def)
qed

lemma PushLRUHead_in:
  assumes "lru_rep c (A @ e # B)"
  shows "lru_rep (PushLRUHead e c) (e # A @ B) \<and> frame (set (A @ e # B)) c (PushLRUHead e c)"
proof (cases "lc_head c = Some e")
  case True
  then have "A = []" using assms by (cases A) (auto simp: lru_rep_def)
  then show ?thesis using True assms by (simp add: PushLRUHead_def frame_refl)
next
  case False
  have d: "e \<notin> set (A @ B)" "e < length (lc_heap c)" using assms by (auto simp: lru_rep_def)
  note r = RemoveFromLRU_in [OF assms]
  have "e < length (lc_heap (RemoveFromLRU e c))" using r(2) d(2) by (simp add: frame_def)
  note p = push_front [OF r(1) d(1) this r(4)]
  have "PushLRUHead e c = (let c1 = RemoveFromLRU e c; c2 = (set_el e (\<lambda>x. x\<lparr>el_next := lc_head c1\<rparr>) c1)\<lparr>lc_head := Some e\<rparr>;
      c3 = (case lc_head c1 of None \<Rightarrow> c2 | Some q \<Rightarrow> set_el q (\<lambda>x. x\<lparr>el_prev := Some e\<rparr>) c2)
      in if lc_tail c3 = None then c3\<lparr>lc_tail := Some e\<rparr> else c3)"
    using False by (simp add: PushLRUHead_def Let_def)
  then have "lru_rep (PushLRUHead e c) (e # A @ B) \<and> frame (insert e (set (A @ B))) (RemoveFromLRU e c) (PushLRUHead e c)"
    using p by (simp only: Let_def)
  then show ?thesis using frame_trans [OF r(2)] by (auto intro: frame_mono)
qed

lemma PushLRUHead_out:
  assumes "lru_rep c L" "e \<notin> set L" "e < length (lc_heap c)" "el_next (lc_heap c ! e) = None" "el_prev (lc_heap c ! e) = None"
  shows "lru_rep (PushLRUHead e c) (e # L) \<and> frame (insert e (set L)) c (PushLRUHead e c)"
proof -
  have h: "lc_head c \<noteq> Some e" using assms(1,2) by (auto simp: lru_rep_def hd_or_eq_Some)
  note r = RemoveFromLRU_out [OF assms]
  have "e < length (lc_heap (RemoveFromLRU e c))" using r(2) assms(3) by (simp add: frame_def)
  note p = push_front [OF r(1) assms(2) this r(4)]
  have "PushLRUHead e c = (let c1 = RemoveFromLRU e c; c2 = (set_el e (\<lambda>x. x\<lparr>el_next := lc_head c1\<rparr>) c1)\<lparr>lc_head := Some e\<rparr>;
      c3 = (case lc_head c1 of None \<Rightarrow> c2 | Some q \<Rightarrow> set_el q (\<lambda>x. x\<lparr>el_prev := Some e\<rparr>) c2)
      in if lc_tail c3 = None then c3\<lparr>lc_tail := Some e\<rparr> else c3)"
    using h by (simp add: PushLRUHead_def Let_def)
  then have "lru_rep (PushLRUHead e c) (e # L) \<and> frame (insert e (set L)) (RemoveFromLRU e c) (PushLRUHead e c)"
    using p by (simp only: Let_def)
  then show ?thesis using frame_trans [OF r(2)] by (auto intro: frame_mono)
qed

subsection \<open>The representation of a cache\<close>

text \<open>
  \<open>L\<close> are the elements of the LRU list, \<open>F\<close> those of the free list and \<open>D\<close> those on neither: together
  they are all elements, each once. The table holds exactly the elements of the LRU list, by their keys.
\<close>

definition cache_parts :: "('k, 'v) LruCache \<Rightarrow> nat list \<Rightarrow> nat list \<Rightarrow> nat list \<Rightarrow> bool" where
  "cache_parts c L F D \<longleftrightarrow> lru_rep c L \<and> free_seg (lc_heap c) F \<and> lc_free c = hd_or F None \<and>
     distinct (L @ F @ D) \<and> set (L @ F @ D) = {..<length (lc_heap c)} \<and>
     (\<forall>d \<in> set D. el_next (lc_heap c ! d) = None \<and> el_prev (lc_heap c ! d) = None) \<and>
     lc_block_capacity c = length (lc_heap c)"

definition lru_table_ok :: "('k, 'v) LruCache \<Rightarrow> nat list \<Rightarrow> bool" where
  "lru_table_ok c L \<longleftrightarrow> (\<forall>k i. lc_table c k = Some i \<longleftrightarrow> i \<in> set L \<and> el_key (lc_heap c ! i) = k)"

definition block_sizes_ok :: "nat \<Rightarrow> nat \<Rightarrow> nat \<Rightarrow> nat \<Rightarrow> bool" where
  "block_sizes_ok m capacity n b \<longleftrightarrow> capacity \<le> m \<and>
     (0 < b \<and> capacity < m \<longrightarrow> 1 \<le> n \<and> capacity + n \<le> m \<and> (m - capacity - n = 0 \<or> b - 1 \<le> m - capacity - n))"

definition same_sizes :: "('k, 'v) LruCache \<Rightarrow> ('k, 'v) LruCache \<Rightarrow> bool" where
  "same_sizes c c' \<longleftrightarrow> lc_block_count c' = lc_block_count c \<and> lc_block_capacity c' = lc_block_capacity c \<and>
     lc_next_block_size c' = lc_next_block_size c \<and> lc_max_elements c' = lc_max_elements c \<and> lc_blank c' = lc_blank c \<and>
     length (lc_heap c') = length (lc_heap c)"

definition same_data :: "nat set \<Rightarrow> ('k, 'v) LruCache \<Rightarrow> ('k, 'v) LruCache \<Rightarrow> bool" where
  "same_data X c c' \<longleftrightarrow> (\<forall>i \<in> X. el_key (lc_heap c' ! i) = el_key (lc_heap c ! i) \<and> el_value (lc_heap c' ! i) = el_value (lc_heap c ! i))"

lemma same_sizes_refl [simp]: "same_sizes c c" by (simp add: same_sizes_def)
lemma same_sizes_trans [trans]: "same_sizes a b \<Longrightarrow> same_sizes b c \<Longrightarrow> same_sizes a c" by (simp add: same_sizes_def)
lemma same_data_refl [simp]: "same_data X c c" by (simp add: same_data_def)
lemma same_data_trans: "same_data X a b \<Longrightarrow> same_data X b c \<Longrightarrow> same_data X a c" by (simp add: same_data_def)
lemma same_data_subset: "same_data X a b \<Longrightarrow> Y \<subseteq> X \<Longrightarrow> same_data Y a b" by (auto simp: same_data_def)

lemma frame_same: "frame X c c' \<Longrightarrow> same_sizes c c' \<and> same_data {..<length (lc_heap c)} c c' \<and> lc_table c' = lc_table c \<and> lc_free c' = lc_free c"
  by (simp add: frame_def same_sizes_def same_data_def)

lemma cache_parts_lt:
  assumes "cache_parts c L F D"
  shows "x \<in> set L \<Longrightarrow> x < length (lc_heap c)" "x \<in> set F \<Longrightarrow> x < length (lc_heap c)" "x \<in> set D \<Longrightarrow> x < length (lc_heap c)"
  using assms by (auto simp: cache_parts_def)

text \<open>An operation on the links of the LRU list and of detached elements leaves the free list alone.\<close>

lemma cache_parts_frame:
  assumes "cache_parts c L F D" "frame X c c'" "lru_rep c' L'" "distinct (L' @ D')" "set (L' @ D') = set (L @ D)" "X \<subseteq> set (L @ D)"
    and "\<And>d. d \<in> set D' \<Longrightarrow> el_next (lc_heap c' ! d) = None \<and> el_prev (lc_heap c' ! d) = None"
  shows "cache_parts c' L' F D'"
proof -
  have n: "x < length (lc_heap c) \<and> x \<notin> X" if "x \<in> set F" for x
    using assms(1,6) that by (auto simp: cache_parts_def)
  have f: "free_seg (lc_heap c') F = free_seg (lc_heap c) F"
    by (rule free_seg_cong) (use n assms(2) in \<open>auto simp: frame_def\<close>)
  have "distinct F" "set F \<inter> set (L @ D) = {}" "set F \<union> set (L @ D) = {..<length (lc_heap c)}"
    using assms(1) by (auto simp: cache_parts_def)
  then have "distinct (L' @ F @ D')" "set (L' @ F @ D') = {..<length (lc_heap c)}" using assms(4,5) by auto
  then show ?thesis using assms f by (auto simp: cache_parts_def frame_def)
qed

text \<open>The free list.\<close>

lemma free_seg_prev: "free_seg h F \<Longrightarrow> x \<in> set F \<Longrightarrow> el_prev (h ! x) = None"
  by (induction F) auto

lemma PushFreeList_parts:
  assumes "cache_parts c L F (e # D)"
  shows "cache_parts (PushFreeList e c) L (e # F) D" "same_sizes c (PushFreeList e c)"
    "same_data X c (PushFreeList e c)" "lc_table (PushFreeList e c) = lc_table c"
proof -
  let ?c = "PushFreeList e c"
  have c: "lru_rep c L" "free_seg (lc_heap c) F" "lc_free c = hd_or F None" "distinct (L @ F @ e # D)"
    "set (L @ F @ e # D) = {..<length (lc_heap c)}" "lc_block_capacity c = length (lc_heap c)"
    "\<And>d. d \<in> set D \<Longrightarrow> el_next (lc_heap c ! d) = None \<and> el_prev (lc_heap c ! d) = None"
    using assms by (auto simp: cache_parts_def)
  have h: "lc_heap ?c = (lc_heap c)[e := (lc_heap c ! e)\<lparr>el_prev := None, el_next := lc_free c\<rparr>]"
    "lc_head ?c = lc_head c" "lc_tail ?c = lc_tail c" "lc_free ?c = Some e" "lc_block_capacity ?c = lc_block_capacity c"
    by (simp_all add: PushFreeList_def)
  have "e < length (lc_heap c)" using c(5) by auto
  then have "free_seg (lc_heap ?c) (e # F)"
    using c(2,3,4) by (auto simp: h nth_update intro: free_seg_cong [THEN iffD1, OF _ c(2)])
  moreover have "lru_rep ?c L"
    using c(1,4) unfolding lru_rep_def h by (subst seg_cong [of L _ "lc_heap c"]) (auto simp: nth_update)
  moreover have "el_next (lc_heap ?c ! d) = None \<and> el_prev (lc_heap ?c ! d) = None" if "d \<in> set D" for d
    using c(4) c(7) [OF that] that by (auto simp: h nth_update)
  ultimately show "cache_parts ?c L (e # F) D"
    using c(4,5,6) by (auto simp: cache_parts_def h)
qed (auto simp: PushFreeList_def same_sizes_def same_data_def nth_update)

lemma PopFreeList_Nil: "cache_parts c L [] D \<Longrightarrow> PopFreeList c = Some (None, c)"
  by (simp add: PopFreeList_def cache_parts_def)

lemma PopFreeList_Cons:
  assumes "cache_parts c L (e # F) D"
  obtains c' where "PopFreeList c = Some (Some e, c')" "cache_parts c' L F (e # D)" "same_sizes c c'" "same_data X c c'"
    "lc_table c' = lc_table c"
proof -
  have c: "lru_rep c L" "free_seg (lc_heap c) (e # F)" "lc_free c = Some e" "distinct (L @ (e # F) @ D)"
    "set (L @ (e # F) @ D) = {..<length (lc_heap c)}" "lc_block_capacity c = length (lc_heap c)"
    "\<And>d. d \<in> set D \<Longrightarrow> el_next (lc_heap c ! d) = None \<and> el_prev (lc_heap c ! d) = None"
    using assms by (auto simp: cache_parts_def)
  define c1 where "c1 = c\<lparr>lc_free := hd_or F None\<rparr>"
  define c2 where "c2 = (case F of [] \<Rightarrow> c1 | f # _ \<Rightarrow> set_el f (\<lambda>x. x\<lparr>el_prev := None\<rparr>) c1)"
  define c' where "c' = set_el e (\<lambda>x. x\<lparr>el_next := None\<rparr>) c2"
  have p: "PopFreeList c = Some (Some e, c')"
    using c(2,3) by (cases F) (simp_all add: PopFreeList_def c'_def c2_def c1_def)
  have h: "el_next (lc_heap c' ! i) = (if i = e \<and> i < length (lc_heap c) then None else el_next (lc_heap c ! i))"
    "el_prev (lc_heap c' ! i) = (if hd_or F None = Some i \<and> i < length (lc_heap c) then None else el_prev (lc_heap c ! i))"
    "el_key (lc_heap c' ! i) = el_key (lc_heap c ! i)" "el_value (lc_heap c' ! i) = el_value (lc_heap c ! i)" for i
    by (cases F; simp add: c'_def c2_def c1_def nth_update)+
  have r: "lc_head c' = lc_head c" "lc_tail c' = lc_tail c" "lc_free c' = hd_or F None" "length (lc_heap c') = length (lc_heap c)"
    "lc_table c' = lc_table c" and s: "same_sizes c c'"
    by (cases F; simp add: c'_def c2_def c1_def same_sizes_def)+
  have lt: "e < length (lc_heap c)" using c(5) by auto
  have nd: "e \<notin> set L" "e \<notin> set F" "e \<notin> set D" "\<And>x. hd_or F None = Some x \<Longrightarrow> x \<notin> set L \<and> x \<notin> set D"
    using c(4) by (auto simp: hd_or_eq_Some)
  have "free_seg (lc_heap c) F" using c(2) by simp
  from free_seg_prev [OF this] have fp: "el_prev (lc_heap c ! x) = None" if "x \<in> set F" for x using that .
  have ff: "free_seg (lc_heap c') F" by (rule free_seg_cong [THEN iffD1, OF _ c(2) [simplified, THEN conjunct2, THEN conjunct2]])
      (use nd fp in \<open>auto simp: h\<close>)
  have ll: "lru_rep c' L" using c(1) nd unfolding lru_rep_def r
    by (subst seg_cong [of L _ "lc_heap c"]) (auto simp: h)
  have "cache_parts c' L F (e # D)"
    unfolding cache_parts_def using ff ll c(2,4-7) r s nd lt by (auto simp: h same_sizes_def)
  then show ?thesis using p s r(5) h(3,4) that by (simp add: same_data_def)
qed

text \<open>The sizes: how many elements the cache can hold when all its blocks are there.\<close>

fun capacity_limit :: "nat \<Rightarrow> nat \<Rightarrow> nat \<Rightarrow> nat \<Rightarrow> nat" where
  "capacity_limit m capacity n 0 = capacity"
| "capacity_limit m capacity n (Suc b) =
     (if capacity < m then capacity_limit m (capacity + n) (next_size m (capacity + n) n b) b else capacity)"

lemma next_size_capped:
  assumes "capacity \<le> m" shows "next_size m capacity n b = min (2 * n) ((m - capacity) div b)"
proof -
  define q where "q = (m - capacity) div b"
  have "q \<le> m - capacity" by (simp add: q_def)
  then show ?thesis using assms unfolding next_size_def q_def [symmetric] Let_def by (auto simp: min_def)
qed

lemma capped_size:
  fixes n b r :: nat
  assumes "1 \<le> n" "0 < b" "b \<le> r"
  shows "1 \<le> min (2 * n) (r div b) \<and> min (2 * n) (r div b) \<le> r \<and> b - 1 \<le> r - min (2 * n) (r div b)"
proof -
  define q where "q = r div b"
  have q: "1 \<le> q" using assms(2,3) by (simp add: q_def Suc_le_eq div_greater_zero_iff)
  obtain b' where b': "b = Suc b'" using assms(2) gr0_implies_Suc by blast
  have "q + b' * q \<le> r" using times_div_less_eq_dividend [of b r] by (simp add: q_def b')
  moreover have "b' * 1 \<le> b' * q" by (rule mult_le_mono2 [OF q])
  ultimately have r: "b' + q \<le> r" by linarith
  define k where "k = min (2 * n) q"
  have "1 \<le> k" "k \<le> q" using q assms(1) by (simp_all add: k_def)
  then have "1 \<le> k \<and> k \<le> r \<and> b - 1 \<le> r - k" using r by (simp add: b')
  then show ?thesis by (simp only: k_def q_def)
qed

lemma block_sizes_step:
  assumes "block_sizes_ok m capacity n (Suc b)" "capacity < m"
  shows "block_sizes_ok m (capacity + n) (next_size m (capacity + n) n b) b"
proof -
  let ?r = "m - (capacity + n)"
  have a: "1 \<le> n" "capacity + n \<le> m" "?r = 0 \<or> b \<le> ?r" using assms by (auto simp: block_sizes_ok_def)
  have ns: "next_size m (capacity + n) n b = min (2 * n) (?r div b)" by (rule next_size_capped [OF a(2)])
  have "1 \<le> min (2 * n) (?r div b) \<and> min (2 * n) (?r div b) \<le> ?r \<and> b - 1 \<le> ?r - min (2 * n) (?r div b)"
    if b: "0 < b" and r: "0 < ?r"
    by (rule capped_size [OF a(1) b]) (use a(3) r in simp)
  then show ?thesis using a(2) unfolding block_sizes_ok_def ns
    by (cases "0 < b \<and> 0 < ?r") (auto simp del: min_less_iff_conj min.bounded_iff simp: le_diff_conv2 add.commute)
qed

lemma two_power_ge: "0 < b \<Longrightarrow> 2 * b \<le> (2::nat) ^ b"
proof (induction b)
  case (Suc b)
  then show ?case by (cases b) auto
qed simp

lemma capacity_limit_closed:
  assumes "block_sizes_ok m capacity n b"
  shows "capacity_limit m capacity n b = min m (capacity + n * (2 ^ b - 1))"
  using assms
proof (induction b arbitrary: capacity n)
  case 0
  then show ?case by (simp add: block_sizes_ok_def)
next
  case (Suc b)
  show ?case
  proof (cases "capacity < m")
    case False
    then show ?thesis using Suc.prems by (simp add: block_sizes_ok_def)
  next
    case True
    let ?r = "m - (capacity + n)" and ?p = "2 ^ b - 1 :: nat"
    have a: "1 \<le> n" "capacity + n \<le> m" "?r = 0 \<or> b \<le> ?r" using Suc.prems True by (auto simp: block_sizes_ok_def)
    have "capacity_limit m capacity n (Suc b) = min m (capacity + n + min (2 * n) (?r div b) * ?p)"
      using Suc.IH [OF block_sizes_step [OF Suc.prems True]] True by (simp add: next_size_capped [OF a(2)])
    moreover have "n * (2 ^ Suc b - 1) = n + 2 * n * ?p"
    proof -
      obtain k where "(2::nat) ^ b = Suc k" using not0_implies_Suc [of "2 ^ b"] by auto
      then have "(2::nat) ^ Suc b - 1 = 1 + 2 * ?p" by simp
      then show ?thesis by (simp add: algebra_simps)
    qed
    moreover have "min m (capacity + n + min (2 * n) (?r div b) * ?p) = min m (capacity + n + 2 * n * ?p)"
    proof (cases "b = 0 \<or> 2 * n \<le> ?r div b")
      case True
      then show ?thesis by (auto simp: min_absorb1)
    next
      case False
      then have lt: "?r div b < 2 * n" and b: "0 < b" by auto
      have big: "?r \<le> ?r div b * ?p"
      proof (cases "?r = 0")
        case False
        then have "1 \<le> ?r div b" using a(3) b by (simp add: Suc_le_eq div_greater_zero_iff)
        have "?r mod b \<le> b - 1" using b by (simp add: Suc_le_eq less_Suc_eq_le [symmetric])
        also have "\<dots> \<le> ?r div b * (b - 1)" using \<open>1 \<le> ?r div b\<close> by simp
        finally have "?r \<le> ?r div b * b + ?r div b * (b - 1)" using div_mult_mod_eq [of ?r b] by linarith
        also have "\<dots> = ?r div b * (b + (b - 1))" by (simp add: algebra_simps)
        also have "\<dots> \<le> ?r div b * ?p" using two_power_ge [OF b] by (intro mult_le_mono2) simp
        finally show ?thesis .
      qed simp
      then have "?r \<le> 2 * n * ?p" using lt by (meson less_imp_le_nat le_trans mult_le_mono1)
      then show ?thesis using big lt a(2) by simp
    qed
    ultimately show ?thesis by (simp add: add.assoc)
  qed
qed

definition limit :: "('k, 'v) LruCache \<Rightarrow> nat" where
  "limit c = capacity_limit (lc_max_elements c) (lc_block_capacity c) (lc_next_block_size c) (kMaxBlocks - lc_block_count c)"

definition cache_sizes :: "('k, 'v) LruCache \<Rightarrow> bool" where
  "cache_sizes c \<longleftrightarrow> block_sizes_ok (lc_max_elements c) (lc_block_capacity c) (lc_next_block_size c) (kMaxBlocks - lc_block_count c)"

lemma same_sizes_limit: "same_sizes c c' \<Longrightarrow> limit c' = limit c \<and> cache_sizes c' = cache_sizes c"
  by (simp add: same_sizes_def limit_def cache_sizes_def)

lemma first_block_size_bounds:
  "0 < n \<Longrightarrow> n + 9 \<le> m \<Longrightarrow> 0 < first_block_size m n \<and> first_block_size m n + 9 \<le> m"
proof (induction m n rule: first_block_size.induct)
  case (1 m n)
  show ?case
  proof (cases "n * 2 ^ kMaxBlocks < m")
    case True
    have "n * 2 + 9 \<le> m" using True 1(2) by (simp add: kMaxBlocks_def)
    then have "0 < first_block_size m (n * 2) \<and> first_block_size m (n * 2) + 9 \<le> m" using 1(1) 1(2) True by simp
    moreover have "first_block_size m n = first_block_size m (n * 2)" using True 1(2) by (simp add: first_block_size.simps [of m n])
    ultimately show ?thesis by simp
  qed (use 1(2,3) in \<open>simp add: first_block_size.simps [of m n]\<close>)
qed

lemma NewLruCache_sizes: "cache_sizes (NewLruCache blank m)"
  using first_block_size_bounds [of 64 m]
  by (auto simp: cache_sizes_def NewLruCache_def block_sizes_ok_def kMaxBlocks_def)

lemma limit_New:
  "limit (NewLruCache blank m) = min m (1023 * (if m \<le> 128 then m else first_block_size m 64))"
  using capacity_limit_closed [OF NewLruCache_sizes [unfolded cache_sizes_def, of blank m]]
  by (simp add: limit_def NewLruCache_def kMaxBlocks_def mult.commute)

lemma limit_bounds:
  assumes "cache_sizes c"
  shows "lc_block_capacity c \<le> limit c" "limit c \<le> lc_max_elements c"
  using capacity_limit_closed [OF assms [unfolded cache_sizes_def]] assms unfolding limit_def cache_sizes_def block_sizes_ok_def by auto

text \<open>A new block: all its elements go to the free list.\<close>

lemma fold_PushFreeList:
  assumes "cache_parts c L F (xs @ D)"
  shows "cache_parts (fold PushFreeList xs c) L (rev xs @ F) D \<and> same_sizes c (fold PushFreeList xs c) \<and>
    same_data X c (fold PushFreeList xs c) \<and> lc_table (fold PushFreeList xs c) = lc_table c"
  using assms
proof (induction xs arbitrary: c F)
  case (Cons x xs)
  have p: "cache_parts c L F (x # (xs @ D))" using Cons.prems by simp
  note q = PushFreeList_parts [OF p]
  show ?case using Cons.IH [OF q(1)] q(2,3,4) by (auto intro: same_sizes_trans same_data_trans)
qed simp

lemma seg_heap_append: "set xs \<subseteq> {..<length h} \<Longrightarrow> seg (h @ g) p xs n = seg h p xs n"
  by (rule seg_cong) (auto simp: nth_append)

lemma free_seg_heap_append: "set xs \<subseteq> {..<length h} \<Longrightarrow> free_seg (h @ g) xs = free_seg h xs"
  by (rule free_seg_cong) (auto simp: nth_append)

lemma AddBlock_full:
  assumes "cache_sizes c" "lc_block_capacity c = limit c"
  shows "AddBlock c = c"
proof -
  have "\<not> (lc_block_count c < kMaxBlocks \<and> lc_block_capacity c < lc_max_elements c)"
  proof
    assume a: "lc_block_count c < kMaxBlocks \<and> lc_block_capacity c < lc_max_elements c"
    then have n: "1 \<le> lc_next_block_size c" using assms(1) by (simp add: cache_sizes_def block_sizes_ok_def)
    obtain b where b: "kMaxBlocks - lc_block_count c = Suc b" using a by (metis Suc_diff_Suc)
    have "1 < (2::nat) ^ Suc b" by (rule one_less_power) simp_all
    then have "0 < (2::nat) ^ Suc b - 1" by (simp only: zero_less_diff)
    then have "0 < lc_next_block_size c * (2 ^ Suc b - 1)" using n by (intro mult_pos_pos) simp_all
    then show False using assms a capacity_limit_closed [OF assms(1) [unfolded cache_sizes_def]]
      by (simp only: limit_def b) linarith
  qed
  then show ?thesis by (auto simp: AddBlock_def)
qed

lemma AddBlock_parts:
  assumes "cache_parts c L F []" "cache_sizes c" "lc_block_capacity c < limit c"
  obtains F' where "cache_parts (AddBlock c) L (F' @ F) []" "F' \<noteq> []" "cache_sizes (AddBlock c)" "limit (AddBlock c) = limit c"
    "same_data {..<length (lc_heap c)} c (AddBlock c)" "lc_table (AddBlock c) = lc_table c"
    "lc_blank (AddBlock c) = lc_blank c" "lc_max_elements (AddBlock c) = lc_max_elements c"
proof -
  have lt: "lc_block_capacity c < lc_max_elements c" using limit_bounds [OF assms(2)] assms(3) by linarith
  have bc: "lc_block_count c < kMaxBlocks"
  proof (rule ccontr)
    assume "\<not> ?thesis" then show False using assms(3) by (simp add: limit_def)
  qed
  obtain b where b: "kMaxBlocks - lc_block_count c = Suc b" using bc by (metis Suc_diff_Suc)
  then have b': "kMaxBlocks - Suc (lc_block_count c) = b" by simp
  let ?n = "lc_next_block_size c" and ?h = "lc_heap c"
  have n: "1 \<le> ?n" using assms(2) lt by (simp add: cache_sizes_def block_sizes_ok_def b)
  define new where "new = replicate ?n (\<lparr>el_next = None, el_prev = None, el_key = fst (lc_blank c), el_value = snd (lc_blank c)\<rparr>)"
  define c1 where "c1 = c\<lparr>lc_heap := ?h @ new, lc_block_capacity := lc_block_capacity c + ?n\<rparr>"
  let ?xs = "[length ?h..<length ?h + ?n]"
  have c: "lru_rep c L" "free_seg ?h F" "lc_free c = hd_or F None" "distinct (L @ F)" "set (L @ F) = {..<length ?h}"
    "lc_block_capacity c = length ?h"
    using assms(1) by (auto simp: cache_parts_def)
  have sub: "set L \<subseteq> {..<length ?h}" "set F \<subseteq> {..<length ?h}" using c(5) by auto
  have p1: "cache_parts c1 L F (?xs @ [])"
    unfolding cache_parts_def lru_rep_def
  proof (intro conjI ballI)
    show "seg (lc_heap c1) None L None" "free_seg (lc_heap c1) F"
      using c(1,2) by (simp_all add: c1_def lru_rep_def seg_heap_append [OF sub(1)] free_seg_heap_append [OF sub(2)])
    show "distinct (L @ F @ ?xs @ [])" using c(4) sub by auto
    have "set (L @ F @ ?xs @ []) = set (L @ F) \<union> {length ?h..<length ?h + ?n}" by (simp add: Un_assoc)
    also have "\<dots> = {..<length (lc_heap c1)}"
      unfolding c(5) by (simp add: c1_def new_def ivl_disj_un_one)
    finally show "set (L @ F @ ?xs @ []) = {..<length (lc_heap c1)}" .
    fix d assume "d \<in> set (?xs @ [])"
    then show "el_next (lc_heap c1 ! d) = None" "el_prev (lc_heap c1 ! d) = None" by (auto simp: c1_def new_def nth_append)
  qed (use c in \<open>auto simp: c1_def new_def lru_rep_def\<close>)
  note f = fold_PushFreeList [OF p1, of "{..<length ?h}"]
  define c2 where "c2 = fold PushFreeList ?xs c1"
  have s: "lc_block_count c2 = lc_block_count c" "lc_block_capacity c2 = lc_block_capacity c + ?n"
    "lc_max_elements c2 = lc_max_elements c" "lc_blank c2 = lc_blank c" "lc_table c2 = lc_table c" "lc_next_block_size c2 = ?n"
    using f by (simp_all add: c2_def c1_def same_sizes_def)
  have c2e: "fold PushFreeList ?xs (c\<lparr>lc_heap := ?h @ replicate ?n \<lparr>el_next = None, el_prev = None, el_key = fst (lc_blank c), el_value = snd (lc_blank c)\<rparr>,
      lc_block_capacity := lc_block_capacity c + ?n\<rparr>) = c2"
    by (simp only: c2_def c1_def new_def)
  have a: "AddBlock c = (let c3 = c2\<lparr>lc_block_count := lc_block_count c2 + 1\<rparr>
      in if b > 0 then c3\<lparr>lc_next_block_size := next_size (lc_max_elements c) (lc_block_capacity c3) ?n b\<rparr> else c3)"
    unfolding AddBlock_def Let_def c2e using bc lt by (simp add: s b')
  have h: "lc_heap (AddBlock c) = lc_heap c2" "lc_free (AddBlock c) = lc_free c2" "lc_head (AddBlock c) = lc_head c2"
    "lc_tail (AddBlock c) = lc_tail c2" "lc_block_capacity (AddBlock c) = lc_block_capacity c2" "lc_table (AddBlock c) = lc_table c"
    "lc_blank (AddBlock c) = lc_blank c" "lc_max_elements (AddBlock c) = lc_max_elements c"
    "lc_block_count (AddBlock c) = Suc (lc_block_count c)"
    by (simp_all add: a Let_def s)
  have "cache_parts (AddBlock c) L (rev ?xs @ F) []"
    using f unfolding c2_def [symmetric] by (simp add: cache_parts_def lru_rep_def h)
  moreover have "rev ?xs \<noteq> []" using n by simp
  moreover have st: "block_sizes_ok (lc_max_elements c) (lc_block_capacity c + ?n) (next_size (lc_max_elements c) (lc_block_capacity c + ?n) ?n b) b"
    by (rule block_sizes_step [OF _ lt]) (use assms(2) in \<open>simp add: cache_sizes_def b\<close>)
  have "cache_sizes (AddBlock c) \<and> limit (AddBlock c) = limit c"
  proof (cases "b = 0")
    case True
    then show ?thesis using st lt by (simp add: cache_sizes_def block_sizes_ok_def limit_def h s b b')
  next
    case False
    then have "lc_next_block_size (AddBlock c) = next_size (lc_max_elements c) (lc_block_capacity c + ?n) ?n b" by (simp add: a Let_def s)
    then show ?thesis using st lt by (simp add: cache_sizes_def limit_def h s b b')
  qed
  moreover have "same_data {..<length ?h} c (AddBlock c)"
  proof -
    have "same_data {..<length ?h} c c1" by (simp add: same_data_def c1_def nth_append)
    moreover have "same_data {..<length ?h} c1 (AddBlock c)" using f by (simp add: same_data_def h c2_def)
    ultimately show ?thesis by (rule same_data_trans)
  qed
  ultimately show ?thesis using that h by blast
qed

lemma NextFreeElement_parts:
  assumes "cache_parts c L F []" "cache_sizes c" "F \<noteq> [] \<or> length (lc_heap c) < limit c"
  obtains e c' F' where "NextFreeElement c = Some (Some e, c')" "cache_parts c' L F' [e]" "cache_sizes c'" "limit c' = limit c"
    "same_data (set L) c c'" "lc_table c' = lc_table c" "lc_max_elements c' = lc_max_elements c"
proof (cases F)
  case (Cons f F1)
  obtain c' where p: "PopFreeList c = Some (Some f, c')" "cache_parts c' L F1 (f # [])" "same_sizes c c'"
    "same_data (set L) c c'" "lc_table c' = lc_table c"
    by (rule PopFreeList_Cons [OF assms(1) [unfolded Cons]])
  have "NextFreeElement c = Some (Some f, c')" by (simp add: NextFreeElement_def p(1))
  then show ?thesis using that p same_sizes_limit [OF p(3)] assms(2) by (simp add: same_sizes_def)
next
  case Nil
  have cap: "lc_block_capacity c = length (lc_heap c)" using assms(1) by (simp add: cache_parts_def)
  have nf: "lc_block_capacity c < limit c" using assms(3) Nil cap by simp
  obtain F' where a: "cache_parts (AddBlock c) L (F' @ F) []" "F' \<noteq> []" "cache_sizes (AddBlock c)" "limit (AddBlock c) = limit c"
    "same_data {..<length (lc_heap c)} c (AddBlock c)" "lc_table (AddBlock c) = lc_table c"
    "lc_max_elements (AddBlock c) = lc_max_elements c"
    by (rule AddBlock_parts [OF assms(1,2) nf])
  obtain f F1 where F': "F' @ F = f # F1" using a(2) by (cases F') auto
  obtain c' where p: "PopFreeList (AddBlock c) = Some (Some f, c')" "cache_parts c' L F1 (f # [])" "same_sizes (AddBlock c) c'"
    "same_data (set L) (AddBlock c) c'" "lc_table c' = lc_table (AddBlock c)"
    by (rule PopFreeList_Cons [OF a(1) [unfolded F']])
  have n: "NextFreeElement c = Some (Some f, c')"
    by (simp add: NextFreeElement_def PopFreeList_Nil [OF assms(1) [unfolded Nil]] p(1))
  have sub: "set L \<subseteq> {..<length (lc_heap c)}" using cache_parts_lt(1) [OF assms(1)] by auto
  have d: "same_data (set L) c c'" by (rule same_data_trans [OF same_data_subset [OF a(5) sub] p(4)])
  show ?thesis
    by (rule that [OF n p(2) _ _ d]) (use p same_sizes_limit [OF p(3)] a in \<open>simp_all add: same_sizes_def\<close>)
qed

lemma NextFreeElement_full:
  assumes "cache_parts c L [] []" "cache_sizes c" "length (lc_heap c) = limit c"
  shows "NextFreeElement c = Some (None, c)"
proof -
  have "AddBlock c = c" by (rule AddBlock_full [OF assms(2)]) (use assms(1,3) in \<open>simp add: cache_parts_def\<close>)
  then show ?thesis by (simp add: NextFreeElement_def PopFreeList_Nil [OF assms(1)])
qed

lemma lru_rep_cong:
  assumes "lru_rep c L" "lc_heap c' = lc_heap c" "lc_head c' = lc_head c" "lc_tail c' = lc_tail c"
  shows "lru_rep c' L"
  using assms by (simp add: lru_rep_def)

lemma Evict_parts:
  assumes "cache_parts c (A @ e # B) F []" "lru_table_ok c (A @ e # B)"
  obtains c' where "Evict (Some e) c = Some (True, c')" "cache_parts c' (A @ B) (e # F) []" "lru_table_ok c' (A @ B)" "same_sizes c c'"
    "same_data X c c'"
proof -
  let ?k = "el_key (lc_heap c ! e)"
  define c1 where "c1 = c\<lparr>lc_table := (lc_table c)(?k := None)\<rparr>"
  have t: "lc_table c ?k \<noteq> None" using assms(2) by (auto simp: lru_table_ok_def)
  have c1: "cache_parts c1 (A @ e # B) F []" using assms(1) by (simp add: cache_parts_def lru_rep_def c1_def)
  then have r1: "lru_rep c1 (A @ e # B)" by (simp add: cache_parts_def)
  note r = RemoveFromLRU_in [OF r1]
  define c2 where "c2 = RemoveFromLRU e c1"
  have p2: "cache_parts c2 (A @ B) F [e]"
    unfolding c2_def
    by (rule cache_parts_frame [OF c1 r(2,1)]) (use c1 r(3,4) in \<open>auto simp: cache_parts_def\<close>)
  note p3 = PushFreeList_parts [OF p2]
  have f2: "same_sizes c1 c2 \<and> lc_table c2 = lc_table c1" using frame_same [OF r(2)] by (simp add: c2_def)
  have d2: "same_data X c1 c2" by (simp add: same_data_def c2_def RemoveFromLRU_data)
  have d1: "same_data X c c1" "same_sizes c c1" by (simp_all add: same_data_def same_sizes_def c1_def)
  have "Evict (Some e) c = Some (True, PushFreeList e c2)" using t by (simp add: Evict_def c2_def c1_def Let_def)
  moreover have d: "same_data Y c (PushFreeList e c2)" for Y
    using PushFreeList_parts(3) [OF p2] by (simp add: same_data_def c1_def c2_def RemoveFromLRU_data)
  moreover have "lru_table_ok (PushFreeList e c2) (A @ B)"
  proof -
    have tb: "lc_table (PushFreeList e c2) = (lc_table c)(?k := None)" using p3(4) f2 by (simp add: c1_def)
    have k: "el_key (lc_heap (PushFreeList e c2) ! i) = el_key (lc_heap c ! i)" for i
      using d [of "{i}"] by (simp add: same_data_def)
    have nd: "distinct (A @ e # B)" using r1 by (simp add: lru_rep_def)
    have inj: "i = e" if "i \<in> set (A @ e # B)" "el_key (lc_heap c ! i) = ?k" for i
      using assms(2) that unfolding lru_table_ok_def by (metis in_set_conv_decomp option.inject)
    show ?thesis unfolding lru_table_ok_def tb k
      using assms(2) inj nd by (auto simp: lru_table_ok_def)
  qed
  moreover have "same_sizes c (PushFreeList e c2)" using p3(2) f2 d1(2) by (metis same_sizes_trans)
  ultimately show ?thesis using that p3(1) by blast
qed

lemma PushLRUHead_new:
  assumes "cache_parts c L F [e]"
  shows "cache_parts (PushLRUHead e c) (e # L) F []" "frame (insert e (set L)) c (PushLRUHead e c)"
proof -
  have l: "lru_rep c L" "e \<notin> set L" "e < length (lc_heap c)" "el_next (lc_heap c ! e) = None" "el_prev (lc_heap c ! e) = None"
    using assms by (auto simp: cache_parts_def)
  note p = PushLRUHead_out [OF l]
  then show "frame (insert e (set L)) c (PushLRUHead e c)" by simp
  show "cache_parts (PushLRUHead e c) (e # L) F []"
    by (rule cache_parts_frame [OF assms, of "insert e (set L)"]) (use p l assms in \<open>auto simp: cache_parts_def\<close>)
qed

lemma PushLRUHead_old:
  assumes "cache_parts c (A @ e # B) F []"
  shows "cache_parts (PushLRUHead e c) (e # A @ B) F []" "frame (set (A @ e # B)) c (PushLRUHead e c)"
proof -
  have l: "lru_rep c (A @ e # B)" using assms by (simp add: cache_parts_def)
  note p = PushLRUHead_in [OF l]
  then show "frame (set (A @ e # B)) c (PushLRUHead e c)" by simp
  show "cache_parts (PushLRUHead e c) (e # A @ B) F []"
    by (rule cache_parts_frame [OF assms, of "set (A @ e # B)"]) (use p assms in \<open>auto simp: cache_parts_def\<close>)
qed

subsection \<open>The abstract cache: keys and values, the most recently used first\<close>

definition pairs :: "('k, 'v) LruCache \<Rightarrow> nat list \<Rightarrow> ('k \<times> 'v) list" where
  "pairs c L = map (\<lambda>i. (el_key (lc_heap c ! i), el_value (lc_heap c ! i))) L"

definition cache_rep :: "('k, 'v) LruCache \<Rightarrow> nat list \<Rightarrow> nat list \<Rightarrow> bool" where
  "cache_rep c L F \<longleftrightarrow> cache_parts c L F [] \<and> lru_table_ok c L \<and> cache_sizes c"

definition lru_inv :: "('k, 'v) LruCache \<Rightarrow> bool" where
  "lru_inv c \<longleftrightarrow> (\<exists>L F. cache_rep c L F) \<and> 0 < limit c"

definition lru_abs :: "('k, 'v) LruCache \<Rightarrow> ('k \<times> 'v) list" where
  "lru_abs c = pairs c (lru_elements c)"

definition drop_key :: "'k \<Rightarrow> ('k \<times> 'v) list \<Rightarrow> ('k \<times> 'v) list" where
  "drop_key k xs = filter (\<lambda>p. fst p \<noteq> k) xs"

definition spec_insert :: "nat \<Rightarrow> 'k \<Rightarrow> 'v \<Rightarrow> ('k \<times> 'v) list \<Rightarrow> ('k \<times> 'v) list" where
  "spec_insert n k v xs = (k, v) # take (n - 1) (drop_key k xs)"

definition spec_lookup :: "'k \<Rightarrow> ('k \<times> 'v) list \<Rightarrow> ('k \<times> 'v) list" where
  "spec_lookup k xs = (case map_of xs k of None \<Rightarrow> xs | Some v \<Rightarrow> (k, v) # drop_key k xs)"

lemma follow_seg: "seg h p L None \<Longrightarrow> length L \<le> n \<Longrightarrow> follow h n (hd_or L None) = L"
proof (induction L arbitrary: n p)
  case Nil
  then show ?case by (cases n) auto
next
  case (Cons x L)
  then obtain m where "n = Suc m" by (cases n) auto
  then show ?case using Cons by auto
qed

lemma cache_parts_length:
  assumes "cache_parts c L F D" shows "length L + length F + length D = length (lc_heap c)"
proof -
  have "card (set (L @ F @ D)) = length (lc_heap c)" using assms by (simp add: cache_parts_def)
  moreover have "card (set (L @ F @ D)) = length (L @ F @ D)"
    by (rule distinct_card) (use assms in \<open>simp add: cache_parts_def\<close>)
  ultimately show ?thesis by simp
qed

lemma lru_elements_rep: "cache_parts c L F D \<Longrightarrow> lru_elements c = L"
  using cache_parts_length [of c L F D] follow_seg [of "lc_heap c" None L "length (lc_heap c)"]
  by (simp add: lru_elements_def cache_parts_def lru_rep_def)

lemma lru_abs_rep: "cache_parts c L F D \<Longrightarrow> lru_abs c = pairs c L"
  by (simp add: lru_abs_def lru_elements_rep)

lemma pairs_same: "same_data (set L) c c' \<Longrightarrow> pairs c' L = pairs c L"
  by (simp add: pairs_def same_data_def)

lemma pairs_append [simp]: "pairs c (A @ B) = pairs c A @ pairs c B" "pairs c [] = []" "length (pairs c A) = length A"
  "pairs c (x # A) = (el_key (lc_heap c ! x), el_value (lc_heap c ! x)) # pairs c A"
  by (simp_all add: pairs_def)

lemma lru_table_ok_keys:
  assumes "lru_table_ok c L" shows "lc_table c k = None \<longleftrightarrow> k \<notin> fst ` set (pairs c L)"
proof -
  have "(\<exists>i. lc_table c k = Some i) \<longleftrightarrow> (\<exists>i \<in> set L. el_key (lc_heap c ! i) = k)"
    using assms unfolding lru_table_ok_def by blast
  moreover have "fst ` set (pairs c L) = (\<lambda>i. el_key (lc_heap c ! i)) ` set L" by (simp add: pairs_def image_image)
  ultimately show ?thesis by (cases "lc_table c k") auto
qed

lemma drop_key_append: "drop_key k (xs @ ys) = drop_key k xs @ drop_key k ys"
  by (simp add: drop_key_def)

lemma drop_key_Cons: "drop_key k (x # xs) = (if fst x = k then drop_key k xs else x # drop_key k xs)"
  by (simp add: drop_key_def)

lemma drop_key_out: "k \<notin> fst ` set xs \<Longrightarrow> drop_key k xs = xs"
  by (auto simp: drop_key_def filter_id_conv)

text \<open>The elements of the list have different keys.\<close>

lemma lru_table_ok_inj:
  assumes "lru_table_ok c L" "i \<in> set L" "j \<in> set L" "el_key (lc_heap c ! i) = el_key (lc_heap c ! j)" shows "i = j"
proof -
  have "lc_table c (el_key (lc_heap c ! i)) = Some i" "lc_table c (el_key (lc_heap c ! i)) = Some j"
    using assms by (auto simp: lru_table_ok_def)
  then show ?thesis by simp
qed

lemma pairs_split:
  assumes "lru_table_ok c (A @ e # B)" "distinct (A @ e # B)"
  shows "drop_key (el_key (lc_heap c ! e)) (pairs c (A @ e # B)) = pairs c (A @ B)"
    and "map_of (pairs c (A @ e # B)) (el_key (lc_heap c ! e)) = Some (el_value (lc_heap c ! e))"
proof -
  let ?k = "el_key (lc_heap c ! e)"
  have n: "x = e" if "x \<in> set (A @ e # B)" "el_key (lc_heap c ! x) = ?k" for x
    by (rule lru_table_ok_inj [OF assms(1) that(1) _ that(2)]) simp
  have o: "?k \<notin> fst ` set (pairs c A)" "?k \<notin> fst ` set (pairs c B)"
    using n assms(2) by (force simp: pairs_def)+
  have "map_of (pairs c A) ?k = None" using o(1) by (simp only: map_of_eq_None_iff not_False_eq_True)
  then show "drop_key ?k (pairs c (A @ e # B)) = pairs c (A @ B)"
    "map_of (pairs c (A @ e # B)) ?k = Some (el_value (lc_heap c ! e))"
    using o by (simp_all add: drop_key_append drop_key_Cons drop_key_out map_add_def)
qed

lemma cache_rep_keys: "cache_rep c L F \<Longrightarrow> distinct (map fst (pairs c L))"
proof -
  assume a: "cache_rep c L F"
  then have "distinct L" "lru_table_ok c L" by (auto simp: cache_rep_def cache_parts_def)
  then show ?thesis by (auto simp: pairs_def distinct_map comp_def inj_on_def dest: lru_table_ok_inj)
qed

text \<open>An element in the table is on the list.\<close>

lemma cache_rep_find:
  assumes "cache_rep c L F" "lc_table c k = Some e"
  obtains A B where "L = A @ e # B" "el_key (lc_heap c ! e) = k" "drop_key k (pairs c L) = pairs c (A @ B)"
    "map_of (pairs c L) k = Some (el_value (lc_heap c ! e))"
proof -
  have t: "lru_table_ok c L" "distinct L" using assms(1) by (auto simp: cache_rep_def cache_parts_def)
  then have "e \<in> set L" and k: "el_key (lc_heap c ! e) = k" using assms(2) by (auto simp: lru_table_ok_def)
  then obtain A B where L: "L = A @ e # B" by (auto simp: in_set_conv_decomp)
  from pairs_split [OF t [unfolded L]] show ?thesis using that [OF L k] by (simp add: L k)
qed

lemma cache_rep_evict:
  assumes "cache_rep c (A @ e # B) F"
  obtains c' where "Evict (Some e) c = Some (True, c')" "cache_rep c' (A @ B) (e # F)" "same_sizes c c'" "pairs c' (A @ B) = pairs c (A @ B)"
proof -
  have a: "cache_parts c (A @ e # B) F []" "lru_table_ok c (A @ e # B)" using assms by (auto simp: cache_rep_def)
  obtain c' where c': "Evict (Some e) c = Some (True, c')" "cache_parts c' (A @ B) (e # F) []" "lru_table_ok c' (A @ B)" "same_sizes c c'"
    "same_data (set (A @ B)) c c'"
    by (rule Evict_parts [OF a])
  then show ?thesis using that same_sizes_limit [OF c'(4)] pairs_same [OF c'(5)] assms by (simp add: cache_rep_def)
qed

lemma frame_rep:
  assumes "frame X c c'" "cache_parts c' L' F []" "lru_table_ok c L" "set L' = set L" "cache_sizes c" "set L \<subseteq> {..<length (lc_heap c)}"
  shows "cache_rep c' L' F" "pairs c' L' = pairs c L'" "limit c' = limit c" "el_value (lc_heap c' ! e) = el_value (lc_heap c ! e) \<or> e \<notin> set L"
proof -
  note f = frame_same [OF assms(1)]
  have d: "el_key (lc_heap c' ! i) = el_key (lc_heap c ! i) \<and> el_value (lc_heap c' ! i) = el_value (lc_heap c ! i)" if "i \<in> set L" for i
    using f assms(6) that by (auto simp: same_data_def)
  show "pairs c' L' = pairs c L'" using d assms(4) by (auto simp: pairs_def)
  have "lru_table_ok c' L'" using assms(3,4) d f by (auto simp: lru_table_ok_def)
  then show "cache_rep c' L' F" "limit c' = limit c" using assms(2,5) same_sizes_limit [of c c'] f by (auto simp: cache_rep_def)
  show "el_value (lc_heap c' ! e) = el_value (lc_heap c ! e) \<or> e \<notin> set L" using d by blast
qed

lemma lru_rep_sub: "cache_rep c L F \<Longrightarrow> set L \<subseteq> {..<length (lc_heap c)} \<and> distinct L"
  by (auto simp: cache_rep_def cache_parts_def)

text \<open>The three stages of an insertion: the old element goes, an element is freed, it gets the key.\<close>

lemma Insert_old:
  assumes "cache_rep c L F"
  obtains c1 L1 F1 where
    "(case LookupInternal k c of None \<Rightarrow> Some c
      | Some e \<Rightarrow> Option.bind (Evict (Some e) c) (\<lambda>(erased, c1). if erased then Some c1 else None)) = Some c1"
    "cache_rep c1 L1 F1" "limit c1 = limit c" "lc_max_elements c1 = lc_max_elements c" "pairs c1 L1 = drop_key k (pairs c L)"
proof (cases "lc_table c k")
  case None
  then have "drop_key k (pairs c L) = pairs c L"
    using assms lru_table_ok_keys [of c L k] by (intro drop_key_out) (simp add: cache_rep_def)
  then show ?thesis using that [of c L F] None assms by (simp add: LookupInternal_def)
next
  case (Some e)
  obtain A B where L: "L = A @ e # B" "drop_key k (pairs c L) = pairs c (A @ B)"
    by (rule cache_rep_find [OF assms Some])
  obtain c1 where c1: "Evict (Some e) c = Some (True, c1)" "cache_rep c1 (A @ B) (e # F)" "same_sizes c c1"
    "pairs c1 (A @ B) = pairs c (A @ B)"
    by (rule cache_rep_evict [OF assms [unfolded L(1)]])
  show ?thesis
    by (rule that [OF _ c1(2)]) (use c1 L same_sizes_limit [OF c1(3)] Some in \<open>simp_all add: LookupInternal_def same_sizes_def\<close>)
qed

lemma cache_parts_limit:
  assumes "cache_parts c L F D" "cache_sizes c" shows "length L + length F + length D \<le> limit c"
  using cache_parts_length [OF assms(1)] limit_bounds(1) [OF assms(2)] assms(1) by (simp add: cache_parts_def)

lemma free_element:
  assumes "cache_rep c L F" "0 < limit c"
  obtains e c' L' F' where
    "Option.bind (NextFreeElement c) (\<lambda>(r, c2).
       case r of Some e \<Rightarrow> Some (e, c2)
       | None \<Rightarrow> Option.bind (Evict (lc_tail c2) c2) (\<lambda>(erased, c3).
           if \<not> erased then None
           else Option.bind (NextFreeElement c3) (\<lambda>(r', c4). case r' of None \<Rightarrow> None | Some e \<Rightarrow> Some (e, c4)))) = Some (e, c')"
    "cache_parts c' L' F' [e]" "lru_table_ok c' L'" "cache_sizes c'" "limit c' = limit c" "pairs c' L' = take (limit c - 1) (pairs c L)"
proof -
  have a: "cache_parts c L F []" "lru_table_ok c L" "cache_sizes c" using assms(1) by (simp_all add: cache_rep_def)
  have cap: "lc_block_capacity c = length (lc_heap c)" using a(1) by (simp add: cache_parts_def)
  have len: "length L + length F = length (lc_heap c)" using cache_parts_length [OF a(1)] by simp
  show ?thesis
  proof (cases "F \<noteq> [] \<or> length (lc_heap c) < limit c")
    case True
    obtain e c' F' where n: "NextFreeElement c = Some (Some e, c')" "cache_parts c' L F' [e]" "cache_sizes c'" "limit c' = limit c"
      "same_data (set L) c c'" "lc_table c' = lc_table c"
      by (rule NextFreeElement_parts [OF a(1,3) True])
    have "lru_table_ok c' L" using a(2) n(5,6) by (auto simp: lru_table_ok_def same_data_def)
    moreover have "length L \<le> limit c - 1" using cache_parts_limit [OF n(2,3)] n(4) by simp
    ultimately show ?thesis
      by (intro that [of e c' L F']) (use n pairs_same [OF n(5)] in simp_all)
  next
    case False
    then have F: "F = []" and full: "length (lc_heap c) = limit c" using limit_bounds(1) [OF a(3)] cap by auto
    have "L \<noteq> []" using len F full assms(2) by auto
    then obtain A t where L: "L = A @ [t]" by (cases L rule: rev_cases) auto
    have n0: "NextFreeElement c = Some (None, c)" by (rule NextFreeElement_full [OF a(1) [unfolded F] a(3) full])
    have tl: "lc_tail c = Some t" using a(1) by (simp add: cache_parts_def lru_rep_def L)
    obtain c1 where c1: "Evict (Some t) c = Some (True, c1)" "cache_rep c1 (A @ []) (t # F)" "same_sizes c c1"
      "pairs c1 (A @ []) = pairs c (A @ [])"
      by (rule cache_rep_evict [OF assms(1) [unfolded L]])
    have a1: "cache_parts c1 A [t] []" "lru_table_ok c1 A" "cache_sizes c1" using c1(2) F by (simp_all add: cache_rep_def)
    obtain e c' F' where n: "NextFreeElement c1 = Some (Some e, c')" "cache_parts c' A F' [e]" "cache_sizes c'" "limit c' = limit c1"
      "same_data (set A) c1 c'" "lc_table c' = lc_table c1"
      by (rule NextFreeElement_parts [OF a1(1,3)]) simp
    have "lru_table_ok c' A" using a1(2) n(5,6) by (auto simp: lru_table_ok_def same_data_def)
    moreover have "pairs c' A = take (limit c - 1) (pairs c L)"
      using pairs_same [OF n(5)] c1(4) len F full by (simp add: L)
    ultimately show ?thesis
      by (intro that [of e c' A F']) (use n n0 tl c1 same_sizes_limit [OF c1(3)] in simp_all)
  qed
qed

lemma place_element:
  fixes v :: 'v
  assumes "cache_parts c L F [e]" "lru_table_ok c L" "cache_sizes c" "k \<notin> fst ` set (pairs c L)"
  defines "c6 \<equiv> set_el e (\<lambda>x. x\<lparr>el_key := k\<rparr>) c"
  defines "c7 \<equiv> c6\<lparr>lc_table := (lc_table c6)(k := Some e)\<rparr>"
  defines "c8 \<equiv> set_el e (\<lambda>x. x\<lparr>el_value := v\<rparr>) (PushLRUHead e c7)"
  shows "cache_rep c8 (e # L) F" "limit c8 = limit c" "pairs c8 (e # L) = (k, v) # pairs c L"
proof -
  have e: "e < length (lc_heap c)" "e \<notin> set L" using assms(1) by (auto simp: cache_parts_def)
  have h7: "el_key (lc_heap c7 ! i) = (if i = e then k else el_key (lc_heap c ! i))" "el_next (lc_heap c7 ! i) = el_next (lc_heap c ! i)"
    "el_prev (lc_heap c7 ! i) = el_prev (lc_heap c ! i)" "el_value (lc_heap c7 ! i) = el_value (lc_heap c ! i)" for i
    using e(1) by (auto simp: c7_def c6_def nth_update)
  have seg7: "seg (lc_heap c7) p xs n = seg (lc_heap c) p xs n" "free_seg (lc_heap c7) xs = free_seg (lc_heap c) xs" for p xs n
    by (rule seg_cong, simp add: h7) (rule free_seg_cong, simp add: h7)
  have r7: "length (lc_heap c7) = length (lc_heap c)" "lc_head c7 = lc_head c" "lc_tail c7 = lc_tail c" "lc_free c7 = lc_free c"
    "lc_block_capacity c7 = lc_block_capacity c" and s7: "same_sizes c c7"
    by (simp_all add: c7_def c6_def same_sizes_def)
  have p7: "cache_parts c7 L F [e]" using assms(1) by (simp add: cache_parts_def lru_rep_def r7 seg7 h7)
  define c9 where "c9 = PushLRUHead e c7"
  note p9 = PushLRUHead_new [OF p7, folded c9_def]
  have f9: "same_sizes c7 c9" "lc_table c9 = lc_table c7"
    "i < length (lc_heap c) \<Longrightarrow> el_key (lc_heap c9 ! i) = el_key (lc_heap c7 ! i) \<and> el_value (lc_heap c9 ! i) = el_value (lc_heap c7 ! i)" for i
    using frame_same [OF p9(2)] by (simp_all add: same_data_def r7)
  have len9: "length (lc_heap c9) = length (lc_heap c)" using f9(1) r7(1) by (simp add: same_sizes_def)
  have lt: "i < length (lc_heap c)" if "i \<in> set L" for i using cache_parts_lt(1) [OF assms(1) that] .
  have h8: "el_key (lc_heap c8 ! i) = el_key (lc_heap c9 ! i)" "el_next (lc_heap c8 ! i) = el_next (lc_heap c9 ! i)"
    "el_prev (lc_heap c8 ! i) = el_prev (lc_heap c9 ! i)" "el_value (lc_heap c8 ! i) = (if i = e then v else el_value (lc_heap c9 ! i))" for i
    using e(1) by (auto simp: c8_def c9_def [symmetric] nth_update len9)
  have seg8: "seg (lc_heap c8) p xs n = seg (lc_heap c9) p xs n" "free_seg (lc_heap c8) xs = free_seg (lc_heap c9) xs" for p xs n
    by (rule seg_cong, simp add: h8) (rule free_seg_cong, simp add: h8)
  have r8: "length (lc_heap c8) = length (lc_heap c9)" "lc_head c8 = lc_head c9" "lc_tail c8 = lc_tail c9" "lc_free c8 = lc_free c9"
    "lc_block_capacity c8 = lc_block_capacity c9" "lc_table c8 = lc_table c9" and s8: "same_sizes c9 c8"
    by (simp_all add: c8_def c9_def [symmetric] same_sizes_def)
  have p8: "cache_parts c8 (e # L) F []" using p9(1) by (simp add: cache_parts_def lru_rep_def r8 seg8 h8)
  have s: "same_sizes c c8" using s7 f9(1) s8 by (metis same_sizes_trans)
  have key: "el_key (lc_heap c8 ! i) = el_key (lc_heap c ! i) \<and> el_value (lc_heap c8 ! i) = el_value (lc_heap c ! i)" if "i \<in> set L" for i
    using e(2) f9(3) [OF lt [OF that]] that by (auto simp: h8 h7)
  have kk: "el_key (lc_heap c8 ! e) = k" "el_value (lc_heap c8 ! e) = v" using f9(3) [OF e(1)] by (simp_all add: h8 h7)
  show ps: "pairs c8 (e # L) = (k, v) # pairs c L" using kk key by (simp add: pairs_def)
  have tb: "lc_table c8 = (lc_table c)(k := Some e)" using r8(6) f9(2) by (simp add: c7_def c6_def)
  have fresh: "lc_table c k = None" "\<And>i. i \<in> set L \<Longrightarrow> el_key (lc_heap c ! i) \<noteq> k"
    using assms(4) lru_table_ok_keys [OF assms(2), of k] by (auto simp: pairs_def image_image)
  have "lru_table_ok c8 (e # L)"
    unfolding lru_table_ok_def
  proof (intro allI)
    fix k' i
    show "lc_table c8 k' = Some i \<longleftrightarrow> i \<in> set (e # L) \<and> el_key (lc_heap c8 ! i) = k'"
    proof (cases "k' = k")
      case True
      then show ?thesis using fresh(2) key kk by (auto simp: tb)
    next
      case False
      then show ?thesis using assms(2) key kk e(2) by (auto simp: tb lru_table_ok_def)
    qed
  qed
  then show "cache_rep c8 (e # L) F" "limit c8 = limit c" using p8 same_sizes_limit [OF s] assms(3) by (auto simp: cache_rep_def)
qed

lemma Insert_rep:
  assumes "cache_rep c L F" "0 < limit c"
  obtains c' L' F' where "Insert k v c = Some c'" "cache_rep c' L' F'" "limit c' = limit c"
    "pairs c' L' = spec_insert (limit c) k v (pairs c L)"
proof -
  obtain c1 L1 F1 where 1:
    "(case LookupInternal k c of None \<Rightarrow> Some c
      | Some e \<Rightarrow> Option.bind (Evict (Some e) c) (\<lambda>(erased, c1). if erased then Some c1 else None)) = Some c1"
    "cache_rep c1 L1 F1" "limit c1 = limit c" "pairs c1 L1 = drop_key k (pairs c L)"
    by (rule Insert_old [OF assms(1)])
  have l1: "0 < limit c1" using 1(3) assms(2) by simp
  obtain e c5 L5 F5 where 5:
    "Option.bind (NextFreeElement c1) (\<lambda>(r, c2).
       case r of Some e \<Rightarrow> Some (e, c2)
       | None \<Rightarrow> Option.bind (Evict (lc_tail c2) c2) (\<lambda>(erased, c3).
           if \<not> erased then None
           else Option.bind (NextFreeElement c3) (\<lambda>(r', c4). case r' of None \<Rightarrow> None | Some e \<Rightarrow> Some (e, c4)))) = Some (e, c5)"
    "cache_parts c5 L5 F5 [e]" "lru_table_ok c5 L5" "cache_sizes c5" "limit c5 = limit c1" "pairs c5 L5 = take (limit c1 - 1) (pairs c1 L1)"
    by (rule free_element [OF 1(2) l1])
  have k: "k \<notin> fst ` set (pairs c5 L5)"
    unfolding 5(6) 1(4) by (auto simp: drop_key_def dest!: in_set_takeD)
  define c6 where "c6 = set_el e (\<lambda>x. x\<lparr>el_key := k\<rparr>) c5"
  define c7 where "c7 = c6\<lparr>lc_table := (lc_table c6)(k := Some e)\<rparr>"
  note p = place_element [OF 5(2,3,4) k, of v, folded c6_def, folded c7_def]
  obtain r2 c2 where n: "NextFreeElement c1 = Some (r2, c2)"
    using 5(1) by (cases "NextFreeElement c1") auto
  have "InsertKey k c = Some (e, PushLRUHead e c7)"
    unfolding InsertKey_def 1(1) using 5(1) by (simp add: n Let_def c6_def c7_def)
  then have "Insert k v c = Some (set_el e (\<lambda>x. x\<lparr>el_value := v\<rparr>) (PushLRUHead e c7))" by (simp add: Insert_def)
  then show ?thesis using that p 5(5,6) 1(3,4) by (simp add: spec_insert_def)
qed

lemma PushLRUHead_rep:
  assumes "cache_rep c L F" "lc_table c k = Some e"
  obtains L' where "cache_rep (PushLRUHead e c) L' F" "limit (PushLRUHead e c) = limit c"
    "map_of (pairs c L) k = Some (el_value (lc_heap (PushLRUHead e c) ! e))" "pairs (PushLRUHead e c) L' = spec_lookup k (pairs c L)"
proof -
  obtain A B where L: "L = A @ e # B" "el_key (lc_heap c ! e) = k" "drop_key k (pairs c L) = pairs c (A @ B)"
    "map_of (pairs c L) k = Some (el_value (lc_heap c ! e))"
    by (rule cache_rep_find [OF assms])
  have a: "cache_parts c (A @ e # B) F []" "lru_table_ok c L" "cache_sizes c" using assms(1) L(1) by (simp_all add: cache_rep_def)
  note p = PushLRUHead_old [OF a(1)]
  have s: "set (e # A @ B) = set L" using L(1) by auto
  have lt: "set L \<subseteq> {..<length (lc_heap c)}" using lru_rep_sub [OF assms(1)] by simp
  note f = frame_rep [OF p(2,1) a(2) s a(3) lt]
  have "el_value (lc_heap (PushLRUHead e c) ! e) = el_value (lc_heap c ! e)" using f(4) [of e] L(1) by auto
  moreover have "pairs (PushLRUHead e c) (e # A @ B) = spec_lookup k (pairs c L)"
    unfolding f(2) spec_lookup_def L(3,4) by (simp add: L(2))
  ultimately show ?thesis using that f(1,3) L(4) by simp
qed

lemma lookup_none:
  assumes "cache_rep c L F" "lc_table c k = None"
  shows "map_of (pairs c L) k = None" "drop_key k (pairs c L) = pairs c L" "spec_lookup k (pairs c L) = pairs c L"
proof -
  have k: "k \<notin> fst ` set (pairs c L)" using assms lru_table_ok_keys [of c L k] by (simp add: cache_rep_def)
  then show "drop_key k (pairs c L) = pairs c L" by (rule drop_key_out)
  show "map_of (pairs c L) k = None" using k by (simp only: map_of_eq_None_iff not_False_eq_True)
  then show "spec_lookup k (pairs c L) = pairs c L" by (simp add: spec_lookup_def)
qed

text \<open>Clearing: every element of the LRU list goes to the free list; the links of the LRU list stay behind.\<close>

lemma clear_loop_steps:
  assumes "seg (lc_heap c) p L None" "distinct L" "length L \<le> n" "set L \<subseteq> {..<length (lc_heap c)}"
  shows "clear_loop n (hd_or L None) c = fold PushFreeList L c"
  using assms
proof (induction L arbitrary: n p c)
  case Nil
  then show ?case by (cases n) auto
next
  case (Cons x L)
  then obtain m where n: "n = Suc m" by (cases n) auto
  have "seg (lc_heap (PushFreeList x c)) (Some x) L None"
    using Cons.prems by (subst seg_cong [of L _ "lc_heap c"]) (auto simp: PushFreeList_def nth_update)
  moreover have "el_next (lc_heap c ! x) = hd_or L None" using Cons.prems(1) by simp
  moreover have "length (lc_heap (PushFreeList x c)) = length (lc_heap c)" by (simp add: PushFreeList_def)
  ultimately show ?case using Cons.IH [of "PushFreeList x c" "Some x" m] Cons.prems n by simp
qed

text \<open>Moving the elements to the free list one by one, the LRU list forgotten.\<close>

lemma fold_push_free:
  assumes "free_seg (lc_heap c) F" "lc_free c = hd_or F None" "distinct (L @ F)" "set (L @ F) \<subseteq> {..<length (lc_heap c)}"
  shows "free_seg (lc_heap (fold PushFreeList L c)) (rev L @ F) \<and> lc_free (fold PushFreeList L c) = hd_or (rev L @ F) None \<and>
    same_sizes c (fold PushFreeList L c) \<and> lc_table (fold PushFreeList L c) = lc_table c"
  using assms
proof (induction L arbitrary: c F)
  case (Cons x L)
  have "free_seg (lc_heap c) F" "x \<notin> set F" using Cons.prems by auto
  then have f: "free_seg (lc_heap (PushFreeList x c)) F"
    by (subst free_seg_cong [of F _ "lc_heap c"]) (auto simp: PushFreeList_def nth_update)
  have g: "el_prev (lc_heap (PushFreeList x c) ! x) = None" "el_next (lc_heap (PushFreeList x c) ! x) = hd_or F None"
    "lc_free (PushFreeList x c) = Some x" "same_sizes c (PushFreeList x c)" "lc_table (PushFreeList x c) = lc_table c"
    "length (lc_heap (PushFreeList x c)) = length (lc_heap c)"
    using Cons.prems by (simp_all add: PushFreeList_def same_sizes_def)
  have "free_seg (lc_heap (PushFreeList x c)) (x # F)" using f g by simp
  from Cons.IH [OF this] show ?case using g Cons.prems by (auto intro: same_sizes_trans)
qed simp

lemma Clear_rep:
  assumes "cache_rep c L F"
  obtains F' where "cache_rep (Clear c) [] F'" "limit (Clear c) = limit c"
proof -
  let ?c = "c\<lparr>lc_table := (\<lambda>_. None)\<rparr>"
  have a: "cache_parts c L F []" "cache_sizes c" using assms by (simp_all add: cache_rep_def)
  have l: "seg (lc_heap c) None L None" "lc_head c = hd_or L None" "distinct (L @ F)" "set (L @ F) = {..<length (lc_heap c)}"
    "free_seg (lc_heap c) F" "lc_free c = hd_or F None" "lc_block_capacity c = length (lc_heap c)"
    using a(1) by (auto simp: cache_parts_def lru_rep_def)
  have "length L \<le> length (lc_heap c)" using cache_parts_length [OF a(1)] by simp
  then have cl: "clear_loop (length (lc_heap c)) (lc_head c) ?c = fold PushFreeList L ?c"
    unfolding l(2) using l by (intro clear_loop_steps [of _ None]) auto
  define d where "d = fold PushFreeList L ?c"
  have sub: "set (L @ F) \<subseteq> {..<length (lc_heap c)}" using l(4) by (simp only: subset_refl)
  have "free_seg (lc_heap d) (rev L @ F) \<and> lc_free d = hd_or (rev L @ F) None \<and> same_sizes ?c d \<and> lc_table d = lc_table ?c"
    unfolding d_def by (rule fold_push_free) (use l(3,5,6) sub in simp_all)
  then have f: "free_seg (lc_heap d) (rev L @ F)" "lc_free d = hd_or (rev L @ F) None" "same_sizes ?c d" "lc_table d = (\<lambda>_. None)"
    by simp_all
  have cd: "Clear c = d\<lparr>lc_head := None, lc_tail := None\<rparr>" by (simp add: Clear_def cl d_def)
  have s: "same_sizes c (Clear c)" using f(3) by (simp add: cd same_sizes_def)
  have len: "length (lc_heap d) = length (lc_heap c)" "lc_block_capacity d = lc_block_capacity c" using f(3) by (simp_all add: same_sizes_def)
  have "cache_parts (Clear c) [] (rev L @ F) []"
    using f l by (auto simp: cache_parts_def lru_rep_def cd len)
  moreover have "lru_table_ok (Clear c) []" by (simp add: lru_table_ok_def cd f(4))
  ultimately show ?thesis using that same_sizes_limit [OF s] a(2) by (simp add: cache_rep_def)
qed

lemma New_rep: "cache_rep (NewLruCache blank m) [] []"
proof -
  have "cache_parts (NewLruCache blank m) [] [] []" by (simp add: cache_parts_def lru_rep_def NewLruCache_def)
  moreover have "lru_table_ok (NewLruCache blank m) []" by (simp add: lru_table_ok_def NewLruCache_def)
  ultimately show ?thesis using NewLruCache_sizes by (simp add: cache_rep_def)
qed

lemma lru_abs_cache_rep: "cache_rep c L F \<Longrightarrow> lru_abs c = pairs c L"
  unfolding cache_rep_def by (blast intro: lru_abs_rep)

subsection \<open>Sequences of operations\<close>

datatype ('k, 'v) CacheOp = OpInsert 'k 'v | OpLookup 'k | OpPeek 'k | OpHasKey 'k | OpErase 'k | OpClear

datatype 'v CacheOut = Done | Found "'v option" | Answer bool

fun cache_step :: "('k, 'v) CacheOp \<Rightarrow> ('k, 'v) LruCache \<Rightarrow> ('v CacheOut \<times> ('k, 'v) LruCache) option" where
  "cache_step (OpInsert k v) c = map_option (\<lambda>c'. (Done, c')) (Insert k v c)"
| "cache_step (OpLookup k) c = (case MutableLookup k c of (r, c') \<Rightarrow> Some (Found r, c'))"
| "cache_step (OpPeek k) c = Some (Found (LookupWithoutInsert k c), c)"
| "cache_step (OpHasKey k) c = Some (Answer (Lru_HasKey k c), c)"
| "cache_step (OpErase k) c = map_option (\<lambda>(r, c'). (Answer r, c')) (Lru_Erase k c)"
| "cache_step OpClear c = Some (Done, Clear c)"

text \<open>The specification: a list of the keys and values, bounded by \<open>n\<close>.\<close>

fun spec_step :: "nat \<Rightarrow> ('k, 'v) CacheOp \<Rightarrow> ('k \<times> 'v) list \<Rightarrow> 'v CacheOut \<times> ('k \<times> 'v) list" where
  "spec_step n (OpInsert k v) xs = (Done, spec_insert n k v xs)"
| "spec_step n (OpLookup k) xs = (Found (map_of xs k), spec_lookup k xs)"
| "spec_step n (OpPeek k) xs = (Found (map_of xs k), xs)"
| "spec_step n (OpHasKey k) xs = (Answer (map_of xs k \<noteq> None), xs)"
| "spec_step n (OpErase k) xs = (Answer (map_of xs k \<noteq> None), drop_key k xs)"
| "spec_step n OpClear xs = (Done, [])"

fun run_steps :: "('o \<Rightarrow> 's \<Rightarrow> ('r \<times> 's) option) \<Rightarrow> 'o list \<Rightarrow> 's \<Rightarrow> ('r list \<times> 's) option" where
  "run_steps f [] s = Some ([], s)"
| "run_steps f (x # xs) s =
     (case f x s of None \<Rightarrow> None
      | Some (r, s') \<Rightarrow> (case run_steps f xs s' of None \<Rightarrow> None | Some (rs, t) \<Rightarrow> Some (r # rs, t)))"

lemma run_steps_append:
  "run_steps f xs s = Some (r, t) \<Longrightarrow> run_steps f ys t = Some (r', u) \<Longrightarrow> run_steps f (xs @ ys) s = Some (r @ r', u)"
  by (induction xs arbitrary: s r) (auto split: option.splits)

lemma run_steps_length: "run_steps f xs s = Some (r, t) \<Longrightarrow> length r = length xs"
  by (induction xs arbitrary: s r) (auto split: option.splits)

fun run_spec :: "nat \<Rightarrow> ('k, 'v) CacheOp list \<Rightarrow> ('k \<times> 'v) list \<Rightarrow> 'v CacheOut list \<times> ('k \<times> 'v) list" where
  "run_spec n [] xs = ([], xs)"
| "run_spec n (x # ops) xs =
     (case spec_step n x xs of (r, ys) \<Rightarrow> case run_spec n ops ys of (rs, zs) \<Rightarrow> (r # rs, zs))"

text \<open>The keys an operation may bring to the front, and the operations that may remove or change key \<open>k\<close>.\<close>

fun touched :: "('k, 'v) CacheOp \<Rightarrow> 'k set" where
  "touched (OpInsert k v) = {k}"
| "touched (OpLookup k) = {k}"
| "touched _ = {}"

fun spoils :: "'k \<Rightarrow> ('k, 'v) CacheOp \<Rightarrow> bool" where
  "spoils k (OpInsert k' v) = (k' = k)"
| "spoils k (OpErase k') = (k' = k)"
| "spoils k OpClear = True"
| "spoils k _ = False"

lemma fst_drop_key: "fst ` set (drop_key k xs) = fst ` set xs - {k}"
  by (auto simp: drop_key_def)

lemma distinct_drop_key: "distinct (map fst xs) \<Longrightarrow> distinct (map fst (drop_key k xs))"
  unfolding drop_key_def by (rule distinct_map_filter)

lemma drop_key_other: "k' \<noteq> k \<Longrightarrow> drop_key k' (A @ (k, v) # B) = drop_key k' A @ (k, v) # drop_key k' B"
  by (simp add: drop_key_def)

lemma length_distinct_keys: "distinct (map fst xs) \<Longrightarrow> fst ` set xs \<subseteq> K \<Longrightarrow> finite K \<Longrightarrow> length xs \<le> card K"
  by (metis card_mono distinct_card length_map list.set_map)

text \<open>
  What lies before \<open>(k, v)\<close> in the specification are keys that were touched; if there is room for them
  \<open>(k, v)\<close> stays.
\<close>

lemma spec_step_retains:
  assumes "distinct (map fst (A @ (k, v) # B))" "fst ` set A \<subseteq> K" "\<not> spoils k x" "touched x - {k} \<subseteq> K"
    "finite K" "card K < n" "k \<notin> K"
  obtains A' B' where "snd (spec_step n x (A @ (k, v) # B)) = A' @ (k, v) # B'" "fst ` set A' \<subseteq> K"
    "distinct (map fst (A' @ (k, v) # B'))"
proof (cases x)
  case (OpInsert k' w)
  then have k: "k' \<noteq> k" "k' \<in> K" using assms(3,4) by auto
  let ?A = "(k', w) # drop_key k' A"
  have d: "distinct (map fst (drop_key k' A @ (k, v) # drop_key k' B))"
    using distinct_drop_key [OF assms(1), of k'] drop_key_other [OF k(1), of A v B] by simp
  have dA: "distinct (map fst ?A)" using d fst_drop_key [of k' A] by auto
  have sA: "fst ` set ?A \<subseteq> K" using assms(2) k(2) fst_drop_key [of k' A] by auto
  have "length ?A \<le> card K" by (rule length_distinct_keys [OF dA sA assms(5)])
  then have len: "length (drop_key k' A) + 1 < n" using assms(6) by simp
  define m where "m = n - 1 - length (drop_key k' A)"
  have "0 < m" using len by (simp add: m_def)
  then obtain m' where m': "m = Suc m'" using gr0_implies_Suc by blast
  have "take (n - 1) (drop_key k' A @ (k, v) # drop_key k' B) = drop_key k' A @ (k, v) # take m' (drop_key k' B)"
    using len m' by (simp add: m_def)
  then have e: "snd (spec_step n x (A @ (k, v) # B)) = ?A @ (k, v) # take m' (drop_key k' B)"
    using OpInsert drop_key_other [OF k(1), of A v B] by (simp add: spec_insert_def)
  have sub: "fst ` set (take m' (drop_key k' B)) \<subseteq> fst ` set (drop_key k' B)" by (auto dest: in_set_takeD)
  have "fst ` set (drop_key k' A) \<inter> fst ` set (drop_key k' B) = {}" "k \<notin> fst ` set (drop_key k' B)" using d by auto
  then have n: "fst ` set (drop_key k' A) \<inter> fst ` set (take m' (drop_key k' B)) = {}" "k \<notin> fst ` set (take m' (drop_key k' B))"
    "k' \<notin> fst ` set (take m' (drop_key k' B))"
    using sub fst_drop_key [of k' B] by blast+
  moreover have "distinct (map fst (take m' (drop_key k' B)))" using d by (simp add: take_map [symmetric])
  ultimately have "distinct (map fst (?A @ (k, v) # take m' (drop_key k' B)))" using d dA k(1) by simp
  then show ?thesis using that e sA by blast
next
  case (OpLookup k')
  show ?thesis
  proof (cases "k' = k")
    case True
    have "k \<notin> fst ` set A" "k \<notin> fst ` set B" using assms(1) by auto
    then have o: "drop_key k A = A" "drop_key k B = B" by (simp_all add: drop_key_out)
    have "map_of A k = None" using \<open>k \<notin> fst ` set A\<close> by (simp only: map_of_eq_None_iff not_False_eq_True)
    then have e: "snd (spec_step n x (A @ (k, v) # B)) = [] @ (k, v) # A @ B"
      using OpLookup True o by (simp add: spec_lookup_def map_add_def drop_key_append drop_key_Cons)
    show ?thesis by (rule that [OF e]) (use assms(1) in auto)
  next
    case False
    show ?thesis
    proof (cases "map_of (A @ (k, v) # B) k'")
      case None
      then have e: "snd (spec_step n x (A @ (k, v) # B)) = A @ (k, v) # B"
        unfolding OpLookup spec_step.simps spec_lookup_def None by simp
      show ?thesis by (rule that [OF e assms(2,1)])
    next
      case (Some w)
      have e: "snd (spec_step n x (A @ (k, v) # B)) = ((k', w) # drop_key k' A) @ (k, v) # drop_key k' B"
        unfolding OpLookup spec_step.simps spec_lookup_def Some using drop_key_other [OF False, of A v B] by simp
      have d: "distinct (map fst (drop_key k' A @ (k, v) # drop_key k' B))"
        using distinct_drop_key [OF assms(1), of k'] drop_key_other [OF False, of A v B] by simp
      have k': "k' \<in> K" using OpLookup assms(4) False by auto
      show ?thesis
        by (rule that [OF e]) (use d k' assms(2) False fst_drop_key [of k' A] fst_drop_key [of k' B] in auto)
    qed
  qed
next
  case (OpErase k')
  then have k: "k' \<noteq> k" using assms(3) by auto
  have e: "snd (spec_step n x (A @ (k, v) # B)) = drop_key k' A @ (k, v) # drop_key k' B"
    using OpErase drop_key_other [OF k, of A v B] by simp
  show ?thesis
    by (rule that [OF e]) (use distinct_drop_key [OF assms(1), of k'] drop_key_other [OF k, of A v B] assms(2) fst_drop_key [of k' A] in auto)
qed (use that [of A B] assms in auto)

text \<open>
  The contract of a cache: a state \<open>s\<close> stands for the list \<open>abs s\<close>, at most \<open>bound s\<close> long, and every
  operation succeeds and does what the specification says.
\<close>

locale recency_cache =
  fixes inv :: "'s \<Rightarrow> bool" and abs :: "'s \<Rightarrow> ('k \<times> 'v) list" and bound :: "'s \<Rightarrow> nat"
    and step :: "('k, 'v) CacheOp \<Rightarrow> 's \<Rightarrow> ('v CacheOut \<times> 's) option"
  assumes keys: "inv s \<Longrightarrow> distinct (map fst (abs s))"
    and fits: "inv s \<Longrightarrow> length (abs s) \<le> bound s"
    and step: "inv s \<Longrightarrow> \<exists>s'. step x s = Some (fst (spec_step (bound s) x (abs s)), s') \<and> inv s' \<and> bound s' = bound s \<and>
      abs s' = snd (spec_step (bound s) x (abs s))"
begin

lemma run_refines:
  "inv s \<Longrightarrow> \<exists>outs s'. run_steps step ops s = Some (outs, s') \<and> inv s' \<and> bound s' = bound s \<and>
     run_spec (bound s) ops (abs s) = (outs, abs s')"
proof (induction ops arbitrary: s)
  case Nil
  then show ?case by simp
next
  case (Cons x ops)
  obtain s' where s': "step x s = Some (fst (spec_step (bound s) x (abs s)), s')" "inv s'" "bound s' = bound s"
    "abs s' = snd (spec_step (bound s) x (abs s))"
    using step [OF Cons.prems, of x] by blast
  obtain outs s'' where "run_steps step ops s' = Some (outs, s'')" "inv s''" "bound s'' = bound s'"
    "run_spec (bound s') ops (abs s') = (outs, abs s'')"
    using Cons.IH [OF s'(2)] by blast
  then show ?case using s' by (simp add: split_beta)
qed

lemma run_retains:
  assumes "inv s" "abs s = A @ (k, v) # B" "fst ` set A \<subseteq> K" "\<forall>x \<in> set ops. \<not> spoils k x \<and> touched x - {k} \<subseteq> K"
    "finite K" "card K < bound s" "k \<notin> K"
  shows "\<exists>outs s'. run_steps step ops s = Some (outs, s') \<and> inv s' \<and> bound s' = bound s \<and> map_of (abs s') k = Some v"
  using assms
proof (induction ops arbitrary: s A B)
  case Nil
  then have "k \<notin> fst ` set A" by auto
  then have "map_of A k = None" by (simp only: map_of_eq_None_iff not_False_eq_True)
  then show ?case using Nil by (simp add: map_add_def)
next
  case (Cons x ops)
  obtain s' where s': "step x s = Some (fst (spec_step (bound s) x (abs s)), s')" "inv s'" "bound s' = bound s"
    "abs s' = snd (spec_step (bound s) x (abs s))"
    using step [OF Cons.prems(1), of x] by blast
  have p: "distinct (map fst (A @ (k, v) # B))" "\<not> spoils k x" "touched x - {k} \<subseteq> K"
    using keys [OF Cons.prems(1)] Cons.prems(2,4) by auto
  obtain A' B' where ab: "snd (spec_step (bound s) x (A @ (k, v) # B)) = A' @ (k, v) # B'" "fst ` set A' \<subseteq> K"
    by (rule spec_step_retains [OF p(1) Cons.prems(3) p(2,3) Cons.prems(5,6,7)])
  have "abs s' = A' @ (k, v) # B'" using s'(4) ab(1) Cons.prems(2) by simp
  from Cons.IH [OF s'(2) this ab(2)] obtain outs s'' where
    "run_steps step ops s' = Some (outs, s'')" "inv s''" "bound s'' = bound s'" "map_of (abs s'') k = Some v"
    using Cons.prems s'(3) by auto
  then show ?case using s' by simp
qed

text \<open>A key that was inserted is found as long as fewer than \<open>bound s\<close> other keys were inserted or looked up.\<close>

lemma retains:
  assumes "inv s" "\<forall>x \<in> set ops. \<not> spoils k x \<and> touched x - {k} \<subseteq> K" "finite K" "card K < bound s" "k \<notin> K"
  shows "\<exists>outs s'. run_steps step (OpInsert k v # ops @ [OpLookup k]) s = Some (Done # outs @ [Found (Some v)], s')"
proof -
  obtain s' where s': "step (OpInsert k v) s = Some (Done, s')" "inv s'" "bound s' = bound s"
    "abs s' = [] @ (k, v) # take (bound s - 1) (drop_key k (abs s))"
    using step [OF assms(1), of "OpInsert k v"] by (auto simp: spec_insert_def)
  obtain outs s2 where r: "run_steps step ops s' = Some (outs, s2)" "inv s2" "map_of (abs s2) k = Some v"
    using run_retains [OF s'(2,4) _ assms(2,3)] assms(4,5) s'(3) by auto
  obtain s3 where s3: "step (OpLookup k) s2 = Some (Found (Some v), s3)"
    using step [OF r(2), of "OpLookup k"] r(3) by auto
  have "run_steps step [OpLookup k] s2 = Some ([Found (Some v)], s3)" using s3 by simp
  from run_steps_append [OF r(1) this] show ?thesis using s'(1) by simp
qed

end

text \<open>The model of the cache keeps the contract.\<close>

lemma cache_step_refines:
  assumes "lru_inv c"
  shows "\<exists>c'. cache_step x c = Some (fst (spec_step (limit c) x (lru_abs c)), c') \<and> lru_inv c' \<and> limit c' = limit c \<and>
    lru_abs c' = snd (spec_step (limit c) x (lru_abs c))"
proof -
  obtain L F where r: "cache_rep c L F" and l: "0 < limit c" using assms by (auto simp: lru_inv_def)
  note ab = lru_abs_cache_rep [OF r]
  have t: "map_of (pairs c L) k = None \<longleftrightarrow> lc_table c k = None" for k
    using lru_table_ok_keys [of c L k] r by (simp add: cache_rep_def map_of_eq_None_iff)
  show ?thesis
  proof (cases x)
    case (OpInsert k v)
    obtain c' L' F' where "Insert k v c = Some c'" "cache_rep c' L' F'" "limit c' = limit c"
      "pairs c' L' = spec_insert (limit c) k v (pairs c L)"
      by (rule Insert_rep [OF r l])
    then show ?thesis using OpInsert ab lru_abs_cache_rep [of c' L' F'] l by (auto simp: lru_inv_def)
  next
    case (OpLookup k)
    show ?thesis
    proof (cases "lc_table c k")
      case None
      then show ?thesis using OpLookup ab lookup_none [OF r None] assms by (simp add: MutableLookup_def LookupInternal_def)
    next
      case (Some e)
      obtain L' where "cache_rep (PushLRUHead e c) L' F" "limit (PushLRUHead e c) = limit c"
        "map_of (pairs c L) k = Some (el_value (lc_heap (PushLRUHead e c) ! e))" "pairs (PushLRUHead e c) L' = spec_lookup k (pairs c L)"
        by (rule PushLRUHead_rep [OF r Some])
      then show ?thesis using OpLookup Some ab l lru_abs_cache_rep [of "PushLRUHead e c" L' F]
        by (auto simp: lru_inv_def MutableLookup_def LookupInternal_def Let_def)
    qed
  next
    case (OpPeek k)
    have "LookupWithoutInsert k c = map_of (pairs c L) k"
    proof (cases "lc_table c k")
      case None
      then show ?thesis using lookup_none [OF r None] by (simp add: LookupWithoutInsert_def LookupInternal_def)
    next
      case (Some e)
      then show ?thesis by (rule cache_rep_find [OF r]) (simp add: LookupWithoutInsert_def LookupInternal_def Some)
    qed
    then show ?thesis using OpPeek assms ab by simp
  next
    case (OpHasKey k)
    then show ?thesis using assms ab t [of k] by (simp add: Lru_HasKey_def)
  next
    case (OpErase k)
    show ?thesis
    proof (cases "lc_table c k")
      case None
      then show ?thesis using OpErase ab lookup_none [OF r None] assms by (simp add: Lru_Erase_def LookupInternal_def Evict_def)
    next
      case (Some e)
      obtain A B where L: "L = A @ e # B" "drop_key k (pairs c L) = pairs c (A @ B)"
        "map_of (pairs c L) k = Some (el_value (lc_heap c ! e))"
        by (rule cache_rep_find [OF r Some])
      obtain c' where c': "Evict (Some e) c = Some (True, c')" "cache_rep c' (A @ B) (e # F)" "same_sizes c c'"
        "pairs c' (A @ B) = pairs c (A @ B)"
        by (rule cache_rep_evict [OF r [unfolded L(1)]])
      have s: "limit c' = limit c" using same_sizes_limit [OF c'(3)] by simp
      have "lru_abs c' = drop_key k (lru_abs c)" using lru_abs_cache_rep [OF c'(2)] c'(4) ab L(2) by simp
      moreover have "lru_inv c'" using c'(2) s l by (auto simp: lru_inv_def)
      moreover have "cache_step x c = Some (Answer True, c')" using OpErase Some c'(1) by (simp add: Lru_Erase_def LookupInternal_def)
      moreover have "spec_step (limit c) x (lru_abs c) = (Answer True, drop_key k (lru_abs c))" using OpErase ab L(3) by simp
      ultimately show ?thesis using s by simp
    qed
  next
    case OpClear
    obtain F' where c: "cache_rep (Clear c) [] F'" "limit (Clear c) = limit c" by (rule Clear_rep [OF r])
    then show ?thesis using OpClear lru_abs_cache_rep [OF c(1)] l by (auto simp: lru_inv_def)
  qed
qed

lemma lru_inv_New: "0 < m \<Longrightarrow> lru_inv (NewLruCache blank m)"
  using New_rep [of blank m] first_block_size_bounds [of 64 m] by (auto simp: lru_inv_def limit_New)

lemma lru_abs_New: "lru_abs (NewLruCache blank m) = []"
  using lru_abs_cache_rep [OF New_rep] by simp

interpretation lru: recency_cache lru_inv lru_abs limit cache_step
proof
  fix c :: "('k, 'v) LruCache"
  assume a: "lru_inv c"
  then obtain L F where r: "cache_rep c L F" by (auto simp: lru_inv_def)
  then have p: "cache_parts c L F []" "cache_sizes c" by (simp_all add: cache_rep_def)
  show "distinct (map fst (lru_abs c))" using cache_rep_keys [OF r] by (simp add: lru_abs_cache_rep [OF r])
  show "length (lru_abs c) \<le> limit c" using cache_parts_limit [OF p] by (simp add: lru_abs_cache_rep [OF r])
qed (rule cache_step_refines)

definition lru_capacity :: "nat \<Rightarrow> nat" where
  "lru_capacity m = min m (1023 * (if m \<le> 128 then m else first_block_size m 64))"

text \<open>
  \<open>C12\<close>: A cache refines the bounded list of its keys and values, the most recently used first: no sequence of
  insertions, look-ups, removals and clearings fails a \<^verbatim>\<open>CHECK\<close>, every answer is that of the list, and the
  elements from the head are the list. The bound is the number of elements that ten blocks have: \<open>m\<close>, except that
  1023 times the first block may be less.
\<close>

theorem LruCache_refines:
  assumes "0 < m"
  shows "\<exists>outs c. run_steps cache_step ops (NewLruCache blank m) = Some (outs, c) \<and>
    run_spec (lru_capacity m) ops [] = (outs, lru_abs c) \<and> length (lru_abs c) \<le> lru_capacity m"
proof -
  obtain outs c where c: "run_steps cache_step ops (NewLruCache blank m) = Some (outs, c)" "lru_inv c" "limit c = lru_capacity m"
    "run_spec (lru_capacity m) ops [] = (outs, lru_abs c)"
    using lru.run_refines [OF lru_inv_New [OF assms, of blank], where ops = ops]
    by (auto simp: lru_abs_New limit_New lru_capacity_def [symmetric])
  then show ?thesis using lru.fits [OF c(2)] by simp
qed

text \<open>A cache of two elements: the look-up of 1 saves it from the third insertion.\<close>

theorem LruCache_refines_witness:
  "\<exists>outs c. run_steps cache_step [OpInsert (1::nat) (10::nat), OpInsert 2 20, OpLookup 1, OpInsert 3 30, OpHasKey 2, OpErase 3]
      (NewLruCache (0, 0) 2) = Some (outs, c) \<and>
    outs = [Done, Done, Found (Some 10), Done, Answer False, Answer True] \<and> lru_abs c = [(1, 10)]"
  using LruCache_refines [of 2 "[OpInsert (1::nat) (10::nat), OpInsert 2 20, OpLookup 1, OpInsert 3 30, OpHasKey 2, OpErase 3]" "(0, 0)"]
  by (auto simp: lru_capacity_def spec_insert_def spec_lookup_def drop_key_def)

text \<open>
  \<open>C26\<close>: A key that was inserted with a value is found with this value, as long as the other keys that were inserted or
  looked up since are fewer than the cache holds, in a cache of more than 0 elements and after any operations before the
  insertion. The operations since then do not erase the key, do not clear the cache and do not insert the key again,
  which are the ways to lose or replace it; looking it up is allowed.
\<close>

theorem LruCache_retains:
  assumes "0 < m" "\<forall>x \<in> set ops. \<not> spoils k x \<and> touched x - {k} \<subseteq> K" "finite K" "card K < lru_capacity m" "k \<notin> K"
  shows "\<exists>outs outs' c. length outs = length before \<and> length outs' = length ops \<and>
    run_steps cache_step (before @ OpInsert k v # ops @ [OpLookup k]) (NewLruCache blank m) =
      Some (outs @ Done # outs' @ [Found (Some v)], c)"
proof -
  obtain outs s where r: "run_steps cache_step before (NewLruCache blank m) = Some (outs, s)" "lru_inv s" "limit s = lru_capacity m"
    using lru.run_refines [OF lru_inv_New [OF assms(1), of blank], where ops = before] by (auto simp: limit_New lru_capacity_def)
  obtain outs' s' where q: "run_steps cache_step (OpInsert k v # ops @ [OpLookup k]) s = Some (Done # outs' @ [Found (Some v)], s')"
    using lru.retains [OF r(2) assms(2,3) _ assms(5), of v] assms(4) r(3) by auto
  show ?thesis using run_steps_append [OF r(1) q] run_steps_length [OF r(1)] run_steps_length [OF q] by auto
qed

theorem LruCache_retains_witness:
  "\<exists>outs outs' c. length outs = 1 \<and> length outs' = 2 \<and>
    run_steps cache_step [OpInsert (7::int) (0::nat), OpInsert 1 10, OpInsert 2 20, OpLookup 7, OpLookup 1] (NewLruCache (0, 0) 3) =
      Some (outs @ Done # outs' @ [Found (Some 10)], c)"
  using LruCache_retains [of 3 "[OpInsert 2 20, OpLookup 7]" 1 "{2, 7}" "[OpInsert (7::int) (0::nat)]" 10 "(0, 0)"]
  by (simp add: lru_capacity_def numeral_2_eq_2)

text \<open>
  An insertion into a cache for 0 elements fails its \<^verbatim>\<open>CHECK\<close>; a cache for 65473 to 65536 elements
  holds 65472, since the loop that chooses the first block takes the ten blocks to have 1024 times its size.
\<close>

theorem LruCache_zero_crashes:
  "Insert k v (NewLruCache blank 0) = None \<and> (65472 < m \<and> m \<le> 65536 \<longrightarrow> lru_capacity m = 65472)"
  by (simp add: Insert_def InsertKey_def NewLruCache_def LookupInternal_def NextFreeElement_def PopFreeList_def AddBlock_def Evict_def
      lru_capacity_def first_block_size.simps kMaxBlocks_def)

theorem LruCache_zero_crashes_witness:
  "Insert (1::nat) (2::nat) (NewLruCache (0, 0) 0) = None \<and> lru_capacity 65536 = 65472"
  using LruCache_zero_crashes [of "1::nat" "2::nat" "(0, 0)" 65536] by simp

end
