(* ===== verification/Connector.thy ===== *)
theory Connector
  imports BitVector "HOL-Library.AList"
begin

unbundle bit_operations_syntax

section \<open>The connection costs\<close>

text \<open>
  \<^verbatim>\<open>converter/connector.cc\<close>, which reads the image of the connection matrix and answers the cost of a transition,
  and the functions of \<^verbatim>\<open>data_manager/gen_connection_data.py\<close> that compress the matrix and write the image.
  A pointer into the image is an offset of it or the bytes from it on; integers of the image are
  little-endian. The results of the reader are a failed \<^verbatim>\<open>CHECK\<close> (\<open>None\<close>), an error status or the connector.
\<close>

type_synonym u16 = "16 word"
type_synonym u64 = "64 word"

subsection \<open>The reader\<close>

datatype ConnectorError = FailedPrecondition | OutOfRange

definition kConnectorMagicNumber :: u16 where "kConnectorMagicNumber = 0xCDAB"
definition kInvalid1ByteCostValue :: u16 where "kInvalid1ByteCostValue = 255"
definition kInvalidCost :: u16 where "kInvalidCost = 30000"
definition kCacheSize :: nat where "kCacheSize = 1024"
definition kCacheHashMask :: u32 where "kCacheHashMask = of_nat kCacheSize - 1"
definition kByteSize :: nat where "kByteSize = 8"

definition LoadUnaligned16 :: "u8 list \<Rightarrow> nat \<Rightarrow> u16" where
  "LoadUnaligned16 data offset = ucast (data ! offset) OR push_bit 8 (ucast (data ! (offset + 1)))"

record Metadata =
  md_magic :: u16
  md_resolution :: u16
  md_rsize :: u16
  md_lsize :: u16

definition NumChunkBits :: "Metadata \<Rightarrow> nat" where
  "NumChunkBits md = (unat (md_lsize md) + 7) div 8"

definition ChunkBitsSize :: "Metadata \<Rightarrow> nat" where
  "ChunkBitsSize md = (NumChunkBits md + 31) div 32 * 4"

definition Use1ByteValue :: "Metadata \<Rightarrow> bool" where
  "Use1ByteValue md \<longleftrightarrow> md_resolution md \<noteq> 1"

definition DefaultCostArraySize :: "Metadata \<Rightarrow> nat" where
  "DefaultCostArraySize md = unat (md_rsize md) + unat (md_rsize md AND 1)"

definition ParseMetadata :: "u8 list \<Rightarrow> ConnectorError + Metadata" where
  "ParseMetadata connection_data =
     (if length connection_data < kByteSize then Inl FailedPrecondition
      else
        let md = \<lparr>md_magic = LoadUnaligned16 connection_data 0, md_resolution = LoadUnaligned16 connection_data 2,
                  md_rsize = LoadUnaligned16 connection_data 4, md_lsize = LoadUnaligned16 connection_data 6\<rparr>
        in if md_magic md \<noteq> kConnectorMagicNumber then Inl FailedPrecondition
           else if md_lsize md \<noteq> md_rsize md then Inl FailedPrecondition
           else Inr md)"

record Row =
  row_chunk_bits_index :: BitVectorIndex
  row_compact_bits_index :: BitVectorIndex
  row_values :: "u8 list"
  row_use_1byte_value :: bool

definition Row_Init :: "u8 list \<Rightarrow> nat \<Rightarrow> u8 list \<Rightarrow> nat \<Rightarrow> u8 list \<Rightarrow> bool \<Rightarrow> Row option" where
  "Row_Init chunk_bits chunk_bits_size compact_bits compact_bits_size values use_1byte_value =
     (case (Init chunk_bits chunk_bits_size 4 0 0, Init compact_bits compact_bits_size 4 0 0) of
        (Some chunk, Some compact) \<Rightarrow>
          Some \<lparr>row_chunk_bits_index = chunk, row_compact_bits_index = compact, row_values = values,
                row_use_1byte_value = use_1byte_value\<rparr>
      | _ \<Rightarrow> None)"

definition GetValue :: "Row \<Rightarrow> u16 \<Rightarrow> u16 option" where
  "GetValue row index =
     (let chunk_bit_position = unat index div 8 in
      if sv_Get (row_chunk_bits_index row) chunk_bit_position = 0 then None
      else
        let compact_bit_position = Rank1 (row_chunk_bits_index row) chunk_bit_position * 8 + unat index mod 8 in
        if sv_Get (row_compact_bits_index row) compact_bit_position = 0 then None
        else
          let value_position = Rank1 (row_compact_bits_index row) compact_bit_position in
          if row_use_1byte_value row then
            let v = ucast (row_values row ! value_position) in
            Some (if v = kInvalid1ByteCostValue then kInvalidCost else v)
          else Some (LoadUnaligned16 (row_values row) (2 * value_position)))"

record Connector =
  cn_rows :: "Row list"
  cn_default_cost :: "u8 list"
  cn_resolution :: int
  cn_cache :: "u64 list"

text \<open>
  \<open>base\<close> is the address of the image, which the alignment checks look at; \<^verbatim>\<open>VALIDATE_SIZE(ptr, n)\<close> fails
  if fewer than \<open>n\<close> bytes are left.
\<close>

definition misaligned :: "nat \<Rightarrow> nat \<Rightarrow> bool" where
  "misaligned base ptr \<longleftrightarrow> (base + ptr) mod 4 \<noteq> 0"

definition read_row :: "nat \<Rightarrow> u8 list \<Rightarrow> Metadata \<Rightarrow> nat \<Rightarrow> (ConnectorError + Row \<times> nat) option" where
  "read_row base data md ptr =
     (if length data < ptr + 2 then Some (Inl OutOfRange)
      else
        let compact_bits_size = unat (LoadUnaligned16 data ptr); ptr = ptr + 2 in
      if length data < ptr + 2 then Some (Inl OutOfRange)
      else
        let values_size = unat (LoadUnaligned16 data ptr); ptr = ptr + 2 in
      if length data < ptr + ChunkBitsSize md then Some (Inl OutOfRange)
      else if misaligned base ptr then Some (Inl FailedPrecondition)
      else
        let chunk_bits = drop ptr data; ptr = ptr + ChunkBitsSize md in
      if length data < ptr + compact_bits_size then Some (Inl OutOfRange)
      else if misaligned base ptr then Some (Inl FailedPrecondition)
      else
        let compact_bits = drop ptr data; ptr = ptr + compact_bits_size in
      if length data < ptr + values_size then Some (Inl OutOfRange)
      else if misaligned base ptr then Some (Inl FailedPrecondition)
      else
        let values = drop ptr data; ptr = ptr + values_size in
        map_option (\<lambda>row. Inr (row, ptr))
          (Row_Init chunk_bits (ChunkBitsSize md) compact_bits compact_bits_size values (Use1ByteValue md)))"

fun read_rows :: "nat \<Rightarrow> u8 list \<Rightarrow> Metadata \<Rightarrow> nat \<Rightarrow> nat \<Rightarrow> (ConnectorError + Row list \<times> nat) option" where
  "read_rows base data md 0 ptr = Some (Inr ([], ptr))"
| "read_rows base data md (Suc n) ptr =
     (case read_row base data md ptr of
        None \<Rightarrow> None
      | Some (Inl e) \<Rightarrow> Some (Inl e)
      | Some (Inr (row, ptr')) \<Rightarrow>
          (case read_rows base data md n ptr' of
             None \<Rightarrow> None
           | Some (Inl e) \<Rightarrow> Some (Inl e)
           | Some (Inr (rows, ptr'')) \<Rightarrow> Some (Inr (row # rows, ptr''))))"

definition Create :: "nat \<Rightarrow> u8 list \<Rightarrow> (ConnectorError + Connector) option" where
  "Create base connection_data =
     (case ParseMetadata connection_data of
        Inl e \<Rightarrow> Some (Inl e)
      | Inr md \<Rightarrow>
          let ptr = kByteSize; default_cost = drop ptr connection_data; default_cost_size = DefaultCostArraySize md * 2 in
          if length connection_data < ptr + default_cost_size then Some (Inl OutOfRange)
          else if misaligned base ptr then Some (Inl FailedPrecondition)
          else
            (case read_rows base connection_data md (unat (md_rsize md)) (ptr + default_cost_size) of
               None \<Rightarrow> None
             | Some (Inl e) \<Rightarrow> Some (Inl e)
             | Some (Inr (rows, ptr)) \<Rightarrow>
                 if length connection_data < ptr then Some (Inl OutOfRange)
                 else Some (Inr \<lparr>cn_rows = rows, cn_default_cost = default_cost,
                                cn_resolution = uint (md_resolution md), cn_cache = replicate kCacheSize 0\<rparr>)))"

definition LookupCost :: "Connector \<Rightarrow> u16 \<Rightarrow> u16 \<Rightarrow> int" where
  "LookupCost cn rid lid =
     (case GetValue (cn_rows cn ! unat rid) lid of
        None \<Rightarrow> uint (LoadUnaligned16 (cn_default_cost cn) (2 * unat rid))
      | Some value \<Rightarrow> uint value * cn_resolution cn)"

text \<open>The key of a pair of ids in the cache, and its bucket.\<close>

definition cache_index :: "u16 \<Rightarrow> u16 \<Rightarrow> u32" where
  "cache_index rid lid = push_bit 16 (ucast rid) OR ucast lid"

definition cache_bucket :: "u16 \<Rightarrow> u16 \<Rightarrow> nat" where
  "cache_bucket rid lid = unat ((3 * ucast rid + ucast lid) AND kCacheHashMask)"

definition GetTransitionCost :: "u16 \<Rightarrow> u16 \<Rightarrow> Connector \<Rightarrow> int \<times> Connector" where
  "GetTransitionCost rid lid cn =
     (let index = cache_index rid lid; bucket = cache_bucket rid lid; cv = cn_cache cn ! bucket in
      if (ucast cv :: u32) = index then (sint (ucast (drop_bit 32 cv) :: u32), cn)
      else
        let value = LookupCost cn rid lid
        in (value, cn\<lparr>cn_cache := (cn_cache cn)[bucket := push_bit 32 (word_of_int value) OR ucast index]\<rparr>))"

subsection \<open>The writer\<close>

text \<open>\<open>None\<close> is a Python exception or a failed assertion; a cell of the compressed matrix is \<open>None\<close> too.\<close>

definition INVALID_COST :: int where "INVALID_COST = 30000"
definition INVALID_1BYTE_COST :: int where "INVALID_1BYTE_COST = 255"
definition RESOLUTION_FOR_1BYTE :: int where "RESOLUTION_FOR_1BYTE = 64"

function SplitList :: "nat \<Rightarrow> 'a list \<Rightarrow> 'a list list" where
  "SplitList n xs = (if xs = [] \<or> n = 0 then [] else take n xs # SplitList n (drop n xs))"
  by auto
termination
  by (relation "measure (\<lambda>(n, xs). length xs)") auto

declare SplitList.simps [simp del]

text \<open>The costs of the connection file in order, its first line and the parsing of the numbers apart.\<close>

definition set_cell :: "nat \<Rightarrow> nat \<Rightarrow> int \<Rightarrow> int list list \<Rightarrow> int list list" where
  "set_cell rid lid cost matrix = matrix[rid := (matrix ! rid)[lid := cost]]"

definition ParseConnectionFile :: "int list \<Rightarrow> nat \<Rightarrow> nat \<Rightarrow> int list list option" where
  "ParseConnectionFile costs pos_size special_pos_size =
     (let mat_size = pos_size + special_pos_size in
      if costs \<noteq> [] \<and> pos_size = 0 \<or> mat_size * pos_size < length costs then None
      else
        let matrix = replicate mat_size (replicate mat_size 0);
            matrix = fold (\<lambda>(array_index, cost) m.
              let rid = array_index div pos_size; lid = array_index mod pos_size
              in set_cell rid lid (if rid = 0 \<and> lid = 0 then 0 else cost) m) (enumerate 0 costs) matrix;
            matrix = fold (\<lambda>rid. fold (\<lambda>lid. set_cell rid lid INVALID_COST) [1..<mat_size]) [pos_size..<mat_size] matrix;
            matrix = fold (\<lambda>lid. fold (\<lambda>rid. set_cell rid lid INVALID_COST) [1..<mat_size]) [pos_size..<mat_size] matrix
        in Some matrix)"

definition count_costs :: "int list \<Rightarrow> (int \<times> nat) list" where
  "count_costs row =
     fold (\<lambda>cost m. if cost = INVALID_COST then m
                    else AList.update cost ((case map_of m cost of None \<Rightarrow> 0 | Some n \<Rightarrow> n) + 1) m) row []"

fun max_count :: "(int \<times> nat) list \<Rightarrow> (int \<times> nat) option" where
  "max_count [] = None"
| "max_count (x # xs) = (case max_count xs of None \<Rightarrow> Some x | Some y \<Rightarrow> Some (if snd x \<ge> snd y then x else y))"

definition CreateModeValueList :: "int list list \<Rightarrow> int list option" where
  "CreateModeValueList matrix = those (map (\<lambda>row. map_option fst (max_count (count_costs row))) matrix)"

definition CompressMatrixByModeValue :: "int list list \<Rightarrow> int list \<Rightarrow> int option list list" where
  "CompressMatrixByModeValue matrix mode_value_list =
     map2 (\<lambda>row mode_value. map (\<lambda>cost. if cost = mode_value then None else Some cost) row) matrix mode_value_list"

definition byte_of :: "bool list \<Rightarrow> u8" where
  "byte_of bits = fold (\<lambda>i b. if bits ! i then b OR push_bit i 1 else b) [0..<length bits] 0"

definition OutputBitList :: "bool list \<Rightarrow> u8 list option" where
  "OutputBitList bit_list =
     (if length bit_list mod 8 = 0 then Some (map byte_of (SplitList 8 bit_list)) else None)"

text \<open>\<^verbatim>\<open>struct.pack\<close> with the formats \<^verbatim>\<open><H\<close> and \<^verbatim>\<open><B\<close>.\<close>

definition pack_H :: "int \<Rightarrow> u8 list option" where
  "pack_H v = (if 0 \<le> v \<and> v \<le> 65535 then Some [word_of_int v, word_of_int (v div 256)] else None)"

definition pack_B :: "int \<Rightarrow> u8 list option" where
  "pack_B v = (if 0 \<le> v \<and> v \<le> 255 then Some [word_of_int v] else None)"

definition pack_all :: "(int \<Rightarrow> u8 list option) \<Rightarrow> int list \<Rightarrow> u8 list option" where
  "pack_all f vs = map_option concat (those (map f vs))"

definition pad_to :: "nat \<Rightarrow> 'a \<Rightarrow> 'a list \<Rightarrow> 'a list" where
  "pad_to n x xs = xs @ replicate ((n - length xs mod n) mod n) x"

definition stored_value :: "bool \<Rightarrow> int \<Rightarrow> int option" where
  "stored_value use_1byte_cost cost =
     (if use_1byte_cost then
        if cost = INVALID_COST then Some INVALID_1BYTE_COST
        else if cost div RESOLUTION_FOR_1BYTE = INVALID_1BYTE_COST then None
        else Some (cost div RESOLUTION_FOR_1BYTE)
      else Some cost)"

fun row_chunks :: "bool \<Rightarrow> int option list list \<Rightarrow> (bool list \<times> bool list \<times> int list) option" where
  "row_chunks use_1byte_cost [] = Some ([], [], [])"
| "row_chunks use_1byte_cost (chunk # chunks) =
     (if list_all (\<lambda>cost. cost = None) chunk
      then map_option (\<lambda>(p, c, v). (False # p, c, v)) (row_chunks use_1byte_cost chunks)
      else
        Option.bind (those (map (stored_value use_1byte_cost) (List.map_filter id chunk))) (\<lambda>values.
        map_option (\<lambda>(p, c, v). (True # p, map (\<lambda>cost. cost \<noteq> None) chunk @ c, values @ v)) (row_chunks use_1byte_cost chunks)))"

definition write_row :: "bool \<Rightarrow> int option list \<Rightarrow> u8 list option" where
  "write_row use_1byte_cost row =
     Option.bind (row_chunks use_1byte_cost (SplitList 8 row)) (\<lambda>(p, c, v).
     let chunk_bits = pad_to 32 False p; compact_bits = pad_to 32 False c;
         values = (if use_1byte_cost then pad_to 4 0 v else pad_to 2 0 v);
         values_size = (if use_1byte_cost then length values else length values * 2)
     in Option.bind (pack_H (int (length compact_bits div 8))) (\<lambda>b1.
        Option.bind (pack_H (int values_size)) (\<lambda>b2.
        Option.bind (OutputBitList chunk_bits) (\<lambda>b3.
        Option.bind (OutputBitList compact_bits) (\<lambda>b4.
        Option.bind (pack_all (if use_1byte_cost then pack_B else pack_H) values) (\<lambda>b5.
        Some (b1 @ b2 @ b3 @ b4 @ b5)))))))"

definition BuildBinaryData :: "int option list list \<Rightarrow> int list \<Rightarrow> bool \<Rightarrow> u8 list option" where
  "BuildBinaryData matrix mode_value_list use_1byte_cost =
     (let resolution = (if use_1byte_cost then RESOLUTION_FOR_1BYTE else 1) in
      Option.bind (pack_all pack_H [resolution, int (length matrix), int (length matrix)]) (\<lambda>header.
      Option.bind (pack_all pack_H mode_value_list) (\<lambda>modes.
      Option.bind (those (map (write_row use_1byte_cost) matrix)) (\<lambda>rows.
      Some ([0xAB, 0xCD] @ header @ modes @ (if length mode_value_list mod 2 \<noteq> 0 then [0, 0] else []) @ concat rows)))))"

text \<open>The three stages of \<^verbatim>\<open>main\<close>, after the matrix is parsed.\<close>

definition connection_image :: "bool \<Rightarrow> int list list \<Rightarrow> u8 list option" where
  "connection_image use_1byte_cost matrix =
     Option.bind (CreateModeValueList matrix) (\<lambda>modes.
     BuildBinaryData (CompressMatrixByModeValue matrix modes) modes use_1byte_cost)"

subsection \<open>Bits and bytes of the image\<close>

lemma SplitList_Nil [simp]: "SplitList n [] = []"
  by (simp add: SplitList.simps)

lemma SplitList_step: "xs \<noteq> [] \<Longrightarrow> 0 < n \<Longrightarrow> SplitList n xs = take n xs # SplitList n (drop n xs)"
  by (simp add: SplitList.simps)

lemma SplitList_spec:
  assumes "0 < n"
  shows "length (SplitList n xs) = (length xs + n - 1) div n \<and>
    (\<forall>c < length (SplitList n xs). SplitList n xs ! c = take n (drop (n * c) xs) \<and> n * c < length xs)"
proof (induction "length xs" arbitrary: xs rule: less_induct)
  case less
  show ?case
  proof (cases "xs = []")
    case True
    then show ?thesis using assms by simp
  next
    case False
    then have l: "length (drop n xs) < length xs" using assms by simp
    have s: "SplitList n xs = take n xs # SplitList n (drop n xs)" by (rule SplitList_step [OF False assms])
    have IH: "length (SplitList n (drop n xs)) = (length xs - n + n - 1) div n"
      "\<And>c. c < length (SplitList n (drop n xs)) \<Longrightarrow>
        SplitList n (drop n xs) ! c = take n (drop (n * c) (drop n xs)) \<and> n * c < length xs - n"
      using less.hyps [OF l] by simp_all
    have "(length xs - n + n - 1) div n + 1 = (length xs + n - 1) div n"
    proof (cases "length xs \<le> n")
      case True
      obtain y ys where "xs = y # ys" using False by (cases xs) auto
      then have "(length xs + n - 1) div n = 1" using True assms by (intro div_nat_eqI) simp_all
      then show ?thesis using True assms by simp
    next
      case f: False
      then have "length xs + n - 1 = (length xs - 1) + n" "length xs - n + n - 1 = length xs - 1" using assms by auto
      then show ?thesis using assms by (simp only: div_add_self2)
    qed
    moreover have "SplitList n xs ! c = take n (drop (n * c) xs) \<and> n * c < length xs" if "c < length (SplitList n xs)" for c
    proof (cases c)
      case 0
      then show ?thesis using s False by simp
    next
      case (Suc d)
      then show ?thesis using IH(2) [of d] that s by (simp add: add.commute less_diff_conv)
    qed
    ultimately show ?thesis using s IH(1) by simp
  qed
qed

lemma length_SplitList8: "length (SplitList 8 xs) = (length xs + 7) div 8"
  using SplitList_spec [of 8 xs] by simp

lemma nth_SplitList8:
  assumes "i < length xs"
  shows "i div 8 < length (SplitList 8 xs)" "SplitList 8 xs ! (i div 8) = take 8 (drop (8 * (i div 8)) xs)"
    "i mod 8 < length (SplitList 8 xs ! (i div 8))" "SplitList 8 xs ! (i div 8) ! (i mod 8) = xs ! i"
proof -
  show l: "i div 8 < length (SplitList 8 xs)" using assms unfolding length_SplitList8 by linarith
  then show s: "SplitList 8 xs ! (i div 8) = take 8 (drop (8 * (i div 8)) xs)" using SplitList_spec [of 8 xs] by simp
  have e: "8 * (i div 8) + i mod 8 = i" by simp
  then have r: "i mod 8 < length xs - 8 * (i div 8)" using assms by linarith
  show "i mod 8 < length (SplitList 8 xs ! (i div 8))" unfolding s using r by simp
  show "SplitList 8 xs ! (i div 8) ! (i mod 8) = xs ! i"
    unfolding s using r assms e by (simp add: nth_drop)
qed

lemma SplitList8_full:
  assumes "Suc c < length (SplitList 8 xs)" shows "length (SplitList 8 xs ! c) = 8"
  using SplitList_spec [of 8 xs] assms by force

lemma bit_fold_or:
  fixes b0 :: u8
  shows "bit (fold (\<lambda>i b. if bits ! i then b OR push_bit i 1 else b) xs b0) k \<longleftrightarrow>
    bit b0 k \<or> (k < 8 \<and> k \<in> set xs \<and> bits ! k)"
  by (induction xs arbitrary: b0) (auto simp: bit_simps)

lemma bit_byte_of: "length bits \<le> 8 \<Longrightarrow> bit (byte_of bits) k \<longleftrightarrow> k < length bits \<and> bits ! k"
  unfolding byte_of_def bit_fold_or by auto

lemma OutputBitList_bits:
  assumes "OutputBitList bits = Some bytes"
  shows "8 * length bytes = length bits" "i < length bits \<Longrightarrow> bv (bytes @ rest) i = bits ! i"
proof -
  have m: "length bits mod 8 = 0" and b: "bytes = map byte_of (SplitList 8 bits)"
    using assms by (auto simp: OutputBitList_def split: if_splits)
  have l: "8 * ((length bits + 7) div 8) = length bits" using m by presburger
  then show "8 * length bytes = length bits" by (simp add: b length_SplitList8)
  show "bv (bytes @ rest) i = bits ! i" if "i < length bits"
  proof -
    note n = nth_SplitList8 [OF that]
    have "length (SplitList 8 bits ! (i div 8)) \<le> 8" unfolding n(2) by simp
    then show ?thesis using n by (simp add: bv_def b nth_append bit_byte_of)
  qed
qed

definition rank :: "bool list \<Rightarrow> nat \<Rightarrow> nat" where
  "rank bits n = length (filter (\<lambda>b. b) (take n bits))"

lemma rank_Suc: "n < length bits \<Longrightarrow> rank bits (Suc n) = rank bits n + (if bits ! n then 1 else 0)"
  by (simp add: rank_def take_Suc_conv_app_nth)

lemma ones_rank:
  assumes "\<And>i. i < n \<Longrightarrow> bv data i = bits ! i" "n \<le> length bits"
  shows "ones data 0 n = rank bits n"
  using assms
proof (induction n)
  case 0
  then show ?case by (simp add: rank_def)
next
  case (Suc n)
  then show ?case by (simp add: ones_Suc rank_Suc)
qed

text \<open>A bit vector in the image answers for the list of bits that was written.\<close>

lemma written_bits:
  assumes "OutputBitList bits = Some bytes" "32 dvd length bits" "sv_ok sv" "sv_data sv = bytes @ rest" "sv_length sv = length bytes"
    and "i < length bits"
  shows "sv_Get sv i \<noteq> 0 \<longleftrightarrow> bits ! i" "Rank1 sv i = rank bits i"
proof -
  note b = OutputBitList_bits [OF assms(1)]
  show "sv_Get sv i \<noteq> 0 \<longleftrightarrow> bits ! i" unfolding sv_Get_bv assms(4) by (rule b(2) [OF assms(6)])
  have "i \<le> 8 * sv_length sv" using b(1) assms(5,6) by simp
  then show "Rank1 sv i = rank bits i"
    using Rank1_ones [OF assms(3)] ones_rank [of i "bytes @ rest" bits] b(2) assms(4,6) by simp
qed

text \<open>Packed integers.\<close>

lemma those_map_nth:
  "those (map f xs) = Some ys \<Longrightarrow> length ys = length xs \<and> (\<forall>i < length xs. f (xs ! i) = Some (ys ! i))"
proof (induction xs arbitrary: ys)
  case (Cons x xs)
  then obtain y zs where "f x = Some y" "those (map f xs) = Some zs" "ys = y # zs"
    by (auto split: option.splits)
  then show ?case using Cons.IH [of zs] by (auto simp: nth_Cons split: nat.splits)
qed simp

lemma LoadUnaligned16_pack:
  assumes "pack_H v = Some bytes"
  shows "length bytes = 2" "LoadUnaligned16 (bytes @ rest) 0 = word_of_int v" "unat (word_of_int v :: u16) = nat v" "0 \<le> v" "v < 65536"
proof -
  have v: "0 \<le> v" "v < 65536" and b: "bytes = [word_of_int v, word_of_int (v div 256)]"
    using assms by (auto simp: pack_H_def split: if_splits)
  then show "length bytes = 2" "0 \<le> v" "v < 65536" by simp_all
  show "unat (word_of_int v :: u16) = nat v" using v by (simp add: unat_eq_nat_uint uint_word_of_int_eq take_bit_int_eq_self)
  have "bit (LoadUnaligned16 (bytes @ rest) 0) k = bit (word_of_int v :: u16) k" if "k < 16" for k
  proof (cases "k < 8")
    case True
    then show ?thesis by (simp add: b LoadUnaligned16_def bit_simps)
  next
    case False
    have "bit (v div 256) (k - 8) = bit v k"
      using False bit_drop_bit_eq [of 8 v] by (simp add: drop_bit_eq_div fun_eq_iff)
    moreover have "k - 8 < 8" using False that by simp
    ultimately show ?thesis using False that by (simp add: b LoadUnaligned16_def bit_simps)
  qed
  then show "LoadUnaligned16 (bytes @ rest) 0 = word_of_int v" by (intro bit_word_eqI) simp
qed

lemma LoadUnaligned16_append: "LoadUnaligned16 (xs @ ys) (length xs + k) = LoadUnaligned16 ys k"
  by (simp add: LoadUnaligned16_def nth_append)

lemma pack_all_Cons:
  "pack_all f (v # vs) = Some bytes \<Longrightarrow> \<exists>b bs. f v = Some b \<and> pack_all f vs = Some bs \<and> bytes = b @ bs"
  by (auto simp: pack_all_def split: option.splits)

lemma pack_all_H:
  "pack_all pack_H vs = Some bytes \<Longrightarrow> length bytes = 2 * length vs \<and>
    (\<forall>k < length vs. LoadUnaligned16 (bytes @ rest) (2 * k) = word_of_int (vs ! k) \<and> 0 \<le> vs ! k \<and> vs ! k < 65536)"
proof (induction vs arbitrary: bytes)
  case Nil
  then show ?case by (simp add: pack_all_def)
next
  case (Cons v vs)
  obtain b bs where b: "pack_H v = Some b" "pack_all pack_H vs = Some bs" "bytes = b @ bs"
    using pack_all_Cons [OF Cons.prems] by auto
  note p = LoadUnaligned16_pack [OF b(1)]
  have "LoadUnaligned16 (bytes @ rest) (2 * k) = word_of_int ((v # vs) ! k) \<and> 0 \<le> (v # vs) ! k \<and> (v # vs) ! k < 65536"
    if "k < length (v # vs)" for k
  proof (cases k)
    case 0
    then show ?thesis using p(2) [of "bs @ rest"] p(4,5) b(3) by simp
  next
    case (Suc j)
    then show ?thesis using Cons.IH [OF b(2)] that LoadUnaligned16_append [of b "bs @ rest" "2 * j"] p(1) b(3) by simp
  qed
  then show ?case using Cons.IH [OF b(2)] p(1) b(3) by simp
qed

lemma pack_all_B:
  "pack_all pack_B vs = Some bytes \<Longrightarrow> length bytes = length vs \<and>
    (\<forall>k < length vs. (bytes @ rest) ! k = word_of_int (vs ! k) \<and> 0 \<le> vs ! k \<and> vs ! k < 256)"
proof (induction vs arbitrary: bytes)
  case Nil
  then show ?case by (simp add: pack_all_def)
next
  case (Cons v vs)
  obtain b bs where b: "pack_B v = Some b" "pack_all pack_B vs = Some bs" "bytes = b @ bs"
    using pack_all_Cons [OF Cons.prems] by auto
  then have "b = [word_of_int v]" "0 \<le> v" "v < 256" by (auto simp: pack_B_def split: if_splits)
  then show ?case using Cons.IH [OF b(2)] b(3) by (auto simp: nth_Cons split: nat.splits)
qed

subsection \<open>A row\<close>

abbreviation stored :: "int option list \<Rightarrow> bool list" where
  "stored xs \<equiv> map (\<lambda>cost. cost \<noteq> None) xs"

lemma row_chunks_append:
  assumes "row_chunks u (A @ B) = Some (p, c, v)"
  obtains pA cA vA pB cB vB where "row_chunks u A = Some (pA, cA, vA)" "row_chunks u B = Some (pB, cB, vB)"
    "p = pA @ pB" "c = cA @ cB" "v = vA @ vB"
  using assms
proof (induction A arbitrary: p c v thesis)
  case Nil
  then show ?case by simp
next
  case (Cons x A)
  show ?case
  proof (cases "list_all (\<lambda>cost. cost = None) x")
    case True
    then obtain p' where r: "row_chunks u (A @ B) = Some (p', c, v)" "p = False # p'" using Cons.prems(2) by auto
    obtain pA cA vA pB cB vB where i: "row_chunks u A = Some (pA, cA, vA)" "row_chunks u B = Some (pB, cB, vB)"
      "p' = pA @ pB" "c = cA @ cB" "v = vA @ vB"
      using Cons.IH [OF _ r(1)] by blast
    show ?thesis by (rule Cons.prems(1) [of "False # pA" cA vA pB cB vB]) (use True i r(2) in simp_all)
  next
    case False
    then obtain vs p' c' v' where r: "those (map (stored_value u) (List.map_filter id x)) = Some vs"
      "row_chunks u (A @ B) = Some (p', c', v')" "p = True # p'" "c = stored x @ c'" "v = vs @ v'"
      using Cons.prems(2) by (auto simp: bind_eq_Some_conv)
    obtain pA cA vA pB cB vB where i: "row_chunks u A = Some (pA, cA, vA)" "row_chunks u B = Some (pB, cB, vB)"
      "p' = pA @ pB" "c' = cA @ cB" "v' = vA @ vB"
      using Cons.IH [OF _ r(2)] by blast
    show ?thesis by (rule Cons.prems(1) [of "True # pA" "stored x @ cA" "vs @ vA" pB cB vB]) (use False i r in simp_all)
  qed
qed

lemma length_map_filter_id: "length (List.map_filter id xs) = length (filter (\<lambda>b. b) (stored xs))"
  by (induction xs) (auto simp: map_filter_simps split: option.splits)

lemma nth_map_filter_id:
  "j < length xs \<Longrightarrow> xs ! j = Some y \<Longrightarrow> rank (stored xs) j < length (List.map_filter id xs) \<and>
     List.map_filter id xs ! rank (stored xs) j = y"
proof (induction xs arbitrary: j)
  case (Cons x xs)
  then show ?case by (cases j; cases x) (auto simp: map_filter_simps rank_def)
qed simp

lemma row_chunks_length:
  "row_chunks u chunks = Some (p, c, v) \<Longrightarrow> length p = length chunks"
  by (induction chunks arbitrary: p c v) (auto split: if_splits simp: bind_eq_Some_conv)

lemma row_chunks_lengths:
  assumes "row_chunks u chunks = Some (p, c, v)" "\<forall>x \<in> set chunks. length x = 8"
  shows "length p = length chunks" "length c = 8 * length (filter (\<lambda>b. b) p)" "length v = length (filter (\<lambda>b. b) c)"
proof -
  have "length p = length chunks \<and> length c = 8 * length (filter (\<lambda>b. b) p) \<and> length v = length (filter (\<lambda>b. b) c)"
    using assms
  proof (induction chunks arbitrary: p c v)
    case (Cons x chunks)
    show ?case
    proof (cases "list_all (\<lambda>cost. cost = None) x")
      case True
      then show ?thesis using Cons by auto
    next
      case False
      then obtain vs p' c' v' where r: "those (map (stored_value u) (List.map_filter id x)) = Some vs"
        "row_chunks u chunks = Some (p', c', v')" "p = True # p'" "c = stored x @ c'" "v = vs @ v'"
        using Cons.prems(1) by (auto simp: bind_eq_Some_conv)
      then show ?thesis using Cons.IH [OF r(2)] Cons.prems(2) those_map_nth [OF r(1)] length_map_filter_id [of x] by simp
    qed
  qed simp
  then show "length p = length chunks" "length c = 8 * length (filter (\<lambda>b. b) p)" "length v = length (filter (\<lambda>b. b) c)" by simp_all
qed

lemma rank_append: "rank (xs @ ys) (length xs + n) = length (filter (\<lambda>b. b) xs) + rank ys n"
  by (simp add: rank_def)

lemma rank_prefix: "n \<le> length xs \<Longrightarrow> rank (xs @ ys) n = rank xs n"
  by (simp add: rank_def)

text \<open>Where the cell \<open>i\<close> of a row is: its chunk bit, its bit in the chunk and its value.\<close>

lemma row_chunks_cell:
  assumes "row_chunks u (SplitList 8 row) = Some (p, c, v)" "i < length row"
  defines "k \<equiv> 8 * rank p (i div 8) + i mod 8"
  shows "i div 8 < length p" and "\<not> p ! (i div 8) \<Longrightarrow> row ! i = None"
    and "p ! (i div 8) \<Longrightarrow> k < length c \<and> (c ! k \<longleftrightarrow> row ! i \<noteq> None) \<and>
      (\<forall>cost. row ! i = Some cost \<longrightarrow> rank c k < length v \<and> stored_value u cost = Some (v ! rank c k))"
proof -
  let ?d = "i div 8" and ?j = "i mod 8" and ?ch = "SplitList 8 row"
  note n = nth_SplitList8 [OF assms(2)]
  define x where "x = ?ch ! ?d"
  have j: "?j < length x" "x ! ?j = row ! i" using n by (simp_all add: x_def)
  have split: "?ch = take ?d ?ch @ (x # drop (Suc ?d) ?ch)" using n(1) by (simp add: x_def id_take_nth_drop [symmetric])
  obtain pA cA vA pB cB vB where a: "row_chunks u (take ?d ?ch) = Some (pA, cA, vA)" "row_chunks u (x # drop (Suc ?d) ?ch) = Some (pB, cB, vB)"
    "p = pA @ pB" "c = cA @ cB" "v = vA @ vB"
    using row_chunks_append [of u "take ?d ?ch" "x # drop (Suc ?d) ?ch"] assms(1) split by metis
  have full: "\<forall>y \<in> set (take ?d ?ch). length y = 8"
  proof
    fix y assume "y \<in> set (take ?d ?ch)"
    then obtain a where "a < ?d" "y = ?ch ! a" by (auto simp: in_set_conv_nth)
    then show "length y = 8" using SplitList8_full [of a row] n(1) by simp
  qed
  note l = row_chunks_lengths [OF a(1) full]
  have lp: "length pA = ?d" using l(1) n(1) by simp
  have rk: "rank p ?d = length (filter (\<lambda>b. b) pA)" using rank_append [of pA pB 0] lp by (simp add: a(3) rank_def)
  have k: "k = length cA + ?j" unfolding k_def rk l(2) ..
  show "?d < length p" and "\<not> p ! ?d \<Longrightarrow> row ! i = None"
  proof -
    have "pB \<noteq> []" using a(2) by (auto split: if_splits simp: bind_eq_Some_conv)
    then show "?d < length p" by (simp add: a(3) lp)
    assume np: "\<not> p ! ?d"
    have "list_all (\<lambda>cost. cost = None) x"
    proof (rule ccontr)
      assume "\<not> list_all (\<lambda>cost. cost = None) x"
      then have "pB ! 0" using a(2) by (auto simp: bind_eq_Some_conv)
      then show False using np lp \<open>pB \<noteq> []\<close> by (simp add: a(3) nth_append)
    qed
    then show "row ! i = None" using j by (simp add: list_all_length)
  qed
  assume pd: "p ! ?d"
  have "\<not> list_all (\<lambda>cost. cost = None) x"
  proof
    assume "list_all (\<lambda>cost. cost = None) x"
    then obtain p' where "pB = False # p'" using a(2) by auto
    then show False using pd lp by (simp add: a(3) nth_append)
  qed
  then obtain vs c' v' where r: "those (map (stored_value u) (List.map_filter id x)) = Some vs" "cB = stored x @ c'" "vB = vs @ v'"
    using a(2) by (auto simp: bind_eq_Some_conv)
  note t = those_map_nth [OF r(1)]
  have "k < length c" using j(1) by (simp add: k a(4) r(2))
  moreover have ck: "c ! k \<longleftrightarrow> row ! i \<noteq> None" using j by (simp add: k a(4) r(2) nth_append)
  moreover have "rank c k < length v \<and> stored_value u cost = Some (v ! rank c k)" if "row ! i = Some cost" for cost
  proof -
    have "rank c k = length vA + rank (stored x) ?j"
      unfolding a(4) k rank_append r(2) l(3) using j(1) by (simp add: rank_prefix)
    moreover have "rank (stored x) ?j < length (List.map_filter id x) \<and> List.map_filter id x ! rank (stored x) ?j = cost"
      by (rule nth_map_filter_id [OF j(1)]) (use j(2) that in simp)
    ultimately show ?thesis using t by (auto simp: a(5) r(3) nth_append)
  qed
  ultimately show "k < length c \<and> (c ! k \<longleftrightarrow> row ! i \<noteq> None) \<and>
      (\<forall>cost. row ! i = Some cost \<longrightarrow> rank c k < length v \<and> stored_value u cost = Some (v ! rank c k))" by blast
qed

lemma pad_to_props:
  assumes "0 < n"
  shows "n dvd length (pad_to n x xs)" "i < length xs \<Longrightarrow> pad_to n x xs ! i = xs ! i" "length xs \<le> length (pad_to n x xs)"
    "length (pad_to n x xs) = (length xs + n - 1) div n * n"
proof -
  show "i < length xs \<Longrightarrow> pad_to n x xs ! i = xs ! i" "length xs \<le> length (pad_to n x xs)" by (simp_all add: pad_to_def nth_append)
  define q r where "q = length xs div n" and "r = length xs mod n"
  have e: "length xs = n * q + r" "r < n" using assms by (simp_all add: q_def r_def)
  have "length (pad_to n x xs) = (if r = 0 then n * q else n * (q + 1))"
    using e by (auto simp: pad_to_def r_def [symmetric] algebra_simps)
  moreover have "(length xs + n - 1) div n = (if r = 0 then q else q + 1)"
    using e assms by (auto intro!: div_nat_eqI simp: algebra_simps)
  ultimately show "length (pad_to n x xs) = (length xs + n - 1) div n * n" by simp
  then show "n dvd length (pad_to n x xs)" by simp
qed

lemma rank_pad: "i \<le> length xs \<Longrightarrow> rank (pad_to n x xs) i = rank xs i"
  by (simp add: pad_to_def rank_prefix)

lemma LoadUnaligned16_drop: "p \<le> length data \<Longrightarrow> LoadUnaligned16 data (p + k) = LoadUnaligned16 (drop p data) k"
  by (simp add: LoadUnaligned16_def add.assoc)

text \<open>What the reader makes of a cell of the compressed matrix.\<close>

definition read_cost :: "bool \<Rightarrow> int \<Rightarrow> int" where
  "read_cost use_1byte_cost cost =
     (if use_1byte_cost then if cost = INVALID_COST then INVALID_COST else cost div RESOLUTION_FOR_1BYTE else cost)"

definition row_answers :: "bool \<Rightarrow> int option list \<Rightarrow> Row \<Rightarrow> bool" where
  "row_answers u row r \<longleftrightarrow> (\<forall>i < length row. map_option uint (GetValue r (of_nat i)) = map_option (read_cost u) (row ! i))"

lemma byte_value:
  assumes "stored_value True cost = Some v" "0 \<le> v" "v < 256"
  shows "uint (let w = ucast (word_of_int v :: u8) :: u16 in if w = kInvalid1ByteCostValue then kInvalidCost else w) = read_cost True cost"
proof -
  have w: "uint (ucast (word_of_int v :: u8) :: u16) = v"
    using assms(2,3) by (simp add: uint_word_of_int_eq take_bit_int_eq_self unsigned_ucast_eq)
  then have "(ucast (word_of_int v :: u8) :: u16) = kInvalid1ByteCostValue \<longleftrightarrow> v = 255"
    by (simp add: word_uint_eq_iff kInvalid1ByteCostValue_def)
  then show ?thesis using assms(1) w
    by (auto simp: stored_value_def read_cost_def INVALID_COST_def INVALID_1BYTE_COST_def kInvalidCost_def Let_def split: if_splits)
qed

lemma row_answers_written:
  assumes "row_chunks u (SplitList 8 row) = Some (p, c, v)" "length row < 65536"
    and "OutputBitList (pad_to 32 False p) = Some b3" "OutputBitList (pad_to 32 False c) = Some b4"
    and "pack_all (if u then pack_B else pack_H) (if u then pad_to 4 0 v else pad_to 2 0 v) = Some b5"
    and "sv_ok ch" "sv_data ch = b3 @ r3" "sv_length ch = length b3" "sv_ok co" "sv_data co = b4 @ r4" "sv_length co = length b4"
  shows "row_answers u row \<lparr>row_chunk_bits_index = ch, row_compact_bits_index = co, row_values = b5 @ r5, row_use_1byte_value = u\<rparr>"
  unfolding row_answers_def
proof (intro allI impI)
  fix i assume i: "i < length row"
  let ?r = "\<lparr>row_chunk_bits_index = ch, row_compact_bits_index = co, row_values = b5 @ r5, row_use_1byte_value = u\<rparr>"
  let ?k = "8 * rank p (i div 8) + i mod 8"
  have ui: "unat (of_nat i :: u16) = i" using i assms(2) by (simp add: unsigned_of_nat take_bit_nat_eq_self)
  note cell = row_chunks_cell [OF assms(1) i]
  have d3: "32 dvd length (pad_to 32 False p)" "i div 8 < length (pad_to 32 False p)"
    using pad_to_props(1) [of 32 False p] less_le_trans [OF cell(1) pad_to_props(3) [of 32 p False]] by simp_all
  note w3 = written_bits [OF assms(3) d3(1) assms(6,7,8) d3(2)]
  have p3: "pad_to 32 False p ! (i div 8) = p ! (i div 8)" "rank (pad_to 32 False p) (i div 8) = rank p (i div 8)"
    using pad_to_props(2) [of 32 "i div 8" p False] rank_pad [of "i div 8" p 32 False] cell(1) by simp_all
  show "map_option uint (GetValue ?r (of_nat i)) = map_option (read_cost u) (row ! i)"
  proof (cases "p ! (i div 8)")
    case False
    then have "sv_Get ch (i div 8) = 0" using w3(1) p3(1) by blast
    then show ?thesis using cell(2) [OF False] by (simp add: GetValue_def ui)
  next
    case True
    then have g3: "sv_Get ch (i div 8) \<noteq> 0" using w3(1) p3(1) by blast
    have r3: "Rank1 ch (i div 8) * 8 + i mod 8 = ?k" using w3(2) p3(2) by simp
    note c4 = cell(3) [OF True]
    have d4: "32 dvd length (pad_to 32 False c)" "?k < length (pad_to 32 False c)"
      using pad_to_props(1) [of 32 False c] less_le_trans [OF _ pad_to_props(3) [of 32 c False]] c4 by simp_all
    note w4 = written_bits [OF assms(4) d4(1) assms(9,10,11) d4(2)]
    have p4: "pad_to 32 False c ! ?k = c ! ?k" "rank (pad_to 32 False c) ?k = rank c ?k"
      using pad_to_props(2) [of 32 ?k c False] rank_pad [of ?k c 32 False] c4 by simp_all
    show ?thesis
    proof (cases "row ! i")
      case None
      then have "sv_Get co ?k = 0" using w4(1) p4(1) c4 by simp
      then show ?thesis using g3 r3 None by (simp add: GetValue_def ui Let_def mult.commute)
    next
      case (Some cost)
      then have g4: "sv_Get co ?k \<noteq> 0" using w4(1) p4(1) c4 by simp
      have m: "rank c ?k < length v" "stored_value u cost = Some (v ! rank c ?k)" using c4 Some by auto
      let ?m = "rank c ?k"
      have g: "GetValue ?r (of_nat i) = (if u then let w = ucast ((b5 @ r5) ! ?m) in Some (if w = kInvalid1ByteCostValue then kInvalidCost else w)
          else Some (LoadUnaligned16 (b5 @ r5) (2 * ?m)))"
        using g3 g4 r3 w4(2) p4(2) by (simp add: GetValue_def ui Let_def mult.commute)
      show ?thesis
      proof (cases u)
        case True
        have "?m < length (pad_to 4 0 v)" "pad_to 4 0 v ! ?m = v ! ?m"
          using less_le_trans [OF m(1) pad_to_props(3) [of 4 v 0]] pad_to_props(2) [OF _ m(1), of 4 0] by simp_all
        then have "(b5 @ r5) ! ?m = word_of_int (v ! ?m)" "0 \<le> v ! ?m" "v ! ?m < 256"
          using pack_all_B [of "pad_to 4 0 v" b5 r5] assms(5) True by auto
        then show ?thesis using g True Some byte_value [of cost "v ! ?m"] m(2) by (simp add: Let_def)
      next
        case False
        have "?m < length (pad_to 2 0 v)" "pad_to 2 0 v ! ?m = v ! ?m"
          using less_le_trans [OF m(1) pad_to_props(3) [of 2 v 0]] pad_to_props(2) [OF _ m(1), of 2 0] by simp_all
        then have "LoadUnaligned16 (b5 @ r5) (2 * ?m) = word_of_int (v ! ?m)" "0 \<le> v ! ?m" "v ! ?m < 65536"
          using pack_all_H [of "pad_to 2 0 v" b5 r5] assms(5) False by auto
        then show ?thesis using g False Some m(2)
          by (simp add: stored_value_def read_cost_def uint_word_of_int_eq take_bit_int_eq_self)
      qed
    qed
  qed
qed

lemma read_row_written:
  assumes "write_row u row = Some bytes" "length row < 65536" "drop ptr data = bytes @ rest" "ptr \<le> length data"
    and "(base + ptr) mod 4 = 0" "unat (md_lsize md) = length row" "Use1ByteValue md = u"
  obtains r where "read_row base data md ptr = Some (Inr (r, ptr + length bytes))" "row_answers u row r" "4 dvd length bytes"
proof -
  obtain p c v where pcv: "row_chunks u (SplitList 8 row) = Some (p, c, v)"
    using assms(1) by (auto simp: write_row_def bind_eq_Some_conv)
  define vals where "vals = (if u then pad_to 4 0 v else pad_to 2 0 v)"
  define vsize where "vsize = (if u then length vals else length vals * 2)"
  obtain b1 b2 b3 b4 b5 where b: "pack_H (int (length (pad_to 32 False c) div 8)) = Some b1" "pack_H (int vsize) = Some b2"
    "OutputBitList (pad_to 32 False p) = Some b3" "OutputBitList (pad_to 32 False c) = Some b4"
    "pack_all (if u then pack_B else pack_H) vals = Some b5" "bytes = b1 @ b2 @ b3 @ b4 @ b5"
    using assms(1) pcv by (cases u) (auto simp: write_row_def bind_eq_Some_conv Let_def vals_def vsize_def)
  have lp: "length p = (length row + 7) div 8"
  proof -
    have "length p = length (SplitList 8 row)" using pcv
      by (rule row_chunks_length)
    then show ?thesis by (simp add: length_SplitList8)
  qed
  have l3: "length b3 = ChunkBitsSize md" "4 dvd length b3"
  proof -
    have "8 * length b3 = (length p + 31) div 32 * 32" using OutputBitList_bits(1) [OF b(3)] pad_to_props(4) [of 32 False p] by simp
    then show "length b3 = ChunkBitsSize md" "4 dvd length b3"
      by (simp_all add: ChunkBitsSize_def NumChunkBits_def assms(6) lp)
  qed
  have l4: "length b4 = length (pad_to 32 False c) div 8" "4 dvd length b4"
  proof -
    have "8 * length b4 = length (pad_to 32 False c)" by (rule OutputBitList_bits(1) [OF b(4)])
    then show "length b4 = length (pad_to 32 False c) div 8" "4 dvd length b4"
      using pad_to_props(1) [of 32 False c] by auto
  qed
  have l5: "length b5 = vsize" "4 dvd vsize"
    using b(5) pack_all_B [of vals b5 "[]"] pack_all_H [of vals b5 "[]"] pad_to_props(1) [of 4 0 v] pad_to_props(1) [of 2 0 v]
    by (auto simp: vsize_def vals_def split: if_splits)
  note h1 = LoadUnaligned16_pack [OF b(1)] and h2 = LoadUnaligned16_pack [OF b(2)]
  have dr: "drop (ptr + n) data = drop n (bytes @ rest)" for n
    using assms(3) by (metis add.commute drop_drop)
  have len: "length data = ptr + length bytes + length rest"
    using arg_cong [OF assms(3), of length] assms(4) by simp
  have c1: "unat (LoadUnaligned16 data ptr) = length b4"
    using LoadUnaligned16_drop [OF assms(4), of 0] h1(2) [of "b2 @ b3 @ b4 @ b5 @ rest"] h1(3) l4(1) by (simp add: assms(3) b(6))
  have c2: "unat (LoadUnaligned16 data (ptr + 2)) = length b5"
    using LoadUnaligned16_drop [OF assms(4), of 2] h2(2) [of "b3 @ b4 @ b5 @ rest"] h2(3) l5(1)
      LoadUnaligned16_append [of b1 "b2 @ b3 @ b4 @ b5 @ rest" 0] h1(1) by (simp add: assms(3) b(6))
  obtain ch where ch: "Init (b3 @ b4 @ b5 @ rest) (length b3) 4 0 0 = Some ch" "sv_ok ch" "sv_data ch = b3 @ b4 @ b5 @ rest" "sv_length ch = length b3"
    by (rule Init_ok [of "length b3" 4 "b3 @ b4 @ b5 @ rest" 0 0]) (use l3(2) in \<open>simp_all add: sizes_ok_def\<close>)
  obtain co where co: "Init (b4 @ b5 @ rest) (length b4) 4 0 0 = Some co" "sv_ok co" "sv_data co = b4 @ b5 @ rest" "sv_length co = length b4"
    by (rule Init_ok [of "length b4" 4 "b4 @ b5 @ rest" 0 0]) (use l4(2) in \<open>simp_all add: sizes_ok_def\<close>)
  define r where "r = \<lparr>row_chunk_bits_index = ch, row_compact_bits_index = co, row_values = b5 @ rest, row_use_1byte_value = u\<rparr>"
  have a: "\<not> misaligned base (ptr + 4 * n)" for n using assms(5) by (simp add: misaligned_def add.assoc [symmetric])
  obtain n3 n4 where n: "length b3 = 4 * n3" "length b4 = 4 * n4" using l3(2) l4(2) by (auto simp: dvd_def)
  have al: "\<not> misaligned base (ptr + 4)" "\<not> misaligned base (ptr + 4 + length b3)" "\<not> misaligned base (ptr + 4 + length b3 + length b4)"
    using a [of 1] a [of "1 + n3"] a [of "1 + n3 + n4"] by (simp_all add: n algebra_simps)
  have d: "drop (ptr + 4) data = b3 @ b4 @ b5 @ rest" "drop (ptr + 4 + length b3) data = b4 @ b5 @ rest"
    "drop (ptr + 4 + length b3 + length b4) data = b5 @ rest"
    using dr [of 4] dr [of "4 + length b3"] dr [of "4 + length b3 + length b4"] h1(1) h2(1) by (simp_all add: b(6) add.assoc)
  have lb: "length bytes = 4 + length b3 + length b4 + length b5" using h1(1) h2(1) by (simp add: b(6))
  have ri: "Row_Init (b3 @ b4 @ b5 @ rest) (length b3) (b4 @ b5 @ rest) (length b4) (b5 @ rest) u = Some r"
    by (simp add: Row_Init_def ch(1) co(1) r_def)
  have s: "\<not> length data < ptr + 2" "\<not> length data < ptr + 2 + 2" "\<not> length data < ptr + 4 + length b3"
    "\<not> length data < ptr + 4 + length b3 + length b4" "\<not> length data < ptr + 4 + length b3 + length b4 + length b5"
    using len lb by simp_all
  have p4: "ptr + 2 + 2 = ptr + 4" by simp
  have "read_row base data md ptr = Some (Inr (r, ptr + length bytes))"
    unfolding read_row_def Let_def c1 c2 p4 l3(1) [symmetric] assms(7)
    using s al by (simp add: d ri lb)
  moreover have "row_answers u row r"
    unfolding r_def
    by (rule row_answers_written [OF pcv assms(2) b(3,4) _ ch(2,3,4) co(2,3,4)]) (use b(5) in \<open>simp add: vals_def\<close>)
  moreover have "4 dvd length bytes" using lb l3(2) l4(2) l5 by (simp add: n)
  ultimately show ?thesis using that by blast
qed

subsection \<open>The whole image\<close>

lemma read_rows_written:
  assumes "those (map (write_row u) rows) = Some bs" "\<forall>row \<in> set rows. length row = unat (md_lsize md)" "unat (md_lsize md) < 65536"
    and "drop ptr data = concat bs @ rest" "ptr \<le> length data" "(base + ptr) mod 4 = 0" "Use1ByteValue md = u"
  shows "\<exists>rs. read_rows base data md (length rows) ptr = Some (Inr (rs, ptr + length (concat bs))) \<and> list_all2 (row_answers u) rows rs"
  using assms(1,2,4,5,6)
proof (induction rows arbitrary: bs ptr)
  case Nil
  then show ?case by simp
next
  case (Cons row rows)
  obtain b bs' where b: "write_row u row = Some b" "those (map (write_row u) rows) = Some bs'" "bs = b # bs'"
    using Cons.prems(1) by (auto split: option.splits)
  have l: "length row < 65536" "unat (md_lsize md) = length row" using Cons.prems(2) assms(3) by auto
  have d: "drop ptr data = b @ (concat bs' @ rest)" using Cons.prems(3) b(3) by simp
  obtain r where r: "read_row base data md ptr = Some (Inr (r, ptr + length b))" "row_answers u row r" "4 dvd length b"
    by (rule read_row_written [OF b(1) l(1) d Cons.prems(4,5) l(2) assms(7)])
  have d': "drop (ptr + length b) data = concat bs' @ rest"
    using arg_cong [OF d, of "drop (length b)"] by (simp add: add.commute)
  have p': "ptr + length b \<le> length data" using arg_cong [OF d, of length] Cons.prems(4) by simp
  have a': "(base + (ptr + length b)) mod 4 = 0" using Cons.prems(5) r(3) by (auto simp: dvd_def add.assoc [symmetric])
  obtain rs where "read_rows base data md (length rows) (ptr + length b) = Some (Inr (rs, ptr + length b + length (concat bs')))"
    "list_all2 (row_answers u) rows rs"
    using Cons.IH [OF b(2) _ d' p' a'] Cons.prems(2) by auto
  then show ?case using r b(3) by (simp add: add.assoc)
qed

lemma those_map_length: "those (map f xs) = Some ys \<Longrightarrow> length ys = length xs"
  using those_map_nth by blast

text \<open>The cost the connector answers for a cost of the matrix and the mode of its row.\<close>

definition image_cost :: "bool \<Rightarrow> int \<Rightarrow> int \<Rightarrow> int" where
  "image_cost use_1byte_cost mode_value cost =
     (if cost = mode_value then cost
      else read_cost use_1byte_cost cost * (if use_1byte_cost then RESOLUTION_FOR_1BYTE else 1))"

lemma LoadUnaligned16_magic: "LoadUnaligned16 (0xAB # 0xCD # xs) 0 = kConnectorMagicNumber"
  by (simp add: LoadUnaligned16_def kConnectorMagicNumber_def)

lemma pack_three:
  assumes "pack_all pack_H [a, b, c] = Some bytes"
  shows "length bytes = 6" "LoadUnaligned16 (bytes @ rest) 0 = word_of_int a" "LoadUnaligned16 (bytes @ rest) 2 = word_of_int b"
    "LoadUnaligned16 (bytes @ rest) 4 = word_of_int c"
proof -
  have p: "length bytes = 2 * length [a, b, c]" "\<And>k. k < 3 \<Longrightarrow> LoadUnaligned16 (bytes @ rest) (2 * k) = word_of_int ([a, b, c] ! k)"
    using pack_all_H [OF assms, of rest] by auto
  show "length bytes = 6" using p(1) by simp
  show "LoadUnaligned16 (bytes @ rest) 0 = word_of_int a" "LoadUnaligned16 (bytes @ rest) 2 = word_of_int b"
    "LoadUnaligned16 (bytes @ rest) 4 = word_of_int c"
    using p(2) [of 0] p(2) [of 1] p(2) [of 2] by simp_all
qed

lemma DefaultCostArraySize_eq:
  assumes "n < 65536" "md_rsize md = word_of_int (int n)"
  shows "DefaultCostArraySize md = n + n mod 2"
proof -
  have "unat (md_rsize md) = n" using assms by (simp add: unsigned_of_nat take_bit_nat_eq_self)
  moreover have "unat (md_rsize md AND 1) = unat (md_rsize md) AND 1" by (simp only: unsigned_and_eq unsigned_1)
  ultimately show ?thesis by (simp add: DefaultCostArraySize_def and_one_eq)
qed

lemma Create_written:
  assumes "connection_image u matrix = Some data" "\<forall>row \<in> set matrix. length row = length matrix" "base mod 4 = 0"
  obtains cn modes where "Create base data = Some (Inr cn)" "CreateModeValueList matrix = Some modes"
    "cn_cache cn = replicate kCacheSize 0" "length matrix < 65536"
    "\<forall>rid < length matrix. \<forall>lid < length matrix.
       LookupCost cn (of_nat rid) (of_nat lid) = image_cost u (modes ! rid) (matrix ! rid ! lid) \<and>
       0 \<le> LookupCost cn (of_nat rid) (of_nat lid) \<and> LookupCost cn (of_nat rid) (of_nat lid) < 2 ^ 31"
proof -
  let ?n = "length matrix" and ?res = "if u then RESOLUTION_FOR_1BYTE else 1"
  obtain modes where m: "CreateModeValueList matrix = Some modes"
    and img: "BuildBinaryData (CompressMatrixByModeValue matrix modes) modes u = Some data"
    using assms(1) by (auto simp: connection_image_def bind_eq_Some_conv)
  have lm: "length modes = ?n" using those_map_length [of _ matrix modes] m by (simp add: CreateModeValueList_def)
  define cm where "cm = CompressMatrixByModeValue matrix modes"
  have lc: "length cm = ?n" using lm by (simp add: cm_def CompressMatrixByModeValue_def)
  have cell: "cm ! rid = map (\<lambda>cost. if cost = modes ! rid then None else Some cost) (matrix ! rid)" if "rid < ?n" for rid
    using that lm by (simp add: cm_def CompressMatrixByModeValue_def)
  obtain hd' md' rs' where h: "pack_all pack_H [?res, int ?n, int ?n] = Some hd'" "pack_all pack_H modes = Some md'"
    "those (map (write_row u) cm) = Some rs'"
    "data = [0xAB, 0xCD] @ hd' @ md' @ (if ?n mod 2 \<noteq> 0 then [0, 0] else []) @ concat rs'"
    using img by (auto simp: BuildBinaryData_def bind_eq_Some_conv Let_def cm_def [symmetric] lc lm split: if_splits)
  define padding :: "u8 list" where "padding = (if ?n mod 2 \<noteq> 0 then [0, 0] else [])"
  have lpad: "length padding = 2 * (?n mod 2)" by (auto simp: padding_def)
  have data: "data = [0xAB, 0xCD] @ hd' @ md' @ padding @ concat rs'" using h(4) by (simp add: padding_def)
  note p1 = pack_three(1) [OF h(1)]
  note p3 = pack_three(2-4) [OF h(1), of "md' @ padding @ concat rs'"]
  have n: "?n < 65536"
    using pack_all_H [OF h(1), of "[]"] by (auto dest!: spec [of _ 1])
  have res: "0 \<le> ?res" "?res < 65536" by (simp_all add: RESOLUTION_FOR_1BYTE_def)
  define md where "md = \<lparr>md_magic = kConnectorMagicNumber, md_resolution = word_of_int ?res, md_rsize = word_of_int (int ?n), md_lsize = word_of_int (int ?n)\<rparr>"
  have un2: "unat (of_nat ?n :: u16) = ?n" using n by (simp add: unsigned_of_nat take_bit_nat_eq_self)
  have un: "unat (word_of_int (int ?n) :: u16) = ?n" using n by (simp add: unsigned_of_nat take_bit_nat_eq_self)
  have ld: "LoadUnaligned16 data (2 + k) = LoadUnaligned16 (hd' @ md' @ padding @ concat rs') k" for k
    using LoadUnaligned16_append [of "[0xAB, 0xCD]" "hd' @ md' @ padding @ concat rs'" k] by (simp add: data)
  have pm: "ParseMetadata data = Inr md"
  proof -
    have "\<not> length data < kByteSize" using p1 by (simp add: data kByteSize_def)
    moreover have "LoadUnaligned16 data 0 = kConnectorMagicNumber" by (simp add: data LoadUnaligned16_magic)
    moreover have "LoadUnaligned16 data 2 = word_of_int ?res" "LoadUnaligned16 data 4 = word_of_int (int ?n)"
      "LoadUnaligned16 data 6 = word_of_int (int ?n)"
      using ld [of 0] ld [of 2] ld [of 4] p3(1,2,3) by (simp_all only: add_0_right) (simp_all add: numeral_eq_Suc)
    ultimately show ?thesis by (simp add: ParseMetadata_def md_def Let_def)
  qed
  have ds: "DefaultCostArraySize md = ?n + ?n mod 2" by (rule DefaultCostArraySize_eq [OF n]) (simp add: md_def)
  have lmd: "length md' = 2 * ?n" using pack_all_H [OF h(2), of "[]"] lm by simp
  define ptr where "ptr = kByteSize + DefaultCostArraySize md * 2"
  have ptr: "ptr = length ([0xAB, 0xCD] @ hd' @ md' @ padding)" using p1 lmd lpad by (simp add: ptr_def ds kByteSize_def)
  have dp: "drop ptr data = concat rs' @ []" "ptr \<le> length data" by (simp_all add: ptr data)
  have ap: "(base + ptr) mod 4 = 0"
  proof -
    have "ptr = 4 * (2 + (?n + ?n mod 2) div 2)" by (simp add: ptr_def ds kByteSize_def) presburger
    moreover obtain k where "base = 4 * k" using assms(3) by (auto simp: mod_eq_0_iff_dvd dvd_def)
    ultimately have "base + ptr = 4 * (k + (2 + (?n + ?n mod 2) div 2))" by simp
    then show ?thesis by (simp only: mod_mult_self1_is_0)
  qed
  have sq: "\<forall>row \<in> set cm. length row = unat (md_lsize md)"
    using assms(2) lm by (auto simp: cm_def CompressMatrixByModeValue_def md_def un2 set_zip)
  have u1: "Use1ByteValue md = u" by (simp add: Use1ByteValue_def md_def RESOLUTION_FOR_1BYTE_def)
  have ul: "unat (md_lsize md) < 65536" using n by (simp add: md_def un2)
  obtain rows where rows: "read_rows base data md ?n ptr = Some (Inr (rows, ptr + length (concat rs')))" "list_all2 (row_answers u) cm rows"
    using read_rows_written [OF h(3) sq ul dp ap u1] lc by auto
  define cn where "cn = \<lparr>cn_rows = rows, cn_default_cost = drop kByteSize data, cn_resolution = uint (md_resolution md), cn_cache = replicate kCacheSize 0\<rparr>"
  have un': "unat (md_rsize md) = ?n" by (simp add: md_def un2)
  have al: "\<not> misaligned base kByteSize" using assms(3) by (simp add: misaligned_def kByteSize_def mod_add_right_eq [symmetric])
  have sz: "\<not> length data < kByteSize + DefaultCostArraySize md * 2" using dp(2) by (simp add: ptr_def)
  have end': "\<not> length data < ptr + length (concat rs')" by (simp add: data ptr)
  have cr: "Create base data = Some (Inr cn)"
    unfolding Create_def pm Let_def sum.case un' using sz al end' rows(1) by (simp add: ptr_def cn_def)
  have cres: "cn_resolution cn = ?res" using res by (simp add: cn_def md_def uint_word_of_int_eq take_bit_int_eq_self RESOLUTION_FOR_1BYTE_def)
  have look: "LookupCost cn (of_nat rid) (of_nat lid) = image_cost u (modes ! rid) (matrix ! rid ! lid) \<and>
      0 \<le> LookupCost cn (of_nat rid) (of_nat lid) \<and> LookupCost cn (of_nat rid) (of_nat lid) < 2 ^ 31"
    if r: "rid < ?n" "lid < ?n" for rid lid
  proof -
    have ur: "unat (of_nat rid :: u16) = rid" using r n by (simp add: unsigned_of_nat take_bit_nat_eq_self)
    have lr: "length (matrix ! rid) = ?n" using assms(2) r(1) by simp
    have ra: "row_answers u (cm ! rid) (rows ! rid)" using rows(2) r(1) lc by (simp add: list_all2_conv_all_nth)
    have g: "map_option uint (GetValue (rows ! rid) (of_nat lid)) = map_option (read_cost u) (cm ! rid ! lid)"
      using ra r lr cell [OF r(1)] unfolding row_answers_def by simp
    have dc: "LoadUnaligned16 (cn_default_cost cn) (2 * rid) = word_of_int (modes ! rid)" "0 \<le> modes ! rid" "modes ! rid < 65536"
    proof -
      have "cn_default_cost cn = md' @ (padding @ concat rs')" using p1 by (simp add: cn_def data kByteSize_def)
      then show "LoadUnaligned16 (cn_default_cost cn) (2 * rid) = word_of_int (modes ! rid)" "0 \<le> modes ! rid" "modes ! rid < 65536"
        using pack_all_H [OF h(2), of "padding @ concat rs'"] r(1) lm by simp_all
    qed
    have cn_rows: "cn_rows cn = rows" by (simp add: cn_def)
    show ?thesis
    proof (cases "matrix ! rid ! lid = modes ! rid")
      case True
      then have "GetValue (rows ! rid) (of_nat lid) = None" using g cell [OF r(1)] r(2) lr by simp
      then have "LookupCost cn (of_nat rid) (of_nat lid) = modes ! rid"
        using dc by (simp add: LookupCost_def ur cn_rows uint_word_of_int_eq take_bit_int_eq_self)
      then show ?thesis using True dc(2,3) by (simp add: image_cost_def)
    next
      case False
      then obtain w where w: "GetValue (rows ! rid) (of_nat lid) = Some w" "uint w = read_cost u (matrix ! rid ! lid)"
        using g cell [OF r(1)] r(2) lr by auto
      then have l: "LookupCost cn (of_nat rid) (of_nat lid) = uint w * ?res"
        by (simp add: LookupCost_def ur cn_rows cres)
      have "0 \<le> uint w" "uint w < 65536" using uint_lt2p [of w] by simp_all
      then have "0 \<le> uint w * ?res \<and> uint w * ?res < 2 ^ 31" by (simp add: RESOLUTION_FOR_1BYTE_def)
      then show ?thesis using l w(2) False by (simp add: image_cost_def)
    qed
  qed
  have ch: "cn_cache cn = replicate kCacheSize 0" by (simp add: cn_def)
  show ?thesis by (rule that [OF cr m ch n]) (use look in blast)
qed

subsection \<open>The cache\<close>

text \<open>A run of queries against one connector, which carries its cache along.\<close>

fun run_queries :: "(u16 \<times> u16) list \<Rightarrow> Connector \<Rightarrow> int list \<times> Connector" where
  "run_queries [] cn = ([], cn)"
| "run_queries ((rid, lid) # qs) cn =
     (let (cost, cn') = GetTransitionCost rid lid cn; (costs, cn'') = run_queries qs cn' in (cost # costs, cn''))"

lemma cache_index_inj: "cache_index rid lid = cache_index rid' lid' \<longleftrightarrow> rid = rid' \<and> lid = lid'"
proof
  assume e: "cache_index rid lid = cache_index rid' lid'"
  have b: "bit (cache_index rid lid) k = bit (cache_index rid' lid') k" for k using e by simp
  have "bit lid k = bit lid' k" if "k < 16" for k
    using b [of k] that by (simp add: cache_index_def bit_simps)
  moreover have "bit rid k = bit rid' k" if "k < 16" for k
    using b [of "16 + k"] that by (auto simp: cache_index_def bit_simps dest: bit_imp_le_length)
  ultimately show "rid = rid' \<and> lid = lid'" by (auto intro!: bit_word_eqI)
qed simp

lemma cache_index_0: "cache_index rid lid = 0 \<longleftrightarrow> rid = 0 \<and> lid = 0"
  using cache_index_inj [of rid lid 0 0] by (simp add: cache_index_def)

lemma cache_bucket_less: "cache_bucket rid lid < kCacheSize"
proof -
  have m: "kCacheHashMask = mask 10" by (simp add: kCacheHashMask_def kCacheSize_def mask_eq_decr_exp)
  have "cache_bucket rid lid = take_bit 10 (unat (3 * ucast rid + ucast lid :: u32))"
    unfolding cache_bucket_def m by (simp only: take_bit_eq_mask [symmetric] unsigned_take_bit_eq)
  then have "cache_bucket rid lid < 2 ^ 10" by (simp only: take_bit_nat_less_exp)
  then show ?thesis by (simp add: kCacheSize_def)
qed

lemma cache_word:
  fixes v :: int and index :: u32
  assumes "0 \<le> v" "v < 2 ^ 31"
  defines "cv \<equiv> (push_bit 32 (word_of_int v) OR ucast index :: u64)"
  shows "(ucast cv :: u32) = index" "sint (ucast (drop_bit 32 cv) :: u32) = v"
proof -
  show "(ucast cv :: u32) = index" by (rule bit_word_eqI) (simp add: cv_def bit_simps)
  have "(ucast (drop_bit 32 cv) :: u32) = word_of_int v"
    by (rule bit_word_eqI) (auto simp: cv_def bit_simps dest: bit_imp_le_length)
  then show "sint (ucast (drop_bit 32 cv) :: u32) = v"
    using assms by (simp add: signed_of_int signed_take_bit_int_eq_self)
qed

text \<open>
  An entry of the cache is the cost of its pair, or it was never written. As an entry that was never written looks
  like that of (0, 0), the cost of (0, 0) has to be 0.
\<close>

definition cost_cache_ok :: "Connector \<Rightarrow> bool" where
  "cost_cache_ok cn \<longleftrightarrow> length (cn_cache cn) = kCacheSize \<and>
     (\<forall>rid lid. (ucast (cn_cache cn ! cache_bucket rid lid) :: u32) = cache_index rid lid \<longrightarrow>
        sint (ucast (drop_bit 32 (cn_cache cn ! cache_bucket rid lid)) :: u32) = LookupCost cn rid lid)"

lemma LookupCost_cache: "LookupCost (cn\<lparr>cn_cache := c\<rparr>) = LookupCost cn"
  by (auto simp: fun_eq_iff LookupCost_def split: option.splits)

lemma cost_cache_ok_fresh: "cn_cache cn = replicate kCacheSize 0 \<Longrightarrow> LookupCost cn 0 0 = 0 \<Longrightarrow> cost_cache_ok cn"
  using cache_bucket_less cache_index_0 by (auto simp: cost_cache_ok_def)

lemma GetTransitionCost_ok:
  assumes "cost_cache_ok cn" "0 \<le> LookupCost cn rid lid" "LookupCost cn rid lid < 2 ^ 31"
  shows "fst (GetTransitionCost rid lid cn) = LookupCost cn rid lid" "cost_cache_ok (snd (GetTransitionCost rid lid cn))"
    "LookupCost (snd (GetTransitionCost rid lid cn)) = LookupCost cn"
proof -
  let ?b = "cache_bucket rid lid"
  have len: "length (cn_cache cn) = kCacheSize" using assms(1) by (simp add: cost_cache_ok_def)
  show "fst (GetTransitionCost rid lid cn) = LookupCost cn rid lid"
    using assms(1) by (auto simp: GetTransitionCost_def Let_def cost_cache_ok_def)
  show "LookupCost (snd (GetTransitionCost rid lid cn)) = LookupCost cn"
    by (simp add: GetTransitionCost_def Let_def LookupCost_cache)
  show "cost_cache_ok (snd (GetTransitionCost rid lid cn))"
  proof (cases "(ucast (cn_cache cn ! ?b) :: u32) = cache_index rid lid")
    case True
    then show ?thesis using assms(1) by (simp add: GetTransitionCost_def Let_def)
  next
    case False
    define cv where "cv = (push_bit 32 (word_of_int (LookupCost cn rid lid)) OR ucast (cache_index rid lid) :: u64)"
    have s: "snd (GetTransitionCost rid lid cn) = cn\<lparr>cn_cache := (cn_cache cn)[?b := cv]\<rparr>"
      using False by (simp add: GetTransitionCost_def Let_def cv_def)
    note w = cache_word [OF assms(2,3), of "cache_index rid lid", folded cv_def]
    have "sint (ucast (drop_bit 32 ((cn_cache cn)[?b := cv] ! cache_bucket r l)) :: u32) = LookupCost cn r l"
      if e: "(ucast ((cn_cache cn)[?b := cv] ! cache_bucket r l) :: u32) = cache_index r l" for r l
    proof (cases "cache_bucket r l = ?b")
      case True
      then have "cache_index rid lid = cache_index r l" using e w(1) len cache_bucket_less [of rid lid] by simp
      then show ?thesis using w(2) True len cache_bucket_less [of rid lid] by (simp add: cache_index_inj)
    next
      case f: False
      then show ?thesis using assms(1) e by (auto simp: cost_cache_ok_def nth_list_update_neq)
    qed
    then show ?thesis by (simp add: s cost_cache_ok_def LookupCost_cache len)
  qed
qed

lemma run_queries_ok:
  "cost_cache_ok cn \<Longrightarrow> \<forall>(rid, lid) \<in> set qs. 0 \<le> LookupCost cn rid lid \<and> LookupCost cn rid lid < 2 ^ 31 \<Longrightarrow>
    fst (run_queries qs cn) = map (\<lambda>(rid, lid). LookupCost cn rid lid) qs"
proof (induction qs arbitrary: cn)
  case (Cons q qs)
  obtain rid lid where q: "q = (rid, lid)" by (cases q)
  have b: "0 \<le> LookupCost cn rid lid" "LookupCost cn rid lid < 2 ^ 31" using Cons.prems(2) q by auto
  note g = GetTransitionCost_ok [OF Cons.prems(1) b]
  have "fst (run_queries qs (snd (GetTransitionCost rid lid cn))) = map (\<lambda>(rid, lid). LookupCost cn rid lid) qs"
    using Cons.IH [OF g(2)] Cons.prems(2) by (simp add: g(3))
  then show ?case using g(1) by (simp add: q split_beta Let_def)
qed simp

text \<open>The parsed matrix is square and its first cell is 0.\<close>

definition matrix_ok :: "nat \<Rightarrow> int list list \<Rightarrow> bool" where
  "matrix_ok n m \<longleftrightarrow> length m = n \<and> (\<forall>row \<in> set m. length row = n) \<and> (0 < n \<longrightarrow> m ! 0 ! 0 = 0)"

lemma matrix_ok_set_cell:
  assumes "matrix_ok n m" "rid = 0 \<and> lid = 0 \<longrightarrow> cost = 0"
  shows "matrix_ok n (set_cell rid lid cost m)"
proof (cases "rid < n")
  case True
  then have l: "length (m ! rid) = n" using assms(1) by (simp add: matrix_ok_def)
  have "\<forall>row \<in> set (set_cell rid lid cost m). length row = n"
    using assms(1) l set_update_subset_insert [of m rid "(m ! rid)[lid := cost]"] by (auto simp: matrix_ok_def set_cell_def)
  moreover have "set_cell rid lid cost m ! 0 ! 0 = 0" if "0 < n"
    using assms that True l by (cases "rid = 0"; cases "lid = 0") (auto simp: matrix_ok_def set_cell_def)
  ultimately show ?thesis using assms(1) by (simp add: matrix_ok_def set_cell_def)
qed (use assms(1) in \<open>simp add: matrix_ok_def set_cell_def list_update_beyond\<close>)

lemma fold_invariant': "P s \<Longrightarrow> (\<And>x s. x \<in> set xs \<Longrightarrow> P s \<Longrightarrow> P (f x s)) \<Longrightarrow> P (fold f xs s)"
  by (induction xs arbitrary: s) auto

lemma ParseConnectionFile_ok:
  assumes "ParseConnectionFile costs pos_size special_pos_size = Some matrix"
  shows "matrix_ok (pos_size + special_pos_size) matrix"
proof -
  let ?n = "pos_size + special_pos_size"
  have "matrix_ok ?n (replicate ?n (replicate ?n 0))" by (simp add: matrix_ok_def)
  then show ?thesis
    using assms by (auto simp: ParseConnectionFile_def Let_def split: if_splits
        intro!: fold_invariant' [where P = "matrix_ok ?n"] matrix_ok_set_cell)
qed

text \<open>
  \<open>C13\<close>: An image that the generator writes for a connection file with at least one id opens at any address that is a multiple
  of 4, and whatever costs of ids of the matrix are asked for, in any order, the connector answers those of the matrix: exactly if they are
  written with two bytes; with one byte the mode of each row exactly, the others rounded down to a multiple of
  64, and an invalid cost (30000) as 64 times 30000, as \<^verbatim>\<open>LookupCost\<close> multiplies the restored cost by the resolution;
  \<^verbatim>\<open>data_manager_test_base.cc\<close> expects 30000 for it, which the two-byte form gives.
\<close>

theorem Connector_roundtrip:
  assumes "ParseConnectionFile costs pos_size special_pos_size = Some matrix" "0 < pos_size + special_pos_size"
    and "connection_image use_1byte_cost matrix = Some data" "base mod 4 = 0"
  shows "\<exists>cn modes. Create base data = Some (Inr cn) \<and> CreateModeValueList matrix = Some modes \<and>
    (\<forall>qs. (\<forall>(rid, lid) \<in> set qs. unat rid < length matrix \<and> unat lid < length matrix) \<longrightarrow>
      fst (run_queries qs cn) =
        map (\<lambda>(rid, lid). image_cost use_1byte_cost (modes ! unat rid) (matrix ! unat rid ! unat lid)) qs)"
proof -
  let ?n = "length matrix"
  have ok: "matrix_ok (pos_size + special_pos_size) matrix" by (rule ParseConnectionFile_ok [OF assms(1)])
  then have sq: "\<forall>row \<in> set matrix. length row = ?n" and ne: "matrix \<noteq> []" "matrix ! 0 ! 0 = 0"
    using assms(2) by (auto simp: matrix_ok_def)
  obtain cn modes where c: "Create base data = Some (Inr cn)" "CreateModeValueList matrix = Some modes"
    "cn_cache cn = replicate kCacheSize 0" "?n < 65536"
    and look: "\<forall>rid < ?n. \<forall>lid < ?n.
       LookupCost cn (of_nat rid) (of_nat lid) = image_cost use_1byte_cost (modes ! rid) (matrix ! rid ! lid) \<and>
       0 \<le> LookupCost cn (of_nat rid) (of_nat lid) \<and> LookupCost cn (of_nat rid) (of_nat lid) < 2 ^ 31"
    by (rule Create_written [OF assms(3) sq assms(4)])
  have "LookupCost cn 0 0 = 0"
    using look [rule_format, of 0 0] ne by (simp add: image_cost_def read_cost_def INVALID_COST_def)
  then have ok: "cost_cache_ok cn" by (rule cost_cache_ok_fresh [OF c(3)])
  have "fst (run_queries qs cn) =
      map (\<lambda>(rid, lid). image_cost use_1byte_cost (modes ! unat rid) (matrix ! unat rid ! unat lid)) qs"
    if q: "\<forall>(rid, lid) \<in> set qs. unat rid < ?n \<and> unat lid < ?n" for qs
  proof -
    have "0 \<le> LookupCost cn rid lid \<and> LookupCost cn rid lid < 2 ^ 31 \<and>
        LookupCost cn rid lid = image_cost use_1byte_cost (modes ! unat rid) (matrix ! unat rid ! unat lid)"
      if "(rid, lid) \<in> set qs" for rid lid
      using q that look [rule_format, of "unat rid" "unat lid"] by auto
    note e = this
    then have "\<forall>(rid, lid) \<in> set qs. 0 \<le> LookupCost cn rid lid \<and> LookupCost cn rid lid < 2 ^ 31" by blast
    from run_queries_ok [OF ok this] show ?thesis using e by (auto intro!: map_cong)
  qed
  then show ?thesis using c(1,2) by blast
qed

text \<open>Two parts of speech and a special one, written with one byte.\<close>

definition connector_demo :: "u8 list" where
  "connector_demo = the (connection_image True [[0, 130, 0], [700, 700, 30000], [0, 30000, 30000]])"

lemma connector_demo_image:
  "ParseConnectionFile [99, 130, 700, 700] 2 1 = Some [[0, 130, 0], [700, 700, 30000], [0, 30000, 30000]]"
  "connection_image True [[0, 130, 0], [700, 700, 30000], [0, 30000, 30000]] = Some connector_demo"
  "CreateModeValueList [[0, 130, 0], [700, 700, 30000], [0, 30000, 30000]] = Some [0, 700, 0]"
  by code_simp+

theorem Connector_roundtrip_witness:
  "\<exists>cn. Create 4096 connector_demo = Some (Inr cn) \<and>
     fst (run_queries [(0, 1), (1, 0), (1, 2), (2, 1), (2, 0), (0, 0), (0, 1)] cn) = [128, 700, 1920000, 1920000, 0, 0, 128]"
proof -
  let ?m = "[[0, 130, 0], [700, 700, 30000], [0, 30000, 30000 :: int]]"
  have l: "length ?m = 3" by simp
  have d: "\<exists>cn modes. Create 4096 connector_demo = Some (Inr cn) \<and> CreateModeValueList ?m = Some modes \<and>
    (\<forall>qs. (\<forall>(rid, lid) \<in> set qs. unat rid < 3 \<and> unat lid < 3) \<longrightarrow>
      fst (run_queries qs cn) = map (\<lambda>(rid, lid). image_cost True (modes ! unat rid) (?m ! unat rid ! unat lid)) qs)"
    by (rule Connector_roundtrip [OF connector_demo_image(1) _ connector_demo_image(2), unfolded l]) simp_all
  obtain cn modes where c: "Create 4096 connector_demo = Some (Inr cn)" "CreateModeValueList ?m = Some modes"
    "\<And>qs. \<forall>(rid, lid) \<in> set qs. unat rid < 3 \<and> unat lid < 3 \<Longrightarrow>
      fst (run_queries qs cn) = map (\<lambda>(rid, lid). image_cost True (modes ! unat rid)
        (?m ! unat rid ! unat lid)) qs"
    using d by blast
  have "modes = [0, 700, 0]" using c(2) connector_demo_image(3) by simp
  then show ?thesis
    using c(1) c(3) [of "[(0, 1), (1, 0), (1, 2), (2, 1), (2, 0), (0, 0), (0, 1)]"]
    by (simp add: image_cost_def read_cost_def INVALID_COST_def RESOLUTION_FOR_1BYTE_def)
qed

subsection \<open>Any image\<close>

lemma Row_Init_None:
  assumes "Row_Init b1 (ChunkBitsSize md) b2 n b3 u = None" "\<not> misaligned base p"
  shows "misaligned base (p + n)"
proof (rule ccontr)
  assume "\<not> misaligned base (p + n)"
  then have "4 dvd n" using assms(2) unfolding misaligned_def by presburger
  then have s: "sizes_ok (ChunkBitsSize md) 4" "sizes_ok n 4" by (simp_all add: sizes_ok_def ChunkBitsSize_def)
  obtain x y where "Init b1 (ChunkBitsSize md) 4 0 0 = Some x" "Init b2 n 4 0 0 = Some y"
    using Init_ok [OF s(1)] Init_ok [OF s(2)] by metis
  then show False using assms(1) by (simp add: Row_Init_def)
qed

lemma read_row_total: "read_row base data md ptr \<noteq> None"
proof
  assume n: "read_row base data md ptr = None"
  let ?p = "Suc (Suc (Suc (Suc (ptr + ChunkBitsSize md))))" and ?n = "unat (LoadUnaligned16 data ptr)"
  have "\<exists>b1 b2 b3 u. Row_Init b1 (ChunkBitsSize md) b2 ?n b3 u = None"
    "\<not> misaligned base ?p" "\<not> misaligned base (?p + ?n)"
    using n by (auto simp: read_row_def Let_def split: if_splits)
  then show False using Row_Init_None [of _ md _ ?n _ _ base ?p] by blast
qed

lemma read_rows_total: "read_rows base data md n ptr \<noteq> None"
proof (induction n arbitrary: ptr)
  case (Suc n)
  have "(case read_row base data md ptr of None \<Rightarrow> False | Some (Inl e) \<Rightarrow> True | Some (Inr (row, q)) \<Rightarrow> read_rows base data md n q \<noteq> None)"
    using read_row_total [of base data md ptr] Suc.IH by (simp split: option.split sum.split)
  then show ?case by (auto split: option.splits sum.splits)
qed simp

lemma read_rows_length:
  "read_rows base data md n ptr = Some (Inr (rows, q)) \<Longrightarrow> length rows = n"
  by (induction n arbitrary: ptr rows) (auto split: option.splits sum.splits)

text \<open>
  \<open>C27\<close>: No bytes at any address make opening them fail a \<^verbatim>\<open>CHECK\<close>: the checks of the alignment see to it that the
  sizes of all bit vectors are multiples of 4. An image that opens has the magic number and is square.
\<close>

theorem Connector_Create_total:
  "case Create base data of
     None \<Rightarrow> False
   | Some (Inl e) \<Rightarrow> True
   | Some (Inr cn) \<Rightarrow> 8 \<le> length data \<and> LoadUnaligned16 data 0 = 0xCDAB \<and> LoadUnaligned16 data 4 = LoadUnaligned16 data 6 \<and>
       length (cn_rows cn) = unat (LoadUnaligned16 data 4)"
proof (cases "ParseMetadata data")
  case (Inl e)
  then show ?thesis by (simp add: Create_def)
next
  case (Inr md)
  then have md: "8 \<le> length data" "LoadUnaligned16 data 0 = 0xCDAB" "LoadUnaligned16 data 4 = LoadUnaligned16 data 6"
    "md_rsize md = LoadUnaligned16 data 4"
    by (auto simp: ParseMetadata_def kByteSize_def kConnectorMagicNumber_def Let_def split: if_splits)
  let ?r = "read_rows base data md (unat (md_rsize md)) (kByteSize + DefaultCostArraySize md * 2)"
  obtain r where r: "?r = Some r" using read_rows_total by blast
  show ?thesis
  proof (cases r)
    case (Inl e)
    then show ?thesis using r Inr by (simp add: Create_def Let_def)
  next
    case r': (Inr rq)
    then show ?thesis using r Inr md read_rows_length [of base data md "unat (md_rsize md)" _ "fst rq" "snd rq"]
      by (auto simp: Create_def Let_def split_beta)
  qed
qed

text \<open>
  A new connector answers 0 for the pair (0, 0), whatever the image says: its key is 0 and so are the entries
  of the cache that were never written.
\<close>

theorem Connector_zero_pair:
  "case Create base data of Some (Inr cn) \<Rightarrow> fst (GetTransitionCost 0 0 cn) = 0 | _ \<Rightarrow> True"
proof -
  have "fst (GetTransitionCost 0 0 cn) = 0" if "cn_cache cn = replicate kCacheSize 0" for cn
    using that cache_bucket_less [of 0 0] by (simp add: GetTransitionCost_def Let_def cache_index_def)
  then show ?thesis
    by (auto simp: Create_def Let_def split: option.split sum.split)
qed

end
