(* ===== verification/InnerSegment.thy ===== *)
theory InnerSegment
  imports Utf8 "HOL-Library.Word"
begin

unbundle bit_operations_syntax

section \<open>Segments inside a candidate\<close>

text \<open>
  \<^verbatim>\<open>converter/inner_segment.h\<close>: a candidate of a conversion of several words stores where its words begin as a vector of 32-bit
  numbers, each with four lengths in bytes. This theory has the encoding, its builder, the iteration over the words and the
  prefixes and suffixes of a number of words. Strings are their bytes here, because the code cuts them at byte offsets.
\<close>

subsection \<open>Lengths\<close>

record LengthData =
  ld_key_len :: "8 word"
  ld_value_len :: "8 word"
  ld_content_key_len :: "8 word"
  ld_content_value_len :: "8 word"

type_synonym InnerSegmentBoundary = "32 word list"

text \<open>The cast of the bit fields to a number, with the first field in the lowest bits.\<close>

definition bit_cast_data :: "LengthData \<Rightarrow> 32 word" where
  "bit_cast_data d = ucast (ld_key_len d) OR push_bit 8 (ucast (ld_value_len d)) OR push_bit 16 (ucast (ld_content_key_len d)) OR
     push_bit 24 (ucast (ld_content_value_len d))"

definition DecodeLengths :: "32 word \<Rightarrow> LengthData" where
  "DecodeLengths encoded =
     \<lparr>ld_key_len = ucast encoded, ld_value_len = ucast (drop_bit 8 encoded), ld_content_key_len = ucast (drop_bit 16 encoded),
      ld_content_value_len = ucast (drop_bit 24 encoded)\<rparr>"

definition fix_content_len :: "32 word \<Rightarrow> 32 word \<Rightarrow> 32 word" where
  "fix_content_len len full_len = (if len = 0 \<or> len > full_len then full_len else len)"

definition EncodeLengths :: "32 word \<Rightarrow> 32 word \<Rightarrow> 32 word \<Rightarrow> 32 word \<Rightarrow> 32 word option" where
  "EncodeLengths key_len value_len content_key_len content_value_len =
     (let content_key_len = fix_content_len content_key_len key_len;
          content_value_len = fix_content_len content_value_len value_len
      in if key_len = 0 \<or> value_len = 0 \<or> content_key_len = 0 \<or> content_value_len = 0 \<or> key_len > 255 \<or> value_len > 255 \<or>
            content_key_len > 255 \<or> content_value_len > 255 then None
         else Some (bit_cast_data \<lparr>ld_key_len = ucast key_len, ld_value_len = ucast value_len,
                                    ld_content_key_len = ucast content_key_len, ld_content_value_len = ucast content_value_len\<rparr>))"

subsection \<open>Iteration\<close>

record IteratorData =
  it_key :: "byte list"
  it_value :: "byte list"
  it_encoded_lengths :: InnerSegmentBoundary

definition length_data :: "IteratorData \<Rightarrow> LengthData" where
  "length_data d = DecodeLengths (hd (it_encoded_lengths d))"

definition key_len :: "IteratorData \<Rightarrow> nat" where
  "key_len d = min (length (it_key d)) (if it_encoded_lengths d = [] then length (it_key d) else unat (ld_key_len (length_data d)))"

definition value_len :: "IteratorData \<Rightarrow> nat" where
  "value_len d = min (length (it_value d)) (if it_encoded_lengths d = [] then length (it_value d) else unat (ld_value_len (length_data d)))"

definition content_key_len :: "IteratorData \<Rightarrow> nat" where
  "content_key_len d =
     min (length (it_key d)) (if it_encoded_lengths d = [] then length (it_key d) else unat (ld_content_key_len (length_data d)))"

definition content_value_len :: "IteratorData \<Rightarrow> nat" where
  "content_value_len d =
     min (length (it_value d)) (if it_encoded_lengths d = [] then length (it_value d) else unat (ld_content_value_len (length_data d)))"

definition Inner_GetKey :: "IteratorData \<Rightarrow> byte list" where "Inner_GetKey d = take (key_len d) (it_key d)"
definition Inner_GetValue :: "IteratorData \<Rightarrow> byte list" where "Inner_GetValue d = take (value_len d) (it_value d)"
definition GetContentKey :: "IteratorData \<Rightarrow> byte list" where "GetContentKey d = take (content_key_len d) (it_key d)"
definition GetContentValue :: "IteratorData \<Rightarrow> byte list" where "GetContentValue d = take (content_value_len d) (it_value d)"

text \<open>\<open>None\<close>: \<^verbatim>\<open>substr\<close> throws \<^verbatim>\<open>std::out_of_range\<close>.\<close>

definition substr_from :: "byte list \<Rightarrow> nat \<Rightarrow> byte list option" where
  "substr_from s pos = (if pos > length s then None else Some (drop pos s))"

definition GetFunctionalKey :: "IteratorData \<Rightarrow> byte list option" where
  "GetFunctionalKey d = substr_from (Inner_GetKey d) (length (GetContentKey d))"

definition GetFunctionalValue :: "IteratorData \<Rightarrow> byte list option" where
  "GetFunctionalValue d = substr_from (Inner_GetValue d) (length (GetContentValue d))"

definition Inner_Next :: "IteratorData \<Rightarrow> IteratorData" where
  "Inner_Next d = \<lparr>it_key = drop (key_len d) (it_key d), it_value = drop (value_len d) (it_value d),
                   it_encoded_lengths = tl (it_encoded_lengths d)\<rparr>"

text \<open>
  The elements of a loop over the segments. The end is reached when the rest of key and value is empty; without a length the
  rest is one segment, so that the loop always ends.
\<close>

function inner_loop :: "IteratorData \<Rightarrow> IteratorData list" where
  "inner_loop d = (if it_key d = [] \<and> it_value d = [] then [] else d # inner_loop (Inner_Next d))"
  by auto
termination
  by (relation "measure (\<lambda>d. length (it_encoded_lengths d) + (if it_key d = [] \<and> it_value d = [] then 0 else 1))")
     (auto simp: Inner_Next_def key_len_def value_len_def)

declare inner_loop.simps [simp del]

definition NewInnerSegments :: "byte list \<Rightarrow> byte list \<Rightarrow> InnerSegmentBoundary \<Rightarrow> IteratorData" where
  "NewInnerSegments key value inner_segment_boundary =
     \<lparr>it_key = key, it_value = value, it_encoded_lengths = inner_segment_boundary\<rparr>"

definition fix_inner_segment_boundary :: "byte list \<Rightarrow> byte list \<Rightarrow> byte list \<Rightarrow> byte list \<Rightarrow> InnerSegmentBoundary \<Rightarrow> InnerSegmentBoundary" where
  "fix_inner_segment_boundary key value content_key content_value inner_segment_boundary =
     (if inner_segment_boundary = [] then
        (case EncodeLengths (of_nat (length key)) (of_nat (length value)) (of_nat (length content_key)) (of_nat (length content_value)) of
           Some encoded \<Rightarrow> [encoded]
         | None \<Rightarrow> inner_segment_boundary)
      else inner_segment_boundary)"

definition NewInnerSegmentsContent :: "byte list \<Rightarrow> byte list \<Rightarrow> byte list \<Rightarrow> byte list \<Rightarrow> InnerSegmentBoundary \<Rightarrow> IteratorData" where
  "NewInnerSegmentsContent key value content_key content_value inner_segment_boundary =
     NewInnerSegments key value (fix_inner_segment_boundary key value content_key content_value inner_segment_boundary)"

definition InnerSegments_size :: "IteratorData \<Rightarrow> nat" where
  "InnerSegments_size s = (if it_key s = [] \<and> it_value s = [] then 0 else max 1 (length (it_encoded_lengths s)))"

fun functional_lens :: "IteratorData list \<Rightarrow> nat \<times> nat \<Rightarrow> (nat \<times> nat) option" where
  "functional_lens [] last_lens = Some last_lens"
| "functional_lens (d # ds) last_lens =
     (case (GetFunctionalKey d, GetFunctionalValue d) of
        (Some k, Some v) \<Rightarrow> functional_lens ds (length k, length v)
      | _ \<Rightarrow> None)"

definition GetMergedContentKeyAndValue :: "IteratorData \<Rightarrow> (byte list \<times> byte list) option" where
  "GetMergedContentKeyAndValue s =
     map_option (\<lambda>(fk, fv). (take (length (it_key s) - fk) (it_key s), take (length (it_value s) - fv) (it_value s)))
       (functional_lens (inner_loop s) (0, 0))"

fun inner_prefix_loop :: "byte list \<Rightarrow> byte list \<Rightarrow> IteratorData list \<Rightarrow> int \<Rightarrow> nat \<Rightarrow> nat \<Rightarrow> byte list \<times> byte list" where
  "inner_prefix_loop key value [] siz kl vl = (key, value)"
| "inner_prefix_loop key value (d # ds) siz kl vl =
     (if siz = 0 \<or> kl \<ge> length key \<or> vl \<ge> length value then (take kl key, take vl value)
      else inner_prefix_loop key value ds (siz - 1) (kl + length (Inner_GetKey d)) (vl + length (Inner_GetValue d)))"

definition GetPrefixKeyAndValue :: "IteratorData \<Rightarrow> int \<Rightarrow> byte list \<times> byte list" where
  "GetPrefixKeyAndValue s siz =
     (if siz < 0 then (it_key s, it_value s) else inner_prefix_loop (it_key s) (it_value s) (inner_loop s) siz 0 0)"

fun inner_suffix_loop :: "IteratorData list \<Rightarrow> int \<Rightarrow> byte list \<Rightarrow> byte list \<Rightarrow> byte list \<times> byte list" where
  "inner_suffix_loop [] index key value = (key, value)"
| "inner_suffix_loop (d # ds) index key value =
     (let key = drop (length (Inner_GetKey d)) key; value = drop (length (Inner_GetValue d)) value
      in if index = 0 then (key, value) else inner_suffix_loop ds (index - 1) key value)"

definition GetSuffixKeyAndValue :: "IteratorData \<Rightarrow> int \<Rightarrow> byte list \<times> byte list" where
  "GetSuffixKeyAndValue s siz =
     (if siz = 0 then ([], [])
      else let index = int (InnerSegments_size s) - siz - 1
           in if siz < 0 \<or> index < 0 then (it_key s, it_value s) else inner_suffix_loop (inner_loop s) index (it_key s) (it_value s))"

subsection \<open>The builder\<close>

record InnerSegmentBoundaryBuilder =
  ib_error :: bool
  ib_boundary :: InnerSegmentBoundary
  ib_key_consumed :: "32 word"
  ib_value_consumed :: "32 word"

definition NewInnerSegmentBoundaryBuilder :: InnerSegmentBoundaryBuilder where
  "NewInnerSegmentBoundaryBuilder = \<lparr>ib_error = False, ib_boundary = [], ib_key_consumed = 0, ib_value_consumed = 0\<rparr>"

definition Builder_Add :: "32 word \<Rightarrow> 32 word \<Rightarrow> 32 word \<Rightarrow> 32 word \<Rightarrow> InnerSegmentBoundaryBuilder \<Rightarrow> InnerSegmentBoundaryBuilder" where
  "Builder_Add k v ck cv b =
     (if ib_error b then b
      else case EncodeLengths k v ck cv of
             Some encoded \<Rightarrow> b\<lparr>ib_key_consumed := ib_key_consumed b + k, ib_value_consumed := ib_value_consumed b + v,
                               ib_boundary := ib_boundary b @ [encoded]\<rparr>
           | None \<Rightarrow> b\<lparr>ib_error := True\<rparr>)"

definition Builder_AddData :: "IteratorData \<Rightarrow> InnerSegmentBoundaryBuilder \<Rightarrow> InnerSegmentBoundaryBuilder" where
  "Builder_AddData d =
     Builder_Add (of_nat (length (Inner_GetKey d))) (of_nat (length (Inner_GetValue d))) (of_nat (length (GetContentKey d)))
       (of_nat (length (GetContentValue d)))"

definition AddEncoded :: "32 word \<Rightarrow> InnerSegmentBoundaryBuilder \<Rightarrow> InnerSegmentBoundaryBuilder" where
  "AddEncoded encoded b =
     (let d = DecodeLengths encoded
      in b\<lparr>ib_key_consumed := ib_key_consumed b + ucast (ld_key_len d), ib_value_consumed := ib_value_consumed b + ucast (ld_value_len d),
           ib_boundary := ib_boundary b @ [encoded]\<rparr>)"

definition Builder_Build :: "byte list \<Rightarrow> byte list \<Rightarrow> InnerSegmentBoundaryBuilder \<Rightarrow> InnerSegmentBoundary" where
  "Builder_Build key value b =
     (if ib_error b \<or> unat (ib_key_consumed b) \<noteq> length key \<or> unat (ib_value_consumed b) \<noteq> length value then [] else ib_boundary b)"

type_synonym lengths = "32 word \<times> 32 word \<times> 32 word \<times> 32 word"

definition BuildInnerSegmentBoundary :: "lengths list \<Rightarrow> byte list \<Rightarrow> byte list \<Rightarrow> InnerSegmentBoundary" where
  "BuildInnerSegmentBoundary boundary key value =
     Builder_Build key value
       (foldl (\<lambda>b (k, v, ck, cv). Builder_Add k v ck cv b) NewInnerSegmentBoundaryBuilder boundary)"

subsection \<open>What the builder stores, the loop gives\<close>

lemma Decode_bit_cast [simp]: "DecodeLengths (bit_cast_data d) = d"
proof -
  have "ucast (bit_cast_data d) = ld_key_len d"
    "ucast (drop_bit 8 (bit_cast_data d)) = ld_value_len d"
    "ucast (drop_bit 16 (bit_cast_data d)) = ld_content_key_len d"
    "ucast (drop_bit 24 (bit_cast_data d)) = ld_content_value_len d"
    by (rule bit_word_eqI; auto simp: bit_cast_data_def bit_simps dest: bit_imp_le_length)+
  then show ?thesis by (simp add: DecodeLengths_def)
qed

definition entry_ok :: "lengths \<Rightarrow> bool" where
  "entry_ok = (\<lambda>(k, v, ck, cv). EncodeLengths k v ck cv \<noteq> None)"

definition entry :: "lengths \<Rightarrow> 32 word" where
  "entry = (\<lambda>(k, v, ck, cv). the (EncodeLengths k v ck cv))"

definition entry_lens :: "lengths \<Rightarrow> nat \<times> nat \<times> nat \<times> nat" where
  "entry_lens = (\<lambda>(k, v, ck, cv). (unat k, unat v, unat (fix_content_len ck k), unat (fix_content_len cv v)))"

definition key_sum :: "lengths list \<Rightarrow> nat" where "key_sum ls = (\<Sum>(k, v, ck, cv) \<leftarrow> ls. unat k)"
definition value_sum :: "lengths list \<Rightarrow> nat" where "value_sum ls = (\<Sum>(k, v, ck, cv) \<leftarrow> ls. unat v)"

lemma sums_simps [simp]:
  "key_sum [] = 0" "value_sum [] = 0" "key_sum ((k, v, r) # ls) = unat k + key_sum ls" "value_sum ((k, v, r) # ls) = unat v + value_sum ls"
  by (auto simp: key_sum_def value_sum_def split: prod.splits)

lemma unat_ucast8: "(k::32 word) \<le> 255 \<Longrightarrow> unat (ucast k :: 8 word) = unat k"
  by (simp add: word_le_nat_alt unsigned_ucast_eq take_bit_nat_eq_self)

lemma fix_content_le: "fix_content_len c k \<le> k"
  by (auto simp: fix_content_len_def)

lemma entry_ok_iff: "entry_ok (k, v, ck, cv) \<longleftrightarrow> k \<noteq> 0 \<and> v \<noteq> 0 \<and> k \<le> 255 \<and> v \<le> 255"
proof -
  have z: "fix_content_len c n = 0 \<longleftrightarrow> n = 0" for c n by (auto simp: fix_content_len_def word_gt_0)
  have l: "n \<le> 255 \<Longrightarrow> fix_content_len c n \<le> 255" for c n using fix_content_le [of c n] by (meson order.trans)
  show ?thesis by (auto simp: entry_ok_def EncodeLengths_def Let_def z not_less dest: l leD)
qed

lemma Decode_entry:
  assumes "entry_ok (k, v, ck, cv)"
  shows "unat (ld_key_len (DecodeLengths (entry (k, v, ck, cv)))) = unat k"
    "unat (ld_value_len (DecodeLengths (entry (k, v, ck, cv)))) = unat v"
    "unat (ld_content_key_len (DecodeLengths (entry (k, v, ck, cv)))) = unat (fix_content_len ck k)"
    "unat (ld_content_value_len (DecodeLengths (entry (k, v, ck, cv)))) = unat (fix_content_len cv v)"
proof -
  have "k \<le> 255" "v \<le> 255" using assms by (auto simp: entry_ok_iff)
  moreover have "fix_content_len ck k \<le> 255" "fix_content_len cv v \<le> 255"
    using fix_content_le [of ck k] fix_content_le [of cv v] \<open>k \<le> 255\<close> \<open>v \<le> 255\<close> by (meson order.trans)+
  moreover have "entry (k, v, ck, cv) = bit_cast_data \<lparr>ld_key_len = ucast k, ld_value_len = ucast v,
      ld_content_key_len = ucast (fix_content_len ck k), ld_content_value_len = ucast (fix_content_len cv v)\<rparr>"
    using assms by (auto simp: entry_ok_def entry_def EncodeLengths_def Let_def split: if_splits)
  ultimately show "unat (ld_key_len (DecodeLengths (entry (k, v, ck, cv)))) = unat k"
    "unat (ld_value_len (DecodeLengths (entry (k, v, ck, cv)))) = unat v"
    "unat (ld_content_key_len (DecodeLengths (entry (k, v, ck, cv)))) = unat (fix_content_len ck k)"
    "unat (ld_content_value_len (DecodeLengths (entry (k, v, ck, cv)))) = unat (fix_content_len cv v)"
    by (simp_all add: unat_ucast8)
qed

text \<open>The builder, as a whole.\<close>

abbreviation add_entry :: "InnerSegmentBoundaryBuilder \<Rightarrow> lengths \<Rightarrow> InnerSegmentBoundaryBuilder" where
  "add_entry \<equiv> \<lambda>b (k, v, ck, cv). Builder_Add k v ck cv b"

lemma builder_error: "ib_error b \<Longrightarrow> foldl add_entry b ls = b"
  by (induction ls) (auto simp: Builder_Add_def)

lemma builder_ok:
  "\<not> ib_error b \<Longrightarrow> list_all entry_ok ls \<Longrightarrow>
   foldl add_entry b ls = b\<lparr>ib_boundary := ib_boundary b @ map entry ls,
     ib_key_consumed := ib_key_consumed b + of_nat (key_sum ls), ib_value_consumed := ib_value_consumed b + of_nat (value_sum ls)\<rparr>"
proof (induction ls arbitrary: b)
  case (Cons l ls)
  obtain k v ck cv where l: "l = (k, v, ck, cv)" by (cases l)
  have "Builder_Add k v ck cv b = b\<lparr>ib_key_consumed := ib_key_consumed b + k, ib_value_consumed := ib_value_consumed b + v,
          ib_boundary := ib_boundary b @ [entry l]\<rparr>"
    using Cons.prems by (auto simp: l Builder_Add_def entry_ok_def entry_def)
  then show ?case using Cons by (simp add: l add.assoc)
qed simp

lemma builder_not_ok: "\<not> list_all entry_ok ls \<Longrightarrow> ib_error (foldl add_entry b ls)"
proof (induction ls arbitrary: b)
  case (Cons l ls)
  obtain k v ck cv where l: "l = (k, v, ck, cv)" by (cases l)
  show ?case
  proof (cases "entry_ok l")
    case True then show ?thesis using Cons by simp
  next
    case False
    then have "ib_error (Builder_Add k v ck cv b)" by (auto simp: l Builder_Add_def entry_ok_def)
    then show ?thesis by (simp add: l builder_error)
  qed
qed simp

lemma entry_sums_le: "list_all entry_ok ls \<Longrightarrow> key_sum ls \<le> 255 * length ls \<and> value_sum ls \<le> 255 * length ls"
proof (induction ls)
  case (Cons l ls)
  obtain k v ck cv where l: "l = (k, v, ck, cv)" by (cases l)
  have "unat k \<le> 255" "unat v \<le> 255" using Cons.prems by (auto simp: l entry_ok_iff word_le_nat_alt)
  then show ?case using Cons by (auto simp: l)
qed simp

lemma Build_eq:
  assumes "length ls < 2 ^ 24"
  shows "BuildInnerSegmentBoundary ls key value =
    (if list_all entry_ok ls \<and> key_sum ls = length key \<and> value_sum ls = length value then map entry ls else [])"
proof (cases "list_all entry_ok ls")
  case True
  have "key_sum ls < 2 ^ 32" "value_sum ls < 2 ^ 32" using entry_sums_le [OF True] assms by auto
  then have u: "unat (of_nat (key_sum ls) :: 32 word) = key_sum ls" "unat (of_nat (value_sum ls) :: 32 word) = value_sum ls"
    by (simp_all add: unsigned_of_nat take_bit_nat_eq_self)
  show ?thesis
    using True u by (auto simp: BuildInnerSegmentBoundary_def Builder_Build_def builder_ok NewInnerSegmentBoundaryBuilder_def)
next
  case False
  then show ?thesis by (auto simp: BuildInnerSegmentBoundary_def Builder_Build_def builder_not_ok)
qed

subsection \<open>The loop\<close>

lemma inner_loop_partition:
  "concat (map Inner_GetKey (inner_loop d)) = it_key d \<and> concat (map Inner_GetValue (inner_loop d)) = it_value d"
proof (induction d rule: inner_loop.induct)
  case (1 d)
  show ?case
  proof (cases "it_key d = [] \<and> it_value d = []")
    case False
    then have "inner_loop d = d # inner_loop (Inner_Next d)" by (simp add: inner_loop.simps)
    moreover have "Inner_GetKey d @ it_key (Inner_Next d) = it_key d" "Inner_GetValue d @ it_value (Inner_Next d) = it_value d"
      by (simp_all add: Inner_GetKey_def Inner_GetValue_def Inner_Next_def)
    ultimately show ?thesis using 1 [OF False] by simp
  qed (simp add: inner_loop.simps)
qed

lemma loop_entries:
  "list_all entry_ok ls \<Longrightarrow> key_sum ls = length key \<Longrightarrow> value_sum ls = length value \<Longrightarrow>
   map (\<lambda>d. (length (Inner_GetKey d), length (Inner_GetValue d), length (GetContentKey d), length (GetContentValue d)))
     (inner_loop (NewInnerSegments key value (map entry ls))) = map entry_lens ls"
proof (induction ls arbitrary: key "value")
  case Nil
  then show ?case by (simp add: inner_loop.simps NewInnerSegments_def)
next
  case (Cons l ls)
  obtain k v ck cv where l: "l = (k, v, ck, cv)" by (cases l)
  have ok: "entry_ok (k, v, ck, cv)" using Cons.prems by (simp add: l)
  let ?d = "NewInnerSegments key value (entry l # map entry ls)"
  have le: "unat (fix_content_len ck k) \<le> unat k" "unat (fix_content_len cv v) \<le> unat v"
    using fix_content_le by (simp_all add: word_le_nat_alt)
  have lens: "key_len ?d = unat k" "value_len ?d = unat v" "content_key_len ?d = unat (fix_content_len ck k)"
    "content_value_len ?d = unat (fix_content_len cv v)"
    using Cons.prems le by (auto simp: l key_len_def value_len_def content_key_len_def content_value_len_def length_data_def
      NewInnerSegments_def Decode_entry [OF ok])
  have "k \<noteq> 0" using ok by (simp add: entry_ok_iff)
  then have "key \<noteq> []" using Cons.prems by (auto simp: l unat_eq_0)
  then have "inner_loop ?d = ?d # inner_loop (NewInnerSegments (drop (unat k) key) (drop (unat v) value) (map entry ls))"
    by (subst inner_loop.simps) (auto simp: Inner_Next_def lens, auto simp: NewInnerSegments_def)
  moreover have "map (\<lambda>d. (length (Inner_GetKey d), length (Inner_GetValue d), length (GetContentKey d), length (GetContentValue d)))
     (inner_loop (NewInnerSegments (drop (unat k) key) (drop (unat v) value) (map entry ls))) = map entry_lens ls"
    using Cons.prems by (intro Cons.IH) (auto simp: l)
  moreover have "(length (Inner_GetKey ?d), length (Inner_GetValue ?d), length (GetContentKey ?d), length (GetContentValue ?d)) = entry_lens l"
    using Cons.prems le lens by (auto simp: l entry_lens_def Inner_GetKey_def Inner_GetValue_def GetContentKey_def GetContentValue_def NewInnerSegments_def)
  ultimately show ?case by simp
qed

text \<open>
  \<open>C20\<close>: Boundaries survive their encoding. For fewer than \<open>2 ^ 24\<close> entries the builder gives no boundary unless every
  entry has lengths of 1 to 255 bytes and the lengths add up to those of key and value. If it gives one, then the loop over
  the segments returns with one segment for each entry; keys, values, content keys and content values have the lengths that
  were added (a content length of 0 or beyond the whole means the whole); the segments together are the key and the value; and
  the functional part of every segment exists.
\<close>

theorem InnerSegments_roundtrip:
  assumes "length ls < 2 ^ 24" "key \<noteq> [] \<or> value \<noteq> []"
  defines "boundary \<equiv> BuildInnerSegmentBoundary ls key value"
  defines "segs \<equiv> inner_loop (NewInnerSegments key value boundary)"
  shows "(boundary \<noteq> [] \<longleftrightarrow>
      list_all (\<lambda>(k, v, ck, cv). k \<noteq> 0 \<and> v \<noteq> 0 \<and> k \<le> 255 \<and> v \<le> 255) ls \<and>
      (\<Sum>(k, v, ck, cv) \<leftarrow> ls. unat k) = length key \<and> (\<Sum>(k, v, ck, cv) \<leftarrow> ls. unat v) = length value) \<and>
    (boundary \<noteq> [] \<longrightarrow>
      map (\<lambda>d. (length (Inner_GetKey d), length (Inner_GetValue d), length (GetContentKey d), length (GetContentValue d))) segs =
        map (\<lambda>(k, v, ck, cv). (unat k, unat v, unat (fix_content_len ck k), unat (fix_content_len cv v))) ls \<and>
      concat (map Inner_GetKey segs) = key \<and> concat (map Inner_GetValue segs) = value \<and>
      list_all (\<lambda>d. GetFunctionalKey d \<noteq> None \<and> GetFunctionalValue d \<noteq> None) segs)"
proof (rule conjI [OF _ impI])
  have e: "entry_ok = (\<lambda>(k, v, ck, cv). k \<noteq> 0 \<and> v \<noteq> 0 \<and> k \<le> 255 \<and> v \<le> 255)"
    by (auto simp: entry_ok_iff fun_eq_iff)
  have b: "boundary \<noteq> [] \<longleftrightarrow> list_all entry_ok ls \<and> key_sum ls = length key \<and> value_sum ls = length value"
    using assms(2) by (auto simp: boundary_def Build_eq [OF assms(1)])
  then show "boundary \<noteq> [] \<longleftrightarrow>
      list_all (\<lambda>(k, v, ck, cv). k \<noteq> 0 \<and> v \<noteq> 0 \<and> k \<le> 255 \<and> v \<le> 255) ls \<and>
      (\<Sum>(k, v, ck, cv) \<leftarrow> ls. unat k) = length key \<and> (\<Sum>(k, v, ck, cv) \<leftarrow> ls. unat v) = length value"
    by (simp only: e key_sum_def value_sum_def)
  assume "boundary \<noteq> []"
  then have ok: "list_all entry_ok ls" "key_sum ls = length key" "value_sum ls = length value" using b by auto
  then have "boundary = map entry ls" by (simp add: boundary_def Build_eq [OF assms(1)])
  then have m: "map (\<lambda>d. (length (Inner_GetKey d), length (Inner_GetValue d), length (GetContentKey d), length (GetContentValue d))) segs = map entry_lens ls"
    using loop_entries [OF ok] by (simp add: segs_def)
  have "GetFunctionalKey d \<noteq> None \<and> GetFunctionalValue d \<noteq> None" if "d \<in> set segs" for d
  proof -
    have "(length (Inner_GetKey d), length (Inner_GetValue d), length (GetContentKey d), length (GetContentValue d)) \<in> set (map entry_lens ls)"
      using that by (auto simp flip: m)
    then show ?thesis
      using fix_content_le by (auto simp: entry_lens_def GetFunctionalKey_def GetFunctionalValue_def substr_from_def word_le_nat_alt not_less)
  qed
  then show "map (\<lambda>d. (length (Inner_GetKey d), length (Inner_GetValue d), length (GetContentKey d), length (GetContentValue d))) segs =
        map (\<lambda>(k, v, ck, cv). (unat k, unat v, unat (fix_content_len ck k), unat (fix_content_len cv v))) ls \<and>
      concat (map Inner_GetKey segs) = key \<and> concat (map Inner_GetValue segs) = value \<and>
      list_all (\<lambda>d. GetFunctionalKey d \<noteq> None \<and> GetFunctionalValue d \<noteq> None) segs"
    using inner_loop_partition [of "NewInnerSegments key value boundary"] m
    by (simp add: list_all_iff segs_def entry_lens_def NewInnerSegments_def)
qed

theorem InnerSegments_roundtrip_witness:
  "map (\<lambda>d. (length (Inner_GetKey d), length (Inner_GetValue d), length (GetContentKey d), length (GetContentValue d)))
     (inner_loop (NewInnerSegments [1, 2, 3] [4, 5, 6, 7] (BuildInnerSegmentBoundary [(2, 3, 1, 9), (1, 1, 0, 0)] [1, 2, 3] [4, 5, 6, 7]))) =
     [(2, 3, 1, 3), (1, 1, 1, 1)]"
proof -
  have a: "length [(2, 3, 1, 9), (1, 1, 0, 0) :: lengths] < 2 ^ 24" "[1, 2, 3] \<noteq> ([] :: byte list) \<or> [4, 5, 6, 7] \<noteq> ([] :: byte list)"
    by simp_all
  have "BuildInnerSegmentBoundary [(2, 3, 1, 9), (1, 1, 0, 0)] [1, 2, 3] [4, 5, 6, 7] \<noteq> []"
    using InnerSegments_roundtrip [OF a, THEN conjunct1] by simp
  then show ?thesis using InnerSegments_roundtrip [OF a] by (simp add: fix_content_len_def)
qed

subsection \<open>Prefixes and suffixes\<close>

definition take_segments :: "nat \<Rightarrow> IteratorData list \<Rightarrow> byte list \<times> byte list" where
  "take_segments n segs = (concat (map Inner_GetKey (take n segs)), concat (map Inner_GetValue (take n segs)))"

definition drop_segments :: "nat \<Rightarrow> IteratorData list \<Rightarrow> byte list \<times> byte list" where
  "drop_segments n segs = (concat (map Inner_GetKey (drop n segs)), concat (map Inner_GetValue (drop n segs)))"

lemma inner_prefix_loop_eq:
  "key = pk @ concat (map Inner_GetKey ds) \<Longrightarrow> value = pv @ concat (map Inner_GetValue ds) \<Longrightarrow>
   list_all (\<lambda>d. Inner_GetKey d \<noteq> [] \<and> Inner_GetValue d \<noteq> []) ds \<Longrightarrow>
   inner_prefix_loop key value ds (int n) (length pk) (length pv) = (pk @ fst (take_segments n ds), pv @ snd (take_segments n ds))"
proof (induction ds arbitrary: pk pv n)
  case (Cons d ds)
  show ?case
  proof (cases n)
    case (Suc m)
    have "inner_prefix_loop key value ds (int m) (length (pk @ Inner_GetKey d)) (length (pv @ Inner_GetValue d)) =
        (pk @ Inner_GetKey d @ fst (take_segments m ds), pv @ Inner_GetValue d @ snd (take_segments m ds))"
      using Cons.prems Cons.IH [of "pk @ Inner_GetKey d" "pv @ Inner_GetValue d" m] by simp
    then show ?thesis using Cons.prems Suc by (simp add: take_segments_def add.assoc)
  qed (use Cons.prems in \<open>simp add: take_segments_def\<close>)
qed (simp add: take_segments_def)

lemma inner_suffix_loop_eq:
  "n < length ds \<Longrightarrow> inner_suffix_loop ds (int n) (concat (map Inner_GetKey ds)) (concat (map Inner_GetValue ds)) = drop_segments (Suc n) ds"
proof (induction ds arbitrary: n)
  case (Cons d ds)
  then show ?case by (cases n) (auto simp: drop_segments_def Let_def)
qed simp

lemma built_segments:
  assumes "list_all entry_ok ls" "key_sum ls = length key" "value_sum ls = length value"
  defines "ds \<equiv> inner_loop (NewInnerSegments key value (map entry ls))"
  shows "length ds = length ls"
    and "map (\<lambda>d. length (Inner_GetKey d)) ds = map (\<lambda>(k, v, ck, cv). unat k) ls"
    and "map (\<lambda>d. length (Inner_GetValue d)) ds = map (\<lambda>(k, v, ck, cv). unat v) ls"
    and "list_all (\<lambda>d. Inner_GetKey d \<noteq> [] \<and> Inner_GetValue d \<noteq> []) ds"
proof -
  have m: "map (\<lambda>d. (length (Inner_GetKey d), length (Inner_GetValue d), length (GetContentKey d), length (GetContentValue d))) ds = map entry_lens ls"
    using loop_entries [OF assms(1-3)] by (simp add: ds_def)
  show len: "length ds = length ls" using arg_cong [OF m, of length] by simp
  show lens: "map (\<lambda>d. length (Inner_GetKey d)) ds = map (\<lambda>(k, v, ck, cv). unat k) ls"
    "map (\<lambda>d. length (Inner_GetValue d)) ds = map (\<lambda>(k, v, ck, cv). unat v) ls"
    using arg_cong [OF m, of "map fst"] arg_cong [OF m, of "map (fst \<circ> snd)"]
    by (simp_all add: comp_def entry_lens_def split_def)
  show "list_all (\<lambda>d. Inner_GetKey d \<noteq> [] \<and> Inner_GetValue d \<noteq> []) ds"
  proof (simp only: list_all_length len, intro allI impI)
    fix i assume i: "i < length ls"
    then have "entry_ok (ls ! i)" using assms(1) by (simp add: list_all_length)
    then have "0 < (\<lambda>(k, v, ck, cv). unat k) (ls ! i)" "0 < (\<lambda>(k, v, ck, cv). unat v) (ls ! i)"
      by (auto simp: entry_ok_iff unat_gt_0 split: prod.splits)
    moreover have "length (Inner_GetKey (ds ! i)) = (\<lambda>(k, v, ck, cv). unat k) (ls ! i)" "length (Inner_GetValue (ds ! i)) = (\<lambda>(k, v, ck, cv). unat v) (ls ! i)"
      using arg_cong [OF lens(1), of "\<lambda>x. x ! i"] arg_cong [OF lens(2), of "\<lambda>x. x ! i"] i len by simp_all
    ultimately show "Inner_GetKey (ds ! i) \<noteq> [] \<and> Inner_GetValue (ds ! i) \<noteq> []" by force
  qed
qed

text \<open>
  \<open>C40\<close>: Key and value can be cut between any two of their segments. For a boundary that the builder gave for \<open>length ls\<close>
  entries and every \<open>n\<close> up to that, the prefix of \<open>n\<close> segments has the first \<open>n\<close> entries as its length, and with the suffix
  of the remaining \<open>length ls - n\<close> segments it makes up the whole key and the whole value.
\<close>

theorem prefix_suffix_split:
  assumes "length ls < 2 ^ 24" "BuildInnerSegmentBoundary ls key value \<noteq> []" "n \<le> length ls"
  defines "s \<equiv> NewInnerSegments key value (BuildInnerSegmentBoundary ls key value)"
  shows "\<exists>pk pv sk sv. GetPrefixKeyAndValue s (int n) = (pk, pv) \<and> GetSuffixKeyAndValue s (int (length ls - n)) = (sk, sv) \<and>
    pk @ sk = key \<and> pv @ sv = value \<and>
    length pk = (\<Sum>(k, v, ck, cv) \<leftarrow> take n ls. unat k) \<and> length pv = (\<Sum>(k, v, ck, cv) \<leftarrow> take n ls. unat v)"
proof -
  let ?ds = "inner_loop s"
  have ok: "list_all entry_ok ls" "key_sum ls = length key" "value_sum ls = length value"
    and b: "BuildInnerSegmentBoundary ls key value = map entry ls"
    using assms(2) by (auto simp: Build_eq [OF assms(1)] split: if_splits)
  have ls: "ls \<noteq> []" using assms(2) b by auto
  have it: "it_key s = key" "it_value s = value" by (simp_all add: s_def NewInnerSegments_def)
  have key: "concat (map Inner_GetKey ?ds) = key" "concat (map Inner_GetValue ?ds) = value"
    using inner_loop_partition [of s] by (simp_all add: it)
  note built = built_segments [OF ok, folded b, folded s_def]
  note len = built(1) and lens = built(2, 3) and pos = built(4)
  have ne: "\<not> (key = [] \<and> value = [])" using len ls s_def by (auto simp: inner_loop.simps NewInnerSegments_def)
  have sz: "InnerSegments_size s = length ls" using ne ls by (auto simp: InnerSegments_size_def s_def NewInnerSegments_def b Suc_le_eq)
  have pre: "GetPrefixKeyAndValue s (int n) = take_segments n ?ds"
    using inner_prefix_loop_eq [of key "[]" ?ds "value" "[]" n] key pos by (simp add: GetPrefixKeyAndValue_def it)
  have suf: "GetSuffixKeyAndValue s (int (length ls - n)) = drop_segments n ?ds"
  proof (cases "n = 0 \<or> n = length ls")
    case True
    then show ?thesis
      using key ls by (auto simp: GetSuffixKeyAndValue_def sz drop_segments_def len it)
  next
    case False
    then have i: "int (InnerSegments_size s) - int (length ls - n) - 1 = int (n - 1)" "n - 1 < length ?ds" "Suc (n - 1) = n" "n < length ls"
      using assms(3) by (auto simp: sz len)
    have "GetSuffixKeyAndValue s (int (length ls - n)) = inner_suffix_loop ?ds (int (n - 1)) key value"
      unfolding GetSuffixKeyAndValue_def Let_def i(1) it using i(4) by simp
    then show ?thesis using inner_suffix_loop_eq [OF i(2)] by (simp only: key i(3))
  qed
  have "concat (map f (take n ?ds)) @ concat (map f (drop n ?ds)) = concat (map f ?ds)" for f :: "IteratorData \<Rightarrow> byte list"
    by (metis append_take_drop_id concat_append map_append)
  moreover have "length (concat (map Inner_GetKey (take n ?ds))) = (\<Sum>(k, v, ck, cv) \<leftarrow> take n ls. unat k)"
    "length (concat (map Inner_GetValue (take n ?ds))) = (\<Sum>(k, v, ck, cv) \<leftarrow> take n ls. unat v)"
    using arg_cong [OF lens(1), of "\<lambda>x. sum_list (take n x)"] arg_cong [OF lens(2), of "\<lambda>x. sum_list (take n x)"]
    by (simp_all add: length_concat take_map comp_def)
  ultimately show ?thesis using key by (auto simp: pre suf take_segments_def drop_segments_def)
qed

theorem prefix_suffix_split_witness:
  "GetPrefixKeyAndValue (NewInnerSegments [1, 2, 3] [4, 5, 6, 7] (BuildInnerSegmentBoundary [(2, 3, 1, 9), (1, 1, 0, 0)] [1, 2, 3] [4, 5, 6, 7])) 1 =
     ([1, 2], [4, 5, 6])"
proof -
  have a: "length [(2, 3, 1, 9), (1, 1, 0, 0) :: lengths] < 2 ^ 24" by simp
  have b: "BuildInnerSegmentBoundary [(2, 3, 1, 9), (1, 1, 0, 0)] [1, 2, 3] [4, 5, 6, 7] \<noteq> []"
    by (simp add: Build_eq [OF a] entry_ok_iff)
  let ?s = "NewInnerSegments [1, 2, 3] [4, 5, 6, 7] (BuildInnerSegmentBoundary [(2, 3, 1, 9), (1, 1, 0, 0)] [1, 2, 3] [4, 5, 6, 7])"
  obtain pk pv sk sv where p: "GetPrefixKeyAndValue ?s 1 = (pk, pv)" "pk @ sk = [1, 2, 3]" "pv @ sv = [4, 5, 6, 7]" "length pk = 2" "length pv = 3"
    using prefix_suffix_split [OF a b, of 1] by auto
  have "pk = take 2 [1, 2, 3]" "pv = take 3 [4, 5, 6, 7]" unfolding p(2, 3) [symmetric] using p(4, 5) by simp_all
  then show ?thesis unfolding p(1) by simp
qed

text \<open>
  Boundaries that do not come from the checks of \<open>EncodeLengths\<close> (\<open>AddEncoded\<close> takes any number) can have a content key longer
  than the key; then the functional key and what is computed from it throw.
\<close>

lemma GetMergedContentKeyAndValue_throws:
  "\<exists>encoded. AddEncoded encoded NewInnerSegmentBoundaryBuilder =
       \<lparr>ib_error = False, ib_boundary = [encoded], ib_key_consumed = 1, ib_value_consumed = 1\<rparr> \<and>
     GetMergedContentKeyAndValue (NewInnerSegments [97, 98] [97, 98] [encoded]) = None"
proof (intro exI [of _ "0x01020101"] conjI)
  have d: "DecodeLengths 0x01020101 = \<lparr>ld_key_len = 1, ld_value_len = 1, ld_content_key_len = 2, ld_content_value_len = 1\<rparr>"
    by (simp add: DecodeLengths_def drop_bit_numeral_minus_bit1)
  then show "AddEncoded 0x01020101 NewInnerSegmentBoundaryBuilder =
       \<lparr>ib_error = False, ib_boundary = [0x01020101], ib_key_consumed = 1, ib_value_consumed = 1\<rparr>"
    by (simp add: AddEncoded_def NewInnerSegmentBoundaryBuilder_def Let_def)
  show "GetMergedContentKeyAndValue (NewInnerSegments [97, 98] [97, 98] [0x01020101]) = None"
    by (simp add: GetMergedContentKeyAndValue_def inner_loop.simps [of "NewInnerSegments _ _ _"], simp add: NewInnerSegments_def
        GetFunctionalKey_def substr_from_def Inner_GetKey_def GetContentKey_def key_len_def content_key_len_def length_data_def d)
qed

end
