(* ===== verification/NumberUtil.thy ===== *)
theory NumberUtil
  imports Util "HOL-Library.Word"
begin

unbundle bit_operations_syntax

section \<open>Numbers\<close>

text \<open>
  \<^verbatim>\<open>base/number_util.cc\<close>: numbers as strings, from Arabic digits to the other ways to write them and back. A function
  that appends to a vector takes it and returns it with the flag of the code. The 64-bit arithmetic of the reader is kept, with
  its checks of overflow. The generated table from kanji to numbers is the one of \<^verbatim>\<open>data/preedit/kanjinumber-arabicnumber.tsv\<close>;
  it is used for single characters only.
\<close>

type_synonym word64 = "64 word"

definition kNumKanjiDigits :: "ustr list" where
  "kNumKanjiDigits = [[0x3007], [0x4E00], [0x4E8C], [0x4E09],
    [0x56DB], [0x4E94], [0x516D], [0x4E03], [0x516B], [0x4E5D], []]"

definition kNumKanjiOldDigits :: "ustr list" where
  "kNumKanjiOldDigits = [[], [0x58F1], [0x5F10], [0x53C2],
    [0x56DB], [0x4E94], [0x516D], [0x4E03], [0x516B], [0x4E5D]]"

definition kNumFullWidthDigits :: "ustr list" where
  "kNumFullWidthDigits = [[0xFF10], [0xFF11], [0xFF12], [0xFF13],
    [0xFF14], [0xFF15], [0xFF16], [0xFF17], [0xFF18], [0xFF19], []]"

definition kNumHalfWidthDigits :: "ustr list" where
  "kNumHalfWidthDigits = [[0x30], [0x31], [0x32], [0x33], [0x34],
    [0x35], [0x36], [0x37], [0x38], [0x39], []]"

definition kNumKanjiRanks :: "ustr list" where
  "kNumKanjiRanks = [[], [], [0x5341], [0x767E], [0x5343]]"

definition kNumKanjiBiggerRanks :: "ustr list" where
  "kNumKanjiBiggerRanks = [[], [0x4E07], [0x5104], [0x5146],
    [0x4EAC]]"

definition kNumKanjiOldRanks :: "ustr list" where
  "kNumKanjiOldRanks = [[], [], [0x62FE], [0x767E], [0x9621]]"

definition kNumKanjiBiggerOldRanks :: "ustr list" where
  "kNumKanjiBiggerOldRanks = [[], [0x842C], [0x5104],
    [0x5146], [0x4EAC]]"

definition kRomanNumbersCapital :: "ustr list" where
  "kRomanNumbersCapital = [[], [0x2160], [0x2161], [0x2162],
    [0x2163], [0x2164], [0x2165], [0x2166], [0x2167], [0x2168], [0x2169], [0x216A], [0x216B], []]"

definition kRomanNumbersSmall :: "ustr list" where
  "kRomanNumbersSmall = [[], [0x2170], [0x2171], [0x2172],
    [0x2173], [0x2174], [0x2175], [0x2176], [0x2177], [0x2178], [0x2179], [0x217A], [0x217B], []]"

definition kCircledNumbers :: "ustr list" where
  "kCircledNumbers = [[0x24EA], [0x2460], [0x2461], [0x2462],
    [0x2463], [0x2464], [0x2465], [0x2466], [0x2467], [0x2468], [0x2469], [0x246A], [0x246B], [0x246C], [0x246D],
    [0x246E], [0x246F], [0x2470], [0x2471], [0x2472], [0x2473], [0x3251], [0x3252], [0x3253], [0x3254], [0x3255],
    [0x3256], [0x3257], [0x3258], [0x3259], [0x325A], [0x325B], [0x325C], [0x325D], [0x325E], [0x325F], [0x32B1],
    [0x32B2], [0x32B3], [0x32B4], [0x32B5], [0x32B6], [0x32B7], [0x32B8], [0x32B9], [0x32BA], [0x32BB], [0x32BC],
    [0x32BD], [0x32BE], [0x32BF], []]"

definition kSuperscriptNumbers :: "ustr list" where
  "kSuperscriptNumbers = [[0x2070], [0xB9], [0xB2], [0xB3],
    [0x2074], [0x2075], [0x2076], [0x2077], [0x2078], [0x2079], []]"

definition kSubscriptNumbers :: "ustr list" where
  "kSubscriptNumbers = [[0x2080], [0x2081], [0x2082], [0x2083],
    [0x2084], [0x2085], [0x2086], [0x2087], [0x2088], [0x2089], []]"

datatype Style = DEFAULT_STYLE | NUMBER_SEPARATED_ARABIC_HALFWIDTH | NUMBER_SEPARATED_ARABIC_FULLWIDTH
  | NUMBER_ARABIC_AND_KANJI_HALFWIDTH | NUMBER_ARABIC_AND_KANJI_FULLWIDTH | NUMBER_KANJI | NUMBER_OLD_KANJI
  | NUMBER_ROMAN_CAPITAL | NUMBER_ROMAN_SMALL | NUMBER_CIRCLED | NUMBER_KANJI_ARABIC | NUMBER_HEX | NUMBER_OCT | NUMBER_BIN
  | NUMBER_SUPERSCRIPT | NUMBER_SUBSCRIPT

record NumberString =
  ns_value :: ustr
  ns_description :: ustr
  ns_style :: Style

record NumberStringVariation =
  nv_digits :: "ustr list"
  nv_description :: ustr
  nv_separator :: ustr
  nv_point :: ustr
  nv_numbers_size :: nat
  nv_style :: Style

subsection \<open>Digits\<close>

definition isdigit :: "char32 \<Rightarrow> bool" where
  "isdigit c \<longleftrightarrow> 0x30 \<le> c \<and> c \<le> 0x39"

definition IsDecimalNumber :: "ustr \<Rightarrow> bool" where
  "IsDecimalNumber str \<longleftrightarrow> list_all (\<lambda>c. c = 0x2E \<or> isdigit c) str \<and> length (filter (\<lambda>c. c = 0x2E) str) < 2"

definition IsArabicDecimalChar32 :: "char32 \<Rightarrow> bool" where
  "IsArabicDecimalChar32 codepoint \<longleftrightarrow> isdigit codepoint \<or> (0xFF10 \<le> codepoint \<and> codepoint \<le> 0xFF19)"

definition IsArabicNumber :: "ustr \<Rightarrow> bool" where
  "IsArabicNumber input_string \<longleftrightarrow> input_string \<noteq> [] \<and> list_all IsArabicDecimalChar32 input_string"

definition IsDecimalInteger :: "ustr \<Rightarrow> bool" where
  "IsDecimalInteger str \<longleftrightarrow> str \<noteq> [] \<and> list_all isdigit str"

text \<open>The value of a string of digits and the shortest string for a number, as \<^verbatim>\<open>%u\<close> prints it.\<close>

definition digits_value :: "ustr \<Rightarrow> nat" where
  "digits_value s = fold (\<lambda>c n. 10 * n + (c - 0x30)) s 0"

fun radix :: "nat \<Rightarrow> nat \<Rightarrow> ustr" where
  "radix b n = (if b < 2 \<or> n < b then [0x30 + n] else radix b (n div b) @ [if n mod b < 10 then 0x30 + n mod b else 0x57 + n mod b])"

declare radix.simps [simp del]

definition decimal :: "nat \<Rightarrow> ustr" where "decimal n = radix 10 n"

subsection \<open>Kanji\<close>

definition kKanjiVariations :: "NumberStringVariation list" where
  "kKanjiVariations =
     [\<lparr>nv_digits = kNumHalfWidthDigits, nv_description = [0x6570, 0x5B57], nv_separator = [], nv_point = [], nv_numbers_size = 10,
        nv_style = NUMBER_ARABIC_AND_KANJI_HALFWIDTH\<rparr>,
      \<lparr>nv_digits = kNumFullWidthDigits, nv_description = [0x6570, 0x5B57], nv_separator = [], nv_point = [], nv_numbers_size = 10,
        nv_style = NUMBER_ARABIC_AND_KANJI_FULLWIDTH\<rparr>,
      \<lparr>nv_digits = kNumKanjiDigits, nv_description = [0x6F22, 0x6570, 0x5B57], nv_separator = [], nv_point = [], nv_numbers_size = 10,
        nv_style = NUMBER_KANJI\<rparr>,
      \<lparr>nv_digits = kNumKanjiOldDigits, nv_description = [0x5927, 0x5B57], nv_separator = [], nv_point = [], nv_numbers_size = 10,
        nv_style = NUMBER_OLD_KANJI\<rparr>]"

definition kOldTwoTen :: ustr where "kOldTwoTen = [0x5F10, 0x62FE]"
definition kOldTwenty :: ustr where "kOldTwenty = [0x5EFF]"

text \<open>\<^verbatim>\<open>absl::StrReplaceAll\<close>: from left to right, at each position the longest pattern that matches.\<close>

fun best_match :: "(ustr \<times> ustr) list \<Rightarrow> ustr \<Rightarrow> (ustr \<times> ustr) option" where
  "best_match [] s = None"
| "best_match ((p, r) # ps) s =
     (case best_match ps s of
        None \<Rightarrow> if p \<noteq> [] \<and> starts_with s p then Some (p, r) else None
      | Some (q, t) \<Rightarrow> if p \<noteq> [] \<and> starts_with s p \<and> length p \<ge> length q then Some (p, r) else Some (q, t))"

lemma best_match_progress: "best_match ps s = Some (p, r) \<Longrightarrow> p \<noteq> []"
  by (induction ps arbitrary: p r) (auto split: option.splits if_splits)

function StrReplaceAll :: "(ustr \<times> ustr) list \<Rightarrow> ustr \<Rightarrow> ustr" where
  "StrReplaceAll ps s =
     (case s of [] \<Rightarrow> [] | c # s' \<Rightarrow>
        (case best_match ps s of Some (p, r) \<Rightarrow> r @ StrReplaceAll ps (drop (length p) s) | None \<Rightarrow> c # StrReplaceAll ps s'))"
  by auto
termination
  by (relation "measure (\<lambda>(ps, s). length s)") (auto dest!: best_match_progress)

declare StrReplaceAll.simps [simp del]

definition StrContains :: "ustr \<Rightarrow> ustr \<Rightarrow> bool" where
  "StrContains s p \<longleftrightarrow> list_ex (\<lambda>i. starts_with (drop i s) p) [0..<length s + 1]"

fun segment_digits :: "Style \<Rightarrow> ustr list \<Rightarrow> ustr list \<Rightarrow> bool \<Rightarrow> nat \<Rightarrow> ustr \<Rightarrow> ustr" where
  "segment_digits style digits ranks leading i [] = []"
| "segment_digits style digits ranks leading i (c # segment) =
     (if leading \<and> c = 0x30 then segment_digits style digits ranks leading (i + 1) segment
      else
        (if style = NUMBER_ARABIC_AND_KANJI_HALFWIDTH \<or> style = NUMBER_ARABIC_AND_KANJI_FULLWIDTH then digits ! (c - 0x30)
         else if c = 0x30 then []
         else (if style = NUMBER_OLD_KANJI \<or> i = 4 - 1 \<or> c \<noteq> 0x31 then digits ! (c - 0x30) else []) @ ranks ! (4 - i)) @
        segment_digits style digits ranks False (i + 1) segment)"

definition ranked_numbers :: "ustr \<Rightarrow> ustr list" where
  "ranked_numbers inp = map (\<lambda>rank. take 4 (drop (length inp - 4 * (rank + 1)) inp)) [0..<length inp div 4]"

definition kanji_result :: "NumberStringVariation \<Rightarrow> ustr list \<Rightarrow> ustr" where
  "kanji_result variation rn =
     (let style = nv_style variation;
          (ranks, bigger_ranks) = (if style = NUMBER_OLD_KANJI then (kNumKanjiOldRanks, kNumKanjiBiggerOldRanks)
                                   else (kNumKanjiRanks, kNumKanjiBiggerRanks))
      in concat (map (\<lambda>rank.
           let segment_result = segment_digits style (nv_digits variation) ranks True 0 (rn ! rank)
           in if segment_result \<noteq> [] then segment_result @ bigger_ranks ! rank else []) (rev [0..<length rn])))"

definition kanji_strings :: "ustr \<Rightarrow> ustr list \<Rightarrow> NumberStringVariation \<Rightarrow> NumberString list" where
  "kanji_strings inp rn variation =
     (let style = nv_style variation; description = nv_description variation in
      if length rn = 1 \<and> (style = NUMBER_ARABIC_AND_KANJI_HALFWIDTH \<or> style = NUMBER_ARABIC_AND_KANJI_FULLWIDTH) then []
      else let result = kanji_result variation rn in
        [\<lparr>ns_value = result, ns_description = description, ns_style = style\<rparr>] @
        (if style = NUMBER_OLD_KANJI then
           (if StrContains result kOldTwoTen
            then [\<lparr>ns_value = StrReplaceAll [(kOldTwoTen, kOldTwenty)] result, ns_description = description, ns_style = style\<rparr>] else []) @
           (if inp = [0x30, 0x30, 0x31, 0x30] then [\<lparr>ns_value = [0x62FE], ns_description = description, ns_style = style\<rparr>] else []) @
           (if inp = [0x31, 0x30, 0x30, 0x30] then [\<lparr>ns_value = [0x9621], ns_description = description, ns_style = style\<rparr>] else [])
         else []))"

definition ArabicToKanji :: "ustr \<Rightarrow> NumberString list \<Rightarrow> bool \<times> NumberString list" where
  "ArabicToKanji input_num output =
     (if \<not> IsDecimalInteger input_num then (False, output)
      else if list_all (\<lambda>c. c = 0x30) input_num
        then (True, output @ [\<lparr>ns_value = [0x96F6], ns_description = [0x5927, 0x5B57], ns_style = NUMBER_OLD_KANJI\<rparr>])
      else if length kNumKanjiBiggerRanks * 4 < length input_num then (False, output)
      else let filled_zero_num = (4 - length input_num mod 4) mod 4;
               inp = replicate filled_zero_num 0x30 @ input_num
           in (True, output @ concat (map (kanji_strings inp (ranked_numbers inp)) kKanjiVariations)))"

subsection \<open>Other forms\<close>

definition kNumDigitsVariations :: "NumberStringVariation list" where
  "kNumDigitsVariations =
     [\<lparr>nv_digits = kNumHalfWidthDigits, nv_description = [0x6570, 0x5B57], nv_separator = [0x2C], nv_point = [0x2E], nv_numbers_size = 10,
        nv_style = NUMBER_SEPARATED_ARABIC_HALFWIDTH\<rparr>,
      \<lparr>nv_digits = kNumFullWidthDigits, nv_description = [0x6570, 0x5B57], nv_separator = [0xFF0C], nv_point = [0xFF0E], nv_numbers_size = 10,
        nv_style = NUMBER_SEPARATED_ARABIC_FULLWIDTH\<rparr>]"

definition separated :: "NumberStringVariation \<Rightarrow> ustr \<Rightarrow> ustr \<Rightarrow> ustr" where
  "separated variation integer fraction =
     concat (map (\<lambda>j. (if j \<noteq> 0 \<and> (length integer - j) mod 3 = 0 then nv_separator variation else []) @
                       nv_digits variation ! (integer ! j - 0x30)) [0..<length integer]) @
     (if fraction \<noteq> [] then nv_point variation @ concat (map (\<lambda>c. nv_digits variation ! (c - 0x30)) (tl fraction)) else [])"

text \<open>\<open>None\<close>: the code reads the first character of an empty integral part.\<close>

definition ArabicToSeparatedArabic :: "ustr \<Rightarrow> NumberString list \<Rightarrow> (bool \<times> NumberString list) option" where
  "ArabicToSeparatedArabic input_num output =
     (if \<not> IsDecimalNumber input_num then Some (False, output)
      else let integer = takeWhile (\<lambda>c. c \<noteq> 0x2E) input_num; fraction = dropWhile (\<lambda>c. c \<noteq> 0x2E) input_num
           in if integer = [] then None
              else if hd integer = 0x30 then Some (False, output)
              else Some (True, output @ map (\<lambda>v. \<lparr>ns_value = separated v integer fraction, ns_description = nv_description v,
                                                    ns_style = nv_style v\<rparr>) kNumDigitsVariations))"

definition kSingleDigitsVariations :: "NumberStringVariation list" where
  "kSingleDigitsVariations =
     [\<lparr>nv_digits = kNumKanjiDigits, nv_description = [0x6F22, 0x6570, 0x5B57], nv_separator = [], nv_point = [], nv_numbers_size = 10,
        nv_style = NUMBER_KANJI_ARABIC\<rparr>,
      \<lparr>nv_digits = kNumFullWidthDigits, nv_description = [0x6570, 0x5B57], nv_separator = [], nv_point = [], nv_numbers_size = 10,
        nv_style = DEFAULT_STYLE\<rparr>]"

definition ArabicToWideArabic :: "ustr \<Rightarrow> NumberString list \<Rightarrow> bool \<times> NumberString list" where
  "ArabicToWideArabic input_num output =
     (if \<not> IsDecimalInteger input_num then (False, output)
      else (True, output @ concat (map (\<lambda>v. let result = concat (map (\<lambda>c. nv_digits v ! (c - 0x30)) input_num)
              in if result \<noteq> [] then [\<lparr>ns_value = result, ns_description = nv_description v, ns_style = nv_style v\<rparr>] else [])
              kSingleDigitsVariations)))"

definition kSpecialNumericVariations :: "NumberStringVariation list" where
  "kSpecialNumericVariations =
     [\<lparr>nv_digits = kRomanNumbersCapital, nv_description = [0x30ED, 0x30FC, 0x30DE, 0x6570, 0x5B57, 0x28, 0x5927, 0x6587, 0x5B57, 0x29], nv_separator = [],
        nv_point = [], nv_numbers_size = length kRomanNumbersCapital, nv_style = NUMBER_ROMAN_CAPITAL\<rparr>,
      \<lparr>nv_digits = kRomanNumbersSmall, nv_description = [0x30ED, 0x30FC, 0x30DE, 0x6570, 0x5B57, 0x28, 0x5C0F, 0x6587, 0x5B57, 0x29], nv_separator = [],
        nv_point = [], nv_numbers_size = length kRomanNumbersSmall, nv_style = NUMBER_ROMAN_SMALL\<rparr>,
      \<lparr>nv_digits = kCircledNumbers, nv_description = [0x4E38, 0x6570, 0x5B57], nv_separator = [], nv_point = [],
        nv_numbers_size = length kCircledNumbers, nv_style = NUMBER_CIRCLED\<rparr>,
      \<lparr>nv_digits = kSuperscriptNumbers, nv_description = [0x4E0A, 0x4ED8, 0x304D, 0x6587, 0x5B57], nv_separator = [], nv_point = [],
        nv_numbers_size = length kSuperscriptNumbers, nv_style = NUMBER_SUPERSCRIPT\<rparr>,
      \<lparr>nv_digits = kSubscriptNumbers, nv_description = [0x4E0B, 0x4ED8, 0x304D, 0x6587, 0x5B57], nv_separator = [], nv_point = [],
        nv_numbers_size = length kSubscriptNumbers, nv_style = NUMBER_SUBSCRIPT\<rparr>]"

text \<open>\<^verbatim>\<open>absl::SimpleAtoi\<close> into 64 bits, for a string of digits.\<close>

definition atoi_u64 :: "ustr \<Rightarrow> nat option" where
  "atoi_u64 s = (if digits_value s < 2 ^ 64 then Some (digits_value s) else None)"

definition ArabicToOtherForms :: "ustr \<Rightarrow> NumberString list \<Rightarrow> bool \<times> NumberString list" where
  "ArabicToOtherForms input_num output =
     (if \<not> IsDecimalInteger input_num then (False, output)
      else let (converted, output) = (if input_num = 0x31 # replicate 100 0x30
               then (True, output @ [\<lparr>ns_value = [0x47, 0x6F, 0x6F, 0x67, 0x6F, 0x6C], ns_description = [], ns_style = DEFAULT_STYLE\<rparr>])
               else (False, output))
           in case atoi_u64 input_num of
                None \<Rightarrow> (converted, output)
              | Some n \<Rightarrow>
                  let special = filter (\<lambda>v. n < nv_numbers_size v \<and> nv_digits v ! n \<noteq> []) kSpecialNumericVariations
                  in (converted \<or> special \<noteq> [],
                      output @ map (\<lambda>v. \<lparr>ns_value = nv_digits v ! n, ns_description = nv_description v, ns_style = nv_style v\<rparr>) special))"

definition ArabicToOtherRadixes :: "ustr \<Rightarrow> NumberString list \<Rightarrow> bool \<times> NumberString list" where
  "ArabicToOtherRadixes input_num output =
     (if \<not> IsDecimalInteger input_num then (False, output)
      else case atoi_u64 input_num of
             None \<Rightarrow> (False, output)
           | Some n \<Rightarrow> (n > 1, output @
               (if n > 9 then [\<lparr>ns_value = [0x30, 0x78] @ radix 16 n, ns_description = [0x31, 0x36, 0x9032, 0x6570], ns_style = NUMBER_HEX\<rparr>] else []) @
               (if n > 7 then [\<lparr>ns_value = [0x30] @ radix 8 n, ns_description = [0x38, 0x9032, 0x6570], ns_style = NUMBER_OCT\<rparr>] else []) @
               (if n > 1 then [\<lparr>ns_value = [0x30, 0x62] @ radix 2 n, ns_description = [0x32, 0x9032, 0x6570], ns_style = NUMBER_BIN\<rparr>] else [])))"

subsection \<open>Reading numbers\<close>

definition AddAndCheckOverflow :: "word64 \<Rightarrow> word64 \<Rightarrow> bool \<times> word64" where
  "AddAndCheckOverflow arg1 arg2 = (\<not> arg2 > (- 1) - arg1, arg1 + arg2)"

definition MultiplyAndCheckOverflow :: "word64 \<Rightarrow> word64 \<Rightarrow> bool \<times> word64" where
  "MultiplyAndCheckOverflow arg1 arg2 = (\<not> (arg1 \<noteq> 0 \<and> arg2 > (- 1) div arg1), arg1 * arg2)"

text \<open>The iterators are the rest of the list. The result is the flag, the rest and the number.\<close>

fun reduce_leading :: "word64 \<Rightarrow> word64 list \<Rightarrow> bool \<times> word64 list \<times> word64" where
  "reduce_leading output [] = (True, [], output)"
| "reduce_leading output (n # ns) =
     (if n \<ge> 10 then (True, n # ns, output)
      else case MultiplyAndCheckOverflow output 10 of
        (ok, output) \<Rightarrow> if \<not> ok then (False, n # ns, output)
          else case AddAndCheckOverflow output n of
            (ok, output) \<Rightarrow> if \<not> ok then (False, n # ns, output) else reduce_leading output ns)"

definition ReduceLeadingNumbersAsBase10System :: "word64 list \<Rightarrow> bool \<times> word64 list \<times> word64" where
  "ReduceLeadingNumbersAsBase10System ns = reduce_leading 0 ns"

definition InterpretNumbersAsBase10System :: "word64 list \<Rightarrow> word64 option" where
  "InterpretNumbersAsBase10System numbers =
     (case ReduceLeadingNumbersAsBase10System numbers of (success, rest, output) \<Rightarrow> if success \<and> rest = [] then Some output else None)"

definition ReduceOnesDigit :: "word64 list \<Rightarrow> bool \<times> word64 list \<times> word64" where
  "ReduceOnesDigit ns = (case ns of [] \<Rightarrow> (False, [], 0) | n # ns' \<Rightarrow> if n \<ge> 10 then (False, ns, 0) else (True, ns', n))"

definition ReduceDigitsHelper :: "word64 list \<Rightarrow> word64 \<Rightarrow> bool \<times> word64 list \<times> word64" where
  "ReduceDigitsHelper ns expected_base =
     (let ns = dropWhile (\<lambda>n. n = 0) ns in
      case ns of
        [] \<Rightarrow> (False, [], 0)
      | leading_number # rest \<Rightarrow>
          if leading_number < 10 then
            (case rest of
               [] \<Rightarrow> (False, ns, 0)
             | next_number # rest' \<Rightarrow>
                 if next_number < 10 then
                   (case ReduceLeadingNumbersAsBase10System ns of (ok, ns', num) \<Rightarrow>
                      if \<not> ok \<or> num \<ge> expected_base * 10 \<or> (ns' \<noteq> [] \<and> hd ns' < 10000) then (False, [], num) else (True, ns', num))
                 else if next_number \<noteq> expected_base \<or> (leading_number = 1 \<and> expected_base \<noteq> 1000) then (False, ns, 0)
                 else (True, rest', leading_number * expected_base))
          else if leading_number = expected_base \<or> (expected_base = 10 \<and> leading_number = 20) then (True, rest, leading_number)
          else (False, ns, 0))"

definition ReduceNumberLessThan10000 :: "word64 list \<Rightarrow> bool \<times> word64 list \<times> word64" where
  "ReduceNumberLessThan10000 ns =
     (let (s3, ns, n3) = ReduceDigitsHelper ns 1000;
          (s2, ns, n2) = ReduceDigitsHelper ns 100;
          (s1, ns, n1) = ReduceDigitsHelper ns 10;
          (s0, ns, n0) = ReduceOnesDigit ns;
          num = (if s3 then n3 else 0) + (if s2 then n2 else 0) + (if s1 then n1 else 0) + (if s0 then n0 else 0)
      in ((s3 \<or> s2 \<or> s1 \<or> s0) \<and> (ns = [] \<or> hd ns \<ge> 10000), ns, num))"

lemma reduce_leading_shorter: "reduce_leading out ns = (ok, ns', num) \<Longrightarrow> length ns' \<le> length ns"
  by (induction out ns arbitrary: ok num rule: reduce_leading.induct) (force split: if_splits prod.splits)+

lemma ReduceDigitsHelper_shorter: "ReduceDigitsHelper ns b = (ok, ns', num) \<Longrightarrow> length ns' \<le> length ns"
proof -
  assume a: "ReduceDigitsHelper ns b = (ok, ns', num)"
  define ms where "ms = dropWhile (\<lambda>n. n = 0) ns"
  have "length ns' \<le> length ms"
    using a unfolding ReduceDigitsHelper_def ms_def [symmetric] Let_def
    by (auto simp: ReduceLeadingNumbersAsBase10System_def dest!: reduce_leading_shorter split: list.splits if_splits prod.splits)
  then show ?thesis using length_dropWhile_le [of "\<lambda>n. n = 0" ns] by (simp add: ms_def)
qed

lemma ReduceNumberLessThan10000_shorter: "ReduceNumberLessThan10000 ns = (ok, ns', num) \<Longrightarrow> length ns' \<le> length ns"
  by (auto simp: ReduceNumberLessThan10000_def Let_def ReduceOnesDigit_def dest!: ReduceDigitsHelper_shorter
      split: list.splits if_splits prod.splits)

function japanese_loop :: "word64 list \<Rightarrow> word64 \<Rightarrow> word64 \<Rightarrow> word64 option" where
  "japanese_loop ns last_base output =
     (case ReduceNumberLessThan10000 ns of (ok, ns', coef) \<Rightarrow>
        if \<not> ok then None
        else case ns' of
          [] \<Rightarrow> (case AddAndCheckOverflow output coef of (ok, output) \<Rightarrow> if ok then Some output else None)
        | base # ns'' \<Rightarrow>
            if base \<ge> last_base then None
            else (case MultiplyAndCheckOverflow coef base of (ok1, delta) \<Rightarrow>
                  case AddAndCheckOverflow output delta of (ok2, output) \<Rightarrow>
                    if \<not> (ok1 \<and> ok2) then None
                    else if ns'' = [] then Some output else japanese_loop ns'' base output))"
  by auto
termination
  by (relation "measure (\<lambda>(ns, lb, out). length ns)") (auto dest!: sym [of _ "ReduceNumberLessThan10000 _"] ReduceNumberLessThan10000_shorter)

declare japanese_loop.simps [simp del]

definition InterpretNumbersInJapaneseWay :: "word64 list \<Rightarrow> word64 option" where
  "InterpretNumbersInJapaneseWay numbers = japanese_loop numbers (- 1) 0"

definition NormalizeNumbersHelper :: "word64 list \<Rightarrow> word64 option" where
  "NormalizeNumbersHelper numbers =
     (if numbers = [] then None
      else if list_all (\<lambda>n. n < 10) numbers then InterpretNumbersAsBase10System numbers
      else InterpretNumbersInJapaneseWay numbers)"

definition kanjinumber_table :: "(char32 \<times> word64) list" where
  "kanjinumber_table = [(0x96F6, 0), (0x4E00,
    1), (0x4E8C, 2), (0x4E09, 3), (0x56DB, 4), (0x4E94, 5), (0x516D, 6), (0x4E03, 7), (0x516B, 8), (0x4E5D, 9),
    (0x5341, 10), (0x767E, 100), (0x5343, 1000), (0x4E07, 10000), (0x5104, 100000000), (0x5146, 1000000000000),
    (0x4EAC, 10000000000000000), (0x30, 0), (0x31, 1), (0x32, 2), (0x33, 3), (0x34, 4), (0x35, 5), (0x36, 6), (0x37,
    7), (0x38, 8), (0x39, 9), (0xFF10, 0), (0xFF11, 1), (0xFF12, 2), (0xFF13, 3), (0xFF14, 4), (0xFF15, 5), (0xFF16,
    6), (0xFF17, 7), (0xFF18, 8), (0xFF19, 9), (0x58F1, 1), (0x5F10, 2), (0x53C2, 3), (0x62FE, 10), (0x5EFF, 20),
    (0x5345, 30), (0x534C, 40)]"

definition kanji_char :: "char32 \<Rightarrow> ustr" where
  "kanji_char c =
     (if isdigit c then kNumKanjiDigits ! (c - 0x30)
      else if 0xFF10 \<le> c \<and> c \<le> 0xFF19 then kNumKanjiDigits ! (c - 0xFF10)
      else [c])"

definition ContainsScriptType :: "ustr \<Rightarrow> ScriptType \<Rightarrow> bool" where
  "ContainsScriptType str type \<longleftrightarrow> list_ex (\<lambda>c. GetScriptType c = type) str"

text \<open>The loop over the characters: the kanji output, the numbers and the suffix.\<close>

fun number_chars :: "bool \<Rightarrow> ustr \<Rightarrow> (ustr \<times> word64 list \<times> ustr) option" where
  "number_chars allow_suffix [] = Some ([], [], [])"
| "number_chars allow_suffix (c # input) =
     (case map_of kanjinumber_table c of
        None \<Rightarrow> if \<not> allow_suffix \<or> ContainsScriptType (c # input) NUMBER then None else Some ([], [], c # input)
      | Some n \<Rightarrow> map_option (\<lambda>(kanji, numbers, suffix). (kanji_char c @ kanji, n # numbers, suffix)) (number_chars allow_suffix input))"

definition NormalizeNumbersInternal :: "ustr \<Rightarrow> bool \<Rightarrow> bool \<Rightarrow> (ustr \<times> ustr \<times> ustr) option" where
  "NormalizeNumbersInternal input trim_leading_zeros allow_suffix =
     Option.bind (number_chars allow_suffix input) (\<lambda>(kanji_output, numbers, suffix).
     if numbers = [] then None
     else map_option (\<lambda>n.
       let num_zeros = length (takeWhile (\<lambda>n. n = 0) numbers);
           num_zeros = (if num_zeros = length numbers then num_zeros - 1 else num_zeros)
       in (kanji_output, (if trim_leading_zeros then [] else replicate num_zeros 0x30) @ decimal (unat n), suffix))
       (NormalizeNumbersHelper numbers))"

definition NormalizeNumbers :: "ustr \<Rightarrow> bool \<Rightarrow> (ustr \<times> ustr) option" where
  "NormalizeNumbers input trim_leading_zeros =
     map_option (\<lambda>(kanji, arabic, suffix). (kanji, arabic)) (NormalizeNumbersInternal input trim_leading_zeros False)"

definition NormalizeNumbersWithSuffix :: "ustr \<Rightarrow> bool \<Rightarrow> (ustr \<times> ustr \<times> ustr) option" where
  "NormalizeNumbersWithSuffix input trim_leading_zeros = NormalizeNumbersInternal input trim_leading_zeros True"

subsection \<open>Reading what was written\<close>

text \<open>The numbers of a group of four digits in kanji.\<close>

definition rank_numbers :: "nat \<Rightarrow> word64 \<Rightarrow> word64 list" where
  "rank_numbers d b = (if d = 0 then [] else if d = 1 then [b] else [of_nat d, b])"

definition ones_numbers :: "nat \<Rightarrow> word64 list" where
  "ones_numbers d = (if d = 0 then [] else [of_nat d])"

definition group_numbers :: "nat \<Rightarrow> nat \<Rightarrow> nat \<Rightarrow> nat \<Rightarrow> word64 list" where
  "group_numbers d3 d2 d1 d0 = rank_numbers d3 1000 @ rank_numbers d2 100 @ rank_numbers d1 10 @ ones_numbers d0"

definition misses :: "word64 \<Rightarrow> word64 list \<Rightarrow> bool" where
  "misses b ns \<longleftrightarrow> (case ns of [] \<Rightarrow> True
     | x # xs \<Rightarrow> x \<ge> 10 \<and> x \<noteq> b \<and> \<not> (b = 10 \<and> x = 20) \<or>
         x < 10 \<and> x \<noteq> 0 \<and> (case xs of [] \<Rightarrow> True | y # ys \<Rightarrow> y \<ge> 10 \<and> y \<noteq> b))"

lemma digit_word:
  assumes "1 \<le> d" "d \<le> (9::nat)"
  shows "(of_nat d :: word64) < 10" "(of_nat d :: word64) \<noteq> 0" "d \<noteq> 1 \<Longrightarrow> (of_nat d :: word64) \<noteq> 1"
proof -
  have "d = 1 \<or> d = 2 \<or> d = 3 \<or> d = 4 \<or> d = 5 \<or> d = 6 \<or> d = 7 \<or> d = 8 \<or> d = 9" using assms by linarith
  then show "(of_nat d :: word64) < 10" "(of_nat d :: word64) \<noteq> 0" "d \<noteq> 1 \<Longrightarrow> (of_nat d :: word64) \<noteq> 1" by (elim disjE; simp)+
qed

lemma helper_misses:
  assumes "misses b ns"
  shows "ReduceDigitsHelper ns b = (False, ns, 0)"
proof (cases ns)
  case (Cons x xs)
  then have "x \<noteq> 0" using assms by (auto simp: misses_def)
  then have d: "dropWhile (\<lambda>n. n = 0) ns = ns" using Cons by simp
  show ?thesis
  proof (cases "x < 10")
    case False
    then show ?thesis using assms Cons unfolding ReduceDigitsHelper_def d Let_def by (auto simp: misses_def)
  next
    case True
    then have "\<not> 10 \<le> x" by simp
    then have "case xs of [] \<Rightarrow> True | y # ys \<Rightarrow> y \<ge> 10 \<and> y \<noteq> b" using assms Cons by (simp add: misses_def)
    then show ?thesis using True Cons unfolding ReduceDigitsHelper_def d Let_def by (cases xs) (auto simp: leD)
  qed
qed (simp add: ReduceDigitsHelper_def)

lemma helper_rank:
  assumes "d \<le> 9" "b = 10 \<or> b = 100 \<or> b = 1000" "misses b ns"
  shows "ReduceDigitsHelper (rank_numbers d b @ ns) b = (d > 0, ns, of_nat d * b)"
proof (cases "d = 0")
  case True
  then show ?thesis using helper_misses [OF assms(3)] by (simp add: rank_numbers_def)
next
  case False
  note w = digit_word [of d]
  have b: "b \<ge> 10" "b \<noteq> 0" "\<not> b < 10" using assms(2) by auto
  show ?thesis
  proof (cases "d = 1")
    case True
    then show ?thesis using b by (simp add: rank_numbers_def ReduceDigitsHelper_def Let_def)
  next
    case d: False
    then show ?thesis using b w False assms(1) by (simp add: rank_numbers_def ReduceDigitsHelper_def Let_def)
  qed
qed

definition group_end :: "word64 list \<Rightarrow> bool" where
  "group_end ns \<longleftrightarrow> ns = [] \<or> hd ns \<ge> 10000"

lemma misses_tails:
  assumes "d2 \<le> 9" "d1 \<le> 9" "d0 \<le> 9" "group_end ns"
  shows "misses 10 (ones_numbers d0 @ ns)" "misses 100 (rank_numbers d1 10 @ ones_numbers d0 @ ns)"
    "misses 1000 (rank_numbers d2 100 @ rank_numbers d1 10 @ ones_numbers d0 @ ns)"
proof -
  have e: "x \<ge> 10 \<and> x \<noteq> 10 \<and> x \<noteq> 100 \<and> x \<noteq> 1000 \<and> x \<noteq> 20" if "x \<ge> 10000" for x :: word64
    using that by (auto simp: word_le_nat_alt)
  note w = digit_word
  show 1: "misses 10 (ones_numbers d0 @ ns)"
    using w [of d0] e assms(3,4) by (cases ns) (auto simp: misses_def ones_numbers_def group_end_def)
  have 2: "misses 100 (ones_numbers d0 @ ns)" "misses 1000 (ones_numbers d0 @ ns)"
    using w [of d0] e assms(3,4) by (cases ns; auto simp: misses_def ones_numbers_def group_end_def)+
  show 3: "misses 100 (rank_numbers d1 10 @ ones_numbers d0 @ ns)"
    using 2 w [of d1] assms(2) by (auto simp: misses_def rank_numbers_def)
  have 4: "misses 1000 (rank_numbers d1 10 @ ones_numbers d0 @ ns)"
    using 2 w [of d1] assms(2) by (auto simp: misses_def rank_numbers_def)
  then show "misses 1000 (rank_numbers d2 100 @ rank_numbers d1 10 @ ones_numbers d0 @ ns)"
    using w [of d2] assms(1) by (auto simp: misses_def rank_numbers_def)
qed

lemma ones_correct:
  assumes "d0 \<le> 9" "group_end ns"
  shows "ReduceOnesDigit (ones_numbers d0 @ ns) = (d0 > 0, ns, of_nat d0)"
proof -
  have "x \<ge> 10" if "x \<ge> 10000" for x :: word64 using that by (auto simp: word_le_nat_alt)
  moreover have "\<not> 10 \<le> (of_nat d0 :: word64)" if "d0 \<noteq> 0" using digit_word(1) [of d0] assms(1) that by simp
  ultimately show ?thesis using assms
    by (cases ns; cases "d0 = 0") (simp_all add: ReduceOnesDigit_def ones_numbers_def group_end_def)
qed

lemma group_correct:
  assumes "d3 \<le> 9" "d2 \<le> 9" "d1 \<le> 9" "d0 \<le> 9" "group_end ns"
  shows "ReduceNumberLessThan10000 (group_numbers d3 d2 d1 d0 @ ns) =
    (d3 > 0 \<or> d2 > 0 \<or> d1 > 0 \<or> d0 > 0, ns, of_nat (1000 * d3 + 100 * d2 + 10 * d1 + d0))"
proof -
  note m = misses_tails [OF assms(2-5)]
  have "ReduceDigitsHelper (group_numbers d3 d2 d1 d0 @ ns) 1000 = (d3 > 0, rank_numbers d2 100 @ rank_numbers d1 10 @ ones_numbers d0 @ ns, of_nat d3 * 1000)"
    unfolding group_numbers_def append_assoc by (rule helper_rank [OF assms(1) _ m(3)]) simp
  moreover have "ReduceDigitsHelper (rank_numbers d2 100 @ rank_numbers d1 10 @ ones_numbers d0 @ ns) 100 =
      (d2 > 0, rank_numbers d1 10 @ ones_numbers d0 @ ns, of_nat d2 * 100)"
    by (rule helper_rank [OF assms(2) _ m(2)]) simp
  moreover have "ReduceDigitsHelper (rank_numbers d1 10 @ ones_numbers d0 @ ns) 10 = (d1 > 0, ones_numbers d0 @ ns, of_nat d1 * 10)"
    by (rule helper_rank [OF assms(3) _ m(1)]) simp
  moreover have "group_end ns \<longleftrightarrow> ns = [] \<or> hd ns \<ge> 10000" by (simp add: group_end_def)
  ultimately show ?thesis using assms(5) by (auto simp: ReduceNumberLessThan10000_def Let_def ones_correct [OF assms(4,5)])
qed

text \<open>A number in groups of four digits, the highest first.\<close>

type_synonym group = "nat \<times> nat \<times> nat \<times> nat"

fun group_value :: "group \<Rightarrow> nat" where "group_value (d3, d2, d1, d0) = 1000 * d3 + 100 * d2 + 10 * d1 + d0"
fun group_ok :: "group \<Rightarrow> bool" where "group_ok (d3, d2, d1, d0) \<longleftrightarrow> d3 \<le> 9 \<and> d2 \<le> 9 \<and> d1 \<le> 9 \<and> d0 \<le> 9"

fun groups_numbers :: "group list \<Rightarrow> word64 list" where
  "groups_numbers [] = []"
| "groups_numbers ((d3, d2, d1, d0) # gs) =
     (if group_value (d3, d2, d1, d0) = 0 then []
      else group_numbers d3 d2 d1 d0 @ (if gs = [] then [] else [of_nat (10000 ^ length gs)])) @ groups_numbers gs"

fun groups_value :: "group list \<Rightarrow> nat" where
  "groups_value [] = 0"
| "groups_value (g # gs) = group_value g * 10000 ^ length gs + groups_value gs"

lemma base_word: "1 \<le> k \<Longrightarrow> k \<le> 4 \<Longrightarrow> unat (of_nat (10000 ^ k) :: word64) = 10000 ^ k"
proof -
  assume "1 \<le> k" "k \<le> 4"
  then have "k = 1 \<or> k = 2 \<or> k = 3 \<or> k = 4" by linarith
  then show ?thesis by (elim disjE; simp)
qed

lemma groups_value_0: "groups_value gs = 0 \<Longrightarrow> groups_numbers gs = []"
  by (induction gs rule: groups_numbers.induct) auto

lemma unat_max: "unat (- 1 :: word64) = 2 ^ 64 - 1" by (simp add: unsigned_minus_1_eq_mask mask_eq_exp_minus_1)

lemma check_add: "unat a + unat b < 2 ^ 64 \<Longrightarrow> AddAndCheckOverflow a b = (True, a + b)" for a b :: word64
proof -
  assume "unat a + unat b < 2 ^ 64"
  then have "unat b \<le> unat (- 1 - a :: word64)" by (simp add: unat_sub word_order.extremum unat_max)
  then show ?thesis by (simp add: AddAndCheckOverflow_def word_le_nat_alt not_less)
qed

lemma check_mult: "unat a * unat b < 2 ^ 64 \<Longrightarrow> MultiplyAndCheckOverflow a b = (True, a * b)" for a b :: word64
proof -
  assume a: "unat a * unat b < 2 ^ 64"
  have "unat b \<le> (2 ^ 64 - 1) div unat a" if "a \<noteq> 0"
  proof -
    have "0 < unat a" using that by (simp add: unat_gt_0)
    then show ?thesis using a by (simp add: less_eq_div_iff_mult_less_eq mult.commute)
  qed
  then show ?thesis by (auto simp: MultiplyAndCheckOverflow_def word_less_nat_alt unat_div unat_max not_less)
qed

lemma last_group: "group_ok (d3, d2, d1, d0) \<Longrightarrow> 0 < group_value (d3, d2, d1, d0) \<Longrightarrow>
    ReduceNumberLessThan10000 (group_numbers d3 d2 d1 d0) = (True, [], of_nat (group_value (d3, d2, d1, d0)))"
  using group_correct [of d3 d2 d1 d0 "[]"] by (auto simp: group_end_def)

lemma japanese_loop_groups:
  assumes "\<forall>g \<in> set gs. group_ok g" "length gs \<le> 5" "0 < groups_value gs" "unat out + groups_value gs < 2 ^ 64"
    "length gs \<le> 1 \<or> 10000 ^ (length gs - 1) < unat lb"
  shows "japanese_loop (groups_numbers gs) lb out = Some (out + of_nat (groups_value gs))"
  using assms
proof (induction gs arbitrary: lb out)
  case (Cons g gs)
  obtain d3 d2 d1 d0 where g: "g = (d3, d2, d1, d0)" by (cases g) auto
  let ?v = "group_value g"
  have ok: "group_ok (d3, d2, d1, d0)" using Cons.prems(1) g by simp
  show ?case
  proof (cases "?v = 0")
    case True
    then have "gs \<noteq> []" using Cons.prems(3) by auto
    then have "length gs \<le> 1 \<or> 10000 ^ (length gs - 1) < unat lb"
    proof -
      have "(10000 :: nat) ^ (length gs - 1) < 10000 ^ length gs" using \<open>gs \<noteq> []\<close> by (intro power_strict_increasing) simp_all
      moreover have "10000 ^ length gs < unat lb" using Cons.prems(5) \<open>gs \<noteq> []\<close> by simp
      ultimately show ?thesis by linarith
    qed
    then show ?thesis using Cons True g by simp
  next
    case v: False
    have "?v < 2 ^ 64" using ok g by simp
    then have vw: "unat (of_nat ?v :: word64) = ?v" by (simp add: unsigned_of_nat take_bit_nat_eq_self)
    show ?thesis
    proof (cases "gs = []")
      case True
      have "unat out + unat (of_nat ?v :: word64) < 2 ^ 64" using Cons.prems(4) True by (simp add: vw)
      from check_add [OF this] show ?thesis
        using last_group [OF ok] v True unfolding g by (subst japanese_loop.simps) (simp del: group_value.simps)
    next
      case False
      let ?b = "of_nat (10000 ^ length gs) :: word64"
      have k: "1 \<le> length gs" "length gs \<le> 4" using False Cons.prems(2) by (cases gs; simp)+
      have b: "unat ?b = 10000 ^ length gs" by (rule base_word [OF k])
      have "10000 ^ 1 \<le> (10000 :: nat) ^ length gs" by (rule power_increasing) (use k in auto)
      then have "group_end (?b # groups_numbers gs)" using b by (simp add: group_end_def word_le_nat_alt)
      from group_correct [of d3 d2 d1 d0, OF _ _ _ _ this] ok v
      have R: "ReduceNumberLessThan10000 (groups_numbers (g # gs)) = (True, ?b # groups_numbers gs, of_nat ?v)"
        using False by (auto simp: g simp del: of_nat_power)
      have lt: "\<not> ?b \<ge> lb" using Cons.prems(5) False b by (simp add: word_le_nat_alt not_le)
      have vb: "?v * 10000 ^ length gs + unat out < 2 ^ 64" using Cons.prems(4) by simp
      have m: "MultiplyAndCheckOverflow (of_nat ?v) ?b = (True, of_nat ?v * ?b)" by (rule check_mult) (use vb vw b in simp)
      have d: "unat (of_nat ?v * ?b) = ?v * 10000 ^ length gs" using vb vw b by (simp add: unat_mult_lem [THEN iffD1])
      have a: "AddAndCheckOverflow out (of_nat ?v * ?b) = (True, out + of_nat ?v * ?b)" by (rule check_add) (use vb d in simp)
      have o: "unat (out + of_nat ?v * ?b) = unat out + ?v * 10000 ^ length gs" using vb d by (simp add: unat_add_lem [THEN iffD1])
      show ?thesis
      proof (cases "groups_value gs = 0")
        case True
        then show ?thesis using lt m a by (subst japanese_loop.simps) (simp add: R groups_value_0)
      next
        case n: False
        then have "groups_numbers gs \<noteq> []"
        proof (induction gs rule: groups_numbers.induct)
          case (2 d3 d2 d1 d0 gs)
          then show ?case by (auto simp: group_numbers_def rank_numbers_def ones_numbers_def split: if_splits)
        qed simp
        moreover have "japanese_loop (groups_numbers gs) ?b (out + of_nat ?v * ?b) = Some (out + of_nat ?v * ?b + of_nat (groups_value gs))"
        proof (rule Cons.IH)
          show "length gs \<le> 1 \<or> 10000 ^ (length gs - 1) < unat ?b" using b k by (auto intro: power_strict_increasing)
        qed (use Cons.prems n o in auto)
        ultimately show ?thesis using lt m a by (subst japanese_loop.simps) (simp add: R add.assoc)
      qed
    qed
  qed
qed simp

subsection \<open>The digits of a number\<close>

lemma radix_digits: "2 \<le> b \<Longrightarrow> b \<le> 10 \<Longrightarrow> list_all isdigit (radix b n)"
proof (induction b n rule: radix.induct)
  case (1 b n)
  show ?case
  proof (cases "n < b")
    case False
    then have "n mod b < 10" using 1(2,3) mod_less_divisor [of b n] by linarith
    then show ?thesis using 1 False by (subst radix.simps) (auto simp: isdigit_def list_all_iff)
  qed (use 1 in \<open>subst radix.simps; auto simp: isdigit_def list_all_iff\<close>)
qed

lemma radix_not_Nil: "radix b n \<noteq> []" by (subst radix.simps) simp

lemma digits_value_snoc: "digits_value (s @ [c]) = 10 * digits_value s + (c - 0x30)" by (simp add: digits_value_def)

lemma digits_value_append: "digits_value (s @ t) = digits_value s * 10 ^ length t + digits_value t"
proof (induction t rule: rev_induct)
  case (snoc c t)
  then show ?case by (simp add: digits_value_snoc flip: append_assoc)
qed (simp add: digits_value_def)

lemma digits_value_replicate: "digits_value (replicate n 0x30 @ s) = digits_value s"
proof -
  have "digits_value (replicate n 0x30) = 0" by (induction n) (auto simp: digits_value_def)
  then show ?thesis by (simp add: digits_value_append)
qed

lemma digits_value_decimal: "digits_value (decimal n) = n"
proof -
  have "digits_value (radix 10 n) = n"
  proof (induction "10 :: nat" n rule: radix.induct)
    case (1 n)
    then show ?case
    proof (cases "n < 10")
      case True
      then show ?thesis by (subst radix.simps) (simp add: digits_value_def)
    next
      case False
      then have IH: "digits_value (radix 10 (n div 10)) = n div 10" using 1 by simp
      show ?thesis using False by (subst radix.simps) (simp add: digits_value_snoc IH)
    qed
  qed
  then show ?thesis by (simp add: decimal_def)
qed

lemma length_radix: "n < b ^ k \<Longrightarrow> 0 < k \<Longrightarrow> 2 \<le> b \<Longrightarrow> length (radix b n) \<le> k"
proof (induction k arbitrary: n)
  case (Suc k)
  show ?case
  proof (cases "n < b")
    case True
    then show ?thesis by (subst radix.simps) simp
  next
    case False
    then have "0 < k" using Suc.prems(1) by (cases k) simp_all
    moreover have "n div b < b ^ k" using Suc.prems by (simp add: less_mult_imp_div_less mult.commute)
    ultimately show ?thesis using Suc.IH [of "n div b"] Suc.prems(3) False by (subst radix.simps) simp
  qed
qed simp

lemma IsDecimalInteger_decimal: "IsDecimalInteger (decimal n)"
  using radix_digits [of 10 n] radix_not_Nil [of 10 n] by (simp add: IsDecimalInteger_def decimal_def)

lemma zero_digits: "list_all (\<lambda>c. c = 0x30) s \<Longrightarrow> digits_value s = 0"
proof -
  assume "list_all (\<lambda>c. c = 0x30) s"
  then have "s = replicate (length s) 0x30" by (induction s) auto
  then show ?thesis using digits_value_replicate [of "length s" "[]"] by (metis append_Nil2 digits_value_def fold_simps(1))
qed

subsection \<open>The kanji of a number\<close>

text \<open>The kanji of a digit at a position of its group.\<close>

definition digit_kanji :: "nat \<Rightarrow> char32 \<Rightarrow> ustr" where
  "digit_kanji i c = (if c = 0x30 then [] else (if i = 3 \<or> c \<noteq> 0x31 then kNumKanjiDigits ! (c - 0x30) else []) @ kNumKanjiRanks ! (4 - i))"

lemma segment_kanji:
  "segment_digits NUMBER_KANJI kNumKanjiDigits kNumKanjiRanks leading i s = concat (map (\<lambda>(j, c). digit_kanji j c) (enumerate i s))"
  by (induction s arbitrary: leading i) (auto simp: digit_kanji_def)

lemma number_chars_append:
  "number_chars False s = Some (k, ns, []) \<Longrightarrow> number_chars False t = Some (k', ns', []) \<Longrightarrow> number_chars False (s @ t) = Some (k @ k', ns @ ns', [])"
  by (induction s arbitrary: k ns) (auto split: option.splits if_splits)

lemma number_chars_digit:
  assumes "d \<le> 9"
  shows "number_chars False (digit_kanji 0 (0x30 + d)) = Some (digit_kanji 0 (0x30 + d), rank_numbers d 1000, [])"
    "number_chars False (digit_kanji 1 (0x30 + d)) = Some (digit_kanji 1 (0x30 + d), rank_numbers d 100, [])"
    "number_chars False (digit_kanji 2 (0x30 + d)) = Some (digit_kanji 2 (0x30 + d), rank_numbers d 10, [])"
    "number_chars False (digit_kanji 3 (0x30 + d)) = Some (digit_kanji 3 (0x30 + d), ones_numbers d, [])"
proof -
  have "d = 0 \<or> d = 1 \<or> d = 2 \<or> d = 3 \<or> d = 4 \<or> d = 5 \<or> d = 6 \<or> d = 7 \<or> d = 8 \<or> d = 9" using assms by presburger
  then show "number_chars False (digit_kanji 0 (0x30 + d)) = Some (digit_kanji 0 (0x30 + d), rank_numbers d 1000, [])"
    "number_chars False (digit_kanji 1 (0x30 + d)) = Some (digit_kanji 1 (0x30 + d), rank_numbers d 100, [])"
    "number_chars False (digit_kanji 2 (0x30 + d)) = Some (digit_kanji 2 (0x30 + d), rank_numbers d 10, [])"
    "number_chars False (digit_kanji 3 (0x30 + d)) = Some (digit_kanji 3 (0x30 + d), ones_numbers d, [])"
    by (elim disjE; simp add: digit_kanji_def kNumKanjiDigits_def kNumKanjiRanks_def rank_numbers_def ones_numbers_def
      kanjinumber_table_def kanji_char_def isdigit_def)+
qed

fun group_string :: "group \<Rightarrow> ustr" where
  "group_string (d3, d2, d1, d0) = [0x30 + d3, 0x30 + d2, 0x30 + d1, 0x30 + d0]"

fun group_kanji :: "group \<Rightarrow> ustr" where
  "group_kanji (d3, d2, d1, d0) = digit_kanji 0 (0x30 + d3) @ digit_kanji 1 (0x30 + d2) @ digit_kanji 2 (0x30 + d1) @ digit_kanji 3 (0x30 + d0)"

lemma segment_group_kanji: "segment_digits NUMBER_KANJI kNumKanjiDigits kNumKanjiRanks True 0 (group_string g) = group_kanji g"
  by (cases g) (simp add: segment_kanji numeral_2_eq_2 numeral_3_eq_3 del: segment_digits.simps)

lemma digit_kanji_Nil: "i < 4 \<Longrightarrow> d \<le> 9 \<Longrightarrow> digit_kanji i (0x30 + d) = [] \<longleftrightarrow> d = 0"
proof -
  assume "i < 4" "d \<le> 9"
  then have "i = 0 \<or> i = 1 \<or> i = 2 \<or> i = 3" "d = 0 \<or> d = 1 \<or> d = 2 \<or> d = 3 \<or> d = 4 \<or> d = 5 \<or> d = 6 \<or> d = 7 \<or> d = 8 \<or> d = 9" by presburger+
  then show ?thesis by (elim disjE; simp add: digit_kanji_def kNumKanjiDigits_def kNumKanjiRanks_def)
qed

lemma group_kanji_Nil: "group_ok g \<Longrightarrow> group_kanji g = [] \<longleftrightarrow> group_value g = 0"
  by (cases g) (simp add: digit_kanji_Nil)

lemma number_chars_group:
  "group_ok (d3, d2, d1, d0) \<Longrightarrow> number_chars False (group_kanji (d3, d2, d1, d0)) = Some (group_kanji (d3, d2, d1, d0), group_numbers d3 d2 d1 d0, [])"
  unfolding group_kanji.simps group_numbers_def by (intro number_chars_append number_chars_digit) simp_all

lemma number_chars_bigger:
  "1 \<le> k \<Longrightarrow> k \<le> 4 \<Longrightarrow> number_chars False (kNumKanjiBiggerRanks ! k) = Some (kNumKanjiBiggerRanks ! k, [of_nat (10000 ^ k)], [])"
proof -
  assume "1 \<le> k" "k \<le> 4"
  then have "k = 1 \<or> k = 2 \<or> k = 3 \<or> k = 4" by linarith
  then show ?thesis by (elim disjE; simp add: kNumKanjiBiggerRanks_def kanjinumber_table_def kanji_char_def isdigit_def)
qed

fun groups_kanji :: "group list \<Rightarrow> ustr" where
  "groups_kanji [] = []"
| "groups_kanji (g # gs) = (if group_value g = 0 then [] else group_kanji g @ kNumKanjiBiggerRanks ! length gs) @ groups_kanji gs"

lemma number_chars_groups:
  "\<forall>g \<in> set gs. group_ok g \<Longrightarrow> length gs \<le> 5 \<Longrightarrow> number_chars False (groups_kanji gs) = Some (groups_kanji gs, groups_numbers gs, [])"
proof (induction gs)
  case (Cons g gs)
  obtain d3 d2 d1 d0 where g: "g = (d3, d2, d1, d0)" by (cases g) auto
  have IH: "number_chars False (groups_kanji gs) = Some (groups_kanji gs, groups_numbers gs, [])" using Cons by simp
  have G: "number_chars False (group_kanji g) = Some (group_kanji g, group_numbers d3 d2 d1 d0, [])"
    unfolding g by (rule number_chars_group) (use Cons.prems g in simp)
  have B: "number_chars False (kNumKanjiBiggerRanks ! length gs) = Some (kNumKanjiBiggerRanks ! length gs, if gs = [] then [] else [of_nat (10000 ^ length gs)], [])"
    using number_chars_bigger [of "length gs"] Cons.prems(2)
    by (cases gs) (simp_all add: kNumKanjiBiggerRanks_def del: of_nat_power)
  show ?case
    using number_chars_append [OF number_chars_append [OF G B] IH] IH g
    by (cases "group_value g = 0") (simp_all del: group_value.simps group_kanji.simps of_nat_power)
qed simp

lemma groups_of_digits:
  assumes "list_all isdigit s" "length s = 4 * k"
  shows "\<exists>gs. s = concat (map group_string gs) \<and> (\<forall>g \<in> set gs. group_ok g) \<and> length gs = k"
  using assms
proof (induction k arbitrary: s)
  case (Suc k)
  then obtain a b c d t where s: "s = a # b # c # d # t" by (auto simp: length_Suc_conv numeral_eq_Suc)
  then obtain gs where gs: "t = concat (map group_string gs)" "\<forall>g \<in> set gs. group_ok g" "length gs = k"
    using Suc.IH [of t] Suc.prems by auto
  have "[a, b, c, d] = group_string (a - 0x30, b - 0x30, c - 0x30, d - 0x30)" "group_ok (a - 0x30, b - 0x30, c - 0x30, d - 0x30)"
    using Suc.prems(1) s by (auto simp: isdigit_def)
  then show ?case using s gs by (intro exI [of _ "(a - 0x30, b - 0x30, c - 0x30, d - 0x30) # gs"]) (simp del: group_string.simps group_ok.simps flip: append_Cons)
qed simp

lemma length_group_strings: "length (concat (map group_string gs)) = 4 * length gs"
  by (induction gs) auto

lemma length_group_string: "length (group_string g) = 4" by (cases g) simp

lemma ranked_numbers_groups: "ranked_numbers (concat (map group_string gs)) = rev (map group_string gs)"
proof (rule nth_equalityI)
  fix i assume "i < length (ranked_numbers (concat (map group_string gs)))"
  then have i: "i < length gs" by (simp add: ranked_numbers_def length_group_strings)
  let ?k = "length gs - Suc i"
  have k: "?k < length gs" using i by simp
  have "concat (map group_string gs) = concat (map group_string (take ?k gs)) @ group_string (gs ! ?k) @ concat (map group_string (drop (Suc ?k) gs))"
    using id_take_nth_drop [OF k] by (metis concat.simps(2) concat_append list.simps(9) map_append)
  moreover have "length (concat (map group_string gs)) - 4 * (i + 1) = length (concat (map group_string (take ?k gs)))"
    using i by (simp add: length_group_strings)
  ultimately have "take 4 (drop (length (concat (map group_string gs)) - 4 * (i + 1)) (concat (map group_string gs))) = group_string (gs ! ?k)"
    by (simp add: length_group_string)
  then show "ranked_numbers (concat (map group_string gs)) ! i = rev (map group_string gs) ! i"
    using i by (simp add: ranked_numbers_def length_group_strings rev_nth)
qed (simp add: ranked_numbers_def length_group_strings)

lemma digits_value_groups: "\<forall>g \<in> set gs. group_ok g \<Longrightarrow> digits_value (concat (map group_string gs)) = groups_value gs"
proof (induction gs)
  case (Cons g gs)
  have "digits_value (group_string g) = group_value g" by (cases g) (simp add: digits_value_def)
  then show ?case using Cons by (simp add: digits_value_append length_group_strings power_mult del: group_value.simps group_string.simps)
qed (simp add: digits_value_def)

abbreviation kanji_variation :: NumberStringVariation where "kanji_variation \<equiv> kKanjiVariations ! 2"

lemma kanji_variation_simps: "nv_style kanji_variation = NUMBER_KANJI" "nv_digits kanji_variation = kNumKanjiDigits"
  by (simp_all add: kKanjiVariations_def)

lemma kanji_result_groups:
  assumes "\<forall>g \<in> set gs. group_ok g"
  shows "kanji_result kanji_variation (rev (map group_string gs)) = groups_kanji gs"
proof -
  define h where "h rn rank = (let r = segment_digits NUMBER_KANJI kNumKanjiDigits kNumKanjiRanks True 0 (rn ! rank)
      in if r \<noteq> [] then r @ kNumKanjiBiggerRanks ! rank else [])" for rn :: "ustr list" and rank
  have "concat (map (h (rev (map group_string gs))) (rev [0..<length gs])) = groups_kanji gs"
    using assms
  proof (induction gs)
    case (Cons g gs)
    let ?rn = "rev (map group_string (g # gs))"
    have "map (h ?rn) (rev [0..<length gs]) = map (h (rev (map group_string gs))) (rev [0..<length gs])"
      by (rule map_cong) (auto simp: nth_append h_def)
    moreover have "?rn ! length gs = group_string g" by (simp add: nth_append)
    then have "h ?rn (length gs) = (if group_value g = 0 then [] else group_kanji g @ kNumKanjiBiggerRanks ! length gs)"
      using Cons.prems group_kanji_Nil [of g] segment_group_kanji [of g] by (simp add: h_def)
    moreover have "rev [0..<length (g # gs)] = length gs # rev [0..<length gs]" by simp
    moreover have "concat (map (h (rev (map group_string gs))) (rev [0..<length gs])) = groups_kanji gs" using Cons by simp
    ultimately show ?case by (simp only: list.map(2) concat.simps groups_kanji.simps)
  qed simp
  then show ?thesis unfolding h_def by (simp add: kanji_result_def kanji_variation_simps Let_def)
qed

lemma reduce_leading_one: "n < 10 \<Longrightarrow> reduce_leading 0 [n] = (True, [], n)"
proof -
  assume n: "n < 10"
  then have "unat n < 10" by (simp add: word_less_nat_alt)
  then have "AddAndCheckOverflow 0 n = (True, n)" using check_add [of 0 n] by simp
  then show ?thesis using check_mult [of 0 10] n by (simp add: leD)
qed

lemma groups_small:
  assumes "list_all (\<lambda>n. n < (10 :: word64)) (groups_numbers gs)" "\<forall>g \<in> set gs. group_ok g" "length gs \<le> 5" "0 < groups_value gs"
  shows "groups_numbers gs = [of_nat (groups_value gs)] \<and> groups_value gs < 10"
  using assms
proof (induction gs)
  case (Cons g gs)
  obtain d3 d2 d1 d0 where g: "g = (d3, d2, d1, d0)" by (cases g) auto
  show ?case
  proof (cases "group_value g = 0")
    case True
    then show ?thesis using Cons g by simp
  next
    case v: False
    have "gs = []"
    proof (rule ccontr)
      assume "gs \<noteq> []"
      then have k: "1 \<le> length gs" "length gs \<le> 4" using Cons.prems(3) by (cases gs; simp)+
      have "\<not> (of_nat (10000 ^ length gs) :: word64) < 10"
        using base_word [OF k] power_increasing [of 1 "length gs" "10000 :: nat"] k by (simp add: word_less_nat_alt)
      then show False using Cons.prems(1) v \<open>gs \<noteq> []\<close> g by (auto simp del: of_nat_power group_value.simps)
    qed
    moreover have "d3 = 0 \<and> d2 = 0 \<and> d1 = 0 \<and> d0 \<noteq> 0"
      using Cons.prems(1) v g by (auto simp: group_numbers_def rank_numbers_def split: if_splits)
    ultimately show ?thesis using Cons.prems(2) g by (simp add: group_numbers_def rank_numbers_def ones_numbers_def)
  qed
qed simp

lemma NormalizeNumbersHelper_groups:
  assumes "\<forall>g \<in> set gs. group_ok g" "length gs \<le> 5" "0 < groups_value gs" "groups_value gs < 2 ^ 64"
  shows "NormalizeNumbersHelper (groups_numbers gs) = Some (of_nat (groups_value gs))"
proof -
  have ne: "groups_numbers gs \<noteq> []"
    using assms(3)
  proof (induction gs rule: groups_numbers.induct)
    case (2 d3 d2 d1 d0 gs)
    then show ?case by (auto simp: group_numbers_def rank_numbers_def ones_numbers_def split: if_splits)
  qed simp
  show ?thesis
  proof (cases "list_all (\<lambda>n. n < 10) (groups_numbers gs)")
    case True
    from groups_small [OF this assms(1-3)] have g: "groups_numbers gs = [of_nat (groups_value gs)]" "groups_value gs < 10" by auto
    then have "(of_nat (groups_value gs) :: word64) < 10" using True by simp
    from reduce_leading_one [OF this] show ?thesis using g True
      by (simp add: NormalizeNumbersHelper_def InterpretNumbersAsBase10System_def ReduceLeadingNumbersAsBase10System_def)
  next
    case False
    have "length gs \<le> 1 \<or> 10000 ^ (length gs - 1) < unat (- 1 :: word64)"
    proof -
      have "(10000 :: nat) ^ (length gs - 1) \<le> 10000 ^ 4" using assms(2) by (intro power_increasing) auto
      then show ?thesis by (simp add: unat_max)
    qed
    then show ?thesis using False ne japanese_loop_groups [OF assms(1-3), of 0 "- 1"] assms(4)
      by (simp add: NormalizeNumbersHelper_def InterpretNumbersInJapaneseWay_def)
  qed
qed

subsection \<open>Properties\<close>

lemma fill_length:
  fixes l :: nat
  defines "k \<equiv> (4 - l mod 4) mod 4 + l"
  shows "k mod 4 = 0" "l \<le> 20 \<Longrightarrow> k \<le> 20"
proof -
  define q r where "q = l div 4" and "r = l mod 4"
  have l: "l = 4 * q + r" "r < 4" by (simp_all add: q_def r_def)
  have k: "k = (4 - r) mod 4 + l" by (simp add: k_def r_def)
  have r: "r = 0 \<or> r = 1 \<or> r = 2 \<or> r = 3" using l(2) by linarith
  show "k mod 4 = 0" using r unfolding k l(1) by (elim disjE) (simp_all add: mod_simps)
  show "k \<le> 20" if "l \<le> 20" using r that unfolding k by (elim disjE) (simp_all add: l(1))
qed

lemma ArabicToKanji_groups:
  assumes "0 < n" "n < 2 ^ 64"
  obtains gs where "\<forall>g \<in> set gs. group_ok g" "length gs \<le> 5" "groups_value gs = n"
    "\<lparr>ns_value = groups_kanji gs, ns_description = nv_description kanji_variation, ns_style = NUMBER_KANJI\<rparr> \<in> set (snd (ArabicToKanji (decimal n) out))"
proof -
  let ?s = "decimal n"
  have l: "length ?s \<le> 20" using length_radix [of n 10 20] assms(2) by (simp add: decimal_def)
  have d: "list_all isdigit ?s" "?s \<noteq> []" using IsDecimalInteger_decimal [of n] by (simp_all add: IsDecimalInteger_def)
  have nz: "\<not> list_all (\<lambda>c. c = 0x30) ?s" using zero_digits [of ?s] assms(1) by (auto simp: digits_value_decimal)
  define fill where "fill = (4 - length ?s mod 4) mod 4"
  define inp where "inp = replicate fill 0x30 @ ?s"
  have "list_all isdigit (replicate k 0x30)" for k by (induction k) (simp_all add: isdigit_def)
  from this [of fill] have "list_all isdigit inp" using d(1) unfolding inp_def list_all_append ..
  moreover have li: "length inp = (4 - length ?s mod 4) mod 4 + length ?s" by (simp add: inp_def fill_def)
  have "length inp mod 4 = 0" unfolding li by (rule fill_length(1))
  then have "length inp = 4 * (length inp div 4)" using mult_div_mod_eq [of 4 "length inp"] by linarith
  ultimately obtain gs where gs: "inp = concat (map group_string gs)" "\<forall>g \<in> set gs. group_ok g" "length gs = length inp div 4"
    using groups_of_digits by blast
  have lg: "length gs \<le> 5" using fill_length(2) [OF l] unfolding gs(3) li by simp
  have v: "groups_value gs = n"
    using digits_value_groups [OF gs(2)] gs(1) digits_value_replicate [of fill ?s] by (simp add: inp_def digits_value_decimal)
  have "snd (ArabicToKanji ?s out) = out @ concat (map (kanji_strings inp (ranked_numbers inp)) kKanjiVariations)"
    using IsDecimalInteger_decimal [of n] nz l by (simp add: ArabicToKanji_def kNumKanjiBiggerRanks_def inp_def fill_def Let_def)
  moreover have "\<lparr>ns_value = groups_kanji gs, ns_description = nv_description kanji_variation, ns_style = NUMBER_KANJI\<rparr>
      \<in> set (kanji_strings inp (ranked_numbers inp) kanji_variation)"
    unfolding gs(1) ranked_numbers_groups kanji_strings_def by (simp add: kanji_variation_simps kanji_result_groups [OF gs(2)] Let_def)
  moreover have "kanji_variation \<in> set kKanjiVariations" by (rule nth_mem) (simp add: kKanjiVariations_def)
  ultimately show thesis using that [OF gs(2) lg v] by auto
qed

text \<open>
  \<open>C18\<close>: What is written in kanji is read back: for every positive number of 64 bits, the kanji string of
  \<^verbatim>\<open>ArabicToKanji\<close> is normalised to the decimal string of the number, and the kanji form of the reader is the same string.
\<close>

theorem NormalizeNumbers_ArabicToKanji:
  assumes "0 < n" "n < 2 ^ 64"
  shows "\<exists>k \<in> set (snd (ArabicToKanji (decimal n) out)). ns_style k = NUMBER_KANJI \<and>
    NormalizeNumbers (ns_value k) True = Some (ns_value k, decimal n)"
proof -
  obtain gs where gs: "\<forall>g \<in> set gs. group_ok g" "length gs \<le> 5" "groups_value gs = n"
    "\<lparr>ns_value = groups_kanji gs, ns_description = nv_description kanji_variation, ns_style = NUMBER_KANJI\<rparr> \<in> set (snd (ArabicToKanji (decimal n) out))"
    by (rule ArabicToKanji_groups [OF assms])
  have "NormalizeNumbersHelper (groups_numbers gs) = Some (of_nat n)"
    using NormalizeNumbersHelper_groups [OF gs(1,2)] gs(3) assms by simp
  moreover have "groups_numbers gs \<noteq> []" using calculation by (auto simp: NormalizeNumbersHelper_def)
  moreover have "unat (of_nat n :: word64) = n" using assms(2) by (simp add: unsigned_of_nat take_bit_nat_eq_self)
  ultimately have "NormalizeNumbers (groups_kanji gs) True = Some (groups_kanji gs, decimal n)"
    by (simp add: NormalizeNumbers_def NormalizeNumbersInternal_def number_chars_groups [OF gs(1,2)] Let_def)
  then show ?thesis using gs(4) by (intro bexI) simp_all
qed

theorem NormalizeNumbers_ArabicToKanji_witness:
  "\<exists>k \<in> set (snd (ArabicToKanji (decimal 12034) [])). ns_style k = NUMBER_KANJI \<and>
    NormalizeNumbers (ns_value k) True = Some (ns_value k, [0x31, 0x32, 0x30, 0x33, 0x34])"
  using NormalizeNumbers_ArabicToKanji [of 12034 "[]"] by (simp add: decimal_def radix.simps)

text \<open>Reading plain digits, with the checks of overflow.\<close>

lemma unat_u64: "unat (a :: word64) < 2 ^ 64" using unsigned_less [where 'a = nat, of a] by simp

lemma AddAndCheckOverflow_iff: "AddAndCheckOverflow a b = (unat a + unat b < 2 ^ 64, a + b)"
proof -
  have "unat a < 2 ^ 64" by (rule unat_u64)
  then have "unat (- 1 - a :: word64) = 2 ^ 64 - 1 - unat a" by (simp add: unat_sub word_order.extremum unat_max)
  then show ?thesis using \<open>unat a < 2 ^ 64\<close> by (auto simp: AddAndCheckOverflow_def word_less_nat_alt not_less)
qed

lemma MultiplyAndCheckOverflow_iff: "MultiplyAndCheckOverflow a b = (unat a * unat b < 2 ^ 64, a * b)"
proof (cases "a = 0")
  case False
  then have "0 < unat a" by (simp add: unat_gt_0)
  then have "unat b \<le> (2 ^ 64 - 1) div unat a \<longleftrightarrow> unat a * unat b < 2 ^ 64"
    by (simp add: less_eq_div_iff_mult_less_eq mult.commute) arith
  then show ?thesis using False by (simp add: MultiplyAndCheckOverflow_def word_less_nat_alt unat_div unat_max not_less)
qed (simp add: MultiplyAndCheckOverflow_def)

definition numbers_value :: "nat \<Rightarrow> word64 list \<Rightarrow> nat" where
  "numbers_value v ns = fold (\<lambda>d v. 10 * v + unat d) ns v"

lemma numbers_value_ge: "v \<le> numbers_value v ns"
proof (induction ns arbitrary: v)
  case (Cons n ns)
  have "v \<le> 10 * v + unat n" by simp
  also have "\<dots> \<le> numbers_value v (n # ns)" using Cons [of "10 * v + unat n"] by (simp add: numbers_value_def)
  finally show ?case .
qed (simp add: numbers_value_def)

lemma reduce_leading_digits:
  assumes "\<forall>n \<in> set ns. n < 10"
  shows "numbers_value (unat out) ns < 2 ^ 64 \<Longrightarrow> reduce_leading out ns = (True, [], of_nat (numbers_value (unat out) ns))"
    "numbers_value (unat out) ns \<ge> 2 ^ 64 \<Longrightarrow> fst (reduce_leading out ns) = False"
  using assms
proof (induction ns arbitrary: out)
  case (Cons n ns)
  { case 1
    then have "numbers_value (10 * unat out + unat n) ns < 2 ^ 64" by (simp add: numbers_value_def)
    moreover from this have s: "unat out * 10 + unat n < 2 ^ 64" using numbers_value_ge [of "10 * unat out + unat n" ns] by linarith
    then have "unat (out * 10) = unat out * 10" by (simp add: unat_mult_lem [THEN iffD1])
    moreover from this s have "unat (out * 10 + n) = unat out * 10 + unat n" by (simp add: unat_add_lem [THEN iffD1])
    ultimately show ?case using 1 Cons.IH(1) [of "out * 10 + n"] s
      by (simp add: MultiplyAndCheckOverflow_iff AddAndCheckOverflow_iff numbers_value_def not_le mult.commute)
  next
    case 2
    show ?case
    proof (cases "unat out * 10 + unat n < 2 ^ 64")
      case True
      then have "unat (out * 10) = unat out * 10" by (simp add: unat_mult_lem [THEN iffD1])
      moreover from this True have "unat (out * 10 + n) = unat out * 10 + unat n" by (simp add: unat_add_lem [THEN iffD1])
      ultimately show ?thesis using 2 Cons.IH(2) [of "out * 10 + n"] True
        by (simp add: MultiplyAndCheckOverflow_iff AddAndCheckOverflow_iff numbers_value_def not_le mult.commute)
    next
      case False
      show ?thesis
      proof (cases "unat out * 10 < 2 ^ 64")
        case True
        then have "unat (out * 10) = unat out * 10" by (simp add: unat_mult_lem [THEN iffD1])
        then show ?thesis using 2 False by (simp add: MultiplyAndCheckOverflow_iff AddAndCheckOverflow_iff not_le)
      qed (use 2 in \<open>simp add: MultiplyAndCheckOverflow_iff not_le\<close>)
    qed }
qed (use unat_u64 in \<open>auto simp: numbers_value_def not_le [symmetric]\<close>)

lemma digit_number:
  assumes "isdigit c"
  shows "map_of kanjinumber_table c = Some (of_nat (c - 0x30))" "(of_nat (c - 0x30) :: word64) < 10" "unat (of_nat (c - 0x30) :: word64) = c - 0x30"
proof -
  have "c = 0x30 \<or> c = 0x31 \<or> c = 0x32 \<or> c = 0x33 \<or> c = 0x34 \<or> c = 0x35 \<or> c = 0x36 \<or> c = 0x37 \<or> c = 0x38 \<or> c = 0x39"
    using assms unfolding isdigit_def by presburger
  then show "map_of kanjinumber_table c = Some (of_nat (c - 0x30))" "(of_nat (c - 0x30) :: word64) < 10" "unat (of_nat (c - 0x30) :: word64) = c - 0x30"
    by (elim disjE; simp add: kanjinumber_table_def)+
qed

lemma number_chars_digits:
  "list_all isdigit s \<Longrightarrow> number_chars b s = Some (concat (map kanji_char s), map (\<lambda>c. of_nat (c - 0x30)) s, [])"
  by (induction s) (simp_all add: digit_number(1))

lemma numbers_value_digits: "list_all isdigit s \<Longrightarrow> numbers_value v (map (\<lambda>c. of_nat (c - 0x30)) s) = v * 10 ^ length s + digits_value s"
proof (induction s rule: rev_induct)
  case (snoc c s)
  then show ?case by (simp add: numbers_value_def digits_value_snoc digit_number(3))
qed (simp add: numbers_value_def digits_value_def)

text \<open>
  \<open>C38\<close>: A string of plain digits is read as its decimal value if that has 64 bits, and refused if not: the checks of
  overflow are exact.
\<close>

theorem NormalizeNumbers_digits:
  assumes "IsDecimalInteger s"
  shows "NormalizeNumbers s True =
    (if digits_value s < 2 ^ 64 then Some (concat (map kanji_char s), decimal (digits_value s)) else None)"
proof -
  let ?ns = "map (\<lambda>c. of_nat (c - 0x30)) s :: word64 list"
  have s: "list_all isdigit s" "s \<noteq> []" using assms by (simp_all add: IsDecimalInteger_def)
  have ns: "\<forall>n \<in> set ?ns. n < 10" using s(1) digit_number(2) by (auto simp: list_all_iff)
  have v: "numbers_value (unat (0 :: word64)) ?ns = digits_value s" using numbers_value_digits [OF s(1), of 0] by simp
  have "NormalizeNumbersHelper ?ns = (if digits_value s < 2 ^ 64 then Some (of_nat (digits_value s)) else None)"
  proof (cases "digits_value s < 2 ^ 64")
    case True
    then show ?thesis using reduce_leading_digits(1) [of ?ns 0, OF ns] ns s(2) unfolding v
      by (simp add: NormalizeNumbersHelper_def InterpretNumbersAsBase10System_def ReduceLeadingNumbersAsBase10System_def list_all_iff)
  next
    case False
    then have "fst (reduce_leading 0 ?ns) = False" using reduce_leading_digits(2) [of ?ns 0, OF ns] unfolding v by simp
    then show ?thesis using ns s(2) False
      by (cases "reduce_leading 0 ?ns") (simp add: NormalizeNumbersHelper_def InterpretNumbersAsBase10System_def ReduceLeadingNumbersAsBase10System_def list_all_iff)
  qed
  moreover have "digits_value s < 2 ^ 64 \<Longrightarrow> unat (of_nat (digits_value s) :: word64) = digits_value s"
    by (simp add: unsigned_of_nat take_bit_nat_eq_self)
  ultimately show ?thesis using s by (simp add: NormalizeNumbers_def NormalizeNumbersInternal_def number_chars_digits Let_def)
qed

theorem NormalizeNumbers_digits_witness:
  "NormalizeNumbers [0x39, 0x39, 0x39, 0x39, 0x39, 0x39, 0x39, 0x39, 0x39, 0x39, 0x39, 0x39, 0x39, 0x39, 0x39, 0x39, 0x39, 0x39, 0x39, 0x39] True = None \<and>
    NormalizeNumbers [0x30, 0x31, 0x32] True = Some ([0x3007, 0x4E00, 0x4E8C], [0x31, 0x32])"
  (is "NormalizeNumbers ?big True = None \<and> _")
proof -
  have "IsDecimalInteger ?big" "IsDecimalInteger [0x30, 0x31, 0x32]" by (simp_all add: IsDecimalInteger_def isdigit_def)
  moreover have "digits_value ?big = 99999999999999999999" "digits_value [0x30, 0x31, 0x32] = 12" by (simp_all add: digits_value_def)
  ultimately have "NormalizeNumbers ?big True = None" "NormalizeNumbers [0x30, 0x31, 0x32] True = Some (concat (map kanji_char [0x30, 0x31, 0x32]), decimal 12)"
    using NormalizeNumbers_digits by simp_all
  then show ?thesis by (simp add: kanji_char_def isdigit_def kNumKanjiDigits_def decimal_def radix.simps)
qed

text \<open>
  \<open>C39\<close>: The reader forgets digits. After the character for 1000, a run of plain digits with a value of 1000 or more cannot
  be interpreted, and the code moves to the end to fail, as it does elsewhere; but as the 1000 was read before, the whole is taken
  for 1000, whatever the digits are.
\<close>

theorem NormalizeNumbers_drops_digits:
  assumes "IsDecimalInteger s" "hd s \<noteq> 0x30" "1000 \<le> digits_value s"
  shows "\<exists>kanji. NormalizeNumbers (0x5343 # s) True = Some (kanji, decimal 1000)"
proof -
  let ?ns = "map (\<lambda>c. of_nat (c - 0x30)) s :: word64 list"
  have s: "list_all isdigit s" using assms(1) by (simp add: IsDecimalInteger_def)
  have ns: "\<forall>n \<in> set ?ns. n < 10" using s digit_number(2) by (auto simp: list_all_iff)
  have v: "numbers_value (unat (0 :: word64)) ?ns = digits_value s" using numbers_value_digits [OF s, of 0] by simp
  obtain c d t where cd: "s = c # d # t"
  proof (cases s)
    case (Cons c t)
    then show thesis using assms(3) s that by (cases t) (auto simp: digits_value_def isdigit_def)
  qed (use assms(1) in \<open>simp add: IsDecimalInteger_def\<close>)
  have c0: "(of_nat (c - 0x30) :: word64) \<noteq> 0"
  proof
    assume "(of_nat (c - 0x30) :: word64) = 0"
    then have "c - 0x30 = 0" using digit_number(3) [of c] s cd by simp
    then show False using assms(2) s cd by (auto simp: isdigit_def)
  qed
  have r: "case reduce_leading 0 ?ns of (ok, ns', num) \<Rightarrow> \<not> ok \<or> num \<ge> 1000"
  proof (cases "digits_value s < 2 ^ 64")
    case True
    then have "unat (of_nat (digits_value s) :: word64) = digits_value s" by (simp add: unsigned_of_nat take_bit_nat_eq_self)
    then have "(1000 :: word64) \<le> of_nat (digits_value s)" using assms(3) by (simp add: word_le_nat_alt)
    then show ?thesis using reduce_leading_digits(1) [of ?ns 0, OF ns] True unfolding v by simp
  next
    case False
    then have "fst (reduce_leading 0 ?ns) = False" using reduce_leading_digits(2) [of ?ns 0, OF ns] unfolding v by simp
    then show ?thesis by (cases "reduce_leading 0 ?ns") simp
  qed
  have lt: "(of_nat (c - 0x30) :: word64) < 10" "(of_nat (d - 0x30) :: word64) < 10" using ns cd by auto
  have d0: "dropWhile (\<lambda>n. n = 0) ?ns = ?ns" using c0 cd by simp
  have H: "\<exists>n. ReduceDigitsHelper ?ns 100 = (False, [], n)"
    using r lt d0 unfolding ReduceDigitsHelper_def ReduceLeadingNumbersAsBase10System_def Let_def
    by (cases "reduce_leading 0 ?ns") (auto simp: cd)
  then obtain n where "ReduceDigitsHelper ?ns 100 = (False, [], n)" by blast
  moreover have "ReduceDigitsHelper (1000 # ?ns) 1000 = (True, ?ns, 1000)" by (simp add: ReduceDigitsHelper_def)
  ultimately have "ReduceNumberLessThan10000 (1000 # ?ns) = (True, [], 1000)"
    by (simp add: ReduceNumberLessThan10000_def Let_def ReduceDigitsHelper_def ReduceOnesDigit_def)
  then have "NormalizeNumbersHelper (1000 # ?ns) = Some 1000"
    by (simp add: NormalizeNumbersHelper_def InterpretNumbersInJapaneseWay_def japanese_loop.simps AddAndCheckOverflow_iff)
  then show ?thesis
    by (simp add: NormalizeNumbers_def NormalizeNumbersInternal_def number_chars_digits [OF s] Let_def kanjinumber_table_def)
qed

theorem NormalizeNumbers_drops_digits_witness:
  "\<exists>kanji. NormalizeNumbers [0x5343, 0x32, 0x33, 0x34, 0x35] True = Some (kanji, [0x31, 0x30, 0x30, 0x30])"
proof -
  have "IsDecimalInteger [0x32, 0x33, 0x34, 0x35]" "digits_value [0x32, 0x33, 0x34, 0x35] = 2345"
    by (simp_all add: IsDecimalInteger_def isdigit_def digits_value_def)
  from NormalizeNumbers_drops_digits [OF this(1)] this(2) show ?thesis by (simp add: decimal_def radix.simps)
qed

text \<open>
  The separators: half-width strings get a comma before every third digit from the right. A number without an integral part,
  like ".5" or the empty string, passes the test at the beginning, and the code reads the first character of an empty string.
\<close>

theorem ArabicToSeparatedArabic_undefined:
  "ArabicToSeparatedArabic s out = None \<longleftrightarrow> s = [] \<or> (hd s = 0x2E \<and> IsDecimalNumber s)"
  by (cases s) (auto simp: ArabicToSeparatedArabic_def IsDecimalNumber_def Let_def)

lemma half_width_digit: "isdigit c \<Longrightarrow> kNumHalfWidthDigits ! (c - 0x30) = [c]"
proof -
  assume "isdigit c"
  then have "c = 0x30 \<or> c = 0x31 \<or> c = 0x32 \<or> c = 0x33 \<or> c = 0x34 \<or> c = 0x35 \<or> c = 0x36 \<or> c = 0x37 \<or> c = 0x38 \<or> c = 0x39"
    unfolding isdigit_def by presburger
  then show ?thesis by (elim disjE; simp add: kNumHalfWidthDigits_def)
qed

lemma separated_digits:
  assumes "list_all isdigit s" "i \<le> length s"
  shows "filter isdigit (concat (map (\<lambda>j. (if j \<noteq> 0 \<and> (length s - j) mod 3 = 0 then [0x2C] else []) @ kNumHalfWidthDigits ! (s ! j - 0x30)) [0..<i])) = take i s"
  using assms(2)
proof (induction i)
  case (Suc i)
  have d: "isdigit (s ! i)" using assms(1) Suc.prems by (simp add: list_all_length)
  then show ?case using Suc half_width_digit [OF d] by (simp add: take_Suc_conv_app_nth isdigit_def)
qed simp

theorem ArabicToSeparatedArabic_digits:
  assumes "IsDecimalInteger s" "hd s \<noteq> 0x30"
  shows "\<exists>k rest. ArabicToSeparatedArabic s out = Some (True, out @ k # rest) \<and> ns_style k = NUMBER_SEPARATED_ARABIC_HALFWIDTH \<and>
    filter isdigit (ns_value k) = s"
proof -
  have s: "list_all isdigit s" "s \<noteq> []" using assms(1) by (simp_all add: IsDecimalInteger_def)
  have nd: "\<forall>c \<in> set s. c \<noteq> 0x2E" using s(1) by (auto simp: list_all_iff isdigit_def)
  have dn: "IsDecimalNumber s" using s(1) nd by (auto simp: IsDecimalNumber_def list_all_iff filter_empty_conv)
  have tw: "takeWhile (\<lambda>c. c \<noteq> 0x2E) s = s" "dropWhile (\<lambda>c. c \<noteq> 0x2E) s = []" using nd by (auto simp: takeWhile_eq_all_conv dropWhile_eq_Nil_conv)
  have "ArabicToSeparatedArabic s out = Some (True, out @ map (\<lambda>v. \<lparr>ns_value = separated v s [], ns_description = nv_description v,
      ns_style = nv_style v\<rparr>) kNumDigitsVariations)"
    using s(2) assms(2) unfolding ArabicToSeparatedArabic_def tw Let_def by (simp add: dn)
  moreover have "filter isdigit (separated (kNumDigitsVariations ! 0) s []) = s"
    using separated_digits [OF s(1), of "length s"] by (simp add: separated_def kNumDigitsVariations_def del: upt_Suc cong: if_cong)
  ultimately show ?thesis by (simp add: kNumDigitsVariations_def)
qed

end
