(* ===== verification/Segments.thy ===== *)
theory Segments
  imports InnerSegment NumberUtil
begin

section \<open>Candidates and segments\<close>

text \<open>
  \<^verbatim>\<open>converter/candidate.h\<close>, \<^verbatim>\<open>converter/candidate.cc\<close>, \<^verbatim>\<open>converter/segments.h\<close>, \<^verbatim>\<open>converter/segments.cc\<close>: the result of a
  conversion, a list of segments with their candidates. A candidate or segment is its value: the pools that own the memory, the
  fields for debugging and the printing of them are left out. A function that returns a pointer for the caller to write through
  takes the write as an argument or returns the position. Indices are below \<open>2 ^ 31\<close>, as the casts to \<^verbatim>\<open>int\<close> assume. \<open>None\<close> is
  undefined behaviour (an index out of range, a null pointer) or a failed \<^verbatim>\<open>CHECK\<close>; the checks of debug builds are not made.
\<close>

subsection \<open>Candidates\<close>

datatype Command = DEFAULT_COMMAND | ENABLE_INCOGNITO_MODE | DISABLE_INCOGNITO_MODE | ENABLE_PRESENTATION_MODE
  | DISABLE_PRESENTATION_MODE

datatype Category = DEFAULT_CATEGORY | SYMBOL | OTHER

record Candidate =
  ca_key :: ustr
  ca_value :: ustr
  ca_content_key :: ustr
  ca_content_value :: ustr
  ca_consumed_key_size :: nat
  ca_prefix :: ustr
  ca_suffix :: ustr
  ca_description :: ustr
  ca_a11y_description :: ustr
  ca_display_value :: ustr
  ca_usage_id :: int
  ca_usage_title :: ustr
  ca_usage_description :: ustr
  ca_cost :: int
  ca_wcost :: int
  ca_structure_cost :: int
  ca_lid :: nat
  ca_rid :: nat
  ca_attributes :: "32 word"
  ca_category :: Category
  ca_style :: Style
  ca_command :: Command
  ca_inner_segment_boundary :: InnerSegmentBoundary
  ca_cost_before_rescoring :: int

definition NewCandidate :: Candidate where
  "NewCandidate = \<lparr>ca_key = [], ca_value = [], ca_content_key = [], ca_content_value = [], ca_consumed_key_size = 0, ca_prefix = [],
     ca_suffix = [], ca_description = [], ca_a11y_description = [], ca_display_value = [], ca_usage_id = 0, ca_usage_title = [],
     ca_usage_description = [], ca_cost = 0, ca_wcost = 0, ca_structure_cost = 0, ca_lid = 0, ca_rid = 0, ca_attributes = 0,
     ca_category = DEFAULT_CATEGORY, ca_style = DEFAULT_STYLE, ca_command = DEFAULT_COMMAND, ca_inner_segment_boundary = [],
     ca_cost_before_rescoring = 0\<rparr>"

definition Candidate_Clear :: "Candidate \<Rightarrow> Candidate" where
  "Candidate_Clear c = c\<lparr>ca_key := [], ca_value := [], ca_content_value := [], ca_content_key := [], ca_consumed_key_size := 0,
     ca_prefix := [], ca_suffix := [], ca_description := [], ca_display_value := [], ca_usage_title := [],
     ca_usage_description := [], ca_cost := 0, ca_structure_cost := 0, ca_wcost := 0, ca_lid := 0, ca_rid := 0, ca_usage_id := 0,
     ca_attributes := 0, ca_style := DEFAULT_STYLE, ca_command := DEFAULT_COMMAND, ca_inner_segment_boundary := []\<rparr>"

definition functional_key :: "Candidate \<Rightarrow> ustr" where
  "functional_key c = byte_drop (min (byte_size (ca_key c)) (byte_size (ca_content_key c))) (ca_key c)"

definition functional_value :: "Candidate \<Rightarrow> ustr" where
  "functional_value c = byte_drop (min (byte_size (ca_value c)) (byte_size (ca_content_value c))) (ca_value c)"

definition inner_segments :: "Candidate \<Rightarrow> IteratorData" where
  "inner_segments c = NewInnerSegmentsContent (encode_ustr (ca_key c)) (encode_ustr (ca_value c)) (encode_ustr (ca_content_key c))
     (encode_ustr (ca_content_value c)) (ca_inner_segment_boundary c)"

text \<open>Clearing a candidate does not make it a new one: three of its members stay.\<close>

lemma Candidate_Clear_keeps:
  "Candidate_Clear c = NewCandidate\<lparr>ca_a11y_description := ca_a11y_description c, ca_category := ca_category c,
     ca_cost_before_rescoring := ca_cost_before_rescoring c\<rparr>"
  by (simp add: Candidate_Clear_def NewCandidate_def)

subsection \<open>A segment and its candidates\<close>

datatype SegmentType = FREE | FIXED_BOUNDARY | FIXED_VALUE | SUBMITTED | HISTORY

record Segment =
  sg_segment_type :: SegmentType
  sg_key :: ustr
  sg_key_len :: nat
  sg_candidates :: "Candidate list"
  sg_meta_candidates :: "Candidate list"

definition NewSegment :: Segment where
  "NewSegment = \<lparr>sg_segment_type = FREE, sg_key = [], sg_key_len = 0, sg_candidates = [], sg_meta_candidates = []\<rparr>"

definition set_key :: "ustr \<Rightarrow> Segment \<Rightarrow> Segment" where
  "set_key key s = s\<lparr>sg_key := key, sg_key_len := length key\<rparr>"

definition candidates_size :: "Segment \<Rightarrow> int" where "candidates_size s = int (length (sg_candidates s))"

definition clear_candidates :: "Segment \<Rightarrow> Segment" where "clear_candidates s = s\<lparr>sg_candidates := []\<rparr>"

definition push_back_candidate :: "Segment \<Rightarrow> Segment" where
  "push_back_candidate s = s\<lparr>sg_candidates := sg_candidates s @ [NewCandidate]\<rparr>"

definition push_front_candidate :: "Segment \<Rightarrow> Segment" where
  "push_front_candidate s = s\<lparr>sg_candidates := NewCandidate # sg_candidates s\<rparr>"

definition insert_at :: "nat \<Rightarrow> 'a \<Rightarrow> 'a list \<Rightarrow> 'a list" where
  "insert_at i x xs = take i xs @ x # drop i xs"

text \<open>The result has the position of the new candidate, or \<open>None\<close> for the null pointer.\<close>

definition insert_candidate :: "int \<Rightarrow> Segment \<Rightarrow> Segment \<times> nat option" where
  "insert_candidate i s =
     (if i < 0 then (s, None)
      else let i = (if i > candidates_size s then length (sg_candidates s) else nat i)
           in (s\<lparr>sg_candidates := insert_at i NewCandidate (sg_candidates s)\<rparr>, Some i))"

definition insert_candidate_value :: "int \<Rightarrow> Candidate \<Rightarrow> Segment \<Rightarrow> Segment" where
  "insert_candidate_value i candidate s =
     s\<lparr>sg_candidates := (if i \<le> 0 then candidate # sg_candidates s
                          else if i \<ge> candidates_size s then sg_candidates s @ [candidate]
                          else insert_at (nat i) candidate (sg_candidates s))\<rparr>"

definition copy_backward :: "nat \<Rightarrow> nat \<Rightarrow> nat \<Rightarrow> 'a list \<Rightarrow> 'a list" where
  "copy_backward first stop d_last xs = foldl (\<lambda>xs k. xs[d_last - Suc k := xs ! (stop - Suc k)]) xs [0..<stop - first]"

fun assign_from :: "nat \<Rightarrow> 'a list \<Rightarrow> 'a list \<Rightarrow> 'a list" where
  "assign_from i [] xs = xs"
| "assign_from i (c # cs) xs = assign_from (Suc i) cs (xs[i := c])"

text \<open>The vector of pointers is resized with null pointers.\<close>

definition insert_candidates :: "int \<Rightarrow> Candidate list \<Rightarrow> Segment \<Rightarrow> Segment" where
  "insert_candidates i candidates s =
     (let i = (if i < 0 then 0 else if i > candidates_size s then length (sg_candidates s) else nat i);
          orig_size = length (sg_candidates s);
          cs = map Some (sg_candidates s) @ replicate (length candidates) None;
          cs = copy_backward i orig_size (length cs) cs;
          cs = assign_from i (map Some candidates) cs
      in s\<lparr>sg_candidates := map the cs\<rparr>)"

definition pop_front_candidate :: "Segment \<Rightarrow> Segment" where
  "pop_front_candidate s = (if sg_candidates s \<noteq> [] then s\<lparr>sg_candidates := tl (sg_candidates s)\<rparr> else s)"

definition pop_back_candidate :: "Segment \<Rightarrow> Segment" where
  "pop_back_candidate s = (if sg_candidates s \<noteq> [] then s\<lparr>sg_candidates := butlast (sg_candidates s)\<rparr> else s)"

definition erase_range :: "nat \<Rightarrow> nat \<Rightarrow> 'a list \<Rightarrow> 'a list" where
  "erase_range first stop xs = take first xs @ drop stop xs"

definition erase_candidate :: "int \<Rightarrow> Segment \<Rightarrow> Segment" where
  "erase_candidate i s =
     (if i < 0 \<or> i \<ge> candidates_size s then s
      else s\<lparr>sg_candidates := erase_range (nat i) (Suc (nat i)) (sg_candidates s)\<rparr>)"

text \<open>The sum of position and number wraps around; an end before the beginning is undefined behaviour.\<close>

definition erase_candidates :: "int \<Rightarrow> 64 word \<Rightarrow> Segment \<Rightarrow> Segment option" where
  "erase_candidates i siz s =
     (let stop = of_int i + siz :: 64 word
      in if i < 0 \<or> i \<ge> candidates_size s \<or> unat stop > length (sg_candidates s) then Some s
         else if unat stop < nat i then None
         else Some (s\<lparr>sg_candidates := erase_range (nat i) (unat stop) (sg_candidates s)\<rparr>))"

definition meta_index :: "nat \<Rightarrow> Segment \<Rightarrow> nat" where
  "meta_index i s = (if i \<ge> length (sg_meta_candidates s) then 0 else i)"

definition meta_candidate :: "nat \<Rightarrow> Segment \<Rightarrow> Candidate option" where
  "meta_candidate i s = (if sg_meta_candidates s = [] then None else Some (sg_meta_candidates s ! meta_index i s))"

definition mutable_meta_candidate :: "nat \<Rightarrow> (Candidate \<Rightarrow> Candidate) \<Rightarrow> Segment \<Rightarrow> Segment option" where
  "mutable_meta_candidate i write s =
     (if sg_meta_candidates s = [] then None
      else Some (s\<lparr>sg_meta_candidates := (sg_meta_candidates s)[meta_index i s := write (sg_meta_candidates s ! meta_index i s)]\<rparr>))"

definition add_meta_candidate :: "Segment \<Rightarrow> Segment" where
  "add_meta_candidate s = s\<lparr>sg_meta_candidates := sg_meta_candidates s @ [NewCandidate]\<rparr>"

definition is_valid_index :: "int \<Rightarrow> Segment \<Rightarrow> bool" where
  "is_valid_index i s \<longleftrightarrow> (if i < 0 then - i - 1 < int (length (sg_meta_candidates s)) else i < candidates_size s)"

definition Segment_candidate :: "int \<Rightarrow> Segment \<Rightarrow> Candidate option" where
  "Segment_candidate i s =
     (if i < 0 then meta_candidate (nat (- i - 1)) s
      else if i < candidates_size s then Some (sg_candidates s ! nat i) else None)"

definition mutable_candidate :: "int \<Rightarrow> (Candidate \<Rightarrow> Candidate) \<Rightarrow> Segment \<Rightarrow> Segment option" where
  "mutable_candidate i write s =
     (if i < 0 then let meta_index = nat (- i - 1)
        in if meta_index < length (sg_meta_candidates s)
           then Some (s\<lparr>sg_meta_candidates := (sg_meta_candidates s)[meta_index := write (sg_meta_candidates s ! meta_index)]\<rparr>) else None
      else if i < candidates_size s
           then Some (s\<lparr>sg_candidates := (sg_candidates s)[nat i := write (sg_candidates s ! nat i)]\<rparr>) else None)"

definition promotion_loop :: "nat \<Rightarrow> nat \<Rightarrow> 'a list \<Rightarrow> 'a list" where
  "promotion_loop old_idx new_idx cs = foldl (\<lambda>cs i. cs[i := cs ! (i - 1)]) cs (rev [new_idx + 1..<old_idx + 1])"

definition demotion_loop :: "nat \<Rightarrow> nat \<Rightarrow> 'a list \<Rightarrow> 'a list" where
  "demotion_loop old_idx new_idx cs = foldl (\<lambda>cs i. cs[i := cs ! (i + 1)]) cs [old_idx..<new_idx]"

definition move_candidate :: "int \<Rightarrow> int \<Rightarrow> Segment \<Rightarrow> Segment option" where
  "move_candidate old_idx new_idx s =
     (if old_idx < 0 then
        let meta_idx = nat (- old_idx - 1) in
        (case insert_candidate new_idx s of
           (s', Some i) \<Rightarrow>
             if meta_idx < length (sg_meta_candidates s)
             then Some (s'\<lparr>sg_candidates := (sg_candidates s')[i := sg_meta_candidates s ! meta_idx]\<rparr>) else None
         | (s', None) \<Rightarrow> None)
      else if old_idx \<ge> candidates_size s \<or> new_idx \<ge> candidates_size s \<or> old_idx = new_idx then Some s
      else if new_idx < 0 then None
      else let oi = nat old_idx; n = nat new_idx; c = sg_candidates s ! oi;
               cs = (if oi > n then promotion_loop oi n (sg_candidates s) else demotion_loop oi n (sg_candidates s))
           in Some (s\<lparr>sg_candidates := cs[n := c]\<rparr>))"

definition Segment_Clear :: "Segment \<Rightarrow> Segment" where
  "Segment_Clear s = (clear_candidates s)\<lparr>sg_key := [], sg_key_len := 0, sg_meta_candidates := [], sg_segment_type := FREE\<rparr>"

subsection \<open>Segments\<close>

record Segments =
  ss_max_history_segments_size :: nat
  ss_resized :: bool
  ss_segments :: "Segment list"
  ss_revert_id :: "64 word"

definition NewSegments :: Segments where
  "NewSegments = \<lparr>ss_max_history_segments_size = 0, ss_resized = False, ss_segments = [], ss_revert_id = 0\<rparr>"

definition segments_size :: "Segments \<Rightarrow> nat" where "segments_size s = length (ss_segments s)"

text \<open>A segment from the pool is cleared.\<close>

definition insert_segment :: "nat \<Rightarrow> (Segment \<Rightarrow> Segment) \<Rightarrow> Segments \<Rightarrow> Segments option" where
  "insert_segment i write s =
     (if i > segments_size s then None
      else Some (s\<lparr>ss_segments := insert_at i (write NewSegment) (ss_segments s)\<rparr>))"

definition push_back_segment :: "(Segment \<Rightarrow> Segment) \<Rightarrow> Segments \<Rightarrow> Segments" where
  "push_back_segment write s = s\<lparr>ss_segments := ss_segments s @ [write NewSegment]\<rparr>"

definition push_front_segment :: "(Segment \<Rightarrow> Segment) \<Rightarrow> Segments \<Rightarrow> Segments" where
  "push_front_segment write s = s\<lparr>ss_segments := write NewSegment # ss_segments s\<rparr>"

definition is_history :: "Segment \<Rightarrow> bool" where
  "is_history seg \<longleftrightarrow> sg_segment_type seg = HISTORY \<or> sg_segment_type seg = SUBMITTED"

definition history_segments_size :: "Segments \<Rightarrow> nat" where
  "history_segments_size s = length (takeWhile is_history (ss_segments s))"

definition conversion_segments_size :: "Segments \<Rightarrow> nat" where
  "conversion_segments_size s = segments_size s - history_segments_size s"

definition Segments_segment :: "nat \<Rightarrow> Segments \<Rightarrow> Segment option" where
  "Segments_segment i s = (if i < segments_size s then Some (ss_segments s ! i) else None)"

definition mutable_segment :: "nat \<Rightarrow> (Segment \<Rightarrow> Segment) \<Rightarrow> Segments \<Rightarrow> Segments option" where
  "mutable_segment i write s =
     (if i < segments_size s then Some (s\<lparr>ss_segments := (ss_segments s)[i := write (ss_segments s ! i)]\<rparr>) else None)"

definition conversion_segment :: "nat \<Rightarrow> Segments \<Rightarrow> Segment option" where
  "conversion_segment i s = Segments_segment (i + history_segments_size s) s"

definition mutable_conversion_segment :: "nat \<Rightarrow> (Segment \<Rightarrow> Segment) \<Rightarrow> Segments \<Rightarrow> Segments option" where
  "mutable_conversion_segment i write s = mutable_segment (i + history_segments_size s) write s"

text \<open>A range of segments is a pair of positions.\<close>

type_synonym range = "nat \<times> nat"

definition range_size :: "range \<Rightarrow> int" where "range_size r = int (snd r) - int (fst r)"

definition range_elems :: "Segments \<Rightarrow> range \<Rightarrow> Segment list" where
  "range_elems s r = take (snd r - fst r) (drop (fst r) (ss_segments s))"

definition range_nth :: "Segments \<Rightarrow> range \<Rightarrow> int \<Rightarrow> Segment option" where
  "range_nth s r index = (if 0 \<le> index \<and> index < range_size r then Some (ss_segments s ! (fst r + nat index)) else None)"

definition range_front :: "Segments \<Rightarrow> range \<Rightarrow> Segment option" where
  "range_front s r = (if fst r = snd r then None else Some (ss_segments s ! fst r))"

definition range_back :: "Segments \<Rightarrow> range \<Rightarrow> Segment option" where
  "range_back s r = (if fst r = snd r then None else Some (ss_segments s ! (snd r - 1)))"

definition range_drop :: "int \<Rightarrow> range \<Rightarrow> range option" where
  "range_drop count r = (if count < 0 then None else Some (if count < range_size r then fst r + nat count else snd r, snd r))"

definition range_take :: "int \<Rightarrow> range \<Rightarrow> range option" where
  "range_take count r = (if count < 0 then None else Some (fst r, if count < range_size r then fst r + nat count else snd r))"

definition range_take_last :: "int \<Rightarrow> range \<Rightarrow> range option" where
  "range_take_last count r = (if count < 0 then None else range_drop (max 0 (range_size r - count)) r)"

definition range_subrange :: "int \<Rightarrow> int \<Rightarrow> range \<Rightarrow> range option" where
  "range_subrange index count r = Option.bind (range_drop index r) (range_take count)"

definition all_segments :: "Segments \<Rightarrow> range" where "all_segments s = (0, segments_size s)"
definition history_segments :: "Segments \<Rightarrow> range" where "history_segments s = (0, history_segments_size s)"
definition conversion_segments :: "Segments \<Rightarrow> range" where "conversion_segments s = (history_segments_size s, segments_size s)"

definition erase_segment :: "nat \<Rightarrow> Segments \<Rightarrow> Segments" where
  "erase_segment i s = (if i \<ge> segments_size s then s else s\<lparr>ss_segments := erase_range i (Suc i) (ss_segments s)\<rparr>)"

text \<open>The sum of position and number wraps around; an end before the beginning is undefined behaviour.\<close>

definition erase_segments :: "64 word \<Rightarrow> 64 word \<Rightarrow> Segments \<Rightarrow> Segments option" where
  "erase_segments i siz s =
     (let stop = i + siz
      in if unat i \<ge> segments_size s \<or> unat stop > segments_size s then Some s
         else if stop < i then None
         else Some (s\<lparr>ss_segments := erase_range (unat i) (unat stop) (ss_segments s)\<rparr>))"

definition pop_front_segment :: "Segments \<Rightarrow> Segments" where
  "pop_front_segment s = (if ss_segments s \<noteq> [] then s\<lparr>ss_segments := tl (ss_segments s)\<rparr> else s)"

definition pop_back_segment :: "Segments \<Rightarrow> Segments" where
  "pop_back_segment s = (if ss_segments s \<noteq> [] then s\<lparr>ss_segments := butlast (ss_segments s)\<rparr> else s)"

definition clear_segments :: "Segments \<Rightarrow> Segments" where
  "clear_segments s = s\<lparr>ss_resized := False, ss_segments := []\<rparr>"

function clear_history_segments :: "Segments \<Rightarrow> Segments" where
  "clear_history_segments s =
     (if ss_segments s = [] \<or> \<not> is_history (hd (ss_segments s)) then s else clear_history_segments (pop_front_segment s))"
  by auto
termination
  by (relation "measure (\<lambda>s. length (ss_segments s))") (auto simp: pop_front_segment_def)

declare clear_history_segments.simps [simp del]

definition clear_conversion_segments :: "Segments \<Rightarrow> Segments" where
  "clear_conversion_segments s =
     s\<lparr>ss_resized := False, ss_segments := erase_range (history_segments_size s) (segments_size s) (ss_segments s)\<rparr>"

definition set_max_history_segments_size :: "nat \<Rightarrow> Segments \<Rightarrow> Segments" where
  "set_max_history_segments_size n s = s\<lparr>ss_max_history_segments_size := max 0 (min n 32)\<rparr>"

definition Segments_Clear :: "Segments \<Rightarrow> Segments" where
  "Segments_Clear s = (clear_segments s)\<lparr>ss_revert_id := 0\<rparr>"

definition history_strings :: "(Candidate \<Rightarrow> ustr) \<Rightarrow> int \<Rightarrow> Segments \<Rightarrow> ustr option" where
  "history_strings get siz s =
     map_option (\<lambda>r. concat (map (\<lambda>seg. if sg_candidates seg = [] then [] else get (hd (sg_candidates seg))) (range_elems s r)))
       (if siz \<noteq> - 1 then range_take_last siz (history_segments s) else Some (history_segments s))"

definition history_key :: "int \<Rightarrow> Segments \<Rightarrow> ustr option" where "history_key = history_strings ca_key"
definition history_value :: "int \<Rightarrow> Segments \<Rightarrow> ustr option" where "history_value = history_strings ca_value"

definition InitForConvert :: "ustr \<Rightarrow> Segments \<Rightarrow> Segments" where
  "InitForConvert key s =
     push_back_segment (\<lambda>seg. (set_key key seg)\<lparr>sg_segment_type := FREE\<rparr>)
       (clear_conversion_segments (set_max_history_segments_size 4 s))"

definition InitForCommit :: "ustr \<Rightarrow> ustr \<Rightarrow> Segments \<Rightarrow> Segments" where
  "InitForCommit key value s =
     push_back_segment (\<lambda>seg. (set_key key seg)\<lparr>sg_segment_type := FIXED_VALUE,
         sg_candidates := sg_candidates seg @ [NewCandidate\<lparr>ca_key := key, ca_content_key := key, ca_value := value, ca_content_value := value\<rparr>]\<rparr>)
       (clear_conversion_segments s)"

fun prepend_loop :: "nat \<Rightarrow> Candidate list \<Rightarrow> Segment \<Rightarrow> Segment" where
  "prepend_loop i [] seg = seg"
| "prepend_loop i (c # cs) seg =
     (case insert_candidate (int i) seg of
        (seg', Some j) \<Rightarrow> prepend_loop (Suc i) cs (seg'\<lparr>sg_candidates := (sg_candidates seg')[j := c]\<rparr>)
      | (seg', None) \<Rightarrow> seg')"

definition PrependCandidates :: "Segment \<Rightarrow> Segments \<Rightarrow> Segments option" where
  "PrependCandidates previous_segment s =
     (let s = (if conversion_segments_size s = 0
               then push_back_segment (set_key (sg_key previous_segment)) (clear_conversion_segments s) else s)
      in mutable_conversion_segment 0
           (\<lambda>seg. (prepend_loop 0 (sg_candidates previous_segment) seg)\<lparr>sg_meta_candidates := sg_meta_candidates previous_segment\<rparr>) s)"

definition Utf8SubString :: "ustr \<Rightarrow> nat \<Rightarrow> nat \<Rightarrow> ustr" where
  "Utf8SubString s start len = take len (drop start s)"

fun gather_keys :: "Segment list \<Rightarrow> nat \<Rightarrow> ustr \<Rightarrow> nat \<Rightarrow> nat \<Rightarrow> ustr \<times> nat \<times> nat" where
  "gather_keys [] total_size key klen modified = (key, klen, modified)"
| "gather_keys (seg # segs) total_size key klen modified =
     (let key = key @ sg_key seg; klen = klen + sg_key_len seg; modified = modified + 1
      in if klen \<ge> total_size then (key, klen, modified) else gather_keys segs total_size key klen modified)"

fun cut_keys :: "nat list \<Rightarrow> ustr \<Rightarrow> nat \<Rightarrow> nat \<Rightarrow> ustr list \<times> nat" where
  "cut_keys [] key klen consumed = ([], consumed)"
| "cut_keys (new_size # new_sizes) key klen consumed =
     (if new_size \<noteq> 0 \<and> consumed < klen
      then (case cut_keys new_sizes key klen (consumed + new_size) of
              (keys, consumed') \<Rightarrow> (Utf8SubString key consumed new_size # keys, consumed'))
      else cut_keys new_sizes key klen consumed)"

fun insert_keys :: "nat \<Rightarrow> ustr list \<Rightarrow> Segments \<Rightarrow> Segments option" where
  "insert_keys i [] s = Some s"
| "insert_keys i (key # keys) s =
     Option.bind (insert_segment i (\<lambda>seg. set_key key (seg\<lparr>sg_segment_type := FIXED_BOUNDARY\<rparr>)) s) (insert_keys (Suc i) keys)"

text \<open>The rest of the key goes to the next segment.\<close>

definition prepend_rest :: "nat \<Rightarrow> ustr \<Rightarrow> Segments \<Rightarrow> Segments option" where
  "prepend_rest next_segment_index next_segment_key s =
     (let (next_segment_key, s) =
        (if next_segment_index < segments_size s
         then (next_segment_key @ sg_key (ss_segments s ! next_segment_index), erase_segment next_segment_index s)
         else (next_segment_key, s))
      in insert_segment next_segment_index (\<lambda>seg. set_key next_segment_key (seg\<lparr>sg_segment_type := FREE\<rparr>)) s)"

definition Resize :: "nat \<Rightarrow> nat list \<Rightarrow> Segments \<Rightarrow> (bool \<times> Segments) option" where
  "Resize start_index new_sizes s =
     (let total_size = sum_list new_sizes in
      if total_size = 0 then Some (False, s)
      else Option.bind (range_drop (int start_index) (all_segments s)) (\<lambda>r.
      let (key, klen, modified) = gather_keys (range_elems s r) total_size [] 0 0 in
      if klen = 0 \<or> klen < total_size then Some (False, s)
      else let (new_keys, consumed) = cut_keys new_sizes key klen 0 in
      Option.bind (erase_segments (of_nat start_index) (of_nat modified) s) (\<lambda>s.
      Option.bind (insert_keys start_index new_keys s) (\<lambda>s.
      Option.bind
        (if consumed < klen
         then prepend_rest (start_index + length new_keys) (Utf8SubString key consumed (klen - consumed)) s
         else Some s) (\<lambda>s. Some (True, s\<lparr>ss_resized := True\<rparr>))))))"

subsection \<open>Moving and inserting candidates\<close>

lemma promotion_loop_nth:
  "n + d < length cs \<Longrightarrow> length (promotion_loop (n + d) n cs) = length cs \<and>
     (\<forall>i < length cs. promotion_loop (n + d) n cs ! i = (if n < i \<and> i \<le> n + d then cs ! (i - 1) else cs ! i))"
proof (induction d arbitrary: cs)
  case (Suc d)
  let ?cs = "cs[Suc (n + d) := cs ! (n + d)]"
  have "promotion_loop (n + Suc d) n cs = promotion_loop (n + d) n ?cs" by (simp add: promotion_loop_def)
  then show ?case using Suc.IH [of ?cs] Suc.prems by (auto simp: nth_list_update le_Suc_eq)
qed (auto simp: promotion_loop_def)

lemma demotion_loop_nth:
  "n + d < length cs \<Longrightarrow> length (demotion_loop n (n + d) cs) = length cs \<and>
     (\<forall>i < length cs. demotion_loop n (n + d) cs ! i = (if n \<le> i \<and> i < n + d then cs ! (i + 1) else cs ! i))"
proof (induction d)
  case (Suc d)
  have "demotion_loop n (n + Suc d) cs = (demotion_loop n (n + d) cs)[n + d := demotion_loop n (n + d) cs ! (n + d + 1)]"
    by (simp add: demotion_loop_def)
  then show ?case using Suc by (auto simp: nth_list_update less_Suc_eq)
qed (auto simp: demotion_loop_def)

lemma insert_at_nth:
  "n \<le> length xs \<Longrightarrow> i \<le> length xs \<Longrightarrow> insert_at n x xs ! i = (if i < n then xs ! i else if i = n then x else xs ! (i - 1))"
  by (auto simp: insert_at_def nth_append nth_Cons' min_def)

lemma length_insert_at [simp]: "n \<le> length xs \<Longrightarrow> length (insert_at n x xs) = Suc (length xs)"
  by (simp add: insert_at_def)

lemma erase_one_nth: "k < length xs \<Longrightarrow> i < length xs - 1 \<Longrightarrow> erase_range k (Suc k) xs ! i = (if i < k then xs ! i else xs ! (i + 1))"
  by (auto simp: erase_range_def nth_append min_def)

lemma length_erase_one: "k < length xs \<Longrightarrow> length (erase_range k (Suc k) xs) = length xs - 1"
  by (simp add: erase_range_def)

lemma promotion_eq:
  assumes "n < k" "k < length cs"
  shows "(promotion_loop k n cs)[n := cs ! k] = insert_at n (cs ! k) (erase_range k (Suc k) cs)"
proof -
  obtain d where k: "k = n + d" using assms(1) less_imp_add_positive by blast
  note p = promotion_loop_nth [of n d cs, folded k, OF assms(2)]
  show ?thesis
  proof (rule nth_equalityI)
    show "length ((promotion_loop k n cs)[n := cs ! k]) = length (insert_at n (cs ! k) (erase_range k (Suc k) cs))"
      using p assms by (simp add: length_erase_one)
  next
    fix i assume "i < length ((promotion_loop k n cs)[n := cs ! k])"
    then have "i < length cs" using p by simp
    then show "(promotion_loop k n cs)[n := cs ! k] ! i = insert_at n (cs ! k) (erase_range k (Suc k) cs) ! i"
      using p assms by (auto simp: nth_list_update insert_at_nth length_erase_one erase_one_nth)
  qed
qed

lemma demotion_eq:
  assumes "k < n" "n < length cs"
  shows "(demotion_loop k n cs)[n := cs ! k] = insert_at n (cs ! k) (erase_range k (Suc k) cs)"
proof -
  obtain d where n: "n = k + d" using assms(1) less_imp_add_positive by blast
  note p = demotion_loop_nth [of k d cs, folded n, OF assms(2)]
  show ?thesis
  proof (rule nth_equalityI)
    show "length ((demotion_loop k n cs)[n := cs ! k]) = length (insert_at n (cs ! k) (erase_range k (Suc k) cs))"
      using p assms by (simp add: length_erase_one)
  next
    fix i assume "i < length ((demotion_loop k n cs)[n := cs ! k])"
    then have "i < length cs" using p by simp
    then show "(demotion_loop k n cs)[n := cs ! k] ! i = insert_at n (cs ! k) (erase_range k (Suc k) cs) ! i"
      using p assms by (auto simp: nth_list_update insert_at_nth length_erase_one erase_one_nth)
  qed
qed

lemma copy_loop_nth:
  "d \<le> n \<Longrightarrow> n + m = length xs \<Longrightarrow> length (copy_backward (n - d) n (n + m) xs) = length xs \<and>
     (\<forall>j < length xs. copy_backward (n - d) n (n + m) xs ! j = (if n + m - d \<le> j then xs ! (j - m) else xs ! j))"
proof (induction d)
  case (Suc d)
  let ?f = "copy_backward (n - d) n (n + m) xs"
  have "copy_backward (n - Suc d) n (n + m) xs = ?f[n + m - Suc d := ?f ! (n - Suc d)]"
    using Suc.prems(1) by (simp add: copy_backward_def)
  moreover have "n - Suc d < n + m - d" using Suc.prems(1) by simp
  moreover have "n + m - Suc d - m = n - Suc d" by simp
  ultimately show ?case using Suc by (auto simp: nth_list_update le_Suc_eq)
qed (simp add: copy_backward_def)

lemma assign_from_eq: "i + length cs \<le> length xs \<Longrightarrow> assign_from i cs xs = take i xs @ cs @ drop (i + length cs) xs"
proof (induction cs arbitrary: i xs)
  case (Cons c cs)
  then show ?case using Cons.IH [of "Suc i" "xs[i := c]"] by (simp add: take_Suc_conv_app_nth)
qed simp

lemma copy_backward_parts:
  fixes cs :: "'a list" and x :: 'a and m :: nat
  assumes "i \<le> length cs"
  defines "ys \<equiv> copy_backward i (length cs) (length cs + m) (cs @ replicate m x)"
  shows "length ys = length cs + m" "take i ys = take i cs" "drop (i + m) ys = drop i cs"
proof -
  let ?xs = "cs @ replicate m x"
  note p = copy_loop_nth [of "length cs - i" "length cs" m ?xs]
  show l: "length ys = length cs + m" using p assms(1) by (simp add: ys_def)
  have q: "ys ! j = (if i + m \<le> j then ?xs ! (j - m) else ?xs ! j)" if "j < length cs + m" for j
    using p assms(1) that by (simp add: ys_def algebra_simps)
  show "take i ys = take i cs"
    by (rule nth_equalityI) (use assms(1) l in \<open>auto simp: q nth_append\<close>)
  show "drop (i + m) ys = drop i cs"
    by (rule nth_equalityI) (use assms(1) l in \<open>auto simp: q nth_append\<close>)
qed

lemma insert_candidates_eq:
  "insert_candidates i new s =
     s\<lparr>sg_candidates := (let i = nat (min i (candidates_size s)) in take i (sg_candidates s) @ new @ drop i (sg_candidates s))\<rparr>"
proof -
  define k where "k = nat (min i (candidates_size s))"
  have k: "(if i < 0 then 0 else if i > candidates_size s then length (sg_candidates s) else nat i) = k" "k \<le> length (sg_candidates s)"
    by (auto simp: k_def candidates_size_def)
  show ?thesis
    using k(2) copy_backward_parts [of k "map Some (sg_candidates s)" "length new" None]
    by (simp add: insert_candidates_def k(1) Let_def assign_from_eq comp_def flip: k_def) (simp add: take_map drop_map comp_def)
qed

text \<open>
  \<open>C21\<close>: Moving and inserting candidates. The loops of \<open>move_candidate\<close> take the candidate out of the list and put it back at its
  new place, so that all others keep their order; for a negative index a copy of the meta candidate is inserted. The resizing,
  copying and assigning of \<open>insert_candidates\<close> puts the new candidates at the position, clamped to the list.
\<close>

theorem candidates_moved:
  fixes s :: Segment and old_idx new_idx :: int
  defines "cs \<equiv> sg_candidates s"
  shows "(0 \<le> old_idx \<and> old_idx < candidates_size s \<and> 0 \<le> new_idx \<and> new_idx < candidates_size s \<longrightarrow>
      move_candidate old_idx new_idx s =
        Some (s\<lparr>sg_candidates := (let rest = erase_range (nat old_idx) (nat old_idx + 1) cs
                                 in take (nat new_idx) rest @ cs ! nat old_idx # drop (nat new_idx) rest)\<rparr>)) \<and>
    (m < length (sg_meta_candidates s) \<and> 0 \<le> new_idx \<and> new_idx \<le> candidates_size s \<longrightarrow>
      move_candidate (- int m - 1) new_idx s =
        Some (s\<lparr>sg_candidates := take (nat new_idx) cs @ sg_meta_candidates s ! m # drop (nat new_idx) cs\<rparr>)) \<and>
    insert_candidates new_idx new s =
        s\<lparr>sg_candidates := (let i = nat (min new_idx (candidates_size s)) in take i cs @ new @ drop i cs)\<rparr>"
proof (intro conjI impI)
  assume a: "0 \<le> old_idx \<and> old_idx < candidates_size s \<and> 0 \<le> new_idx \<and> new_idx < candidates_size s"
  define k n where "k = nat old_idx" and "n = nat new_idx"
  have kn: "k < length cs" "n < length cs" "old_idx = int k" "new_idx = int n"
    using a by (auto simp: k_def n_def candidates_size_def cs_def nat_less_iff)
  have self: "insert_at k (cs ! k) (erase_range k (Suc k) cs) = cs"
    using kn by (simp add: insert_at_def erase_range_def min_def id_take_nth_drop [symmetric])
  have "move_candidate (int k) (int n) s = Some (s\<lparr>sg_candidates := insert_at n (cs ! k) (erase_range k (Suc k) cs)\<rparr>)"
    using kn promotion_eq [of n k cs] demotion_eq [of k n cs] self
    by (auto simp: move_candidate_def candidates_size_def Let_def cs_def)
  then show "move_candidate old_idx new_idx s =
        Some (s\<lparr>sg_candidates := (let rest = erase_range (nat old_idx) (nat old_idx + 1) cs
                                 in take (nat new_idx) rest @ cs ! nat old_idx # drop (nat new_idx) rest)\<rparr>)"
    using kn by (simp add: insert_at_def Let_def)
next
  assume "m < length (sg_meta_candidates s) \<and> 0 \<le> new_idx \<and> new_idx \<le> candidates_size s"
  then have "m < length (sg_meta_candidates s)" "0 \<le> new_idx" "new_idx \<le> candidates_size s" by blast+
  then show "move_candidate (- int m - 1) new_idx s =
        Some (s\<lparr>sg_candidates := take (nat new_idx) cs @ sg_meta_candidates s ! m # drop (nat new_idx) cs\<rparr>)"
    by (simp add: move_candidate_def insert_candidate_def candidates_size_def insert_at_def cs_def list_update_append min_def Let_def)
next
  show "insert_candidates new_idx new s =
        s\<lparr>sg_candidates := (let i = nat (min new_idx (candidates_size s)) in take i cs @ new @ drop i cs)\<rparr>"
    by (simp add: insert_candidates_eq cs_def)
qed

theorem candidates_moved_witness:
  fixes c
  defines "v \<equiv> \<lambda>n. NewCandidate\<lparr>ca_value := [n]\<rparr>"
  shows "move_candidate 2 0 (NewSegment\<lparr>sg_candidates := [v 1, v 2, v 3]\<rparr>) = Some (NewSegment\<lparr>sg_candidates := [v 3, v 1, v 2]\<rparr>)"
  using candidates_moved [of 2 "NewSegment\<lparr>sg_candidates := [v 1, v 2, v 3]\<rparr>" 0]
  by (simp add: candidates_size_def erase_range_def)

subsection \<open>Resizing\<close>

definition Segment_ok :: "Segment \<Rightarrow> bool" where "Segment_ok seg \<longleftrightarrow> sg_key_len seg = length (sg_key seg)"

lemma Segment_ok_set_key [simp]: "Segment_ok (set_key key seg)"
  by (simp add: Segment_ok_def set_key_def)

abbreviation keys_of :: "Segment list \<Rightarrow> ustr" where "keys_of segs \<equiv> concat (map sg_key segs)"

lemma gather_keys_eq:
  assumes "list_all Segment_ok segs" "segs \<noteq> []"
  obtains j where "0 < j" "j \<le> length segs"
    "gather_keys segs tot key klen m = (key @ keys_of (take j segs), klen + length (keys_of (take j segs)), m + j)"
    "tot \<le> klen + length (keys_of (take j segs)) \<or> j = length segs"
  using assms
proof (induction segs arbitrary: key klen m thesis)
  case (Cons seg segs)
  have len: "sg_key_len seg = length (sg_key seg)" using Cons.prems by (simp add: Segment_ok_def)
  show ?case
  proof (cases "klen + length (sg_key seg) \<ge> tot \<or> segs = []")
    case True
    then show ?thesis by (intro Cons.prems(1) [of 1]) (auto simp: len Let_def)
  next
    case False
    obtain j where "0 < j" "j \<le> length segs"
      "gather_keys segs tot (key @ sg_key seg) (klen + length (sg_key seg)) (m + 1) =
         ((key @ sg_key seg) @ keys_of (take j segs), klen + length (sg_key seg) + length (keys_of (take j segs)), m + 1 + j)"
      "tot \<le> klen + length (sg_key seg) + length (keys_of (take j segs)) \<or> j = length segs"
      using Cons.IH [where key = "key @ sg_key seg" and klen = "klen + length (sg_key seg)" and m = "m + 1"] Cons.prems False by auto
    then show ?thesis using False by (intro Cons.prems(1) [of "Suc j"]) (auto simp: len Let_def)
  qed
qed simp

lemma cut_keys_eq:
  "consumed + sum_list ns \<le> length key \<Longrightarrow>
   \<exists>ks. cut_keys ns key (length key) consumed = (ks, consumed + sum_list ns) \<and>
     concat ks = take (sum_list ns) (drop consumed key) \<and> map length ks = filter (\<lambda>n. n \<noteq> 0) ns"
proof (induction ns arbitrary: consumed)
  case (Cons n ns)
  show ?case
  proof (cases "n = 0")
    case False
    then obtain ks where "cut_keys ns key (length key) (consumed + n) = (ks, consumed + n + sum_list ns)"
      "concat ks = take (sum_list ns) (drop (consumed + n) key)" "map length ks = filter (\<lambda>n. n \<noteq> 0) ns"
      using Cons.IH [of "consumed + n"] Cons.prems by auto
    then show ?thesis using Cons.prems False
      by (auto simp: Utf8SubString_def take_add add.commute)
  qed (use Cons in simp)
qed simp

definition boundary_segment :: "ustr \<Rightarrow> Segment" where
  "boundary_segment key = set_key key (NewSegment\<lparr>sg_segment_type := FIXED_BOUNDARY\<rparr>)"

lemma insert_keys_eq:
  "i \<le> length (ss_segments s) \<Longrightarrow>
   insert_keys i keys s = Some (s\<lparr>ss_segments := take i (ss_segments s) @ map boundary_segment keys @ drop i (ss_segments s)\<rparr>)"
proof (induction keys arbitrary: i s)
  case (Cons key keys)
  then show ?case
    by (simp add: insert_segment_def segments_size_def insert_at_def min_def boundary_segment_def)
qed simp

lemma erase_segments_eq:
  assumes "segments_size s < 2 ^ 63" "i < segments_size s" "i + m \<le> segments_size s"
  shows "erase_segments (of_nat i) (of_nat m) s = Some (s\<lparr>ss_segments := erase_range i (i + m) (ss_segments s)\<rparr>)"
proof -
  have u: "unat (of_nat i :: 64 word) = i" "unat (of_nat i + of_nat m :: 64 word) = i + m"
    using assms by (simp_all add: unsigned_of_nat take_bit_nat_eq_self flip: of_nat_add)
  then show ?thesis using assms by (simp add: erase_segments_def Let_def word_less_nat_alt)
qed

definition free_segment :: "ustr \<Rightarrow> Segment" where
  "free_segment key = set_key key (NewSegment\<lparr>sg_segment_type := FREE\<rparr>)"

lemma prepend_rest_eq:
  "ss_segments s = A @ B \<Longrightarrow> prepend_rest (length A) key s =
     Some (s\<lparr>ss_segments := A @ (if B = [] then [free_segment key] else free_segment (key @ sg_key (hd B)) # tl B)\<rparr>)"
  by (cases B) (simp_all add: prepend_rest_def segments_size_def erase_segment_def erase_range_def insert_segment_def insert_at_def
      free_segment_def nth_append)

lemma Resize_eq:
  assumes "list_all Segment_ok (ss_segments s)" "segments_size s < 2 ^ 63" "sum_list ns \<noteq> 0"
    "sum_list ns \<le> length (keys_of (drop start (ss_segments s)))"
  obtains ks j where "map length ks = filter (\<lambda>n. n \<noteq> 0) ns" "start + j \<le> segments_size s"
    "concat ks = take (sum_list ns) (keys_of (take j (drop start (ss_segments s))))"
    "sum_list ns \<le> length (keys_of (take j (drop start (ss_segments s))))"
    "Resize start ns s = Some (True, s\<lparr>ss_resized := True, ss_segments :=
       take start (ss_segments s) @ map boundary_segment ks @
       (let rest = drop (sum_list ns) (keys_of (take j (drop start (ss_segments s))));
            segs = drop (start + j) (ss_segments s)
        in if rest = [] then segs
           else if segs = [] then [free_segment rest] else free_segment (rest @ sg_key (hd segs)) # tl segs)\<rparr>)"
proof -
  let ?segs = "drop start (ss_segments s)"
  have ne: "?segs \<noteq> []" using assms(3,4) by auto
  have start: "start < segments_size s" using ne by (simp add: segments_size_def)
  obtain j where j: "0 < j" "j \<le> length ?segs"
    "gather_keys ?segs (sum_list ns) [] 0 0 = (keys_of (take j ?segs), length (keys_of (take j ?segs)), j)"
    "sum_list ns \<le> length (keys_of (take j ?segs)) \<or> j = length ?segs"
  proof (rule gather_keys_eq [of ?segs "sum_list ns" "[]" 0 0])
    show "list_all Segment_ok ?segs" using assms(1) by (auto simp: list_all_iff dest: in_set_dropD)
  qed (use ne in auto)
  define key where "key = keys_of (take j ?segs)"
  have key: "sum_list ns \<le> length key" using j(4) assms(4) by (auto simp: key_def)
  obtain ks where ks: "cut_keys ns key (length key) 0 = (ks, sum_list ns)" "concat ks = take (sum_list ns) key"
    "map length ks = filter (\<lambda>n. n \<noteq> 0) ns"
    using cut_keys_eq [of 0 ns key] key by auto
  have sj: "start + j \<le> segments_size s" using j(2) start by (simp add: segments_size_def)
  have drp: "range_drop (int start) (all_segments s) = Some (start, segments_size s)"
    using start by (simp add: range_drop_def all_segments_def range_size_def)
  have elems: "range_elems s (start, segments_size s) = ?segs" by (simp add: range_elems_def segments_size_def)
  have len: "length ks = length (filter (\<lambda>n. n \<noteq> 0) ns)" using arg_cong [OF ks(3), of length] by simp
  define A B where "A = take start (ss_segments s) @ map boundary_segment ks" and "B = drop (start + j) (ss_segments s)"
  have lenA: "length A = start + length ks" using start by (simp add: A_def segments_size_def)
  have er: "erase_segments (of_nat start) (of_nat j) s = Some (s\<lparr>ss_segments := take start (ss_segments s) @ B\<rparr>)"
    using erase_segments_eq [OF assms(2) start sj] by (simp add: erase_range_def B_def)
  have ins: "insert_keys start ks (s\<lparr>ss_segments := take start (ss_segments s) @ B\<rparr>) = Some (s\<lparr>ss_segments := A @ B\<rparr>)"
    using start by (subst insert_keys_eq) (simp_all add: A_def segments_size_def)
  have "Resize start ns s = Some (True, s\<lparr>ss_resized := True, ss_segments := A @
       (let rest = drop (sum_list ns) key
        in if rest = [] then B
           else if B = [] then [free_segment rest] else free_segment (rest @ sg_key (hd B)) # tl B)\<rparr>)"
    using key assms(3) prepend_rest_eq [of "s\<lparr>ss_segments := A @ B\<rparr>" A B]
    by (auto simp: Resize_def drp elems j(3) ks(1) er ins Let_def lenA Utf8SubString_def simp flip: key_def)
  from that [OF ks(3) sj, folded key_def, OF ks(2) key, folded B_def] this show thesis
    by (simp add: A_def Let_def)
qed

lemma Resize_refused:
  assumes "list_all Segment_ok (ss_segments s)"
    "sum_list ns = 0 \<or> length (keys_of (drop start (ss_segments s))) < sum_list ns"
  shows "Resize start ns s = Some (False, s)"
proof (cases "sum_list ns = 0")
  case False
  let ?segs = "drop start (ss_segments s)"
  obtain r where r: "range_drop (int start) (all_segments s) = Some r" "range_elems s r = ?segs"
    by (cases "start < segments_size s") (auto simp: range_drop_def all_segments_def range_size_def range_elems_def segments_size_def)
  show ?thesis
  proof (cases "?segs = []")
    case True
    then show ?thesis using False by (simp add: Resize_def r Let_def)
  next
    case nonempty: False
    obtain j where j: "gather_keys ?segs (sum_list ns) [] 0 0 = (keys_of (take j ?segs), length (keys_of (take j ?segs)), j)"
    proof (rule gather_keys_eq [of ?segs "sum_list ns" "[]" 0 0])
      show "list_all Segment_ok ?segs" using assms(1) by (auto simp: list_all_iff dest: in_set_dropD)
    qed (use nonempty in auto)
    have "keys_of ?segs = keys_of (take j ?segs) @ keys_of (drop j ?segs)"
      by (metis append_take_drop_id concat_append map_append)
    then have "length (keys_of (take j ?segs)) < sum_list ns" using assms(2) False by auto
    then show ?thesis using False by (simp add: Resize_def r j Let_def)
  qed
qed (simp add: Resize_def)

lemma Resize_accepted:
  assumes "list_all Segment_ok (ss_segments s)" "segments_size s < 2 ^ 63" "sum_list ns \<noteq> 0"
    "sum_list ns \<le> length (keys_of (drop start (ss_segments s)))"
  obtains ks rest k where "map length ks = filter (\<lambda>n. n \<noteq> 0) ns"
    "Resize start ns s = Some (True, s\<lparr>ss_resized := True,
       ss_segments := take start (ss_segments s) @ map boundary_segment ks @ rest @ drop k (ss_segments s)\<rparr>)"
    "keys_of (take start (ss_segments s) @ map boundary_segment ks @ rest @ drop k (ss_segments s)) = keys_of (ss_segments s)"
    "list_all Segment_ok rest" "length rest \<le> 1" "list_all (\<lambda>seg. sg_segment_type seg = FREE \<and> sg_candidates seg = []) rest"
proof -
  let ?S = "ss_segments s"
  obtain ks j where r: "map length ks = filter (\<lambda>n. n \<noteq> 0) ns" "start + j \<le> segments_size s"
    "concat ks = take (sum_list ns) (keys_of (take j (drop start ?S)))"
    "Resize start ns s = Some (True, s\<lparr>ss_resized := True, ss_segments := take start ?S @ map boundary_segment ks @
       (let rest = drop (sum_list ns) (keys_of (take j (drop start ?S))); segs = drop (start + j) ?S
        in if rest = [] then segs
           else if segs = [] then [free_segment rest] else free_segment (rest @ sg_key (hd segs)) # tl segs)\<rparr>)"
    by (rule Resize_eq [OF assms])
  define left B where "left = drop (sum_list ns) (keys_of (take j (drop start ?S)))" and "B = drop (start + j) ?S"
  define rest where "rest = (if left = [] then [] else [free_segment (left @ (if B = [] then [] else sg_key (hd B)))])"
  define k where "k = (if left = [] \<or> B = [] then start + j else Suc (start + j))"
  let ?S' = "take start ?S @ map boundary_segment ks @ rest @ drop k ?S"
  have eq: "Resize start ns s = Some (True, s\<lparr>ss_resized := True, ss_segments := ?S'\<rparr>)"
    unfolding r(4) by (auto simp: rest_def k_def B_def Let_def drop_Suc tl_drop simp flip: left_def)
  have S: "?S = take start ?S @ take j (drop start ?S) @ B"
    by (simp add: B_def add.commute flip: drop_drop)
  have keys: "keys_of (map boundary_segment ks) = concat ks" by (simp add: boundary_segment_def set_key_def comp_def)
  have tail: "keys_of (rest @ drop k ?S) = left @ keys_of B"
    by (cases B) (auto simp: rest_def k_def free_segment_def set_key_def B_def drop_Suc simp flip: tl_drop)
  have "keys_of ?S' = keys_of (take start ?S) @ keys_of (map boundary_segment ks) @ keys_of (rest @ drop k ?S)" by simp
  then have "keys_of ?S' = keys_of (take start ?S) @ (concat ks @ left) @ keys_of B"
    by (simp only: tail keys append_assoc)
  also have "concat ks @ left = keys_of (take j (drop start ?S))" by (simp add: r(3) left_def)
  also have "keys_of (take start ?S) @ keys_of (take j (drop start ?S)) @ keys_of B = keys_of ?S"
    unfolding concat_append [symmetric] map_append [symmetric] S [symmetric] ..
  finally have all: "keys_of ?S' = keys_of ?S" .
  have "list_all Segment_ok rest" "length rest \<le> 1" "list_all (\<lambda>seg. sg_segment_type seg = FREE \<and> sg_candidates seg = []) rest"
    by (simp_all add: rest_def free_segment_def) (simp add: set_key_def NewSegment_def)
  then show thesis using that [of ks rest k, OF r(1) eq all] by blast
qed

text \<open>
  \<open>C19\<close>: Resizing segments moves boundaries only. If every segment has the length of its key, the call fails and changes nothing
  exactly if the new sizes are all 0 or ask for more characters than there are from the first segment on. Otherwise the
  segments together have the same key as before, those before the position stay, then come fixed segments with the sizes that
  were asked for (zeros skipped), and behind at most one free segment, with what is left of the key, the old segments go on.
\<close>

theorem Resize_correct:
  assumes "list_all Segment_ok (ss_segments s)" "segments_size s < 2 ^ 63"
  shows "if sum_list ns = 0 \<or> length (concat (map sg_key (drop start (ss_segments s)))) < sum_list ns
    then Resize start ns s = Some (False, s)
    else \<exists>s'. Resize start ns s = Some (True, s') \<and> ss_resized s' \<and> list_all Segment_ok (ss_segments s') \<and>
      concat (map sg_key (ss_segments s')) = concat (map sg_key (ss_segments s)) \<and>
      (\<exists>fixed rest j. ss_segments s' = take start (ss_segments s) @ fixed @ rest @ drop j (ss_segments s) \<and>
        map (\<lambda>seg. length (sg_key seg)) fixed = filter (\<lambda>n. n \<noteq> 0) ns \<and>
        list_all (\<lambda>seg. sg_segment_type seg = FIXED_BOUNDARY \<and> sg_candidates seg = []) fixed \<and>
        length rest \<le> 1 \<and> list_all (\<lambda>seg. sg_segment_type seg = FREE \<and> sg_candidates seg = []) rest)"
proof (cases "sum_list ns = 0 \<or> length (concat (map sg_key (drop start (ss_segments s)))) < sum_list ns")
  case True
  then show ?thesis using Resize_refused [OF assms(1)] by simp
next
  case False
  let ?S = "ss_segments s"
  have a: "sum_list ns \<noteq> 0" "sum_list ns \<le> length (keys_of (drop start ?S))" using False by simp_all
  obtain ks rest k where r: "map length ks = filter (\<lambda>n. n \<noteq> 0) ns"
    and eq: "Resize start ns s = Some (True, s\<lparr>ss_resized := True,
       ss_segments := take start ?S @ map boundary_segment ks @ rest @ drop k ?S\<rparr>)"
    and all: "keys_of (take start ?S @ map boundary_segment ks @ rest @ drop k ?S) = keys_of ?S"
    and rest: "list_all Segment_ok rest" "length rest \<le> 1" "list_all (\<lambda>seg. sg_segment_type seg = FREE \<and> sg_candidates seg = []) rest"
    by (rule Resize_accepted [OF assms a])
  let ?S' = "take start ?S @ map boundary_segment ks @ rest @ drop k ?S"
  have ok: "list_all Segment_ok ?S'"
    using assms(1) rest(1) by (auto simp: list_all_iff boundary_segment_def dest: in_set_takeD in_set_dropD)
  have fixed: "map (\<lambda>seg. length (sg_key seg)) (map boundary_segment ks) = filter (\<lambda>n. n \<noteq> 0) ns"
    "list_all (\<lambda>seg. sg_segment_type seg = FIXED_BOUNDARY \<and> sg_candidates seg = []) (map boundary_segment ks)"
    using r by (simp_all add: list_all_iff boundary_segment_def set_key_def NewSegment_def comp_def)
  show ?thesis
    unfolding if_not_P [OF False]
  proof (intro exI conjI)
    show "Resize start ns s = Some (True, s\<lparr>ss_resized := True, ss_segments := ?S'\<rparr>)" by (rule eq)
    show "ss_segments (s\<lparr>ss_resized := True, ss_segments := ?S'\<rparr>) = ?S'" by simp
  qed (use all ok in simp, use all ok in simp, use all ok in simp, (fact fixed rest)+)
qed

theorem Resize_correct_witness:
  "\<exists>s'. Resize 0 [1, 0, 2] (InitForConvert [97, 98, 99, 100] NewSegments) = Some (True, s') \<and>
     concat (map sg_key (ss_segments s')) = [97, 98, 99, 100]"
proof -
  let ?s = "InitForConvert [97, 98, 99, 100] NewSegments"
  have s: "ss_segments ?s = [set_key [97, 98, 99, 100] NewSegment]"
    by (simp add: InitForConvert_def push_back_segment_def clear_conversion_segments_def set_max_history_segments_size_def NewSegments_def
        erase_range_def history_segments_size_def segments_size_def set_key_def NewSegment_def)
  have a: "list_all Segment_ok (ss_segments ?s)" "segments_size ?s < 2 ^ 63" by (simp_all add: s segments_size_def)
  show ?thesis using Resize_correct [OF a, of "[1, 0, 2]" 0] by (auto simp: s set_key_def)
qed

subsection \<open>History, ranges and suggestions\<close>

lemma range_ops_list:
  assumes "fst r \<le> snd r" "snd r \<le> segments_size s"
  shows "0 \<le> n \<Longrightarrow> \<exists>r'. range_drop n r = Some r' \<and> range_elems s r' = drop (nat n) (range_elems s r)"
    and "0 \<le> n \<Longrightarrow> \<exists>r'. range_take n r = Some r' \<and> range_elems s r' = take (nat n) (range_elems s r)"
    and "0 \<le> n \<Longrightarrow> \<exists>r'. range_take_last n r = Some r' \<and> range_elems s r' = drop (length (range_elems s r) - nat n) (range_elems s r)"
proof -
  have len: "length (range_elems s r) = snd r - fst r" using assms by (simp add: range_elems_def segments_size_def)
  have d: "0 \<le> n \<Longrightarrow> \<exists>r'. range_drop n r = Some r' \<and> range_elems s r' = drop (nat n) (range_elems s r)" for n
    using assms by (auto simp: range_drop_def range_size_def range_elems_def drop_take add.commute)
  then show "0 \<le> n \<Longrightarrow> \<exists>r'. range_drop n r = Some r' \<and> range_elems s r' = drop (nat n) (range_elems s r)" .
  show "0 \<le> n \<Longrightarrow> \<exists>r'. range_take n r = Some r' \<and> range_elems s r' = take (nat n) (range_elems s r)"
  proof (cases "n < range_size r")
    case False
    assume "0 \<le> n"
    with False have "snd r - fst r \<le> nat n" by (simp add: range_size_def)
    then show ?thesis using False \<open>0 \<le> n\<close> by (auto simp: range_take_def range_elems_def min_def)
  qed (use assms in \<open>auto simp: range_take_def range_size_def range_elems_def min_def\<close>)
  show "0 \<le> n \<Longrightarrow> \<exists>r'. range_take_last n r = Some r' \<and> range_elems s r' = drop (length (range_elems s r) - nat n) (range_elems s r)"
    using d [of "max 0 (range_size r - n)"] assms len by (auto simp: range_take_last_def range_size_def nat_diff_distrib max_def)
qed

lemma history_conversion_parts:
  "ss_segments s = range_elems s (history_segments s) @ range_elems s (conversion_segments s)"
  "list_all is_history (range_elems s (history_segments s))"
  "length (range_elems s (conversion_segments s)) = conversion_segments_size s"
proof -
  define H C where "H = takeWhile is_history (ss_segments s)" and "C = dropWhile is_history (ss_segments s)"
  have HC: "ss_segments s = H @ C" by (simp add: H_def C_def)
  have h: "history_segments_size s = length H" by (simp add: history_segments_size_def H_def)
  show "ss_segments s = range_elems s (history_segments s) @ range_elems s (conversion_segments s)"
    "length (range_elems s (conversion_segments s)) = conversion_segments_size s"
    by (simp_all add: range_elems_def history_segments_def conversion_segments_def h segments_size_def conversion_segments_size_def HC)
  show "list_all is_history (range_elems s (history_segments s))"
  proof -
    have "range_elems s (history_segments s) = H" by (simp add: range_elems_def history_segments_def h HC)
    then show ?thesis using set_takeWhileD [of _ is_history "ss_segments s"] by (simp add: H_def list_all_iff)
  qed
qed

lemma clear_history_segments_eq: "clear_history_segments s = s\<lparr>ss_segments := dropWhile is_history (ss_segments s)\<rparr>"
proof (induction s rule: clear_history_segments.induct)
  case (1 s)
  show ?case
  proof (cases "ss_segments s = [] \<or> \<not> is_history (hd (ss_segments s))")
    case True
    then have "dropWhile is_history (ss_segments s) = ss_segments s" by (cases "ss_segments s") auto
    with True show ?thesis by (subst clear_history_segments.simps) simp
  next
    case False
    then obtain x xs where s: "ss_segments s = x # xs" "is_history x" by (cases "ss_segments s") auto
    have "clear_history_segments s = clear_history_segments (pop_front_segment s)"
      by (rule trans [OF clear_history_segments.simps if_not_P]) (rule False)
    also have "\<dots> = (pop_front_segment s)\<lparr>ss_segments := dropWhile is_history (ss_segments (pop_front_segment s))\<rparr>"
      by (rule 1 [OF False])
    also have "\<dots> = s\<lparr>ss_segments := dropWhile is_history (ss_segments s)\<rparr>" using s by (simp add: pop_front_segment_def)
    finally show ?thesis .
  qed
qed

lemma clear_conversion_segments_eq: "ss_segments (clear_conversion_segments s) = takeWhile is_history (ss_segments s)"
  by (simp add: clear_conversion_segments_def erase_range_def history_segments_size_def segments_size_def flip: takeWhile_eq_take)

lemma prepend_loop_eq:
  "i \<le> length (sg_candidates seg) \<Longrightarrow>
   prepend_loop i cs seg = seg\<lparr>sg_candidates := take i (sg_candidates seg) @ cs @ drop i (sg_candidates seg)\<rparr>"
proof (induction cs arbitrary: i seg)
  case (Cons c cs)
  then show ?case
    by (simp add: insert_candidate_def candidates_size_def insert_at_def list_update_append min_def Let_def)
qed simp

text \<open>
  Results of a suggestion are put in front. After \<open>PrependCandidates\<close> the history is the same, the first conversion segment
  has the candidates of the previous segment, then its own, and the meta candidates of the previous segment; if there was no
  conversion segment, there is a new one, for the key of the previous segment.
\<close>

theorem PrependCandidates_correct:
  fixes s :: Segments and previous :: Segment
  defines "first \<equiv> (if conversion_segments_size s = 0 then set_key (sg_key previous) NewSegment else ss_segments s ! history_segments_size s)"
  shows "\<exists>s'. PrependCandidates previous s = Some s' \<and>
    ss_segments s' = takeWhile is_history (ss_segments s) @
      first\<lparr>sg_candidates := sg_candidates previous @ sg_candidates first, sg_meta_candidates := sg_meta_candidates previous\<rparr> #
      tl (dropWhile is_history (ss_segments s))"
proof -
  define H C where "H = takeWhile is_history (ss_segments s)" and "C = dropWhile is_history (ss_segments s)"
  have HC: "ss_segments s = H @ C" by (simp add: H_def C_def)
  have HC_while: "takeWhile is_history (H @ C) = H" "dropWhile is_history (H @ C) = C"
    unfolding HC [symmetric] by (simp_all add: H_def C_def)
  have h: "history_segments_size s = length H" by (simp add: history_segments_size_def H_def)
  have c: "conversion_segments_size s = length C" by (simp add: conversion_segments_size_def h segments_size_def HC)
  let ?g = "\<lambda>seg. seg\<lparr>sg_candidates := sg_candidates previous @ sg_candidates seg, sg_meta_candidates := sg_meta_candidates previous\<rparr>"
  have g: "(prepend_loop 0 (sg_candidates previous) seg)\<lparr>sg_meta_candidates := sg_meta_candidates previous\<rparr> = ?g seg" for seg
    by (simp add: prepend_loop_eq)
  have tw: "takeWhile is_history (H @ [x]) = H" if "\<not> is_history x" for x using that by (simp add: H_def takeWhile_append takeWhile_idem)
  have new: "\<not> is_history (set_key k NewSegment)" for k by (simp add: is_history_def set_key_def NewSegment_def)
  show ?thesis
  proof (cases C)
    case Nil
    then show ?thesis
      using new by (simp add: PrependCandidates_def c mutable_conversion_segment_def mutable_segment_def history_segments_size_def
        segments_size_def push_back_segment_def clear_conversion_segments_eq g first_def tw list_update_append flip: H_def C_def)
  next
    case (Cons x C')
    then show ?thesis
      by (simp add: PrependCandidates_def c h mutable_conversion_segment_def mutable_segment_def segments_size_def HC g first_def
        list_update_append nth_append HC_while [unfolded Cons])
  qed
qed

end
