(* ===== verification/Spec2Isabelle.thy ===== *)
theory Spec2Isabelle
  imports Utf8 Composer ImmutableConverter SystemDictionary LruCache Connector Segments
begin

text \<open>
  A verification development for Mozkey, a Japanese input method (a fork of Mozc).

  \<^bold>\<open>The program.\<close> The user types keys. A session hands each key event to the \<^emph>\<open>composer\<close>, which keeps the text that is
  being typed: it turns Roman letters into kana by the rules of a \<^emph>\<open>table\<close>, chunk by chunk, with a cursor, input modes
  and transliterations. For a conversion, the \<^emph>\<open>converter\<close> makes a \<^emph>\<open>lattice\<close> of the words of the \<^emph>\<open>dictionary\<close> that can
  begin at each position of the key and finds the cheapest path through it; the costs of neighbouring words come from
  the \<^emph>\<open>connector\<close>. The words are in the \<^emph>\<open>system dictionary\<close>, an image of two succinct tries and an array of token
  bytes, made by the dictionary builder when the program is built. Prediction, rewriters, the renderer, the front ends
  for the platforms and the settings dialogs are around this core.

  \<^bold>\<open>Theories and sources\<close> (paths under \<^verbatim>\<open>src/src/\<close>).
  \<^item> \<open>Prelude\<close>: strings as lists of code points with their sizes in UTF-8, outcomes of calls (value, exception, out of
    fuel), prefixes and list lemmas.
  \<^item> \<open>Utf8\<close>, \<open>Util\<close>: \<^verbatim>\<open>base/strings/internal/utf8_internal.cc\<close>, \<^verbatim>\<open>base/strings/unicode.h\<close>, \<^verbatim>\<open>base/util.cc\<close>: decoding, encoding and
    validation of bytes; the round trip and the characterisation of valid input, which justify the model of strings.
  \<^item> \<open>Trie\<close>: \<^verbatim>\<open>base/container/trie.h\<close>; a refinement of finite maps.
  \<^item> \<open>SpecialKey\<close>, \<open>Protocol\<close>, \<open>Table\<close>: \<^verbatim>\<open>composer/special_key.cc\<close>, \<^verbatim>\<open>composer/table.cc\<close> and the messages they read: rules, loop
    check, look-up, loading, cache of tables.
  \<^item> \<open>Transliterators\<close>, \<open>KeyEvent\<close>: \<^verbatim>\<open>composer/transliterators.cc\<close>, \<^verbatim>\<open>composer/key_event_util.cc\<close>, \<^verbatim>\<open>composer/key_parser.cc\<close>.
  \<^item> \<open>CharChunk\<close>, \<open>Composition\<close>, \<open>Composer\<close>: the classes of \<^verbatim>\<open>composer/char_chunk.cc\<close>, \<^verbatim>\<open>composer/composition.cc\<close> and
    \<^verbatim>\<open>composer/composer.cc\<close>, one record for each with the members as fields and one function for each method. The lemmas
    show under which conditions on tables and input no key is lost, that positions and cuts agree with the string on display, that
    the cursor stays in range, which tables make the loops end, and where accepted tables or events make them fail. The theorems on
    cuts and deletion are for chunks that show their text plainly (\<open>shows_plainly\<close>, \<open>well_shown\<close>: all display modes but half-width
    Katakana, without special keys, \<^verbatim>\<open>NO_TRANSLITERATION\<close> or an ambiguous result on display); theorems show what goes wrong
    with an ambiguous result.
  \<^item> \<open>ImmutableConverter\<close>: \<^verbatim>\<open>converter/node.h\<close>, \<^verbatim>\<open>converter/lattice.cc\<close> and the searches of \<^verbatim>\<open>converter/immutable_converter.cc\<close>:
    the Viterbi search finds a path of least cost, and the cache of transition costs makes no difference; costs are
    unbounded integers in the model, and a bound on them that keeps the 32-bit sums of the search in range is a theorem; the
    search for predictions does not look at the constraints of nodes.
  \<^item> \<open>Connector\<close>: \<^verbatim>\<open>converter/connector.cc\<close> and \<^verbatim>\<open>data_manager/gen_connection_data.py\<close>: what the generator writes, the connector
    answers.
  \<^item> \<open>BitVector\<close>, \<open>LoudsTrie\<close>, \<open>LoudsTrieBuilder\<close>, \<open>BitVectorBasedArray\<close>: \<^verbatim>\<open>storage/louds/\<close>: rank and select, tries as bit
    sequences, and the builders of their images. Sizes that the readers keep as \<^verbatim>\<open>int\<close> are narrowed to 32 bits; positions inside
    a bit vector are natural numbers.
  \<^item> \<open>DictionaryCodec\<close>, \<open>SystemDictionaryBuilder\<close>, \<open>SystemDictionary\<close>: \<^verbatim>\<open>dictionary/system/\<close>: the bytes of keys, values and tokens, all
    passes of the builder, and the dictionary that reads its image with tries and arrays, with and without the expansion of
    Hiragana keys: without it, what was put in is found, with the precision of costs and the order that the passes give. Keys and
    values of these theorems have no U+0000, which the codec drops.
  \<^item> \<open>NumberUtil\<close>: \<^verbatim>\<open>base/number_util.cc\<close>: numbers in kanji and other forms, and the reader of numbers in kanji with
    its 64-bit arithmetic; what the writer writes, the reader reads.
  \<^item> \<open>InnerSegment\<close>, \<open>Segments\<close>: \<^verbatim>\<open>converter/inner_segment.h\<close>, \<^verbatim>\<open>converter/candidate.cc\<close> and \<^verbatim>\<open>converter/segments.cc\<close>: the
    result of a conversion and the operations on its candidates and boundaries; resizing keeps the key, the loops that move
    candidates are list operations, and encoded word boundaries come back.
  \<^item> \<open>LruCache\<close>: \<^verbatim>\<open>storage/lru_cache.h\<close>: pointers in a heap, refining a bounded list in order of recency.

  \<^bold>\<open>Interfaces.\<close> Where a component serves another through a contract, the contract is a locale that is interpreted on the
  definitions of the code (rank and select for the tries, the recency list for the cache, and those named in the theories).

  \<^bold>\<open>Partiality.\<close> \<open>None\<close> is a failed \<^verbatim>\<open>CHECK\<close> or undefined behaviour where a theory says so, \<open>Throw\<close> an exception.
  Loops of the code that need not end are functions with fuel (\<open>Timeout\<close>) or \<open>partial_function\<close> (\<open>None\<close>); that they end is
  a theorem with its conditions: \<open>InsertInput\<close> and \<open>AddInput\<close> for tables whose pending strings are ranked, for which
  the fuel that is enough is computed; building arrays for steps of at most one more than the base.

  \<^bold>\<open>Arguments of the model.\<close> The tables of \<^verbatim>\<open>japanese.cc\<close> (generated), the character forms of the user, the embedded rule
  files, the segmenter and the connection matrix are parameters; no theorem assumes more of them than its statement says.

  \<^bold>\<open>Not modelled.\<close> Predictive and reverse look-up and the file codec of dictionaries; filling the lattice, n-best candidates, prediction, rewriters, sessions and the
  engine; the generated data, files, memory maps, processes, pipes, HTTP, the user interfaces and the front ends.
\<close>

end
